(* ===== verification/Prelude.thy ===== *)
theory Prelude
  imports Main "HOL-Library.AList" "HOL-Library.Word"
begin

text \<open>
  What every component of the development shares: the exceptions of the program as values,
  Python's insertion ordered dictionaries as association lists, and the generic facts about
  lists, association lists and bit operations on which the component theories rest.

  A Python \<open>dict\<close> keeps its keys in insertion order and overwrites in place;
  \<open>AList.update\<close> does exactly that, and \<open>AList.delete\<close> is \<open>dict.pop\<close>. An
  \<open>OrderedDict\<close> adds \<open>move_to_end\<close>.
\<close>

named_theorems am_simps \<comment> \<open>unfolding of the address manager\<close>
named_theorems reg_simps \<comment> \<open>unfolding of the controller's registry\<close>

section \<open>Exceptions\<close>

datatype py_error =
    KeyError
  | ValueError
  | IndexError
  | RuntimeError
  | AssertionError
  | StructError
  | ZeroDivisionError
  | NotImplementedError
  | AttributeError
  | TypeError
  | LockTimeout
  | OSError
  | NoReturn \<comment> \<open>the call does not return\<close>

type_synonym 'a result = "py_error + 'a"

fun is_ok :: "'a result \<Rightarrow> bool" where
  "is_ok (Inl _) = False"
| "is_ok (Inr _) = True"

definition res_bind :: "'a result \<Rightarrow> ('a \<Rightarrow> 'b result) \<Rightarrow> 'b result" where
  "res_bind r f = (case r of Inl e \<Rightarrow> Inl e | Inr x \<Rightarrow> f x)"

section \<open>Insertion ordered dictionaries\<close>

type_synonym ('k, 'v) odict = "('k \<times> 'v) list"

abbreviation od_keys :: "('k, 'v) odict \<Rightarrow> 'k list" where
  "od_keys d \<equiv> map fst d"

abbreviation od_wf :: "('k, 'v) odict \<Rightarrow> bool" where
  "od_wf d \<equiv> distinct (map fst d)"

definition od_move_to_end :: "'k \<Rightarrow> ('k, 'v) odict \<Rightarrow> ('k, 'v) odict result" where
  "od_move_to_end k d =
     (case map_of d k of
        None \<Rightarrow> Inl KeyError
      | Some v \<Rightarrow> Inr (AList.delete k d @ [(k, v)]))"

lemma res_bind_simps [simp]:
  "res_bind (Inl e) f = Inl e"
  "res_bind (Inr x) f = f x"
  by (simp_all add: res_bind_def)

lemma is_ok_iff: "is_ok r \<longleftrightarrow> (\<exists>x. r = Inr x)"
  by (cases r) auto

lemma od_move_to_end_Inr:
  "od_move_to_end k d = Inr d' \<longleftrightarrow> (\<exists>v. map_of d k = Some v \<and> d' = AList.delete k d @ [(k, v)])"
  by (auto simp: od_move_to_end_def split: option.splits)

lemma od_wf_delete [simp]: "od_wf d \<Longrightarrow> od_wf (AList.delete k d)"
  by (simp add: distinct_delete)

lemma od_wf_update [simp]: "od_wf d \<Longrightarrow> od_wf (AList.update k v d)"
  by (simp add: distinct_update)

lemma map_of_update_od [simp]: "map_of (AList.update k v d) = (map_of d)(k \<mapsto> v)"
  by (simp add: update_conv')

lemma map_of_delete_od [simp]: "map_of (AList.delete k d) = (map_of d)(k := None)"
  by (simp add: delete_conv')

lemma map_of_None_keys: "map_of d k = None \<longleftrightarrow> k \<notin> set (od_keys d)"
  by (simp add: map_of_eq_None_iff)

lemma map_of_Some_key: "map_of d k = Some v \<Longrightarrow> k \<in> set (od_keys d)"
  by (metis map_of_None_keys option.distinct(1))

lemma map_of_move_to_end:
  assumes "od_move_to_end k d = Inr d'"
  shows "map_of d' = map_of d"
  using assms by (auto simp: od_move_to_end_Inr map_add_def fun_eq_iff split: option.splits)

lemma od_wf_move_to_end:
  assumes "od_move_to_end k d = Inr d'" and "od_wf d"
  shows "od_wf d'"
  using assms by (auto simp: od_move_to_end_Inr delete_keys distinct_removeAll)

lemma set_keys_delete: "set (od_keys (AList.delete k d)) = set (od_keys d) - {k}"
  by (simp add: delete_keys del: set_map)

lemma set_keys_move_to_end:
  assumes "od_move_to_end k d = Inr d'"
  shows "set (od_keys d') = set (od_keys d)"
proof -
  obtain v where v: "map_of d k = Some v" and d': "d' = AList.delete k d @ [(k, v)]"
    using assms by (auto simp: od_move_to_end_Inr)
  from v have "k \<in> set (od_keys d)" by (rule map_of_Some_key)
  then show ?thesis by (simp add: d' set_keys_delete insert_absorb del: set_map)
qed

section \<open>Alignment by masking\<close>

unbundle bit_operations_syntax

lemma and_not_mask_int: "(x::int) AND NOT (2 ^ k - 1) = (x div 2 ^ k) * 2 ^ k"
proof -
  have "x AND NOT (mask k) = push_bit k (drop_bit k x)"
    by (rule bit_eqI) (auto simp: bit_simps)
  then show ?thesis
    by (simp add: mask_eq_exp_minus_1 push_bit_eq_mult drop_bit_eq_div)
qed

lemma align_up_bounds:
  fixes x a :: int
  assumes "0 < a"
  shows "x \<le> ((x + a - 1) div a) * a" and "((x + a - 1) div a) * a < x + a"
proof -
  have "(x + a - 1) = ((x + a - 1) div a) * a + (x + a - 1) mod a"
    by simp
  moreover have "0 \<le> (x + a - 1) mod a" and "(x + a - 1) mod a < a"
    using assms by simp_all
  ultimately show "x \<le> ((x + a - 1) div a) * a" and "((x + a - 1) div a) * a < x + a"
    by linarith+
qed

section \<open>Slices\<close>

text \<open>\<open>xs[a:b]\<close>: negative bounds count from the end, bounds out of range are clipped.\<close>

definition slice_bound :: "int \<Rightarrow> int \<Rightarrow> int" where
  "slice_bound n i = (if i < 0 then max 0 (i + n) else min i n)"

definition py_slice :: "'a list \<Rightarrow> int \<Rightarrow> int \<Rightarrow> 'a list" where
  "py_slice xs a b =
     (let n = int (length xs); a' = slice_bound n a; b' = slice_bound n b
      in take (nat (b' - a')) (drop (nat a') xs))"

lemma py_slice_nat:
  assumes "i \<le> j" and "j \<le> length xs"
  shows "py_slice xs (int i) (int j) = take (j - i) (drop i xs)"
  using assms by (simp add: py_slice_def slice_bound_def nat_diff_distrib min_def)

lemma py_slice_append:
  assumes "i \<le> j" and "j \<le> k" and "k \<le> length xs"
  shows "py_slice xs (int i) (int j) @ py_slice xs (int j) (int k) = py_slice xs (int i) (int k)"
proof -
  have "take (k - i) (drop i xs) = take (j - i) (drop i xs) @ take (k - j) (drop (j - i) (drop i xs))"
    using assms take_add[of "j - i" "k - j" "drop i xs"] by simp
  with assms show ?thesis by (simp add: py_slice_nat)
qed

text \<open>Cutting a list into \<open>n\<close> consecutive pieces at the bounds \<open>b 0\<close>, ..., \<open>b n\<close>.\<close>

lemma py_slice_pieces:
  assumes "\<forall>j < n. bd j \<le> bd (Suc j)" and "bd n \<le> length xs"
  shows "concat (map (\<lambda>j. py_slice xs (int (bd j)) (int (bd (Suc j)))) [0..<n]) =
    py_slice xs (int (bd 0)) (int (bd n)) \<and> bd 0 \<le> bd n"
  using assms
proof (induction n)
  case (Suc n)
  have le: "bd n \<le> bd (Suc n)" and "bd n \<le> length xs" using Suc.prems by auto
  with Suc have "concat (map (\<lambda>j. py_slice xs (int (bd j)) (int (bd (Suc j)))) [0..<n]) =
    py_slice xs (int (bd 0)) (int (bd n)) \<and> bd 0 \<le> bd n" by simp
  with py_slice_append[of "bd 0" "bd n" "bd (Suc n)" xs] le Suc.prems(2) show ?case by simp
qed (simp add: py_slice_nat)

end
