(* ===== verification/Messages.thy ===== *)
theory Messages
  imports Prelude
begin

text \<open>
  The messages between a worker and the cache controller (\<open>v1/cache_controller/message.py\<close>)
  and what a stream of key operations means: \<open>replay_msgs\<close> is the set of chunk hashes a
  reader holds after applying \<open>ADMIT\<close> and \<open>EVICT\<close> events in order. Instance ids, locations
  and sync ids are strings; chunk hashes are a type parameter.

  The locale \<open>key_pool\<close> states what a receiver of batched operations promises: handling a
  batch changes the held keys as the replay of its operations. It is interpreted on the
  worker nodes of the registry.
\<close>

declare map_of_eq_Some_iff [simp del] Some_eq_map_of_iff [simp del]

datatype op_type = ADMIT | EVICT

record 'h kv_op_event =
  op_kind :: op_type
  op_key :: 'h
  op_seq :: int

record 'h batched_kv_msg =
  bm_instance :: string
  bm_worker :: int
  bm_location :: string
  bm_operations :: "'h kv_op_event list"

record full_sync_start_msg =
  fs_instance :: string
  fs_worker :: int
  fs_location :: string
  fs_sync_id :: string
  fs_total_keys :: int
  fs_batch_count :: int

record 'h full_sync_batch_msg =
  fb_instance :: string
  fb_worker :: int
  fb_location :: string
  fb_sync_id :: string
  fb_batch_id :: int
  fb_keys :: "'h list"

record full_sync_end_msg =
  fe_instance :: string
  fe_worker :: int
  fe_location :: string
  fe_sync_id :: string
  fe_actual_total_keys :: int

record full_sync_status_ret =
  fr_sync_id :: string
  fr_is_complete :: bool
  fr_global_progress :: "int \<times> int"
  fr_can_exit_freeze :: bool
  fr_missing_batches :: "int list"

section \<open>The meaning of a stream of operations\<close>

fun replay_msgs :: "(op_type \<times> 'h) list \<Rightarrow> 'h set \<Rightarrow> 'h set" where
  "replay_msgs [] S = S"
| "replay_msgs ((ADMIT, h) # msgs) S = replay_msgs msgs (insert h S)"
| "replay_msgs ((EVICT, h) # msgs) S = replay_msgs msgs (S - {h})"

lemma replay_append [simp]: "replay_msgs (xs @ ys) S = replay_msgs ys (replay_msgs xs S)"
  by (induction xs S rule: replay_msgs.induct) auto

definition op_pair :: "'h kv_op_event \<Rightarrow> op_type \<times> 'h" where
  "op_pair e = (op_kind e, op_key e)"

abbreviation replay_ops :: "'h kv_op_event list \<Rightarrow> 'h set \<Rightarrow> 'h set" where
  "replay_ops ops S \<equiv> replay_msgs (map op_pair ops) S"

lemma replay_Cons: "replay_msgs ((t, h) # msgs) S =
    replay_msgs msgs (case t of ADMIT \<Rightarrow> insert h S | EVICT \<Rightarrow> S - {h})"
  by (cases t) simp_all

lemma finite_replay [simp]: "finite S \<Longrightarrow> finite (replay_msgs msgs S)"
  by (induction msgs S rule: replay_msgs.induct) auto

lemma replay_admits: "replay_msgs (map (\<lambda>k. (ADMIT, k)) ks) S = S \<union> set ks"
  by (induction ks arbitrary: S) auto

text \<open>Sequence numbers that follow on each other, \<open>last\<close> the number before the first.\<close>

fun consecutive :: "int option \<Rightarrow> int list \<Rightarrow> bool" where
  "consecutive prev [] = True"
| "consecutive None (s # ss) = consecutive (Some s) ss"
| "consecutive (Some p) (s # ss) = (s = p + 1 \<and> consecutive (Some s) ss)"

definition last_seq :: "int option \<Rightarrow> int list \<Rightarrow> int option" where
  "last_seq prev ss = (if ss = [] then prev else Some (last ss))"

lemma last_seq_simps [simp]:
  "last_seq prev [] = prev"
  "last_seq prev (s # ss) = last_seq (Some s) ss"
  "last_seq prev (xs @ ys) = last_seq (last_seq prev xs) ys"
  by (simp_all add: last_seq_def)

lemma consecutive_append:
  "consecutive prev (xs @ ys) \<longleftrightarrow> consecutive prev xs \<and> consecutive (last_seq prev xs) ys"
  by (induction prev xs rule: consecutive.induct) auto

lemma consecutive_upt: "consecutive (Some p) (map (\<lambda>i. p + 1 + int i) [0..<n])"
proof (induction n)
  case (Suc n)
  have "last_seq (Some p) (map (\<lambda>i. p + 1 + int i) [0..<n]) = Some (p + int n)"
    by (cases n) (simp_all add: last_seq_def)
  with Suc show ?case by (simp add: consecutive_append)
qed simp

section \<open>What a receiver of batches promises\<close>

locale key_pool =
  fixes handle :: "'st \<Rightarrow> 'h kv_op_event list \<Rightarrow> 'st"
    and held :: "'st \<Rightarrow> 'h set"
    and ready :: "'st \<Rightarrow> bool"
  assumes handle_held: "ready st \<Longrightarrow> held (handle st ops) = replay_ops ops (held st)"
    and handle_ready: "ready st \<Longrightarrow> ready (handle st ops)"
begin

lemma handle_all_ready: "ready st \<Longrightarrow> ready (foldl handle st batches)"
  by (induction batches arbitrary: st) (simp_all add: handle_ready)

lemma handle_all: "ready st \<Longrightarrow> held (foldl handle st batches) = replay_ops (concat batches) (held st)"
  by (induction batches arbitrary: st) (simp_all add: handle_held handle_ready)

end

end
