(* ===== verification/Registry.thy ===== *)
theory Registry
  imports Messages
begin

text \<open>
  The registry of the cache controller: \<open>v1/cache_controller/utils.py\<close> and the
  \<open>TTLListCache\<close> of \<open>v1/utils/cache_utils.py\<close>.

  A worker node is a mutable object to which both the registry and the cached node list point.
  The node store is therefore a list of nodes and a reference is a position in it; creating a
  node appends to the store. Dictionaries are insertion ordered association lists, so that the
  first match of a search is the one the code finds. Sets of chunk hashes are HOL sets, kept
  finite by the invariant. Times are integers; the locks make each operation one step. The ZMQ
  socket of a node is not part of the model.

  \<open>registry_inv\<close> is the representation invariant, \<open>pool\<close> the abstract contents: which
  instance, worker and location holds which chunk hash.
\<close>

declare map_of_eq_Some_iff [simp del] Some_eq_map_of_iff [simp del]

section \<open>TTLListCache\<close>

record 'a ttl_cache =
  ttl_items :: "'a list"
  ttl_time :: int
  ttl_timeout :: int

definition ttl_init :: "int \<Rightarrow> 'a ttl_cache" where
  "ttl_init timeout = \<lparr>ttl_items = [], ttl_time = 0, ttl_timeout = timeout\<rparr>"

definition ttl_is_expired :: "int option \<Rightarrow> int \<Rightarrow> 'a ttl_cache \<Rightarrow> bool" where
  "ttl_is_expired override now c =
     (if ttl_time c = 0 then True
      else let effective = (case override of Some t \<Rightarrow> t | None \<Rightarrow> ttl_timeout c)
           in effective \<le> now - ttl_time c)"

definition ttl_get_cached :: "int \<Rightarrow> 'a list \<Rightarrow> int option \<Rightarrow> 'a ttl_cache \<Rightarrow> 'a ttl_cache \<times> 'a list" where
  "ttl_get_cached now fresh override c =
     (if \<not> ttl_is_expired override now c then (c, ttl_items c)
      else (c\<lparr>ttl_items := fresh, ttl_time := now\<rparr>, fresh))"

definition ttl_clear :: "'a ttl_cache \<Rightarrow> 'a ttl_cache" where
  "ttl_clear c = c\<lparr>ttl_items := [], ttl_time := 0\<rparr>"

section \<open>Worker nodes\<close>

datatype full_sync_state = IDLE | SYNCING | COMPLETED | FAILED

record worker_sync_info =
  sync_id :: string
  sync_state :: full_sync_state
  start_time :: int
  expected_total_keys :: int
  expected_batch_count :: int
  received_batches :: "int set"
  received_keys_count :: int
  last_activity_time :: int

definition mk_sync_info :: "string \<Rightarrow> full_sync_state \<Rightarrow> int \<Rightarrow> int \<Rightarrow> int \<Rightarrow> int \<Rightarrow> worker_sync_info" where
  "mk_sync_info sid st start keys batches activity =
     \<lparr>sync_id = sid, sync_state = st, start_time = start, expected_total_keys = keys,
      expected_batch_count = batches, received_batches = {}, received_keys_count = 0,
      last_activity_time = (if activity = 0 then start else activity)\<rparr>"

record 'h worker_node =
  worker_id :: int
  worker_ip :: string
  worker_port :: int
  peer_init_url :: "string option"
  registration_time :: int
  last_heartbeat_time :: int
  seq_tracker :: "(string, int) odict"
  kv_store :: "(string, 'h set) odict"
  sync_info :: "worker_sync_info option"

record kv_chunk_info =
  ci_instance :: string
  ci_worker :: int
  ci_location :: string

record worker_info =
  wi_instance :: string
  wi_worker :: int
  wi_ip :: string
  wi_port :: int
  wi_peer_init_url :: "string option"
  wi_registration_time :: int
  wi_last_heartbeat_time :: int

definition is_syncing :: "'h worker_node \<Rightarrow> bool" where
  "is_syncing n = (case sync_info n of None \<Rightarrow> False | Some si \<Rightarrow> sync_state si = SYNCING)"

definition keys_at :: "string \<Rightarrow> 'h worker_node \<Rightarrow> 'h set" where
  "keys_at loc n = (case map_of (kv_store n) loc of None \<Rightarrow> {} | Some ks \<Rightarrow> ks)"

definition apply_kv_op :: "string \<Rightarrow> 'h kv_op_event \<Rightarrow> 'h worker_node \<Rightarrow> 'h worker_node" where
  "apply_kv_op loc e n =
     (case op_kind e of
        ADMIT \<Rightarrow> n\<lparr>kv_store := AList.update loc (insert (op_key e) (keys_at loc n)) (kv_store n)\<rparr>
      | EVICT \<Rightarrow> n\<lparr>kv_store := AList.update loc (keys_at loc n - {op_key e}) (kv_store n)\<rparr>)"

text \<open>The loop over the operations of a batch; the warning is the first gap that was met
  (expected number, actual number, gap).\<close>

fun wn_ops_loop ::
    "string \<Rightarrow> bool \<Rightarrow> 'h kv_op_event list \<Rightarrow> 'h worker_node \<Rightarrow> (int \<times> int \<times> int) option
      \<Rightarrow> 'h worker_node \<times> (int \<times> int \<times> int) option" where
  "wn_ops_loop loc full_sync [] n warning = (n, warning)"
| "wn_ops_loop loc full_sync (e # es) n warning =
     (let n1 = apply_kv_op loc e n
      in if full_sync then wn_ops_loop loc full_sync es n1 warning
         else let warning' =
                    (case map_of (seq_tracker n1) loc of
                       None \<Rightarrow> warning
                     | Some last_seq_num \<Rightarrow>
                         if op_seq e \<noteq> last_seq_num + 1 \<and> warning = None
                         then Some (last_seq_num + 1, op_seq e, op_seq e - (last_seq_num + 1))
                         else warning)
              in wn_ops_loop loc full_sync es
                   (n1\<lparr>seq_tracker := AList.update loc (op_seq e) (seq_tracker n1)\<rparr>) warning')"

definition wn_handle_batched ::
    "'h batched_kv_msg \<Rightarrow> bool \<Rightarrow> 'h worker_node
      \<Rightarrow> 'h worker_node \<times> (int \<times> int \<times> int) option \<times> bool" where
  "wn_handle_batched msg full_sync n =
     (if is_syncing n \<and> \<not> full_sync then (n, None, False)
      else let loc = bm_location msg;
               n1 = (if map_of (kv_store n) loc = None
                     then n\<lparr>kv_store := AList.update loc {} (kv_store n)\<rparr> else n);
               (n2, warning) = wn_ops_loop loc full_sync (bm_operations msg) n1 None;
               n3 = (if keys_at loc n2 = {}
                     then n2\<lparr>kv_store := AList.delete loc (kv_store n2)\<rparr> else n2)
           in (n3, warning, True))"

definition wn_has_kv :: "string \<Rightarrow> 'h \<Rightarrow> 'h worker_node \<Rightarrow> bool" where
  "wn_has_kv loc key n =
     (case map_of (kv_store n) loc of None \<Rightarrow> False | Some ks \<Rightarrow> key \<in> ks)"

definition wn_get_kv_keys :: "string \<Rightarrow> 'h worker_node \<Rightarrow> 'h set" where
  "wn_get_kv_keys loc n = (case map_of (kv_store n) loc of None \<Rightarrow> {} | Some ks \<Rightarrow> ks)"

definition wn_clear_kv_store :: "'h worker_node \<Rightarrow> 'h worker_node" where
  "wn_clear_kv_store n = n\<lparr>kv_store := [], seq_tracker := []\<rparr>"

definition wn_clear_location :: "string \<Rightarrow> 'h worker_node \<Rightarrow> 'h worker_node" where
  "wn_clear_location loc n =
     n\<lparr>kv_store := AList.delete loc (kv_store n), seq_tracker := AList.delete loc (seq_tracker n)\<rparr>"

definition wn_get_kv_count :: "'h worker_node \<Rightarrow> nat" where
  "wn_get_kv_count n = sum_list (map (\<lambda>(loc, ks). card ks) (kv_store n))"

definition wn_update_seq_num :: "string \<Rightarrow> int \<Rightarrow> 'h worker_node \<Rightarrow> 'h worker_node" where
  "wn_update_seq_num loc s n = n\<lparr>seq_tracker := AList.update loc s (seq_tracker n)\<rparr>"

definition wn_get_seq_num :: "string \<Rightarrow> 'h worker_node \<Rightarrow> int option" where
  "wn_get_seq_num loc n = map_of (seq_tracker n) loc"

fun find_in_store :: "'h \<Rightarrow> (string, 'h set) odict \<Rightarrow> (string \<times> 'h set) option" where
  "find_in_store key [] = None"
| "find_in_store key ((loc, ks) # rest) = (if key \<in> ks then Some (loc, ks) else find_in_store key rest)"

definition wn_find_key :: "'h \<Rightarrow> 'h worker_node \<Rightarrow> (kv_chunk_info \<times> string option \<times> 'h set) option" where
  "wn_find_key key n =
     (case find_in_store key (kv_store n) of
        None \<Rightarrow> None
      | Some (loc, ks) \<Rightarrow>
          Some (\<lparr>ci_instance = '''', ci_worker = worker_id n, ci_location = loc\<rparr>, peer_init_url n, ks))"

definition wn_find_key_simple :: "'h \<Rightarrow> 'h worker_node \<Rightarrow> kv_chunk_info option" where
  "wn_find_key_simple key n =
     (case find_in_store key (kv_store n) of
        None \<Rightarrow> None
      | Some (loc, ks) \<Rightarrow> Some \<lparr>ci_instance = '''', ci_worker = worker_id n, ci_location = loc\<rparr>)"

definition to_worker_info :: "string \<Rightarrow> 'h worker_node \<Rightarrow> worker_info" where
  "to_worker_info inst n =
     \<lparr>wi_instance = inst, wi_worker = worker_id n, wi_ip = worker_ip n, wi_port = worker_port n,
      wi_peer_init_url = peer_init_url n, wi_registration_time = registration_time n,
      wi_last_heartbeat_time = last_heartbeat_time n\<rparr>"

section \<open>Instances and the registry tree\<close>

record instance_node =
  instance_id :: string
  workers :: "(int, nat) odict"

record 'h registry =
  node_store :: "'h worker_node list"
  instances :: "(string, instance_node) odict"
  seq_discontinuity_count :: int
  worker_info_cache :: "worker_info ttl_cache"
  worker_node_cache :: "(string \<times> nat) ttl_cache"

definition registry_init :: "'h registry" where
  "registry_init = \<lparr>node_store = [], instances = [], seq_discontinuity_count = 0,
     worker_info_cache = ttl_init 30, worker_node_cache = ttl_init 30\<rparr>"

definition node_at :: "('h, 'x) registry_scheme \<Rightarrow> nat \<Rightarrow> 'h worker_node" where
  "node_at r i = node_store r ! i"

definition upd_node :: "nat \<Rightarrow> ('h worker_node \<Rightarrow> 'h worker_node) \<Rightarrow> ('h, 'x) registry_scheme \<Rightarrow> ('h, 'x) registry_scheme" where
  "upd_node i f r = r\<lparr>node_store := (node_store r)[i := f (node_store r ! i)]\<rparr>"

definition get_instance :: "string \<Rightarrow> ('h, 'x) registry_scheme \<Rightarrow> instance_node option" where
  "get_instance inst r = map_of (instances r) inst"

definition get_worker :: "string \<Rightarrow> int \<Rightarrow> ('h, 'x) registry_scheme \<Rightarrow> nat option" where
  "get_worker inst w r =
     (case get_instance inst r of None \<Rightarrow> None | Some node \<Rightarrow> map_of (workers node) w)"

definition get_or_create_instance :: "string \<Rightarrow> ('h, 'x) registry_scheme \<Rightarrow> ('h, 'x) registry_scheme \<times> instance_node" where
  "get_or_create_instance inst r =
     (case get_instance inst r of
        Some node \<Rightarrow> (r, node)
      | None \<Rightarrow> let node = \<lparr>instance_id = inst, workers = []\<rparr>
                in (r\<lparr>instances := AList.update inst node (instances r)\<rparr>, node))"

definition mk_worker_node :: "int \<Rightarrow> string \<Rightarrow> int \<Rightarrow> string option \<Rightarrow> int \<Rightarrow> 'h worker_node" where
  "mk_worker_node w addr prt url now =
     \<lparr>worker_id = w, worker_ip = addr, worker_port = prt, peer_init_url = url,
      registration_time = now, last_heartbeat_time = now, seq_tracker = [], kv_store = [],
      sync_info = None\<rparr>"

definition register_worker ::
    "string \<Rightarrow> int \<Rightarrow> string \<Rightarrow> int \<Rightarrow> string option \<Rightarrow> int \<Rightarrow> ('h, 'x) registry_scheme
      \<Rightarrow> ('h, 'x) registry_scheme \<times> nat" where
  "register_worker inst w addr prt url now r =
     (let (r1, node) = get_or_create_instance inst r;
          i = length (node_store r1);
          node' = node\<lparr>workers := AList.update w i (workers node)\<rparr>
      in (r1\<lparr>node_store := node_store r1 @ [mk_worker_node w addr prt url now],
             instances := AList.update inst node' (instances r1)\<rparr>, i))"

definition deregister_worker :: "string \<Rightarrow> int \<Rightarrow> ('h, 'x) registry_scheme \<Rightarrow> ('h, 'x) registry_scheme \<times> nat option" where
  "deregister_worker inst w r =
     (case get_instance inst r of
        None \<Rightarrow> (r, None)
      | Some node \<Rightarrow>
          let worker_node = map_of (workers node) w;
              node' = node\<lparr>workers := AList.delete w (workers node)\<rparr>
          in (if workers node' = [] then r\<lparr>instances := AList.delete inst (instances r)\<rparr>
              else r\<lparr>instances := AList.update inst node' (instances r)\<rparr>, worker_node))"

definition has_worker_with_ip :: "('h, 'x) registry_scheme \<Rightarrow> string \<Rightarrow> instance_node \<Rightarrow> bool" where
  "has_worker_with_ip r addr node = list_ex (\<lambda>(w, i). worker_ip (node_at r i) = addr) (workers node)"

definition get_instance_by_ip :: "string \<Rightarrow> ('h, 'x) registry_scheme \<Rightarrow> instance_node option" where
  "get_instance_by_ip addr r = find (has_worker_with_ip r addr) (map snd (instances r))"

definition get_instances_by_ip :: "string \<Rightarrow> ('h, 'x) registry_scheme \<Rightarrow> instance_node list" where
  "get_instances_by_ip addr r = filter (has_worker_with_ip r addr) (map snd (instances r))"

definition get_worker_ids :: "string \<Rightarrow> ('h, 'x) registry_scheme \<Rightarrow> int list" where
  "get_worker_ids inst r =
     (case get_instance inst r of None \<Rightarrow> [] | Some node \<Rightarrow> sort (map fst (workers node)))"

definition in_worker_infos :: "('h, 'x) registry_scheme \<Rightarrow> instance_node \<Rightarrow> worker_info list" where
  "in_worker_infos r node = map (\<lambda>(w, i). to_worker_info (instance_id node) (node_at r i)) (workers node)"

definition all_worker_infos_fresh :: "('h, 'x) registry_scheme \<Rightarrow> worker_info list" where
  "all_worker_infos_fresh r = concat (map (\<lambda>(inst, node). in_worker_infos r node) (instances r))"

definition all_worker_infos_cached ::
    "int \<Rightarrow> int option \<Rightarrow> ('h, 'x) registry_scheme \<Rightarrow> ('h, 'x) registry_scheme \<times> worker_info list" where
  "all_worker_infos_cached now timeout r =
     (let (c, xs) = ttl_get_cached now (all_worker_infos_fresh r) timeout (worker_info_cache r)
      in (r\<lparr>worker_info_cache := c\<rparr>, xs))"

definition all_worker_nodes_fresh :: "('h, 'x) registry_scheme \<Rightarrow> (string \<times> nat) list" where
  "all_worker_nodes_fresh r =
     concat (map (\<lambda>(inst, node). map (\<lambda>(w, i). (inst, i)) (workers node)) (instances r))"

definition all_worker_nodes_cached ::
    "int \<Rightarrow> int option \<Rightarrow> ('h, 'x) registry_scheme \<Rightarrow> ('h, 'x) registry_scheme \<times> (string \<times> nat) list" where
  "all_worker_nodes_cached now timeout r =
     (let (c, xs) = ttl_get_cached now (all_worker_nodes_fresh r) timeout (worker_node_cache r)
      in (r\<lparr>worker_node_cache := c\<rparr>, xs))"

definition update_heartbeat :: "string \<Rightarrow> int \<Rightarrow> int \<Rightarrow> ('h, 'x) registry_scheme \<Rightarrow> ('h, 'x) registry_scheme \<times> bool" where
  "update_heartbeat inst w now r =
     (case get_worker inst w r of
        None \<Rightarrow> (r, False)
      | Some i \<Rightarrow> (upd_node i (\<lambda>n. n\<lparr>last_heartbeat_time := now\<rparr>) r, True))"

definition reg_handle_batched ::
    "'h batched_kv_msg \<Rightarrow> bool \<Rightarrow> ('h, 'x) registry_scheme \<Rightarrow> ('h, 'x) registry_scheme \<times> bool" where
  "reg_handle_batched msg full_sync r =
     (case get_worker (bm_instance msg) (bm_worker msg) r of
        None \<Rightarrow> (r, False)
      | Some i \<Rightarrow>
          let (n, warning, processed) = wn_handle_batched msg full_sync (node_at r i);
              r1 = upd_node i (\<lambda>_. n) r
          in (if warning \<noteq> None
              then r1\<lparr>seq_discontinuity_count := seq_discontinuity_count r1 + 1\<rparr> else r1, processed))"

fun in_find_key ::
    "('h, 'x) registry_scheme \<Rightarrow> 'h \<Rightarrow> string \<Rightarrow> (int \<times> nat) list
      \<Rightarrow> (kv_chunk_info \<times> string option \<times> 'h set) option" where
  "in_find_key r key inst [] = None"
| "in_find_key r key inst ((w, i) # rest) =
     (case wn_find_key key (node_at r i) of
        None \<Rightarrow> in_find_key r key inst rest
      | Some (info, url, ks) \<Rightarrow>
          Some (\<lparr>ci_instance = inst, ci_worker = w, ci_location = ci_location info\<rparr>, url, ks))"

fun in_find_key_simple ::
    "('h, 'x) registry_scheme \<Rightarrow> 'h \<Rightarrow> string \<Rightarrow> (int \<times> nat) list \<Rightarrow> kv_chunk_info option" where
  "in_find_key_simple r key inst [] = None"
| "in_find_key_simple r key inst ((w, i) # rest) =
     (case wn_find_key_simple key (node_at r i) of
        None \<Rightarrow> in_find_key_simple r key inst rest
      | Some info \<Rightarrow> Some \<lparr>ci_instance = inst, ci_worker = w, ci_location = ci_location info\<rparr>)"

fun find_kv_loop ::
    "('h, 'x) registry_scheme \<Rightarrow> 'h \<Rightarrow> string option \<Rightarrow> (string \<times> instance_node) list \<Rightarrow> kv_chunk_info option" where
  "find_kv_loop r key exclude [] = None"
| "find_kv_loop r key exclude ((inst, node) # rest) =
     (if exclude = Some inst then find_kv_loop r key exclude rest
      else case in_find_key_simple r key (instance_id node) (workers node) of
             Some info \<Rightarrow> Some info
           | None \<Rightarrow> find_kv_loop r key exclude rest)"

definition find_kv :: "'h \<Rightarrow> string option \<Rightarrow> ('h, 'x) registry_scheme \<Rightarrow> kv_chunk_info option" where
  "find_kv key exclude r = find_kv_loop r key exclude (instances r)"

fun find_kv_info_loop ::
    "('h, 'x) registry_scheme \<Rightarrow> 'h \<Rightarrow> string option \<Rightarrow> (string \<times> instance_node) list
      \<Rightarrow> (kv_chunk_info \<times> string option \<times> 'h set) option" where
  "find_kv_info_loop r key exclude [] = None"
| "find_kv_info_loop r key exclude ((inst, node) # rest) =
     (if exclude = Some inst then find_kv_info_loop r key exclude rest
      else case in_find_key r key (instance_id node) (workers node) of
             Some res \<Rightarrow> Some res
           | None \<Rightarrow> find_kv_info_loop r key exclude rest)"

definition find_kv_with_worker_info ::
    "'h \<Rightarrow> string option \<Rightarrow> ('h, 'x) registry_scheme \<Rightarrow> (kv_chunk_info \<times> string option \<times> 'h set) option" where
  "find_kv_with_worker_info key exclude r = find_kv_info_loop r key exclude (instances r)"

definition in_total_kv_count :: "('h, 'x) registry_scheme \<Rightarrow> instance_node \<Rightarrow> nat" where
  "in_total_kv_count r node = sum_list (map (\<lambda>(w, i). wn_get_kv_count (node_at r i)) (workers node))"

definition get_total_kv_count :: "('h, 'x) registry_scheme \<Rightarrow> nat" where
  "get_total_kv_count r = sum_list (map (\<lambda>(inst, node). in_total_kv_count r node) (instances r))"

definition get_worker_kv_keys :: "string \<Rightarrow> int \<Rightarrow> string \<Rightarrow> ('h, 'x) registry_scheme \<Rightarrow> 'h set" where
  "get_worker_kv_keys inst w loc r =
     (case get_worker inst w r of None \<Rightarrow> {} | Some i \<Rightarrow> wn_get_kv_keys loc (node_at r i))"

definition clear_worker_kv :: "string \<Rightarrow> int \<Rightarrow> string option \<Rightarrow> ('h, 'x) registry_scheme \<Rightarrow> ('h, 'x) registry_scheme \<times> bool" where
  "clear_worker_kv inst w loc r =
     (case get_worker inst w r of
        None \<Rightarrow> (r, False)
      | Some i \<Rightarrow>
          (upd_node i (case loc of None \<Rightarrow> wn_clear_kv_store | Some l \<Rightarrow> wn_clear_location l) r, True))"

definition clear_all_worker_kv :: "string \<Rightarrow> int \<Rightarrow> ('h, 'x) registry_scheme \<Rightarrow> ('h, 'x) registry_scheme \<times> bool" where
  "clear_all_worker_kv inst w r =
     (case get_worker inst w r of
        None \<Rightarrow> (r, False)
      | Some i \<Rightarrow> (upd_node i wn_clear_kv_store r, True))"

section \<open>The representation invariant\<close>

definition wn_ok :: "'h worker_node \<Rightarrow> bool" where
  "wn_ok n \<longleftrightarrow> od_wf (kv_store n) \<and> od_wf (seq_tracker n) \<and>
     (\<forall>loc ks. map_of (kv_store n) loc = Some ks \<longrightarrow> ks \<noteq> {} \<and> finite ks)"

definition registry_inv :: "('h, 'x) registry_scheme \<Rightarrow> bool" where
  "registry_inv r \<longleftrightarrow>
     od_wf (instances r) \<and>
     (\<forall>inst node. map_of (instances r) inst = Some node \<longrightarrow>
        instance_id node = inst \<and> od_wf (workers node) \<and> workers node \<noteq> []) \<and>
     (\<forall>inst w i. get_worker inst w r = Some i \<longrightarrow>
        i < length (node_store r) \<and> worker_id (node_at r i) = w) \<and>
     (\<forall>inst w inst' w' i. get_worker inst w r = Some i \<and> get_worker inst' w' r = Some i \<longrightarrow>
        inst = inst' \<and> w = w') \<and>
     (\<forall>n \<in> set (node_store r). wn_ok n)"

lemma registry_invD:
  assumes "registry_inv r"
  shows "od_wf (instances r)"
    and "map_of (instances r) inst = Some node \<Longrightarrow> instance_id node = inst"
    and "map_of (instances r) inst = Some node \<Longrightarrow> od_wf (workers node)"
    and "map_of (instances r) inst = Some node \<Longrightarrow> workers node \<noteq> []"
    and "get_worker inst w r = Some i \<Longrightarrow> i < length (node_store r)"
    and "get_worker inst w r = Some i \<Longrightarrow> worker_id (node_at r i) = w"
    and "get_worker inst w r = Some i \<Longrightarrow> get_worker inst' w' r = Some i \<Longrightarrow> inst = inst' \<and> w = w'"
    and "i < length (node_store r) \<Longrightarrow> wn_ok (node_at r i)"
  using assms unfolding registry_inv_def node_at_def by (blast intro: nth_mem)+

lemma registry_invI:
  assumes "od_wf (instances r)"
    and "\<And>inst node. map_of (instances r) inst = Some node \<Longrightarrow>
           instance_id node = inst \<and> od_wf (workers node) \<and> workers node \<noteq> []"
    and "\<And>inst w i. get_worker inst w r = Some i \<Longrightarrow>
           i < length (node_store r) \<and> worker_id (node_at r i) = w"
    and "\<And>inst w inst' w' i. get_worker inst w r = Some i \<Longrightarrow> get_worker inst' w' r = Some i \<Longrightarrow>
           inst = inst' \<and> w = w'"
    and "\<And>n. n \<in> set (node_store r) \<Longrightarrow> wn_ok n"
  shows "registry_inv r"
  using assms unfolding registry_inv_def by blast

lemma registry_init_inv: "registry_inv registry_init"
  by (simp add: registry_inv_def registry_init_def get_worker_def get_instance_def)

lemma registry_inv_same:
  assumes "registry_inv r" and "instances r' = instances r" and "node_store r' = node_store r"
  shows "registry_inv r'"
  using assms by (simp add: registry_inv_def get_worker_def get_instance_def node_at_def)

lemma get_worker_same:
  "instances r' = instances r \<Longrightarrow> get_worker inst w r' = get_worker inst w r"
  by (simp add: get_worker_def get_instance_def)

lemma upd_node_simps [reg_simps]:
  "instances (upd_node i f r) = instances r"
  "length (node_store (upd_node i f r)) = length (node_store r)"
  "get_worker inst w (upd_node i f r) = get_worker inst w r"
  "get_instance inst (upd_node i f r) = get_instance inst r"
  "seq_discontinuity_count (upd_node i f r) = seq_discontinuity_count r"
  "worker_node_cache (upd_node i f r) = worker_node_cache r"
  by (simp_all add: upd_node_def get_worker_def get_instance_def)

lemma node_at_upd_node:
  "node_at (upd_node i f r) j = (if i = j \<and> j < length (node_store r) then f (node_at r j) else node_at r j)"
  by (cases "i = j") (auto simp: node_at_def upd_node_def list_update_beyond not_less)

lemma upd_node_inv:
  assumes inv: "registry_inv r" and f: "i < length (node_store r) \<Longrightarrow> worker_id (f (node_at r i)) = worker_id (node_at r i)"
    and ok: "i < length (node_store r) \<Longrightarrow> wn_ok (f (node_at r i))"
  shows "registry_inv (upd_node i f r)"
proof (rule registry_invI)
  fix inst w j assume g: "get_worker inst w (upd_node i f r) = Some j"
  then have "get_worker inst w r = Some j" by (simp add: reg_simps)
  from registry_invD(5,6)[OF inv this] f show "j < length (node_store (upd_node i f r)) \<and> worker_id (node_at (upd_node i f r) j) = w"
    by (auto simp: node_at_upd_node reg_simps)
next
  fix n assume "n \<in> set (node_store (upd_node i f r))"
  then obtain j where j: "j < length (node_store r)" and n: "n = node_at (upd_node i f r) j"
    by (auto simp: in_set_conv_nth node_at_def reg_simps)
  then show "wn_ok n" using ok registry_invD(8)[OF inv j] by (auto simp: node_at_upd_node)
next
  fix inst w inst' w' j
  assume "get_worker inst w (upd_node i f r) = Some j" "get_worker inst' w' (upd_node i f r) = Some j"
  then show "inst = inst' \<and> w = w'" using registry_invD(7)[OF inv] by (simp add: reg_simps)
next
  show "od_wf (instances (upd_node i f r))" using registry_invD(1)[OF inv] by (simp add: reg_simps)
next
  fix inst node assume "map_of (instances (upd_node i f r)) inst = Some node"
  then show "instance_id node = inst \<and> od_wf (workers node) \<and> workers node \<noteq> []"
    using registry_invD(2-4)[OF inv] by (simp add: reg_simps)
qed

section \<open>Registering and deregistering\<close>

lemma get_worker_register:
  "get_worker inst' w' (fst (register_worker inst w addr prt url now r)) =
     (if inst' = inst \<and> w' = w then Some (length (node_store r)) else get_worker inst' w' r)"
  by (simp add: register_worker_def get_or_create_instance_def get_worker_def get_instance_def Let_def
      split: option.splits)

lemma register_worker_store:
  "node_store (fst (register_worker inst w addr prt url now r)) =
     node_store r @ [mk_worker_node w addr prt url now]"
  by (simp add: register_worker_def get_or_create_instance_def Let_def split: option.splits)

lemma get_worker_deregister:
  assumes "registry_inv r"
  shows "get_worker inst' w' (fst (deregister_worker inst w r)) =
     (if inst' = inst \<and> w' = w then None else get_worker inst' w' r)"
    and "snd (deregister_worker inst w r) = get_worker inst w r"
    and "node_store (fst (deregister_worker inst w r)) = node_store r"
proof -
  have nil: "map_of (workers node) x = None" if "AList.delete w (workers node) = []" "x \<noteq> w" for node x
  proof -
    have "map_of (AList.delete w (workers node)) x = None" using that(1) by simp
    then show ?thesis using that(2) by (simp del: map_of_eq_None_iff)
  qed
  show "get_worker inst' w' (fst (deregister_worker inst w r)) =
     (if inst' = inst \<and> w' = w then None else get_worker inst' w' r)"
    by (auto simp: deregister_worker_def get_worker_def get_instance_def Let_def nil
        simp del: map_of_eq_None_iff split: option.splits)
qed (auto simp: deregister_worker_def get_worker_def get_instance_def Let_def split: option.splits)

lemma register_worker_inv:
  assumes inv: "registry_inv r"
  shows "registry_inv (fst (register_worker inst w addr prt url now r))" (is "registry_inv ?r'")
proof (rule registry_invI)
  show "od_wf (instances ?r')"
    using registry_invD(1)[OF inv]
    by (simp add: register_worker_def get_or_create_instance_def Let_def split: option.splits)
next
  fix i node assume m: "map_of (instances ?r') i = Some node"
  show "instance_id node = i \<and> od_wf (workers node) \<and> workers node \<noteq> []"
  proof (cases "i = inst")
    case True
    define base where "base = (case map_of (instances r) inst of Some nd \<Rightarrow> nd | None \<Rightarrow> \<lparr>instance_id = inst, workers = []\<rparr>)"
    have base: "instance_id base = inst" "od_wf (workers base)"
      using registry_invD(2,3)[OF inv] by (auto simp: base_def split: option.splits)
    have "node = base\<lparr>workers := AList.update w (length (node_store r)) (workers base)\<rparr>"
      using m True by (auto simp: register_worker_def get_or_create_instance_def get_instance_def base_def Let_def
          split: option.splits)
    moreover have "AList.update w (length (node_store r)) (workers base) \<noteq> []"
      by (metis map_of_update_od fun_upd_same map_of.simps(1) option.distinct(1))
    ultimately show ?thesis using base True by simp
  next
    case False
    then have "map_of (instances r) i = Some node"
      using m by (auto simp: register_worker_def get_or_create_instance_def get_instance_def Let_def
          split: option.splits)
    then show ?thesis using registry_invD(2-4)[OF inv] by blast
  qed
next
  fix i v j assume g: "get_worker i v ?r' = Some j"
  have old: "j < length (node_store r)" "worker_id (node_at r j) = v" if "get_worker i v r = Some j"
    using registry_invD(5,6)[OF inv that] by auto
  show "j < length (node_store ?r') \<and> worker_id (node_at ?r' j) = v"
    using g old by (auto simp: get_worker_register register_worker_store node_at_def nth_append mk_worker_node_def
        split: if_splits)
next
  fix i v i' v' j
  assume "get_worker i v ?r' = Some j" and "get_worker i' v' ?r' = Some j"
  then show "i = i' \<and> v = v'"
    using registry_invD(5,7)[OF inv] by (auto simp: get_worker_register split: if_splits)
next
  fix n assume "n \<in> set (node_store ?r')"
  moreover have "wn_ok (mk_worker_node w addr prt url now)" by (simp add: mk_worker_node_def wn_ok_def)
  ultimately show "wn_ok n" using inv by (auto simp: register_worker_store registry_inv_def)
qed

lemma deregister_worker_inv:
  assumes inv: "registry_inv r"
  shows "registry_inv (fst (deregister_worker inst w r))" (is "registry_inv ?r'")
proof (rule registry_invI)
  show "od_wf (instances ?r')"
    using registry_invD(1)[OF inv] by (simp add: deregister_worker_def get_instance_def Let_def split: option.splits)
next
  fix i node assume m: "map_of (instances ?r') i = Some node"
  show "instance_id node = i \<and> od_wf (workers node) \<and> workers node \<noteq> []"
    using m registry_invD(2-4)[OF inv]
    by (auto simp: deregister_worker_def get_instance_def Let_def split: option.splits if_splits)
next
  fix i v j assume "get_worker i v ?r' = Some j"
  then have "get_worker i v r = Some j" by (auto simp: get_worker_deregister[OF inv] split: if_splits)
  then show "j < length (node_store ?r') \<and> worker_id (node_at ?r' j) = v"
    using registry_invD(5,6)[OF inv] by (simp add: get_worker_deregister[OF inv] node_at_def)
next
  fix i v i' v' j
  assume "get_worker i v ?r' = Some j" and "get_worker i' v' ?r' = Some j"
  then show "i = i' \<and> v = v'"
    using registry_invD(7)[OF inv] by (auto simp: get_worker_deregister[OF inv] split: if_splits)
next
  fix n assume "n \<in> set (node_store ?r')"
  then show "wn_ok n" using inv by (simp add: get_worker_deregister[OF inv] registry_inv_def)
qed

section \<open>Batches of key operations on a node\<close>

lemma keys_at_update [simp]:
  "keys_at l (n\<lparr>kv_store := AList.update loc ks (kv_store n)\<rparr>) = (if l = loc then ks else keys_at l n)"
  "keys_at l (n\<lparr>kv_store := AList.delete loc (kv_store n)\<rparr>) = (if l = loc then {} else keys_at l n)"
  "keys_at l (n\<lparr>seq_tracker := t\<rparr>) = keys_at l n"
  by (simp_all add: keys_at_def)

lemma replay_op [reg_simps]: "replay_msgs (op_pair e # msgs) S =
    replay_msgs msgs (case op_kind e of ADMIT \<Rightarrow> insert (op_key e) S | EVICT \<Rightarrow> S - {op_key e})"
  by (simp add: op_pair_def replay_Cons)

lemma apply_kv_op_simps [reg_simps]:
  "keys_at l (apply_kv_op loc e n) = (if l = loc then replay_ops [e] (keys_at loc n) else keys_at l n)"
  "seq_tracker (apply_kv_op loc e n) = seq_tracker n"
  "sync_info (apply_kv_op loc e n) = sync_info n"
  "worker_id (apply_kv_op loc e n) = worker_id n"
  "od_wf (kv_store n) \<Longrightarrow> od_wf (kv_store (apply_kv_op loc e n))"
  by (cases "op_kind e"; simp add: apply_kv_op_def op_pair_def)+

lemma wn_ops_loop_keys:
  "keys_at l (fst (wn_ops_loop loc full_sync es n warning)) =
     (if l = loc then replay_ops es (keys_at loc n) else keys_at l n)"
proof (induction loc full_sync es n warning rule: wn_ops_loop.induct)
  case (2 loc full_sync e es n warning)
  then show ?case by (cases full_sync) (simp_all add: Let_def reg_simps)
qed simp_all

lemma wn_ops_loop_kv_store:
  "od_wf (kv_store n) \<Longrightarrow> od_wf (kv_store (fst (wn_ops_loop loc full_sync es n warning)))"
  by (induction loc full_sync es n warning rule: wn_ops_loop.induct) (simp_all add: Let_def reg_simps)

lemma wn_ops_loop_dom:
  "l \<noteq> loc \<Longrightarrow> map_of (kv_store (fst (wn_ops_loop loc full_sync es n warning))) l = map_of (kv_store n) l"
  by (induction loc full_sync es n warning rule: wn_ops_loop.induct)
    (simp_all add: Let_def apply_kv_op_def split: op_type.splits)

lemma wn_ops_loop_fixed:
  "sync_info (fst (wn_ops_loop loc full_sync es n warning)) = sync_info n"
  "worker_id (fst (wn_ops_loop loc full_sync es n warning)) = worker_id n"
  "od_wf (seq_tracker n) \<Longrightarrow> od_wf (seq_tracker (fst (wn_ops_loop loc full_sync es n warning)))"
  by (induction loc full_sync es n warning rule: wn_ops_loop.induct) (simp_all add: Let_def reg_simps)

lemma wn_ops_loop_seq:
  "map_of (seq_tracker (fst (wn_ops_loop loc False es n warning))) l =
     (if l = loc then last_seq (map_of (seq_tracker n) loc) (map op_seq es) else map_of (seq_tracker n) l)"
  by (induction loc "False" es n warning rule: wn_ops_loop.induct) (auto simp: Let_def reg_simps)

lemma wn_ops_loop_full_sync:
  "seq_tracker (fst (wn_ops_loop loc True es n warning)) = seq_tracker n"
  "snd (wn_ops_loop loc True es n warning) = warning"
  by (induction loc "True" es n warning rule: wn_ops_loop.induct) (simp_all add: Let_def reg_simps)

lemma wn_ops_loop_warning:
  "snd (wn_ops_loop loc False es n warning) = None \<longleftrightarrow>
     warning = None \<and> consecutive (map_of (seq_tracker n) loc) (map op_seq es)"
  by (induction loc "False" es n warning rule: wn_ops_loop.induct)
    (auto simp: Let_def reg_simps split: option.splits if_splits)

lemma wn_handle_batched_facts:
  assumes "wn_handle_batched msg fs n = (n', warning, ok)"
  shows "ok \<longleftrightarrow> \<not> is_syncing n \<or> fs"
    and "\<not> ok \<Longrightarrow> n' = n \<and> warning = None"
    and "ok \<Longrightarrow> keys_at l n' = (if l = bm_location msg then replay_ops (bm_operations msg) (keys_at l n) else keys_at l n)"
    and "ok \<Longrightarrow> \<not> fs \<Longrightarrow> map_of (seq_tracker n') l =
           (if l = bm_location msg then last_seq (map_of (seq_tracker n) l) (map op_seq (bm_operations msg))
            else map_of (seq_tracker n) l)"
    and "ok \<Longrightarrow> \<not> fs \<Longrightarrow> warning = None \<longleftrightarrow>
           consecutive (map_of (seq_tracker n) (bm_location msg)) (map op_seq (bm_operations msg))"
    and "fs \<Longrightarrow> warning = None \<and> seq_tracker n' = seq_tracker n"
    and "sync_info n' = sync_info n" and "worker_id n' = worker_id n"
proof -
  define loc where "loc = bm_location msg"
  define n1 where "n1 = (if map_of (kv_store n) loc = None then n\<lparr>kv_store := AList.update loc {} (kv_store n)\<rparr> else n)"
  obtain n2 w where loop: "wn_ops_loop loc fs (bm_operations msg) n1 None = (n2, w)" by fastforce
  have n1: "keys_at k n1 = keys_at k n" "seq_tracker n1 = seq_tracker n" "sync_info n1 = sync_info n" "worker_id n1 = worker_id n" for k
    by (auto simp: n1_def) (simp_all add: keys_at_def)
  have eq: "(n', warning, ok) = (if is_syncing n \<and> \<not> fs then (n, None, False)
      else (if keys_at loc n2 = {} then n2\<lparr>kv_store := AList.delete loc (kv_store n2)\<rparr> else n2, w, True))"
    using assms loop unfolding wn_handle_batched_def Let_def loc_def[symmetric] n1_def[symmetric] by (auto split: if_splits)
  note f = wn_ops_loop_keys[of _ loc fs "bm_operations msg" n1 None, unfolded loop fst_conv n1]
    and g = wn_ops_loop_fixed(1,2)[of loc fs "bm_operations msg" n1 None, unfolded loop fst_conv n1]
  show "ok \<longleftrightarrow> \<not> is_syncing n \<or> fs" "\<not> ok \<Longrightarrow> n' = n \<and> warning = None"
    "sync_info n' = sync_info n" "worker_id n' = worker_id n"
    using eq g by (auto split: if_splits)
  show "ok \<Longrightarrow> keys_at l n' = (if l = bm_location msg then replay_ops (bm_operations msg) (keys_at l n) else keys_at l n)"
    using eq f[of l] f[of loc] by (auto simp: loc_def[symmetric] split: if_splits)
  show "ok \<Longrightarrow> \<not> fs \<Longrightarrow> map_of (seq_tracker n') l =
           (if l = bm_location msg then last_seq (map_of (seq_tracker n) l) (map op_seq (bm_operations msg))
            else map_of (seq_tracker n) l)"
    using eq wn_ops_loop_seq[of loc "bm_operations msg" n1 None l] loop n1
    by (auto simp: loc_def[symmetric] split: if_splits)
  show "ok \<Longrightarrow> \<not> fs \<Longrightarrow> warning = None \<longleftrightarrow>
           consecutive (map_of (seq_tracker n) (bm_location msg)) (map op_seq (bm_operations msg))"
    using eq wn_ops_loop_warning[of loc "bm_operations msg" n1 None] loop n1
    by (auto simp: loc_def[symmetric] split: if_splits)
  show "fs \<Longrightarrow> warning = None \<and> seq_tracker n' = seq_tracker n"
    using eq wn_ops_loop_full_sync[of loc "bm_operations msg" n1 None] loop n1 by (auto split: if_splits)
qed

lemma wn_okI:
  assumes "od_wf (kv_store n)" and "od_wf (seq_tracker n)"
    and "\<And>loc ks. map_of (kv_store n) loc = Some ks \<Longrightarrow> ks \<noteq> {} \<and> finite ks"
  shows "wn_ok n"
  using assms by (simp add: wn_ok_def)

lemma wn_okD:
  assumes "wn_ok n"
  shows "od_wf (kv_store n)" and "od_wf (seq_tracker n)"
    and "map_of (kv_store n) loc = Some ks \<Longrightarrow> ks \<noteq> {} \<and> finite ks"
    and "finite (keys_at l n)"
  using assms unfolding wn_ok_def keys_at_def by (auto split: option.splits)

lemma wn_handle_batched_ok:
  assumes ok: "wn_ok n"
  shows "wn_ok (fst (wn_handle_batched msg fs n))"
proof -
  define loc where "loc = bm_location msg"
  define n1 where "n1 = (if map_of (kv_store n) loc = None then n\<lparr>kv_store := AList.update loc {} (kv_store n)\<rparr> else n)"
  define n2 where "n2 = fst (wn_ops_loop loc fs (bm_operations msg) n1 None)"
  have eq: "fst (wn_handle_batched msg fs n) = (if is_syncing n \<and> \<not> fs then n
      else if keys_at loc n2 = {} then n2\<lparr>kv_store := AList.delete loc (kv_store n2)\<rparr> else n2)"
    unfolding wn_handle_batched_def Let_def loc_def[symmetric] n1_def[symmetric] n2_def
    by (simp add: split_beta)
  have n1: "od_wf (kv_store n1)" "od_wf (seq_tracker n1)" "finite (keys_at loc n1)"
    "l \<noteq> loc \<Longrightarrow> map_of (kv_store n1) l = map_of (kv_store n) l" for l
    using wn_okD[OF ok] by (auto simp: n1_def keys_at_def)
  have n2: "od_wf (kv_store n2)" "od_wf (seq_tracker n2)" "finite (keys_at loc n2)"
    "l \<noteq> loc \<Longrightarrow> map_of (kv_store n2) l = map_of (kv_store n) l" for l
    using n1 by (simp_all add: n2_def wn_ops_loop_kv_store wn_ops_loop_fixed wn_ops_loop_keys wn_ops_loop_dom)
  have at: "ks = keys_at loc n2" if "map_of (kv_store n2) loc = Some ks" for ks
    using that by (simp add: keys_at_def)
  show ?thesis
  proof (cases "is_syncing n \<and> \<not> fs")
    case True
    then show ?thesis using ok by (simp add: wn_handle_batched_def)
  next
    case False
    show ?thesis
    proof (rule wn_okI)
      show "od_wf (kv_store (fst (wn_handle_batched msg fs n)))" and "od_wf (seq_tracker (fst (wn_handle_batched msg fs n)))"
        using False n2 by (auto simp: eq)
    next
      fix l ks assume m: "map_of (kv_store (fst (wn_handle_batched msg fs n))) l = Some ks"
      show "ks \<noteq> {} \<and> finite ks"
      proof (cases "l = loc")
        case True
        then show ?thesis using m False at n2(3) by (auto simp: eq split: if_splits)
      next
        case neq: False
        then have "map_of (kv_store n) l = Some ks"
          using m False n2(4)[OF neq] by (auto simp: eq split: if_splits)
        then show ?thesis by (rule wn_okD(3)[OF ok])
      qed
    qed
  qed
qed

lemma wn_clear_ok: "wn_ok n \<Longrightarrow> wn_ok (wn_clear_kv_store n)" "wn_ok n \<Longrightarrow> wn_ok (wn_clear_location l n)"
  by (simp_all add: wn_ok_def wn_clear_kv_store_def wn_clear_location_def)

lemma wn_clear_simps [reg_simps]:
  "keys_at l (wn_clear_kv_store n) = {}"
  "keys_at l (wn_clear_location l' n) = (if l = l' then {} else keys_at l n)"
  "sync_info (wn_clear_kv_store n) = sync_info n"
  "sync_info (wn_clear_location l' n) = sync_info n"
  "worker_id (wn_clear_kv_store n) = worker_id n"
  "worker_id (wn_clear_location l' n) = worker_id n"
  by (simp_all add: wn_clear_kv_store_def wn_clear_location_def keys_at_def)

abbreviation wn_incremental :: "string \<Rightarrow> 'h worker_node \<Rightarrow> 'h kv_op_event list \<Rightarrow> 'h worker_node" where
  "wn_incremental loc n ops \<equiv>
     fst (wn_handle_batched \<lparr>bm_instance = '''', bm_worker = 0, bm_location = loc, bm_operations = ops\<rparr> False n)"

lemma wn_incremental_facts:
  assumes idle: "\<not> is_syncing n"
  shows "keys_at loc (wn_incremental loc n ops) = replay_ops ops (keys_at loc n)"
    and "\<not> is_syncing (wn_incremental loc n ops)"
proof -
  let ?m = "\<lparr>bm_instance = '''', bm_worker = 0, bm_location = loc, bm_operations = ops\<rparr>"
  obtain n' warning ok where h: "wn_handle_batched ?m False n = (n', warning, ok)"
    using prod_cases3 by blast
  note f = wn_handle_batched_facts[OF h]
  show "keys_at loc (wn_incremental loc n ops) = replay_ops ops (keys_at loc n)"
    using f(1) f(3)[of loc] idle by (simp add: h)
  show "\<not> is_syncing (wn_incremental loc n ops)"
    using f(7) idle by (simp add: h is_syncing_def)
qed

interpretation node_pool: key_pool "wn_incremental loc" "keys_at loc" "\<lambda>n. \<not> is_syncing n"
  for loc :: string
  by unfold_locales (simp_all add: wn_incremental_facts)

section \<open>Searching\<close>

lemma find_in_store_None: "find_in_store key d = None \<longleftrightarrow> (\<forall>(loc, ks) \<in> set d. key \<notin> ks)"
  by (induction key d rule: find_in_store.induct) auto

lemma find_in_store_Some:
  "find_in_store key d = Some (loc, ks) \<Longrightarrow> od_wf d \<Longrightarrow> map_of d loc = Some ks \<and> key \<in> ks"
  by (induction key d rule: find_in_store.induct)
    (auto split: if_splits dest: map_of_Some_key simp del: set_map)

lemma find_in_store_keys:
  assumes "od_wf (kv_store n)"
  shows "find_in_store key (kv_store n) = None \<longleftrightarrow> (\<forall>loc. key \<notin> keys_at loc n)"
  using assms by (auto simp: find_in_store_None keys_at_def Some_eq_map_of_iff map_of_eq_Some_iff split: option.splits)

lemma find_in_store_keys_Some:
  assumes "find_in_store key (kv_store n) = Some (loc, ks)" and "od_wf (kv_store n)"
  shows "ks = keys_at loc n" and "key \<in> keys_at loc n"
  using find_in_store_Some[OF assms] by (simp_all add: keys_at_def)

lemma wn_find_key_cases:
  assumes ok: "wn_ok n"
  shows "wn_find_key key n = None \<longleftrightarrow> (\<forall>loc. key \<notin> keys_at loc n)"
    and "wn_find_key key n = Some (info, url, ks) \<Longrightarrow>
           ks = keys_at (ci_location info) n \<and> key \<in> ks \<and> url = peer_init_url n"
    and "wn_find_key_simple key n = map_option fst (wn_find_key key n)"
proof -
  have none: "find_in_store key (kv_store n) = None \<longleftrightarrow> (\<forall>loc. key \<notin> keys_at loc n)" for key
    by (rule find_in_store_keys[OF wn_okD(1)[OF ok]])
  show "wn_find_key key n = None \<longleftrightarrow> (\<forall>loc. key \<notin> keys_at loc n)"
    unfolding none[symmetric] by (simp add: wn_find_key_def split: option.split prod.split)
  show "wn_find_key key n = Some (info, url, ks) \<Longrightarrow>
           ks = keys_at (ci_location info) n \<and> key \<in> ks \<and> url = peer_init_url n"
    using find_in_store_keys_Some[OF _ wn_okD(1)[OF ok]]
    by (auto simp: wn_find_key_def split: option.splits prod.splits)
  show "wn_find_key_simple key n = map_option fst (wn_find_key key n)"
    by (simp add: wn_find_key_def wn_find_key_simple_def split: option.split prod.split)
qed

lemma in_find_key_cases:
  assumes "\<forall>(w, i) \<in> set ws. wn_ok (node_at r i)"
  shows "in_find_key r key inst ws = None \<longleftrightarrow> (\<forall>(w, i) \<in> set ws. \<forall>loc. key \<notin> keys_at loc (node_at r i))"
    and "in_find_key r key inst ws = Some (info, url, ks) \<Longrightarrow>
           ci_instance info = inst \<and> (\<exists>i. (ci_worker info, i) \<in> set ws \<and>
             ks = keys_at (ci_location info) (node_at r i) \<and> key \<in> ks \<and> url = peer_init_url (node_at r i))"
    and "in_find_key_simple r key inst ws = map_option fst (in_find_key r key inst ws)"
proof -
  show "in_find_key r key inst ws = None \<longleftrightarrow> (\<forall>(w, i) \<in> set ws. \<forall>loc. key \<notin> keys_at loc (node_at r i))"
    using assms by (induction ws) (auto simp: wn_find_key_cases(1) split: option.splits,
        (metis wn_find_key_cases(1) option.distinct(1))+)
  show "in_find_key_simple r key inst ws = map_option fst (in_find_key r key inst ws)"
    using assms by (induction ws) (auto simp: wn_find_key_cases(3) split: option.splits)
  show "ci_instance info = inst \<and> (\<exists>i. (ci_worker info, i) \<in> set ws \<and>
      ks = keys_at (ci_location info) (node_at r i) \<and> key \<in> ks \<and> url = peer_init_url (node_at r i))"
    if "in_find_key r key inst ws = Some (info, url, ks)"
    using assms that
  proof (induction ws)
    case (Cons x ws)
    obtain w i where x: "x = (w, i)" by (cases x)
    with Cons.prems(1) have ok: "wn_ok (node_at r i)" and rest: "\<forall>(w, i) \<in> set ws. wn_ok (node_at r i)" by simp_all
    show ?case
    proof (cases "wn_find_key key (node_at r i)")
      case None
      with Cons.prems(2) have "in_find_key r key inst ws = Some (info, url, ks)" by (simp add: x)
      from Cons.IH[OF rest this] show ?thesis by auto
    next
      case (Some y)
      obtain info' where y: "y = (info', url, ks)"
        and info: "info = \<lparr>ci_instance = inst, ci_worker = w, ci_location = ci_location info'\<rparr>"
        using Cons.prems(2) Some by (cases y) (auto simp: x)
      from wn_find_key_cases(2)[OF ok Some[unfolded y]] show ?thesis by (auto simp: x info)
    qed
  qed simp
qed

lemma get_worker_iff:
  assumes "registry_inv r"
  shows "get_worker inst w r = Some i \<longleftrightarrow> (\<exists>node. (inst, node) \<in> set (instances r) \<and> (w, i) \<in> set (workers node))"
proof -
  have "map_of (workers node) w = Some i \<longleftrightarrow> (w, i) \<in> set (workers node)"
    if "(inst, node) \<in> set (instances r)" for node
    using registry_invD(1,3)[OF assms] that by (simp add: map_of_eq_Some_iff)
  moreover have "(inst, node) \<in> set (instances r) \<longleftrightarrow> map_of (instances r) inst = Some node" for node
    using registry_invD(1)[OF assms] by (simp add: map_of_eq_Some_iff)
  ultimately show ?thesis
    by (auto simp: get_worker_def get_instance_def split: option.splits)
qed

lemma find_kv_loop_cases:
  assumes ds: "\<forall>(inst, node) \<in> set ds. instance_id node = inst \<and> (\<forall>(w, i) \<in> set (workers node). wn_ok (node_at r i))"
  shows "find_kv_info_loop r key ex ds = None \<longleftrightarrow>
           (\<forall>(inst, node) \<in> set ds. ex \<noteq> Some inst \<longrightarrow>
              (\<forall>(w, i) \<in> set (workers node). \<forall>loc. key \<notin> keys_at loc (node_at r i)))"
    and "find_kv_info_loop r key ex ds = Some (info, url, ks) \<Longrightarrow>
           ex \<noteq> Some (ci_instance info) \<and> (\<exists>node i. (ci_instance info, node) \<in> set ds \<and>
             (ci_worker info, i) \<in> set (workers node) \<and> ks = keys_at (ci_location info) (node_at r i) \<and>
             key \<in> ks \<and> url = peer_init_url (node_at r i))"
    and "find_kv_loop r key ex ds = map_option fst (find_kv_info_loop r key ex ds)"
proof -
  have node: "(in_find_key r key (instance_id node) (workers node) = None \<longleftrightarrow>
        (\<forall>(w, i) \<in> set (workers node). \<forall>loc. key \<notin> keys_at loc (node_at r i))) \<and>
      (\<forall>info url ks. in_find_key r key (instance_id node) (workers node) = Some (info, url, ks) \<longrightarrow>
        ci_instance info = inst \<and> (\<exists>i. (ci_worker info, i) \<in> set (workers node) \<and>
          ks = keys_at (ci_location info) (node_at r i) \<and> key \<in> ks \<and> url = peer_init_url (node_at r i))) \<and>
      in_find_key_simple r key (instance_id node) (workers node) =
        map_option fst (in_find_key r key (instance_id node) (workers node))"
    if "(inst, node) \<in> set ds" for inst node
  proof -
    have "\<forall>(w, i) \<in> set (workers node). wn_ok (node_at r i)" and i: "instance_id node = inst"
      using ds that by auto
    from in_find_key_cases[OF this(1)] show ?thesis unfolding i by blast
  qed
  have "find_kv_info_loop r key ex ds = None \<longleftrightarrow>
      (\<forall>(inst, node) \<in> set ds. ex \<noteq> Some inst \<longrightarrow> in_find_key r key (instance_id node) (workers node) = None)"
  proof (induction ds)
    case (Cons x ds)
    obtain inst nd where x: "x = (inst, nd)" by (cases x)
    with Cons show ?case by (cases "in_find_key r key (instance_id nd) (workers nd)"; cases "ex = Some inst") auto
  qed simp
  with node show "find_kv_info_loop r key ex ds = None \<longleftrightarrow>
      (\<forall>(inst, node) \<in> set ds. ex \<noteq> Some inst \<longrightarrow>
        (\<forall>(w, i) \<in> set (workers node). \<forall>loc. key \<notin> keys_at loc (node_at r i)))"
    by (simp add: Ball_def split_beta)
  show "ex \<noteq> Some (ci_instance info) \<and> (\<exists>node i. (ci_instance info, node) \<in> set ds \<and>
        (ci_worker info, i) \<in> set (workers node) \<and> ks = keys_at (ci_location info) (node_at r i) \<and>
        key \<in> ks \<and> url = peer_init_url (node_at r i))"
    if loop: "find_kv_info_loop r key ex ds = Some (info, url, ks)"
  proof -
    from loop have "\<exists>inst nd. (inst, nd) \<in> set ds \<and> ex \<noteq> Some inst \<and>
        in_find_key r key (instance_id nd) (workers nd) = Some (info, url, ks)"
    proof (induction ds)
      case (Cons x ds)
      obtain inst nd where x: "x = (inst, nd)" by (cases x)
      show ?case
      proof (cases "ex = Some inst \<or> in_find_key r key (instance_id nd) (workers nd) = None")
        case True
        with Cons.prems have "find_kv_info_loop r key ex ds = Some (info, url, ks)" by (auto simp: x split: if_splits)
        from Cons.IH[OF this] show ?thesis by auto
      next
        case False
        with Cons.prems have "in_find_key r key (instance_id nd) (workers nd) = Some (info, url, ks)"
          by (auto simp: x split: if_splits)
        with False show ?thesis by (auto simp: x)
      qed
    qed simp
    then obtain inst nd where nd: "(inst, nd) \<in> set ds" and "ex \<noteq> Some inst"
      and "in_find_key r key (instance_id nd) (workers nd) = Some (info, url, ks)" by blast
    with node[OF nd] show ?thesis by auto
  qed
  have "\<forall>(inst, node) \<in> set ds. in_find_key_simple r key (instance_id node) (workers node) =
        map_option fst (in_find_key r key (instance_id node) (workers node))"
    using node by blast
  then show "find_kv_loop r key ex ds = map_option fst (find_kv_info_loop r key ex ds)"
    by (induction ds) (auto split: option.splits)
qed

lemma find_kv_correct:
  assumes inv: "registry_inv r"
  shows "find_kv_with_worker_info key ex r = None \<longleftrightarrow>
           (\<forall>inst w loc. ex \<noteq> Some inst \<longrightarrow> key \<notin> get_worker_kv_keys inst w loc r)"
    and "find_kv_with_worker_info key ex r = Some (info, url, ks) \<Longrightarrow>
           ex \<noteq> Some (ci_instance info) \<and> key \<in> ks \<and>
           ks = get_worker_kv_keys (ci_instance info) (ci_worker info) (ci_location info) r \<and>
           (\<exists>i. get_worker (ci_instance info) (ci_worker info) r = Some i \<and> url = peer_init_url (node_at r i))"
    and "find_kv key ex r = map_option fst (find_kv_with_worker_info key ex r)"
proof -
  have ids: "instance_id node = inst" if "(inst, node) \<in> set (instances r)" for inst node
    using registry_invD(1,2)[OF inv] that by (simp add: map_of_eq_Some_iff)
  have oks: "wn_ok (node_at r i)" if "(inst, node) \<in> set (instances r)" "(w, i) \<in> set (workers node)" for inst node w i
    using registry_invD(5,8)[OF inv] get_worker_iff[OF inv] that by blast
  have ds: "\<forall>(inst, node) \<in> set (instances r). instance_id node = inst \<and> (\<forall>(w, i) \<in> set (workers node). wn_ok (node_at r i))"
    using ids oks by blast
  note c = find_kv_loop_cases[OF ds]
  have gk: "get_worker_kv_keys inst w loc r = (case get_worker inst w r of None \<Rightarrow> {} | Some i \<Rightarrow> keys_at loc (node_at r i))"
    for inst w loc by (simp add: get_worker_kv_keys_def wn_get_kv_keys_def keys_at_def split: option.split)
  show "find_kv_with_worker_info key ex r = None \<longleftrightarrow>
      (\<forall>inst w loc. ex \<noteq> Some inst \<longrightarrow> key \<notin> get_worker_kv_keys inst w loc r)"
    unfolding find_kv_with_worker_info_def c(1) gk
    by (auto simp: get_worker_iff[OF inv] split: option.splits) blast+
  show "ex \<noteq> Some (ci_instance info) \<and> key \<in> ks \<and>
      ks = get_worker_kv_keys (ci_instance info) (ci_worker info) (ci_location info) r \<and>
      (\<exists>i. get_worker (ci_instance info) (ci_worker info) r = Some i \<and> url = peer_init_url (node_at r i))"
    if s: "find_kv_with_worker_info key ex r = Some (info, url, ks)"
  proof -
    from c(2)[OF s[unfolded find_kv_with_worker_info_def]] obtain node i where
      "ex \<noteq> Some (ci_instance info)" "(ci_instance info, node) \<in> set (instances r)"
      "(ci_worker info, i) \<in> set (workers node)" and ks: "ks = keys_at (ci_location info) (node_at r i)"
      and "key \<in> ks" "url = peer_init_url (node_at r i)" by blast
    moreover from this have "get_worker (ci_instance info) (ci_worker info) r = Some i"
      using get_worker_iff[OF inv] by blast
    ultimately show ?thesis by (simp add: gk)
  qed
  show "find_kv key ex r = map_option fst (find_kv_with_worker_info key ex r)"
    unfolding find_kv_with_worker_info_def find_kv_def by (rule c(3))
qed

section \<open>Counting the pool\<close>

definition pool :: "('h, 'x) registry_scheme \<Rightarrow> (string \<times> int \<times> string \<times> 'h) set" where
  "pool r = {(inst, w, loc, key). key \<in> get_worker_kv_keys inst w loc r}"

lemma kv_keys_eq:
  "get_worker_kv_keys inst w loc r = (case get_worker inst w r of None \<Rightarrow> {} | Some i \<Rightarrow> keys_at loc (node_at r i))"
  by (simp add: get_worker_kv_keys_def wn_get_kv_keys_def keys_at_def split: option.split)

definition dict_fibre :: "('k, 'v) odict \<Rightarrow> ('v \<Rightarrow> 'b set) \<Rightarrow> ('k \<times> 'b) set" where
  "dict_fibre d F = {(k, x). \<exists>v. (k, v) \<in> set d \<and> x \<in> F v}"

lemma card_dict_fibre:
  assumes "od_wf d" and "\<forall>(k, v) \<in> set d. finite (F v)"
  shows "finite (dict_fibre d F) \<and> card (dict_fibre d F) = sum_list (map (\<lambda>(k, v). card (F v)) d)"
  using assms
proof (induction d)
  case (Cons e d)
  obtain k v where e: "e = (k, v)" by (cases e)
  have split: "dict_fibre ((k, v) # d) F = ({k} \<times> F v) \<union> dict_fibre d F"
    by (auto simp: dict_fibre_def e)
  have disj: "({k} \<times> F v) \<inter> dict_fibre d F = {}"
    using Cons.prems(1) by (auto simp: dict_fibre_def e image_iff)
  have "finite (F v)" using Cons.prems(2) by (simp add: e)
  with Cons disj show ?case by (simp add: split card_Un_disjoint card_cartesian_product e)
qed (simp add: dict_fibre_def)

definition node_pool_set :: "'h worker_node \<Rightarrow> (string \<times> 'h) set" where
  "node_pool_set n = {(loc, key). key \<in> keys_at loc n}"

lemma node_pool_fibre: "wn_ok n \<Longrightarrow> node_pool_set n = dict_fibre (kv_store n) (\<lambda>ks. ks)"
  by (auto simp: node_pool_set_def dict_fibre_def keys_at_def map_of_eq_Some_iff[OF wn_okD(1), symmetric]
      split: option.splits)

lemma wn_get_kv_count_card:
  assumes ok: "wn_ok n"
  shows "finite (node_pool_set n)" and "wn_get_kv_count n = card (node_pool_set n)"
proof -
  have "\<forall>(loc, ks) \<in> set (kv_store n). finite ks"
    using wn_okD(3)[OF ok] by (auto simp: map_of_eq_Some_iff[OF wn_okD(1)[OF ok]])
  from card_dict_fibre[OF wn_okD(1)[OF ok], of "\<lambda>ks. ks", OF this]
  show "finite (node_pool_set n)" "wn_get_kv_count n = card (node_pool_set n)"
    by (simp_all add: node_pool_fibre[OF ok] wn_get_kv_count_def)
qed

lemma get_total_kv_count_card:
  assumes inv: "registry_inv r"
  shows "finite (pool r)" and "get_total_kv_count r = card (pool r)"
proof -
  let ?N = "\<lambda>node. dict_fibre (workers node) (\<lambda>i. node_pool_set (node_at r i))"
  have node: "od_wf (workers node)" "\<forall>(w, i) \<in> set (workers node). wn_ok (node_at r i)"
    if "(inst, node) \<in> set (instances r)" for inst node
  proof -
    show "od_wf (workers node)"
      using registry_invD(1,3)[OF inv] that by (simp add: map_of_eq_Some_iff)
    show "\<forall>(w, i) \<in> set (workers node). wn_ok (node_at r i)"
      using registry_invD(5,8)[OF inv] get_worker_iff[OF inv] that by blast
  qed
  have count: "finite (?N node) \<and> in_total_kv_count r node = card (?N node)"
    if "(inst, node) \<in> set (instances r)" for inst node
  proof -
    note n = node[OF that]
    have fin: "\<forall>(w, i) \<in> set (workers node). finite (node_pool_set (node_at r i))"
      using n(2) by (auto intro: wn_get_kv_count_card)
    have "in_total_kv_count r node = sum_list (map (\<lambda>(w, i). card (node_pool_set (node_at r i))) (workers node))"
      unfolding in_total_kv_count_def using n(2)
      by (intro arg_cong[where f = sum_list] map_cong) (auto simp: wn_get_kv_count_card(2))
    with card_dict_fibre[OF n(1) fin] show ?thesis by simp
  qed
  have mem: "(inst, w, loc, key) \<in> pool r \<longleftrightarrow> (inst, w, loc, key) \<in> dict_fibre (instances r) ?N" for inst w loc key
  proof -
    have "(inst, w, loc, key) \<in> pool r \<longleftrightarrow> (\<exists>i. get_worker inst w r = Some i \<and> key \<in> keys_at loc (node_at r i))"
      by (simp add: pool_def kv_keys_eq split: option.split)
    then show ?thesis unfolding get_worker_iff[OF inv] by (simp add: dict_fibre_def node_pool_set_def) blast
  qed
  have pool_eq: "pool r = dict_fibre (instances r) ?N"
  proof (rule set_eqI)
    fix x show "x \<in> pool r \<longleftrightarrow> x \<in> dict_fibre (instances r) ?N"
      by (cases x rule: prod_cases4) (simp only: mem)
  qed
  have total: "get_total_kv_count r = sum_list (map (\<lambda>(inst, node). card (?N node)) (instances r))"
    unfolding get_total_kv_count_def
    by (intro arg_cong[where f = sum_list] map_cong) (auto simp: count)
  have fin: "\<forall>(inst, node) \<in> set (instances r). finite (?N node)" using count by blast
  note c = card_dict_fibre[OF registry_invD(1)[OF inv] fin]
  show "finite (pool r)" unfolding pool_eq by (rule conjunct1[OF c])
  show "get_total_kv_count r = card (pool r)" unfolding pool_eq total by (rule conjunct2[OF c, symmetric])
qed

section \<open>Operations through the registry\<close>

lemma kv_keys_upd_node:
  assumes inv: "registry_inv r" and i: "get_worker inst w r = Some i"
  shows "get_worker_kv_keys inst' w' loc (upd_node i f r) =
     (if inst' = inst \<and> w' = w then keys_at loc (f (node_at r i)) else get_worker_kv_keys inst' w' loc r)"
proof (cases "get_worker inst' w' r = Some i")
  case True
  with registry_invD(7)[OF inv i] have "inst' = inst \<and> w' = w" by blast
  with registry_invD(5)[OF inv i] i show ?thesis by (simp add: kv_keys_eq reg_simps node_at_upd_node)
next
  case False
  with i have neq: "\<not> (inst' = inst \<and> w' = w)" by blast
  show ?thesis
  proof (cases "get_worker inst' w' r")
    case (Some a)
    with False have "i \<noteq> a" by simp
    with Some show ?thesis unfolding if_not_P[OF neq] by (simp add: kv_keys_eq reg_simps node_at_upd_node)
  next
    case None
    then show ?thesis unfolding if_not_P[OF neq] by (simp add: kv_keys_eq reg_simps)
  qed
qed

lemma reg_handle_batched_facts:
  assumes inv: "registry_inv r" and h: "reg_handle_batched msg fs r = (r', ok)"
  shows "registry_inv r'" and "get_worker inst w r' = get_worker inst w r"
    and "ok \<longleftrightarrow> (\<exists>i. get_worker (bm_instance msg) (bm_worker msg) r = Some i \<and> (\<not> is_syncing (node_at r i) \<or> fs))"
    and "get_worker_kv_keys inst w loc r' =
           (if ok \<and> inst = bm_instance msg \<and> w = bm_worker msg \<and> loc = bm_location msg
            then replay_ops (bm_operations msg) (get_worker_kv_keys inst w loc r)
            else get_worker_kv_keys inst w loc r)"
    and "sync_info (node_at r' j) = sync_info (node_at r j)"
    and "worker_node_cache r' = worker_node_cache r" and "instances r' = instances r"
    and "length (node_store r') = length (node_store r)"
proof -
  have "registry_inv r' \<and> get_worker inst w r' = get_worker inst w r \<and>
    (ok \<longleftrightarrow> (\<exists>i. get_worker (bm_instance msg) (bm_worker msg) r = Some i \<and> (\<not> is_syncing (node_at r i) \<or> fs))) \<and>
    get_worker_kv_keys inst w loc r' =
      (if ok \<and> inst = bm_instance msg \<and> w = bm_worker msg \<and> loc = bm_location msg
       then replay_ops (bm_operations msg) (get_worker_kv_keys inst w loc r)
       else get_worker_kv_keys inst w loc r) \<and>
    sync_info (node_at r' j) = sync_info (node_at r j) \<and> worker_node_cache r' = worker_node_cache r \<and>
    instances r' = instances r \<and> length (node_store r') = length (node_store r)"
  proof (cases "get_worker (bm_instance msg) (bm_worker msg) r")
    case None
    then show ?thesis using h inv by (auto simp: reg_handle_batched_def)
  next
    case (Some i)
    obtain n warning p where n: "wn_handle_batched msg fs (node_at r i) = (n, warning, p)"
      using prod_cases3 by blast
    note f = wn_handle_batched_facts[OF n] and lt = registry_invD(5)[OF inv Some]
    define r1 where "r1 = upd_node i (\<lambda>_. n) r"
    have r': "instances r' = instances r1" "node_store r' = node_store r1" "worker_node_cache r' = worker_node_cache r1" and ok: "ok = p"
      using h by (auto simp: reg_handle_batched_def Some n Let_def r1_def)
    have i1: "registry_inv r1"
      unfolding r1_def using wn_handle_batched_ok[OF registry_invD(8)[OF inv lt], of msg fs] f(8) n
      by (intro upd_node_inv inv) simp_all
    have i': "registry_inv r'" by (rule registry_inv_same[OF i1 r'(1,2)])
    have gw: "get_worker inst' w' r' = get_worker inst' w' r" for inst' w'
      using get_worker_same[OF r'(1), of inst' w'] by (simp add: r1_def reg_simps)
    have na: "node_at r' = node_at r1" by (rule ext) (simp add: node_at_def r'(2))
    have gw1: "get_worker inst w r1 = get_worker inst w r" by (simp add: r1_def reg_simps)
    have kv: "get_worker_kv_keys inst w loc r' = get_worker_kv_keys inst w loc r1"
      by (simp add: kv_keys_eq na gw gw1 split: option.split)
    have "get_worker_kv_keys inst w loc r1 =
      (if ok \<and> inst = bm_instance msg \<and> w = bm_worker msg \<and> loc = bm_location msg
       then replay_ops (bm_operations msg) (get_worker_kv_keys inst w loc r)
       else get_worker_kv_keys inst w loc r)"
      using f(2,3) unfolding r1_def kv_keys_upd_node[OF inv Some] ok
      by (cases p) (auto simp: kv_keys_eq Some)
    moreover have "sync_info (node_at r1 j) = sync_info (node_at r j)"
      using f(7) lt by (simp add: r1_def node_at_upd_node)
    ultimately show ?thesis using i' gw f(1) ok r'
      by (auto simp: Some na kv) (simp_all add: r1_def reg_simps)
  qed
  then show "registry_inv r'" "get_worker inst w r' = get_worker inst w r"
    "ok \<longleftrightarrow> (\<exists>i. get_worker (bm_instance msg) (bm_worker msg) r = Some i \<and> (\<not> is_syncing (node_at r i) \<or> fs))"
    "get_worker_kv_keys inst w loc r' =
      (if ok \<and> inst = bm_instance msg \<and> w = bm_worker msg \<and> loc = bm_location msg
       then replay_ops (bm_operations msg) (get_worker_kv_keys inst w loc r)
       else get_worker_kv_keys inst w loc r)"
    "sync_info (node_at r' j) = sync_info (node_at r j)" "worker_node_cache r' = worker_node_cache r"
    "instances r' = instances r" "length (node_store r') = length (node_store r)"
    by blast+
qed

end
