(* ===== verification/FullSync.thy ===== *)
theory FullSync
  imports Registry
begin

text \<open>
  \<open>FullSyncTracker\<close> (\<open>v1/cache_controller/controllers/full_sync_tracker.py\<close>): the full sync
  session of every worker, kept in the worker's node, and the controller wide flag that asks
  every worker for a sync. The state extends the registry. Time stamps are arguments. Progress
  and threshold are fractions, pairs of numerator and denominator: the division of two counts
  and the comparison with the threshold are exact here and rounded in the code.
\<close>

declare map_of_eq_Some_iff [simp del] Some_eq_map_of_iff [simp del]

record 'h kv_controller = "'h registry" +
  completion_threshold :: "int \<times> int"
  sync_timeout_s :: int
  need_full_sync_all :: bool

definition controller_init :: "int \<times> int \<Rightarrow> int \<Rightarrow> 'h kv_controller" where
  "controller_init threshold timeout =
     \<lparr>node_store = [], instances = [], seq_discontinuity_count = 0,
      worker_info_cache = ttl_init 30, worker_node_cache = ttl_init 30,
      completion_threshold = threshold, sync_timeout_s = timeout, need_full_sync_all = True\<rparr>"

definition get_sync_info :: "string \<Rightarrow> int \<Rightarrow> 'h kv_controller \<Rightarrow> worker_sync_info option" where
  "get_sync_info inst w c =
     (case get_worker inst w c of None \<Rightarrow> None | Some i \<Rightarrow> sync_info (node_at c i))"

definition set_sync_info :: "string \<Rightarrow> int \<Rightarrow> worker_sync_info option \<Rightarrow> 'h kv_controller \<Rightarrow> 'h kv_controller \<times> bool" where
  "set_sync_info inst w si c =
     (case get_worker inst w c of
        None \<Rightarrow> (c, False)
      | Some i \<Rightarrow> (upd_node i (\<lambda>n. n\<lparr>sync_info := si\<rparr>) c, True))"

text \<open>An attribute of the sync info object of a worker is assigned in place.\<close>

definition upd_sync_info :: "string \<Rightarrow> int \<Rightarrow> (worker_sync_info \<Rightarrow> worker_sync_info) \<Rightarrow> 'h kv_controller \<Rightarrow> 'h kv_controller" where
  "upd_sync_info inst w f c =
     (case get_worker inst w c of
        None \<Rightarrow> c
      | Some i \<Rightarrow> upd_node i (\<lambda>n. n\<lparr>sync_info := map_option f (sync_info n)\<rparr>) c)"

definition set_need_full_sync_all :: "bool \<Rightarrow> 'h kv_controller \<Rightarrow> 'h kv_controller" where
  "set_need_full_sync_all need c = c\<lparr>need_full_sync_all := need\<rparr>"

definition should_request_full_sync :: "string \<Rightarrow> int \<Rightarrow> 'h kv_controller \<Rightarrow> bool \<times> string option" where
  "should_request_full_sync inst w c =
     (let si = get_sync_info inst w c
      in if need_full_sync_all c \<and>
            (case si of None \<Rightarrow> True | Some s \<Rightarrow> sync_state s \<noteq> SYNCING \<and> sync_state s \<noteq> COMPLETED)
         then (True, Some ''controller_restart'')
         else if (case si of None \<Rightarrow> False | Some s \<Rightarrow> sync_state s = FAILED)
         then (True, Some ''sync_failed_retry'')
         else (False, None))"

definition is_worker_syncing :: "string \<Rightarrow> int \<Rightarrow> 'h kv_controller \<Rightarrow> bool" where
  "is_worker_syncing inst w c =
     (case get_sync_info inst w c of None \<Rightarrow> False | Some s \<Rightarrow> sync_state s = SYNCING)"

definition get_sync_id :: "string \<Rightarrow> int \<Rightarrow> 'h kv_controller \<Rightarrow> string option" where
  "get_sync_id inst w c = map_option sync_id (get_sync_info inst w c)"

definition start_sync :: "int \<Rightarrow> string \<Rightarrow> int \<Rightarrow> string \<Rightarrow> int \<Rightarrow> int \<Rightarrow> 'h kv_controller \<Rightarrow> 'h kv_controller \<times> bool" where
  "start_sync now inst w sid keys batches c =
     (if (case get_sync_info inst w c of
            None \<Rightarrow> False
          | Some s \<Rightarrow> sync_state s = SYNCING \<and> sync_id s \<noteq> sid)
      then (c, False)
      else set_sync_info inst w (Some (mk_sync_info sid SYNCING now keys batches now)) c)"

definition record_batch :: "int \<Rightarrow> int \<Rightarrow> int \<Rightarrow> worker_sync_info \<Rightarrow> worker_sync_info" where
  "record_batch now batch_id keys s =
     s\<lparr>received_batches := insert batch_id (received_batches s),
       received_keys_count := received_keys_count s + keys,
       last_activity_time := now\<rparr>"

definition receive_batch :: "int \<Rightarrow> string \<Rightarrow> int \<Rightarrow> string \<Rightarrow> int \<Rightarrow> int \<Rightarrow> 'h kv_controller \<Rightarrow> 'h kv_controller \<times> bool" where
  "receive_batch now inst w sid batch_id keys c =
     (case get_sync_info inst w c of
        None \<Rightarrow> (c, False)
      | Some s \<Rightarrow>
          if sync_id s \<noteq> sid then (c, False)
          else if sync_state s \<noteq> SYNCING then (c, False)
          else (upd_sync_info inst w (record_batch now batch_id keys) c, True))"

definition complete_sync :: "int \<Rightarrow> string \<Rightarrow> int \<Rightarrow> string \<Rightarrow> int \<Rightarrow> 'h kv_controller \<Rightarrow> 'h kv_controller \<times> bool" where
  "complete_sync now inst w sid actual_total_keys c =
     (case get_sync_info inst w c of
        None \<Rightarrow> (c, False)
      | Some s \<Rightarrow>
          if sync_id s \<noteq> sid then (c, False)
          else (upd_sync_info inst w (\<lambda>s. s\<lparr>sync_state := COMPLETED, last_activity_time := now\<rparr>) c, True))"

definition mark_failed :: "string \<Rightarrow> int \<Rightarrow> 'h kv_controller \<Rightarrow> 'h kv_controller" where
  "mark_failed inst w c = upd_sync_info inst w (\<lambda>s. s\<lparr>sync_state := FAILED\<rparr>) c"

fun check_timeout_loop :: "int \<Rightarrow> (string \<times> nat) list \<Rightarrow> 'h kv_controller \<Rightarrow> 'h kv_controller" where
  "check_timeout_loop now [] c = c"
| "check_timeout_loop now ((inst, i) # rest) c =
     check_timeout_loop now rest
       (case sync_info (node_at c i) of
          None \<Rightarrow> c
        | Some s \<Rightarrow>
            if sync_state s = SYNCING \<and> sync_timeout_s c < now - last_activity_time s
            then mark_failed inst (worker_id (node_at c i)) c else c)"

definition check_sync_timeout :: "int \<Rightarrow> 'h kv_controller \<Rightarrow> 'h kv_controller" where
  "check_sync_timeout now c =
     (let (c', nodes) = all_worker_nodes_cached now None c in check_timeout_loop now nodes c')"

definition node_ready :: "'h worker_node \<Rightarrow> bool" where
  "node_ready n = (case sync_info n of None \<Rightarrow> True | Some s \<Rightarrow> sync_state s = COMPLETED)"

definition get_global_progress :: "int \<Rightarrow> 'h kv_controller \<Rightarrow> 'h kv_controller \<times> (int \<times> int)" where
  "get_global_progress now c =
     (let (c', nodes) = all_worker_nodes_cached now None c
      in if nodes = [] then (c', (0, 1))
         else (c', (int (length (filter (\<lambda>(inst, i). node_ready (node_at c' i)) nodes)), int (length nodes))))"

definition node_has_state :: "full_sync_state \<Rightarrow> 'h worker_node \<Rightarrow> bool" where
  "node_has_state st n = (case sync_info n of None \<Rightarrow> False | Some s \<Rightarrow> sync_state s = st)"

definition get_completed_count :: "int \<Rightarrow> 'h kv_controller \<Rightarrow> 'h kv_controller \<times> nat" where
  "get_completed_count now c =
     (let (c', nodes) = all_worker_nodes_cached now None c
      in (c', length (filter (\<lambda>(inst, i). node_has_state COMPLETED (node_at c' i)) nodes)))"

definition get_syncing_count :: "int \<Rightarrow> 'h kv_controller \<Rightarrow> 'h kv_controller \<times> nat" where
  "get_syncing_count now c =
     (let (c', nodes) = all_worker_nodes_cached now None c
      in (c', length (filter (\<lambda>(inst, i). node_has_state SYNCING (node_at c' i)) nodes)))"

definition progress_ge :: "int \<times> int \<Rightarrow> int \<times> int \<Rightarrow> bool" where
  "progress_ge p q \<longleftrightarrow> fst q * snd p \<le> fst p * snd q"

definition can_exit_freeze :: "int \<times> int \<Rightarrow> 'h kv_controller \<Rightarrow> 'h kv_controller \<times> bool" where
  "can_exit_freeze progress c =
     (let can_exit = progress_ge progress (completion_threshold c)
      in (if can_exit \<and> need_full_sync_all c then c\<lparr>need_full_sync_all := False\<rparr> else c, can_exit))"

definition missing_of :: "worker_sync_info \<Rightarrow> int set" where
  "missing_of s = {0..<expected_batch_count s} - received_batches s"

definition get_total_missing_batches_count :: "int \<Rightarrow> 'h kv_controller \<Rightarrow> 'h kv_controller \<times> nat" where
  "get_total_missing_batches_count now c =
     (let (c', nodes) = all_worker_nodes_cached now None c
      in (c', sum_list (map (\<lambda>(inst, i).
            case sync_info (node_at c' i) of
              None \<Rightarrow> 0
            | Some s \<Rightarrow> if sync_state s = SYNCING then card (missing_of s) else 0) nodes)))"

definition get_missing_batches :: "string \<Rightarrow> int \<Rightarrow> string \<Rightarrow> 'h kv_controller \<Rightarrow> int list" where
  "get_missing_batches inst w sid c =
     (case get_sync_info inst w c of
        None \<Rightarrow> []
      | Some s \<Rightarrow>
          if sync_id s \<noteq> sid then []
          else if sync_state s = COMPLETED then []
          else if sync_state s \<noteq> SYNCING then []
          else sorted_list_of_set (missing_of s))"

definition get_sync_status ::
    "int \<Rightarrow> string \<Rightarrow> int \<Rightarrow> string \<Rightarrow> 'h kv_controller \<Rightarrow> 'h kv_controller \<times> bool \<times> (int \<times> int) \<times> bool \<times> int list" where
  "get_sync_status now inst w sid c =
     (let is_complete = (case get_sync_info inst w c of
                           None \<Rightarrow> False
                         | Some s \<Rightarrow> sync_id s = sid \<and> sync_state s = COMPLETED);
          (c1, progress) = get_global_progress now c;
          (c2, can_exit) = can_exit_freeze progress c1
      in (c2, is_complete, progress, can_exit, get_missing_batches inst w sid c2))"

lemma missing_of_filter [simp]:
  "sorted_list_of_set (missing_of s) = filter (\<lambda>b. b \<notin> received_batches s) [0..expected_batch_count s - 1]"
proof -
  let ?xs = "filter (\<lambda>b. b \<notin> received_batches s) [0..expected_batch_count s - 1]"
  have "set ?xs = missing_of s" by (auto simp: missing_of_def)
  moreover have "sorted_list_of_set (set ?xs) = ?xs"
    by (rule sorted_list_of_set.idem_if_sorted_distinct) (simp_all add: sorted_wrt_filter)
  ultimately show ?thesis by simp
qed

section \<open>What the tracker changes\<close>

lemma get_sync_info_alt:
  "get_sync_info inst w c = Some s \<longleftrightarrow> (\<exists>i. get_worker inst w c = Some i \<and> sync_info (node_at c i) = Some s)"
  by (simp add: get_sync_info_def split: option.split)

lemma is_syncing_node:
  "get_worker inst w c = Some i \<Longrightarrow> is_syncing (node_at c i) = is_worker_syncing inst w c"
  by (simp add: is_syncing_def is_worker_syncing_def get_sync_info_def)

lemma get_sync_info_upd_node:
  assumes inv: "registry_inv c" and i: "get_worker inst w c = Some i"
  shows "get_sync_info inst' w' (upd_node i f c) =
     (if inst' = inst \<and> w' = w then sync_info (f (node_at c i)) else get_sync_info inst' w' c)"
proof (cases "get_worker inst' w' c = Some i")
  case True
  with registry_invD(7)[OF inv i] have "inst' = inst \<and> w' = w" by blast
  with registry_invD(5)[OF inv i] i show ?thesis by (simp add: get_sync_info_def reg_simps node_at_upd_node)
next
  case False
  with i have neq: "\<not> (inst' = inst \<and> w' = w)" by blast
  show ?thesis unfolding if_not_P[OF neq]
  proof (cases "get_worker inst' w' c")
    case (Some a)
    with False have "i \<noteq> a" by simp
    with Some show "get_sync_info inst' w' (upd_node i f c) = get_sync_info inst' w' c"
      by (simp add: get_sync_info_def reg_simps node_at_upd_node)
  qed (simp add: get_sync_info_def reg_simps)
qed

lemma upd_sync_info_keeps:
  assumes inv: "registry_inv c"
  shows "registry_inv (upd_sync_info inst w f c)"
    and "get_worker inst' w' (upd_sync_info inst w f c) = get_worker inst' w' c"
    and "get_worker_kv_keys inst' w' loc (upd_sync_info inst w f c) = get_worker_kv_keys inst' w' loc c"
    and "get_sync_info inst' w' (upd_sync_info inst w f c) =
      (if inst' = inst \<and> w' = w then map_option f (get_sync_info inst w c) else get_sync_info inst' w' c)"
    and "need_full_sync_all (upd_sync_info inst w f c) = need_full_sync_all c"
    and "worker_node_cache (upd_sync_info inst w f c) = worker_node_cache c"
    and "length (node_store (upd_sync_info inst w f c)) = length (node_store c)"
proof -
  have "registry_inv (upd_sync_info inst w f c) \<and>
    get_worker inst' w' (upd_sync_info inst w f c) = get_worker inst' w' c \<and>
    get_worker_kv_keys inst' w' loc (upd_sync_info inst w f c) = get_worker_kv_keys inst' w' loc c \<and>
    get_sync_info inst' w' (upd_sync_info inst w f c) =
      (if inst' = inst \<and> w' = w then map_option f (get_sync_info inst w c) else get_sync_info inst' w' c)"
  proof (cases "get_worker inst w c")
    case None
    then show ?thesis using inv by (simp add: upd_sync_info_def get_sync_info_def)
  next
    case (Some i)
    have "wn_ok ((node_at c i)\<lparr>sync_info := si\<rparr>)" for si
      using registry_invD(8)[OF inv registry_invD(5)[OF inv Some]] by (simp add: wn_ok_def)
    then have "registry_inv (upd_node i (\<lambda>n. n\<lparr>sync_info := map_option f (sync_info n)\<rparr>) c)"
      by (intro upd_node_inv inv) simp_all
    then show ?thesis
      by (simp add: upd_sync_info_def Some reg_simps kv_keys_upd_node[OF inv Some] get_sync_info_upd_node[OF inv Some])
        (simp add: kv_keys_eq keys_at_def get_sync_info_def Some)
  qed
  then show "registry_inv (upd_sync_info inst w f c)"
    "get_worker inst' w' (upd_sync_info inst w f c) = get_worker inst' w' c"
    "get_worker_kv_keys inst' w' loc (upd_sync_info inst w f c) = get_worker_kv_keys inst' w' loc c"
    "get_sync_info inst' w' (upd_sync_info inst w f c) =
      (if inst' = inst \<and> w' = w then map_option f (get_sync_info inst w c) else get_sync_info inst' w' c)"
    by blast+
qed (simp_all add: upd_sync_info_def upd_node_def split: option.split)

lemma set_sync_info_keeps:
  assumes inv: "registry_inv c" and s: "set_sync_info inst w si c = (c', ok)"
  shows "registry_inv c'" and "get_worker inst' w' c' = get_worker inst' w' c"
    and "get_worker_kv_keys inst' w' loc c' = get_worker_kv_keys inst' w' loc c"
    and "ok \<longleftrightarrow> get_worker inst w c \<noteq> None"
    and "get_sync_info inst' w' c' = (if ok \<and> inst' = inst \<and> w' = w then si else get_sync_info inst' w' c)"
    and "worker_node_cache c' = worker_node_cache c"
    and "length (node_store c') = length (node_store c)"
proof -
  have "registry_inv c' \<and> get_worker inst' w' c' = get_worker inst' w' c \<and>
    get_worker_kv_keys inst' w' loc c' = get_worker_kv_keys inst' w' loc c \<and> (ok \<longleftrightarrow> get_worker inst w c \<noteq> None) \<and>
    get_sync_info inst' w' c' = (if ok \<and> inst' = inst \<and> w' = w then si else get_sync_info inst' w' c)"
  proof (cases "get_worker inst w c")
    case None
    then show ?thesis using inv s by (auto simp: set_sync_info_def)
  next
    case (Some i)
    have "wn_ok ((node_at c i)\<lparr>sync_info := si\<rparr>)"
      using registry_invD(8)[OF inv registry_invD(5)[OF inv Some]] by (simp add: wn_ok_def)
    then have "registry_inv (upd_node i (\<lambda>n. n\<lparr>sync_info := si\<rparr>) c)"
      by (intro upd_node_inv inv) simp_all
    moreover have "c' = upd_node i (\<lambda>n. n\<lparr>sync_info := si\<rparr>) c" and ok: "ok"
      using s by (simp_all add: set_sync_info_def Some)
    ultimately show ?thesis
      by (simp add: Some reg_simps kv_keys_upd_node[OF inv Some] get_sync_info_upd_node[OF inv Some])
        (simp add: kv_keys_eq keys_at_def get_sync_info_def Some)
  qed
  then show "registry_inv c'" "get_worker inst' w' c' = get_worker inst' w' c"
    "get_worker_kv_keys inst' w' loc c' = get_worker_kv_keys inst' w' loc c"
    "ok \<longleftrightarrow> get_worker inst w c \<noteq> None"
    "get_sync_info inst' w' c' = (if ok \<and> inst' = inst \<and> w' = w then si else get_sync_info inst' w' c)"
    by blast+
  show "worker_node_cache c' = worker_node_cache c" "length (node_store c') = length (node_store c)"
    using s by (auto simp: set_sync_info_def upd_node_def split: option.splits)
qed

lemma start_sync_facts:
  assumes inv: "registry_inv c" and s: "start_sync now inst w sid keys batches c = (c', ok)"
  shows "registry_inv c'" and "get_worker inst' w' c' = get_worker inst' w' c"
    and "get_worker_kv_keys inst' w' loc c' = get_worker_kv_keys inst' w' loc c"
    and "ok \<longleftrightarrow> get_worker inst w c \<noteq> None \<and>
           \<not> (\<exists>si. get_sync_info inst w c = Some si \<and> sync_state si = SYNCING \<and> sync_id si \<noteq> sid)"
    and "get_sync_info inst' w' c' =
           (if ok \<and> inst' = inst \<and> w' = w then Some (mk_sync_info sid SYNCING now keys batches now)
            else get_sync_info inst' w' c)"
    and "worker_node_cache c' = worker_node_cache c" and "length (node_store c') = length (node_store c)"
proof -
  consider (busy) "\<exists>si. get_sync_info inst w c = Some si \<and> sync_state si = SYNCING \<and> sync_id si \<noteq> sid"
      "c' = c" "\<not> ok"
    | (free) "\<not> (\<exists>si. get_sync_info inst w c = Some si \<and> sync_state si = SYNCING \<and> sync_id si \<noteq> sid)"
      "set_sync_info inst w (Some (mk_sync_info sid SYNCING now keys batches now)) c = (c', ok)"
    using s by (auto simp: start_sync_def split: option.splits if_splits)
  then have "registry_inv c' \<and> get_worker inst' w' c' = get_worker inst' w' c \<and>
    get_worker_kv_keys inst' w' loc c' = get_worker_kv_keys inst' w' loc c \<and>
    (ok \<longleftrightarrow> get_worker inst w c \<noteq> None \<and>
       \<not> (\<exists>si. get_sync_info inst w c = Some si \<and> sync_state si = SYNCING \<and> sync_id si \<noteq> sid)) \<and>
    get_sync_info inst' w' c' =
      (if ok \<and> inst' = inst \<and> w' = w then Some (mk_sync_info sid SYNCING now keys batches now)
       else get_sync_info inst' w' c) \<and>
    worker_node_cache c' = worker_node_cache c \<and> length (node_store c') = length (node_store c)"
  proof cases
    case free
    note f = set_sync_info_keeps[OF inv free(2)]
    show ?thesis using f(1-7) free(1) by simp
  qed (use inv in simp)
  then show "registry_inv c'" "get_worker inst' w' c' = get_worker inst' w' c"
    "get_worker_kv_keys inst' w' loc c' = get_worker_kv_keys inst' w' loc c"
    "ok \<longleftrightarrow> get_worker inst w c \<noteq> None \<and>
       \<not> (\<exists>si. get_sync_info inst w c = Some si \<and> sync_state si = SYNCING \<and> sync_id si \<noteq> sid)"
    "get_sync_info inst' w' c' =
      (if ok \<and> inst' = inst \<and> w' = w then Some (mk_sync_info sid SYNCING now keys batches now)
       else get_sync_info inst' w' c)"
    "worker_node_cache c' = worker_node_cache c" "length (node_store c') = length (node_store c)"
    by blast+
qed

definition session_open :: "string \<Rightarrow> int \<Rightarrow> string \<Rightarrow> 'h kv_controller \<Rightarrow> bool" where
  "session_open inst w sid c \<longleftrightarrow>
     (\<exists>s. get_sync_info inst w c = Some s \<and> sync_id s = sid \<and> sync_state s = SYNCING)"

lemma receive_batch_eq:
  "receive_batch now inst w sid b n c =
     (if session_open inst w sid c then (upd_sync_info inst w (record_batch now b n) c, True) else (c, False))"
  by (auto simp: receive_batch_def session_open_def split: option.splits)

lemma complete_sync_eq:
  "complete_sync now inst w sid n c =
     (if get_sync_id inst w c = Some sid
      then (upd_sync_info inst w (\<lambda>s. s\<lparr>sync_state := COMPLETED, last_activity_time := now\<rparr>) c, True)
      else (c, False))"
  by (auto simp: complete_sync_def get_sync_id_def split: option.splits)

lemma is_worker_syncing_open: "is_worker_syncing inst w c \<longleftrightarrow> (\<exists>sid. session_open inst w sid c)"
  by (auto simp: is_worker_syncing_def session_open_def split: option.splits)

section \<open>Operations of the registry seen from the tracker\<close>

lemma clear_worker_kv_facts:
  assumes inv: "registry_inv c" and s: "clear_worker_kv inst w loc c = (c', ok)"
  shows "registry_inv c'" and "get_worker inst' w' c' = get_worker inst' w' c"
    and "get_sync_info inst' w' c' = get_sync_info inst' w' c"
    and "get_worker_kv_keys inst' w' l c' =
           (if inst' = inst \<and> w' = w \<and> (loc = None \<or> loc = Some l) then {} else get_worker_kv_keys inst' w' l c)"
    and "worker_node_cache c' = worker_node_cache c" and "length (node_store c') = length (node_store c)"
    and "ok \<longleftrightarrow> get_worker inst w c \<noteq> None"
proof -
  have "registry_inv c' \<and> get_worker inst' w' c' = get_worker inst' w' c \<and>
    get_sync_info inst' w' c' = get_sync_info inst' w' c \<and>
    get_worker_kv_keys inst' w' l c' =
      (if inst' = inst \<and> w' = w \<and> (loc = None \<or> loc = Some l) then {} else get_worker_kv_keys inst' w' l c) \<and>
    (ok \<longleftrightarrow> get_worker inst w c \<noteq> None)"
  proof (cases "get_worker inst w c")
    case None
    then show ?thesis using inv s by (auto simp: clear_worker_kv_def kv_keys_eq)
  next
    case (Some i)
    let ?f = "case loc of None \<Rightarrow> wn_clear_kv_store | Some l \<Rightarrow> wn_clear_location l"
    have c': "c' = upd_node i ?f c" and ok: ok using s by (auto simp: clear_worker_kv_def Some)
    note n = registry_invD(8)[OF inv registry_invD(5)[OF inv Some]]
    have "registry_inv c'"
      unfolding c' by (intro upd_node_inv inv) (simp_all add: n wn_clear_ok reg_simps split: option.split)
    then show ?thesis
      by (cases loc) (simp_all add: c' Some ok reg_simps kv_keys_upd_node[OF inv Some]
          get_sync_info_upd_node[OF inv Some], simp_all add: get_sync_info_def kv_keys_eq Some)
  qed
  then show "registry_inv c'" "get_worker inst' w' c' = get_worker inst' w' c"
    "get_sync_info inst' w' c' = get_sync_info inst' w' c"
    "get_worker_kv_keys inst' w' l c' =
      (if inst' = inst \<and> w' = w \<and> (loc = None \<or> loc = Some l) then {} else get_worker_kv_keys inst' w' l c)"
    "ok \<longleftrightarrow> get_worker inst w c \<noteq> None"
    by blast+
  show "worker_node_cache c' = worker_node_cache c" "length (node_store c') = length (node_store c)"
    using s by (auto simp: clear_worker_kv_def reg_simps split: option.splits)
qed

lemma register_worker_facts:
  assumes inv: "registry_inv c" and new: "get_worker inst w c = None"
    and c': "c' = fst (register_worker inst w addr prt url now c)"
  shows "registry_inv c'"
    and "get_worker inst' w' c' = (if inst' = inst \<and> w' = w then Some (length (node_store c)) else get_worker inst' w' c)"
    and "get_sync_info inst' w' c' = get_sync_info inst' w' c"
    and "get_worker_kv_keys inst' w' l c' = get_worker_kv_keys inst' w' l c"
    and "node_store c' = node_store c @ [mk_worker_node w addr prt url now]"
    and "worker_node_cache c' = worker_node_cache c"
proof -
  show "registry_inv c'" unfolding c' by (rule register_worker_inv[OF inv])
  show g: "get_worker inst' w' c' = (if inst' = inst \<and> w' = w then Some (length (node_store c)) else get_worker inst' w' c)" for inst' w'
    unfolding c' by (rule get_worker_register)
  show st: "node_store c' = node_store c @ [mk_worker_node w addr prt url now]"
    unfolding c' by (rule register_worker_store)
  have old: "node_at c' i = node_at c i" if "get_worker a b c = Some i" for a b i
    using registry_invD(5)[OF inv that] by (simp add: node_at_def st nth_append)
  have fresh: "node_at c' (length (node_store c)) = mk_worker_node w addr prt url now"
    by (simp add: node_at_def st)
  show "get_sync_info inst' w' c' = get_sync_info inst' w' c"
    using new by (auto simp: get_sync_info_def g fresh old mk_worker_node_def split: option.split)
  show "get_worker_kv_keys inst' w' l c' = get_worker_kv_keys inst' w' l c"
    using new by (auto simp: kv_keys_eq g fresh old mk_worker_node_def keys_at_def split: option.split)
  show "worker_node_cache c' = worker_node_cache c"
    by (simp add: c' register_worker_def get_or_create_instance_def Let_def split: option.split)
qed

lemma deregister_worker_facts:
  assumes inv: "registry_inv c" and c': "c' = fst (deregister_worker inst w c)"
  shows "registry_inv c'"
    and "get_worker inst' w' c' = (if inst' = inst \<and> w' = w then None else get_worker inst' w' c)"
    and "get_sync_info inst' w' c' = (if inst' = inst \<and> w' = w then None else get_sync_info inst' w' c)"
    and "get_worker_kv_keys inst' w' l c' = (if inst' = inst \<and> w' = w then {} else get_worker_kv_keys inst' w' l c)"
    and "node_store c' = node_store c"
    and "worker_node_cache c' = worker_node_cache c"
proof -
  note d = get_worker_deregister[OF inv, where inst = inst and w = w, folded c']
  show "registry_inv c'" unfolding c' by (rule deregister_worker_inv[OF inv])
  show "get_worker inst' w' c' = (if inst' = inst \<and> w' = w then None else get_worker inst' w' c)"
    by (rule d(1))
  have na: "node_at c' = node_at c" by (rule ext) (simp add: node_at_def d(3))
  show "get_sync_info inst' w' c' = (if inst' = inst \<and> w' = w then None else get_sync_info inst' w' c)"
    by (simp add: get_sync_info_def d(1) na split: option.split)
  show "get_worker_kv_keys inst' w' l c' = (if inst' = inst \<and> w' = w then {} else get_worker_kv_keys inst' w' l c)"
    by (simp add: kv_keys_eq d(1) na split: option.split)
  show "node_store c' = node_store c" by (rule d(3))
  show "worker_node_cache c' = worker_node_cache c"
    by (simp add: c' deregister_worker_def Let_def split: option.split)
qed

lemma update_heartbeat_facts:
  assumes inv: "registry_inv c" and s: "update_heartbeat inst w now c = (c', ok)"
  shows "registry_inv c'" and "get_worker inst' w' c' = get_worker inst' w' c"
    and "get_sync_info inst' w' c' = get_sync_info inst' w' c"
    and "get_worker_kv_keys inst' w' l c' = get_worker_kv_keys inst' w' l c"
    and "ok \<longleftrightarrow> get_worker inst w c \<noteq> None"
    and "worker_node_cache c' = worker_node_cache c" and "length (node_store c') = length (node_store c)"
    and "need_full_sync_all c' = need_full_sync_all c"
proof -
  have "registry_inv c' \<and> get_worker inst' w' c' = get_worker inst' w' c \<and>
    get_sync_info inst' w' c' = get_sync_info inst' w' c \<and>
    get_worker_kv_keys inst' w' l c' = get_worker_kv_keys inst' w' l c \<and> (ok \<longleftrightarrow> get_worker inst w c \<noteq> None)"
  proof (cases "get_worker inst w c")
    case None
    then show ?thesis using inv s by (auto simp: update_heartbeat_def)
  next
    case (Some i)
    have c': "c' = upd_node i (\<lambda>n. n\<lparr>last_heartbeat_time := now\<rparr>) c" and ok: ok
      using s by (auto simp: update_heartbeat_def Some)
    have "registry_inv c'"
      unfolding c' using registry_invD(8)[OF inv registry_invD(5)[OF inv Some]]
      by (intro upd_node_inv inv) (simp_all add: wn_ok_def)
    then show ?thesis
      by (simp add: c' Some ok reg_simps kv_keys_upd_node[OF inv Some] get_sync_info_upd_node[OF inv Some])
        (simp add: kv_keys_eq keys_at_def get_sync_info_def Some)
  qed
  then show "registry_inv c'" "get_worker inst' w' c' = get_worker inst' w' c"
    "get_sync_info inst' w' c' = get_sync_info inst' w' c"
    "get_worker_kv_keys inst' w' l c' = get_worker_kv_keys inst' w' l c" "ok \<longleftrightarrow> get_worker inst w c \<noteq> None"
    by blast+
  show "worker_node_cache c' = worker_node_cache c" "length (node_store c') = length (node_store c)"
    "need_full_sync_all c' = need_full_sync_all c"
    using s by (auto simp: update_heartbeat_def upd_node_def split: option.splits)
qed

end
