(* ===== verification/Controller.thy ===== *)
theory Controller
  imports FullSync
begin

text \<open>
  The message handlers of the cache controller: \<open>KVController\<close>
  (\<open>controllers/kv_controller.py\<close>), \<open>RegistrationController\<close>
  (\<open>controllers/registration_controller.py\<close>) and the dispatch and the health check of
  \<open>LMCacheControllerManager\<close> (\<open>controller_manager.py\<close>). A handler runs to its end before the
  next one (no handler modelled here awaits anything), so it is a function of the state. The
  requests that only forward to the workers through the cluster executor, the sockets and the
  codec are left out. The token database of \<open>lookup\<close> is a parameter: its chunks are an
  argument.

  \<open>ctrl_reachable\<close> are the states after any sequence of handled messages; the properties of
  the controller hold there.
\<close>

declare map_of_eq_Some_iff [simp del] Some_eq_map_of_iff [simp del]

section \<open>KVController\<close>

definition kv_handle_batched :: "'h batched_kv_msg \<Rightarrow> 'h kv_controller \<Rightarrow> 'h kv_controller" where
  "kv_handle_batched msg c =
     (if bm_operations msg = [] then c
      else if is_worker_syncing (bm_instance msg) (bm_worker msg) c then c
      else fst (reg_handle_batched msg False c))"

record full_sync_start_ret =
  sr_sync_id :: string
  sr_accepted :: bool

definition handle_full_sync_start ::
    "int \<Rightarrow> full_sync_start_msg \<Rightarrow> 'h kv_controller \<Rightarrow> 'h kv_controller \<times> full_sync_start_ret" where
  "handle_full_sync_start now msg c =
     (let inst = fs_instance msg; w = fs_worker msg; loc = fs_location msg;
          (c1, success) = start_sync now inst w (fs_sync_id msg) (fs_total_keys msg) (fs_batch_count msg) c
      in if \<not> success then (c1, \<lparr>sr_sync_id = fs_sync_id msg, sr_accepted = False\<rparr>)
         else (if get_worker_kv_keys inst w loc c1 \<noteq> {} then fst (clear_worker_kv inst w (Some loc) c1) else c1,
               \<lparr>sr_sync_id = fs_sync_id msg, sr_accepted = True\<rparr>))"

fun admit_events :: "int \<Rightarrow> 'h list \<Rightarrow> 'h kv_op_event list" where
  "admit_events n [] = []"
| "admit_events n (k # ks) = \<lparr>op_kind = ADMIT, op_key = k, op_seq = n\<rparr> # admit_events (n + 1) ks"

definition handle_full_sync_batch :: "int \<Rightarrow> 'h full_sync_batch_msg \<Rightarrow> 'h kv_controller \<Rightarrow> 'h kv_controller" where
  "handle_full_sync_batch now msg c =
     (let (c1, recorded) = receive_batch now (fb_instance msg) (fb_worker msg) (fb_sync_id msg)
                             (fb_batch_id msg) (int (length (fb_keys msg))) c
      in if \<not> recorded then c1
         else let operations = admit_events 0 (fb_keys msg)
              in if operations \<noteq> []
                 then fst (reg_handle_batched
                        \<lparr>bm_instance = fb_instance msg, bm_worker = fb_worker msg,
                         bm_location = fb_location msg, bm_operations = operations\<rparr> True c1)
                 else c1)"

definition handle_full_sync_end :: "int \<Rightarrow> full_sync_end_msg \<Rightarrow> 'h kv_controller \<Rightarrow> 'h kv_controller" where
  "handle_full_sync_end now msg c =
     fst (complete_sync now (fe_instance msg) (fe_worker msg) (fe_sync_id msg) (fe_actual_total_keys msg) c)"

definition handle_full_sync_status ::
    "int \<Rightarrow> string \<Rightarrow> int \<Rightarrow> string \<Rightarrow> 'h kv_controller \<Rightarrow> 'h kv_controller \<times> full_sync_status_ret" where
  "handle_full_sync_status now inst w sid c =
     (let (c', is_complete, progress, can_exit, missing) = get_sync_status now inst w sid c
      in (c', \<lparr>fr_sync_id = sid, fr_is_complete = is_complete, fr_global_progress = progress,
              fr_can_exit_freeze = can_exit, fr_missing_batches = missing\<rparr>))"

text \<open>\<open>lookup\<close> over the chunks (start, end, key) of the token database; the result maps an
  instance to the location and the end of the last chunk found there.\<close>

fun lookup_loop ::
    "('h \<Rightarrow> kv_chunk_info option) \<Rightarrow> (int \<times> int \<times> 'h) list \<Rightarrow> (string, string \<times> int) odict
      \<Rightarrow> (string, string \<times> int) odict" where
  "lookup_loop finder [] layout = layout"
| "lookup_loop finder ((first, stop, key) # chunks) layout =
     (case finder key of
        None \<Rightarrow> layout
      | Some info \<Rightarrow> lookup_loop finder chunks (AList.update (ci_instance info) (ci_location info, stop) layout))"

definition kv_lookup :: "(int \<times> int \<times> 'h) list \<Rightarrow> 'h kv_controller \<Rightarrow> (string, string \<times> int) odict" where
  "kv_lookup chunks c = lookup_loop (\<lambda>key. find_kv key None c) chunks []"

fun count_hits :: "'h list \<Rightarrow> 'h set \<Rightarrow> int" where
  "count_hits [] ks = 0"
| "count_hits (k # rest) ks = (if k \<notin> ks then 0 else 1 + count_hits rest ks)"

definition batched_p2p_lookup :: "'h list \<Rightarrow> string \<Rightarrow> 'h kv_controller \<Rightarrow> (string \<times> string \<times> int \<times> string) list" where
  "batched_p2p_lookup hashes inst c =
     (case hashes of
        [] \<Rightarrow> [('''', '''', 0, '''')]
      | h # _ \<Rightarrow>
          (case find_kv_with_worker_info h (Some inst) c of
             None \<Rightarrow> [('''', '''', 0, '''')]
           | Some (info, None, ks) \<Rightarrow> [('''', '''', 0, '''')]
           | Some (info, Some url, ks) \<Rightarrow>
               [(ci_instance info, ci_location info, count_hits hashes ks, url)]))"

section \<open>RegistrationController\<close>

definition get_peer_init_url :: "string \<Rightarrow> int \<Rightarrow> 'h kv_controller \<Rightarrow> string option" where
  "get_peer_init_url inst w c =
     (case get_worker inst w c of None \<Rightarrow> None | Some i \<Rightarrow> peer_init_url (node_at c i))"

definition get_instance_id :: "string \<Rightarrow> 'h kv_controller \<Rightarrow> string option" where
  "get_instance_id addr c = map_option instance_id (get_instance_by_ip addr c)"

definition rc_register :: "int \<Rightarrow> string \<Rightarrow> int \<Rightarrow> string \<Rightarrow> int \<Rightarrow> string option \<Rightarrow> 'h kv_controller \<Rightarrow> 'h kv_controller" where
  "rc_register now inst w addr prt url c =
     (if get_worker inst w c \<noteq> None then fst (clear_worker_kv inst w None c)
      else fst (register_worker inst w addr prt url now c))"

definition rc_deregister :: "string \<Rightarrow> int \<Rightarrow> 'h kv_controller \<Rightarrow> 'h kv_controller" where
  "rc_deregister inst w c = fst (deregister_worker inst w c)"

definition rc_heartbeat ::
    "int \<Rightarrow> string \<Rightarrow> int \<Rightarrow> string \<Rightarrow> int \<Rightarrow> string option \<Rightarrow> 'h kv_controller \<Rightarrow> 'h kv_controller \<times> string option list" where
  "rc_heartbeat now inst w addr prt url c =
     (let (c1, success) = update_heartbeat inst w now c
      in if \<not> success then (rc_register now inst w addr prt url c1, [Some ''worker_re_registered''])
         else let (should_sync, reason) = should_request_full_sync inst w c1
              in (c1, if should_sync then [reason] else []))"

definition query_worker_info ::
    "int \<Rightarrow> string \<Rightarrow> int list option \<Rightarrow> 'h kv_controller \<Rightarrow> 'h kv_controller \<times> worker_info list" where
  "query_worker_info now inst ids c =
     (if inst = ''all''
      then let (c', infos) = all_worker_infos_cached now None c
           in (c', case ids of
                     None \<Rightarrow> infos
                   | Some ws \<Rightarrow> if ws = [] then infos else filter (\<lambda>wi. wi_worker wi \<in> set ws) infos)
      else case get_instance inst c of
             None \<Rightarrow> (c, [])
           | Some node \<Rightarrow>
               let ws = (case ids of
                           None \<Rightarrow> sort (map fst (workers node))
                         | Some ws \<Rightarrow> if ws = [] then sort (map fst (workers node)) else ws)
               in (c, concat (map (\<lambda>w. case map_of (workers node) w of
                                         None \<Rightarrow> []
                                       | Some i \<Rightarrow> [to_worker_info inst (node_at c i)]) ws)))"

section \<open>Dispatch and health check\<close>

datatype 'h worker_msg =
    RegisterMsg string int string int "string option"
  | DeRegisterMsg string int
  | BatchedKVOperationMsg "'h batched_kv_msg"
  | FullSyncBatchMsg "'h full_sync_batch_msg"
  | FullSyncEndMsg full_sync_end_msg
  | HeartbeatMsg string int string int "string option"
  | BatchedP2PLookupMsg "'h list" string
  | FullSyncStartMsg full_sync_start_msg
  | FullSyncStatusMsg string int string

datatype worker_ret =
    NoReply
  | RegisterRet
  | HeartbeatRet "string option list"
  | P2PLookupRet "(string \<times> string \<times> int \<times> string) list"
  | FullSyncStartRet full_sync_start_ret
  | FullSyncStatusRet full_sync_status_ret

fun handle_worker_msg :: "int \<Rightarrow> 'h worker_msg \<Rightarrow> 'h kv_controller \<Rightarrow> 'h kv_controller \<times> worker_ret" where
  "handle_worker_msg now (RegisterMsg inst w addr prt url) c = (rc_register now inst w addr prt url c, RegisterRet)"
| "handle_worker_msg now (DeRegisterMsg inst w) c = (rc_deregister inst w c, NoReply)"
| "handle_worker_msg now (BatchedKVOperationMsg m) c = (kv_handle_batched m c, NoReply)"
| "handle_worker_msg now (FullSyncBatchMsg m) c = (handle_full_sync_batch now m c, NoReply)"
| "handle_worker_msg now (FullSyncEndMsg m) c = (handle_full_sync_end now m c, NoReply)"
| "handle_worker_msg now (HeartbeatMsg inst w addr prt url) c =
     (let (c', cmds) = rc_heartbeat now inst w addr prt url c in (c', HeartbeatRet cmds))"
| "handle_worker_msg now (BatchedP2PLookupMsg hs inst) c = (c, P2PLookupRet (batched_p2p_lookup hs inst c))"
| "handle_worker_msg now (FullSyncStartMsg m) c =
     (let (c', r) = handle_full_sync_start now m c in (c', FullSyncStartRet r))"
| "handle_worker_msg now (FullSyncStatusMsg inst w sid) c =
     (let (c', r) = handle_full_sync_status now inst w sid c in (c', FullSyncStatusRet r))"

fun deregister_stale :: "int \<Rightarrow> int \<Rightarrow> worker_info list \<Rightarrow> 'h kv_controller \<Rightarrow> 'h kv_controller" where
  "deregister_stale now timeout [] c = c"
| "deregister_stale now timeout (wi # wis) c =
     deregister_stale now timeout wis
       (if timeout < now - wi_last_heartbeat_time wi
        then rc_deregister (wi_instance wi) (wi_worker wi) c else c)"

definition health_check :: "int \<Rightarrow> int \<Rightarrow> 'h kv_controller \<Rightarrow> 'h kv_controller" where
  "health_check now timeout c =
     (let (c', infos) = all_worker_infos_cached now (Some 1) c in deregister_stale now timeout infos c')"

section \<open>Reachable states\<close>

inductive ctrl_reachable :: "'h kv_controller \<Rightarrow> bool" where
  start: "ctrl_reachable (controller_init threshold timeout)"
| message: "ctrl_reachable c \<Longrightarrow> ctrl_reachable (fst (handle_worker_msg now m c))"
| health: "ctrl_reachable c \<Longrightarrow> ctrl_reachable (health_check now timeout c)"
| sync_timeout: "ctrl_reachable c \<Longrightarrow> ctrl_reachable (check_sync_timeout now c)"
| query: "ctrl_reachable c \<Longrightarrow> ctrl_reachable (fst (query_worker_info now inst ids c))"
| need: "ctrl_reachable c \<Longrightarrow> ctrl_reachable (set_need_full_sync_all b c)"

section \<open>Effects of the handlers\<close>

text \<open>\<open>same_tree\<close>: a handler that only touches the caches and the flag; \<open>ctrl_ext\<close>: what every
  handler keeps, the store only grows and the cached node list is still valid.\<close>

definition same_tree :: "'h kv_controller \<Rightarrow> 'h kv_controller \<Rightarrow> bool" where
  "same_tree c c' \<longleftrightarrow> instances c' = instances c \<and> node_store c' = node_store c"

lemma same_tree_views:
  assumes "same_tree c c'"
  shows "registry_inv c' = registry_inv c" and "get_worker inst w c' = get_worker inst w c"
    and "get_sync_info inst w c' = get_sync_info inst w c"
    and "get_worker_kv_keys inst w loc c' = get_worker_kv_keys inst w loc c"
    and "node_at c' = node_at c" and "session_open inst w sid c' = session_open inst w sid c"
proof -
  have i: "instances c' = instances c" and n: "node_store c' = node_store c"
    using assms by (auto simp: same_tree_def)
  show "registry_inv c' = registry_inv c"
    using registry_inv_same[of c c'] registry_inv_same[of c' c] i n by auto
  show g: "get_worker inst w c' = get_worker inst w c" by (rule get_worker_same[OF i])
  show na: "node_at c' = node_at c" by (rule ext) (simp add: node_at_def n)
  show s: "get_sync_info inst w c' = get_sync_info inst w c"
    by (simp add: get_sync_info_def g na split: option.split)
  show "get_worker_kv_keys inst w loc c' = get_worker_kv_keys inst w loc c"
    by (simp add: kv_keys_eq g na split: option.split)
  show "session_open inst w sid c' = session_open inst w sid c" by (simp add: session_open_def s)
qed

definition ctrl_inv :: "'h kv_controller \<Rightarrow> bool" where
  "ctrl_inv c \<longleftrightarrow> registry_inv c \<and> (\<forall>(inst, i) \<in> set (ttl_items (worker_node_cache c)). i < length (node_store c))"

lemma ctrl_inv_ext:
  assumes "ctrl_inv c" and "registry_inv c'" and "worker_node_cache c' = worker_node_cache c"
    and "length (node_store c) \<le> length (node_store c')"
  shows "ctrl_inv c'"
  using assms unfolding ctrl_inv_def by fastforce

lemma fresh_nodes:
  assumes "registry_inv c"
  shows "(inst, i) \<in> set (all_worker_nodes_fresh c) \<longleftrightarrow> (\<exists>w. get_worker inst w c = Some i)"
  by (fastforce simp: all_worker_nodes_fresh_def get_worker_iff[OF assms])

lemma nodes_cached_facts:
  assumes inv: "ctrl_inv c" and s: "all_worker_nodes_cached now timeout c = (c', nodes)"
  shows "ctrl_inv c'" and "same_tree c c'" and "need_full_sync_all c' = need_full_sync_all c"
    and "completion_threshold c' = completion_threshold c"
    and "ttl_is_expired timeout now (worker_node_cache c) \<Longrightarrow> nodes = all_worker_nodes_fresh c"
    and "\<forall>(inst, i) \<in> set nodes. i < length (node_store c)"
proof -
  have fresh: "\<forall>(inst, i) \<in> set (all_worker_nodes_fresh c). i < length (node_store c)"
    using inv fresh_nodes[of c] registry_invD(5)[of c] unfolding ctrl_inv_def by blast
  show tree: "same_tree c c'"
    using s by (auto simp: same_tree_def all_worker_nodes_cached_def ttl_get_cached_def split: if_splits)
  show nodes: "\<forall>(inst, i) \<in> set nodes. i < length (node_store c)"
    using s inv fresh by (auto simp: all_worker_nodes_cached_def ttl_get_cached_def ctrl_inv_def split: if_splits)
  have "ttl_items (worker_node_cache c') = nodes"
    using s by (auto simp: all_worker_nodes_cached_def ttl_get_cached_def split: if_splits)
  with nodes show "ctrl_inv c'"
    using inv same_tree_views(1)[OF tree] tree by (simp add: ctrl_inv_def same_tree_def)
  show "need_full_sync_all c' = need_full_sync_all c" "completion_threshold c' = completion_threshold c"
    using s by (auto simp: all_worker_nodes_cached_def ttl_get_cached_def split: if_splits)
  show "ttl_is_expired timeout now (worker_node_cache c) \<Longrightarrow> nodes = all_worker_nodes_fresh c"
    using s by (simp add: all_worker_nodes_cached_def ttl_get_cached_def)
qed

lemma infos_cached_facts:
  assumes inv: "ctrl_inv c" and s: "all_worker_infos_cached now timeout c = (c', infos)"
  shows "ctrl_inv c'" and "same_tree c c'"
proof -
  show tree: "same_tree c c'"
    using s by (auto simp: same_tree_def all_worker_infos_cached_def split: prod.splits)
  have "worker_node_cache c' = worker_node_cache c"
    using s by (auto simp: all_worker_infos_cached_def split: prod.splits)
  then show "ctrl_inv c'" using inv same_tree_views(1)[OF tree] tree by (simp add: ctrl_inv_def same_tree_def)
qed

lemma progress_facts:
  assumes inv: "ctrl_inv c" and s: "get_global_progress now c = (c', p)"
  shows "ctrl_inv c'" and "same_tree c c'" and "need_full_sync_all c' = need_full_sync_all c"
    and "completion_threshold c' = completion_threshold c"
proof -
  obtain c1 nodes where n: "all_worker_nodes_cached now None c = (c1, nodes)" by fastforce
  then have "c' = c1" using s by (auto simp: get_global_progress_def split: if_splits)
  with nodes_cached_facts[OF inv n]
  show "ctrl_inv c'" "same_tree c c'" "need_full_sync_all c' = need_full_sync_all c"
    "completion_threshold c' = completion_threshold c" by auto
qed

lemma can_exit_facts:
  assumes "can_exit_freeze p c = (c', ok)"
  shows "same_tree c c'" and "ctrl_inv c' = ctrl_inv c"
    and "need_full_sync_all c' \<longleftrightarrow> need_full_sync_all c \<and> \<not> ok"
    and "ok \<longleftrightarrow> progress_ge p (completion_threshold c)"
proof -
  show tree: "same_tree c c'" using assms by (auto simp: same_tree_def can_exit_freeze_def Let_def)
  have "worker_node_cache c' = worker_node_cache c" using assms by (auto simp: can_exit_freeze_def Let_def)
  then show "ctrl_inv c' = ctrl_inv c" using same_tree_views(1)[OF tree] tree by (simp add: ctrl_inv_def same_tree_def)
  show "need_full_sync_all c' \<longleftrightarrow> need_full_sync_all c \<and> \<not> ok" "ok \<longleftrightarrow> progress_ge p (completion_threshold c)"
    using assms by (auto simp: can_exit_freeze_def Let_def split: if_splits)
qed

lemma sync_status_facts:
  assumes inv: "ctrl_inv c" and s: "get_sync_status now inst w sid c = (c', complete, p, ok, missing)"
  shows "ctrl_inv c'" and "same_tree c c'"
    and "complete \<longleftrightarrow> (\<exists>s. get_sync_info inst w c = Some s \<and> sync_id s = sid \<and> sync_state s = COMPLETED)"
    and "missing = get_missing_batches inst w sid c"
    and "need_full_sync_all c' \<longleftrightarrow> need_full_sync_all c \<and> \<not> ok"
proof -
  obtain c1 where g: "get_global_progress now c = (c1, p)" and e: "can_exit_freeze p c1 = (c', ok)"
    and m: "missing = get_missing_batches inst w sid c'"
    and cm: "complete = (case get_sync_info inst w c of None \<Rightarrow> False | Some s \<Rightarrow> sync_id s = sid \<and> sync_state s = COMPLETED)"
    using s by (auto simp: get_sync_status_def Let_def split: prod.splits)
  note pf = progress_facts[OF inv g] and ef = can_exit_facts[OF e]
  show "ctrl_inv c'" using pf(1) ef(2) by simp
  show tree: "same_tree c c'" using pf(2) ef(1) by (simp add: same_tree_def)
  show "missing = get_missing_batches inst w sid c"
    by (simp add: m get_missing_batches_def same_tree_views(3)[OF tree])
  show "complete \<longleftrightarrow> (\<exists>s. get_sync_info inst w c = Some s \<and> sync_id s = sid \<and> sync_state s = COMPLETED)"
    by (auto simp: cm split: option.splits)
  show "need_full_sync_all c' \<longleftrightarrow> need_full_sync_all c \<and> \<not> ok" using pf(3) ef(3) by simp
qed

lemma mark_failed_inv: "ctrl_inv c \<Longrightarrow> ctrl_inv (mark_failed inst w c)"
  unfolding mark_failed_def
  using ctrl_inv_ext upd_sync_info_keeps(1,6,7) by (metis ctrl_inv_def order_refl)

lemma check_timeout_loop_inv: "ctrl_inv c \<Longrightarrow> ctrl_inv (check_timeout_loop now nodes c)"
  by (induction now nodes c rule: check_timeout_loop.induct) (simp_all add: mark_failed_inv split: option.split)

lemma check_sync_timeout_inv: "ctrl_inv c \<Longrightarrow> ctrl_inv (check_sync_timeout now c)"
  by (auto simp: check_sync_timeout_def check_timeout_loop_inv dest: nodes_cached_facts(1) split: prod.split)

lemma rc_deregister_facts:
  assumes "ctrl_inv c"
  shows "ctrl_inv (rc_deregister inst w c)"
    and "get_worker inst' w' (rc_deregister inst w c) = (if inst' = inst \<and> w' = w then None else get_worker inst' w' c)"
    and "get_sync_info inst' w' (rc_deregister inst w c) = (if inst' = inst \<and> w' = w then None else get_sync_info inst' w' c)"
    and "get_worker_kv_keys inst' w' l (rc_deregister inst w c) = (if inst' = inst \<and> w' = w then {} else get_worker_kv_keys inst' w' l c)"
proof -
  have inv: "registry_inv c" using assms by (simp add: ctrl_inv_def)
  note d = deregister_worker_facts[OF inv refl, where inst = inst and w = w, folded rc_deregister_def]
  show "ctrl_inv (rc_deregister inst w c)" using ctrl_inv_ext[OF assms d(1) d(6)] by (simp add: d(5))
qed (simp_all add: rc_deregister_def deregister_worker_facts[OF conjunct1[OF assms[unfolded ctrl_inv_def]] refl])

lemma deregister_stale_inv: "ctrl_inv c \<Longrightarrow> ctrl_inv (deregister_stale now timeout infos c)"
  by (induction now timeout infos c rule: deregister_stale.induct) (simp_all add: rc_deregister_facts(1))

lemma health_check_inv: "ctrl_inv c \<Longrightarrow> ctrl_inv (health_check now timeout c)"
  by (auto simp: health_check_def deregister_stale_inv dest: infos_cached_facts(1) split: prod.split)

lemma query_worker_info_inv: "ctrl_inv c \<Longrightarrow> ctrl_inv (fst (query_worker_info now inst ids c))"
  by (auto simp: query_worker_info_def Let_def dest: infos_cached_facts(1) split: prod.split option.split)

lemma ctrl_inv_registry: "ctrl_inv c \<Longrightarrow> registry_inv c"
  by (simp add: ctrl_inv_def)

lemma kv_handle_batched_facts:
  assumes inv: "ctrl_inv c"
  shows "ctrl_inv (kv_handle_batched m c)"
    and "get_worker inst w (kv_handle_batched m c) = get_worker inst w c"
    and "get_sync_info inst w (kv_handle_batched m c) = get_sync_info inst w c"
    and "get_worker_kv_keys inst w loc (kv_handle_batched m c) =
      (if inst = bm_instance m \<and> w = bm_worker m \<and> loc = bm_location m \<and>
          get_worker inst w c \<noteq> None \<and> \<not> is_worker_syncing inst w c
       then replay_ops (bm_operations m) (get_worker_kv_keys inst w loc c) else get_worker_kv_keys inst w loc c)"
    and "need_full_sync_all (kv_handle_batched m c) = need_full_sync_all c"
proof -
  obtain r ok where h: "reg_handle_batched m False c = (r, ok)" by fastforce
  note f = reg_handle_batched_facts[OF ctrl_inv_registry[OF inv] h]
  have c': "kv_handle_batched m c = (if bm_operations m = [] \<or> is_worker_syncing (bm_instance m) (bm_worker m) c then c else r)"
    by (simp add: kv_handle_batched_def h)
  have "ctrl_inv r" by (rule ctrl_inv_ext[OF inv f(1,6)]) (simp add: f(8))
  then show "ctrl_inv (kv_handle_batched m c)" using inv by (simp add: c')
  show "get_worker inst w (kv_handle_batched m c) = get_worker inst w c" by (simp add: c' f(2))
  show "get_sync_info inst w (kv_handle_batched m c) = get_sync_info inst w c"
    by (simp add: c' get_sync_info_def f(2,5) split: option.split)
  have ok: "ok \<longleftrightarrow> get_worker (bm_instance m) (bm_worker m) c \<noteq> None \<and> \<not> is_worker_syncing (bm_instance m) (bm_worker m) c"
    using f(3) is_syncing_node[of "bm_instance m" "bm_worker m" c] by auto
  show "get_worker_kv_keys inst w loc (kv_handle_batched m c) =
      (if inst = bm_instance m \<and> w = bm_worker m \<and> loc = bm_location m \<and>
          get_worker inst w c \<noteq> None \<and> \<not> is_worker_syncing inst w c
       then replay_ops (bm_operations m) (get_worker_kv_keys inst w loc c) else get_worker_kv_keys inst w loc c)"
  proof (cases "inst = bm_instance m \<and> w = bm_worker m \<and> loc = bm_location m")
    case True
    then show ?thesis by (cases "bm_operations m = []"; cases ok) (use ok in \<open>auto simp: c' f(4)\<close>)
  next
    case False
    then show ?thesis by (auto simp: c' f(4))
  qed
  show "need_full_sync_all (kv_handle_batched m c) = need_full_sync_all c"
    using h by (auto simp: c' reg_handle_batched_def Let_def upd_node_def split: option.splits prod.splits if_splits)
qed

lemma admit_events_replay: "replay_ops (admit_events n ks) S = S \<union> set ks"
  by (induction n ks arbitrary: S rule: admit_events.induct) (auto simp: op_pair_def)

lemma admit_events_Nil [simp]: "admit_events n ks = [] \<longleftrightarrow> ks = []"
  by (cases ks) simp_all

lemma full_sync_batch_facts:
  fixes m :: "'h full_sync_batch_msg" and c :: "'h kv_controller"
  assumes inv: "ctrl_inv c"
  defines "opn \<equiv> session_open (fb_instance m) (fb_worker m) (fb_sync_id m) c"
  shows "ctrl_inv (handle_full_sync_batch now m c)"
    and "get_worker inst w (handle_full_sync_batch now m c) = get_worker inst w c"
    and "get_sync_info inst w (handle_full_sync_batch now m c) =
      (if inst = fb_instance m \<and> w = fb_worker m \<and> opn
       then map_option (record_batch now (fb_batch_id m) (int (length (fb_keys m)))) (get_sync_info inst w c)
       else get_sync_info inst w c)"
    and "get_worker_kv_keys inst w loc (handle_full_sync_batch now m c) =
      (if inst = fb_instance m \<and> w = fb_worker m \<and> loc = fb_location m \<and> opn
       then get_worker_kv_keys inst w loc c \<union> set (fb_keys m) else get_worker_kv_keys inst w loc c)"
    and "\<not> opn \<Longrightarrow> handle_full_sync_batch now m c = c"
proof -
  define c1 where "c1 = upd_sync_info (fb_instance m) (fb_worker m) (record_batch now (fb_batch_id m) (int (length (fb_keys m)))) c"
  note u = upd_sync_info_keeps[OF ctrl_inv_registry[OF inv], where inst = "fb_instance m" and w = "fb_worker m", folded c1_def]
  have inv1: "ctrl_inv c1" unfolding c1_def
    by (rule ctrl_inv_ext[OF inv upd_sync_info_keeps(1,6)[OF ctrl_inv_registry[OF inv]]])
      (simp add: upd_sync_info_keeps(7)[OF ctrl_inv_registry[OF inv]])
  let ?m = "\<lparr>bm_instance = fb_instance m, bm_worker = fb_worker m, bm_location = fb_location m,
             bm_operations = admit_events 0 (fb_keys m)\<rparr>"
  obtain r ok where h: "reg_handle_batched ?m True c1 = (r, ok)" by fastforce
  note f = reg_handle_batched_facts[OF ctrl_inv_registry[OF inv1] h]
  have c': "handle_full_sync_batch now m c = (if opn then (if fb_keys m = [] then c1 else r) else c)"
    by (simp add: handle_full_sync_batch_def receive_batch_eq opn_def c1_def[symmetric] h)
  show "\<not> opn \<Longrightarrow> handle_full_sync_batch now m c = c" by (simp add: c')
  have "ctrl_inv r" by (rule ctrl_inv_ext[OF inv1 f(1,6)]) (simp add: f(8))
  then show "ctrl_inv (handle_full_sync_batch now m c)" using inv inv1 by (simp add: c')
  have g1: "get_worker inst w c1 = get_worker inst w c" for inst w
    unfolding c1_def by (rule upd_sync_info_keeps(2)[OF ctrl_inv_registry[OF inv]])
  show "get_worker inst w (handle_full_sync_batch now m c) = get_worker inst w c"
    by (simp add: c' f(2) g1)
  have s1: "get_sync_info inst w r = get_sync_info inst w c1"
    by (simp add: get_sync_info_def f(2,5) split: option.split)
  show "get_sync_info inst w (handle_full_sync_batch now m c) =
      (if inst = fb_instance m \<and> w = fb_worker m \<and> opn
       then map_option (record_batch now (fb_batch_id m) (int (length (fb_keys m)))) (get_sync_info inst w c)
       else get_sync_info inst w c)"
    unfolding c' s1 if_distrib[of "get_sync_info inst w"]
    by (simp add: s1 c1_def upd_sync_info_keeps(4)[OF ctrl_inv_registry[OF inv]])
  have k1: "get_worker_kv_keys inst w loc c1 = get_worker_kv_keys inst w loc c" for inst w loc
    unfolding c1_def by (rule upd_sync_info_keeps(3)[OF ctrl_inv_registry[OF inv]])
  have ok: "opn \<Longrightarrow> ok"
    using f(3) by (auto simp: opn_def session_open_def get_sync_info_alt g1)
  show "get_worker_kv_keys inst w loc (handle_full_sync_batch now m c) =
      (if inst = fb_instance m \<and> w = fb_worker m \<and> loc = fb_location m \<and> opn
       then get_worker_kv_keys inst w loc c \<union> set (fb_keys m) else get_worker_kv_keys inst w loc c)"
  proof (cases "opn \<and> fb_keys m \<noteq> []")
    case True
    with ok have ok by blast
    with True show ?thesis by (simp add: c' f(4) k1 admit_events_replay)
  next
    case False
    then show ?thesis by (cases "fb_keys m = []") (simp_all add: c' k1)
  qed
qed

lemma full_sync_end_facts:
  assumes inv: "ctrl_inv c"
  shows "ctrl_inv (handle_full_sync_end now m c)"
    and "get_worker inst w (handle_full_sync_end now m c) = get_worker inst w c"
    and "get_worker_kv_keys inst w loc (handle_full_sync_end now m c) = get_worker_kv_keys inst w loc c"
    and "get_sync_info inst w (handle_full_sync_end now m c) =
      (if inst = fe_instance m \<and> w = fe_worker m \<and> get_sync_id inst w c = Some (fe_sync_id m)
       then map_option (\<lambda>s. s\<lparr>sync_state := COMPLETED, last_activity_time := now\<rparr>) (get_sync_info inst w c)
       else get_sync_info inst w c)"
proof -
  note r = ctrl_inv_registry[OF inv]
  let ?u = "upd_sync_info (fe_instance m) (fe_worker m) (\<lambda>s. s\<lparr>sync_state := COMPLETED, last_activity_time := now\<rparr>) c"
  have c': "handle_full_sync_end now m c = (if get_sync_id (fe_instance m) (fe_worker m) c = Some (fe_sync_id m) then ?u else c)"
    by (simp add: handle_full_sync_end_def complete_sync_eq)
  have "ctrl_inv ?u"
    by (rule ctrl_inv_ext[OF inv upd_sync_info_keeps(1,6)[OF r]]) (simp add: upd_sync_info_keeps(7)[OF r])
  with inv show "ctrl_inv (handle_full_sync_end now m c)" by (simp add: c')
  show "get_worker inst w (handle_full_sync_end now m c) = get_worker inst w c"
    "get_worker_kv_keys inst w loc (handle_full_sync_end now m c) = get_worker_kv_keys inst w loc c"
    "get_sync_info inst w (handle_full_sync_end now m c) =
      (if inst = fe_instance m \<and> w = fe_worker m \<and> get_sync_id inst w c = Some (fe_sync_id m)
       then map_option (\<lambda>s. s\<lparr>sync_state := COMPLETED, last_activity_time := now\<rparr>) (get_sync_info inst w c)
       else get_sync_info inst w c)"
    by (auto simp: c' upd_sync_info_keeps[OF r])
qed

lemma full_sync_start_facts:
  assumes inv: "ctrl_inv c" and s: "handle_full_sync_start now m c = (c', ret)"
  shows "ctrl_inv c'" and "get_worker inst w c' = get_worker inst w c"
    and "sr_accepted ret \<longleftrightarrow> get_worker (fs_instance m) (fs_worker m) c \<noteq> None \<and>
           \<not> (\<exists>sid. session_open (fs_instance m) (fs_worker m) sid c \<and> sid \<noteq> fs_sync_id m)"
    and "get_worker_kv_keys inst w loc c' =
           (if sr_accepted ret \<and> inst = fs_instance m \<and> w = fs_worker m \<and> loc = fs_location m then {}
            else get_worker_kv_keys inst w loc c)"
    and "get_sync_info inst w c' =
           (if sr_accepted ret \<and> inst = fs_instance m \<and> w = fs_worker m
            then Some (mk_sync_info (fs_sync_id m) SYNCING now (fs_total_keys m) (fs_batch_count m) now)
            else get_sync_info inst w c)"
proof -
  obtain c1 ok where st: "start_sync now (fs_instance m) (fs_worker m) (fs_sync_id m) (fs_total_keys m) (fs_batch_count m) c = (c1, ok)"
    by fastforce
  note f = start_sync_facts[OF ctrl_inv_registry[OF inv] st]
  have inv1: "ctrl_inv c1" by (rule ctrl_inv_ext[OF inv f(1) f(6)]) (simp add: f(7))
  obtain c2 cleared where cl: "clear_worker_kv (fs_instance m) (fs_worker m) (Some (fs_location m)) c1 = (c2, cleared)"
    by fastforce
  note g = clear_worker_kv_facts[OF f(1) cl]
  have inv2: "ctrl_inv c2" by (rule ctrl_inv_ext[OF inv1 g(1) g(5)]) (simp add: g(6))
  have acc: "sr_accepted ret = ok" and c': "c' = (if ok \<and> get_worker_kv_keys (fs_instance m) (fs_worker m) (fs_location m) c1 \<noteq> {} then c2 else c1)"
    using s st by (auto simp: handle_full_sync_start_def Let_def cl split: if_splits)
  show "ctrl_inv c'" using inv1 inv2 by (simp add: c')
  show "get_worker inst w c' = get_worker inst w c" by (simp add: c' f(2) g(2))
  show "sr_accepted ret \<longleftrightarrow> get_worker (fs_instance m) (fs_worker m) c \<noteq> None \<and>
           \<not> (\<exists>sid. session_open (fs_instance m) (fs_worker m) sid c \<and> sid \<noteq> fs_sync_id m)"
    unfolding acc f(4) session_open_def by blast
  show "get_worker_kv_keys inst w loc c' =
           (if sr_accepted ret \<and> inst = fs_instance m \<and> w = fs_worker m \<and> loc = fs_location m then {}
            else get_worker_kv_keys inst w loc c)"
    using f(3) g(4) by (auto simp: c' acc)
  show "get_sync_info inst w c' =
           (if sr_accepted ret \<and> inst = fs_instance m \<and> w = fs_worker m
            then Some (mk_sync_info (fs_sync_id m) SYNCING now (fs_total_keys m) (fs_batch_count m) now)
            else get_sync_info inst w c)"
    using f(5) g(3) by (auto simp: c' acc)
qed

lemma rc_register_facts:
  assumes inv: "ctrl_inv c"
  shows "ctrl_inv (rc_register now inst w addr prt url c)"
    and "get_worker inst' w' (rc_register now inst w addr prt url c) =
      (if inst' = inst \<and> w' = w \<and> get_worker inst w c = None then Some (length (node_store c)) else get_worker inst' w' c)"
    and "get_sync_info inst' w' (rc_register now inst w addr prt url c) = get_sync_info inst' w' c"
    and "get_worker_kv_keys inst' w' l (rc_register now inst w addr prt url c) =
      (if inst' = inst \<and> w' = w then {} else get_worker_kv_keys inst' w' l c)"
proof -
  note r = ctrl_inv_registry[OF inv]
  define c' where "c' = rc_register now inst w addr prt url c"
  have "ctrl_inv c' \<and>
    get_worker inst' w' c' = (if inst' = inst \<and> w' = w \<and> get_worker inst w c = None then Some (length (node_store c)) else get_worker inst' w' c) \<and>
    get_sync_info inst' w' c' = get_sync_info inst' w' c \<and>
    get_worker_kv_keys inst' w' l c' = (if inst' = inst \<and> w' = w then {} else get_worker_kv_keys inst' w' l c)"
  proof (cases "get_worker inst w c")
    case None
    then have c': "c' = fst (register_worker inst w addr prt url now c)" by (simp add: c'_def rc_register_def)
    note f = register_worker_facts[OF r None c']
    have "ctrl_inv c'" by (rule ctrl_inv_ext[OF inv f(1) f(6)]) (simp add: f(5))
    then show ?thesis using None by (simp add: f(2-4)) (simp add: kv_keys_eq)
  next
    case (Some i)
    obtain c1 ok where cl: "clear_worker_kv inst w None c = (c1, ok)" by fastforce
    note f = clear_worker_kv_facts[OF r cl]
    have c': "c' = c1" using Some cl by (simp add: c'_def rc_register_def)
    have "ctrl_inv c'" unfolding c' by (rule ctrl_inv_ext[OF inv f(1) f(5)]) (simp add: f(6))
    then show ?thesis using Some by (simp add: c' f(2-4))
  qed
  then show "ctrl_inv (rc_register now inst w addr prt url c)"
    "get_worker inst' w' (rc_register now inst w addr prt url c) =
      (if inst' = inst \<and> w' = w \<and> get_worker inst w c = None then Some (length (node_store c)) else get_worker inst' w' c)"
    "get_sync_info inst' w' (rc_register now inst w addr prt url c) = get_sync_info inst' w' c"
    "get_worker_kv_keys inst' w' l (rc_register now inst w addr prt url c) =
      (if inst' = inst \<and> w' = w then {} else get_worker_kv_keys inst' w' l c)"
    unfolding c'_def by blast+
qed

lemma rc_heartbeat_facts:
  assumes inv: "ctrl_inv c" and h: "rc_heartbeat now inst w addr prt url c = (c', cmds)"
  shows "ctrl_inv c'"
    and "get_worker inst' w' c' =
      (if inst' = inst \<and> w' = w \<and> get_worker inst w c = None then Some (length (node_store c)) else get_worker inst' w' c)"
    and "get_sync_info inst' w' c' = get_sync_info inst' w' c"
    and "get_worker_kv_keys inst' w' l c' = get_worker_kv_keys inst' w' l c"
    and "cmds = (if get_worker inst w c = None then [Some ''worker_re_registered'']
                 else if fst (should_request_full_sync inst w c) then [snd (should_request_full_sync inst w c)] else [])"
proof -
  obtain c1 ok where u: "update_heartbeat inst w now c = (c1, ok)" by fastforce
  note f = update_heartbeat_facts[OF ctrl_inv_registry[OF inv] u]
  have i1: "ctrl_inv c1" by (rule ctrl_inv_ext[OF inv f(1) f(6)]) (simp add: f(7))
  have srf: "should_request_full_sync inst w c1 = should_request_full_sync inst w c"
    by (simp add: should_request_full_sync_def f(3,8))
  have c': "c' = (if ok then c1 else rc_register now inst w addr prt url c1)"
    using h by (auto simp: rc_heartbeat_def u split: prod.splits if_splits)
  note g = rc_register_facts[OF i1, where now = now and inst = inst and w = w and addr = addr and prt = prt and url = url]
  show "ctrl_inv c'" by (simp add: c' i1 g(1))
  show "get_worker inst' w' c' =
      (if inst' = inst \<and> w' = w \<and> get_worker inst w c = None then Some (length (node_store c)) else get_worker inst' w' c)"
    using f(5) by (auto simp: c' g(2) f(2,7))
  show "get_sync_info inst' w' c' = get_sync_info inst' w' c" by (simp add: c' g(3) f(3))
  show "get_worker_kv_keys inst' w' l c' = get_worker_kv_keys inst' w' l c"
    using f(5) by (cases "inst' = inst \<and> w' = w"; cases ok) (simp_all add: c' g(4) f(4), simp_all add: kv_keys_eq)
  show "cmds = (if get_worker inst w c = None then [Some ''worker_re_registered'']
                 else if fst (should_request_full_sync inst w c) then [snd (should_request_full_sync inst w c)] else [])"
    using h f(5) by (auto simp: rc_heartbeat_def u srf split: prod.splits if_splits)
qed

lemma handle_status_facts:
  assumes inv: "ctrl_inv c" and h: "handle_full_sync_status now inst w sid c = (c', ret)"
  shows "ctrl_inv c'" and "same_tree c c'"
    and "fr_is_complete ret \<longleftrightarrow> (\<exists>s. get_sync_info inst w c = Some s \<and> sync_id s = sid \<and> sync_state s = COMPLETED)"
    and "fr_missing_batches ret = get_missing_batches inst w sid c"
    and "need_full_sync_all c' \<longleftrightarrow> need_full_sync_all c \<and> \<not> fr_can_exit_freeze ret"
proof -
  obtain complete p ok missing where s: "get_sync_status now inst w sid c = (c', complete, p, ok, missing)"
    and ret: "ret = \<lparr>fr_sync_id = sid, fr_is_complete = complete, fr_global_progress = p, fr_can_exit_freeze = ok, fr_missing_batches = missing\<rparr>"
    using h by (auto simp: handle_full_sync_status_def split: prod.splits)
  from sync_status_facts[OF inv s] show "ctrl_inv c'" "same_tree c c'"
    "fr_is_complete ret \<longleftrightarrow> (\<exists>s. get_sync_info inst w c = Some s \<and> sync_id s = sid \<and> sync_state s = COMPLETED)"
    "fr_missing_batches ret = get_missing_batches inst w sid c"
    "need_full_sync_all c' \<longleftrightarrow> need_full_sync_all c \<and> \<not> fr_can_exit_freeze ret"
    by (simp_all add: ret)
qed

lemma handle_worker_msg_inv:
  assumes "ctrl_inv c"
  shows "ctrl_inv (fst (handle_worker_msg now m c))"
  using assms
  by (cases m)
    (auto simp: rc_register_facts(1) rc_deregister_facts(1) kv_handle_batched_facts(1) full_sync_batch_facts(1)
      full_sync_end_facts(1) dest: rc_heartbeat_facts(1) full_sync_start_facts(1) handle_status_facts(1) split: prod.split)

lemma ctrl_reachable_inv: "ctrl_reachable c \<Longrightarrow> ctrl_inv c"
proof (induction rule: ctrl_reachable.induct)
  case (start threshold timeout)
  show ?case
    by (simp add: ctrl_inv_def controller_init_def registry_inv_def get_worker_def get_instance_def ttl_init_def)
next
  case (need c b)
  then show ?case
    by (intro ctrl_inv_ext[OF need.IH]) (auto simp: set_need_full_sync_all_def ctrl_inv_def intro: registry_inv_same)
qed (simp_all add: handle_worker_msg_inv health_check_inv check_sync_timeout_inv query_worker_info_inv)

section \<open>Runs of messages within a sync session\<close>

fun run_msgs :: "(int \<times> 'h worker_msg) list \<Rightarrow> 'h kv_controller \<Rightarrow> 'h kv_controller" where
  "run_msgs [] c = c"
| "run_msgs ((now, m) # ms) c = run_msgs ms (fst (handle_worker_msg now m c))"

text \<open>Messages that leave the session of a worker open: everything but registering or
  deregistering that worker and starting or ending a sync of it.\<close>

fun keeps_session :: "string \<Rightarrow> int \<Rightarrow> 'h worker_msg \<Rightarrow> bool" where
  "keeps_session inst w (RegisterMsg i v addr prt url) \<longleftrightarrow> (i, v) \<noteq> (inst, w)"
| "keeps_session inst w (DeRegisterMsg i v) \<longleftrightarrow> (i, v) \<noteq> (inst, w)"
| "keeps_session inst w (FullSyncStartMsg m) \<longleftrightarrow> (fs_instance m, fs_worker m) \<noteq> (inst, w)"
| "keeps_session inst w (FullSyncEndMsg m) \<longleftrightarrow> (fe_instance m, fe_worker m) \<noteq> (inst, w)"
| "keeps_session inst w m \<longleftrightarrow> True"

fun batch_of :: "string \<Rightarrow> int \<Rightarrow> string \<Rightarrow> 'h worker_msg \<Rightarrow> (int \<times> string \<times> 'h list) option" where
  "batch_of inst w sid (FullSyncBatchMsg b) =
     (if fb_instance b = inst \<and> fb_worker b = w \<and> fb_sync_id b = sid
      then Some (fb_batch_id b, fb_location b, fb_keys b) else None)"
| "batch_of inst w sid m = None"

definition session_batches :: "string \<Rightarrow> int \<Rightarrow> string \<Rightarrow> (int \<times> 'h worker_msg) list \<Rightarrow> (int \<times> string \<times> 'h list) list" where
  "session_batches inst w sid ms = List.map_filter (batch_of inst w sid) (map snd ms)"

definition batch_ids :: "(int \<times> string \<times> 'h list) list \<Rightarrow> int set" where
  "batch_ids bs = fst ` set bs"

definition batch_keys :: "string \<Rightarrow> (int \<times> string \<times> 'h list) list \<Rightarrow> 'h set" where
  "batch_keys loc bs = {k. \<exists>b ks. (b, loc, ks) \<in> set bs \<and> k \<in> set ks}"

definition session_info :: "string \<Rightarrow> int \<Rightarrow> string \<Rightarrow> int \<Rightarrow> int set \<Rightarrow> 'h kv_controller \<Rightarrow> bool" where
  "session_info inst w sid n R c \<longleftrightarrow>
     (\<exists>s. get_sync_info inst w c = Some s \<and> sync_id s = sid \<and> sync_state s = SYNCING \<and>
          expected_batch_count s = n \<and> received_batches s = R)"

lemma session_info_open: "session_info inst w sid n R c \<Longrightarrow> session_open inst w sid c"
  by (auto simp: session_info_def session_open_def)

lemma session_info_same:
  "get_sync_info inst w c' = get_sync_info inst w c \<Longrightarrow> session_info inst w sid n R c' = session_info inst w sid n R c"
  by (simp add: session_info_def)

lemma session_step:
  assumes inv: "ctrl_inv c" and s: "session_info inst w sid n R c" and k: "keeps_session inst w m"
  defines "bs \<equiv> (case batch_of inst w sid m of None \<Rightarrow> [] | Some b \<Rightarrow> [b])"
  shows "session_info inst w sid n (R \<union> batch_ids bs) (fst (handle_worker_msg now m c)) \<and>
    get_worker_kv_keys inst w loc (fst (handle_worker_msg now m c)) = get_worker_kv_keys inst w loc c \<union> batch_keys loc bs"
proof -
  note sy = session_info_open[OF s]
  from sy have syncing: "is_worker_syncing inst w c" by (auto simp: is_worker_syncing_open)
  from sy have reg: "get_worker inst w c \<noteq> None" by (auto simp: session_open_def get_sync_info_alt)
  have same: ?thesis if "bs = []" "get_sync_info inst w (fst (handle_worker_msg now m c)) = get_sync_info inst w c"
      "get_worker_kv_keys inst w loc (fst (handle_worker_msg now m c)) = get_worker_kv_keys inst w loc c"
    using s session_info_same[OF that(2)] by (simp add: that batch_ids_def batch_keys_def)
  show ?thesis
  proof (cases m)
    case (RegisterMsg i v addr prt url)
    with k have neq: "\<not> (inst = i \<and> w = v)" by auto
    show ?thesis by (rule same) (simp_all add: RegisterMsg bs_def rc_register_facts[OF inv] neq if_not_P[OF neq])
  next
    case (DeRegisterMsg i v)
    with k have neq: "\<not> (inst = i \<and> w = v)" by auto
    show ?thesis by (rule same) (simp_all add: DeRegisterMsg bs_def rc_deregister_facts[OF inv] if_not_P[OF neq])
  next
    case (BatchedKVOperationMsg b)
    show ?thesis by (rule same) (simp_all add: BatchedKVOperationMsg bs_def kv_handle_batched_facts[OF inv] syncing)
  next
    case (FullSyncBatchMsg b)
    let ?c = "handle_full_sync_batch now b c"
    note f = full_sync_batch_facts[OF inv, where m = b and now = now]
    show ?thesis
    proof (cases "fb_instance b = inst \<and> fb_worker b = w \<and> fb_sync_id b = sid")
      case True
      then have bs: "bs = [(fb_batch_id b, fb_location b, fb_keys b)]" by (simp add: bs_def FullSyncBatchMsg)
      have opn: "session_open (fb_instance b) (fb_worker b) (fb_sync_id b) c" using True sy by simp
      show ?thesis
        using s True f(3)[of inst w] f(4)[of inst w loc] opn
        by (auto simp: FullSyncBatchMsg bs batch_ids_def batch_keys_def session_info_def record_batch_def)
    next
      case False
      have closed: "\<not> (inst = fb_instance b \<and> w = fb_worker b \<and> session_open (fb_instance b) (fb_worker b) (fb_sync_id b) c)"
        using False sy by (auto simp: session_open_def)
      show ?thesis using False closed by (intro same) (auto simp: FullSyncBatchMsg bs_def f(3,4))
    qed
  next
    case (FullSyncEndMsg e)
    with k have neq: "\<not> (inst = fe_instance e \<and> w = fe_worker e)" by auto
    then show ?thesis by (intro same) (auto simp: FullSyncEndMsg bs_def full_sync_end_facts[OF inv])
  next
    case (HeartbeatMsg i v addr prt url)
    obtain c' cmds where h: "rc_heartbeat now i v addr prt url c = (c', cmds)" by fastforce
    show ?thesis by (rule same) (simp_all add: HeartbeatMsg bs_def h rc_heartbeat_facts[OF inv h])
  next
    case (BatchedP2PLookupMsg hs i)
    show ?thesis by (rule same) (simp_all add: BatchedP2PLookupMsg bs_def)
  next
    case (FullSyncStartMsg m')
    obtain c' r where h: "handle_full_sync_start now m' c = (c', r)" by fastforce
    from FullSyncStartMsg k have neq: "\<not> (inst = fs_instance m' \<and> w = fs_worker m')" by auto
    then show ?thesis by (intro same) (auto simp: FullSyncStartMsg bs_def h full_sync_start_facts[OF inv h])
  next
    case (FullSyncStatusMsg i v sid')
    obtain c' r where h: "handle_full_sync_status now i v sid' c = (c', r)" by fastforce
    note t = same_tree_views[OF handle_status_facts(2)[OF inv h]]
    show ?thesis by (rule same) (simp_all add: FullSyncStatusMsg bs_def h t)
  qed
qed

lemma session_batches_Cons:
  "session_batches inst w sid ((now, m) # ms) =
     (case batch_of inst w sid m of None \<Rightarrow> [] | Some b \<Rightarrow> [b]) @ session_batches inst w sid ms"
  by (simp add: session_batches_def map_filter_simps split: option.split)

lemma batch_sets_append [simp]:
  "batch_ids (xs @ ys) = batch_ids xs \<union> batch_ids ys"
  "batch_keys loc (xs @ ys) = batch_keys loc xs \<union> batch_keys loc ys"
  by (auto simp: batch_ids_def batch_keys_def)

lemma session_run:
  assumes "ctrl_inv c" and "session_info inst w sid n R c" and "\<forall>(now, m) \<in> set ms. keeps_session inst w m"
  shows "ctrl_inv (run_msgs ms c) \<and>
    session_info inst w sid n (R \<union> batch_ids (session_batches inst w sid ms)) (run_msgs ms c) \<and>
    get_worker_kv_keys inst w loc (run_msgs ms c) =
      get_worker_kv_keys inst w loc c \<union> batch_keys loc (session_batches inst w sid ms)"
  using assms
proof (induction ms c arbitrary: R rule: run_msgs.induct)
  case (1 c)
  then show ?case by (simp add: session_batches_def map_filter_simps batch_ids_def batch_keys_def)
next
  case (2 now m ms c)
  let ?c = "fst (handle_worker_msg now m c)"
  let ?bs = "case batch_of inst w sid m of None \<Rightarrow> [] | Some b \<Rightarrow> [b]"
  from "2.prems"(3) have km: "keeps_session inst w m" and rest: "\<forall>(now, m) \<in> set ms. keeps_session inst w m" by simp_all
  note st = session_step[OF "2.prems"(1,2) km, of now loc]
  show ?case
    using "2.IH"[OF handle_worker_msg_inv[OF "2.prems"(1)] conjunct1[OF st] rest] conjunct2[OF st]
    by (simp add: session_batches_Cons Un_assoc)
qed

lemma run_msgs_reachable: "ctrl_reachable c \<Longrightarrow> ctrl_reachable (run_msgs ms c)"
  by (induction ms c rule: run_msgs.induct) (simp_all add: ctrl_reachable.message)

end
