(* ===== verification/Sender.thy ===== *)
theory Sender
  imports Controller
begin

text \<open>
  The worker's side of the protocol with the cache controller.

  \<open>BatchedMessageSender\<close> (\<open>v1/storage_backend/batched_message_sender.py\<close>) is a state with the
  queue, the sequence counter, the batch the consumer thread is draining and the batches given
  to \<open>put_msg\<close>; \<open>sender_step\<close> interleaves producers and the consumer thread. When \<open>put_msg\<close>
  raises, the drained operations are gone and the exception ends the consumer thread.

  \<open>FullSyncSender\<close> (\<open>v1/cache_controller/full_sync_sender.py\<close>) is a function over the state
  \<open>'c\<close> of whatever its messages reach. The channel is a record of three operations; the locale
  \<open>sync_channel\<close> states what the sender relies on, and is interpreted on the handlers of the
  controller. Sleeps, the start-up delay and the logging are left out; the sync id is an
  argument.
\<close>

declare map_of_eq_Some_iff [simp del] Some_eq_map_of_iff [simp del]

section \<open>BatchedMessageSender\<close>

record 'h msg_sender =
  ms_instance :: string
  ms_worker :: int
  ms_location :: string
  ms_batch_size :: int
  message_queue :: "'h kv_op_event list"
  sequence_number :: int
  ops_to_send :: "'h kv_op_event list"
  ms_put :: "'h batched_kv_msg list"
  ms_consumer_alive :: bool

definition sender_init :: "string \<Rightarrow> int \<Rightarrow> string \<Rightarrow> int \<Rightarrow> 'h msg_sender" where
  "sender_init inst w loc bsz =
     \<lparr>ms_instance = inst, ms_worker = w, ms_location = loc, ms_batch_size = bsz, message_queue = [],
      sequence_number = 0, ops_to_send = [], ms_put = [], ms_consumer_alive = True\<rparr>"

definition get_next_sequence_number :: "'h msg_sender \<Rightarrow> 'h msg_sender \<times> int" where
  "get_next_sequence_number s = (s\<lparr>sequence_number := sequence_number s + 1\<rparr>, sequence_number s)"

text \<open>The result tells whether the consumer is notified.\<close>

definition add_kv_op :: "op_type \<Rightarrow> 'h \<Rightarrow> 'h msg_sender \<Rightarrow> 'h msg_sender \<times> bool" where
  "add_kv_op t key s =
     (let queue = message_queue s @ [\<lparr>op_kind = t, op_key = key, op_seq = -1\<rparr>]
      in (s\<lparr>message_queue := queue\<rparr>, ms_batch_size s \<le> int (length queue)))"

text \<open>One turn of the draining loop: the head of the queue gets its number.\<close>

definition drain_one :: "'h msg_sender \<Rightarrow> 'h msg_sender option" where
  "drain_one s =
     (case message_queue s of
        [] \<Rightarrow> None
      | op # queue \<Rightarrow>
          let (s', n) = get_next_sequence_number s
          in Some (s'\<lparr>message_queue := queue, ops_to_send := ops_to_send s @ [op\<lparr>op_seq := n\<rparr>]\<rparr>))"

text \<open>What follows the loop once the queue was found empty; \<open>fails\<close> tells that \<open>put_msg\<close> raised.\<close>

definition send_drained :: "bool \<Rightarrow> 'h msg_sender \<Rightarrow> 'h msg_sender" where
  "send_drained fails s =
     (if ops_to_send s = [] then s
      else if fails then s\<lparr>ops_to_send := [], ms_consumer_alive := False\<rparr>
      else s\<lparr>ms_put := ms_put s @ [\<lparr>bm_instance = ms_instance s, bm_worker = ms_worker s,
                                     bm_location = ms_location s, bm_operations = ops_to_send s\<rparr>],
             ops_to_send := []\<rparr>)"

inductive sender_reach :: "'h msg_sender \<Rightarrow> (op_type \<times> 'h) list \<Rightarrow> 'h msg_sender \<Rightarrow> bool" for s0 where
  initial: "sender_reach s0 [] s0"
| produce: "sender_reach s0 ops s \<Longrightarrow> sender_reach s0 (ops @ [(t, key)]) (fst (add_kv_op t key s))"
| drain: "sender_reach s0 ops s \<Longrightarrow> ms_consumer_alive s \<Longrightarrow> drain_one s = Some s' \<Longrightarrow> sender_reach s0 ops s'"
| send: "sender_reach s0 ops s \<Longrightarrow> ms_consumer_alive s \<Longrightarrow> drain_one s = None \<Longrightarrow>
           sender_reach s0 ops (send_drained fails s)"

definition put_ops :: "'h msg_sender \<Rightarrow> 'h kv_op_event list" where
  "put_ops s = concat (map bm_operations (ms_put s))"

text \<open>While the consumer lives, the batches handed over, the batch being drained and the queue
  are together the operations produced, in order, and the numbers given out count from zero.\<close>

lemma sender_invariant:
  assumes "sender_reach (sender_init inst w loc bsz) ops s"
  shows "ms_instance s = inst \<and> ms_worker s = w \<and> ms_location s = loc \<and>
    (\<forall>m \<in> set (ms_put s). bm_instance m = inst \<and> bm_worker m = w \<and> bm_location m = loc \<and> bm_operations m \<noteq> []) \<and>
    (ms_consumer_alive s \<longrightarrow>
       map op_pair (put_ops s @ ops_to_send s @ message_queue s) = ops \<and>
       consecutive (Some (-1)) (map op_seq (put_ops s @ ops_to_send s)) \<and>
       last_seq (Some (-1)) (map op_seq (put_ops s @ ops_to_send s)) = Some (sequence_number s - 1)) \<and>
    (\<exists>rest. ops = map op_pair (put_ops s) @ rest) \<and>
    consecutive (Some (-1)) (map op_seq (put_ops s))"
  using assms
proof (induction rule: sender_reach.induct)
  case initial
  show ?case by (simp add: sender_init_def put_ops_def)
next
  case (produce ops s t key)
  then show ?case by (auto simp: add_kv_op_def put_ops_def op_pair_def Let_def)
next
  case (drain ops s s')
  then obtain e queue where q: "message_queue s = e # queue"
    and s': "s' = s\<lparr>sequence_number := sequence_number s + 1, message_queue := queue,
                    ops_to_send := ops_to_send s @ [e\<lparr>op_seq := sequence_number s\<rparr>]\<rparr>"
    by (auto simp: drain_one_def get_next_sequence_number_def split: list.splits)
  have "op_pair (e\<lparr>op_seq := sequence_number s\<rparr>) = op_pair e" by (simp add: op_pair_def)
  with drain.IH drain.hyps(2) show ?case
    by (auto simp: s' q put_ops_def consecutive_append)
next
  case (send ops s fails)
  have queue: "message_queue s = []"
    using send.hyps(3) by (auto simp: drain_one_def get_next_sequence_number_def split: list.splits)
  show ?case
  proof (cases "ops_to_send s = []")
    case True
    then show ?thesis using send.IH by (simp add: send_drained_def)
  next
    case False
    then show ?thesis using send.IH send.hyps(2) queue
      by (auto simp: send_drained_def put_ops_def)
  qed
qed

section \<open>FullSyncSender\<close>

record ('h, 'c) sync_channel_ops =
  ch_put :: "'h worker_msg \<Rightarrow> 'c \<Rightarrow> 'c \<times> bool"
  ch_ask_start :: "full_sync_start_msg \<Rightarrow> 'c \<Rightarrow> 'c \<times> full_sync_start_ret option"
  ch_ask_status :: "string \<Rightarrow> int \<Rightarrow> string \<Rightarrow> 'c \<Rightarrow> 'c \<times> full_sync_status_ret option"

record fss_config =
  fc_instance :: string
  fc_worker :: int
  fc_location :: string
  fc_batch_size :: int
  fc_max_retry_count :: int
  fc_max_poll_attempts :: int

record fss_state =
  fss_is_syncing :: bool
  fss_current_sync_id :: "string option"
  fss_frozen :: bool

definition sync_batch_msg :: "fss_config \<Rightarrow> string \<Rightarrow> int \<Rightarrow> 'h list \<Rightarrow> 'h worker_msg" where
  "sync_batch_msg cfg sid b ks = FullSyncBatchMsg
     \<lparr>fb_instance = fc_instance cfg, fb_worker = fc_worker cfg, fb_location = fc_location cfg,
      fb_sync_id = sid, fb_batch_id = b, fb_keys = ks\<rparr>"

definition sync_end_msg :: "fss_config \<Rightarrow> string \<Rightarrow> int \<Rightarrow> 'h worker_msg" where
  "sync_end_msg cfg sid nkeys = FullSyncEndMsg
     \<lparr>fe_instance = fc_instance cfg, fe_worker = fc_worker cfg, fe_location = fc_location cfg,
      fe_sync_id = sid, fe_actual_total_keys = nkeys\<rparr>"

definition sync_start_msg :: "fss_config \<Rightarrow> string \<Rightarrow> int \<Rightarrow> int \<Rightarrow> full_sync_start_msg" where
  "sync_start_msg cfg sid nkeys batches =
     \<lparr>fs_instance = fc_instance cfg, fs_worker = fc_worker cfg, fs_location = fc_location cfg,
      fs_sync_id = sid, fs_total_keys = nkeys, fs_batch_count = batches\<rparr>"

definition fss_batch_count :: "int \<Rightarrow> int \<Rightarrow> int result" where
  "fss_batch_count bsz nkeys =
     (if bsz = 0 then Inl ZeroDivisionError else Inr (max ((nkeys + bsz - 1) div bsz) 1))"

text \<open>The keys of one batch, as \<open>_send_key_batches\<close> and \<open>_resend_missing_batches\<close> cut them.\<close>

definition batch_slice :: "int \<Rightarrow> 'h list \<Rightarrow> int \<Rightarrow> 'h list" where
  "batch_slice bsz keys b =
     (let start_idx = b * bsz; end_idx = min (start_idx + bsz) (int (length keys))
      in py_slice keys start_idx end_idx)"

fun send_batches ::
    "('h, 'c) sync_channel_ops \<Rightarrow> fss_config \<Rightarrow> string \<Rightarrow> 'h list \<Rightarrow> int list \<Rightarrow> 'c \<Rightarrow> 'c \<times> unit result" where
  "send_batches ch cfg sid keys [] c = (c, Inr ())"
| "send_batches ch cfg sid keys (b # bs) c =
     (case ch_put ch (sync_batch_msg cfg sid b (batch_slice (fc_batch_size cfg) keys b)) c of
        (c', False) \<Rightarrow> (c', Inl RuntimeError)
      | (c', True) \<Rightarrow> send_batches ch cfg sid keys bs c')"

definition send_sync_end ::
    "('h, 'c) sync_channel_ops \<Rightarrow> fss_config \<Rightarrow> string \<Rightarrow> int \<Rightarrow> 'c \<Rightarrow> 'c \<times> unit result" where
  "send_sync_end ch cfg sid nkeys c =
     (case ch_put ch (sync_end_msg cfg sid nkeys) c of
        (c', False) \<Rightarrow> (c', Inl RuntimeError)
      | (c', True) \<Rightarrow> (c', Inr ()))"

definition send_key_batches ::
    "('h, 'c) sync_channel_ops \<Rightarrow> fss_config \<Rightarrow> string \<Rightarrow> 'h list \<Rightarrow> int \<Rightarrow> 'c \<Rightarrow> 'c \<times> unit result" where
  "send_key_batches ch cfg sid keys batch_count c =
     (case send_batches ch cfg sid keys [0..batch_count - 1] c of
        (c1, Inl e) \<Rightarrow> (c1, Inl e)
      | (c1, Inr _) \<Rightarrow> send_sync_end ch cfg sid (int (length keys)) c1)"

text \<open>The attempts to have the start accepted, at most \<open>n\<close> of them.\<close>

fun start_attempts ::
    "('h, 'c) sync_channel_ops \<Rightarrow> full_sync_start_msg \<Rightarrow> nat \<Rightarrow> 'c \<Rightarrow> 'c \<times> bool" where
  "start_attempts ch msg 0 c = (c, False)"
| "start_attempts ch msg (Suc n) c =
     (case ch_ask_start ch msg c of
        (c', None) \<Rightarrow> start_attempts ch msg n c'
      | (c', Some r) \<Rightarrow> if sr_accepted r then (c', True) else start_attempts ch msg n c')"

definition initialize_sync ::
    "('h, 'c) sync_channel_ops \<Rightarrow> fss_config \<Rightarrow> string \<Rightarrow> 'h list \<Rightarrow> 'c \<Rightarrow> 'c \<times> int option result" where
  "initialize_sync ch cfg sid keys c =
     (let nkeys = int (length keys)
      in case fss_batch_count (fc_batch_size cfg) nkeys of
           Inl e \<Rightarrow> (c, Inl e)
         | Inr batch_count \<Rightarrow>
             (case start_attempts ch (sync_start_msg cfg sid nkeys batch_count) (nat (fc_max_retry_count cfg)) c of
                (c', accepted) \<Rightarrow> (c', Inr (if accepted then Some batch_count else None))))"

fun poll_for_completion ::
    "('h, 'c) sync_channel_ops \<Rightarrow> fss_config \<Rightarrow> string \<Rightarrow> 'h list \<Rightarrow> nat \<Rightarrow> int \<Rightarrow> 'c \<Rightarrow> 'c \<times> bool result" where
  "poll_for_completion ch cfg sid keys 0 resends c = (c, Inr False)"
| "poll_for_completion ch cfg sid keys (Suc n) resends c =
     (case ch_ask_status ch (fc_instance cfg) (fc_worker cfg) sid c of
        (c1, None) \<Rightarrow> poll_for_completion ch cfg sid keys n resends c1
      | (c1, Some st) \<Rightarrow>
          if fr_can_exit_freeze st then (c1, Inr True)
          else if fr_missing_batches st \<noteq> [] \<and> resends < fc_max_retry_count cfg
          then (case send_batches ch cfg sid keys (fr_missing_batches st) c1 of
                  (c2, Inl e) \<Rightarrow> (c2, Inl e)
                | (c2, Inr _) \<Rightarrow>
                    (case send_sync_end ch cfg sid (int (length keys)) c2 of
                       (c3, Inl e) \<Rightarrow> (c3, Inl e)
                     | (c3, Inr _) \<Rightarrow> poll_for_completion ch cfg sid keys n (resends + 1) c3))
          else poll_for_completion ch cfg sid keys n resends c1)"

text \<open>The whole sync: whatever happens, the engine is unfrozen and the flags are reset at the end.\<close>

definition start_full_sync ::
    "('h, 'c) sync_channel_ops \<Rightarrow> fss_config \<Rightarrow> string \<Rightarrow> 'h list \<Rightarrow> fss_state \<Rightarrow> 'c \<Rightarrow> fss_state \<times> 'c \<times> bool" where
  "start_full_sync ch cfg sid keys st c =
     (if fss_is_syncing st then (st, c, False)
      else let final = st\<lparr>fss_is_syncing := False, fss_current_sync_id := None, fss_frozen := False\<rparr>
           in case initialize_sync ch cfg sid keys c of
                (c1, Inl e) \<Rightarrow> (final, c1, False)
              | (c1, Inr None) \<Rightarrow> (final, c1, False)
              | (c1, Inr (Some batch_count)) \<Rightarrow>
                  (case send_key_batches ch cfg sid keys batch_count c1 of
                     (c2, Inl e) \<Rightarrow> (final, c2, False)
                   | (c2, Inr _) \<Rightarrow>
                       (case poll_for_completion ch cfg sid keys (nat (fc_max_poll_attempts cfg)) 0 c2 of
                          (c3, Inl e) \<Rightarrow> (final, c3, False)
                        | (c3, Inr _) \<Rightarrow> (final, c3, True))))"

section \<open>Batches partition the keys\<close>

lemma upto_map_int: "[0..int m - 1] = map int [0..<m]"
  by (induction m) (simp_all add: upto_rec2)

lemma batch_slice_pieces:
  assumes "0 < bsz" and n: "n = max ((int (length keys) + bsz - 1) div bsz) 1"
  shows "concat (map (batch_slice bsz keys) [0..n - 1]) = keys"
    and "\<forall>b \<in> {0..n - 1}. int (length (batch_slice bsz keys b)) \<le> bsz"
proof -
  let ?len = "length keys"
  define k where "k = nat bsz"
  define bd where "bd = (\<lambda>j. min (j * k) ?len)"
  have k: "bsz = int k" "0 < k" using assms(1) by (simp_all add: k_def)
  have n0: "1 \<le> n" by (simp add: n)
  obtain m where m: "n = int m" using n0 by (metis nonneg_int_cases order_trans zero_le_one)
  have cover: "?len \<le> m * k"
  proof -
    have "int ?len \<le> ((int ?len + bsz - 1) div bsz) * bsz" by (rule align_up_bounds(1)[OF assms(1)])
    also have "\<dots> \<le> n * bsz" using assms(1) by (simp add: n)
    finally have "int ?len \<le> int (m * k)" by (simp add: m k)
    then show ?thesis by (simp only: of_nat_le_iff)
  qed
  have slice: "batch_slice bsz keys (int j) = py_slice keys (int (bd j)) (int (bd (Suc j)))" if "j < m" for j
  proof -
    have s2: "int j * bsz + bsz = int (Suc j * k)" by (simp add: k algebra_simps)
    have "min (int (Suc j * k)) (int ?len) = int (bd (Suc j))" by (simp add: bd_def of_nat_min)
    moreover have "slice_bound (int ?len) (int (j * k)) = slice_bound (int ?len) (int (bd j))"
    proof -
      have sb: "slice_bound m (int x) = min (int x) m" for m x by (simp add: slice_bound_def)
      show ?thesis unfolding sb bd_def by (simp add: of_nat_min)
    qed
    ultimately show ?thesis unfolding batch_slice_def Let_def s2 by (simp add: k py_slice_def)
  qed
  have map: "map (batch_slice bsz keys) [0..n - 1] = map (\<lambda>j. py_slice keys (int (bd j)) (int (bd (Suc j)))) [0..<m]"
  proof -
    show ?thesis by (simp add: m upto_map_int slice)
  qed
  have mono: "\<forall>j < m. bd j \<le> bd (Suc j)" by (auto simp: bd_def)
  have "bd (m) = ?len" "bd 0 = 0" using cover by (simp_all add: bd_def)
  with py_slice_pieces[OF mono, of keys] show "concat (map (batch_slice bsz keys) [0..n - 1]) = keys"
    using py_slice_nat[of 0 ?len keys] unfolding map by simp
  show "\<forall>b \<in> {0..n - 1}. int (length (batch_slice bsz keys b)) \<le> bsz"
  proof
    fix b assume "b \<in> {0..n - 1}"
    then obtain j where j: "b = int j" "j < m" 
      unfolding m by (auto dest: nonneg_int_cases)
    have "length (batch_slice bsz keys b) \<le> bd (Suc j) - bd j"
      using mono j by (simp add: slice py_slice_nat bd_def)
    also have "\<dots> \<le> k" by (auto simp: bd_def)
    finally show "int (length (batch_slice bsz keys b)) \<le> bsz" by (simp add: k)
  qed
qed

end
