(* ===== verification/SortedContainers.thy ===== *)
theory SortedContainers
  imports Prelude "HOL-Library.Multiset"
begin

text \<open>
  The interface of the third-party package \<open>sortedcontainers\<close>, which the memory allocator
  (\<open>SortedList(key=...)\<close>) and the LFU policy (\<open>SortedDict\<close>) use. The package is not part
  of the repository: its operations are parameters of the model, and the documented behaviour
  the code relies on is stated by the two locales below. The client lemmas are proved once,
  inside the locales; the reference implementations at the end show that the laws can hold.
\<close>

section \<open>SortedList with a key function\<close>

locale sorted_key_list =
  fixes key :: "'a \<Rightarrow> int"
    and add :: "'a \<Rightarrow> 'a list \<Rightarrow> 'a list"
    and remove :: "'a \<Rightarrow> 'a list \<Rightarrow> 'a list"
    and bisect_left :: "'a \<Rightarrow> 'a list \<Rightarrow> nat"
  assumes add_sorted: "sorted (map key xs) \<Longrightarrow> sorted (map key (add x xs))"
    and add_mset: "mset (add x xs) = add_mset x (mset xs)"
    and remove_sorted: "sorted (map key xs) \<Longrightarrow> sorted (map key (remove x xs))"
    and remove_mset: "x \<in> set xs \<Longrightarrow> mset (remove x xs) = mset xs - {#x#}"
    and bisect_le: "bisect_left x xs \<le> length xs"
    and bisect_before: "sorted (map key xs) \<Longrightarrow> i < bisect_left x xs \<Longrightarrow> key (xs ! i) < key x"
    and bisect_after: "sorted (map key xs) \<Longrightarrow> bisect_left x xs \<le> i \<Longrightarrow> i < length xs
      \<Longrightarrow> key x \<le> key (xs ! i)"
begin

lemma add_at:
  assumes "sorted (map key (xs @ x # ys))" and "distinct (map key (xs @ x # ys))"
  shows "add x (xs @ ys) = xs @ x # ys"
proof (rule map_sorted_distinct_set_unique [where f = key])
  have m: "mset (add x (xs @ ys)) = mset (xs @ x # ys)"
    by (simp add: add_mset)
  have "mset (map key (add x (xs @ ys))) = mset (map key (xs @ x # ys))"
    using m by (metis mset_map)
  then show "distinct (map key (add x (xs @ ys)))"
    using assms(2) by (metis mset_eq_imp_distinct_iff)
  show "sorted (map key (add x (xs @ ys)))"
    using assms(1) by (intro add_sorted) (simp add: sorted_append)
  show "set (add x (xs @ ys)) = set (xs @ x # ys)"
    using m by (metis set_mset_mset)
  then show "inj_on key (set (add x (xs @ ys)) \<union> set (xs @ x # ys))"
    using assms(2) by (metis Un_absorb distinct_map)
qed (use assms in auto)

lemma remove_at:
  assumes "sorted (map key (xs @ x # ys))" and "distinct (map key (xs @ x # ys))"
  shows "remove x (xs @ x # ys) = xs @ ys"
proof (rule map_sorted_distinct_set_unique [where f = key])
  have m: "mset (remove x (xs @ x # ys)) = mset (xs @ ys)"
    by (simp add: remove_mset)
  have e: "mset (map key (remove x (xs @ x # ys))) = mset (map key (xs @ ys))"
    using m by (metis mset_map)
  have "distinct (map key (xs @ ys))"
    using assms(2) by simp
  then show "distinct (map key (remove x (xs @ x # ys)))"
    using mset_eq_imp_distinct_iff [OF e] by blast
  show "sorted (map key (remove x (xs @ x # ys)))"
    using assms(1) by (intro remove_sorted)
  show s: "set (remove x (xs @ x # ys)) = set (xs @ ys)"
    using m by (metis set_mset_mset)
  have "inj_on key (set (xs @ x # ys))"
    using assms(2) unfolding distinct_map by (rule conjunct2)
  then show "inj_on key (set (remove x (xs @ x # ys)) \<union> set (xs @ ys))"
    unfolding s by (rule inj_on_subset) auto
qed (use assms in \<open>auto simp: sorted_append\<close>)

lemma bisect_at:
  assumes "sorted (map key (xs @ ys))"
    and "\<And>y. y \<in> set xs \<Longrightarrow> key y < key x" and "\<And>y. y \<in> set ys \<Longrightarrow> key x \<le> key y"
  shows "bisect_left x (xs @ ys) = length xs"
proof (rule antisym)
  show "bisect_left x (xs @ ys) \<le> length xs"
  proof (rule ccontr)
    assume a: "\<not> bisect_left x (xs @ ys) \<le> length xs"
    with bisect_le [of x "xs @ ys"] have "length xs < length (xs @ ys)" by linarith
    then obtain y zs where ys: "ys = y # zs" by (cases ys) auto
    from a assms(1) have "key ((xs @ ys) ! length xs) < key x" by (intro bisect_before) auto
    with assms(3) [of y] ys show False by (simp add: nth_append)
  qed
  show "length xs \<le> bisect_left x (xs @ ys)"
  proof (rule ccontr)
    assume a: "\<not> length xs \<le> bisect_left x (xs @ ys)"
    then have "key x \<le> key ((xs @ ys) ! bisect_left x (xs @ ys))"
      using assms(1) by (intro bisect_after) auto
    with a assms(2) [of "xs ! bisect_left x (xs @ ys)"] show False by (simp add: nth_append)
  qed
qed

end

section \<open>SortedDict: a dictionary whose iteration is in key order\<close>

locale sorted_dict =
  fixes items :: "(int \<times> 'b) list \<Rightarrow> (int \<times> 'b) list"
  assumes items_sorted: "od_wf d \<Longrightarrow> sorted (od_keys (items d))"
    and items_mset: "mset (items d) = mset d"
begin

lemma items_set: "set (items d) = set d"
  by (metis items_mset set_mset_mset)

lemma items_keys: "set (od_keys (items d)) = set (od_keys d)"
  by (simp add: items_set)

lemma items_wf: "od_wf d \<Longrightarrow> od_wf (items d)"
  by (metis items_mset mset_eq_imp_distinct_iff mset_map)

lemma items_map_of: "od_wf d \<Longrightarrow> map_of (items d) = map_of d"
  by (rule map_of_inject_set [THEN iffD2]) (simp_all add: items_wf items_set)

end

section \<open>Reference implementations\<close>

fun ref_add :: "('a \<Rightarrow> int) \<Rightarrow> 'a \<Rightarrow> 'a list \<Rightarrow> 'a list" where
  "ref_add key x [] = [x]"
| "ref_add key x (y # ys) = (if key x < key y then x # y # ys else y # ref_add key x ys)"

fun ref_bisect_left :: "('a \<Rightarrow> int) \<Rightarrow> 'a \<Rightarrow> 'a list \<Rightarrow> nat" where
  "ref_bisect_left key x [] = 0"
| "ref_bisect_left key x (y # ys) = (if key y < key x then Suc (ref_bisect_left key x ys) else 0)"

definition ref_items :: "(int \<times> 'b) list \<Rightarrow> (int \<times> 'b) list" where
  "ref_items d = sort_key fst d"

lemma mset_ref_add: "mset (ref_add key x xs) = add_mset x (mset xs)"
  by (induction xs) auto

lemma set_ref_add: "set (ref_add key x xs) = insert x (set xs)"
  by (induction xs) auto

lemma sorted_ref_add: "sorted (map key xs) \<Longrightarrow> sorted (map key (ref_add key x xs))"
  by (induction xs) (auto simp: set_ref_add)

lemma sorted_map_remove1: "sorted (map key xs) \<Longrightarrow> sorted (map key (remove1 x xs))"
  by (induction xs) (auto dest: notin_set_remove1 [rotated] intro: set_remove1_subset [THEN subsetD])

lemma ref_bisect_le: "ref_bisect_left key x xs \<le> length xs"
  by (induction xs) auto

lemma ref_bisect_before: "i < ref_bisect_left key x xs \<Longrightarrow> key (xs ! i) < key x"
proof (induction xs arbitrary: i)
  case (Cons y ys)
  then show ?case by (cases i) (auto split: if_splits)
qed simp

lemma ref_bisect_after:
  "sorted (map key xs) \<Longrightarrow> ref_bisect_left key x xs \<le> i \<Longrightarrow> i < length xs \<Longrightarrow> key x \<le> key (xs ! i)"
proof (induction xs arbitrary: i)
  case (Cons y ys)
  show ?case
  proof (cases "key y < key x")
    case True
    with Cons show ?thesis by (cases i) auto
  next
    case False
    with Cons.prems have "\<forall>z \<in> set (y # ys). key x \<le> key z" by auto
    with Cons.prems(3) show ?thesis using nth_mem by blast
  qed
qed simp

interpretation ref_sl: sorted_key_list key "ref_add key" remove1 "ref_bisect_left key"
  for key :: "'a \<Rightarrow> int"
  by unfold_locales
    (auto simp: mset_ref_add ref_bisect_le intro: sorted_ref_add sorted_map_remove1
      ref_bisect_before ref_bisect_after)

interpretation ref_sd: sorted_dict ref_items
  by unfold_locales (simp_all add: ref_items_def)

end
