(* ===== verification/AddressManager.thy ===== *)
theory AddressManager
  imports SortedContainers
begin

text \<open>
  \<open>AddressManager\<close> of \<open>v1/memory_management.py\<close>: a virtual address space whose free
  regions are kept in an explicit list sorted by start address and coalesced on every
  release. \<open>am_allocate\<close>, \<open>am_free\<close>, \<open>am_sbrk\<close> and \<open>am_coalesce\<close> follow
  the methods of the same names; a block reference held by the code (\<open>prev_block\<close>,
  \<open>succ_block\<close>) is its index in the list, so that the in-place updates of the code are list
  updates. Addresses and sizes are Python's unbounded integers.

  The lemmas relate the list to the set of free addresses it stands for (\<open>free_addrs\<close>):
  an allocation takes exactly its interval out of that set and a release puts it back; the
  invariant \<open>am_inv\<close> (sorted, separated, within the space, sizes adding up) is kept, and
  makes the list the only one for its set, so releasing what was just allocated restores the
  very same state.
\<close>

section \<open>State and operations\<close>

record free_block =
  fb_start :: int
  fb_size :: int

record addr_mgr =
  am_size :: int
  am_align :: int
  explicit_list :: "free_block list"
  total_allocated_size :: int

record sl_ops =
  sl_add :: "free_block \<Rightarrow> free_block list \<Rightarrow> free_block list"
  sl_remove :: "free_block \<Rightarrow> free_block list \<Rightarrow> free_block list"
  sl_bisect_left :: "free_block \<Rightarrow> free_block list \<Rightarrow> nat"

definition mk_block :: "int \<Rightarrow> int \<Rightarrow> free_block" where
  "mk_block a n = \<lparr>fb_start = a, fb_size = n\<rparr>"

definition can_be_coalesced :: "free_block \<Rightarrow> free_block \<Rightarrow> bool" where
  "can_be_coalesced b succ \<longleftrightarrow> fb_start b + fb_size b = fb_start succ"

definition am_init :: "('e) sl_ops_scheme \<Rightarrow> int \<Rightarrow> int \<Rightarrow> addr_mgr" where
  "am_init ops n align =
     \<lparr>am_size = n, am_align = align, explicit_list = sl_add ops (mk_block 0 n) [],
      total_allocated_size = 0\<rparr>"

definition compute_aligned_size :: "addr_mgr \<Rightarrow> int \<Rightarrow> int" where
  "compute_aligned_size am raw_size = (raw_size + am_align am - 1) AND NOT (am_align am - 1)"

definition am_coalesce ::
    "('e) sl_ops_scheme \<Rightarrow> free_block list \<Rightarrow> free_block \<Rightarrow> nat option \<Rightarrow> nat option
      \<Rightarrow> bool \<times> free_block list" where
  "am_coalesce ops l cur prev succ =
     (let merge_prev = (case prev of None \<Rightarrow> False | Some i \<Rightarrow> can_be_coalesced (l ! i) cur);
          merge_succ = (case succ of None \<Rightarrow> False | Some j \<Rightarrow> can_be_coalesced cur (l ! j))
      in if merge_prev \<and> merge_succ then
           let p = l ! the prev; s = l ! the succ;
               l' = l[the prev := p\<lparr>fb_size := fb_size p + (fb_size cur + fb_size s)\<rparr>]
           in (True, sl_remove ops s l')
         else if merge_prev then
           let p = l ! the prev
           in (True, l[the prev := p\<lparr>fb_size := fb_size p + fb_size cur\<rparr>])
         else if merge_succ then
           let s = l ! the succ;
               s' = s\<lparr>fb_start := fb_start s - fb_size cur, fb_size := fb_size s + fb_size cur\<rparr>
           in (True, sl_add ops s' (sl_remove ops s l))
         else (False, l))"

definition am_allocate ::
    "('e) sl_ops_scheme \<Rightarrow> addr_mgr \<Rightarrow> int \<Rightarrow> (addr_mgr \<times> int \<times> int) result" where
  "am_allocate ops am n =
     (let aligned_size = compute_aligned_size am n
      in case find (\<lambda>b. aligned_size \<le> fb_size b) (explicit_list am) of
           None \<Rightarrow> Inl RuntimeError
         | Some block \<Rightarrow>
             let l = sl_remove ops block (explicit_list am);
                 l' = (if aligned_size < fb_size block
                       then sl_add ops (mk_block (fb_start block + aligned_size)
                              (fb_size block - aligned_size)) l
                       else l)
             in Inr (am\<lparr>explicit_list := l',
                        total_allocated_size := total_allocated_size am + aligned_size\<rparr>,
                     fb_start block, aligned_size))"

definition am_free :: "('e) sl_ops_scheme \<Rightarrow> addr_mgr \<Rightarrow> int \<Rightarrow> int \<Rightarrow> addr_mgr" where
  "am_free ops am address n =
     (let l = explicit_list am;
          new_free_block = mk_block address n;
          index = sl_bisect_left ops new_free_block l;
          prev = (if 0 < index then Some (index - 1) else None);
          succ = (if index < length l then Some index else None);
          (coalesced, l') = am_coalesce ops l new_free_block prev succ;
          l'' = (if \<not> coalesced then sl_add ops new_free_block l' else l')
      in am\<lparr>explicit_list := l'', total_allocated_size := total_allocated_size am - n\<rparr>)"

definition am_sbrk :: "('e) sl_ops_scheme \<Rightarrow> addr_mgr \<Rightarrow> int \<Rightarrow> addr_mgr" where
  "am_sbrk ops am n =
     (let n' = compute_aligned_size am n;
          l = explicit_list am;
          new_block = mk_block (am_size am) n';
          prev = (if 0 < length l then Some (length l - 1) else None);
          (coalesced, l') = am_coalesce ops l new_block prev None;
          l'' = (if \<not> coalesced then sl_add ops new_block l' else l')
      in am\<lparr>explicit_list := l'', am_size := am_size am + n'\<rparr>)"

definition get_heap_size :: "addr_mgr \<Rightarrow> int" where
  "get_heap_size am = am_size am"

definition get_free_size :: "addr_mgr \<Rightarrow> int" where
  "get_free_size am = am_size am - total_allocated_size am"

definition check_consistency :: "addr_mgr \<Rightarrow> bool" where
  "check_consistency am =
     (if \<exists>(p, s) \<in> set (zip (butlast (explicit_list am)) (tl (explicit_list am))).
           can_be_coalesced p s
      then False
      else sum_list (map fb_size (explicit_list am)) + total_allocated_size am = am_size am)"

section \<open>The set of free addresses and the invariant\<close>

definition block_addrs :: "free_block \<Rightarrow> int set" where
  "block_addrs b = {fb_start b ..< fb_start b + fb_size b}"

definition addrs_of :: "free_block list \<Rightarrow> int set" where
  "addrs_of l = \<Union> (block_addrs ` set l)"

definition free_addrs :: "addr_mgr \<Rightarrow> int set" where
  "free_addrs am = addrs_of (explicit_list am)"

abbreviation separated :: "free_block list \<Rightarrow> bool" where
  "separated l \<equiv> sorted_wrt (\<lambda>b c. fb_start b + fb_size b < fb_start c) l"

definition am_inv :: "addr_mgr \<Rightarrow> bool" where
  "am_inv am \<longleftrightarrow>
     0 \<le> am_size am \<and> (\<exists>k. am_align am = 2 ^ k) \<and> separated (explicit_list am) \<and>
     (\<forall>b \<in> set (explicit_list am). 0 \<le> fb_start b \<and> 0 \<le> fb_size b \<and>
        fb_start b + fb_size b \<le> am_size am \<and> (fb_size b = 0 \<longrightarrow> am_size am = 0)) \<and>
     sum_list (map fb_size (explicit_list am)) + total_allocated_size am = am_size am"

definition sl_spec :: "('e) sl_ops_scheme \<Rightarrow> bool" where
  "sl_spec ops \<longleftrightarrow> sorted_key_list fb_start (sl_add ops) (sl_remove ops) (sl_bisect_left ops)"

definition ref_sl_ops :: sl_ops where
  "ref_sl_ops = \<lparr>sl_add = ref_add fb_start, sl_remove = remove1,
     sl_bisect_left = ref_bisect_left fb_start\<rparr>"

section \<open>Lists of separated blocks\<close>

definition blocks_ok :: "int \<Rightarrow> free_block list \<Rightarrow> bool" where
  "blocks_ok hi l \<longleftrightarrow> separated l \<and>
     (\<forall>b \<in> set l. 0 \<le> fb_start b \<and> 0 \<le> fb_size b \<and> fb_start b + fb_size b \<le> hi \<and>
        (fb_size b = 0 \<longrightarrow> hi = 0))"

lemma am_inv_blocks:
  "am_inv am \<longleftrightarrow> 0 \<le> am_size am \<and> (\<exists>k. am_align am = 2 ^ k) \<and>
     blocks_ok (am_size am) (explicit_list am) \<and>
     sum_list (map fb_size (explicit_list am)) + total_allocated_size am = am_size am"
  by (auto simp: am_inv_def blocks_ok_def)

lemma mk_block_simps [simp]:
  "fb_start (mk_block a n) = a" "fb_size (mk_block a n) = n"
  by (simp_all add: mk_block_def)

lemma block_update:
  "b\<lparr>fb_start := a, fb_size := n\<rparr> = mk_block a n" "b\<lparr>fb_size := n\<rparr> = mk_block (fb_start b) n"
  by (cases b; simp add: mk_block_def)+

lemma can_be_coalesced_iff: "can_be_coalesced b s \<longleftrightarrow> fb_start s = fb_start b + fb_size b"
  by (auto simp: can_be_coalesced_def)

lemma block_eq_mk: "b = mk_block (fb_start b) (fb_size b)"
  by (simp add: mk_block_def)

lemma addrs_of_simps [simp]:
  "addrs_of [] = {}"
  "addrs_of (b # l) = block_addrs b \<union> addrs_of l"
  "addrs_of (l @ l') = addrs_of l \<union> addrs_of l'"
  by (auto simp: addrs_of_def)

lemma blocks_ok_simps:
  "blocks_ok hi []"
  "blocks_ok hi (b # l) \<longleftrightarrow> (\<forall>c \<in> set l. fb_start b + fb_size b < fb_start c) \<and>
     0 \<le> fb_start b \<and> 0 \<le> fb_size b \<and> fb_start b + fb_size b \<le> hi \<and> (fb_size b = 0 \<longrightarrow> hi = 0) \<and>
     blocks_ok hi l"
  "blocks_ok hi (l @ l') \<longleftrightarrow> blocks_ok hi l \<and> blocks_ok hi l' \<and>
     (\<forall>b \<in> set l. \<forall>c \<in> set l'. fb_start b + fb_size b < fb_start c)"
  by (auto simp: blocks_ok_def sorted_wrt_append)

lemma blocks_ok_strict: "blocks_ok hi l \<Longrightarrow> sorted_wrt (<) (map fb_start l)"
  unfolding blocks_ok_def sorted_wrt_map
  by (rule sorted_wrt_mono_rel [where P = "\<lambda>b c. fb_start b + fb_size b < fb_start c"]) force+

lemma blocks_ok_keys: "blocks_ok hi l \<Longrightarrow> sorted (map fb_start l) \<and> distinct (map fb_start l)"
  using blocks_ok_strict strict_sorted_iff by blast

lemma addrs_of_bounds: "blocks_ok hi l \<Longrightarrow> x \<in> addrs_of l \<Longrightarrow> 0 \<le> x \<and> x < hi"
  by (fastforce simp: blocks_ok_def addrs_of_def block_addrs_def)

section \<open>Release: the list that results\<close>

definition release_blocks :: "free_block list \<Rightarrow> free_block \<Rightarrow> free_block list \<Rightarrow> free_block list" where
  "release_blocks xs cur ys =
     (let merge_prev = xs \<noteq> [] \<and> can_be_coalesced (last xs) cur;
          merge_succ = ys \<noteq> [] \<and> can_be_coalesced cur (hd ys);
          lo = (if merge_prev then fb_start (last xs) else fb_start cur);
          n = (if merge_prev then fb_size (last xs) else 0) + fb_size cur
            + (if merge_succ then fb_size (hd ys) else 0)
      in (if merge_prev then butlast xs else xs) @ mk_block lo n #
         (if merge_succ then tl ys else ys))"

definition ref_prev :: "free_block list \<Rightarrow> nat option" where
  "ref_prev xs = (if 0 < length xs then Some (length xs - 1) else None)"

definition ref_succ :: "free_block list \<Rightarrow> free_block list \<Rightarrow> nat option" where
  "ref_succ xs ys = (if length xs < length (xs @ ys) then Some (length xs) else None)"

lemma blocks_mid_keys:
  assumes "blocks_ok hi (xs @ ys)"
    and "\<And>b. b \<in> set xs \<Longrightarrow> fb_start b < fb_start c" and "\<And>b. b \<in> set ys \<Longrightarrow> fb_start c < fb_start b"
  shows "sorted (map fb_start (xs @ c # ys))" and "distinct (map fb_start (xs @ c # ys))"
proof -
  have s: "sorted_wrt (<) (map fb_start (xs @ ys))"
    using assms(1) by (rule blocks_ok_strict)
  then have "sorted_wrt (<) (map fb_start (xs @ c # ys))"
    using assms(2,3) by (auto simp: sorted_wrt_append sorted_wrt_map)
  then show "sorted (map fb_start (xs @ c # ys))" and "distinct (map fb_start (xs @ c # ys))"
    by (simp_all only: strict_sorted_iff)
qed

lemma sl_add_at:
  "sl_spec ops \<Longrightarrow> sorted (map fb_start (xs @ x # ys)) \<Longrightarrow> distinct (map fb_start (xs @ x # ys))
   \<Longrightarrow> sl_add ops x (xs @ ys) = xs @ x # ys"
  unfolding sl_spec_def by (rule sorted_key_list.add_at)

lemma sl_remove_at:
  "sl_spec ops \<Longrightarrow> sorted (map fb_start (xs @ x # ys)) \<Longrightarrow> distinct (map fb_start (xs @ x # ys))
   \<Longrightarrow> sl_remove ops x (xs @ x # ys) = xs @ ys"
  unfolding sl_spec_def by (rule sorted_key_list.remove_at)

lemma sl_bisect_at:
  "sl_spec ops \<Longrightarrow> sorted (map fb_start (xs @ ys))
   \<Longrightarrow> (\<And>y. y \<in> set xs \<Longrightarrow> fb_start y < fb_start x) \<Longrightarrow> (\<And>y. y \<in> set ys \<Longrightarrow> fb_start x \<le> fb_start y)
   \<Longrightarrow> sl_bisect_left ops x (xs @ ys) = length xs"
  unfolding sl_spec_def by (rule sorted_key_list.bisect_at)

lemma am_coalesce_at:
  assumes sl: "sl_spec ops" and ok: "blocks_ok hi (xs @ ys)"
    and xs: "\<And>b. b \<in> set xs \<Longrightarrow> fb_start b < fb_start cur"
    and ys: "\<And>b. b \<in> set ys \<Longrightarrow> fb_start cur < fb_start b"
  shows "(case am_coalesce ops (xs @ ys) cur (ref_prev xs) (ref_succ xs ys) of
            (c, l) \<Rightarrow> if \<not> c then sl_add ops cur l else l) = release_blocks xs cur ys"
proof -
  have add: "sl_add ops cur (xs @ ys) = xs @ cur # ys"
    using blocks_mid_keys [OF ok xs ys] sl by (intro sl_add_at) auto
  show ?thesis
  proof (cases ys)
    case Nil
    with add show ?thesis
      by (cases xs rule: rev_cases)
        (auto simp: am_coalesce_def release_blocks_def ref_prev_def ref_succ_def Let_def nth_append
          block_update can_be_coalesced_iff)
  next
    case (Cons s ys')
    have k: "sorted (map fb_start (xs @ s # ys'))" "distinct (map fb_start (xs @ s # ys'))"
      using blocks_ok_keys [OF ok] Cons by auto
    have okd: "blocks_ok hi (xs @ ys')"
      using ok Cons by (auto simp: blocks_ok_simps)
    have rem: "sl_remove ops s (xs @ s # ys') = xs @ ys'"
      using k sl by (intro sl_remove_at)
    have mrg: "sl_add ops (mk_block (fb_start cur) m) (xs @ ys') = xs @ mk_block (fb_start cur) m # ys'" for m
      using blocks_mid_keys [OF okd, of "mk_block (fb_start cur) m"] xs ys Cons sl
      by (intro sl_add_at) auto
    show ?thesis
    proof (cases xs rule: rev_cases)
      case Nil
      with add rem mrg [of "fb_size s + fb_size cur"] Cons show ?thesis
        by (auto simp: am_coalesce_def release_blocks_def ref_prev_def ref_succ_def Let_def
            can_be_coalesced_iff block_update algebra_simps)
    next
      case (snoc xs' p)
      have rem': "sl_remove ops s (xs' @ p\<lparr>fb_size := m\<rparr> # s # ys') = xs' @ p\<lparr>fb_size := m\<rparr> # ys'" for m
        using sl_remove_at [OF sl, of "xs' @ [p\<lparr>fb_size := m\<rparr>]" s ys'] k snoc by simp
      show ?thesis
        using add rem mrg [of "fb_size s + fb_size cur"] rem' Cons snoc
        by (auto simp: am_coalesce_def release_blocks_def ref_prev_def ref_succ_def Let_def
            nth_append can_be_coalesced_iff block_update algebra_simps)
    qed
  qed
qed

section \<open>Release: what it does to the set of free addresses\<close>

lemma sum_butlast_last: "xs \<noteq> [] \<Longrightarrow> sum_list (map fb_size (butlast xs)) + fb_size (last xs) = sum_list (map fb_size xs)"
  by (cases xs rule: rev_cases) auto

lemma addrs_butlast_last: "xs \<noteq> [] \<Longrightarrow> addrs_of xs = addrs_of (butlast xs) \<union> block_addrs (last xs)"
  by (cases xs rule: rev_cases) auto

lemma release_sum:
  "sum_list (map fb_size (release_blocks xs cur ys))
   = sum_list (map fb_size xs) + fb_size cur + sum_list (map fb_size ys)"
  by (cases xs rule: rev_cases; cases ys) (auto simp: release_blocks_def Let_def)

lemma release_addrs:
  assumes "blocks_ok hi (xs @ ys)" and "0 \<le> fb_size cur"
  shows "addrs_of (release_blocks xs cur ys) = addrs_of xs \<union> block_addrs cur \<union> addrs_of ys"
  using assms
  by (cases xs rule: rev_cases; cases ys)
    (auto simp: release_blocks_def Let_def block_addrs_def can_be_coalesced_iff blocks_ok_simps)

lemma release_ok:
  assumes ok: "blocks_ok hi (xs @ ys)" and pos: "0 < fb_size cur" "0 \<le> fb_start cur"
    and xs: "\<And>b. b \<in> set xs \<Longrightarrow> fb_start b + fb_size b \<le> fb_start cur"
    and ys: "\<And>b. b \<in> set ys \<Longrightarrow> fb_start cur + fb_size cur \<le> fb_start b"
    and hi: "fb_start cur + fb_size cur \<le> hi"
  shows "blocks_ok hi (release_blocks xs cur ys)"
proof (cases xs rule: rev_cases)
  case Nil
  with assms show ?thesis
    by (cases ys) (force simp: release_blocks_def Let_def can_be_coalesced_iff blocks_ok_simps)+
next
  case (snoc xs' p)
  show ?thesis
  proof (cases ys)
    case Nil
    with assms snoc show ?thesis
      by (force simp: release_blocks_def Let_def can_be_coalesced_iff blocks_ok_simps)
  next
    case (Cons s ys')
    have p: "fb_start p + fb_size p \<le> fb_start cur" and s: "fb_start cur + fb_size cur \<le> fb_start s"
      using xs [of p] ys [of s] snoc Cons by auto
    have "\<And>b. b \<in> set xs' \<Longrightarrow> fb_start b + fb_size b < fb_start p"
      and "\<And>b. b \<in> set ys' \<Longrightarrow> fb_start s + fb_size s < fb_start b" and "0 \<le> fb_size p" "0 \<le> fb_size s"
      using ok snoc Cons by (auto simp: blocks_ok_simps)
    with assms snoc Cons p s show ?thesis
      by (force simp: release_blocks_def Let_def can_be_coalesced_iff blocks_ok_simps)
  qed
qed

lemma split_at_address:
  assumes ok: "blocks_ok hi l" and n: "0 < n" "0 \<le> a" "a + n \<le> hi"
    and dis: "{a ..< a + n} \<inter> addrs_of l = {}"
  obtains xs ys where "l = xs @ ys" and "\<forall>b \<in> set xs. fb_start b < a \<and> fb_start b + fb_size b \<le> a"
    and "\<forall>b \<in> set ys. a + n \<le> fb_start b"
proof
  let ?xs = "takeWhile (\<lambda>b. fb_start b < a) l" and ?ys = "dropWhile (\<lambda>b. fb_start b < a) l"
  show l: "l = ?xs @ ?ys" by simp
  have pos: "0 < fb_size b" if "b \<in> set l" for b
    using ok n that by (fastforce simp: blocks_ok_def)
  have out: "x \<notin> block_addrs b" if "b \<in> set l" "a \<le> x" "x < a + n" for b x
    using dis that by (auto simp: addrs_of_def)
  show "\<forall>b \<in> set ?xs. fb_start b < a \<and> fb_start b + fb_size b \<le> a"
  proof
    fix b assume b: "b \<in> set ?xs"
    then have "b \<in> set l" "fb_start b < a" by (auto dest: set_takeWhileD)
    with out [of b a] n show "fb_start b < a \<and> fb_start b + fb_size b \<le> a"
      by (auto simp: block_addrs_def)
  qed
  have ge: "a \<le> fb_start b" if "b \<in> set ?ys" for b
  proof (cases ?ys)
    case Nil
    then have "set ?ys = {}" by (simp only: list.set)
    with that show ?thesis by (metis empty_iff)
  next
    case (Cons c cs)
    have "sorted (map fb_start (c # cs))"
      using blocks_ok_keys [OF ok] l Cons by (metis map_append sorted_append)
    moreover have "\<not> fb_start c < a"
      using Cons hd_dropWhile [of "\<lambda>b. fb_start b < a" l] by auto
    ultimately show ?thesis using that Cons by auto
  qed
  show "\<forall>b \<in> set ?ys. a + n \<le> fb_start b"
  proof
    fix b assume b: "b \<in> set ?ys"
    then have "b \<in> set l" by (rule set_dropWhileD)
    with out [of b "fb_start b"] pos [of b] ge [OF b] show "a + n \<le> fb_start b"
      by (force simp: block_addrs_def)
  qed
qed

lemma am_free_list:
  assumes "sl_spec ops" and "blocks_ok hi (xs @ ys)" and "explicit_list am = xs @ ys"
    and "\<And>b. b \<in> set xs \<Longrightarrow> fb_start b < a" and "\<And>b. b \<in> set ys \<Longrightarrow> a < fb_start b"
  shows "am_free ops am a n = am\<lparr>explicit_list := release_blocks xs (mk_block a n) ys,
           total_allocated_size := total_allocated_size am - n\<rparr>"
proof -
  have bis: "sl_bisect_left ops (mk_block a n) (xs @ ys) = length xs"
    using assms blocks_ok_keys [OF assms(2)] by (intro sl_bisect_at) (auto intro: less_imp_le)
  obtain c l' where cl: "am_coalesce ops (xs @ ys) (mk_block a n) (ref_prev xs) (ref_succ xs ys) = (c, l')"
    by fastforce
  have res: "(if \<not> c then sl_add ops (mk_block a n) l' else l') = release_blocks xs (mk_block a n) ys"
    using am_coalesce_at [OF assms(1,2), of "mk_block a n"] assms(4,5) cl by simp
  show ?thesis
    unfolding am_free_def Let_def assms(3) bis ref_prev_def [symmetric] ref_succ_def [symmetric]
      cl prod.case res ..
qed

lemma am_free_correct:
  assumes sl: "sl_spec ops" and inv: "am_inv am" and n: "0 < n" "0 \<le> a" "a + n \<le> am_size am"
    and dis: "{a ..< a + n} \<inter> free_addrs am = {}"
  shows "am_inv (am_free ops am a n)"
    and "free_addrs (am_free ops am a n) = free_addrs am \<union> {a ..< a + n}"
    and "am_size (am_free ops am a n) = am_size am"
    and "am_align (am_free ops am a n) = am_align am"
    and "total_allocated_size (am_free ops am a n) = total_allocated_size am - n"
proof -
  have ok: "blocks_ok (am_size am) (explicit_list am)"
    using inv by (simp add: am_inv_blocks)
  from split_at_address [OF ok n dis [unfolded free_addrs_def]] obtain xs ys where
    l: "explicit_list am = xs @ ys" and
    xs: "\<forall>b \<in> set xs. fb_start b < a \<and> fb_start b + fb_size b \<le> a" and
    ys: "\<forall>b \<in> set ys. a + n \<le> fb_start b" by metis
  have okl: "blocks_ok (am_size am) (xs @ ys)" using ok l by simp
  have f: "am_free ops am a n = am\<lparr>explicit_list := release_blocks xs (mk_block a n) ys,
           total_allocated_size := total_allocated_size am - n\<rparr>"
    using xs ys n by (intro am_free_list [OF sl okl l]) force+
  have "blocks_ok (am_size am) (release_blocks xs (mk_block a n) ys)"
    using xs ys n by (intro release_ok [OF okl]) auto
  with inv l show "am_inv (am_free ops am a n)"
    by (simp add: am_inv_blocks f release_sum)
  show "free_addrs (am_free ops am a n) = free_addrs am \<union> {a ..< a + n}"
    using release_addrs [OF okl, of "mk_block a n"] n
    by (auto simp: free_addrs_def f l block_addrs_def)
qed (simp_all add: am_free_def Let_def split: prod.splits)

section \<open>Allocation\<close>

lemma compute_aligned_size_eq:
  assumes "am_align am = 2 ^ k"
  shows "compute_aligned_size am n = ((n + am_align am - 1) div am_align am) * am_align am"
  using assms and_not_mask_int [of "n + am_align am - 1" k] by (simp add: compute_aligned_size_def)

lemma compute_aligned_size_bounds:
  assumes "am_inv am"
  shows "n \<le> compute_aligned_size am n" and "compute_aligned_size am n < n + am_align am"
    and "am_align am dvd compute_aligned_size am n" and "0 < am_align am"
proof -
  obtain k where k: "am_align am = 2 ^ k" using assms by (auto simp: am_inv_def)
  then show pos: "0 < am_align am" by simp
  show "n \<le> compute_aligned_size am n" and "compute_aligned_size am n < n + am_align am"
    and "am_align am dvd compute_aligned_size am n"
    using align_up_bounds [OF pos, of n] by (simp_all add: compute_aligned_size_eq [OF k])
qed

lemma am_allocate_cases:
  assumes "am_allocate ops am n = r"
  obtains (fail) "r = Inl RuntimeError"
      "\<forall>b \<in> set (explicit_list am). fb_size b < compute_aligned_size am n"
    | (ok) xs b ys where "explicit_list am = xs @ b # ys"
      "\<forall>c \<in> set xs. fb_size c < compute_aligned_size am n" "compute_aligned_size am n \<le> fb_size b"
      "r = Inr (am\<lparr>explicit_list :=
                  (if compute_aligned_size am n < fb_size b
                   then sl_add ops (mk_block (fb_start b + compute_aligned_size am n)
                          (fb_size b - compute_aligned_size am n)) (sl_remove ops b (explicit_list am))
                   else sl_remove ops b (explicit_list am)),
                total_allocated_size := total_allocated_size am + compute_aligned_size am n\<rparr>,
             fb_start b, compute_aligned_size am n)"
proof (cases "find (\<lambda>b. compute_aligned_size am n \<le> fb_size b) (explicit_list am)")
  case None
  with assms show ?thesis
    by (intro fail) (auto simp: am_allocate_def find_None_iff Let_def)
next
  case (Some b)
  then obtain i where i: "i < length (explicit_list am)" "b = explicit_list am ! i"
    "compute_aligned_size am n \<le> fb_size b"
    "\<forall>j < i. \<not> compute_aligned_size am n \<le> fb_size (explicit_list am ! j)"
    by (auto simp: find_Some_iff)
  show ?thesis
  proof (rule ok)
    show "explicit_list am = take i (explicit_list am) @ b # drop (Suc i) (explicit_list am)"
      using i by (simp add: id_take_nth_drop)
    show "\<forall>c \<in> set (take i (explicit_list am)). fb_size c < compute_aligned_size am n"
      using i by (auto simp: in_set_conv_nth not_le)
  qed (use i Some assms in \<open>auto simp: am_allocate_def Let_def\<close>)
qed

lemma am_allocate_Inr:
  assumes "am_allocate ops am n = Inr (am', a, m)"
  obtains xs b ys where "explicit_list am = xs @ b # ys"
    and "\<forall>c \<in> set xs. fb_size c < compute_aligned_size am n" and "compute_aligned_size am n \<le> fb_size b"
    and "m = compute_aligned_size am n" and "a = fb_start b"
    and "am' = am\<lparr>explicit_list :=
                  (if m < fb_size b
                   then sl_add ops (mk_block (a + m) (fb_size b - m)) (sl_remove ops b (explicit_list am))
                   else sl_remove ops b (explicit_list am)),
                total_allocated_size := total_allocated_size am + m\<rparr>"
  using assms by (cases rule: am_allocate_cases) auto

lemma am_allocate_correct:
  assumes sl: "sl_spec ops" and inv: "am_inv am" and n: "0 < n"
    and r: "am_allocate ops am n = Inr (am', a, m)"
  shows "am_inv am'" and "m = compute_aligned_size am n"
    and "{a ..< a + m} \<subseteq> free_addrs am" and "free_addrs am' = free_addrs am - {a ..< a + m}"
    and "am_size am' = am_size am" and "am_align am' = am_align am"
    and "total_allocated_size am' = total_allocated_size am + m"
    and "0 \<le> a" and "a + m \<le> am_size am"
    and "\<exists>xs b ys. explicit_list am = xs @ b # ys \<and> fb_start b = a
           \<and> (\<forall>c \<in> set xs. fb_size c < m) \<and> explicit_list am' =
             xs @ (if m < fb_size b then [mk_block (a + m) (fb_size b - m)] else []) @ ys"
proof -
  let ?m = "compute_aligned_size am n"
  from r obtain xs b ys where ok: "explicit_list am = xs @ b # ys"
      "\<forall>c \<in> set xs. fb_size c < ?m" "?m \<le> fb_size b"
      "am' = am\<lparr>explicit_list :=
                  (if m < fb_size b
                   then sl_add ops (mk_block (a + m) (fb_size b - m)) (sl_remove ops b (explicit_list am))
                   else sl_remove ops b (explicit_list am)),
                total_allocated_size := total_allocated_size am + m\<rparr>"
    and m: "m = ?m" and a: "a = fb_start b"
    by (rule am_allocate_Inr)
  have pos: "0 < m" using compute_aligned_size_bounds(1) [OF inv, of n] n m by simp
  have okl: "blocks_ok (am_size am) (xs @ b # ys)"
    using inv ok(1) by (simp add: am_inv_blocks)
  then have okl': "blocks_ok (am_size am) (xs @ ys)" by (simp add: blocks_ok_simps)
  have before: "fb_start c < fb_start b" if "c \<in> set xs" for c
  proof -
    have "0 \<le> fb_size c" using okl that by (auto simp: blocks_ok_def)
    moreover have "fb_start c + fb_size c < fb_start b" using okl that by (auto simp: blocks_ok_simps)
    ultimately show ?thesis by simp
  qed
  have after: "fb_start b + fb_size b < fb_start c" if "c \<in> set ys" for c
    using okl that by (auto simp: blocks_ok_simps)
  have rem: "sl_remove ops b (explicit_list am) = xs @ ys"
    using sl_remove_at [OF sl] blocks_ok_keys [OF okl] ok(1) by simp
  have "sl_add ops (mk_block (a + m) (fb_size b - m)) (xs @ ys) = xs @ mk_block (a + m) (fb_size b - m) # ys"
    if "m < fb_size b"
    using blocks_mid_keys [OF okl', of "mk_block (a + m) (fb_size b - m)"] before after that pos a
    by (intro sl_add_at [OF sl]) fastforce+
  then have l: "explicit_list am' =
      xs @ (if m < fb_size b then [mk_block (a + m) (fb_size b - m)] else []) @ ys"
    using ok(4) rem m a by auto
  show "m = ?m" by (rule m)
  show "total_allocated_size am' = total_allocated_size am + m" "am_size am' = am_size am"
    "am_align am' = am_align am" using ok(4) m by auto
  show "{a ..< a + m} \<subseteq> free_addrs am"
    using ok(1,3) m a by (auto simp: free_addrs_def block_addrs_def)
  have bound: "0 \<le> fb_start b \<and> fb_start b + fb_size b \<le> am_size am"
    using okl by (simp add: blocks_ok_simps)
  show "0 \<le> a" and "a + m \<le> am_size am" using bound ok(3) m a by auto
  have cover: "block_addrs b = {a ..< a + m} \<union> {a + m ..< fb_start b + fb_size b}"
    using ok(3) m a pos by (auto simp: block_addrs_def)
  have gone: "addrs_of (xs @ ys) \<inter> block_addrs b = {}"
  proof -
    have "c1 \<in> block_addrs c \<Longrightarrow> c \<in> set (xs @ ys) \<Longrightarrow> c1 \<notin> block_addrs b" for c c1
      using okl after by (fastforce simp: blocks_ok_simps block_addrs_def)
    then show ?thesis by (auto simp: addrs_of_def)
  qed
  have "free_addrs am' = addrs_of (xs @ ys) \<union> {a + m ..< fb_start b + fb_size b}"
    using l ok(3) m a by (auto simp: free_addrs_def block_addrs_def)
  moreover have "free_addrs am = addrs_of (xs @ ys) \<union> block_addrs b"
    using ok(1) by (auto simp: free_addrs_def)
  ultimately show "free_addrs am' = free_addrs am - {a ..< a + m}"
    using cover gone pos by auto
  have "blocks_ok (am_size am') (explicit_list am')"
    using okl before after pos m a ok(3,4) unfolding l
    by (force simp: blocks_ok_simps)
  then show "am_inv am'"
    using inv ok(1,3,4) l m by (auto simp: am_inv_blocks)
  show "\<exists>xs b ys. explicit_list am = xs @ b # ys \<and> fb_start b = a
           \<and> (\<forall>c \<in> set xs. fb_size c < m) \<and> explicit_list am' =
             xs @ (if m < fb_size b then [mk_block (a + m) (fb_size b - m)] else []) @ ys"
    using ok(1,2) l m a by auto
qed

section \<open>Expansion, initial state, and the canonical form\<close>

lemma am_sbrk_list:
  assumes sl: "sl_spec ops" and ok: "blocks_ok (am_size am) (explicit_list am)"
    and lt: "\<And>b. b \<in> set (explicit_list am) \<Longrightarrow> fb_start b < am_size am \<or> explicit_list am = [b]"
  shows "am_sbrk ops am n = am\<lparr>explicit_list :=
           release_blocks (explicit_list am) (mk_block (am_size am) (compute_aligned_size am n)) [],
           am_size := am_size am + compute_aligned_size am n\<rparr>"
proof (cases "\<forall>b \<in> set (explicit_list am). fb_start b < am_size am")
  case True
  let ?c = "mk_block (am_size am) (compute_aligned_size am n)"
  obtain c l' where cl: "am_coalesce ops (explicit_list am) ?c (ref_prev (explicit_list am)) None = (c, l')"
    by fastforce
  have "ref_succ (explicit_list am) [] = None" by (simp add: ref_succ_def)
  then have "(if \<not> c then sl_add ops ?c l' else l') = release_blocks (explicit_list am) ?c []"
    using am_coalesce_at [OF sl, of "am_size am" "explicit_list am" "[]" ?c] ok True cl by simp
  then show ?thesis
    unfolding am_sbrk_def Let_def ref_prev_def [symmetric] cl prod.case by simp
next
  case False
  then obtain b where b: "b \<in> set (explicit_list am)" "\<not> fb_start b < am_size am" by auto
  then have l: "explicit_list am = [b]" using lt by blast
  then have "can_be_coalesced b (mk_block (am_size am) (compute_aligned_size am n))"
    using ok b by (auto simp: blocks_ok_def can_be_coalesced_iff)
  then show ?thesis
    by (simp add: am_sbrk_def Let_def am_coalesce_def l release_blocks_def block_update)
qed

lemma blocks_ok_empty_space:
  assumes "blocks_ok 0 l"
  shows "l = [] \<or> l = [mk_block 0 0]"
proof (cases l)
  case (Cons b bs)
  then have "fb_start b = 0" and "fb_size b = 0"
    using assms by (auto simp: blocks_ok_simps)
  then have b: "b = mk_block 0 0" by (metis block_eq_mk)
  have "bs = []"
  proof (cases bs)
    case (Cons c cs)
    with \<open>l = b # bs\<close> assms b show ?thesis by (auto simp: blocks_ok_simps)
  qed
  with Cons b show ?thesis by simp
qed simp

lemma am_sbrk_correct:
  assumes sl: "sl_spec ops" and inv: "am_inv am" and n: "0 < n"
  defines "m \<equiv> compute_aligned_size am n"
  shows "am_inv (am_sbrk ops am n)"
    and "am_size (am_sbrk ops am n) = am_size am + m"
    and "free_addrs (am_sbrk ops am n) = free_addrs am \<union> {am_size am ..< am_size am + m}"
    and "total_allocated_size (am_sbrk ops am n) = total_allocated_size am"
    and "am_align (am_sbrk ops am n) = am_align am"
proof -
  have ok: "blocks_ok (am_size am) (explicit_list am)" and hi: "0 \<le> am_size am"
    using inv by (simp_all add: am_inv_blocks)
  have m: "0 < m" using compute_aligned_size_bounds(1) [OF inv, of n] n by (simp add: m_def)
  have lt: "fb_start b < am_size am \<or> explicit_list am = [b]" if "b \<in> set (explicit_list am)" for b
  proof (cases "am_size am = 0")
    case True
    with that ok blocks_ok_empty_space show ?thesis by fastforce
  next
    case False
    with ok that show ?thesis by (force simp: blocks_ok_def)
  qed
  note f = am_sbrk_list [OF sl ok lt, of n, folded m_def]
  show "am_size (am_sbrk ops am n) = am_size am + m"
    and "total_allocated_size (am_sbrk ops am n) = total_allocated_size am"
    and "am_align (am_sbrk ops am n) = am_align am" by (simp_all add: f)
  show "free_addrs (am_sbrk ops am n) = free_addrs am \<union> {am_size am ..< am_size am + m}"
    using release_addrs [of "am_size am" "explicit_list am" "[]" "mk_block (am_size am) m"] ok m
    by (simp add: f free_addrs_def block_addrs_def)
  have "blocks_ok (am_size am + m) (release_blocks (explicit_list am) (mk_block (am_size am) m) [])"
  proof (cases "am_size am = 0")
    case True
    with ok have "explicit_list am = [] \<or> explicit_list am = [mk_block 0 0]"
      using blocks_ok_empty_space by simp
    then have "release_blocks (explicit_list am) (mk_block (am_size am) m) [] = [mk_block 0 m]"
      using True by (auto simp: release_blocks_def can_be_coalesced_iff)
    with True m show ?thesis by (simp add: blocks_ok_simps)
  next
    case False
    with ok m have "blocks_ok (am_size am + m) (explicit_list am)"
      by (force simp: blocks_ok_def)
    then show ?thesis
      using ok m hi by (intro release_ok) (auto simp: blocks_ok_def)
  qed
  with inv m show "am_inv (am_sbrk ops am n)"
    by (simp add: am_inv_blocks f release_sum)
qed

lemma am_init_correct:
  assumes "sl_spec ops" and "0 \<le> n" and "align = 2 ^ k"
  shows "am_inv (am_init ops n align)" and "free_addrs (am_init ops n align) = {0 ..< n}"
proof -
  have "sl_add ops (mk_block 0 n) [] = [mk_block 0 n]"
    using sl_add_at [OF assms(1), of "[]" "mk_block 0 n" "[]"] by simp
  with assms(2,3) show "am_inv (am_init ops n align)" and "free_addrs (am_init ops n align) = {0 ..< n}"
    by (auto simp: am_init_def am_inv_def free_addrs_def block_addrs_def)
qed

lemma blocks_head_facts:
  assumes "blocks_ok hi (b # l)" and "0 < hi"
  shows "fb_start b \<in> addrs_of (b # l)" and "\<And>x. x \<in> addrs_of (b # l) \<Longrightarrow> fb_start b \<le> x"
    and "fb_start b + fb_size b \<notin> addrs_of (b # l)" and "addrs_of l = addrs_of (b # l) - block_addrs b"
proof -
  have pos: "0 < fb_size c" if "c \<in> set (b # l)" for c
    using assms that by (fastforce simp: blocks_ok_def)
  have gt: "fb_start b + fb_size b < fb_start c" if "c \<in> set l" for c
    using assms that by (auto simp: blocks_ok_simps)
  show "fb_start b \<in> addrs_of (b # l)" using pos [of b] by (simp add: block_addrs_def)
  show "fb_start b \<le> x" if "x \<in> addrs_of (b # l)" for x
    using that gt pos [of b] by (fastforce simp: addrs_of_def block_addrs_def)
  show "fb_start b + fb_size b \<notin> addrs_of (b # l)"
    using gt by (fastforce simp: addrs_of_def block_addrs_def)
  show "addrs_of l = addrs_of (b # l) - block_addrs b"
    using gt by (fastforce simp: addrs_of_def block_addrs_def)
qed

lemma blocks_canonical:
  assumes "blocks_ok hi l" and "blocks_ok hi l'" and "0 < hi" and "addrs_of l = addrs_of l'"
  shows "l = l'"
  using assms
proof (induction l arbitrary: l')
  case Nil
  then show ?case
    using blocks_head_facts(1) [of hi "hd l'" "tl l'"] by (cases l') auto
next
  case (Cons b bs)
  then obtain c cs where l': "l' = c # cs"
    using blocks_head_facts(1) [OF Cons.prems(1,3)] by (cases l') auto
  note B = blocks_head_facts [OF Cons.prems(1,3)]
    and C = blocks_head_facts [OF Cons.prems(2) [unfolded l'] Cons.prems(3)]
  have st: "fb_start b = fb_start c"
    using B(1,2) C(1,2) Cons.prems(4) l' by (metis order_antisym)
  have nn: "0 \<le> fb_size b" "0 \<le> fb_size c"
    using Cons.prems(1,2) l' by (simp_all add: blocks_ok_simps)
  have "\<not> fb_size b < fb_size c"
  proof
    assume "fb_size b < fb_size c"
    with st nn have "fb_start b + fb_size b \<in> addrs_of (c # cs)" by (simp add: block_addrs_def)
    with B(3) Cons.prems(4) l' show False by metis
  qed
  moreover have "\<not> fb_size c < fb_size b"
  proof
    assume "fb_size c < fb_size b"
    with st nn have "fb_start c + fb_size c \<in> addrs_of (b # bs)" by (simp add: block_addrs_def)
    with C(3) Cons.prems(4) l' show False by metis
  qed
  ultimately have bc: "b = c" using st by (metis block_eq_mk linorder_neq_iff)
  have "bs = cs"
    using B(4) C(4) bc l' Cons.prems by (intro Cons.IH) (auto simp: blocks_ok_simps)
  with bc l' show ?case by simp
qed

lemma check_consistency_inv:
  assumes "am_inv am"
  shows "check_consistency am"
proof -
  have "\<not> can_be_coalesced p s"
    if "(p, s) \<in> set (zip (butlast l) (tl l))" and "separated l" for p s l
    using that
  proof (induction l)
    case (Cons b bs)
    then show ?case by (cases bs) (auto simp: can_be_coalesced_iff)
  qed simp
  with assms show ?thesis
    by (force simp: check_consistency_def am_inv_def)
qed

lemma am_free_allocate:
  assumes sl: "sl_spec ops" and inv: "am_inv am" and n: "0 < n"
    and r: "am_allocate ops am n = Inr (am', a, m)"
  shows "am_free ops am' a m = am"
proof -
  note A = am_allocate_correct [OF sl inv n r]
  have m: "0 < m" using compute_aligned_size_bounds(1) [OF inv, of n] n A(2) by simp
  have dis: "{a ..< a + m} \<inter> free_addrs am' = {}" using A(4) by auto
  note F = am_free_correct [OF sl A(1) m A(8) _ dis]
  have hi: "a + m \<le> am_size am'" using A(5,9) by simp
  have "free_addrs (am_free ops am' a m) = free_addrs am"
    using F(2) [OF hi] A(3,4) by auto
  moreover have "blocks_ok (am_size am) (explicit_list (am_free ops am' a m))"
    and "blocks_ok (am_size am) (explicit_list am)"
    using F(1,3) [OF hi] A(5) inv by (auto simp: am_inv_blocks)
  moreover have "0 < am_size am" using m A(8,9) by simp
  ultimately have "explicit_list (am_free ops am' a m) = explicit_list am"
    unfolding free_addrs_def by (intro blocks_canonical)
  then show ?thesis
    using F(3,4,5) [OF hi] A(5,6,7) by (cases am) (cases "am_free ops am' a m", simp)
qed

lemma am_state_eq:
  assumes "am_inv am" and "am_inv am'" and "free_addrs am = free_addrs am'" and "0 < am_size am"
    and "am_size am = am_size am'" and "am_align am = am_align am'"
    and "total_allocated_size am = total_allocated_size am'"
  shows "am = (am' :: addr_mgr)"
proof -
  have "explicit_list am = explicit_list am'"
    using assms unfolding am_inv_blocks free_addrs_def by (intro blocks_canonical) auto
  with assms show ?thesis by (cases am; cases am') simp
qed

lemma am_free_merge:
  assumes sl: "sl_spec ops" and inv: "am_inv am" and n: "0 < m" "0 < k" "0 \<le> a" "a + m + k \<le> am_size am"
    and dis: "{a ..< a + m + k} \<inter> free_addrs am = {}"
  shows "am_free ops (am_free ops am a m) (a + m) k = am_free ops am a (m + k)"
proof -
  have sub: "{a ..< a + m} \<subseteq> {a ..< a + m + k}" "{a + m ..< a + m + k} \<subseteq> {a ..< a + m + k}"
    "{a ..< a + m} \<inter> {a + m ..< a + m + k} = {}"
    using n by auto
  have d1: "{a ..< a + m} \<inter> free_addrs am = {}" using dis sub(1) by blast
  note F1 = am_free_correct [OF sl inv n(1,3) _ d1]
  have le: "a + m \<le> am_size am" using n by simp
  have d2: "{a + m ..< a + m + k} \<inter> free_addrs (am_free ops am a m) = {}"
    unfolding F1(2) [OF le] using dis sub(2,3) by blast
  have hi: "a + m + k \<le> am_size (am_free ops am a m)" and p2: "0 \<le> a + m"
    using F1(3) [OF le] n by simp_all
  note F2 = am_free_correct [OF sl F1(1) [OF le] n(2) p2 hi d2]
  have d3: "{a ..< a + (m + k)} \<inter> free_addrs am = {}" using dis by (simp add: add.assoc)
  have p3: "0 < m + k" "a + (m + k) \<le> am_size am" using n by simp_all
  note F3 = am_free_correct [OF sl inv p3(1) n(3) p3(2) d3]
  show ?thesis
  proof (rule am_state_eq [OF F2(1) F3(1)])
    show "free_addrs (am_free ops (am_free ops am a m) (a + m) k) = free_addrs (am_free ops am a (m + k))"
      unfolding F2(2) F1(2) [OF le] F3(2) using n by auto
  qed (use F1(3-5) [OF le] F2(3-5) F3(3-5) n in auto)
qed

section \<open>The interface of an address space\<close>

text \<open>
  What the allocators on top rely on: an allocation hands out a non empty region that was
  free, a release gives a region back, and releasing two adjacent regions is releasing their
  union. \<open>live_ok\<close> is the client's view: the regions it holds lie in the space, are
  pairwise disjoint, and together with the free addresses make up the whole space, so nothing
  is handed out twice and nothing leaks.
\<close>

definition span :: "int \<times> int \<Rightarrow> int set" where
  "span r = {fst r ..< fst r + snd r}"

definition live_ok :: "int set \<Rightarrow> int \<Rightarrow> 'i set \<Rightarrow> ('i \<Rightarrow> int \<times> int) \<Rightarrow> bool" where
  "live_ok F hi I reg \<longleftrightarrow>
     (\<forall>i \<in> I. 0 < snd (reg i) \<and> 0 \<le> fst (reg i) \<and> fst (reg i) + snd (reg i) \<le> hi
        \<and> span (reg i) \<inter> F = {}) \<and>
     (\<forall>i \<in> I. \<forall>j \<in> I. i \<noteq> j \<longrightarrow> span (reg i) \<inter> span (reg j) = {}) \<and>
     F \<union> \<Union> ((span \<circ> reg) ` I) = {0 ..< hi}"

locale address_space =
  fixes alloc :: "'s \<Rightarrow> int \<Rightarrow> ('s \<times> int \<times> int) result"
    and release :: "'s \<Rightarrow> int \<Rightarrow> int \<Rightarrow> 's"
    and free_set :: "'s \<Rightarrow> int set"
    and inv :: "'s \<Rightarrow> bool"
    and top_of :: "'s \<Rightarrow> int"
  assumes alloc_inv: "inv s \<Longrightarrow> 0 < n \<Longrightarrow> alloc s n = Inr (s', a, m) \<Longrightarrow> inv s'"
    and alloc_region: "inv s \<Longrightarrow> 0 < n \<Longrightarrow> alloc s n = Inr (s', a, m)
      \<Longrightarrow> n \<le> m \<and> 0 \<le> a \<and> a + m \<le> top_of s \<and> {a ..< a + m} \<subseteq> free_set s"
    and alloc_set: "inv s \<Longrightarrow> 0 < n \<Longrightarrow> alloc s n = Inr (s', a, m)
      \<Longrightarrow> free_set s' = free_set s - {a ..< a + m} \<and> top_of s' = top_of s"
    and release_inv: "inv s \<Longrightarrow> 0 < m \<Longrightarrow> 0 \<le> a \<Longrightarrow> a + m \<le> top_of s \<Longrightarrow> {a ..< a + m} \<inter> free_set s = {}
      \<Longrightarrow> inv (release s a m)"
    and release_set: "inv s \<Longrightarrow> 0 < m \<Longrightarrow> 0 \<le> a \<Longrightarrow> a + m \<le> top_of s \<Longrightarrow> {a ..< a + m} \<inter> free_set s = {}
      \<Longrightarrow> free_set (release s a m) = free_set s \<union> {a ..< a + m} \<and> top_of (release s a m) = top_of s"
    and release_merge: "inv s \<Longrightarrow> 0 < m \<Longrightarrow> 0 < k \<Longrightarrow> 0 \<le> a \<Longrightarrow> a + m + k \<le> top_of s
      \<Longrightarrow> {a ..< a + m + k} \<inter> free_set s = {}
      \<Longrightarrow> release (release s a m) (a + m) k = release s a (m + k)"
begin

lemma alloc_live:
  assumes "inv s" and "0 < n" and "alloc s n = Inr (s', a, m)" and "i \<notin> I"
    and live: "live_ok (free_set s) (top_of s) I reg"
  shows "live_ok (free_set s') (top_of s') (insert i I) (reg(i := (a, m)))"
proof -
  note A = alloc_region [OF assms(1-3)] and S = alloc_set [OF assms(1-3)]
  have "span (reg j) \<inter> {a ..< a + m} = {}" if "j \<in> I" for j
    using live A that unfolding live_ok_def by blast
  moreover have "0 < m" using A assms(2) by simp
  moreover have "((span \<circ> reg(i := (a, m))) ` I) = ((span \<circ> reg) ` I)"
    using assms(4) by (intro image_cong) auto
  ultimately show ?thesis
    using live A S assms(4) unfolding live_ok_def span_def
    by (auto simp: Int_commute)
qed

lemma live_region:
  assumes "live_ok (free_set s) (top_of s) I reg" and "i \<in> I"
  shows "0 < snd (reg i)" and "0 \<le> fst (reg i)" and "fst (reg i) + snd (reg i) \<le> top_of s"
    and "{fst (reg i) ..< fst (reg i) + snd (reg i)} \<inter> free_set s = {}"
  using assms by (auto simp: live_ok_def span_def)

lemma release_live:
  assumes "inv s" and live: "live_ok (free_set s) (top_of s) I reg" and i: "i \<in> I"
  defines "s' \<equiv> release s (fst (reg i)) (snd (reg i))"
  shows "inv s'" and "live_ok (free_set s') (top_of s') (I - {i}) reg"
proof -
  note R = live_region [OF live i]
  show "inv s'" unfolding s'_def using assms(1) R by (rule release_inv)
  have S: "free_set s' = free_set s \<union> span (reg i)" "top_of s' = top_of s"
    using release_set [OF assms(1) R] by (simp_all add: s'_def span_def)
  have "\<Union> ((span \<circ> reg) ` I) = span (reg i) \<union> \<Union> ((span \<circ> reg) ` (I - {i}))"
    using i by auto
  moreover have "span (reg j) \<inter> (free_set s \<union> span (reg i)) = {}" if "j \<in> I - {i}" for j
    using live i that unfolding live_ok_def by blast
  ultimately show "live_ok (free_set s') (top_of s') (I - {i}) reg"
    using live unfolding live_ok_def S by (simp add: Un_assoc)
qed

end

locale memory_env =
  fixes ops :: "'e sl_ops_scheme"
  assumes sl: "sl_spec ops"

sublocale memory_env \<subseteq> space: address_space "am_allocate ops" "am_free ops" free_addrs am_inv am_size
proof unfold_locales
  fix am am' :: addr_mgr and n a m
  assume *: "am_inv am" "0 < n" "am_allocate ops am n = Inr (am', a, m)"
  note A = am_allocate_correct [OF sl *]
  show "am_inv am'" by (rule A(1))
  show "n \<le> m \<and> 0 \<le> a \<and> a + m \<le> am_size am \<and> {a ..< a + m} \<subseteq> free_addrs am"
    using A(2,3,8,9) compute_aligned_size_bounds(1) [OF *(1), of n] by simp
  show "free_addrs am' = free_addrs am - {a ..< a + m} \<and> am_size am' = am_size am"
    using A(4,5) by simp
next
  fix am a m
  assume *: "am_inv am" "0 < m" "0 \<le> a" "a + m \<le> am_size am" "{a ..< a + m} \<inter> free_addrs am = {}"
  note F = am_free_correct [OF sl *]
  show "am_inv (am_free ops am a m)" by (rule F(1))
  show "free_addrs (am_free ops am a m) = free_addrs am \<union> {a ..< a + m} \<and>
      am_size (am_free ops am a m) = am_size am" using F(2,3) by simp
qed (rule am_free_merge [OF sl])

lemma ref_sl_spec: "sl_spec ref_sl_ops"
  unfolding sl_spec_def by (simp add: ref_sl_ops_def ref_sl.sorted_key_list_axioms)

interpretation ref_env: memory_env ref_sl_ops
  by unfold_locales (rule ref_sl_spec)

section \<open>Reachable states\<close>

inductive am_reachable :: "'e sl_ops_scheme \<Rightarrow> addr_mgr \<Rightarrow> (int \<times> int) set \<Rightarrow> bool" for ops where
  start: "0 \<le> n \<Longrightarrow> align = 2 ^ k \<Longrightarrow> am_reachable ops (am_init ops n align) {}"
| alloc: "am_reachable ops am R \<Longrightarrow> 0 < n \<Longrightarrow> am_allocate ops am n = Inr (am', a, m)
    \<Longrightarrow> am_reachable ops am' (insert (a, m) R)"
| free: "am_reachable ops am R \<Longrightarrow> (a, m) \<in> R \<Longrightarrow> am_reachable ops (am_free ops am a m) (R - {(a, m)})"
| sbrk: "am_reachable ops am R \<Longrightarrow> 0 < n \<Longrightarrow> am_reachable ops (am_sbrk ops am n) R"

lemma am_sbrk_live:
  assumes sl: "sl_spec ops" and inv: "am_inv am" and n: "0 < n"
    and live: "live_ok (free_addrs am) (am_size am) I reg"
  shows "live_ok (free_addrs (am_sbrk ops am n)) (am_size (am_sbrk ops am n)) I reg"
proof -
  note S = am_sbrk_correct [OF sl inv n]
  have m: "0 < compute_aligned_size am n" "0 \<le> am_size am"
    using compute_aligned_size_bounds(1) [OF inv, of n] n inv by (simp_all add: am_inv_def)
  have top: "{0 ..< am_size am + compute_aligned_size am n} =
      {0 ..< am_size am} \<union> {am_size am ..< am_size am + compute_aligned_size am n}"
    using m by auto
  have "free_addrs am \<union> \<Union> ((span \<circ> reg) ` I) = {0 ..< am_size am}"
    using live by (simp add: live_ok_def)
  then have "free_addrs am \<union> {am_size am ..< am_size am + compute_aligned_size am n} \<union> \<Union> ((span \<circ> reg) ` I)
      = {0 ..< am_size am + compute_aligned_size am n}"
    unfolding top by blast
  moreover have "span (reg i) \<inter> {am_size am ..< am_size am + compute_aligned_size am n} = {}"
      and "fst (reg i) + snd (reg i) \<le> am_size am + compute_aligned_size am n" if "i \<in> I" for i
    using live that m by (auto simp: live_ok_def span_def)
  ultimately show ?thesis
    using live unfolding live_ok_def S(2,3)
    by (simp add: Int_Un_distrib)
qed

context memory_env
begin

lemma reachable_inv:
  assumes "am_reachable ops am R"
  shows "am_inv am \<and> live_ok (free_addrs am) (am_size am) R (\<lambda>r. r)"
  using assms
proof induction
  case (start n align k)
  then show ?case using am_init_correct [OF sl] by (auto simp: live_ok_def am_init_def)
next
  case (alloc am R n am' a m)
  have inv: "am_inv am" and live: "live_ok (free_addrs am) (am_size am) R (\<lambda>r. r)" using alloc.IH by auto
  note A = space.alloc_inv [OF inv alloc.hyps(2,3)] space.alloc_region [OF inv alloc.hyps(2,3)]
  have "a \<in> free_addrs am" and "a \<in> span (a, m)" using A(2) alloc.hyps(2) by (auto simp: span_def)
  with live have "(a, m) \<notin> R" unfolding live_ok_def by force
  from space.alloc_live [OF inv alloc.hyps(2,3) this live] A(1) show ?case
    by (simp add: fun_upd_idem)
next
  case (free am R a m)
  then show ?case using space.release_live [of am R "\<lambda>r. r" "(a, m)"] by simp
next
  case (sbrk am R n)
  then show ?case using am_sbrk_correct(1) [OF sl] am_sbrk_live [OF sl] by blast
qed

end

lemma sum_sizes_card:
  "blocks_ok hi l \<Longrightarrow> sum_list (map fb_size l) = int (card (addrs_of l)) \<and> finite (addrs_of l)"
proof (induction l)
  case (Cons b l)
  then have IH: "sum_list (map fb_size l) = int (card (addrs_of l))" "finite (addrs_of l)"
    by (auto simp: blocks_ok_simps)
  have "block_addrs b \<inter> addrs_of l = {}"
    using Cons.prems by (fastforce simp: blocks_ok_simps addrs_of_def block_addrs_def)
  moreover have "int (card (block_addrs b)) = fb_size b" "finite (block_addrs b)"
    using Cons.prems by (auto simp: blocks_ok_simps block_addrs_def)
  ultimately show ?case using IH by (simp add: card_Un_disjoint)
qed simp

lemma free_size_card:
  assumes "am_inv am"
  shows "get_free_size am = int (card (free_addrs am))"
  using assms sum_sizes_card [of "am_size am" "explicit_list am"]
  by (auto simp: am_inv_blocks get_free_size_def free_addrs_def)

lemma interval_in_block:
  assumes "blocks_ok hi l" and "{a ..< a + m} \<subseteq> addrs_of l" and "0 < (m::int)"
  shows "\<exists>b \<in> set l. m \<le> fb_size b"
  using assms
proof (induction l)
  case (Cons b l)
  note B = blocks_ok_simps(2) [THEN iffD1, OF Cons.prems(1)]
  show ?case
  proof (cases "{a ..< a + m} \<subseteq> addrs_of l")
    case True
    with Cons B show ?thesis by auto
  next
    case False
    then obtain x where x: "a \<le> x" "x < a + m" "x \<in> block_addrs b"
      using Cons.prems(2) by (auto simp: subset_iff)
    have lo: "c \<in> addrs_of l \<Longrightarrow> fb_start b + fb_size b < c" for c
      using B by (force simp: addrs_of_def block_addrs_def)
    have "fb_start b \<le> a"
    proof (rule ccontr)
      assume "\<not> fb_start b \<le> a"
      moreover have "a \<in> addrs_of (b # l)" using Cons.prems(2,3) by (intro subsetD [OF Cons.prems(2)]) simp
      ultimately show False using lo [of a] B by (auto simp: block_addrs_def)
    qed
    moreover have "a + m \<le> fb_start b + fb_size b"
    proof (rule ccontr)
      assume h: "\<not> a + m \<le> fb_start b + fb_size b"
      then have "fb_start b + fb_size b \<in> addrs_of (b # l)"
        using x by (intro subsetD [OF Cons.prems(2)]) (simp add: block_addrs_def)
      then show False using lo [of "fb_start b + fb_size b"] by (auto simp: block_addrs_def)
    qed
    ultimately show ?thesis by auto
  qed
qed auto

lemma am_free_swap:
  assumes sl: "sl_spec ops" and inv: "am_inv am"
    and r: "0 < m" "0 \<le> a" "a + m \<le> am_size am" "span (a, m) \<inter> free_addrs am = {}"
    and q: "0 < k" "0 \<le> b" "b + k \<le> am_size am" "span (b, k) \<inter> free_addrs am = {}"
    and dis: "span (a, m) \<inter> span (b, k) = {}"
  shows "am_free ops (am_free ops am a m) b k = am_free ops (am_free ops am b k) a m"
proof -
  note F1 = am_free_correct [OF sl inv r(1-3) r(4) [unfolded span_def fst_conv snd_conv]]
  note G1 = am_free_correct [OF sl inv q(1-3) q(4) [unfolded span_def fst_conv snd_conv]]
  have "{b ..< b + k} \<inter> free_addrs (am_free ops am a m) = {}"
    and "{a ..< a + m} \<inter> free_addrs (am_free ops am b k) = {}"
    using q(4) r(4) dis unfolding F1(2) G1(2) span_def by auto
  with am_free_correct [OF sl F1(1) q(1,2)] am_free_correct [OF sl G1(1) r(1,2)]
  have F2: "am_inv (am_free ops (am_free ops am a m) b k)"
    "free_addrs (am_free ops (am_free ops am a m) b k) = free_addrs am \<union> {a ..< a + m} \<union> {b ..< b + k}"
    "am_size (am_free ops (am_free ops am a m) b k) = am_size am"
    "am_align (am_free ops (am_free ops am a m) b k) = am_align am"
    "total_allocated_size (am_free ops (am_free ops am a m) b k) = total_allocated_size am - m - k"
    and G2: "am_inv (am_free ops (am_free ops am b k) a m)"
    "free_addrs (am_free ops (am_free ops am b k) a m) = free_addrs am \<union> {b ..< b + k} \<union> {a ..< a + m}"
    "am_size (am_free ops (am_free ops am b k) a m) = am_size am"
    "am_align (am_free ops (am_free ops am b k) a m) = am_align am"
    "total_allocated_size (am_free ops (am_free ops am b k) a m) = total_allocated_size am - k - m"
    using F1(2-5) G1(2-5) q(3) r(3) by auto
  show ?thesis
    using F2 G2 r by (intro am_state_eq) auto
qed

section \<open>Properties\<close>

text \<open>
  C20: In every state reachable from construction by allocations, releases of regions handed out
  and expansions, the regions handed out are pairwise disjoint and disjoint from the free
  addresses, the two together are exactly the address space, the reported free size is the
  number of free addresses, and \<open>check_consistency\<close> holds.
\<close>

theorem am_regions_never_overlap:
  assumes "sl_spec ops" and "am_reachable ops am R"
  shows "(\<forall>r \<in> R. span r \<inter> free_addrs am = {}) \<and>
    (\<forall>r \<in> R. \<forall>q \<in> R. r \<noteq> q \<longrightarrow> span r \<inter> span q = {}) \<and>
    free_addrs am \<union> \<Union> (span ` R) = {0 ..< get_heap_size am} \<and>
    get_free_size am = int (card (free_addrs am)) \<and> check_consistency am"
  using memory_env.reachable_inv [OF memory_env.intro [OF assms(1)] assms(2)]
  by (simp_all add: live_ok_def comp_def get_heap_size_def free_size_card check_consistency_inv)

theorem am_regions_never_overlap_witness:
  "check_consistency \<lparr>am_size = 8192, am_align = 4096, explicit_list = [mk_block 4096 4096],
     total_allocated_size = 4096\<rparr> \<and> span (0, 4096) \<inter> free_addrs \<lparr>am_size = 8192, am_align = 4096,
     explicit_list = [mk_block 4096 4096], total_allocated_size = 4096\<rparr> = {}"
proof -
  let ?am = "\<lparr>am_size = 8192, am_align = 4096, explicit_list = [mk_block 4096 4096],
     total_allocated_size = 4096\<rparr>"
  have "am_reachable ref_sl_ops (am_init ref_sl_ops 8192 4096) {}"
    by (rule am_reachable.start [where k = 12]) simp_all
  moreover have "am_allocate ref_sl_ops (am_init ref_sl_ops 8192 4096) 10 = Inr (?am, 0, 4096)"
    by (simp add: am_allocate_def am_init_def compute_aligned_size_def ref_sl_ops_def mk_block_def)
  ultimately have "am_reachable ref_sl_ops ?am {(0, 4096)}"
    using am_reachable.alloc [of ref_sl_ops "am_init ref_sl_ops 8192 4096" "{}" 10 ?am 0 4096] by simp
  from am_regions_never_overlap [OF ref_sl_spec this] show ?thesis by simp
qed

text \<open>
  Allocation is complete: it raises \<open>RuntimeError\<close> exactly when no run of free addresses is
  as long as the aligned size of the request, so a request that fits somewhere never fails.
\<close>

theorem am_allocate_fails_iff:
  assumes "am_inv am" and "0 < n"
  shows "am_allocate ops am n = Inl RuntimeError \<longleftrightarrow>
    (\<nexists>a. {a ..< a + compute_aligned_size am n} \<subseteq> free_addrs am)"
proof -
  let ?m = "compute_aligned_size am n"
  have m: "0 < ?m" using compute_aligned_size_bounds(1) [OF assms(1), of n] assms(2) by simp
  have ok: "blocks_ok (am_size am) (explicit_list am)" using assms(1) by (simp add: am_inv_blocks)
  have "am_allocate ops am n = Inl RuntimeError \<longleftrightarrow> (\<forall>b \<in> set (explicit_list am). fb_size b < ?m)"
    by (auto simp: am_allocate_def Let_def find_None_iff not_le split: option.splits)
      (meson find_Some_iff not_le nth_mem)
  moreover have "(\<exists>b \<in> set (explicit_list am). ?m \<le> fb_size b)" if "{a ..< a + ?m} \<subseteq> free_addrs am" for a
    using interval_in_block [OF ok _ m] that by (simp add: free_addrs_def)
  moreover have "\<exists>a. {a ..< a + ?m} \<subseteq> free_addrs am" if "b \<in> set (explicit_list am)" "?m \<le> fb_size b" for b
    using that by (intro exI [of _ "fb_start b"]) (force simp: free_addrs_def addrs_of_def block_addrs_def)
  ultimately show ?thesis by (meson not_le)
qed

theorem am_allocate_fails_iff_witness:
  "am_allocate ref_sl_ops (am_init ref_sl_ops 8192 4096) 8193 = Inl RuntimeError \<longleftrightarrow>
    (\<nexists>a. {a ..< a + compute_aligned_size (am_init ref_sl_ops 8192 4096) 8193}
        \<subseteq> free_addrs (am_init ref_sl_ops 8192 4096))"
  by (rule am_allocate_fails_iff [OF am_init_correct(1) [OF ref_sl_spec, where k = 12]]) simp_all

text \<open>
  Releasing what was just allocated restores the very same state: the block list is
  coalesced back to what it was, whatever block the allocation split.
\<close>

theorem am_allocate_then_free:
  assumes "sl_spec ops" and "am_inv am" and "0 < n" and "am_allocate ops am n = Inr (am', a, m)"
  shows "am_free ops am' a m = am"
  using assms by (rule am_free_allocate)

theorem am_allocate_then_free_witness:
  "am_free ref_sl_ops \<lparr>am_size = 8192, am_align = 4096, explicit_list = [mk_block 4096 4096],
     total_allocated_size = 4096\<rparr> 0 4096 = am_init ref_sl_ops 8192 4096"
proof (rule am_allocate_then_free [OF ref_sl_spec])
  show "am_inv (am_init ref_sl_ops 8192 4096)"
    by (rule am_init_correct [OF ref_sl_spec, where k = 12]) simp_all
  show "am_allocate ref_sl_ops (am_init ref_sl_ops 8192 4096) 10 = Inr
     (\<lparr>am_size = 8192, am_align = 4096, explicit_list = [mk_block 4096 4096],
     total_allocated_size = 4096\<rparr>, 0, 4096)"
    by (simp add: am_allocate_def am_init_def compute_aligned_size_def ref_sl_ops_def mk_block_def)
qed simp

text \<open>
  The order of releases does not matter: two disjoint live regions released in either order
  leave the same state, so the coalesced list never depends on the history of the releases.
\<close>

theorem am_free_commutes:
  assumes "sl_spec ops" and "am_inv am"
    and "0 < m" "0 \<le> a" "a + m \<le> am_size am" "span (a, m) \<inter> free_addrs am = {}"
    and "0 < k" "0 \<le> b" "b + k \<le> am_size am" "span (b, k) \<inter> free_addrs am = {}"
    and "span (a, m) \<inter> span (b, k) = {}"
  shows "am_free ops (am_free ops am a m) b k = am_free ops (am_free ops am b k) a m"
  using assms by (rule am_free_swap)

theorem am_free_commutes_witness:
  "let am = \<lparr>am_size = 8192, am_align = 4096, explicit_list = [], total_allocated_size = 8192\<rparr>
   in am_free ref_sl_ops (am_free ref_sl_ops am 0 4096) 4096 4096
    = am_free ref_sl_ops (am_free ref_sl_ops am 4096 4096) 0 4096"
  unfolding Let_def
  by (rule am_free_commutes [OF ref_sl_spec])
    (auto simp: am_inv_def free_addrs_def span_def intro: exI [of _ 12])

end
