(* ===== verification/TensorAllocator.thy ===== *)
theory TensorAllocator
  imports AddressManager
begin

text \<open>
  \<open>TensorMemoryObj\<close>, \<open>TensorMemoryAllocator\<close> and the shape helpers of
  \<open>v1/memory_management.py\<close>. Memory objects are shared and mutable in the program, so they
  live in a store inside the allocator's state (\<open>t_objs\<close>); a reference to an object is its
  index. \<open>torch\<close> is not part of the repository: the shape and dtype types are type variables,
  \<open>numel\<close>, \<open>itemsize\<close> and \<open>torch.chunk\<close> are parameters in \<open>mem_env\<close>, together with
  the operations of \<open>SortedList\<close>.

  The invariant \<open>talloc_inv\<close> says that the regions of the valid objects are held the way
  \<open>live_ok\<close> demands and that the active counter counts them. The lemmas show that every
  operation keeps it, and that the batched release, which merges adjacent regions first, is
  the same as releasing one object after the other.
\<close>

section \<open>Formats, shapes and objects\<close>

datatype mem_fmt = UNDEFINED | KV_2LTD | KV_T2D | KV_2TD | BINARY | BINARY_BUFFER | KV_MLA_FMT

fun token_dim :: "mem_fmt \<Rightarrow> nat" where
  "token_dim KV_2LTD = 2"
| "token_dim KV_T2D = 1"
| "token_dim KV_2TD = 0"
| "token_dim BINARY = 0"
| "token_dim BINARY_BUFFER = 0"
| "token_dim KV_MLA_FMT = 2"
| "token_dim UNDEFINED = 0"

datatype 'a one_or_many = One 'a | Many "'a list"

record ('s, 'd) mem_obj =
  mo_shape :: 's
  mo_dtype :: 'd
  mo_address :: int
  mo_phy_size :: int
  mo_ref_count :: int
  mo_pin_count :: int
  mo_fmt :: mem_fmt
  mo_shapes :: "'s list"
  mo_dtypes :: "'d list"
  mo_raw :: "int \<times> int"
  mo_valid :: bool
  mo_has_parent :: bool

record ('s, 'd) mem_env = sl_ops +
  numel :: "'s \<Rightarrow> int"
  itemsize :: "'d \<Rightarrow> int"
  torch_chunk :: "int \<Rightarrow> int \<Rightarrow> int \<Rightarrow> (int \<times> int) list"

record ('s, 'd) talloc =
  t_am :: addr_mgr
  t_buffer_len :: int
  t_num_active :: int
  t_objs :: "('s, 'd) mem_obj list"

definition get_size_bytes :: "('s, 'd) mem_env \<Rightarrow> 's list \<Rightarrow> 'd list \<Rightarrow> int result" where
  "get_size_bytes env shapes dtypes =
     (if length shapes = length dtypes
      then Inr (sum_list (map2 (\<lambda>s d. numel env s * itemsize env d) shapes dtypes))
      else Inl AssertionError)"

definition adapt_shapes_and_dtypes ::
    "'s one_or_many \<Rightarrow> 'd one_or_many \<Rightarrow> ('s list \<times> 'd list) result" where
  "adapt_shapes_and_dtypes shapes dtypes =
     (let ss = (case shapes of One s \<Rightarrow> [s] | Many xs \<Rightarrow> xs);
          ds = (case dtypes of One d \<Rightarrow> [d] | Many xs \<Rightarrow> xs)
      in if length ss = length ds then Inr (ss, ds) else Inl AssertionError)"

definition group_prefix_sum :: "('s, 'd) mem_env \<Rightarrow> 's list \<Rightarrow> 'd list \<Rightarrow> int list" where
  "group_prefix_sum env shapes dtypes =
     rev (fold (\<lambda>(s, d) acc. (hd acc + numel env s * itemsize env d) # acc) (zip shapes dtypes) [0])"

definition obj_get_size :: "('s, 'd) mem_env \<Rightarrow> ('s, 'd) mem_obj \<Rightarrow> int" where
  "obj_get_size env obj = last (group_prefix_sum env (mo_shapes obj) (mo_dtypes obj))"

section \<open>TensorMemoryAllocator\<close>

definition t_init :: "('s, 'd) mem_env \<Rightarrow> int \<Rightarrow> int \<Rightarrow> int option \<Rightarrow> ('s, 'd) talloc" where
  "t_init env numel_buffer align_bytes init_address_space =
     \<lparr>t_am = am_init env (case init_address_space of None \<Rightarrow> numel_buffer | Some n \<Rightarrow> n) align_bytes,
      t_buffer_len = numel_buffer, t_num_active = 0, t_objs = []\<rparr>"

definition get_buffer_slice :: "('s, 'd, 'z) talloc_scheme \<Rightarrow> int \<Rightarrow> int \<Rightarrow> int \<times> int" where
  "get_buffer_slice st start n =
     (let lo = min start (t_buffer_len st); hi = min (start + n) (t_buffer_len st)
      in (lo, max 0 (hi - lo)))"

definition mk_obj :: "'s list \<Rightarrow> 'd list \<Rightarrow> int \<Rightarrow> int \<Rightarrow> mem_fmt \<Rightarrow> int \<times> int \<Rightarrow> ('s, 'd) mem_obj" where
  "mk_obj shapes dtypes address phy_size fmt raw =
     \<lparr>mo_shape = hd shapes, mo_dtype = hd dtypes, mo_address = address, mo_phy_size = phy_size,
      mo_ref_count = 1, mo_pin_count = 0, mo_fmt = fmt, mo_shapes = shapes, mo_dtypes = dtypes,
      mo_raw = raw, mo_valid = True, mo_has_parent = True\<rparr>"

definition t_allocate ::
    "('s, 'd) mem_env \<Rightarrow> ('s, 'd, 'z) talloc_scheme \<Rightarrow> 's one_or_many \<Rightarrow> 'd one_or_many \<Rightarrow> mem_fmt
      \<Rightarrow> ('s, 'd, 'z) talloc_scheme \<times> nat option result" where
  "t_allocate env st shapes dtypes fmt =
     (case adapt_shapes_and_dtypes shapes dtypes of
        Inl e \<Rightarrow> (st, Inl e)
      | Inr (ss, ds) \<Rightarrow>
          (case get_size_bytes env ss ds of
             Inl e \<Rightarrow> (st, Inl e)
           | Inr raw_size \<Rightarrow>
               (case am_allocate env (t_am st) raw_size of
                  Inl e \<Rightarrow> (st, if e = RuntimeError then Inr None else Inl e)
                | Inr (am', block_start, aligned_size) \<Rightarrow>
                    let st' = st\<lparr>t_am := am', t_num_active := t_num_active st + 1\<rparr>
                    in if ss = [] then (st', Inl IndexError)
                       else (st'\<lparr>t_objs := t_objs st @
                               [mk_obj ss ds block_start aligned_size fmt
                                  (get_buffer_slice st block_start raw_size)]\<rparr>,
                             Inr (Some (length (t_objs st)))))))"

fun number_chunks ::
    "'s list \<Rightarrow> 'd list \<Rightarrow> mem_fmt \<Rightarrow> int \<Rightarrow> int \<Rightarrow> (int \<times> int) list \<Rightarrow> ('s, 'd) mem_obj list" where
  "number_chunks ss ds fmt unit temp_start [] = []"
| "number_chunks ss ds fmt unit temp_start (raw # raws) =
     mk_obj ss ds temp_start unit fmt raw # number_chunks ss ds fmt unit (temp_start + unit) raws"

definition t_batched_allocate ::
    "('s, 'd) mem_env \<Rightarrow> ('s, 'd, 'z) talloc_scheme \<Rightarrow> 's one_or_many \<Rightarrow> 'd one_or_many \<Rightarrow> int \<Rightarrow> mem_fmt
      \<Rightarrow> ('s, 'd, 'z) talloc_scheme \<times> nat list option result" where
  "t_batched_allocate env st shapes dtypes batch_size fmt =
     (case adapt_shapes_and_dtypes shapes dtypes of
        Inl e \<Rightarrow> (st, Inl e)
      | Inr (ss, ds) \<Rightarrow>
          (case get_size_bytes env ss ds of
             Inl e \<Rightarrow> (st, Inl e)
           | Inr unit_raw_size \<Rightarrow>
               let unit_aligned_size = compute_aligned_size (t_am st) unit_raw_size;
                   total_aligned_size = unit_aligned_size * batch_size
               in (case am_allocate env (t_am st) total_aligned_size of
                     Inl e \<Rightarrow> (st, if e = RuntimeError then Inr None else Inl e)
                   | Inr (am', block_start, _) \<Rightarrow>
                       let st' = st\<lparr>t_am := am', t_num_active := t_num_active st + batch_size\<rparr>;
                           (lo, n) = get_buffer_slice st block_start total_aligned_size;
                           raw_datas = torch_chunk env lo n batch_size
                       in if raw_datas \<noteq> [] \<and> ss = [] then (st', Inl IndexError)
                          else (st'\<lparr>t_objs := t_objs st @
                                  number_chunks ss ds fmt unit_aligned_size block_start raw_datas\<rparr>,
                                Inr (Some [length (t_objs st) ..<
                                           length (t_objs st) + length raw_datas])))))"

definition obj_invalidate :: "('s, 'd) mem_obj \<Rightarrow> ('s, 'd) mem_obj" where
  "obj_invalidate obj = obj\<lparr>mo_valid := False\<rparr>"

definition t_free :: "('s, 'd) mem_env \<Rightarrow> ('s, 'd, 'z) talloc_scheme \<Rightarrow> nat \<Rightarrow> ('s, 'd, 'z) talloc_scheme" where
  "t_free env st i =
     (let obj = t_objs st ! i
      in if \<not> mo_valid obj then st
         else st\<lparr>t_am := am_free env (t_am st) (mo_address obj) (mo_phy_size obj),
                 t_objs := (t_objs st)[i := obj_invalidate obj],
                 t_num_active := t_num_active st - 1\<rparr>)"

fun group_blocks ::
    "('s, 'd) mem_obj list \<Rightarrow> (int \<times> int \<times> int) option \<Rightarrow> (int \<times> int \<times> int) list \<Rightarrow> nat list
      \<Rightarrow> ('s, 'd) mem_obj list \<times> (int \<times> int \<times> int) option \<times> (int \<times> int \<times> int) list" where
  "group_blocks objs cur blocks [] = (objs, cur, blocks)"
| "group_blocks objs cur blocks (i # is) =
     (let obj = objs ! i
      in if \<not> mo_valid obj then group_blocks objs cur blocks is
         else let objs' = objs[i := obj_invalidate obj]
              in (case cur of
                    None \<Rightarrow> group_blocks objs' (Some (mo_address obj, mo_phy_size obj, 1)) blocks is
                  | Some (s, n, c) \<Rightarrow>
                      if s + n = mo_address obj
                      then group_blocks objs' (Some (s, n + mo_phy_size obj, c + 1)) blocks is
                      else group_blocks objs' (Some (mo_address obj, mo_phy_size obj, 1))
                             (blocks @ [(s, n, c)]) is))"

definition t_batched_free ::
    "('s, 'd) mem_env \<Rightarrow> ('s, 'd, 'z) talloc_scheme \<Rightarrow> nat list \<Rightarrow> ('s, 'd, 'z) talloc_scheme" where
  "t_batched_free env st is =
     (let sorted_is = sort_key (\<lambda>i. mo_address (t_objs st ! i)) is;
          (objs', cur, blocks) = group_blocks (t_objs st) None [] sorted_is;
          coalesced_blocks = (case cur of None \<Rightarrow> blocks | Some b \<Rightarrow> blocks @ [b]);
          (am', total_count) = fold (\<lambda>(a, n, c) (am, t). (am_free env am a n, t + c))
                                 coalesced_blocks (t_am st, 0)
      in st\<lparr>t_am := am', t_objs := objs', t_num_active := t_num_active st - total_count\<rparr>)"

definition t_memcheck :: "('s, 'd, 'z) talloc_scheme \<Rightarrow> bool" where
  "t_memcheck st =
     (if get_free_size (t_am st) + total_allocated_size (t_am st) \<noteq> get_heap_size (t_am st) then False
      else check_consistency (t_am st))"

section \<open>Invariant\<close>

definition valid_ids :: "('s, 'd, 'z) talloc_scheme \<Rightarrow> nat set" where
  "valid_ids st = {i. i < length (t_objs st) \<and> mo_valid (t_objs st ! i)}"

definition obj_region :: "('s, 'd, 'z) talloc_scheme \<Rightarrow> nat \<Rightarrow> int \<times> int" where
  "obj_region st i = (mo_address (t_objs st ! i), mo_phy_size (t_objs st ! i))"

definition talloc_inv :: "('s, 'd, 'z) talloc_scheme \<Rightarrow> bool" where
  "talloc_inv st \<longleftrightarrow> am_inv (t_am st) \<and>
     live_ok (free_addrs (t_am st)) (am_size (t_am st)) (valid_ids st) (obj_region st) \<and>
     t_num_active st = int (card (valid_ids st)) \<and> am_size (t_am st) \<le> t_buffer_len st"

definition chunk_spec :: "('s, 'd) mem_env \<Rightarrow> bool" where
  "chunk_spec env \<longleftrightarrow> (\<forall>s u k. 0 < k \<longrightarrow> 0 < u \<longrightarrow>
     torch_chunk env s (u * k) k = map (\<lambda>i. (s + u * i, u)) [0..k - 1])"

lemma finite_valid_ids [simp]: "finite (valid_ids st)"
  by (simp add: valid_ids_def)

lemma live_ok_cong:
  assumes "live_ok F hi I reg" and "\<And>i. i \<in> I \<Longrightarrow> reg i = reg' i"
  shows "live_ok F hi I reg'"
proof -
  have "(span \<circ> reg') ` I = (span \<circ> reg) ` I" using assms(2) by (intro image_cong) auto
  with assms show ?thesis unfolding live_ok_def by (auto simp: assms(2))
qed

lemma t_init_inv:
  assumes "sl_spec env" and "0 \<le> n" and "align = 2 ^ k" and "case init of None \<Rightarrow> True | Some m \<Rightarrow> 0 \<le> m \<and> m \<le> n"
  shows "talloc_inv (t_init env n align init)"
proof -
  define m where "m = (case init of None \<Rightarrow> n | Some m \<Rightarrow> m)"
  have "0 \<le> m" "m \<le> n" using assms by (auto simp: m_def split: option.splits)
  then show ?thesis
    using am_init_correct [OF assms(1), of m align k] assms(3)
    by (auto simp: talloc_inv_def t_init_def m_def [symmetric] live_ok_def valid_ids_def am_init_def)
qed

lemma valid_ids_update_valid:
  "i < length (t_objs st) \<Longrightarrow> valid_ids (st\<lparr>t_objs := (t_objs st)[i := obj_invalidate (t_objs st ! i)]\<rparr>)
     = valid_ids st - {i}"
  by (auto simp: valid_ids_def obj_invalidate_def nth_list_update)

lemma obj_region_update:
  "obj_region (st\<lparr>t_objs := (t_objs st)[i := obj_invalidate (t_objs st ! i)]\<rparr>) = obj_region st"
  by (cases "i < length (t_objs st)")
    (auto simp: obj_region_def obj_invalidate_def nth_list_update fun_eq_iff list_update_beyond)

lemma aligned_fixpoint:
  assumes "am_inv am" and "am_align am dvd n"
  shows "compute_aligned_size am n = n"
proof -
  note B = compute_aligned_size_bounds(1,2,3) [OF assms(1), where n = n]
  have "am_align am dvd compute_aligned_size am n - n" using B(3) assms(2) by (rule dvd_diff)
  moreover have "0 \<le> compute_aligned_size am n - n" "compute_aligned_size am n - n < am_align am" using B by simp_all
  ultimately show ?thesis using zdvd_not_zless [of "compute_aligned_size am n - n" "am_align am"] by linarith
qed

lemma t_am_determined:
  fixes st st' :: "('s, 'd, 'z) talloc_scheme"
  assumes "talloc_inv st" and "talloc_inv st'" and "valid_ids st = valid_ids st'"
    and "\<And>i. i \<in> valid_ids st \<Longrightarrow> obj_region st i = obj_region st' i"
    and "am_size (t_am st) = am_size (t_am st')" and "am_align (t_am st) = am_align (t_am st')"
    and "0 < am_size (t_am st)"
  shows "t_am st = t_am st'" and "t_num_active st = t_num_active st'"
proof -
  have free: "free_addrs (t_am s) = {0 ..< am_size (t_am s)} - \<Union> ((span \<circ> obj_region s) ` valid_ids s)"
    if "talloc_inv s" for s :: "('s, 'd, 'z) talloc_scheme"
    using that unfolding talloc_inv_def live_ok_def by fastforce
  have "(span \<circ> obj_region st) ` valid_ids st = (span \<circ> obj_region st') ` valid_ids st'"
    using assms(3,4) by (intro image_cong) auto
  then have fr: "free_addrs (t_am st) = free_addrs (t_am st')"
    using free [OF assms(1)] free [OF assms(2)] assms(5) by simp
  have am: "am_inv (t_am st)" "am_inv (t_am st')" using assms(1,2) by (simp_all add: talloc_inv_def)
  have "total_allocated_size (t_am st) = total_allocated_size (t_am st')"
    using free_size_card [OF am(1)] free_size_card [OF am(2)] fr assms(5)
    by (simp add: get_free_size_def)
  then show "t_am st = t_am st'"
    using am fr assms(5-7) by (intro am_state_eq) auto
  show "t_num_active st = t_num_active st'" using assms(1-3) by (simp add: talloc_inv_def)
qed

lemma number_chunks_nth:
  "length (number_chunks ss ds fmt u t raws) = length raws"
  "j < length raws \<Longrightarrow> number_chunks ss ds fmt u t raws ! j = mk_obj ss ds (t + u * int j) u fmt (raws ! j)"
  by (induction raws arbitrary: t j) (auto simp: nth_Cons' algebra_simps)

lemma union_units:
  assumes "0 < (u::int)"
  shows "(\<Union>j < k. {a + u * int j ..< a + u * int j + u}) = {a ..< a + u * int k}"
proof (induction k)
  case (Suc k)
  have "{a ..< a + u * int (Suc k)} = {a ..< a + u * int k} \<union> {a + u * int k ..< a + u * int k + u}"
    using assms by (subst ivl_disj_un_two(3)) (simp_all add: algebra_simps)
  with Suc show ?case by (simp add: lessThan_Suc Un_commute)
qed simp

lemma units_disjoint:
  assumes "0 < (u::int)" and "i \<noteq> (j::nat)"
  shows "{a + u * int i ..< a + u * int i + u} \<inter> {a + u * int j ..< a + u * int j + u} = {}"
proof -
  have aux: "u * int i + u \<le> u * int j" if "i < j" for i j
  proof -
    have "u * (int i + 1) \<le> u * int j" using that assms(1) by (intro mult_left_mono) auto
    then show ?thesis by (simp add: algebra_simps)
  qed
  consider "i < j" | "j < i" using assms(2) by linarith
  then show ?thesis using aux [of i j] aux [of j i] by cases auto
qed

lemma live_ok_split:
  assumes live: "live_ok F hi (insert b I) reg" and b: "b \<notin> I" and r: "reg b = (a, u * int k)" and u: "0 < u"
    and J: "\<And>j. j < k \<Longrightarrow> b + j \<notin> I" and reg': "\<And>i. i \<in> I \<Longrightarrow> reg' i = reg i"
      "\<And>j. j < k \<Longrightarrow> reg' (b + j) = (a + u * int j, u)"
  shows "live_ok F hi (I \<union> {b ..< b + k}) reg'"
proof -
  have J': "{b ..< b + k} = (\<lambda>j. b + j) ` {..<k}" by (simp add: lessThan_atLeast0 add.commute)
  have "\<Union> ((span \<circ> reg') ` {b ..< b + k}) = (\<Union>j < k. span (reg' (b + j)))"
    unfolding J' by simp
  also have "\<dots> = (\<Union>j < k. {a + u * int j ..< a + u * int j + u})"
    using reg'(2) by (intro SUP_cong) (simp_all add: span_def)
  finally have un: "\<Union> ((span \<circ> reg') ` {b ..< b + k}) = span (reg b)"
    using union_units [OF u, of a k] by (simp add: span_def r)
  have same: "(span \<circ> reg') ` I = (span \<circ> reg) ` I" using reg'(1) by (intro image_cong) auto
  have B: "0 \<le> a" "a + u * int k \<le> hi" "span (reg b) \<inter> F = {}"
    using live r by (auto simp: live_ok_def)
  have sub: "span (reg' (b + j)) \<subseteq> span (reg b)" if "j < k" for j
    using that UN_upper [of "b + j" "{b ..< b + k}" "span \<circ> reg'"] by (simp add: un [symmetric])
  have I: "i \<in> I \<Longrightarrow> span (reg i) \<inter> span (reg b) = {}" for i
    using live b by (auto simp: live_ok_def simp del: comp_apply)
  have unit: "0 < snd (reg' (b + j)) \<and> 0 \<le> fst (reg' (b + j)) \<and> fst (reg' (b + j)) + snd (reg' (b + j)) \<le> hi
      \<and> span (reg' (b + j)) \<inter> F = {}" if j: "j < k" for j
  proof -
    have "u * (int j + 1) \<le> u * int k" using j u by (intro mult_left_mono) auto
    then have "a + u * int j + u \<le> hi" using B(2) by (simp add: algebra_simps)
    moreover have "span (reg' (b + j)) \<inter> F = {}" using sub [OF j] B(3) by blast
    ultimately show ?thesis using reg'(2) [OF j] u B(1) by simp
  qed
  have pair: "span (reg' (b + i)) \<inter> span (reg' (b + j)) = {}" if "i < k" "j < k" "i \<noteq> j" for i j
    using units_disjoint [OF u that(3), of a] that reg'(2) by (simp add: span_def)
  have mixed: "span (reg' i) \<inter> span (reg' (b + j)) = {}" if "i \<in> I" "j < k" for i j
    using I [OF that(1)] sub [OF that(2)] reg'(1) [OF that(1)] by auto
  have "F \<union> \<Union> ((span \<circ> reg') ` (I \<union> {b ..< b + k})) = F \<union> \<Union> ((span \<circ> reg) ` insert b I)"
    using un same by (simp add: image_Un Un_ac)
  also have "\<dots> = {0 ..< hi}" using live by (simp add: live_ok_def)
  finally have cover: "F \<union> \<Union> ((span \<circ> reg') ` (I \<union> {b ..< b + k})) = {0 ..< hi}" .
  have IJ: "i \<in> I \<or> (\<exists>j < k. i = b + j)" if "i \<in> I \<union> {b ..< b + k}" for i
    using that by (auto simp: J')
  have one: "0 < snd (reg' i) \<and> 0 \<le> fst (reg' i) \<and> fst (reg' i) + snd (reg' i) \<le> hi
        \<and> span (reg' i) \<inter> F = {}" if "i \<in> I \<union> {b ..< b + k}" for i
  proof (cases "i \<in> I")
    case True
    with live reg'(1) show ?thesis by (simp add: live_ok_def)
  next
    case False
    with IJ [OF that] unit show ?thesis by blast
  qed
  have both: "i \<in> I \<Longrightarrow> j \<in> I \<Longrightarrow> i \<noteq> j \<Longrightarrow> span (reg' i) \<inter> span (reg' j) = {}" for i j
    using live reg'(1) by (simp add: live_ok_def)
  have two: "span (reg' i) \<inter> span (reg' j) = {}"
    if "i \<in> I \<union> {b ..< b + k}" "j \<in> I \<union> {b ..< b + k}" "i \<noteq> j" for i j
    using IJ [OF that(1)] IJ [OF that(2)] that(3) both [of i j] pair mixed [of i] mixed [of j]
    by (metis Int_commute)
  show ?thesis unfolding live_ok_def using one two cover by blast
qed

locale tensor_env = memory_env env for env :: "('s, 'd) mem_env" +
  assumes chunk: "chunk_spec env"
begin

lemma t_free_facts:
  assumes inv: "talloc_inv st" and i: "i \<in> valid_ids st"
  shows "talloc_inv (t_free env st i)" and "valid_ids (t_free env st i) = valid_ids st - {i}"
    and "obj_region (t_free env st i) = obj_region st"
    and "t_buffer_len (t_free env st i) = t_buffer_len st"
    and "length (t_objs (t_free env st i)) = length (t_objs st)"
proof -
  let ?r = "obj_region st i"
  have v: "mo_valid (t_objs st ! i)" and len: "i < length (t_objs st)" using i by (auto simp: valid_ids_def)
  have f: "t_free env st i = st\<lparr>t_am := am_free env (t_am st) (fst ?r) (snd ?r),
      t_objs := (t_objs st)[i := obj_invalidate (t_objs st ! i)], t_num_active := t_num_active st - 1\<rparr>"
    using v by (simp add: t_free_def Let_def obj_region_def)
  show vi: "valid_ids (t_free env st i) = valid_ids st - {i}"
    using valid_ids_update_valid [OF len] by (simp add: f valid_ids_def)
  show re: "obj_region (t_free env st i) = obj_region st"
    using obj_region_update [of st i] by (simp add: f obj_region_def fun_eq_iff)
  show "t_buffer_len (t_free env st i) = t_buffer_len st"
    and "length (t_objs (t_free env st i)) = length (t_objs st)" by (simp_all add: f)
  from inv have am: "am_inv (t_am st)"
    and live: "live_ok (free_addrs (t_am st)) (am_size (t_am st)) (valid_ids st) (obj_region st)"
    and num: "t_num_active st = int (card (valid_ids st))" and buf: "am_size (t_am st) \<le> t_buffer_len st"
    by (simp_all add: talloc_inv_def)
  note R = space.release_live [OF am live i]
  have "am_size (am_free env (t_am st) (fst ?r) (snd ?r)) = am_size (t_am st)"
    using space.live_region [OF live i] am by (intro am_free_correct(3) [OF sl])
  moreover have "int (card (valid_ids st - {i})) = int (card (valid_ids st)) - 1"
    using card_Suc_Diff1 [OF finite_valid_ids i] by linarith
  ultimately show "talloc_inv (t_free env st i)"
    using R num buf unfolding talloc_inv_def vi re by (simp add: f)
qed

lemma t_free_invalid: "\<not> mo_valid (t_objs st ! i) \<Longrightarrow> t_free env st i = st"
  by (simp add: t_free_def)

lemma t_free_length: "length (t_objs (t_free env st i)) = length (t_objs st)"
  by (simp add: t_free_def Let_def)

lemma t_free_inv:
  assumes "talloc_inv st" and "i < length (t_objs st)"
  shows "talloc_inv (t_free env st i)"
proof (cases "mo_valid (t_objs st ! i)")
  case True
  with assms show ?thesis by (intro t_free_facts(1)) (auto simp: valid_ids_def)
qed (simp add: t_free_invalid assms)

lemma t_free_other:
  "j \<noteq> i \<Longrightarrow> t_objs (t_free env st i) ! j = t_objs st ! j"
  by (simp add: t_free_def Let_def)

lemma t_free_keeps_invalid:
  "\<not> mo_valid (t_objs st ! i) \<Longrightarrow> \<not> mo_valid (t_objs (t_free env st j) ! i)"
  by (cases "i = j") (simp_all add: t_free_invalid t_free_other)

lemma t_free_commutes:
  assumes inv: "talloc_inv st" and i: "i < length (t_objs st)" and j: "j < length (t_objs st)"
  shows "t_free env (t_free env st i) j = t_free env (t_free env st j) i"
proof (cases "i = j \<or> \<not> mo_valid (t_objs st ! i) \<or> \<not> mo_valid (t_objs st ! j)")
  case True
  then show ?thesis
    by (auto simp: t_free_invalid t_free_keeps_invalid)
next
  case False
  then have ne: "i \<noteq> j" and vi: "i \<in> valid_ids st" and vj: "j \<in> valid_ids st"
    using i j by (auto simp: valid_ids_def)
  let ?a = "t_objs st ! i" and ?b = "t_objs st ! j"
  from inv have am: "am_inv (t_am st)"
    and live: "live_ok (free_addrs (t_am st)) (am_size (t_am st)) (valid_ids st) (obj_region st)"
    by (simp_all add: talloc_inv_def)
  note A = space.live_region [OF live vi] and B = space.live_region [OF live vj]
  have dis: "span (obj_region st i) \<inter> span (obj_region st j) = {}"
    using live vi vj ne unfolding live_ok_def by blast
  have "am_free env (am_free env (t_am st) (mo_address ?a) (mo_phy_size ?a)) (mo_address ?b) (mo_phy_size ?b)
      = am_free env (am_free env (t_am st) (mo_address ?b) (mo_phy_size ?b)) (mo_address ?a) (mo_phy_size ?a)"
    using A B dis by (intro am_free_swap [OF sl am]) (simp_all add: obj_region_def span_def)
  with ne vi vj show ?thesis
    by (simp add: t_free_def Let_def valid_ids_def list_update_swap)
qed

lemma t_allocate_facts:
  assumes inv: "talloc_inv st" and raw: "get_size_bytes env ss ds = Inr raw" "0 < raw"
    and r: "t_allocate env st shapes dtypes fmt = (st', Inr (Some i))"
    and ad: "adapt_shapes_and_dtypes shapes dtypes = Inr (ss, ds)"
  shows "talloc_inv st'" and "i = length (t_objs st)" and "valid_ids st' = insert i (valid_ids st)"
    and "\<And>j. j < i \<Longrightarrow> t_objs st' ! j = t_objs st ! j"
    and "t_objs st' ! i = mk_obj ss ds (mo_address (t_objs st' ! i))
           (compute_aligned_size (t_am st) raw) fmt (mo_address (t_objs st' ! i), raw)"
    and "length (t_objs st') = Suc i"
proof -
  obtain am' a m where al: "am_allocate env (t_am st) raw = Inr (am', a, m)"
    using r raw(1) ad by (auto simp: t_allocate_def split: sum.splits if_splits)
  from inv have am: "am_inv (t_am st)"
    and live: "live_ok (free_addrs (t_am st)) (am_size (t_am st)) (valid_ids st) (obj_region st)"
    and num: "t_num_active st = int (card (valid_ids st))" and buf: "am_size (t_am st) \<le> t_buffer_len st"
    by (simp_all add: talloc_inv_def)
  note A = am_allocate_correct [OF sl am raw(2) al]
  have m: "raw \<le> m" using compute_aligned_size_bounds(1) [OF am, of raw] A(2) by simp
  have slice: "get_buffer_slice st a raw = (a, raw)"
    using A(8,9) m raw(2) buf by (auto simp: get_buffer_slice_def Let_def min_def)
  have st': "st' = st\<lparr>t_am := am', t_num_active := t_num_active st + 1,
      t_objs := t_objs st @ [mk_obj ss ds a m fmt (a, raw)]\<rparr>" and i: "i = length (t_objs st)"
    using r raw(1) ad al slice by (auto simp: t_allocate_def Let_def split: if_splits)
  show "i = length (t_objs st)" by (rule i)
  show vi: "valid_ids st' = insert i (valid_ids st)"
    by (auto simp: st' i valid_ids_def nth_append mk_obj_def)
  show "\<And>j. j < i \<Longrightarrow> t_objs st' ! j = t_objs st ! j" by (simp add: st' i nth_append)
  show "length (t_objs st') = Suc i" by (simp add: st' i)
  have last: "t_objs st' ! i = mk_obj ss ds a m fmt (a, raw)" by (simp add: st' i)
  then show "t_objs st' ! i = mk_obj ss ds (mo_address (t_objs st' ! i))
           (compute_aligned_size (t_am st) raw) fmt (mo_address (t_objs st' ! i), raw)"
    using A(2) by (simp add: mk_obj_def)
  have ni: "i \<notin> valid_ids st" by (simp add: i valid_ids_def)
  note L = space.alloc_live [OF am raw(2) al ni live]
  have "live_ok (free_addrs am') (am_size am') (valid_ids st') (obj_region st')"
    unfolding vi
    by (rule live_ok_cong [OF L]) (auto simp: obj_region_def st' i mk_obj_def nth_append valid_ids_def)
  then show "talloc_inv st'"
    using A(1,5) num buf ni by (simp add: talloc_inv_def vi) (simp add: st')
qed

definition flush_block :: "addr_mgr \<Rightarrow> (int \<times> int \<times> int) option \<Rightarrow> addr_mgr" where
  "flush_block X cur = (case cur of None \<Rightarrow> X | Some (s, n, c) \<Rightarrow> am_free env X s n)"

definition flush_blocks :: "addr_mgr \<Rightarrow> (int \<times> int \<times> int) list \<Rightarrow> addr_mgr" where
  "flush_blocks am blocks = fold (\<lambda>(a, n, c) am. am_free env am a n) blocks am"

definition blocks_count :: "(int \<times> int \<times> int) option \<Rightarrow> (int \<times> int \<times> int) list \<Rightarrow> int" where
  "blocks_count cur blocks = sum_list (map (snd \<circ> snd) blocks) + (case cur of None \<Rightarrow> 0 | Some (s, n, c) \<Rightarrow> c)"

definition block_ready :: "addr_mgr \<Rightarrow> (int \<times> int \<times> int) option \<Rightarrow> bool" where
  "block_ready X cur = (case cur of None \<Rightarrow> True
     | Some (s, n, c) \<Rightarrow> am_inv X \<and> 0 < n \<and> 0 \<le> s \<and> s + n \<le> am_size X \<and> {s ..< s + n} \<inter> free_addrs X = {})"

lemma flush_blocks_snoc: "flush_blocks am (blocks @ [(s, n, c)]) = am_free env (flush_blocks am blocks) s n"
  by (simp add: flush_blocks_def)

lemma t_free_fold_ex:
  "\<exists>am objs n. fold (\<lambda>i st. t_free env st i) is st = st\<lparr>t_am := am, t_objs := objs, t_num_active := n\<rparr>"
proof (induction "is" arbitrary: st)
  case Nil
  have "st = st\<lparr>t_am := t_am st, t_objs := t_objs st, t_num_active := t_num_active st\<rparr>" by simp
  then show ?case by (metis fold_simps(1))
next
  case (Cons i "is")
  have "t_free env st i = st\<lparr>t_am := t_am (t_free env st i), t_objs := t_objs (t_free env st i),
      t_num_active := t_num_active (t_free env st i)\<rparr>"
    by (simp add: t_free_def Let_def)
  then obtain am objs n where "t_free env st i = st\<lparr>t_am := am, t_objs := objs, t_num_active := n\<rparr>"
    by blast
  with Cons.IH [of "t_free env st i"] show ?case by auto
qed

lemma t_free_fold_form:
  "fold (\<lambda>i st. t_free env st i) is st =
     st\<lparr>t_am := t_am (fold (\<lambda>i st. t_free env st i) is st),
        t_objs := t_objs (fold (\<lambda>i st. t_free env st i) is st),
        t_num_active := t_num_active (fold (\<lambda>i st. t_free env st i) is st)\<rparr>"
proof -
  obtain am objs n where "fold (\<lambda>i st. t_free env st i) is st = st\<lparr>t_am := am, t_objs := objs, t_num_active := n\<rparr>"
    using t_free_fold_ex by blast
  then show ?thesis by simp
qed

lemma group_blocks_seq:
  assumes "talloc_inv st" and "set is \<subseteq> {..<length (t_objs st)}"
    and "block_ready (flush_blocks am blocks) cur" and "t_am st = flush_block (flush_blocks am blocks) cur"
    and "t_num_active st = N - blocks_count cur blocks"
    and "group_blocks (t_objs st) cur blocks is = (objs', cur', blocks')"
  shows "t_objs (fold (\<lambda>i st. t_free env st i) is st) = objs' \<and>
    t_am (fold (\<lambda>i st. t_free env st i) is st) = flush_block (flush_blocks am blocks') cur' \<and>
    t_num_active (fold (\<lambda>i st. t_free env st i) is st) = N - blocks_count cur' blocks'"
  using assms
proof (induction "is" arbitrary: st cur blocks)
  case Nil
  then show ?case by (simp add: Let_def)
next
  case (Cons i "is")
  let ?X = "flush_blocks am blocks" and ?o = "t_objs st ! i"
  have i: "i < length (t_objs st)" using Cons.prems(2) by simp
  show ?case
  proof (cases "mo_valid ?o")
    case False
    with Cons show ?thesis by (simp add: t_free_invalid Let_def)
  next
    case True
    then have vi: "i \<in> valid_ids st" using i by (simp add: valid_ids_def)
    note F = t_free_facts [OF Cons.prems(1) vi]
    have live: "live_ok (free_addrs (t_am st)) (am_size (t_am st)) (valid_ids st) (obj_region st)"
      and am: "am_inv (t_am st)" using Cons.prems(1) by (simp_all add: talloc_inv_def)
    note R = space.live_region [OF live vi, unfolded obj_region_def fst_conv snd_conv]
    have t: "t_am (t_free env st i) = am_free env (t_am st) (mo_address ?o) (mo_phy_size ?o)"
      "t_objs (t_free env st i) = (t_objs st)[i := obj_invalidate ?o]"
      "t_num_active (t_free env st i) = t_num_active st - 1"
      using True by (simp_all add: t_free_def Let_def)
    have sub: "set is \<subseteq> {..<length (t_objs (t_free env st i))}" using Cons.prems(2) F(5) by simp
    note IH = Cons.IH [OF F(1) sub]
    have fresh: "block_ready (t_am st) (Some (mo_address ?o, mo_phy_size ?o, 1))"
      using am R by (simp add: block_ready_def)
    show ?thesis
    proof (cases cur)
      case None
      then have "t_am st = ?X" using Cons.prems(4) by (simp add: flush_block_def)
      moreover have "group_blocks (t_objs (t_free env st i)) (Some (mo_address ?o, mo_phy_size ?o, 1)) blocks is
          = (objs', cur', blocks')"
        using Cons.prems(6) True None t(2) by (simp add: Let_def)
      ultimately show ?thesis
        using IH [of blocks "Some (mo_address ?o, mo_phy_size ?o, 1)"] fresh t(1,3) None Cons.prems(5)
        by (simp add: flush_block_def blocks_count_def)
    next
      case (Some b)
      obtain s n c where b: "b = (s, n, c)" by (cases b)
      have tam: "t_am st = am_free env ?X s n"
        using Cons.prems(4) Some b by (simp add: flush_block_def)
      have rdy: "am_inv ?X" "0 < n" "0 \<le> s" "s + n \<le> am_size ?X" "{s ..< s + n} \<inter> free_addrs ?X = {}"
        using Cons.prems(3) Some b by (simp_all add: block_ready_def)
      note G = am_free_correct [OF sl rdy]
      show ?thesis
      proof (cases "s + n = mo_address ?o")
        case adj: True
        have d: "{s ..< s + n + mo_phy_size ?o} \<inter> free_addrs ?X = {}"
        proof -
          have "{s + n ..< s + n + mo_phy_size ?o} \<inter> free_addrs ?X = {}"
            using R(4) unfolding tam G(2) adj by blast
          moreover have "{s ..< s + n + mo_phy_size ?o} = {s ..< s + n} \<union> {s + n ..< s + n + mo_phy_size ?o}"
            using rdy(2) R(1) by auto
          ultimately show ?thesis using rdy(5) by auto
        qed
        have hi: "s + n + mo_phy_size ?o \<le> am_size ?X" using R(3) G(3) tam adj by simp
        have "block_ready ?X (Some (s, n + mo_phy_size ?o, c + 1))"
          using rdy R(1) d hi by (simp add: block_ready_def add.assoc)
        moreover have "am_free env (t_am st) (mo_address ?o) (mo_phy_size ?o) = am_free env ?X s (n + mo_phy_size ?o)"
          using space.release_merge [OF rdy(1,2) R(1) rdy(3) hi d] tam adj by simp
        moreover have "group_blocks (t_objs (t_free env st i)) (Some (s, n + mo_phy_size ?o, c + 1)) blocks is
            = (objs', cur', blocks')"
          using Cons.prems(6) True Some b adj t(2) by (simp add: Let_def)
        ultimately show ?thesis
          using IH [of blocks "Some (s, n + mo_phy_size ?o, c + 1)"] t(1,3) Some b Cons.prems(5)
          by (simp add: flush_block_def blocks_count_def algebra_simps)
      next
        case False
        have "group_blocks (t_objs (t_free env st i)) (Some (mo_address ?o, mo_phy_size ?o, 1))
            (blocks @ [(s, n, c)]) is = (objs', cur', blocks')"
          using Cons.prems(6) True Some b False t(2) by (simp add: Let_def)
        then show ?thesis
          using IH [of "blocks @ [(s, n, c)]" "Some (mo_address ?o, mo_phy_size ?o, 1)"]
            fresh t(1,3) Some b Cons.prems(5) tam
          by (simp add: flush_block_def blocks_count_def flush_blocks_snoc algebra_simps)
      qed
    qed
  qed
qed

lemma t_free_fold_inv:
  "talloc_inv st \<Longrightarrow> set is \<subseteq> {..<length (t_objs st)}
   \<Longrightarrow> talloc_inv (fold (\<lambda>i st. t_free env st i) is st)
       \<and> length (t_objs (fold (\<lambda>i st. t_free env st i) is st)) = length (t_objs st)"
proof (induction "is" arbitrary: st)
  case (Cons i "is")
  have "length (t_objs (t_free env st i)) = length (t_objs st)" by (simp add: t_free_def Let_def)
  with Cons t_free_inv [of st i] show ?case by simp
qed simp

lemma fold_release_pair:
  "fold (\<lambda>(a, n, c) (am, t). (am_free env am a n, t + c)) bs (am, t)
   = (flush_blocks am bs, t + sum_list (map (snd \<circ> snd) bs))"
  by (induction bs arbitrary: am t) (auto simp: flush_blocks_def)

lemma t_batched_free_seq:
  fixes st :: "('s, 'd, 'z) talloc_scheme"
  assumes inv: "talloc_inv st" and sub: "set is \<subseteq> {..<length (t_objs st)}"
  shows "t_batched_free env st is = fold (\<lambda>i st. t_free env st i) is st"
proof -
  let ?js = "sort_key (\<lambda>i. mo_address (t_objs st ! i)) is"
  obtain objs' cur' blocks' where gb: "group_blocks (t_objs st) None [] ?js = (objs', cur', blocks')"
    using prod_cases3 by blast
  let ?st' = "fold (\<lambda>i st. t_free env st i) ?js st"
  have "t_objs ?st' = objs' \<and> t_am ?st' = flush_block (flush_blocks (t_am st) blocks') cur' \<and>
       t_num_active ?st' = t_num_active st - blocks_count cur' blocks'"
    using group_blocks_seq [OF inv _ _ _ _ gb, of "t_am st" "t_num_active st"] sub
    by (simp add: Let_def block_ready_def flush_block_def flush_blocks_def blocks_count_def)
  then have "t_batched_free env st is = ?st'"
    using t_free_fold_form [of ?js st] gb
    by (simp add: t_batched_free_def Let_def fold_release_pair flush_block_def blocks_count_def
        flush_blocks_snoc split: option.splits prod.splits)
  also have "?st' = fold (\<lambda>i st. t_free env st i) is st"
  proof (rule fold_permuted_eq [where P = "\<lambda>s. talloc_inv s \<and> length (t_objs s) = length (t_objs st)"])
    fix x and z :: "('s, 'd, 'z) talloc_scheme"
    assume "x \<in> set ?js" "talloc_inv z \<and> length (t_objs z) = length (t_objs st)"
    with sub show "talloc_inv (t_free env z x) \<and> length (t_objs (t_free env z x)) = length (t_objs st)"
      using t_free_inv [of z x] by (auto simp: t_free_length)
  next
    fix x y and z :: "('s, 'd, 'z) talloc_scheme"
    assume "x \<in> set ?js" "y \<in> set ?js" "talloc_inv z \<and> length (t_objs z) = length (t_objs st)"
    with sub show "t_free env (t_free env z y) x = t_free env (t_free env z x) y"
      by (intro t_free_commutes) auto
  qed (use inv in simp_all)
  finally show ?thesis .
qed

lemma t_batched_allocate_facts:
  assumes inv: "talloc_inv st" and raw: "get_size_bytes env ss ds = Inr raw" "0 < raw" and k: "0 < k"
    and r: "t_batched_allocate env st shapes dtypes k fmt = (st', Inr (Some is))"
    and ad: "adapt_shapes_and_dtypes shapes dtypes = Inr (ss, ds)"
  shows "talloc_inv st'" and "is = [length (t_objs st) ..< length (t_objs st) + nat k]"
    and "valid_ids st' = valid_ids st \<union> set is"
    and "\<And>j. j < length (t_objs st) \<Longrightarrow> t_objs st' ! j = t_objs st ! j"
    and "\<exists>a. am_allocate env (t_am st) (compute_aligned_size (t_am st) raw * k)
              = Inr (t_am st', a, compute_aligned_size (t_am st) raw * k) \<and>
            (\<forall>j < nat k. t_objs st' ! (length (t_objs st) + j) = (let u = compute_aligned_size (t_am st) raw
               in mk_obj ss ds (a + u * int j) u fmt (a + u * int j, u)))"
    and "length (t_objs st') = length (t_objs st) + nat k"
    and "t_am st' = t_am st \<or> am_size (t_am st') = am_size (t_am st) \<and> am_align (t_am st') = am_align (t_am st)"
proof -
  let ?u = "compute_aligned_size (t_am st) raw" and ?b = "length (t_objs st)"
  from inv have am: "am_inv (t_am st)"
    and live: "live_ok (free_addrs (t_am st)) (am_size (t_am st)) (valid_ids st) (obj_region st)"
    and num: "t_num_active st = int (card (valid_ids st))" and buf: "am_size (t_am st) \<le> t_buffer_len st"
    by (simp_all add: talloc_inv_def)
  have u: "0 < ?u" using compute_aligned_size_bounds(1) [OF am, of raw] raw(2) by simp
  have al_fix: "compute_aligned_size (t_am st) (?u * k) = ?u * k"
    using compute_aligned_size_bounds(3) [OF am, of raw] by (intro aligned_fixpoint [OF am]) simp
  have uk: "0 < ?u * k" using u k by simp
  obtain am' a m where al: "am_allocate env (t_am st) (?u * k) = Inr (am', a, m)"
    using r raw(1) ad by (auto simp: t_batched_allocate_def Let_def split: sum.splits if_splits)
  note A = am_allocate_correct [OF sl am uk al]
  have m: "m = ?u * k" using A(2) al_fix by simp
  have slice: "get_buffer_slice st a (?u * k) = (a, ?u * k)"
    using A(8,9) m uk buf by (auto simp: get_buffer_slice_def Let_def min_def)
  have ch: "torch_chunk env a (?u * k) k = map (\<lambda>i. (a + ?u * i, ?u)) [0..k - 1]"
    using chunk u k by (simp add: chunk_spec_def)
  have st': "st' = st\<lparr>t_am := am', t_num_active := t_num_active st + k, t_objs := t_objs st @
      number_chunks ss ds fmt ?u a (map (\<lambda>i. (a + ?u * i, ?u)) [0..k - 1])\<rparr>"
    and "is = [?b ..< ?b + length [0..k - 1]]"
    using r raw(1) ad al slice ch by (auto simp: t_batched_allocate_def Let_def split: if_splits)
  then show is_eq: "is = [?b ..< ?b + nat k]" by simp
  show len: "length (t_objs st') = ?b + nat k" by (simp add: st' number_chunks_nth(1))
  show old: "\<And>j. j < ?b \<Longrightarrow> t_objs st' ! j = t_objs st ! j" by (simp add: st' nth_append)
  have new: "t_objs st' ! (?b + j) = mk_obj ss ds (a + ?u * int j) ?u fmt (a + ?u * int j, ?u)" if "j < nat k" for j
    using that by (simp add: st' nth_append number_chunks_nth)
  then show "\<exists>a. am_allocate env (t_am st) (?u * k) = Inr (t_am st', a, ?u * k) \<and>
            (\<forall>j < nat k. t_objs st' ! (?b + j) = (let u = ?u in mk_obj ss ds (a + u * int j) u fmt (a + u * int j, u)))"
    using al m st' by (intro exI [of _ a]) (simp add: Let_def)
  have old_iff: "i \<in> valid_ids st' \<longleftrightarrow> i \<in> valid_ids st" if "i < ?b" for i
    using that old len by (simp add: valid_ids_def)
  have new_iff: "i \<in> valid_ids st' \<longleftrightarrow> i < ?b + nat k" if "?b \<le> i" for i
    using that new [of "i - ?b"] len by (auto simp: valid_ids_def mk_obj_def)
  show vi: "valid_ids st' = valid_ids st \<union> set is"
  proof (rule set_eqI)
    fix i show "i \<in> valid_ids st' \<longleftrightarrow> i \<in> valid_ids st \<union> set is"
      using old_iff [of i] new_iff [of i] is_eq by (cases "i < ?b") (auto simp: valid_ids_def)
  qed
  have bn: "?b \<notin> valid_ids st" by (simp add: valid_ids_def)
  have kn: "int (nat k) = k" using k by simp
  note L = space.alloc_live [OF am uk al bn live]
  have "live_ok (free_addrs am') (am_size am') (valid_ids st \<union> {?b ..< ?b + nat k}) (obj_region st')"
  proof (rule live_ok_split [OF L bn _ u])
    show "((obj_region st)(?b := (a, m))) ?b = (a, ?u * int (nat k))" using m kn by simp
    show "?b + j \<notin> valid_ids st" for j by (simp add: valid_ids_def)
    show "obj_region st' i = ((obj_region st)(?b := (a, m))) i" if "i \<in> valid_ids st" for i
      using that old by (simp add: obj_region_def valid_ids_def)
    show "obj_region st' (?b + j) = (a + ?u * int j, ?u)" if "j < nat k" for j
      using new [OF that] by (simp add: obj_region_def mk_obj_def)
  qed
  then have "live_ok (free_addrs am') (am_size am') (valid_ids st') (obj_region st')"
    using vi is_eq by simp
  moreover have "int (card (valid_ids st')) = int (card (valid_ids st)) + k"
    unfolding vi is_eq using kn by (subst card_Un_disjoint) (auto simp: valid_ids_def)
  ultimately show "talloc_inv st'"
    using A(1,5) num buf by (simp add: talloc_inv_def) (simp add: st')
  show "t_am st' = t_am st \<or> am_size (t_am st') = am_size (t_am st) \<and> am_align (t_am st') = am_align (t_am st)"
    using A(5,6) by (simp add: st')
qed

lemma t_memcheck_inv:
  assumes "talloc_inv st"
  shows "t_memcheck st"
  using assms check_consistency_inv by (simp add: t_memcheck_def talloc_inv_def get_free_size_def get_heap_size_def)

lemma t_free_all_facts:
  assumes inv: "talloc_inv st" and i: "i < length (t_objs st)"
  shows "talloc_inv (t_free env st i)" and "valid_ids (t_free env st i) = valid_ids st - {i}"
    and "obj_region (t_free env st i) = obj_region st"
    and "am_size (t_am (t_free env st i)) = am_size (t_am st)"
    and "am_align (t_am (t_free env st i)) = am_align (t_am st)"
proof -
  have "talloc_inv (t_free env st i) \<and> valid_ids (t_free env st i) = valid_ids st - {i} \<and>
      obj_region (t_free env st i) = obj_region st \<and> am_size (t_am (t_free env st i)) = am_size (t_am st) \<and>
      am_align (t_am (t_free env st i)) = am_align (t_am st)"
  proof (cases "mo_valid (t_objs st ! i)")
    case True
    then have vi: "i \<in> valid_ids st" using i by (simp add: valid_ids_def)
    from inv have am: "am_inv (t_am st)"
      and live: "live_ok (free_addrs (t_am st)) (am_size (t_am st)) (valid_ids st) (obj_region st)"
      by (simp_all add: talloc_inv_def)
    note R = space.live_region [OF live vi, unfolded obj_region_def fst_conv snd_conv]
    show ?thesis
      using t_free_facts [OF inv vi] am_free_correct(3,4) [OF sl am R] True by (simp add: t_free_def Let_def)
  next
    case False
    with inv show ?thesis by (simp add: t_free_invalid valid_ids_def)
  qed
  then show "talloc_inv (t_free env st i)" and "valid_ids (t_free env st i) = valid_ids st - {i}"
    and "obj_region (t_free env st i) = obj_region st"
    and "am_size (t_am (t_free env st i)) = am_size (t_am st)"
    and "am_align (t_am (t_free env st i)) = am_align (t_am st)" by simp_all
qed

lemma t_free_fold_facts:
  assumes "talloc_inv st" and "set is \<subseteq> {..<length (t_objs st)}"
  shows "talloc_inv (fold (\<lambda>i st. t_free env st i) is st) \<and>
    valid_ids (fold (\<lambda>i st. t_free env st i) is st) = valid_ids st - set is \<and>
    obj_region (fold (\<lambda>i st. t_free env st i) is st) = obj_region st \<and>
    am_size (t_am (fold (\<lambda>i st. t_free env st i) is st)) = am_size (t_am st) \<and>
    am_align (t_am (fold (\<lambda>i st. t_free env st i) is st)) = am_align (t_am st)"
  using assms
proof (induction "is" arbitrary: st)
  case (Cons i "is")
  then have i: "i < length (t_objs st)" by simp
  note F = t_free_all_facts [OF Cons.prems(1) i]
  have "set is \<subseteq> {..<length (t_objs (t_free env st i))}" using Cons.prems(2) by (simp add: t_free_length)
  from Cons.IH [OF F(1) this] F show ?case by auto
qed simp

lemma batched_round_trip:
  fixes st st' :: "('s, 'd, 'z) talloc_scheme"
  assumes inv: "talloc_inv st" and raw: "get_size_bytes env ss ds = Inr raw" "0 < raw" and k: "0 < k"
    and r: "t_batched_allocate env st shapes dtypes k fmt = (st', Inr (Some is))"
    and ad: "adapt_shapes_and_dtypes shapes dtypes = Inr (ss, ds)"
  shows "t_am (t_batched_free env st' is) = t_am st"
    and "t_num_active (t_batched_free env st' is) = t_num_active st"
    and "\<forall>i \<in> set is. \<forall>j \<in> valid_ids st'. i \<noteq> j \<longrightarrow> span (obj_region st' i) \<inter> span (obj_region st' j) = {}"
proof -
  note A = t_batched_allocate_facts [OF assms]
  have sub: "set is \<subseteq> {..<length (t_objs st')}" using A(2,6) by auto
  note S = t_batched_free_seq [OF A(1) sub] and F = t_free_fold_facts [OF A(1) sub]
  have dis: "valid_ids st \<inter> set is = {}" using A(2) by (auto simp: valid_ids_def)
  let ?e = "t_batched_free env st' is"
  have e: "talloc_inv ?e" "valid_ids ?e = valid_ids st" "obj_region ?e = obj_region st'"
    "am_size (t_am ?e) = am_size (t_am st)" "am_align (t_am ?e) = am_align (t_am st)"
    using F A(3,7) dis unfolding S by auto
  have reg: "obj_region ?e i = obj_region st i" if "i \<in> valid_ids st" for i
    using that A(4) [of i] unfolding e(3) by (simp add: obj_region_def valid_ids_def)
  have am: "am_inv (t_am st)" using inv by (simp add: talloc_inv_def)
  obtain a where "am_allocate env (t_am st) (compute_aligned_size (t_am st) raw * k)
              = Inr (t_am st', a, compute_aligned_size (t_am st) raw * k)"
    using A(5) by blast
  moreover have pos: "0 < compute_aligned_size (t_am st) raw * k"
    using compute_aligned_size_bounds(1) [OF am, of raw] raw(2) k by simp
  ultimately have "0 < am_size (t_am st)"
    using am_allocate_correct(8,9) [OF sl am pos] by fastforce
  then show "t_am ?e = t_am st" and "t_num_active ?e = t_num_active st"
    using t_am_determined [OF e(1) inv e(2)] reg e by auto
  have "live_ok (free_addrs (t_am st')) (am_size (t_am st')) (valid_ids st') (obj_region st')"
    using A(1) by (simp add: talloc_inv_def)
  then show "\<forall>i \<in> set is. \<forall>j \<in> valid_ids st'. i \<noteq> j \<longrightarrow> span (obj_region st' i) \<inter> span (obj_region st' j) = {}"
    using A(3) by (simp add: live_ok_def)
qed

end

section \<open>An environment\<close>

definition ref_chunk :: "int \<Rightarrow> int \<Rightarrow> int \<Rightarrow> (int \<times> int) list" where
  "ref_chunk s n k = (let u = (n + k - 1) div k
     in map (\<lambda>i. (s + u * i, min u (n - u * i))) (filter (\<lambda>i. u * i < n) [0..k - 1]))"

definition ref_mem_env :: "(int list, int) mem_env" where
  "ref_mem_env = \<lparr>sl_add = sl_add ref_sl_ops, sl_remove = sl_remove ref_sl_ops,
     sl_bisect_left = sl_bisect_left ref_sl_ops, numel = prod_list, itemsize = (\<lambda>d. d),
     torch_chunk = ref_chunk\<rparr>"

lemma ref_mem_env_sl: "sl_spec ref_mem_env"
  using ref_sl_spec by (simp add: sl_spec_def ref_mem_env_def)

lemma ref_mem_env_chunk: "chunk_spec ref_mem_env"
  unfolding chunk_spec_def
proof (intro allI impI)
  fix s u k :: int
  assume k: "0 < k" and u: "0 < u"
  have "(u * k + k - 1) div k = u"
    using k by (intro int_div_pos_eq [where r = "k - 1"]) (simp_all add: algebra_simps)
  moreover have "filter (\<lambda>i. u * i < u * k) [0..k - 1] = [0..k - 1]"
    using u by (intro filter_True) simp
  moreover have "min u (u * k - u * i) = u" if "i \<in> set [0..k - 1]" for i
  proof -
    have "u * (i + 1) \<le> u * k" using that u by (intro mult_left_mono) auto
    then show ?thesis by (simp add: algebra_simps)
  qed
  ultimately show "torch_chunk ref_mem_env s (u * k) k = map (\<lambda>i. (s + u * i, u)) [0..k - 1]"
    by (simp add: ref_mem_env_def ref_chunk_def Let_def)
qed

interpretation ref_tensor: tensor_env ref_mem_env
  by unfold_locales (rule ref_mem_env_sl ref_mem_env_chunk)+

section \<open>Properties\<close>

text \<open>
  C25: Releasing a batch of objects, which sorts them by address and returns every run of adjacent
  regions in one call, leaves the same allocator as releasing the objects one by one in the
  order given, with repeated and already released objects skipped.
\<close>

theorem t_batched_free_is_sequential:
  assumes "sl_spec env" and "chunk_spec env" and "talloc_inv st" and "set ids \<subseteq> {..<length (t_objs st)}"
  shows "t_batched_free env st ids = fold (\<lambda>i st. t_free env st i) ids st"
  using tensor_env.t_batched_free_seq [of env st ids] assms
  by (simp add: tensor_env_def tensor_env_axioms_def memory_env_def)

text \<open>
  A batched allocation that succeeds returns \<open>batch_size\<close> new objects side by side in one
  fresh region, keeps the invariant, and releasing the batch in one call restores the address
  manager and the counter exactly.
\<close>

theorem t_batched_allocate_round_trip:
  assumes "sl_spec env" and "chunk_spec env" and "talloc_inv st"
    and "adapt_shapes_and_dtypes shapes dtypes = Inr (ss, ds)" and "get_size_bytes env ss ds = Inr raw"
    and "0 < raw" and "0 < k" and "t_batched_allocate env st shapes dtypes k fmt = (st', Inr (Some ids))"
  shows "talloc_inv st' \<and> length ids = nat k \<and> valid_ids st' = valid_ids st \<union> set ids \<and>
    valid_ids st \<inter> set ids = {} \<and>
    (\<forall>i \<in> set ids. \<forall>j \<in> valid_ids st'. i \<noteq> j \<longrightarrow> span (obj_region st' i) \<inter> span (obj_region st' j) = {}) \<and>
    t_am (t_batched_free env st' ids) = t_am st \<and>
    t_num_active (t_batched_free env st' ids) = t_num_active st"
proof -
  have env: "tensor_env env"
    using assms(1,2) by (simp add: tensor_env_def tensor_env_axioms_def memory_env_def)
  note A = tensor_env.t_batched_allocate_facts [OF env assms(3,5,6,7,8,4)]
    and R = tensor_env.batched_round_trip [OF env assms(3,5,6,7,8,4)]
  have "valid_ids st \<inter> set ids = {}" using A(2) by (auto simp: valid_ids_def)
  with A R assms(7) show ?thesis by simp
qed

definition demo_talloc :: "(int list, int) talloc" where
  "demo_talloc = t_init ref_mem_env 16384 4096 None"

lemma demo_talloc_inv: "talloc_inv demo_talloc"
  unfolding demo_talloc_def by (rule t_init_inv [where k = 12]) (simp_all add: ref_mem_env_sl)

theorem t_batched_free_is_sequential_witness:
  "\<exists>st'. t_batched_allocate ref_mem_env demo_talloc (One [2, 8]) (One 2) 3 KV_2LTD = (st', Inr (Some [0, 1, 2])) \<and>
     t_batched_free ref_mem_env st' [2, 0, 1, 0] = fold (\<lambda>i st. t_free ref_mem_env st i) [2, 0, 1, 0] st'"
proof -
  obtain st' r where r: "t_batched_allocate ref_mem_env demo_talloc (One [2, 8]) (One 2) 3 KV_2LTD = (st', r)"
    by fastforce
  moreover have "snd (t_batched_allocate ref_mem_env demo_talloc (One [2, 8]) (One 2) 3 KV_2LTD) = Inr (Some [0, 1, 2])"
    by code_simp
  ultimately have st': "t_batched_allocate ref_mem_env demo_talloc (One [2, 8]) (One 2) 3 KV_2LTD
      = (st', Inr (Some [0, 1, 2]))" by simp
  note F = ref_tensor.t_batched_allocate_facts [OF demo_talloc_inv _ _ _ st', of "[[2, 8]]" "[2]" 32]
  have "talloc_inv st'" and "length (t_objs st') = 3"
    using F(1,6) by (simp_all add: get_size_bytes_def ref_mem_env_def adapt_shapes_and_dtypes_def
        demo_talloc_def t_init_def)
  then show ?thesis
    using st' t_batched_free_is_sequential [OF ref_mem_env_sl ref_mem_env_chunk, of st' "[2, 0, 1, 0]"] by simp
qed

theorem t_batched_allocate_round_trip_witness:
  "\<exists>st'. t_batched_allocate ref_mem_env demo_talloc (One [2, 8]) (One 2) 3 KV_2LTD = (st', Inr (Some [0, 1, 2])) \<and>
     t_am (t_batched_free ref_mem_env st' [0, 1, 2]) = t_am demo_talloc"
proof -
  obtain st' r where r: "t_batched_allocate ref_mem_env demo_talloc (One [2, 8]) (One 2) 3 KV_2LTD = (st', r)"
    by fastforce
  moreover have "snd (t_batched_allocate ref_mem_env demo_talloc (One [2, 8]) (One 2) 3 KV_2LTD) = Inr (Some [0, 1, 2])"
    by code_simp
  ultimately have st': "t_batched_allocate ref_mem_env demo_talloc (One [2, 8]) (One 2) 3 KV_2LTD
      = (st', Inr (Some [0, 1, 2]))" by simp
  with t_batched_allocate_round_trip [OF ref_mem_env_sl ref_mem_env_chunk demo_talloc_inv _ _ _ _ st',
      of "[[2, 8]]" "[2]" 32]
  show ?thesis by (simp add: get_size_bytes_def ref_mem_env_def adapt_shapes_and_dtypes_def)
qed

end
