(* ===== verification/MemoryObj.thy ===== *)
theory MemoryObj
  imports TensorAllocator
begin

text \<open>
  The life of a memory object: the reference and pin counters of \<open>TensorMemoryObj\<close>
  (\<open>v1/memory_management.py\<close>) and the \<open>PinMonitor\<close> (\<open>v1/pin_monitor.py\<close>) that
  forces the pins of an object down once they are too old. \<open>mem_state\<close> is the allocator's
  state together with the monitor's table (object, time of the last pin) and the statistics
  both write. Times are readings of the clock in some fixed unit.

  The invariant \<open>mem_inv\<close> says that an object is valid exactly while a reference or a pin
  holds it, and that the monitor's table lists exactly the pinned objects.
\<close>

record ('s, 'd) mem_state = "('s, 'd) talloc" +
  m_pinned_objects :: "(nat, int) odict"
  m_pinned_stat :: int
  m_forced_stat :: int

definition mem_init :: "('s, 'd) talloc \<Rightarrow> ('s, 'd) mem_state" where
  "mem_init st = talloc.extend st \<lparr>m_pinned_objects = [], m_pinned_stat = 0, m_forced_stat = 0\<rparr>"

definition upd_obj ::
    "nat \<Rightarrow> (('s, 'd) mem_obj \<Rightarrow> ('s, 'd) mem_obj) \<Rightarrow> ('s, 'd, 'z) talloc_scheme \<Rightarrow> ('s, 'd, 'z) talloc_scheme" where
  "upd_obj i f st = st\<lparr>t_objs := (t_objs st)[i := f (t_objs st ! i)]\<rparr>"

section \<open>Counters\<close>

definition ref_count_up :: "('s, 'd, 'z) talloc_scheme \<Rightarrow> nat \<Rightarrow> ('s, 'd, 'z) talloc_scheme" where
  "ref_count_up st i = upd_obj i (mo_ref_count_update (\<lambda>r. r + 1)) st"

definition ref_count_down ::
    "('s, 'd) mem_env \<Rightarrow> ('s, 'd, 'z) talloc_scheme \<Rightarrow> nat \<Rightarrow> ('s, 'd, 'z) talloc_scheme" where
  "ref_count_down env st i =
     (let st1 = upd_obj i (mo_ref_count_update (\<lambda>r. r - 1)) st;
          st2 = (if mo_ref_count (t_objs st1 ! i) < 0 then upd_obj i (mo_ref_count_update (\<lambda>_. 0)) st1 else st1);
          obj = t_objs st2 ! i
      in if mo_ref_count obj = 0 \<and> mo_has_parent obj \<and> mo_pin_count obj = 0 then t_free env st2 i else st2)"

definition on_pin :: "int \<Rightarrow> ('s, 'd, 'z) mem_state_scheme \<Rightarrow> nat \<Rightarrow> ('s, 'd, 'z) mem_state_scheme" where
  "on_pin now st i = st\<lparr>m_pinned_objects := AList.update i now (m_pinned_objects st)\<rparr>"

definition on_unpin :: "('s, 'd, 'z) mem_state_scheme \<Rightarrow> nat \<Rightarrow> ('s, 'd, 'z) mem_state_scheme" where
  "on_unpin st i =
     (if map_of (m_pinned_objects st) i \<noteq> None
      then st\<lparr>m_pinned_objects := AList.delete i (m_pinned_objects st)\<rparr> else st)"

definition mem_pin :: "int \<Rightarrow> ('s, 'd, 'z) mem_state_scheme \<Rightarrow> nat \<Rightarrow> ('s, 'd, 'z) mem_state_scheme" where
  "mem_pin now st i =
     (let st1 = (if mo_pin_count (t_objs st ! i) = 0 then st\<lparr>m_pinned_stat := m_pinned_stat st + 1\<rparr> else st);
          st2 = upd_obj i (mo_pin_count_update (\<lambda>p. p + 1)) st1
      in on_pin now st2 i)"

definition mem_unpin :: "('s, 'd) mem_env \<Rightarrow> ('s, 'd, 'z) mem_state_scheme \<Rightarrow> nat \<Rightarrow> ('s, 'd, 'z) mem_state_scheme" where
  "mem_unpin env st i =
     (let st1 = upd_obj i (mo_pin_count_update (\<lambda>p. p - 1)) st;
          obj = t_objs st1 ! i;
          st2 = (if mo_pin_count obj = 0 then on_unpin (st1\<lparr>m_pinned_stat := m_pinned_stat st1 - 1\<rparr>) i else st1);
          st3 = (if mo_pin_count obj \<le> 0 \<and> mo_ref_count obj \<le> 0
                 then (if \<not> mo_has_parent obj then st2 else t_free env st2 i) else st2)
      in if mo_pin_count (t_objs st3 ! i) < 0 then upd_obj i (mo_pin_count_update (\<lambda>_. 0)) st3 else st3)"

definition is_pinned :: "('s, 'd) mem_obj \<Rightarrow> bool" where
  "is_pinned obj \<longleftrightarrow> 0 < mo_pin_count obj"

definition can_evict :: "('s, 'd) mem_obj \<Rightarrow> bool" where
  "can_evict obj \<longleftrightarrow> \<not> is_pinned obj \<and> mo_ref_count obj = 1"

section \<open>PinMonitor\<close>

partial_function (option) unpin_loop ::
    "('s, 'd) mem_env \<Rightarrow> ('s, 'd, 'z) mem_state_scheme \<Rightarrow> nat \<Rightarrow> ('s, 'd, 'z) mem_state_scheme option" where
  "unpin_loop env st i =
     (if 0 < mo_pin_count (t_objs st ! i) then unpin_loop env (mem_unpin env st i) i else Some st)"

definition force_unpin_timeout_object ::
    "('s, 'd) mem_env \<Rightarrow> ('s, 'd, 'z) mem_state_scheme \<Rightarrow> nat \<Rightarrow> ('s, 'd, 'z) mem_state_scheme option" where
  "force_unpin_timeout_object env st i =
     (if mo_pin_count (t_objs st ! i) \<le> 0 then Some st
      else unpin_loop env (st\<lparr>m_forced_stat := m_forced_stat st + 1\<rparr>) i)"

definition timeout_objects :: "int \<Rightarrow> int \<Rightarrow> ('s, 'd, 'z) mem_state_scheme \<Rightarrow> nat list" where
  "timeout_objects now pin_timeout_sec st =
     map fst (filter (\<lambda>(i, t). 0 < mo_pin_count (t_objs st ! i) \<and> pin_timeout_sec < now - t)
       (m_pinned_objects st))"

fun force_all ::
    "('s, 'd) mem_env \<Rightarrow> ('s, 'd, 'z) mem_state_scheme \<Rightarrow> nat list \<Rightarrow> ('s, 'd, 'z) mem_state_scheme option" where
  "force_all env st [] = Some st"
| "force_all env st (i # is) =
     (case force_unpin_timeout_object env st i of None \<Rightarrow> None | Some st' \<Rightarrow> force_all env st' is)"

definition check_timeouts ::
    "('s, 'd) mem_env \<Rightarrow> int \<Rightarrow> int \<Rightarrow> ('s, 'd, 'z) mem_state_scheme
      \<Rightarrow> (('s, 'd, 'z) mem_state_scheme \<times> nat \<times> nat \<times> nat) option" where
  "check_timeouts env now pin_timeout_sec st =
     (let pinned_count = length (m_pinned_objects st);
          objs = timeout_objects now pin_timeout_sec st
      in map_option (\<lambda>st'. (st', pinned_count, length objs, length objs)) (force_all env st objs))"

section \<open>Invariant\<close>

definition pinned_ids :: "('s, 'd, 'z) talloc_scheme \<Rightarrow> nat set" where
  "pinned_ids st = {i. i < length (t_objs st) \<and> 0 < mo_pin_count (t_objs st ! i)}"

definition counts_ok :: "('s, 'd) mem_obj \<Rightarrow> bool" where
  "counts_ok obj \<longleftrightarrow> 0 \<le> mo_ref_count obj \<and> 0 \<le> mo_pin_count obj \<and> mo_has_parent obj \<and>
     (mo_valid obj \<longleftrightarrow> 0 < mo_ref_count obj \<or> 0 < mo_pin_count obj)"

definition counts_on :: "bool \<Rightarrow> ('s, 'd) mem_obj \<Rightarrow> bool" where
  "counts_on freed obj \<longleftrightarrow> 0 \<le> mo_ref_count obj \<and> 0 \<le> mo_pin_count obj \<and> mo_has_parent obj \<and>
     (mo_valid obj \<longleftrightarrow> \<not> freed \<and> (0 < mo_ref_count obj \<or> 0 < mo_pin_count obj))"

definition mem_on :: "nat set \<Rightarrow> ('s, 'd, 'z) mem_state_scheme \<Rightarrow> bool" where
  "mem_on F st \<longleftrightarrow> talloc_inv st \<and> F \<subseteq> {..<length (t_objs st)} \<and> (\<forall>i < length (t_objs st). counts_on (i \<in> F) (t_objs st ! i)) \<and>
     od_wf (m_pinned_objects st) \<and> set (od_keys (m_pinned_objects st)) = pinned_ids st \<and>
     m_pinned_stat st = int (card (pinned_ids st))"

abbreviation mem_inv :: "('s, 'd, 'z) mem_state_scheme \<Rightarrow> bool" where
  "mem_inv \<equiv> mem_on {}"

lemma counts_on_False [simp]: "counts_on False obj = counts_ok obj"
  by (simp add: counts_on_def counts_ok_def)

lemma mem_inv_def:
  "mem_inv st \<longleftrightarrow> talloc_inv st \<and> (\<forall>i < length (t_objs st). counts_ok (t_objs st ! i)) \<and>
     od_wf (m_pinned_objects st) \<and> set (od_keys (m_pinned_objects st)) = pinned_ids st \<and>
     m_pinned_stat st = int (card (pinned_ids st))"
  by (simp add: mem_on_def del: set_map)

lemma finite_pinned_ids [simp]: "finite (pinned_ids st)"
  by (simp add: pinned_ids_def)

lemma upd_obj_simps [simp]:
  "t_am (upd_obj i f st) = t_am st" "length (t_objs (upd_obj i f st)) = length (t_objs st)"
  "i < length (t_objs st) \<Longrightarrow> t_objs (upd_obj i f st) ! i = f (t_objs st ! i)"
  "j \<noteq> i \<Longrightarrow> t_objs (upd_obj i f st) ! j = t_objs st ! j"
  "t_num_active (upd_obj i f st) = t_num_active st" "t_buffer_len (upd_obj i f st) = t_buffer_len st"
  by (simp_all add: upd_obj_def)

lemma upd_obj_mem_simps [simp]:
  "m_pinned_objects (upd_obj i f st) = m_pinned_objects st"
  "m_pinned_stat (upd_obj i f st) = m_pinned_stat st"
  by (simp_all add: upd_obj_def)

lemma talloc_inv_same:
  assumes "talloc_inv st" and "t_am st' = t_am st" and "t_num_active st' = t_num_active st"
    and "t_buffer_len st' = t_buffer_len st" and "length (t_objs st') = length (t_objs st)"
    and "\<And>j. j < length (t_objs st) \<Longrightarrow> mo_valid (t_objs st' ! j) = mo_valid (t_objs st ! j) \<and>
           mo_address (t_objs st' ! j) = mo_address (t_objs st ! j) \<and>
           mo_phy_size (t_objs st' ! j) = mo_phy_size (t_objs st ! j)"
  shows "talloc_inv st'"
proof -
  have v: "valid_ids st' = valid_ids st" using assms(5,6) by (auto simp: valid_ids_def)
  have "live_ok (free_addrs (t_am st)) (am_size (t_am st)) (valid_ids st) (obj_region st')"
  proof (rule live_ok_cong)
    show "live_ok (free_addrs (t_am st)) (am_size (t_am st)) (valid_ids st) (obj_region st)"
      using assms(1) by (simp add: talloc_inv_def)
  qed (use assms(6) in \<open>simp add: obj_region_def valid_ids_def\<close>)
  with assms(1-4) v show ?thesis by (simp add: talloc_inv_def)
qed

lemma upd_obj_talloc_inv:
  assumes "talloc_inv st" and "i < length (t_objs st)"
    and "mo_valid (f (t_objs st ! i)) = mo_valid (t_objs st ! i)"
    and "mo_address (f (t_objs st ! i)) = mo_address (t_objs st ! i)"
    and "mo_phy_size (f (t_objs st ! i)) = mo_phy_size (t_objs st ! i)"
  shows "talloc_inv (upd_obj i f st)"
proof (rule talloc_inv_same [OF assms(1)])
  fix j assume "j < length (t_objs st)"
  show "mo_valid (t_objs (upd_obj i f st) ! j) = mo_valid (t_objs st ! j) \<and>
      mo_address (t_objs (upd_obj i f st) ! j) = mo_address (t_objs st ! j) \<and>
      mo_phy_size (t_objs (upd_obj i f st) ! j) = mo_phy_size (t_objs st ! j)"
    using assms(2-5) by (cases "j = i") simp_all
qed simp_all

lemma keys_update: "set (od_keys (AList.update k v d)) = insert k (set (od_keys d))"
  by (simp add: dom_update)

lemma t_free_mem_simps [simp]:
  "m_pinned_objects (t_free env st i) = m_pinned_objects st"
  "m_pinned_stat (t_free env st i) = m_pinned_stat st"
  by (simp_all add: t_free_def Let_def)

lemma mem_on_step:
  assumes inv: "mem_on F st" and i: "i < length (t_objs st)" and ta: "talloc_inv st'"
    and len: "length (t_objs st') = length (t_objs st)" and other: "\<And>j. j \<noteq> i \<Longrightarrow> t_objs st' ! j = t_objs st ! j"
    and ok: "counts_on (i \<in> F) (t_objs st' ! i)" and wf: "od_wf (m_pinned_objects st')"
    and keys: "set (od_keys (m_pinned_objects st')) = (if 0 < mo_pin_count (t_objs st' ! i)
                 then insert i (set (od_keys (m_pinned_objects st))) else set (od_keys (m_pinned_objects st)) - {i})"
    and stat: "m_pinned_stat st' = m_pinned_stat st + (if 0 < mo_pin_count (t_objs st' ! i) then 1 else 0)
                 - (if 0 < mo_pin_count (t_objs st ! i) then 1 else 0)"
  shows "mem_on F st'"
proof -
  have pins: "pinned_ids st' = (if 0 < mo_pin_count (t_objs st' ! i) then insert i (pinned_ids st)
                else pinned_ids st - {i})"
  proof (rule set_eqI)
    fix j show "j \<in> pinned_ids st' \<longleftrightarrow> j \<in> (if 0 < mo_pin_count (t_objs st' ! i) then insert i (pinned_ids st)
                else pinned_ids st - {i})"
      using i len other [of j] by (cases "j = i") (auto simp: pinned_ids_def)
  qed
  have mem: "i \<in> pinned_ids st \<longleftrightarrow> 0 < mo_pin_count (t_objs st ! i)" using i by (simp add: pinned_ids_def)
  have "int (card (pinned_ids st')) = int (card (pinned_ids st)) + (if 0 < mo_pin_count (t_objs st' ! i) then 1 else 0)
                 - (if 0 < mo_pin_count (t_objs st ! i) then 1 else 0)"
    unfolding pins using mem card_Suc_Diff1 [OF finite_pinned_ids, of i st]
    by (auto simp: insert_absorb)
  moreover have "counts_on (j \<in> F) (t_objs st' ! j)" if "j < length (t_objs st')" for j
    using that inv ok len other [of j] by (cases "j = i") (auto simp: mem_on_def)
  ultimately show ?thesis
    using inv ta wf keys stat pins len by (simp add: mem_on_def del: set_map)
qed

lemma mem_on_obj:
  assumes "mem_on F st" and "i < length (t_objs st)"
  shows "counts_on (i \<in> F) (t_objs st ! i)" and "talloc_inv st" and "od_wf (m_pinned_objects st)"
    and "i \<in> set (od_keys (m_pinned_objects st)) \<longleftrightarrow> 0 < mo_pin_count (t_objs st ! i)"
  using assms by (auto simp: mem_on_def pinned_ids_def simp del: set_map)

lemma mem_inv_obj:
  assumes "mem_inv st" and "i < length (t_objs st)"
  shows "counts_ok (t_objs st ! i)" and "talloc_inv st" and "od_wf (m_pinned_objects st)"
    and "i \<in> set (od_keys (m_pinned_objects st)) \<longleftrightarrow> 0 < mo_pin_count (t_objs st ! i)"
  using mem_on_obj [OF assms] by simp_all

lemma ref_count_up_inv:
  assumes inv: "mem_on F st" and i: "i < length (t_objs st)" and "mo_valid (t_objs st ! i) \<or> i \<in> F"
  shows "mem_on F (ref_count_up st i)"
  unfolding ref_count_up_def
  by (rule mem_on_step [OF inv i])
    (use assms mem_on_obj [OF inv i] in \<open>auto simp: counts_on_def insert_absorb intro!: upd_obj_talloc_inv simp del: set_map\<close>)

lemma mem_pin_inv:
  assumes inv: "mem_on F st" and i: "i < length (t_objs st)" and v: "mo_valid (t_objs st ! i) \<or> i \<in> F"
  shows "mem_on F (mem_pin now st i)"
proof (rule mem_on_step [OF inv i])
  have o: "t_objs (mem_pin now st i) = (t_objs st)[i := mo_pin_count_update (\<lambda>p. p + 1) (t_objs st ! i)]"
    by (simp add: mem_pin_def on_pin_def upd_obj_def Let_def)
  show "talloc_inv (mem_pin now st i)"
    by (rule talloc_inv_same [OF mem_on_obj(2) [OF inv i]])
      (use i in \<open>auto simp: o nth_list_update\<close>, simp_all add: mem_pin_def on_pin_def Let_def)
  show "length (t_objs (mem_pin now st i)) = length (t_objs st)" by (simp add: o)
  show "\<And>j. j \<noteq> i \<Longrightarrow> t_objs (mem_pin now st i) ! j = t_objs st ! j" by (simp add: o)
  show "counts_on (i \<in> F) (t_objs (mem_pin now st i) ! i)"
    using mem_on_obj(1) [OF inv i] v i by (auto simp: o counts_on_def)
  have p: "m_pinned_objects (mem_pin now st i) = AList.update i now (m_pinned_objects st)"
    by (simp add: mem_pin_def on_pin_def Let_def)
  show "od_wf (m_pinned_objects (mem_pin now st i))" using mem_on_obj(3) [OF inv i] by (simp add: p)
  show "set (od_keys (m_pinned_objects (mem_pin now st i))) = (if 0 < mo_pin_count (t_objs (mem_pin now st i) ! i)
                 then insert i (set (od_keys (m_pinned_objects st))) else set (od_keys (m_pinned_objects st)) - {i})"
    using mem_on_obj(1) [OF inv i] i by (simp add: o p counts_on_def keys_update del: set_map)
  show "m_pinned_stat (mem_pin now st i) = m_pinned_stat st + (if 0 < mo_pin_count (t_objs (mem_pin now st i) ! i) then 1 else 0)
                 - (if 0 < mo_pin_count (t_objs st ! i) then 1 else 0)"
    using mem_on_obj(1) [OF inv i] i by (simp add: o counts_on_def) (simp add: mem_pin_def on_pin_def Let_def)
qed

lemma upd_obj_twice [simp]: "upd_obj i f (upd_obj i g st) = upd_obj i (f \<circ> g) st"
  by (cases "i < length (t_objs st)") (simp_all add: upd_obj_def list_update_beyond)

lemma upd_obj_same:
  "f (t_objs st ! i) = t_objs st ! i \<Longrightarrow> upd_obj i f st = st"
  by (simp add: upd_obj_def)

lemma ref_count_down_form:
  assumes "i < length (t_objs st)"
  shows "ref_count_down env st i =
    (let r = max 0 (mo_ref_count (t_objs st ! i) - 1); st' = upd_obj i (mo_ref_count_update (\<lambda>_. r)) st
     in if r = 0 \<and> mo_has_parent (t_objs st ! i) \<and> mo_pin_count (t_objs st ! i) = 0 then t_free env st' i else st')"
  using assms by (cases "t_objs st ! i") (auto simp: ref_count_down_def Let_def upd_obj_def max_def)

lemma mem_unpin_idle:
  assumes i: "i < length (t_objs st)" and ok: "counts_on f (t_objs st ! i)" and p: "mo_pin_count (t_objs st ! i) = 0"
  shows "mem_unpin env st i = st"
proof -
  have "t_free env (upd_obj i (mo_pin_count_update (\<lambda>p. p - 1)) st) i = upd_obj i (mo_pin_count_update (\<lambda>p. p - 1)) st"
    if "mo_ref_count (t_objs st ! i) \<le> 0"
    using that i ok p by (simp add: t_free_def counts_on_def)
  moreover have "upd_obj i (mo_pin_count_update (\<lambda>_. 0)) st = st"
    using p by (cases "t_objs st ! i") (simp add: upd_obj_same)
  ultimately show ?thesis using i p by (simp add: mem_unpin_def Let_def comp_def)
qed

lemma mem_unpin_form:
  assumes i: "i < length (t_objs st)" and p: "0 < mo_pin_count (t_objs st ! i)"
  shows "mem_unpin env st i =
    (let st1 = upd_obj i (mo_pin_count_update (\<lambda>p. p - 1)) st
     in if 1 < mo_pin_count (t_objs st ! i) then st1
        else let st2 = on_unpin (st1\<lparr>m_pinned_stat := m_pinned_stat st1 - 1\<rparr>) i
             in if mo_ref_count (t_objs st ! i) \<le> 0 \<and> mo_has_parent (t_objs st ! i) then t_free env st2 i else st2)"
proof -
  have "mo_pin_count (t_objs (t_free env z i) ! i) = mo_pin_count (t_objs z ! i)"
    for z :: "('a, 'b, 'c) mem_state_scheme"
    by (cases "i < length (t_objs z)") (simp_all add: t_free_def Let_def obj_invalidate_def list_update_beyond)
  then show ?thesis using assms by (auto simp: mem_unpin_def Let_def on_unpin_def)
qed

lemma counts_ok_mk_obj:
  "counts_ok (mk_obj ss ds a n fmt raw) \<and> mo_pin_count (mk_obj ss ds a n fmt raw) = 0"
  by (simp add: counts_ok_def mk_obj_def)

context tensor_env
begin

lemma ref_count_down_inv:
  assumes inv: "mem_on F st" and i: "i < length (t_objs st)"
  shows "mem_on F (ref_count_down env st i)"
proof -
  let ?o = "t_objs st ! i"
  define r where "r = max 0 (mo_ref_count ?o - 1)"
  define st' where "st' = upd_obj i (mo_ref_count_update (\<lambda>_. r)) st"
  note M = mem_on_obj [OF inv i]
  have ta: "talloc_inv st'" unfolding st'_def by (rule upd_obj_talloc_inv [OF M(2) i]) simp_all
  have f: "ref_count_down env st i = (if r = 0 \<and> mo_pin_count ?o = 0 then t_free env st' i else st')"
    unfolding ref_count_down_form [OF i] Let_def r_def [symmetric] st'_def [symmetric]
    using M(1) by (simp add: counts_on_def)
  have o: "t_objs st' ! i = mo_ref_count_update (\<lambda>_. r) ?o" and lst: "length (t_objs st') = length (t_objs st)"
    and ost: "j \<noteq> i \<Longrightarrow> t_objs st' ! j = t_objs st ! j" for j
    using i by (simp_all add: st'_def)
  show ?thesis
  proof (rule mem_on_step [OF inv i])
    show "talloc_inv (ref_count_down env st i)"
      using ta t_free_inv [OF ta, of i] i by (simp add: f lst)
    show "length (t_objs (ref_count_down env st i)) = length (t_objs st)"
      by (simp add: f t_free_length lst)
    show "t_objs (ref_count_down env st i) ! j = t_objs st ! j" if "j \<noteq> i" for j
      using that by (simp add: f t_free_other ost)
    have fr: "t_objs (t_free env st' i) ! i = (if mo_valid ?o then obj_invalidate (t_objs st' ! i) else t_objs st' ! i)"
      using i o by (simp add: t_free_def Let_def lst)
    have new: "mo_pin_count (t_objs (ref_count_down env st i) ! i) = mo_pin_count ?o"
      using o fr by (simp add: f obj_invalidate_def)
    show "counts_on (i \<in> F) (t_objs (ref_count_down env st i) ! i)"
      using M(1) o fr by (auto simp: f counts_on_def obj_invalidate_def r_def)
    have pins: "m_pinned_objects (ref_count_down env st i) = m_pinned_objects st"
      and stat: "m_pinned_stat (ref_count_down env st i) = m_pinned_stat st"
      by (simp_all add: f st'_def)
    show "od_wf (m_pinned_objects (ref_count_down env st i))" using M(3) by (simp add: pins)
    show "set (od_keys (m_pinned_objects (ref_count_down env st i))) =
        (if 0 < mo_pin_count (t_objs (ref_count_down env st i) ! i)
         then insert i (set (od_keys (m_pinned_objects st))) else set (od_keys (m_pinned_objects st)) - {i})"
      using M(4) by (simp add: pins new insert_absorb del: set_map)
    show "m_pinned_stat (ref_count_down env st i) = m_pinned_stat st +
        (if 0 < mo_pin_count (t_objs (ref_count_down env st i) ! i) then 1 else 0)
        - (if 0 < mo_pin_count (t_objs st ! i) then 1 else 0)"
      by (simp add: stat new)
  qed
qed

lemma mem_unpin_facts:
  assumes inv: "mem_on F st" and i: "i < length (t_objs st)"
  shows "mem_on F (mem_unpin env st i)" and "length (t_objs (mem_unpin env st i)) = length (t_objs st)"
    and "mo_pin_count (t_objs (mem_unpin env st i) ! i) = max 0 (mo_pin_count (t_objs st ! i) - 1)"
    and "mo_ref_count (t_objs (mem_unpin env st i) ! i) = mo_ref_count (t_objs st ! i)"
    and "\<And>j. j \<noteq> i \<Longrightarrow> t_objs (mem_unpin env st i) ! j = t_objs st ! j"
proof -
  let ?o = "t_objs st ! i" and ?u = "mem_unpin env st i"
  note M = mem_on_obj [OF inv i]
  have "mem_on F ?u \<and> length (t_objs ?u) = length (t_objs st)
    \<and> mo_pin_count (t_objs ?u ! i) = max 0 (mo_pin_count ?o - 1)
    \<and> mo_ref_count (t_objs ?u ! i) = mo_ref_count ?o \<and> (\<forall>j. j \<noteq> i \<longrightarrow> t_objs ?u ! j = t_objs st ! j)"
  proof (cases "0 < mo_pin_count ?o")
    case False
    with M(1) have "mo_pin_count ?o = 0" by (simp add: counts_on_def)
    with mem_unpin_idle [OF i M(1)] inv show ?thesis by simp
  next
    case p: True
    define st1 where "st1 = upd_obj i (mo_pin_count_update (\<lambda>p. p - 1)) st"
    define st2 where "st2 = on_unpin (st1\<lparr>m_pinned_stat := m_pinned_stat st1 - 1\<rparr>) i"
    have ta1: "talloc_inv st1" unfolding st1_def by (rule upd_obj_talloc_inv [OF M(2) i]) simp_all
    have same: "t_objs st2 = t_objs st1" "t_am st2 = t_am st1" "t_num_active st2 = t_num_active st1"
      "t_buffer_len st2 = t_buffer_len st1" by (simp_all add: st2_def on_unpin_def)
    have ta2: "talloc_inv st2" by (rule talloc_inv_same [OF ta1]) (simp_all add: same)
    have o1: "t_objs st1 ! i = mo_pin_count_update (\<lambda>p. p - 1) ?o" "length (t_objs st1) = length (t_objs st)"
      "j \<noteq> i \<Longrightarrow> t_objs st1 ! j = t_objs st ! j" for j
      using i by (simp_all add: st1_def)
    have pins: "m_pinned_objects st1 = m_pinned_objects st" "m_pinned_stat st1 = m_pinned_stat st"
      "m_pinned_objects st2 = AList.delete i (m_pinned_objects st)" "m_pinned_stat st2 = m_pinned_stat st - 1"
      using p M(4) by (auto simp: st2_def st1_def on_unpin_def map_of_None_keys simp del: set_map)
    show ?thesis
    proof (cases "1 < mo_pin_count ?o")
      case True
      then have f: "?u = st1" using mem_unpin_form [OF i p] by (simp add: Let_def st1_def)
      have "mem_on F st1"
        by (rule mem_on_step [OF inv i ta1])
          (use o1 pins M True in \<open>auto simp: counts_on_def insert_absorb simp del: set_map\<close>)
      with f o1 p show ?thesis by simp
    next
      case False
      then have p1: "mo_pin_count ?o = 1" using p by simp
      have f: "?u = (if mo_ref_count ?o \<le> 0 then t_free env st2 i else st2)"
        using mem_unpin_form [OF i p] M(1) p1 by (simp add: Let_def st1_def [symmetric] st2_def [symmetric] counts_on_def)
      have fr: "t_objs (t_free env st2 i) ! i = (if mo_valid ?o then obj_invalidate (t_objs st2 ! i) else t_objs st2 ! i)"
        using i o1 by (simp add: t_free_def Let_def same)
      have len: "length (t_objs ?u) = length (t_objs st)" by (simp add: f t_free_length same o1)
      have ot: "t_objs ?u ! j = t_objs st ! j" if "j \<noteq> i" for j
        using that by (simp add: f t_free_other same o1)
      have pr: "mo_pin_count (t_objs ?u ! i) = 0" "mo_ref_count (t_objs ?u ! i) = mo_ref_count ?o"
        using p1 fr by (simp_all add: f same o1 obj_invalidate_def)
      have "mem_on F ?u"
      proof (rule mem_on_step [OF inv i _ len ot])
        show "talloc_inv ?u"
          using ta2 t_free_inv [OF ta2, of i] i by (simp add: f same o1)
        show "counts_on (i \<in> F) (t_objs ?u ! i)"
          using M(1) fr p1 by (auto simp: f counts_on_def same o1 obj_invalidate_def)
        have pm: "m_pinned_objects ?u = AList.delete i (m_pinned_objects st)"
          "m_pinned_stat ?u = m_pinned_stat st - 1" by (simp_all add: f pins)
        show "od_wf (m_pinned_objects ?u)" using M(3) by (simp add: pm)
        show "set (od_keys (m_pinned_objects ?u)) = (if 0 < mo_pin_count (t_objs ?u ! i)
           then insert i (set (od_keys (m_pinned_objects st))) else set (od_keys (m_pinned_objects st)) - {i})"
          by (simp add: pr set_keys_delete pm del: set_map)
        show "m_pinned_stat ?u = m_pinned_stat st + (if 0 < mo_pin_count (t_objs ?u ! i) then 1 else 0)
           - (if 0 < mo_pin_count ?o then 1 else 0)" using p by (simp add: pr pm)
      qed
      with len ot pr p1 show ?thesis by simp
    qed
  qed
  then show "mem_on F ?u" and "length (t_objs ?u) = length (t_objs st)"
    and "mo_pin_count (t_objs ?u ! i) = max 0 (mo_pin_count ?o - 1)"
    and "mo_ref_count (t_objs ?u ! i) = mo_ref_count ?o" and "\<And>j. j \<noteq> i \<Longrightarrow> t_objs ?u ! j = t_objs st ! j"
    by simp_all
qed

lemma mem_inv_forced: "mem_on F st \<Longrightarrow> mem_on F (st\<lparr>m_forced_stat := x\<rparr>)"
  using talloc_inv_same [of st "st\<lparr>m_forced_stat := x\<rparr>"] by (simp add: mem_on_def pinned_ids_def)

lemma unpin_loop_facts:
  assumes "mem_on F st" and "i < length (t_objs st)"
  shows "\<exists>st'. unpin_loop env st i = Some st' \<and> mem_on F st' \<and> length (t_objs st') = length (t_objs st) \<and>
    mo_pin_count (t_objs st' ! i) = 0 \<and> mo_ref_count (t_objs st' ! i) = mo_ref_count (t_objs st ! i) \<and>
    (\<forall>j. j \<noteq> i \<longrightarrow> t_objs st' ! j = t_objs st ! j)"
  using assms
proof (induction "nat (mo_pin_count (t_objs st ! i))" arbitrary: st)
  case 0
  then have "mo_pin_count (t_objs st ! i) = 0" using mem_on_obj(1) by (fastforce simp: counts_on_def)
  with 0 show ?case by (simp add: unpin_loop.simps)
next
  case (Suc n)
  note U = mem_unpin_facts [OF Suc.prems]
  have "n = nat (mo_pin_count (t_objs (mem_unpin env st i) ! i))" using Suc.hyps(2) U(3) by simp
  from Suc.hyps(1) [OF this U(1)] Suc.prems(2) U(2,4,5) obtain st' where
    st': "unpin_loop env (mem_unpin env st i) i = Some st'" "mem_on F st'"
      "length (t_objs st') = length (t_objs st)" "mo_pin_count (t_objs st' ! i) = 0"
      "mo_ref_count (t_objs st' ! i) = mo_ref_count (t_objs st ! i)" "\<forall>j. j \<noteq> i \<longrightarrow> t_objs st' ! j = t_objs st ! j"
    by auto
  have "0 < mo_pin_count (t_objs st ! i)" using Suc.hyps(2) by linarith
  with st' show ?case by (intro exI [of _ st']) (simp add: unpin_loop.simps [of env st i])
qed

lemma force_unpin_facts:
  assumes inv: "mem_on F st" and i: "i < length (t_objs st)"
  shows "\<exists>st'. force_unpin_timeout_object env st i = Some st' \<and> mem_on F st' \<and>
    length (t_objs st') = length (t_objs st) \<and>
    mo_pin_count (t_objs st' ! i) = 0 \<and> mo_ref_count (t_objs st' ! i) = mo_ref_count (t_objs st ! i) \<and>
    (\<forall>j. j \<noteq> i \<longrightarrow> t_objs st' ! j = t_objs st ! j)"
proof (cases "mo_pin_count (t_objs st ! i) \<le> 0")
  case True
  then have "mo_pin_count (t_objs st ! i) = 0" using mem_on_obj(1) [OF assms] by (simp add: counts_on_def)
  with inv show ?thesis by (simp add: force_unpin_timeout_object_def)
next
  case False
  with unpin_loop_facts [OF mem_inv_forced [OF inv], of i "m_forced_stat st + 1"] i
  show ?thesis by (simp add: force_unpin_timeout_object_def)
qed

lemma force_all_facts:
  assumes "mem_on F st" and "set is \<subseteq> {..<length (t_objs st)}"
  shows "\<exists>st'. force_all env st is = Some st' \<and> mem_on F st' \<and> length (t_objs st') = length (t_objs st) \<and>
    (\<forall>j. mo_pin_count (t_objs st' ! j) = (if j \<in> set is then 0 else mo_pin_count (t_objs st ! j)) \<and>
         mo_ref_count (t_objs st' ! j) = mo_ref_count (t_objs st ! j))"
  using assms
proof (induction "is" arbitrary: st)
  case (Cons i "is")
  then have i: "i < length (t_objs st)" by simp
  obtain st1 where s1: "force_unpin_timeout_object env st i = Some st1" "mem_on F st1"
    "length (t_objs st1) = length (t_objs st)" "mo_pin_count (t_objs st1 ! i) = 0"
    "mo_ref_count (t_objs st1 ! i) = mo_ref_count (t_objs st ! i)" "\<forall>j. j \<noteq> i \<longrightarrow> t_objs st1 ! j = t_objs st ! j"
    using force_unpin_facts [OF Cons.prems(1) i] by blast
  have "set is \<subseteq> {..<length (t_objs st1)}" using Cons.prems(2) s1(3) by simp
  from Cons.IH [OF s1(2) this] obtain st' where s': "force_all env st1 is = Some st'" "mem_on F st'"
    "length (t_objs st') = length (t_objs st1)"
    "\<forall>j. mo_pin_count (t_objs st' ! j) = (if j \<in> set is then 0 else mo_pin_count (t_objs st1 ! j)) \<and>
         mo_ref_count (t_objs st' ! j) = mo_ref_count (t_objs st1 ! j)" by blast
  have "mo_pin_count (t_objs st' ! j) = (if j \<in> set (i # is) then 0 else mo_pin_count (t_objs st ! j)) \<and>
         mo_ref_count (t_objs st' ! j) = mo_ref_count (t_objs st ! j)" for j
    using s'(4) s1(4-6) by (cases "j = i") auto
  with s1(1,3) s'(1-3) show ?case by simp
qed simp

lemma timeout_objects_iff:
  assumes "mem_on F st"
  shows "i \<in> set (timeout_objects now T st) \<longleftrightarrow> (\<exists>t. map_of (m_pinned_objects st) i = Some t \<and> T < now - t)"
    and "set (timeout_objects now T st) \<subseteq> {..<length (t_objs st)}"
proof -
  have wf: "od_wf (m_pinned_objects st)" and k: "set (od_keys (m_pinned_objects st)) = pinned_ids st"
    using assms by (simp_all add: mem_on_def)
  have "0 < mo_pin_count (t_objs st ! i) \<and> i < length (t_objs st)" if "(i, t) \<in> set (m_pinned_objects st)" for i t
    using that k by (force simp: pinned_ids_def)
  then show "i \<in> set (timeout_objects now T st) \<longleftrightarrow> (\<exists>t. map_of (m_pinned_objects st) i = Some t \<and> T < now - t)"
    and "set (timeout_objects now T st) \<subseteq> {..<length (t_objs st)}"
    using wf by (force simp: timeout_objects_def)+
qed

lemma alloc_mem_inv:
  assumes inv: "mem_on F st" and ta: "talloc_inv st'" and len: "length (t_objs st) \<le> length (t_objs st')"
    and old: "\<And>j. j < length (t_objs st) \<Longrightarrow> t_objs st' ! j = t_objs st ! j"
    and new: "\<And>j. length (t_objs st) \<le> j \<Longrightarrow> j < length (t_objs st')
                \<Longrightarrow> counts_ok (t_objs st' ! j) \<and> mo_pin_count (t_objs st' ! j) = 0"
    and pins: "m_pinned_objects st' = m_pinned_objects st" "m_pinned_stat st' = m_pinned_stat st"
  shows "mem_on F st'"
proof -
  have "j \<in> pinned_ids st' \<longleftrightarrow> j \<in> pinned_ids st" for j
    using old [of j] new [of j] len by (cases "j < length (t_objs st)") (auto simp: pinned_ids_def)
  then have "pinned_ids st' = pinned_ids st" by blast
  moreover have "counts_on (j \<in> F) (t_objs st' ! j)" if "j < length (t_objs st')" for j
  proof (cases "j < length (t_objs st)")
    case True
    with inv old [of j] show ?thesis by (simp add: mem_on_def)
  next
    case False
    then have "j \<notin> F" using inv by (auto simp: mem_on_def)
    with new [of j] that False show ?thesis by simp
  qed
  moreover have "F \<subseteq> {..<length (t_objs st')}" using inv len by (auto simp: mem_on_def)
  ultimately show ?thesis using inv ta pins by (simp add: mem_on_def del: set_map)
qed

text \<open>A direct release: the object joins the set of released ones, whatever holds it.\<close>

lemma t_free_on:
  assumes inv: "mem_on F st" and i: "i < length (t_objs st)"
  shows "mem_on (F \<union> ({i} \<inter> valid_ids st)) (t_free env st i)"
proof (cases "mo_valid (t_objs st ! i)")
  case False
  with inv show ?thesis by (simp add: t_free_invalid valid_ids_def)
next
  case True
  then have o: "t_objs (t_free env st i) = (t_objs st)[i := obj_invalidate (t_objs st ! i)]"
    by (simp add: t_free_def Let_def)
  have "talloc_inv (t_free env st i)" using inv t_free_inv [of st i] i by (simp add: mem_on_def)
  moreover have "pinned_ids (t_free env st i) = pinned_ids st"
    using i by (auto simp: pinned_ids_def o nth_list_update obj_invalidate_def split: if_splits)
  moreover have "F \<union> ({i} \<inter> valid_ids st) = insert i F" using True i by (auto simp: valid_ids_def)
  moreover have "counts_on (j \<in> insert i F) (t_objs (t_free env st i) ! j)" if "j < length (t_objs st)" for j
    using inv that i by (cases "j = i") (auto simp: mem_on_def o counts_on_def obj_invalidate_def)
  ultimately show ?thesis
    using inv i by (simp add: mem_on_def del: set_map) (simp add: o del: set_map)
qed

lemma t_free_fold_on:
  assumes "mem_on F st" and "set is \<subseteq> {..<length (t_objs st)}"
  shows "mem_on (F \<union> (set is \<inter> valid_ids st)) (fold (\<lambda>i st. t_free env st i) is st)"
  using assms
proof (induction "is" arbitrary: F st)
  case (Cons i "is")
  then have i: "i < length (t_objs st)" by simp
  have ta: "talloc_inv st" using Cons.prems(1) by (simp add: mem_on_def)
  have sub: "set is \<subseteq> {..<length (t_objs (t_free env st i))}" using Cons.prems(2) by (simp add: t_free_length)
  have "F \<union> ({i} \<inter> valid_ids st) \<union> (set is \<inter> (valid_ids st - {i})) = F \<union> (set (i # is) \<inter> valid_ids st)" by auto
  with Cons.IH [OF t_free_on [OF Cons.prems(1) i] sub] show ?case
    unfolding t_free_all_facts(2) [OF ta i] by simp
qed simp

lemma t_batched_free_on:
  assumes "mem_on F st" and "set is \<subseteq> {..<length (t_objs st)}"
  shows "mem_on (F \<union> (set is \<inter> valid_ids st)) (t_batched_free env st is)"
  using t_free_fold_on [OF assms] t_batched_free_seq [of st "is"] assms by (simp add: mem_on_def)

end

lemma alloc_keeps_monitor:
  "t_allocate env st shapes dtypes fmt = (st', r) \<Longrightarrow>
     m_pinned_objects st' = m_pinned_objects st \<and> m_pinned_stat st' = m_pinned_stat st"
  "t_batched_allocate env st shapes dtypes k fmt = (st', r') \<Longrightarrow>
     m_pinned_objects st' = m_pinned_objects st \<and> m_pinned_stat st' = m_pinned_stat st"
  by (auto simp: t_allocate_def t_batched_allocate_def Let_def split: sum.splits prod.splits if_splits)

section \<open>Reachable states\<close>

inductive mem_reachable :: "('s, 'd) mem_env \<Rightarrow> nat set \<Rightarrow> ('s, 'd) mem_state \<Rightarrow> bool" for env where
  start: "0 \<le> n \<Longrightarrow> mem_reachable env {} (mem_init (t_init env n (2 ^ k) None))"
| allocate: "mem_reachable env F st \<Longrightarrow> adapt_shapes_and_dtypes shapes dtypes = Inr (ss, ds)
    \<Longrightarrow> get_size_bytes env ss ds = Inr raw \<Longrightarrow> 0 < raw
    \<Longrightarrow> t_allocate env st shapes dtypes fmt = (st', Inr (Some i)) \<Longrightarrow> mem_reachable env F st'"
| batched_allocate: "mem_reachable env F st \<Longrightarrow> adapt_shapes_and_dtypes shapes dtypes = Inr (ss, ds)
    \<Longrightarrow> get_size_bytes env ss ds = Inr raw \<Longrightarrow> 0 < raw \<Longrightarrow> 0 < k
    \<Longrightarrow> t_batched_allocate env st shapes dtypes k fmt = (st', Inr (Some is)) \<Longrightarrow> mem_reachable env F st'"
| ref_up: "mem_reachable env F st \<Longrightarrow> i \<in> valid_ids st \<union> F \<Longrightarrow> mem_reachable env F (ref_count_up st i)"
| pin: "mem_reachable env F st \<Longrightarrow> i \<in> valid_ids st \<union> F \<Longrightarrow> mem_reachable env F (mem_pin now st i)"
| ref_down: "mem_reachable env F st \<Longrightarrow> i < length (t_objs st) \<Longrightarrow> mem_reachable env F (ref_count_down env st i)"
| unpin: "mem_reachable env F st \<Longrightarrow> i < length (t_objs st) \<Longrightarrow> mem_reachable env F (mem_unpin env st i)"
| check: "mem_reachable env F st \<Longrightarrow> check_timeouts env now T st = Some (st', n, m, k)
    \<Longrightarrow> mem_reachable env F st'"
| free: "mem_reachable env F st \<Longrightarrow> i < length (t_objs st)
    \<Longrightarrow> mem_reachable env (F \<union> ({i} \<inter> valid_ids st)) (t_free env st i)"
| batched_free: "mem_reachable env F st \<Longrightarrow> set is \<subseteq> {..<length (t_objs st)}
    \<Longrightarrow> mem_reachable env (F \<union> (set is \<inter> valid_ids st)) (t_batched_free env st is)"

context tensor_env
begin

lemma mem_reachable_on:
  assumes "mem_reachable env F st"
  shows "mem_on F st"
  using assms
proof induction
  case (start n k)
  have "talloc_inv (t_init env n (2 ^ k) None)"
    by (rule t_init_inv [OF sl start refl]) simp
  then show ?case
    by (auto simp: mem_on_def mem_init_def talloc.defs pinned_ids_def t_init_def talloc_inv_def
        valid_ids_def obj_region_def live_ok_def)
next
  case (allocate F st shapes dtypes ss ds raw fmt st' i)
  have "talloc_inv st" using allocate.IH by (simp add: mem_on_def)
  note A = t_allocate_facts [OF this allocate.hyps(3,4,5,2)]
  show ?case
  proof (rule alloc_mem_inv [OF allocate.IH A(1)])
    fix j assume "length (t_objs st) \<le> j" "j < length (t_objs st')"
    then have "j = i" using A(2,6) by simp
    then show "counts_ok (t_objs st' ! j) \<and> mo_pin_count (t_objs st' ! j) = 0"
      using A(5) by (metis (no_types, lifting) counts_ok_mk_obj)
  qed (use A alloc_keeps_monitor(1) [OF allocate.hyps(5)] in auto)
next
  case (batched_allocate F st shapes dtypes ss ds raw k fmt st' "is")
  have "talloc_inv st" using batched_allocate.IH by (simp add: mem_on_def)
  note A = t_batched_allocate_facts [OF this batched_allocate.hyps(3,4,5,6,2)]
  show ?case
  proof (rule alloc_mem_inv [OF batched_allocate.IH A(1)])
    fix j assume "length (t_objs st) \<le> j" "j < length (t_objs st')"
    then obtain d where "j = length (t_objs st) + d" "d < nat k" using A(6) le_Suc_ex by fastforce
    then show "counts_ok (t_objs st' ! j) \<and> mo_pin_count (t_objs st' ! j) = 0"
      using A(5) by (auto simp: Let_def counts_ok_mk_obj)
  qed (use A alloc_keeps_monitor(2) [OF batched_allocate.hyps(6)] in auto)
next
  case (check F st now T st' n m k)
  obtain st1 where "force_all env st (timeout_objects now T st) = Some st1" "mem_on F st1"
    using force_all_facts [OF check.IH timeout_objects_iff(2) [OF check.IH]] by blast
  with check.hyps(2) show ?case by (auto simp: check_timeouts_def Let_def)
next
  case (ref_up F st i)
  then have "i < length (t_objs st)" by (auto simp: valid_ids_def mem_on_def)
  with ref_up show ?case by (intro ref_count_up_inv) (auto simp: valid_ids_def)
next
  case (pin F st i now)
  then have "i < length (t_objs st)" by (auto simp: valid_ids_def mem_on_def)
  with pin show ?case by (intro mem_pin_inv) (auto simp: valid_ids_def)
qed (simp_all add: ref_count_down_inv mem_unpin_facts(1) t_free_on t_batched_free_on del: Int_insert_left)

lemma mem_reachable_inv: "mem_reachable env {} st \<Longrightarrow> mem_inv st"
  by (rule mem_reachable_on)

end

section \<open>Properties\<close>


text \<open>
  A check of the pin monitor always comes to an end: every object whose last pin is older
  than the timeout loses all its pins, however many it has, and is released if no reference
  holds it; every other object keeps its counters and stays as valid as it was.
\<close>

theorem check_timeouts_releases_expired:
  assumes "sl_spec env" and "chunk_spec env" and "mem_inv st"
  shows "\<exists>st' n. check_timeouts env now T st = Some (st', length (m_pinned_objects st), n, n) \<and> mem_inv st' \<and>
    length (t_objs st') = length (t_objs st) \<and>
    (\<forall>i < length (t_objs st).
       let expired = (\<exists>t. map_of (m_pinned_objects st) i = Some t \<and> T < now - t)
       in mo_pin_count (t_objs st' ! i) = (if expired then 0 else mo_pin_count (t_objs st ! i)) \<and>
          mo_ref_count (t_objs st' ! i) = mo_ref_count (t_objs st ! i) \<and>
          (mo_valid (t_objs st' ! i) \<longleftrightarrow>
             mo_valid (t_objs st ! i) \<and> (expired \<longrightarrow> 0 < mo_ref_count (t_objs st ! i))))"
proof -
  have env: "tensor_env env"
    using assms(1,2) by (simp add: tensor_env_def tensor_env_axioms_def memory_env_def)
  let ?is = "timeout_objects now T st"
  note T = tensor_env.timeout_objects_iff(1) [OF env assms(3), of _ now T]
    and T2 = tensor_env.timeout_objects_iff(2) [OF env assms(3), of now T]
  obtain st' where s: "force_all env st ?is = Some st'" "mem_inv st'" "length (t_objs st') = length (t_objs st)"
    "\<forall>j. mo_pin_count (t_objs st' ! j) = (if j \<in> set ?is then 0 else mo_pin_count (t_objs st ! j)) \<and>
         mo_ref_count (t_objs st' ! j) = mo_ref_count (t_objs st ! j)"
    using tensor_env.force_all_facts [OF env assms(3) T2] by blast
  have "mo_valid (t_objs st' ! i) \<longleftrightarrow>
      mo_valid (t_objs st ! i) \<and> (i \<in> set ?is \<longrightarrow> 0 < mo_ref_count (t_objs st ! i))"
    if "i < length (t_objs st)" for i
    using that mem_on_obj(1) [OF assms(3) that] mem_on_obj(1) [OF s(2), of i] s(3,4) T [of i]
      mem_on_obj(4) [OF assms(3) that] map_of_Some_key [of "m_pinned_objects st" i]
    by (auto simp: counts_ok_def simp del: set_map)
  with s show ?thesis
    by (intro exI [of _ st'] exI [of _ "length ?is"]) (simp add: check_timeouts_def Let_def T)
qed

definition demo_mem :: "(int list, int) mem_state" where
  "demo_mem = mem_pin 5 (fst (t_allocate ref_mem_env (mem_init (t_init ref_mem_env 16384 4096 None))
     (One [2, 8]) (One 2) KV_2LTD)) 0"

lemma demo_mem_reachable: "mem_reachable ref_mem_env {} demo_mem"
proof -
  let ?st = "mem_init (t_init ref_mem_env 16384 4096 None) :: (int list, int) mem_state"
  have start: "mem_reachable ref_mem_env {} ?st"
    using mem_reachable.start [of 16384 ref_mem_env 12] by simp
  obtain st' r where r: "t_allocate ref_mem_env ?st (One [2, 8]) (One 2) KV_2LTD = (st', r)"
    by fastforce
  moreover have "snd (t_allocate ref_mem_env ?st (One [2, 8]) (One 2) KV_2LTD) = Inr (Some 0)" by code_simp
  ultimately have al: "t_allocate ref_mem_env ?st (One [2, 8]) (One 2) KV_2LTD = (st', Inr (Some 0))" by simp
  have st': "mem_reachable ref_mem_env {} st'"
    by (rule mem_reachable.allocate [OF start _ _ _ al, of "[[2, 8]]" "[2]" 32])
      (simp_all add: adapt_shapes_and_dtypes_def get_size_bytes_def ref_mem_env_def)
  have "talloc_inv ?st" using ref_tensor.mem_reachable_inv [OF start] by (simp add: mem_inv_def)
  from ref_tensor.t_allocate_facts(3) [OF this _ _ al, of "[[2, 8]]" "[2]" 32]
  have "0 \<in> valid_ids st'"
    by (simp add: adapt_shapes_and_dtypes_def get_size_bytes_def ref_mem_env_def)
  from this mem_reachable.pin [OF st', of 0 5] show ?thesis by (simp add: demo_mem_def al)
qed


theorem check_timeouts_releases_expired_witness:
  "\<exists>st' n. check_timeouts ref_mem_env 100 30 (ref_count_down ref_mem_env demo_mem 0) = Some (st', 1, n, n) \<and>
     mo_pin_count (t_objs st' ! 0) = 0 \<and> \<not> mo_valid (t_objs st' ! 0)"
proof -
  let ?st = "ref_count_down ref_mem_env demo_mem 0"
  have len: "length (t_objs demo_mem) = 1" and len': "length (t_objs ?st) = 1" by code_simp+
  have inv: "mem_inv ?st"
    using ref_tensor.ref_count_down_inv [OF ref_tensor.mem_reachable_inv [OF demo_mem_reachable]] len by simp
  have "m_pinned_objects ?st = [(0, 5)]" "mo_ref_count (t_objs ?st ! 0) = 0" by code_simp+
  with check_timeouts_releases_expired [OF ref_mem_env_sl ref_mem_env_chunk inv, of 100 30] len'
  show ?thesis by (auto simp: Let_def)
qed

end
