(* ===== verification/PagedAllocator.thy ===== *)
theory PagedAllocator
  imports MemoryObj
begin

text \<open>
  \<open>PagedTensorMemoryAllocator\<close> of \<open>v1/memory_management.py\<close>. The allocator makes one
  memory object per page when it is built, so a page and its object share their index; the
  deque of free objects is the list \<open>p_free\<close> of indices. \<open>torch.split\<close> is a further
  parameter. Nothing marks an object as released: \<open>invalidate\<close> is commented out in the code,
  so \<open>is_valid\<close> stays true and the counters alone decide what is returned to the deque.
\<close>

record ('s, 'd) page_env = "('s, 'd) mem_env" +
  torch_split :: "int \<Rightarrow> int \<Rightarrow> (int \<times> int) list"

record ('s, 'd) palloc =
  p_buffer_size :: int
  p_shapes :: "'s list"
  p_dtypes :: "'d list"
  p_fmt :: mem_fmt
  p_align_bytes :: int
  p_paged_buffers :: "(int \<times> int) list"
  p_free_blocks :: "nat list"
  p_num_active :: int
  p_total_allocated :: int
  p_objs :: "('s, 'd) mem_obj list"

section \<open>Operations\<close>

definition page_obj :: "'s list \<Rightarrow> 'd list \<Rightarrow> mem_fmt \<Rightarrow> int \<Rightarrow> nat \<Rightarrow> int \<times> int \<Rightarrow> ('s, 'd) mem_obj" where
  "page_obj shapes dtypes fmt align idx buf = mk_obj shapes dtypes (int idx) align fmt buf"

definition p_init ::
    "('s, 'd) page_env \<Rightarrow> int \<Rightarrow> 's list \<Rightarrow> 'd list \<Rightarrow> mem_fmt \<Rightarrow> ('s, 'd) palloc result" where
  "p_init env buffer_size shapes dtypes fmt =
     (case get_size_bytes (mem_env.truncate env) shapes dtypes of
        Inl e \<Rightarrow> Inl e
      | Inr align_bytes \<Rightarrow>
          if align_bytes = 0 then Inl ZeroDivisionError
          else if buffer_size mod align_bytes \<noteq> 0 then Inl AssertionError
          else let bufs = torch_split env buffer_size align_bytes
               in if bufs \<noteq> [] \<and> shapes = [] then Inl IndexError
                  else Inr \<lparr>p_buffer_size = buffer_size, p_shapes = shapes, p_dtypes = dtypes, p_fmt = fmt,
                    p_align_bytes = align_bytes, p_paged_buffers = bufs, p_free_blocks = [0 ..< length bufs],
                    p_num_active = 0, p_total_allocated = 0,
                    p_objs = map (\<lambda>(idx, buf). page_obj shapes dtypes fmt align_bytes idx buf)
                               (enumerate 0 bufs)\<rparr>)"

definition upd_page ::
    "nat \<Rightarrow> (('s, 'd) mem_obj \<Rightarrow> ('s, 'd) mem_obj) \<Rightarrow> ('s, 'd) palloc \<Rightarrow> ('s, 'd) palloc" where
  "upd_page i f st = st\<lparr>p_objs := (p_objs st)[i := f (p_objs st ! i)]\<rparr>"

definition take_slice :: "int \<Rightarrow> int \<times> int \<Rightarrow> int \<times> int" where
  "take_slice n raw = (fst raw, min n (snd raw))"

definition p_setup ::
    "('s, 'd) page_env \<Rightarrow> ('s, 'd) palloc \<Rightarrow> 's list \<Rightarrow> 'd list \<Rightarrow> mem_fmt \<Rightarrow> nat \<Rightarrow> ('s, 'd) palloc result" where
  "p_setup env st ss ds fmt i =
     (if ss = [] then Inl IndexError
      else let st1 = upd_page i (\<lambda>obj. obj\<lparr>mo_shape := hd ss, mo_dtype := hd ds, mo_shapes := ss,
                       mo_dtypes := ds, mo_fmt := fmt, mo_ref_count := 1\<rparr>) st
           in if ss \<noteq> p_shapes st
              then (case get_size_bytes (mem_env.truncate env) ss ds of
                      Inl e \<Rightarrow> Inl e
                    | Inr n \<Rightarrow> Inr (upd_page i (mo_raw_update (take_slice n)) st1))
              else Inr st1)"

definition p_allocate ::
    "('s, 'd) page_env \<Rightarrow> ('s, 'd) palloc \<Rightarrow> 's one_or_many \<Rightarrow> 'd one_or_many \<Rightarrow> mem_fmt
      \<Rightarrow> ('s, 'd) palloc \<times> nat option result" where
  "p_allocate env st shapes dtypes fmt =
     (case adapt_shapes_and_dtypes shapes dtypes of
        Inl e \<Rightarrow> (st, Inl e)
      | Inr (ss, ds) \<Rightarrow>
          (case p_free_blocks st of
             [] \<Rightarrow> (st, Inr None)
           | i # rest \<Rightarrow>
               let st1 = st\<lparr>p_free_blocks := rest\<rparr>
               in (case p_setup env st1 ss ds fmt i of
                     Inl e \<Rightarrow> (st1, Inl e)
                   | Inr st2 \<Rightarrow>
                       (st2\<lparr>p_num_active := p_num_active st2 + 1,
                            p_total_allocated := p_total_allocated st2 + p_align_bytes st2\<rparr>,
                        Inr (Some i)))))"

definition p_restore :: "('s, 'd) palloc \<Rightarrow> nat \<Rightarrow> ('s, 'd) palloc" where
  "p_restore st i =
     (if mo_shapes (p_objs st ! i) \<noteq> p_shapes st
      then upd_page i (mo_raw_update (\<lambda>_. p_paged_buffers st ! nat (mo_address (p_objs st ! i)))) st
      else st)"

definition p_free :: "('s, 'd) palloc \<Rightarrow> nat \<Rightarrow> ('s, 'd) palloc" where
  "p_free st i =
     (if \<not> mo_valid (p_objs st ! i) then st
      else let st1 = p_restore st i
           in st1\<lparr>p_free_blocks := p_free_blocks st1 @ [i],
                  p_total_allocated := p_total_allocated st1 - p_align_bytes st1,
                  p_num_active := p_num_active st1 - 1\<rparr>)"

fun p_return_all :: "('s, 'd) palloc \<Rightarrow> nat list \<Rightarrow> ('s, 'd) palloc" where
  "p_return_all st [] = st"
| "p_return_all st (i # is) =
     (if \<not> mo_valid (p_objs st ! i) then p_return_all st is
      else let st1 = p_restore st i
           in p_return_all (st1\<lparr>p_free_blocks := p_free_blocks st1 @ [i]\<rparr>) is)"

definition p_batched_free :: "('s, 'd) palloc \<Rightarrow> nat list \<Rightarrow> bool \<Rightarrow> ('s, 'd) palloc" where
  "p_batched_free st is update_stats =
     (let st1 = p_return_all st is
      in if update_stats
         then st1\<lparr>p_total_allocated := p_total_allocated st1 - p_align_bytes st1 * int (length is),
                  p_num_active := p_num_active st1 - int (length is)\<rparr>
         else st1)"

fun p_take ::
    "('s, 'd) page_env \<Rightarrow> ('s, 'd) palloc \<Rightarrow> 's list \<Rightarrow> 'd list \<Rightarrow> mem_fmt \<Rightarrow> nat list \<Rightarrow> nat
      \<Rightarrow> ('s, 'd) palloc \<times> nat list option result" where
  "p_take env st ss ds fmt allocated 0 = (st, Inr (Some allocated))"
| "p_take env st ss ds fmt allocated (Suc n) =
     (case p_free_blocks st of
        [] \<Rightarrow> (p_batched_free st allocated False, Inr None)
      | i # rest \<Rightarrow>
          let st1 = st\<lparr>p_free_blocks := rest\<rparr>
          in (case p_setup env st1 ss ds fmt i of
                Inl e \<Rightarrow> (st1, Inl e)
              | Inr st2 \<Rightarrow> p_take env st2 ss ds fmt (allocated @ [i]) n))"

definition p_batched_allocate ::
    "('s, 'd) page_env \<Rightarrow> ('s, 'd) palloc \<Rightarrow> 's one_or_many \<Rightarrow> 'd one_or_many \<Rightarrow> int \<Rightarrow> mem_fmt
      \<Rightarrow> ('s, 'd) palloc \<times> nat list option result" where
  "p_batched_allocate env st shapes dtypes batch_size fmt =
     (case adapt_shapes_and_dtypes shapes dtypes of
        Inl e \<Rightarrow> (st, Inl e)
      | Inr (ss, ds) \<Rightarrow>
          (case p_take env st ss ds fmt [] (nat batch_size) of
             (st1, Inr (Some is)) \<Rightarrow>
               let n = p_num_active st1 + batch_size
               in (st1\<lparr>p_num_active := n, p_total_allocated := n * p_align_bytes st1\<rparr>, Inr (Some is))
           | (st1, r) \<Rightarrow> (st1, r)))"

definition p_memcheck :: "('s, 'd) palloc \<Rightarrow> bool" where
  "p_memcheck st \<longleftrightarrow>
     int (length (p_free_blocks st)) * p_align_bytes st + p_total_allocated st = p_buffer_size st"

definition p_ref_count_down :: "('s, 'd) palloc \<Rightarrow> nat \<Rightarrow> ('s, 'd) palloc" where
  "p_ref_count_down st i =
     (let st1 = upd_page i (mo_ref_count_update (\<lambda>r. r - 1)) st;
          st2 = (if mo_ref_count (p_objs st1 ! i) < 0 then upd_page i (mo_ref_count_update (\<lambda>_. 0)) st1 else st1);
          obj = p_objs st2 ! i
      in if mo_ref_count obj = 0 \<and> mo_has_parent obj \<and> mo_pin_count obj = 0 then p_free st2 i else st2)"

section \<open>Invariant\<close>

definition page_raw :: "('s, 'd) palloc \<Rightarrow> nat \<Rightarrow> int \<times> int" where
  "page_raw st i = (p_align_bytes st * int i, p_align_bytes st)"

definition page_ok :: "('s, 'd) palloc \<Rightarrow> nat \<Rightarrow> bool" where
  "page_ok st i \<longleftrightarrow>
     (let obj = p_objs st ! i
      in mo_valid obj \<and> mo_has_parent obj \<and> mo_address obj = int i \<and> mo_phy_size obj = p_align_bytes st \<and>
         fst (mo_raw obj) = p_align_bytes st * int i \<and> snd (mo_raw obj) \<le> p_align_bytes st \<and>
         (mo_shapes obj = p_shapes st \<or> i \<in> set (p_free_blocks st) \<longrightarrow> mo_raw obj = page_raw st i))"

definition palloc_inv :: "('s, 'd) palloc \<Rightarrow> bool" where
  "palloc_inv st \<longleftrightarrow>
     distinct (p_free_blocks st) \<and> set (p_free_blocks st) \<subseteq> {..<length (p_objs st)} \<and>
     p_paged_buffers st = map (page_raw st) [0 ..< length (p_objs st)] \<and>
     (\<forall>i < length (p_objs st). page_ok st i) \<and>
     p_num_active st = int (length (p_objs st)) - int (length (p_free_blocks st)) \<and>
     p_total_allocated st = p_num_active st * p_align_bytes st \<and>
     p_buffer_size st = int (length (p_objs st)) * p_align_bytes st"

definition outstanding :: "('s, 'd) palloc \<Rightarrow> nat set" where
  "outstanding st = {..<length (p_objs st)} - set (p_free_blocks st)"

definition split_spec :: "('s, 'd) page_env \<Rightarrow> bool" where
  "split_spec env \<longleftrightarrow> (\<forall>u k. 0 < k \<longrightarrow> 0 < u \<longrightarrow>
     torch_split env (int k * u) u = map (\<lambda>i. (u * int i, u)) [0 ..< k])"

definition pages_ok :: "('s, 'd) palloc \<Rightarrow> bool" where
  "pages_ok st \<longleftrightarrow>
     distinct (p_free_blocks st) \<and> set (p_free_blocks st) \<subseteq> {..<length (p_objs st)} \<and>
     p_paged_buffers st = map (page_raw st) [0 ..< length (p_objs st)] \<and>
     (\<forall>i < length (p_objs st). page_ok st i)"

definition p_fixed :: "('s, 'd) palloc \<Rightarrow> ('s, 'd) palloc \<Rightarrow> bool" where
  "p_fixed st st' \<longleftrightarrow> p_buffer_size st' = p_buffer_size st \<and> p_shapes st' = p_shapes st \<and>
     p_align_bytes st' = p_align_bytes st \<and> p_paged_buffers st' = p_paged_buffers st \<and>
     length (p_objs st') = length (p_objs st) \<and> p_num_active st' = p_num_active st \<and>
     p_total_allocated st' = p_total_allocated st"

lemma palloc_inv_pages:
  "palloc_inv st \<longleftrightarrow> pages_ok st \<and>
     p_num_active st = int (length (p_objs st)) - int (length (p_free_blocks st)) \<and>
     p_total_allocated st = p_num_active st * p_align_bytes st \<and>
     p_buffer_size st = int (length (p_objs st)) * p_align_bytes st"
  by (auto simp: palloc_inv_def pages_ok_def)

lemma p_fixed_trans: "p_fixed st st' \<Longrightarrow> p_fixed st' st'' \<Longrightarrow> p_fixed st st''"
  by (simp add: p_fixed_def)

lemma page_ok_counters:
  "page_ok (st\<lparr>p_num_active := a, p_total_allocated := b\<rparr>) i = page_ok st i"
  "pages_ok (st\<lparr>p_num_active := a, p_total_allocated := b\<rparr>) = pages_ok st"
  "pages_ok (st\<lparr>p_total_allocated := b, p_num_active := a\<rparr>) = pages_ok st"
  by (simp_all add: page_ok_def pages_ok_def page_raw_def [abs_def])

lemma pages_ok_step:
  assumes ok: "pages_ok st" and fx: "p_fixed st st'"
    and other: "\<And>j. j < length (p_objs st) \<Longrightarrow> j \<noteq> i \<Longrightarrow> p_objs st' ! j = p_objs st ! j"
    and free: "\<And>j. j \<noteq> i \<Longrightarrow> j \<in> set (p_free_blocks st') \<longleftrightarrow> j \<in> set (p_free_blocks st)"
    and i: "i < length (p_objs st)" "page_ok st' i" and d: "distinct (p_free_blocks st')"
  shows "pages_ok st'"
proof -
  have raw: "page_raw st' = page_raw st" using fx by (simp add: page_raw_def p_fixed_def fun_eq_iff)
  have "page_ok st' j" if "j < length (p_objs st')" for j
  proof (cases "j = i")
    case False
    have "j < length (p_objs st)" using that fx by (simp add: p_fixed_def)
    then have "page_ok st j" using ok by (simp add: pages_ok_def)
    with False other [OF \<open>j < length (p_objs st)\<close> False] free [of j] raw fx show ?thesis
      by (simp add: page_ok_def p_fixed_def)
  qed (use i in simp)
  moreover have "set (p_free_blocks st') \<subseteq> {..<length (p_objs st')}"
    using ok free i fx by (force simp: pages_ok_def p_fixed_def)
  ultimately show ?thesis using ok fx d raw by (simp add: pages_ok_def p_fixed_def)
qed

lemma p_setup_ok:
  assumes ok: "pages_ok st" and free: "p_free_blocks st = i # rest"
    and l: "length ss = length ds" and ss: "ss \<noteq> []"
  shows "\<exists>st'. p_setup env (st\<lparr>p_free_blocks := rest\<rparr>) ss ds fmt i = Inr st' \<and> pages_ok st' \<and> p_fixed st st' \<and>
    p_free_blocks st' = rest \<and> mo_shapes (p_objs st' ! i) = ss \<and> mo_ref_count (p_objs st' ! i) = 1"
proof -
  let ?o = "p_objs st ! i"
  have i: "i < length (p_objs st)" "page_ok st i" "i \<notin> set rest" "distinct rest"
    using ok free by (auto simp: pages_ok_def)
  obtain n where n: "get_size_bytes (mem_env.truncate env) ss ds = Inr n" using l by (simp add: get_size_bytes_def)
  define o' where "o' = ?o\<lparr>mo_shape := hd ss, mo_dtype := hd ds, mo_shapes := ss, mo_dtypes := ds, mo_fmt := fmt,
      mo_ref_count := 1, mo_raw := (if ss \<noteq> p_shapes st then take_slice n (mo_raw ?o) else mo_raw ?o)\<rparr>"
  define st' where "st' = st\<lparr>p_free_blocks := rest, p_objs := (p_objs st)[i := o']\<rparr>"
  have e: "p_setup env (st\<lparr>p_free_blocks := rest\<rparr>) ss ds fmt i = Inr st'"
    using n ss i(1) by (cases ?o) (simp add: p_setup_def Let_def upd_page_def st'_def o'_def)
  have fx: "p_fixed st st'" by (simp add: p_fixed_def st'_def)
  have o: "p_objs st' ! i = o'" using i(1) by (simp add: st'_def)
  have "page_ok st' i"
    using i free o by (auto simp: page_ok_def Let_def o'_def take_slice_def page_raw_def st'_def)
  then have "pages_ok st'"
    using i free by (intro pages_ok_step [OF ok fx]) (auto simp: st'_def)
  with e fx o show ?thesis by (intro exI [of _ st']) (simp add: o'_def st'_def)
qed

lemma p_restore_raw:
  assumes "pages_ok st" and "i < length (p_objs st)"
  shows "p_restore st i = upd_page i (mo_raw_update (\<lambda>_. page_raw st i)) st"
proof (cases "mo_shapes (p_objs st ! i) = p_shapes st")
  case True
  then have "mo_raw (p_objs st ! i) = page_raw st i"
    using assms by (auto simp: pages_ok_def page_ok_def Let_def)
  then have "(p_objs st ! i)\<lparr>mo_raw := page_raw st i\<rparr> = p_objs st ! i" by (cases "p_objs st ! i") simp
  with True show ?thesis by (simp add: p_restore_def upd_page_def)
next
  case False
  with assms show ?thesis by (simp add: p_restore_def pages_ok_def page_ok_def Let_def)
qed

lemma p_return_ok:
  assumes ok: "pages_ok st" and i: "i \<in> outstanding st"
  defines "st' \<equiv> (p_restore st i)\<lparr>p_free_blocks := p_free_blocks (p_restore st i) @ [i]\<rparr>"
  shows "pages_ok st'" and "p_fixed st st'" and "p_free_blocks st' = p_free_blocks st @ [i]"
    and "mo_valid (p_objs st ! i)" and "outstanding st' = outstanding st - {i}"
    and "p_free_blocks (p_restore st i) = p_free_blocks st"
    and "p_align_bytes (p_restore st i) = p_align_bytes st \<and> p_num_active (p_restore st i) = p_num_active st \<and>
      p_total_allocated (p_restore st i) = p_total_allocated st"
proof -
  have i': "i < length (p_objs st)" "i \<notin> set (p_free_blocks st)" "page_ok st i"
    using ok i by (auto simp: outstanding_def pages_ok_def)
  show "mo_valid (p_objs st ! i)" using i'(3) by (simp add: page_ok_def Let_def)
  note R = p_restore_raw [OF ok i'(1)]
  show "p_free_blocks (p_restore st i) = p_free_blocks st"
    and "p_align_bytes (p_restore st i) = p_align_bytes st \<and> p_num_active (p_restore st i) = p_num_active st \<and>
      p_total_allocated (p_restore st i) = p_total_allocated st" by (simp_all add: R upd_page_def)
  show fx: "p_fixed st st'" and fr: "p_free_blocks st' = p_free_blocks st @ [i]"
    by (simp_all add: st'_def R upd_page_def p_fixed_def)
  have "p_objs st' ! i = (p_objs st ! i)\<lparr>mo_raw := page_raw st i\<rparr>"
    using i'(1) by (simp add: st'_def R upd_page_def)
  then have "page_ok st' i"
    using i'(3) fx by (simp add: page_ok_def Let_def p_fixed_def page_raw_def)
  then show "pages_ok st'"
    using i' ok fr by (intro pages_ok_step [OF ok fx]) (auto simp: st'_def R upd_page_def pages_ok_def)
  show "outstanding st' = outstanding st - {i}" using fx fr by (auto simp: outstanding_def p_fixed_def)
qed

lemma p_return_all_ok:
  assumes "pages_ok st" and "distinct is" and "set is \<subseteq> outstanding st"
  shows "pages_ok (p_return_all st is) \<and> p_fixed st (p_return_all st is) \<and>
    p_free_blocks (p_return_all st is) = p_free_blocks st @ is"
  using assms
proof (induction "is" arbitrary: st)
  case Nil
  then show ?case by (simp add: p_fixed_def)
next
  case (Cons i "is")
  then have i: "i \<in> outstanding st" by simp
  note R = p_return_ok [OF Cons.prems(1) i]
  have "set is \<subseteq> outstanding ((p_restore st i)\<lparr>p_free_blocks := p_free_blocks (p_restore st i) @ [i]\<rparr>)"
    using Cons.prems(2,3) unfolding R(5) by auto
  from Cons.IH [OF R(1) _ this] Cons.prems(2) R p_fixed_trans [OF R(2)] show ?case by (simp add: Let_def)
qed

lemma p_take_ok:
  assumes "pages_ok st" and l: "length ss = length ds" "ss \<noteq> []"
    and "distinct allocated" "set allocated \<subseteq> outstanding st"
  shows "\<exists>st'. pages_ok st' \<and> p_fixed st st' \<and>
    (if n \<le> length (p_free_blocks st)
     then p_take env st ss ds fmt allocated n = (st', Inr (Some (allocated @ take n (p_free_blocks st)))) \<and>
          p_free_blocks st' = drop n (p_free_blocks st)
     else p_take env st ss ds fmt allocated n = (st', Inr None) \<and>
          p_free_blocks st' = allocated @ p_free_blocks st)"
  using assms(1,4,5)
proof (induction n arbitrary: st allocated)
  case 0
  then show ?case by (intro exI [of _ st]) (simp add: p_fixed_def)
next
  case (Suc n)
  show ?case
  proof (cases "p_free_blocks st")
    case Nil
    with p_return_all_ok [OF Suc.prems] show ?thesis
      by (intro exI [of _ "p_return_all st allocated"]) (simp add: p_batched_free_def)
  next
    case (Cons i rest)
    obtain st2 where s2: "p_setup env (st\<lparr>p_free_blocks := rest\<rparr>) ss ds fmt i = Inr st2" "pages_ok st2"
      "p_fixed st st2" "p_free_blocks st2 = rest"
      using p_setup_ok [OF Suc.prems(1) Cons l, of env fmt] by blast
    have i: "i \<notin> set rest" "i < length (p_objs st)" using Suc.prems(1) Cons by (auto simp: pages_ok_def)
    have "distinct (allocated @ [i])" "set (allocated @ [i]) \<subseteq> outstanding st2"
      using Suc.prems(2,3) s2(3,4) i Cons by (auto simp: outstanding_def p_fixed_def)
    from Suc.IH [OF s2(2) this] obtain st' where s': "pages_ok st'" "p_fixed st2 st'"
      "if n \<le> length rest then p_take env st2 ss ds fmt (allocated @ [i]) n
           = (st', Inr (Some ((allocated @ [i]) @ take n rest))) \<and> p_free_blocks st' = drop n rest
       else p_take env st2 ss ds fmt (allocated @ [i]) n = (st', Inr None) \<and>
           p_free_blocks st' = (allocated @ [i]) @ rest"
      unfolding s2(4) by blast
    show ?thesis
      using s' s2 Cons p_fixed_trans [OF s2(3) s'(2)]
      by (intro exI [of _ st']) (simp add: Let_def split: if_splits)
  qed
qed

lemma p_init_inv:
  assumes "split_spec env" and r: "p_init env n shapes dtypes fmt = Inr st"
    and "get_size_bytes (mem_env.truncate env) shapes dtypes = Inr u" and "0 < u" and "0 < n"
  shows "palloc_inv st \<and> outstanding st = {}"
proof -
  have dvd: "n mod u = 0" using r assms(3) by (auto simp: p_init_def Let_def split: if_splits)
  then obtain q where q: "n = q * u" by (metis mod_0_imp_dvd dvd_def mult.commute)
  have "0 < q" using assms(4,5) q by (simp add: zero_less_mult_iff)
  then have k: "n = int (nat q) * u" "0 < nat q" using q by simp_all
  have bufs: "torch_split env n u = map (\<lambda>i. (u * int i, u)) [0 ..< nat q]"
    using assms(1) [unfolded split_spec_def, rule_format, OF k(2) assms(4)] k(1) by metis
  have st: "st = \<lparr>p_buffer_size = n, p_shapes = shapes, p_dtypes = dtypes, p_fmt = fmt,
      p_align_bytes = u, p_paged_buffers = map (\<lambda>i. (u * int i, u)) [0 ..< nat q],
      p_free_blocks = [0 ..< nat q], p_num_active = 0, p_total_allocated = 0,
      p_objs = map (\<lambda>(idx, buf). page_obj shapes dtypes fmt u idx buf)
         (enumerate 0 (map (\<lambda>i. (u * int i, u)) [0 ..< nat q]))\<rparr>"
    using r assms(3,4) dvd bufs by (auto simp: p_init_def Let_def split: if_splits)
  have objs: "length (p_objs st) = nat q" "i < nat q \<Longrightarrow> p_objs st ! i = page_obj shapes dtypes fmt u i (u * int i, u)" for i
    by (simp_all add: st nth_enumerate_eq)
  have cst: "p_align_bytes st = u" "p_free_blocks st = [0 ..< nat q]" "p_num_active st = 0"
    "p_total_allocated st = 0" "p_buffer_size st = n"
    "p_paged_buffers st = map (\<lambda>i. (u * int i, u)) [0 ..< nat q]" by (simp_all add: st)
  have "page_ok st i" if "i < nat q" for i
    using objs(2) [OF that] that by (simp add: page_ok_def page_obj_def mk_obj_def cst page_raw_def)
  then have "pages_ok st" by (auto simp: pages_ok_def objs cst page_raw_def)
  with k show ?thesis by (auto simp: palloc_inv_pages objs(1) cst outstanding_def)
qed

lemma outstanding_split:
  assumes "pages_ok st"
  shows "outstanding st \<inter> set (p_free_blocks st) = {}" and "outstanding st \<union> set (p_free_blocks st) = {..<length (p_objs st)}"
  using assms by (auto simp: outstanding_def pages_ok_def)

lemma p_allocate_ok:
  assumes inv: "palloc_inv st" and ad: "adapt_shapes_and_dtypes shapes dtypes = Inr (ss, ds)" "ss \<noteq> []"
  shows "case p_free_blocks st of
      [] \<Rightarrow> p_allocate env st shapes dtypes fmt = (st, Inr None)
    | i # rest \<Rightarrow> \<exists>st'. p_allocate env st shapes dtypes fmt = (st', Inr (Some i)) \<and> palloc_inv st' \<and>
        p_free_blocks st' = rest \<and> outstanding st' = insert i (outstanding st) \<and> i \<notin> outstanding st"
proof (cases "p_free_blocks st")
  case Nil
  with ad show ?thesis by (simp add: p_allocate_def)
next
  case (Cons i rest)
  have ok: "pages_ok st" using inv by (simp add: palloc_inv_pages)
  have l: "length ss = length ds" using ad(1) by (auto simp: adapt_shapes_and_dtypes_def Let_def split: if_splits)
  obtain st2 where s2: "p_setup env (st\<lparr>p_free_blocks := rest\<rparr>) ss ds fmt i = Inr st2" "pages_ok st2"
      "p_fixed st st2" "p_free_blocks st2 = rest"
    using p_setup_ok [OF ok Cons l ad(2), of env fmt] by blast
  have i: "i \<notin> set rest" "i < length (p_objs st)" using ok Cons by (auto simp: pages_ok_def)
  with s2(3,4) Cons have "outstanding st2 = insert i (outstanding st)" "i \<notin> outstanding st"
    by (auto simp: outstanding_def p_fixed_def)
  with s2 ad Cons inv show ?thesis
    by (simp add: p_allocate_def Let_def palloc_inv_pages page_ok_counters p_fixed_def outstanding_def algebra_simps)
qed

lemma p_batched_allocate_ok:
  assumes inv: "palloc_inv st" and ad: "adapt_shapes_and_dtypes shapes dtypes = Inr (ss, ds)" "ss \<noteq> []" and k: "0 \<le> k"
  shows "\<exists>st'. palloc_inv st' \<and>
    (if nat k \<le> length (p_free_blocks st)
     then p_batched_allocate env st shapes dtypes k fmt = (st', Inr (Some (take (nat k) (p_free_blocks st)))) \<and>
          p_free_blocks st' = drop (nat k) (p_free_blocks st) \<and>
          outstanding st' = outstanding st \<union> set (take (nat k) (p_free_blocks st))
     else p_batched_allocate env st shapes dtypes k fmt = (st', Inr None) \<and>
          p_free_blocks st' = p_free_blocks st \<and> outstanding st' = outstanding st \<and>
          p_num_active st' = p_num_active st \<and> p_total_allocated st' = p_total_allocated st)"
proof -
  have ok: "pages_ok st" using inv by (simp add: palloc_inv_pages)
  have l: "length ss = length ds" using ad(1) by (auto simp: adapt_shapes_and_dtypes_def Let_def split: if_splits)
  obtain st' where s': "pages_ok st'" "p_fixed st st'" "if nat k \<le> length (p_free_blocks st)
     then p_take env st ss ds fmt [] (nat k) = (st', Inr (Some ([] @ take (nat k) (p_free_blocks st)))) \<and>
          p_free_blocks st' = drop (nat k) (p_free_blocks st)
     else p_take env st ss ds fmt [] (nat k) = (st', Inr None) \<and> p_free_blocks st' = [] @ p_free_blocks st"
    using p_take_ok [OF ok l ad(2), of "[]" "nat k" env fmt] by auto
  show ?thesis
  proof (cases "nat k \<le> length (p_free_blocks st)")
    case True
    have "set (p_free_blocks st) = set (take (nat k) (p_free_blocks st)) \<union> set (drop (nat k) (p_free_blocks st))"
      by (metis append_take_drop_id set_append)
    moreover have "set (take (nat k) (p_free_blocks st)) \<inter> set (drop (nat k) (p_free_blocks st)) = {}"
      using ok by (simp add: pages_ok_def set_take_disj_set_drop_if_distinct)
    ultimately have out: "outstanding st' = outstanding st \<union> set (take (nat k) (p_free_blocks st))"
      using True s'(2,3) outstanding_split [OF ok] by (auto simp: outstanding_def p_fixed_def)
    define st'' where "st'' = st'\<lparr>p_num_active := p_num_active st' + k,
        p_total_allocated := (p_num_active st' + k) * p_align_bytes st'\<rparr>"
    have "palloc_inv st''"
      using s' inv True k by (simp add: st''_def palloc_inv_pages page_ok_counters p_fixed_def of_nat_diff)
    moreover have "p_batched_allocate env st shapes dtypes k fmt = (st'', Inr (Some (take (nat k) (p_free_blocks st))))"
      using s'(3) True ad by (simp add: p_batched_allocate_def Let_def st''_def)
    moreover have "p_free_blocks st'' = drop (nat k) (p_free_blocks st)" "outstanding st'' = outstanding st'"
      using s'(3) True by (simp_all add: st''_def outstanding_def)
    ultimately show ?thesis using True out by (intro exI [of _ st'']) simp
  next
    case False
    then have "palloc_inv st'" using s' inv by (simp add: palloc_inv_pages p_fixed_def)
    with False s' ad show ?thesis
      by (intro exI [of _ st']) (auto simp: p_batched_allocate_def outstanding_def p_fixed_def)
  qed
qed

lemma p_free_ok:
  assumes inv: "palloc_inv st" and i: "i \<in> outstanding st"
  shows "palloc_inv (p_free st i) \<and> p_free_blocks (p_free st i) = p_free_blocks st @ [i] \<and>
    outstanding (p_free st i) = outstanding st - {i}"
proof -
  have ok: "pages_ok st" using inv by (simp add: palloc_inv_pages)
  note R = p_return_ok [OF ok i]
  have "p_free st i = ((p_restore st i)\<lparr>p_free_blocks := p_free_blocks (p_restore st i) @ [i]\<rparr>)
     \<lparr>p_total_allocated := p_total_allocated st - p_align_bytes st, p_num_active := p_num_active st - 1\<rparr>"
    using R(4,7) by (simp add: p_free_def Let_def)
  then show ?thesis
    using R(1,2,3,5) inv by (simp add: palloc_inv_pages page_ok_counters p_fixed_def outstanding_def algebra_simps)
qed

lemma p_batched_free_ok:
  assumes inv: "palloc_inv st" and d: "distinct is" "set is \<subseteq> outstanding st"
  shows "palloc_inv (p_batched_free st is True) \<and> p_free_blocks (p_batched_free st is True) = p_free_blocks st @ is"
proof -
  have ok: "pages_ok st" using inv by (simp add: palloc_inv_pages)
  show ?thesis
    using p_return_all_ok [OF ok d] inv
    by (simp add: p_batched_free_def Let_def palloc_inv_pages page_ok_counters p_fixed_def algebra_simps)
qed

text \<open>
  Nothing keeps a page from being released twice. \<open>pool_ok\<close> is what holds of the pool whatever is
  released: the counters fit the length of the deque and every object stays inside its own page.
\<close>

definition page_base :: "('s, 'd) palloc \<Rightarrow> nat \<Rightarrow> bool" where
  "page_base st i \<longleftrightarrow>
     (let obj = p_objs st ! i
      in mo_valid obj \<and> mo_has_parent obj \<and> mo_address obj = int i \<and>
         fst (mo_raw obj) = p_align_bytes st * int i \<and> snd (mo_raw obj) \<le> p_align_bytes st)"

definition pool_pages :: "('s, 'd) palloc \<Rightarrow> bool" where
  "pool_pages st \<longleftrightarrow> set (p_free_blocks st) \<subseteq> {..<length (p_objs st)} \<and>
     p_paged_buffers st = map (page_raw st) [0 ..< length (p_objs st)] \<and> (\<forall>i < length (p_objs st). page_base st i)"

definition pool_ok :: "('s, 'd) palloc \<Rightarrow> bool" where
  "pool_ok st \<longleftrightarrow> pool_pages st \<and>
     p_num_active st = int (length (p_objs st)) - int (length (p_free_blocks st)) \<and>
     p_total_allocated st = p_num_active st * p_align_bytes st \<and>
     p_buffer_size st = int (length (p_objs st)) * p_align_bytes st"

lemma palloc_inv_pool: "palloc_inv st \<Longrightarrow> pool_ok st"
  by (simp add: palloc_inv_pages pages_ok_def pool_ok_def pool_pages_def page_ok_def page_base_def Let_def)

lemma pool_pages_counters:
  "pool_pages (st\<lparr>p_num_active := a, p_total_allocated := b\<rparr>) = pool_pages st"
  "pool_pages (st\<lparr>p_total_allocated := b, p_num_active := a\<rparr>) = pool_pages st"
  by (simp_all add: page_base_def pool_pages_def page_raw_def [abs_def])

lemma pool_pages_step:
  assumes ok: "pool_pages st" and fx: "p_fixed st st'"
    and other: "\<And>j. j < length (p_objs st) \<Longrightarrow> j \<noteq> i \<Longrightarrow> p_objs st' ! j = p_objs st ! j"
    and i: "i < length (p_objs st)" "page_base st' i" and free: "set (p_free_blocks st') \<subseteq> insert i (set (p_free_blocks st))"
  shows "pool_pages st'"
proof -
  have raw: "page_raw st' = page_raw st" using fx by (simp add: page_raw_def p_fixed_def fun_eq_iff)
  have "page_base st' j" if "j < length (p_objs st')" for j
  proof (cases "j = i")
    case False
    have j: "j < length (p_objs st)" using that fx by (simp add: p_fixed_def)
    with ok have "page_base st j" by (simp add: pool_pages_def)
    with False other [OF j False] fx show ?thesis by (simp add: page_base_def p_fixed_def)
  qed (use i in simp)
  moreover have "set (p_free_blocks st') \<subseteq> {..<length (p_objs st')}"
    using ok free i fx by (auto simp: pool_pages_def p_fixed_def)
  ultimately show ?thesis using ok fx raw by (simp add: pool_pages_def p_fixed_def)
qed

lemma pool_setup:
  assumes ok: "pool_pages st" and free: "p_free_blocks st = i # rest"
    and l: "length ss = length ds" and ss: "ss \<noteq> []"
  shows "\<exists>st'. p_setup env (st\<lparr>p_free_blocks := rest\<rparr>) ss ds fmt i = Inr st' \<and> pool_pages st' \<and> p_fixed st st' \<and>
    p_free_blocks st' = rest"
proof -
  let ?o = "p_objs st ! i"
  have i: "i < length (p_objs st)" "page_base st i"
    using ok free by (auto simp: pool_pages_def)
  obtain n where n: "get_size_bytes (mem_env.truncate env) ss ds = Inr n" using l by (simp add: get_size_bytes_def)
  define o' where "o' = ?o\<lparr>mo_shape := hd ss, mo_dtype := hd ds, mo_shapes := ss, mo_dtypes := ds, mo_fmt := fmt,
      mo_ref_count := 1, mo_raw := (if ss \<noteq> p_shapes st then take_slice n (mo_raw ?o) else mo_raw ?o)\<rparr>"
  define st' where "st' = st\<lparr>p_free_blocks := rest, p_objs := (p_objs st)[i := o']\<rparr>"
  have e: "p_setup env (st\<lparr>p_free_blocks := rest\<rparr>) ss ds fmt i = Inr st'"
    using n ss i(1) by (cases ?o) (simp add: p_setup_def Let_def upd_page_def st'_def o'_def)
  have fx: "p_fixed st st'" by (simp add: p_fixed_def st'_def)
  have "p_objs st' ! i = o'" using i(1) by (simp add: st'_def)
  then have "page_base st' i"
    using i(2) by (auto simp: page_base_def Let_def o'_def take_slice_def st'_def)
  then have "pool_pages st'"
    using i free by (intro pool_pages_step [OF ok fx]) (auto simp: st'_def)
  with e fx show ?thesis by (intro exI [of _ st']) (simp add: st'_def)
qed

lemma pool_return:
  assumes ok: "pool_pages st" and i: "i < length (p_objs st)"
  defines "st' \<equiv> (p_restore st i)\<lparr>p_free_blocks := p_free_blocks (p_restore st i) @ [i]\<rparr>"
  shows "pool_pages st'" and "p_fixed st st'" and "p_free_blocks st' = p_free_blocks st @ [i]"
    and "mo_valid (p_objs st ! i)"
    and "p_align_bytes (p_restore st i) = p_align_bytes st \<and> p_num_active (p_restore st i) = p_num_active st \<and>
      p_total_allocated (p_restore st i) = p_total_allocated st"
proof -
  have b: "page_base st i" using ok i by (simp add: pool_pages_def)
  then show "mo_valid (p_objs st ! i)" by (simp add: page_base_def Let_def)
  have buf: "p_paged_buffers st ! nat (mo_address (p_objs st ! i)) = page_raw st i"
    using ok i b by (simp add: pool_pages_def page_base_def Let_def)
  have R: "p_restore st i = st \<or> p_restore st i = upd_page i (mo_raw_update (\<lambda>_. page_raw st i)) st"
    using buf by (simp add: p_restore_def)
  then show "p_align_bytes (p_restore st i) = p_align_bytes st \<and> p_num_active (p_restore st i) = p_num_active st \<and>
      p_total_allocated (p_restore st i) = p_total_allocated st" by (auto simp: upd_page_def)
  show fx: "p_fixed st st'" and fr: "p_free_blocks st' = p_free_blocks st @ [i]"
    using R by (auto simp: st'_def upd_page_def p_fixed_def)
  have "page_base st' i"
    using R b i by (auto simp: st'_def upd_page_def page_base_def Let_def page_raw_def)
  then show "pool_pages st'"
    using i R fr by (intro pool_pages_step [OF ok fx]) (auto simp: st'_def upd_page_def)
qed

lemma pool_return_all:
  assumes "pool_pages st" and "set is \<subseteq> {..<length (p_objs st)}"
  shows "pool_pages (p_return_all st is) \<and> p_fixed st (p_return_all st is) \<and>
    p_free_blocks (p_return_all st is) = p_free_blocks st @ is"
  using assms
proof (induction "is" arbitrary: st)
  case Nil
  then show ?case by (simp add: p_fixed_def)
next
  case (Cons i "is")
  then have i: "i < length (p_objs st)" by simp
  note R = pool_return [OF Cons.prems(1) i]
  have "set is \<subseteq> {..<length (p_objs ((p_restore st i)\<lparr>p_free_blocks := p_free_blocks (p_restore st i) @ [i]\<rparr>))}"
    using Cons.prems(2) R(2) by (simp add: p_fixed_def)
  from Cons.IH [OF R(1) this] R p_fixed_trans [OF R(2)] show ?case by (simp add: Let_def)
qed

lemma pool_take:
  assumes "pool_pages st" and l: "length ss = length ds" "ss \<noteq> []" and "set allocated \<subseteq> {..<length (p_objs st)}"
  shows "\<exists>st' r. p_take env st ss ds fmt allocated n = (st', Inr r) \<and> pool_pages st' \<and> p_fixed st st' \<and>
    (case r of Some is \<Rightarrow> length (p_free_blocks st) = length (p_free_blocks st') + n
     | None \<Rightarrow> length (p_free_blocks st') = length (p_free_blocks st) + length allocated)"
  using assms(1,4)
proof (induction n arbitrary: st allocated)
  case 0
  then show ?case by (auto simp: p_fixed_def)
next
  case (Suc n)
  show ?case
  proof (cases "p_free_blocks st")
    case Nil
    with pool_return_all [OF Suc.prems] show ?thesis by (auto simp: p_batched_free_def)
  next
    case (Cons i rest)
    obtain st2 where s2: "p_setup env (st\<lparr>p_free_blocks := rest\<rparr>) ss ds fmt i = Inr st2" "pool_pages st2"
      "p_fixed st st2" "p_free_blocks st2 = rest"
      using pool_setup [OF Suc.prems(1) Cons l, of env fmt] by blast
    have "set (allocated @ [i]) \<subseteq> {..<length (p_objs st2)}"
      using Suc.prems s2(3) Cons by (auto simp: pool_pages_def p_fixed_def)
    from Suc.IH [OF s2(2) this] obtain st' r where "p_take env st2 ss ds fmt (allocated @ [i]) n = (st', Inr r)"
      "pool_pages st'" "p_fixed st2 st'"
      "case r of Some is \<Rightarrow> length (p_free_blocks st2) = length (p_free_blocks st') + n
       | None \<Rightarrow> length (p_free_blocks st') = length (p_free_blocks st2) + length (allocated @ [i])" by blast
    with s2 Cons p_fixed_trans [OF s2(3)] show ?thesis by (auto simp: Let_def split: option.splits)
  qed
qed

lemma pool_allocate:
  assumes inv: "pool_ok st" and ad: "adapt_shapes_and_dtypes shapes dtypes = Inr (ss, ds)" "ss \<noteq> []"
  shows "pool_ok (fst (p_allocate env st shapes dtypes fmt))"
proof (cases "p_free_blocks st")
  case Nil
  with ad inv show ?thesis by (simp add: p_allocate_def)
next
  case (Cons i rest)
  have ok: "pool_pages st" using inv by (simp add: pool_ok_def)
  have l: "length ss = length ds" using ad(1) by (auto simp: adapt_shapes_and_dtypes_def Let_def split: if_splits)
  obtain st2 where "p_setup env (st\<lparr>p_free_blocks := rest\<rparr>) ss ds fmt i = Inr st2" "pool_pages st2"
      "p_fixed st st2" "p_free_blocks st2 = rest"
    using pool_setup [OF ok Cons l ad(2), of env fmt] by blast
  with ad Cons inv show ?thesis
    by (simp add: p_allocate_def Let_def pool_ok_def pool_pages_counters p_fixed_def algebra_simps)
qed

lemma pool_batched_allocate:
  assumes inv: "pool_ok st" and ad: "adapt_shapes_and_dtypes shapes dtypes = Inr (ss, ds)" "ss \<noteq> []" and k: "0 \<le> k"
  shows "pool_ok (fst (p_batched_allocate env st shapes dtypes k fmt))"
proof -
  have ok: "pool_pages st" using inv by (simp add: pool_ok_def)
  have l: "length ss = length ds" using ad(1) by (auto simp: adapt_shapes_and_dtypes_def Let_def split: if_splits)
  obtain st' r where s: "p_take env st ss ds fmt [] (nat k) = (st', Inr r)" "pool_pages st'" "p_fixed st st'"
    "case r of Some is \<Rightarrow> length (p_free_blocks st) = length (p_free_blocks st') + nat k
     | None \<Rightarrow> length (p_free_blocks st') = length (p_free_blocks st) + length ([] :: nat list)"
    using pool_take [OF ok l ad(2), of "[]" env fmt "nat k"] by (metis empty_subsetI list.set(1))
  show ?thesis
  proof (cases r)
    case None
    with s ad(1) inv show ?thesis by (simp add: p_batched_allocate_def pool_ok_def p_fixed_def)
  next
    case (Some x)
    with s ad(1) inv k show ?thesis
      by (simp add: p_batched_allocate_def Let_def pool_ok_def pool_pages_counters p_fixed_def)
  qed
qed

lemma pool_free:
  assumes inv: "pool_ok st" and i: "i < length (p_objs st)"
  shows "pool_ok (p_free st i)"
proof -
  have ok: "pool_pages st" using inv by (simp add: pool_ok_def)
  note R = pool_return [OF ok i]
  have "p_free st i = ((p_restore st i)\<lparr>p_free_blocks := p_free_blocks (p_restore st i) @ [i]\<rparr>)
     \<lparr>p_total_allocated := p_total_allocated st - p_align_bytes st, p_num_active := p_num_active st - 1\<rparr>"
    using R(4,5) by (simp add: p_free_def Let_def)
  then show ?thesis
    using R(1,2,3) inv by (simp add: pool_ok_def pool_pages_counters p_fixed_def algebra_simps)
qed

lemma pool_batched_free:
  assumes inv: "pool_ok st" and "is": "set is \<subseteq> {..<length (p_objs st)}"
  shows "pool_ok (p_batched_free st is True)"
proof -
  have ok: "pool_pages st" using inv by (simp add: pool_ok_def)
  show ?thesis
    using pool_return_all [OF ok "is"] inv
    by (simp add: p_batched_free_def Let_def pool_ok_def pool_pages_counters p_fixed_def algebra_simps)
qed

lemma p_ref_count_down_form:
  assumes i: "i < length (p_objs st)"
  shows "\<exists>r. p_ref_count_down st i = upd_page i (mo_ref_count_update (\<lambda>_. r)) st \<or>
    p_ref_count_down st i = p_free (upd_page i (mo_ref_count_update (\<lambda>_. r)) st) i"
proof -
  have u: "upd_page i (mo_ref_count_update (\<lambda>r. r - 1)) st
      = upd_page i (mo_ref_count_update (\<lambda>_. mo_ref_count (p_objs st ! i) - 1)) st"
    "upd_page i (mo_ref_count_update (\<lambda>_. 0)) (upd_page i (mo_ref_count_update (\<lambda>_. x)) st)
      = upd_page i (mo_ref_count_update (\<lambda>_. 0)) st" for x
    using i by (cases "p_objs st ! i", simp add: upd_page_def)+
  show ?thesis
    unfolding p_ref_count_down_def Let_def u(1)
    by (cases "mo_ref_count (p_objs (upd_page i (mo_ref_count_update (\<lambda>_. mo_ref_count (p_objs st ! i) - 1)) st) ! i) < 0")
      (auto simp: u(2))
qed

lemma upd_ref_keeps:
  fixes r :: int
  assumes i: "i < length (p_objs st)"
  defines "st' \<equiv> upd_page i (mo_ref_count_update (\<lambda>_. r)) st"
  shows "pool_ok st \<Longrightarrow> pool_ok st'" and "palloc_inv st \<Longrightarrow> palloc_inv st'"
    and "outstanding st' = outstanding st" and "length (p_objs st') = length (p_objs st)"
proof -
  have c: "p_free_blocks st' = p_free_blocks st" "length (p_objs st') = length (p_objs st)"
    "p_paged_buffers st' = p_paged_buffers st" "p_align_bytes st' = p_align_bytes st" "p_shapes st' = p_shapes st"
    "p_num_active st' = p_num_active st" "p_total_allocated st' = p_total_allocated st" "p_buffer_size st' = p_buffer_size st"
    by (simp_all add: st'_def upd_page_def)
  have obj: "p_objs st' ! j = (if j = i then mo_ref_count_update (\<lambda>_. r) (p_objs st ! i) else p_objs st ! j)" for j
    using i by (simp add: st'_def upd_page_def)
  have raw: "page_raw st' = page_raw st" by (simp add: page_raw_def c fun_eq_iff)
  have "page_ok st' j = page_ok st j" "page_base st' j = page_base st j" for j
    by (simp_all add: page_ok_def page_base_def Let_def obj raw c)
  then show "pool_ok st \<Longrightarrow> pool_ok st'" "palloc_inv st \<Longrightarrow> palloc_inv st'" "outstanding st' = outstanding st"
    by (simp_all add: pool_ok_def pool_pages_def palloc_inv_pages pages_ok_def outstanding_def c raw)
  show "length (p_objs st') = length (p_objs st)" by (rule c)
qed

text \<open>
  The states of the allocator: anything may be released at any time, and the flag records
  whether a page was ever released (or counted down) that was not handed out at the time.
\<close>

inductive p_reachable :: "('s, 'd) page_env \<Rightarrow> bool \<Rightarrow> ('s, 'd) palloc \<Rightarrow> bool" for env where
  start: "get_size_bytes (mem_env.truncate env) shapes dtypes = Inr u \<Longrightarrow> 0 < u \<Longrightarrow> 0 < n
    \<Longrightarrow> p_init env n shapes dtypes fmt = Inr st \<Longrightarrow> p_reachable env False st"
| allocate: "p_reachable env b st \<Longrightarrow> adapt_shapes_and_dtypes shapes dtypes = Inr (ss, ds) \<Longrightarrow> ss \<noteq> []
    \<Longrightarrow> p_allocate env st shapes dtypes fmt = (st', r) \<Longrightarrow> p_reachable env b st'"
| batched_allocate: "p_reachable env b st \<Longrightarrow> adapt_shapes_and_dtypes shapes dtypes = Inr (ss, ds) \<Longrightarrow> ss \<noteq> []
    \<Longrightarrow> 0 \<le> k \<Longrightarrow> p_batched_allocate env st shapes dtypes k fmt = (st', r') \<Longrightarrow> p_reachable env b st'"
| free: "p_reachable env b st \<Longrightarrow> i < length (p_objs st)
    \<Longrightarrow> p_reachable env (b \<or> i \<notin> outstanding st) (p_free st i)"
| batched_free: "p_reachable env b st \<Longrightarrow> set is \<subseteq> {..<length (p_objs st)}
    \<Longrightarrow> p_reachable env (b \<or> \<not> (distinct is \<and> set is \<subseteq> outstanding st)) (p_batched_free st is True)"
| ref_down: "p_reachable env b st \<Longrightarrow> i < length (p_objs st)
    \<Longrightarrow> p_reachable env (b \<or> i \<notin> outstanding st) (p_ref_count_down st i)"

lemma pool_memcheck:
  assumes "pool_ok st"
  shows "p_memcheck st"
proof -
  have "int (length (p_objs st)) = int (length (p_free_blocks st)) + p_num_active st"
    and "p_total_allocated st = p_num_active st * p_align_bytes st"
    and "p_buffer_size st = int (length (p_objs st)) * p_align_bytes st"
    using assms by (simp_all add: pool_ok_def)
  then show ?thesis unfolding p_memcheck_def by (simp add: distrib_right)
qed

lemma p_reachable_pool:
  assumes "split_spec env" and "p_reachable env b st"
  shows "pool_ok st \<and> (\<not> b \<longrightarrow> palloc_inv st)"
  using assms(2)
proof induction
  case (start shapes dtypes u n fmt st)
  then show ?case using p_init_inv [OF assms(1)] palloc_inv_pool by blast
next
  case (allocate b st shapes dtypes ss ds fmt st' r)
  have "palloc_inv st \<Longrightarrow> palloc_inv st'"
    using p_allocate_ok [OF _ allocate.hyps(2,3), of st env fmt] allocate.hyps(4) by (auto split: list.splits)
  moreover have "pool_ok st'" using pool_allocate [OF _ allocate.hyps(2,3), of st env fmt] allocate by simp
  ultimately show ?case using allocate.IH by blast
next
  case (batched_allocate b st shapes dtypes ss ds k fmt st' r')
  have "palloc_inv st \<Longrightarrow> palloc_inv st'"
    using p_batched_allocate_ok [OF _ batched_allocate.hyps(2-4), of st env fmt] batched_allocate.hyps(5)
    by (auto split: if_splits)
  moreover have "pool_ok st'"
    using pool_batched_allocate [OF _ batched_allocate.hyps(2-4), of st env fmt] batched_allocate by simp
  ultimately show ?case using batched_allocate.IH by blast
next
  case (free b st i)
  then show ?case using p_free_ok [of st i] pool_free [of st i] by blast
next
  case (batched_free b st "is")
  then show ?case using p_batched_free_ok [of st "is"] pool_batched_free [of st "is"] by blast
next
  case (ref_down b st i)
  obtain r where r: "p_ref_count_down st i = upd_page i (mo_ref_count_update (\<lambda>_. r)) st \<or>
      p_ref_count_down st i = p_free (upd_page i (mo_ref_count_update (\<lambda>_. r)) st) i"
    using p_ref_count_down_form [OF ref_down.hyps(2)] by blast
  note U = upd_ref_keeps [OF ref_down.hyps(2), of r]
  let ?u = "upd_page i (mo_ref_count_update (\<lambda>_. r)) st"
  have "pool_ok (p_ref_count_down st i)"
    using r U(1,4) ref_down pool_free [of ?u i] by auto
  moreover have "palloc_inv (p_ref_count_down st i)" if "\<not> b" "i \<in> outstanding st"
    using r U(2,3) that ref_down.IH p_free_ok [of ?u i] by auto
  ultimately show ?case by blast
qed

lemma p_reachable_inv: "split_spec env \<Longrightarrow> p_reachable env False st \<Longrightarrow> palloc_inv st"
  using p_reachable_pool by blast

lemma page_raw_disjoint:
  assumes "i \<noteq> j" and "0 < p_align_bytes st"
  shows "span (page_raw st i) \<inter> span (page_raw st j) = {}"
  using units_disjoint [OF assms(2,1), of 0] by (simp add: span_def page_raw_def)

lemma span_subset: "fst r = fst q \<Longrightarrow> snd r \<le> snd q \<Longrightarrow> span r \<subseteq> span q"
  by (auto simp: span_def)

section \<open>An environment\<close>

definition ref_split :: "int \<Rightarrow> int \<Rightarrow> (int \<times> int) list" where
  "ref_split n u = (if n = 0 then [(0, 0)]
     else map (\<lambda>i. (u * i, min u (n - u * i))) [0..(n - 1) div u])"

definition ref_page_env :: "(int list, int) page_env" where
  "ref_page_env = mem_env.extend ref_mem_env \<lparr>torch_split = ref_split\<rparr>"

lemma ref_page_env_split: "split_spec ref_page_env"
  unfolding split_spec_def
proof (intro allI impI)
  fix u :: int and k :: nat
  assume k: "0 < k" and u: "0 < u"
  have d: "(int k * u - 1) div u = int k - 1"
    using u by (intro int_div_pos_eq [where r = "u - 1"]) (simp_all add: algebra_simps)
  have "min u (int k * u - u * i) = u" if "i \<in> {0..int k - 1}" for i
  proof -
    have "u * (i + 1) \<le> u * int k" using that u by (intro mult_left_mono) auto
    then show ?thesis by (simp add: algebra_simps)
  qed
  then have eq: "map (\<lambda>i. (u * i, min u (int k * u - u * i))) [0..int k - 1] = map (\<lambda>i. (u * i, u)) [0..int k - 1]"
    by (intro map_cong) auto
  have "[0..int k - 1] = map int [0 ..< k]" by (intro nth_equalityI) auto
  then have "map (\<lambda>i. (u * i, min u (int k * u - u * i))) [0..int k - 1] = map (\<lambda>i. (u * int i, u)) [0 ..< k]"
    unfolding eq by simp
  moreover have "torch_split ref_page_env (int k * u) u
      = map (\<lambda>i. (u * i, min u (int k * u - u * i))) [0..int k - 1]"
    using k u by (simp add: ref_page_env_def ref_split_def mem_env.defs d)
  ultimately show "torch_split ref_page_env (int k * u) u = map (\<lambda>i. (u * int i, u)) [0 ..< k]"
    by (rule trans [OF _ _, rotated])
qed

lemma ref_page_env_truncate: "mem_env.truncate ref_page_env = ref_mem_env"
  by (simp add: ref_page_env_def mem_env.defs)

definition demo_palloc :: "(int list, int) palloc" where
  "demo_palloc = projr (p_init ref_page_env 64 [[2, 8]] [2] KV_2LTD)"

lemma demo_palloc_init: "p_init ref_page_env 64 [[2, 8]] [2] KV_2LTD = Inr demo_palloc"
proof -
  have "isl (p_init ref_page_env 64 [[2, 8]] [2] KV_2LTD) = False" by code_simp
  then show ?thesis by (simp add: demo_palloc_def)
qed

lemma demo_palloc_reachable: "p_reachable ref_page_env False demo_palloc"
  by (rule p_reachable.start [OF _ _ _ demo_palloc_init, where u = 32])
    (simp_all add: ref_page_env_truncate get_size_bytes_def ref_mem_env_def)

lemma demo_palloc_inv: "palloc_inv demo_palloc"
  by (rule p_reachable_inv [OF ref_page_env_split demo_palloc_reachable])

section \<open>Properties\<close>

text \<open>
  C34: In every state the paged allocator reaches through allocations (single, batched, failed) and
  releases of any pages at any time, double releases included: the deque holds only pages of the
  pool, the slices of two different pages never overlap, the counter of active allocations and the
  length of the deque add up to the number of pages, and the memory check succeeds. As long as
  only pages were released that were handed out at the time, the deque holds no page twice, every
  page is either free or handed out, and the counter counts the pages handed out.
\<close>

theorem paged_pool_invariant:
  assumes "split_spec env" and "p_reachable env misused st" and "0 < p_align_bytes st"
  shows "set (p_free_blocks st) \<subseteq> {..<length (p_objs st)} \<and>
    (\<forall>i < length (p_objs st). \<forall>j < length (p_objs st). i \<noteq> j \<longrightarrow>
       span (mo_raw (p_objs st ! i)) \<inter> span (mo_raw (p_objs st ! j)) = {}) \<and>
    p_num_active st + int (length (p_free_blocks st)) = int (length (p_objs st)) \<and> p_memcheck st \<and>
    (\<not> misused \<longrightarrow> distinct (p_free_blocks st) \<and> set (p_free_blocks st) \<union> outstanding st = {..<length (p_objs st)} \<and>
       p_num_active st = int (card (outstanding st)))"
proof -
  have pool: "pool_ok st" and inv: "\<not> misused \<Longrightarrow> palloc_inv st" using p_reachable_pool [OF assms(1,2)] by blast+
  have "span (mo_raw (p_objs st ! i)) \<subseteq> span (page_raw st i)" if "i < length (p_objs st)" for i
    using pool that by (intro span_subset) (auto simp: pool_ok_def pool_pages_def page_base_def page_raw_def Let_def)
  then have "span (mo_raw (p_objs st ! i)) \<inter> span (mo_raw (p_objs st ! j)) = {}"
    if "i < length (p_objs st)" "j < length (p_objs st)" "i \<noteq> j" for i j
    using page_raw_disjoint [OF that(3) assms(3)] that(1,2) by blast
  moreover have "distinct (p_free_blocks st) \<and> set (p_free_blocks st) \<union> outstanding st = {..<length (p_objs st)} \<and>
       p_num_active st = int (card (outstanding st))" if h: "\<not> misused"
  proof -
    have ok: "pages_ok st" and d: "distinct (p_free_blocks st)" using inv [OF h] by (simp_all add: palloc_inv_pages pages_ok_def)
    have un: "set (p_free_blocks st) \<union> outstanding st = {..<length (p_objs st)}"
      using outstanding_split(2) [OF ok] by (simp add: Un_commute)
    have "card (set (p_free_blocks st)) + card (outstanding st) = card ({..<length (p_objs st)})"
      using outstanding_split(1) [OF ok] unfolding un [symmetric]
      by (intro card_Un_disjoint [symmetric]) (auto simp: outstanding_def)
    then show ?thesis using inv [OF h] d un by (simp add: palloc_inv_pages distinct_card)
  qed
  ultimately show ?thesis using pool pool_memcheck [OF pool] by (simp add: pool_ok_def pool_pages_def)
qed

theorem paged_pool_invariant_witness:
  "p_memcheck (fst (p_allocate ref_page_env demo_palloc (One [1, 8]) (One 2) KV_T2D)) \<and>
   distinct (p_free_blocks (fst (p_allocate ref_page_env demo_palloc (One [1, 8]) (One 2) KV_T2D)))"
proof -
  let ?a = "p_allocate ref_page_env demo_palloc (One [1, 8]) (One 2) KV_T2D"
  have "p_reachable ref_page_env False (fst ?a)"
    by (rule p_reachable.allocate [OF demo_palloc_reachable, of "One [1, 8]" "One 2" "[[1, 8]]" "[2]" KV_T2D _ "snd ?a"])
      (simp_all add: adapt_shapes_and_dtypes_def)
  moreover have "p_align_bytes (fst ?a) = 32" by code_simp
  ultimately show ?thesis using paged_pool_invariant [OF ref_page_env_split] by simp
qed

text \<open>
  A batched allocation of pages is all or nothing and first in, first out: with enough free
  pages it returns exactly the first \<open>batch_size\<close> pages of the deque; otherwise it returns
  \<open>None\<close> and leaves the deque, in its order, the outstanding pages and the counters as they were.
\<close>

theorem paged_batch_all_or_nothing:
  assumes "palloc_inv st" and "adapt_shapes_and_dtypes shapes dtypes = Inr (ss, ds)" and "ss \<noteq> []" and "0 \<le> k"
  shows "\<exists>st'. palloc_inv st' \<and>
    (if nat k \<le> length (p_free_blocks st)
     then p_batched_allocate env st shapes dtypes k fmt = (st', Inr (Some (take (nat k) (p_free_blocks st)))) \<and>
          p_free_blocks st' = drop (nat k) (p_free_blocks st) \<and>
          outstanding st' = outstanding st \<union> set (take (nat k) (p_free_blocks st))
     else p_batched_allocate env st shapes dtypes k fmt = (st', Inr None) \<and>
          p_free_blocks st' = p_free_blocks st \<and> outstanding st' = outstanding st \<and>
          p_num_active st' = p_num_active st \<and> p_total_allocated st' = p_total_allocated st)"
  using assms by (rule p_batched_allocate_ok)

theorem paged_batch_all_or_nothing_witness:
  "\<exists>st'. p_batched_allocate ref_page_env demo_palloc (One [2, 8]) (One 2) 3 KV_2LTD = (st', Inr None) \<and>
     p_free_blocks st' = [0, 1]"
proof -
  have "p_free_blocks demo_palloc = [0, 1]" by code_simp
  with paged_batch_all_or_nothing [OF demo_palloc_inv, of "One [2, 8]" "One 2" "[[2, 8]]" "[2]" 3 ref_page_env KV_2LTD]
  show ?thesis by (auto simp: adapt_shapes_and_dtypes_def)
qed

text \<open>
  Counting a page down once more after it was released puts it on the deque a second time
  (the object is never invalidated), the memory check still succeeds, and with no other page
  free the next two allocations hand out the same page.
\<close>

theorem paged_double_release_aliases:
  assumes "palloc_inv st" and "i \<in> outstanding st" and "p_free_blocks st = []"
    and "mo_ref_count (p_objs st ! i) = 1" and "mo_pin_count (p_objs st ! i) = 0"
    and "adapt_shapes_and_dtypes shapes dtypes = Inr (ss, ds)" and "ss \<noteq> []"
  shows "let st2 = p_ref_count_down (p_ref_count_down st i) i;
             (st3, r1) = p_allocate env st2 shapes dtypes fmt;
             (st4, r2) = p_allocate env st3 shapes dtypes fmt
         in p_memcheck st2 \<and> r1 = Inr (Some i) \<and> r2 = Inr (Some i)"
proof -
  have l: "length ss = length ds" using assms(6) by (auto simp: adapt_shapes_and_dtypes_def Let_def split: if_splits)
  have i: "i < length (p_objs st)" "page_ok st i" using assms(1,2) by (auto simp: palloc_inv_def outstanding_def)
  then have o: "mo_valid (p_objs st ! i)" "mo_has_parent (p_objs st ! i)" by (simp_all add: page_ok_def Let_def)
  have down: "\<exists>st'. p_ref_count_down z i = st' \<and> p_free_blocks st' = p_free_blocks z @ [i] \<and>
      length (p_objs st') = length (p_objs z) \<and> mo_ref_count (p_objs st' ! i) = 0 \<and>
      mo_pin_count (p_objs st' ! i) = 0 \<and> mo_valid (p_objs st' ! i) \<and> mo_has_parent (p_objs st' ! i) \<and>
      p_total_allocated st' = p_total_allocated z - p_align_bytes z \<and> p_align_bytes st' = p_align_bytes z \<and>
      p_buffer_size st' = p_buffer_size z"
    if "i < length (p_objs z)" "mo_ref_count (p_objs z ! i) = 1 \<or> mo_ref_count (p_objs z ! i) = 0"
      "mo_pin_count (p_objs z ! i) = 0" "mo_valid (p_objs z ! i)" "mo_has_parent (p_objs z ! i)" for z :: "('a, 'b) palloc"
    using that by (auto simp: p_ref_count_down_def Let_def upd_page_def p_free_def p_restore_def)
  obtain st1 where s1: "p_ref_count_down st i = st1" "p_free_blocks st1 = [i]" "i < length (p_objs st1)"
      "mo_ref_count (p_objs st1 ! i) = 0" "mo_pin_count (p_objs st1 ! i) = 0" "mo_valid (p_objs st1 ! i)"
      "mo_has_parent (p_objs st1 ! i)" "p_total_allocated st1 = p_total_allocated st - p_align_bytes st"
      "p_align_bytes st1 = p_align_bytes st" "p_buffer_size st1 = p_buffer_size st"
    using down [of st] i o assms(3-5) by auto
  obtain st2 where s2: "p_ref_count_down st1 i = st2" "p_free_blocks st2 = [i, i]" "i < length (p_objs st2)"
      "p_total_allocated st2 = p_total_allocated st - 2 * p_align_bytes st"
      "p_align_bytes st2 = p_align_bytes st" "p_buffer_size st2 = p_buffer_size st"
    using down [of st1] s1 by auto
  have "p_memcheck st2"
    using s2 assms(1,3) by (simp add: p_memcheck_def palloc_inv_def algebra_simps)
  moreover have "\<exists>z'. p_allocate env z shapes dtypes fmt = (z', Inr (Some i)) \<and> p_free_blocks z' = rest"
    if "p_free_blocks z = i # rest" for z rest
  proof -
    obtain n where n: "get_size_bytes (mem_env.truncate env) ss ds = Inr n" using l by (simp add: get_size_bytes_def)
    with that assms(6,7) show ?thesis by (simp add: p_allocate_def p_setup_def Let_def upd_page_def)
  qed
  from this [OF s2(2)] this obtain st3 st4 where "p_allocate env st2 shapes dtypes fmt = (st3, Inr (Some i))"
    "p_allocate env st3 shapes dtypes fmt = (st4, Inr (Some i))" by blast
  ultimately show ?thesis using s1(1) s2(1) by simp
qed

theorem paged_double_release_aliases_witness:
  "let st = fst (p_batched_allocate ref_page_env demo_palloc (One [2, 8]) (One 2) 2 KV_2LTD);
       st2 = p_ref_count_down (p_ref_count_down st 1) 1;
       (st3, r1) = p_allocate ref_page_env st2 (One [2, 8]) (One 2) KV_2LTD;
       (st4, r2) = p_allocate ref_page_env st3 (One [2, 8]) (One 2) KV_2LTD
   in p_memcheck st2 \<and> r1 = Inr (Some 1) \<and> r2 = Inr (Some 1)"
proof -
  let ?b = "p_batched_allocate ref_page_env demo_palloc (One [2, 8]) (One 2) 2 KV_2LTD"
  have "p_reachable ref_page_env False (fst ?b)"
    by (rule p_reachable.batched_allocate [OF demo_palloc_reachable, of "One [2, 8]" "One 2" "[[2, 8]]" "[2]" 2 KV_2LTD _ "snd ?b"])
      (simp_all add: adapt_shapes_and_dtypes_def)
  then have inv: "palloc_inv (fst ?b)" by (rule p_reachable_inv [OF ref_page_env_split])
  have free: "p_free_blocks (fst ?b) = []" and len: "length (p_objs (fst ?b)) = 2"
    and o: "mo_ref_count (p_objs (fst ?b) ! 1) = 1" "mo_pin_count (p_objs (fst ?b) ! 1) = 0" by code_simp+
  have "1 \<in> outstanding (fst ?b)" using free len by (simp add: outstanding_def)
  from paged_double_release_aliases [OF inv this free o, of "One [2, 8]" "One 2" "[[2, 8]]" "[2]" ref_page_env KV_2LTD]
  show ?thesis unfolding Let_def by (simp add: adapt_shapes_and_dtypes_def)
qed

end
