(* ===== verification/MixedAllocator.thy ===== *)
theory MixedAllocator
  imports PagedAllocator
begin

text \<open>
  The allocators of \<open>v1/memory_management.py\<close> that dispatch to the two real ones:
  \<open>HostMemoryAllocator\<close> (and \<open>PinMemoryAllocator\<close>, \<open>GPUMemoryAllocator\<close>, whose operations have
  the same bodies) over a flat or a paged allocator, \<open>MixedMemoryAllocator\<close> by memory format,
  \<open>PagedCpuGpuMemoryAllocator\<close> by device. \<open>torch.Size\<close> indexing is the parameter
  \<open>size_dim\<close>; \<open>None\<close> stands for an index out of range. A batch handed back to the mixed
  allocator holds objects of one format, as the code's note demands, so it is either a list of
  byte buffers or a list of objects of the inner allocator.
\<close>

record ('s, 'd) alloc_env = "('s, 'd) page_env" +
  size_dim :: "'s \<Rightarrow> nat \<Rightarrow> int option"

abbreviation mem_of :: "('s, 'd) alloc_env \<Rightarrow> ('s, 'd) mem_env" where
  "mem_of env \<equiv> mem_env.truncate env"

abbreviation page_of :: "('s, 'd) alloc_env \<Rightarrow> ('s, 'd) page_env" where
  "page_of env \<equiv> page_env.truncate env"

definition get_num_tokens :: "('s, 'd) alloc_env \<Rightarrow> ('s, 'd) mem_obj \<Rightarrow> int result" where
  "get_num_tokens env obj =
     (case size_dim env (mo_shape obj) (token_dim (mo_fmt obj)) of None \<Rightarrow> Inl IndexError | Some n \<Rightarrow> Inr n)"

section \<open>Flat or paged\<close>

datatype ('s, 'd) inner_alloc = FlatAlloc "('s, 'd) talloc" | PagedAlloc "('s, 'd) palloc"

definition default_align :: int where
  "default_align = 4096"

definition paged_kwargs ::
    "('s, 'd) alloc_env \<Rightarrow> int \<Rightarrow> 's list option \<Rightarrow> 'd list option \<Rightarrow> mem_fmt option
      \<Rightarrow> ('s, 'd) inner_alloc result" where
  "paged_kwargs env n shapes dtypes fmt =
     (case (shapes, dtypes, fmt) of
        (Some ss, Some ds, Some f) \<Rightarrow> res_bind (p_init (page_of env) n ss ds f) (\<lambda>p. Inr (PagedAlloc p))
      | _ \<Rightarrow> Inl AssertionError)"

definition host_init ::
    "('s, 'd) alloc_env \<Rightarrow> int \<Rightarrow> bool \<Rightarrow> 's list option \<Rightarrow> 'd list option \<Rightarrow> mem_fmt option
      \<Rightarrow> ('s, 'd) inner_alloc result" where
  "host_init env n use_paging shapes dtypes fmt =
     (if use_paging then paged_kwargs env n shapes dtypes fmt
      else Inr (FlatAlloc (t_init (mem_of env) n default_align None)))"

definition gpu_init ::
    "('s, 'd) alloc_env \<Rightarrow> int \<Rightarrow> int option \<Rightarrow> bool \<Rightarrow> 's list option \<Rightarrow> 'd list option \<Rightarrow> mem_fmt option
      \<Rightarrow> ('s, 'd) inner_alloc result" where
  "gpu_init env n align_bytes use_paging shapes dtypes fmt =
     (if use_paging then paged_kwargs env n shapes dtypes fmt
      else Inr (FlatAlloc (t_init (mem_of env) n
             (case align_bytes of None \<Rightarrow> default_align | Some a \<Rightarrow> a) None)))"

definition inner_allocate ::
    "('s, 'd) alloc_env \<Rightarrow> ('s, 'd) inner_alloc \<Rightarrow> 's one_or_many \<Rightarrow> 'd one_or_many \<Rightarrow> mem_fmt
      \<Rightarrow> ('s, 'd) inner_alloc \<times> nat option result" where
  "inner_allocate env a shapes dtypes fmt =
     (case a of
        FlatAlloc t \<Rightarrow> apfst FlatAlloc (t_allocate (mem_of env) t shapes dtypes fmt)
      | PagedAlloc p \<Rightarrow> apfst PagedAlloc (p_allocate (page_of env) p shapes dtypes fmt))"

definition inner_batched_allocate ::
    "('s, 'd) alloc_env \<Rightarrow> ('s, 'd) inner_alloc \<Rightarrow> 's one_or_many \<Rightarrow> 'd one_or_many \<Rightarrow> int \<Rightarrow> mem_fmt
      \<Rightarrow> ('s, 'd) inner_alloc \<times> nat list option result" where
  "inner_batched_allocate env a shapes dtypes k fmt =
     (case a of
        FlatAlloc t \<Rightarrow> apfst FlatAlloc (t_batched_allocate (mem_of env) t shapes dtypes k fmt)
      | PagedAlloc p \<Rightarrow> apfst PagedAlloc (p_batched_allocate (page_of env) p shapes dtypes k fmt))"

definition inner_free :: "('s, 'd) alloc_env \<Rightarrow> ('s, 'd) inner_alloc \<Rightarrow> nat \<Rightarrow> ('s, 'd) inner_alloc" where
  "inner_free env a i =
     (case a of FlatAlloc t \<Rightarrow> FlatAlloc (t_free (mem_of env) t i) | PagedAlloc p \<Rightarrow> PagedAlloc (p_free p i))"

definition inner_batched_free :: "('s, 'd) alloc_env \<Rightarrow> ('s, 'd) inner_alloc \<Rightarrow> nat list \<Rightarrow> ('s, 'd) inner_alloc" where
  "inner_batched_free env a is =
     (case a of
        FlatAlloc t \<Rightarrow> FlatAlloc (t_batched_free (mem_of env) t is)
      | PagedAlloc p \<Rightarrow> PagedAlloc (p_batched_free p is True))"

definition inner_memcheck :: "('s, 'd) inner_alloc \<Rightarrow> bool" where
  "inner_memcheck a = (case a of FlatAlloc t \<Rightarrow> t_memcheck t | PagedAlloc p \<Rightarrow> p_memcheck p)"

definition inner_obj :: "('s, 'd) inner_alloc \<Rightarrow> nat \<Rightarrow> ('s, 'd) mem_obj" where
  "inner_obj a i = (case a of FlatAlloc t \<Rightarrow> t_objs t ! i | PagedAlloc p \<Rightarrow> p_objs p ! i)"

section \<open>By format\<close>

datatype mixed_obj = BytesObj int | PinObj nat

record ('s, 'd) mixed_alloc =
  mx_size :: int
  mx_pin :: "('s, 'd) inner_alloc"
  mx_unregistered :: bool

definition mixed_init ::
    "('s, 'd) alloc_env \<Rightarrow> int \<Rightarrow> bool \<Rightarrow> 's list option \<Rightarrow> 'd list option \<Rightarrow> mem_fmt option
      \<Rightarrow> ('s, 'd) mixed_alloc result" where
  "mixed_init env n use_paging shapes dtypes fmt =
     res_bind (host_init env n use_paging shapes dtypes fmt)
       (\<lambda>a. Inr \<lparr>mx_size = n, mx_pin = a, mx_unregistered = False\<rparr>)"

definition buffer_size_of :: "('s, 'd) alloc_env \<Rightarrow> 's one_or_many \<Rightarrow> int result" where
  "buffer_size_of env shapes =
     (case (case shapes of One s \<Rightarrow> Some s | Many [] \<Rightarrow> None | Many (s # _) \<Rightarrow> Some s) of
        None \<Rightarrow> Inl IndexError
      | Some s \<Rightarrow> (case size_dim env s 0 of None \<Rightarrow> Inl IndexError | Some n \<Rightarrow> Inr n))"

definition buffer_allocate :: "('s, 'd) alloc_env \<Rightarrow> 's one_or_many \<Rightarrow> mixed_obj result" where
  "buffer_allocate env shapes =
     res_bind (buffer_size_of env shapes) (\<lambda>n. if n < 0 then Inl ValueError else Inr (BytesObj n))"

definition buffer_batched_allocate :: "('s, 'd) alloc_env \<Rightarrow> 's one_or_many \<Rightarrow> int \<Rightarrow> mixed_obj list result" where
  "buffer_batched_allocate env shapes k =
     res_bind (buffer_size_of env shapes)
       (\<lambda>n. if n < 0 \<and> 0 < k then Inl ValueError else Inr (replicate (nat k) (BytesObj n)))"

definition kv_formats :: "mem_fmt list" where
  "kv_formats = [KV_2LTD, KV_2TD, KV_T2D, KV_MLA_FMT]"

definition mixed_allocate ::
    "('s, 'd) alloc_env \<Rightarrow> ('s, 'd) mixed_alloc \<Rightarrow> 's one_or_many \<Rightarrow> 'd one_or_many \<Rightarrow> mem_fmt
      \<Rightarrow> ('s, 'd) mixed_alloc \<times> mixed_obj option result" where
  "mixed_allocate env mx shapes dtypes fmt =
     (if fmt = BINARY_BUFFER then (mx, res_bind (buffer_allocate env shapes) (\<lambda>b. Inr (Some b)))
      else if fmt \<in> set kv_formats
           then let (a', r) = inner_allocate env (mx_pin mx) shapes dtypes fmt
                in (mx\<lparr>mx_pin := a'\<rparr>, res_bind r (\<lambda>i. Inr (map_option PinObj i)))
           else (mx, Inl ValueError))"

definition mixed_batched_allocate ::
    "('s, 'd) alloc_env \<Rightarrow> ('s, 'd) mixed_alloc \<Rightarrow> 's one_or_many \<Rightarrow> 'd one_or_many \<Rightarrow> int \<Rightarrow> mem_fmt
      \<Rightarrow> ('s, 'd) mixed_alloc \<times> mixed_obj list option result" where
  "mixed_batched_allocate env mx shapes dtypes k fmt =
     (if fmt = BINARY_BUFFER then (mx, res_bind (buffer_batched_allocate env shapes k) (\<lambda>bs. Inr (Some bs)))
      else if fmt \<in> set kv_formats
           then let (a', r) = inner_batched_allocate env (mx_pin mx) shapes dtypes k fmt
                in (mx\<lparr>mx_pin := a'\<rparr>, res_bind r (\<lambda>is. Inr (map_option (map PinObj) is)))
           else (mx, Inl ValueError))"

definition mixed_fmt :: "('s, 'd) mixed_alloc \<Rightarrow> mixed_obj \<Rightarrow> mem_fmt" where
  "mixed_fmt mx obj = (case obj of BytesObj n \<Rightarrow> BINARY_BUFFER | PinObj i \<Rightarrow> mo_fmt (inner_obj (mx_pin mx) i))"

datatype mixed_objs = BytesObjs "int list" | PinObjs "nat list"

definition mixed_free ::
    "('s, 'd) alloc_env \<Rightarrow> ('s, 'd) mixed_alloc \<Rightarrow> mixed_obj \<Rightarrow> ('s, 'd) mixed_alloc \<times> unit result" where
  "mixed_free env mx obj =
     (let fmt = mixed_fmt mx obj
      in if fmt = BINARY_BUFFER then (mx, Inr ())
         else if fmt \<in> set kv_formats
              then (case obj of
                      PinObj i \<Rightarrow> (mx\<lparr>mx_pin := inner_free env (mx_pin mx) i\<rparr>, Inr ())
                    | BytesObj n \<Rightarrow> (mx, Inr ()))
              else (mx, Inl ValueError))"

definition mixed_batched_free ::
    "('s, 'd) alloc_env \<Rightarrow> ('s, 'd) mixed_alloc \<Rightarrow> mixed_objs \<Rightarrow> ('s, 'd) mixed_alloc \<times> unit result" where
  "mixed_batched_free env mx objs =
     (case objs of
        BytesObjs [] \<Rightarrow> (mx, Inl IndexError)
      | BytesObjs (n # _) \<Rightarrow> (mx, Inr ())
      | PinObjs [] \<Rightarrow> (mx, Inl IndexError)
      | PinObjs (i # is) \<Rightarrow>
          (let fmt = mixed_fmt mx (PinObj i)
           in if fmt = BINARY_BUFFER then (mx, Inr ())
              else if fmt \<in> set kv_formats
                   then (mx\<lparr>mx_pin := inner_batched_free env (mx_pin mx) (i # is)\<rparr>, Inr ())
                   else (mx, Inl ValueError)))"

definition mixed_close :: "('s, 'd) mixed_alloc \<Rightarrow> ('s, 'd) mixed_alloc \<times> bool" where
  "mixed_close mx =
     (if mx_unregistered mx then (mx, False)
      else if mx_size mx = 0 then (mx, False)
      else (mx\<lparr>mx_unregistered := True\<rparr>, True))"

section \<open>By device\<close>

record ('s, 'd) cpu_gpu_alloc =
  cg_gpu :: "('s, 'd) palloc option"
  cg_cpu :: "('s, 'd) palloc option"

definition init_gpu_memory_allocator ::
    "('s, 'd) alloc_env \<Rightarrow> ('s, 'd) cpu_gpu_alloc \<Rightarrow> int \<Rightarrow> 's list \<Rightarrow> 'd list \<Rightarrow> mem_fmt
      \<Rightarrow> ('s, 'd) cpu_gpu_alloc result" where
  "init_gpu_memory_allocator env cg n shapes dtypes fmt =
     res_bind (p_init (page_of env) n shapes dtypes fmt) (\<lambda>p. Inr (cg\<lparr>cg_gpu := Some p\<rparr>))"

definition init_cpu_memory_allocator ::
    "('s, 'd) alloc_env \<Rightarrow> ('s, 'd) cpu_gpu_alloc \<Rightarrow> int \<Rightarrow> 's list \<Rightarrow> 'd list \<Rightarrow> mem_fmt
      \<Rightarrow> ('s, 'd) cpu_gpu_alloc result" where
  "init_cpu_memory_allocator env cg n shapes dtypes fmt =
     res_bind (p_init (page_of env) n shapes dtypes fmt) (\<lambda>p. Inr (cg\<lparr>cg_cpu := Some p\<rparr>))"

definition on_device ::
    "('s, 'd) cpu_gpu_alloc \<Rightarrow> string option \<Rightarrow> (('s, 'd) palloc \<Rightarrow> ('s, 'd) palloc \<times> 'r result)
      \<Rightarrow> ('s, 'd) cpu_gpu_alloc \<times> 'r result" where
  "on_device cg allocator_type f =
     (if allocator_type = Some ''gpu''
      then (case cg_gpu cg of None \<Rightarrow> (cg, Inl AttributeError)
            | Some p \<Rightarrow> (let (p', r) = f p in (cg\<lparr>cg_gpu := Some p'\<rparr>, r)))
      else if allocator_type = Some ''cpu''
      then (case cg_cpu cg of None \<Rightarrow> (cg, Inl AttributeError)
            | Some p \<Rightarrow> (let (p', r) = f p in (cg\<lparr>cg_cpu := Some p'\<rparr>, r)))
      else (cg, Inl ValueError))"

definition cg_allocate ::
    "('s, 'd) alloc_env \<Rightarrow> ('s, 'd) cpu_gpu_alloc \<Rightarrow> 's one_or_many \<Rightarrow> 'd one_or_many \<Rightarrow> mem_fmt \<Rightarrow> string option
      \<Rightarrow> ('s, 'd) cpu_gpu_alloc \<times> nat option result" where
  "cg_allocate env cg shapes dtypes fmt allocator_type =
     on_device cg allocator_type (\<lambda>p. p_allocate (page_of env) p shapes dtypes fmt)"

definition cg_batched_allocate ::
    "('s, 'd) alloc_env \<Rightarrow> ('s, 'd) cpu_gpu_alloc \<Rightarrow> 's one_or_many \<Rightarrow> 'd one_or_many \<Rightarrow> int \<Rightarrow> mem_fmt
      \<Rightarrow> string option \<Rightarrow> ('s, 'd) cpu_gpu_alloc \<times> nat list option result" where
  "cg_batched_allocate env cg shapes dtypes k fmt allocator_type =
     on_device cg allocator_type (\<lambda>p. p_batched_allocate (page_of env) p shapes dtypes k fmt)"

definition cg_free :: "('s, 'd) cpu_gpu_alloc \<Rightarrow> nat \<Rightarrow> string option \<Rightarrow> ('s, 'd) cpu_gpu_alloc \<times> unit result" where
  "cg_free cg i allocator_type = on_device cg allocator_type (\<lambda>p. (p_free p i, Inr ()))"

definition cg_batched_free ::
    "('s, 'd) cpu_gpu_alloc \<Rightarrow> nat list \<Rightarrow> string option \<Rightarrow> bool \<Rightarrow> ('s, 'd) cpu_gpu_alloc \<times> unit result" where
  "cg_batched_free cg is allocator_type update_stats =
     on_device cg allocator_type (\<lambda>p. (p_batched_free p is update_stats, Inr ()))"

lemma t_allocate_then_free:
  assumes sl: "sl_spec env" and inv: "talloc_inv st" and ad: "adapt_shapes_and_dtypes shapes dtypes = Inr (ss, ds)"
    and raw: "get_size_bytes env ss ds = Inr raw" "0 < raw"
    and r: "t_allocate env st shapes dtypes fmt = (st', Inr (Some i))"
  shows "t_am (t_free env st' i) = t_am st" and "t_num_active (t_free env st' i) = t_num_active st"
    and "mo_fmt (t_objs st' ! i) = fmt"
proof -
  obtain am' a m where al: "am_allocate env (t_am st) raw = Inr (am', a, m)"
    using r raw(1) ad by (auto simp: t_allocate_def split: sum.splits if_splits)
  have "am_inv (t_am st)" using inv by (simp add: talloc_inv_def)
  from am_free_allocate [OF sl this raw(2) al] have restored: "am_free env am' a m = t_am st" .
  have st': "st' = st\<lparr>t_am := am', t_num_active := t_num_active st + 1,
      t_objs := t_objs st @ [mk_obj ss ds a m fmt (get_buffer_slice st a raw)]\<rparr>" and i: "i = length (t_objs st)"
    using r raw(1) ad al by (auto simp: t_allocate_def Let_def split: if_splits)
  then have o: "t_objs st' ! i = mk_obj ss ds a m fmt (get_buffer_slice st a raw)" by simp
  then show "mo_fmt (t_objs st' ! i) = fmt" by (simp add: mk_obj_def)
  have "t_free env st' i = st'\<lparr>t_am := am_free env (t_am st') a m,
      t_objs := (t_objs st')[i := obj_invalidate (t_objs st' ! i)], t_num_active := t_num_active st' - 1\<rparr>"
    by (simp add: t_free_def Let_def o) (simp add: mk_obj_def)
  then show "t_am (t_free env st' i) = t_am st" and "t_num_active (t_free env st' i) = t_num_active st"
    using restored by (simp_all add: st')
qed

section \<open>Properties\<close>

text \<open>
  The mixed allocator accepts exactly the byte buffer and the four cache formats: the other
  formats raise \<open>ValueError\<close> and change nothing, and whatever an accepted request returned can be
  handed back without an error, after which the pinned allocator's address manager and counter
  are what they were.
\<close>

theorem mixed_round_trip:
  assumes "sl_spec (mem_of env)" and "mx_pin mx = FlatAlloc t" and "talloc_inv t"
    and "adapt_shapes_and_dtypes shapes dtypes = Inr (ss, ds)"
    and "get_size_bytes (mem_of env) ss ds = Inr raw" and "0 < raw"
  shows "(fmt \<in> {UNDEFINED, BINARY} \<longrightarrow> mixed_allocate env mx shapes dtypes fmt = (mx, Inl ValueError)) \<and>
    (\<forall>mx' obj. mixed_allocate env mx shapes dtypes fmt = (mx', Inr (Some obj)) \<longrightarrow>
       (\<exists>mx'' t''. mixed_free env mx' obj = (mx'', Inr ()) \<and> mx_pin mx'' = FlatAlloc t'' \<and>
          t_am t'' = t_am t \<and> t_num_active t'' = t_num_active t))"
proof (intro conjI impI allI)
  show "mixed_allocate env mx shapes dtypes fmt = (mx, Inl ValueError)" if "fmt \<in> {UNDEFINED, BINARY}"
    using that by (auto simp: mixed_allocate_def kv_formats_def)
next
  fix mx' obj assume r: "mixed_allocate env mx shapes dtypes fmt = (mx', Inr (Some obj))"
  show "\<exists>mx'' t''. mixed_free env mx' obj = (mx'', Inr ()) \<and> mx_pin mx'' = FlatAlloc t'' \<and>
          t_am t'' = t_am t \<and> t_num_active t'' = t_num_active t"
  proof (cases "fmt = BINARY_BUFFER")
    case True
    with r obtain n where "mx' = mx" "obj = BytesObj n"
      by (auto simp: mixed_allocate_def buffer_allocate_def res_bind_def split: sum.splits if_splits)
    then show ?thesis using assms(2) by (simp add: mixed_free_def mixed_fmt_def)
  next
    case False
    with r assms(2) obtain t' i where t': "t_allocate (mem_of env) t shapes dtypes fmt = (t', Inr (Some i))"
        "mx' = mx\<lparr>mx_pin := FlatAlloc t'\<rparr>" "obj = PinObj i" and kv: "fmt \<in> set kv_formats"
      by (auto simp: mixed_allocate_def inner_allocate_def res_bind_def apfst_def map_prod_def
          split: sum.splits if_splits prod.splits)
    note F = t_allocate_then_free [OF assms(1,3,4,5,6) t'(1)]
    have "mixed_free env mx' obj = (mx'\<lparr>mx_pin := FlatAlloc (t_free (mem_of env) t' i)\<rparr>, Inr ())"
      using F(3) kv False t' by (simp add: mixed_free_def mixed_fmt_def inner_obj_def inner_free_def)
    with F(1,2) t' show ?thesis by simp
  qed
qed

definition ref_alloc_env :: "(int list, int) alloc_env" where
  "ref_alloc_env = page_env.extend ref_page_env \<lparr>size_dim = (\<lambda>s i. if i < length s then Some (s ! i) else None)\<rparr>"

lemma ref_alloc_env_mem: "mem_of ref_alloc_env = ref_mem_env"
  by (simp add: ref_alloc_env_def ref_page_env_def mem_env.defs page_env.defs)

theorem mixed_round_trip_witness:
  "\<exists>mx'. mixed_allocate ref_alloc_env \<lparr>mx_size = 16384, mx_pin = FlatAlloc demo_talloc, mx_unregistered = False\<rparr>
       (One [2, 8]) (One 2) KV_2TD = (mx', Inr (Some (PinObj 0))) \<and>
     (\<exists>mx'' t''. mixed_free ref_alloc_env mx' (PinObj 0) = (mx'', Inr ()) \<and> mx_pin mx'' = FlatAlloc t'' \<and>
        t_am t'' = t_am demo_talloc)"
proof -
  let ?mx = "\<lparr>mx_size = 16384, mx_pin = FlatAlloc demo_talloc, mx_unregistered = False\<rparr>"
  obtain mx' r where r: "mixed_allocate ref_alloc_env ?mx (One [2, 8]) (One 2) KV_2TD = (mx', r)" by fastforce
  moreover have "snd (mixed_allocate ref_alloc_env ?mx (One [2, 8]) (One 2) KV_2TD) = Inr (Some (PinObj 0))"
    by code_simp
  ultimately have "mixed_allocate ref_alloc_env ?mx (One [2, 8]) (One 2) KV_2TD = (mx', Inr (Some (PinObj 0)))"
    by simp
  with mixed_round_trip [of ref_alloc_env ?mx demo_talloc "One [2, 8]" "One 2" "[[2, 8]]" "[2]" 32 KV_2TD]
  show ?thesis
    using demo_talloc_inv ref_mem_env_sl
    by (auto simp: ref_alloc_env_mem adapt_shapes_and_dtypes_def get_size_bytes_def ref_mem_env_def)
qed

end
