(* ===== verification/CachePolicy.thy ===== *)
theory CachePolicy
  imports SortedContainers
begin

text \<open>
  The eviction policies of \<open>v1/storage_backend/cache_policy/\<close>: LRU, LFU, FIFO, MRU and the
  factory that picks one by name. A cache dictionary is an insertion ordered association list;
  \<open>can\<close> tells of a cached value whether it may be evicted (\<open>can_evict\<close>). The policies that
  keep state of their own are LRU (the times chunk hashes were first seen, for statistics) and
  LFU (\<open>key_to_freq\<close> and the \<open>SortedDict\<close> \<open>freq_to_keys\<close>, whose buckets are dictionaries
  with \<open>None\<close> values, so lists of keys here).

  The locale \<open>cache_policy\<close> is what the storage backends rely on; it is interpreted on the
  dispatching operations \<open>pol_hit\<close>, \<open>pol_put\<close>, \<open>pol_force_evict\<close>, \<open>pol_candidates\<close>.
\<close>

declare map_of_eq_Some_iff [simp del] Some_eq_map_of_iff [simp del]

section \<open>Scanning a dictionary for candidates\<close>

fun scan_candidates :: "('v \<Rightarrow> bool) \<Rightarrow> int \<Rightarrow> ('k \<times> 'v) list \<Rightarrow> 'k list \<Rightarrow> 'k list" where
  "scan_candidates can n [] evict_keys = evict_keys"
| "scan_candidates can n ((k, v) # items) evict_keys =
     (if \<not> can v then scan_candidates can n items evict_keys
      else if int (length (evict_keys @ [k])) = n then evict_keys @ [k]
      else scan_candidates can n items (evict_keys @ [k]))"

section \<open>LRU\<close>

record 'h lru_state =
  chunk_hash_to_init_timestamp :: "('h, int) odict"
  max_num_chunk_hash :: nat
  reuse_intervals :: "int list"

definition lru_init :: "'h lru_state" where
  "lru_init = \<lparr>chunk_hash_to_init_timestamp = [], max_num_chunk_hash = 12500000, reuse_intervals = []\<rparr>"

definition update_chunk_hash_dict :: "int \<Rightarrow> 'h \<Rightarrow> 'h lru_state \<Rightarrow> 'h lru_state" where
  "update_chunk_hash_dict now key_hash s =
     (let d = chunk_hash_to_init_timestamp s;
          fresh = (let d' = (if max_num_chunk_hash s \<le> length d then [] else d)
                   in s\<lparr>chunk_hash_to_init_timestamp := AList.update key_hash now d'\<rparr>)
      in case map_of d key_hash of
           None \<Rightarrow> fresh
         | Some t \<Rightarrow> (if t \<noteq> 0 then s\<lparr>reuse_intervals := reuse_intervals s @ [now - t]\<rparr> else fresh))"

definition lru_on_hit ::
    "int \<Rightarrow> 'h \<Rightarrow> 'k \<Rightarrow> ('k, 'v) odict \<Rightarrow> 'h lru_state \<Rightarrow> 'h lru_state \<times> ('k, 'v) odict result" where
  "lru_on_hit now key_hash key cache s = (update_chunk_hash_dict now key_hash s, od_move_to_end key cache)"

definition lru_on_put :: "int \<Rightarrow> 'h \<Rightarrow> 'h lru_state \<Rightarrow> 'h lru_state" where
  "lru_on_put now key_hash s = update_chunk_hash_dict now key_hash s"

definition lru_candidates :: "('v \<Rightarrow> bool) \<Rightarrow> int \<Rightarrow> ('k, 'v) odict \<Rightarrow> 'k list" where
  "lru_candidates can n cache = scan_candidates can n cache []"

section \<open>LFU\<close>

record 'k lfu_state =
  freq_to_keys :: "(int \<times> 'k list) list"
  key_to_freq :: "('k, int) odict"

definition lfu_init :: "'k lfu_state" where
  "lfu_init = \<lparr>freq_to_keys = [], key_to_freq = []\<rparr>"

definition bucket_pop :: "int \<Rightarrow> 'k \<Rightarrow> (int \<times> 'k list) list \<Rightarrow> (int \<times> 'k list) list result" where
  "bucket_pop f key d =
     (case map_of d f of
        None \<Rightarrow> Inl KeyError
      | Some ks \<Rightarrow>
          if key \<notin> set ks then Inl KeyError
          else let ks' = remove1 key ks
               in Inr (if ks' = [] then AList.delete f d else AList.update f ks' d))"

definition bucket_add :: "int \<Rightarrow> 'k \<Rightarrow> (int \<times> 'k list) list \<Rightarrow> (int \<times> 'k list) list" where
  "bucket_add f key d =
     (case map_of d f of
        None \<Rightarrow> AList.update f [key] d
      | Some ks \<Rightarrow> AList.update f (if key \<in> set ks then ks else ks @ [key]) d)"

definition lfu_on_hit :: "'k \<Rightarrow> 'k lfu_state \<Rightarrow> 'k lfu_state result" where
  "lfu_on_hit key s =
     (case map_of (key_to_freq s) key of
        None \<Rightarrow> Inl KeyError
      | Some f \<Rightarrow>
          res_bind (bucket_pop f key (freq_to_keys s))
            (\<lambda>d. Inr \<lparr>freq_to_keys = bucket_add (f + 1) key d,
                      key_to_freq = AList.update key (f + 1) (key_to_freq s)\<rparr>))"

definition lfu_on_put :: "'k \<Rightarrow> 'k lfu_state \<Rightarrow> 'k lfu_state" where
  "lfu_on_put key s = \<lparr>freq_to_keys = bucket_add 1 key (freq_to_keys s),
     key_to_freq = AList.update key 1 (key_to_freq s)\<rparr>"

definition lfu_on_force_evict :: "'k \<Rightarrow> 'k lfu_state \<Rightarrow> 'k lfu_state result" where
  "lfu_on_force_evict key s =
     (case map_of (key_to_freq s) key of
        None \<Rightarrow> Inr s
      | Some f \<Rightarrow>
          let s' = s\<lparr>key_to_freq := AList.delete key (key_to_freq s)\<rparr>
          in if f = 0 then Inr s'
             else res_bind (bucket_pop f key (freq_to_keys s)) (\<lambda>d. Inr (s'\<lparr>freq_to_keys := d\<rparr>)))"

text \<open>The inner loop over one bucket: the candidates so far with their frequencies,
  \<open>key_to_freq\<close>, whether the loop was left by \<open>break\<close>, or the exception.\<close>

fun lfu_scan_bucket ::
    "('k \<Rightarrow> bool option) \<Rightarrow> int \<Rightarrow> int \<Rightarrow> 'k list \<Rightarrow> ('k \<times> int) list \<Rightarrow> ('k, int) odict
      \<Rightarrow> (('k \<times> int) list \<times> ('k, int) odict) \<times> unit result" where
  "lfu_scan_bucket can n f [] ev kf = ((ev, kf), Inr ())"
| "lfu_scan_bucket can n f (key # keys) ev kf =
     (case can key of
        None \<Rightarrow> ((ev, kf), Inl KeyError)
      | Some False \<Rightarrow> lfu_scan_bucket can n f keys ev kf
      | Some True \<Rightarrow>
          if map_of kf key = None then ((ev @ [(key, f)], kf), Inl KeyError)
          else let ev' = ev @ [(key, f)]; kf' = AList.delete key kf
               in if int (length ev') = n then ((ev', kf'), Inr ())
                  else lfu_scan_bucket can n f keys ev' kf')"

fun lfu_scan ::
    "('k \<Rightarrow> bool option) \<Rightarrow> int \<Rightarrow> (int \<times> 'k list) list \<Rightarrow> ('k \<times> int) list \<Rightarrow> ('k, int) odict
      \<Rightarrow> (('k \<times> int) list \<times> ('k, int) odict) \<times> unit result" where
  "lfu_scan can n [] ev kf = ((ev, kf), Inr ())"
| "lfu_scan can n ((f, keys) # buckets) ev kf =
     (case lfu_scan_bucket can n f keys ev kf of
        (s, Inl e) \<Rightarrow> (s, Inl e)
      | ((ev', kf'), Inr _) \<Rightarrow>
          if int (length ev') = n then ((ev', kf'), Inr ()) else lfu_scan can n buckets ev' kf')"

fun lfu_pop_all :: "('k \<times> int) list \<Rightarrow> (int \<times> 'k list) list \<Rightarrow> (int \<times> 'k list) list \<times> unit result" where
  "lfu_pop_all [] d = (d, Inr ())"
| "lfu_pop_all ((key, f) # ev) d =
     (case bucket_pop f key d of Inl e \<Rightarrow> (d, Inl e) | Inr d' \<Rightarrow> lfu_pop_all ev d')"

definition lfu_candidates ::
    "((int \<times> 'k list) list \<Rightarrow> (int \<times> 'k list) list) \<Rightarrow> ('v \<Rightarrow> bool) \<Rightarrow> int \<Rightarrow> ('k, 'v) odict \<Rightarrow> 'k lfu_state
      \<Rightarrow> 'k lfu_state \<times> 'k list result" where
  "lfu_candidates items can n cache s =
     (let ((ev, kf), r) = lfu_scan (\<lambda>k. map_option can (map_of cache k)) n (items (freq_to_keys s)) [] (key_to_freq s);
          s1 = s\<lparr>key_to_freq := kf\<rparr>
      in case r of
           Inl e \<Rightarrow> (s1, Inl e)
         | Inr _ \<Rightarrow> (let (d, r') = lfu_pop_all ev (freq_to_keys s)
                     in (s1\<lparr>freq_to_keys := d\<rparr>, res_bind r' (\<lambda>_. Inr (map fst ev)))))"

section \<open>FIFO and MRU\<close>

definition fifo_candidates :: "('v \<Rightarrow> bool) \<Rightarrow> int \<Rightarrow> ('k, 'v) odict \<Rightarrow> 'k list" where
  "fifo_candidates can n cache = scan_candidates can n cache []"

definition mru_on_hit :: "'k \<Rightarrow> ('k, 'v) odict \<Rightarrow> ('k, 'v) odict result" where
  "mru_on_hit key cache = od_move_to_end key cache"

definition mru_candidates :: "('v \<Rightarrow> bool) \<Rightarrow> int \<Rightarrow> ('k, 'v) odict \<Rightarrow> 'k list" where
  "mru_candidates can n cache = scan_candidates can n (rev cache) []"

section \<open>The policy of a backend\<close>

datatype ('k, 'h) policy = LRU "'h lru_state" | LFU "'k lfu_state" | FIFO | MRU

definition upper_char :: "char \<Rightarrow> char" where
  "upper_char c = (let n = (of_char c :: nat) in if 97 \<le> n \<and> n \<le> 122 then char_of (n - 32) else c)"

definition get_cache_policy :: "string \<Rightarrow> ('k, 'h) policy result" where
  "get_cache_policy name =
     (if name = [] then Inl ValueError
      else let u = map upper_char name
           in if u = ''LRU'' then Inr (LRU lru_init)
              else if u = ''LFU'' then Inr (LFU lfu_init)
              else if u = ''FIFO'' then Inr FIFO
              else if u = ''MRU'' then Inr MRU
              else Inl ValueError)"

definition pol_hit ::
    "('k \<Rightarrow> 'h) \<Rightarrow> int \<Rightarrow> 'k \<Rightarrow> ('k, 'v) odict \<Rightarrow> ('k, 'h) policy \<Rightarrow> ('k, 'h) policy \<times> ('k, 'v) odict result" where
  "pol_hit hash now key cache pol =
     (case pol of
        LRU s \<Rightarrow> apfst LRU (lru_on_hit now (hash key) key cache s)
      | LFU s \<Rightarrow> (case lfu_on_hit key s of Inl e \<Rightarrow> (LFU s, Inl e) | Inr s' \<Rightarrow> (LFU s', Inr cache))
      | FIFO \<Rightarrow> (FIFO, Inr cache)
      | MRU \<Rightarrow> (MRU, mru_on_hit key cache))"

definition pol_put :: "('k \<Rightarrow> 'h) \<Rightarrow> int \<Rightarrow> 'k \<Rightarrow> ('k, 'h) policy \<Rightarrow> ('k, 'h) policy" where
  "pol_put hash now key pol =
     (case pol of LRU s \<Rightarrow> LRU (lru_on_put now (hash key) s) | LFU s \<Rightarrow> LFU (lfu_on_put key s) | p \<Rightarrow> p)"

definition pol_force_evict :: "'k \<Rightarrow> ('k, 'h) policy \<Rightarrow> ('k, 'h) policy result" where
  "pol_force_evict key pol =
     (case pol of LFU s \<Rightarrow> res_bind (lfu_on_force_evict key s) (\<lambda>s'. Inr (LFU s')) | p \<Rightarrow> Inr p)"

definition pol_candidates ::
    "((int \<times> 'k list) list \<Rightarrow> (int \<times> 'k list) list) \<Rightarrow> ('v \<Rightarrow> bool) \<Rightarrow> int \<Rightarrow> ('k, 'v) odict \<Rightarrow> ('k, 'h) policy
      \<Rightarrow> ('k, 'h) policy \<times> 'k list result" where
  "pol_candidates items can n cache pol =
     (case pol of
        LRU s \<Rightarrow> (LRU s, Inr (lru_candidates can n cache))
      | LFU s \<Rightarrow> apfst LFU (lfu_candidates items can n cache s)
      | FIFO \<Rightarrow> (FIFO, Inr (fifo_candidates can n cache))
      | MRU \<Rightarrow> (MRU, Inr (mru_candidates can n cache)))"

section \<open>The interface of a policy\<close>

locale cache_policy =
  fixes hit :: "int \<Rightarrow> 'k \<Rightarrow> ('k, 'v) odict \<Rightarrow> 'p \<Rightarrow> 'p \<times> ('k, 'v) odict result"
    and put :: "int \<Rightarrow> 'k \<Rightarrow> 'p \<Rightarrow> 'p"
    and force_evict :: "'k \<Rightarrow> 'p \<Rightarrow> 'p result"
    and candidates :: "('v \<Rightarrow> bool) \<Rightarrow> int \<Rightarrow> ('k, 'v) odict \<Rightarrow> 'p \<Rightarrow> 'p \<times> 'k list result"
    and pinv :: "'p \<Rightarrow> 'k set \<Rightarrow> bool"
  assumes hit_ok: "pinv p (set (od_keys d)) \<Longrightarrow> od_wf d \<Longrightarrow> k \<in> set (od_keys d)
      \<Longrightarrow> \<exists>p' d'. hit t k d p = (p', Inr d') \<and> pinv p' (set (od_keys d)) \<and> od_wf d' \<and> map_of d' = map_of d"
    and put_ok: "pinv p K \<Longrightarrow> k \<notin> K \<Longrightarrow> pinv (put t k p) (insert k K)"
    and force_ok: "pinv p K \<Longrightarrow> k \<in> K \<Longrightarrow> \<exists>p'. force_evict k p = Inr p' \<and> pinv p' (K - {k})"
    and candidates_ok: "pinv p (set (od_keys d)) \<Longrightarrow> od_wf d \<Longrightarrow> 0 < n
      \<Longrightarrow> \<exists>p' ks. candidates can n d p = (p', Inr ks) \<and> pinv p' (set (od_keys d) - set ks) \<and> distinct ks \<and>
            set ks \<subseteq> {k. \<exists>v. map_of d k = Some v \<and> can v} \<and>
            length ks = min (nat n) (card {k. \<exists>v. map_of d k = Some v \<and> can v})"
begin

lemma candidates_none_iff:
  assumes "pinv p (set (od_keys d))" and "od_wf d" and "0 < n"
  shows "(\<exists>p'. candidates can n d p = (p', Inr [])) \<longleftrightarrow> (\<forall>k v. map_of d k = Some v \<longrightarrow> \<not> can v)"
proof -
  let ?E = "{k. \<exists>v. map_of d k = Some v \<and> can v}"
  have "?E \<subseteq> dom (map_of d)" by auto
  then have fin: "finite ?E" using finite_dom_map_of finite_subset by blast
  obtain p' ks where c: "candidates can n d p = (p', Inr ks)" "length ks = min (nat n) (card ?E)"
    using candidates_ok [OF assms, of can] by blast
  with assms(3) have "ks = [] \<longleftrightarrow> card ?E = 0" by (auto simp: min_def split: if_splits)
  with c fin show ?thesis by auto
qed

lemma candidate_one:
  assumes "pinv p (set (od_keys d))" and "od_wf d" and "map_of d k = Some v" and "can v"
  shows "\<exists>p' k' v'. candidates can 1 d p = (p', Inr [k']) \<and> pinv p' (set (od_keys d) - {k'}) \<and>
    map_of d k' = Some v' \<and> can v'"
proof -
  let ?E = "{k. \<exists>v. map_of d k = Some v \<and> can v}"
  have "?E \<subseteq> dom (map_of d)" by auto
  then have fin: "finite ?E" using finite_dom_map_of finite_subset by blast
  moreover have "k \<in> ?E" using assms(3,4) by blast
  ultimately have "card ?E \<noteq> 0" by auto
  moreover obtain p' ks where c: "candidates can 1 d p = (p', Inr ks)" "pinv p' (set (od_keys d) - set ks)"
      "set ks \<subseteq> ?E" "length ks = min (nat 1) (card ?E)"
    using candidates_ok [OF assms(1,2) zero_less_one, of can] by blast
  ultimately obtain k' where "ks = [k']" by (cases ks) auto
  with c show ?thesis by auto
qed

end

section \<open>Scanning\<close>

lemma scan_candidates_take:
  "int (length acc) < n \<Longrightarrow> scan_candidates can n items acc
     = acc @ take (nat n - length acc) (map fst (filter (can \<circ> snd) items))"
proof (induction items arbitrary: acc)
  case (Cons a items)
  obtain k v where a: "a = (k, v)" by (cases a)
  have m: "nat n - length acc = Suc (nat n - length (acc @ [k]))" using Cons.prems by simp
  show ?case
  proof (cases "can v \<and> int (length (acc @ [k])) = n")
    case True
    then have "nat n - length (acc @ [k]) = 0" by auto
    with True m show ?thesis by (simp add: a)
  next
    case False
    with Cons m show ?thesis by (auto simp: a)
  qed
qed simp

lemma evictable_keys:
  assumes "od_wf d"
  shows "set (map fst (filter (can \<circ> snd) d)) = {k. \<exists>v. map_of d k = Some v \<and> can v}"
    and "distinct (map fst (filter (can \<circ> snd) d))"
    and "length (filter (can \<circ> snd) d) = card {k. \<exists>v. map_of d k = Some v \<and> can v}"
proof -
  show d: "distinct (map fst (filter (can \<circ> snd) d))" using assms by (simp add: distinct_map_filter)
  show s: "set (map fst (filter (can \<circ> snd) d)) = {k. \<exists>v. map_of d k = Some v \<and> can v}"
    using assms by (force simp: map_of_eq_Some_iff)
  show "length (filter (can \<circ> snd) d) = card {k. \<exists>v. map_of d k = Some v \<and> can v}"
    using distinct_card [OF d] unfolding s by simp
qed

lemma take_candidates_ok:
  assumes "distinct es" and "set es = E" and "ks = take (nat n) es"
  shows "distinct ks \<and> set ks \<subseteq> E \<and> length ks = min (nat n) (card E)"
  using assms by (auto simp: distinct_card [symmetric] min.commute dest: in_set_takeD)

section \<open>LFU: buckets\<close>

definition bucket_of :: "(int \<times> 'k list) list \<Rightarrow> int \<Rightarrow> 'k list" where
  "bucket_of d f = (case map_of d f of None \<Rightarrow> [] | Some ks \<Rightarrow> ks)"

definition buckets_ok :: "(int \<times> 'k list) list \<Rightarrow> bool" where
  "buckets_ok d \<longleftrightarrow> od_wf d \<and> (\<forall>f. map_of d f \<noteq> Some []) \<and> (\<forall>f. distinct (bucket_of d f))"

definition lfu_inv :: "'k lfu_state \<Rightarrow> 'k set \<Rightarrow> bool" where
  "lfu_inv s K \<longleftrightarrow> buckets_ok (freq_to_keys s) \<and> od_wf (key_to_freq s) \<and>
     set (od_keys (key_to_freq s)) = K \<and>
     (\<forall>k f. map_of (key_to_freq s) k = Some f \<longrightarrow> 0 < f) \<and>
     (\<forall>k f. k \<in> set (bucket_of (freq_to_keys s) f) \<longleftrightarrow> map_of (key_to_freq s) k = Some f)"

lemma bucket_pop_ok:
  assumes ok: "buckets_ok d" and k: "k \<in> set (bucket_of d f)"
  shows "\<exists>d'. bucket_pop f k d = Inr d' \<and> buckets_ok d' \<and> bucket_of d' = (bucket_of d)(f := remove1 k (bucket_of d f))"
proof -
  obtain ks where ks: "map_of d f = Some ks" "k \<in> set ks"
    using k unfolding bucket_of_def by (cases "map_of d f") auto
  define d' where "d' = (if remove1 k ks = [] then AList.delete f d else AList.update f (remove1 k ks) d)"
  have "bucket_pop f k d = Inr d'" using ks by (simp add: bucket_pop_def d'_def Let_def)
  moreover have b: "bucket_of d' = (bucket_of d)(f := remove1 k (bucket_of d f))"
    using ks(1) by (auto simp: d'_def bucket_of_def fun_eq_iff)
  moreover have "map_of d' g \<noteq> Some []" for g
    using ok by (auto simp: d'_def buckets_ok_def)
  moreover have "od_wf d'" and "distinct (bucket_of d' g)" for g
    using ok by (simp_all add: b) (simp_all add: d'_def buckets_ok_def)
  ultimately have "buckets_ok d'" by (simp only: buckets_ok_def) blast
  moreover note \<open>bucket_pop f k d = Inr d'\<close> b
  ultimately show ?thesis by blast
qed

lemma bucket_add_ok:
  assumes ok: "buckets_ok d"
  shows "buckets_ok (bucket_add f k d)" and "bucket_of (bucket_add f k d) =
    (bucket_of d)(f := (if k \<in> set (bucket_of d f) then bucket_of d f else bucket_of d f @ [k]))"
proof -
  show b: "bucket_of (bucket_add f k d) =
    (bucket_of d)(f := (if k \<in> set (bucket_of d f) then bucket_of d f else bucket_of d f @ [k]))"
    by (auto simp: bucket_add_def bucket_of_def fun_eq_iff split: option.splits)
  have "map_of (bucket_add f k d) g \<noteq> Some []" for g
    using ok by (auto simp: bucket_add_def buckets_ok_def split: option.splits)
  moreover have "od_wf (bucket_add f k d)" using ok by (simp add: bucket_add_def buckets_ok_def split: option.splits)
  moreover have "distinct (bucket_of (bucket_add f k d) g)" for g using ok by (simp add: buckets_ok_def b)
  ultimately show "buckets_ok (bucket_add f k d)" by (simp only: buckets_ok_def) blast
qed

lemma lfu_put_ok:
  assumes "lfu_inv s K" and "k \<notin> K"
  shows "lfu_inv (lfu_on_put k s) (insert k K)"
proof -
  have n: "map_of (key_to_freq s) k = None" using assms by (auto simp: lfu_inv_def map_of_eq_None_iff)
  with assms(1) have "k \<notin> set (bucket_of (freq_to_keys s) f)" for f by (auto simp: lfu_inv_def)
  with assms n show ?thesis
    by (auto simp: lfu_inv_def lfu_on_put_def bucket_add_ok dom_update)
qed

lemma lfu_force_ok:
  assumes inv: "lfu_inv s K" and "k \<in> K"
  shows "\<exists>s'. lfu_on_force_evict k s = Inr s' \<and> lfu_inv s' (K - {k})"
proof -
  obtain f where f: "map_of (key_to_freq s) k = Some f" "0 < f"
    using assms by (metis lfu_inv_def map_of_None_keys not_Some_eq)
  then have "k \<in> set (bucket_of (freq_to_keys s) f)" using inv by (simp add: lfu_inv_def)
  moreover have ok: "buckets_ok (freq_to_keys s)" using inv by (simp add: lfu_inv_def)
  ultimately obtain d' where d': "bucket_pop f k (freq_to_keys s) = Inr d'" "buckets_ok d'"
      "bucket_of d' = (bucket_of (freq_to_keys s))(f := remove1 k (bucket_of (freq_to_keys s) f))"
    using bucket_pop_ok by metis
  have "distinct (bucket_of (freq_to_keys s) f)" using ok by (simp add: buckets_ok_def)
  then have "lfu_inv (s\<lparr>key_to_freq := AList.delete k (key_to_freq s), freq_to_keys := d'\<rparr>) (K - {k})"
    using inv d'(2) f by (auto simp: lfu_inv_def d'(3) set_keys_delete simp del: set_map)
  with f d'(1) show ?thesis by (simp add: lfu_on_force_evict_def)
qed

lemma lfu_hit_ok:
  assumes inv: "lfu_inv s K" and "k \<in> K"
  shows "\<exists>s' f. lfu_on_hit k s = Inr s' \<and> lfu_inv s' K \<and> map_of (key_to_freq s) k = Some f \<and>
    map_of (key_to_freq s') = (map_of (key_to_freq s))(k \<mapsto> f + 1)"
proof -
  obtain f where f: "map_of (key_to_freq s) k = Some f" "0 < f"
    using assms by (metis lfu_inv_def map_of_None_keys not_Some_eq)
  then have "k \<in> set (bucket_of (freq_to_keys s) f)" using inv by (simp add: lfu_inv_def)
  moreover have ok: "buckets_ok (freq_to_keys s)" using inv by (simp add: lfu_inv_def)
  ultimately obtain d' where d': "bucket_pop f k (freq_to_keys s) = Inr d'" "buckets_ok d'"
      "bucket_of d' = (bucket_of (freq_to_keys s))(f := remove1 k (bucket_of (freq_to_keys s) f))"
    using bucket_pop_ok by metis
  have dist: "distinct (bucket_of (freq_to_keys s) f)" using ok by (simp add: buckets_ok_def)
  have mem: "k' \<in> set (bucket_of (freq_to_keys s) g) \<longleftrightarrow> map_of (key_to_freq s) k' = Some g" for k' g
    using inv by (simp add: lfu_inv_def)
  let ?s' = "\<lparr>freq_to_keys = bucket_add (f + 1) k d', key_to_freq = AList.update k (f + 1) (key_to_freq s)\<rparr>"
  have "k' \<in> set (bucket_of (freq_to_keys ?s') g) \<longleftrightarrow> map_of (key_to_freq ?s') k' = Some g" for k' g
    using f(1) dist by (auto simp: bucket_add_ok [OF d'(2)] d'(3) mem)
  moreover have "map_of (key_to_freq ?s') k' = Some g \<Longrightarrow> 0 < g" for k' g
    using inv f(2) by (cases "k' = k") (auto simp: lfu_inv_def)
  moreover have "set (od_keys (key_to_freq ?s')) = K" and "od_wf (key_to_freq ?s')"
    using inv assms(2) by (auto simp: lfu_inv_def dom_update)
  moreover have "buckets_ok (freq_to_keys ?s')" using bucket_add_ok(1) [OF d'(2)] by simp
  ultimately have "lfu_inv ?s' K" by (simp only: lfu_inv_def) blast
  with f d'(1) show ?thesis by (simp add: lfu_on_hit_def)
qed

section \<open>LFU: choosing candidates\<close>

definition drop_keys :: "'k list \<Rightarrow> ('k, int) odict \<Rightarrow> ('k, int) odict" where
  "drop_keys ks kf = fold AList.delete ks kf"

lemma drop_keys_simps [simp]:
  "drop_keys [] kf = kf" "drop_keys (k # ks) kf = drop_keys ks (AList.delete k kf)"
  "drop_keys (ks @ ls) kf = drop_keys ls (drop_keys ks kf)"
  by (simp_all add: drop_keys_def)

lemma map_of_drop_keys: "map_of (drop_keys ks kf) k = (if k \<in> set ks then None else map_of kf k)"
  by (induction ks arbitrary: kf) auto

lemma od_wf_drop_keys: "od_wf kf \<Longrightarrow> od_wf (drop_keys ks kf)"
  by (induction ks arbitrary: kf) auto

lemma take_le_Cons:
  "0 < m \<Longrightarrow> take m (x # xs) = x # take (m - 1) xs"
  by (cases m) auto

lemma lfu_scan_bucket_eq:
  assumes "int (length ev) < n" and "distinct ks"
    and "\<And>k. k \<in> set ks \<Longrightarrow> can k \<noteq> None \<and> map_of kf k \<noteq> None"
  shows "lfu_scan_bucket can n f ks ev kf =
    (let new = take (nat n - length ev) (filter (\<lambda>k. can k = Some True) ks)
     in ((ev @ map (\<lambda>k. (k, f)) new, drop_keys new kf), Inr ()))"
  using assms
proof (induction ks arbitrary: ev kf)
  case (Cons k ks)
  obtain b where b: "can k = Some b" using Cons.prems(3) [of k] by auto
  have m: "0 < nat n - length ev" using Cons.prems(1) by simp
  show ?case
  proof (cases "b \<and> int (length (ev @ [(k, f)])) \<noteq> n")
    case True
    have "map_of (AList.delete k kf) k' = map_of kf k'" if "k' \<in> set ks" for k'
      using that Cons.prems(2) by auto
    with Cons.prems have "lfu_scan_bucket can n f ks (ev @ [(k, f)]) (AList.delete k kf) =
      (let new = take (nat n - length (ev @ [(k, f)])) (filter (\<lambda>k. can k = Some True) ks)
       in (((ev @ [(k, f)]) @ map (\<lambda>k. (k, f)) new, drop_keys new (AList.delete k kf)), Inr ()))"
      using True by (intro Cons.IH) auto
    with True b m Cons.prems(3) [of k] show ?thesis by (simp add: take_le_Cons Let_def)
  next
    case False
    then consider "\<not> b" | "b" "nat n - length ev = 1" by force
    then show ?thesis
    proof cases
      case 1
      with b Cons show ?thesis by simp
    next
      case 2
      with b False Cons.prems(3) [of k] show ?thesis by (simp add: Let_def)
    qed
  qed
qed simp

definition pairs_of :: "(int \<times> 'k list) list \<Rightarrow> ('k \<times> int) list" where
  "pairs_of d = concat (map (\<lambda>(f, ks). map (\<lambda>k. (k, f)) ks) d)"

lemma pairs_of_simps [simp]:
  "pairs_of [] = []" "pairs_of ((f, ks) # d) = map (\<lambda>k. (k, f)) ks @ pairs_of d"
  by (simp_all add: pairs_of_def)

lemma filter_map_pair: "filter (\<lambda>p. P (fst p)) (map (\<lambda>k. (k, f)) ks) = map (\<lambda>k. (k, f)) (filter P ks)"
  by (induction ks) auto

lemma lfu_scan_eq:
  assumes "int (length ev) < n" and "distinct (map fst (pairs_of d))"
    and "\<And>k. k \<in> fst ` set (pairs_of d) \<Longrightarrow> can k \<noteq> None \<and> map_of kf k \<noteq> None"
  shows "lfu_scan can n d ev kf =
    (let new = take (nat n - length ev) (filter (\<lambda>p. can (fst p) = Some True) (pairs_of d))
     in ((ev @ new, drop_keys (map fst new) kf), Inr ()))"
  using assms
proof (induction d arbitrary: ev kf)
  case (Cons b d)
  obtain f ks where b: "b = (f, ks)" by (cases b)
  define K where "K = filter (\<lambda>k. can k = Some True) ks"
  define new where "new = take (nat n - length ev) K"
  have keys: "map fst (map (\<lambda>k. (k, f)) ks) = ks" by (simp add: comp_def)
  have dist: "distinct ks" "distinct (map fst (pairs_of d))" "set ks \<inter> fst ` set (pairs_of d) = {}"
    using Cons.prems(2) by (simp_all add: b comp_def)
  have inner: "lfu_scan_bucket can n f ks ev kf = ((ev @ map (\<lambda>k. (k, f)) new, drop_keys new kf), Inr ())"
    using lfu_scan_bucket_eq [OF Cons.prems(1) dist(1), of can kf f] Cons.prems(3)
    by (simp add: b image_Un image_comp Let_def new_def K_def)
  have fp: "filter (\<lambda>p. can (fst p) = Some True) (pairs_of (b # d))
      = map (\<lambda>k. (k, f)) K @ filter (\<lambda>p. can (fst p) = Some True) (pairs_of d)"
    using filter_map_pair [of "\<lambda>k. can k = Some True" f ks] by (simp add: b K_def)
  show ?case
  proof (cases "int (length (ev @ map (\<lambda>k. (k, f)) new)) = n")
    case True
    then have "length new = nat n - length ev" by auto
    then have "nat n - length ev \<le> length K" by (auto simp: new_def)
    then show ?thesis
      using inner True fp by (simp add: b Let_def new_def take_map comp_def)
  next
    case False
    then have lt: "length K < nat n - length ev" using Cons.prems(1) by (auto simp: new_def)
    then have nK: "new = K" by (simp add: new_def)
    have sub: "set new \<subseteq> set ks" by (auto simp: nK K_def)
    have "lfu_scan can n d (ev @ map (\<lambda>k. (k, f)) new) (drop_keys new kf) =
      (let new' = take (nat n - length (ev @ map (\<lambda>k. (k, f)) new)) (filter (\<lambda>p. can (fst p) = Some True) (pairs_of d))
       in (((ev @ map (\<lambda>k. (k, f)) new) @ new', drop_keys (map fst new') (drop_keys new kf)), Inr ()))"
    proof (rule Cons.IH [OF _ dist(2)])
      show "int (length (ev @ map (\<lambda>k. (k, f)) new)) < n" using lt nK by simp
      show "can k \<noteq> None \<and> map_of (drop_keys new kf) k \<noteq> None" if "k \<in> fst ` set (pairs_of d)" for k
        using Cons.prems(3) [of k] that sub dist(3) by (auto simp: b image_Un map_of_drop_keys)
    qed
    then show ?thesis
      using inner False fp lt nK by (simp add: b Let_def comp_def)
  qed
qed simp

lemma lfu_pop_all_ok:
  assumes "buckets_ok d" and "distinct (map fst ev)"
    and "\<And>k f. (k, f) \<in> set ev \<Longrightarrow> k \<in> set (bucket_of d f)"
  shows "\<exists>d'. lfu_pop_all ev d = (d', Inr ()) \<and> buckets_ok d' \<and>
    (\<forall>f. set (bucket_of d' f) = set (bucket_of d f) - {k. (k, f) \<in> set ev})"
  using assms
proof (induction ev arbitrary: d)
  case (Cons p ev)
  obtain k f where p: "p = (k, f)" by (cases p)
  have "k \<in> set (bucket_of d f)" using Cons.prems(3) by (simp add: p)
  then obtain d1 where d1: "bucket_pop f k d = Inr d1" "buckets_ok d1"
      "bucket_of d1 = (bucket_of d)(f := remove1 k (bucket_of d f))"
    using bucket_pop_ok [OF Cons.prems(1)] by metis
  have s1: "set (bucket_of d1 g) = set (bucket_of d g) - (if g = f then {k} else {})" for g
    using Cons.prems(1) by (simp add: d1(3) buckets_ok_def)
  have "k' \<in> set (bucket_of d1 g)" if "(k', g) \<in> set ev" for k' g
    using Cons.prems(2,3) that s1 [of g] by (force simp: p)
  with Cons.IH [OF d1(2)] Cons.prems(2) obtain d' where d': "lfu_pop_all ev d1 = (d', Inr ())" "buckets_ok d'"
    "\<forall>g. set (bucket_of d' g) = set (bucket_of d1 g) - {k'. (k', g) \<in> set ev}" by auto
  have "set (bucket_of d' g) = set (bucket_of d g) - {k'. (k', g) \<in> set (p # ev)}" for g
    using d'(3) s1 [of g] by (auto simp: p)
  with d' d1(1) show ?case by (simp add: p)
qed simp

lemma pairs_of_iff:
  assumes "od_wf d"
  shows "(k, f) \<in> set (pairs_of d) \<longleftrightarrow> k \<in> set (bucket_of d f)"
proof -
  have "(k, f) \<in> set (pairs_of d) \<longleftrightarrow> (\<exists>ks. (f, ks) \<in> set d \<and> k \<in> set ks)"
    by (auto simp: pairs_of_def)
  also have "\<dots> \<longleftrightarrow> (\<exists>ks. map_of d f = Some ks \<and> k \<in> set ks)"
    using map_of_eq_Some_iff [OF assms] by metis
  also have "\<dots> \<longleftrightarrow> k \<in> set (bucket_of d f)"
    unfolding bucket_of_def by (cases "map_of d f") auto
  finally show ?thesis .
qed

lemma pairs_of_distinct:
  assumes "od_wf d" and "\<And>f ks. (f, ks) \<in> set d \<Longrightarrow> distinct ks \<and> (\<forall>k \<in> set ks. freq k = Some f)"
  shows "distinct (map fst (pairs_of d))"
  using assms
proof (induction d)
  case (Cons b d)
  obtain f ks where b: "b = (f, ks)" by (cases b)
  have ks: "distinct ks" "\<forall>k \<in> set ks. freq k = Some f" using Cons.prems(2) [of f ks] by (simp_all add: b)
  have "freq k \<noteq> Some f" if "k \<in> fst ` set (pairs_of d)" for k
    using that Cons.prems by (force simp: pairs_of_def b)
  with ks have "set ks \<inter> fst ` set (pairs_of d) = {}" by auto
  moreover have "distinct (map fst (pairs_of d))"
  proof (rule Cons.IH)
    show "od_wf d" using Cons.prems(1) by (simp add: b)
    show "distinct ks \<and> (\<forall>k \<in> set ks. freq k = Some f)" if "(f, ks) \<in> set d" for f ks
      using Cons.prems(2) [of f ks] that by simp
  qed
  ultimately show ?case using ks(1) by (simp add: b comp_def)
qed simp

lemma pairs_of_sorted: "sorted (od_keys d) \<Longrightarrow> sorted (map snd (pairs_of d))"
proof (induction d)
  case (Cons b d)
  obtain f ks where b: "b = (f, ks)" by (cases b)
  have "\<forall>p \<in> set (pairs_of d). f \<le> snd p" using Cons.prems by (auto simp: b pairs_of_def)
  moreover have "sorted (map snd (map (\<lambda>k. (k, f)) ks))" by (simp add: comp_def map_replicate_const)
  ultimately show ?case using Cons by (auto simp: b sorted_append comp_def)
qed simp

lemma lfu_inv_key: "lfu_inv s K \<Longrightarrow> k \<in> K \<longleftrightarrow> (\<exists>f. map_of (key_to_freq s) k = Some f)"
  unfolding lfu_inv_def by (metis map_of_None_keys not_None_eq)

lemma keys_of_pairs: "k \<in> set (map fst ps) \<longleftrightarrow> (\<exists>f. (k, f) \<in> set ps)"
  by force

lemma od_key: "k \<in> set (od_keys d) \<longleftrightarrow> (\<exists>v. map_of d k = Some v)"
  by (metis map_of_None_keys not_None_eq)

lemma lfu_order:
  assumes sd: "sorted_dict items" and inv: "lfu_inv s K"
  defines "ps \<equiv> pairs_of (items (freq_to_keys s))"
  shows "distinct (map fst ps)" and "sorted (map snd ps)" and "set (map fst ps) = K"
    and "\<And>k f. (k, f) \<in> set ps \<longleftrightarrow> map_of (key_to_freq s) k = Some f"
    and "\<And>k f. (k, f) \<in> set ps \<longleftrightarrow> k \<in> set (bucket_of (freq_to_keys s) f)"
proof -
  let ?d = "freq_to_keys s"
  have wf: "od_wf ?d" and mem: "k \<in> set (bucket_of ?d f) \<longleftrightarrow> map_of (key_to_freq s) k = Some f"
    and dist: "distinct (bucket_of ?d f)" for k f
    using inv by (simp_all add: lfu_inv_def buckets_ok_def)
  have wf': "od_wf (items ?d)" using sd wf by (rule sorted_dict.items_wf)
  have b: "bucket_of (items ?d) = bucket_of ?d"
    using sorted_dict.items_map_of [OF sd wf] by (simp add: bucket_of_def fun_eq_iff)
  show i5: "\<And>k f. (k, f) \<in> set ps \<longleftrightarrow> k \<in> set (bucket_of (freq_to_keys s) f)"
    using pairs_of_iff [OF wf'] by (simp add: ps_def b)
  show i4: "\<And>k f. (k, f) \<in> set ps \<longleftrightarrow> map_of (key_to_freq s) k = Some f" by (simp add: i5 mem)
  show "distinct (map fst ps)"
    unfolding ps_def
  proof (rule pairs_of_distinct [OF wf'])
    fix f ks assume "(f, ks) \<in> set (items ?d)"
    then have "map_of (items ?d) f = Some ks" using map_of_eq_Some_iff [OF wf'] by metis
    then have "bucket_of ?d f = ks" unfolding b [symmetric] bucket_of_def by simp
    with dist mem show "distinct ks \<and> (\<forall>k \<in> set ks. map_of (key_to_freq s) k = Some f)" by auto
  qed
  show "sorted (map snd ps)"
    unfolding ps_def using sorted_dict.items_sorted [OF sd wf] by (rule pairs_of_sorted)
  show "set (map fst ps) = K"
  proof (rule set_eqI)
    fix k show "k \<in> set (map fst ps) \<longleftrightarrow> k \<in> K"
      unfolding keys_of_pairs i4 lfu_inv_key [OF inv] ..
  qed
qed

lemma lfu_candidates_ok:
  fixes can :: "'v \<Rightarrow> bool"
  assumes sd: "sorted_dict items" and inv: "lfu_inv s (set (od_keys cache))" and wf: "od_wf cache" and n: "0 < n"
  defines "ps \<equiv> pairs_of (items (freq_to_keys s))"
  defines "ev \<equiv> take (nat n) (filter (\<lambda>p. map_option can (map_of cache (fst p)) = Some True) ps)"
  shows "\<exists>s'. lfu_candidates items can n cache s = (s', Inr (map fst ev)) \<and>
    lfu_inv s' (set (od_keys cache) - set (map fst ev)) \<and> key_to_freq s' = drop_keys (map fst ev) (key_to_freq s)"
proof -
  note O = lfu_order [OF sd inv, folded ps_def]
  have scan: "lfu_scan (\<lambda>k. map_option can (map_of cache k)) n (items (freq_to_keys s)) [] (key_to_freq s)
      = ((ev, drop_keys (map fst ev) (key_to_freq s)), Inr ())"
  proof -
    have "map_option can (map_of cache k) \<noteq> None \<and> map_of (key_to_freq s) k \<noteq> None"
      if "k \<in> fst ` set ps" for k
      using that O(3) inv map_of_None_keys [of cache k] map_of_None_keys [of "key_to_freq s" k]
      by (auto simp: lfu_inv_def)
    with lfu_scan_eq [of "[]" n "items (freq_to_keys s)" "\<lambda>k. map_option can (map_of cache k)" "key_to_freq s"]
    show ?thesis using O(1) n unfolding ps_def [symmetric] by (simp add: ev_def Let_def)
  qed
  have sub: "set ev \<subseteq> set ps" by (auto simp: ev_def dest: in_set_takeD)
  have "distinct (map fst (filter (\<lambda>p. map_option can (map_of cache (fst p)) = Some True) ps))"
    using O(1) by (simp add: distinct_map_filter)
  then have dist: "distinct (map fst ev)" unfolding ev_def take_map [symmetric] by (rule distinct_take)
  obtain d' where d': "lfu_pop_all ev (freq_to_keys s) = (d', Inr ())" "buckets_ok d'"
    "\<forall>f. set (bucket_of d' f) = set (bucket_of (freq_to_keys s) f) - {k. (k, f) \<in> set ev}"
    using lfu_pop_all_ok [of "freq_to_keys s" ev] dist sub O(5) inv by (auto simp: lfu_inv_def)
  let ?s' = "s\<lparr>key_to_freq := drop_keys (map fst ev) (key_to_freq s), freq_to_keys := d'\<rparr>"
  have ev: "(k, f) \<in> set ev \<longleftrightarrow> k \<in> set (map fst ev) \<and> map_of (key_to_freq s) k = Some f" for k f
    using sub O(4) by (force simp: image_iff)
  have "k \<in> set (bucket_of d' f) \<longleftrightarrow> map_of (drop_keys (map fst ev) (key_to_freq s)) k = Some f" for k f
    using d'(3) inv ev by (simp add: map_of_drop_keys lfu_inv_def del: set_map)
  moreover have "set (od_keys (drop_keys (map fst ev) (key_to_freq s))) = set (od_keys cache) - set (map fst ev)"
  proof (rule set_eqI)
    fix k show "k \<in> set (od_keys (drop_keys (map fst ev) (key_to_freq s))) \<longleftrightarrow> k \<in> set (od_keys cache) - set (map fst ev)"
      using inv map_of_None_keys [of "drop_keys (map fst ev) (key_to_freq s)" k] map_of_None_keys [of "key_to_freq s" k]
      unfolding lfu_inv_def map_of_drop_keys by (metis Diff_iff)
  qed
  ultimately have "lfu_inv ?s' (set (od_keys cache) - set (map fst ev))"
    using inv d'(2) by (simp add: lfu_inv_def map_of_drop_keys od_wf_drop_keys del: set_map)
  then show ?thesis using scan d'(1) by (simp add: lfu_candidates_def Let_def)
qed

section \<open>Every policy keeps the contract\<close>

definition pol_inv :: "('k, 'h) policy \<Rightarrow> 'k set \<Rightarrow> bool" where
  "pol_inv pol K = (case pol of LFU s \<Rightarrow> lfu_inv s K | _ \<Rightarrow> True)"

lemma cand_in:
  "set (map fst ps) = set (od_keys d) \<Longrightarrow>
   k \<in> set (map fst (filter (\<lambda>p. map_option can (map_of d (fst p)) = Some True) ps))
     \<longleftrightarrow> (\<exists>v. map_of d k = Some v \<and> can v)"
proof -
  assume eq: "set (map fst ps) = set (od_keys d)"
  have "k \<in> set (map fst (filter (\<lambda>p. map_option can (map_of d (fst p)) = Some True) ps))
     \<longleftrightarrow> k \<in> set (map fst ps) \<and> (\<exists>v. map_of d k = Some v \<and> can v)"
    by force
  then show ?thesis unfolding eq od_key by blast
qed

lemma move_to_end_ok:
  assumes "od_wf d" and "k \<in> set (od_keys d)"
  shows "\<exists>d'. od_move_to_end k d = Inr d' \<and> od_wf d' \<and> map_of d' = map_of d"
proof -
  obtain v where "map_of d k = Some v" using assms(2) unfolding od_key by blast
  then obtain d' where d': "od_move_to_end k d = Inr d'" by (simp add: od_move_to_end_def)
  from od_wf_move_to_end [OF d' assms(1)] map_of_move_to_end [OF d'] d' show ?thesis by blast
qed

locale policy_env =
  fixes items :: "(int \<times> 'k list) list \<Rightarrow> (int \<times> 'k list) list" and hash :: "'k \<Rightarrow> 'h"
  assumes sd: "sorted_dict items"

sublocale policy_env \<subseteq> pol: cache_policy "pol_hit hash" "pol_put hash" pol_force_evict
    "pol_candidates items" "pol_inv :: ('k, 'h) policy \<Rightarrow> 'k set \<Rightarrow> bool"
proof unfold_locales
  fix p :: "('k, 'h) policy" and d :: "('k, 'v) odict" and k t
  assume p: "pol_inv p (set (od_keys d))" and wf: "od_wf d" and k: "k \<in> set (od_keys d)"
  obtain d' where d': "od_move_to_end k d = Inr d'" "od_wf d'" "map_of d' = map_of d"
    using move_to_end_ok [OF wf k] by blast
  show "\<exists>p' d'. pol_hit hash t k d p = (p', Inr d') \<and> pol_inv p' (set (od_keys d)) \<and> od_wf d' \<and> map_of d' = map_of d"
  proof (cases p)
    case (LFU s)
    then obtain s' where "lfu_on_hit k s = Inr s'" "lfu_inv s' (set (od_keys d))"
      using p lfu_hit_ok [OF _ k, of s] by (auto simp: pol_inv_def)
    with LFU wf show ?thesis by (simp add: pol_hit_def pol_inv_def)
  qed (use wf d' in \<open>simp_all add: pol_hit_def pol_inv_def lru_on_hit_def mru_on_hit_def\<close>)
next
  fix p :: "('k, 'h) policy" and K k t
  assume "pol_inv p K" "k \<notin> K"
  then show "pol_inv (pol_put hash t k p) (insert k K)"
    using lfu_put_ok by (cases p) (auto simp: pol_inv_def pol_put_def)
next
  fix p :: "('k, 'h) policy" and K k
  assume p: "pol_inv p K" and k: "k \<in> K"
  show "\<exists>p'. pol_force_evict k p = Inr p' \<and> pol_inv p' (K - {k})"
  proof (cases p)
    case (LFU s)
    then obtain s' where "lfu_on_force_evict k s = Inr s'" "lfu_inv s' (K - {k})"
      using p lfu_force_ok [OF _ k, of s] by (auto simp: pol_inv_def)
    with LFU show ?thesis by (simp add: pol_force_evict_def pol_inv_def)
  qed (simp_all add: pol_inv_def pol_force_evict_def)
next
  fix p :: "('k, 'h) policy" and d :: "('k, 'v) odict" and n :: int and can
  assume p: "pol_inv p (set (od_keys d))" and wf: "od_wf d" and n: "0 < n"
  let ?E = "{k. \<exists>v. map_of d k = Some v \<and> can v}"
  note E = evictable_keys [OF wf, of can]
  have scan: "scan_candidates can n d [] = take (nat n) (map fst (filter (can \<circ> snd) d))"
    and scan_rev: "scan_candidates can n (rev d) [] = take (nat n) (rev (map fst (filter (can \<circ> snd) d)))"
    using scan_candidates_take [of "[]" n can d] scan_candidates_take [of "[]" n can "rev d"] n
    by (simp_all add: rev_filter rev_map)
  have forward: "distinct (take (nat n) (map fst (filter (can \<circ> snd) d))) \<and>
      set (take (nat n) (map fst (filter (can \<circ> snd) d))) \<subseteq> ?E \<and>
      length (take (nat n) (map fst (filter (can \<circ> snd) d))) = min (nat n) (card ?E)"
    by (rule take_candidates_ok [OF E(2,1) refl])
  have backward: "distinct (take (nat n) (rev (map fst (filter (can \<circ> snd) d)))) \<and>
      set (take (nat n) (rev (map fst (filter (can \<circ> snd) d)))) \<subseteq> ?E \<and>
      length (take (nat n) (rev (map fst (filter (can \<circ> snd) d)))) = min (nat n) (card ?E)"
    by (rule take_candidates_ok [OF _ _ refl]) (simp_all only: distinct_rev set_rev E)
  show "\<exists>p' ks. pol_candidates items can n d p = (p', Inr ks) \<and> pol_inv p' (set (od_keys d) - set ks) \<and> distinct ks \<and>
      set ks \<subseteq> ?E \<and> length ks = min (nat n) (card ?E)"
  proof (cases p)
    case (LFU s)
    then have inv: "lfu_inv s (set (od_keys d))" using p by (simp add: pol_inv_def)
    let ?ps = "filter (\<lambda>p. map_option can (map_of d (fst p)) = Some True) (pairs_of (items (freq_to_keys s)))"
    obtain s' where s': "lfu_candidates items can n d s = (s', Inr (map fst (take (nat n) ?ps)))"
      "lfu_inv s' (set (od_keys d) - set (map fst (take (nat n) ?ps)))"
      using lfu_candidates_ok [OF sd inv wf n, of can] by blast
    have "distinct (map fst ?ps)" using lfu_order(1) [OF sd inv] by (simp add: distinct_map_filter)
    moreover have "set (map fst ?ps) = ?E"
    proof (rule set_eqI)
      fix k show "k \<in> set (map fst ?ps) \<longleftrightarrow> k \<in> ?E"
        using lfu_order(3) [OF sd inv] cand_in [of "pairs_of (items (freq_to_keys s))" d k can] by simp
    qed
    ultimately have "distinct (map fst (take (nat n) ?ps)) \<and> set (map fst (take (nat n) ?ps)) \<subseteq> ?E \<and>
        length (map fst (take (nat n) ?ps)) = min (nat n) (card ?E)"
      by (intro take_candidates_ok) (simp_all only: take_map [symmetric])
    moreover have "pol_candidates items can n d p = (LFU s', Inr (map fst (take (nat n) ?ps)))"
      by (simp add: LFU pol_candidates_def s'(1))
    moreover have "pol_inv (LFU s') (set (od_keys d) - set (map fst (take (nat n) ?ps)))"
      using s'(2) by (simp only: pol_inv_def policy.case)
    ultimately show ?thesis by blast
  qed (use forward backward in \<open>simp_all add: pol_candidates_def pol_inv_def lru_candidates_def fifo_candidates_def
         mru_candidates_def scan scan_rev del: set_map\<close>)
qed

context policy_env
begin

lemma pol_contract:
  fixes p :: "('k, 'h) policy"
  assumes "pol_inv p (set (od_keys d))" and "od_wf d" and "0 < n"
  shows "\<exists>p' ks. pol_candidates items can n d p = (p', Inr ks) \<and> pol_inv p' (set (od_keys d) - set ks) \<and> distinct ks \<and>
    set ks \<subseteq> {k. \<exists>v. map_of d k = Some v \<and> can v} \<and>
    length ks = min (nat n) (card {k. \<exists>v. map_of d k = Some v \<and> can v})"
  using assms by (rule pol.candidates_ok)

lemma pol_put_keeps:
  fixes p :: "('k, 'h) policy"
  assumes "pol_inv p K" and "k \<notin> K"
  shows "pol_inv (pol_put hash t k p) (insert k K)"
  using assms by (rule pol.put_ok)

lemma pol_hit_keeps:
  fixes p :: "('k, 'h) policy"
  assumes "pol_inv p (set (od_keys d))" and "od_wf d" and "k \<in> set (od_keys d)"
  shows "\<exists>p' d'. pol_hit hash t k d p = (p', Inr d') \<and> pol_inv p' (set (od_keys d)) \<and> od_wf d' \<and> map_of d' = map_of d"
  using assms by (rule pol.hit_ok)

lemma pol_force_keeps:
  fixes p :: "('k, 'h) policy"
  assumes "pol_inv p K" and "k \<in> K"
  shows "\<exists>p'. pol_force_evict k p = Inr p' \<and> pol_inv p' (K - {k})"
  using assms by (rule pol.force_ok)

lemma pol_one:
  fixes p :: "('k, 'h) policy"
  assumes "pol_inv p (set (od_keys d))" and "od_wf d" and "map_of d k = Some v" and "can v"
  shows "\<exists>p' k' v'. pol_candidates items can 1 d p = (p', Inr [k']) \<and> pol_inv p' (set (od_keys d) - {k'}) \<and>
    map_of d k' = Some v' \<and> can v'"
  using assms by (rule pol.candidate_one)

lemma pol_none_iff:
  fixes p :: "('k, 'h) policy"
  assumes "pol_inv p (set (od_keys d))" and "od_wf d" and "0 < n"
  shows "(\<exists>p'. pol_candidates items can n d p = (p', Inr [])) \<longleftrightarrow> (\<forall>k v. map_of d k = Some v \<longrightarrow> \<not> can v)"
  using assms by (rule pol.candidates_none_iff)

end

interpretation ref_policy: policy_env ref_items id
  by unfold_locales

section \<open>Recency\<close>

datatype ('k, 'v) cache_event = Use 'k 'v | Discard 'k

fun lru_run ::
    "('k \<Rightarrow> 'h) \<Rightarrow> (int \<times> ('k, 'v) cache_event) list \<Rightarrow> ('k, 'v) odict \<Rightarrow> 'h lru_state
      \<Rightarrow> ('k, 'v) odict \<times> 'h lru_state" where
  "lru_run hash [] d s = (d, s)"
| "lru_run hash ((t, Use k v) # evs) d s =
     (if k \<in> set (od_keys d)
      then (case lru_on_hit t (hash k) k d s of
              (s', Inr d') \<Rightarrow> lru_run hash evs d' s'
            | (s', Inl e) \<Rightarrow> (d, s'))
      else lru_run hash evs (AList.update k v d) (lru_on_put t (hash k) s))"
| "lru_run hash ((t, Discard k) # evs) d s = lru_run hash evs (AList.delete k d) s"

fun history :: "(int \<times> ('k, 'v) cache_event) list \<Rightarrow> 'k list \<Rightarrow> 'k list" where
  "history [] h = h"
| "history ((t, Use k v) # evs) h = history evs (h @ [k])"
| "history ((t, Discard k) # evs) h = history evs (removeAll k h)"

lemma remdups_snoc: "remdups (h @ [k]) = removeAll k (remdups h) @ [k]"
  by (induction h) auto

lemma remdups_removeAll: "remdups (removeAll k h) = removeAll k (remdups h)"
  by (induction h) auto

lemma update_fresh_keys: "k \<notin> set (od_keys d) \<Longrightarrow> od_keys (AList.update k v d) = od_keys d @ [k]"
  by (simp add: update_keys)

lemma lru_run_keys:
  "od_keys d = remdups h \<Longrightarrow> od_keys (fst (lru_run hash evs d s)) = remdups (history evs h)"
proof (induction hash evs d s arbitrary: h rule: lru_run.induct)
  case (2 hash t k v evs d s)
  show ?case
  proof (cases "k \<in> set (od_keys d)")
    case True
    then obtain w where w: "map_of d k = Some w" unfolding od_key by blast
    then have m: "od_move_to_end k d = Inr (AList.delete k d @ [(k, w)])" by (simp add: od_move_to_end_def)
    have "od_keys (AList.delete k d @ [(k, w)]) = remdups (h @ [k])"
      using "2.prems" by (simp add: delete_keys remdups_snoc)
    with 2 True m show ?thesis by (simp add: lru_on_hit_def)
  next
    case False
    then have "k \<notin> set h" using "2.prems" by (metis set_remdups)
    then have "od_keys (AList.update k v d) = remdups (h @ [k])"
      using "2.prems" update_fresh_keys [OF False] by (simp add: remdups_snoc)
    with 2 False show ?thesis by simp
  qed
qed (simp_all add: delete_keys remdups_removeAll)

section \<open>Properties\<close>

text \<open>
  Every policy keeps the contract the backends rely on: asked for \<open>n > 0\<close> candidates, it
  returns without an exception that many different cached keys whose values may be evicted, or
  all of them when there are fewer; in particular it returns none only if nothing may be
  evicted, and its own state stays consistent with the keys that remain.
\<close>

theorem policy_candidates_contract:
  fixes pol :: "('k, 'h) policy" and cache :: "('k, 'v) odict"
  assumes "sorted_dict items" and "pol_inv pol (set (od_keys cache))" and "od_wf cache" and "0 < n"
  shows "\<exists>pol' ks. pol_candidates items can n cache pol = (pol', Inr ks) \<and>
    pol_inv pol' (set (od_keys cache) - set ks) \<and> distinct ks \<and>
    set ks \<subseteq> {k. \<exists>v. map_of cache k = Some v \<and> can v} \<and>
    length ks = min (nat n) (card {k. \<exists>v. map_of cache k = Some v \<and> can v}) \<and>
    (ks = [] \<longleftrightarrow> (\<forall>k v. map_of cache k = Some v \<longrightarrow> \<not> can v))"
proof -
  have env: "policy_env items" using assms(1) by (rule policy_env.intro)
  obtain pol' ks where c: "pol_candidates items can n cache pol = (pol', Inr ks)"
      "pol_inv pol' (set (od_keys cache) - set ks)" "distinct ks"
      "set ks \<subseteq> {k. \<exists>v. map_of cache k = Some v \<and> can v}"
      "length ks = min (nat n) (card {k. \<exists>v. map_of cache k = Some v \<and> can v})"
    using policy_env.pol_contract [OF env assms(2-4), of can] by blast
  have "ks = [] \<longleftrightarrow> (\<forall>k v. map_of cache k = Some v \<longrightarrow> \<not> can v)"
    using policy_env.pol_none_iff [OF env assms(2-4), of can] c(1) by simp
  with c show ?thesis by blast
qed

definition demo_lfu :: "nat lfu_state" where
  "demo_lfu = lfu_on_put 3 (lfu_on_put 2 (lfu_on_put 1 lfu_init))"

definition demo_cache :: "(nat, bool) odict" where
  "demo_cache = [(1, True), (2, False), (3, True)]"

lemma demo_lfu_inv: "lfu_inv demo_lfu (set (od_keys demo_cache))"
proof -
  have "lfu_inv lfu_init {}" by (simp add: lfu_inv_def lfu_init_def buckets_ok_def bucket_of_def)
  then have "lfu_inv demo_lfu (insert 3 (insert 2 (insert 1 {})))"
    unfolding demo_lfu_def by (intro lfu_put_ok) simp_all
  moreover have "insert 3 (insert 2 (insert 1 {})) = set (od_keys demo_cache)" by (auto simp: demo_cache_def)
  ultimately show ?thesis by simp
qed

theorem policy_candidates_contract_witness:
  "\<exists>pol'. pol_candidates ref_items (\<lambda>v. v) 2 demo_cache (LFU demo_lfu :: (nat, int) policy) = (pol', Inr [1, 3]) \<and>
     pol_inv pol' {2}"
proof -
  have inv: "pol_inv (LFU demo_lfu :: (nat, int) policy) (set (od_keys demo_cache))"
    by (simp only: pol_inv_def policy.case demo_lfu_inv)
  have wf: "od_wf demo_cache" by (simp add: demo_cache_def)
  obtain pol' ks where c: "pol_candidates ref_items (\<lambda>v. v) 2 demo_cache (LFU demo_lfu :: (nat, int) policy) = (pol', Inr ks)"
      "pol_inv pol' (set (od_keys demo_cache) - set ks)"
    using policy_candidates_contract [OF ref_sd.sorted_dict_axioms inv wf, of 2 "\<lambda>v. v"] by auto
  have "snd (pol_candidates ref_items (\<lambda>v. v) 2 demo_cache (LFU demo_lfu :: (nat, int) policy)) = Inr [1, 3]"
    by code_simp
  with c(1) have ks: "ks = [1, 3]" by simp
  have "set (od_keys demo_cache) - set [1, 3] = {2}" by (auto simp: demo_cache_def)
  with c ks show ?thesis by metis
qed

text \<open>
  LRU evicts in order of last use: after any sequence of stores, hits and removals the
  candidates are the first \<open>n\<close> evictable keys in the order in which the keys still cached were
  last used, whatever the number of earlier uses.
\<close>

theorem lru_evicts_least_recently_used:
  assumes "lru_run hash evs [] s = (d, s')" and "0 < n"
  shows "lru_candidates can n d =
    take (nat n) (filter (\<lambda>k. \<exists>v. map_of d k = Some v \<and> can v) (remdups (history evs [])))"
proof -
  have keys: "od_keys d = remdups (history evs [])"
    using lru_run_keys [of "[]" "[]" hash evs s] assms(1) by simp
  then have wf: "od_wf d" by simp
  have "map fst (filter (can \<circ> snd) d) = filter (\<lambda>k. \<exists>v. map_of d k = Some v \<and> can v) (od_keys d)"
  proof -
    have "map_of d (fst p) = Some (snd p)" if "p \<in> set d" for p
      using that map_of_eq_Some_iff [OF wf, of "fst p" "snd p"] by simp
    then have "filter (can \<circ> snd) d = filter (\<lambda>p. \<exists>v. map_of d (fst p) = Some v \<and> can v) d"
      by (intro filter_cong) simp_all
    then show ?thesis by (simp add: filter_map comp_def)
  qed
  with keys scan_candidates_take [of "[]" n can d] assms(2) show ?thesis
    by (simp add: lru_candidates_def)
qed

definition demo_lru :: "nat lru_state" where
  "demo_lru = \<lparr>chunk_hash_to_init_timestamp = [], max_num_chunk_hash = 2, reuse_intervals = []\<rparr>"

theorem lru_evicts_least_recently_used_witness:
  "lru_candidates (\<lambda>v. v = 0) 2 (fst (lru_run id [(1, Use (1::nat) (0::nat)), (2, Use 2 (0::nat)), (3, Use 3 (0::nat)), (4, Use 1 (0::nat))]
     [] demo_lru)) = [2, 3]"
proof -
  let ?evs = "[(1, Use (1::nat) (0::nat)), (2, Use 2 (0::nat)), (3, Use 3 (0::nat)), (4, Use 1 (0::nat))]"
  have d: "fst (lru_run id ?evs [] demo_lru) = [(2, (0::nat)), (3, (0::nat)), (1, (0::nat))]" by code_simp
  have "lru_run id ?evs [] demo_lru = (fst (lru_run id ?evs [] demo_lru), snd (lru_run id ?evs [] demo_lru))" by simp
  from lru_evicts_least_recently_used [OF this, of 2 "\<lambda>v. v = 0"] show ?thesis by (simp only: d) simp
qed

text \<open>
  LFU evicts the least frequently used: no evictable key left in the cache was used less
  often than a candidate, and exactly the candidates are forgotten by the policy.
\<close>

theorem lfu_evicts_least_frequent:
  assumes "sorted_dict items" and "lfu_inv s (set (od_keys cache))" and "od_wf cache" and "0 < n"
  shows "\<exists>s' ks. lfu_candidates items can n cache s = (s', Inr ks) \<and>
    (\<forall>k \<in> set ks. \<forall>k' f f' v. map_of (key_to_freq s) k = Some f \<and> map_of (key_to_freq s) k' = Some f' \<and>
       map_of cache k' = Some v \<and> can v \<and> k' \<notin> set ks \<longrightarrow> f \<le> f') \<and>
    (\<forall>k. map_of (key_to_freq s') k = (if k \<in> set ks then None else map_of (key_to_freq s) k))"
proof -
  let ?Q = "\<lambda>p. map_option can (map_of cache (fst p)) = Some True"
  let ?ps = "pairs_of (items (freq_to_keys s))"
  let ?es = "filter ?Q ?ps"
  note O = lfu_order [OF assms(1,2)]
  obtain s' where s': "lfu_candidates items can n cache s = (s', Inr (map fst (take (nat n) ?es)))"
      "key_to_freq s' = drop_keys (map fst (take (nat n) ?es)) (key_to_freq s)"
    using lfu_candidates_ok [OF assms, of can] by blast
  have sorted: "sorted (map snd ?es)" using O(2) by (rule sorted_filter)
  have split: "?es = take (nat n) ?es @ drop (nat n) ?es" by simp
  have le: "f \<le> f'" if "(k, f) \<in> set (take (nat n) ?es)" "(k', f') \<in> set (drop (nat n) ?es)" for k k' f f'
  proof -
    have "sorted (map snd (take (nat n) ?es) @ map snd (drop (nat n) ?es))"
      using sorted split by (metis map_append)
    with that show ?thesis by (force simp: sorted_append)
  qed
  have "f \<le> f'" if k: "k \<in> set (map fst (take (nat n) ?es))" and f: "map_of (key_to_freq s) k = Some f"
      "map_of (key_to_freq s) k' = Some f'" and v: "map_of cache k' = Some v" "can v"
      and nk: "k' \<notin> set (map fst (take (nat n) ?es))" for k k' f f' v
  proof -
    obtain g where g: "(k, g) \<in> set (take (nat n) ?es)" using k by force
    then have "(k, g) \<in> set ?ps" by (meson filter_is_subset in_set_takeD subsetD)
    with O(4) f(1) have "g = f" by simp
    have "(k', f') \<in> set ?ps" using O(4) f(2) by simp
    with v have "(k', f') \<in> set ?es" by simp
    then have "(k', f') \<in> set (take (nat n) ?es @ drop (nat n) ?es)" by (simp only: append_take_drop_id)
    moreover have "(k', f') \<notin> set (take (nat n) ?es)" using nk by force
    ultimately have "(k', f') \<in> set (drop (nat n) ?es)" by (simp only: set_append Un_iff simp_thms)
    with g \<open>g = f\<close> le show ?thesis by blast
  qed
  with s' show ?thesis
    by (intro exI [of _ s'] exI [of _ "map fst (take (nat n) ?es)"]) (auto simp only: map_of_drop_keys)
qed

theorem lfu_evicts_least_frequent_witness:
  "\<exists>s s'. lfu_on_hit 1 demo_lfu = Inr s \<and>
     lfu_candidates ref_items (\<lambda>v. v) 1 demo_cache s = (s', Inr [3]) \<and> map_of (key_to_freq s') 3 = None"
proof -
  have wf: "od_wf demo_cache" by (simp add: demo_cache_def)
  have "1 \<in> set (od_keys demo_cache)" by (simp add: demo_cache_def)
  then obtain s where s: "lfu_on_hit 1 demo_lfu = Inr s" "lfu_inv s (set (od_keys demo_cache))"
    using lfu_hit_ok [OF demo_lfu_inv, of 1] by blast
  obtain s' ks where c: "lfu_candidates ref_items (\<lambda>v. v) 1 demo_cache s = (s', Inr ks)"
      "\<forall>k. map_of (key_to_freq s') k = (if k \<in> set ks then None else map_of (key_to_freq s) k)"
    using lfu_evicts_least_frequent [OF ref_sd.sorted_dict_axioms s(2) wf, of 1 "\<lambda>v. v"] by auto
  have "(case lfu_on_hit 1 demo_lfu of Inr s \<Rightarrow> snd (lfu_candidates ref_items (\<lambda>v. v) 1 demo_cache s) | Inl e \<Rightarrow> Inl e)
      = Inr [3]" by code_simp
  with s(1) c(1) have "ks = [3]" by simp
  with s(1) c show ?thesis by simp
qed

end
