(* ===== verification/LocalCPU.thy ===== *)
theory LocalCPU
  imports MixedAllocator CachePolicy Messages
begin

text \<open>
  \<open>LocalCPUBackend\<close> (\<open>v1/storage_backend/local_cpu_backend.py\<close>): the hot cache, a
  dictionary from keys to memory objects, over the mixed memory allocator and an eviction
  policy. The state holds the allocator's state, the dictionary, the policy, the keys pinned by
  the current request and the list of messages handed to the controller. Chunk hashes are the
  image of a key under \<open>hash\<close>; cached objects are objects of the pinned allocator.

  \<open>allocate\<close> evicts until the request fits. While it waits it holds no lock, and other threads
  act: \<open>others n\<close> is what they do to the state in the \<open>n\<close>-th wait.
  \<open>batched_allocate\<close> does the same with all layers of a chunk, which it drops without a message.

  \<open>remove\<close> releases the lock before it sends its EVICT, so it is the composition of
  \<open>remove_locked\<close> and \<open>send_evict\<close>, and \<open>cpu_reachable\<close> lets other steps come in between.

  The invariant \<open>cpu_on\<close> says that every cached object is valid and that the references of an
  object are at least as many as the keys under which it is cached; its set \<open>F\<close> holds the objects
  that were released directly (\<open>cpu_inv\<close>: none). The lemmas show that every operation keeps it,
  so that no operation on the cache ever meets a released object.
\<close>

declare map_of_eq_Some_iff [simp del] Some_eq_map_of_iff [simp del]

record ('k, 'h, 's, 'd) cpu_backend =
  cb_mem :: "('s, 'd) mem_state"
  cb_hot :: "('k, nat) odict"
  cb_policy :: "('k, 'h) policy"
  cb_keys_in_request :: "'k list"
  cb_use_hot :: bool
  cb_layerwise :: bool
  cb_blending :: bool
  cb_msgs :: "(op_type \<times> 'h) list"

record ('k, 'h, 's, 'd) cpu_env =
  ce_alloc :: "('s, 'd) alloc_env"
  ce_items :: "(int \<times> 'k list) list \<Rightarrow> (int \<times> 'k list) list"
  ce_hash :: "'k \<Rightarrow> 'h"

abbreviation mem_env_of :: "('k, 'h, 's, 'd) cpu_env \<Rightarrow> ('s, 'd) mem_env" where
  "mem_env_of env \<equiv> mem_of (ce_alloc env)"

definition hot_obj :: "('k, 'h, 's, 'd) cpu_backend \<Rightarrow> nat \<Rightarrow> ('s, 'd) mem_obj" where
  "hot_obj cb i = t_objs (cb_mem cb) ! i"

section \<open>Lookups\<close>

definition cpu_contains :: "int \<Rightarrow> ('k, 'h, 's, 'd) cpu_backend \<Rightarrow> 'k \<Rightarrow> bool \<Rightarrow> ('k, 'h, 's, 'd) cpu_backend \<times> bool" where
  "cpu_contains now cb key pin =
     (case map_of (cb_hot cb) key of
        None \<Rightarrow> (cb, False)
      | Some i \<Rightarrow>
          (if pin then cb\<lparr>cb_mem := mem_pin now (cb_mem cb) i,
                          cb_keys_in_request := cb_keys_in_request cb @ [key]\<rparr> else cb, True))"

fun touch_keys ::
    "('k, 'h, 's, 'd) cpu_env \<Rightarrow> int \<Rightarrow> 'k list \<Rightarrow> ('k, 'h, 's, 'd) cpu_backend
      \<Rightarrow> ('k, 'h, 's, 'd) cpu_backend \<times> unit result" where
  "touch_keys env now [] cb = (cb, Inr ())"
| "touch_keys env now (key # keys) cb =
     (case pol_hit (ce_hash env) now key (cb_hot cb) (cb_policy cb) of
        (p, Inl e) \<Rightarrow> (cb\<lparr>cb_policy := p\<rparr>, Inl e)
      | (p, Inr d) \<Rightarrow> touch_keys env now keys (cb\<lparr>cb_policy := p, cb_hot := d\<rparr>))"

definition touch_cache ::
    "('k, 'h, 's, 'd) cpu_env \<Rightarrow> int \<Rightarrow> ('k, 'h, 's, 'd) cpu_backend \<Rightarrow> ('k, 'h, 's, 'd) cpu_backend \<times> unit result" where
  "touch_cache env now cb =
     (case touch_keys env now (rev (cb_keys_in_request cb)) cb of
        (cb', Inl e) \<Rightarrow> (cb', Inl e)
      | (cb', Inr _) \<Rightarrow> (cb'\<lparr>cb_keys_in_request := []\<rparr>, Inr ()))"

definition get_blocking :: "('k, 'h, 's, 'd) cpu_backend \<Rightarrow> 'k \<Rightarrow> ('k, 'h, 's, 'd) cpu_backend \<times> nat option" where
  "get_blocking cb key =
     (case map_of (cb_hot cb) key of
        None \<Rightarrow> (cb, None)
      | Some i \<Rightarrow> (cb\<lparr>cb_mem := ref_count_up (cb_mem cb) i\<rparr>, Some i))"

fun batched_get_non_blocking ::
    "('k, 'h, 's, 'd) cpu_backend \<Rightarrow> 'k list \<Rightarrow> nat list \<Rightarrow> ('k, 'h, 's, 'd) cpu_backend \<times> nat list result" where
  "batched_get_non_blocking cb [] mem_objs = (cb, Inr mem_objs)"
| "batched_get_non_blocking cb (key # keys) mem_objs =
     (case map_of (cb_hot cb) key of
        None \<Rightarrow> (cb, Inl KeyError)
      | Some i \<Rightarrow> batched_get_non_blocking (cb\<lparr>cb_mem := ref_count_up (cb_mem cb) i\<rparr>) keys (mem_objs @ [i]))"

fun batched_async_contains ::
    "int \<Rightarrow> ('k, 'h, 's, 'd) cpu_backend \<Rightarrow> 'k list \<Rightarrow> bool \<Rightarrow> nat \<Rightarrow> ('k, 'h, 's, 'd) cpu_backend \<times> nat" where
  "batched_async_contains now cb [] pin num_hit_chunks = (cb, num_hit_chunks)"
| "batched_async_contains now cb (key # keys) pin num_hit_chunks =
     (case map_of (cb_hot cb) key of
        None \<Rightarrow> (cb, num_hit_chunks)
      | Some i \<Rightarrow>
          batched_async_contains now
            (if pin then cb\<lparr>cb_mem := mem_pin now (cb_mem cb) i,
                            cb_keys_in_request := cb_keys_in_request cb @ [key]\<rparr> else cb)
            keys pin (num_hit_chunks + 1))"

definition cpu_pin :: "int \<Rightarrow> ('k, 'h, 's, 'd) cpu_backend \<Rightarrow> 'k \<Rightarrow> ('k, 'h, 's, 'd) cpu_backend \<times> bool" where
  "cpu_pin now cb key =
     (case map_of (cb_hot cb) key of
        None \<Rightarrow> (cb, False) | Some i \<Rightarrow> (cb\<lparr>cb_mem := mem_pin now (cb_mem cb) i\<rparr>, True))"

definition cpu_unpin ::
    "('k, 'h, 's, 'd) cpu_env \<Rightarrow> ('k, 'h, 's, 'd) cpu_backend \<Rightarrow> 'k \<Rightarrow> ('k, 'h, 's, 'd) cpu_backend \<times> bool" where
  "cpu_unpin env cb key =
     (case map_of (cb_hot cb) key of
        None \<Rightarrow> (cb, False) | Some i \<Rightarrow> (cb\<lparr>cb_mem := mem_unpin (mem_env_of env) (cb_mem cb) i\<rparr>, True))"

section \<open>Storing and removing\<close>

definition submit_put_task ::
    "('k, 'h, 's, 'd) cpu_env \<Rightarrow> int \<Rightarrow> ('k, 'h, 's, 'd) cpu_backend \<Rightarrow> 'k \<Rightarrow> nat \<Rightarrow> ('k, 'h, 's, 'd) cpu_backend" where
  "submit_put_task env now cb key i =
     (if map_of (cb_hot cb) key \<noteq> None then cb
      else cb\<lparr>cb_mem := ref_count_up (cb_mem cb) i,
              cb_hot := AList.update key i (cb_hot cb),
              cb_policy := pol_put (ce_hash env) now key (cb_policy cb),
              cb_msgs := cb_msgs cb @ [(ADMIT, ce_hash env key)]\<rparr>)"

definition batched_submit_put_task ::
    "('k, 'h, 's, 'd) cpu_env \<Rightarrow> int \<Rightarrow> ('k, 'h, 's, 'd) cpu_backend \<Rightarrow> 'k list \<Rightarrow> nat list
      \<Rightarrow> ('k, 'h, 's, 'd) cpu_backend" where
  "batched_submit_put_task env now cb keys objs =
     (if \<not> cb_use_hot cb then cb
      else fold (\<lambda>(key, i) cb. submit_put_task env now cb key i) (zip keys objs) cb)"

definition remove_locked ::
    "('k, 'h, 's, 'd) cpu_env \<Rightarrow> ('k, 'h, 's, 'd) cpu_backend \<Rightarrow> 'k \<Rightarrow> bool
      \<Rightarrow> ('k, 'h, 's, 'd) cpu_backend \<times> bool result" where
  "remove_locked env cb key force =
     (case map_of (cb_hot cb) key of
        None \<Rightarrow> (cb, Inr False)
      | Some i \<Rightarrow>
          let cb1 = cb\<lparr>cb_hot := AList.delete key (cb_hot cb),
                       cb_mem := ref_count_down (mem_env_of env) (cb_mem cb) i\<rparr>
          in if force
             then (case pol_force_evict key (cb_policy cb1) of
                     Inl e \<Rightarrow> (cb1, Inl e)
                   | Inr p \<Rightarrow> (cb1\<lparr>cb_policy := p\<rparr>, Inr True))
             else (cb1, Inr True))"

definition send_evict ::
    "('k, 'h, 's, 'd) cpu_env \<Rightarrow> ('k, 'h, 's, 'd) cpu_backend \<Rightarrow> 'k \<Rightarrow> ('k, 'h, 's, 'd) cpu_backend" where
  "send_evict env cb key = cb\<lparr>cb_msgs := cb_msgs cb @ [(EVICT, ce_hash env key)]\<rparr>"

definition cpu_remove ::
    "('k, 'h, 's, 'd) cpu_env \<Rightarrow> ('k, 'h, 's, 'd) cpu_backend \<Rightarrow> 'k \<Rightarrow> bool
      \<Rightarrow> ('k, 'h, 's, 'd) cpu_backend \<times> bool result" where
  "cpu_remove env cb key force =
     (case remove_locked env cb key force of
        (cb1, Inr True) \<Rightarrow> (send_evict env cb1 key, Inr True)
      | (cb1, r) \<Rightarrow> (cb1, r))"

lemma cpu_remove_unfold:
  "cpu_remove env cb key force =
     (case map_of (cb_hot cb) key of
        None \<Rightarrow> (cb, Inr False)
      | Some i \<Rightarrow>
          let cb1 = cb\<lparr>cb_hot := AList.delete key (cb_hot cb),
                       cb_mem := ref_count_down (mem_env_of env) (cb_mem cb) i\<rparr>
          in if force
             then (case pol_force_evict key (cb_policy cb) of
                     Inl e \<Rightarrow> (cb1, Inl e)
                   | Inr p \<Rightarrow> (send_evict env (cb1\<lparr>cb_policy := p\<rparr>) key, Inr True))
             else (send_evict env cb1 key, Inr True))"
  by (auto simp: cpu_remove_def remove_locked_def Let_def split: option.split sum.split)

fun batched_remove ::
    "('k, 'h, 's, 'd) cpu_env \<Rightarrow> ('k, 'h, 's, 'd) cpu_backend \<Rightarrow> 'k list \<Rightarrow> bool \<Rightarrow> nat
      \<Rightarrow> ('k, 'h, 's, 'd) cpu_backend \<times> nat result" where
  "batched_remove env cb [] force num_removed = (cb, Inr num_removed)"
| "batched_remove env cb (key # keys) force num_removed =
     (case cpu_remove env cb key force of
        (cb', Inl e) \<Rightarrow> (cb', Inl e)
      | (cb', Inr b) \<Rightarrow> batched_remove env cb' keys force (if b then num_removed + 1 else num_removed))"

definition get_keys :: "('k, 'h, 's, 'd) cpu_backend \<Rightarrow> 'k list" where
  "get_keys cb = od_keys (cb_hot cb)"

fun clear_scan ::
    "('k, 'h, 's, 'd) cpu_env \<Rightarrow> ('k, 'h, 's, 'd) cpu_backend \<Rightarrow> ('k, nat) odict \<Rightarrow> 'k list \<Rightarrow> int
      \<Rightarrow> ('k list \<times> int) result" where
  "clear_scan env cb [] clear_keys n = Inr (clear_keys, n)"
| "clear_scan env cb ((key, i) # items) clear_keys n =
     (if \<not> can_evict (hot_obj cb i) then clear_scan env cb items clear_keys n
      else res_bind (get_num_tokens (ce_alloc env) (hot_obj cb i))
             (\<lambda>t. clear_scan env cb items (clear_keys @ [key]) (n + t)))"

definition cpu_clear ::
    "('k, 'h, 's, 'd) cpu_env \<Rightarrow> ('k, 'h, 's, 'd) cpu_backend \<Rightarrow> ('k, 'h, 's, 'd) cpu_backend \<times> int result" where
  "cpu_clear env cb =
     (if \<not> cb_use_hot cb then (cb, Inr 0)
      else (case clear_scan env cb (cb_hot cb) [] 0 of
              Inl e \<Rightarrow> (cb, Inl e)
            | Inr (ks, n) \<Rightarrow>
                (case batched_remove env cb ks True 0 of
                   (cb', Inl e) \<Rightarrow> (cb', Inl e)
                 | (cb', Inr _) \<Rightarrow> (cb', Inr n))))"

section \<open>Allocation with eviction\<close>

definition default_fmt :: "('k, 'h, 's, 'd) cpu_backend \<Rightarrow> mem_fmt option \<Rightarrow> mem_fmt" where
  "default_fmt cb fmt =
     (case fmt of
        Some f \<Rightarrow> f
      | None \<Rightarrow> (if cb_layerwise cb then (if cb_blending cb then KV_2TD else KV_T2D) else KV_2LTD))"

definition allocator_allocate ::
    "('k, 'h, 's, 'd) cpu_env \<Rightarrow> ('k, 'h, 's, 'd) cpu_backend \<Rightarrow> 's one_or_many \<Rightarrow> 'd one_or_many \<Rightarrow> mem_fmt
      \<Rightarrow> ('k, 'h, 's, 'd) cpu_backend \<times> mixed_obj option result" where
  "allocator_allocate env cb shapes dtypes fmt =
     (if fmt = BINARY_BUFFER then (cb, res_bind (buffer_allocate (ce_alloc env) shapes) (\<lambda>b. Inr (Some b)))
      else if fmt \<in> set kv_formats
           then let (m, r) = t_allocate (mem_env_of env) (cb_mem cb) shapes dtypes fmt
                in (cb\<lparr>cb_mem := m\<rparr>, res_bind r (\<lambda>i. Inr (map_option PinObj i)))
           else (cb, Inl ValueError))"

definition evict_once ::
    "('k, 'h, 's, 'd) cpu_env \<Rightarrow> ('k, 'h, 's, 'd) cpu_backend \<Rightarrow> ('k, 'h, 's, 'd) cpu_backend \<times> nat result" where
  "evict_once env cb =
     (if \<not> cb_use_hot cb then (cb, Inr 0)
      else (case pol_candidates (ce_items env) (\<lambda>i. can_evict (hot_obj cb i)) 1 (cb_hot cb) (cb_policy cb) of
              (p, Inl e) \<Rightarrow> (cb\<lparr>cb_policy := p\<rparr>, Inl e)
            | (p, Inr keys) \<Rightarrow>
                (case batched_remove env (cb\<lparr>cb_policy := p\<rparr>) keys False 0 of
                   (cb', Inl e) \<Rightarrow> (cb', Inl e)
                 | (cb', Inr _) \<Rightarrow> (cb', Inr (length keys)))))"

partial_function (option) evict_loop ::
    "('k, 'h, 's, 'd) cpu_env \<Rightarrow> (nat \<Rightarrow> ('k, 'h, 's, 'd) cpu_backend \<Rightarrow> ('k, 'h, 's, 'd) cpu_backend)
      \<Rightarrow> bool \<Rightarrow> 's one_or_many \<Rightarrow> 'd one_or_many \<Rightarrow> mem_fmt \<Rightarrow> nat \<Rightarrow> ('k, 'h, 's, 'd) cpu_backend
      \<Rightarrow> (('k, 'h, 's, 'd) cpu_backend \<times> mixed_obj option result) option" where
  "evict_loop env others busy_loop shapes dtypes fmt n cb =
     (case evict_once env cb of
        (cb1, Inl e) \<Rightarrow> Some (cb1, Inl e)
      | (cb1, Inr evicted) \<Rightarrow>
          if evicted = 0 \<and> \<not> busy_loop then Some (cb1, Inr None)
          else let cb2 = (if evicted = 0 then others n cb1 else cb1)
               in (case allocator_allocate env cb2 shapes dtypes fmt of
                     (cb3, Inr None) \<Rightarrow> evict_loop env others busy_loop shapes dtypes fmt (n + 1) cb3
                   | (cb3, r) \<Rightarrow> Some (cb3, r)))"

definition cpu_allocate ::
    "('k, 'h, 's, 'd) cpu_env \<Rightarrow> (nat \<Rightarrow> ('k, 'h, 's, 'd) cpu_backend \<Rightarrow> ('k, 'h, 's, 'd) cpu_backend)
      \<Rightarrow> ('k, 'h, 's, 'd) cpu_backend \<Rightarrow> 's one_or_many \<Rightarrow> 'd one_or_many \<Rightarrow> mem_fmt option \<Rightarrow> bool \<Rightarrow> bool
      \<Rightarrow> (('k, 'h, 's, 'd) cpu_backend \<times> mixed_obj option result) option" where
  "cpu_allocate env others cb shapes dtypes fmt eviction busy_loop =
     (let f = default_fmt cb fmt
      in case allocator_allocate env cb shapes dtypes f of
           (cb1, Inr None) \<Rightarrow>
             if \<not> eviction then Some (cb1, Inr None)
             else evict_loop env others busy_loop shapes dtypes f 0 cb1
         | (cb1, r) \<Rightarrow> Some (cb1, r))"

section \<open>Batched allocation with layerwise eviction\<close>

definition allocator_batched_allocate ::
    "('k, 'h, 's, 'd) cpu_env \<Rightarrow> ('k, 'h, 's, 'd) cpu_backend \<Rightarrow> 's one_or_many \<Rightarrow> 'd one_or_many \<Rightarrow> int \<Rightarrow> mem_fmt
      \<Rightarrow> ('k, 'h, 's, 'd) cpu_backend \<times> mixed_obj list option result" where
  "allocator_batched_allocate env cb shapes dtypes k fmt =
     (if fmt = BINARY_BUFFER
      then (cb, res_bind (buffer_batched_allocate (ce_alloc env) shapes k) (\<lambda>bs. Inr (Some bs)))
      else if fmt \<in> set kv_formats
           then let (m, r) = t_batched_allocate (mem_env_of env) (cb_mem cb) shapes dtypes k fmt
                in (cb\<lparr>cb_mem := m\<rparr>, res_bind r (\<lambda>is. Inr (map_option (map PinObj) is)))
           else (cb, Inl ValueError))"

definition allocator_batched_free ::
    "('k, 'h, 's, 'd) cpu_env \<Rightarrow> ('k, 'h, 's, 'd) cpu_backend \<Rightarrow> nat list \<Rightarrow> ('k, 'h, 's, 'd) cpu_backend \<times> unit result" where
  "allocator_batched_free env cb objs =
     (case objs of
        [] \<Rightarrow> (cb, Inl IndexError)
      | i # _ \<Rightarrow>
          (let fmt = mo_fmt (hot_obj cb i)
           in if fmt = BINARY_BUFFER then (cb, Inr ())
              else if fmt \<in> set kv_formats
                   then (cb\<lparr>cb_mem := t_batched_free (mem_env_of env) (cb_mem cb) objs\<rparr>, Inr ())
                   else (cb, Inl ValueError)))"

fun pop_layers ::
    "('k, 'h, 's, 'd) cpu_backend \<Rightarrow> 'k list \<Rightarrow> nat list \<Rightarrow> ('k, 'h, 's, 'd) cpu_backend \<times> nat list result" where
  "pop_layers cb [] old_mem_objs = (cb, Inr old_mem_objs)"
| "pop_layers cb (key # keys) old_mem_objs =
     (case map_of (cb_hot cb) key of
        None \<Rightarrow> (cb, Inl KeyError)
      | Some i \<Rightarrow>
          (case pol_force_evict key (cb_policy cb) of
             Inl e \<Rightarrow> (cb, Inl e)
           | Inr p \<Rightarrow> pop_layers (cb\<lparr>cb_policy := p, cb_hot := AList.delete key (cb_hot cb)\<rparr>) keys
                        (old_mem_objs @ [i])))"

fun evict_layers ::
    "('k, 'h, 's, 'd) cpu_env \<Rightarrow> ('k \<Rightarrow> int \<Rightarrow> 'k list) \<Rightarrow> int \<Rightarrow> ('k, 'h, 's, 'd) cpu_backend \<Rightarrow> 'k list
      \<Rightarrow> ('k, 'h, 's, 'd) cpu_backend \<times> unit result" where
  "evict_layers env split_layers k cb [] = (cb, Inr ())"
| "evict_layers env split_layers k cb (evict_key # evict_keys) =
     (case pop_layers cb (split_layers evict_key k) [] of
        (cb1, Inl e) \<Rightarrow> (cb1, Inl e)
      | (cb1, Inr objs) \<Rightarrow>
          (case allocator_batched_free env cb1 objs of
             (cb2, Inl e) \<Rightarrow> (cb2, Inl e)
           | (cb2, Inr _) \<Rightarrow> evict_layers env split_layers k cb2 evict_keys))"

definition layer_evict_once ::
    "('k, 'h, 's, 'd) cpu_env \<Rightarrow> ('k \<Rightarrow> int \<Rightarrow> 'k list) \<Rightarrow> int \<Rightarrow> ('k, 'h, 's, 'd) cpu_backend
      \<Rightarrow> ('k, 'h, 's, 'd) cpu_backend \<times> nat result" where
  "layer_evict_once env split_layers k cb =
     (if \<not> cb_use_hot cb then (cb, Inr 0)
      else (case pol_candidates (ce_items env) (\<lambda>i. can_evict (hot_obj cb i)) 1 (cb_hot cb) (cb_policy cb) of
              (p, Inl e) \<Rightarrow> (cb\<lparr>cb_policy := p\<rparr>, Inl e)
            | (p, Inr keys) \<Rightarrow>
                (case evict_layers env split_layers k (cb\<lparr>cb_policy := p\<rparr>) keys of
                   (cb', Inl e) \<Rightarrow> (cb', Inl e)
                 | (cb', Inr _) \<Rightarrow> (cb', Inr (length keys)))))"

partial_function (option) batched_evict_loop ::
    "('k, 'h, 's, 'd) cpu_env \<Rightarrow> ('k \<Rightarrow> int \<Rightarrow> 'k list)
      \<Rightarrow> (nat \<Rightarrow> ('k, 'h, 's, 'd) cpu_backend \<Rightarrow> ('k, 'h, 's, 'd) cpu_backend)
      \<Rightarrow> bool \<Rightarrow> 's one_or_many \<Rightarrow> 'd one_or_many \<Rightarrow> int \<Rightarrow> mem_fmt \<Rightarrow> nat \<Rightarrow> ('k, 'h, 's, 'd) cpu_backend
      \<Rightarrow> (('k, 'h, 's, 'd) cpu_backend \<times> mixed_obj list option result) option" where
  "batched_evict_loop env split_layers others busy_loop shapes dtypes k fmt n cb =
     (case layer_evict_once env split_layers k cb of
        (cb1, Inl e) \<Rightarrow> Some (cb1, Inl e)
      | (cb1, Inr evicted) \<Rightarrow>
          if evicted = 0 \<and> \<not> busy_loop then Some (cb1, Inr None)
          else let cb2 = (if evicted = 0 then others n cb1 else cb1)
               in (case allocator_batched_allocate env cb2 shapes dtypes k fmt of
                     (cb3, Inr None) \<Rightarrow> batched_evict_loop env split_layers others busy_loop shapes dtypes k fmt (n + 1) cb3
                   | (cb3, Inr (Some [])) \<Rightarrow> batched_evict_loop env split_layers others busy_loop shapes dtypes k fmt (n + 1) cb3
                   | (cb3, r) \<Rightarrow> Some (cb3, r)))"

definition cpu_batched_allocate ::
    "('k, 'h, 's, 'd) cpu_env \<Rightarrow> ('k \<Rightarrow> int \<Rightarrow> 'k list)
      \<Rightarrow> (nat \<Rightarrow> ('k, 'h, 's, 'd) cpu_backend \<Rightarrow> ('k, 'h, 's, 'd) cpu_backend)
      \<Rightarrow> ('k, 'h, 's, 'd) cpu_backend \<Rightarrow> 's one_or_many \<Rightarrow> 'd one_or_many \<Rightarrow> int \<Rightarrow> mem_fmt option \<Rightarrow> bool \<Rightarrow> bool
      \<Rightarrow> (('k, 'h, 's, 'd) cpu_backend \<times> mixed_obj list option result) option" where
  "cpu_batched_allocate env split_layers others cb shapes dtypes k fmt eviction busy_loop =
     (let f = default_fmt cb fmt
      in case allocator_batched_allocate env cb shapes dtypes k f of
           (cb1, Inr None) \<Rightarrow>
             if \<not> eviction then Some (cb1, Inr None)
             else batched_evict_loop env split_layers others busy_loop shapes dtypes k f 0 cb1
         | (cb1, r) \<Rightarrow> Some (cb1, r))"

section \<open>Invariant\<close>

definition holders :: "('k, nat) odict \<Rightarrow> nat \<Rightarrow> 'k set" where
  "holders d i = {k. map_of d k = Some i}"

definition cpu_on :: "nat set \<Rightarrow> ('k, 'h, 's, 'd) cpu_backend \<Rightarrow> bool" where
  "cpu_on F cb \<longleftrightarrow> mem_on F (cb_mem cb) \<and> od_wf (cb_hot cb) \<and> pol_inv (cb_policy cb) (set (od_keys (cb_hot cb))) \<and>
     (\<forall>k i. map_of (cb_hot cb) k = Some i \<longrightarrow> i < length (t_objs (cb_mem cb)) \<and> i \<notin> F) \<and>
     (\<forall>i < length (t_objs (cb_mem cb)). int (card (holders (cb_hot cb) i)) \<le> mo_ref_count (hot_obj cb i))"

abbreviation cpu_inv :: "('k, 'h, 's, 'd) cpu_backend \<Rightarrow> bool" where
  "cpu_inv \<equiv> cpu_on {}"

lemma finite_holders [simp]: "finite (holders d i)"
proof -
  have "holders d i \<subseteq> dom (map_of d)" by (auto simp: holders_def)
  then show ?thesis using finite_dom_map_of finite_subset by blast
qed

lemma cpu_inv_cached:
  assumes "cpu_on F cb" and "map_of (cb_hot cb) k = Some i"
  shows "i < length (t_objs (cb_mem cb))" and "0 < mo_ref_count (hot_obj cb i)" and "mo_valid (hot_obj cb i)"
    and "mem_on F (cb_mem cb)"
proof -
  show i: "i < length (t_objs (cb_mem cb))" and m: "mem_on F (cb_mem cb)" using assms by (auto simp: cpu_on_def)
  have "k \<in> holders (cb_hot cb) i" using assms(2) by (simp add: holders_def)
  then have "card (holders (cb_hot cb) i) \<noteq> 0" by auto
  then show r: "0 < mo_ref_count (hot_obj cb i)" using assms(1) i by (fastforce simp: cpu_on_def)
  then show "mo_valid (hot_obj cb i)" using mem_on_obj(1) [OF m i] assms by (auto simp: counts_on_def hot_obj_def cpu_on_def)
qed

lemma cpu_inv_mem:
  assumes "cpu_on F cb" and "mem_on F m" and "length (t_objs (cb_mem cb)) \<le> length (t_objs m)"
    and "\<And>i. i < length (t_objs (cb_mem cb)) \<Longrightarrow> mo_ref_count (hot_obj cb i) \<le> mo_ref_count (t_objs m ! i)"
  shows "cpu_on F (cb\<lparr>cb_mem := m\<rparr>)"
proof -
  have "int (card (holders (cb_hot cb) i)) \<le> mo_ref_count (t_objs m ! i)" if "i < length (t_objs m)" for i
  proof (cases "i < length (t_objs (cb_mem cb))")
    case True
    then have "int (card (holders (cb_hot cb) i)) \<le> mo_ref_count (hot_obj cb i)" using assms(1) by (simp add: cpu_on_def)
    with assms(4) [OF True] show ?thesis by linarith
  next
    case False
    then have "holders (cb_hot cb) i = {}" using assms(1) by (auto simp: cpu_on_def holders_def)
    with mem_on_obj(1) [OF assms(2) that] show ?thesis by (simp add: counts_on_def)
  qed
  moreover have "i < length (t_objs m)" if "map_of (cb_hot cb) k = Some i" for k i
    using cpu_inv_cached(1) [OF assms(1) that] assms(3) by simp
  ultimately show ?thesis using assms(1,2) by (simp add: cpu_on_def hot_obj_def)
qed

lemma cpu_inv_more [simp]:
  "cpu_on F (cb\<lparr>cb_keys_in_request := x\<rparr>) = cpu_on F cb" "cpu_on F (cb\<lparr>cb_msgs := y\<rparr>) = cpu_on F cb"
  by (simp_all add: cpu_on_def hot_obj_def)

lemma mem_pin_objs:
  "t_objs (mem_pin now st i) = (t_objs st)[i := mo_pin_count_update (\<lambda>p. p + 1) (t_objs st ! i)]"
  by (simp add: mem_pin_def on_pin_def upd_obj_def Let_def)

lemma cpu_pin_inv:
  assumes inv: "cpu_on F cb" and k: "map_of (cb_hot cb) k = Some i"
  shows "cpu_on F (cb\<lparr>cb_mem := mem_pin now (cb_mem cb) i\<rparr>)"
proof -
  note C = cpu_inv_cached [OF inv k]
  have "mem_on F (mem_pin now (cb_mem cb) i)" using C by (intro mem_pin_inv) (simp_all add: hot_obj_def)
  then show ?thesis
    by (rule cpu_inv_mem [OF inv]) (use C(1) in \<open>auto simp: mem_pin_objs hot_obj_def nth_list_update\<close>)
qed

lemma cpu_ref_up_inv:
  assumes inv: "cpu_on F cb" and k: "map_of (cb_hot cb) k = Some i"
  shows "cpu_on F (cb\<lparr>cb_mem := ref_count_up (cb_mem cb) i\<rparr>)"
proof -
  note C = cpu_inv_cached [OF inv k]
  have "mem_on F (ref_count_up (cb_mem cb) i)" using C by (intro ref_count_up_inv) (simp_all add: hot_obj_def)
  then show ?thesis
    by (rule cpu_inv_mem [OF inv])
      (use C(1) in \<open>auto simp: ref_count_up_def upd_obj_def hot_obj_def nth_list_update\<close>)
qed

lemma cpu_contains_inv: "cpu_on F cb \<Longrightarrow> cpu_on F (fst (cpu_contains now cb k pin))"
  using cpu_pin_inv [of F cb k _ now] by (auto simp: cpu_contains_def split: option.splits)

lemma get_blocking_inv: "cpu_on F cb \<Longrightarrow> cpu_on F (fst (get_blocking cb k))"
  using cpu_ref_up_inv [of F cb k] by (auto simp: get_blocking_def split: option.splits)

lemma cpu_pin_op_inv: "cpu_on F cb \<Longrightarrow> cpu_on F (fst (cpu_pin now cb k))"
  using cpu_pin_inv [of F cb k _ now] by (auto simp: cpu_pin_def split: option.splits)

lemma batched_async_contains_inv:
  "cpu_on F cb \<Longrightarrow> cpu_on F (fst (batched_async_contains now cb ks pin n))"
proof (induction now cb ks pin n rule: batched_async_contains.induct)
  case (2 now cb key keys pin n)
  then show ?case using cpu_pin_inv [of F cb key _ now] by (auto split: option.splits)
qed simp

lemma batched_get_inv: "cpu_on F cb \<Longrightarrow> cpu_on F (fst (batched_get_non_blocking cb ks acc))"
proof (induction cb ks acc rule: batched_get_non_blocking.induct)
  case (2 cb key keys acc)
  then show ?case using cpu_ref_up_inv [of F cb key] by (auto split: option.splits)
qed simp

lemma holders_update:
  assumes "map_of d k = None"
  shows "holders (AList.update k i d) j = (if j = i then insert k (holders d j) else holders d j)"
  using assms by (auto simp: holders_def)

lemma submit_put_inv:
  assumes inv: "cpu_on F cb" and i: "i < length (t_objs (cb_mem cb))" and v: "mo_valid (hot_obj cb i)"
    and env: "policy_env (ce_items env)"
  shows "cpu_on F (submit_put_task env now cb k i)"
proof (cases "map_of (cb_hot cb) k")
  case None
  let ?m = "ref_count_up (cb_mem cb) i" and ?d = "AList.update k i (cb_hot cb)"
  have m: "mem_on F ?m" using inv i v by (intro ref_count_up_inv) (simp_all add: cpu_on_def hot_obj_def)
  have ref: "mo_ref_count (t_objs ?m ! j) = mo_ref_count (hot_obj cb j) + (if j = i then 1 else 0)"
    and len: "length (t_objs ?m) = length (t_objs (cb_mem cb))" for j
    using i by (simp_all add: ref_count_up_def upd_obj_def hot_obj_def)
  have nk: "k \<notin> set (od_keys (cb_hot cb))" by (rule iffD1 [OF map_of_None_keys None])
  have "pol_inv (pol_put (ce_hash env) now k (cb_policy cb)) (insert k (set (od_keys (cb_hot cb))))"
    by (rule policy_env.pol_put_keeps [OF env _ nk]) (use inv in \<open>unfold cpu_on_def, blast\<close>)
  then have "pol_inv (pol_put (ce_hash env) now k (cb_policy cb)) (set (od_keys ?d))" by (simp add: dom_update)
  moreover have "int (card (holders ?d j)) \<le> mo_ref_count (t_objs ?m ! j)" if "j < length (t_objs ?m)" for j
  proof -
    have "k \<notin> holders (cb_hot cb) j" using None by (simp add: holders_def)
    moreover have "int (card (holders (cb_hot cb) j)) \<le> mo_ref_count (hot_obj cb j)"
      using inv that len by (simp add: cpu_on_def)
    ultimately show ?thesis using ref [of j] by (cases "j = i") (simp_all add: holders_update [OF None])
  qed
  moreover have "i \<notin> F" using inv v i mem_on_obj(1) [of F "cb_mem cb" i] by (simp add: cpu_on_def counts_on_def hot_obj_def)
  ultimately show ?thesis
    using inv m i len None by (auto simp: submit_put_task_def cpu_on_def hot_obj_def)
qed (use inv in \<open>simp add: submit_put_task_def\<close>)

lemma holders_delete:
  "holders (AList.delete k d) j = holders d j - {k}"
  by (auto simp: holders_def)

lemma evict_shrinks: "map_of d k = Some v \<Longrightarrow> length (AList.delete k d) < length d"
  using map_of_Some_key [of d k v] delete_keys [of k d] length_removeAll_less [of k "od_keys d"]
  by (metis length_map)

definition evictable :: "('k, 'h, 's, 'd) cpu_backend \<Rightarrow> 'k \<Rightarrow> bool" where
  "evictable cb k \<longleftrightarrow> (\<exists>i. map_of (cb_hot cb) k = Some i \<and> can_evict (hot_obj cb i))"

definition protected_kept :: "('k, 'h, 's, 'd) cpu_backend \<Rightarrow> ('k, 'h, 's, 'd) cpu_backend \<Rightarrow> bool" where
  "protected_kept cb cb' \<longleftrightarrow>
     (\<forall>k i. map_of (cb_hot cb) k = Some i \<and> \<not> can_evict (hot_obj cb i) \<longrightarrow>
        map_of (cb_hot cb') k = Some i \<and> hot_obj cb' i = hot_obj cb i) \<and>
     (\<forall>k i. map_of (cb_hot cb') k = Some i \<longrightarrow> map_of (cb_hot cb) k = Some i) \<and>
     cb_use_hot cb' = cb_use_hot cb \<and> length (t_objs (cb_mem cb)) \<le> length (t_objs (cb_mem cb'))"

lemma protected_kept_refl [simp]: "protected_kept cb cb"
  by (simp add: protected_kept_def)

lemma protected_keptD:
  assumes "protected_kept cb cb'"
  shows "map_of (cb_hot cb) k = Some i \<Longrightarrow> \<not> can_evict (hot_obj cb i)
      \<Longrightarrow> map_of (cb_hot cb') k = Some i \<and> hot_obj cb' i = hot_obj cb i"
    and "map_of (cb_hot cb') k = Some i \<Longrightarrow> map_of (cb_hot cb) k = Some i"
    and "cb_use_hot cb' = cb_use_hot cb" and "length (t_objs (cb_mem cb)) \<le> length (t_objs (cb_mem cb'))"
  using assms unfolding protected_kept_def by blast+

lemma protected_kept_trans:
  assumes 1: "protected_kept cb cb'" and 2: "protected_kept cb' cb''"
  shows "protected_kept cb cb''"
  unfolding protected_kept_def
proof (intro conjI allI impI)
  fix k i assume *: "map_of (cb_hot cb) k = Some i \<and> \<not> can_evict (hot_obj cb i)"
  then have "map_of (cb_hot cb') k = Some i" "hot_obj cb' i = hot_obj cb i"
    using protected_keptD(1) [OF 1] by blast+
  with * protected_keptD(1) [OF 2, of k i]
  show "map_of (cb_hot cb'') k = Some i" and "hot_obj cb'' i = hot_obj cb i" by simp_all
next
  fix k i assume "map_of (cb_hot cb'') k = Some i"
  then show "map_of (cb_hot cb) k = Some i" using protected_keptD(2) [OF 1] protected_keptD(2) [OF 2] by blast
qed (use protected_keptD(3,4) [OF 1] protected_keptD(3,4) [OF 2] in simp_all)

definition alloc_done :: "nat set \<Rightarrow> ('k, 'h, 's, 'd) cpu_backend \<Rightarrow> ('k, 'h, 's, 'd) cpu_backend \<Rightarrow> mixed_obj option result \<Rightarrow> bool" where
  "alloc_done F cb cb' r \<longleftrightarrow> cpu_on F cb' \<and> protected_kept cb cb' \<and>
     ((r = Inr None \<and> (cb_use_hot cb \<longrightarrow> (\<forall>k. \<not> evictable cb' k))) \<or>
      (\<exists>j. r = Inr (Some (PinObj j)) \<and> length (t_objs (cb_mem cb)) \<le> j \<and> j < length (t_objs (cb_mem cb')) \<and>
         mo_valid (hot_obj cb' j) \<and> mo_ref_count (hot_obj cb' j) = 1))"

lemma alloc_done_after:
  assumes "protected_kept cb cb'" and "alloc_done F cb' cb'' r"
  shows "alloc_done F cb cb'' r"
  using assms(2) protected_kept_trans [OF assms(1)] protected_keptD(3,4) [OF assms(1)]
  unfolding alloc_done_def by auto

locale cpu_backend_env =
  fixes env :: "('k, 'h, 's, 'd) cpu_env"
  assumes tensor: "tensor_env (mem_env_of env)" and policy: "policy_env (ce_items env)"
begin

lemma ref_down_facts:
  assumes inv: "mem_on F m" and i: "i < length (t_objs m)"
  shows "mem_on F (ref_count_down (mem_env_of env) m i)"
    and "length (t_objs (ref_count_down (mem_env_of env) m i)) = length (t_objs m)"
    and "mo_ref_count (t_objs (ref_count_down (mem_env_of env) m i) ! i) = max 0 (mo_ref_count (t_objs m ! i) - 1)"
    and "j \<noteq> i \<Longrightarrow> t_objs (ref_count_down (mem_env_of env) m i) ! j = t_objs m ! j"
proof -
  show "mem_on F (ref_count_down (mem_env_of env) m i)" by (rule tensor_env.ref_count_down_inv [OF tensor inv i])
  let ?m = "upd_obj i (mo_ref_count_update (\<lambda>_. max 0 (mo_ref_count (t_objs m ! i) - 1))) m"
  have f: "ref_count_down (mem_env_of env) m i = t_free (mem_env_of env) ?m i \<or>
      ref_count_down (mem_env_of env) m i = ?m"
    using ref_count_down_form [OF i, of "mem_env_of env"] by (simp add: Let_def)
  have keep: "mo_ref_count (t_objs (t_free (mem_env_of env) ?m i) ! i) = mo_ref_count (t_objs ?m ! i)"
    using i by (simp add: t_free_def Let_def obj_invalidate_def)
  show "length (t_objs (ref_count_down (mem_env_of env) m i)) = length (t_objs m)"
    using f tensor_env.t_free_length [OF tensor, of ?m i] by auto
  show "mo_ref_count (t_objs (ref_count_down (mem_env_of env) m i) ! i) = max 0 (mo_ref_count (t_objs m ! i) - 1)"
    using f keep i by auto
  show "j \<noteq> i \<Longrightarrow> t_objs (ref_count_down (mem_env_of env) m i) ! j = t_objs m ! j"
    using f tensor_env.t_free_other [OF tensor, of j i ?m] by auto
qed

lemma drop_cached_inv:
  assumes inv: "cpu_on F cb" and k: "map_of (cb_hot cb) k = Some i"
    and p: "pol_inv p (set (od_keys (cb_hot cb)) - {k})"
  shows "cpu_on F (cb\<lparr>cb_hot := AList.delete k (cb_hot cb),
    cb_mem := ref_count_down (mem_env_of env) (cb_mem cb) i, cb_policy := p\<rparr>)"
proof -
  note C = cpu_inv_cached [OF inv k]
  note R = ref_down_facts [OF C(4,1)]
  have "int (card (holders (cb_hot cb) j - {k})) \<le> mo_ref_count (t_objs (ref_count_down (mem_env_of env) (cb_mem cb) i) ! j)"
    if "j < length (t_objs (cb_mem cb))" for j
  proof (cases "j = i")
    case True
    have "k \<in> holders (cb_hot cb) i" using k by (simp add: holders_def)
    then have "int (card (holders (cb_hot cb) i - {k})) = int (card (holders (cb_hot cb) i)) - 1"
      using card_Suc_Diff1 [OF finite_holders] by fastforce
    moreover have "int (card (holders (cb_hot cb) i)) \<le> mo_ref_count (hot_obj cb i)"
      using inv C(1) by (simp add: cpu_on_def)
    ultimately show ?thesis using R(3) C(2) True by (simp add: hot_obj_def)
  next
    case False
    have "k \<notin> holders (cb_hot cb) j" using k False by (simp add: holders_def)
    with False R(4) [OF False] inv that show ?thesis by (simp add: cpu_on_def hot_obj_def)
  qed
  then show ?thesis
    using inv p R(1,2) k by (auto simp: cpu_on_def hot_obj_def holders_delete set_keys_delete simp del: set_map)
qed

lemma cpu_remove_ok:
  assumes inv: "cpu_on F cb" and k: "map_of (cb_hot cb) k = Some i"
  shows "\<exists>p. pol_inv p (set (od_keys (cb_hot cb)) - {k}) \<and>
    cpu_remove env cb k True = (cb\<lparr>cb_hot := AList.delete k (cb_hot cb),
      cb_mem := ref_count_down (mem_env_of env) (cb_mem cb) i, cb_policy := p,
      cb_msgs := cb_msgs cb @ [(EVICT, ce_hash env k)]\<rparr>, Inr True)"
proof -
  have "k \<in> set (od_keys (cb_hot cb))" using k by (rule map_of_Some_key)
  then obtain p where "pol_force_evict k (cb_policy cb) = Inr p" "pol_inv p (set (od_keys (cb_hot cb)) - {k})"
    using policy_env.pol_force_keeps [OF policy, of "cb_policy cb" "set (od_keys (cb_hot cb))" k] inv
    unfolding cpu_on_def by blast
  with k show ?thesis by (intro exI [of _ p]) (simp add: cpu_remove_unfold send_evict_def Let_def)
qed

lemma cpu_remove_inv:
  assumes "cpu_on F cb"
  shows "cpu_on F (fst (cpu_remove env cb k True))" and "\<exists>b. snd (cpu_remove env cb k True) = Inr b"
proof -
  have "cpu_on F (fst (cpu_remove env cb k True)) \<and> (\<exists>b. snd (cpu_remove env cb k True) = Inr b)"
  proof (cases "map_of (cb_hot cb) k")
    case None
    with assms show ?thesis by (auto simp: cpu_remove_unfold send_evict_def)
  next
    case (Some i)
    obtain p where p: "pol_inv p (set (od_keys (cb_hot cb)) - {k})"
      "cpu_remove env cb k True = (cb\<lparr>cb_hot := AList.delete k (cb_hot cb),
        cb_mem := ref_count_down (mem_env_of env) (cb_mem cb) i, cb_policy := p,
        cb_msgs := cb_msgs cb @ [(EVICT, ce_hash env k)]\<rparr>, Inr True)"
      using cpu_remove_ok [OF assms Some] by blast
    with drop_cached_inv [OF assms Some p(1)] show ?thesis by auto
  qed
  then show "cpu_on F (fst (cpu_remove env cb k True))" and "\<exists>b. snd (cpu_remove env cb k True) = Inr b" by simp_all
qed

lemma batched_remove_inv:
  "cpu_on F cb \<Longrightarrow> cpu_on F (fst (batched_remove env cb ks True n)) \<and> (\<exists>m. snd (batched_remove env cb ks True n) = Inr m)"
proof (induction ks arbitrary: cb n)
  case (Cons k ks)
  obtain cb' b where "cpu_remove env cb k True = (cb', Inr b)" "cpu_on F cb'"
    using cpu_remove_inv [OF Cons.prems, of k] by (cases "cpu_remove env cb k True") auto
  with Cons.IH show ?case by simp
qed simp

lemma cpu_clear_inv: "cpu_on F cb \<Longrightarrow> cpu_on F (fst (cpu_clear env cb))"
  using batched_remove_inv by (auto simp: cpu_clear_def split: sum.splits prod.splits) (metis fst_conv)+

lemma touch_keys_ok:
  assumes "cpu_on F cb" and "set ks \<subseteq> set (od_keys (cb_hot cb))"
  shows "cpu_on F (fst (touch_keys env now ks cb)) \<and> snd (touch_keys env now ks cb) = Inr () \<and>
    map_of (cb_hot (fst (touch_keys env now ks cb))) = map_of (cb_hot cb) \<and>
    cb_mem (fst (touch_keys env now ks cb)) = cb_mem cb \<and> cb_msgs (fst (touch_keys env now ks cb)) = cb_msgs cb"
  using assms
proof (induction ks arbitrary: cb)
  case (Cons k ks)
  have "k \<in> set (od_keys (cb_hot cb))" using Cons.prems(2) by simp
  then obtain p d where pd: "pol_hit (ce_hash env) now k (cb_hot cb) (cb_policy cb) = (p, Inr d)"
      "pol_inv p (set (od_keys (cb_hot cb)))" "od_wf d" "map_of d = map_of (cb_hot cb)"
    using policy_env.pol_hit_keeps [OF policy, of "cb_policy cb" "cb_hot cb" k "ce_hash env" now] Cons.prems(1)
    unfolding cpu_on_def by blast
  have keys: "set (od_keys d) = set (od_keys (cb_hot cb))"
    by (rule set_eqI) (simp only: od_key pd(4))
  let ?cb = "cb\<lparr>cb_policy := p, cb_hot := d\<rparr>"
  have "cpu_on F ?cb"
    using Cons.prems(1) pd keys by (simp add: cpu_on_def hot_obj_def holders_def del: set_map)
  from Cons.IH [OF this] Cons.prems(2) keys pd(1,4) show ?case by simp
qed simp

lemma evict_once_ok:
  assumes inv: "cpu_on F cb"
  shows "(\<exists>cb'. evict_once env cb = (cb', Inr 0) \<and> cpu_on F cb' \<and> protected_kept cb cb' \<and> cb_mem cb' = cb_mem cb \<and>
            cb_hot cb' = cb_hot cb \<and> cb_msgs cb' = cb_msgs cb \<and>
            (cb_use_hot cb \<longrightarrow> (\<forall>k. \<not> evictable cb' k))) \<or>
         (\<exists>cb' k. evict_once env cb = (cb', Inr 1) \<and> cpu_on F cb' \<and> protected_kept cb cb' \<and> evictable cb k \<and>
            cb_hot cb' = AList.delete k (cb_hot cb) \<and> cb_msgs cb' = cb_msgs cb @ [(EVICT, ce_hash env k)])"
proof (cases "cb_use_hot cb \<and> (\<exists>k. evictable cb k)")
  case True
  then obtain k0 i0 where k0: "map_of (cb_hot cb) k0 = Some i0" "can_evict (hot_obj cb i0)"
    by (auto simp: evictable_def)
  have P: "pol_inv (cb_policy cb) (set (od_keys (cb_hot cb)))" "od_wf (cb_hot cb)" using inv unfolding cpu_on_def by blast+
  obtain p k i where c: "pol_candidates (ce_items env) (\<lambda>i. can_evict (hot_obj cb i)) 1 (cb_hot cb) (cb_policy cb) = (p, Inr [k])"
      "pol_inv p (set (od_keys (cb_hot cb)) - {k})" "map_of (cb_hot cb) k = Some i" "can_evict (hot_obj cb i)"
    using policy_env.pol_one [OF policy P k0(1), of "\<lambda>i. can_evict (hot_obj cb i)"] k0(2) by blast
  define cb' where "cb' = cb\<lparr>cb_hot := AList.delete k (cb_hot cb),
    cb_mem := ref_count_down (mem_env_of env) (cb_mem cb) i, cb_policy := p,
    cb_msgs := cb_msgs cb @ [(EVICT, ce_hash env k)]\<rparr>"
  have e: "evict_once env cb = (cb', Inr 1)"
    using True c(1,3) by (simp add: evict_once_def cpu_remove_unfold send_evict_def Let_def cb'_def)
  have "cpu_on F cb'" using drop_cached_inv [OF inv c(3,2)] by (simp add: cb'_def)
  moreover have "protected_kept cb cb'"
  proof -
    have "k' \<noteq> k \<and> hot_obj cb' j = hot_obj cb j"
      if "map_of (cb_hot cb) k' = Some j" "\<not> can_evict (hot_obj cb j)" for k' j
    proof -
      have "j \<noteq> i" using that c(4) by auto
      with ref_down_facts(4) [OF cpu_inv_cached(4,1) [OF inv c(3)]] that c(3) show ?thesis
        by (auto simp: hot_obj_def cb'_def)
    qed
    then show ?thesis
      using ref_down_facts(2) [OF cpu_inv_cached(4,1) [OF inv c(3)]]
      by (auto simp: protected_kept_def cb'_def split: if_splits)
  qed
  ultimately show ?thesis using e c(3,4) by (auto simp: evictable_def cb'_def)
next
  case False
  show ?thesis
  proof (cases "cb_use_hot cb")
    case use: True
    have P: "pol_inv (cb_policy cb) (set (od_keys (cb_hot cb)))" "od_wf (cb_hot cb)" using inv unfolding cpu_on_def by blast+
    have none: "\<not> can_evict (hot_obj cb v)" if "map_of (cb_hot cb) k = Some v" for k v
      using False use that by (auto simp: evictable_def)
    then obtain p where p: "pol_candidates (ce_items env) (\<lambda>i. can_evict (hot_obj cb i)) 1 (cb_hot cb) (cb_policy cb) = (p, Inr [])"
      using policy_env.pol_none_iff [OF policy P zero_less_one, of "\<lambda>i. can_evict (hot_obj cb i)"] by blast
    obtain p' ks where c: "pol_candidates (ce_items env) (\<lambda>i. can_evict (hot_obj cb i)) 1 (cb_hot cb) (cb_policy cb) = (p', Inr ks)"
        "pol_inv p' (set (od_keys (cb_hot cb)) - set ks)"
      using policy_env.pol_contract [OF policy P zero_less_one, of "\<lambda>i. can_evict (hot_obj cb i)"] by blast
    with p have p': "pol_inv p (set (od_keys (cb_hot cb)))" by (auto simp del: set_map)
    have "cpu_on F (cb\<lparr>cb_policy := p\<rparr>)" using inv p' by (simp add: cpu_on_def hot_obj_def del: set_map)
    moreover have "evict_once env cb = (cb\<lparr>cb_policy := p\<rparr>, Inr 0)" using use p by (simp add: evict_once_def)
    moreover have "protected_kept cb (cb\<lparr>cb_policy := p\<rparr>)" by (simp add: protected_kept_def hot_obj_def)
    moreover have "\<not> evictable (cb\<lparr>cb_policy := p\<rparr>) k" for k using none by (auto simp: evictable_def hot_obj_def)
    ultimately show ?thesis by simp
  next
    case False
    with inv show ?thesis by (simp add: evict_once_def)
  qed
qed

lemma allocator_allocate_ok:
  assumes inv: "cpu_on F cb" and ad: "adapt_shapes_and_dtypes shapes dtypes = Inr (ss, ds)" "ss \<noteq> []"
    and raw: "get_size_bytes (mem_env_of env) ss ds = Inr raw" "0 < raw" and fmt: "fmt \<in> set kv_formats"
  shows "allocator_allocate env cb shapes dtypes fmt = (cb, Inr None) \<or>
    (\<exists>cb' j. allocator_allocate env cb shapes dtypes fmt = (cb', Inr (Some (PinObj j))) \<and> cpu_on F cb' \<and>
       protected_kept cb cb' \<and> cb_hot cb' = cb_hot cb \<and> cb_msgs cb' = cb_msgs cb \<and>
       j = length (t_objs (cb_mem cb)) \<and> j < length (t_objs (cb_mem cb')) \<and> mo_valid (hot_obj cb' j) \<and>
       mo_ref_count (hot_obj cb' j) = 1)"
proof -
  have fmt': "fmt \<noteq> BINARY_BUFFER" using fmt by (auto simp: kv_formats_def)
  have mi: "mem_on F (cb_mem cb)" and ta: "talloc_inv (cb_mem cb)" using inv by (simp_all add: cpu_on_def mem_on_def)
  obtain m r where al: "t_allocate (mem_env_of env) (cb_mem cb) shapes dtypes fmt = (m, r)" by fastforce
  from ad raw have "(m = cb_mem cb \<and> r = Inr None) \<or> (\<exists>j. r = Inr (Some j))"
    using al by (auto simp: t_allocate_def Let_def am_allocate_def split: option.splits sum.splits)
  then consider "m = cb_mem cb" "r = Inr None" | j where "r = Inr (Some j)" by blast
  then show ?thesis
  proof cases
    case 1
    with al fmt fmt' show ?thesis by (simp add: allocator_allocate_def)
  next
    case (2 j)
    note F = tensor_env.t_allocate_facts [OF tensor ta raw al [unfolded 2] ad(1)]
    have new: "t_objs m ! j = mk_obj ss ds (mo_address (t_objs m ! j))
           (compute_aligned_size (t_am (cb_mem cb)) raw) fmt (mo_address (t_objs m ! j), raw)" by (rule F(5))
    have mi': "mem_on F m"
    proof (rule tensor_env.alloc_mem_inv [OF tensor mi F(1)])
      fix x assume "length (t_objs (cb_mem cb)) \<le> x" "x < length (t_objs m)"
      then have "x = j" using F(2,6) by simp
      then show "counts_ok (t_objs m ! x) \<and> mo_pin_count (t_objs m ! x) = 0"
        using new by (metis counts_ok_mk_obj)
    qed (use F alloc_keeps_monitor(1) [OF al] in auto)
    have inv': "cpu_on F (cb\<lparr>cb_mem := m\<rparr>)"
      by (rule cpu_inv_mem [OF inv mi']) (use F in \<open>auto simp: hot_obj_def\<close>)
    have "hot_obj (cb\<lparr>cb_mem := m\<rparr>) i = hot_obj cb i" if "map_of (cb_hot cb) k = Some i" for k i
      using cpu_inv_cached(1) [OF inv that] F(2,4) by (simp add: hot_obj_def)
    then have "protected_kept cb (cb\<lparr>cb_mem := m\<rparr>)" using F(2,6) by (auto simp: protected_kept_def)
    moreover have "mo_valid (t_objs m ! j)" "mo_ref_count (t_objs m ! j) = 1"
      by (subst new, simp add: mk_obj_def)+
    ultimately show ?thesis
      using al 2 fmt fmt' inv' F(2,6) by (simp add: allocator_allocate_def hot_obj_def)
  qed
qed

lemma evict_loop_busy:
  assumes "evict_loop env others True shapes dtypes fmt n cb = Some z"
  shows "snd z \<noteq> Inr None"
proof -
  have "True \<longrightarrow> snd z \<noteq> Inr None"
  proof (rule evict_loop.raw_induct [where P = "\<lambda>env others b shapes dtypes fmt n cb z. b \<longrightarrow> snd z \<noteq> Inr None"])
    fix loop :: "('k, 'h, 's, 'd) cpu_env \<Rightarrow> (nat \<Rightarrow> ('k, 'h, 's, 'd) cpu_backend \<Rightarrow> ('k, 'h, 's, 'd) cpu_backend)
        \<Rightarrow> bool \<Rightarrow> 's one_or_many \<Rightarrow> 'd one_or_many \<Rightarrow> mem_fmt \<Rightarrow> nat \<Rightarrow> ('k, 'h, 's, 'd) cpu_backend
        \<Rightarrow> (('k, 'h, 's, 'd) cpu_backend \<times> mixed_obj option result) option"
      and env others b shapes dtypes fmt n cb z
    assume "\<And>env others b shapes dtypes fmt n cb z. loop env others b shapes dtypes fmt n cb = Some z \<Longrightarrow> b \<longrightarrow> snd z \<noteq> Inr None"
      and "(case evict_once env cb of (cb1, Inl e) \<Rightarrow> Some (cb1, Inl e)
      | (cb1, Inr evicted) \<Rightarrow>
          if evicted = 0 \<and> \<not> b then Some (cb1, Inr None)
          else let cb2 = (if evicted = 0 then others n cb1 else cb1)
               in (case allocator_allocate env cb2 shapes dtypes fmt of
                     (cb3, Inr None) \<Rightarrow> loop env others b shapes dtypes fmt (n + 1) cb3
                   | (cb3, r) \<Rightarrow> Some (cb3, r))) = Some z"
    then show "b \<longrightarrow> snd z \<noteq> Inr None"
      by (auto split: prod.splits sum.splits option.splits if_splits simp: Let_def)
  qed (rule assms)
  then show ?thesis by simp
qed

lemma cpu_allocate_busy:
  assumes "cpu_allocate env others cb shapes dtypes fmt True True = Some (cb', r)"
  shows "r \<noteq> Inr None"
  using assms evict_loop_busy [of others shapes dtypes "default_fmt cb fmt" 0 _ "(cb', r)"]
  by (auto simp: cpu_allocate_def Let_def split: prod.splits sum.splits option.splits)

lemma evict_loop_ok:
  assumes "cpu_on F cb" and ad: "adapt_shapes_and_dtypes shapes dtypes = Inr (ss, ds)" "ss \<noteq> []"
    and raw: "get_size_bytes (mem_env_of env) ss ds = Inr raw" "0 < raw" and fmt: "fmt \<in> set kv_formats"
  shows "\<exists>cb' r. evict_loop env others False shapes dtypes fmt n cb = Some (cb', r) \<and> alloc_done F cb cb' r"
  using assms(1)
proof (induction "length (cb_hot cb)" arbitrary: cb n rule: less_induct)
  case less
  consider (none) cb' where "evict_once env cb = (cb', Inr 0)" "cpu_on F cb'" "protected_kept cb cb'"
      "cb_use_hot cb \<longrightarrow> (\<forall>k. \<not> evictable cb' k)"
    | (one) cb' k where "evict_once env cb = (cb', Inr 1)" "cpu_on F cb'" "protected_kept cb cb'" "evictable cb k"
      "cb_hot cb' = AList.delete k (cb_hot cb)"
    using evict_once_ok [OF less.prems] by blast
  then show ?case
  proof cases
    case none
    then show ?thesis by (simp add: evict_loop.simps alloc_done_def)
  next
    case one
    note L = evict_loop.simps [of env others False shapes dtypes fmt n cb]
    consider "allocator_allocate env cb' shapes dtypes fmt = (cb', Inr None)"
      | cb3 j where "allocator_allocate env cb' shapes dtypes fmt = (cb3, Inr (Some (PinObj j)))" "cpu_on F cb3"
         "protected_kept cb' cb3" "j = length (t_objs (cb_mem cb'))" "j < length (t_objs (cb_mem cb3))"
         "mo_valid (hot_obj cb3 j)" "mo_ref_count (hot_obj cb3 j) = 1"
      using allocator_allocate_ok [OF one(2) ad raw fmt] by blast
    then show ?thesis
    proof cases
      case 1
      have "length (cb_hot cb') < length (cb_hot cb)"
        using one(4,5) evict_shrinks by (auto simp: evictable_def)
      from less.hyps [OF this one(2), of "n + 1"] obtain cb'' r where
        "evict_loop env others False shapes dtypes fmt (n + 1) cb' = Some (cb'', r)" "alloc_done F cb' cb'' r" by blast
      with L one(1) 1 alloc_done_after [OF one(3)] show ?thesis by simp
    next
      case 2
      then have "alloc_done F cb' cb3 (Inr (Some (PinObj j)))" by (simp add: alloc_done_def)
      with L one(1) 2(1) alloc_done_after [OF one(3)] show ?thesis by simp
    qed
  qed
qed

lemma cpu_allocate_ok:
  assumes inv: "cpu_on F cb" and ad: "adapt_shapes_and_dtypes shapes dtypes = Inr (ss, ds)" "ss \<noteq> []"
    and raw: "get_size_bytes (mem_env_of env) ss ds = Inr raw" "0 < raw" and fmt: "default_fmt cb fmt \<in> set kv_formats"
  shows "\<exists>cb' r. cpu_allocate env others cb shapes dtypes fmt True False = Some (cb', r) \<and> alloc_done F cb cb' r"
proof -
  let ?f = "default_fmt cb fmt"
  consider "allocator_allocate env cb shapes dtypes ?f = (cb, Inr None)"
      | cb3 j where "allocator_allocate env cb shapes dtypes ?f = (cb3, Inr (Some (PinObj j)))" "cpu_on F cb3"
         "protected_kept cb cb3" "j = length (t_objs (cb_mem cb))" "j < length (t_objs (cb_mem cb3))"
         "mo_valid (hot_obj cb3 j)" "mo_ref_count (hot_obj cb3 j) = 1"
    using allocator_allocate_ok [OF inv ad raw fmt] by blast
  then show ?thesis
  proof cases
    case 1
    with evict_loop_ok [OF inv ad raw fmt, of others 0] show ?thesis by (simp add: cpu_allocate_def Let_def)
  next
    case 2
    then show ?thesis by (simp add: cpu_allocate_def Let_def alloc_done_def)
  qed
qed

end

section \<open>Layerwise eviction\<close>

text \<open>
  The code evicts all layers of a chunk when the policy offers one of them and assumes, as its
  comments say, that the other layers are cached and may be evicted as well. Under that
  assumption (\<open>layers_idle\<close>) the eviction keeps the invariant: the objects it releases
  directly still count the reference of the cache but lead from no key any more.
\<close>

definition layers_idle :: "('k, 'h, 's, 'd) cpu_backend \<Rightarrow> 'k \<Rightarrow> 'k list \<Rightarrow> bool" where
  "layers_idle cb k ls \<longleftrightarrow> k \<in> set ls \<and> distinct ls \<and> (\<forall>l \<in> set ls. evictable cb l)"

definition hot_keys :: "('k, 'h, 's, 'd) cpu_backend \<Rightarrow> 'k set" where
  "hot_keys cb = {k. map_of (cb_hot cb) k \<noteq> None}"

lemma fold_delete:
  "map_of (fold AList.delete ls d) k = (if k \<in> set ls then None else map_of d k)"
  "set (od_keys (fold AList.delete ls d)) = set (od_keys d) - set ls"
  "od_wf d \<Longrightarrow> od_wf (fold AList.delete ls d)"
proof -
  show "map_of (fold AList.delete ls d) k = (if k \<in> set ls then None else map_of d k)"
    by (induction ls arbitrary: d) auto
  show "set (od_keys (fold AList.delete ls d)) = set (od_keys d) - set ls"
    by (induction ls arbitrary: d) (auto simp: set_keys_delete simp del: set_map)
  show "od_wf d \<Longrightarrow> od_wf (fold AList.delete ls d)"
    by (induction ls arbitrary: d) auto
qed

lemma pol_force_missing:
  assumes "pol_inv p K" and "k \<notin> K"
  shows "pol_force_evict k p = Inr p"
proof (cases p)
  case (LFU s)
  then have "map_of (key_to_freq s) k = None"
    using assms lfu_inv_key [of s K k] by (auto simp: pol_inv_def)
  with LFU show ?thesis by (simp add: pol_force_evict_def lfu_on_force_evict_def)
qed (simp_all add: pol_force_evict_def)

lemma cpu_on_drop:
  assumes inv: "cpu_on F cb" and p: "pol_inv p (set (od_keys (cb_hot cb)) - set ls)"
  shows "cpu_on F (cb\<lparr>cb_policy := p, cb_hot := fold AList.delete ls (cb_hot cb)\<rparr>)"
proof -
  have "holders (fold AList.delete ls (cb_hot cb)) j \<subseteq> holders (cb_hot cb) j" for j
    by (auto simp: holders_def fold_delete split: if_splits)
  then have c: "card (holders (fold AList.delete ls (cb_hot cb)) j) \<le> card (holders (cb_hot cb) j)" for j
    by (intro card_mono) simp_all
  have "int (card (holders (fold AList.delete ls (cb_hot cb)) j)) \<le> mo_ref_count (hot_obj cb j)"
    if "j < length (t_objs (cb_mem cb))" for j
    using inv that c [of j] by (fastforce simp: cpu_on_def)
  then show ?thesis
    using inv p by (auto simp: cpu_on_def hot_obj_def fold_delete simp del: set_map split: if_splits)
qed

context cpu_backend_env
begin

lemma pop_layers_ok:
  fixes cb :: "('k, 'h, 's, 'd) cpu_backend"
  assumes "distinct ls" and "\<forall>l \<in> set ls. map_of (cb_hot cb) l = Some (f l)"
    and "pol_inv (cb_policy cb) (set (od_keys (cb_hot cb)) - {c})"
  shows "\<exists>p. pol_inv p (set (od_keys (cb_hot cb)) - {c} - set ls) \<and>
    pop_layers cb ls acc = (cb\<lparr>cb_policy := p, cb_hot := fold AList.delete ls (cb_hot cb)\<rparr>, Inr (acc @ map f ls))"
  using assms
proof (induction ls arbitrary: cb acc)
  case Nil
  then show ?case by (intro exI [of _ "cb_policy cb"]) simp
next
  case (Cons l ls)
  let ?K = "set (od_keys (cb_hot cb)) - {c}"
  obtain p where p: "pol_force_evict l (cb_policy cb) = Inr p" "pol_inv p (?K - {l})"
  proof (cases "l \<in> ?K")
    case True
    with policy_env.pol_force_keeps [OF policy Cons.prems(3) True] that show ?thesis by blast
  next
    case False
    with pol_force_missing [OF Cons.prems(3) False] Cons.prems(3) that show ?thesis by simp
  qed
  let ?cb = "cb\<lparr>cb_policy := p, cb_hot := AList.delete l (cb_hot cb)\<rparr>"
  have K: "set (od_keys (cb_hot ?cb)) - {c} = ?K - {l}" by (auto simp: set_keys_delete simp del: set_map)
  have "pol_inv (cb_policy ?cb) (set (od_keys (cb_hot ?cb)) - {c})" unfolding K using p(2) by simp
  moreover have "\<forall>x \<in> set ls. map_of (cb_hot ?cb) x = Some (f x)" using Cons.prems(1,2) by auto
  ultimately obtain q where q: "pol_inv q (?K - {l} - set ls)"
     "pop_layers ?cb ls (acc @ [f l]) = (?cb\<lparr>cb_policy := q, cb_hot := fold AList.delete ls (cb_hot ?cb)\<rparr>, Inr ((acc @ [f l]) @ map f ls))"
    using Cons.IH [of ?cb "acc @ [f l]"] Cons.prems(1) unfolding K by (metis distinct.simps(2))
  have "?K - {l} - set ls = ?K - set (l # ls)" by auto
  with p(1) q Cons.prems(2) show ?case by (intro exI [of _ q]) simp
qed

lemma t_free_fold_refs:
  "mo_ref_count (t_objs (fold (\<lambda>i m. t_free (mem_env_of env) m i) is m) ! j) = mo_ref_count (t_objs m ! j)
   \<and> length (t_objs (fold (\<lambda>i m. t_free (mem_env_of env) m i) is m)) = length (t_objs m)"
proof (induction "is" arbitrary: m)
  case (Cons i "is")
  have "mo_ref_count (t_objs (t_free (mem_env_of env) m i) ! j) = mo_ref_count (t_objs m ! j)"
    by (cases "j = i"; cases "i < length (t_objs m)")
      (simp_all add: t_free_def Let_def obj_invalidate_def list_update_beyond)
  with Cons show ?case by (simp add: tensor_env.t_free_length [OF tensor])
qed simp

lemma cpu_on_free:
  assumes inv: "cpu_on F cb" and objs: "set objs \<subseteq> {..<length (t_objs (cb_mem cb))}"
    and unheld: "\<forall>i \<in> set objs. holders (cb_hot cb) i = {}"
  shows "\<exists>F'. cpu_on F' (cb\<lparr>cb_mem := t_batched_free (mem_env_of env) (cb_mem cb) objs\<rparr>)"
proof -
  let ?m = "t_batched_free (mem_env_of env) (cb_mem cb) objs" and ?F = "F \<union> (set objs \<inter> valid_ids (cb_mem cb))"
  have mi: "mem_on F (cb_mem cb)" using inv by (simp add: cpu_on_def)
  then have ta: "talloc_inv (cb_mem cb)" by (simp add: mem_on_def)
  have seq: "?m = fold (\<lambda>i m. t_free (mem_env_of env) m i) objs (cb_mem cb)"
    by (rule tensor_env.t_batched_free_seq [OF tensor ta objs])
  have m: "mem_on ?F ?m" by (rule tensor_env.t_batched_free_on [OF tensor mi objs])
  have r: "mo_ref_count (t_objs ?m ! j) = mo_ref_count (t_objs (cb_mem cb) ! j)"
    and len: "length (t_objs ?m) = length (t_objs (cb_mem cb))" for j
    using t_free_fold_refs [of objs "cb_mem cb" j] unfolding seq by blast+
  have "i \<notin> ?F" if "map_of (cb_hot cb) k = Some i" for k i
    using that inv unheld by (auto simp: cpu_on_def holders_def)
  then have "cpu_on ?F (cb\<lparr>cb_mem := ?m\<rparr>)"
    using inv m by (simp add: cpu_on_def hot_obj_def r len)
  then show ?thesis by blast
qed

lemma evict_layers_one:
  assumes inv: "cpu_on F cb" and pi: "pol_inv p (set (od_keys (cb_hot cb)) - {c})" and idle: "layers_idle cb c (split_layers c n)"
  shows "\<exists>F'. cpu_on F' (fst (evict_layers env split_layers n (cb\<lparr>cb_policy := p\<rparr>) [c])) \<and>
    hot_keys (fst (evict_layers env split_layers n (cb\<lparr>cb_policy := p\<rparr>) [c])) = hot_keys cb - set (split_layers c n) \<and>
    cb_msgs (fst (evict_layers env split_layers n (cb\<lparr>cb_policy := p\<rparr>) [c])) = cb_msgs cb"
proof -
  let ?ls = "split_layers c n" and ?f = "\<lambda>l. the (map_of (cb_hot cb) l)"
  have ls: "\<forall>l \<in> set ?ls. map_of (cb_hot cb) l = Some (?f l) \<and> can_evict (hot_obj cb (?f l))" "distinct ?ls" "c \<in> set ?ls"
    using idle by (auto simp: layers_idle_def evictable_def)
  obtain q where q: "pol_inv q (set (od_keys (cb_hot cb)) - {c} - set ?ls)"
    "pop_layers (cb\<lparr>cb_policy := p\<rparr>) ?ls [] =
      (cb\<lparr>cb_policy := q, cb_hot := fold AList.delete ?ls (cb_hot cb)\<rparr>, Inr (map ?f ?ls))"
    using pop_layers_ok [of ?ls "cb\<lparr>cb_policy := p\<rparr>" ?f c "[]"] ls pi by auto
  define cb1 where "cb1 = cb\<lparr>cb_policy := q, cb_hot := fold AList.delete ?ls (cb_hot cb)\<rparr>"
  have "set (od_keys (cb_hot cb)) - {c} - set ?ls = set (od_keys (cb_hot cb)) - set ?ls" using ls(3) by auto
  with q(1) have inv1: "cpu_on F cb1" unfolding cb1_def by (intro cpu_on_drop [OF inv]) simp
  have hk: "hot_keys cb1 = hot_keys cb - set ?ls" by (auto simp: hot_keys_def cb1_def fold_delete)
  have i: "?f l < length (t_objs (cb_mem cb)) \<and> holders (cb_hot cb1) (?f l) = {}" if l: "l \<in> set ?ls" for l
  proof -
    have m: "map_of (cb_hot cb) l = Some (?f l)" "mo_ref_count (hot_obj cb (?f l)) = 1"
      using ls(1) l by (auto simp: can_evict_def)
    have len: "?f l < length (t_objs (cb_mem cb))" by (rule cpu_inv_cached(1) [OF inv m(1)])
    then have "int (card (holders (cb_hot cb) (?f l))) \<le> 1" using inv m(2) by (fastforce simp: cpu_on_def)
    moreover have "l \<in> holders (cb_hot cb) (?f l)" using m(1) by (simp add: holders_def)
    ultimately have "holders (cb_hot cb) (?f l) = {l}"
      using card_le_Suc0_iff_eq [OF finite_holders, of "cb_hot cb" "?f l"] by fastforce
    with len l show ?thesis by (auto simp: holders_def cb1_def fold_delete)
  qed
  have "\<exists>F'. cpu_on F' (cb1\<lparr>cb_mem := t_batched_free (mem_env_of env) (cb_mem cb1) (map ?f ?ls)\<rparr>)"
    by (rule cpu_on_free [OF inv1]) (use i in \<open>auto simp: cb1_def\<close>)
  then have "\<exists>F'. cpu_on F' (fst (allocator_batched_free env cb1 (map ?f ?ls)))"
    using inv1 by (auto simp: allocator_batched_free_def Let_def split: list.split)
  moreover have "hot_keys (fst (allocator_batched_free env cb1 (map ?f ?ls))) = hot_keys cb1 \<and>
      cb_msgs (fst (allocator_batched_free env cb1 (map ?f ?ls))) = cb_msgs cb"
    by (auto simp: allocator_batched_free_def Let_def hot_keys_def cb1_def split: list.split)
  ultimately show ?thesis
    using q(2) hk by (auto simp: cb1_def [symmetric] split: prod.split sum.split)
qed

lemma layer_evict_ok:
  assumes inv: "cpu_on F cb" and idle: "\<forall>c. evictable cb c \<longrightarrow> layers_idle cb c (split_layers c n)"
  defines "cb' \<equiv> fst (layer_evict_once env split_layers n cb)"
  shows "(\<exists>F'. cpu_on F' cb') \<and> hot_keys cb' \<subseteq> hot_keys cb \<and> cb_msgs cb' = cb_msgs cb"
proof (cases "cb_use_hot cb")
  case False
  with inv show ?thesis by (auto simp: cb'_def layer_evict_once_def)
next
  case True
  have P: "pol_inv (cb_policy cb) (set (od_keys (cb_hot cb)))" "od_wf (cb_hot cb)" using inv unfolding cpu_on_def by blast+
  obtain p ks where c: "pol_candidates (ce_items env) (\<lambda>i. can_evict (hot_obj cb i)) 1 (cb_hot cb) (cb_policy cb) = (p, Inr ks)"
      "pol_inv p (set (od_keys (cb_hot cb)) - set ks)" "set ks \<subseteq> {k. \<exists>v. map_of (cb_hot cb) k = Some v \<and> can_evict (hot_obj cb v)}"
      "length ks = min (nat 1) (card {k. \<exists>v. map_of (cb_hot cb) k = Some v \<and> can_evict (hot_obj cb v)})"
    using policy_env.pol_contract [OF policy P zero_less_one, of "\<lambda>i. can_evict (hot_obj cb i)"] by blast
  have "length ks \<le> 1" using c(4) by simp
  then consider "ks = []" | k where "ks = [k]" by (cases ks) auto
  then show ?thesis
  proof cases
    case 1
    then have "cpu_on F (cb\<lparr>cb_policy := p\<rparr>)" using inv c(2) by (simp add: cpu_on_def hot_obj_def del: set_map)
    with 1 True c(1) show ?thesis by (auto simp: cb'_def layer_evict_once_def hot_keys_def)
  next
    case (2 k)
    then have "layers_idle cb k (split_layers k n)" using idle c(3) by (auto simp: evictable_def)
    then have E: "pol_inv p (set (od_keys (cb_hot cb)) - {k}) \<Longrightarrow>
      \<exists>F'. cpu_on F' (fst (evict_layers env split_layers n (cb\<lparr>cb_policy := p\<rparr>) [k])) \<and>
        hot_keys (fst (evict_layers env split_layers n (cb\<lparr>cb_policy := p\<rparr>) [k])) = hot_keys cb - set (split_layers k n) \<and>
        cb_msgs (fst (evict_layers env split_layers n (cb\<lparr>cb_policy := p\<rparr>) [k])) = cb_msgs cb"
      by (intro evict_layers_one [OF inv])
    have "cb' = fst (evict_layers env split_layers n (cb\<lparr>cb_policy := p\<rparr>) [k])"
      using True c(1) 2 by (auto simp: cb'_def layer_evict_once_def split: prod.split sum.split)
    with E 2 c(2) show ?thesis by (auto simp del: set_map evict_layers.simps)
  qed
qed

end

section \<open>The controller's view\<close>

definition cached_hashes :: "('k, 'h, 's, 'd) cpu_env \<Rightarrow> ('k, 'h, 's, 'd) cpu_backend \<Rightarrow> 'h set" where
  "cached_hashes env cb = ce_hash env ` {k. map_of (cb_hot cb) k \<noteq> None}"

text \<open>
  \<open>view\<close> relates the hashes \<open>R\<close> the messages leave at the controller to the cached keys \<open>C\<close>.
  Three auxiliary variables record what the messages miss: \<open>P\<close> lists the keys popped by
  \<open>remove\<close> whose EVICT is still to be sent (the lock is released in between), \<open>U\<close> holds the
  hashes the layerwise eviction dropped and nothing admitted since, and \<open>V\<close> the hashes of keys
  that were cached again while an EVICT of theirs was still to be sent, so that it overtakes.
\<close>

definition sole_hash :: "('k \<Rightarrow> 'h) \<Rightarrow> 'k \<Rightarrow> bool" where
  "sole_hash h k \<longleftrightarrow> (\<forall>k'. h k' = h k \<longrightarrow> k' = k)"

definition view :: "('k \<Rightarrow> 'h) \<Rightarrow> 'h set \<Rightarrow> 'k set \<Rightarrow> 'k list \<Rightarrow> 'h set \<Rightarrow> 'h set \<Rightarrow> bool" where
  "view h R C P U V \<longleftrightarrow> R \<subseteq> h ` C \<union> h ` set P \<union> U \<and>
     (\<forall>k. sole_hash h k \<and> h k \<notin> V \<longrightarrow>
        (h k \<in> R \<longleftrightarrow> k \<in> C \<or> k \<in> set P \<or> h k \<in> U) \<and>
        (k \<in> set P \<longrightarrow> k \<notin> C \<and> h k \<notin> U \<and> count_list P k = 1) \<and> (k \<in> C \<longrightarrow> h k \<notin> U))"

lemma sole_image: "sole_hash h k \<Longrightarrow> h k \<in> h ` S \<longleftrightarrow> k \<in> S"
  by (auto simp: sole_hash_def)

lemma sole_eq: "sole_hash h k \<Longrightarrow> h k = h k' \<longleftrightarrow> k = k'"
  by (auto simp: sole_hash_def)

lemma view_put:
  assumes "view h R C P U V"
  shows "view h (insert (h k) R) (insert k C) P (U - {h k}) (if h k \<in> h ` set P then insert (h k) V else V)"
  using assms by (auto simp: view_def sole_eq)

lemma view_pop:
  assumes "view h R C P U V" and "k \<in> C"
  shows "view h R (C - {k}) (P @ [k]) U V"
  using assms by (auto simp: view_def)

lemma count_list_remove1: "count_list (remove1 k P) k' = count_list P k' - (if k' = k then 1 else 0)"
  by (induction P) auto

lemma in_set_count: "k \<in> set P \<longleftrightarrow> 0 < count_list P k"
  by (induction P) auto

lemma view_send:
  assumes v: "view h R C P U V" and k: "k \<in> set P"
  shows "view h (R - {h k}) C (remove1 k P) U V"
  unfolding view_def
proof (intro conjI allI impI)
  show "R - {h k} \<subseteq> h ` C \<union> h ` set (remove1 k P) \<union> U"
  proof
    fix x assume x: "x \<in> R - {h k}"
    have "j \<in> set (remove1 k P)" if "j \<in> set P" "x = h j" for j
      using that x by (cases "j = k") auto
    with x v show "x \<in> h ` C \<union> h ` set (remove1 k P) \<union> U" by (auto simp: view_def)
  qed
  fix j assume j: "sole_hash h j \<and> h j \<notin> V"
  then have w: "h j \<in> R \<longleftrightarrow> j \<in> C \<or> j \<in> set P \<or> h j \<in> U"
    "j \<in> set P \<Longrightarrow> j \<notin> C \<and> h j \<notin> U \<and> count_list P j = 1" "j \<in> C \<Longrightarrow> h j \<notin> U"
    using v by (auto simp: view_def)
  have m: "j \<in> set (remove1 k P) \<longleftrightarrow> j \<in> set P \<and> j \<noteq> k"
    using w(2) k by (cases "j = k") (auto simp: in_set_count count_list_remove1)
  show "(h j \<in> R - {h k}) = (j \<in> C \<or> j \<in> set (remove1 k P) \<or> h j \<in> U)"
    using w k m j by (cases "j = k") (auto simp: sole_eq)
  show "j \<in> set (remove1 k P) \<Longrightarrow> j \<notin> C" "j \<in> set (remove1 k P) \<Longrightarrow> h j \<notin> U"
    "j \<in> set (remove1 k P) \<Longrightarrow> count_list (remove1 k P) j = 1"
    using w(2) m by (auto simp: count_list_remove1)
  show "j \<in> C \<Longrightarrow> h j \<notin> U" by (rule w(3))
qed

lemma view_evict:
  assumes "view h R C P U V" and "k \<in> C"
  shows "view h (R - {h k}) (C - {k}) P U V"
  using assms by (auto simp: view_def sole_eq)

lemma view_layers:
  assumes "view h R C P U V" and "D \<subseteq> C"
  shows "view h R D P (U \<union> h ` (C - D)) V"
proof -
  have "h ` C \<subseteq> h ` D \<union> h ` (C - D)" by blast
  then have "R \<subseteq> h ` D \<union> h ` set P \<union> (U \<union> h ` (C - D))" using assms(1) unfolding view_def by blast
  with assms show ?thesis by (auto simp: view_def sole_image)
qed

definition cpu_start :: "('s, 'd) mem_state \<Rightarrow> ('k, 'h) policy \<Rightarrow> bool \<Rightarrow> bool \<Rightarrow> bool \<Rightarrow> ('k, 'h, 's, 'd) cpu_backend" where
  "cpu_start m pol use_hot layerwise blending =
     \<lparr>cb_mem = m, cb_hot = [], cb_policy = pol, cb_keys_in_request = [], cb_use_hot = use_hot,
      cb_layerwise = layerwise, cb_blending = blending, cb_msgs = []\<rparr>"

inductive cpu_reachable ::
    "('k, 'h, 's, 'd) cpu_env \<Rightarrow> 'k list \<Rightarrow> 'h set \<Rightarrow> 'h set \<Rightarrow> ('k, 'h, 's, 'd) cpu_backend \<Rightarrow> bool" for env where
  start: "mem_reachable (mem_env_of env) F m \<Longrightarrow> get_cache_policy name = Inr pol
    \<Longrightarrow> cpu_reachable env [] {} {} (cpu_start m pol use_hot layerwise blending)"
| contains: "cpu_reachable env P U V cb \<Longrightarrow> cpu_reachable env P U V (fst (cpu_contains now cb k pin))"
| async_contains: "cpu_reachable env P U V cb
    \<Longrightarrow> cpu_reachable env P U V (fst (batched_async_contains now cb ks pin 0))"
| touch: "cpu_reachable env P U V cb \<Longrightarrow> cpu_reachable env P U V (fst (touch_cache env now cb))"
| put: "cpu_reachable env P U V cb \<Longrightarrow> i \<in> valid_ids (cb_mem cb) \<Longrightarrow> map_of (cb_hot cb) k = None
    \<Longrightarrow> cpu_reachable env P (U - {ce_hash env k})
          (if ce_hash env k \<in> ce_hash env ` set P then insert (ce_hash env k) V else V) (submit_put_task env now cb k i)"
| put_again: "cpu_reachable env P U V cb \<Longrightarrow> map_of (cb_hot cb) k \<noteq> None
    \<Longrightarrow> cpu_reachable env P U V (submit_put_task env now cb k i)"
| get: "cpu_reachable env P U V cb \<Longrightarrow> cpu_reachable env P U V (fst (get_blocking cb k))"
| batched_get: "cpu_reachable env P U V cb \<Longrightarrow> cpu_reachable env P U V (fst (batched_get_non_blocking cb ks []))"
| pin: "cpu_reachable env P U V cb \<Longrightarrow> cpu_reachable env P U V (fst (cpu_pin now cb k))"
| unpin: "cpu_reachable env P U V cb \<Longrightarrow> cpu_reachable env P U V (fst (cpu_unpin env cb k))"
| remove: "cpu_reachable env P U V cb \<Longrightarrow> remove_locked env cb k True = (cb', r)
    \<Longrightarrow> cpu_reachable env (if r = Inr True then P @ [k] else P) U V cb'"
| send: "cpu_reachable env P U V cb \<Longrightarrow> k \<in> set P \<Longrightarrow> cpu_reachable env (remove1 k P) U V (send_evict env cb k)"
| evict: "cpu_reachable env P U V cb \<Longrightarrow> cpu_reachable env P U V (fst (evict_once env cb))"
| allocate: "cpu_reachable env P U V cb \<Longrightarrow> adapt_shapes_and_dtypes shapes dtypes = Inr (ss, ds) \<Longrightarrow> ss \<noteq> []
    \<Longrightarrow> get_size_bytes (mem_env_of env) ss ds = Inr raw \<Longrightarrow> 0 < raw \<Longrightarrow> fmt \<in> set kv_formats
    \<Longrightarrow> cpu_reachable env P U V (fst (allocator_allocate env cb shapes dtypes fmt))"
| layer_evict: "cpu_reachable env P U V cb \<Longrightarrow> \<forall>c. evictable cb c \<longrightarrow> layers_idle cb c (split_layers c n)
    \<Longrightarrow> layer_evict_once env split_layers n cb = (cb', r)
    \<Longrightarrow> cpu_reachable env P (U \<union> ce_hash env ` (hot_keys cb - hot_keys cb')) V cb'"
| batched_allocate: "cpu_reachable env P U V cb \<Longrightarrow> adapt_shapes_and_dtypes shapes dtypes = Inr (ss, ds) \<Longrightarrow> ss \<noteq> []
    \<Longrightarrow> get_size_bytes (mem_env_of env) ss ds = Inr raw \<Longrightarrow> 0 < raw \<Longrightarrow> 0 < n \<Longrightarrow> fmt \<in> set kv_formats
    \<Longrightarrow> cpu_reachable env P U V (fst (allocator_batched_allocate env cb shapes dtypes n fmt))"
| caller_release: "cpu_reachable env P U V cb \<Longrightarrow> i < length (t_objs (cb_mem cb))
    \<Longrightarrow> int (card (holders (cb_hot cb) i)) < mo_ref_count (hot_obj cb i)
    \<Longrightarrow> cpu_reachable env P U V (cb\<lparr>cb_mem := ref_count_down (mem_env_of env) (cb_mem cb) i\<rparr>)"
| monitor: "cpu_reachable env P U V cb \<Longrightarrow> check_timeouts (mem_env_of env) now T (cb_mem cb) = Some (m, a, b, c)
    \<Longrightarrow> cpu_reachable env P U V (cb\<lparr>cb_mem := m\<rparr>)"

lemma pol_hit_step:
  fixes d :: "('k, 'v) odict" and items :: "(int \<times> 'k list) list \<Rightarrow> (int \<times> 'k list) list"
  assumes env: "policy_env items" and inv: "pol_inv p (set (od_keys d))" and wf: "od_wf d"
    and r: "pol_hit hash t k d p = (p', r)"
  shows "case r of Inl e \<Rightarrow> pol_inv p' (set (od_keys d))
    | Inr d' \<Rightarrow> pol_inv p' (set (od_keys d)) \<and> od_wf d' \<and> map_of d' = map_of d"
proof (cases "k \<in> set (od_keys d)")
  case True
  with policy_env.pol_hit_keeps [OF env inv wf, of k hash t] r show ?thesis by auto
next
  case False
  then have n: "map_of d k = None" by (simp only: map_of_None_keys) simp
  show ?thesis
  proof (cases p)
    case (LFU s)
    then have "map_of (key_to_freq s) k = None"
      using inv False lfu_inv_key [of s "set (od_keys d)" k] by (auto simp: pol_inv_def simp del: set_map)
    with LFU inv r show ?thesis by (auto simp: pol_hit_def lfu_on_hit_def)
  qed (use n r wf in \<open>auto simp: pol_hit_def pol_inv_def lru_on_hit_def mru_on_hit_def od_move_to_end_def\<close>)
qed

lemma get_cache_policy_inv: "get_cache_policy name = Inr pol \<Longrightarrow> pol_inv pol {}"
  by (auto simp: get_cache_policy_def Let_def pol_inv_def lfu_inv_def lfu_init_def buckets_ok_def bucket_of_def
      split: if_splits)

definition same_cache :: "('k, 'h, 's, 'd) cpu_backend \<Rightarrow> ('k, 'h, 's, 'd) cpu_backend \<Rightarrow> bool" where
  "same_cache cb cb' \<longleftrightarrow> map_of (cb_hot cb') = map_of (cb_hot cb) \<and> cb_msgs cb' = cb_msgs cb"

definition view_ok :: "('k, 'h, 's, 'd) cpu_env \<Rightarrow> 'k list \<Rightarrow> 'h set \<Rightarrow> 'h set \<Rightarrow> ('k, 'h, 's, 'd) cpu_backend \<Rightarrow> bool" where
  "view_ok env P U V cb \<longleftrightarrow> view (ce_hash env) (replay_msgs (cb_msgs cb) {}) (hot_keys cb) P U V"

lemma same_cache_view: "same_cache cb cb' \<Longrightarrow> view_ok env P U V cb \<Longrightarrow> view_ok env P U V cb'"
  by (simp add: same_cache_def view_ok_def hot_keys_def)

lemma view_ok_mem [simp]: "view_ok env P U V (cb\<lparr>cb_mem := m\<rparr>) = view_ok env P U V cb"
  by (simp add: view_ok_def hot_keys_def)

lemma same_cache_lookups:
  "same_cache cb (fst (cpu_contains now cb k pin))" "same_cache cb (fst (get_blocking cb k))"
  "same_cache cb (fst (cpu_pin now cb k))" "same_cache cb (fst (cpu_unpin env cb k))"
  by (auto simp: same_cache_def cpu_contains_def get_blocking_def cpu_pin_def cpu_unpin_def split: option.splits)

lemma same_cache_async: "same_cache cb (fst (batched_async_contains now cb ks pin n))"
proof (induction now cb ks pin n rule: batched_async_contains.induct)
  case (2 now cb key keys pin n)
  then show ?case by (auto simp: same_cache_def split: option.splits)
qed (simp add: same_cache_def)

lemma same_cache_batched_get: "same_cache cb (fst (batched_get_non_blocking cb ks acc))"
proof (induction cb ks acc rule: batched_get_non_blocking.induct)
  case (2 cb key keys acc)
  then show ?case by (auto simp: same_cache_def split: option.splits)
qed (simp add: same_cache_def)

context cpu_backend_env
begin

lemma touch_keys_inv:
  "cpu_on F cb \<Longrightarrow> cpu_on F (fst (touch_keys env now ks cb)) \<and> same_cache cb (fst (touch_keys env now ks cb))"
proof (induction ks arbitrary: cb)
  case (Cons k ks)
  have P: "pol_inv (cb_policy cb) (set (od_keys (cb_hot cb)))" "od_wf (cb_hot cb)"
    using Cons.prems unfolding cpu_on_def by blast+
  obtain p r where pr: "pol_hit (ce_hash env) now k (cb_hot cb) (cb_policy cb) = (p, r)" by fastforce
  note H = pol_hit_step [OF policy P pr]
  show ?case
  proof (cases r)
    case (Inl e)
    then have "cpu_on F (cb\<lparr>cb_policy := p\<rparr>)"
      using Cons.prems H by (simp add: cpu_on_def hot_obj_def del: set_map)
    with Inl pr show ?thesis by (simp add: same_cache_def)
  next
    case (Inr d)
    have keys: "set (od_keys d) = set (od_keys (cb_hot cb))"
      by (rule set_eqI) (use H Inr in \<open>simp only: od_key sum.case\<close>)
    have "cpu_on F (cb\<lparr>cb_policy := p, cb_hot := d\<rparr>)"
      using Cons.prems H Inr keys by (simp add: cpu_on_def hot_obj_def holders_def del: set_map)
    from Cons.IH [OF this] H Inr pr show ?thesis by (simp add: same_cache_def)
  qed
qed (simp add: same_cache_def)

lemma touch_cache_inv:
  assumes "cpu_on F cb"
  shows "cpu_on F (fst (touch_cache env now cb)) \<and> same_cache cb (fst (touch_cache env now cb))"
  using touch_keys_inv [OF assms, of now "rev (cb_keys_in_request cb)"]
  by (auto simp: touch_cache_def same_cache_def split: prod.splits sum.splits)

lemma put_view:
  assumes "view_ok env P U V cb" and "map_of (cb_hot cb) k = None"
  shows "view_ok env P (U - {ce_hash env k})
    (if ce_hash env k \<in> ce_hash env ` set P then insert (ce_hash env k) V else V) (submit_put_task env now cb k i)"
proof -
  have "hot_keys (submit_put_task env now cb k i) = insert k (hot_keys cb)"
    using assms(2) by (auto simp: submit_put_task_def hot_keys_def)
  moreover have "cb_msgs (submit_put_task env now cb k i) = cb_msgs cb @ [(ADMIT, ce_hash env k)]"
    using assms(2) by (simp add: submit_put_task_def)
  ultimately show ?thesis using view_put [OF assms(1) [unfolded view_ok_def], of k] by (simp add: view_ok_def)
qed

lemma remove_view_step:
  assumes inv: "cpu_on F cb" and v: "view_ok env P U V cb" and r: "remove_locked env cb k True = (cb', r)"
  shows "cpu_on F cb' \<and> view_ok env (if r = Inr True then P @ [k] else P) U V cb'"
proof (cases "map_of (cb_hot cb) k")
  case None
  with inv v r show ?thesis by (auto simp: remove_locked_def)
next
  case (Some i)
  have "k \<in> set (od_keys (cb_hot cb))" using Some by (rule map_of_Some_key)
  then obtain p where p: "pol_force_evict k (cb_policy cb) = Inr p" "pol_inv p (set (od_keys (cb_hot cb)) - {k})"
    using policy_env.pol_force_keeps [OF policy, of "cb_policy cb" "set (od_keys (cb_hot cb))" k] inv
    unfolding cpu_on_def by blast
  define cb1 where "cb1 = cb\<lparr>cb_hot := AList.delete k (cb_hot cb),
    cb_mem := ref_count_down (mem_env_of env) (cb_mem cb) i, cb_policy := p\<rparr>"
  have r': "cb' = cb1" "r = Inr True" using r Some p(1) by (simp_all add: remove_locked_def Let_def cb1_def)
  have "hot_keys cb1 = hot_keys cb - {k}" "cb_msgs cb1 = cb_msgs cb" "k \<in> hot_keys cb"
    using Some by (auto simp: hot_keys_def cb1_def)
  then have "view_ok env (P @ [k]) U V cb1" using view_pop [OF v [unfolded view_ok_def], of k] by (simp add: view_ok_def)
  with drop_cached_inv [OF inv Some p(2)] show ?thesis by (simp add: r' cb1_def)
qed

lemma evict_step:
  assumes inv: "cpu_on F cb" and v: "view_ok env P U V cb"
  shows "cpu_on F (fst (evict_once env cb)) \<and> view_ok env P U V (fst (evict_once env cb))"
  using evict_once_ok [OF inv]
proof (elim disjE exE conjE)
  fix cb' assume *: "evict_once env cb = (cb', Inr 0)" "cpu_on F cb'" "cb_hot cb' = cb_hot cb" "cb_msgs cb' = cb_msgs cb"
  with v show ?thesis by (simp add: view_ok_def hot_keys_def)
next
  fix cb' k assume *: "evict_once env cb = (cb', Inr 1)" "cpu_on F cb'" "evictable cb k"
    "cb_hot cb' = AList.delete k (cb_hot cb)" "cb_msgs cb' = cb_msgs cb @ [(EVICT, ce_hash env k)]"
  then have "hot_keys cb' = hot_keys cb - {k}" "k \<in> hot_keys cb" by (auto simp: hot_keys_def evictable_def)
  with * view_evict [OF v [unfolded view_ok_def], of k] show ?thesis by (simp add: view_ok_def)
qed

lemma allocator_batched_step:
  assumes inv: "cpu_on F cb" and ad: "adapt_shapes_and_dtypes shapes dtypes = Inr (ss, ds)" "ss \<noteq> []"
    and raw: "get_size_bytes (mem_env_of env) ss ds = Inr raw" "0 < raw" and n: "0 < n" and fmt: "fmt \<in> set kv_formats"
  shows "\<exists>m. fst (allocator_batched_allocate env cb shapes dtypes n fmt) = cb\<lparr>cb_mem := m\<rparr> \<and> cpu_on F (cb\<lparr>cb_mem := m\<rparr>)"
proof -
  have fmt': "fmt \<noteq> BINARY_BUFFER" using fmt by (auto simp: kv_formats_def)
  have mi: "mem_on F (cb_mem cb)" and ta: "talloc_inv (cb_mem cb)" using inv by (simp_all add: cpu_on_def mem_on_def)
  obtain m r where al: "t_batched_allocate (mem_env_of env) (cb_mem cb) shapes dtypes n fmt = (m, r)" by fastforce
  have "m = cb_mem cb \<or> (\<exists>is. r = Inr (Some is))"
    using al ad raw by (auto simp: t_batched_allocate_def Let_def split: sum.splits prod.splits if_splits)
  then have "cpu_on F (cb\<lparr>cb_mem := m\<rparr>)"
  proof (elim disjE exE)
    assume "m = cb_mem cb"
    with inv show ?thesis by simp
  next
    fix "is" assume "r = Inr (Some is)"
    note A = tensor_env.t_batched_allocate_facts [OF tensor ta raw n al [unfolded this] ad(1)]
    have "mem_on F m"
    proof (rule tensor_env.alloc_mem_inv [OF tensor mi A(1)])
      fix x assume "length (t_objs (cb_mem cb)) \<le> x" "x < length (t_objs m)"
      then obtain d where "x = length (t_objs (cb_mem cb)) + d" "d < nat n" using A(6) le_Suc_ex by fastforce
      then show "counts_ok (t_objs m ! x) \<and> mo_pin_count (t_objs m ! x) = 0"
        using A(5) by (auto simp: Let_def counts_ok_mk_obj)
    qed (use A alloc_keeps_monitor(2) [OF al] in auto)
    then show ?thesis by (rule cpu_inv_mem [OF inv]) (use A in \<open>auto simp: hot_obj_def\<close>)
  qed
  with al fmt fmt' show ?thesis by (auto simp: allocator_batched_allocate_def)
qed

lemma unpin_op_on: "cpu_on F cb \<Longrightarrow> cpu_on F (fst (cpu_unpin env cb k))"
proof (cases "map_of (cb_hot cb) k")
  case (Some i)
  assume inv: "cpu_on F cb"
  note C = cpu_inv_cached [OF inv Some]
  note U = tensor_env.mem_unpin_facts [OF tensor C(4,1)]
  have "cpu_on F (cb\<lparr>cb_mem := mem_unpin (mem_env_of env) (cb_mem cb) i\<rparr>)"
  proof (rule cpu_inv_mem [OF inv U(1)])
    fix j show "mo_ref_count (hot_obj cb j) \<le> mo_ref_count (t_objs (mem_unpin (mem_env_of env) (cb_mem cb) i) ! j)"
      using U(4,5) by (cases "j = i") (simp_all add: hot_obj_def)
  qed (use U(2) in simp)
  with Some show ?thesis by (simp add: cpu_unpin_def)
qed (simp add: cpu_unpin_def)

lemma caller_release_on:
  assumes inv: "cpu_on F cb" and i: "i < length (t_objs (cb_mem cb))"
    and r: "int (card (holders (cb_hot cb) i)) < mo_ref_count (hot_obj cb i)"
  shows "cpu_on F (cb\<lparr>cb_mem := ref_count_down (mem_env_of env) (cb_mem cb) i\<rparr>)"
proof -
  have mi: "mem_on F (cb_mem cb)" using inv by (simp add: cpu_on_def)
  let ?m = "ref_count_down (mem_env_of env) (cb_mem cb) i"
  note R = ref_down_facts [OF mi i]
  have "int (card (holders (cb_hot cb) j)) \<le> mo_ref_count (t_objs ?m ! j)" if "j < length (t_objs (cb_mem cb))" for j
    using that R(3,4) inv r by (cases "j = i") (auto simp: cpu_on_def hot_obj_def)
  then show ?thesis using inv R(1,2) by (simp add: cpu_on_def hot_obj_def)
qed

lemma monitor_on:
  assumes inv: "cpu_on F cb" and r: "check_timeouts (mem_env_of env) now T (cb_mem cb) = Some (m, a, b, c)"
  shows "cpu_on F (cb\<lparr>cb_mem := m\<rparr>)"
proof -
  have mi: "mem_on F (cb_mem cb)" using inv by (simp add: cpu_on_def)
  obtain m' where "force_all (mem_env_of env) (cb_mem cb) (timeout_objects now T (cb_mem cb)) = Some m'" "mem_on F m'"
      "length (t_objs m') = length (t_objs (cb_mem cb))" "\<forall>j. mo_ref_count (t_objs m' ! j) = mo_ref_count (t_objs (cb_mem cb) ! j)"
    using tensor_env.force_all_facts [OF tensor mi tensor_env.timeout_objects_iff(2) [OF tensor mi]] by blast
  with r have m: "mem_on F m" "length (t_objs m) = length (t_objs (cb_mem cb))"
      "\<forall>j. mo_ref_count (t_objs m ! j) = mo_ref_count (t_objs (cb_mem cb) ! j)"
    by (auto simp: check_timeouts_def Let_def)
  show ?thesis by (rule cpu_inv_mem [OF inv m(1)]) (simp_all add: m hot_obj_def)
qed

lemma allocate_step:
  assumes inv: "cpu_on F cb" and v: "view_ok env P U V cb"
    and ad: "adapt_shapes_and_dtypes shapes dtypes = Inr (ss, ds)" "ss \<noteq> []"
    and raw: "get_size_bytes (mem_env_of env) ss ds = Inr raw" "0 < raw" and fmt: "fmt \<in> set kv_formats"
  shows "cpu_on F (fst (allocator_allocate env cb shapes dtypes fmt)) \<and>
    view_ok env P U V (fst (allocator_allocate env cb shapes dtypes fmt))"
  using allocator_allocate_ok [OF inv ad raw fmt] inv v
  by (elim disjE exE conjE) (simp_all add: view_ok_def hot_keys_def)

lemma layer_evict_step:
  assumes v: "view_ok env P U V cb" and k: "hot_keys cb' \<subseteq> hot_keys cb" and m: "cb_msgs cb' = cb_msgs cb"
  shows "view_ok env P (U \<union> ce_hash env ` (hot_keys cb - hot_keys cb')) V cb'"
  using view_layers [OF v [unfolded view_ok_def] k] by (simp add: view_ok_def m)

lemma cpu_start_ok:
  assumes "mem_reachable (mem_env_of env) F m" and "get_cache_policy name = Inr pol"
  shows "cpu_on F (cpu_start m pol use_hot layerwise blending) \<and> view_ok env [] {} {} (cpu_start m pol use_hot layerwise blending)"
proof -
  have m: "mem_on F m" by (rule tensor_env.mem_reachable_on [OF tensor assms(1)])
  have "0 \<le> mo_ref_count (t_objs m ! i)" if "i < length (t_objs m)" for i
    using mem_on_obj(1) [OF m that] by (simp add: counts_on_def)
  with m get_cache_policy_inv [OF assms(2)] show ?thesis
    by (auto simp: cpu_on_def view_ok_def view_def hot_keys_def holders_def hot_obj_def cpu_start_def)
qed

lemma same_cache_step:
  assumes "(\<exists>F. cpu_on F cb) \<and> view_ok env P U V cb" and "same_cache cb cb'" and "\<And>F. cpu_on F cb \<Longrightarrow> cpu_on F cb'"
  shows "(\<exists>F. cpu_on F cb') \<and> view_ok env P U V cb'"
  using assms same_cache_view [OF assms(2)] by blast

lemma cpu_reachable_on:
  assumes "cpu_reachable env P U V cb"
  shows "(\<exists>F. cpu_on F cb) \<and> view_ok env P U V cb"
  using assms
proof induction
  case (start F m name pol use_hot layerwise blending)
  then show ?case using cpu_start_ok by blast
next
  case (contains P U V cb now k pin)
  show ?case by (rule same_cache_step [OF contains.IH same_cache_lookups(1)]) (rule cpu_contains_inv)
next
  case (async_contains P U V cb now ks pin)
  show ?case by (rule same_cache_step [OF async_contains.IH same_cache_async]) (rule batched_async_contains_inv)
next
  case (touch P U V cb now)
  then show ?case using touch_cache_inv same_cache_view by blast
next
  case (put P U V cb i k now)
  then obtain F where F: "cpu_on F cb" by blast
  have "cpu_on F (submit_put_task env now cb k i)"
    using put.hyps(2) by (intro submit_put_inv [OF F _ _ policy]) (simp_all add: valid_ids_def hot_obj_def)
  with put_view [OF _ put.hyps(3)] put.IH show ?case by blast
next
  case (put_again P U V cb k now i)
  then show ?case by (simp add: submit_put_task_def)
next
  case (get P U V cb k)
  show ?case by (rule same_cache_step [OF get.IH same_cache_lookups(2)]) (rule get_blocking_inv)
next
  case (batched_get P U V cb ks)
  show ?case by (rule same_cache_step [OF batched_get.IH same_cache_batched_get]) (rule batched_get_inv)
next
  case (pin P U V cb now k)
  show ?case by (rule same_cache_step [OF pin.IH same_cache_lookups(3)]) (rule cpu_pin_op_inv)
next
  case (unpin P U V cb k)
  show ?case by (rule same_cache_step [OF unpin.IH same_cache_lookups(4)]) (rule unpin_op_on)
next
  case (remove P U V cb k cb' r)
  then show ?case using remove_view_step by blast
next
  case (send P U V cb k)
  have "view_ok env (remove1 k P) U V (send_evict env cb k)"
    using view_send [of "ce_hash env", OF _ send.hyps(2)] send.IH by (simp add: view_ok_def send_evict_def hot_keys_def)
  with send.IH show ?case by (auto simp: send_evict_def)
next
  case (evict P U V cb)
  then show ?case using evict_step by blast
next
  case (allocate P U V cb shapes dtypes ss ds raw fmt)
  then show ?case using allocate_step [OF _ _ allocate.hyps(2-6)] by blast
next
  case (layer_evict P U V cb split_layers n cb' r)
  then obtain F where "cpu_on F cb" by blast
  from layer_evict_ok [OF this, of split_layers n] layer_evict.hyps(2,3)
  have "\<exists>F'. cpu_on F' cb'" "hot_keys cb' \<subseteq> hot_keys cb" "cb_msgs cb' = cb_msgs cb" by simp_all
  with layer_evict_step layer_evict.IH show ?case by blast
next
  case (batched_allocate P U V cb shapes dtypes ss ds raw n fmt)
  then obtain F where F: "cpu_on F cb" and v: "view_ok env P U V cb" by blast
  obtain m where "fst (allocator_batched_allocate env cb shapes dtypes n fmt) = cb\<lparr>cb_mem := m\<rparr>" "cpu_on F (cb\<lparr>cb_mem := m\<rparr>)"
    using allocator_batched_step [OF F batched_allocate.hyps(2-7)] by blast
  with v show ?case by auto
next
  case (caller_release P U V cb i)
  then show ?case using caller_release_on by (metis view_ok_mem)
next
  case (monitor P U V cb now T m a b c)
  then show ?case using monitor_on by (metis view_ok_mem)
qed

end

lemma view_okD:
  assumes "view_ok env P U V cb"
  shows "replay_msgs (cb_msgs cb) {} \<subseteq> ce_hash env ` (set (get_keys cb) \<union> set P) \<union> U"
    and "\<forall>k. sole_hash (ce_hash env) k \<and> ce_hash env k \<notin> V \<longrightarrow>
       (ce_hash env k \<in> replay_msgs (cb_msgs cb) {} \<longleftrightarrow> k \<in> set (get_keys cb) \<union> set P \<or> ce_hash env k \<in> U)"
proof -
  have keys: "set (get_keys cb) = hot_keys cb"
    by (rule set_eqI) (simp only: get_keys_def od_key mem_Collect_eq not_None_eq hot_keys_def)
  show "replay_msgs (cb_msgs cb) {} \<subseteq> ce_hash env ` (set (get_keys cb) \<union> set P) \<union> U"
    and "\<forall>k. sole_hash (ce_hash env) k \<and> ce_hash env k \<notin> V \<longrightarrow>
       (ce_hash env k \<in> replay_msgs (cb_msgs cb) {} \<longleftrightarrow> k \<in> set (get_keys cb) \<union> set P \<or> ce_hash env k \<in> U)"
    using assms unfolding view_ok_def view_def keys by auto
qed

definition ref_cpu_env :: "(nat, nat, int list, int) cpu_env" where
  "ref_cpu_env = \<lparr>ce_alloc = ref_alloc_env, ce_items = ref_items, ce_hash = id\<rparr>"

lemma ref_cpu_mem_env: "mem_env_of ref_cpu_env = ref_mem_env"
  by (simp add: ref_cpu_env_def ref_alloc_env_mem)

lemma cpu_backend_envI:
  assumes "sl_spec (mem_env_of env)" and "chunk_spec (mem_env_of env)" and "sorted_dict (ce_items env)"
  shows "cpu_backend_env env"
  using assms
  by (simp add: cpu_backend_env_def tensor_env_def tensor_env_axioms_def memory_env_def policy_env_def)

lemma ref_cpu_backend: "cpu_backend_env ref_cpu_env"
proof (rule cpu_backend_envI)
  show "sl_spec (mem_env_of ref_cpu_env)" unfolding ref_cpu_mem_env by (rule ref_mem_env_sl)
  show "chunk_spec (mem_env_of ref_cpu_env)" unfolding ref_cpu_mem_env by (rule ref_mem_env_chunk)
  show "sorted_dict (ce_items ref_cpu_env)" by (simp add: ref_cpu_env_def ref_sd.sorted_dict_axioms)
qed

interpretation ref_cpu: cpu_backend_env ref_cpu_env
  by (rule ref_cpu_backend)

definition demo_cpu :: "(nat, nat, int list, int) cpu_backend" where
  "demo_cpu = submit_put_task ref_cpu_env 9 (cpu_start demo_mem FIFO True False False) 7 0"

lemma demo_cpu_reachable: "cpu_reachable ref_cpu_env [] {} {} demo_cpu"
proof -
  have "mem_reachable (mem_env_of ref_cpu_env) {} demo_mem" unfolding ref_cpu_mem_env by (rule demo_mem_reachable)
  moreover have "get_cache_policy ''fifo'' = (Inr FIFO :: (nat, nat) policy result)" by code_simp
  ultimately have "cpu_reachable ref_cpu_env [] {} {} (cpu_start demo_mem FIFO True False False)" by (rule cpu_reachable.start)
  moreover have "length (t_objs demo_mem) = 1 \<and> mo_valid (t_objs demo_mem ! 0)" by code_simp
  then have "0 \<in> valid_ids (cb_mem (cpu_start demo_mem FIFO True False False :: (nat, nat, int list, int) cpu_backend))"
    by (simp add: valid_ids_def cpu_start_def)
  ultimately show ?thesis
    using cpu_reachable.put [of ref_cpu_env "[]" "{}" "{}" "cpu_start demo_mem FIFO True False False" 0 7 9]
    by (simp add: demo_cpu_def cpu_start_def)
qed

lemma demo_cpu_inv: "cpu_inv demo_cpu"
  unfolding demo_cpu_def
proof (rule submit_put_inv)
  have m: "mem_inv demo_mem" by (rule ref_tensor.mem_reachable_on [OF demo_mem_reachable])
  then show "cpu_inv (cpu_start demo_mem FIFO True False False :: (nat, nat, int list, int) cpu_backend)"
    by (auto simp: cpu_on_def cpu_start_def holders_def hot_obj_def pol_inv_def mem_inv_def counts_ok_def)
  have "length (t_objs demo_mem) = 1 \<and> mo_valid (t_objs demo_mem ! 0)" by code_simp
  then show "0 < length (t_objs (cb_mem (cpu_start demo_mem FIFO True False False :: (nat, nat, int list, int) cpu_backend)))"
    and "mo_valid (hot_obj (cpu_start demo_mem FIFO True False False :: (nat, nat, int list, int) cpu_backend) 0)"
    by (simp_all add: cpu_start_def hot_obj_def)
  show "policy_env (ce_items ref_cpu_env)" by (rule ref_cpu.policy)
qed

section \<open>Properties\<close>

text \<open>
  C10: In every state the backend reaches through the steps of its operations, each under its lock
  (lookups, puts, the locked part and the message of \<open>remove\<close> as two steps, evictions and
  allocations of \<open>allocate\<close> in any order and however often the loop waits, the layerwise
  evictions of \<open>batched_allocate\<close>, callers releasing references of their own, the pin
  monitor), under any policy: every cached key leads to a valid object that holds a region no
  other valid object overlaps, and each object has at least one reference per key it is cached
  under. The messages never make the controller store a hash unless a key of that hash is
  cached, was popped by a \<open>remove\<close> whose EVICT is still to come (\<open>P\<close>), or was dropped by a
  layerwise eviction, which sends none (\<open>U\<close>). For a key that shares its hash with no other
  key, and was not cached again before the EVICT of an earlier \<open>remove\<close> was sent (\<open>V\<close>), the
  controller stores the hash exactly in these three cases. A layerwise eviction takes place only
  when every layer of the chunk is cached and may be evicted, as the code assumes.
\<close>

theorem cpu_cache_invariant:
  assumes "sl_spec (mem_env_of env)" and "chunk_spec (mem_env_of env)" and "sorted_dict (ce_items env)"
    and "cpu_reachable env P U V cb"
  shows "(\<forall>k i. map_of (cb_hot cb) k = Some i \<longrightarrow> i \<in> valid_ids (cb_mem cb) \<and>
       int (card {k'. map_of (cb_hot cb) k' = Some i}) \<le> mo_ref_count (hot_obj cb i) \<and>
       (\<forall>j \<in> valid_ids (cb_mem cb). i \<noteq> j \<longrightarrow> span (obj_region (cb_mem cb) i) \<inter> span (obj_region (cb_mem cb) j) = {})) \<and>
    replay_msgs (cb_msgs cb) {} \<subseteq> ce_hash env ` (set (get_keys cb) \<union> set P) \<union> U \<and>
    (\<forall>k. sole_hash (ce_hash env) k \<and> ce_hash env k \<notin> V \<longrightarrow>
       (ce_hash env k \<in> replay_msgs (cb_msgs cb) {} \<longleftrightarrow> k \<in> set (get_keys cb) \<union> set P \<or> ce_hash env k \<in> U))"
proof -
  have env: "cpu_backend_env env" using assms(1-3) by (rule cpu_backend_envI)
  obtain F where inv: "cpu_on F cb" and v: "view_ok env P U V cb"
    using cpu_backend_env.cpu_reachable_on [OF env assms(4)] by blast
  have live: "live_ok (free_addrs (t_am (cb_mem cb))) (am_size (t_am (cb_mem cb))) (valid_ids (cb_mem cb)) (obj_region (cb_mem cb))"
    using inv by (simp add: cpu_on_def mem_on_def talloc_inv_def)
  have "i \<in> valid_ids (cb_mem cb)" if "map_of (cb_hot cb) k = Some i" for k i
    using cpu_inv_cached [OF inv that] by (simp add: valid_ids_def hot_obj_def)
  moreover have "int (card {k'. map_of (cb_hot cb) k' = Some i}) \<le> mo_ref_count (hot_obj cb i)"
    if "map_of (cb_hot cb) k = Some i" for k i
    using cpu_inv_cached(1) [OF inv that] inv by (simp add: cpu_on_def holders_def)
  moreover have "span (obj_region (cb_mem cb) i) \<inter> span (obj_region (cb_mem cb) j) = {}"
    if "i \<in> valid_ids (cb_mem cb)" "j \<in> valid_ids (cb_mem cb)" "i \<noteq> j" for i j
    using live that unfolding live_ok_def by blast
  moreover note view_okD [OF v]
  ultimately show ?thesis by blast
qed

theorem cpu_cache_invariant_witness:
  "replay_msgs (cb_msgs demo_cpu) {} = {7} \<and> 0 \<in> valid_ids (cb_mem demo_cpu)"
proof -
  have k: "get_keys demo_cpu = [7]" and "map_of (cb_hot demo_cpu) 7 = Some 0" by code_simp+
  moreover have "sl_spec (mem_env_of ref_cpu_env)" unfolding ref_cpu_mem_env by (rule ref_mem_env_sl)
  moreover have "chunk_spec (mem_env_of ref_cpu_env)" unfolding ref_cpu_mem_env by (rule ref_mem_env_chunk)
  moreover have "sorted_dict (ce_items ref_cpu_env)" "sole_hash (ce_hash ref_cpu_env) 7" "ce_hash ref_cpu_env 7 = 7"
    by (simp_all add: ref_cpu_env_def ref_sd.sorted_dict_axioms sole_hash_def)
  ultimately have "replay_msgs (cb_msgs demo_cpu) {} \<subseteq> {7}" "7 \<in> replay_msgs (cb_msgs demo_cpu) {}" "0 \<in> valid_ids (cb_mem demo_cpu)"
    using cpu_cache_invariant [of ref_cpu_env "[]" "{}" "{}" demo_cpu] demo_cpu_reachable by auto
  then show ?thesis by auto
qed

text \<open>
  \<open>remove\<close> releases the lock before it sends its EVICT. When the key is cached again in between,
  the ADMIT of the new copy goes out first and the EVICT then takes it back: the key stays
  cached and the controller does not know it.
\<close>

theorem overtaken_eviction_hides_key:
  assumes "remove_locked env cb k True = (cb1, Inr True)" and "map_of (cb_hot cb1) k = None"
  shows "let cb2 = send_evict env (submit_put_task env now cb1 k i) k
    in map_of (cb_hot cb2) k = Some i \<and> ce_hash env k \<notin> replay_msgs (cb_msgs cb2) {}"
  using assms by (simp add: send_evict_def submit_put_task_def)

text \<open>
  C26: An allocation that may evict and may not wait (\<open>busy_loop=False\<close>) always comes to an end, for
  a tensor format and a size above zero. It returns a fresh valid object with one reference, or
  \<open>None\<close>; with \<open>use_hot\<close> it returns \<open>None\<close> only when no cached object is left that may be
  evicted, without it nothing is ever evicted. Whatever it evicts, every object that was pinned
  or in use by a caller stays cached under its keys, unchanged, and nothing is added to the
  cache. With the default \<open>busy_loop=True\<close> the loop waits for what other threads do and need not
  end; when it ends, the result is an object or an error, never \<open>None\<close>.
\<close>

theorem cpu_allocate_evicts_safely:
  assumes "sl_spec (mem_env_of env)" and "chunk_spec (mem_env_of env)" and "sorted_dict (ce_items env)"
    and "cpu_on F cb" and "adapt_shapes_and_dtypes shapes dtypes = Inr (ss, ds)" and "ss \<noteq> []"
    and "get_size_bytes (mem_env_of env) ss ds = Inr raw" and "0 < raw" and "default_fmt cb fmt \<in> set kv_formats"
  shows "(\<exists>cb' r. cpu_allocate env others cb shapes dtypes fmt True False = Some (cb', r) \<and> cpu_on F cb' \<and>
    ((r = Inr None \<and> (cb_use_hot cb \<longrightarrow> (\<forall>k i. map_of (cb_hot cb') k = Some i \<longrightarrow> \<not> can_evict (hot_obj cb' i)))) \<or>
     (\<exists>j. r = Inr (Some (PinObj j)) \<and> length (t_objs (cb_mem cb)) \<le> j \<and> mo_valid (hot_obj cb' j) \<and>
        mo_ref_count (hot_obj cb' j) = 1)) \<and>
    (\<forall>k i. map_of (cb_hot cb) k = Some i \<and> \<not> can_evict (hot_obj cb i) \<longrightarrow>
       map_of (cb_hot cb') k = Some i \<and> hot_obj cb' i = hot_obj cb i) \<and>
    (\<forall>k i. map_of (cb_hot cb') k = Some i \<longrightarrow> map_of (cb_hot cb) k = Some i)) \<and>
    (\<forall>cb'' r'. cpu_allocate env others cb shapes dtypes fmt True True = Some (cb'', r') \<longrightarrow> r' \<noteq> Inr None)"
proof (rule conjI)
  have env: "cpu_backend_env env" using assms(1-3) by (rule cpu_backend_envI)
  obtain cb' r where r: "cpu_allocate env others cb shapes dtypes fmt True False = Some (cb', r)" "alloc_done F cb cb' r"
    using cpu_backend_env.cpu_allocate_ok [OF env assms(4-9)] by blast
  have "protected_kept cb cb'" using r(2) by (simp add: alloc_done_def)
  with r show "\<exists>cb' r. cpu_allocate env others cb shapes dtypes fmt True False = Some (cb', r) \<and> cpu_on F cb' \<and>
    ((r = Inr None \<and> (cb_use_hot cb \<longrightarrow> (\<forall>k i. map_of (cb_hot cb') k = Some i \<longrightarrow> \<not> can_evict (hot_obj cb' i)))) \<or>
     (\<exists>j. r = Inr (Some (PinObj j)) \<and> length (t_objs (cb_mem cb)) \<le> j \<and> mo_valid (hot_obj cb' j) \<and>
        mo_ref_count (hot_obj cb' j) = 1)) \<and>
    (\<forall>k i. map_of (cb_hot cb) k = Some i \<and> \<not> can_evict (hot_obj cb i) \<longrightarrow>
       map_of (cb_hot cb') k = Some i \<and> hot_obj cb' i = hot_obj cb i) \<and>
    (\<forall>k i. map_of (cb_hot cb') k = Some i \<longrightarrow> map_of (cb_hot cb) k = Some i)"
    unfolding alloc_done_def protected_kept_def evictable_def by blast
  show "\<forall>cb'' r'. cpu_allocate env others cb shapes dtypes fmt True True = Some (cb'', r') \<longrightarrow> r' \<noteq> Inr None"
    using cpu_backend_env.cpu_allocate_busy [OF env] by blast
qed

theorem cpu_allocate_evicts_safely_witness:
  "\<exists>cb' r. cpu_allocate ref_cpu_env (\<lambda>n cb. cb) demo_cpu (One [2, 8]) (One 2) None True False = Some (cb', r) \<and>
     map_of (cb_hot cb') 7 = Some 0 \<and> hot_obj cb' 0 = hot_obj demo_cpu 0"
proof -
  have "map_of (cb_hot demo_cpu) 7 = Some 0" and "\<not> can_evict (hot_obj demo_cpu 0)"
    and "default_fmt demo_cpu None = KV_2LTD" by code_simp+
  moreover have "sl_spec (mem_env_of ref_cpu_env)" unfolding ref_cpu_mem_env by (rule ref_mem_env_sl)
  moreover have "chunk_spec (mem_env_of ref_cpu_env)" unfolding ref_cpu_mem_env by (rule ref_mem_env_chunk)
  moreover have "sorted_dict (ce_items ref_cpu_env)" by (simp add: ref_cpu_env_def ref_sd.sorted_dict_axioms)
  moreover have "get_size_bytes (mem_env_of ref_cpu_env) [[2, 8]] [2] = Inr 32"
    unfolding ref_cpu_mem_env by (simp add: get_size_bytes_def ref_mem_env_def)
  ultimately show ?thesis
    using cpu_allocate_evicts_safely [of ref_cpu_env "{}" demo_cpu "One [2, 8]" "One 2" "[[2, 8]]" "[2]" 32 None "\<lambda>n cb. cb",
      THEN conjunct1] demo_cpu_inv by (auto simp: adapt_shapes_and_dtypes_def kv_formats_def)
qed

text \<open>
  Under LRU or MRU, a key of the current request that is removed before \<open>touch_cache\<close> makes
  it raise \<open>KeyError\<close>, and since the list of keys is only reset after the loop, every later call
  raises it again.
\<close>

theorem touch_after_remove_keeps_failing:
  assumes "cb_policy cb = MRU \<or> (\<exists>s. cb_policy cb = LRU s)" and "map_of (cb_hot cb) k = Some i"
    and "cb_keys_in_request cb = []"
  shows "let cb1 = fst (cpu_contains now cb k True);
             cb2 = fst (cpu_remove env cb1 k True);
             (cb3, r) = touch_cache env now cb2;
             (cb4, r') = touch_cache env now' cb3
         in r = Inl KeyError \<and> r' = Inl KeyError \<and> cb_keys_in_request cb4 = [k]"
  using assms
  by (auto simp: cpu_contains_def cpu_remove_unfold send_evict_def touch_cache_def pol_force_evict_def pol_hit_def Let_def
      lru_on_hit_def mru_on_hit_def od_move_to_end_def)

theorem touch_after_remove_keeps_failing_witness:
  "let cb = demo_cpu\<lparr>cb_policy := MRU\<rparr>;
       cb1 = fst (cpu_contains 1 cb 7 True);
       cb2 = fst (cpu_remove ref_cpu_env cb1 7 True);
       (cb3, r) = touch_cache ref_cpu_env 1 cb2;
       (cb4, r') = touch_cache ref_cpu_env 3 cb3
   in r = Inl KeyError \<and> r' = Inl KeyError \<and> cb_keys_in_request cb4 = [7]"
proof -
  have "map_of (cb_hot demo_cpu) 7 = Some 0" and "cb_keys_in_request demo_cpu = []" by code_simp+
  then show ?thesis
    using touch_after_remove_keeps_failing [of "demo_cpu\<lparr>cb_policy := MRU\<rparr>" 7 0 1 ref_cpu_env 3]
    unfolding Let_def by simp
qed

end
