(* ===== verification/Cluster.thy ===== *)
theory Cluster
  imports Sender LocalCPU
begin

text \<open>
  The properties of the cache controller and of its protocol with the workers.

  The locale \<open>sync_channel\<close> is the contract a full sync rests on: what the channel and whoever
  answers at its other end promise about an open and a closed session. It is interpreted on
  \<open>direct_channel\<close>, which hands every message to the controller's handlers at once.
\<close>

declare map_of_eq_Some_iff [simp del] Some_eq_map_of_iff [simp del]

section \<open>The contract of a sync channel\<close>

locale sync_channel =
  fixes ch :: "('h, 'c) sync_channel_ops"
    and cfg :: fss_config
    and sid :: string
    and valid :: "'c \<Rightarrow> bool"
    and opened :: "'c \<Rightarrow> bool"
    and closed :: "'c \<Rightarrow> bool"
    and held :: "'c \<Rightarrow> 'h set"
    and others :: "'c \<Rightarrow> 'r"
  assumes ask_start: "valid c \<Longrightarrow> ch_ask_start ch (sync_start_msg cfg sid n b) c = (c', r) \<Longrightarrow>
      valid c' \<and> others c' = others c \<and> (\<forall>a. r = Some a \<and> sr_accepted a \<longrightarrow> opened c' \<and> held c' = {})"
    and put_batch: "opened c \<Longrightarrow> \<exists>c'. ch_put ch (sync_batch_msg cfg sid i ks) c = (c', True) \<and>
      opened c' \<and> held c' = held c \<union> set ks \<and> others c' = others c"
    and put_end: "opened c \<Longrightarrow> \<exists>c'. ch_put ch (sync_end_msg cfg sid n) c = (c', True) \<and>
      closed c' \<and> held c' = held c \<and> others c' = others c"
    and ask_status: "closed c \<Longrightarrow> ch_ask_status ch (fc_instance cfg) (fc_worker cfg) sid c = (c', q) \<Longrightarrow>
      closed c' \<and> held c' = held c \<and> others c' = others c \<and> (\<forall>st. q = Some st \<longrightarrow> fr_missing_batches st = [])"
begin

lemma send_batches_ok:
  "opened c \<Longrightarrow> \<exists>c'. send_batches ch cfg sid keys bs c = (c', Inr ()) \<and> opened c' \<and> others c' = others c \<and>
     held c' = held c \<union> set (concat (map (batch_slice (fc_batch_size cfg) keys) bs))"
proof (induction bs arbitrary: c)
  case (Cons b bs)
  obtain c1 where c1: "ch_put ch (sync_batch_msg cfg sid b (batch_slice (fc_batch_size cfg) keys b)) c = (c1, True)"
    "opened c1" "held c1 = held c \<union> set (batch_slice (fc_batch_size cfg) keys b)" "others c1 = others c"
    using put_batch[OF Cons.prems] by blast
  obtain c2 where "send_batches ch cfg sid keys bs c1 = (c2, Inr ())" "opened c2" "others c2 = others c1"
    "held c2 = held c1 \<union> set (concat (map (batch_slice (fc_batch_size cfg) keys) bs))"
    using Cons.IH[OF c1(2)] by blast
  with c1 show ?case by (simp add: Un_assoc)
qed simp

lemma send_key_batches_ok:
  assumes opn: "opened c" and empty: "held c = {}" and bsz: "0 < fc_batch_size cfg"
    and n: "fss_batch_count (fc_batch_size cfg) (int (length keys)) = Inr n"
  shows "\<exists>c'. send_key_batches ch cfg sid keys n c = (c', Inr ()) \<and> closed c' \<and> held c' = set keys \<and> others c' = others c"
proof -
  have n': "n = max ((int (length keys) + fc_batch_size cfg - 1) div fc_batch_size cfg) 1"
    using n bsz by (simp add: fss_batch_count_def)
  obtain c1 where c1: "send_batches ch cfg sid keys [0..n - 1] c = (c1, Inr ())" "opened c1" "others c1 = others c"
    "held c1 = held c \<union> set (concat (map (batch_slice (fc_batch_size cfg) keys) [0..n - 1]))"
    using send_batches_ok[OF opn] by blast
  have h1: "held c1 = set keys" by (simp only: c1(4) batch_slice_pieces(1)[OF bsz n'] empty Un_empty_left)
  obtain c2 where c2: "ch_put ch (sync_end_msg cfg sid (int (length keys))) c1 = (c2, True)"
    "closed c2" "held c2 = held c1" "others c2 = others c1"
    using put_end[OF c1(2)] by blast
  show ?thesis using c1(1,3) c2 h1 by (simp add: send_key_batches_def send_sync_end_def)
qed

lemma poll_ok:
  "closed c \<Longrightarrow> \<exists>c' b. poll_for_completion ch cfg sid keys n k c = (c', Inr b) \<and> closed c' \<and>
     held c' = held c \<and> others c' = others c"
proof (induction n arbitrary: c)
  case (Suc n)
  obtain c1 r where q: "ch_ask_status ch (fc_instance cfg) (fc_worker cfg) sid c = (c1, r)" by fastforce
  note a = ask_status[OF Suc.prems q]
  from Suc.IH[of c1] a obtain c2 b where "poll_for_completion ch cfg sid keys n k c1 = (c2, Inr b)" "closed c2"
    "held c2 = held c" "others c2 = others c" by auto
  with q a show ?case by (cases r) auto
qed auto

lemma start_attempts_ok:
  "valid c \<Longrightarrow> start_attempts ch (sync_start_msg cfg sid n b) k c = (c', ok) \<Longrightarrow>
     others c' = others c \<and> (ok \<longrightarrow> opened c' \<and> held c' = {})"
proof (induction k arbitrary: c)
  case (Suc k)
  obtain c1 r where q: "ch_ask_start ch (sync_start_msg cfg sid n b) c = (c1, r)" by fastforce
  note a = ask_start[OF Suc.prems(1) q]
  show ?case
  proof (cases "\<exists>x. r = Some x \<and> sr_accepted x")
    case True
    with Suc.prems(2) q a show ?thesis by auto
  next
    case False
    with Suc.prems(2) q have "start_attempts ch (sync_start_msg cfg sid n b) k c1 = (c', ok)"
      by (auto split: option.splits)
    with Suc.IH[of c1] a show ?thesis by simp
  qed
qed simp

theorem start_full_sync_ok:
  assumes run: "start_full_sync ch cfg sid keys st c = (st', c', ok)" and ok: ok
    and valid: "valid c" and bsz: "0 < fc_batch_size cfg"
  shows "closed c' \<and> held c' = set keys \<and> others c' = others c \<and> \<not> fss_is_syncing st' \<and> \<not> fss_frozen st'"
proof -
  have idle: "\<not> fss_is_syncing st" using run ok by (auto simp: start_full_sync_def split: if_splits)
  obtain n where n: "fss_batch_count (fc_batch_size cfg) (int (length keys)) = Inr n"
    using bsz by (simp add: fss_batch_count_def)
  obtain c1 acc where att: "start_attempts ch (sync_start_msg cfg sid (int (length keys)) n) (nat (fc_max_retry_count cfg)) c = (c1, acc)"
    by fastforce
  note a = start_attempts_ok[OF valid att]
  have acc: acc using run ok idle n att by (auto simp: start_full_sync_def initialize_sync_def Let_def split: if_splits)
  obtain c2 where s: "send_key_batches ch cfg sid keys n c1 = (c2, Inr ())" "closed c2" "held c2 = set keys" "others c2 = others c1"
    using send_key_batches_ok[OF _ _ bsz n, of c1] a acc by blast
  obtain c3 b where p: "poll_for_completion ch cfg sid keys (nat (fc_max_poll_attempts cfg)) 0 c2 = (c3, Inr b)"
    "closed c3" "held c3 = held c2" "others c3 = others c2" using poll_ok[OF s(2)] by blast
  show ?thesis using run idle n att acc s p a
    by (simp add: start_full_sync_def initialize_sync_def Let_def)
      (auto simp: Let_def)
qed

lemma start_full_sync_succeeds:
  assumes "\<not> fss_is_syncing st" and "0 < fc_batch_size cfg" and "valid c" and "0 < fc_max_retry_count cfg"
    and acc: "\<And>n b. \<exists>c' r. ch_ask_start ch (sync_start_msg cfg sid n b) c = (c', Some r) \<and> sr_accepted r"
  shows "snd (snd (start_full_sync ch cfg sid keys st c))"
proof -
  obtain n where n: "fss_batch_count (fc_batch_size cfg) (int (length keys)) = Inr n"
    using assms(2) by (simp add: fss_batch_count_def)
  obtain k where k: "nat (fc_max_retry_count cfg) = Suc k" using assms(4) by (cases "nat (fc_max_retry_count cfg)") auto
  obtain c1 r where q: "ch_ask_start ch (sync_start_msg cfg sid (int (length keys)) n) c = (c1, Some r)" "sr_accepted r"
    using acc by blast
  have "opened c1 \<and> held c1 = {}" using ask_start[OF assms(3) q(1)] q(2) by auto
  then obtain c2 where s: "send_key_batches ch cfg sid keys n c1 = (c2, Inr ())" "closed c2"
    using send_key_batches_ok[OF _ _ assms(2) n, of c1] by blast
  obtain c3 b where p: "poll_for_completion ch cfg sid keys (nat (fc_max_poll_attempts cfg)) 0 c2 = (c3, Inr b)"
    using poll_ok[OF s(2)] by blast
  show ?thesis using assms(1) n k q s p by (simp add: start_full_sync_def initialize_sync_def Let_def)
qed

end

section \<open>The controller at the other end\<close>

definition direct_channel :: "('h, int \<times> 'h kv_controller) sync_channel_ops" where
  "direct_channel =
     \<lparr>ch_put = \<lambda>m (t, c). ((t + 1, fst (handle_worker_msg t m c)), True),
      ch_ask_start = \<lambda>m (t, c). (case handle_full_sync_start t m c of (c', r) \<Rightarrow> ((t + 1, c'), Some r)),
      ch_ask_status = \<lambda>inst w sid (t, c).
        (case handle_full_sync_status t inst w sid c of (c', r) \<Rightarrow> ((t + 1, c'), Some r))\<rparr>"

definition chan_opened :: "fss_config \<Rightarrow> string \<Rightarrow> int \<times> 'h kv_controller \<Rightarrow> bool" where
  "chan_opened cfg sid tc \<longleftrightarrow> ctrl_inv (snd tc) \<and> session_open (fc_instance cfg) (fc_worker cfg) sid (snd tc)"

definition chan_closed :: "fss_config \<Rightarrow> string \<Rightarrow> int \<times> 'h kv_controller \<Rightarrow> bool" where
  "chan_closed cfg sid tc \<longleftrightarrow> ctrl_inv (snd tc) \<and>
     (\<exists>s. get_sync_info (fc_instance cfg) (fc_worker cfg) (snd tc) = Some s \<and> sync_id s = sid \<and> sync_state s = COMPLETED)"

definition chan_held :: "fss_config \<Rightarrow> int \<times> 'h kv_controller \<Rightarrow> 'h set" where
  "chan_held cfg tc = get_worker_kv_keys (fc_instance cfg) (fc_worker cfg) (fc_location cfg) (snd tc)"

definition chan_others :: "fss_config \<Rightarrow> int \<times> 'h kv_controller \<Rightarrow> string \<Rightarrow> int \<Rightarrow> string \<Rightarrow> 'h set" where
  "chan_others cfg tc inst w loc =
     (if inst = fc_instance cfg \<and> w = fc_worker cfg \<and> loc = fc_location cfg then {}
      else get_worker_kv_keys inst w loc (snd tc))"

lemma get_missing_completed:
  assumes "get_sync_info inst w c = Some s" and "sync_state s = COMPLETED"
  shows "get_missing_batches inst w sid c = []"
  using assms by (simp add: get_missing_batches_def)

lemma direct_sync_channel:
  "sync_channel (direct_channel :: ('h, int \<times> 'h kv_controller) sync_channel_ops) cfg sid (\<lambda>tc. ctrl_inv (snd tc)) (chan_opened cfg sid) (chan_closed cfg sid)
     (chan_held cfg) (chan_others cfg)"
proof
  fix c c' :: "int \<times> 'h kv_controller" and n b r
  assume v: "ctrl_inv (snd c)" and a: "ch_ask_start direct_channel (sync_start_msg cfg sid n b) c = (c', r)"
  obtain t c0 where c: "c = (t, c0)" by fastforce
  obtain c1 ret where h: "handle_full_sync_start t (sync_start_msg cfg sid n b) c0 = (c1, ret)" by fastforce
  have c': "c' = (t + 1, c1)" "r = Some ret" using a h by (simp_all add: c direct_channel_def)
  note f = full_sync_start_facts[OF v[unfolded c snd_conv] h]
  show "ctrl_inv (snd c') \<and> chan_others cfg c' = chan_others cfg c \<and>
    (\<forall>a. r = Some a \<and> sr_accepted a \<longrightarrow> chan_opened cfg sid c' \<and> chan_held cfg c' = {})"
    using f(1) f(4) f(5)
    by (auto simp: c c' chan_opened_def chan_held_def chan_others_def sync_start_msg_def session_open_def mk_sync_info_def fun_eq_iff)
next
  fix c :: "int \<times> 'h kv_controller" and i :: int and ks :: "'h list"
  assume o: "chan_opened cfg sid c"
  obtain t c0 where c: "c = (t, c0)" by fastforce
  have inv: "ctrl_inv c0" and s: "session_open (fc_instance cfg) (fc_worker cfg) sid c0"
    using o by (simp_all add: c chan_opened_def)
  let ?m = "\<lparr>fb_instance = fc_instance cfg, fb_worker = fc_worker cfg, fb_location = fc_location cfg,
      fb_sync_id = sid, fb_batch_id = i, fb_keys = ks\<rparr>"
  note f = full_sync_batch_facts[OF inv, where m = ?m and now = t]
  let ?c = "(t + 1, handle_full_sync_batch t ?m c0)"
  have "session_open (fc_instance cfg) (fc_worker cfg) sid (handle_full_sync_batch t ?m c0)"
    using s f(3)[of "fc_instance cfg" "fc_worker cfg"] by (auto simp: session_open_def record_batch_def)
  then have "chan_opened cfg sid ?c \<and> chan_held cfg ?c = chan_held cfg c \<union> set ks \<and> chan_others cfg ?c = chan_others cfg c"
    using f(1) f(4) s by (auto simp: c chan_opened_def chan_held_def chan_others_def fun_eq_iff)
  then show "\<exists>c'. ch_put direct_channel (sync_batch_msg cfg sid i ks) c = (c', True) \<and>
      chan_opened cfg sid c' \<and> chan_held cfg c' = chan_held cfg c \<union> set ks \<and> chan_others cfg c' = chan_others cfg c"
    by (intro exI[of _ ?c]) (simp add: c direct_channel_def sync_batch_msg_def)
next
  fix c :: "int \<times> 'h kv_controller" and n
  assume o: "chan_opened cfg sid c"
  obtain t c0 where c: "c = (t, c0)" by fastforce
  have inv: "ctrl_inv c0" and s: "session_open (fc_instance cfg) (fc_worker cfg) sid c0"
    using o by (simp_all add: c chan_opened_def)
  let ?m = "\<lparr>fe_instance = fc_instance cfg, fe_worker = fc_worker cfg, fe_location = fc_location cfg,
      fe_sync_id = sid, fe_actual_total_keys = n\<rparr>"
  note f = full_sync_end_facts[OF inv, where m = ?m and now = t]
  let ?c = "(t + 1, handle_full_sync_end t ?m c0)"
  have "chan_closed cfg sid ?c \<and> chan_held cfg ?c = chan_held cfg c \<and> chan_others cfg ?c = chan_others cfg c"
    using f(1,3) f(4)[of "fc_instance cfg" "fc_worker cfg"] s
    by (auto simp: c chan_closed_def chan_held_def chan_others_def fun_eq_iff session_open_def get_sync_id_def)
  then show "\<exists>c'. ch_put direct_channel (sync_end_msg cfg sid n) c = (c', True) \<and>
      chan_closed cfg sid c' \<and> chan_held cfg c' = chan_held cfg c \<and> chan_others cfg c' = chan_others cfg c"
    by (intro exI[of _ ?c]) (simp add: c direct_channel_def sync_end_msg_def)
next
  fix c c' :: "int \<times> 'h kv_controller" and q
  assume o: "chan_closed cfg sid c"
    and a: "ch_ask_status direct_channel (fc_instance cfg) (fc_worker cfg) sid c = (c', q)"
  obtain t c0 where c: "c = (t, c0)" by fastforce
  obtain c1 ret where h: "handle_full_sync_status t (fc_instance cfg) (fc_worker cfg) sid c0 = (c1, ret)" by fastforce
  have c': "c' = (t + 1, c1)" "q = Some ret" using a h by (simp_all add: c direct_channel_def)
  have inv: "ctrl_inv c0" using o by (simp add: c chan_closed_def)
  note f = handle_status_facts[OF inv h] and v = same_tree_views[OF handle_status_facts(2)[OF inv h]]
  show "chan_closed cfg sid c' \<and> chan_held cfg c' = chan_held cfg c \<and> chan_others cfg c' = chan_others cfg c \<and>
      (\<forall>st. q = Some st \<longrightarrow> fr_missing_batches st = [])"
    using f(1,4) o get_missing_completed[of "fc_instance cfg" "fc_worker cfg" c0]
    by (auto simp: c c' chan_closed_def chan_held_def chan_others_def v(3,4) fun_eq_iff)
qed

interpretation direct: sync_channel direct_channel cfg sid "\<lambda>tc. ctrl_inv (snd tc)" "chan_opened cfg sid"
    "chan_closed cfg sid" "chan_held cfg" "chan_others cfg"
  for cfg :: fss_config and sid :: string
  by (rule direct_sync_channel)

section \<open>Incremental messages and sequence numbers\<close>

lemma kv_handle_batched_seq:
  assumes inv: "ctrl_inv c" and i: "get_worker (bm_instance m) (bm_worker m) c = Some i"
    and idle: "\<not> is_worker_syncing (bm_instance m) (bm_worker m) c" and ops: "bm_operations m \<noteq> []"
  defines "last_num \<equiv> wn_get_seq_num (bm_location m) (node_at c i)"
  shows "wn_get_seq_num (bm_location m) (node_at (kv_handle_batched m c) i) = last_seq last_num (map op_seq (bm_operations m))"
    and "seq_discontinuity_count (kv_handle_batched m c) =
      seq_discontinuity_count c + (if consecutive last_num (map op_seq (bm_operations m)) then 0 else 1)"
proof -
  obtain n warning p where n: "wn_handle_batched m False (node_at c i) = (n, warning, p)" using prod_cases3 by blast
  note f = wn_handle_batched_facts[OF n]
  have p: p using f(1) idle is_syncing_node[OF i] by simp
  have c': "kv_handle_batched m c = (if warning \<noteq> None
      then (upd_node i (\<lambda>_. n) c)\<lparr>seq_discontinuity_count := seq_discontinuity_count c + 1\<rparr> else upd_node i (\<lambda>_. n) c)"
    using ops idle by (simp add: kv_handle_batched_def reg_handle_batched_def i n upd_node_simps)
  have "node_at (kv_handle_batched m c) i = n"
    using registry_invD(5)[OF ctrl_inv_registry[OF inv] i] by (simp add: c' node_at_def upd_node_def)
  then show "wn_get_seq_num (bm_location m) (node_at (kv_handle_batched m c) i) = last_seq last_num (map op_seq (bm_operations m))"
    using f(4)[of "bm_location m"] p by (simp add: wn_get_seq_num_def last_num_def)
  show "seq_discontinuity_count (kv_handle_batched m c) =
      seq_discontinuity_count c + (if consecutive last_num (map op_seq (bm_operations m)) then 0 else 1)"
    using f(5) p by (simp add: c' upd_node_simps wn_get_seq_num_def last_num_def)
qed

definition deliver :: "'h batched_kv_msg list \<Rightarrow> 'h kv_controller \<Rightarrow> 'h kv_controller" where
  "deliver msgs c = foldl (\<lambda>c m. kv_handle_batched m c) c msgs"

lemma deliver_facts:
  assumes "ctrl_inv c" and "get_worker inst w c = Some i" and "\<not> is_worker_syncing inst w c"
    and "\<forall>m \<in> set msgs. bm_instance m = inst \<and> bm_worker m = w \<and> bm_location m = loc \<and> bm_operations m \<noteq> []"
  defines "ops \<equiv> concat (map bm_operations msgs)"
  shows "get_worker_kv_keys inst w loc (deliver msgs c) = replay_ops ops (get_worker_kv_keys inst w loc c) \<and>
    seq_discontinuity_count c \<le> seq_discontinuity_count (deliver msgs c) \<and>
    (seq_discontinuity_count (deliver msgs c) = seq_discontinuity_count c \<longleftrightarrow>
       consecutive (wn_get_seq_num loc (node_at c i)) (map op_seq ops))"
  using assms(1-4) unfolding ops_def
proof (induction msgs arbitrary: c)
  case Nil
  then show ?case by (simp add: deliver_def)
next
  case (Cons m msgs)
  have m: "bm_instance m = inst" "bm_worker m = w" "bm_location m = loc" "bm_operations m \<noteq> []"
    using Cons.prems(4) by auto
  let ?c = "kv_handle_batched m c"
  note f = kv_handle_batched_facts[OF Cons.prems(1), where m = m]
  have i: "get_worker inst w ?c = Some i" using f(2) Cons.prems(2) by simp
  have idle: "\<not> is_worker_syncing inst w ?c" using f(3) Cons.prems(3) by (simp add: is_worker_syncing_def)
  note q = kv_handle_batched_seq[OF Cons.prems(1), of m i, unfolded m(1-3), OF Cons.prems(2,3) m(4)]
  have keys: "get_worker_kv_keys inst w loc ?c = replay_ops (bm_operations m) (get_worker_kv_keys inst w loc c)"
    using f(4)[of inst w loc] Cons.prems(2,3) by (simp add: m)
  have d: "deliver (m # msgs) c = deliver msgs ?c" by (simp add: deliver_def)
  have "\<forall>m \<in> set msgs. bm_instance m = inst \<and> bm_worker m = w \<and> bm_location m = loc \<and> bm_operations m \<noteq> []"
    using Cons.prems(4) by simp
  from Cons.IH[OF f(1) i idle this] show ?case
    unfolding d keys q by (cases "consecutive (wn_get_seq_num loc (node_at c i)) (map op_seq (bm_operations m))")
      (simp_all add: consecutive_append)
qed

section \<open>Demonstration states\<close>

definition demo_ctrl0 :: "nat kv_controller" where
  "demo_ctrl0 = fst (handle_worker_msg 5 (RegisterMsg ''B'' 0 ''10.0.0.2'' 80 (Some ''u''))
     (fst (handle_worker_msg 4 (RegisterMsg ''A'' 1 ''10.0.0.1'' 80 None) (controller_init (4, 5) 300))))"

definition demo_msg :: "string \<Rightarrow> int \<Rightarrow> (op_type \<times> nat \<times> int) list \<Rightarrow> nat batched_kv_msg" where
  "demo_msg inst w ops = \<lparr>bm_instance = inst, bm_worker = w, bm_location = ''L'',
     bm_operations = map (\<lambda>(t, k, n). \<lparr>op_kind = t, op_key = k, op_seq = n\<rparr>) ops\<rparr>"

definition demo_ctrl :: "nat kv_controller" where
  "demo_ctrl = fst (handle_worker_msg 6 (BatchedKVOperationMsg (demo_msg ''B'' 0 [(ADMIT, 7, 0), (ADMIT, 8, 1), (EVICT, 7, 2)])) demo_ctrl0)"

lemma demo_ctrl0_reachable: "ctrl_reachable demo_ctrl0"
  unfolding demo_ctrl0_def by (intro ctrl_reachable.message ctrl_reachable.start)

lemma demo_ctrl_reachable: "ctrl_reachable demo_ctrl"
  unfolding demo_ctrl_def by (rule ctrl_reachable.message[OF demo_ctrl0_reachable])

lemma demo_ctrl_facts:
  "get_worker ''A'' 1 demo_ctrl = Some 0" "get_worker ''B'' 0 demo_ctrl = Some 1"
  "get_worker_kv_keys ''B'' 0 ''L'' demo_ctrl = {8}"
  "get_worker_kv_keys ''A'' 1 ''L'' demo_ctrl = {}"
  "get_sync_info ''A'' 1 demo_ctrl = None" "get_sync_info ''B'' 0 demo_ctrl = None"
  by code_simp+

section \<open>Properties\<close>

lemmas ctrl_reachable_registry = ctrl_inv_registry[OF ctrl_reachable_inv]

text \<open>
  C18: In every state the controller reaches, no instance is empty, a worker stands under its own
  id, no two workers share a node, no location of a worker has an empty key set, the references
  in the cached node list exist, and the reported total of keys is the size of the pool.
\<close>

theorem registry_tree_invariant:
  assumes "ctrl_reachable c"
  shows "get_total_kv_count c = card (pool c) \<and> finite (pool c) \<and>
    (\<forall>inst node. get_instance inst c = Some node \<longrightarrow> instance_id node = inst \<and> workers node \<noteq> []) \<and>
    (\<forall>inst w i. get_worker inst w c = Some i \<longrightarrow> worker_id (node_at c i) = w \<and>
       (\<forall>loc ks. map_of (kv_store (node_at c i)) loc = Some ks \<longrightarrow> ks \<noteq> {}) \<and>
       (\<forall>inst' w'. get_worker inst' w' c = Some i \<longrightarrow> inst' = inst \<and> w' = w)) \<and>
    (\<forall>(inst, i) \<in> set (ttl_items (worker_node_cache c)). i < length (node_store c))"
proof -
  have inv: "registry_inv c" by (rule ctrl_reachable_registry[OF assms])
  have "wn_ok (node_at c i)" if "get_worker inst w c = Some i" for inst w i
    by (rule registry_invD(8)[OF inv registry_invD(5)[OF inv that]])
  then show ?thesis
    using get_total_kv_count_card[OF inv] registry_invD(2,4)[OF inv] registry_invD(6,7)[OF inv]
      ctrl_reachable_inv[OF assms]
    by (auto simp: get_instance_def ctrl_inv_def dest: wn_okD(3))
qed

theorem registry_tree_invariant_witness:
  "get_total_kv_count demo_ctrl = card (pool demo_ctrl)"
  using registry_tree_invariant[OF demo_ctrl_reachable] by blast

text \<open>
  C21: \<open>find_kv\<close> and \<open>find_kv_with_worker_info\<close> return a location exactly when a worker of an
  instance that is not excluded holds the key. What they return is a registered worker of such
  an instance, and the key set and URL returned are that worker's.
\<close>

theorem find_kv_sound_and_complete:
  assumes "ctrl_reachable c"
  shows "(find_kv key ex c = None \<longleftrightarrow> (\<forall>inst w loc. ex \<noteq> Some inst \<longrightarrow> key \<notin> get_worker_kv_keys inst w loc c)) \<and>
    find_kv key ex c = map_option fst (find_kv_with_worker_info key ex c) \<and>
    (\<forall>info url ks. find_kv_with_worker_info key ex c = Some (info, url, ks) \<longrightarrow>
       ex \<noteq> Some (ci_instance info) \<and> key \<in> ks \<and>
       ks = get_worker_kv_keys (ci_instance info) (ci_worker info) (ci_location info) c \<and>
       url = get_peer_init_url (ci_instance info) (ci_worker info) c)"
proof -
  note f = find_kv_correct[OF ctrl_reachable_registry[OF assms]]
  show ?thesis
    using f(1)[of key ex] f(2)[of key ex] f(3)[of key ex] by (auto simp: get_peer_init_url_def)
qed

theorem find_kv_sound_and_complete_witness:
  "find_kv 8 (Some ''B'') demo_ctrl = None \<and> find_kv 8 (Some ''A'') demo_ctrl \<noteq> None"
proof -
  have "8 \<in> get_worker_kv_keys ''B'' 0 ''L'' demo_ctrl" by (simp add: demo_ctrl_facts)
  then have "find_kv 8 (Some ''A'') demo_ctrl \<noteq> None"
    using find_kv_sound_and_complete[OF demo_ctrl_reachable, of 8 "Some ''A''"] by fastforce
  moreover have "find_kv 8 (Some ''B'') demo_ctrl = None" by code_simp
  ultimately show ?thesis by simp
qed

lemma count_hits_prefix:
  "0 \<le> count_hits hs ks \<and> nat (count_hits hs ks) \<le> length hs \<and> set (take (nat (count_hits hs ks)) hs) \<subseteq> ks \<and>
   (nat (count_hits hs ks) < length hs \<longrightarrow> hs ! nat (count_hits hs ks) \<notin> ks)"
proof (induction hs)
  case (Cons h hs)
  then show ?case by (cases "h \<in> ks") (auto simp: nat_add_distrib)
qed simp

text \<open>
  C22: A peer-to-peer lookup answers with zero hits, and no location, when it asks for nothing or no other
  instance holds the first hash. Otherwise \<open>find_kv\<close> gives a location of a worker of another instance that
  holds the first hash: when that worker has no URL, the answer is zero hits all the same; else it is this
  location, the URL of its worker, and the length, at least one, of the longest run of leading hashes that
  this location holds. Only this one location is looked at: another one may hold a longer run.
\<close>

theorem p2p_lookup_longest_prefix:
  assumes "ctrl_reachable c"
  shows "if hashes = [] \<or> (\<forall>inst w loc. inst \<noteq> me \<longrightarrow> hd hashes \<notin> get_worker_kv_keys inst w loc c)
    then batched_p2p_lookup hashes me c = [('''', '''', 0, '''')]
    else \<exists>inst w loc. inst \<noteq> me \<and> hd hashes \<in> get_worker_kv_keys inst w loc c \<and>
      find_kv (hd hashes) (Some me) c = Some \<lparr>ci_instance = inst, ci_worker = w, ci_location = loc\<rparr> \<and>
      (case get_peer_init_url inst w c of
         None \<Rightarrow> batched_p2p_lookup hashes me c = [('''', '''', 0, '''')]
       | Some url \<Rightarrow> \<exists>n. batched_p2p_lookup hashes me c = [(inst, loc, int n, url)] \<and> 0 < n \<and> n \<le> length hashes \<and>
           set (take n hashes) \<subseteq> get_worker_kv_keys inst w loc c \<and>
           (n < length hashes \<longrightarrow> hashes ! n \<notin> get_worker_kv_keys inst w loc c))"
proof (cases hashes)
  case Nil
  then show ?thesis by (simp add: batched_p2p_lookup_def)
next
  case (Cons h hs)
  note f = find_kv_correct[OF ctrl_reachable_registry[OF assms]]
  show ?thesis
  proof (cases "find_kv_with_worker_info h (Some me) c")
    case None
    then show ?thesis using f(1)[of h "Some me"] by (auto simp: Cons batched_p2p_lookup_def)
  next
    case (Some x)
    obtain info url ks where x: "x = (info, url, ks)" by (metis prod_cases3)
    let ?w = "get_worker_kv_keys (ci_instance info) (ci_worker info) (ci_location info) c"
    have F: "ci_instance info \<noteq> me" "h \<in> ?w" "ks = ?w" "get_peer_init_url (ci_instance info) (ci_worker info) c = url"
      using f(2)[OF Some[unfolded x]] by (auto simp: get_peer_init_url_def)
    have k: "find_kv h (Some me) c = Some \<lparr>ci_instance = ci_instance info, ci_worker = ci_worker info, ci_location = ci_location info\<rparr>"
      by (simp add: f(3) Some x)
    have "0 < count_hits hashes ?w" using F(2) count_hits_prefix[of hs ?w] by (simp add: Cons)
    then have "case url of None \<Rightarrow> batched_p2p_lookup hashes me c = [('''', '''', 0, '''')]
      | Some u \<Rightarrow> \<exists>n. batched_p2p_lookup hashes me c = [(ci_instance info, ci_location info, int n, u)] \<and> 0 < n \<and> n \<le> length hashes \<and>
          set (take n hashes) \<subseteq> ?w \<and> (n < length hashes \<longrightarrow> hashes ! n \<notin> ?w)"
      using count_hits_prefix[of hashes ?w] Some
      by (auto simp: Cons batched_p2p_lookup_def x F(3) split: option.split intro!: exI[of _ "nat (count_hits (h # hs) ?w)"] simp del: count_hits.simps)
    then show ?thesis using F(1,2) k unfolding F(4)[symmetric] by (auto simp: Cons simp del: count_hits.simps)
  qed
qed

theorem p2p_lookup_longest_prefix_witness:
  "(\<exists>w. get_peer_init_url ''B'' w demo_ctrl = Some ''u'' \<and> 8 \<in> get_worker_kv_keys ''B'' w ''L'' demo_ctrl) \<and>
   batched_p2p_lookup [9] ''B'' demo_ctrl = [('''', '''', 0, '''')]"
proof -
  have r: "batched_p2p_lookup [8, 9] ''A'' demo_ctrl = [(''B'', ''L'', 1, ''u'')]" by code_simp
  have "8 \<in> get_worker_kv_keys ''B'' 0 ''L'' demo_ctrl" by (simp add: demo_ctrl_facts)
  then have n: "\<not> ([8, 9] = [] \<or> (\<forall>inst w loc. inst \<noteq> ''A'' \<longrightarrow> hd [8, 9] \<notin> get_worker_kv_keys inst w loc demo_ctrl))" by fastforce
  have "\<exists>w. get_peer_init_url ''B'' w demo_ctrl = Some ''u'' \<and> 8 \<in> get_worker_kv_keys ''B'' w ''L'' demo_ctrl"
    using p2p_lookup_longest_prefix[OF demo_ctrl_reachable, of "[8, 9]" "''A''"] unfolding r if_not_P[OF n]
    by (elim exE conjE) (auto split: option.splits)
  moreover have "batched_p2p_lookup [9] ''B'' demo_ctrl = [('''', '''', 0, '''')]" by code_simp
  ultimately show ?thesis by blast
qed

text \<open>
  C17: Whatever incremental batches a worker delivers for a location, the controller's key set is
  the replay of their operations, and the discontinuity counter stands still exactly when the
  sequence numbers of the whole stream follow on each other: a lost, repeated or reordered
  batch is always noticed.
\<close>

theorem incremental_stream_detects_gaps:
  assumes "ctrl_reachable c" and "get_worker inst w c = Some i" and "\<not> is_worker_syncing inst w c"
    and "\<forall>m \<in> set msgs. bm_instance m = inst \<and> bm_worker m = w \<and> bm_location m = loc \<and> bm_operations m \<noteq> []"
  shows "get_worker_kv_keys inst w loc (deliver msgs c) =
      replay_ops (concat (map bm_operations msgs)) (get_worker_kv_keys inst w loc c) \<and>
    seq_discontinuity_count c \<le> seq_discontinuity_count (deliver msgs c) \<and>
    (seq_discontinuity_count (deliver msgs c) = seq_discontinuity_count c \<longleftrightarrow>
       consecutive (wn_get_seq_num loc (node_at c i)) (map op_seq (concat (map bm_operations msgs))))"
  by (rule deliver_facts[OF ctrl_reachable_inv[OF assms(1)] assms(2-4)])

theorem incremental_stream_detects_gaps_witness:
  "seq_discontinuity_count demo_ctrl < seq_discontinuity_count (deliver [demo_msg ''B'' 0 [(ADMIT, 9, 4)]] demo_ctrl)"
proof -
  have "\<not> is_worker_syncing ''B'' 0 demo_ctrl" by (simp add: is_worker_syncing_def demo_ctrl_facts)
  moreover have "wn_get_seq_num ''L'' (node_at demo_ctrl 1) = Some 2" by code_simp
  ultimately show ?thesis
    using incremental_stream_detects_gaps[OF demo_ctrl_reachable demo_ctrl_facts(2), of "[demo_msg ''B'' 0 [(ADMIT, 9, 4)]]" "''L''"]
    by (simp add: demo_msg_def)
qed

lemma drained_put_ops:
  assumes "sender_reach (sender_init inst w loc n) ops s" and "ms_consumer_alive s"
    and "message_queue s = []" and "ops_to_send s = []"
  shows "map op_pair (put_ops s) = ops" and "consecutive (Some (-1)) (map op_seq (put_ops s))"
    and "\<forall>m \<in> set (ms_put s). bm_instance m = inst \<and> bm_worker m = w \<and> bm_location m = loc \<and> bm_operations m \<noteq> []"
  using sender_invariant[OF assms(1)] assms(2-4) by simp_all

text \<open>
  C6: The worker's view reaches the controller. Let the CPU cache be in any reachable state, its messages gone
  through the batched sender, the sender drained, and every batch delivered to a controller that starts with
  nothing for the worker. No discontinuity is counted. The controller stores no hash but those of keys that are
  cached, were popped by a \<open>remove\<close> whose EVICT is still to come (\<open>P\<close>), or were dropped by a layerwise eviction,
  which sends none (\<open>U\<close>). For a key that shares its hash with no other key and was not cached again before the
  EVICT of an earlier \<open>remove\<close> was sent (\<open>V\<close>), it stores the hash exactly in these cases. So it has exactly
  the hashes of the cached keys when no two keys have the same hash, no \<open>remove\<close> is or was overtaken and no
  layerwise eviction is left over.
\<close>

theorem cpu_cache_reaches_controller:
  assumes "sl_spec (mem_env_of env)" and "chunk_spec (mem_env_of env)" and "sorted_dict (ce_items env)"
    and "cpu_reachable env P U V cb"
    and "sender_reach (sender_init inst w loc n) (cb_msgs cb) s" and "ms_consumer_alive s"
    and "message_queue s = []" and "ops_to_send s = []"
    and "ctrl_reachable c" and "get_worker inst w c = Some i" and "\<not> is_worker_syncing inst w c"
    and "get_worker_kv_keys inst w loc c = {}" and "wn_get_seq_num loc (node_at c i) = None"
    and "known = get_worker_kv_keys inst w loc (deliver (ms_put s) c)"
  shows "seq_discontinuity_count (deliver (ms_put s) c) = seq_discontinuity_count c \<and>
    known \<subseteq> ce_hash env ` (set (get_keys cb) \<union> set P) \<union> U \<and>
    (\<forall>k. sole_hash (ce_hash env) k \<and> ce_hash env k \<notin> V \<longrightarrow>
       (ce_hash env k \<in> known \<longleftrightarrow> k \<in> set (get_keys cb) \<union> set P \<or> ce_hash env k \<in> U)) \<and>
    (inj (ce_hash env) \<and> P = [] \<and> U = {} \<and> V = {} \<longrightarrow> known = ce_hash env ` set (get_keys cb))"
proof -
  note p = drained_put_ops[OF assms(5-8)]
  note d = deliver_facts[OF ctrl_reachable_inv[OF assms(9)] assms(10,11) p(3), folded put_ops_def]
  have env: "cpu_backend_env env" using assms(1-3) by (rule cpu_backend_envI)
  have v: "view_ok env P U V cb" using cpu_backend_env.cpu_reachable_on[OF env assms(4)] by blast
  have k: "known = replay_msgs (cb_msgs cb) {}" using d p(1) by (simp add: assms(12,14))
  have "consecutive None (map op_seq (put_ops s))"
    using p(2) by (cases "map op_seq (put_ops s)") auto
  then have s: "seq_discontinuity_count (deliver (ms_put s) c) = seq_discontinuity_count c" using d p(1) by (simp add: assms(13))
  have e: "known = ce_hash env ` set (get_keys cb)" if h: "inj (ce_hash env)" "P = []" "U = {}" "V = {}"
  proof -
    have "\<forall>k. sole_hash (ce_hash env) k" using h(1) by (simp add: sole_hash_def inj_eq)
    then show ?thesis using view_okD[OF v] unfolding k h(2-4) by auto
  qed
  show ?thesis using s e view_okD[OF v] unfolding k by blast
qed

definition demo_sender :: "nat msg_sender" where
  "demo_sender = send_drained False (the (drain_one (fst (add_kv_op ADMIT 7 (sender_init ''A'' 1 ''L'' 50)))))"

lemma demo_sender_reach: "sender_reach (sender_init ''A'' 1 ''L'' 50) [(ADMIT, 7)] demo_sender"
proof -
  let ?s0 = "sender_init ''A'' 1 ''L'' 50 :: nat msg_sender"
  let ?s1 = "fst (add_kv_op ADMIT 7 ?s0)"
  let ?s2 = "the (drain_one ?s1)"
  have 1: "sender_reach ?s0 ([] @ [(ADMIT, 7)]) ?s1"
    by (rule sender_reach.produce[OF sender_reach.initial])
  have alive: "ms_consumer_alive ?s1" "ms_consumer_alive ?s2"
    and d: "drain_one ?s1 = Some ?s2" "drain_one ?s2 = None"
    by code_simp+
  have "sender_reach ?s0 ([] @ [(ADMIT, 7)]) (send_drained False ?s2)"
    by (rule sender_reach.send[OF sender_reach.drain[OF 1 alive(1) d(1)] alive(2) d(2)])
  then show ?thesis by (simp add: demo_sender_def)
qed

theorem cpu_cache_reaches_controller_witness:
  "get_worker_kv_keys ''A'' 1 ''L'' (deliver (ms_put demo_sender) demo_ctrl) = {7}"
proof -
  have env: "sl_spec (mem_env_of ref_cpu_env)" "chunk_spec (mem_env_of ref_cpu_env)"
    unfolding ref_cpu_mem_env by (rule ref_mem_env_sl ref_mem_env_chunk)+
  have h: "sorted_dict (ce_items ref_cpu_env)" "inj (ce_hash ref_cpu_env)" "ce_hash ref_cpu_env 7 = 7"
    by (simp_all add: ref_cpu_env_def ref_sd.sorted_dict_axioms)
  have "cb_msgs demo_cpu = [(ADMIT, 7)]" and keys: "get_keys demo_cpu = [7]" by code_simp+
  then have s: "sender_reach (sender_init ''A'' 1 ''L'' 50) (cb_msgs demo_cpu) demo_sender"
    using demo_sender_reach by simp
  have d: "ms_consumer_alive demo_sender" "message_queue demo_sender = []" "ops_to_send demo_sender = []"
    by code_simp+
  have t: "wn_get_seq_num ''L'' (node_at demo_ctrl 0) = None" by code_simp
  have "\<not> is_worker_syncing ''A'' 1 demo_ctrl" by (simp add: is_worker_syncing_def demo_ctrl_facts)
  from cpu_cache_reaches_controller[OF env h(1) demo_cpu_reachable s d(1-3) demo_ctrl_reachable
      demo_ctrl_facts(1) this demo_ctrl_facts(4) t refl]
  show ?thesis using h(2,3) by (simp add: keys)
qed

text \<open>
  C5: A full sync over a channel that delivers every message succeeds whenever the worker is
  registered and no other sync session of it is open: the session is closed as completed, the
  controller's key set for that worker and location is exactly the keys of the cache, all other
  contents of the registry are untouched, and the engine is unfrozen.
\<close>

theorem full_sync_transfers_keys:
  assumes "ctrl_reachable c" and "get_worker (fc_instance cfg) (fc_worker cfg) c \<noteq> None"
    and "\<forall>sid'. session_open (fc_instance cfg) (fc_worker cfg) sid' c \<longrightarrow> sid' = sid"
    and "\<not> fss_is_syncing st" and "0 < fc_batch_size cfg" and "0 < fc_max_retry_count cfg"
  shows "\<exists>st' t' c'. start_full_sync direct_channel cfg sid keys st (t, c) = (st', (t', c'), True) \<and>
    get_worker_kv_keys (fc_instance cfg) (fc_worker cfg) (fc_location cfg) c' = set keys \<and>
    (\<forall>inst w loc. (inst, w, loc) \<noteq> (fc_instance cfg, fc_worker cfg, fc_location cfg) \<longrightarrow>
       get_worker_kv_keys inst w loc c' = get_worker_kv_keys inst w loc c) \<and>
    (\<exists>s. get_sync_info (fc_instance cfg) (fc_worker cfg) c' = Some s \<and> sync_id s = sid \<and> sync_state s = COMPLETED) \<and>
    \<not> fss_is_syncing st' \<and> \<not> fss_frozen st'"
proof -
  have valid: "ctrl_inv (snd (t, c))" using ctrl_reachable_inv[OF assms(1)] by simp
  have acc: "\<exists>c' r. ch_ask_start direct_channel (sync_start_msg cfg sid n b) (t, c) = (c', Some r) \<and> sr_accepted r" for n b
  proof -
    obtain c' r where h: "handle_full_sync_start t (sync_start_msg cfg sid n b) c = (c', r)" by fastforce
    have "sr_accepted r"
      using full_sync_start_facts(3)[OF valid[unfolded snd_conv] h] assms(2,3) by (auto simp: sync_start_msg_def)
    with h show ?thesis by (simp add: direct_channel_def)
  qed
  obtain st' t' c' ok where run: "start_full_sync direct_channel cfg sid keys st (t, c) = (st', (t', c'), ok)"
    by (metis prod_cases4 surj_pair)
  have ok: ok
    using direct.start_full_sync_succeeds[OF assms(4,5) valid assms(6) acc, of keys] run by simp
  note f = direct.start_full_sync_ok[OF run ok valid assms(5)]
  have "get_worker_kv_keys inst w loc c' = get_worker_kv_keys inst w loc c"
    if "(inst, w, loc) \<noteq> (fc_instance cfg, fc_worker cfg, fc_location cfg)" for inst w loc
  proof -
    have "chan_others cfg (t', c') inst w loc = chan_others cfg (t, c) inst w loc" using f by simp
    moreover have "\<not> (inst = fc_instance cfg \<and> w = fc_worker cfg \<and> loc = fc_location cfg)" using that by simp
    ultimately show ?thesis unfolding chan_others_def by (simp only: if_False snd_conv)
  qed
  with run ok f show ?thesis by (auto simp: chan_closed_def chan_held_def)
qed

definition demo_fss :: fss_config where
  "demo_fss = \<lparr>fc_instance = ''B'', fc_worker = 0, fc_location = ''L'', fc_batch_size = 2,
     fc_max_retry_count = 3, fc_max_poll_attempts = 1\<rparr>"

definition demo_idle :: fss_state where
  "demo_idle = \<lparr>fss_is_syncing = False, fss_current_sync_id = None, fss_frozen = False\<rparr>"

theorem full_sync_transfers_keys_witness:
  "\<exists>c'. get_worker_kv_keys ''B'' 0 ''L'' (c' :: nat kv_controller) = {1, 2, 3} \<and>
     (\<exists>st' t'. start_full_sync direct_channel demo_fss ''s'' [1, 2, 3] demo_idle (9, demo_ctrl) = (st', (t', c'), True))"
proof -
  have p: "get_worker (fc_instance demo_fss) (fc_worker demo_fss) demo_ctrl \<noteq> None"
    by (simp add: demo_fss_def demo_ctrl_facts)
  have o: "\<forall>sid'. session_open (fc_instance demo_fss) (fc_worker demo_fss) sid' demo_ctrl \<longrightarrow> sid' = ''s''"
    by (simp add: session_open_def demo_fss_def demo_ctrl_facts)
  have i: "\<not> fss_is_syncing demo_idle" "0 < fc_batch_size demo_fss" "0 < fc_max_retry_count demo_fss"
    by (simp_all add: demo_idle_def demo_fss_def)
  from full_sync_transfers_keys[OF demo_ctrl_reachable p o i, where t = 9 and keys = "[1, 2, 3]"] obtain st' t' c'
    where "start_full_sync direct_channel demo_fss ''s'' [1, 2, 3] demo_idle (9, demo_ctrl) = (st', (t', c'), True)"
      "get_worker_kv_keys (fc_instance demo_fss) (fc_worker demo_fss) (fc_location demo_fss) c' = set [1, 2, 3]"
    by blast
  then show ?thesis unfolding demo_fss_def fss_config.simps list.set by blast
qed

lemma session_after_start:
  assumes inv: "ctrl_inv c" and h: "handle_full_sync_start now m c = (c1, ret)" and acc: "sr_accepted ret"
  shows "ctrl_inv c1"
    and "session_info (fs_instance m) (fs_worker m) (fs_sync_id m) (fs_batch_count m) {} c1"
    and "get_worker_kv_keys (fs_instance m) (fs_worker m) (fs_location m) c1 = {}"
  using full_sync_start_facts[OF inv h] acc by (simp_all add: session_info_def mk_sync_info_def)

lemma session_missing:
  assumes "session_info inst w sid n R c"
  shows "get_missing_batches inst w sid c = filter (\<lambda>b. b \<notin> R) [0..n - 1]"
  using assms by (auto simp: session_info_def get_missing_batches_def)

lemma batch_keys_simps [simp]:
  "batch_keys loc [] = {}"
  "batch_keys loc ((b, l, ks) # bs) = (if l = loc then set ks else {}) \<union> batch_keys loc bs"
  by (auto simp: batch_keys_def)

lemma batch_keys_slices:
  assumes bs: "\<forall>(b, l, ks) \<in> set bs. b \<in> {0..n - 1} \<and> l = loc \<and> ks = batch_slice bsz keys b"
    and all: "{0..n - 1} \<subseteq> batch_ids bs" and cover: "concat (map (batch_slice bsz keys) [0..n - 1]) = keys"
  shows "batch_keys loc bs = set keys"
proof -
  have "batch_keys loc bs = (\<Union>b \<in> {0..n - 1}. set (batch_slice bsz keys b))"
  proof (rule set_eqI, rule iffI)
    fix k assume "k \<in> batch_keys loc bs"
    then obtain b ks where m: "(b, loc, ks) \<in> set bs" "k \<in> set ks" by (auto simp: batch_keys_def)
    with bs have "b \<in> {0..n - 1} \<and> ks = batch_slice bsz keys b" by blast
    with m(2) show "k \<in> (\<Union>b \<in> {0..n - 1}. set (batch_slice bsz keys b))" by blast
  next
    fix k assume "k \<in> (\<Union>b \<in> {0..n - 1}. set (batch_slice bsz keys b))"
    then obtain b where b: "b \<in> {0..n - 1}" "k \<in> set (batch_slice bsz keys b)" by blast
    with all obtain l ks where m: "(b, l, ks) \<in> set bs" by (auto simp: batch_ids_def)
    with bs have "l = loc \<and> ks = batch_slice bsz keys b" by blast
    with m b(2) show "k \<in> batch_keys loc bs" by (auto simp: batch_keys_def)
  qed
  also have "\<dots> = set (concat (map (batch_slice bsz keys) [0..n - 1]))" by auto
  finally show ?thesis by (simp only: cover)
qed

text \<open>
  C13: Once the controller has accepted the start of a full sync, and until the sync is ended,
  restarted or the worker is registered anew or removed, the keys it stores for the worker and
  location are exactly those of the batches received for the session. This holds whatever else
  arrives in between: incremental batches of the worker are discarded, and batches may come in
  any order and repeatedly. The missing batches it reports are the announced ones not received;
  when none is missing, and the batches were cut from a list of keys as the sender cuts them, it
  holds exactly those keys.
\<close>

theorem sync_session_collects_batches:
  assumes "ctrl_reachable c" and "handle_full_sync_start now m c = (c1, ret)" and "sr_accepted ret"
    and "\<forall>(t, x) \<in> set ms. keeps_session (fs_instance m) (fs_worker m) x"
  defines "bs \<equiv> session_batches (fs_instance m) (fs_worker m) (fs_sync_id m) ms"
    and "c2 \<equiv> run_msgs ms c1"
  shows "get_worker_kv_keys (fs_instance m) (fs_worker m) (fs_location m) c2 = batch_keys (fs_location m) bs \<and>
    get_missing_batches (fs_instance m) (fs_worker m) (fs_sync_id m) c2 =
      filter (\<lambda>b. b \<notin> batch_ids bs) [0..fs_batch_count m - 1] \<and>
    is_worker_syncing (fs_instance m) (fs_worker m) c2 \<and>
    (\<forall>bsz keys. 0 < bsz \<and> fss_batch_count bsz (int (length keys)) = Inr (fs_batch_count m) \<and>
       (\<forall>(b, l, ks) \<in> set bs. b \<in> {0..fs_batch_count m - 1} \<and> l = fs_location m \<and> ks = batch_slice bsz keys b) \<and>
       get_missing_batches (fs_instance m) (fs_worker m) (fs_sync_id m) c2 = []
     \<longrightarrow> get_worker_kv_keys (fs_instance m) (fs_worker m) (fs_location m) c2 = set keys)"
proof -
  note s = session_after_start[OF ctrl_reachable_inv[OF assms(1)] assms(2,3)]
  note r = session_run[OF s(1,2) assms(4), of "fs_location m", folded bs_def c2_def]
  have keys: "get_worker_kv_keys (fs_instance m) (fs_worker m) (fs_location m) c2 = batch_keys (fs_location m) bs"
    using r s(3) by simp
  have info: "session_info (fs_instance m) (fs_worker m) (fs_sync_id m) (fs_batch_count m) (batch_ids bs) c2"
    using r by simp
  note missing = session_missing[OF info]
  have "is_worker_syncing (fs_instance m) (fs_worker m) c2"
    using session_info_open[OF info] by (auto simp: is_worker_syncing_open)
  moreover have "batch_keys (fs_location m) bs = set ks"
    if "0 < bsz" "fss_batch_count bsz (int (length ks)) = Inr (fs_batch_count m)"
      "\<forall>(b, l, xs) \<in> set bs. b \<in> {0..fs_batch_count m - 1} \<and> l = fs_location m \<and> xs = batch_slice bsz ks b"
      "get_missing_batches (fs_instance m) (fs_worker m) (fs_sync_id m) c2 = []" for bsz and ks
  proof -
    have "fs_batch_count m = max ((int (length ks) + bsz - 1) div bsz) 1"
      using that(1,2) by (simp add: fss_batch_count_def)
    note pieces = batch_slice_pieces(1)[OF that(1) this]
    have "{0..fs_batch_count m - 1} \<subseteq> batch_ids bs"
      using that(4) unfolding missing by (auto simp: filter_empty_conv)
    from batch_keys_slices[OF that(3) this pieces] show ?thesis .
  qed
  ultimately show ?thesis using keys missing by blast
qed

definition demo_start :: full_sync_start_msg where
  "demo_start = \<lparr>fs_instance = ''B'', fs_worker = 0, fs_location = ''L'', fs_sync_id = ''s'',
     fs_total_keys = 3, fs_batch_count = 2\<rparr>"

definition demo_batch :: "int \<Rightarrow> nat list \<Rightarrow> nat full_sync_batch_msg" where
  "demo_batch b ks = \<lparr>fb_instance = ''B'', fb_worker = 0, fb_location = ''L'', fb_sync_id = ''s'',
     fb_batch_id = b, fb_keys = ks\<rparr>"

theorem sync_session_collects_batches_witness:
  "get_worker_kv_keys ''B'' 0 ''L''
     (run_msgs [(10, FullSyncBatchMsg (demo_batch 1 [3])),
                (11, BatchedKVOperationMsg (demo_msg ''B'' 0 [(ADMIT, 50, 3)])),
                (12, FullSyncBatchMsg (demo_batch 0 [1, 2]))]
        (fst (handle_full_sync_start 9 demo_start demo_ctrl))) = {1, 2, 3}"
proof -
  obtain c1 ret where h: "handle_full_sync_start 9 demo_start demo_ctrl = (c1, ret)" by fastforce
  have "sr_accepted (snd (handle_full_sync_start 9 demo_start demo_ctrl))" by code_simp
  then have acc: "sr_accepted ret" by (simp add: h)
  let ?ms = "[(10, FullSyncBatchMsg (demo_batch 1 [3])),
                (11, BatchedKVOperationMsg (demo_msg ''B'' 0 [(ADMIT, 50, 3)])),
                (12, FullSyncBatchMsg (demo_batch 0 [1, 2]))]"
  have "\<forall>(t, x) \<in> set ?ms. keeps_session (fs_instance demo_start) (fs_worker demo_start) x" by simp
  from sync_session_collects_batches[OF demo_ctrl_reachable h acc this]
  have "get_worker_kv_keys ''B'' 0 ''L'' (run_msgs ?ms c1) =
    batch_keys ''L'' (session_batches ''B'' 0 ''s'' ?ms)" by (simp add: demo_start_def)
  also have "\<dots> = {1, 2, 3}"
    by (auto simp: session_batches_def map_filter_simps demo_batch_def)
  finally show ?thesis by (simp add: h)
qed

text \<open>
  A lost batch is never asked for again once the end message of the session was handled:
  whatever is missing, the worker is told that the sync is complete and that no batch is missing,
  the key set stays as it is, and a batch that is resent for the session is dropped.
\<close>

theorem sync_end_hides_lost_batches:
  assumes "ctrl_reachable c" and "session_open inst w sid c"
    and "fe_instance e = inst" and "fe_worker e = w" and "fe_sync_id e = sid"
    and "fb_instance b = inst" and "fb_worker b = w" and "fb_sync_id b = sid"
    and "handle_full_sync_status t inst w sid (handle_full_sync_end now e c) = (c2, ret)"
  shows "fr_is_complete ret \<and> fr_missing_batches ret = [] \<and>
    get_worker_kv_keys inst w loc (handle_full_sync_end now e c) = get_worker_kv_keys inst w loc c \<and>
    handle_full_sync_batch t' b (handle_full_sync_end now e c) = handle_full_sync_end now e c"
proof -
  let ?c = "handle_full_sync_end now e c"
  note f = full_sync_end_facts[OF ctrl_reachable_inv[OF assms(1)], where m = e and now = now]
  obtain s where s: "get_sync_info inst w ?c = Some s" "sync_id s = sid" "sync_state s = COMPLETED"
    using f(4)[of inst w] assms(2-5) by (auto simp: session_open_def get_sync_id_def)
  note st = handle_status_facts[OF f(1) assms(9)]
  have "\<not> session_open (fb_instance b) (fb_worker b) (fb_sync_id b) ?c"
    using s assms(6-8) by (simp add: session_open_def)
  from full_sync_batch_facts(5)[OF f(1) this] st(3,4) s f(3) show ?thesis
    by (simp add: get_missing_completed)
qed

definition demo_end :: full_sync_end_msg where
  "demo_end = \<lparr>fe_instance = ''B'', fe_worker = 0, fe_location = ''L'', fe_sync_id = ''s'', fe_actual_total_keys = 3\<rparr>"

definition demo_lossy :: "nat kv_controller" where
  "demo_lossy = fst (handle_worker_msg 10 (FullSyncBatchMsg (demo_batch 0 [1, 2]))
     (fst (handle_worker_msg 9 (FullSyncStartMsg demo_start) demo_ctrl)))"

theorem sync_end_hides_lost_batches_witness:
  "get_missing_batches ''B'' 0 ''s'' demo_lossy = [1] \<and>
   get_worker_kv_keys ''B'' 0 ''L'' (handle_full_sync_batch 13 (demo_batch 1 [3]) (handle_full_sync_end 11 demo_end demo_lossy)) = {1, 2}"
proof -
  have r: "ctrl_reachable demo_lossy"
    unfolding demo_lossy_def by (intro ctrl_reachable.message demo_ctrl_reachable)
  have "get_missing_batches ''B'' 0 ''s'' demo_lossy = [1]" by code_simp
  moreover have "get_worker_kv_keys ''B'' 0 ''L'' demo_lossy = {1, 2}" by code_simp
  moreover have "session_open ''B'' 0 ''s'' demo_lossy"
  proof -
    have "is_worker_syncing ''B'' 0 demo_lossy" "get_sync_id ''B'' 0 demo_lossy = Some ''s''" by code_simp+
    then show ?thesis by (auto simp: is_worker_syncing_open session_open_def get_sync_id_def)
  qed
  moreover obtain c2 ret where "handle_full_sync_status 12 ''B'' 0 ''s'' (handle_full_sync_end 11 demo_end demo_lossy) = (c2, ret)"
    by fastforce
  ultimately show ?thesis
    using sync_end_hides_lost_batches[OF r, of "''B''" 0 "''s''" demo_end "demo_batch 1 [3]" 12 11 c2 ret "''L''" 13]
    by (simp add: demo_end_def demo_batch_def)
qed

lemma never_synced_ready:
  assumes inv: "ctrl_inv c" and "(inst, i) \<in> set (all_worker_nodes_fresh c)"
    and "\<forall>inst w. get_sync_info inst w c = None"
  shows "node_ready (node_at c i)"
proof -
  obtain w where w: "get_worker inst w c = Some i"
    using assms(2) fresh_nodes[OF ctrl_inv_registry[OF inv]] by blast
  have "get_sync_info inst w c = sync_info (node_at c i)" by (simp add: get_sync_info_def w)
  with assms(3) show ?thesis by (simp add: node_ready_def)
qed

text \<open>
  The freeze threshold counts a worker that never started a sync as ready. When the worker
  list is read anew, some worker is registered, and no worker has started a sync yet, then
  before the status query every worker is asked for a full sync, yet the query reports a
  progress of one and that freezing can end, for every threshold up to one; afterwards no
  worker is asked for a full sync any more.
\<close>

theorem freeze_exit_counts_unsynced_workers:
  assumes "ctrl_reachable c" and "need_full_sync_all c" and "all_worker_nodes_fresh c \<noteq> []"
    and "ttl_is_expired None now (worker_node_cache c)"
    and "\<forall>inst w. get_sync_info inst w c = None"
    and "0 < snd (completion_threshold c)" and "fst (completion_threshold c) \<le> snd (completion_threshold c)"
    and "handle_full_sync_status now inst w sid c = (c', ret)"
  shows "fr_can_exit_freeze ret \<and> fst (fr_global_progress ret) = snd (fr_global_progress ret) \<and>
    (\<forall>inst w. should_request_full_sync inst w c = (True, Some ''controller_restart'')) \<and>
    (\<forall>inst w. should_request_full_sync inst w c' = (False, None))"
proof -
  have inv: "ctrl_inv c" by (rule ctrl_reachable_inv[OF assms(1)])
  obtain c1 nodes where n: "all_worker_nodes_cached now None c = (c1, nodes)" by fastforce
  note nf = nodes_cached_facts[OF inv n]
  have nodes: "nodes = all_worker_nodes_fresh c" by (rule nf(5)[OF assms(4)])
  have na: "node_at c1 = node_at c" by (rule same_tree_views(5)[OF nf(2)])
  have "filter (\<lambda>(inst, i). node_ready (node_at c1 i)) nodes = nodes"
    unfolding na nodes by (rule filter_True) (use never_synced_ready[OF inv _ assms(5)] in auto)
  then have g: "get_global_progress now c = (c1, (int (length nodes), int (length nodes)))"
    using n assms(3) by (simp add: get_global_progress_def nodes)
  obtain c2 ok where e: "can_exit_freeze (int (length nodes), int (length nodes)) c1 = (c2, ok)" by fastforce
  note ef = can_exit_facts[OF e]
  have ok: ok using ef(4) assms(7) nf(4) by (simp add: progress_ge_def mult.commute mult_left_mono)
  have ret: "c' = c2" "fr_can_exit_freeze ret = ok" "fr_global_progress ret = (int (length nodes), int (length nodes))"
    using assms(8) g e by (auto simp: handle_full_sync_status_def get_sync_status_def Let_def)
  have "get_sync_info inst w c2 = None" for inst w
    using assms(5) by (simp add: same_tree_views(3)[OF ef(1)] same_tree_views(3)[OF nf(2)])
  then show ?thesis using ok ef(3) assms(2,5) by (simp add: ret should_request_full_sync_def)
qed

theorem freeze_exit_counts_unsynced_workers_witness:
  "fr_can_exit_freeze (snd (handle_full_sync_status 9 ''A'' 1 ''s'' demo_ctrl0)) \<and>
   should_request_full_sync ''A'' 1 demo_ctrl0 = (True, Some ''controller_restart'')"
proof -
  have h: "need_full_sync_all demo_ctrl0" "ttl_is_expired None 9 (worker_node_cache demo_ctrl0)"
    "completion_threshold demo_ctrl0 = (4, 5)"
    by code_simp+
  have f: "all_worker_nodes_fresh demo_ctrl0 = [(''A'', 0), (''B'', 1)]" by code_simp
  then have ne: "all_worker_nodes_fresh demo_ctrl0 \<noteq> []" by simp
  have s: "sync_info (node_at demo_ctrl0 0) = None" "sync_info (node_at demo_ctrl0 1) = None" by code_simp+
  have none: "get_sync_info inst w demo_ctrl0 = None" for inst w
  proof (cases "get_worker inst w demo_ctrl0")
    case (Some i)
    then have "(inst, i) \<in> set (all_worker_nodes_fresh demo_ctrl0)"
      using fresh_nodes[OF ctrl_reachable_registry[OF demo_ctrl0_reachable]] by blast
    then have "i = 0 \<or> i = 1" by (auto simp: f)
    then show ?thesis using Some s by (auto simp: get_sync_info_def)
  qed (simp add: get_sync_info_def)
  obtain c' ret where r: "handle_full_sync_status 9 ''A'' 1 ''s'' demo_ctrl0 = (c', ret)" by fastforce
  show ?thesis
    using freeze_exit_counts_unsynced_workers[OF demo_ctrl0_reachable h(1) ne h(2) _ _ _ r] none by (simp add: h(3) r)
qed

text \<open>
  A heartbeat of a worker the controller does not know registers it, with an empty key set,
  and asks it for a full sync; a heartbeat of a known worker changes nothing that a lookup can
  see and asks for a sync exactly when the tracker does. Either way every other worker keeps its
  keys, and the sync sessions stay as they are.
\<close>

theorem heartbeat_registers_and_requests:
  assumes "ctrl_reachable c" and "rc_heartbeat now inst w addr prt url c = (c', cmds)"
  shows "get_worker inst w c' \<noteq> None \<and>
    (\<forall>inst' w' loc. get_worker_kv_keys inst' w' loc c' = get_worker_kv_keys inst' w' loc c) \<and>
    (\<forall>inst' w'. get_sync_info inst' w' c' = get_sync_info inst' w' c) \<and>
    (get_worker inst w c = None \<longrightarrow> cmds = [Some ''worker_re_registered''] \<and>
       get_peer_init_url inst w c' = url \<and> (\<forall>loc. get_worker_kv_keys inst w loc c' = {})) \<and>
    (get_worker inst w c \<noteq> None \<longrightarrow>
       (cmds \<noteq> [] \<longleftrightarrow> fst (should_request_full_sync inst w c)) \<and> get_worker inst w c' = get_worker inst w c)"
proof -
  note f = rc_heartbeat_facts[OF ctrl_reachable_inv[OF assms(1)] assms(2)]
  have url: "get_peer_init_url inst w c' = url" if none: "get_worker inst w c = None"
  proof -
    have "c' = rc_register now inst w addr prt url c"
      using assms(2) none by (auto simp: rc_heartbeat_def update_heartbeat_def split: prod.splits)
    then have "node_store c' = node_store c @ [mk_worker_node w addr prt url now]"
      using none by (simp add: rc_register_def register_worker_store)
    then show ?thesis using f(2)[of inst w] none
      by (simp add: get_peer_init_url_def node_at_def mk_worker_node_def)
  qed
  have "get_worker_kv_keys inst w loc c' = {}" if "get_worker inst w c = None" for loc
    using f(4)[of inst w loc] that by (simp add: kv_keys_eq)
  then show ?thesis using f(2)[of inst w] f(3,4,5) url by (auto split: if_splits)
qed

theorem heartbeat_registers_and_requests_witness:
  "get_worker ''Z'' 3 (fst (rc_heartbeat 9 ''Z'' 3 ''h'' 1 (Some ''x'') demo_ctrl)) \<noteq> None \<and>
   snd (rc_heartbeat 9 ''Z'' 3 ''h'' 1 (Some ''x'') demo_ctrl) = [Some ''worker_re_registered'']"
proof -
  have "get_worker ''Z'' 3 demo_ctrl = None" by code_simp
  then show ?thesis
    using heartbeat_registers_and_requests[OF demo_ctrl_reachable surjective_pairing[of "rc_heartbeat 9 ''Z'' 3 ''h'' 1 (Some ''x'') demo_ctrl"]]
    by simp
qed

end
