(* ===== verification/PyStr.thy ===== *)
theory PyStr
  imports Prelude
begin

text \<open>
  The string operations of Python that the keys and the wire protocol use: \<open>str.split\<close>,
  \<open>str.join\<close>, \<open>str.strip\<close>, \<open>str.startswith\<close>, formatting of integers and \<open>int(s, base)\<close>.
  A string is a list of 8-bit characters, so the model covers text up to code point 255.
\<close>

named_theorems str_simps

section \<open>Splitting and joining\<close>

fun py_split :: "char \<Rightarrow> string \<Rightarrow> string list" where
  "py_split d [] = [[]]"
| "py_split d (c # cs) =
     (if c = d then [] # py_split d cs
      else case py_split d cs of [] \<Rightarrow> [[c]] | p # ps \<Rightarrow> (c # p) # ps)"

definition py_split1 :: "char \<Rightarrow> string \<Rightarrow> string list" where
  "py_split1 d s = (if d \<in> set s then [takeWhile (\<lambda>c. c \<noteq> d) s, tl (dropWhile (\<lambda>c. c \<noteq> d) s)] else [s])"

fun py_join :: "char \<Rightarrow> string list \<Rightarrow> string" where
  "py_join d [] = []"
| "py_join d [p] = p"
| "py_join d (p # q # ps) = p @ [d] @ py_join d (q # ps)"

definition py_isspace :: "char \<Rightarrow> bool" where
  "py_isspace c \<longleftrightarrow> (let n = (of_char c :: nat) in (9 \<le> n \<and> n \<le> 13) \<or> (28 \<le> n \<and> n \<le> 32) \<or> n = 133 \<or> n = 160)"

definition py_lstrip :: "string \<Rightarrow> string" where
  "py_lstrip s = dropWhile py_isspace s"

definition py_rstrip :: "string \<Rightarrow> string" where
  "py_rstrip s = rev (dropWhile py_isspace (rev s))"

definition py_strip :: "string \<Rightarrow> string" where
  "py_strip s = py_rstrip (py_lstrip s)"

definition py_startswith :: "string \<Rightarrow> string \<Rightarrow> bool" where
  "py_startswith p s \<longleftrightarrow> take (length p) s = p"

lemma py_split_not_Nil [simp]: "py_split d s \<noteq> []"
  by (induction s) (auto split: list.split)

lemma py_split_no_sep: "d \<notin> set s \<Longrightarrow> py_split d s = [s]"
  by (induction s) auto

lemma py_split_append: "d \<notin> set p \<Longrightarrow> py_split d (p @ d # s) = p # py_split d s"
  by (induction p) auto

lemma py_split_join:
  "ps \<noteq> [] \<Longrightarrow> \<forall>p \<in> set ps. d \<notin> set p \<Longrightarrow> py_split d (py_join d ps) = ps"
  by (induction d ps rule: py_join.induct) (auto simp: py_split_no_sep py_split_append)

lemma py_join_Cons: "py_join d (p # ps) = (if ps = [] then p else p @ d # py_join d ps)"
  by (cases ps) auto

lemma set_py_join: "set (py_join d ps) \<subseteq> insert d (\<Union>(set ` set ps))"
  by (induction d ps rule: py_join.induct) auto

lemma py_split1_append: "d \<notin> set k \<Longrightarrow> py_split1 d (k @ d # v) = [k, v]"
proof -
  assume "d \<notin> set k"
  then have "takeWhile (\<lambda>c. c \<noteq> d) (k @ d # v) = k \<and> dropWhile (\<lambda>c. c \<noteq> d) (k @ d # v) = d # v"
    by (induction k) auto
  then show ?thesis by (simp add: py_split1_def)
qed

lemma py_lstrip_append: "\<not> py_isspace d \<Longrightarrow> py_lstrip (p @ d # s) = py_lstrip p @ d # s"
  by (induction p) (auto simp: py_lstrip_def)

lemma py_rstrip_append: "\<not> py_isspace d \<Longrightarrow> py_rstrip (p @ d # s) = p @ d # py_rstrip s"
  using py_lstrip_append[of d "rev s" "rev p"] by (simp add: py_rstrip_def py_lstrip_def)

lemma py_strip_between:
  assumes "\<not> py_isspace d" and "\<not> py_isspace e"
  shows "py_strip (p @ d # m @ e # s) = py_lstrip p @ d # m @ e # py_rstrip s"
  using py_lstrip_append[OF assms(1), of p "m @ e # s"]
    py_rstrip_append[OF assms(2), of "py_lstrip p @ d # m" s] by (simp add: py_strip_def)

lemma py_strip_no_space: "\<forall>c \<in> set s. \<not> py_isspace c \<Longrightarrow> py_strip s = s"
proof -
  assume s: "\<forall>c \<in> set s. \<not> py_isspace c"
  have d: "dropWhile py_isspace t = t" if "\<forall>c \<in> set t. \<not> py_isspace c" for t
    using that by (cases t) auto
  show ?thesis using d[OF s] d[of "rev s"] s by (simp add: py_strip_def py_lstrip_def py_rstrip_def)
qed

lemma set_py_lstrip: "set (py_lstrip s) \<subseteq> set s"
  by (auto simp: py_lstrip_def dest: set_dropWhileD)

text \<open>Padding with blanks on the right, \<open>bytes.ljust\<close>, is undone by \<open>strip\<close>.\<close>

lemma py_rstrip_blanks: "py_rstrip (s @ replicate n CHR '' '') = py_rstrip s"
proof -
  have "py_isspace CHR '' ''" by (simp add: py_isspace_def)
  then show ?thesis by (simp add: py_rstrip_def dropWhile_append)
qed

lemma py_strip_ljust:
  assumes "s \<noteq> []" and "\<not> py_isspace (hd s)" and "\<not> py_isspace (last s)"
  shows "py_strip (s @ replicate n CHR '' '') = s"
proof -
  obtain p c where s: "s = p @ [c]" using assms(1) by (cases s rule: rev_cases) auto
  have "py_lstrip (s @ replicate n CHR '' '') = s @ replicate n CHR '' ''"
    using assms(1,2) by (cases s) (auto simp: py_lstrip_def)
  moreover have "py_rstrip s = s" using assms(3) by (simp add: py_rstrip_def s)
  ultimately show ?thesis by (simp add: py_strip_def py_rstrip_blanks)
qed

section \<open>Integers as text\<close>

definition digit_char :: "nat \<Rightarrow> char" where
  "digit_char n = char_of (if n < 10 then 48 + n else 87 + n)"

definition digit_val :: "char \<Rightarrow> nat option" where
  "digit_val c =
     (let n = (of_char c :: nat)
      in if 48 \<le> n \<and> n \<le> 57 then Some (n - 48)
         else if 97 \<le> n \<and> n \<le> 122 then Some (n - 87)
         else if 65 \<le> n \<and> n \<le> 90 then Some (n - 55) else None)"

function show_digits :: "nat \<Rightarrow> nat \<Rightarrow> string" where
  "show_digits b n = (if b < 2 \<or> n < b then [digit_char n] else show_digits b (n div b) @ [digit_char (n mod b)])"
  by pat_completeness auto
termination
  by (relation "measure snd") auto

declare show_digits.simps [simp del]

definition show_int :: "nat \<Rightarrow> int \<Rightarrow> string" where
  "show_int b i = (if i < 0 then CHR ''-'' # show_digits b (nat (- i)) else show_digits b (nat i))"

text \<open>Digits with single underscores between them; the flag tells that the last character was a
  digit.\<close>

fun read_digits :: "nat \<Rightarrow> bool \<Rightarrow> nat \<Rightarrow> string \<Rightarrow> nat option" where
  "read_digits b ok acc [] = (if ok then Some acc else None)"
| "read_digits b ok acc (c # cs) =
     (if c = CHR ''_'' then (if ok then read_digits b False acc cs else None)
      else case digit_val c of
             None \<Rightarrow> None
           | Some d \<Rightarrow> if d < b then read_digits b True (acc * b + d) cs else None)"

definition strip_hex_prefix :: "string \<Rightarrow> string" where
  "strip_hex_prefix s =
     (case s of
        c # x # rest \<Rightarrow>
          if c = CHR ''0'' \<and> (x = CHR ''x'' \<or> x = CHR ''X'')
          then (case rest of u # us \<Rightarrow> if u = CHR ''_'' then us else rest | [] \<Rightarrow> rest) else s
      | _ \<Rightarrow> s)"

definition py_int :: "nat \<Rightarrow> string \<Rightarrow> int result" where
  "py_int b s =
     (let t = py_strip s;
          neg = (t \<noteq> [] \<and> hd t = CHR ''-'');
          u = (if t \<noteq> [] \<and> (hd t = CHR ''-'' \<or> hd t = CHR ''+'') then tl t else t);
          v = (if b = 16 then strip_hex_prefix u else u)
      in case read_digits b False 0 v of
           None \<Rightarrow> Inl ValueError
         | Some n \<Rightarrow> Inr (if neg then - int n else int n))"

definition py_isdigit :: "string \<Rightarrow> bool" where
  "py_isdigit s \<longleftrightarrow> s \<noteq> [] \<and>
     (\<forall>c \<in> set s. let n = (of_char c :: nat) in (48 \<le> n \<and> n \<le> 57) \<or> n = 178 \<or> n = 179 \<or> n = 185)"

lemma digit_char_facts:
  assumes "d < 36"
  shows "digit_val (digit_char d) = Some d" and "\<not> py_isspace (digit_char d)"
    and "digit_char d \<noteq> CHR ''_''" and "digit_char d \<noteq> CHR ''-''" and "digit_char d \<noteq> CHR ''+''"
    and "digit_char d \<noteq> CHR ''@''" and "digit_char d \<noteq> CHR ''%''"
proof -
  have "(of_char (digit_char d) :: nat) = (if d < 10 then 48 + d else 87 + d)"
    using assms by (simp add: digit_char_def)
  moreover have "(of_char c :: nat) = n \<Longrightarrow> c = char_of n" for c n by auto
  ultimately show "digit_val (digit_char d) = Some d" "\<not> py_isspace (digit_char d)"
    "digit_char d \<noteq> CHR ''_''" "digit_char d \<noteq> CHR ''-''" "digit_char d \<noteq> CHR ''+''"
    "digit_char d \<noteq> CHR ''@''" "digit_char d \<noteq> CHR ''%''"
    using assms by (auto simp: digit_val_def py_isspace_def split: if_splits)
qed

lemma show_digits_chars:
  assumes "2 \<le> b"
  shows "\<forall>c \<in> set (show_digits b n). \<exists>d < b. c = digit_char d"
  using assms
proof (induction b n rule: show_digits.induct)
  case (1 b n)
  show ?case
  proof (cases "n < b")
    case True
    then show ?thesis by (subst show_digits.simps) auto
  next
    case False
    with 1 have ih: "\<forall>c \<in> set (show_digits b (n div b)). \<exists>d < b. c = digit_char d" by simp
    have m: "n mod b < b" using 1(2) by simp
    have "show_digits b n = show_digits b (n div b) @ [digit_char (n mod b)]"
      using False 1(2) by (subst show_digits.simps) simp
    then show ?thesis using ih m by auto
  qed
qed

lemma show_digits_ne [simp]: "show_digits b n \<noteq> []"
  by (subst show_digits.simps) simp

lemma read_digits_append:
  "read_digits b ok acc s = Some m \<Longrightarrow> s \<noteq> [] \<Longrightarrow> last s \<noteq> CHR ''_'' \<Longrightarrow>
   read_digits b ok acc (s @ t) = read_digits b True m t"
proof (induction b ok acc s rule: read_digits.induct)
  case (2 b ok acc c cs)
  then show ?case by (cases cs) (auto split: option.splits if_splits)
qed simp

lemma show_digits_class:
  assumes "2 \<le> b" and "b \<le> 36" and "c \<in> set (show_digits b n)"
  shows "\<not> py_isspace c" and "c \<noteq> CHR ''_''" and "c \<noteq> CHR ''-''" and "c \<noteq> CHR ''+''"
    and "c \<noteq> CHR ''@''" and "c \<noteq> CHR ''%''"
proof -
  obtain d where "d < b" "c = digit_char d" using show_digits_chars assms by blast
  then show "\<not> py_isspace c" "c \<noteq> CHR ''_''" "c \<noteq> CHR ''-''" "c \<noteq> CHR ''+''" "c \<noteq> CHR ''@''" "c \<noteq> CHR ''%''"
    using digit_char_facts[of d] assms(2) by auto
qed

lemma read_show_digits:
  assumes "2 \<le> b" and "b \<le> 36"
  shows "read_digits b ok 0 (show_digits b n) = Some n"
  using assms
proof (induction b n arbitrary: ok rule: show_digits.induct)
  case (1 b n)
  show ?case
  proof (cases "n < b")
    case True
    with 1 show ?thesis by (subst show_digits.simps) (simp add: digit_char_facts)
  next
    case False
    with 1 have ih: "read_digits b ok 0 (show_digits b (n div b)) = Some (n div b)" by simp
    have m: "n mod b < b" using 1(2) by simp
    have "read_digits b ok 0 (show_digits b (n div b) @ [digit_char (n mod b)])
        = read_digits b True (n div b) [digit_char (n mod b)]"
      using show_digits_class(2)[OF 1(2,3), of _ "n div b"]
      by (intro read_digits_append[OF ih]) auto
    also have "\<dots> = Some n" using m 1(3) by (simp add: digit_char_facts mult.commute)
    finally show ?thesis using False 1(2) by (subst show_digits.simps) simp
  qed
qed


lemma strip_hex_digits:
  assumes "2 \<le> b" and "b \<le> 16"
  shows "strip_hex_prefix (show_digits b n) = show_digits b n"
proof (cases "show_digits b n")
  case (Cons c cs)
  show ?thesis
  proof (cases cs)
    case (Cons x ys)
    have "\<exists>d < b. x = digit_char d" using show_digits_chars[OF assms(1), of n] Cons \<open>show_digits b n = c # cs\<close> by auto
    then obtain d where "d < b" "x = digit_char d" by blast
    moreover from this have "d < 16" using assms(2) by linarith
    ultimately have "d < 16" "x = digit_char d" by simp_all
    then have "digit_val x = Some d" by (simp add: digit_char_facts)
    then have "x \<noteq> CHR ''x'' \<and> x \<noteq> CHR ''X''" using \<open>d < 16\<close> by (auto simp: digit_val_def)
    then show ?thesis using Cons \<open>show_digits b n = c # cs\<close> by (simp add: strip_hex_prefix_def)
  qed (use Cons in \<open>simp add: strip_hex_prefix_def\<close>)
qed (simp add: strip_hex_prefix_def)

theorem py_int_show_int:
  assumes "2 \<le> b" and "b \<le> 16"
  shows "py_int b (show_int b i) = Inr i"
proof -
  have b36: "b \<le> 36" using assms(2) by simp
  have sp: "\<not> py_isspace CHR ''-''" by (simp add: py_isspace_def)
  have st: "py_strip (show_int b i) = show_int b i"
    using show_digits_class(1)[OF assms(1) b36] sp
    by (intro py_strip_no_space) (auto simp: show_int_def split: if_splits)
  have hd: "hd (show_digits b n) \<noteq> CHR ''-'' \<and> hd (show_digits b n) \<noteq> CHR ''+''" for n
    using show_digits_class(3,4)[OF assms(1) b36, of "hd (show_digits b n)" n] by simp
  show ?thesis
    using st hd[of "nat i"] strip_hex_digits[OF assms] read_show_digits[OF assms(1) b36]
    by (cases "i < 0"; cases "b = 16") (simp_all add: py_int_def show_int_def Let_def)
qed

lemma show_int_class:
  assumes "2 \<le> b" and "b \<le> 16" and "c \<in> set (show_int b i)"
  shows "\<not> py_isspace c" and "c \<noteq> CHR ''@''" and "c \<noteq> CHR ''%''"
  using show_digits_class[of b c] assms
  by (auto simp: show_int_def py_isspace_def split: if_splits)

end
