(* ===== verification/Keys.thy ===== *)
theory Keys
  imports PyStr
begin

text \<open>
  The keys of the cache (\<open>utils.py\<close>): \<open>CacheEngineKey\<close> and \<open>LayerCacheEngineKey\<close> with
  their text and dictionary forms, the tables of torch dtypes, the integer helpers, and the
  compressed form of slot mappings. The dtypes listed under "FP8 variants" exist from
  PyTorch 2.2 on and are taken to exist. A value of \<open>request_configs\<close> is the text that
  formatting it gives.
\<close>

declare map_of_eq_Some_iff [simp del] Some_eq_map_of_iff [simp del]

named_theorems key_simps \<comment> \<open>unfolding of the key operations\<close>

section \<open>Integer helpers\<close>

definition cdiv :: "int \<Rightarrow> int \<Rightarrow> int result" where
  "cdiv a b = (if b = 0 then Inl ZeroDivisionError else Inr (- (a div (- b))))"

definition round_down :: "int \<Rightarrow> int \<Rightarrow> int result" where
  "round_down x y = (if y = 0 then Inl ZeroDivisionError else Inr ((x div y) * y))"

lemma cdiv_ceiling:
  assumes "0 < b"
  shows "\<exists>q. cdiv a b = Inr q \<and> a \<le> q * b \<and> q * b < a + b"
proof -
  have "a div (- b) = (- a) div b" by (metis div_minus_minus minus_minus)
  moreover have "((- a) div b) * b + (- a) mod b = - a" by (rule div_mult_mod_eq)
  moreover have "0 \<le> (- a) mod b" and "(- a) mod b < b" using assms by simp_all
  moreover have "(- ((- a) div b)) * b = - (((- a) div b) * b)" by simp
  ultimately have "a \<le> (- (a div (- b))) * b \<and> (- (a div (- b))) * b < a + b"
    by (simp only:) linarith
  then show ?thesis using assms by (simp add: cdiv_def)
qed

lemma round_down_bounds:
  assumes "0 < y"
  shows "\<exists>r. round_down x y = Inr r \<and> r \<le> x \<and> x < r + y \<and> r mod y = 0"
proof -
  have "x div y * y + x mod y = x" by (rule div_mult_mod_eq)
  moreover have "0 \<le> x mod y" and "x mod y < y" using assms by simp_all
  ultimately have "x div y * y \<le> x \<and> x < x div y * y + y" by linarith
  then show ?thesis using assms by (simp add: round_down_def)
qed

section \<open>Slot mappings\<close>

datatype slot_item = Slot int | Range int int

definition append_range_or_elements :: "slot_item list \<Rightarrow> int \<Rightarrow> int \<Rightarrow> slot_item list" where
  "append_range_or_elements result a b =
     (if 3 \<le> b - a + 1 then result @ [Range a b] else result @ map Slot [a..b])"

fun compress_loop :: "slot_item list \<Rightarrow> int \<Rightarrow> int \<Rightarrow> int list \<Rightarrow> slot_item list" where
  "compress_loop result rs re [] = append_range_or_elements result rs re"
| "compress_loop result rs re (slot # slots) =
     (if slot = re + 1 then compress_loop result rs slot slots
      else compress_loop (append_range_or_elements result rs re) slot slot slots)"

definition compress_slot_mapping :: "int list \<Rightarrow> slot_item list" where
  "compress_slot_mapping slots = (case slots of [] \<Rightarrow> [] | s # ss \<Rightarrow> compress_loop [] s s ss)"

fun decompress_slot_mapping :: "slot_item list \<Rightarrow> int list" where
  "decompress_slot_mapping [] = []"
| "decompress_slot_mapping (Slot i # items) = i # decompress_slot_mapping items"
| "decompress_slot_mapping (Range a b # items) = [a..b] @ decompress_slot_mapping items"

lemma decompress_append [simp]:
  "decompress_slot_mapping (xs @ ys) = decompress_slot_mapping xs @ decompress_slot_mapping ys"
  by (induction xs rule: decompress_slot_mapping.induct) auto

lemma decompress_Slots [simp]: "decompress_slot_mapping (map Slot xs) = xs"
  by (induction xs) auto

lemma decompress_append_range:
  "decompress_slot_mapping (append_range_or_elements r a b) = decompress_slot_mapping r @ [a..b]"
  by (simp add: append_range_or_elements_def)

lemma decompress_compress_loop:
  "rs \<le> re \<Longrightarrow>
   decompress_slot_mapping (compress_loop r rs re slots) = decompress_slot_mapping r @ [rs..re] @ slots"
proof (induction r rs re slots rule: compress_loop.induct)
  case (2 r rs re slot slots)
  have "[rs..re + 1] = [rs..re] @ [re + 1]" using 2(3) by (simp add: upto_rec2)
  with 2 show ?case by (auto simp: decompress_append_range)
qed (simp add: decompress_append_range)

text \<open>A compressed list: every range has at least three members, and it does not get longer.\<close>

definition long_ranges :: "slot_item list \<Rightarrow> bool" where
  "long_ranges items \<longleftrightarrow> (\<forall>a b. Range a b \<in> set items \<longrightarrow> a + 2 \<le> b)"

lemma append_range_props:
  assumes "a \<le> b" and "long_ranges r"
  shows "long_ranges (append_range_or_elements r a b)"
    and "length (append_range_or_elements r a b) \<le> length r + nat (b - a + 1)"
    and "set (decompress_slot_mapping (append_range_or_elements r a b))
      = set (decompress_slot_mapping r) \<union> {a..b}"
  using assms by (auto simp: append_range_or_elements_def long_ranges_def)

lemma compress_loop_props:
  "rs \<le> re \<Longrightarrow> long_ranges r \<Longrightarrow>
   long_ranges (compress_loop r rs re slots) \<and>
   length (compress_loop r rs re slots) \<le> length r + nat (re - rs + 1) + length slots"
proof (induction r rs re slots rule: compress_loop.induct)
  case (2 r rs re slot slots)
  show ?case
  proof (cases "slot = re + 1")
    case True with 2 show ?thesis by (simp add: nat_add_distrib)
  next
    case False
    have "length (compress_loop r rs re (slot # slots))
        \<le> length (append_range_or_elements r rs re) + 1 + length slots \<and>
      long_ranges (compress_loop r rs re (slot # slots))"
      using 2(2)[OF False] append_range_props(1)[OF 2(3,4)] False by simp
    moreover have "length (append_range_or_elements r rs re) \<le> length r + nat (re - rs + 1)"
      by (rule append_range_props(2)[OF 2(3,4)])
    ultimately show ?thesis by auto
  qed
qed (auto dest: append_range_props)

lemma decompress_compress: "decompress_slot_mapping (compress_slot_mapping slots) = slots"
  by (simp add: compress_slot_mapping_def decompress_compress_loop split: list.split)

lemma compress_props:
  "long_ranges (compress_slot_mapping slots) \<and> length (compress_slot_mapping slots) \<le> length slots"
proof (cases slots)
  case (Cons s ss)
  then show ?thesis using compress_loop_props[of s s "[]" ss]
    by (simp add: compress_slot_mapping_def long_ranges_def)
qed (simp add: compress_slot_mapping_def long_ranges_def)

text \<open>The text form \<open>1,2,[9,12],17\<close> that the HTTP interface of the cache accepts.\<close>

record slot_error =
  se_error :: string
  se_message :: string

fun split_parts :: "string list \<Rightarrow> string \<Rightarrow> bool \<Rightarrow> string \<Rightarrow> string + string list \<times> string \<times> bool" where
  "split_parts parts buffer in_brackets [] = Inr (parts, buffer, in_brackets)"
| "split_parts parts buffer in_brackets (c # cs) =
     (if c = CHR ''['' then
        (if in_brackets then Inl ''Nested brackets not allowed''
         else split_parts parts (buffer @ [c]) True cs)
      else if c = CHR '']'' then
        (if \<not> in_brackets then Inl ''Unmatched closing bracket''
         else split_parts (parts @ [buffer @ [c]]) [] False cs)
      else if c = CHR '','' \<and> \<not> in_brackets then
        (if buffer \<noteq> [] then split_parts (parts @ [buffer]) [] in_brackets cs
         else split_parts parts buffer in_brackets cs)
      else split_parts parts (buffer @ [c]) in_brackets cs)"

definition is_decimal :: "string \<Rightarrow> bool" where
  "is_decimal s \<longleftrightarrow> s \<noteq> [] \<and> (\<forall>c \<in> set s. let n = (of_char c :: nat) in 48 \<le> n \<and> n \<le> 57)"

definition range_match :: "string \<Rightarrow> (string \<times> string) option" where
  "range_match part =
     (if part \<noteq> [] \<and> hd part = CHR ''['' \<and> last part = CHR '']''
      then (case py_split CHR '','' (butlast (tl part)) of
              [a, b] \<Rightarrow> if is_decimal a \<and> is_decimal b then Some (a, b) else None
            | _ \<Rightarrow> None)
      else None)"

definition invalid_slot :: "string \<Rightarrow> string" where
  "invalid_slot part = ''Invalid slot format: '' @ [CHR 0x27] @ part @ [CHR 0x27]"

fun parse_parts :: "string list \<Rightarrow> slot_item list \<Rightarrow> string + slot_item list" where
  "parse_parts [] compressed = Inr compressed"
| "parse_parts (p # ps) compressed =
     (let part = py_strip p
      in if part = [] then parse_parts ps compressed
         else case range_match part of
                Some (a, b) \<Rightarrow>
                  (case (py_int 10 a, py_int 10 b) of
                     (Inr s, Inr e) \<Rightarrow>
                       if s > e
                       then Inl (''Range start '' @ show_int 10 s @ '' must be <= end '' @ show_int 10 e)
                       else parse_parts ps (compressed @ [Range s e])
                   | _ \<Rightarrow> Inl (invalid_slot part))
              | None \<Rightarrow>
                  (case py_int 10 part of
                     Inr num \<Rightarrow> parse_parts ps (compressed @ [Slot num])
                   | Inl _ \<Rightarrow> Inl (invalid_slot part)))"

definition slot_error_of :: "string \<Rightarrow> slot_error" where
  "slot_error_of e =
     \<lparr> se_error = ''Invalid slot_mapping format'',
       se_message = ''slot_mapping must be comma-separated integers '' @ ''or ranges like [start,end]: '' @ e \<rparr>"

definition parse_mixed_slot_mapping :: "string \<Rightarrow> int list option \<times> slot_error option" where
  "parse_mixed_slot_mapping slot_mapping_str =
     (let clean_str = filter (\<lambda>c. \<not> py_isspace c) slot_mapping_str
      in case split_parts [] [] False clean_str of
           Inl e \<Rightarrow> (None, Some (slot_error_of e))
         | Inr (parts, buffer, in_brackets) \<Rightarrow>
             let parts' = (if buffer \<noteq> [] then parts @ [buffer] else parts)
             in if in_brackets then (None, Some (slot_error_of ''Unclosed bracket''))
                else case parse_parts parts' [] of
                       Inl e \<Rightarrow> (None, Some (slot_error_of e))
                     | Inr compressed \<Rightarrow> (Some (decompress_slot_mapping compressed), None))"

text \<open>The text of a compressed mapping.\<close>

fun show_item :: "slot_item \<Rightarrow> string" where
  "show_item (Slot i) = show_int 10 i"
| "show_item (Range a b) = CHR ''['' # show_int 10 a @ CHR '','' # show_int 10 b @ [CHR '']'']"

definition show_slots :: "slot_item list \<Rightarrow> string" where
  "show_slots items = py_join CHR '','' (map show_item items)"

lemma split_parts_plain:
  "\<forall>c \<in> set s. c \<noteq> CHR ''['' \<and> c \<noteq> CHR '']'' \<and> (c \<noteq> CHR '','' \<or> ib) \<Longrightarrow>
   split_parts ps buf ib (s @ t) = split_parts ps (buf @ s) ib t"
  by (induction s arbitrary: buf) auto

lemma show_int_plain:
  assumes "c \<in> set (show_int 10 i)"
  shows "c \<noteq> CHR ''[''" and "c \<noteq> CHR '']''" and "c \<noteq> CHR '',''" and "\<not> py_isspace c"
proof -
  have c: "c = CHR ''-'' \<or> (\<exists>d < 10. c = digit_char d)"
    using assms show_digits_chars[of 10] by (auto simp: show_int_def split: if_splits)
  have d: "digit_char d \<noteq> CHR ''['' \<and> digit_char d \<noteq> CHR '']'' \<and> digit_char d \<noteq> CHR '',''" if "d < 10" for d
  proof -
    have "digit_val (digit_char d) = Some d" using that by (simp add: digit_char_facts)
    then show ?thesis by (auto simp: digit_val_def)
  qed
  have "c \<noteq> CHR ''['' \<and> c \<noteq> CHR '']'' \<and> c \<noteq> CHR '',''" using c
  proof
    assume "\<exists>d < 10. c = digit_char d"
    then obtain e where "e < 10" and e: "c = digit_char e" by (elim exE conjE)
    from d[OF \<open>e < 10\<close>] show ?thesis unfolding e .
  qed simp
  then show "c \<noteq> CHR ''[''" "c \<noteq> CHR '']''" "c \<noteq> CHR '',''" by blast+
  show "\<not> py_isspace c" using show_int_class(1)[of 10] assms by simp
qed

lemma show_int_ne [simp]: "show_int b i \<noteq> []"
  by (simp add: show_int_def)

lemma split_parts_item:
  "split_parts ps [] False (show_item it @ t) =
     (case it of Slot i \<Rightarrow> split_parts ps (show_item it) False t
      | Range a b \<Rightarrow> split_parts (ps @ [show_item it]) [] False t)"
proof (cases it)
  case (Slot i)
  then show ?thesis
    using split_parts_plain[of "show_int 10 i" False ps "[]" t] show_int_plain by auto
next
  case (Range a b)
  have "split_parts ps ''['' True ((show_int 10 a @ CHR '','' # show_int 10 b) @ CHR '']'' # t)
      = split_parts ps (''['' @ show_int 10 a @ CHR '','' # show_int 10 b) True (CHR '']'' # t)"
    by (rule split_parts_plain) (auto dest: show_int_plain)
  then show ?thesis by (simp add: Range)
qed

lemma split_parts_show:
  "items \<noteq> [] \<Longrightarrow> \<exists>parts buffer. split_parts ps [] False (show_slots items) = Inr (parts, buffer, False) \<and>
     (if buffer \<noteq> [] then parts @ [buffer] else parts) = ps @ map show_item items"
proof (induction items arbitrary: ps)
  case (Cons it items)
  show ?case
  proof (cases "items = []")
    case True
    then show ?thesis using split_parts_item[of ps it "[]"]
        split_parts_plain[of "show_int 10 i" False ps "[]" "[]" for i] show_int_plain
      by (cases it) (auto simp: show_slots_def)
  next
    case False
    then have "show_slots (it # items) = show_item it @ CHR '','' # show_slots items"
      by (simp add: show_slots_def py_join_Cons)
    then have "split_parts ps [] False (show_slots (it # items))
        = split_parts (ps @ [show_item it]) [] False (show_slots items)"
      by (simp add: split_parts_item split: slot_item.splits)
    with Cons.IH[OF False, of "ps @ [show_item it]"] show ?thesis by simp
  qed
qed simp

lemma is_decimal_show: "0 \<le> i \<Longrightarrow> is_decimal (show_int 10 i)"
proof -
  assume i: "0 \<le> i"
  have "48 \<le> (of_char (digit_char d) :: nat) \<and> (of_char (digit_char d) :: nat) \<le> 57" if "d < 10" for d
    using that by (simp add: digit_char_def)
  then show ?thesis
    using i show_digits_chars[of 10 "nat i"] by (auto simp: is_decimal_def show_int_def Let_def)
qed

lemma range_match_Range:
  assumes "0 \<le> a" and "0 \<le> b"
  shows "range_match (show_item (Range a b)) = Some (show_int 10 a, show_int 10 b)"
proof -
  have "CHR '','' \<notin> set (show_int 10 i)" for i using show_int_plain(3)[of "CHR '',''" i] by auto
  then have "py_split CHR '','' (show_int 10 a @ CHR '','' # show_int 10 b) = [show_int 10 a, show_int 10 b]"
    by (simp add: py_split_append py_split_no_sep)
  then show ?thesis using assms by (simp add: range_match_def butlast_append is_decimal_show)
qed

lemma range_match_Slot: "range_match (show_item (Slot i)) = None"
  using show_int_plain(1)[of "hd (show_int 10 i)" i] by (simp add: range_match_def)

lemma show_item_strip: "py_strip (show_item it) = show_item it \<and> (\<forall>c \<in> set (show_item it). \<not> py_isspace c)"
proof -
  have "\<forall>c \<in> set (show_item it). \<not> py_isspace c"
    by (cases it) (auto simp: py_isspace_def dest: show_int_plain(4))
  then show ?thesis using py_strip_no_space by blast
qed

lemma show_item_ne [simp]: "show_item it \<noteq> []"
  by (cases it) auto

lemma parse_parts_show:
  "\<forall>a b. Range a b \<in> set items \<longrightarrow> 0 \<le> a \<and> a \<le> b \<Longrightarrow>
   parse_parts (map show_item items) acc = Inr (acc @ items)"
proof (induction items arbitrary: acc)
  case (Cons it items)
  have ih: "parse_parts (map show_item items) acc' = Inr (acc' @ items)" for acc'
    using Cons by auto
  show ?case
  proof (cases it)
    case (Slot i)
    then show ?thesis
      using ih range_match_Slot[of i] py_int_show_int[of 10 i] show_item_strip[of it]
      by (simp add: Let_def)
  next
    case (Range a b)
    then have "0 \<le> a" "a \<le> b" using Cons.prems by auto
    then show ?thesis
      using ih range_match_Range[of a b] py_int_show_int[of 10] show_item_strip[of it] Range
      by (simp add: Let_def del: show_item.simps)
  qed
qed simp

lemma parse_show_slots:
  assumes "\<forall>a b. Range a b \<in> set items \<longrightarrow> 0 \<le> a \<and> a \<le> b"
  shows "parse_mixed_slot_mapping (show_slots items) = (Some (decompress_slot_mapping items), None)"
proof (cases "items = []")
  case True
  then show ?thesis by (simp add: parse_mixed_slot_mapping_def show_slots_def)
next
  case False
  have sp: "\<forall>c \<in> set (show_slots items). \<not> py_isspace c"
  proof
    fix c assume "c \<in> set (show_slots items)"
    then have "c \<in> insert CHR '','' (\<Union>(set ` set (map show_item items)))"
      using set_py_join[of "CHR '',''" "map show_item items"] by (auto simp: show_slots_def)
    then show "\<not> py_isspace c"
      using show_item_strip by (auto simp: py_isspace_def)
  qed
  then have fl: "filter (\<lambda>c. \<not> py_isspace c) (show_slots items) = show_slots items"
    by (simp add: filter_id_conv)
  obtain parts buffer where
    "split_parts [] [] False (show_slots items) = Inr (parts, buffer, False)"
    "(if buffer \<noteq> [] then parts @ [buffer] else parts) = map show_item items"
    using split_parts_show[OF False, of "[]"] by auto
  then show ?thesis using fl parse_parts_show[OF assms, of "[]"]
    by (simp add: parse_mixed_slot_mapping_def Let_def)
qed

lemma compress_ranges_nonneg:
  assumes "\<forall>s \<in> set slots. 0 \<le> s" and "Range a b \<in> set (compress_slot_mapping slots)"
  shows "0 \<le> a \<and> a \<le> b"
proof -
  have ab: "a + 2 \<le> b" using compress_props assms(2) by (auto simp: long_ranges_def)
  have "{a..b} \<subseteq> set (decompress_slot_mapping items)" if "Range a b \<in> set items" for items
    using that by (induction items rule: decompress_slot_mapping.induct) auto
  then have "{a..b} \<subseteq> set slots" using assms(2) decompress_compress by metis
  then have "a \<in> set slots" by (rule subsetD) (use ab in simp)
  then show ?thesis using ab assms(1) by auto
qed

text \<open>
  C37: compressing a slot mapping loses nothing. Decompression restores the slots in their
  order, ranges are used only for runs of three or more, the compressed list is never longer,
  and the text form of the compressed mapping of slots that are not negative parses back to
  the slots without an error.
\<close>

theorem slot_mapping_round_trip:
  "decompress_slot_mapping (compress_slot_mapping slots) = slots \<and>
   (Range a b \<in> set (compress_slot_mapping slots) \<longrightarrow> a + 2 \<le> b) \<and>
   length (compress_slot_mapping slots) \<le> length slots \<and>
   ((\<forall>s \<in> set slots. 0 \<le> s) \<longrightarrow>
      parse_mixed_slot_mapping (show_slots (compress_slot_mapping slots)) = (Some slots, None))"
proof (intro conjI impI)
  show "decompress_slot_mapping (compress_slot_mapping slots) = slots" by (rule decompress_compress)
  show "Range a b \<in> set (compress_slot_mapping slots) \<Longrightarrow> a + 2 \<le> b"
    and "length (compress_slot_mapping slots) \<le> length slots"
    using compress_props[of slots] by (auto simp: long_ranges_def)
  assume "\<forall>s \<in> set slots. 0 \<le> s"
  then show "parse_mixed_slot_mapping (show_slots (compress_slot_mapping slots)) = (Some slots, None)"
    using parse_show_slots[of "compress_slot_mapping slots"] compress_ranges_nonneg decompress_compress
    by metis
qed

theorem slot_mapping_round_trip_witness:
  "compress_slot_mapping [1, 2, 3, 4, 5, 7, 8] = [Range 1 5, Slot 7, Slot 8] \<and>
   (1::int) + 2 \<le> 5 \<and>
   parse_mixed_slot_mapping (show_slots [Range 1 5, Slot 7, Slot 8]) = (Some [1, 2, 3, 4, 5, 7, 8], None)"
proof -
  have c: "compress_slot_mapping [1, 2, 3, 4, 5, 7, 8] = [Range 1 5, Slot 7, Slot 8]" by code_simp
  then show ?thesis using slot_mapping_round_trip[of "[1, 2, 3, 4, 5, 7, 8]" 1 5] by simp
qed

section \<open>Dtypes\<close>

text \<open>\<open>torch.half\<close>, \<open>torch.float\<close> and \<open>torch.double\<close> are other names of
  \<open>float16\<close>, \<open>float32\<close> and \<open>float64\<close>. The last two stand for dtypes that no table lists.\<close>

datatype torch_dtype =
    Float16 | BFloat16 | Float32 | Float64 | TInt8 | TUInt8 | TInt16 | TInt32 | TInt64 | TBool
  | Float8_e4m3fn | Float8_e4m3fnuz | Float8_e5m2 | Float8_e5m2fnuz | Complex64 | Complex128

definition torch_dtype_to_str :: "(torch_dtype, string) odict" where
  "torch_dtype_to_str =
     [(Float16, ''half''), (BFloat16, ''bfloat16''), (Float32, ''float''), (Float64, ''double''),
      (TInt8, ''int8''), (TUInt8, ''uint8''), (TInt16, ''int16''), (TInt32, ''int32''),
      (TInt64, ''int64''), (TBool, ''bool''),
      (Float8_e4m3fn, ''fp8_e4m3''), (Float8_e4m3fnuz, ''fp8_e4m3''),
      (Float8_e5m2, ''fp8_e5m2''), (Float8_e5m2fnuz, ''fp8_e5m2'')]"

definition str_dtype_to_torch :: "(string, torch_dtype) odict" where
  "str_dtype_to_torch = fold (\<lambda>(k, v). AList.update v k) torch_dtype_to_str []"

lemma str_dtype_to_torch_table:
  "str_dtype_to_torch =
     [(''half'', Float16), (''bfloat16'', BFloat16), (''float'', Float32), (''double'', Float64),
      (''int8'', TInt8), (''uint8'', TUInt8), (''int16'', TInt16), (''int32'', TInt32),
      (''int64'', TInt64), (''bool'', TBool), (''fp8_e4m3'', Float8_e4m3fnuz), (''fp8_e5m2'', Float8_e5m2fnuz)]"
  by code_simp

text \<open>The dtype that reading a dtype's name back gives.\<close>

definition canonical_dtype :: "torch_dtype \<Rightarrow> torch_dtype" where
  "canonical_dtype d = (case d of Float8_e4m3fn \<Rightarrow> Float8_e4m3fnuz | Float8_e5m2 \<Rightarrow> Float8_e5m2fnuz | _ \<Rightarrow> d)"

lemma dtype_table_ok:
  "list_all (\<lambda>(d, s). map_of str_dtype_to_torch s = Some (canonical_dtype d) \<and> CHR ''@'' \<notin> set s \<and>
     \<not> py_isdigit s \<and> list_all (\<lambda>c. \<not> py_isspace c) s \<and> map_of torch_dtype_to_str (canonical_dtype d) = Some s) torch_dtype_to_str"
  by code_simp

lemma dtype_name_facts:
  assumes "map_of torch_dtype_to_str d = Some s"
  shows "map_of str_dtype_to_torch s = Some (canonical_dtype d)"
    and "CHR ''@'' \<notin> set s" and "\<not> py_isdigit s" and "\<forall>c \<in> set s. \<not> py_isspace c"
    and "map_of torch_dtype_to_str (canonical_dtype d) = Some s"
proof -
  note a = iffD1[OF list_all_iff dtype_table_ok, THEN bspec, OF map_of_SomeD[OF assms]]
  from a show "map_of str_dtype_to_torch s = Some (canonical_dtype d)"
    and "CHR ''@'' \<notin> set s" and "\<not> py_isdigit s" and "\<forall>c \<in> set s. \<not> py_isspace c"
    and "map_of torch_dtype_to_str (canonical_dtype d) = Some s" by (simp_all add: list_all_iff)
qed

section \<open>Cache keys\<close>

datatype hash_val = HInt int | HBytes "8 word list"

record cache_key =
  ck_model_name :: string
  ck_world_size :: int
  ck_worker_id :: int
  ck_chunk_hash :: hash_val
  ck_dtype :: torch_dtype
  ck_request_configs :: "(string, string) odict option"
  ck_tags :: "(string \<times> string) list option"
  ck_dtype_str :: string

record layer_key = cache_key +
  lk_layer_id :: int

definition tag_prefix :: string where
  "tag_prefix = ''lmcache.tag.''"

definition tags_of :: "(string, string) odict option \<Rightarrow> (string \<times> string) list option" where
  "tags_of rc =
     (case rc of
        None \<Rightarrow> None
      | Some d \<Rightarrow>
          (let tag_list = [(drop (length tag_prefix) k, v). (k, v) \<leftarrow> d, py_startswith tag_prefix k]
           in if tag_list = [] then None else Some tag_list))"

definition mk_cache_key ::
  "string \<Rightarrow> int \<Rightarrow> int \<Rightarrow> hash_val \<Rightarrow> torch_dtype \<Rightarrow> (string, string) odict option \<Rightarrow> cache_key result" where
  "mk_cache_key model ws wid h dt rc =
     (case map_of torch_dtype_to_str dt of
        None \<Rightarrow> Inl ValueError
      | Some s \<Rightarrow> Inr \<lparr> ck_model_name = model, ck_world_size = ws, ck_worker_id = wid, ck_chunk_hash = h,
                         ck_dtype = dt, ck_request_configs = rc, ck_tags = tags_of rc, ck_dtype_str = s \<rparr>)"

definition mk_layer_key ::
  "string \<Rightarrow> int \<Rightarrow> int \<Rightarrow> hash_val \<Rightarrow> torch_dtype \<Rightarrow> (string, string) odict option \<Rightarrow> int \<Rightarrow> layer_key result" where
  "mk_layer_key model ws wid h dt rc layer =
     (case map_of torch_dtype_to_str dt of
        None \<Rightarrow> Inl ValueError
      | Some s \<Rightarrow> Inr \<lparr> ck_model_name = model, ck_world_size = ws, ck_worker_id = wid, ck_chunk_hash = h,
                         ck_dtype = dt, ck_request_configs = rc, ck_tags = tags_of rc, ck_dtype_str = s,
                         lk_layer_id = layer \<rparr>)"

definition key_eq :: "'a cache_key_scheme \<Rightarrow> 'a cache_key_scheme \<Rightarrow> bool" where
  "key_eq k l \<longleftrightarrow>
     ck_model_name k = ck_model_name l \<and> ck_world_size k = ck_world_size l \<and>
     ck_worker_id k = ck_worker_id l \<and> ck_chunk_hash k = ck_chunk_hash l \<and>
     ck_dtype k = ck_dtype l \<and> ck_tags k = ck_tags l"

definition layer_key_eq :: "layer_key \<Rightarrow> layer_key \<Rightarrow> bool" where
  "layer_key_eq k l \<longleftrightarrow> key_eq k l \<and> lk_layer_id k = lk_layer_id l"

definition key_hash_tuple ::
  "'a cache_key_scheme \<Rightarrow> string \<times> int \<times> int \<times> hash_val \<times> string \<times> (string \<times> string) list option" where
  "key_hash_tuple k =
     (ck_model_name k, ck_world_size k, ck_worker_id k, ck_chunk_hash k, ck_dtype_str k, ck_tags k)"

definition hex_byte :: "8 word \<Rightarrow> string" where
  "hex_byte b = [digit_char (unat b div 16), digit_char (unat b mod 16)]"

definition chunk_hash_hex :: "hash_val \<Rightarrow> string" where
  "chunk_hash_hex h = (case h of HBytes bs \<Rightarrow> concat (map hex_byte bs) | HInt i \<Rightarrow> show_int 16 i)"

definition tag_string :: "string \<times> string \<Rightarrow> string" where
  "tag_string kv = fst kv @ CHR ''%'' # snd kv"

definition tags_suffix :: "(string \<times> string) list option \<Rightarrow> string" where
  "tags_suffix ts =
     (case ts of
        None \<Rightarrow> []
      | Some l \<Rightarrow> if l = [] then [] else CHR ''@'' # py_join CHR ''@'' (map tag_string l))"

definition key_to_string :: "cache_key \<Rightarrow> string" where
  "key_to_string k =
     ck_model_name k @ CHR ''@'' # show_int 10 (ck_world_size k)
     @ CHR ''@'' # show_int 10 (ck_worker_id k) @ CHR ''@'' # chunk_hash_hex (ck_chunk_hash k)
     @ CHR ''@'' # ck_dtype_str k
     @ tags_suffix (ck_tags k)"

definition layer_key_to_string :: "layer_key \<Rightarrow> string" where
  "layer_key_to_string k =
     ck_model_name k @ CHR ''@'' # show_int 10 (ck_world_size k)
     @ CHR ''@'' # show_int 10 (ck_worker_id k) @ CHR ''@'' # chunk_hash_hex (ck_chunk_hash k)
     @ CHR ''@'' # ck_dtype_str k @ CHR ''@'' # show_int 10 (lk_layer_id k)
     @ tags_suffix (ck_tags k)"

fun parse_tags :: "string \<Rightarrow> string list \<Rightarrow> (string, string) odict \<Rightarrow> (string, string) odict result" where
  "parse_tags pre [] d = Inr d"
| "parse_tags pre (kv # kvs) d =
     (case py_split1 CHR ''%'' kv of
        [k, v] \<Rightarrow> parse_tags pre kvs (AList.update (pre @ k) v d)
      | _ \<Rightarrow> Inl ValueError)"

definition parse_tag_parts :: "string list \<Rightarrow> (string, string) odict option result" where
  "parse_tag_parts kvs =
     (if kvs = [] then Inr None else res_bind (parse_tags tag_prefix kvs []) (\<lambda>d. Inr (Some d)))"

definition dtype_lookup :: "string \<Rightarrow> torch_dtype result" where
  "dtype_lookup s = (case map_of str_dtype_to_torch s of None \<Rightarrow> Inl KeyError | Some d \<Rightarrow> Inr d)"

definition key_from_string :: "string \<Rightarrow> cache_key result" where
  "key_from_string s =
     (let parts = py_split CHR ''@'' s
      in if length parts < 5 then Inl ValueError
         else res_bind (parse_tag_parts (drop 5 parts)) (\<lambda>rc.
              res_bind (py_int 10 (parts ! 1)) (\<lambda>ws.
              res_bind (py_int 10 (parts ! 2)) (\<lambda>wid.
              res_bind (py_int 16 (parts ! 3)) (\<lambda>h.
              res_bind (dtype_lookup (parts ! 4)) (\<lambda>dt.
              mk_cache_key (parts ! 0) ws wid (HInt h) dt rc))))))"

definition layer_key_from_string :: "string \<Rightarrow> layer_key result" where
  "layer_key_from_string s =
     (let parts = py_split CHR ''@'' s
      in if length parts < 6 then Inl ValueError
         else res_bind (parse_tag_parts (drop 6 parts)) (\<lambda>rc.
              res_bind (py_int 10 (parts ! 1)) (\<lambda>ws.
              res_bind (py_int 10 (parts ! 2)) (\<lambda>wid.
              res_bind (py_int 16 (parts ! 3)) (\<lambda>h.
              res_bind (dtype_lookup (parts ! 4)) (\<lambda>dt.
              res_bind (py_int 10 (parts ! 5)) (\<lambda>layer.
              mk_layer_key (parts ! 0) ws wid (HInt h) dt rc layer)))))))"

datatype any_key = PlainKey cache_key | LayerKey layer_key

definition parse_cache_key :: "string \<Rightarrow> any_key result" where
  "parse_cache_key key_str =
     (let parts = py_split CHR ''@'' (py_strip key_str)
      in if 5 \<le> length parts \<and> py_isdigit (parts ! 4)
         then res_bind (layer_key_from_string key_str) (\<lambda>k. Inr (LayerKey k))
         else res_bind (key_from_string key_str) (\<lambda>k. Inr (PlainKey k)))"

fun layer_keys_loop :: "('a \<Rightarrow> int \<Rightarrow> 'b result) \<Rightarrow> 'a \<Rightarrow> int list \<Rightarrow> 'b list \<Rightarrow> 'b list result" where
  "layer_keys_loop mk k [] keys = Inr keys"
| "layer_keys_loop mk k (i # is') keys = res_bind (mk k i) (\<lambda>l. layer_keys_loop mk k is' (keys @ [l]))"

definition key_at_layer :: "'a cache_key_scheme \<Rightarrow> int \<Rightarrow> layer_key result" where
  "key_at_layer k i =
     mk_layer_key (ck_model_name k) (ck_world_size k) (ck_worker_id k) (ck_chunk_hash k) (ck_dtype k)
       (ck_request_configs k) i"

definition split_layers :: "'a cache_key_scheme \<Rightarrow> int \<Rightarrow> layer_key list result" where
  "split_layers k num_layers = layer_keys_loop key_at_layer k [0..num_layers - 1] []"

definition get_first_layer :: "'a cache_key_scheme \<Rightarrow> layer_key result" where
  "get_first_layer k = key_at_layer k 0"

definition with_new_worker_id :: "'a cache_key_scheme \<Rightarrow> int \<Rightarrow> cache_key result" where
  "with_new_worker_id k new_worker_id =
     mk_cache_key (ck_model_name k) (ck_world_size k) new_worker_id (ck_chunk_hash k) (ck_dtype k)
       (ck_request_configs k)"

text \<open>How the text of a key splits at its separators.\<close>

definition tag_ok :: "string \<times> string \<Rightarrow> bool" where
  "tag_ok kv \<longleftrightarrow> CHR ''%'' \<notin> set (fst kv) \<and> CHR ''@'' \<notin> set (fst kv) \<and> CHR ''@'' \<notin> set (snd kv)"

lemma chunk_hash_hex_no_at: "CHR ''@'' \<notin> set (chunk_hash_hex h)"
proof (cases h)
  case (HInt i)
  then show ?thesis using show_int_class(2)[of 16 "CHR ''@''" i] by (auto simp: chunk_hash_hex_def)
next
  case (HBytes bs)
  have "unat b div 16 < 36 \<and> unat b mod 16 < 36" for b :: "8 word"
    using unsigned_less[of b, where ?'a = nat] by auto
  then have "\<forall>c \<in> set (hex_byte b). c \<noteq> CHR ''@''" for b
    using digit_char_facts(6) unfolding hex_byte_def by (simp del: of_char_eq_iff)
  then have "\<forall>c \<in> set (chunk_hash_hex h). c \<noteq> CHR ''@''"
    unfolding HBytes chunk_hash_hex_def by simp
  then show ?thesis by blast
qed

lemma show_int_no_at: "CHR ''@'' \<notin> set (show_int 10 i)"
  using show_int_class(2)[of 10 "CHR ''@''" i] by auto

lemma split_tags_suffix:
  assumes "CHR ''@'' \<notin> set p" and "\<forall>ts. tags = Some ts \<longrightarrow> (\<forall>kv \<in> set ts. tag_ok kv)"
  shows "py_split CHR ''@'' (p @ tags_suffix tags) = p # map tag_string (case tags of None \<Rightarrow> [] | Some ts \<Rightarrow> ts)"
proof (cases "tags = None \<or> tags = Some []")
  case True
  then show ?thesis using assms(1) by (auto simp: tags_suffix_def py_split_no_sep)
next
  case False
  then obtain ts where ts: "tags = Some ts" "ts \<noteq> []" by auto
  have "py_split CHR ''@'' (py_join CHR ''@'' (map tag_string ts)) = map tag_string ts"
    using assms(2) ts by (intro py_split_join) (auto simp: tag_string_def tag_ok_def)
  then show ?thesis using ts assms(1) by (simp add: tags_suffix_def py_split_append)
qed

lemma split_key_prefix:
  assumes "CHR ''@'' \<notin> set model"
  shows "py_split CHR ''@'' (model @ CHR ''@'' # show_int 10 ws @ CHR ''@'' # show_int 10 wid
      @ CHR ''@'' # chunk_hash_hex h @ CHR ''@'' # rest)
    = [model, show_int 10 ws, show_int 10 wid, chunk_hash_hex h] @ py_split CHR ''@'' rest"
  using assms by (simp add: py_split_append show_int_no_at chunk_hash_hex_no_at)

lemma od_update_new: "k \<notin> fst ` set d \<Longrightarrow> AList.update k v d = d @ [(k, v)]"
  by (induction d) auto

lemma parse_tags_strings:
  assumes "\<forall>kv \<in> set ts. tag_ok kv" and "distinct (map fst ts)"
    and "\<forall>kv \<in> set ts. pre @ fst kv \<notin> fst ` set d"
  shows "parse_tags pre (map tag_string ts) d = Inr (d @ map (\<lambda>(k, v). (pre @ k, v)) ts)"
  using assms
proof (induction ts arbitrary: d)
  case (Cons kv ts)
  obtain k v where kv: "kv = (k, v)" by (cases kv)
  have "py_split1 CHR ''%'' (tag_string kv) = [k, v]"
    using Cons.prems(1) by (auto simp: kv tag_string_def tag_ok_def intro: py_split1_append)
  moreover have "AList.update (pre @ k) v d = d @ [(pre @ k, v)]"
    using Cons.prems(3) by (intro od_update_new) (simp add: kv)
  moreover have "parse_tags pre (map tag_string ts) (d @ [(pre @ k, v)])
      = Inr ((d @ [(pre @ k, v)]) @ map (\<lambda>(k, v). (pre @ k, v)) ts)"
    using Cons.prems by (intro Cons.IH) (auto simp: kv)
  ultimately show ?case by (simp add: kv)
qed simp

lemma tags_of_prefixed:
  "ts \<noteq> [] \<Longrightarrow> tags_of (Some (map (\<lambda>(k, v). (tag_prefix @ k, v)) ts)) = Some ts"
proof -
  have "[(drop (length tag_prefix) k, v). (k, v) \<leftarrow> map (\<lambda>(k, v). (tag_prefix @ k, v)) ts, py_startswith tag_prefix k] = ts"
    by (induction ts) (auto simp: py_startswith_def)
  then show "ts \<noteq> [] \<Longrightarrow> ?thesis" by (simp add: tags_of_def Let_def)
qed

lemma tags_of_not_empty: "tags_of rc \<noteq> Some []"
  by (auto simp: tags_of_def Let_def split: option.splits)

lemma py_startswith_prefix: "py_startswith p k \<Longrightarrow> p @ drop (length p) k = k"
  by (metis append_take_drop_id py_startswith_def)

lemma tags_of_distinct:
  assumes "\<forall>d. rc = Some d \<longrightarrow> od_wf d" and "tags_of rc = Some ts"
  shows "distinct (map fst ts)"
proof -
  obtain d where d: "rc = Some d" and ts: "ts = [(drop (length tag_prefix) k, v). (k, v) \<leftarrow> d, py_startswith tag_prefix k]"
    using assms(2) by (auto simp: tags_of_def Let_def split: option.splits if_splits)
  have "distinct (map fst d) \<Longrightarrow>
    distinct (map fst [(drop (length tag_prefix) k, v). (k, v) \<leftarrow> d, py_startswith tag_prefix k])"
  proof (induction d)
    case (Cons kv d)
    then show ?case
      by (cases kv) (auto split: if_splits, metis fst_conv image_eqI py_startswith_prefix)
  qed simp
  then show ?thesis using assms(1) d ts by simp
qed

lemma parse_tag_parts_strings:
  assumes "\<forall>d. rc = Some d \<longrightarrow> od_wf d" and "\<forall>ts. tags_of rc = Some ts \<longrightarrow> (\<forall>kv \<in> set ts. tag_ok kv)"
  shows "\<exists>rc'. parse_tag_parts (map tag_string (case tags_of rc of None \<Rightarrow> [] | Some ts \<Rightarrow> ts)) = Inr rc' \<and>
    tags_of rc' = tags_of rc"
proof (cases "tags_of rc")
  case None
  then show ?thesis by (auto simp: parse_tag_parts_def tags_of_def)
next
  case (Some ts)
  then have ne: "ts \<noteq> []" using tags_of_not_empty by blast
  have "parse_tags tag_prefix (map tag_string ts) [] = Inr (map (\<lambda>(k, v). (tag_prefix @ k, v)) ts)"
    using parse_tags_strings[of ts tag_prefix "[]"] assms tags_of_distinct[OF assms(1) Some] Some by auto
  then show ?thesis using Some ne tags_of_prefixed[OF ne] by (simp add: parse_tag_parts_def)
qed

lemma key_from_string_parts:
  assumes "CHR ''@'' \<notin> set model" and "map_of torch_dtype_to_str dt = Some s"
    and "\<forall>d. rc = Some d \<longrightarrow> od_wf d" and "\<forall>ts. tags_of rc = Some ts \<longrightarrow> (\<forall>kv \<in> set ts. tag_ok kv)"
    and "mk_cache_key model ws wid (HInt h) dt rc = Inr k"
  shows "\<exists>rc'. key_from_string (key_to_string k) = mk_cache_key model ws wid (HInt h) (canonical_dtype dt) rc' \<and>
    tags_of rc' = tags_of rc"
proof -
  have k: "ck_model_name k = model" "ck_world_size k = ws" "ck_worker_id k = wid" "ck_chunk_hash k = HInt h"
    "ck_dtype_str k = s" "ck_tags k = tags_of rc"
    using assms(2,5) by (auto simp: mk_cache_key_def)
  obtain rc' where rc': "parse_tag_parts (map tag_string (case tags_of rc of None \<Rightarrow> [] | Some ts \<Rightarrow> ts)) = Inr rc'"
    "tags_of rc' = tags_of rc" using parse_tag_parts_strings[OF assms(3,4)] by auto
  have "py_split CHR ''@'' (key_to_string k) = [model, show_int 10 ws, show_int 10 wid, chunk_hash_hex (HInt h)]
      @ s # map tag_string (case tags_of rc of None \<Rightarrow> [] | Some ts \<Rightarrow> ts)"
    unfolding key_to_string_def k
    by (simp add: split_key_prefix[OF assms(1)] split_tags_suffix[OF dtype_name_facts(2)[OF assms(2)] assms(4)])
  then show ?thesis
    using rc' dtype_name_facts(1)[OF assms(2)]
    by (intro exI[of _ rc']) (simp add: key_from_string_def Let_def py_int_show_int chunk_hash_hex_def dtype_lookup_def)
qed

lemma layer_key_split:
  assumes "CHR ''@'' \<notin> set (ck_model_name k)" and "map_of torch_dtype_to_str dt = Some (ck_dtype_str k)"
  shows "py_split CHR ''@'' (layer_key_to_string k) = [ck_model_name k, show_int 10 (ck_world_size k),
      show_int 10 (ck_worker_id k), chunk_hash_hex (ck_chunk_hash k), ck_dtype_str k]
      @ py_split CHR ''@'' (show_int 10 (lk_layer_id k) @ tags_suffix (ck_tags k))"
  unfolding layer_key_to_string_def
  by (simp add: split_key_prefix[OF assms(1)] py_split_append dtype_name_facts(2)[OF assms(2)])

lemma layer_key_from_string_parts:
  assumes "CHR ''@'' \<notin> set model" and "map_of torch_dtype_to_str dt = Some s"
    and "\<forall>d. rc = Some d \<longrightarrow> od_wf d" and "\<forall>ts. tags_of rc = Some ts \<longrightarrow> (\<forall>kv \<in> set ts. tag_ok kv)"
    and "mk_layer_key model ws wid (HInt h) dt rc i = Inr k"
  shows "\<exists>rc'. layer_key_from_string (layer_key_to_string k)
      = mk_layer_key model ws wid (HInt h) (canonical_dtype dt) rc' i \<and> tags_of rc' = tags_of rc"
proof -
  have k: "ck_model_name k = model" "ck_world_size k = ws" "ck_worker_id k = wid" "ck_chunk_hash k = HInt h"
    "ck_dtype_str k = s" "ck_tags k = tags_of rc" "lk_layer_id k = i"
    using assms(2,5) by (auto simp: mk_layer_key_def)
  obtain rc' where rc': "parse_tag_parts (map tag_string (case tags_of rc of None \<Rightarrow> [] | Some ts \<Rightarrow> ts)) = Inr rc'"
    "tags_of rc' = tags_of rc" using parse_tag_parts_strings[OF assms(3,4)] by auto
  have "py_split CHR ''@'' (layer_key_to_string k) = [model, show_int 10 ws, show_int 10 wid, chunk_hash_hex (HInt h)]
      @ s # show_int 10 i # map tag_string (case tags_of rc of None \<Rightarrow> [] | Some ts \<Rightarrow> ts)"
    using layer_key_split[of k dt] assms(1,2) split_tags_suffix[OF show_int_no_at assms(4)] k by simp
  then show ?thesis
    using rc' dtype_name_facts(1)[OF assms(2)]
    by (intro exI[of _ rc']) (simp add: layer_key_from_string_def Let_def py_int_show_int chunk_hash_hex_def dtype_lookup_def)
qed

lemma res_bind_Inr: "res_bind r f = Inr y \<longleftrightarrow> (\<exists>x. r = Inr x \<and> f x = Inr y)"
  by (cases r) auto

lemma parsed_hash_int:
  "key_from_string t = Inr k \<Longrightarrow> \<exists>h. ck_chunk_hash k = HInt h"
  "layer_key_from_string t = Inr l \<Longrightarrow> \<exists>h. ck_chunk_hash l = HInt h"
  by (auto simp: key_from_string_def layer_key_from_string_def mk_cache_key_def mk_layer_key_def Let_def res_bind_Inr
      split: if_splits option.splits)

text \<open>
  C24: when the text of a key parses back to the key. For a plain or layer key with a model name without
  \<open>@\<close>, tags with no \<open>@\<close> in name and value and no \<open>%\<close> in the name, and an integer hash,
  \<open>from_string\<close> of \<open>to_string\<close> succeeds and returns a key that is equal but for its dtype: the key itself
  unless the dtype is \<open>float8_e4m3fn\<close> or \<open>float8_e5m2\<close>, which come back as their \<open>fnuz\<close> variants and make
  the keys differ. A key whose hash is bytes is never parsed back to an equal key, whatever its fields.
\<close>

theorem cache_key_string_round_trip:
  assumes "CHR ''@'' \<notin> set model" and "\<forall>d. rc = Some d \<longrightarrow> od_wf d"
    and "\<forall>ts. tags_of rc = Some ts \<longrightarrow> (\<forall>kv \<in> set ts. tag_ok kv)"
    and "mk_cache_key model ws wid (HInt h) dt rc = Inr k" and "mk_layer_key model ws wid (HInt h) dt rc i = Inr l"
  shows "(\<exists>k'. key_from_string (key_to_string k) = Inr k' \<and>
            key_eq k' (k\<lparr>ck_dtype := canonical_dtype dt\<rparr>) \<and>
            (key_eq k' k \<longleftrightarrow> dt \<notin> {Float8_e4m3fn, Float8_e5m2})) \<and>
         (\<exists>l'. layer_key_from_string (layer_key_to_string l) = Inr l' \<and>
            layer_key_eq l' (l\<lparr>ck_dtype := canonical_dtype dt\<rparr>) \<and>
            (layer_key_eq l' l \<longleftrightarrow> dt \<notin> {Float8_e4m3fn, Float8_e5m2})) \<and>
         (\<forall>c k'. ck_chunk_hash c = HBytes bs \<longrightarrow> key_from_string (key_to_string c) = Inr k' \<longrightarrow> \<not> key_eq k' c) \<and>
         (\<forall>c l'. ck_chunk_hash c = HBytes bs \<longrightarrow> layer_key_from_string (layer_key_to_string c) = Inr l' \<longrightarrow> \<not> layer_key_eq l' c)"
proof -
  obtain s where s: "map_of torch_dtype_to_str dt = Some s"
    using assms(4) by (auto simp: mk_cache_key_def split: option.splits)
  have c: "canonical_dtype dt = dt \<longleftrightarrow> dt \<notin> {Float8_e4m3fn, Float8_e5m2}"
    by (cases dt) (auto simp: canonical_dtype_def)
  have "\<exists>k'. key_from_string (key_to_string k) = Inr k' \<and>
      key_eq k' (k\<lparr>ck_dtype := canonical_dtype dt\<rparr>) \<and> (key_eq k' k \<longleftrightarrow> canonical_dtype dt = dt)"
    using key_from_string_parts[OF assms(1) s assms(2-4)] assms(4) s dtype_name_facts(5)[OF s]
    by (auto simp: mk_cache_key_def key_eq_def)
  moreover have "\<exists>l'. layer_key_from_string (layer_key_to_string l) = Inr l' \<and>
      layer_key_eq l' (l\<lparr>ck_dtype := canonical_dtype dt\<rparr>) \<and> (layer_key_eq l' l \<longleftrightarrow> canonical_dtype dt = dt)"
    using layer_key_from_string_parts[OF assms(1) s assms(2,3,5)] assms(5) s dtype_name_facts(5)[OF s]
    by (auto simp: mk_layer_key_def key_eq_def layer_key_eq_def)
  moreover have "\<not> key_eq k' c" if "ck_chunk_hash c = HBytes bs" "key_from_string t = Inr k'" for c :: cache_key and k' t
    using parsed_hash_int(1)[OF that(2)] that(1) by (auto simp: key_eq_def)
  moreover have "\<not> layer_key_eq l' c" if "ck_chunk_hash c = HBytes bs" "layer_key_from_string t = Inr l'" for c :: layer_key and l' t
    using parsed_hash_int(2)[OF that(2)] that(1) by (auto simp: key_eq_def layer_key_eq_def)
  ultimately show ?thesis unfolding c by blast
qed

lemma split_first: "CHR ''@'' \<notin> set p \<Longrightarrow> tail = [] \<or> hd tail = CHR ''@'' \<Longrightarrow>
   \<exists>ps. py_split CHR ''@'' (p @ tail) = p # ps"
  by (cases tail) (auto simp: py_split_no_sep py_split_append)

lemma tags_suffix_head: "tags_suffix ts = [] \<or> hd (tags_suffix ts) = CHR ''@''"
  by (auto simp: tags_suffix_def split: option.split)

lemma py_rstrip_tail:
  assumes "\<forall>c \<in> set p. \<not> py_isspace c" and "tail = [] \<or> hd tail = CHR ''@''"
  shows "\<exists>tail'. py_rstrip (p @ tail) = p @ tail' \<and> (tail' = [] \<or> hd tail' = CHR ''@'')"
proof (cases tail)
  case Nil
  have "dropWhile py_isspace (rev p) = rev p" using assms(1) by (cases p rule: rev_cases) auto
  then show ?thesis using Nil by (simp add: py_rstrip_def)
next
  case (Cons c cs)
  then have "tail = CHR ''@'' # cs" using assms(2) by simp
  then show ?thesis using py_rstrip_append[of "CHR ''@''" p cs] by (auto simp: py_isspace_def)
qed

text \<open>The fifth part of the stripped text is the dtype, for plain and for layer keys.\<close>

lemma stripped_parts:
  assumes "CHR ''@'' \<notin> set model" and "map_of torch_dtype_to_str dt = Some s"
    and "tail = [] \<or> hd tail = CHR ''@''"
  shows "\<exists>ps. py_split CHR ''@'' (py_strip (model @ CHR ''@'' # show_int 10 ws @ CHR ''@'' # show_int 10 wid
      @ CHR ''@'' # chunk_hash_hex h @ CHR ''@'' # s @ tail))
    = [py_lstrip model, show_int 10 ws, show_int 10 wid, chunk_hash_hex h, s] @ ps"
proof -
  let ?mid = "show_int 10 ws @ CHR ''@'' # show_int 10 wid @ CHR ''@'' # chunk_hash_hex h"
  obtain tail' where t: "py_rstrip (s @ tail) = s @ tail'" "tail' = [] \<or> hd tail' = CHR ''@''"
    using py_rstrip_tail[OF dtype_name_facts(4)[OF assms(2)] assms(3)] by blast
  have "\<not> py_isspace CHR ''@''" by (simp add: py_isspace_def)
  from py_strip_between[OF this this, of model ?mid "s @ tail"] t(1)
  have "py_strip (model @ CHR ''@'' # ?mid @ CHR ''@'' # s @ tail)
      = py_lstrip model @ CHR ''@'' # ?mid @ CHR ''@'' # s @ tail'" by simp
  moreover have "CHR ''@'' \<notin> set (py_lstrip model)" using assms(1) set_py_lstrip[of model] by auto
  moreover obtain ps where "py_split CHR ''@'' (s @ tail') = s # ps"
    using split_first[OF dtype_name_facts(2)[OF assms(2)] t(2)] by blast
  ultimately show ?thesis using split_key_prefix[of "py_lstrip model"] by simp
qed

lemma layer_key_rejected:
  assumes "CHR ''@'' \<notin> set model" and "mk_layer_key model ws wid h dt rc i = Inr l"
  shows "parse_cache_key (layer_key_to_string l) = Inl ValueError"
proof -
  obtain s where s: "map_of torch_dtype_to_str dt = Some s"
    using assms(2) by (auto simp: mk_layer_key_def split: option.splits)
  have lf: "ck_model_name l = model" "ck_world_size l = ws" "ck_worker_id l = wid" "ck_chunk_hash l = h"
    "ck_dtype_str l = s" "lk_layer_id l = i" using assms(2) s by (auto simp: mk_layer_key_def)
  obtain ps where "py_split CHR ''@'' (py_strip (layer_key_to_string l))
      = [py_lstrip model, show_int 10 ws, show_int 10 wid, chunk_hash_hex h, s] @ ps"
    using stripped_parts[OF assms(1) s, of "CHR ''@'' # show_int 10 i @ tags_suffix (ck_tags l)" ws wid h]
    unfolding layer_key_to_string_def lf by auto
  then have 1: "parse_cache_key (layer_key_to_string l)
      = res_bind (key_from_string (layer_key_to_string l)) (\<lambda>x. Inr (PlainKey x))"
    using dtype_name_facts(3)[OF s] by (simp add: parse_cache_key_def)
  obtain qs where qs: "py_split CHR ''@'' (show_int 10 i @ tags_suffix (ck_tags l)) = show_int 10 i # qs"
    using split_first[OF show_int_no_at tags_suffix_head] by blast
  have "py_split1 CHR ''%'' (show_int 10 i) = [show_int 10 i]"
    using show_int_class(3)[of 10 "CHR ''%''" i] by (auto simp: py_split1_def)
  then have "key_from_string (layer_key_to_string l) = Inl ValueError"
    using layer_key_split[of l dt] qs lf s assms(1)
    by (simp add: key_from_string_def parse_tag_parts_def)
  with 1 show ?thesis by simp
qed

lemma plain_key_parsed:
  assumes "CHR ''@'' \<notin> set (ck_model_name k)" and "map_of torch_dtype_to_str dt = Some (ck_dtype_str k)"
  shows "parse_cache_key (key_to_string k) = res_bind (key_from_string (key_to_string k)) (\<lambda>x. Inr (PlainKey x))"
proof -
  obtain ps where "py_split CHR ''@'' (py_strip (key_to_string k)) = [py_lstrip (ck_model_name k),
      show_int 10 (ck_world_size k), show_int 10 (ck_worker_id k), chunk_hash_hex (ck_chunk_hash k), ck_dtype_str k] @ ps"
    using stripped_parts[OF assms tags_suffix_head[of "ck_tags k"]] unfolding key_to_string_def by blast
  then show ?thesis using dtype_name_facts(3)[OF assms(2)] by (simp add: parse_cache_key_def)
qed

text \<open>
  \<open>parse_cache_key\<close> never reads a layer key. It tests whether the fifth part of the text
  is a number, but \<open>to_string\<close> puts the dtype there, so the text of every layer key is read as a
  plain key with a malformed tag and rejected; for plain keys the function is \<open>from_string\<close>.
\<close>

theorem layer_key_never_parsed:
  assumes "CHR ''@'' \<notin> set model"
    and "mk_layer_key model ws wid h dt rc i = Inr l" and "mk_cache_key model ws wid h dt rc = Inr k"
  shows "parse_cache_key (layer_key_to_string l) = Inl ValueError \<and>
    parse_cache_key (key_to_string k) = res_bind (key_from_string (key_to_string k)) (\<lambda>x. Inr (PlainKey x))"
  using layer_key_rejected[OF assms(1,2)] plain_key_parsed[of k dt] assms(1,3)
  by (auto simp: mk_cache_key_def split: option.splits)

text \<open>A key of the examples, with a tag.\<close>

definition demo_key :: "torch_dtype \<Rightarrow> cache_key" where
  "demo_key dt = (case mk_cache_key ''m'' 2 1 (HInt (- 31)) dt (Some [(''lmcache.tag.u'', ''x%y''), (''z'', ''@'')]) of Inr k \<Rightarrow> k)"

definition demo_layer_key :: "torch_dtype \<Rightarrow> int \<Rightarrow> layer_key" where
  "demo_layer_key dt i = (case mk_layer_key ''m'' 2 1 (HInt (- 31)) dt (Some [(''lmcache.tag.u'', ''x%y''), (''z'', ''@'')]) i of Inr k \<Rightarrow> k)"

lemma demo_keys:
  "mk_cache_key ''m'' 2 1 (HInt (- 31)) Float16 (Some [(''lmcache.tag.u'', ''x%y''), (''z'', ''@'')]) = Inr (demo_key Float16)"
  "mk_layer_key ''m'' 2 1 (HInt (- 31)) Float16 (Some [(''lmcache.tag.u'', ''x%y''), (''z'', ''@'')]) i = Inr (demo_layer_key Float16 i)"
  "tags_of (Some [(''lmcache.tag.u'', ''x%y''), (''z'', ''@'')]) = Some [(''u'', ''x%y'')]"
  by (simp_all add: demo_key_def demo_layer_key_def mk_cache_key_def mk_layer_key_def torch_dtype_to_str_def)
    code_simp

theorem cache_key_string_round_trip_witness:
  "key_to_string (demo_key Float16) = ''m@2@1@-1f@half@u%x%y'' \<and>
   (\<exists>k'. key_from_string (key_to_string (demo_key Float16)) = Inr k' \<and> key_eq k' (demo_key Float16)) \<and>
   (\<exists>l'. layer_key_from_string (layer_key_to_string (demo_layer_key Float16 7)) = Inr l' \<and>
      layer_key_eq l' (demo_layer_key Float16 7))"
proof -
  have "key_to_string (demo_key Float16) = ''m@2@1@-1f@half@u%x%y''" by code_simp
  moreover have "\<forall>ts. tags_of (Some [(''lmcache.tag.u'', ''x%y''), (''z'', ''@'')]) = Some ts \<longrightarrow> (\<forall>kv \<in> set ts. tag_ok kv)"
    unfolding demo_keys(3) by (simp add: tag_ok_def)
  from cache_key_string_round_trip[OF _ _ this demo_keys(1,2), of 7 "[]"]
  have "(\<exists>k'. key_from_string (key_to_string (demo_key Float16)) = Inr k' \<and> key_eq k' (demo_key Float16)) \<and>
   (\<exists>l'. layer_key_from_string (layer_key_to_string (demo_layer_key Float16 7)) = Inr l' \<and>
      layer_key_eq l' (demo_layer_key Float16 7))" by auto
  ultimately show ?thesis by simp
qed

theorem layer_key_never_parsed_witness:
  "parse_cache_key ''m@2@1@-1f@half@7@u%x%y'' = Inl ValueError \<and> is_ok (parse_cache_key ''m@2@1@-1f@half@u%x%y'')"
proof -
  have "layer_key_to_string (demo_layer_key Float16 7) = ''m@2@1@-1f@half@7@u%x%y''" by code_simp
  moreover have "parse_cache_key (layer_key_to_string (demo_layer_key Float16 7)) = Inl ValueError"
    using layer_key_never_parsed[OF _ demo_keys(2,1)] by simp
  moreover have "is_ok (parse_cache_key ''m@2@1@-1f@half@u%x%y'')" by code_simp
  ultimately show ?thesis by simp
qed

text \<open>The layer keys of a key.\<close>

lemma layer_keys_loop_map:
  assumes "\<forall>i \<in> set is'. mk k i = Inr (g i)"
  shows "layer_keys_loop mk k is' keys = Inr (keys @ map g is')"
  using assms by (induction is' arbitrary: keys) auto

lemma split_layers_eq:
  assumes "map_of torch_dtype_to_str (ck_dtype k) = Some s"
  shows "split_layers k n = Inr (map (\<lambda>i. \<lparr> ck_model_name = ck_model_name k, ck_world_size = ck_world_size k,
      ck_worker_id = ck_worker_id k, ck_chunk_hash = ck_chunk_hash k, ck_dtype = ck_dtype k,
      ck_request_configs = ck_request_configs k, ck_tags = tags_of (ck_request_configs k), ck_dtype_str = s,
      lk_layer_id = i \<rparr>) [0..n - 1])"
  unfolding split_layers_def
  by (subst layer_keys_loop_map) (auto simp: key_at_layer_def mk_layer_key_def assms)

lemma equal_keys_equal_hash:
  assumes "map_of torch_dtype_to_str (ck_dtype k) = Some (ck_dtype_str k)"
    and "map_of torch_dtype_to_str (ck_dtype l) = Some (ck_dtype_str l)" and "key_eq k l"
  shows "key_hash_tuple k = key_hash_tuple l"
  using assms by (auto simp: key_eq_def key_hash_tuple_def)

text \<open>
  the layer keys of a chunk are told apart by their layer only. Splitting a key gives one
  key per layer, the first being \<open>get_first_layer\<close>, no two of them equal; but renaming the worker
  of a layer key, which the remote backend does when only the first rank stores, gives a plain key
  without the layer, so all layers of the chunk get the same remote key.
\<close>

theorem layer_keys_merge_on_new_worker_id:
  assumes "mk_cache_key model ws wid h dt rc = Inr k" and "0 < n"
  shows "\<exists>ls. split_layers k n = Inr ls \<and> length ls = nat n \<and> get_first_layer k = Inr (ls ! 0) \<and>
    (\<forall>i < nat n. \<forall>j < nat n. layer_key_eq (ls ! i) (ls ! j) \<longleftrightarrow> i = j) \<and>
    (\<forall>l \<in> set ls. with_new_worker_id l w = with_new_worker_id k w \<and> is_ok (with_new_worker_id l w))"
proof -
  obtain s where s: "map_of torch_dtype_to_str dt = Some s"
    using assms(1) by (auto simp: mk_cache_key_def split: option.splits)
  then have k: "k = \<lparr> ck_model_name = model, ck_world_size = ws, ck_worker_id = wid, ck_chunk_hash = h,
      ck_dtype = dt, ck_request_configs = rc, ck_tags = tags_of rc, ck_dtype_str = s \<rparr>"
    using assms(1) by (simp add: mk_cache_key_def)
  let ?f = "\<lambda>i. \<lparr> ck_model_name = model, ck_world_size = ws, ck_worker_id = wid, ck_chunk_hash = h,
      ck_dtype = dt, ck_request_configs = rc, ck_tags = tags_of rc, ck_dtype_str = s, lk_layer_id = i \<rparr>"
  have "split_layers k n = Inr (map ?f [0..n - 1])" using split_layers_eq[of k s n] s k by simp
  moreover have "get_first_layer k = Inr (map ?f [0..n - 1] ! 0)"
    using s k assms(2) by (simp add: get_first_layer_def key_at_layer_def mk_layer_key_def)
  moreover have "with_new_worker_id (?f i) w = with_new_worker_id k w" for i
    by (simp add: with_new_worker_id_def k)
  moreover have "is_ok (with_new_worker_id k w)" by (simp add: with_new_worker_id_def k mk_cache_key_def s)
  ultimately show ?thesis
    by (intro exI[of _ "map ?f [0..n - 1]"]) (auto simp: layer_key_eq_def key_eq_def)
qed

theorem layer_keys_merge_on_new_worker_id_witness:
  "\<exists>ls. split_layers (demo_key Float16) 3 = Inr ls \<and> length ls = 3 \<and>
    \<not> layer_key_eq (ls ! 0) (ls ! 2) \<and> with_new_worker_id (ls ! 0) 0 = with_new_worker_id (ls ! 2) 0"
proof -
  obtain ls where "split_layers (demo_key Float16) 3 = Inr ls" and len: "length ls = 3"
    and eq: "\<forall>i < 3. \<forall>j < 3. layer_key_eq (ls ! i) (ls ! j) \<longleftrightarrow> i = j"
    and w: "\<forall>l \<in> set ls. with_new_worker_id l 0 = with_new_worker_id (demo_key Float16) 0"
    using layer_keys_merge_on_new_worker_id[OF demo_keys(1), of 3 0] by auto
  moreover have "\<not> layer_key_eq (ls ! 0) (ls ! 2)" using eq by simp
  moreover have "with_new_worker_id (ls ! 0) 0 = with_new_worker_id (ls ! 2) 0"
    using w len by simp
  ultimately show ?thesis by blast
qed

section \<open>Keys as dictionaries\<close>

text \<open>The dictionary \<open>to_dict\<close> builds has fixed entries, the last one being optional.\<close>

record key_dict =
  kd_type :: string
  kd_model_name :: string
  kd_world_size :: int
  kd_worker_id :: int
  kd_chunk_hash :: hash_val
  kd_dtype :: string
  kd_request_configs :: "string list option"

definition key_to_dict :: "'a cache_key_scheme \<Rightarrow> key_dict" where
  "key_to_dict k =
     \<lparr> kd_type = ''CacheEngineKey'', kd_model_name = ck_model_name k, kd_world_size = ck_world_size k,
       kd_worker_id = ck_worker_id k, kd_chunk_hash = ck_chunk_hash k, kd_dtype = ck_dtype_str k,
       kd_request_configs =
         (case ck_request_configs k of
            None \<Rightarrow> None
          | Some d \<Rightarrow> if d = [] then None else Some (map tag_string d)) \<rparr>"

definition key_from_dict :: "key_dict \<Rightarrow> cache_key result" where
  "key_from_dict d =
     (let rc = (case kd_request_configs d of
                  None \<Rightarrow> Inr None
                | Some l \<Rightarrow> if l = [] then Inr None else res_bind (parse_tags [] l []) (\<lambda>c. Inr (Some c)))
      in res_bind rc (\<lambda>rc.
         res_bind (dtype_lookup (kd_dtype d)) (\<lambda>dt.
         mk_cache_key (kd_model_name d) (kd_world_size d) (kd_worker_id d) (kd_chunk_hash d) dt rc)))"

lemma parse_tags_dict:
  assumes "\<forall>kv \<in> set ts. CHR ''%'' \<notin> set (fst kv)" and "distinct (map fst (d @ ts))"
  shows "parse_tags [] (map tag_string ts) d = Inr (d @ ts)"
  using assms
proof (induction ts arbitrary: d)
  case (Cons kv ts)
  obtain k v where kv: "kv = (k, v)" by (cases kv)
  have "py_split1 CHR ''%'' (tag_string kv) = [k, v]"
    using Cons.prems(1) by (auto simp: kv tag_string_def intro: py_split1_append)
  moreover have "AList.update k v d = d @ [(k, v)]"
    using Cons.prems(2) by (intro od_update_new) (auto simp: kv)
  moreover have "parse_tags [] (map tag_string ts) (d @ [(k, v)]) = Inr ((d @ [(k, v)]) @ ts)"
    using Cons.prems by (intro Cons.IH) (auto simp: kv)
  ultimately show ?case by (simp add: kv)
qed simp

text \<open>
  the dictionary of a key reads back as an equal key, with the hash, be it a number or a byte
  string, the tags and the request configuration kept as long as no configuration name has a
  \<open>%\<close>; only an empty configuration is turned into none.
\<close>

theorem cache_key_dict_round_trip:
  assumes "mk_cache_key model ws wid h dt rc = Inr k" and "canonical_dtype dt = dt"
    and "\<forall>d. rc = Some d \<longrightarrow> od_wf d \<and> (\<forall>kv \<in> set d. CHR ''%'' \<notin> set (fst kv))"
  shows "\<exists>k'. key_from_dict (key_to_dict k) = Inr k' \<and> key_eq k' k \<and>
    ck_request_configs k' = (if rc = Some [] then None else rc)"
proof -
  obtain s where s: "map_of torch_dtype_to_str dt = Some s"
    using assms(1) by (auto simp: mk_cache_key_def split: option.splits)
  then have k: "k = \<lparr> ck_model_name = model, ck_world_size = ws, ck_worker_id = wid, ck_chunk_hash = h,
      ck_dtype = dt, ck_request_configs = rc, ck_tags = tags_of rc, ck_dtype_str = s \<rparr>"
    using assms(1) by (simp add: mk_cache_key_def)
  have dt: "dtype_lookup s = Inr dt" using dtype_name_facts(1)[OF s] assms(2) by (simp add: dtype_lookup_def)
  let ?k = "k\<lparr>ck_request_configs := if rc = Some [] then None else rc\<rparr>"
  have "key_from_dict (key_to_dict k) = Inr ?k"
  proof (cases "rc = None \<or> rc = Some []")
    case True
    then show ?thesis by (auto simp: key_from_dict_def key_to_dict_def k mk_cache_key_def dt s tags_of_def)
  next
    case False
    then obtain d where d: "rc = Some d" "d \<noteq> []" by auto
    then have "parse_tags [] (map tag_string d) [] = Inr d" using assms(3) parse_tags_dict[of d "[]"] by simp
    then show ?thesis using d by (simp add: key_from_dict_def key_to_dict_def k mk_cache_key_def dt s)
  qed
  then show ?thesis by (intro exI[of _ ?k]) (simp add: key_eq_def k)
qed

theorem cache_key_dict_round_trip_witness:
  "\<exists>k'. key_from_dict (key_to_dict (demo_key Float16)) = Inr k' \<and> key_eq k' (demo_key Float16) \<and>
    ck_request_configs k' = Some [(''lmcache.tag.u'', ''x%y''), (''z'', ''@'')]"
  using cache_key_dict_round_trip[OF demo_keys(1)] by (simp add: canonical_dtype_def)

end
