(* ===== verification/Protocol.thy ===== *)
theory Protocol
  imports Keys TensorAllocator
begin

text \<open>
  The wire format between the cache and its servers (\<open>v1/protocol.py\<close>, and \<open>protocol.py\<close> for the
  older server): fixed size headers made with \<open>struct\<close> in native mode, which on the
  machines the program is built for means 4-byte little-endian signed integers without padding.
  A string is encoded as UTF-8; characters beyond code point 255 are outside the model, and bytes
  that would decode to them count as undecodable.
\<close>

declare map_of_eq_Some_iff [simp del] Some_eq_map_of_iff [simp del]

named_theorems wire_simps \<comment> \<open>unfolding of the wire format\<close>

type_synonym bytes = "8 word list"

section \<open>Integers and byte strings of \<open>struct\<close>\<close>

definition pack_i :: "int \<Rightarrow> bytes result" where
  "pack_i x =
     (if - (2 ^ 31) \<le> x \<and> x < 2 ^ 31
      then Inr [word_of_int x, word_of_int (x div 2 ^ 8), word_of_int (x div 2 ^ 16), word_of_int (x div 2 ^ 24)]
      else Inl StructError)"

fun pack_ints :: "int list \<Rightarrow> bytes result" where
  "pack_ints [] = Inr []"
| "pack_ints (x # xs) = res_bind (pack_i x) (\<lambda>b. res_bind (pack_ints xs) (\<lambda>bs. Inr (b @ bs)))"

definition unpack_i :: "bytes \<Rightarrow> int" where
  "unpack_i bs =
     (let u = uint (bs ! 0) + 2 ^ 8 * uint (bs ! 1) + 2 ^ 16 * uint (bs ! 2) + 2 ^ 24 * uint (bs ! 3)
      in if u < 2 ^ 31 then u else u - 2 ^ 32)"

fun unpack_ints :: "nat \<Rightarrow> bytes \<Rightarrow> int list" where
  "unpack_ints 0 bs = []"
| "unpack_ints (Suc n) bs = unpack_i (take 4 bs) # unpack_ints n (drop 4 bs)"

text \<open>The format \<open>"150s"\<close>: cut, or filled with zero bytes.\<close>

definition pack_s :: "nat \<Rightarrow> bytes \<Rightarrow> bytes" where
  "pack_s n bs = take n bs @ replicate (n - length bs) 0"

definition bytes_ljust :: "nat \<Rightarrow> bytes \<Rightarrow> bytes" where
  "bytes_ljust n bs = bs @ replicate (n - length bs) 32"

lemma uint_byte: "uint (word_of_int x :: 8 word) = x mod 2 ^ 8"
  by (simp add: uint_word_of_int)

lemma unpack_pack_i:
  assumes "pack_i x = Inr bs"
  shows "unpack_i bs = x" and "length bs = 4"
proof -
  have r: "- (2 ^ 31) \<le> x" "x < 2 ^ 31"
    and bs: "bs = [word_of_int x, word_of_int (x div 2 ^ 8), word_of_int (x div 2 ^ 16), word_of_int (x div 2 ^ 24)]"
    using assms by (auto simp: pack_i_def split: if_splits)
  have step: "y mod (2 ^ k * 2 ^ 8) = 2 ^ k * (y div 2 ^ k mod 2 ^ 8) + y mod 2 ^ k" for y :: int and k
    by (simp add: zmod_zmult2_eq)
  have "x mod 2 ^ 16 = 2 ^ 8 * (x div 2 ^ 8 mod 2 ^ 8) + x mod 2 ^ 8" using step[of x 8] by simp
  moreover have "x mod 2 ^ 24 = 2 ^ 16 * (x div 2 ^ 16 mod 2 ^ 8) + x mod 2 ^ 16" using step[of x 16] by simp
  moreover have "x mod 2 ^ 32 = 2 ^ 24 * (x div 2 ^ 24 mod 2 ^ 8) + x mod 2 ^ 24" using step[of x 24] by simp
  ultimately have u: "x mod 2 ^ 8 + 2 ^ 8 * (x div 2 ^ 8 mod 2 ^ 8) + 2 ^ 16 * (x div 2 ^ 16 mod 2 ^ 8)
      + 2 ^ 24 * (x div 2 ^ 24 mod 2 ^ 8) = x mod 2 ^ 32" by linarith
  have ub: "unpack_i bs = (let u = x mod 2 ^ 32 in if u < 2 ^ 31 then u else u - 2 ^ 32)"
    unfolding unpack_i_def bs using u by (simp only: nth_Cons_0 nth_Cons_Suc uint_byte numeral_eq_Suc One_nat_def Let_def pred_numeral_simps BitM.simps)
  have "x mod 2 ^ 32 = (if 0 \<le> x then x else x + 2 ^ 32)"
  proof (cases "0 \<le> x")
    case False
    have "x mod 2 ^ 32 = (x + 2 ^ 32) mod 2 ^ 32" by simp
    also have "\<dots> = x + 2 ^ 32" using r False by (intro mod_pos_pos_trivial) auto
    finally show ?thesis using False by simp
  qed (use r in simp)
  then show "unpack_i bs = x" using ub r by (simp add: Let_def)
  show "length bs = 4" by (simp add: bs)
qed

lemma pack_i_ok_iff: "is_ok (pack_i x) \<longleftrightarrow> - (2 ^ 31) \<le> x \<and> x < 2 ^ 31"
  by (simp add: pack_i_def)

lemma unpack_pack_ints:
  assumes "pack_ints xs = Inr bs"
  shows "unpack_ints (length xs) (bs @ rest) = xs" and "length bs = 4 * length xs"
  using assms
proof (induction xs arbitrary: bs)
  case (Cons x xs)
  {
    case 1
    then obtain b bs' where b: "pack_i x = Inr b" "pack_ints xs = Inr bs'" "bs = b @ bs'"
      by (auto simp: res_bind_def split: sum.splits)
    then show ?case using unpack_pack_i[OF b(1)] Cons.IH(1)[OF b(2)] by simp
  next
    case 2
    then obtain b bs' where b: "pack_i x = Inr b" "pack_ints xs = Inr bs'" "bs = b @ bs'"
      by (auto simp: res_bind_def split: sum.splits)
    then show ?case using unpack_pack_i[OF b(1)] Cons.IH(2)[OF b(2)] by simp
  }
qed auto

lemma pack_ints_ok_iff: "is_ok (pack_ints xs) \<longleftrightarrow> (\<forall>x \<in> set xs. - (2 ^ 31) \<le> x \<and> x < 2 ^ 31)"
proof (induction xs)
  case (Cons x xs)
  then show ?case
    by (cases "pack_i x"; cases "pack_ints xs") (auto simp: pack_i_def split: if_splits)
qed simp

section \<open>UTF-8\<close>

definition utf8_char :: "char \<Rightarrow> bytes" where
  "utf8_char c =
     (let n = (of_char c :: nat)
      in if n < 128 then [of_nat n] else [of_nat (192 + n div 64), of_nat (128 + n mod 64)])"

definition str_encode :: "string \<Rightarrow> bytes" where
  "str_encode s = concat (map utf8_char s)"

fun bytes_decode :: "bytes \<Rightarrow> string result" where
  "bytes_decode [] = Inr []"
| "bytes_decode (b # bs) =
     (let n = unat b
      in if n < 128 then res_bind (bytes_decode bs) (\<lambda>s. Inr (char_of n # s))
         else case bs of
                [] \<Rightarrow> Inl ValueError
              | b' # bs' \<Rightarrow>
                  (let m = unat b'
                   in if 194 \<le> n \<and> n \<le> 195 \<and> 128 \<le> m \<and> m < 192
                      then res_bind (bytes_decode bs') (\<lambda>s. Inr (char_of ((n - 192) * 64 + (m - 128)) # s))
                      else Inl ValueError))"

lemma decode_utf8_char: "bytes_decode (utf8_char c @ bs) = res_bind (bytes_decode bs) (\<lambda>s. Inr (c # s))"
proof -
  have c: "(of_char c :: nat) < 256" by (rule nat_of_char_less_256)
  show ?thesis
  proof (cases "(of_char c :: nat) < 128")
    case True
    then show ?thesis by (simp add: utf8_char_def Let_def unat_of_nat)
  next
    case False
    define q r where "q = (of_char c :: nat) div 64" and "r = (of_char c :: nat) mod 64"
    have n: "q * 64 + r = of_char c" by (simp add: q_def r_def)
    have r: "r < 64" by (simp add: r_def)
    have "64 * 2 \<le> q * 64 + r" and "q * 64 + r < 256" unfolding n using False c by simp_all
    then have q: "2 \<le> q" "q \<le> 3" using r by linarith+
    have u: "utf8_char c = [of_nat (192 + q), of_nat (128 + r)]"
      using False by (simp add: utf8_char_def Let_def q_def r_def)
    have "192 + q < 256" "128 + r < 256" using q r by auto
    then have "unat (of_nat (192 + q) :: 8 word) = 192 + q" "unat (of_nat (128 + r) :: 8 word) = 128 + r"
      by (simp_all only: unat_of_nat) simp_all
    moreover have "char_of (q * 64 + r) = c" unfolding n by simp
    ultimately show ?thesis unfolding u using q r by (simp add: Let_def)
  qed
qed

lemma decode_encode: "bytes_decode (str_encode s) = Inr s"
proof (induction s)
  case (Cons c s)
  have "str_encode (c # s) = utf8_char c @ str_encode s" by (simp add: str_encode_def)
  then show ?case using Cons decode_utf8_char by simp
qed (simp add: str_encode_def)

lemma str_encode_append: "str_encode (s @ t) = str_encode s @ str_encode t"
  by (simp add: str_encode_def)

lemma length_str_encode: "length s \<le> length (str_encode s) \<and> length (str_encode s) \<le> 2 * length s"
  by (induction s) (auto simp: str_encode_def utf8_char_def Let_def)

lemma length_str_encode_ascii:
  "\<forall>c \<in> set s. (of_char c :: nat) < 128 \<Longrightarrow> length (str_encode s) = length s"
  by (induction s) (auto simp: str_encode_def utf8_char_def Let_def)

lemma str_encode_blanks: "str_encode (replicate n CHR '' '') = replicate n 32"
  by (induction n) (auto simp: str_encode_def utf8_char_def)

lemma ljust_encode: "bytes_ljust n (str_encode s) = str_encode (s @ replicate (n - length (str_encode s)) CHR '' '')"
  by (simp add: bytes_ljust_def str_encode_append str_encode_blanks)

section \<open>Enumerations and tables\<close>

definition MAX_KEY_LENGTH :: nat where
  "MAX_KEY_LENGTH = 150"

datatype client_command = PUT | GET | EXIST | LIST | HEALTH

definition command_value :: "client_command \<Rightarrow> int" where
  "command_value c = (case c of PUT \<Rightarrow> 1 | GET \<Rightarrow> 2 | EXIST \<Rightarrow> 3 | LIST \<Rightarrow> 4 | HEALTH \<Rightarrow> 5)"

datatype server_code = SUCCESS | FAIL

definition code_value :: "server_code \<Rightarrow> int" where
  "code_value c = (case c of SUCCESS \<Rightarrow> 200 | FAIL \<Rightarrow> 400)"

definition fmt_value :: "mem_fmt \<Rightarrow> int" where
  "fmt_value f =
     (case f of UNDEFINED \<Rightarrow> 0 | KV_2LTD \<Rightarrow> 1 | KV_T2D \<Rightarrow> 2 | KV_2TD \<Rightarrow> 3 | BINARY \<Rightarrow> 4 | BINARY_BUFFER \<Rightarrow> 5
      | KV_MLA_FMT \<Rightarrow> 6)"

text \<open>Calling an enumeration with a value gives its member, or raises \<open>ValueError\<close>.\<close>

definition enum_of :: "('a \<Rightarrow> int) \<Rightarrow> 'a list \<Rightarrow> int \<Rightarrow> 'a result" where
  "enum_of val members v = (case List.find (\<lambda>m. val m = v) members of None \<Rightarrow> Inl ValueError | Some m \<Rightarrow> Inr m)"

definition command_of :: "int \<Rightarrow> client_command result" where
  "command_of = enum_of command_value [PUT, GET, EXIST, LIST, HEALTH]"

definition code_of :: "int \<Rightarrow> server_code result" where
  "code_of = enum_of code_value [SUCCESS, FAIL]"

definition fmt_of :: "int \<Rightarrow> mem_fmt result" where
  "fmt_of = enum_of fmt_value [UNDEFINED, KV_2LTD, KV_T2D, KV_2TD, BINARY, BINARY_BUFFER, KV_MLA_FMT]"

text \<open>A dictionary display: a repeated key keeps its place and takes the last value.\<close>

definition dict_display :: "('k \<times> 'v) list \<Rightarrow> ('k, 'v) odict" where
  "dict_display kvs = fold (\<lambda>(k, v). AList.update k v) kvs []"

definition dtype_to_int :: "(torch_dtype option, int) odict" where
  "dtype_to_int = dict_display
     [(None, 0), (Some Float16, 1), (Some Float16, 2), (Some BFloat16, 3), (Some Float32, 4), (Some Float32, 4),
      (Some Float64, 5), (Some Float64, 5), (Some TUInt8, 6), (Some Float8_e4m3fn, 7), (Some Float8_e5m2, 8)]"

definition int_to_dtype :: "(int, torch_dtype option) odict" where
  "int_to_dtype = dict_display
     [(0, None), (1, Some Float16), (2, Some Float16), (3, Some BFloat16), (4, Some Float32), (5, Some Float64),
      (6, Some TUInt8), (7, Some Float8_e4m3fn), (8, Some Float8_e5m2)]"

definition location_to_int :: "(string option, int) odict" where
  "location_to_int = dict_display [(None, 0), (Some ''LocalCPUBackend'', 1), (Some ''LocalDiskBackend'', 2)]"

definition int_to_location :: "(int, string option) odict" where
  "int_to_location = dict_display [(0, None), (1, Some ''LocalCPUBackend''), (2, Some ''LocalDiskBackend'')]"

text \<open>Subscripting a dictionary.\<close>

definition subscript :: "('k, 'v) odict \<Rightarrow> 'k \<Rightarrow> 'v result" where
  "subscript d k = (case map_of d k of None \<Rightarrow> Inl KeyError | Some v \<Rightarrow> Inr v)"

lemma command_round_trip [simp]: "command_of (command_value c) = Inr c"
  by (cases c) (simp_all add: command_of_def enum_of_def command_value_def)

lemma code_round_trip [simp]: "code_of (code_value c) = Inr c"
  by (cases c) (simp_all add: code_of_def enum_of_def code_value_def)

lemma fmt_round_trip [simp]: "fmt_of (fmt_value f) = Inr f"
  by (cases f) (simp_all add: fmt_of_def enum_of_def fmt_value_def)

lemma command_bounds: "1 \<le> command_value c \<and> command_value c \<le> 5"
  by (cases c) (simp_all add: command_value_def)

lemma code_bounds: "200 \<le> code_value c \<and> code_value c \<le> 400"
  by (cases c) (simp_all add: code_value_def)

lemma fmt_bounds: "0 \<le> fmt_value f \<and> fmt_value f \<le> 6"
  by (cases f) (simp_all add: fmt_value_def)

lemma dtype_tables:
  "dtype_to_int = [(None, 0), (Some Float16, 2), (Some BFloat16, 3), (Some Float32, 4), (Some Float64, 5),
     (Some TUInt8, 6), (Some Float8_e4m3fn, 7), (Some Float8_e5m2, 8)]"
  "int_to_dtype = [(0, None), (1, Some Float16), (2, Some Float16), (3, Some BFloat16), (4, Some Float32),
     (5, Some Float64), (6, Some TUInt8), (7, Some Float8_e4m3fn), (8, Some Float8_e5m2)]"
  by code_simp+

lemma location_tables:
  "location_to_int = [(None, 0), (Some ''LocalCPUBackend'', 1), (Some ''LocalDiskBackend'', 2)]"
  "int_to_location = [(0, None), (1, Some ''LocalCPUBackend''), (2, Some ''LocalDiskBackend'')]"
  by code_simp+

lemma dtype_round_trip:
  assumes "subscript dtype_to_int d = Inr i"
  shows "subscript int_to_dtype i = Inr d \<and> 0 \<le> i \<and> i \<le> 8"
  using assms by (auto simp: subscript_def dtype_tables split: if_splits)

lemma location_round_trip:
  assumes "subscript location_to_int l = Inr i"
  shows "subscript int_to_location i = Inr l \<and> 0 \<le> i \<and> i \<le> 2"
  using assms by (auto simp: subscript_def location_tables split: if_splits)

section \<open>Remote metadata\<close>

text \<open>\<open>REMOTE_METADATA_FMT\<close> is \<open>"i"\<close> repeated; the model keeps the number of integers, the global
  variable being \<open>None\<close> until \<open>init_remote_metadata_info\<close>.\<close>

definition init_remote_metadata_info :: "nat \<Rightarrow> nat option \<times> nat option" where
  "init_remote_metadata_info num_groups =
     (let fmt_length = 2 + 5 * num_groups in (Some fmt_length, Some (4 * fmt_length)))"

definition get_remote_metadata_bytes :: "nat option \<Rightarrow> nat result" where
  "get_remote_metadata_bytes g = (case g of None \<Rightarrow> Inl AssertionError | Some n \<Rightarrow> Inr n)"

record remote_metadata =
  rm_length :: int
  rm_shapes :: "int list list"
  rm_dtypes :: "torch_dtype option list"
  rm_fmt :: mem_fmt

fun prepare_groups :: "int list list \<Rightarrow> torch_dtype option list \<Rightarrow> int list \<Rightarrow> int list result" where
  "prepare_groups [] [] params = Inr params"
| "prepare_groups (s # ss) (d # ds) params =
     (if length s \<noteq> 4 then Inl AssertionError
      else res_bind (subscript dtype_to_int d) (\<lambda>i.
           prepare_groups ss ds (params @ [i] @ [s ! 0] @ [s ! 1] @ [s ! 2] @ [s ! 3])))"
| "prepare_groups [] (d # ds) params = Inl ValueError"
| "prepare_groups (s # ss) [] params = Inl ValueError"

definition prepare_params :: "remote_metadata \<Rightarrow> int list result" where
  "prepare_params rm = prepare_groups (rm_shapes rm) (rm_dtypes rm) [rm_length rm, fmt_value (rm_fmt rm)]"

text \<open>\<open>struct.pack\<close> with a format of \<open>n\<close> integers.\<close>

definition pack_exact :: "nat \<Rightarrow> int list \<Rightarrow> bytes result" where
  "pack_exact n xs = (if length xs = n then pack_ints xs else Inl StructError)"

definition rm_serialize_into :: "nat option \<Rightarrow> remote_metadata \<Rightarrow> bytes \<Rightarrow> bytes result" where
  "rm_serialize_into g rm buffer =
     (case g of
        None \<Rightarrow> Inl AssertionError
      | Some n \<Rightarrow>
          res_bind (prepare_params rm) (\<lambda>params.
          if length buffer < 4 * n then Inl StructError
          else res_bind (pack_exact n params) (\<lambda>bs. Inr (bs @ drop (4 * n) buffer))))"

definition rm_serialize :: "nat option \<Rightarrow> remote_metadata \<Rightarrow> bytes result" where
  "rm_serialize g rm =
     (case g of None \<Rightarrow> Inl AssertionError | Some n \<Rightarrow> res_bind (prepare_params rm) (pack_exact n))"

fun read_groups :: "int list \<Rightarrow> int list list \<Rightarrow> torch_dtype option list \<Rightarrow>
    (int list list \<times> torch_dtype option list) result" where
  "read_groups [] shapes dtypes = Inr (shapes, dtypes)"
| "read_groups (i # rest) shapes dtypes =
     res_bind (subscript int_to_dtype i) (\<lambda>d. read_groups (drop 4 rest) (shapes @ [take 4 rest]) (dtypes @ [d]))"

definition rm_deserialize :: "nat option \<Rightarrow> bytes \<Rightarrow> remote_metadata result" where
  "rm_deserialize g s =
     (case g of
        None \<Rightarrow> Inl AssertionError
      | Some n \<Rightarrow>
          if length s < 4 * n then Inl StructError
          else let result = unpack_ints n s
               in res_bind (fmt_of (result ! 1)) (\<lambda>f.
                  res_bind (read_groups (drop 2 result) [] []) (\<lambda>(shapes, dtypes).
                  Inr \<lparr> rm_length = result ! 0, rm_shapes = shapes, rm_dtypes = dtypes, rm_fmt = f \<rparr>)))"

lemma read_prepare_groups:
  assumes "prepare_groups ss ds ps = Inr ps'"
  shows "\<exists>qs. ps' = ps @ qs \<and> length qs = 5 * length ss \<and>
    (\<forall>as bs. read_groups qs as bs = Inr (as @ ss, bs @ ds))"
  using assms
proof (induction ss ds ps rule: prepare_groups.induct)
  case (2 s ss d ds ps)
  then obtain i where i: "subscript dtype_to_int d = Inr i" "length s = 4"
    by (auto simp: res_bind_def split: if_splits sum.splits)
  then obtain a b c e where s: "s = [a, b, c, e]"
    by (auto simp: length_Suc_conv numeral_eq_Suc)
  have "prepare_groups ss ds (ps @ [i] @ [s ! 0] @ [s ! 1] @ [s ! 2] @ [s ! 3]) = Inr ps'"
    using 2(2) i by simp
  from 2(1)[OF _ this] i(2)
  obtain qs where qs: "ps' = (ps @ [i] @ [s ! 0] @ [s ! 1] @ [s ! 2] @ [s ! 3]) @ qs" "length qs = 5 * length ss"
    "\<forall>as bs. read_groups qs as bs = Inr (as @ ss, bs @ ds)" by auto
  then show ?case
    using dtype_round_trip[OF i(1)] by (intro exI[of _ "i # s @ qs"]) (simp add: s)
qed auto

lemma unpack9: "pack_ints xs = Inr bs \<Longrightarrow> length xs = 9 \<Longrightarrow> unpack_ints 9 (bs @ rest) = xs \<and> length bs = 36"
  using unpack_pack_ints by fastforce

lemma rm_round_trip:
  assumes "rm_serialize (Some n) rm = Inr bs"
  shows "length bs = 4 * n \<and> n = 2 + 5 * length (rm_shapes rm) \<and> rm_deserialize (Some n) (bs @ rest) = Inr rm"
proof -
  obtain ps where ps: "prepare_params rm = Inr ps" "length ps = n" "pack_ints ps = Inr bs"
    using assms by (auto simp: rm_serialize_def pack_exact_def res_bind_def split: sum.splits if_splits)
  obtain qs where qs: "ps = [rm_length rm, fmt_value (rm_fmt rm)] @ qs" "length qs = 5 * length (rm_shapes rm)"
    "\<forall>as bs. read_groups qs as bs = Inr (as @ rm_shapes rm, bs @ rm_dtypes rm)"
    using read_prepare_groups ps(1) unfolding prepare_params_def by blast
  have "unpack_ints n (bs @ rest) = ps" "length bs = 4 * n" using unpack_pack_ints[OF ps(3)] ps(2) by auto
  then show ?thesis using qs ps(2) by (simp add: rm_deserialize_def Let_def)
qed

section \<open>Headers\<close>

record client_meta =
  cm_command :: client_command
  cm_key :: any_key
  cm_length :: int
  cm_fmt :: mem_fmt
  cm_dtype :: "torch_dtype option"
  cm_shape :: "int list"
  cm_location :: "string option"

record server_meta =
  sm_code :: server_code
  sm_length :: int
  sm_fmt :: mem_fmt
  sm_dtype :: "torch_dtype option"
  sm_shape :: "int list"
  sm_location :: "string option"

definition any_to_string :: "any_key \<Rightarrow> string" where
  "any_to_string k = (case k of PlainKey c \<Rightarrow> key_to_string c | LayerKey l \<Rightarrow> layer_key_to_string l)"

definition cm_serialize :: "client_meta \<Rightarrow> bytes result" where
  "cm_serialize m =
     (let key_str = any_to_string (cm_key m)
      in if \<not> length key_str \<le> MAX_KEY_LENGTH then Inl AssertionError
         else if length (cm_shape m) \<noteq> 4 then Inl AssertionError
         else res_bind (subscript dtype_to_int (cm_dtype m)) (\<lambda>d.
              res_bind (subscript location_to_int (cm_location m)) (\<lambda>l.
              res_bind (pack_ints [command_value (cm_command m), cm_length m, fmt_value (cm_fmt m), d, l,
                                   cm_shape m ! 0, cm_shape m ! 1, cm_shape m ! 2, cm_shape m ! 3]) (\<lambda>bs.
              Inr (bs @ pack_s MAX_KEY_LENGTH (bytes_ljust MAX_KEY_LENGTH (str_encode key_str)))))))"

definition cm_packlength :: nat where
  "cm_packlength = 4 * 9 + MAX_KEY_LENGTH"

definition cm_deserialize :: "bytes \<Rightarrow> client_meta result" where
  "cm_deserialize s =
     (if length s \<noteq> cm_packlength then Inl StructError
      else let v = unpack_ints 9 s; key = drop 36 s
           in res_bind (command_of (v ! 0)) (\<lambda>command.
              res_bind (bytes_decode key) (\<lambda>key_str.
              res_bind (parse_cache_key (py_strip key_str)) (\<lambda>k.
              res_bind (fmt_of (v ! 2)) (\<lambda>f.
              res_bind (subscript int_to_dtype (v ! 3)) (\<lambda>d.
              res_bind (subscript int_to_location (v ! 4)) (\<lambda>l.
              Inr \<lparr> cm_command = command, cm_key = k, cm_length = v ! 1, cm_fmt = f, cm_dtype = d,
                    cm_shape = [v ! 5, v ! 6, v ! 7, v ! 8], cm_location = l \<rparr>)))))))"

definition sm_serialize :: "server_meta \<Rightarrow> bytes result" where
  "sm_serialize m =
     (if length (sm_shape m) \<noteq> 4 then Inl AssertionError
      else res_bind (subscript dtype_to_int (sm_dtype m)) (\<lambda>d.
           res_bind (subscript location_to_int (sm_location m)) (\<lambda>l.
           pack_ints [code_value (sm_code m), sm_length m, fmt_value (sm_fmt m), d,
                      sm_shape m ! 0, sm_shape m ! 1, sm_shape m ! 2, sm_shape m ! 3, l])))"

definition sm_packlength :: nat where
  "sm_packlength = 4 * 9"

definition sm_deserialize :: "bytes \<Rightarrow> server_meta result" where
  "sm_deserialize s =
     (if length s \<noteq> sm_packlength then Inl StructError
      else let v = unpack_ints 9 s
           in res_bind (code_of (v ! 0)) (\<lambda>code.
              res_bind (fmt_of (v ! 2)) (\<lambda>f.
              res_bind (subscript int_to_dtype (v ! 3)) (\<lambda>d.
              res_bind (subscript int_to_location (v ! 8)) (\<lambda>l.
              Inr \<lparr> sm_code = code, sm_length = v ! 1, sm_fmt = f, sm_dtype = d,
                    sm_shape = [v ! 4, v ! 5, v ! 6, v ! 7], sm_location = l \<rparr>)))))"

text \<open>The range of the four byte integers.\<close>

abbreviation int32 :: "int \<Rightarrow> bool" where
  "int32 x \<equiv> - (2 ^ 31) \<le> x \<and> x < 2 ^ 31"

lemma res_bind_ok: "is_ok (res_bind r f) \<longleftrightarrow> (\<exists>x. r = Inr x \<and> is_ok (f x))"
  by (cases r) auto

lemma is_ok_subscript: "is_ok (subscript d k) \<longleftrightarrow> k \<in> fst ` set d"
proof (cases "map_of d k")
  case (Some v)
  then show ?thesis using map_of_SomeD[OF Some] by (force simp: subscript_def)
qed (use map_of_eq_None_iff[of d k] in \<open>simp add: subscript_def\<close>)

lemma length4: "length s = 4 \<Longrightarrow> s = [s ! 0, s ! 1, s ! 2, s ! 3]"
  by (auto simp: length_Suc_conv numeral_eq_Suc)

lemma sm_round_trip:
  assumes "sm_serialize m = Inr bs"
  shows "length bs = sm_packlength \<and> sm_deserialize bs = Inr m"
proof -
  obtain d l where d: "subscript dtype_to_int (sm_dtype m) = Inr d" and l: "subscript location_to_int (sm_location m) = Inr l"
    and sh: "length (sm_shape m) = 4"
    and p: "pack_ints [code_value (sm_code m), sm_length m, fmt_value (sm_fmt m), d,
      sm_shape m ! 0, sm_shape m ! 1, sm_shape m ! 2, sm_shape m ! 3, l] = Inr bs"
    using assms by (auto simp: sm_serialize_def res_bind_Inr split: if_splits)
  have u: "unpack_ints 9 bs = [code_value (sm_code m), sm_length m, fmt_value (sm_fmt m), d,
      sm_shape m ! 0, sm_shape m ! 1, sm_shape m ! 2, sm_shape m ! 3, l]" and len: "length bs = sm_packlength"
    using unpack9[OF p, of "[]"] by (simp_all add: sm_packlength_def)
  have "sm_shape m = [sm_shape m ! 0, sm_shape m ! 1, sm_shape m ! 2, sm_shape m ! 3]" by (rule length4[OF sh])
  then show ?thesis
    using len u dtype_round_trip[OF d] location_round_trip[OF l] by (simp add: sm_deserialize_def)
qed

lemma sm_serialize_ok_iff:
  "is_ok (sm_serialize m) \<longleftrightarrow> length (sm_shape m) = 4 \<and> int32 (sm_length m) \<and> (\<forall>x \<in> set (sm_shape m). int32 x) \<and>
     sm_dtype m \<in> fst ` set dtype_to_int \<and> sm_location m \<in> fst ` set location_to_int"
proof (cases "length (sm_shape m) = 4")
  case True
  have s: "set (sm_shape m) = {sm_shape m ! 0, sm_shape m ! 1, sm_shape m ! 2, sm_shape m ! 3}"
    using length4[OF True] by (metis list.set(1) list.set(2))
  have dl: "0 \<le> d \<and> d \<le> 8" if "subscript dtype_to_int dt = Inr d" for dt d
    using dtype_round_trip[OF that] by simp
  have ll: "0 \<le> d \<and> d \<le> 2" if "subscript location_to_int lo = Inr d" for lo d
    using location_round_trip[OF that] by simp
  have e: "- (2 ^ 31) \<le> code_value (sm_code m) \<and> code_value (sm_code m) < 2 ^ 31"
    "- (2 ^ 31) \<le> fmt_value (sm_fmt m) \<and> fmt_value (sm_fmt m) < 2 ^ 31"
    using code_bounds[of "sm_code m"] fmt_bounds[of "sm_fmt m"] by auto
  show ?thesis
  proof (cases "subscript dtype_to_int (sm_dtype m)"; cases "subscript location_to_int (sm_location m)")
    fix d l
    assume d: "subscript dtype_to_int (sm_dtype m) = Inr d" and l: "subscript location_to_int (sm_location m) = Inr l"
    then show ?thesis
      unfolding s is_ok_subscript[symmetric] sm_serialize_def using True e dl[OF d] ll[OF l]
      by (auto simp: pack_ints_ok_iff simp del: pack_ints.simps)
  qed (simp_all add: s is_ok_subscript[symmetric] sm_serialize_def True)
qed (simp add: sm_serialize_def)

text \<open>A key whose text is read by the receiver: no separator is in its model name and its tags, its hash is
  an integer, and its text fits the key field and does not start or end with white space. It survives the wire
  when its dtype is the one its name is read as, which \<open>float8_e4m3fn\<close> and \<open>float8_e5m2\<close> are not.\<close>

definition text_key :: "cache_key \<Rightarrow> bool" where
  "text_key c \<longleftrightarrow>
     CHR ''@'' \<notin> set (ck_model_name c) \<and>
     (case ck_chunk_hash c of HInt _ \<Rightarrow> True | HBytes _ \<Rightarrow> False) \<and>
     map_of torch_dtype_to_str (ck_dtype c) = Some (ck_dtype_str c) \<and>
     (case ck_request_configs c of None \<Rightarrow> True | Some d \<Rightarrow> od_wf d) \<and> ck_tags c = tags_of (ck_request_configs c) \<and>
     (case ck_tags c of None \<Rightarrow> True | Some ts \<Rightarrow> list_all tag_ok ts) \<and>
     \<not> py_isspace (hd (key_to_string c)) \<and> \<not> py_isspace (last (key_to_string c)) \<and>
     length (str_encode (key_to_string c)) \<le> MAX_KEY_LENGTH"

definition wire_key :: "cache_key \<Rightarrow> bool" where
  "wire_key c \<longleftrightarrow> text_key c \<and> canonical_dtype (ck_dtype c) = ck_dtype c"

lemma key_to_string_ne [simp]: "key_to_string c \<noteq> []" "layer_key_to_string l \<noteq> []"
  by (simp_all add: key_to_string_def layer_key_to_string_def)

lemma text_key_parses:
  assumes "text_key c"
  shows "\<exists>k'. parse_cache_key (key_to_string c) = Inr (PlainKey k') \<and> key_eq k' (c\<lparr>ck_dtype := canonical_dtype (ck_dtype c)\<rparr>)"
proof -
  obtain h where h: "ck_chunk_hash c = HInt h"
    using assms by (auto simp: text_key_def split: hash_val.splits)
  have mk: "mk_cache_key (ck_model_name c) (ck_world_size c) (ck_worker_id c) (HInt h) (ck_dtype c)
      (ck_request_configs c) = Inr c"
    using assms h by (simp add: text_key_def mk_cache_key_def)
  have at: "CHR ''@'' \<notin> set (ck_model_name c)" and s: "map_of torch_dtype_to_str (ck_dtype c) = Some (ck_dtype_str c)"
    and wf: "\<forall>d. ck_request_configs c = Some d \<longrightarrow> od_wf d"
    and tg: "\<forall>ts. tags_of (ck_request_configs c) = Some ts \<longrightarrow> (\<forall>kv \<in> set ts. tag_ok kv)"
    using assms by (auto simp: text_key_def list_all_iff split: option.splits)
  obtain rc' where rc': "key_from_string (key_to_string c) = mk_cache_key (ck_model_name c) (ck_world_size c)
      (ck_worker_id c) (HInt h) (canonical_dtype (ck_dtype c)) rc'" "tags_of rc' = tags_of (ck_request_configs c)"
    using key_from_string_parts[OF at s wf tg mk] by auto
  have "parse_cache_key (key_to_string c) = res_bind (key_from_string (key_to_string c)) (\<lambda>k. Inr (PlainKey k))"
    by (rule plain_key_parsed[OF at s])
  then show ?thesis using rc' dtype_name_facts(5)[OF s] h assms by (auto simp: mk_cache_key_def key_eq_def text_key_def)
qed

lemma wire_key_parses: "wire_key c \<Longrightarrow> \<exists>k'. parse_cache_key (key_to_string c) = Inr (PlainKey k') \<and> key_eq k' c"
  using text_key_parses[of c] by (simp add: wire_key_def)

text \<open>What the receiver makes of the key field.\<close>

lemma key_field:
  assumes "s \<noteq> []" and "\<not> py_isspace (hd s)" and "\<not> py_isspace (last s)" and "length (str_encode s) \<le> MAX_KEY_LENGTH"
  shows "\<exists>t. bytes_decode (pack_s MAX_KEY_LENGTH (bytes_ljust MAX_KEY_LENGTH (str_encode s))) = Inr t \<and> py_strip t = s"
proof -
  let ?n = "MAX_KEY_LENGTH - length (str_encode s)"
  have l: "length (bytes_ljust MAX_KEY_LENGTH (str_encode s)) = MAX_KEY_LENGTH"
    using assms(4) by (simp add: bytes_ljust_def)
  then have "pack_s MAX_KEY_LENGTH (bytes_ljust MAX_KEY_LENGTH (str_encode s)) = bytes_ljust MAX_KEY_LENGTH (str_encode s)"
    by (simp add: pack_s_def)
  then show ?thesis
    using py_strip_ljust[OF assms(1-3), of ?n] by (simp add: ljust_encode decode_encode)
qed

lemma length_pack_s [simp]: "length (pack_s n bs) = n"
  by (simp add: pack_s_def)

lemma cm_serialize_cases:
  assumes "cm_serialize m = Inr bs"
  shows "\<exists>d l hdr. subscript dtype_to_int (cm_dtype m) = Inr d \<and> subscript location_to_int (cm_location m) = Inr l \<and>
    length (cm_shape m) = 4 \<and> length (any_to_string (cm_key m)) \<le> MAX_KEY_LENGTH \<and> length hdr = 36 \<and>
    bs = hdr @ pack_s MAX_KEY_LENGTH (bytes_ljust MAX_KEY_LENGTH (str_encode (any_to_string (cm_key m)))) \<and>
    unpack_ints 9 bs = [command_value (cm_command m), cm_length m, fmt_value (cm_fmt m), d, l,
      cm_shape m ! 0, cm_shape m ! 1, cm_shape m ! 2, cm_shape m ! 3]"
proof -
  obtain d l hdr where d: "subscript dtype_to_int (cm_dtype m) = Inr d" "subscript location_to_int (cm_location m) = Inr l"
    "length (cm_shape m) = 4" "length (any_to_string (cm_key m)) \<le> MAX_KEY_LENGTH"
    and p: "pack_ints [command_value (cm_command m), cm_length m, fmt_value (cm_fmt m), d, l,
      cm_shape m ! 0, cm_shape m ! 1, cm_shape m ! 2, cm_shape m ! 3] = Inr hdr"
    and bs: "bs = hdr @ pack_s MAX_KEY_LENGTH (bytes_ljust MAX_KEY_LENGTH (str_encode (any_to_string (cm_key m))))"
    using assms by (auto simp: cm_serialize_def Let_def res_bind_Inr split: if_splits simp del: pack_ints.simps)
  then show ?thesis using unpack9[OF p] by auto
qed

lemma cm_packed_length: "cm_serialize m = Inr bs \<Longrightarrow> length bs = cm_packlength"
  using cm_serialize_cases[of m bs] by (auto simp: cm_packlength_def)

lemma cm_deserialize_serialized:
  assumes "cm_serialize m = Inr bs" and "\<not> py_isspace (hd (any_to_string (cm_key m)))"
    and "\<not> py_isspace (last (any_to_string (cm_key m)))"
    and "length (str_encode (any_to_string (cm_key m))) \<le> MAX_KEY_LENGTH"
  shows "cm_deserialize bs = res_bind (parse_cache_key (any_to_string (cm_key m))) (\<lambda>k. Inr (m\<lparr>cm_key := k\<rparr>))"
proof -
  obtain d l hdr where d: "subscript dtype_to_int (cm_dtype m) = Inr d" and l: "subscript location_to_int (cm_location m) = Inr l"
    and sh: "length (cm_shape m) = 4" and h: "length hdr = 36"
    and bs: "bs = hdr @ pack_s MAX_KEY_LENGTH (bytes_ljust MAX_KEY_LENGTH (str_encode (any_to_string (cm_key m))))"
    and u: "unpack_ints 9 bs = [command_value (cm_command m), cm_length m, fmt_value (cm_fmt m), d, l,
      cm_shape m ! 0, cm_shape m ! 1, cm_shape m ! 2, cm_shape m ! 3]"
    using cm_serialize_cases[OF assms(1)] by blast
  have ne: "any_to_string (cm_key m) \<noteq> []" by (simp add: any_to_string_def split: any_key.split)
  obtain t where t: "bytes_decode (drop 36 bs) = Inr t" "py_strip t = any_to_string (cm_key m)"
    using key_field[OF ne assms(2-4)] h bs by auto
  have shp: "[cm_shape m ! 0, cm_shape m ! 1, cm_shape m ! 2, cm_shape m ! 3] = cm_shape m"
    using length4[OF sh] by simp
  show ?thesis
    using cm_packed_length[OF assms(1)] u t dtype_round_trip[OF d] location_round_trip[OF l] shp
    by (cases "parse_cache_key (any_to_string (cm_key m))") (simp_all add: cm_deserialize_def Let_def)
qed

lemma cm_serialize_ok_iff:
  "is_ok (cm_serialize m) \<longleftrightarrow> length (any_to_string (cm_key m)) \<le> MAX_KEY_LENGTH \<and>
     length (cm_shape m) = 4 \<and> int32 (cm_length m) \<and> (\<forall>x \<in> set (cm_shape m). int32 x) \<and>
     cm_dtype m \<in> fst ` set dtype_to_int \<and> cm_location m \<in> fst ` set location_to_int"
proof (cases "length (cm_shape m) = 4")
  case True
  have s: "set (cm_shape m) = {cm_shape m ! 0, cm_shape m ! 1, cm_shape m ! 2, cm_shape m ! 3}"
    using length4[OF True] by (metis list.set(1) list.set(2))
  have e: "- (2 ^ 31) \<le> command_value (cm_command m) \<and> command_value (cm_command m) < 2 ^ 31"
    "- (2 ^ 31) \<le> fmt_value (cm_fmt m) \<and> fmt_value (cm_fmt m) < 2 ^ 31"
    using command_bounds[of "cm_command m"] fmt_bounds[of "cm_fmt m"] by auto
  show ?thesis
  proof (cases "subscript dtype_to_int (cm_dtype m)"; cases "subscript location_to_int (cm_location m)")
    fix d l
    assume d: "subscript dtype_to_int (cm_dtype m) = Inr d" and l: "subscript location_to_int (cm_location m) = Inr l"
    then show ?thesis
      unfolding s is_ok_subscript[symmetric] cm_serialize_def Let_def
      using True e dtype_round_trip[OF d] location_round_trip[OF l]
      by (auto simp: pack_ints_ok_iff res_bind_ok is_ok_iff[of "pack_ints x" for x, symmetric] simp del: pack_ints.simps)
  qed (simp_all add: s is_ok_subscript[symmetric] cm_serialize_def Let_def True)
qed (simp add: cm_serialize_def Let_def)

text \<open>
  C23: how a request header reaches the server. For a plain key with an integer hash, no \<open>@\<close> in its model
  name and tags and no \<open>%\<close> in the names of the tags, whose text is at most 150 bytes and neither starts nor ends
  with white space, the received header has the command, sizes, format, dtype and location that were sent, and a
  key that is equal but for its dtype: it is the key that was sent unless that has the dtype \<open>float8_e4m3fn\<close> or
  \<open>float8_e5m2\<close>. The header of a layer key, with a model name without \<open>@\<close> and a text that fits and has no white
  space at its ends, is rejected with \<open>ValueError\<close>.
\<close>

theorem client_header_round_trip:
  assumes "cm_serialize m = Inr bs"
  shows "(cm_key m = PlainKey c \<and> text_key c \<longrightarrow>
            (\<exists>k'. cm_deserialize bs = Inr (m\<lparr>cm_key := PlainKey k'\<rparr>) \<and> key_eq k' (c\<lparr>ck_dtype := canonical_dtype (ck_dtype c)\<rparr>) \<and>
              (key_eq k' c \<longleftrightarrow> ck_dtype c \<notin> {Float8_e4m3fn, Float8_e5m2}))) \<and>
         (cm_key m = LayerKey l \<and> mk_layer_key model ws wid h dt rc i = Inr l \<and> CHR ''@'' \<notin> set model \<and>
          \<not> py_isspace (hd (layer_key_to_string l)) \<and> \<not> py_isspace (last (layer_key_to_string l)) \<and>
          length (str_encode (layer_key_to_string l)) \<le> MAX_KEY_LENGTH \<longrightarrow>
            cm_deserialize bs = Inl ValueError)"
proof (intro conjI impI; elim conjE)
  assume k: "cm_key m = PlainKey c" and w: "text_key c"
  then have d: "cm_deserialize bs = res_bind (parse_cache_key (key_to_string c)) (\<lambda>k. Inr (m\<lparr>cm_key := k\<rparr>))"
    using cm_deserialize_serialized[OF assms] by (simp add: any_to_string_def text_key_def)
  obtain k' where k': "parse_cache_key (key_to_string c) = Inr (PlainKey k')" "key_eq k' (c\<lparr>ck_dtype := canonical_dtype (ck_dtype c)\<rparr>)"
    using text_key_parses[OF w] by blast
  have "canonical_dtype (ck_dtype c) = ck_dtype c \<longleftrightarrow> ck_dtype c \<notin> {Float8_e4m3fn, Float8_e5m2}"
    by (cases "ck_dtype c") (auto simp: canonical_dtype_def)
  with k'(2) have "key_eq k' c \<longleftrightarrow> ck_dtype c \<notin> {Float8_e4m3fn, Float8_e5m2}" by (auto simp: key_eq_def)
  with d k' show "\<exists>k'. cm_deserialize bs = Inr (m\<lparr>cm_key := PlainKey k'\<rparr>) \<and> key_eq k' (c\<lparr>ck_dtype := canonical_dtype (ck_dtype c)\<rparr>) \<and>
      (key_eq k' c \<longleftrightarrow> ck_dtype c \<notin> {Float8_e4m3fn, Float8_e5m2})" by (intro exI[of _ k'] conjI) simp_all
next
  assume k: "cm_key m = LayerKey l" and mk: "mk_layer_key model ws wid h dt rc i = Inr l" and at: "CHR ''@'' \<notin> set model"
    and b: "\<not> py_isspace (hd (layer_key_to_string l))" "\<not> py_isspace (last (layer_key_to_string l))"
      "length (str_encode (layer_key_to_string l)) \<le> MAX_KEY_LENGTH"
  obtain c where c: "mk_cache_key model ws wid h dt rc = Inr c"
    using mk by (auto simp: mk_cache_key_def mk_layer_key_def split: option.splits)
  show "cm_deserialize bs = Inl ValueError"
    using cm_deserialize_serialized[OF assms] k b layer_key_rejected[OF at mk]
    by (simp add: any_to_string_def)
qed

text \<open>
  the bounds of the wire format. A header is built exactly when the key has at most 150
  characters, the shape four dimensions, every integer fits four signed bytes and the tables know the
  dtype and the location; it then has its fixed length, and the key field holds the whole encoded
  key exactly when that has at most 150 bytes: longer ones are cut although they pass the check.
\<close>

theorem header_bounds:
  "(is_ok (cm_serialize m) \<longleftrightarrow> length (any_to_string (cm_key m)) \<le> 150 \<and> length (cm_shape m) = 4 \<and>
      (\<forall>x \<in> set (cm_length m # cm_shape m). - (2 ^ 31) \<le> x \<and> x < 2 ^ 31) \<and>
      cm_dtype m \<in> fst ` set dtype_to_int \<and> cm_location m \<in> fst ` set location_to_int) \<and>
   (\<forall>bs. cm_serialize m = Inr bs \<longrightarrow> length bs = 186 \<and>
      (\<exists>rest. drop 36 bs @ rest = bytes_ljust 150 (str_encode (any_to_string (cm_key m))) \<and>
         (rest = [] \<longleftrightarrow> length (str_encode (any_to_string (cm_key m))) \<le> 150))) \<and>
   (is_ok (sm_serialize r) \<longleftrightarrow> length (sm_shape r) = 4 \<and>
      (\<forall>x \<in> set (sm_length r # sm_shape r). - (2 ^ 31) \<le> x \<and> x < 2 ^ 31) \<and>
      sm_dtype r \<in> fst ` set dtype_to_int \<and> sm_location r \<in> fst ` set location_to_int) \<and>
   (\<forall>bs. sm_serialize r = Inr bs \<longrightarrow> length bs = 36)"
proof (intro conjI allI impI)
  fix bs assume s: "cm_serialize m = Inr bs"
  show "length bs = 186" using cm_packed_length[OF s] by (simp add: cm_packlength_def MAX_KEY_LENGTH_def)
  let ?e = "str_encode (any_to_string (cm_key m))"
  have "drop 36 bs = pack_s 150 (bytes_ljust 150 ?e)"
    using cm_serialize_cases[OF s] by (auto simp: MAX_KEY_LENGTH_def)
  also have "\<dots> = take 150 (bytes_ljust 150 ?e)" by (simp add: pack_s_def bytes_ljust_def)
  finally have t: "drop 36 bs = take 150 (bytes_ljust 150 ?e)" .
  have "length (bytes_ljust 150 ?e) \<le> 150 \<longleftrightarrow> length ?e \<le> 150" by (auto simp: bytes_ljust_def)
  then show "\<exists>rest. drop 36 bs @ rest = bytes_ljust 150 ?e \<and> (rest = [] \<longleftrightarrow> length ?e \<le> 150)"
    unfolding t by (intro exI[of _ "drop 150 (bytes_ljust 150 ?e)"]) (simp only: append_take_drop_id drop_eq_Nil simp_thms)
next
  fix bs assume "sm_serialize r = Inr bs"
  then show "length bs = 36" using sm_round_trip by (simp add: sm_packlength_def)
qed (auto simp: cm_serialize_ok_iff sm_serialize_ok_iff MAX_KEY_LENGTH_def)

theorem header_bounds_witness:
  "is_ok (cm_serialize \<lparr>cm_command = PUT, cm_key = PlainKey (demo_key Float16), cm_length = 2 ^ 31 - 1, cm_fmt = KV_2LTD,
      cm_dtype = None, cm_shape = [1, 2, 3, 4], cm_location = None\<rparr>) \<and>
   \<not> is_ok (sm_serialize \<lparr>sm_code = FAIL, sm_length = 2 ^ 31, sm_fmt = BINARY, sm_dtype = Some TInt8,
      sm_shape = [0, 0, 0, 0], sm_location = None\<rparr>)"
proof -
  have "key_to_string (demo_key Float16) = ''m@2@1@-1f@half@u%x%y''" by code_simp
  then show ?thesis
    using header_bounds[of "\<lparr>cm_command = PUT, cm_key = PlainKey (demo_key Float16), cm_length = 2 ^ 31 - 1,
        cm_fmt = KV_2LTD, cm_dtype = None, cm_shape = [1, 2, 3, 4], cm_location = None\<rparr>"
      "\<lparr>sm_code = FAIL, sm_length = 2 ^ 31, sm_fmt = BINARY, sm_dtype = Some TInt8,
        sm_shape = [0, 0, 0, 0], sm_location = None\<rparr>"]
    by (simp add: any_to_string_def dtype_tables location_tables)
qed

lemma demo_key_wire: "wire_key (demo_key Float16)"
  by code_simp

theorem client_header_round_trip_witness:
  "\<exists>bs k'. cm_serialize \<lparr>cm_command = GET, cm_key = PlainKey (demo_key Float16), cm_length = 0, cm_fmt = KV_2LTD,
      cm_dtype = Some Float16, cm_shape = [0, 0, 0, 0], cm_location = None\<rparr> = Inr bs \<and>
    cm_deserialize bs = Inr \<lparr>cm_command = GET, cm_key = PlainKey k', cm_length = 0, cm_fmt = KV_2LTD,
      cm_dtype = Some Float16, cm_shape = [0, 0, 0, 0], cm_location = None\<rparr> \<and> key_eq k' (demo_key Float16)"
proof -
  let ?m = "\<lparr>cm_command = GET, cm_key = PlainKey (demo_key Float16), cm_length = 0, cm_fmt = KV_2LTD,
      cm_dtype = Some Float16, cm_shape = [0, 0, 0, 0], cm_location = None\<rparr>"
  have "is_ok (cm_serialize ?m)" by code_simp
  then obtain bs where bs: "cm_serialize ?m = Inr bs" by (auto simp: is_ok_iff)
  have d: "text_key (demo_key Float16)" "ck_dtype (demo_key Float16) = Float16" by code_simp+
  obtain k' where "cm_deserialize bs = Inr (?m\<lparr>cm_key := PlainKey k'\<rparr>)" "key_eq k' (demo_key Float16)"
    using client_header_round_trip[OF bs, THEN conjunct1, rule_format, of "demo_key Float16"] d by auto
  then show ?thesis using bs by auto
qed

end
