(* ===== verification/Remote.thy ===== *)
theory Remote
  imports Protocol
begin

text \<open>
  The remote cache: \<open>LMCacheServer\<close> (\<open>v1/server/__main__.py\<close>) with its in-memory store, the
  client \<open>LMCServerConnector\<close> and the prefix operations every connector inherits from
  \<open>RemoteConnector\<close>. A connection is two byte streams. How many bytes one \<open>recv\<close> hands over is
  up to the operating system: the functions \<open>rs_pick\<close> and \<open>rs_cpick\<close> choose it for the server
  and for the client. Allocation at the client (\<open>rs_alloc\<close>) gives the length of the buffer, or
  none.
\<close>

declare map_of_eq_Some_iff [simp del] Some_eq_map_of_iff [simp del]

section \<open>The store of the server\<close>

text \<open>A dictionary does not tell equal keys apart; the store is kept under what \<open>__eq__\<close> compares.\<close>

type_synonym key_id_tuple =
  "int option \<times> string \<times> int \<times> int \<times> hash_val \<times> torch_dtype \<times> (string \<times> string) list option"

definition ident_of :: "int option \<Rightarrow> 'a cache_key_scheme \<Rightarrow> key_id_tuple" where
  "ident_of layer k =
     (layer, ck_model_name k, ck_world_size k, ck_worker_id k, ck_chunk_hash k, ck_dtype k, ck_tags k)"

definition key_ident :: "any_key \<Rightarrow> key_id_tuple" where
  "key_ident k = (case k of PlainKey c \<Rightarrow> ident_of None c | LayerKey l \<Rightarrow> ident_of (Some (lk_layer_id l)) l)"

lemma key_ident_eq:
  "key_ident (PlainKey c) = key_ident (PlainKey d) \<longleftrightarrow> key_eq c d"
  "key_ident (LayerKey l) = key_ident (LayerKey m) \<longleftrightarrow> layer_key_eq l m"
  "key_ident (PlainKey c) \<noteq> key_ident (LayerKey l)"
  by (auto simp: key_ident_def ident_of_def key_eq_def layer_key_eq_def)

record lms_obj =
  lo_data :: "bytes option"
  lo_length :: int
  lo_fmt :: mem_fmt
  lo_dtype :: "torch_dtype option"
  lo_shape :: "int list"

type_synonym lms_store = "(key_id_tuple, lms_obj) odict"

definition lms_list_keys :: "lms_store \<Rightarrow> key_id_tuple list" where
  "lms_list_keys st = od_keys st"

definition lms_contains :: "any_key \<Rightarrow> lms_store \<Rightarrow> bool" where
  "lms_contains k st \<longleftrightarrow> key_ident k \<in> set (od_keys st)"

definition lms_remove :: "any_key \<Rightarrow> lms_store \<Rightarrow> lms_store result" where
  "lms_remove k st =
     (if key_ident k \<in> set (od_keys st) then Inr (AList.delete (key_ident k) st) else Inl KeyError)"

definition lms_put :: "client_meta \<Rightarrow> bytes option \<Rightarrow> lms_store \<Rightarrow> lms_store" where
  "lms_put m data st =
     AList.update (key_ident (cm_key m))
       \<lparr> lo_data = data, lo_length = cm_length m, lo_fmt = cm_fmt m, lo_dtype = cm_dtype m, lo_shape = cm_shape m \<rparr> st"

definition lms_get :: "any_key \<Rightarrow> lms_store \<Rightarrow> lms_obj option" where
  "lms_get k st = map_of st (key_ident k)"

section \<open>The server\<close>

definition sock_recv :: "(nat \<Rightarrow> bytes \<Rightarrow> nat) \<Rightarrow> nat \<Rightarrow> bytes \<Rightarrow> bytes \<times> bytes" where
  "sock_recv pick n input = (let k = min (max 1 (pick n input)) n in (take k input, drop k input))"

datatype recv = Blocked | Eof | Data bytes bytes

function receive_all :: "(nat \<Rightarrow> bytes \<Rightarrow> nat) \<Rightarrow> bool \<Rightarrow> nat \<Rightarrow> bytes \<Rightarrow> bytes \<Rightarrow> recv" where
  "receive_all pick eof n data input =
     (if length data < n
      then if input = [] then (if eof then Eof else Blocked)
           else receive_all pick eof n (data @ fst (sock_recv pick (n - length data) input))
                  (snd (sock_recv pick (n - length data) input))
      else Data data input)"
  by pat_completeness auto
termination
  by (relation "measure (\<lambda>(pick, eof, n, data, input). length input)") (auto simp: sock_recv_def Let_def)

declare receive_all.simps [simp del]

lemma receive_all_eq:
  "length data \<le> n \<Longrightarrow> receive_all pick eof n data input =
     (if n \<le> length data + length input then Data (data @ take (n - length data) input) (drop (n - length data) input)
      else if eof then Eof else Blocked)"
proof (induction pick eof n data input rule: receive_all.induct)
  case (1 pick eof n data input)
  show ?case
  proof (cases "length data < n \<and> input \<noteq> []")
    case True
    define k where "k = min (max 1 (pick (n - length data) input)) (n - length data)"
    have k: "1 \<le> k" "k \<le> n - length data" using True by (auto simp: k_def)
    have r: "sock_recv pick (n - length data) input = (take k input, drop k input)"
      by (simp add: sock_recv_def k_def Let_def)
    have "receive_all pick eof n data input = receive_all pick eof n (data @ take k input) (drop k input)"
      using True r by (subst receive_all.simps) simp
    also have "\<dots> = (if n \<le> length (data @ take k input) + length (drop k input)
      then Data ((data @ take k input) @ take (n - length (data @ take k input)) (drop k input))
             (drop (n - length (data @ take k input)) (drop k input))
      else if eof then Eof else Blocked)"
      using True r k by (intro 1(1)[unfolded r fst_conv snd_conv]) auto
    also have "\<dots> = (if n \<le> length data + length input then Data (data @ take (n - length data) input) (drop (n - length data) input)
      else if eof then Eof else Blocked)"
    proof (cases "k \<le> length input")
      case True
      then have "take k input @ take (n - length data - k) (drop k input) = take (n - length data) input"
        using k by (metis le_add_diff_inverse take_add)
      then show ?thesis using True k by (auto simp: min_def)
    next
      case False
      then show ?thesis using k by auto
    qed
    finally show ?thesis .
  next
    case False
    then show ?thesis using 1(2) by (subst receive_all.simps) auto
  qed
qed

datatype server_step =
    Waiting
  | Closed lms_store bytes
  | Step lms_store bytes bytes

definition reply_header :: "server_code \<Rightarrow> bytes result" where
  "reply_header code =
     sm_serialize \<lparr> sm_code = code, sm_length = 0, sm_fmt = KV_2LTD, sm_dtype = Some Float16,
                    sm_shape = [0, 0, 0, 0], sm_location = None \<rparr>"

definition send_reply :: "lms_store \<Rightarrow> bytes result \<Rightarrow> bytes \<Rightarrow> bytes \<Rightarrow> server_step" where
  "send_reply st hdr body rest = (case hdr of Inl _ \<Rightarrow> Closed st [] | Inr h \<Rightarrow> Step st (h @ body) rest)"

text \<open>One round of \<open>handle_client\<close>. An exception, like the end of the stream, ends the loop and
  closes the socket; sending the missing data of an object (\<open>sendall(None)\<close>) raises after
  the header has been sent.\<close>

definition handle_command :: "(nat \<Rightarrow> bytes \<Rightarrow> nat) \<Rightarrow> bool \<Rightarrow> lms_store \<Rightarrow> bytes \<Rightarrow> server_step" where
  "handle_command pick eof st input =
     (case receive_all pick eof cm_packlength [] input of
        Blocked \<Rightarrow> Waiting
      | Eof \<Rightarrow> Closed st []
      | Data header rest \<Rightarrow>
          (case cm_deserialize header of
             Inl _ \<Rightarrow> Closed st []
           | Inr meta \<Rightarrow>
               (case cm_command meta of
                  PUT \<Rightarrow>
                    (case receive_all pick eof (nat (cm_length meta)) [] rest of
                       Blocked \<Rightarrow> Waiting
                     | Eof \<Rightarrow> Step (lms_put meta None st) [] []
                     | Data s rest' \<Rightarrow> Step (lms_put meta (Some s) st) [] rest')
                | GET \<Rightarrow>
                    (case lms_get (cm_key meta) st of
                       None \<Rightarrow> send_reply st (reply_header FAIL) [] rest
                     | Some obj \<Rightarrow>
                         (case sm_serialize \<lparr> sm_code = SUCCESS, sm_length = lo_length obj, sm_fmt = lo_fmt obj,
                                 sm_dtype = lo_dtype obj, sm_shape = lo_shape obj, sm_location = None \<rparr> of
                            Inl _ \<Rightarrow> Closed st []
                          | Inr h \<Rightarrow>
                              (case lo_data obj of
                                 None \<Rightarrow> Closed st h
                               | Some d \<Rightarrow> Step st (h @ d) rest)))
                | EXIST \<Rightarrow> send_reply st (reply_header (if lms_contains (cm_key meta) st then SUCCESS else FAIL)) [] rest
                | HEALTH \<Rightarrow> send_reply st (reply_header SUCCESS) [] rest
                | LIST \<Rightarrow> Step st [] rest)))"

lemma handle_command_shrinks:
  "handle_command pick eof st input = Step st' out rest \<Longrightarrow> length rest < length input"
  by (auto simp: handle_command_def receive_all_eq send_reply_def cm_packlength_def
      split: if_splits sum.splits client_command.splits option.splits)

function handle_client :: "(nat \<Rightarrow> bytes \<Rightarrow> nat) \<Rightarrow> bool \<Rightarrow> lms_store \<Rightarrow> bytes \<Rightarrow> lms_store \<times> bytes \<times> bytes \<times> bool" where
  "handle_client pick eof st input =
     (case handle_command pick eof st input of
        Waiting \<Rightarrow> (st, [], input, True)
      | Closed st' out \<Rightarrow> (st', out, [], False)
      | Step st' out rest \<Rightarrow>
          (let (st'', out', rest', alive) = handle_client pick eof st' rest in (st'', out @ out', rest', alive)))"
  by pat_completeness auto
termination
  by (relation "measure (\<lambda>(pick, eof, st, input). length input)") (auto dest: handle_command_shrinks[OF sym] handle_command_shrinks)

declare handle_client.simps [simp del]

section \<open>The client\<close>

record remote =
  rs_store :: lms_store
  rs_in :: bytes
  rs_out :: bytes
  rs_alive :: bool
  rs_pick :: "nat \<Rightarrow> bytes \<Rightarrow> nat"
  rs_cpick :: "nat \<Rightarrow> bytes \<Rightarrow> nat"
  rs_alloc :: "server_meta \<Rightarrow> nat option"

record kv_obj =
  kv_bytes :: bytes
  kv_shape :: "int list"
  kv_dtype :: "torch_dtype option"
  kv_fmt :: mem_fmt

text \<open>A call may wait forever, raise, or return.\<close>

datatype 'a outcome = Blocks | Raises py_error | Returns 'a

fun outcome_of :: "'a result \<Rightarrow> 'a outcome" where
  "outcome_of (Inl e) = Raises e"
| "outcome_of (Inr x) = Returns x"

text \<open>The thread of the server takes its turn whenever bytes arrive.\<close>

definition server_turn :: "remote \<Rightarrow> remote" where
  "server_turn r =
     (if rs_alive r
      then let (st, out, rest, alive) = handle_client (rs_pick r) False (rs_store r) (rs_in r)
           in r\<lparr>rs_store := st, rs_in := rest, rs_out := rs_out r @ out, rs_alive := alive\<rparr>
      else r)"

definition sendall :: "bytes \<Rightarrow> remote \<Rightarrow> remote" where
  "sendall bs r = server_turn (r\<lparr>rs_in := rs_in r @ bs\<rparr>)"

text \<open>\<open>socket.recv\<close> waits for data, and returns nothing when the peer has closed.\<close>

definition client_recv :: "nat \<Rightarrow> remote \<Rightarrow> bytes option \<times> remote" where
  "client_recv n r =
     (if rs_out r = [] then (if rs_alive r then None else Some [], r)
      else let (bs, rest) = sock_recv (rs_cpick r) n (rs_out r) in (Some bs, r\<lparr>rs_out := rest\<rparr>))"

definition request_meta :: "client_command \<Rightarrow> any_key \<Rightarrow> client_meta" where
  "request_meta c k =
     \<lparr> cm_command = c, cm_key = k, cm_length = 0, cm_fmt = KV_2LTD, cm_dtype = Some Float16,
       cm_shape = [0, 0, 0, 0], cm_location = None \<rparr>"

text \<open>Send a request and read the header of the response.\<close>

definition exchange :: "client_command \<Rightarrow> any_key \<Rightarrow> remote \<Rightarrow> server_meta outcome \<times> remote" where
  "exchange c k r =
     (case cm_serialize (request_meta c k) of
        Inl e \<Rightarrow> (Raises e, r)
      | Inr bs \<Rightarrow>
          (case client_recv sm_packlength (sendall bs r) of
             (None, r') \<Rightarrow> (Blocks, r')
           | (Some resp, r') \<Rightarrow> (outcome_of (sm_deserialize resp), r')))"

definition connector_exists :: "any_key \<Rightarrow> remote \<Rightarrow> bool outcome \<times> remote" where
  "connector_exists k r =
     (case exchange EXIST k r of
        (Returns m, r') \<Rightarrow> (Returns (sm_code m = SUCCESS), r')
      | (Raises e, r') \<Rightarrow> (Raises e, r')
      | (Blocks, r') \<Rightarrow> (Blocks, r'))"

definition exists_sync :: "any_key \<Rightarrow> remote \<Rightarrow> bool outcome \<times> remote" where
  "exists_sync k r =
     (case connector_exists k r of (Raises e, r') \<Rightarrow> (Returns False, r') | res \<Rightarrow> res)"

definition put_meta :: "any_key \<Rightarrow> kv_obj \<Rightarrow> client_meta" where
  "put_meta k v =
     \<lparr> cm_command = PUT, cm_key = k, cm_length = int (length (kv_bytes v)), cm_fmt = kv_fmt v,
       cm_dtype = kv_dtype v, cm_shape = kv_shape v, cm_location = None \<rparr>"

definition connector_put :: "any_key \<Rightarrow> kv_obj \<Rightarrow> remote \<Rightarrow> unit outcome \<times> remote" where
  "connector_put k v r =
     (case cm_serialize (put_meta k v) of
        Inl e \<Rightarrow> (Raises e, r)
      | Inr bs \<Rightarrow> (Returns (), sendall (kv_bytes v) (sendall bs r)))"

text \<open>\<open>receive_all\<close> of the client fills the buffer of a fresh memory object. Reading more than the
  buffer holds is a \<open>ValueError\<close> of \<open>recv_into\<close>.\<close>

definition client_receive_all :: "server_meta \<Rightarrow> remote \<Rightarrow> kv_obj option outcome \<times> remote" where
  "client_receive_all m r =
     (let n = nat (sm_length m)
      in case rs_alloc r m of
           None \<Rightarrow> (Returns None, r)
         | Some buflen \<Rightarrow>
             if 0 < n \<and> buflen < n then (Raises ValueError, r)
             else (case receive_all (rs_cpick r) (\<not> rs_alive r) n [] (rs_out r) of
                     Blocked \<Rightarrow> (Blocks, r\<lparr>rs_out := []\<rparr>)
                   | Eof \<Rightarrow> (Returns None, r\<lparr>rs_out := []\<rparr>)
                   | Data bs rest \<Rightarrow>
                       (Returns (Some \<lparr> kv_bytes = bs, kv_shape = sm_shape m, kv_dtype = sm_dtype m,
                                        kv_fmt = sm_fmt m \<rparr>),
                        r\<lparr>rs_out := rest\<rparr>)))"

text \<open>\<open>get\<close> holds the lock for the header and again for the body; between the two another task
  may run. \<open>get_header\<close> gives no header when the key is not there.\<close>

definition get_header :: "any_key \<Rightarrow> remote \<Rightarrow> server_meta option outcome \<times> remote" where
  "get_header k r =
     (case exchange GET k r of
        (Returns m, r') \<Rightarrow> (Returns (if sm_code m \<noteq> SUCCESS then None else Some m), r')
      | (Raises e, r') \<Rightarrow> (Raises e, r')
      | (Blocks, r') \<Rightarrow> (Blocks, r'))"

definition connector_get :: "any_key \<Rightarrow> remote \<Rightarrow> kv_obj option outcome \<times> remote" where
  "connector_get k r =
     (case get_header k r of
        (Returns None, r') \<Rightarrow> (Returns None, r')
      | (Returns (Some m), r') \<Rightarrow> client_receive_all m r'
      | (Raises e, r') \<Rightarrow> (Raises e, r')
      | (Blocks, r') \<Rightarrow> (Blocks, r'))"

section \<open>The connection at rest\<close>

text \<open>Nothing is in flight and the stored objects are complete. From here on, the header of a response arrives in one
  piece, because the client reads it with one call of \<open>recv\<close>, and memory for a body can be had
  (\<open>allocate\<close> of the CPU backend, called with its defaults, returns an object or waits). All other reads, of
  the server and of the client, are cut up in any way.\<close>

definition obj_ok :: "lms_obj \<Rightarrow> bool" where
  "obj_ok ob \<longleftrightarrow> (\<exists>d. lo_data ob = Some d \<and> lo_length ob = int (length d)) \<and>
     is_ok (sm_serialize \<lparr> sm_code = SUCCESS, sm_length = lo_length ob, sm_fmt = lo_fmt ob, sm_dtype = lo_dtype ob,
              sm_shape = lo_shape ob, sm_location = None \<rparr>)"

definition idle :: "remote \<Rightarrow> bool" where
  "idle r \<longleftrightarrow> rs_alive r \<and> rs_in r = [] \<and> rs_out r = [] \<and>
     (\<forall>s. sm_packlength \<le> rs_cpick r sm_packlength s) \<and>
     (\<forall>m. \<exists>b. rs_alloc r m = Some b \<and> sm_length m \<le> int b) \<and>
     (\<forall>i ob. map_of (rs_store r) i = Some ob \<longrightarrow> obj_ok ob)"

definition fits :: "kv_obj \<Rightarrow> bool" where
  "fits v \<longleftrightarrow> int (length (kv_bytes v)) < 2 ^ 31 \<and> length (kv_shape v) = 4 \<and> (\<forall>x \<in> set (kv_shape v). int32 x) \<and>
     kv_dtype v \<in> fst ` set dtype_to_int"

definition remote_view :: "remote \<Rightarrow> cache_key \<Rightarrow> kv_obj option" where
  "remote_view r c =
     map_option (\<lambda>ob. \<lparr> kv_bytes = (case lo_data ob of None \<Rightarrow> [] | Some d \<Rightarrow> d), kv_shape = lo_shape ob,
                        kv_dtype = lo_dtype ob, kv_fmt = lo_fmt ob \<rparr>)
       (map_of (rs_store r) (key_ident (PlainKey c)))"

lemma handle_client_idle: "handle_client pick False st [] = (st, [], [], True)"
  by (subst handle_client.simps) (simp add: handle_command_def receive_all_eq cm_packlength_def)

lemma recv_header:
  assumes "\<forall>s. sm_packlength \<le> rs_cpick r sm_packlength s" and "rs_out r = h @ rest" and "length h = sm_packlength"
  shows "client_recv sm_packlength r = (Some h, r\<lparr>rs_out := rest\<rparr>)"
proof -
  have "h \<noteq> []" using assms(3) by (auto simp: sm_packlength_def)
  moreover have "min (max 1 (rs_cpick r sm_packlength (rs_out r))) sm_packlength = sm_packlength"
    using assms(1)[rule_format, of "rs_out r"] by (simp add: sm_packlength_def min_def max_def)
  ultimately show ?thesis using assms(2,3) by (simp add: client_recv_def sock_recv_def Let_def)
qed

text \<open>A request whose header arrives is handled at once.\<close>

lemma sendall_command:
  assumes "rs_alive r" and "rs_in r = []" and "cm_serialize m = Inr bs" and "cm_deserialize bs = Inr m'"
    and "cm_command m' \<noteq> PUT"
    and "handle_command (rs_pick r) False (rs_store r) bs = Step st out []"
  shows "sendall bs r = r\<lparr>rs_store := st, rs_in := [], rs_out := rs_out r @ out\<rparr>"
proof -
  have "handle_client (rs_pick r) False (rs_store r) bs = (st, out, [], True)"
    using assms(6) by (subst handle_client.simps) (simp add: handle_client_idle)
  then show ?thesis using assms(1,2) by (simp add: sendall_def server_turn_def)
qed

lemma header_travels:
  assumes "wire_key c" and "cm_key m = PlainKey c" and "length (cm_shape m) = 4" and "int32 (cm_length m)"
    and "\<forall>x \<in> set (cm_shape m). int32 x" and "cm_dtype m \<in> fst ` set dtype_to_int" and "cm_location m = None"
  shows "\<exists>bs k'. cm_serialize m = Inr bs \<and> length bs = cm_packlength \<and>
    cm_deserialize bs = Inr (m\<lparr>cm_key := PlainKey k'\<rparr>) \<and> key_ident (PlainKey k') = key_ident (PlainKey c)"
proof -
  have "length (key_to_string c) \<le> MAX_KEY_LENGTH"
    using assms(1) length_str_encode[of "key_to_string c"] by (auto simp: wire_key_def text_key_def)
  then have "is_ok (cm_serialize m)"
    using assms(2-7) by (simp add: cm_serialize_ok_iff any_to_string_def location_tables)
  then obtain bs where bs: "cm_serialize m = Inr bs" by (auto simp: is_ok_iff)
  have "cm_deserialize bs = res_bind (parse_cache_key (key_to_string c)) (\<lambda>k. Inr (m\<lparr>cm_key := k\<rparr>))"
    using cm_deserialize_serialized[OF bs] assms(1,2) by (simp add: any_to_string_def wire_key_def text_key_def)
  with wire_key_parses[OF assms(1)] bs cm_packed_length[OF bs] show ?thesis
    by (auto simp: key_ident_eq)
qed

lemma request_travels:
  assumes "wire_key c"
  shows "\<exists>bs k'. cm_serialize (request_meta cmd (PlainKey c)) = Inr bs \<and> length bs = cm_packlength \<and>
    cm_deserialize bs = Inr (request_meta cmd (PlainKey k')) \<and> key_ident (PlainKey k') = key_ident (PlainKey c)"
  using header_travels[OF assms, of "request_meta cmd (PlainKey c)"] by (simp add: request_meta_def dtype_tables)

lemma put_travels:
  assumes "wire_key c" and "fits v"
  shows "\<exists>bs k'. cm_serialize (put_meta (PlainKey c) v) = Inr bs \<and> length bs = cm_packlength \<and>
    cm_deserialize bs = Inr (put_meta (PlainKey k') v) \<and> key_ident (PlainKey k') = key_ident (PlainKey c)"
  using header_travels[OF assms(1), of "put_meta (PlainKey c) v"] assms(2) by (simp add: put_meta_def fits_def)

lemma reply_travels:
  "\<exists>h. reply_header code = Inr h \<and> length h = sm_packlength \<and>
     (\<exists>m. sm_deserialize h = Inr m \<and> sm_code m = code)"
proof -
  have "is_ok (reply_header code)" by (simp add: reply_header_def sm_serialize_ok_iff dtype_tables location_tables)
  then obtain h where h: "reply_header code = Inr h" by (auto simp: is_ok_iff)
  then show ?thesis using sm_round_trip unfolding reply_header_def by fastforce
qed

lemma receive_header [simp]:
  "length bs = cm_packlength \<Longrightarrow> receive_all pick eof cm_packlength [] (bs @ rest) = Data bs rest"
  "length bs = cm_packlength \<Longrightarrow> receive_all pick eof cm_packlength [] bs = Data bs []"
  by (simp_all add: receive_all_eq)

text \<open>An exchange on an idle connection whose request the server answers with \<open>h @ body\<close>.\<close>

lemma exchange_idle:
  assumes "idle r" and "cm_serialize (request_meta cmd k) = Inr bs" and "length bs = cm_packlength"
    and "handle_command (rs_pick r) False (rs_store r) bs = Step (rs_store r) (h @ body) []"
    and "length h = sm_packlength" and "sm_deserialize h = Inr m"
  shows "exchange cmd k r = (Returns m, r\<lparr>rs_out := body\<rparr>)"
proof -
  have "handle_client (rs_pick r) False (rs_store r) bs = (rs_store r, h @ body, [], True)"
    using assms(4) by (subst handle_client.simps) (simp add: handle_client_idle)
  then have s: "sendall bs r = r\<lparr>rs_out := h @ body\<rparr>"
    using assms(1) by (simp add: sendall_def server_turn_def idle_def)
  have "client_recv sm_packlength (r\<lparr>rs_out := h @ body\<rparr>) = (Some h, r\<lparr>rs_out := body\<rparr>)"
    using recv_header[of "r\<lparr>rs_out := h @ body\<rparr>" h body] assms(1,5) by (simp add: idle_def)
  then show ?thesis using s assms(2,6) by (simp add: exchange_def)
qed

lemma connector_exists_idle:
  assumes "idle r" and "wire_key c"
  shows "connector_exists (PlainKey c) r = (Returns (remote_view r c \<noteq> None), r)"
proof -
  obtain bs k' where bs: "cm_serialize (request_meta EXIST (PlainKey c)) = Inr bs" "length bs = cm_packlength"
    "cm_deserialize bs = Inr (request_meta EXIST (PlainKey k'))" "key_ident (PlainKey k') = key_ident (PlainKey c)"
    using request_travels[OF assms(2)] by blast
  define code where "code = (if lms_contains (PlainKey k') (rs_store r) then SUCCESS else FAIL)"
  obtain h m where h: "reply_header code = Inr h" "length h = sm_packlength" "sm_deserialize h = Inr m" "sm_code m = code"
    using reply_travels by blast
  have "handle_command (rs_pick r) False (rs_store r) bs = Step (rs_store r) (h @ []) []"
    using bs h(1) by (simp add: handle_command_def request_meta_def send_reply_def code_def)
  from exchange_idle[OF assms(1) bs(1,2) this h(2,3)]
  have "exchange EXIST (PlainKey c) r = (Returns m, r)"
    using assms(1) by (simp add: idle_def)
  moreover have "sm_code m = SUCCESS \<longleftrightarrow> remote_view r c \<noteq> None"
    using h(4) bs(4) map_of_None_keys[of "rs_store r" "key_ident (PlainKey c)"]
    by (auto simp: code_def lms_contains_def remote_view_def)
  ultimately show ?thesis by (simp add: connector_exists_def)
qed

lemma connector_put_idle:
  assumes "idle r" and "wire_key c" and "fits v"
  shows "\<exists>r'. connector_put (PlainKey c) v r = (Returns (), r') \<and> idle r' \<and>
    (\<forall>d. remote_view r' d = (if key_eq c d then Some v else remote_view r d))"
proof -
  obtain bs k' where bs: "cm_serialize (put_meta (PlainKey c) v) = Inr bs" "length bs = cm_packlength"
    "cm_deserialize bs = Inr (put_meta (PlainKey k') v)" "key_ident (PlainKey k') = key_ident (PlainKey c)"
    using put_travels[OF assms(2,3)] by blast
  have idle: "rs_alive r" "rs_in r = []" "rs_out r = []" using assms(1) by (auto simp: idle_def)
  let ?st = "lms_put (put_meta (PlainKey k') v) (Some (kv_bytes v)) (rs_store r)"
  let ?r = "r\<lparr>rs_store := ?st\<rparr>"
  have srv: "handle_client (rs_pick r) False (rs_store r) (bs @ kv_bytes v) = (?st, [], [], True)"
    using bs by (subst handle_client.simps)
      (simp add: handle_command_def put_meta_def receive_all_eq[of "[]" "length (kv_bytes v)"] handle_client_idle)
  have 1: "sendall (kv_bytes v) (sendall bs r) = ?r"
  proof (cases "kv_bytes v = []")
    case True
    then have "handle_client (rs_pick r) False (rs_store r) bs = (?st, [], [], True)" using srv by simp
    then have "sendall bs r = ?r" using idle by (simp add: sendall_def server_turn_def)
    then show ?thesis using True idle by (simp add: sendall_def server_turn_def handle_client_idle)
  next
    case False
    then have "handle_client (rs_pick r) False (rs_store r) bs = (rs_store r, [], bs, True)"
      using bs by (subst handle_client.simps)
        (simp add: handle_command_def put_meta_def receive_all_eq[of "[]" "length (kv_bytes v)"])
    then have "sendall bs r = r\<lparr>rs_in := bs\<rparr>" using idle by (simp add: sendall_def server_turn_def)
    then show ?thesis using srv idle by (simp add: sendall_def server_turn_def)
  qed
  have ok: "obj_ok \<lparr> lo_data = Some (kv_bytes v), lo_length = int (length (kv_bytes v)), lo_fmt = kv_fmt v,
      lo_dtype = kv_dtype v, lo_shape = kv_shape v \<rparr>"
    using assms(3) by (simp add: obj_ok_def fits_def sm_serialize_ok_iff location_tables)
  have st: "map_of ?st i = (if i = key_ident (PlainKey c) then Some \<lparr> lo_data = Some (kv_bytes v),
      lo_length = int (length (kv_bytes v)), lo_fmt = kv_fmt v, lo_dtype = kv_dtype v, lo_shape = kv_shape v \<rparr>
      else map_of (rs_store r) i)" for i
    using bs(4) by (simp add: lms_put_def put_meta_def)
  have "idle ?r" using assms(1) ok st by (simp add: idle_def)
  moreover have "remote_view ?r d = (if key_eq c d then Some v else remote_view r d)" for d
    using st key_ident_eq(1)[of d c] by (auto simp: remote_view_def key_eq_def)
  ultimately show ?thesis using 1 bs(1) by (simp add: connector_put_def)
qed

lemma connector_get_idle:
  assumes "idle r" and "wire_key c"
  shows "connector_get (PlainKey c) r = (Returns (remote_view r c), r)"
proof -
  obtain bs k' where bs: "cm_serialize (request_meta GET (PlainKey c)) = Inr bs" "length bs = cm_packlength"
    "cm_deserialize bs = Inr (request_meta GET (PlainKey k'))" "key_ident (PlainKey k') = key_ident (PlainKey c)"
    using request_travels[OF assms(2)] by blast
  have r: "r\<lparr>rs_out := []\<rparr> = r" using assms(1) by (simp add: idle_def)
  show ?thesis
  proof (cases "map_of (rs_store r) (key_ident (PlainKey c))")
    case None
    obtain h m where h: "reply_header FAIL = Inr h" "length h = sm_packlength" "sm_deserialize h = Inr m" "sm_code m = FAIL"
      using reply_travels by blast
    have "handle_command (rs_pick r) False (rs_store r) bs = Step (rs_store r) (h @ []) []"
      using bs h(1) None by (simp add: handle_command_def request_meta_def send_reply_def lms_get_def)
    from exchange_idle[OF assms(1) bs(1,2) this h(2,3)]
    show ?thesis using None h(4) r by (simp add: connector_get_def get_header_def remote_view_def)
  next
    case (Some ob)
    then have ok: "obj_ok ob" using assms(1) unfolding idle_def by blast
    then obtain d where d: "lo_data ob = Some d" "lo_length ob = int (length d)" by (auto simp: obj_ok_def)
    let ?m = "\<lparr> sm_code = SUCCESS, sm_length = lo_length ob, sm_fmt = lo_fmt ob, sm_dtype = lo_dtype ob,
              sm_shape = lo_shape ob, sm_location = None \<rparr>"
    obtain h where h: "sm_serialize ?m = Inr h" using ok by (auto simp: obj_ok_def is_ok_iff)
    then have hd: "length h = sm_packlength" "sm_deserialize h = Inr ?m" using sm_round_trip by blast+
    have "handle_command (rs_pick r) False (rs_store r) bs = Step (rs_store r) (h @ d) []"
      using bs h d Some by (simp add: handle_command_def request_meta_def lms_get_def)
    from exchange_idle[OF assms(1) bs(1,2) this hd]
    have g: "get_header (PlainKey c) r = (Returns (Some ?m), r\<lparr>rs_out := d\<rparr>)" by (simp add: get_header_def)
    obtain b where b: "rs_alloc r ?m = Some b" "int (length d) \<le> int b"
      using assms(1) d(2) by (fastforce simp: idle_def)
    have "client_receive_all ?m (r\<lparr>rs_out := d\<rparr>) = (Returns (Some \<lparr> kv_bytes = d, kv_shape = lo_shape ob,
        kv_dtype = lo_dtype ob, kv_fmt = lo_fmt ob \<rparr>), r)"
      using b d(2) r by (simp add: client_receive_all_def receive_all_eq)
    then show ?thesis using g Some d(1) by (simp add: connector_get_def remote_view_def)
  qed
qed

section \<open>What every connector inherits\<close>

text \<open>\<open>asyncio.gather\<close> starts the calls in order; a call that waits forever holds up the rest.\<close>

fun gather :: "('k \<Rightarrow> 's \<Rightarrow> 'a outcome \<times> 's) \<Rightarrow> 'k list \<Rightarrow> 's \<Rightarrow> 'a outcome list \<times> 's" where
  "gather f [] s = ([], s)"
| "gather f (k # ks) s =
     (case f k s of
        (Blocks, s') \<Rightarrow> ([Blocks], s')
      | (x, s') \<Rightarrow> (let (xs, s'') = gather f ks s' in (x # xs, s'')))"

fun index_of_False :: "bool list \<Rightarrow> nat" where
  "index_of_False [] = 0"
| "index_of_False (b # bs) = (if \<not> b then 0 else Suc (index_of_False bs))"

fun all_results :: "'a outcome list \<Rightarrow> 'a list outcome" where
  "all_results [] = Returns []"
| "all_results (Blocks # xs) = Blocks"
| "all_results (Raises e # xs) = Raises e"
| "all_results (Returns x # xs) = (case all_results xs of Returns ys \<Rightarrow> Returns (x # ys) | y \<Rightarrow> y)"

definition conn_batched_contains :: "('k \<Rightarrow> 's \<Rightarrow> bool outcome \<times> 's) \<Rightarrow> 'k list \<Rightarrow> 's \<Rightarrow> nat outcome \<times> 's" where
  "conn_batched_contains ex keys s =
     (case gather ex keys s of
        (xs, s') \<Rightarrow>
          (case all_results xs of
             Returns results \<Rightarrow> (Returns (if False \<in> set results then index_of_False results else length results), s')
           | Raises e \<Rightarrow> (Raises e, s')
           | Blocks \<Rightarrow> (Blocks, s')))"

text \<open>The objects before the first failure, and those after it, which are released.\<close>

fun split_results :: "bool \<Rightarrow> 'v option outcome list \<Rightarrow> 'v list \<times> 'v list" where
  "split_results found_failure [] = ([], [])"
| "split_results found_failure (x # xs) =
     (case x of
        Returns (Some v) \<Rightarrow>
          (let (vs, released) = split_results found_failure xs
           in if found_failure then (vs, v # released) else (v # vs, released))
      | _ \<Rightarrow> split_results True xs)"

definition conn_batched_get ::
  "('k \<Rightarrow> 's \<Rightarrow> 'v option outcome \<times> 's) \<Rightarrow> 'k list \<Rightarrow> 's \<Rightarrow> ('v list \<times> 'v list) outcome \<times> 's" where
  "conn_batched_get get keys s =
     (case gather get keys s of
        (xs, s') \<Rightarrow> if Blocks \<in> set xs then (Blocks, s') else (Returns (split_results False xs), s'))"

text \<open>A client's sequence of calls, and what a map would answer.\<close>

datatype ('k, 'v) conn_op = OPut 'k 'v | OGet 'k | OExists 'k

datatype 'v conn_res = RUnit | RObj "'v option" | RBool bool

fun map_outcome :: "('a \<Rightarrow> 'b) \<Rightarrow> 'a outcome \<times> 's \<Rightarrow> 'b outcome \<times> 's" where
  "map_outcome f (Returns x, s) = (Returns (f x), s)"
| "map_outcome f (Raises e, s) = (Raises e, s)"
| "map_outcome f (Blocks, s) = (Blocks, s)"

fun run_op where
  "run_op ex put get (OPut k v) s = map_outcome (\<lambda>_. RUnit) (put k v s)"
| "run_op ex put get (OGet k) s = map_outcome RObj (get k s)"
| "run_op ex put get (OExists k) s = map_outcome RBool (ex k s)"

fun run_ops where
  "run_ops ex put get [] s = ([], s)"
| "run_ops ex put get (op # ops) s =
     (let (x, s') = run_op ex put get op s; (xs, s'') = run_ops ex put get ops s' in (x # xs, s''))"

fun spec_op :: "('k \<Rightarrow> 'k \<Rightarrow> bool) \<Rightarrow> ('k, 'v) conn_op \<Rightarrow> ('k \<Rightarrow> 'v option) \<Rightarrow> 'v conn_res \<times> ('k \<Rightarrow> 'v option)" where
  "spec_op same (OPut k v) m = (RUnit, \<lambda>j. if same k j then Some v else m j)"
| "spec_op same (OGet k) m = (RObj (m k), m)"
| "spec_op same (OExists k) m = (RBool (m k \<noteq> None), m)"

fun spec_ops where
  "spec_ops same [] m = ([], m)"
| "spec_ops same (op # ops) m =
     (let (x, m') = spec_op same op m; (xs, m'') = spec_ops same ops m' in (x # xs, m''))"

fun conn_op_ok :: "('k \<Rightarrow> bool) \<Rightarrow> ('v \<Rightarrow> bool) \<Rightarrow> ('k, 'v) conn_op \<Rightarrow> bool" where
  "conn_op_ok kok vok (OPut k v) \<longleftrightarrow> kok k \<and> vok v"
| "conn_op_ok kok vok (OGet k) \<longleftrightarrow> kok k"
| "conn_op_ok kok vok (OExists k) \<longleftrightarrow> kok k"

text \<open>The contract of a connector: on its keys it behaves like a map, and reading changes nothing.\<close>

locale connector =
  fixes inv :: "'s \<Rightarrow> bool" and key_ok :: "'k \<Rightarrow> bool" and val_ok :: "'v \<Rightarrow> bool" and same :: "'k \<Rightarrow> 'k \<Rightarrow> bool"
    and view :: "'s \<Rightarrow> 'k \<Rightarrow> 'v option"
    and ex :: "'k \<Rightarrow> 's \<Rightarrow> bool outcome \<times> 's" and put :: "'k \<Rightarrow> 'v \<Rightarrow> 's \<Rightarrow> unit outcome \<times> 's"
    and get :: "'k \<Rightarrow> 's \<Rightarrow> 'v option outcome \<times> 's"
  assumes ex_view: "\<lbrakk>inv s; key_ok k\<rbrakk> \<Longrightarrow> ex k s = (Returns (view s k \<noteq> None), s)"
    and get_view: "\<lbrakk>inv s; key_ok k\<rbrakk> \<Longrightarrow> get k s = (Returns (view s k), s)"
    and put_view: "\<lbrakk>inv s; key_ok k; val_ok v\<rbrakk> \<Longrightarrow>
      \<exists>s'. put k v s = (Returns (), s') \<and> inv s' \<and> (\<forall>j. view s' j = (if same k j then Some v else view s j))"
begin

lemma gather_ex:
  assumes "inv s" and "\<forall>k \<in> set ks. key_ok k"
  shows "gather ex ks s = (map (\<lambda>k. Returns (view s k \<noteq> None)) ks, s)"
  using assms by (induction ks) (auto simp: ex_view)

lemma gather_get:
  assumes "inv s" and "\<forall>k \<in> set ks. key_ok k"
  shows "gather get ks s = (map (\<lambda>k. Returns (view s k)) ks, s)"
  using assms by (induction ks) (auto simp: get_view)

lemma all_results_Returns: "all_results (map (\<lambda>k. Returns (f k)) ks) = Returns (map f ks)"
  by (induction ks) auto

lemma index_of_False_prefix:
  "False \<in> set (map P ks) \<Longrightarrow> index_of_False (map P ks) = length (takeWhile P ks)"
  by (induction ks) auto

lemma contains_prefix:
  assumes "inv s" and "\<forall>k \<in> set ks. key_ok k"
  shows "conn_batched_contains ex ks s = (Returns (length (takeWhile (\<lambda>k. view s k \<noteq> None) ks)), s)"
proof -
  let ?P = "\<lambda>k. view s k \<noteq> None"
  have "(if False \<in> set (map ?P ks) then index_of_False (map ?P ks) else length (map ?P ks)) = length (takeWhile ?P ks)"
  proof (cases "False \<in> set (map ?P ks)")
    case True
    then show ?thesis using index_of_False_prefix[OF True] by simp
  next
    case False
    then have "\<forall>k \<in> set ks. ?P k" by auto
    then have "takeWhile ?P ks = ks" by (simp only: takeWhile_eq_all_conv)
    then show ?thesis using False by (simp only: if_False length_map)
  qed
  then show ?thesis
    by (simp only: conn_batched_contains_def gather_ex[OF assms] prod.case all_results_Returns outcome.case)
qed

lemma split_results_failed: "fst (split_results True (map (\<lambda>k. Returns (f k)) ks)) = []"
  by (induction ks) (auto simp: Let_def split: option.split prod.split)

lemma split_results_prefix:
  "fst (split_results False (map (\<lambda>k. Returns (f k)) ks)) = map (the \<circ> f) (takeWhile (\<lambda>k. f k \<noteq> None) ks)"
proof (induction ks)
  case (Cons k ks)
  then show ?case using split_results_failed[of f ks]
    by (cases "f k") (auto simp: Let_def split: prod.split)
qed simp

lemma get_prefix:
  assumes "inv s" and "\<forall>k \<in> set ks. key_ok k"
  shows "\<exists>released. conn_batched_get get ks s =
    (Returns (map (the \<circ> view s) (takeWhile (\<lambda>k. view s k \<noteq> None) ks), released), s)"
proof -
  have "Blocks \<notin> set (map (\<lambda>k. Returns (view s k)) ks)" by auto
  then show ?thesis
    using split_results_prefix[of "view s" ks] unfolding conn_batched_get_def gather_get[OF assms]
    by (cases "split_results False (map (\<lambda>k. Returns (view s k)) ks)") auto
qed

lemma run_ops_spec:
  assumes "inv s" and "\<forall>op \<in> set ops. conn_op_ok key_ok val_ok op" and "\<forall>j. m j = view s j"
  shows "\<exists>s'. run_ops ex put get ops s = (map Returns (fst (spec_ops same ops m)), s') \<and> inv s' \<and>
    (\<forall>j. view s' j = snd (spec_ops same ops m) j)"
  using assms
proof (induction ops arbitrary: s m)
  case (Cons op ops)
  have m: "m = view s" using Cons.prems(3) by auto
  obtain s1 where s1: "run_op ex put get op s = (Returns (fst (spec_op same op m)), s1)" "inv s1"
    "\<forall>j. snd (spec_op same op m) j = view s1 j"
  proof (cases op)
    case (OPut k v)
    then obtain s1 where "put k v s = (Returns (), s1)" "inv s1" "\<forall>j. view s1 j = (if same k j then Some v else view s j)"
      using put_view[of s k v] Cons.prems by auto
    then show ?thesis using that OPut m by simp
  next
    case (OGet k)
    then show ?thesis using get_view[of s k] that[of s] Cons.prems m by simp
  next
    case (OExists k)
    then show ?thesis using ex_view[of s k] that[of s] Cons.prems m by simp
  qed
  from Cons.IH[OF s1(2) _ s1(3)] Cons.prems(2) s1(1) show ?case
    by (auto simp: Let_def split: prod.split)
qed auto

end

interpretation lm: connector idle wire_key fits key_eq remote_view
  "\<lambda>c. connector_exists (PlainKey c)" "\<lambda>c. connector_put (PlainKey c)" "\<lambda>c. connector_get (PlainKey c)"
  by unfold_locales (auto simp: connector_exists_idle connector_get_idle connector_put_idle)

section \<open>Properties\<close>

text \<open>
  C4: the remote cache is a map. Take any sequence of \<open>put\<close>, \<open>get\<close> and \<open>exists\<close> on a connection with
  nothing in flight, on which the 36 bytes of the header of a response arrive in one piece (the client reads
  them with a single \<open>recv\<close>) and memory for the bodies can be had. The keys have an integer hash, a dtype that
  its name is read back as (not \<open>float8_e4m3fn\<close> or \<open>float8_e5m2\<close>), no \<open>@\<close> in model name and tags and no \<open>%\<close>
  in the names of the tags, and a text of at most 150 bytes without white space at its ends; the objects are
  within the bounds of the header. Then the client gets exactly the answers of a map from keys to objects,
  bytes, shape, dtype and format included, and the connection is idle again. No call waits or raises, however
  the server's reads and the client's reads of bodies are cut up.
\<close>

theorem remote_cache_refines_map:
  assumes "idle r" and "\<forall>op \<in> set ops. conn_op_ok wire_key fits op"
  shows "\<exists>r'. run_ops (\<lambda>c. connector_exists (PlainKey c)) (\<lambda>c. connector_put (PlainKey c))
        (\<lambda>c. connector_get (PlainKey c)) ops r
      = (map Returns (fst (spec_ops key_eq ops (remote_view r))), r') \<and>
    idle r' \<and> remote_view r' = snd (spec_ops key_eq ops (remote_view r))"
  using lm.run_ops_spec[OF assms, of "remote_view r"] by auto

text \<open>
  the batched operations return the longest prefix. On an idle connection
  \<open>batched_async_contains\<close> counts the leading keys the server holds and \<open>batched_get_non_blocking\<close>
  returns the objects of exactly these keys, in order.
\<close>

theorem remote_batch_is_longest_prefix:
  assumes "idle r" and "\<forall>c \<in> set cs. wire_key c"
  shows "conn_batched_contains (\<lambda>c. connector_exists (PlainKey c)) cs r =
      (Returns (length (takeWhile (\<lambda>c. remote_view r c \<noteq> None) cs)), r) \<and>
    (\<exists>released. conn_batched_get (\<lambda>c. connector_get (PlainKey c)) cs r =
      (Returns (map (the \<circ> remote_view r) (takeWhile (\<lambda>c. remote_view r c \<noteq> None) cs), released), r))"
  using lm.contains_prefix[OF assms] lm.get_prefix[OF assms] by simp

lemma get_header_idle:
  assumes "idle r" and "wire_key c" and "remote_view r c = Some v"
  shows "\<exists>m. get_header (PlainKey c) r = (Returns (Some m), r\<lparr>rs_out := kv_bytes v\<rparr>) \<and>
    sm_length m = int (length (kv_bytes v)) \<and> sm_code m = SUCCESS"
proof -
  obtain bs k' where bs: "cm_serialize (request_meta GET (PlainKey c)) = Inr bs" "length bs = cm_packlength"
    "cm_deserialize bs = Inr (request_meta GET (PlainKey k'))" "key_ident (PlainKey k') = key_ident (PlainKey c)"
    using request_travels[OF assms(2)] by blast
  obtain ob where ob: "map_of (rs_store r) (key_ident (PlainKey c)) = Some ob"
    using assms(3) by (auto simp: remote_view_def)
  then have ok: "obj_ok ob" using assms(1) unfolding idle_def by blast
  then obtain d where d: "lo_data ob = Some d" "lo_length ob = int (length d)" by (auto simp: obj_ok_def)
  let ?m = "\<lparr> sm_code = SUCCESS, sm_length = lo_length ob, sm_fmt = lo_fmt ob, sm_dtype = lo_dtype ob,
            sm_shape = lo_shape ob, sm_location = None \<rparr>"
  obtain h where h: "sm_serialize ?m = Inr h" using ok by (auto simp: obj_ok_def is_ok_iff)
  then have hd: "length h = sm_packlength" "sm_deserialize h = Inr ?m" using sm_round_trip by blast+
  have "handle_command (rs_pick r) False (rs_store r) bs = Step (rs_store r) (h @ d) []"
    using bs h d ob by (simp add: handle_command_def request_meta_def lms_get_def)
  from exchange_idle[OF assms(1) bs(1,2) this hd] d ob assms(3)
  show ?thesis by (auto simp: get_header_def remote_view_def)
qed

lemma connector_exists_behind:
  assumes "idle r" and "wire_key c" and "sm_packlength \<le> length d"
  shows "\<exists>h. length h = sm_packlength \<and> (\<exists>m. sm_deserialize h = Inr m \<and> (sm_code m = SUCCESS \<longleftrightarrow> remote_view r c \<noteq> None)) \<and>
    connector_exists (PlainKey c) (r\<lparr>rs_out := d\<rparr>) =
      (case sm_deserialize (take sm_packlength d) of Inl e \<Rightarrow> Raises e | Inr m \<Rightarrow> Returns (sm_code m = SUCCESS),
       r\<lparr>rs_out := drop sm_packlength d @ h\<rparr>)"
proof -
  obtain bs k' where bs: "cm_serialize (request_meta EXIST (PlainKey c)) = Inr bs" "length bs = cm_packlength"
    "cm_deserialize bs = Inr (request_meta EXIST (PlainKey k'))" "key_ident (PlainKey k') = key_ident (PlainKey c)"
    using request_travels[OF assms(2)] by blast
  define code where "code = (if lms_contains (PlainKey k') (rs_store r) then SUCCESS else FAIL)"
  obtain h m where h: "reply_header code = Inr h" "length h = sm_packlength" "sm_deserialize h = Inr m" "sm_code m = code"
    using reply_travels by blast
  have "handle_command (rs_pick r) False (rs_store r) bs = Step (rs_store r) h []"
    using bs h(1) by (simp add: handle_command_def request_meta_def send_reply_def code_def)
  then have "handle_client (rs_pick r) False (rs_store r) bs = (rs_store r, h, [], True)"
    by (subst handle_client.simps) (simp add: handle_client_idle)
  then have s: "sendall bs (r\<lparr>rs_out := d\<rparr>) = r\<lparr>rs_out := d @ h\<rparr>"
    using assms(1) by (simp add: sendall_def server_turn_def idle_def)
  have "client_recv sm_packlength (r\<lparr>rs_out := d @ h\<rparr>) = (Some (take sm_packlength d), r\<lparr>rs_out := drop sm_packlength d @ h\<rparr>)"
    using recv_header[of "r\<lparr>rs_out := d @ h\<rparr>" "take sm_packlength d" "drop sm_packlength d @ h"] assms(1,3)
    by (simp add: idle_def)
  then have "connector_exists (PlainKey c) (r\<lparr>rs_out := d\<rparr>) =
      (case sm_deserialize (take sm_packlength d) of Inl e \<Rightarrow> Raises e | Inr m \<Rightarrow> Returns (sm_code m = SUCCESS),
       r\<lparr>rs_out := drop sm_packlength d @ h\<rparr>)"
    using s bs(1) by (simp add: connector_exists_def exchange_def split: sum.split)
  moreover have "sm_code m = SUCCESS \<longleftrightarrow> remote_view r c \<noteq> None"
    using h(4) bs(4) map_of_None_keys[of "rs_store r" "key_ident (PlainKey c)"]
    by (auto simp: code_def lms_contains_def remote_view_def)
  ultimately show ?thesis using h(2,3) by blast
qed

text \<open>
  C38: a body is taken for the response of another request. \<open>get\<close> gives up the lock between the header
  and the body. When the \<open>exists\<close> of another task on the same connection runs in between, for an object of at
  least the 36 bytes of a header, \<open>exists\<close> decodes the first bytes of the object instead of its own response,
  and \<open>get\<close> then returns, without an error, bytes of the right length: the rest of the object, ended by the
  response of \<open>exists\<close>.
\<close>

theorem unread_body_is_next_response:
  assumes "idle r" and "wire_key c" and "wire_key d" and "remote_view r c = Some v" and "36 \<le> length (kv_bytes v)"
  shows "\<exists>m. get_header (PlainKey c) r = (Returns (Some m), r\<lparr>rs_out := kv_bytes v\<rparr>) \<and>
    (\<exists>h. length h = 36 \<and>
       connector_exists (PlainKey d) (r\<lparr>rs_out := kv_bytes v\<rparr>) =
         (case sm_deserialize (take 36 (kv_bytes v)) of Inl e \<Rightarrow> Raises e | Inr m \<Rightarrow> Returns (sm_code m = SUCCESS),
          r\<lparr>rs_out := drop 36 (kv_bytes v) @ h\<rparr>) \<and>
       (\<exists>w. client_receive_all m (r\<lparr>rs_out := drop 36 (kv_bytes v) @ h\<rparr>) = (Returns (Some w), r) \<and>
          kv_bytes w = drop 36 (kv_bytes v) @ h \<and> length (kv_bytes w) = length (kv_bytes v)))"
proof -
  obtain m where m: "get_header (PlainKey c) r = (Returns (Some m), r\<lparr>rs_out := kv_bytes v\<rparr>)"
    "sm_length m = int (length (kv_bytes v))" using get_header_idle[OF assms(1,2,4)] by blast
  have 36: "sm_packlength = 36" by (simp add: sm_packlength_def)
  obtain h where h: "length h = 36" "connector_exists (PlainKey d) (r\<lparr>rs_out := kv_bytes v\<rparr>) =
         (case sm_deserialize (take 36 (kv_bytes v)) of Inl e \<Rightarrow> Raises e | Inr m \<Rightarrow> Returns (sm_code m = SUCCESS),
          r\<lparr>rs_out := drop 36 (kv_bytes v) @ h\<rparr>)"
    using connector_exists_behind[OF assms(1,3), of "kv_bytes v"] assms(5) 36 by auto
  obtain b where b: "rs_alloc r m = Some b" "int (length (kv_bytes v)) \<le> int b"
    using assms(1) m(2) by (fastforce simp: idle_def)
  have "client_receive_all m (r\<lparr>rs_out := drop 36 (kv_bytes v) @ h\<rparr>) =
      (Returns (Some \<lparr> kv_bytes = drop 36 (kv_bytes v) @ h, kv_shape = sm_shape m, kv_dtype = sm_dtype m, kv_fmt = sm_fmt m \<rparr>), r)"
    using b m(2) h(1) assms(1,5) by (simp add: client_receive_all_def receive_all_eq idle_def)
  then show ?thesis
    using m h assms(5) by (intro exI[of _ m] conjI exI[of _ h]) (auto simp: client_receive_all_def)
qed

lemma dead_connection:
  assumes "\<not> rs_alive r" and "rs_out r = []"
  shows "exchange cmd k r = (case cm_serialize (request_meta cmd k) of
      Inl e \<Rightarrow> (Raises e, r) | Inr bs \<Rightarrow> (Raises StructError, r\<lparr>rs_in := rs_in r @ bs\<rparr>))"
  using assms
  by (auto simp: exchange_def sendall_def server_turn_def client_recv_def sm_deserialize_def sm_packlength_def split: sum.split)

text \<open>
  a layer key ends the connection. The server cannot read the header of a request for a layer
  key, so its thread stops: \<open>put\<close> returns normally although nothing is stored, \<open>exists\<close> raises, and
  from then on every \<open>get\<close> and \<open>exists\<close> on this connection raises and \<open>exists_sync\<close> answers
  \<open>False\<close>, also for keys the server holds.
\<close>

theorem layer_key_closes_connection:
  assumes "idle r" and "mk_layer_key model ws wid h dt rc i = Inr l" and "CHR ''@'' \<notin> set model"
    and "\<not> py_isspace (hd (layer_key_to_string l))" and "\<not> py_isspace (last (layer_key_to_string l))"
    and "length (str_encode (layer_key_to_string l)) \<le> 150" and "fits v"
  shows "\<exists>r'. connector_put (LayerKey l) v r = (Returns (), r') \<and> rs_store r' = rs_store r \<and>
    fst (connector_exists (LayerKey l) r) = Raises StructError \<and>
    (\<forall>c. wire_key c \<longrightarrow> fst (connector_get (PlainKey c) r') = Raises StructError \<and>
       fst (connector_exists (PlainKey c) r') = Raises StructError \<and>
       fst (exists_sync (PlainKey c) r') = Returns False)"
proof -
  have rej: "parse_cache_key (layer_key_to_string l) = Inl ValueError" by (rule layer_key_rejected[OF assms(3,2)])
  have "length (layer_key_to_string l) \<le> MAX_KEY_LENGTH"
    using assms(6) length_str_encode[of "layer_key_to_string l"] by (simp add: MAX_KEY_LENGTH_def)
  then have "is_ok (cm_serialize (put_meta (LayerKey l) v))" "is_ok (cm_serialize (request_meta EXIST (LayerKey l)))"
    using assms(7) by (simp_all add: cm_serialize_ok_iff any_to_string_def location_tables dtype_tables put_meta_def request_meta_def fits_def)
  then obtain ps es where ps: "cm_serialize (put_meta (LayerKey l) v) = Inr ps"
    and es: "cm_serialize (request_meta EXIST (LayerKey l)) = Inr es" by (auto simp: is_ok_iff)
  have closes: "handle_client (rs_pick r) False (rs_store r) bs = (rs_store r, [], [], False)"
    if "cm_serialize m = Inr bs" "cm_key m = LayerKey l" for m bs
  proof -
    have "cm_deserialize bs = Inl ValueError"
      using cm_deserialize_serialized[OF that(1)] that(2) assms(4-6) rej by (simp add: any_to_string_def MAX_KEY_LENGTH_def)
    then show ?thesis using cm_packed_length[OF that(1)]
      by (subst handle_client.simps) (simp add: handle_command_def)
  qed
  have idle: "rs_alive r" "rs_in r = []" "rs_out r = []" using assms(1) by (auto simp: idle_def)
  let ?r = "r\<lparr>rs_in := kv_bytes v, rs_alive := False\<rparr>"
  have "connector_put (LayerKey l) v r = (Returns (), ?r)"
    using closes[OF ps] ps idle by (simp add: connector_put_def sendall_def server_turn_def put_meta_def)
  moreover have "fst (connector_exists (LayerKey l) r) = Raises StructError"
    using closes[OF es] es idle
    by (simp add: connector_exists_def exchange_def sendall_def server_turn_def request_meta_def client_recv_def
        sm_deserialize_def sm_packlength_def)
  moreover have "fst (connector_get (PlainKey c) ?r) = Raises StructError \<and>
       fst (connector_exists (PlainKey c) ?r) = Raises StructError \<and>
       fst (exists_sync (PlainKey c) ?r) = Returns False" if w: "wire_key c" for c
  proof -
    obtain gs xs where "cm_serialize (request_meta GET (PlainKey c)) = Inr gs" "cm_serialize (request_meta EXIST (PlainKey c)) = Inr xs"
      using request_travels[OF w, of GET] request_travels[OF w, of EXIST] by blast
    then show ?thesis using idle
      by (simp add: connector_get_def get_header_def connector_exists_def exists_sync_def dead_connection)
  qed
  ultimately show ?thesis by (intro exI[of _ ?r]) auto
qed

text \<open>
  a \<open>put\<close> whose client goes away poisons the key. When the stream ends inside the body, the
  server stores an object without data under the key, in place of whatever was there; it then
  answers \<open>exists\<close> with success, but a \<open>get\<close> of the key makes it announce a body, send none
  and close the connection, so the client is left with nothing.
\<close>

theorem interrupted_put_poisons_key:
  assumes "wire_key c" and "fits v" and "cm_serialize (put_meta (PlainKey c) v) = Inr bs" and "n < length (kv_bytes v)"
  shows "\<exists>st'. handle_client pick True st (bs @ take n (kv_bytes v)) = (st', [], [], False) \<and>
    lms_contains (PlainKey c) st' \<and>
    (\<forall>gs pick'. cm_serialize (request_meta GET (PlainKey c)) = Inr gs \<longrightarrow>
       (\<exists>h m. handle_client pick' False st' gs = (st', h, [], False) \<and> sm_deserialize h = Inr m \<and>
          sm_code m = SUCCESS \<and> sm_length m = int (length (kv_bytes v))))"
proof -
  obtain k' where bs: "length bs = cm_packlength" "cm_deserialize bs = Inr (put_meta (PlainKey k') v)"
    and k': "key_ident (PlainKey k') = key_ident (PlainKey c)"
    using put_travels[OF assms(1,2)] assms(3) by auto
  let ?st = "lms_put (put_meta (PlainKey k') v) None st"
  have stop: "handle_client pick True ?st [] = (?st, [], [], False)"
    by (subst handle_client.simps) (simp add: handle_command_def receive_all_eq cm_packlength_def)
  have "handle_client pick True st (bs @ take n (kv_bytes v)) = (?st, [], [], False)"
    using bs assms(4) stop
    by (subst handle_client.simps) (simp add: handle_command_def put_meta_def receive_all_eq[of "[]" "length (kv_bytes v)"])
  moreover have "lms_contains (PlainKey c) ?st"
    using k' by (simp add: lms_contains_def lms_put_def put_meta_def dom_update)
  moreover have "\<exists>h m. handle_client pick' False ?st gs = (?st, h, [], False) \<and> sm_deserialize h = Inr m \<and>
          sm_code m = SUCCESS \<and> sm_length m = int (length (kv_bytes v))"
    if gs: "cm_serialize (request_meta GET (PlainKey c)) = Inr gs" for gs pick'
  proof -
    obtain k2 where g: "length gs = cm_packlength" "cm_deserialize gs = Inr (request_meta GET (PlainKey k2))"
      and k2: "key_ident (PlainKey k2) = key_ident (PlainKey c)"
      using request_travels[OF assms(1), of GET] gs by auto
    let ?m = "\<lparr> sm_code = SUCCESS, sm_length = int (length (kv_bytes v)), sm_fmt = kv_fmt v,
                       sm_dtype = kv_dtype v, sm_shape = kv_shape v, sm_location = None \<rparr>"
    have "is_ok (sm_serialize ?m)" using assms(2) by (simp add: sm_serialize_ok_iff fits_def location_tables)
    then obtain h where h: "sm_serialize ?m = Inr h" by (auto simp: is_ok_iff)
    have "handle_client pick' False ?st gs = (?st, h, [], False)"
      using g h k' k2
      by (subst handle_client.simps) (simp add: handle_command_def request_meta_def lms_get_def lms_put_def put_meta_def)
    with sm_round_trip[OF h] show ?thesis by auto
  qed
  ultimately show ?thesis by blast
qed

section \<open>Examples\<close>

definition demo_remote :: remote where
  "demo_remote =
     \<lparr> rs_store = [], rs_in = [], rs_out = [], rs_alive = True, rs_pick = (\<lambda>n s. 3), rs_cpick = (\<lambda>n s. n),
       rs_alloc = (\<lambda>m. Some (nat (sm_length m))) \<rparr>"

definition demo_obj :: kv_obj where
  "demo_obj = \<lparr> kv_bytes = replicate 40 7, kv_shape = [2, 1, 5, 4], kv_dtype = Some TUInt8, kv_fmt = KV_2LTD \<rparr>"

lemma demo_remote_idle: "idle demo_remote"
proof -
  have "\<exists>b. rs_alloc demo_remote m = Some b \<and> sm_length m \<le> int b" for m
    by (simp add: demo_remote_def)
  then show ?thesis by (auto simp: idle_def demo_remote_def)
qed

lemma demo_obj_fits: "fits demo_obj"
  by (simp add: fits_def demo_obj_def dtype_tables)

lemma demo_stored:
  "\<exists>r'. idle r' \<and> remote_view r' (demo_key Float16) = Some demo_obj"
  using connector_put_idle[OF demo_remote_idle demo_key_wire demo_obj_fits] by (auto simp: key_eq_def)

theorem remote_cache_refines_map_witness:
  "fst (run_ops (\<lambda>c. connector_exists (PlainKey c)) (\<lambda>c. connector_put (PlainKey c)) (\<lambda>c. connector_get (PlainKey c))
      [OExists (demo_key Float16), OPut (demo_key Float16) demo_obj, OGet (demo_key Float16)] demo_remote)
    = [Returns (RBool False), Returns RUnit, Returns (RObj (Some demo_obj))]"
proof -
  have "remote_view demo_remote (demo_key Float16) = None" by (simp add: remote_view_def demo_remote_def)
  moreover have "\<forall>op \<in> set [OExists (demo_key Float16), OPut (demo_key Float16) demo_obj, OGet (demo_key Float16)].
    conn_op_ok wire_key fits op" using demo_key_wire demo_obj_fits by simp
  from remote_cache_refines_map[OF demo_remote_idle this] calculation show ?thesis
    by (auto simp: key_eq_def)
qed

theorem remote_batch_is_longest_prefix_witness:
  "fst (conn_batched_contains (\<lambda>c. connector_exists (PlainKey c)) [demo_key Float16, demo_key Float16] demo_remote)
    = Returns 0"
proof -
  have "remote_view demo_remote (demo_key Float16) = None" by (simp add: remote_view_def demo_remote_def)
  then show ?thesis
    using remote_batch_is_longest_prefix[OF demo_remote_idle, of "[demo_key Float16, demo_key Float16]"] demo_key_wire
    by simp
qed

theorem unread_body_is_next_response_witness:
  "\<exists>r r' h w. remote_view r (demo_key Float16) = Some demo_obj \<and>
    fst (client_receive_all h (r\<lparr>rs_out := r'\<rparr>)) = Returns (Some w) \<and> length (kv_bytes w) = 40 \<and> kv_bytes w = r'"
proof -
  obtain r where r: "idle r" "remote_view r (demo_key Float16) = Some demo_obj" using demo_stored by blast
  have l: "length (kv_bytes demo_obj) = 40" by (simp add: demo_obj_def)
  then have "36 \<le> length (kv_bytes demo_obj)" by simp
  from unread_body_is_next_response[OF r(1) demo_key_wire demo_key_wire r(2) this]
  obtain m h w where "client_receive_all m (r\<lparr>rs_out := drop 36 (kv_bytes demo_obj) @ h\<rparr>) = (Returns (Some w), r)"
    "kv_bytes w = drop 36 (kv_bytes demo_obj) @ h" "length (kv_bytes w) = 40" unfolding l by blast
  then show ?thesis using r(2)
    by (intro exI[of _ r] exI[of _ "drop 36 (kv_bytes demo_obj) @ h"] exI[of _ m] exI[of _ w]) simp
qed

theorem layer_key_closes_connection_witness:
  "\<exists>r'. connector_put (LayerKey (demo_layer_key Float16 7)) demo_obj demo_remote = (Returns (), r') \<and>
    fst (connector_get (PlainKey (demo_key Float16)) r') = Raises StructError"
proof -
  have s: "layer_key_to_string (demo_layer_key Float16 7) = ''m@2@1@-1f@half@7@u%x%y''" by code_simp
  have "\<not> py_isspace (hd ''m@2@1@-1f@half@7@u%x%y'')" "\<not> py_isspace (last ''m@2@1@-1f@half@7@u%x%y'')"
    "length (str_encode ''m@2@1@-1f@half@7@u%x%y'') \<le> 150" by code_simp+
  then show ?thesis
    using layer_key_closes_connection[OF demo_remote_idle demo_keys(2)[of 7] _ _ _ _ demo_obj_fits] demo_key_wire
    unfolding s by auto
qed

theorem interrupted_put_poisons_key_witness:
  "\<exists>bs st'. cm_serialize (put_meta (PlainKey (demo_key Float16)) demo_obj) = Inr bs \<and>
    handle_client (\<lambda>n s. 3) True [] (bs @ take 5 (kv_bytes demo_obj)) = (st', [], [], False) \<and>
    lms_contains (PlainKey (demo_key Float16)) st'"
proof -
  obtain bs where bs: "cm_serialize (put_meta (PlainKey (demo_key Float16)) demo_obj) = Inr bs"
    using put_travels[OF demo_key_wire demo_obj_fits] by blast
  have "5 < length (kv_bytes demo_obj)" by (simp add: demo_obj_def)
  from interrupted_put_poisons_key[OF demo_key_wire demo_obj_fits bs this] bs show ?thesis by blast
qed

end
