(* ===== verification/LocalDisk.thy ===== *)
theory LocalDisk
  imports CachePolicy Messages
begin

text \<open>
  \<open>LocalDiskBackend\<close> (\<open>v1/storage_backend/local_disk_backend.py\<close>) with its worker: the
  dictionary of stored keys, the files, the eviction policy, the size accounting and the saves in
  progress. A save runs in two steps on a thread of the executor, writing the file and then
  inserting the key; the steps of different saves and of other calls interleave. Memory objects
  are opaque: \<open>de_phys\<close> is their physical size, \<open>de_len\<close> the length of their byte array, \<open>de_bytes\<close>
  its content and \<open>de_info\<close> their shape, dtype, format and cached positions. \<open>ld_held\<close> lists the
  objects whose reference count a submitted save has raised. The accounting uses whole numbers,
  which the program keeps in a float.

  \<open>ld_lock_held\<close> records that a call left by an exception without releasing \<open>disk_lock\<close>; every
  later call that takes the lock then waits forever.
\<close>

declare map_of_eq_Some_iff [simp del] Some_eq_map_of_iff [simp del]

named_theorems ld_simps \<comment> \<open>unfolding of the disk backend\<close>

record 'i disk_meta =
  dm_path :: string
  dm_size :: int
  dm_info :: 'i
  dm_pin_count :: int

definition dm_pin :: "'i disk_meta \<Rightarrow> 'i disk_meta" where
  "dm_pin m = m\<lparr>dm_pin_count := dm_pin_count m + 1\<rparr>"

definition dm_unpin :: "'i disk_meta \<Rightarrow> 'i disk_meta" where
  "dm_unpin m = m\<lparr>dm_pin_count := dm_pin_count m - 1\<rparr>"

definition dm_is_pinned :: "'i disk_meta \<Rightarrow> bool" where
  "dm_is_pinned m \<longleftrightarrow> dm_pin_count m > 0"

definition dm_can_evict :: "'i disk_meta \<Rightarrow> bool" where
  "dm_can_evict m \<longleftrightarrow> \<not> dm_is_pinned m"

record ('k, 'h, 'i, 'o, 'b) disk_backend =
  ld_dict :: "('k, 'i disk_meta) odict"
  ld_policy :: "('k, 'h) policy"
  ld_files :: "(string, 'b) odict"
  ld_max :: int
  ld_current :: int
  ld_usage :: int
  ld_keys_in_request :: "'k list"
  ld_sender :: bool
  ld_msgs :: "(op_type \<times> 'h) list"
  ld_put_tasks :: "'k list"
  ld_saves :: "('k \<times> 'o) list"
  ld_writes :: "('k \<times> 'o) list"
  ld_held :: "'o list"
  ld_lock_held :: bool

record ('k, 'h, 'i, 'o, 'b) disk_env =
  de_hash :: "'k \<Rightarrow> 'h"
  de_path :: "'k \<Rightarrow> string"
  de_items :: "(int \<times> 'k list) list \<Rightarrow> (int \<times> 'k list) list"
  de_phys :: "'o \<Rightarrow> int"
  de_len :: "'o \<Rightarrow> int"
  de_bytes :: "'o \<Rightarrow> 'b"
  de_info :: "'o \<Rightarrow> 'i"

definition disk_init :: "('k, 'h) policy \<Rightarrow> int \<Rightarrow> (string, 'b) odict \<Rightarrow> bool \<Rightarrow> ('k, 'h, 'i, 'o, 'b) disk_backend" where
  "disk_init pol max_size files sender =
     \<lparr> ld_dict = [], ld_policy = pol, ld_files = files, ld_max = max_size, ld_current = 0, ld_usage = 0,
       ld_keys_in_request = [], ld_sender = sender, ld_msgs = [], ld_put_tasks = [], ld_saves = [],
       ld_writes = [], ld_held = [], ld_lock_held = False \<rparr>"

text \<open>\<open>os.path.join(path, key.to_string().replace("/", "-") + ".pt")\<close>.\<close>

definition key_to_path :: "string \<Rightarrow> string \<Rightarrow> string" where
  "key_to_path dir key_string =
     (let name = map (\<lambda>c. if c = CHR ''/'' then CHR ''-'' else c) key_string @ ''.pt''
      in if dir = [] \<or> last dir = CHR ''/'' then dir @ name else dir @ CHR ''/'' # name)"

section \<open>The worker\<close>

definition task_priority :: "string \<Rightarrow> int result" where
  "task_priority task_type =
     (if task_type = ''prefetch'' then Inr 0 else if task_type = ''delete'' then Inr 1
      else if task_type = ''put'' then Inr 2 else Inl ValueError)"

definition insert_put_task :: "'k \<Rightarrow> ('k, 'h, 'i, 'o, 'b) disk_backend \<Rightarrow> ('k, 'h, 'i, 'o, 'b) disk_backend" where
  "insert_put_task key ld = ld\<lparr>ld_put_tasks := ld_put_tasks ld @ [key]\<rparr>"

definition remove_put_task :: "'k \<Rightarrow> ('k, 'h, 'i, 'o, 'b) disk_backend \<Rightarrow> ('k, 'h, 'i, 'o, 'b) disk_backend" where
  "remove_put_task key ld =
     (if key \<in> set (ld_put_tasks ld) then ld\<lparr>ld_put_tasks := remove1 key (ld_put_tasks ld)\<rparr> else ld)"

definition exists_in_put_tasks :: "'k \<Rightarrow> ('k, 'h, 'i, 'o, 'b) disk_backend \<Rightarrow> bool" where
  "exists_in_put_tasks key ld \<longleftrightarrow> key \<in> set (ld_put_tasks ld)"

section \<open>Lookups\<close>

definition upd_disk_meta ::
  "('i disk_meta \<Rightarrow> 'i disk_meta) \<Rightarrow> 'k \<Rightarrow> ('k, 'h, 'i, 'o, 'b) disk_backend \<Rightarrow> ('k, 'h, 'i, 'o, 'b) disk_backend" where
  "upd_disk_meta f key ld =
     (case map_of (ld_dict ld) key of None \<Rightarrow> ld | Some m \<Rightarrow> ld\<lparr>ld_dict := AList.update key (f m) (ld_dict ld)\<rparr>)"

definition disk_contains ::
  "'k \<Rightarrow> bool \<Rightarrow> ('k, 'h, 'i, 'o, 'b) disk_backend \<Rightarrow> ('k, 'h, 'i, 'o, 'b) disk_backend \<times> bool" where
  "disk_contains key pin ld =
     (if map_of (ld_dict ld) key = None then (ld, False)
      else if pin
      then ((upd_disk_meta dm_pin key ld)\<lparr>ld_keys_in_request := ld_keys_in_request ld @ [key]\<rparr>, True)
      else (ld, True))"

fun disk_touch_keys ::
  "('k, 'h, 'i, 'o, 'b) disk_env \<Rightarrow> int \<Rightarrow> 'k list \<Rightarrow> ('k, 'h, 'i, 'o, 'b) disk_backend
    \<Rightarrow> ('k, 'h, 'i, 'o, 'b) disk_backend \<times> unit result" where
  "disk_touch_keys env now [] ld = (ld, Inr ())"
| "disk_touch_keys env now (key # keys) ld =
     (case pol_hit (de_hash env) now key (ld_dict ld) (ld_policy ld) of
        (p, Inl e) \<Rightarrow> (ld\<lparr>ld_policy := p\<rparr>, Inl e)
      | (p, Inr d) \<Rightarrow> disk_touch_keys env now keys (ld\<lparr>ld_policy := p, ld_dict := d\<rparr>))"

definition disk_touch_cache ::
  "('k, 'h, 'i, 'o, 'b) disk_env \<Rightarrow> int \<Rightarrow> ('k, 'h, 'i, 'o, 'b) disk_backend
    \<Rightarrow> ('k, 'h, 'i, 'o, 'b) disk_backend \<times> unit result" where
  "disk_touch_cache env now ld =
     (case disk_touch_keys env now (rev (ld_keys_in_request ld)) ld of
        (ld', Inl e) \<Rightarrow> (ld', Inl e)
      | (ld', Inr _) \<Rightarrow> (ld'\<lparr>ld_keys_in_request := []\<rparr>, Inr ()))"

definition disk_pin :: "'k \<Rightarrow> ('k, 'h, 'i, 'o, 'b) disk_backend \<Rightarrow> ('k, 'h, 'i, 'o, 'b) disk_backend \<times> bool" where
  "disk_pin key ld =
     (if map_of (ld_dict ld) key \<noteq> None then (upd_disk_meta dm_pin key ld, True) else (ld, False))"

definition disk_unpin :: "'k \<Rightarrow> ('k, 'h, 'i, 'o, 'b) disk_backend \<Rightarrow> ('k, 'h, 'i, 'o, 'b) disk_backend \<times> bool" where
  "disk_unpin key ld =
     (if map_of (ld_dict ld) key \<noteq> None then (upd_disk_meta dm_unpin key ld, True) else (ld, False))"

fun disk_async_contains ::
  "'k list \<Rightarrow> bool \<Rightarrow> nat \<Rightarrow> ('k, 'h, 'i, 'o, 'b) disk_backend \<Rightarrow> ('k, 'h, 'i, 'o, 'b) disk_backend \<times> nat" where
  "disk_async_contains [] pin num_hit_counts ld = (ld, num_hit_counts)"
| "disk_async_contains (key # keys) pin num_hit_counts ld =
     (if map_of (ld_dict ld) key = None then (ld, num_hit_counts)
      else disk_async_contains keys pin (num_hit_counts + 1)
        (if pin then (upd_disk_meta dm_pin key ld)\<lparr>ld_keys_in_request := ld_keys_in_request ld @ [key]\<rparr> else ld))"

section \<open>Storing\<close>

definition push_msg ::
  "('k, 'h, 'i, 'o, 'b) disk_env \<Rightarrow> op_type \<Rightarrow> 'k \<Rightarrow> ('k, 'h, 'i, 'o, 'b) disk_backend \<Rightarrow> ('k, 'h, 'i, 'o, 'b) disk_backend" where
  "push_msg env t key ld =
     (if ld_sender ld then ld\<lparr>ld_msgs := ld_msgs ld @ [(t, de_hash env key)]\<rparr> else ld)"

text \<open>With \<open>force\<close> the call takes the lock itself and releases it only when nothing raises; without,
  the caller holds it.\<close>

definition disk_remove ::
  "('k, 'h, 'i, 'o, 'b) disk_env \<Rightarrow> 'k \<Rightarrow> bool \<Rightarrow> ('k, 'h, 'i, 'o, 'b) disk_backend
    \<Rightarrow> ('k, 'h, 'i, 'o, 'b) disk_backend \<times> bool result" where
  "disk_remove env key force ld =
     (case map_of (ld_dict ld) key of
        None \<Rightarrow> (ld, Inr False)
      | Some m \<Rightarrow>
          let ld1 = ld\<lparr>ld_dict := AList.delete key (ld_dict ld), ld_usage := ld_usage ld - dm_size m\<rparr>
          in if map_of (ld_files ld1) (dm_path m) = None
             then (ld1\<lparr>ld_lock_held := (force \<or> ld_lock_held ld1)\<rparr>, Inl OSError)
             else let ld2 = ld1\<lparr>ld_files := AList.delete (dm_path m) (ld_files ld1)\<rparr>
                  in if force
                     then (case pol_force_evict key (ld_policy ld2) of
                             Inl e \<Rightarrow> (ld2\<lparr>ld_lock_held := True\<rparr>, Inl e)
                           | Inr p \<Rightarrow> (push_msg env EVICT key (ld2\<lparr>ld_policy := p\<rparr>), Inr True))
                     else (push_msg env EVICT key ld2, Inr True))"

fun disk_batched_remove ::
  "('k, 'h, 'i, 'o, 'b) disk_env \<Rightarrow> 'k list \<Rightarrow> bool \<Rightarrow> nat \<Rightarrow> ('k, 'h, 'i, 'o, 'b) disk_backend
    \<Rightarrow> ('k, 'h, 'i, 'o, 'b) disk_backend \<times> nat result" where
  "disk_batched_remove env [] force num_removed ld = (ld, Inr num_removed)"
| "disk_batched_remove env (key # keys) force num_removed ld =
     (case disk_remove env key force ld of
        (ld', Inl e) \<Rightarrow> (ld', Inl e)
      | (ld', Inr b) \<Rightarrow> disk_batched_remove env keys force (num_removed + (if b then 1 else 0)) ld')"

definition insert_key ::
  "('k, 'h, 'i, 'o, 'b) disk_env \<Rightarrow> int \<Rightarrow> 'k \<Rightarrow> int \<Rightarrow> 'i \<Rightarrow> ('k, 'h, 'i, 'o, 'b) disk_backend
    \<Rightarrow> ('k, 'h, 'i, 'o, 'b) disk_backend \<times> unit result" where
  "insert_key env now key sz info ld =
     (if map_of (ld_dict ld) key \<noteq> None
      then (case pol_hit (de_hash env) now key (ld_dict ld) (ld_policy ld) of
              (p, Inl e) \<Rightarrow> (ld\<lparr>ld_policy := p\<rparr>, Inl e)
            | (p, Inr d) \<Rightarrow> (ld\<lparr>ld_policy := p, ld_dict := d\<rparr>, Inr ()))
      else (push_msg env ADMIT key
              (ld\<lparr>ld_dict := AList.update key
                     \<lparr> dm_path = de_path env key, dm_size = sz, dm_info = info, dm_pin_count = 0 \<rparr> (ld_dict ld)\<rparr>),
            Inr ()))"

fun uncount_sizes ::
  "'k list \<Rightarrow> ('k, 'h, 'i, 'o, 'b) disk_backend \<Rightarrow> ('k, 'h, 'i, 'o, 'b) disk_backend \<times> unit result" where
  "uncount_sizes [] ld = (ld, Inr ())"
| "uncount_sizes (key # keys) ld =
     (case map_of (ld_dict ld) key of
        None \<Rightarrow> (ld, Inl KeyError)
      | Some m \<Rightarrow> uncount_sizes keys (ld\<lparr>ld_current := ld_current ld - dm_size m\<rparr>))"

lemma uncount_sizes_Inr:
  "uncount_sizes keys ld = (ld', Inr u) \<Longrightarrow>
   ld' = ld\<lparr>ld_current := ld_current ld - (\<Sum>k\<leftarrow>keys. dm_size (the (map_of (ld_dict ld) k)))\<rparr> \<and>
   set keys \<subseteq> dom (map_of (ld_dict ld))"
proof (induction keys arbitrary: ld)
  case (Cons key keys)
  then obtain m where m: "map_of (ld_dict ld) key = Some m"
    "uncount_sizes keys (ld\<lparr>ld_current := ld_current ld - dm_size m\<rparr>) = (ld', Inr u)"
    by (auto split: option.splits)
  from Cons.IH[OF m(2)] m(1) show ?case by (auto simp: algebra_simps)
qed simp

lemma push_msg_fields [simp]:
  "ld_dict (push_msg env t key ld) = ld_dict ld" "ld_files (push_msg env t key ld) = ld_files ld"
  "ld_policy (push_msg env t key ld) = ld_policy ld" "ld_current (push_msg env t key ld) = ld_current ld"
  "ld_max (push_msg env t key ld) = ld_max ld" "ld_put_tasks (push_msg env t key ld) = ld_put_tasks ld"
  "ld_saves (push_msg env t key ld) = ld_saves ld" "ld_writes (push_msg env t key ld) = ld_writes ld"
  "ld_held (push_msg env t key ld) = ld_held ld" "ld_lock_held (push_msg env t key ld) = ld_lock_held ld"
  "ld_usage (push_msg env t key ld) = ld_usage ld"
  by (simp_all add: push_msg_def)

lemma disk_remove_dict:
  "fst (disk_remove env key force ld) = ld' \<Longrightarrow> ld_dict ld' = AList.delete key (ld_dict ld)"
  by (auto simp: disk_remove_def Let_def delete_id map_of_eq_None_iff split: option.splits if_splits sum.splits)

lemma disk_batched_remove_length:
  "disk_batched_remove env keys force n ld = (ld', r) \<Longrightarrow> length (ld_dict ld') \<le> length (ld_dict ld)"
proof (induction keys arbitrary: ld n)
  case (Cons key keys)
  obtain ld1 x where r: "disk_remove env key force ld = (ld1, x)" by (cases "disk_remove env key force ld")
  then have "length (ld_dict ld1) \<le> length (ld_dict ld)"
    using disk_remove_dict[of env key force ld ld1] by (simp add: length_delete_le)
  with Cons r show ?case by (cases x) (auto intro: order_trans)
qed simp

lemma disk_evict_shrinks:
  assumes "uncount_sizes keys ld = (ld1, Inr u)" and "disk_batched_remove env keys force n ld1 = (ld2, r)" and "keys \<noteq> []"
  shows "length (ld_dict ld2) < length (ld_dict ld)"
proof -
  obtain key ks where keys: "keys = key # ks" using assms(3) by (cases keys) auto
  have d: "ld_dict ld1 = ld_dict ld" and k: "key \<in> set (od_keys (ld_dict ld))"
    using uncount_sizes_Inr[OF assms(1)] keys by (auto simp: domIff map_of_None_keys)
  obtain ld3 x where x: "disk_remove env key force ld1 = (ld3, x)" by (cases "disk_remove env key force ld1")
  have "ld_dict ld3 = AList.delete key (ld_dict ld)" using disk_remove_dict[of env key force ld1 ld3] x d by simp
  moreover have "length (AList.delete key (ld_dict ld)) < length (ld_dict ld)"
    using k by (auto simp: AList.delete_eq intro!: length_filter_less)
  moreover have "length (ld_dict ld2) \<le> length (ld_dict ld3)"
    using assms(2) keys x disk_batched_remove_length by (cases x) (auto split: if_splits)
  ultimately show ?thesis by simp
qed

text \<open>The eviction loop of \<open>submit_put_task\<close>: whether the request fits at the end.\<close>

function disk_evict ::
  "('k, 'h, 'i, 'o, 'b) disk_env \<Rightarrow> int \<Rightarrow> ('k, 'h, 'i, 'o, 'b) disk_backend
    \<Rightarrow> ('k, 'h, 'i, 'o, 'b) disk_backend \<times> bool result" where
  "disk_evict env required_size ld =
     (if ld_current ld + required_size > ld_max ld
      then case pol_candidates (de_items env) dm_can_evict 1 (ld_dict ld) (ld_policy ld) of
             (p, Inl e) \<Rightarrow> (ld\<lparr>ld_policy := p\<rparr>, Inl e)
           | (p, Inr evict_keys) \<Rightarrow>
               if evict_keys = [] then (ld\<lparr>ld_policy := p\<rparr>, Inr False)
               else case uncount_sizes evict_keys (ld\<lparr>ld_policy := p\<rparr>) of
                      (ld1, Inl e) \<Rightarrow> (ld1, Inl e)
                    | (ld1, Inr _) \<Rightarrow>
                        (case disk_batched_remove env evict_keys False 0 ld1 of
                           (ld2, Inl e) \<Rightarrow> (ld2, Inl e)
                         | (ld2, Inr _) \<Rightarrow> disk_evict env required_size ld2)
      else (ld, Inr True))"
  by pat_completeness auto
termination
  by (relation "measure (\<lambda>(env, n, ld). length (ld_dict ld))") (auto dest!: disk_evict_shrinks[OF sym sym])

declare disk_evict.simps [simp del]

definition disk_submit_put ::
  "('k, 'h, 'i, 'o, 'b) disk_env \<Rightarrow> int \<Rightarrow> 'k \<Rightarrow> 'o \<Rightarrow> ('k, 'h, 'i, 'o, 'b) disk_backend
    \<Rightarrow> ('k, 'h, 'i, 'o, 'b) disk_backend \<times> unit result" where
  "disk_submit_put env now key obj ld =
     (if exists_in_put_tasks key ld then (ld, Inr ())
      else case disk_evict env (de_phys env obj) (insert_put_task key ld) of
             (ld1, Inl e) \<Rightarrow> (ld1, Inl e)
           | (ld1, Inr evict_success) \<Rightarrow>
               if \<not> evict_success then (ld1, Inr ())
               else (ld1\<lparr>ld_current := ld_current ld1 + de_phys env obj,
                          ld_policy := pol_put (de_hash env) now key (ld_policy ld1),
                          ld_held := ld_held ld1 @ [obj],
                          ld_saves := ld_saves ld1 @ [(key, obj)]\<rparr>, Inr ()))"

fun disk_batched_submit_put ::
  "('k, 'h, 'i, 'o, 'b) disk_env \<Rightarrow> int \<Rightarrow> ('k \<times> 'o) list \<Rightarrow> ('k, 'h, 'i, 'o, 'b) disk_backend
    \<Rightarrow> ('k, 'h, 'i, 'o, 'b) disk_backend \<times> unit result" where
  "disk_batched_submit_put env now [] ld = (ld, Inr ())"
| "disk_batched_submit_put env now ((key, obj) # kos) ld =
     (case disk_submit_put env now key obj ld of
        (ld', Inl e) \<Rightarrow> (ld', Inl e)
      | (ld', Inr _) \<Rightarrow> disk_batched_submit_put env now kos ld')"

text \<open>The two steps of \<open>async_save_bytes_to_disk\<close> for the save at position \<open>j\<close>: up to the release
  of the object, and from the insertion of the key on. An exception of the insertion leaves the
  task in the list of put tasks.\<close>

definition save_write ::
  "('k, 'h, 'i, 'o, 'b) disk_env \<Rightarrow> nat \<Rightarrow> ('k, 'h, 'i, 'o, 'b) disk_backend \<Rightarrow> ('k, 'h, 'i, 'o, 'b) disk_backend" where
  "save_write env j ld =
     (if j < length (ld_saves ld)
      then let (key, obj) = ld_saves ld ! j
           in ld\<lparr>ld_usage := ld_usage ld + de_len env obj,
                 ld_files := AList.update (de_path env key) (de_bytes env obj) (ld_files ld),
                 ld_held := remove1 obj (ld_held ld),
                 ld_saves := take j (ld_saves ld) @ drop (Suc j) (ld_saves ld),
                 ld_writes := ld_writes ld @ [(key, obj)]\<rparr>
      else ld)"

definition save_insert ::
  "('k, 'h, 'i, 'o, 'b) disk_env \<Rightarrow> int \<Rightarrow> nat \<Rightarrow> ('k, 'h, 'i, 'o, 'b) disk_backend
    \<Rightarrow> ('k, 'h, 'i, 'o, 'b) disk_backend \<times> unit result" where
  "save_insert env now j ld =
     (if j < length (ld_writes ld)
      then let (key, obj) = ld_writes ld ! j;
               ld1 = ld\<lparr>ld_writes := take j (ld_writes ld) @ drop (Suc j) (ld_writes ld)\<rparr>
           in case insert_key env now key (de_phys env obj) (de_info env obj) ld1 of
                (ld2, Inl e) \<Rightarrow> (ld2, Inl e)
              | (ld2, Inr _) \<Rightarrow> (remove_put_task key ld2, Inr ())
      else (ld, Inr ()))"

section \<open>Loading\<close>

text \<open>\<open>read_file\<close>: the content of the file; when it is gone, the key is dropped from the dictionary and
  the buffer is left as it was.\<close>

definition read_file ::
  "'k \<Rightarrow> string \<Rightarrow> ('k, 'h, 'i, 'o, 'b) disk_backend \<Rightarrow> ('k, 'h, 'i, 'o, 'b) disk_backend \<times> 'b option" where
  "read_file key path ld =
     (case map_of (ld_files ld) path of
        Some b \<Rightarrow> (ld, Some b)
      | None \<Rightarrow> (ld\<lparr>ld_dict := AList.delete key (ld_dict ld)\<rparr>, None))"

text \<open>\<open>alloc_ok\<close>: the allocation in the CPU backend gives an object.\<close>

definition load_bytes_from_disk ::
  "bool \<Rightarrow> 'k \<Rightarrow> string \<Rightarrow> ('k, 'h, 'i, 'o, 'b) disk_backend
    \<Rightarrow> ('k, 'h, 'i, 'o, 'b) disk_backend \<times> 'b option result" where
  "load_bytes_from_disk alloc_ok key path ld =
     (if \<not> alloc_ok then (ld, Inl AssertionError)
      else case read_file key path ld of
             (ld', content) \<Rightarrow>
               if map_of (ld_dict ld') key = None then (ld', Inl KeyError) else (ld', Inr content))"

definition get_lookup ::
  "('k, 'h, 'i, 'o, 'b) disk_env \<Rightarrow> int \<Rightarrow> 'k \<Rightarrow> ('k, 'h, 'i, 'o, 'b) disk_backend
    \<Rightarrow> ('k, 'h, 'i, 'o, 'b) disk_backend \<times> string option result" where
  "get_lookup env now key ld =
     (case map_of (ld_dict ld) key of
        None \<Rightarrow> (ld, Inr None)
      | Some m \<Rightarrow>
          (case pol_hit (de_hash env) now key (ld_dict ld) (ld_policy ld) of
             (p, Inl e) \<Rightarrow> (ld\<lparr>ld_policy := p, ld_lock_held := True\<rparr>, Inl e)
           | (p, Inr d) \<Rightarrow> (ld\<lparr>ld_policy := p, ld_dict := d\<rparr>, Inr (Some (dm_path m)))))"

definition disk_get_blocking ::
  "('k, 'h, 'i, 'o, 'b) disk_env \<Rightarrow> int \<Rightarrow> bool \<Rightarrow> 'k \<Rightarrow> ('k, 'h, 'i, 'o, 'b) disk_backend
    \<Rightarrow> ('k, 'h, 'i, 'o, 'b) disk_backend \<times> 'b option result" where
  "disk_get_blocking env now alloc_ok key ld =
     (case get_lookup env now key ld of
        (ld', Inl e) \<Rightarrow> (ld', Inl e)
      | (ld', Inr None) \<Rightarrow> (ld', Inr None)
      | (ld', Inr (Some path)) \<Rightarrow> load_bytes_from_disk alloc_ok key path ld')"

text \<open>The prefetch: pin every key and allocate its object (\<open>allocs\<close> tells which allocations
  succeed), then load on the executor. A failed assertion is raised with the lock held.\<close>

fun prefetch_keys ::
  "('k, 'h, 'i, 'o, 'b) disk_env \<Rightarrow> int \<Rightarrow> 'k list \<Rightarrow> bool list \<Rightarrow> ('k, 'h, 'i, 'o, 'b) disk_backend
    \<Rightarrow> ('k, 'h, 'i, 'o, 'b) disk_backend \<times> string list result" where
  "prefetch_keys env now [] allocs ld = (ld, Inr [])"
| "prefetch_keys env now (key # keys) allocs ld =
     (case map_of (ld_dict ld) key of
        None \<Rightarrow> (ld\<lparr>ld_lock_held := True\<rparr>, Inl AssertionError)
      | Some m \<Rightarrow>
          if allocs = [] \<or> \<not> hd allocs then (ld\<lparr>ld_lock_held := True\<rparr>, Inl AssertionError)
          else let ld1 = upd_disk_meta dm_pin key ld
               in case pol_hit (de_hash env) now key (ld_dict ld1) (ld_policy ld1) of
                    (p, Inl e) \<Rightarrow> (ld1\<lparr>ld_policy := p, ld_lock_held := True\<rparr>, Inl e)
                  | (p, Inr d) \<Rightarrow>
                      (case prefetch_keys env now keys (tl allocs) (ld1\<lparr>ld_policy := p, ld_dict := d\<rparr>) of
                         (ld2, Inl e) \<Rightarrow> (ld2, Inl e)
                       | (ld2, Inr paths) \<Rightarrow> (ld2, Inr (dm_path m # paths))))"

fun batched_async_load ::
  "(string \<times> 'k) list \<Rightarrow> ('k, 'h, 'i, 'o, 'b) disk_backend
    \<Rightarrow> ('k, 'h, 'i, 'o, 'b) disk_backend \<times> 'b option list result" where
  "batched_async_load [] ld = (ld, Inr [])"
| "batched_async_load ((path, key) # pks) ld =
     (case read_file key path ld of
        (ld', content) \<Rightarrow>
          if map_of (ld_dict ld') key = None then (ld', Inl KeyError)
          else (case batched_async_load pks (upd_disk_meta dm_unpin key ld') of
                  (ld2, Inl e) \<Rightarrow> (ld2, Inl e)
                | (ld2, Inr cs) \<Rightarrow> (ld2, Inr (content # cs))))"

definition disk_prefetch ::
  "('k, 'h, 'i, 'o, 'b) disk_env \<Rightarrow> int \<Rightarrow> 'k list \<Rightarrow> bool list \<Rightarrow> ('k, 'h, 'i, 'o, 'b) disk_backend
    \<Rightarrow> ('k, 'h, 'i, 'o, 'b) disk_backend \<times> 'b option list result" where
  "disk_prefetch env now keys allocs ld =
     (case prefetch_keys env now keys allocs ld of
        (ld', Inl e) \<Rightarrow> (ld', Inl e)
      | (ld', Inr paths) \<Rightarrow> batched_async_load (zip paths keys) ld')"

section \<open>What the policies do without their invariant\<close>

text \<open>The disk backend tells the policy of a key before the key is in the dictionary, so the
  contract of \<open>cache_policy\<close> does not apply; these facts hold for any policy state.\<close>

lemma pol_hit_dict:
  assumes "pol_hit h now key d p = (p', Inr d')" and "od_wf d"
  shows "od_wf d' \<and> map_of d' = map_of d"
  using assms od_wf_move_to_end map_of_move_to_end
  by (auto simp: pol_hit_def lru_on_hit_def mru_on_hit_def apfst_def map_prod_def split: policy.splits prod.splits sum.splits)

lemma lfu_scan_bucket_one:
  assumes "lfu_scan_bucket can 1 f keys [] kf = ((ev, kf'), Inr u)"
  shows "length ev \<le> 1 \<and> (\<forall>(k, i) \<in> set ev. can k = Some True)"
  using assms
proof (induction keys arbitrary: kf)
  case (Cons key keys)
  then show ?case by (auto simp: Let_def split: option.splits bool.splits if_splits)
qed simp

lemma lfu_scan_one:
  assumes "lfu_scan can 1 buckets [] kf = ((ev, kf'), Inr u)"
  shows "length ev \<le> 1 \<and> (\<forall>(k, i) \<in> set ev. can k = Some True)"
  using assms
proof (induction buckets arbitrary: kf)
  case (Cons b buckets)
  obtain f keys where b: "b = (f, keys)" by (cases b)
  show ?case
  proof (cases "lfu_scan_bucket can 1 f keys [] kf")
    case (Pair s r)
    obtain ev1 kf1 where s: "s = (ev1, kf1)" by (cases s)
    show ?thesis
    proof (cases r)
      case (Inr v)
      have one: "length ev1 \<le> 1 \<and> (\<forall>(k, i) \<in> set ev1. can k = Some True)"
        using lfu_scan_bucket_one Pair s Inr by fastforce
      show ?thesis
      proof (cases "length ev1 = 1")
        case True
        then show ?thesis using Cons.prems Pair s Inr one by (simp add: b)
      next
        case False
        then have "ev1 = []" using one by (cases ev1) auto
        then show ?thesis using Cons.IH[of kf1] Cons.prems Pair s Inr by (simp add: b)
      qed
    qed (use Cons.prems Pair in \<open>simp add: b\<close>)
  qed
qed simp

lemma pol_candidates_one:
  assumes "pol_candidates items can 1 d p = (p', Inr ks)"
  shows "ks = [] \<or> (\<exists>k v. ks = [k] \<and> (k, v) \<in> set d \<and> can v)"
proof -
  have scan: "scan_candidates can 1 l [] = [] \<or> (\<exists>k v. scan_candidates can 1 l [] = [k] \<and> (k, v) \<in> set l \<and> can v)" for l :: "('a \<times> 'c) list"
  proof -
    have "scan_candidates can 1 l [] = take 1 (map fst (filter (can \<circ> snd) l))"
      using scan_candidates_take[of "[]" 1 can l] by simp
    moreover have "set (filter (can \<circ> snd) l) \<subseteq> {x \<in> set l. can (snd x)}" by auto
    ultimately show ?thesis by (cases "filter (can \<circ> snd) l") auto
  qed
  show ?thesis
  proof (cases p)
    case (LFU s)
    let ?c = "\<lambda>k. map_option can (map_of d k)"
    obtain ev kf' r where r: "lfu_scan ?c 1 (items (freq_to_keys s)) [] (key_to_freq s) = ((ev, kf'), r)"
      by (cases "lfu_scan ?c 1 (items (freq_to_keys s)) [] (key_to_freq s)") auto
    then obtain u where u: "r = Inr u" "ks = map fst ev"
      using assms LFU by (auto simp: pol_candidates_def lfu_candidates_def Let_def split: sum.splits prod.splits simp: res_bind_def)
    have "length ev \<le> 1 \<and> (\<forall>(k, i) \<in> set ev. ?c k = Some True)" using lfu_scan_one r u(1) by fastforce
    then show ?thesis using u(2) by (cases ev) (auto, blast dest: map_of_SomeD)
  qed (use assms scan[of d] scan[of "rev d"] in
      \<open>auto simp: pol_candidates_def lru_candidates_def fifo_candidates_def mru_candidates_def\<close>)
qed

section \<open>The accounting\<close>

definition dict_size :: "('k, 'h, 'i, 'o, 'b) disk_backend \<Rightarrow> int" where
  "dict_size ld = (\<Sum>k \<in> dom (map_of (ld_dict ld)). dm_size (the (map_of (ld_dict ld) k)))"

definition pending_size :: "('k, 'h, 'i, 'o, 'b) disk_env \<Rightarrow> ('k, 'h, 'i, 'o, 'b) disk_backend \<Rightarrow> int" where
  "pending_size env ld = (\<Sum>(k, obj) \<leftarrow> ld_saves ld @ ld_writes ld. de_phys env obj)"

text \<open>The space that is counted although nothing uses it.\<close>

definition leaked :: "('k, 'h, 'i, 'o, 'b) disk_env \<Rightarrow> ('k, 'h, 'i, 'o, 'b) disk_backend \<Rightarrow> int" where
  "leaked env ld = ld_current ld - dict_size ld - pending_size env ld"

definition disk_inv :: "('k, 'h, 'i, 'o, 'b) disk_env \<Rightarrow> ('k, 'h, 'i, 'o, 'b) disk_backend \<Rightarrow> bool" where
  "disk_inv env ld \<longleftrightarrow>
     od_wf (ld_dict ld) \<and> (\<forall>k m. map_of (ld_dict ld) k = Some m \<longrightarrow> 0 \<le> dm_size m) \<and>
     0 \<le> leaked env ld \<and> ld_current ld \<le> ld_max ld"

text \<open>An operation keeps the invariant and never gives leaked space back.\<close>

definition keeps ::
  "('k, 'h, 'i, 'o, 'b) disk_env \<Rightarrow> ('k, 'h, 'i, 'o, 'b) disk_backend \<Rightarrow> ('k, 'h, 'i, 'o, 'b) disk_backend \<Rightarrow> bool" where
  "keeps env ld ld' \<longleftrightarrow>
     (disk_inv env ld \<longrightarrow> disk_inv env ld' \<and> leaked env ld \<le> leaked env ld' \<and> ld_max ld' = ld_max ld)"

lemma keeps_refl [simp]: "keeps env ld ld"
  by (simp add: keeps_def)

lemma keeps_trans: "keeps env ld ld1 \<Longrightarrow> keeps env ld1 ld2 \<Longrightarrow> keeps env ld ld2"
  by (auto simp: keeps_def)

text \<open>What an operation leaves alone when it touches neither the sizes nor the accounting.\<close>

definition same_sizes :: "('k, 'h, 'i, 'o, 'b) disk_backend \<Rightarrow> ('k, 'h, 'i, 'o, 'b) disk_backend \<Rightarrow> bool" where
  "same_sizes ld ld' \<longleftrightarrow>
     (od_wf (ld_dict ld) \<longrightarrow> od_wf (ld_dict ld') \<and>
        (\<forall>k. map_option dm_size (map_of (ld_dict ld') k) = map_option dm_size (map_of (ld_dict ld) k))) \<and>
     ld_current ld' = ld_current ld \<and> ld_max ld' = ld_max ld \<and> ld_saves ld' = ld_saves ld \<and> ld_writes ld' = ld_writes ld"

lemma dict_size_cong:
  assumes "\<forall>k. map_option dm_size (map_of (ld_dict ld') k) = map_option dm_size (map_of (ld_dict ld) k)"
  shows "dict_size ld' = dict_size ld"
proof -
  have d: "dom (map_of (ld_dict ld')) = dom (map_of (ld_dict ld))"
  proof (rule set_eqI)
    fix k show "k \<in> dom (map_of (ld_dict ld')) \<longleftrightarrow> k \<in> dom (map_of (ld_dict ld))"
      using assms[rule_format, of k] by (cases "map_of (ld_dict ld') k"; cases "map_of (ld_dict ld) k") auto
  qed
  have "dm_size (the (map_of (ld_dict ld') k)) = dm_size (the (map_of (ld_dict ld) k))" if "k \<in> dom (map_of (ld_dict ld))" for k
    using assms[rule_format, of k] that by (cases "map_of (ld_dict ld') k"; cases "map_of (ld_dict ld) k") auto
  then show ?thesis by (simp add: dict_size_def d)
qed

lemma same_sizes_keeps:
  assumes "same_sizes ld ld'"
  shows "keeps env ld ld'"
proof -
  have "\<forall>k m. map_of (ld_dict ld') k = Some m \<longrightarrow> 0 \<le> dm_size m"
    if "\<forall>k. map_option dm_size (map_of (ld_dict ld') k) = map_option dm_size (map_of (ld_dict ld) k)"
      "\<forall>k m. map_of (ld_dict ld) k = Some m \<longrightarrow> 0 \<le> dm_size m"
  proof (intro allI impI)
    fix k m assume "map_of (ld_dict ld') k = Some m"
    with that(1)[rule_format, of k] that(2) show "0 \<le> dm_size m" by (cases "map_of (ld_dict ld) k") auto
  qed
  moreover have "od_wf (ld_dict ld) \<Longrightarrow> leaked env ld' = leaked env ld"
    using assms dict_size_cong[of ld' ld] by (simp add: leaked_def same_sizes_def pending_size_def)
  ultimately show ?thesis
    using assms by (auto simp: keeps_def disk_inv_def same_sizes_def)
qed

lemma dict_size_update_new:
  assumes "map_of (ld_dict ld) k = None"
  shows "dict_size (ld\<lparr>ld_dict := AList.update k m (ld_dict ld)\<rparr>) = dict_size ld + dm_size m"
proof -
  have "k \<notin> dom (map_of (ld_dict ld))" using assms by auto
  moreover have "(\<Sum>j \<in> dom (map_of (ld_dict ld)). dm_size (the (((map_of (ld_dict ld))(k \<mapsto> m)) j)))
      = (\<Sum>j \<in> dom (map_of (ld_dict ld)). dm_size (the (map_of (ld_dict ld) j)))"
    using calculation by (intro sum.cong) auto
  ultimately show ?thesis by (simp add: dict_size_def finite_dom_map_of)
qed

lemma dict_size_delete:
  assumes "map_of (ld_dict ld) k = Some m"
  shows "dict_size (ld\<lparr>ld_dict := AList.delete k (ld_dict ld)\<rparr>) = dict_size ld - dm_size m"
proof -
  have k: "k \<in> dom (map_of (ld_dict ld))" using assms by auto
  have "(\<Sum>j \<in> dom (map_of (ld_dict ld)) - {k}. dm_size (the (((map_of (ld_dict ld))(k := None)) j)))
      = (\<Sum>j \<in> dom (map_of (ld_dict ld)) - {k}. dm_size (the (map_of (ld_dict ld) j)))"
    by (intro sum.cong) auto
  then show ?thesis
    using k assms by (simp add: dict_size_def finite_dom_map_of sum_diff1)
qed

lemma dict_size_dict: "ld_dict ld = ld_dict ld' \<Longrightarrow> dict_size ld = dict_size ld'"
  by (simp add: dict_size_def)

lemma upd_meta_same_sizes:
  assumes "\<And>m. dm_size (f m) = dm_size m"
  shows "same_sizes ld (upd_disk_meta f k ld)"
  using assms by (auto simp: same_sizes_def upd_disk_meta_def split: option.split)

lemma pin_sizes [simp]: "dm_size (dm_pin m) = dm_size m" "dm_size (dm_unpin m) = dm_size m"
  by (simp_all add: dm_pin_def dm_unpin_def)

lemma pol_hit_same_sizes:
  assumes "pol_hit h now key (ld_dict ld) (ld_policy ld) = (p, Inr d)"
  shows "same_sizes ld (ld\<lparr>ld_policy := p, ld_dict := d\<rparr>)"
  using pol_hit_dict[OF assms] by (auto simp: same_sizes_def)

lemma same_sizes_trans: "same_sizes ld ld1 \<Longrightarrow> same_sizes ld1 ld2 \<Longrightarrow> same_sizes ld ld2"
  by (auto simp: same_sizes_def)

lemma same_sizes_fields:
  assumes "ld_dict ld' = ld_dict ld" and "ld_current ld' = ld_current ld" and "ld_max ld' = ld_max ld"
    and "ld_saves ld' = ld_saves ld" and "ld_writes ld' = ld_writes ld"
  shows "same_sizes ld ld'"
  using assms by (simp add: same_sizes_def)

lemma disk_remove_fields:
  assumes "disk_remove env key force ld = (ld', r)"
  shows "ld_dict ld' = AList.delete key (ld_dict ld)" and "ld_current ld' = ld_current ld" and "ld_max ld' = ld_max ld"
    and "ld_saves ld' = ld_saves ld" and "ld_writes ld' = ld_writes ld" and "ld_put_tasks ld' = ld_put_tasks ld"
  using assms disk_remove_dict[of env key force ld ld']
  by (auto simp: disk_remove_def Let_def split: option.splits if_splits sum.splits)

text \<open>Dropping a key without uncounting its size leaks the size.\<close>

lemma drop_key:
  assumes "ld_dict ld' = AList.delete key (ld_dict ld)" and "ld_current ld' = ld_current ld - c" and "ld_max ld' = ld_max ld"
    and "ld_saves ld' = ld_saves ld" and "ld_writes ld' = ld_writes ld"
    and "disk_inv env ld" and "map_of (ld_dict ld) key = Some m" and "c = 0 \<or> c = dm_size m"
  shows "disk_inv env ld' \<and> leaked env ld' = leaked env ld + (dm_size m - c)"
proof -
  have m: "0 \<le> dm_size m" using assms(6,7) by (auto simp: disk_inv_def)
  have "dict_size ld' = dict_size (ld\<lparr>ld_dict := AList.delete key (ld_dict ld)\<rparr>)"
    using assms(1) by (intro dict_size_dict) simp
  then have l: "leaked env ld' = leaked env ld + (dm_size m - c)"
    using assms dict_size_delete[OF assms(7)] by (simp add: leaked_def pending_size_def)
  moreover have "od_wf (ld_dict ld')" using assms(1,6) by (simp add: disk_inv_def)
  moreover have "\<forall>k m. map_of (ld_dict ld') k = Some m \<longrightarrow> 0 \<le> dm_size m"
    using assms(1,6) by (auto simp: disk_inv_def split: if_splits)
  ultimately show ?thesis using assms(2,3,6,8) m by (auto simp: disk_inv_def)
qed

lemma disk_remove_keeps: "keeps env ld (fst (disk_remove env key force ld))"
proof -
  obtain ld' r where r: "disk_remove env key force ld = (ld', r)" by (cases "disk_remove env key force ld")
  note f = disk_remove_fields[OF r]
  show ?thesis
  proof (cases "map_of (ld_dict ld) key")
    case None
    then show ?thesis by (simp add: disk_remove_def)
  next
    case (Some m)
    then show ?thesis
      using drop_key[OF f(1) _ f(3-5) _ Some, of 0 env] f(2,3) r
      unfolding keeps_def by (auto simp: disk_inv_def[of env ld])
  qed
qed

lemma disk_batched_remove_keeps: "keeps env ld (fst (disk_batched_remove env keys force n ld))"
proof (induction keys arbitrary: ld n)
  case (Cons key keys)
  obtain ld1 x where r: "disk_remove env key force ld = (ld1, x)" by (cases "disk_remove env key force ld")
  then have "keeps env ld ld1" using disk_remove_keeps[of env ld key force] by simp
  with Cons[of ld1] r show ?case by (cases x) (auto intro: keeps_trans)
qed simp

lemma evict_one_keeps:
  assumes "uncount_sizes [key] ld = (ld1, Inr u)" and "disk_batched_remove env [key] False 0 ld1 = (ld2, r)"
  shows "keeps env ld ld2" and "ld_saves ld2 = ld_saves ld" and "ld_writes ld2 = ld_writes ld"
    and "ld_put_tasks ld2 = ld_put_tasks ld"
proof -
  obtain m where m: "map_of (ld_dict ld) key = Some m" "ld1 = ld\<lparr>ld_current := ld_current ld - dm_size m\<rparr>"
    using assms(1) by (auto split: option.splits)
  obtain ld3 x where x: "disk_remove env key False ld1 = (ld3, x)" by (cases "disk_remove env key False ld1")
  then have "ld3 = ld2" using assms(2) by (cases x) auto
  note f = disk_remove_fields[OF x[unfolded this]]
  show "ld_saves ld2 = ld_saves ld" "ld_writes ld2 = ld_writes ld" "ld_put_tasks ld2 = ld_put_tasks ld"
    using f m(2) by simp_all
  show "keeps env ld ld2"
    using drop_key[of ld2 key ld "dm_size m" env m] f m by (auto simp: keeps_def)
qed

lemma disk_evict_keeps:
  "disk_evict env req ld = (ld', r) \<Longrightarrow>
   keeps env ld ld' \<and> ld_saves ld' = ld_saves ld \<and> ld_writes ld' = ld_writes ld \<and> ld_put_tasks ld' = ld_put_tasks ld \<and>
   (r = Inr True \<longrightarrow> ld_current ld' + req \<le> ld_max ld')"
proof (induction env req ld arbitrary: ld' r rule: disk_evict.induct)
  case (1 env req ld)
  show ?case
  proof (cases "ld_current ld + req > ld_max ld")
    case False
    then show ?thesis using 1(2) by (subst (asm) disk_evict.simps) simp
  next
    case True
    obtain p x where c: "pol_candidates (de_items env) dm_can_evict 1 (ld_dict ld) (ld_policy ld) = (p, x)"
      by (cases "pol_candidates (de_items env) dm_can_evict 1 (ld_dict ld) (ld_policy ld)")
    have pk: "keeps env ld (ld\<lparr>ld_policy := p\<rparr>)" by (intro same_sizes_keeps same_sizes_fields) auto
    show ?thesis
    proof (cases x)
      case (Inl e)
      then show ?thesis using 1(2) True c pk by (subst (asm) disk_evict.simps) auto
    next
      case (Inr ks)
      show ?thesis
      proof (cases "ks = []")
        case True
        then show ?thesis using 1(2) \<open>ld_current ld + req > ld_max ld\<close> c pk Inr by (subst (asm) disk_evict.simps) auto
      next
        case False
        then obtain key v where key: "ks = [key]" "(key, v) \<in> set (ld_dict ld)"
          using pol_candidates_one[OF c[unfolded Inr]] by auto
        obtain ld1 u where u: "uncount_sizes ks (ld\<lparr>ld_policy := p\<rparr>) = (ld1, u)"
          by (cases "uncount_sizes ks (ld\<lparr>ld_policy := p\<rparr>)")
        have "key \<in> fst ` set (ld_dict ld)" using key(2) by force
        then have "map_of (ld_dict ld) key \<noteq> None" by (simp add: map_of_eq_None_iff)
        then obtain v where v: "u = Inr v" using u key(1) by (auto split: option.splits)
        obtain ld2 n where n: "disk_batched_remove env ks False 0 ld1 = (ld2, n)"
          by (cases "disk_batched_remove env ks False 0 ld1")
        note e = evict_one_keeps[OF u[unfolded key(1) v] n[unfolded key(1)]]
        have k2: "keeps env ld ld2" using pk e(1) by (rule keeps_trans)
        show ?thesis
        proof (cases n)
          case (Inl e')
          then show ?thesis using 1(2) True c Inr False u v n e k2 by (subst (asm) disk_evict.simps) auto
        next
          case (Inr n')
          have "disk_evict env req ld2 = (ld', r)"
            using 1(2) True c \<open>x = Inr ks\<close> False u v n Inr by (subst (asm) disk_evict.simps) auto
          from 1(1)[OF True c[symmetric] \<open>x = Inr ks\<close> False u[symmetric] v n[symmetric] Inr this] e k2
          show ?thesis by (auto intro: keeps_trans)
        qed
      qed
    qed
  qed
qed

lemma disk_submit_put_keeps:
  assumes "\<forall>ob. 0 \<le> de_phys env ob"
  shows "keeps env ld (fst (disk_submit_put env now key obj ld))"
proof (cases "exists_in_put_tasks key ld")
  case True
  then show ?thesis by (simp add: disk_submit_put_def)
next
  case False
  obtain ld1 r where r: "disk_evict env (de_phys env obj) (insert_put_task key ld) = (ld1, r)"
    by (cases "disk_evict env (de_phys env obj) (insert_put_task key ld)")
  note e = disk_evict_keeps[OF r]
  have "keeps env ld (insert_put_task key ld)"
    by (intro same_sizes_keeps same_sizes_fields) (auto simp: insert_put_task_def)
  then have k1: "keeps env ld ld1" using e by (blast intro: keeps_trans)
  show ?thesis
  proof (cases "r = Inr True")
    case True
    let ?ld2 = "ld1\<lparr>ld_current := ld_current ld1 + de_phys env obj, ld_policy := pol_put (de_hash env) now key (ld_policy ld1),
       ld_held := ld_held ld1 @ [obj], ld_saves := ld_saves ld1 @ [(key, obj)]\<rparr>"
    have "leaked env ?ld2 = leaked env ld1"
      by (simp add: leaked_def pending_size_def dict_size_def)
    then have "keeps env ld1 ?ld2" using e True by (auto simp: keeps_def disk_inv_def)
    then show ?thesis using k1 r True False by (auto simp: disk_submit_put_def intro: keeps_trans)
  next
    case F: False
    then have "fst (disk_submit_put env now key obj ld) = ld1"
      using r False by (cases r) (auto simp: disk_submit_put_def)
    then show ?thesis using k1 by simp
  qed
qed

lemma sum_list_remove_nth:
  "j < length xs \<Longrightarrow> sum_list (map f (take j xs @ drop (Suc j) xs)) = sum_list (map f xs) - (f (xs ! j) :: int)"
proof -
  assume j: "j < length xs"
  have "sum_list (map f xs) = sum_list (map f (take j xs @ xs ! j # drop (Suc j) xs))" using id_take_nth_drop[OF j] by simp
  then show ?thesis by simp
qed

lemma save_write_keeps: "keeps env ld (save_write env j ld)"
proof (cases "j < length (ld_saves ld)")
  case True
  obtain key obj where ko: "ld_saves ld ! j = (key, obj)" by (cases "ld_saves ld ! j")
  have "leaked env (save_write env j ld) = leaked env ld"
    using sum_list_remove_nth[OF True, of "\<lambda>(k, ob). de_phys env ob"] True ko
    by (simp add: save_write_def leaked_def pending_size_def dict_size_def)
  then show ?thesis using True ko by (auto simp: keeps_def disk_inv_def save_write_def)
qed (simp add: save_write_def)

lemma remove_put_task_fields [simp]:
  "ld_dict (remove_put_task k ld) = ld_dict ld" "ld_current (remove_put_task k ld) = ld_current ld"
  "ld_max (remove_put_task k ld) = ld_max ld" "ld_saves (remove_put_task k ld) = ld_saves ld"
  "ld_writes (remove_put_task k ld) = ld_writes ld" "ld_files (remove_put_task k ld) = ld_files ld"
  "ld_put_tasks (remove_put_task k ld) = remove1 k (ld_put_tasks ld)"
  by (simp_all add: remove_put_task_def remove1_idem)

lemma save_insert_keeps:
  assumes "\<forall>ob. 0 \<le> de_phys env ob"
  shows "keeps env ld (fst (save_insert env now j ld))"
proof (cases "j < length (ld_writes ld)")
  case True
  obtain key obj where ko: "ld_writes ld ! j = (key, obj)" by (cases "ld_writes ld ! j")
  let ?ld1 = "ld\<lparr>ld_writes := take j (ld_writes ld) @ drop (Suc j) (ld_writes ld)\<rparr>"
  have p: "pending_size env ?ld1 = pending_size env ld - de_phys env obj"
    using sum_list_remove_nth[OF True, of "\<lambda>(k, ob). de_phys env ob"] ko by (simp add: pending_size_def)
  then have l1: "leaked env ?ld1 = leaked env ld + de_phys env obj" by (simp add: leaked_def dict_size_def)
  have k1: "keeps env ld ?ld1" using l1 assms by (simp add: keeps_def disk_inv_def)
  obtain ld2 r where r: "insert_key env now key (de_phys env obj) (de_info env obj) ?ld1 = (ld2, r)"
    by (cases "insert_key env now key (de_phys env obj) (de_info env obj) ?ld1")
  have k2: "keeps env ld ld2"
  proof (cases "map_of (ld_dict ld) key")
    case None
    let ?m = "\<lparr> dm_path = de_path env key, dm_size = de_phys env obj, dm_info = de_info env obj, dm_pin_count = 0 \<rparr>"
    have ld2: "ld2 = push_msg env ADMIT key (?ld1\<lparr>ld_dict := AList.update key ?m (ld_dict ld)\<rparr>)"
      using r None by (simp add: insert_key_def)
    have "dict_size ld2 = dict_size (ld\<lparr>ld_dict := AList.update key ?m (ld_dict ld)\<rparr>)"
      unfolding ld2 by (intro dict_size_dict) simp
    then have "dict_size ld2 = dict_size ld + de_phys env obj" using dict_size_update_new[OF None, of ?m] by simp
    moreover have "pending_size env ld2 = pending_size env ?ld1" by (simp add: ld2 pending_size_def)
    ultimately have "leaked env ld2 = leaked env ld" using p by (simp add: leaked_def ld2)
    then show ?thesis using assms by (auto simp: keeps_def disk_inv_def ld2)
  next
    case (Some m)
    obtain p d where pd: "pol_hit (de_hash env) now key (ld_dict ld) (ld_policy ld) = (p, d)"
      by (cases "pol_hit (de_hash env) now key (ld_dict ld) (ld_policy ld)")
    have "keeps env ?ld1 ld2"
    proof (cases d)
      case (Inl e)
      then have "ld2 = ?ld1\<lparr>ld_policy := p\<rparr>" using r Some pd by (simp add: insert_key_def)
      then show ?thesis by (intro same_sizes_keeps same_sizes_fields) auto
    next
      case (Inr d')
      then have "ld2 = ?ld1\<lparr>ld_policy := p, ld_dict := d'\<rparr>" using r Some pd by (simp add: insert_key_def)
      then show ?thesis using pol_hit_same_sizes[of "de_hash env" now key ?ld1 p d'] pd Inr
        by (auto intro: same_sizes_keeps)
    qed
    with k1 show ?thesis by (rule keeps_trans)
  qed
  have "keeps env ld2 (remove_put_task key ld2)"
    by (intro same_sizes_keeps same_sizes_fields) simp_all
  with k2 have "keeps env ld (remove_put_task key ld2)" by (rule keeps_trans)
  with k2 show ?thesis using True ko r by (cases r) (auto simp: save_insert_def Let_def)
qed (simp add: save_insert_def)

lemma disk_contains_keeps: "keeps env ld (fst (disk_contains key pin ld))"
proof -
  have "same_sizes ld (upd_disk_meta dm_pin key ld)" by (rule upd_meta_same_sizes) simp
  then have "same_sizes ld ((upd_disk_meta dm_pin key ld)\<lparr>ld_keys_in_request := ks\<rparr>)" for ks
    by (rule same_sizes_trans) (rule same_sizes_fields, auto)
  then show ?thesis by (auto simp: disk_contains_def intro: same_sizes_keeps)
qed

lemma disk_async_contains_keeps: "keeps env ld (fst (disk_async_contains keys pin n ld))"
proof (induction keys arbitrary: ld n)
  case (Cons key keys)
  show ?case
  proof (cases "map_of (ld_dict ld) key = None")
    case False
    then have "disk_async_contains (key # keys) pin n ld = disk_async_contains keys pin (n + 1) (fst (disk_contains key pin ld))"
      by (auto simp: disk_contains_def)
    then show ?thesis using disk_contains_keeps[of env ld key pin] Cons by (auto intro: keeps_trans)
  qed simp
qed simp

lemma disk_touch_keys_keeps: "keeps env ld (fst (disk_touch_keys env now keys ld))"
proof (induction keys arbitrary: ld)
  case (Cons key keys)
  obtain p d where pd: "pol_hit (de_hash env) now key (ld_dict ld) (ld_policy ld) = (p, d)"
    by (cases "pol_hit (de_hash env) now key (ld_dict ld) (ld_policy ld)")
  show ?case
  proof (cases d)
    case (Inl e)
    have "keeps env ld (ld\<lparr>ld_policy := p\<rparr>)" by (intro same_sizes_keeps same_sizes_fields) auto
    with Inl pd show ?thesis by simp
  next
    case (Inr d')
    have "keeps env ld (ld\<lparr>ld_policy := p, ld_dict := d'\<rparr>)"
      using pol_hit_same_sizes[OF pd[unfolded Inr]] by (rule same_sizes_keeps)
    with Cons pd Inr show ?thesis by (auto intro: keeps_trans)
  qed
qed simp

lemma disk_touch_cache_keeps: "keeps env ld (fst (disk_touch_cache env now ld))"
proof -
  obtain ld1 r where r: "disk_touch_keys env now (rev (ld_keys_in_request ld)) ld = (ld1, r)"
    by (cases "disk_touch_keys env now (rev (ld_keys_in_request ld)) ld")
  then have k: "keeps env ld ld1" using disk_touch_keys_keeps[of env ld now "rev (ld_keys_in_request ld)"] by simp
  have "keeps env ld1 (ld1\<lparr>ld_keys_in_request := []\<rparr>)" by (intro same_sizes_keeps same_sizes_fields) auto
  with k r show ?thesis by (cases r) (auto simp: disk_touch_cache_def intro: keeps_trans)
qed

lemma disk_pin_keeps: "keeps env ld (fst (disk_pin key ld))" "keeps env ld (fst (disk_unpin key ld))"
  by (auto simp: disk_pin_def disk_unpin_def intro!: same_sizes_keeps upd_meta_same_sizes)

lemma get_lookup_keeps: "keeps env ld (fst (get_lookup env now key ld))"
proof (cases "map_of (ld_dict ld) key")
  case (Some m)
  obtain p d where pd: "pol_hit (de_hash env) now key (ld_dict ld) (ld_policy ld) = (p, d)"
    by (cases "pol_hit (de_hash env) now key (ld_dict ld) (ld_policy ld)")
  show ?thesis
  proof (cases d)
    case (Inl e)
    have "keeps env ld (ld\<lparr>ld_policy := p, ld_lock_held := True\<rparr>)" by (intro same_sizes_keeps same_sizes_fields) auto
    with Inl pd Some show ?thesis by (simp add: get_lookup_def)
  next
    case (Inr d')
    then show ?thesis using pol_hit_same_sizes pd Some by (auto simp: get_lookup_def intro!: same_sizes_keeps)
  qed
qed (simp add: get_lookup_def)

lemma read_file_keeps: "keeps env ld (fst (read_file key path ld))"
proof (cases "map_of (ld_files ld) path")
  case None
  show ?thesis
  proof (cases "map_of (ld_dict ld) key")
    case None
    then have "AList.delete key (ld_dict ld) = ld_dict ld" by (simp add: delete_id map_of_eq_None_iff)
    then show ?thesis using \<open>map_of (ld_files ld) path = None\<close> by (simp add: read_file_def)
  next
    case (Some m)
    let ?ld = "ld\<lparr>ld_dict := AList.delete key (ld_dict ld)\<rparr>"
    show ?thesis
      using drop_key[of ?ld key ld 0 env m] Some None unfolding keeps_def
      by (auto simp: read_file_def disk_inv_def[of env ld])
  qed
qed (simp add: read_file_def)

lemma load_keeps: "keeps env ld (fst (load_bytes_from_disk alloc_ok key path ld))"
  using read_file_keeps[of env ld key path]
  by (auto simp: load_bytes_from_disk_def split: prod.split)

lemma batched_async_load_keeps: "keeps env ld (fst (batched_async_load pks ld))"
proof (induction pks arbitrary: ld)
  case (Cons pk pks)
  obtain path key where pk: "pk = (path, key)" by (cases pk)
  obtain ld1 c where c: "read_file key path ld = (ld1, c)" by (cases "read_file key path ld")
  then have k1: "keeps env ld ld1" using read_file_keeps[of env ld key path] by simp
  have "keeps env ld1 (upd_disk_meta dm_unpin key ld1)" by (intro same_sizes_keeps upd_meta_same_sizes) simp
  with k1 have k2: "keeps env ld (upd_disk_meta dm_unpin key ld1)" by (rule keeps_trans)
  show ?case
  proof (cases "batched_async_load pks (upd_disk_meta dm_unpin key ld1)")
    case (Pair ld2 r)
    then have "keeps env (upd_disk_meta dm_unpin key ld1) ld2" using Cons[of "upd_disk_meta dm_unpin key ld1"] by simp
    with k2 have "keeps env ld ld2" by (rule keeps_trans)
    with k1 show ?thesis using pk c Pair by (cases r) auto
  qed
qed simp

lemma prefetch_keys_keeps: "keeps env ld (fst (prefetch_keys env now keys allocs ld))"
proof (induction keys arbitrary: ld allocs)
  case (Cons key keys)
  have lock: "keeps env ld (ld\<lparr>ld_lock_held := True\<rparr>)" for ld :: "('a, 'b, 'c, 'd, 'e) disk_backend"
    by (intro same_sizes_keeps same_sizes_fields) auto
  show ?case
  proof (cases "map_of (ld_dict ld) key = None \<or> allocs = [] \<or> \<not> hd allocs")
    case True
    then show ?thesis using lock by (cases "map_of (ld_dict ld) key") auto
  next
    case False
    let ?ld1 = "upd_disk_meta dm_pin key ld"
    have k1: "keeps env ld ?ld1" by (intro same_sizes_keeps upd_meta_same_sizes) simp
    obtain p d where pd: "pol_hit (de_hash env) now key (ld_dict ?ld1) (ld_policy ?ld1) = (p, d)"
      by (cases "pol_hit (de_hash env) now key (ld_dict ?ld1) (ld_policy ?ld1)")
    show ?thesis
    proof (cases d)
      case (Inl e)
      have "keeps env ?ld1 (?ld1\<lparr>ld_policy := p, ld_lock_held := True\<rparr>)" by (intro same_sizes_keeps same_sizes_fields) auto
      then show ?thesis using k1 False pd Inl by (auto simp: Let_def intro: keeps_trans)
    next
      case (Inr d')
      let ?ld2 = "?ld1\<lparr>ld_policy := p, ld_dict := d'\<rparr>"
      have "keeps env ?ld1 ?ld2" using pol_hit_same_sizes[OF pd[unfolded Inr]] by (rule same_sizes_keeps)
      with k1 have k2: "keeps env ld ?ld2" by (rule keeps_trans)
      obtain ld3 r where r: "prefetch_keys env now keys (tl allocs) ?ld2 = (ld3, r)"
        by (cases "prefetch_keys env now keys (tl allocs) ?ld2")
      then have "keeps env ?ld2 ld3" using Cons[of ?ld2 "tl allocs"] by simp
      with k2 have "keeps env ld ld3" by (rule keeps_trans)
      then show ?thesis using False pd Inr r by (cases r) (auto simp: Let_def)
    qed
  qed
qed simp

section \<open>Runs of the backend\<close>

text \<open>Any call of any thread, with any arguments, and any step of a save; \<open>put\<close> stands apart.\<close>

inductive quiet_step ::
  "('k, 'h, 'i, 'o, 'b) disk_env \<Rightarrow> ('k, 'h, 'i, 'o, 'b) disk_backend \<Rightarrow> ('k, 'h, 'i, 'o, 'b) disk_backend \<Rightarrow> bool"
  for env where
  contains_step: "quiet_step env ld (fst (disk_contains key pin ld))"
| async_contains: "quiet_step env ld (fst (disk_async_contains keys pin n ld))"
| touch: "quiet_step env ld (fst (disk_touch_cache env now ld))"
| pin: "quiet_step env ld (fst (disk_pin key ld))"
| unpin: "quiet_step env ld (fst (disk_unpin key ld))"
| remove: "quiet_step env ld (fst (disk_remove env key True ld))"
| batched_remove: "quiet_step env ld (fst (disk_batched_remove env keys True n ld))"
| lookup: "quiet_step env ld (fst (get_lookup env now key ld))"
| load_step: "quiet_step env ld (fst (load_bytes_from_disk alloc_ok key path ld))"
| prefetch: "quiet_step env ld (fst (prefetch_keys env now keys allocs ld))"
| async_load: "quiet_step env ld (fst (batched_async_load pks ld))"

inductive disk_step ::
  "('k, 'h, 'i, 'o, 'b) disk_env \<Rightarrow> ('k, 'h, 'i, 'o, 'b) disk_backend \<Rightarrow> ('k, 'h, 'i, 'o, 'b) disk_backend \<Rightarrow> bool"
  for env where
  quiet: "quiet_step env ld ld' \<Longrightarrow> disk_step env ld ld'"
| put: "disk_step env ld (fst (disk_submit_put env now key obj ld))"
| write_step: "disk_step env ld (save_write env j ld)"
| insert_step: "disk_step env ld (fst (save_insert env now j ld))"

lemma quiet_step_keeps:
  assumes "quiet_step env ld ld'"
  shows "keeps env ld ld'"
  using assms
  by (cases rule: quiet_step.cases)
    (simp_all add: disk_contains_keeps disk_async_contains_keeps disk_touch_cache_keeps disk_pin_keeps disk_remove_keeps
      disk_batched_remove_keeps get_lookup_keeps load_keeps prefetch_keys_keeps batched_async_load_keeps)

lemma disk_step_keeps:
  assumes "\<forall>ob. 0 \<le> de_phys env ob" and "disk_step env ld ld'"
  shows "keeps env ld ld'"
  using assms(2)
  by (cases rule: disk_step.cases)
    (simp_all add: quiet_step_keeps disk_submit_put_keeps[OF assms(1)] save_write_keeps save_insert_keeps[OF assms(1)])

lemma disk_steps_keep:
  assumes "\<forall>ob. 0 \<le> de_phys env ob" and "(disk_step env)\<^sup>*\<^sup>* ld ld'"
  shows "keeps env ld ld'"
  using assms(2) by (induction rule: rtranclp_induct) (auto intro: keeps_trans disk_step_keeps[OF assms(1)])

lemma disk_init_inv: "0 \<le> mx \<Longrightarrow> disk_inv env (disk_init pol mx files sender)"
  by (simp add: disk_inv_def disk_init_def leaked_def dict_size_def pending_size_def)

text \<open>
  C19: the disk cache stays within its size. After any sequence of calls and save steps, in any
  order, what is stored and what is being saved together are at most the counted size, which never
  exceeds the configured maximum.
\<close>

theorem disk_space_bounded:
  assumes "\<forall>ob. 0 \<le> de_phys env ob" and "0 \<le> mx" and "(disk_step env)\<^sup>*\<^sup>* (disk_init pol mx files sender) ld"
  shows "dict_size ld + pending_size env ld \<le> ld_current ld \<and> ld_current ld \<le> mx"
  using disk_steps_keep[OF assms(1,3)] disk_init_inv[OF assms(2)]
  by (auto simp: keeps_def disk_inv_def leaked_def disk_init_def)

lemma disk_inv_parts_nonneg:
  assumes "\<forall>ob. 0 \<le> de_phys env ob" and "disk_inv env ld"
  shows "0 \<le> dict_size ld" and "0 \<le> pending_size env ld"
proof -
  show "0 \<le> dict_size ld" using assms(2) by (auto simp: disk_inv_def dict_size_def intro!: sum_nonneg)
  show "0 \<le> pending_size env ld"
    unfolding pending_size_def by (rule sum_list_nonneg) (use assms(1) in auto)
qed

text \<open>
  a forced removal loses its space for good. After \<open>remove\<close> with \<open>force\<close> the counted size still
  includes the removed chunk, no later call takes it off, and a request that would fit only in the
  lost space is refused forever, whatever is evicted for it.
\<close>

theorem forced_removal_leaks_space:
  assumes "\<forall>ob. 0 \<le> de_phys env ob" and "0 \<le> mx" and "(disk_step env)\<^sup>*\<^sup>* (disk_init pol mx files sender) ld"
    and "map_of (ld_dict ld) key = Some m" and "(disk_step env)\<^sup>*\<^sup>* (fst (disk_remove env key True ld)) ld'"
  shows "dm_size m \<le> ld_current ld' - dict_size ld' - pending_size env ld' \<and>
    (mx < de_phys env obj + dm_size m \<longrightarrow>
       ld_saves (fst (disk_submit_put env now k obj ld')) = ld_saves ld')"
proof -
  have inv: "disk_inv env ld" "ld_max ld = mx"
    using disk_steps_keep[OF assms(1,3)] disk_init_inv[OF assms(2)] by (auto simp: keeps_def disk_init_def)
  obtain ld1 r where r: "disk_remove env key True ld = (ld1, r)" by (cases "disk_remove env key True ld")
  note f = disk_remove_fields[OF r]
  have l1: "disk_inv env ld1 \<and> leaked env ld1 = leaked env ld + dm_size m"
    using drop_key[of ld1 key ld 0 env m] f inv(1) assms(4) by simp
  then have "disk_inv env ld' \<and> leaked env ld1 \<le> leaked env ld' \<and> ld_max ld' = mx"
    using disk_steps_keep[OF assms(1,5)] r f(3) inv(2) by (auto simp: keeps_def)
  then have l2: "disk_inv env ld'" "dm_size m \<le> leaked env ld'" "ld_max ld' = mx"
    using l1 inv(1) by (auto simp: disk_inv_def)
  have "ld_saves (fst (disk_submit_put env now k obj ld')) = ld_saves ld'" if big: "mx < de_phys env obj + dm_size m"
  proof (cases "exists_in_put_tasks k ld'")
    case True
    then show ?thesis by (simp add: disk_submit_put_def)
  next
    case False
    obtain ld2 x where x: "disk_evict env (de_phys env obj) (insert_put_task k ld') = (ld2, x)"
      by (cases "disk_evict env (de_phys env obj) (insert_put_task k ld')")
    note e = disk_evict_keeps[OF x]
    have "keeps env ld' (insert_put_task k ld')"
      by (intro same_sizes_keeps same_sizes_fields) (auto simp: insert_put_task_def)
    then have "disk_inv env ld2" "dm_size m \<le> leaked env ld2" "ld_max ld2 = mx" using e l2 by (auto simp: keeps_def)
    then have "x \<noteq> Inr True"
      using big e disk_inv_parts_nonneg[OF assms(1), of ld2] by (auto simp: leaked_def)
    then have "fst (disk_submit_put env now k obj ld') = ld2"
      using x False by (cases x) (auto simp: disk_submit_put_def)
    then show ?thesis using e by (simp add: insert_put_task_def)
  qed
  then show ?thesis using l2 by (simp add: leaked_def)
qed

text \<open>A key whose put was given up: it is in the list of tasks, but nothing will take it out.\<close>

definition stuck :: "'k \<Rightarrow> ('k, 'h, 'i, 'o, 'b) disk_backend \<Rightarrow> bool" where
  "stuck key ld \<longleftrightarrow> key \<in> set (ld_put_tasks ld) \<and> key \<notin> fst ` set (ld_saves ld @ ld_writes ld) \<and>
     map_of (ld_dict ld) key = None"

text \<open>Calls that touch no task and add no key: what stays keeps its path, and only the files of
  keys that go may go.\<close>

definition only_drops :: "('k, 'h, 'i, 'o, 'b) disk_backend \<Rightarrow> ('k, 'h, 'i, 'o, 'b) disk_backend \<Rightarrow> bool" where
  "only_drops ld ld' \<longleftrightarrow> ld_put_tasks ld' = ld_put_tasks ld \<and> ld_saves ld' = ld_saves ld \<and> ld_writes ld' = ld_writes ld \<and>
     (\<forall>k m'. map_of (ld_dict ld') k = Some m' \<longrightarrow> (\<exists>m. map_of (ld_dict ld) k = Some m \<and> dm_path m' = dm_path m)) \<and>
     (\<forall>p. map_of (ld_files ld') p = map_of (ld_files ld) p \<or>
        map_of (ld_files ld') p = None \<and> (\<exists>k m. map_of (ld_dict ld) k = Some m \<and> dm_path m = p \<and> map_of (ld_dict ld') k = None))"

lemma only_drops_refl [simp]: "only_drops ld ld"
  by (simp add: only_drops_def)

lemma only_drops_None:
  assumes "only_drops ld ld'" and "map_of (ld_dict ld) k = None"
  shows "map_of (ld_dict ld') k = None"
proof (rule ccontr)
  assume "map_of (ld_dict ld') k \<noteq> None"
  then obtain m' where "map_of (ld_dict ld') k = Some m'" by blast
  then have "map_of (ld_dict ld) k \<noteq> None" using assms(1) unfolding only_drops_def by fastforce
  with assms(2) show False by blast
qed

lemma only_drops_trans:
  assumes "only_drops ld ld1" and "only_drops ld1 ld2"
  shows "only_drops ld ld2"
proof -
  have "\<exists>m. map_of (ld_dict ld) k = Some m \<and> dm_path m' = dm_path m" if "map_of (ld_dict ld2) k = Some m'" for k m'
    using that assms by (force simp: only_drops_def)
  moreover have "map_of (ld_files ld2) p = map_of (ld_files ld) p \<or>
      map_of (ld_files ld2) p = None \<and> (\<exists>k m. map_of (ld_dict ld) k = Some m \<and> dm_path m = p \<and> map_of (ld_dict ld2) k = None)" for p
  proof (cases "map_of (ld_files ld1) p = map_of (ld_files ld) p")
    case True
    show ?thesis
    proof (cases "map_of (ld_files ld2) p = map_of (ld_files ld1) p")
      case False
      then obtain k m1 where k: "map_of (ld_dict ld1) k = Some m1" "dm_path m1 = p" "map_of (ld_dict ld2) k = None" "map_of (ld_files ld2) p = None"
        using assms(2) unfolding only_drops_def by blast
      then obtain m where "map_of (ld_dict ld) k = Some m" "dm_path m1 = dm_path m"
        using assms(1) unfolding only_drops_def by blast
      with k show ?thesis by auto
    qed (use True in simp)
  next
    case False
    then obtain k m where k: "map_of (ld_dict ld) k = Some m" "dm_path m = p" "map_of (ld_dict ld1) k = None" "map_of (ld_files ld1) p = None"
      using assms(1) unfolding only_drops_def by blast
    moreover have "map_of (ld_dict ld2) k = None" using only_drops_None[OF assms(2) k(3)] .
    moreover have "map_of (ld_files ld2) p = None" using assms(2) k(4) unfolding only_drops_def by metis
    ultimately show ?thesis by blast
  qed
  moreover have "ld_put_tasks ld2 = ld_put_tasks ld" "ld_saves ld2 = ld_saves ld" "ld_writes ld2 = ld_writes ld"
    using assms by (simp_all add: only_drops_def)
  ultimately show ?thesis unfolding only_drops_def by blast
qed

lemma only_drops_stuck: "only_drops ld ld' \<Longrightarrow> stuck key ld \<Longrightarrow> stuck key ld'"
  using only_drops_None[of ld ld' key] by (auto simp: only_drops_def stuck_def)

text \<open>Metadata changes that keep the path, and a policy's reordering.\<close>

lemma upd_meta_only_drops:
  assumes "\<And>m. dm_path (f m) = dm_path m"
  shows "only_drops ld (upd_disk_meta f k ld)"
  using assms by (auto simp: only_drops_def upd_disk_meta_def split: option.split)

lemma pin_paths [simp]: "dm_path (dm_pin m) = dm_path m" "dm_path (dm_unpin m) = dm_path m"
  by (simp_all add: dm_pin_def dm_unpin_def)

lemmas pin_only_drops [simp] = upd_meta_only_drops[OF pin_paths(1)] upd_meta_only_drops[OF pin_paths(2)]

lemma pol_hit_map:
  assumes "pol_hit h now key d p = (p', Inr d')"
  shows "map_of d' = map_of d"
  using assms map_of_move_to_end
  by (auto simp: pol_hit_def lru_on_hit_def mru_on_hit_def apfst_def map_prod_def split: policy.splits prod.splits sum.splits)

lemma only_drops_fields:
  assumes "ld_put_tasks ld' = ld_put_tasks ld" and "ld_saves ld' = ld_saves ld" and "ld_writes ld' = ld_writes ld"
    and "map_of (ld_dict ld') = map_of (ld_dict ld)" and "ld_files ld' = ld_files ld"
  shows "only_drops ld ld'"
  using assms by (simp add: only_drops_def)

lemma pol_hit_only_drops:
  assumes "pol_hit h now key (ld_dict ld) (ld_policy ld) = (p, Inr d)"
  shows "only_drops ld (ld\<lparr>ld_policy := p, ld_dict := d\<rparr>)"
  using pol_hit_map[OF assms] by (intro only_drops_fields) auto

lemma disk_remove_files:
  assumes "disk_remove env key force ld = (ld', r)"
  shows "map_of (ld_files ld') p = map_of (ld_files ld) p \<or>
    map_of (ld_files ld') p = None \<and> (\<exists>m. map_of (ld_dict ld) key = Some m \<and> dm_path m = p)"
  using assms by (auto simp: disk_remove_def Let_def split: option.splits if_splits sum.splits)

lemma disk_remove_only_drops: "only_drops ld (fst (disk_remove env key force ld))"
proof -
  obtain ld' r where r: "disk_remove env key force ld = (ld', r)" by (cases "disk_remove env key force ld")
  have "map_of (ld_files ld') p = map_of (ld_files ld) p \<or>
      map_of (ld_files ld') p = None \<and> (\<exists>k m. map_of (ld_dict ld) k = Some m \<and> dm_path m = p \<and> map_of (ld_dict ld') k = None)" for p
    using disk_remove_files[OF r, of p] disk_remove_fields(1)[OF r] by auto
  then show ?thesis unfolding r fst_conv
    using disk_remove_fields[OF r] by (auto simp: only_drops_def)
qed

lemma disk_batched_remove_only_drops: "only_drops ld (fst (disk_batched_remove env keys force n ld))"
proof (induction keys arbitrary: ld n)
  case (Cons key keys)
  obtain ld1 x where r: "disk_remove env key force ld = (ld1, x)" by (cases "disk_remove env key force ld")
  then have "only_drops ld ld1" using disk_remove_only_drops[of ld env key force] by simp
  with Cons[of ld1] r show ?case by (cases x) (auto intro: only_drops_trans)
qed simp

lemma disk_contains_only_drops: "only_drops ld (fst (disk_contains key pin ld))"
proof -
  have "only_drops (upd_disk_meta dm_pin key ld) ((upd_disk_meta dm_pin key ld)\<lparr>ld_keys_in_request := ks\<rparr>)" for ks
    by (intro only_drops_fields) auto
  then show ?thesis by (auto simp: disk_contains_def intro: only_drops_trans[OF pin_only_drops(1)])
qed

lemma disk_async_contains_only_drops: "only_drops ld (fst (disk_async_contains keys pin n ld))"
proof (induction keys arbitrary: ld n)
  case (Cons key keys)
  show ?case
  proof (cases "map_of (ld_dict ld) key = None")
    case False
    then have "disk_async_contains (key # keys) pin n ld = disk_async_contains keys pin (n + 1) (fst (disk_contains key pin ld))"
      by (auto simp: disk_contains_def)
    then show ?thesis using disk_contains_only_drops[of ld key pin] Cons by (auto intro: only_drops_trans)
  qed simp
qed simp

lemma disk_touch_keys_only_drops: "only_drops ld (fst (disk_touch_keys env now keys ld))"
proof (induction keys arbitrary: ld)
  case (Cons key keys)
  obtain p d where pd: "pol_hit (de_hash env) now key (ld_dict ld) (ld_policy ld) = (p, d)"
    by (cases "pol_hit (de_hash env) now key (ld_dict ld) (ld_policy ld)")
  show ?case
  proof (cases d)
    case (Inl e)
    have "only_drops ld (ld\<lparr>ld_policy := p\<rparr>)" by (intro only_drops_fields) auto
    with Inl pd show ?thesis by simp
  next
    case (Inr d')
    from Cons[of "ld\<lparr>ld_policy := p, ld_dict := d'\<rparr>"] pol_hit_only_drops[OF pd[unfolded Inr]] pd Inr
    show ?thesis by (auto intro: only_drops_trans)
  qed
qed simp

lemma disk_touch_cache_only_drops: "only_drops ld (fst (disk_touch_cache env now ld))"
proof -
  obtain ld1 r where r: "disk_touch_keys env now (rev (ld_keys_in_request ld)) ld = (ld1, r)"
    by (cases "disk_touch_keys env now (rev (ld_keys_in_request ld)) ld")
  then have k: "only_drops ld ld1" using disk_touch_keys_only_drops[of ld env now "rev (ld_keys_in_request ld)"] by simp
  have "only_drops ld1 (ld1\<lparr>ld_keys_in_request := []\<rparr>)" by (intro only_drops_fields) auto
  with k r show ?thesis by (cases r) (auto simp: disk_touch_cache_def intro: only_drops_trans)
qed

lemma get_lookup_only_drops: "only_drops ld (fst (get_lookup env now key ld))"
proof (cases "map_of (ld_dict ld) key")
  case (Some m)
  obtain p d where pd: "pol_hit (de_hash env) now key (ld_dict ld) (ld_policy ld) = (p, d)"
    by (cases "pol_hit (de_hash env) now key (ld_dict ld) (ld_policy ld)")
  show ?thesis
  proof (cases d)
    case (Inl e)
    have "only_drops ld (ld\<lparr>ld_policy := p, ld_lock_held := True\<rparr>)" by (intro only_drops_fields) auto
    with Inl pd Some show ?thesis by (simp add: get_lookup_def)
  next
    case (Inr d')
    then show ?thesis using pol_hit_only_drops[OF pd[unfolded Inr]] pd Some by (simp add: get_lookup_def)
  qed
qed (simp add: get_lookup_def)

lemma read_file_only_drops: "only_drops ld (fst (read_file key path ld))"
  by (auto simp: read_file_def only_drops_def split: option.split)

lemma load_only_drops: "only_drops ld (fst (load_bytes_from_disk alloc_ok key path ld))"
  using read_file_only_drops[of ld key path] by (auto simp: load_bytes_from_disk_def split: prod.split)

lemma batched_async_load_only_drops: "only_drops ld (fst (batched_async_load pks ld))"
proof (induction pks arbitrary: ld)
  case (Cons pk pks)
  obtain path key where pk: "pk = (path, key)" by (cases pk)
  obtain ld1 c where c: "read_file key path ld = (ld1, c)" by (cases "read_file key path ld")
  then have k1: "only_drops ld ld1" using read_file_only_drops[of ld key path] by simp
  have k2: "only_drops ld (upd_disk_meta dm_unpin key ld1)" by (rule only_drops_trans[OF k1 pin_only_drops(2)])
  show ?case
  proof (cases "batched_async_load pks (upd_disk_meta dm_unpin key ld1)")
    case (Pair ld2 r)
    then have "only_drops (upd_disk_meta dm_unpin key ld1) ld2" using Cons[of "upd_disk_meta dm_unpin key ld1"] by simp
    with k2 have "only_drops ld ld2" by (rule only_drops_trans)
    with k1 show ?thesis using pk c Pair by (cases r) auto
  qed
qed simp

lemma prefetch_keys_only_drops: "only_drops ld (fst (prefetch_keys env now keys allocs ld))"
proof (induction keys arbitrary: ld allocs)
  case (Cons key keys)
  show ?case
  proof (cases "map_of (ld_dict ld) key = None \<or> allocs = [] \<or> \<not> hd allocs")
    case True
    have "only_drops ld (ld\<lparr>ld_lock_held := True\<rparr>)" by (intro only_drops_fields) auto
    then show ?thesis using True by (cases "map_of (ld_dict ld) key") auto
  next
    case False
    let ?ld1 = "upd_disk_meta dm_pin key ld"
    obtain p d where pd: "pol_hit (de_hash env) now key (ld_dict ?ld1) (ld_policy ?ld1) = (p, d)"
      by (cases "pol_hit (de_hash env) now key (ld_dict ?ld1) (ld_policy ?ld1)")
    show ?thesis
    proof (cases d)
      case (Inl e)
      have "only_drops ?ld1 (?ld1\<lparr>ld_policy := p, ld_lock_held := True\<rparr>)" by (intro only_drops_fields) auto
      from only_drops_trans[OF pin_only_drops(1) this] show ?thesis using False pd Inl by (auto simp: Let_def)
    next
      case (Inr d')
      let ?ld2 = "?ld1\<lparr>ld_policy := p, ld_dict := d'\<rparr>"
      have k2: "only_drops ld ?ld2"
        by (rule only_drops_trans[OF pin_only_drops(1) pol_hit_only_drops[OF pd[unfolded Inr]]])
      obtain ld3 r where r: "prefetch_keys env now keys (tl allocs) ?ld2 = (ld3, r)"
        by (cases "prefetch_keys env now keys (tl allocs) ?ld2")
      then have "only_drops ?ld2 ld3" using Cons[of ?ld2 "tl allocs"] by simp
      with k2 have "only_drops ld ld3" by (rule only_drops_trans)
      then show ?thesis using False pd Inr r by (cases r) (auto simp: Let_def)
    qed
  qed
qed simp

lemma uncount_only_drops: "only_drops ld (fst (uncount_sizes ks ld))"
proof -
  have "ld_put_tasks (fst (uncount_sizes ks ld)) = ld_put_tasks ld \<and> ld_saves (fst (uncount_sizes ks ld)) = ld_saves ld \<and>
    ld_writes (fst (uncount_sizes ks ld)) = ld_writes ld \<and> ld_dict (fst (uncount_sizes ks ld)) = ld_dict ld"
    by (induction ks arbitrary: ld) (auto split: option.split)
  moreover have "ld_files (fst (uncount_sizes ks ld)) = ld_files ld"
    by (induction ks arbitrary: ld) (auto split: option.split)
  ultimately show ?thesis by (intro only_drops_fields) auto
qed

lemma disk_evict_only_drops: "only_drops ld (fst (disk_evict env req ld))"
proof (induction env req ld rule: disk_evict.induct)
  case (1 env req ld)
  show ?case
  proof (cases "ld_current ld + req > ld_max ld")
    case True
    obtain p x where c: "pol_candidates (de_items env) dm_can_evict 1 (ld_dict ld) (ld_policy ld) = (p, x)"
      by (cases "pol_candidates (de_items env) dm_can_evict 1 (ld_dict ld) (ld_policy ld)")
    have pk: "only_drops ld (ld\<lparr>ld_policy := p\<rparr>)" by (intro only_drops_fields) auto
    obtain ld1 u where u: "uncount_sizes (case x of Inr ks \<Rightarrow> ks) (ld\<lparr>ld_policy := p\<rparr>) = (ld1, u)"
      by (cases "uncount_sizes (case x of Inr ks \<Rightarrow> ks) (ld\<lparr>ld_policy := p\<rparr>)")
    have k1: "only_drops ld ld1" using only_drops_trans[OF pk uncount_only_drops] u by (metis fst_conv)
    show ?thesis
    proof (cases "\<exists>ks v. x = Inr ks \<and> ks \<noteq> [] \<and> u = Inr v")
      case T: True
      then obtain ks v where x: "x = Inr ks" "ks \<noteq> []" "u = Inr v" by blast
      obtain ld2 n where n: "disk_batched_remove env ks False 0 ld1 = (ld2, n)"
        by (cases "disk_batched_remove env ks False 0 ld1")
      have k2: "only_drops ld ld2" using only_drops_trans[OF k1 disk_batched_remove_only_drops] n by (metis fst_conv)
      show ?thesis
      proof (cases n)
        case (Inl e)
        then show ?thesis using True c x u n k2 by (subst disk_evict.simps) simp
      next
        case (Inr n')
        have "uncount_sizes ks (ld\<lparr>ld_policy := p\<rparr>) = (ld1, Inr v)" using u x by simp
        from 1[OF True c[symmetric] x(1,2) this[symmetric] refl n[symmetric] Inr]
        have "only_drops ld2 (fst (disk_evict env req ld2))" .
        with k2 have "only_drops ld (fst (disk_evict env req ld2))" by (rule only_drops_trans)
        then show ?thesis using True c x u n Inr by (subst disk_evict.simps) simp
      qed
    next
      case False
      then show ?thesis using True c u pk k1
        by (cases x; cases u) (subst disk_evict.simps, auto)+
    qed
  qed (subst disk_evict.simps, simp)
qed

lemma disk_pin_only_drops: "only_drops ld (fst (disk_pin key ld))" "only_drops ld (fst (disk_unpin key ld))"
  by (auto simp: disk_pin_def disk_unpin_def)

lemma quiet_step_only_drops:
  assumes "quiet_step env ld ld'"
  shows "only_drops ld ld'"
  using assms
  by (cases rule: quiet_step.cases)
    (simp_all add: disk_contains_only_drops disk_async_contains_only_drops disk_touch_cache_only_drops
      disk_pin_only_drops disk_remove_only_drops disk_batched_remove_only_drops get_lookup_only_drops load_only_drops
      prefetch_keys_only_drops batched_async_load_only_drops)

lemma submit_put_cases:
  obtains (skip) "key \<in> set (ld_put_tasks ld)" "fst (disk_submit_put env now key obj ld) = ld"
  | (refused) "key \<notin> set (ld_put_tasks ld)"
      "only_drops (ld\<lparr>ld_put_tasks := ld_put_tasks ld @ [key]\<rparr>) (fst (disk_submit_put env now key obj ld))"
  | (accepted) ld1 p where "key \<notin> set (ld_put_tasks ld)" "only_drops (ld\<lparr>ld_put_tasks := ld_put_tasks ld @ [key]\<rparr>) ld1"
      "fst (disk_submit_put env now key obj ld) = ld1\<lparr>ld_current := ld_current ld1 + de_phys env obj, ld_policy := p,
         ld_held := ld_held ld1 @ [obj], ld_saves := ld_saves ld1 @ [(key, obj)]\<rparr>"
proof (cases "exists_in_put_tasks key ld")
  case True
  then show ?thesis using skip by (simp add: disk_submit_put_def exists_in_put_tasks_def)
next
  case False
  obtain ld1 r where r: "disk_evict env (de_phys env obj) (insert_put_task key ld) = (ld1, r)"
    by (cases "disk_evict env (de_phys env obj) (insert_put_task key ld)")
  have d: "only_drops (ld\<lparr>ld_put_tasks := ld_put_tasks ld @ [key]\<rparr>) ld1"
    using disk_evict_only_drops[of "insert_put_task key ld" env "de_phys env obj"] r by (simp add: insert_put_task_def)
  show ?thesis
  proof (cases "r = Inr True")
    case True
    show ?thesis using False d r True
      by (intro accepted[of ld1 "pol_put (de_hash env) now key (ld_policy ld1)"])
        (auto simp: disk_submit_put_def exists_in_put_tasks_def)
  next
    case F: False
    then have "fst (disk_submit_put env now key obj ld) = ld1" using r False by (cases r) (auto simp: disk_submit_put_def)
    then show ?thesis using refused False d by (simp add: exists_in_put_tasks_def)
  qed
qed

lemma set_take_drop: "j < length xs \<Longrightarrow> set (take j xs @ drop (Suc j) xs) \<subseteq> set xs"
  by (auto dest: in_set_takeD in_set_dropD)

lemma save_insert_cases:
  assumes "j < length (ld_writes ld)" and "ld_writes ld ! j = (key, obj)"
  shows "ld_saves (fst (save_insert env now j ld)) = ld_saves ld \<and>
    ld_writes (fst (save_insert env now j ld)) = take j (ld_writes ld) @ drop (Suc j) (ld_writes ld) \<and>
    ld_files (fst (save_insert env now j ld)) = ld_files ld \<and>
    (ld_put_tasks (fst (save_insert env now j ld)) = ld_put_tasks ld \<or>
     ld_put_tasks (fst (save_insert env now j ld)) = remove1 key (ld_put_tasks ld)) \<and>
    (map_of (ld_dict (fst (save_insert env now j ld))) = map_of (ld_dict ld) \<or>
     map_of (ld_dict ld) key = None \<and> map_of (ld_dict (fst (save_insert env now j ld))) = (map_of (ld_dict ld))(key \<mapsto>
       \<lparr> dm_path = de_path env key, dm_size = de_phys env obj, dm_info = de_info env obj, dm_pin_count = 0 \<rparr>))"
proof -
  let ?ld1 = "ld\<lparr>ld_writes := take j (ld_writes ld) @ drop (Suc j) (ld_writes ld)\<rparr>"
  show ?thesis
  proof (cases "map_of (ld_dict ld) key")
    case None
    then show ?thesis using assms by (simp add: save_insert_def insert_key_def Let_def)
  next
    case (Some m)
    obtain p d where pd: "pol_hit (de_hash env) now key (ld_dict ld) (ld_policy ld) = (p, d)"
      by (cases "pol_hit (de_hash env) now key (ld_dict ld) (ld_policy ld)")
    show ?thesis
    proof (cases d)
      case (Inl e)
      then show ?thesis using assms Some pd by (simp add: save_insert_def insert_key_def Let_def)
    next
      case (Inr d')
      then show ?thesis using assms Some pd pol_hit_map[OF pd[unfolded Inr]]
        by (simp add: save_insert_def insert_key_def Let_def)
    qed
  qed
qed

lemma stuck_step:
  assumes "disk_step env ld ld'" and "stuck key ld"
  shows "stuck key ld'"
  using assms(1)
proof (cases rule: disk_step.cases)
  case quiet
  then show ?thesis using only_drops_stuck[OF quiet_step_only_drops assms(2)] by simp
next
  case (put now k obj)
  show ?thesis
  proof (cases rule: submit_put_cases[of k ld env now obj])
    case skip
    then show ?thesis using put assms(2) by simp
  next
    case refused
    have "stuck key (ld\<lparr>ld_put_tasks := ld_put_tasks ld @ [k]\<rparr>)" using assms(2) by (simp add: stuck_def)
    from only_drops_stuck[OF refused(2) this] show ?thesis using put by simp
  next
    case (accepted ld1 p)
    have "k \<noteq> key" using accepted(1) assms(2) by (auto simp: stuck_def)
    moreover have "stuck key (ld\<lparr>ld_put_tasks := ld_put_tasks ld @ [k]\<rparr>)" using assms(2) by (simp add: stuck_def)
    then have "stuck key ld1" by (rule only_drops_stuck[OF accepted(2)])
    ultimately show ?thesis using put accepted(3) by (auto simp: stuck_def)
  qed
next
  case (write_step j)
  show ?thesis
  proof (cases "j < length (ld_saves ld)")
    case True
    obtain k ob where ko: "ld_saves ld ! j = (k, ob)" by (cases "ld_saves ld ! j")
    then have "(k, ob) \<in> set (ld_saves ld)" using True nth_mem by fastforce
    then have "set (ld_saves ld' @ ld_writes ld') \<subseteq> set (ld_saves ld @ ld_writes ld)"
      using write_step True ko set_take_drop[OF True] unfolding save_write_def
      by (simp only: if_True Let_def prod.case) auto
    moreover have "ld_put_tasks ld' = ld_put_tasks ld" "ld_dict ld' = ld_dict ld"
      using write_step ko by (simp_all add: save_write_def)
    ultimately show ?thesis using assms(2) unfolding stuck_def by (metis image_mono subsetD)
  qed (use write_step assms(2) in \<open>simp add: save_write_def\<close>)
next
  case (insert_step now j)
  show ?thesis
  proof (cases "j < length (ld_writes ld)")
    case True
    obtain k ob where ko: "ld_writes ld ! j = (k, ob)" by (cases "ld_writes ld ! j")
    then have "(k, ob) \<in> set (ld_writes ld)" using True nth_mem by fastforce
    then have "k \<noteq> key" using assms(2) by (force simp: stuck_def)
    note c = save_insert_cases[OF True ko, of env now]
    have "set (ld_saves ld' @ ld_writes ld') \<subseteq> set (ld_saves ld @ ld_writes ld)"
      using c insert_step set_take_drop[OF True] by (simp only: set_append) blast
    moreover have "key \<in> set (ld_put_tasks ld')" "map_of (ld_dict ld') key = None"
      using c insert_step assms(2) \<open>k \<noteq> key\<close> by (auto simp: stuck_def)
    ultimately show ?thesis using assms(2) unfolding stuck_def by (metis image_mono subsetD)
  qed (use insert_step assms(2) in \<open>simp add: save_insert_def\<close>)
qed

text \<open>
  C40: a refused put blocks its key for good. When no space can be made for a chunk, the key stays
  in the list of put tasks. Whatever happens afterwards, every later put of the key returns
  without doing anything, even when there is space again, and the key never gets into the cache.
\<close>

theorem refused_put_blocks_key:
  assumes "key \<notin> set (ld_put_tasks ld)" and "key \<notin> fst ` set (ld_saves ld @ ld_writes ld)" and "map_of (ld_dict ld) key = None"
    and "disk_evict env (de_phys env obj) (insert_put_task key ld) = (ld1, Inr False)"
    and "(disk_step env)\<^sup>*\<^sup>* (fst (disk_submit_put env now key obj ld)) ld'"
  shows "disk_submit_put env now' key obj' ld' = (ld', Inr ()) \<and> snd (disk_contains key False ld') = False"
proof -
  have s1: "fst (disk_submit_put env now key obj ld) = ld1"
    using assms(1,4) by (simp add: disk_submit_put_def exists_in_put_tasks_def)
  have "stuck key (insert_put_task key ld)" using assms(2,3) by (simp add: stuck_def insert_put_task_def)
  then have "stuck key ld1"
    using only_drops_stuck disk_evict_only_drops[of "insert_put_task key ld" env "de_phys env obj"] assms(4) by (metis fst_conv)
  then have "stuck key ld'" using assms(5) unfolding s1
    by (rotate_tac 1) (induction rule: rtranclp_induct, auto intro: stuck_step)
  then show ?thesis by (simp add: stuck_def disk_submit_put_def exists_in_put_tasks_def disk_contains_def)
qed

section \<open>What a get returns\<close>

























text \<open>
  a key can be stored without its file. When a stored key is saved again and the key is
  removed between the write of the file and its insertion, the insertion brings back the key
  although the removal has taken the file away: the key is reported as stored, but a get of it
  raises \<open>KeyError\<close> and drops the key.
\<close>

theorem removal_during_save_loses_file:
  assumes "j < length (ld_writes ld)" and "ld_writes ld ! j = (key, obj)"
    and "map_of (ld_dict ld) key = Some m" and "dm_path m = de_path env key"
    and "disk_remove env key force ld = (ld1, Inr b)" and "pol_hit (de_hash env) now' key d (ld_policy ld1) = (p, Inr d')"
    and "d = ld_dict (fst (save_insert env now j ld1))"
  shows "snd (disk_contains key False (fst (save_insert env now j ld1))) \<and>
    snd (disk_get_blocking env now' True key (fst (save_insert env now j ld1))) = Inl KeyError \<and>
    \<not> snd (disk_contains key False (fst (disk_get_blocking env now' True key (fst (save_insert env now j ld1)))))"
proof -
  let ?e = "\<lparr> dm_path = de_path env key, dm_size = de_phys env obj, dm_info = de_info env obj, dm_pin_count = 0 \<rparr>"
  let ?ld2 = "fst (save_insert env now j ld1)"
  have l1: "ld_dict ld1 = AList.delete key (ld_dict ld)" "ld_writes ld1 = ld_writes ld"
    "ld_files ld1 = AList.delete (de_path env key) (ld_files ld)"
    using assms(3,4,5) disk_remove_fields[OF assms(5)]
    by (auto simp: disk_remove_def Let_def split: option.splits if_splits sum.splits)
  have w: "j < length (ld_writes ld1)" "ld_writes ld1 ! j = (key, obj)" using assms(1,2) l1 by simp_all
  have none: "map_of (ld_dict ld1) key = None" using l1 by (simp add: delete_conv')
  have l2: "ld_dict ?ld2 = AList.update key ?e (ld_dict ld1)" "ld_files ?ld2 = ld_files ld1" "ld_policy ?ld2 = ld_policy ld1"
    using w none by (simp_all add: save_insert_def insert_key_def Let_def remove_put_task_def)
  have k: "map_of (ld_dict ?ld2) key = Some ?e" by (simp add: l2 update_conv')
  have "map_of d' key = Some ?e" using pol_hit_map[OF assms(6)] assms(7) k by simp
  moreover have "map_of (ld_files ?ld2) (de_path env key) = None" by (simp add: l2 l1 delete_conv')
  ultimately show ?thesis using k assms(6,7) l2(3)
    by (simp add: disk_contains_def disk_get_blocking_def get_lookup_def load_bytes_from_disk_def read_file_def delete_conv')
qed

section \<open>Instances\<close>

definition demo_disk_env :: "(nat, nat, unit, nat, nat) disk_env" where
  "demo_disk_env = \<lparr> de_hash = (\<lambda>k. k), de_path = (\<lambda>k. replicate k CHR ''a''), de_items = (\<lambda>l. l),
     de_phys = int, de_len = int, de_bytes = (\<lambda>ob. ob), de_info = (\<lambda>ob. ()) \<rparr>"

definition demo_disk0 :: "(nat, nat, unit, nat, nat) disk_backend" where
  "demo_disk0 = disk_init FIFO 10 [] True"

definition demo_disk1 :: "(nat, nat, unit, nat, nat) disk_backend" where
  "demo_disk1 = fst (disk_submit_put demo_disk_env 0 6 6 demo_disk0)"

definition demo_disk2 :: "(nat, nat, unit, nat, nat) disk_backend" where
  "demo_disk2 = save_write demo_disk_env 0 demo_disk1"

definition demo_disk3 :: "(nat, nat, unit, nat, nat) disk_backend" where
  "demo_disk3 = fst (save_insert demo_disk_env 0 0 demo_disk2)"

text \<open>A second save of the stored key, up to its write.\<close>

definition demo_disk4 :: "(nat, nat, unit, nat, nat) disk_backend" where
  "demo_disk4 = save_write demo_disk_env 0 (fst (disk_submit_put demo_disk_env 0 6 3 demo_disk3))"

lemma demo_env_phys [simp]: "\<forall>ob. 0 \<le> de_phys demo_disk_env ob"
  by (simp add: demo_disk_env_def)


lemma demo_disk_steps: "(disk_step demo_disk_env)\<^sup>*\<^sup>* demo_disk0 demo_disk3"
proof -
  have "disk_step demo_disk_env demo_disk0 demo_disk1" unfolding demo_disk1_def by (rule disk_step.put)
  moreover have "disk_step demo_disk_env demo_disk1 demo_disk2" unfolding demo_disk2_def by (rule disk_step.write_step)
  moreover have "disk_step demo_disk_env demo_disk2 demo_disk3" unfolding demo_disk3_def by (rule disk_step.insert_step)
  ultimately show ?thesis by (meson converse_rtranclp_into_rtranclp rtranclp.rtrancl_refl)
qed


lemma demo_disk3_value:
  "map_of (ld_dict demo_disk3) 6 = Some \<lparr> dm_path = ''aaaaaa'', dm_size = 6, dm_info = (), dm_pin_count = 0 \<rparr>"
  "ld_current demo_disk3 = 6" "ld_policy demo_disk3 = FIFO"
  by code_simp+

lemma demo_disk4_value:
  "map_of (ld_dict demo_disk4) 6 = Some \<lparr> dm_path = ''aaaaaa'', dm_size = 6, dm_info = (), dm_pin_count = 0 \<rparr>"
  "ld_writes demo_disk4 = [(6, 3)]" "snd (disk_remove demo_disk_env 6 True demo_disk4) = Inr True"
  "ld_policy (fst (disk_remove demo_disk_env 6 True demo_disk4)) = FIFO"
  by code_simp+

lemma disk_space_bounded_witness: "dict_size demo_disk3 + pending_size demo_disk_env demo_disk3 \<le> ld_current demo_disk3 \<and> ld_current demo_disk3 \<le> 10"
  by (rule disk_space_bounded[OF demo_env_phys _ demo_disk_steps[unfolded demo_disk0_def]]) simp

lemma forced_removal_leaks_space_witness:
  "ld_saves (fst (disk_submit_put demo_disk_env 1 5 5 (fst (disk_remove demo_disk_env 6 True demo_disk3)))) =
     ld_saves (fst (disk_remove demo_disk_env 6 True demo_disk3))"
proof -
  have "10 < de_phys demo_disk_env 5 + 6" by (simp add: demo_disk_env_def)
  with forced_removal_leaks_space[OF demo_env_phys _ demo_disk_steps[unfolded demo_disk0_def] demo_disk3_value(1) rtranclp.rtrancl_refl,
      of 5 1 5]
  show ?thesis by simp
qed

lemma refused_put_blocks_key_witness:
  "let ld' = fst (disk_submit_put demo_disk_env 0 1 11 demo_disk0)
   in disk_submit_put demo_disk_env 2 1 1 ld' = (ld', Inr ()) \<and> snd (disk_contains 1 False ld') = False"
proof -
  have e: "disk_evict demo_disk_env (de_phys demo_disk_env 11) (insert_put_task 1 demo_disk0) = (insert_put_task 1 demo_disk0, Inr False)"
    by code_simp
  have i: "1 \<notin> set (ld_put_tasks demo_disk0)" "1 \<notin> fst ` set (ld_saves demo_disk0 @ ld_writes demo_disk0)"
    "map_of (ld_dict demo_disk0) 1 = None"
    by (simp_all add: demo_disk0_def disk_init_def)
  show ?thesis unfolding Let_def by (rule refused_put_blocks_key[OF i e rtranclp.rtrancl_refl])
qed


lemma removal_during_save_loses_file_witness:
  "let ld2 = fst (save_insert demo_disk_env 2 0 (fst (disk_remove demo_disk_env 6 True demo_disk4)))
   in snd (disk_contains 6 False ld2) \<and> snd (disk_get_blocking demo_disk_env 3 True 6 ld2) = Inl KeyError"
proof -
  let ?ld1 = "fst (disk_remove demo_disk_env 6 True demo_disk4)"
  let ?d = "ld_dict (fst (save_insert demo_disk_env 2 0 ?ld1))"
  have r: "disk_remove demo_disk_env 6 True demo_disk4 = (?ld1, Inr True)" using demo_disk4_value(3) by (metis prod.collapse)
  have p: "pol_hit (de_hash demo_disk_env) 3 6 ?d (ld_policy ?ld1) = (FIFO, Inr ?d)"
    by (simp add: demo_disk4_value pol_hit_def)
  have path: "dm_path \<lparr> dm_path = ''aaaaaa'', dm_size = 6, dm_info = (), dm_pin_count = 0 \<rparr> = de_path demo_disk_env 6"
    by code_simp
  have w: "0 < length (ld_writes demo_disk4)" "ld_writes demo_disk4 ! 0 = (6, 3)" by (simp_all add: demo_disk4_value)
  show ?thesis unfolding Let_def
    using removal_during_save_loses_file[OF w demo_disk4_value(1) path r p refl] by blast
qed

end
