(* ===== verification/Events.thy ===== *)
theory Events
  imports Prelude
begin

text \<open>
  The event manager of the asynchronous loads (\<open>v1/event_manager.py\<close>). There is one type of event,
  \<open>LOADING\<close>; the manager holds one dictionary from event ids to futures per status. A future is
  opaque here. Every call runs under the lock.
\<close>

declare map_of_eq_Some_iff [simp del] Some_eq_map_of_iff [simp del]

datatype event_status = ONGOING | DONE | NOT_FOUND

type_synonym 'f event_manager = "event_status \<Rightarrow> (string, 'f) odict"

definition event_statuses :: "event_status list" where
  "event_statuses = [ONGOING, DONE, NOT_FOUND]"

definition events_init :: "'f event_manager" where
  "events_init = (\<lambda>_. [])"

definition add_event :: "string \<Rightarrow> 'f \<Rightarrow> 'f event_manager \<Rightarrow> 'f event_manager" where
  "add_event i f em = em(ONGOING := AList.update i f (em ONGOING))"

definition pop_event :: "string \<Rightarrow> 'f event_manager \<Rightarrow> ('f event_manager \<times> 'f) result" where
  "pop_event i em =
     (case map_of (em DONE) i of
        None \<Rightarrow> Inl AssertionError
      | Some f \<Rightarrow> Inr (em(DONE := AList.delete i (em DONE)), f))"

text \<open>The statuses are searched in the order of their declaration.\<close>

definition status_of :: "string \<Rightarrow> 'f event_manager \<Rightarrow> event_status option" where
  "status_of i em = List.find (\<lambda>st. map_of (em st) i \<noteq> None) event_statuses"

definition update_event_status :: "string \<Rightarrow> event_status \<Rightarrow> 'f event_manager \<Rightarrow> 'f event_manager result" where
  "update_event_status i status em =
     (case status_of i em of
        None \<Rightarrow> Inl KeyError
      | Some st \<Rightarrow>
          (let f = the (map_of (em st) i); em' = em(st := AList.delete i (em st))
           in Inr (em'(status := AList.update i f (em' status)))))"

definition get_event_status :: "string \<Rightarrow> 'f event_manager \<Rightarrow> event_status" where
  "get_event_status i em = (case status_of i em of None \<Rightarrow> NOT_FOUND | Some st \<Rightarrow> st)"

definition get_events_count :: "event_status \<Rightarrow> 'f event_manager \<Rightarrow> nat" where
  "get_events_count status em = length (em status)"

section \<open>Every event has one status\<close>

definition events_ok :: "'f event_manager \<Rightarrow> bool" where
  "events_ok em \<longleftrightarrow> (\<forall>st. od_wf (em st)) \<and>
     (\<forall>i st st' f f'. map_of (em st) i = Some f \<longrightarrow> map_of (em st') i = Some f' \<longrightarrow> st = st')"

text \<open>The runs of the manager in which an id is only added while it is unknown.\<close>

inductive events_reachable :: "'f event_manager \<Rightarrow> bool" where
  start: "events_reachable events_init"
| add: "events_reachable em \<Longrightarrow> status_of i em = None \<Longrightarrow> events_reachable (add_event i f em)"
| pop: "events_reachable em \<Longrightarrow> pop_event i em = Inr (em', f) \<Longrightarrow> events_reachable em'"
| upd: "events_reachable em \<Longrightarrow> update_event_status i st em = Inr em' \<Longrightarrow> events_reachable em'"

lemma status_of_None: "status_of i em = None \<longleftrightarrow> (\<forall>st. map_of (em st) i = None)"
proof -
  have "(\<forall>st. map_of (em st) i = None) \<longleftrightarrow> (\<forall>st \<in> set event_statuses. map_of (em st) i = None)"
    by (auto simp: event_statuses_def) (metis event_status.exhaust)
  then show ?thesis by (auto simp: status_of_def find_None_iff)
qed

lemma status_of_Some: "status_of i em = Some st \<Longrightarrow> map_of (em st) i \<noteq> None"
  by (auto simp: status_of_def find_Some_iff)

lemma events_okI:
  assumes "\<And>st. od_wf (em st)"
    and "\<And>i st st' f f'. map_of (em st) i = Some f \<Longrightarrow> map_of (em st') i = Some f' \<Longrightarrow> st = st'"
  shows "events_ok em"
  unfolding events_ok_def using assms by blast

lemma events_ok_same:
  "events_ok em \<Longrightarrow> map_of (em st) i = Some f \<Longrightarrow> map_of (em st') i = Some f' \<Longrightarrow> st = st'"
  unfolding events_ok_def by blast

lemma events_ok_wf: "events_ok em \<Longrightarrow> od_wf (em st)"
  unfolding events_ok_def by blast

lemma events_okD:
  assumes "events_ok em" and "map_of (em st) i = Some f" and "st' \<noteq> st"
  shows "map_of (em st') i = None"
proof (cases "map_of (em st') i")
  case (Some f')
  with assms(1,2) have "st = st'" unfolding events_ok_def by blast
  with assms(3) show ?thesis by simp
qed simp

lemma status_of_unique:
  assumes "events_ok em" and "map_of (em st) i = Some f"
  shows "status_of i em = Some st"
proof (cases "status_of i em")
  case None
  then show ?thesis using assms(2) by (simp add: status_of_None)
next
  case (Some st')
  then obtain f' where "map_of (em st') i = Some f'" using status_of_Some by fastforce
  then have "st = st'" using assms unfolding events_ok_def by blast
  with Some show ?thesis by simp
qed

lemma events_ok_insert:
  assumes "events_ok em" and "\<And>x. map_of (em x) i = None"
  shows "events_ok (em(st := AList.update i f (em st)))"
proof (rule events_okI)
  fix j x y a b
  assume 1: "map_of ((em(st := AList.update i f (em st))) x) j = Some a"
    and 2: "map_of ((em(st := AList.update i f (em st))) y) j = Some b"
  show "x = y"
  proof (cases "j = i")
    case True
    have "z = st" if "map_of ((em(st := AList.update i f (em st))) z) i = Some c" for z c
      using that assms(2)[of z] by (cases "z = st") simp_all
    then show ?thesis using 1 2 True by metis
  next
    case False
    have "map_of (em z) j = Some c" if "map_of ((em(st := AList.update i f (em st))) z) j = Some c" for z c
      using that False by (cases "z = st") simp_all
    then show ?thesis using 1 2 events_ok_same[OF assms(1)] by metis
  qed
qed (use events_ok_wf[OF assms(1)] in simp)

lemma delete_event_ok:
  assumes "events_ok em"
  shows "events_ok (em(st := AList.delete i (em st)))"
proof (rule events_okI)
  fix j x y a b
  assume 1: "map_of ((em(st := AList.delete i (em st))) x) j = Some a"
    and 2: "map_of ((em(st := AList.delete i (em st))) y) j = Some b"
  have "map_of (em z) j = Some c" if "map_of ((em(st := AList.delete i (em st))) z) j = Some c" for z c
    using that by (cases "z = st") (simp_all split: if_splits)
  then show "x = y" using 1 2 events_ok_same[OF assms] by metis
qed (use events_ok_wf[OF assms] in simp)

lemma add_event_ok:
  assumes "events_ok em" and "status_of i em = None"
  shows "events_ok (add_event i f em)"
  using events_ok_insert[OF assms(1)] assms(2) by (simp add: add_event_def status_of_None)

lemma update_event_ok:
  assumes "events_ok em" and "update_event_status i st em = Inr em'"
  shows "events_ok em'"
proof -
  obtain st0 where s: "status_of i em = Some st0" using assms(2) by (auto simp: update_event_status_def split: option.splits)
  obtain f0 where f0: "map_of (em st0) i = Some f0" using status_of_Some[OF s] by auto
  let ?em = "em(st0 := AList.delete i (em st0))"
  have ok: "events_ok ?em" by (rule delete_event_ok[OF assms(1)])
  have none: "map_of (?em x) i = None" for x
  proof (cases "x = st0")
    case False
    then show ?thesis using events_okD[OF assms(1) f0] by simp
  qed simp
  have em': "em' = ?em(st := AList.update i (the (map_of (em st0) i)) (?em st))"
    using assms(2) s by (simp add: update_event_status_def Let_def)
  show ?thesis unfolding em' by (rule events_ok_insert[OF ok none])
qed

lemma events_reachable_ok: "events_reachable em \<Longrightarrow> events_ok em"
proof (induction rule: events_reachable.induct)
  case start
  show ?case by (simp add: events_ok_def events_init_def)
next
  case (pop em i em' f)
  then show ?case by (auto simp: pop_event_def delete_event_ok split: option.splits)
qed (auto intro: add_event_ok update_event_ok)

lemma card_dom_od: "od_wf d \<Longrightarrow> card {i. map_of d i \<noteq> None} = length d"
proof -
  assume "od_wf d"
  moreover have "{i. map_of d i \<noteq> None} = set (map fst d)" by (auto simp: map_of_None_keys simp del: set_map)
  ultimately show ?thesis using distinct_card[of "map fst d"] by simp
qed

text \<open>The specification: a map from ids to their status and future.\<close>

definition event_of :: "'f event_manager \<Rightarrow> string \<Rightarrow> (event_status \<times> 'f) option" where
  "event_of em i = (case status_of i em of None \<Rightarrow> None | Some st \<Rightarrow> Some (st, the (map_of (em st) i)))"

lemma event_of_iff:
  assumes "events_ok em"
  shows "event_of em i = Some (st, f) \<longleftrightarrow> map_of (em st) i = Some f"
proof
  assume "event_of em i = Some (st, f)"
  then show "map_of (em st) i = Some f" using status_of_Some by (fastforce simp: event_of_def split: option.splits)
next
  assume "map_of (em st) i = Some f"
  then show "event_of em i = Some (st, f)" using status_of_unique[OF assms] by (simp add: event_of_def)
qed

lemma event_of_None: "event_of em i = None \<longleftrightarrow> status_of i em = None"
  by (simp add: event_of_def split: option.split)

lemma event_of_eqI:
  assumes "events_ok em" and "\<And>i st f. map_of (em st) i = Some f \<longleftrightarrow> m i = Some (st, f)"
  shows "event_of em = m"
proof
  fix i
  have "event_of em i = Some x \<longleftrightarrow> m i = Some x" for x using event_of_iff[OF assms(1)] assms(2) by (cases x) simp
  then show "event_of em i = m i" by (cases "m i"; cases "event_of em i") auto
qed

lemma event_of_add:
  assumes ok: "events_ok em" and n: "event_of em i = None"
  shows "event_of (add_event i f em) = (event_of em)(i \<mapsto> (ONGOING, f))"
proof (rule event_of_eqI)
  have s: "status_of i em = None" using n by (simp add: event_of_None)
  show "events_ok (add_event i f em)" by (rule add_event_ok[OF ok s])
  show "map_of (add_event i f em st) j = Some g \<longleftrightarrow> ((event_of em)(i \<mapsto> (ONGOING, f))) j = Some (st, g)" for j st g
    using s by (auto simp: add_event_def event_of_iff[OF ok] status_of_None)
qed

lemma event_of_delete:
  assumes ok: "events_ok em" and i: "event_of em i = Some (st, f)"
  shows "event_of (em(st := AList.delete i (em st))) = (event_of em)(i := None)"
proof (rule event_of_eqI)
  show "events_ok (em(st := AList.delete i (em st)))" by (rule delete_event_ok[OF ok])
  have f: "map_of (em st) i = Some f" using i by (simp add: event_of_iff[OF ok])
  show "map_of ((em(st := AList.delete i (em st))) x) j = Some g \<longleftrightarrow> ((event_of em)(i := None)) j = Some (x, g)" for j x g
    using events_okD[OF ok f, of x] by (cases "x = st") (auto simp: event_of_iff[OF ok])
qed

lemma event_of_update:
  assumes ok: "events_ok em" and i: "event_of em i = Some (st0, f)"
  shows "\<exists>em'. update_event_status i st em = Inr em' \<and> event_of em' = (event_of em)(i \<mapsto> (st, f))"
proof -
  let ?em = "em(st0 := AList.delete i (em st0))"
  let ?em' = "?em(st := AList.update i f (?em st))"
  have f: "map_of (em st0) i = Some f" using i by (simp add: event_of_iff[OF ok])
  have u: "update_event_status i st em = Inr ?em'"
    using status_of_unique[OF ok f] f by (simp add: update_event_status_def Let_def)
  have d: "events_ok ?em" "event_of ?em = (event_of em)(i := None)" by (rule delete_event_ok[OF ok], rule event_of_delete[OF ok i])
  have "event_of ?em' = (event_of ?em)(i \<mapsto> (st, f))"
  proof (rule event_of_eqI)
    show "events_ok ?em'" by (rule update_event_ok[OF ok u])
    have n: "map_of (?em x) i = None" for x using d(2) event_of_None[of ?em i] by (simp add: status_of_None)
    show "map_of (?em' x) j = Some g \<longleftrightarrow> ((event_of ?em)(i \<mapsto> (st, f))) j = Some (x, g)" for j x g
      using n[of x] event_of_iff[OF d(1), of j x g] by (cases "x = st"; cases "j = i") auto
  qed
  then show ?thesis using u unfolding d(2) by auto
qed

text \<open>
  C33: the event manager is one map from ids to a status and a future, as long as an id is added only while it
  is unknown, which \<open>add_event\<close> leaves to its caller. Each id is in the dictionary of one status at most. An
  added event is \<open>ONGOING\<close>; an update gives the id the new status with its future and fails with \<open>KeyError\<close>
  exactly when the id is unknown; a pop removes a \<open>DONE\<close> event and returns its future, and fails with
  \<open>AssertionError\<close> for an unknown id and for every other status; no call touches another id. The status of an unknown
  id is \<open>NOT_FOUND\<close>, and the count of a status is the number of ids that have it. A finished id that is added
  again has two statuses: it is reported \<open>ONGOING\<close>, and a pop returns the old future.
\<close>

theorem events_have_one_status:
  assumes "events_reachable em"
  shows "(map_of (em st) i = Some f \<longleftrightarrow> event_of em i = Some (st, f)) \<and>
    (event_of em i = None \<longrightarrow> event_of (add_event i f em) = (event_of em)(i \<mapsto> (ONGOING, f))) \<and>
    (case event_of em i of
       None \<Rightarrow> update_event_status i st em = Inl KeyError
     | Some (_, g) \<Rightarrow> \<exists>em'. update_event_status i st em = Inr em' \<and> event_of em' = (event_of em)(i \<mapsto> (st, g))) \<and>
    (case event_of em i of
       Some (DONE, g) \<Rightarrow> \<exists>em'. pop_event i em = Inr (em', g) \<and> event_of em' = (event_of em)(i := None)
     | _ \<Rightarrow> pop_event i em = Inl AssertionError) \<and>
    get_event_status i em = (case event_of em i of None \<Rightarrow> NOT_FOUND | Some (s, _) \<Rightarrow> s) \<and>
    get_events_count st em = card {j. \<exists>g. event_of em j = Some (st, g)} \<and>
    (\<forall>g. event_of em i = Some (DONE, g) \<longrightarrow> get_event_status i (add_event i f em) = ONGOING \<and>
       (\<exists>em'. pop_event i (add_event i f em) = Inr (em', g)))"
proof (intro conjI allI impI)
  have ok: "events_ok em" by (rule events_reachable_ok[OF assms])
  note e = event_of_iff[OF ok]
  show "map_of (em st) i = Some f \<longleftrightarrow> event_of em i = Some (st, f)" by (simp add: e)
  show "event_of (add_event i f em) = (event_of em)(i \<mapsto> (ONGOING, f))" if "event_of em i = None"
    by (rule event_of_add[OF ok that])
  show "case event_of em i of None \<Rightarrow> update_event_status i st em = Inl KeyError
     | Some (_, g) \<Rightarrow> \<exists>em'. update_event_status i st em = Inr em' \<and> event_of em' = (event_of em)(i \<mapsto> (st, g))"
  proof (cases "event_of em i")
    case None
    then have "status_of i em = None" by (simp add: event_of_None)
    then show ?thesis by (simp add: None update_event_status_def)
  next
    case (Some x)
    then show ?thesis using event_of_update[OF ok] by (cases x) simp
  qed
  have p: "pop_event i em = (case event_of em i of Some (DONE, g) \<Rightarrow> Inr (em(DONE := AList.delete i (em DONE)), g) | _ \<Rightarrow> Inl AssertionError)"
  proof (cases "map_of (em DONE) i")
    case None
    then have "event_of em i \<noteq> Some (DONE, g)" for g by (simp add: e)
    then show ?thesis using None by (auto simp: pop_event_def split: option.split event_status.split)
  next
    case (Some g)
    then have "event_of em i = Some (DONE, g)" by (simp add: e)
    then show ?thesis using Some by (simp add: pop_event_def)
  qed
  show "case event_of em i of
       Some (DONE, g) \<Rightarrow> \<exists>em'. pop_event i em = Inr (em', g) \<and> event_of em' = (event_of em)(i := None)
     | _ \<Rightarrow> pop_event i em = Inl AssertionError"
    unfolding p using event_of_delete[OF ok, of i DONE] by (auto split: option.split event_status.split)
  show "get_event_status i em = (case event_of em i of None \<Rightarrow> NOT_FOUND | Some (s, _) \<Rightarrow> s)"
    by (simp add: get_event_status_def event_of_def split: option.split)
  have "{j. \<exists>g. event_of em j = Some (st, g)} = {j. map_of (em st) j \<noteq> None}" by (auto simp: e)
  then show "get_events_count st em = card {j. \<exists>g. event_of em j = Some (st, g)}"
    using card_dom_od[OF events_ok_wf[OF ok, of st]] by (simp add: get_events_count_def)
  fix g assume "event_of em i = Some (DONE, g)"
  then have "map_of (em DONE) i = Some g" by (simp add: e)
  then show "get_event_status i (add_event i f em) = ONGOING" "\<exists>em'. pop_event i (add_event i f em) = Inr (em', g)"
    by (simp_all add: get_event_status_def status_of_def event_statuses_def add_event_def pop_event_def)
qed

theorem events_have_one_status_witness:
  "event_of (add_event ''a'' (1::nat) events_init) = [''a'' \<mapsto> (ONGOING, 1)] \<and>
   update_event_status ''b'' DONE (events_init :: nat event_manager) = Inl KeyError"
proof -
  have n: "event_of (events_init :: nat event_manager) = (\<lambda>i. None)"
    by (simp add: fun_eq_iff event_of_def status_of_def event_statuses_def events_init_def)
  show ?thesis using events_have_one_status[OF events_reachable.start, of DONE "''a''" "1::nat"]
      events_have_one_status[OF events_reachable.start, of DONE "''b''" "1::nat"] unfolding n by simp
qed

end
