(* ===== verification/Storage.thy ===== *)
theory Storage
  imports Events
begin

text \<open>
  The storage manager (\<open>v1/storage_backend/storage_manager.py\<close>) over the interface of a storage
  backend (\<open>abstract_backend.py\<close>). A backend is a record of its methods, functions on the state of
  the node; an allocator backend also has the methods of \<open>AllocatorBackendInterface\<close>. Memory objects
  are references; their methods that the manager calls are the record \<open>obj_ops\<close>. A call returns
  the state with a result, so that an exception carries what was done before it.
\<close>

declare map_of_eq_Some_iff [simp del] Some_eq_map_of_iff [simp del]

definition sr_bind :: "'s \<times> 'a result \<Rightarrow> ('a \<Rightarrow> 's \<Rightarrow> 's \<times> 'b result) \<Rightarrow> 's \<times> 'b result" where
  "sr_bind m f = (case m of (s, Inl e) \<Rightarrow> (s, Inl e) | (s, Inr x) \<Rightarrow> f x s)"

lemma sr_bind_simps [simp]:
  "sr_bind (s, Inl e) f = (s, Inl e)"
  "sr_bind (s, Inr x) f = f x s"
  by (simp_all add: sr_bind_def)

section \<open>The interface of a backend\<close>

record ('s, 'k, 'o, 'q) allocator =
  al_name :: string
  al_contains :: "'k \<Rightarrow> 's \<Rightarrow> 's \<times> bool result"
  al_allocate :: "'q \<Rightarrow> bool \<Rightarrow> bool \<Rightarrow> 's \<Rightarrow> 's \<times> 'o option result"
  al_batched_allocate :: "'q \<Rightarrow> nat \<Rightarrow> bool \<Rightarrow> bool \<Rightarrow> 's \<Rightarrow> 's \<times> 'o list option result"

record ('s, 'k, 'o, 'q) backend =
  be_contains :: "'k \<Rightarrow> bool \<Rightarrow> 's \<Rightarrow> 's \<times> bool result"
  be_batched_contains :: "'k list \<Rightarrow> bool \<Rightarrow> 's \<Rightarrow> 's \<times> nat result"
  be_get_blocking :: "'k \<Rightarrow> 's \<Rightarrow> 's \<times> 'o option result"
  be_batched_get_blocking :: "'k list \<Rightarrow> 's \<Rightarrow> 's \<times> 'o option list result"
  be_submit_put_task :: "'k \<Rightarrow> 'o \<Rightarrow> 's \<Rightarrow> 's \<times> unit result"
  be_batched_submit_put_task :: "'k list \<Rightarrow> 'o list \<Rightarrow> 's \<Rightarrow> 's \<times> unit result"
  be_batched_async_contains :: "'k list \<Rightarrow> bool \<Rightarrow> 's \<Rightarrow> 's \<times> nat result"
  be_batched_get_non_blocking :: "'k list \<Rightarrow> 's \<Rightarrow> 's \<times> 'o list result"
  be_remove :: "'k \<Rightarrow> 's \<Rightarrow> 's \<times> bool result"
  be_batched_remove :: "'k list \<Rightarrow> 's \<Rightarrow> 's \<times> nat result"
  be_unpin :: "'k \<Rightarrow> 's \<Rightarrow> 's \<times> bool result"
  be_touch_cache :: "'s \<Rightarrow> 's \<times> unit result"
  be_clear :: "('s \<Rightarrow> 's \<times> int result) option"
  be_memcheck :: "('s \<Rightarrow> bool) option"
  be_allocator :: "('s, 'k, 'o, 'q) allocator result"

text \<open>What every backend inherits: the batched calls as loops over the single ones.\<close>

fun default_batched_contains :: "('k \<Rightarrow> bool \<Rightarrow> 's \<Rightarrow> 's \<times> bool result) \<Rightarrow> 'k list \<Rightarrow> bool \<Rightarrow> nat \<Rightarrow> 's \<Rightarrow> 's \<times> nat result" where
  "default_batched_contains ex [] pin hit_chunks s = (s, Inr hit_chunks)"
| "default_batched_contains ex (key # keys) pin hit_chunks s =
     sr_bind (ex key pin s) (\<lambda>b s.
       if \<not> b then (s, Inr hit_chunks) else default_batched_contains ex keys pin (hit_chunks + 1) s)"

fun default_batched_get :: "('k \<Rightarrow> 's \<Rightarrow> 's \<times> 'o option result) \<Rightarrow> 'k list \<Rightarrow> 'o option list \<Rightarrow> 's \<Rightarrow> 's \<times> 'o option list result" where
  "default_batched_get get [] mem_objs s = (s, Inr mem_objs)"
| "default_batched_get get (key # keys) mem_objs s =
     sr_bind (get key s) (\<lambda>m s. default_batched_get get keys (mem_objs @ [m]) s)"

fun default_batched_remove :: "('k \<Rightarrow> 's \<Rightarrow> 's \<times> bool result) \<Rightarrow> 'k list \<Rightarrow> nat \<Rightarrow> 's \<Rightarrow> 's \<times> nat result" where
  "default_batched_remove rm [] num_removed s = (s, Inr num_removed)"
| "default_batched_remove rm (key # keys) num_removed s =
     sr_bind (rm key s) (\<lambda>b s. default_batched_remove rm keys (num_removed + (if b then 1 else 0)) s)"

record ('s, 'o, 'q) obj_ops =
  oo_ref_count_down :: "'o \<Rightarrow> 's \<Rightarrow> 's"
  oo_request :: "'o \<Rightarrow> 's \<Rightarrow> 'q"
  oo_has_tensor :: "'o \<Rightarrow> 's \<Rightarrow> bool"
  oo_copy :: "'o \<Rightarrow> 'o \<Rightarrow> 's \<Rightarrow> 's"
  oo_size :: "'o \<Rightarrow> 's \<Rightarrow> int"

record ('s, 'k, 'o, 'q) storage_manager =
  sm_backends :: "(string, ('s, 'k, 'o, 'q) backend) odict"
  sm_allocator :: "('s, 'k, 'o, 'q) allocator option"
  sm_freeze :: bool
  sm_bypassed :: "string set"
  sm_ops :: "('s, 'o, 'q) obj_ops"

definition local_cpu :: string where "local_cpu = ''LocalCPUBackend''"
definition pd_backend :: string where "pd_backend = ''PDBackend''"

text \<open>\<open>__init__\<close>: no allocator for the scheduler; otherwise the backend named by the configuration.\<close>

definition sm_init ::
  "(string, ('s, 'k, 'o, 'q) backend) odict \<Rightarrow> bool \<Rightarrow> bool \<Rightarrow> ('s, 'o, 'q) obj_ops
    \<Rightarrow> ('s, 'k, 'o, 'q) storage_manager result" where
  "sm_init backends enable_pd scheduler ops =
     (let mk = (\<lambda>a. \<lparr> sm_backends = backends, sm_allocator = a, sm_freeze = False, sm_bypassed = {}, sm_ops = ops \<rparr>)
      in if scheduler then Inr (mk None)
         else case map_of backends (if enable_pd then pd_backend else local_cpu) of
                None \<Rightarrow> Inl KeyError
              | Some b \<Rightarrow> (case be_allocator b of Inl e \<Rightarrow> Inl e | Inr a \<Rightarrow> Inr (mk (Some a))))"

definition set_freeze :: "bool \<Rightarrow> ('s, 'k, 'o, 'q) storage_manager \<Rightarrow> ('s, 'k, 'o, 'q) storage_manager" where
  "set_freeze enabled sm = sm\<lparr>sm_freeze := enabled\<rparr>"

definition set_backend_bypass :: "string \<Rightarrow> bool \<Rightarrow> ('s, 'k, 'o, 'q) storage_manager \<Rightarrow> ('s, 'k, 'o, 'q) storage_manager" where
  "set_backend_bypass name bypassed sm =
     sm\<lparr>sm_bypassed := (if bypassed then insert name (sm_bypassed sm) else sm_bypassed sm - {name})\<rparr>"

definition is_backend_bypassed :: "string \<Rightarrow> ('s, 'k, 'o, 'q) storage_manager \<Rightarrow> bool" where
  "is_backend_bypassed name sm \<longleftrightarrow> name \<in> sm_bypassed sm"

text \<open>An empty location or search range is no restriction.\<close>

definition backend_active :: "string option \<Rightarrow> string list option \<Rightarrow> ('s, 'k, 'o, 'q) storage_manager \<Rightarrow> string \<Rightarrow> bool" where
  "backend_active location search_range sm name \<longleftrightarrow>
     \<not> (sm_freeze sm \<and> name \<noteq> local_cpu) \<and> name \<notin> sm_bypassed sm \<and>
     \<not> (location \<noteq> None \<and> location \<noteq> Some [] \<and> location \<noteq> Some name) \<and>
     \<not> (search_range \<noteq> None \<and> search_range \<noteq> Some [] \<and> name \<notin> set (the search_range))"

definition get_active_storage_backends ::
  "string option \<Rightarrow> string list option \<Rightarrow> ('s, 'k, 'o, 'q) storage_manager \<Rightarrow> (string \<times> ('s, 'k, 'o, 'q) backend) list" where
  "get_active_storage_backends location search_range sm =
     filter (\<lambda>(name, b). backend_active location search_range sm name) (sm_backends sm)"

definition get_non_allocator_backends :: "bool \<Rightarrow> bool \<Rightarrow> ('s, 'k, 'o, 'q) storage_manager \<Rightarrow> string list" where
  "get_non_allocator_backends use_local_cpu pd_sender sm =
     filter (\<lambda>name. \<not> (name = local_cpu \<and> \<not> use_local_cpu) \<and> \<not> (name = pd_backend \<and> pd_sender)) (od_keys (sm_backends sm))"

section \<open>Allocating and storing\<close>

definition sm_allocate :: "'q \<Rightarrow> bool \<Rightarrow> bool \<Rightarrow> ('s, 'k, 'o, 'q) storage_manager \<Rightarrow> 's \<Rightarrow> 's \<times> 'o option result" where
  "sm_allocate q eviction busy_loop sm s =
     (case sm_allocator sm of None \<Rightarrow> (s, Inl AssertionError) | Some a \<Rightarrow> al_allocate a q eviction busy_loop s)"

definition sm_batched_allocate ::
  "'q \<Rightarrow> nat \<Rightarrow> bool \<Rightarrow> bool \<Rightarrow> ('s, 'k, 'o, 'q) storage_manager \<Rightarrow> 's \<Rightarrow> 's \<times> 'o list option result" where
  "sm_batched_allocate q batch_size eviction busy_loop sm s =
     (case sm_allocator sm of None \<Rightarrow> (s, Inl RuntimeError) | Some a \<Rightarrow> al_batched_allocate a q batch_size eviction busy_loop s)"

fun copy_loop ::
  "('s, 'o, 'q) obj_ops \<Rightarrow> ('s, 'k, 'o, 'q) allocator \<Rightarrow> 'k list \<Rightarrow> 'o list \<Rightarrow> 'o list \<Rightarrow> 's \<Rightarrow> 's \<times> 'o list result" where
  "copy_loop ops a (key # keys) (src # srcs) allocated_objects s =
     sr_bind (al_contains a key s) (\<lambda>c s.
       if c then copy_loop ops a keys srcs allocated_objects s
       else sr_bind (al_allocate a (oo_request ops src s) True False s) (\<lambda>m s.
              case m of
                None \<Rightarrow> (s, Inr allocated_objects)
              | Some ob \<Rightarrow>
                  if \<not> oo_has_tensor ops ob s then (oo_ref_count_down ops ob s, Inr allocated_objects)
                  else copy_loop ops a keys srcs (allocated_objects @ [ob]) (oo_copy ops ob src s)))"
| "copy_loop ops a _ _ allocated_objects s = (s, Inr allocated_objects)"

definition allocate_and_copy_objects ::
  "('s, 'o, 'q) obj_ops \<Rightarrow> ('s, 'k, 'o, 'q) allocator \<Rightarrow> 'k list \<Rightarrow> 'o list \<Rightarrow> 's \<Rightarrow> 's \<times> ('k list \<times> 'o list) result" where
  "allocate_and_copy_objects ops a keys src_memory_objs s =
     sr_bind (copy_loop ops a keys src_memory_objs [] s) (\<lambda>objs s. (s, Inr (take (length objs) keys, objs)))"

fun put_loop ::
  "('s, 'o, 'q) obj_ops \<Rightarrow> (string \<Rightarrow> bool) \<Rightarrow> 'k list \<Rightarrow> 'o list \<Rightarrow> (string \<times> ('s, 'k, 'o, 'q) backend) list
    \<Rightarrow> (string, 'k list \<times> 'o list) odict \<Rightarrow> 's \<Rightarrow> 's \<times> (string, 'k list \<times> 'o list) odict result" where
  "put_loop ops skip keys objs [] obj_dict s = (s, Inr obj_dict)"
| "put_loop ops skip keys objs ((name, b) # bs) obj_dict s =
     (if skip name then put_loop ops skip keys objs bs obj_dict s
      else case be_allocator b of
             Inl e \<Rightarrow> (s, Inl e)
           | Inr a \<Rightarrow>
               sr_bind (case map_of obj_dict (al_name a) of
                          Some x \<Rightarrow> (s, Inr (x, obj_dict))
                        | None \<Rightarrow> sr_bind (allocate_and_copy_objects ops a keys objs s)
                                    (\<lambda>x s. (s, Inr (x, AList.update (al_name a) x obj_dict))))
                 (\<lambda>((ks, os), obj_dict) s.
                    sr_bind (be_batched_submit_put_task b ks os s) (\<lambda>_ s. put_loop ops skip keys objs bs obj_dict s)))"

definition sm_batched_put ::
  "'k list \<Rightarrow> 'o list \<Rightarrow> string option \<Rightarrow> ('s, 'k, 'o, 'q) storage_manager \<Rightarrow> 's \<Rightarrow> 's \<times> unit result" where
  "sm_batched_put keys memory_objs location sm s =
     (case sm_allocator sm of
        None \<Rightarrow> (s, Inl RuntimeError)
      | Some a \<Rightarrow>
          sr_bind (put_loop (sm_ops sm)
              (\<lambda>name. location \<noteq> None \<and> location \<noteq> Some [] \<and> location \<noteq> Some name \<or> name \<in> sm_bypassed sm)
              keys memory_objs (sm_backends sm) [(al_name a, (keys, memory_objs))] s)
            (\<lambda>obj_dict s. (fold (\<lambda>(cname, (ks, os)). fold (oo_ref_count_down (sm_ops sm)) os) obj_dict s, Inr ())))"

section \<open>Retrieving\<close>

definition write_back :: "string \<Rightarrow> ('s, 'k, 'o, 'q) storage_manager \<Rightarrow> ('s, 'k, 'o, 'q) backend option" where
  "write_back name sm = (if name \<notin> {local_cpu, pd_backend} then map_of (sm_backends sm) local_cpu else None)"

fun get_loop ::
  "('s, 'k, 'o, 'q) storage_manager \<Rightarrow> (string \<times> ('s, 'k, 'o, 'q) backend) list \<Rightarrow> 'k \<Rightarrow> 's \<Rightarrow> 's \<times> 'o option result" where
  "get_loop sm [] key s = (s, Inr None)"
| "get_loop sm ((name, b) # bs) key s =
     sr_bind (be_get_blocking b key s) (\<lambda>m s.
       case m of
         None \<Rightarrow> get_loop sm bs key s
       | Some ob \<Rightarrow>
           (case write_back name sm of
              None \<Rightarrow> (s, Inr (Some ob))
            | Some cpu \<Rightarrow> sr_bind (be_submit_put_task cpu key ob s) (\<lambda>_ s. (s, Inr (Some ob)))))"

definition sm_get :: "'k \<Rightarrow> string option \<Rightarrow> ('s, 'k, 'o, 'q) storage_manager \<Rightarrow> 's \<Rightarrow> 's \<times> 'o option result" where
  "sm_get key location sm s = get_loop sm (get_active_storage_backends location None sm) key s"

fun batched_get_loop ::
  "('s, 'k, 'o, 'q) storage_manager \<Rightarrow> (string \<times> ('s, 'k, 'o, 'q) backend) list \<Rightarrow> 'k list \<Rightarrow> 's \<Rightarrow> 's \<times> 'o option list result" where
  "batched_get_loop sm [] keys s = (s, Inr (replicate (length keys) None))"
| "batched_get_loop sm ((name, b) # bs) keys s =
     sr_bind (be_batched_get_blocking b keys s) (\<lambda>memory_objs s.
       if memory_objs = [] then batched_get_loop sm bs keys s
       else case write_back name sm of
              None \<Rightarrow> (s, Inr memory_objs)
            | Some cpu \<Rightarrow>
                if None \<in> set memory_objs then (s, Inr memory_objs)
                else sr_bind (be_batched_submit_put_task cpu keys (map the memory_objs) s) (\<lambda>_ s. (s, Inr memory_objs)))"

definition sm_batched_get ::
  "'k list \<Rightarrow> string option \<Rightarrow> ('s, 'k, 'o, 'q) storage_manager \<Rightarrow> 's \<Rightarrow> 's \<times> 'o option list result" where
  "sm_batched_get keys location sm s = batched_get_loop sm (get_active_storage_backends location None sm) keys s"

text \<open>One layer of \<open>layerwise_batched_get\<close>: what the future of the layer gives.\<close>

definition layerwise_batched_get ::
  "'k list \<Rightarrow> string option \<Rightarrow> ('s, 'k, 'o, 'q) storage_manager \<Rightarrow> 's \<Rightarrow> 's \<times> 'o list result" where
  "layerwise_batched_get keys_multi_chunk location sm s =
     (case map_of (sm_backends sm) (case location of None \<Rightarrow> local_cpu | Some l \<Rightarrow> l) of
        None \<Rightarrow> (s, Inl KeyError)
      | Some b \<Rightarrow> be_batched_get_non_blocking b keys_multi_chunk s)"

section \<open>Looking up\<close>

definition pin_in_backend :: "bool \<Rightarrow> string \<Rightarrow> bool" where
  "pin_in_backend pin name = (if name \<noteq> pd_backend then pin else False)"

fun contains_loop :: "(string \<times> ('s, 'k, 'o, 'q) backend) list \<Rightarrow> 'k \<Rightarrow> bool \<Rightarrow> 's \<Rightarrow> 's \<times> string option result" where
  "contains_loop [] key pin s = (s, Inr None)"
| "contains_loop ((name, b) # bs) key pin s =
     sr_bind (be_contains b key (pin_in_backend pin name) s) (\<lambda>found s.
       if found then (s, Inr (Some name)) else contains_loop bs key pin s)"

definition sm_contains ::
  "'k \<Rightarrow> string list option \<Rightarrow> bool \<Rightarrow> ('s, 'k, 'o, 'q) storage_manager \<Rightarrow> 's \<Rightarrow> 's \<times> string option result" where
  "sm_contains key search_range pin sm s = contains_loop (get_active_storage_backends None search_range sm) key pin s"

text \<open>\<open>batched_contains\<close> and \<open>get_block_mapping\<close> go through the backends once: each takes the longest
  prefix of the keys the ones before it left. \<open>hits\<close> is the number of keys taken so far.\<close>

fun batched_contains_loop ::
  "(string \<times> ('s, 'k, 'o, 'q) backend) list \<Rightarrow> 'k list \<Rightarrow> bool \<Rightarrow> nat \<Rightarrow> nat \<Rightarrow> (string, 'k list) odict \<Rightarrow> 's
    \<Rightarrow> 's \<times> (nat \<times> (string, 'k list) odict) result" where
  "batched_contains_loop [] keys pin total_keys hits block_mapping s = (s, Inr (hits, block_mapping))"
| "batched_contains_loop ((name, b) # bs) keys pin total_keys hits block_mapping s =
     sr_bind (be_batched_contains b keys (pin_in_backend pin name) s) (\<lambda>hit_chunks s.
       if hit_chunks = 0 then batched_contains_loop bs keys pin total_keys hits block_mapping s
       else (let block_mapping = AList.update name (take hit_chunks keys) block_mapping; hits = hits + hit_chunks
             in if hits = total_keys then (s, Inr (hits, block_mapping))
                else batched_contains_loop bs (drop hit_chunks keys) pin total_keys hits block_mapping s))"

definition sm_batched_contains ::
  "'k list \<Rightarrow> string list option \<Rightarrow> bool \<Rightarrow> ('s, 'k, 'o, 'q) storage_manager \<Rightarrow> 's
    \<Rightarrow> 's \<times> (nat \<times> (string, 'k list) odict) result" where
  "sm_batched_contains keys search_range pin sm s =
     batched_contains_loop (get_active_storage_backends None search_range sm) keys pin (length keys) 0 [] s"

fun block_mapping_loop ::
  "(string \<times> ('s, 'k, 'o, 'q) backend) list \<Rightarrow> ('k \<times> int \<times> int) list \<Rightarrow> 'k list \<Rightarrow> nat \<Rightarrow> (string, ('k \<times> int \<times> int) list) odict
    \<Rightarrow> 's \<Rightarrow> 's \<times> (string, ('k \<times> int \<times> int) list) odict result" where
  "block_mapping_loop [] chunk_infos keys total_hit_chunks block_mapping s = (s, Inr block_mapping)"
| "block_mapping_loop ((name, b) # bs) chunk_infos keys total_hit_chunks block_mapping s =
     sr_bind (be_batched_contains b keys False s) (\<lambda>hit_chunks s.
       if hit_chunks = 0 then block_mapping_loop bs chunk_infos keys total_hit_chunks block_mapping s
       else (let block_mapping = AList.update name (take hit_chunks (drop total_hit_chunks chunk_infos)) block_mapping;
                 total_hit_chunks = total_hit_chunks + hit_chunks
             in if total_hit_chunks = length chunk_infos then (s, Inr block_mapping)
                else block_mapping_loop bs chunk_infos (drop hit_chunks keys) total_hit_chunks block_mapping s))"

definition sm_get_block_mapping ::
  "('k \<times> int \<times> int) list \<Rightarrow> ('s, 'k, 'o, 'q) storage_manager \<Rightarrow> 's \<Rightarrow> 's \<times> (string, ('k \<times> int \<times> int) list) odict result" where
  "sm_get_block_mapping chunk_infos sm s =
     block_mapping_loop (get_active_storage_backends None None sm) chunk_infos (map fst chunk_infos) 0 [] s"

section \<open>Removing, unpinning, clearing\<close>

fun each_backend ::
  "(string \<Rightarrow> ('s, 'k, 'o, 'q) backend \<Rightarrow> 's \<Rightarrow> 's \<times> int result) \<Rightarrow> (string \<times> ('s, 'k, 'o, 'q) backend) list \<Rightarrow> int \<Rightarrow> 's
    \<Rightarrow> 's \<times> int result" where
  "each_backend f [] n s = (s, Inr n)"
| "each_backend f ((name, b) # bs) n s = sr_bind (f name b s) (\<lambda>m s. each_backend f bs (n + m) s)"

definition at_locations :: "string list option \<Rightarrow> string \<Rightarrow> bool" where
  "at_locations locations name \<longleftrightarrow> locations = None \<or> name \<in> set (the locations)"

definition sm_remove :: "'k \<Rightarrow> string list option \<Rightarrow> ('s, 'k, 'o, 'q) storage_manager \<Rightarrow> 's \<Rightarrow> 's \<times> int result" where
  "sm_remove key locations sm s =
     each_backend (\<lambda>name b s. if at_locations locations name
         then sr_bind (be_remove b key s) (\<lambda>r s. (s, Inr (if r then 1 else 0))) else (s, Inr 0)) (sm_backends sm) 0 s"

definition sm_batched_remove :: "'k list \<Rightarrow> string list option \<Rightarrow> ('s, 'k, 'o, 'q) storage_manager \<Rightarrow> 's \<Rightarrow> 's \<times> int result" where
  "sm_batched_remove keys locations sm s =
     each_backend (\<lambda>name b s. if at_locations locations name
         then sr_bind (be_batched_remove b keys s) (\<lambda>r s. (s, Inr (int r))) else (s, Inr 0)) (sm_backends sm) 0 s"

fun unpin_keys :: "('k \<Rightarrow> 's \<Rightarrow> 's \<times> bool result) \<Rightarrow> 'k list \<Rightarrow> 's \<Rightarrow> 's \<times> int result" where
  "unpin_keys f [] s = (s, Inr 0)"
| "unpin_keys f (key # keys) s = sr_bind (f key s) (\<lambda>_ s. unpin_keys f keys s)"

definition sm_batched_unpin :: "'k list \<Rightarrow> string list option \<Rightarrow> ('s, 'k, 'o, 'q) storage_manager \<Rightarrow> 's \<Rightarrow> 's \<times> int result" where
  "sm_batched_unpin keys locations sm s =
     each_backend (\<lambda>name b s. if at_locations locations name then unpin_keys (be_unpin b) keys s else (s, Inr 0)) (sm_backends sm) 0 s"

definition sm_touch_cache :: "('s, 'k, 'o, 'q) storage_manager \<Rightarrow> 's \<Rightarrow> 's \<times> int result" where
  "sm_touch_cache sm s =
     each_backend (\<lambda>name b s. if name = local_cpu \<or> name = ''LocalDiskBackend''
         then sr_bind (be_touch_cache b s) (\<lambda>_ s. (s, Inr 0)) else (s, Inr 0)) (sm_backends sm) 0 s"

definition sm_clear :: "string list option \<Rightarrow> ('s, 'k, 'o, 'q) storage_manager \<Rightarrow> 's \<Rightarrow> 's \<times> int result" where
  "sm_clear locations sm s =
     each_backend (\<lambda>name b s. if at_locations locations name
         then (case be_clear b of None \<Rightarrow> (s, Inr 0) | Some f \<Rightarrow> f s) else (s, Inr 0)) (sm_backends sm) 0 s"

definition sm_memcheck :: "('s, 'k, 'o, 'q) storage_manager \<Rightarrow> 's \<Rightarrow> bool" where
  "sm_memcheck sm s \<longleftrightarrow> list_all (\<lambda>(name, b). case be_memcheck b of None \<Rightarrow> True | Some f \<Rightarrow> f s) (sm_backends sm)"

section \<open>Splitting keys over tiers\<close>

text \<open>The reference: each tier takes the longest prefix it stores of what the tiers before left.\<close>

fun tier_split :: "(string \<Rightarrow> 'a \<Rightarrow> bool) \<Rightarrow> string list \<Rightarrow> 'a list \<Rightarrow> (string \<times> 'a list) list" where
  "tier_split st [] xs = []"
| "tier_split st (name # names) xs =
     (let p = takeWhile (st name) xs
      in if p = [] then tier_split st names xs else (name, p) # tier_split st names (drop (length p) xs))"

abbreviation split_hits :: "(string \<times> 'a list) list \<Rightarrow> nat" where
  "split_hits sp \<equiv> length (concat (map snd sp))"

lemma tier_split_Nil [simp]: "tier_split st names [] = []"
  by (induction names) simp_all

lemma takeWhile_is_take: "takeWhile P xs = take (length (takeWhile P xs)) xs"
  by (metis append_eq_conv_conj takeWhile_dropWhile_id)

lemma tier_split_concat: "concat (map snd (tier_split st names xs)) = take (split_hits (tier_split st names xs)) xs"
proof (induction st names xs rule: tier_split.induct)
  case (2 st name names xs)
  let ?p = "takeWhile (st name) xs"
  show ?case
  proof (cases "?p = []")
    case False
    have "take (length ?p + n) xs = ?p @ take n (drop (length ?p) xs)" for n
      by (metis takeWhile_is_take take_add)
    then show ?thesis using False 2(2)[OF refl False] by (simp add: Let_def)
  qed (use 2(1) in \<open>simp add: Let_def\<close>)
qed simp

lemma tier_split_hits_le: "split_hits (tier_split st names xs) \<le> length xs"
  using tier_split_concat[of st names xs] by (metis length_take min.cobounded1)

lemma tier_split_names: "fst ` set (tier_split st names xs) \<subseteq> set names"
proof (induction st names xs rule: tier_split.induct)
  case (2 st name names xs)
  then show ?case by (cases "takeWhile (st name) xs = []") (auto simp: Let_def)
qed simp

lemma tier_split_distinct: "distinct names \<Longrightarrow> distinct (map fst (tier_split st names xs))"
proof (induction st names xs rule: tier_split.induct)
  case (2 st name names xs)
  then show ?case using tier_split_names[of st names] by (auto simp: Let_def)
qed simp

lemma tier_split_stored:
  "(name, ks) \<in> set (tier_split st names xs) \<Longrightarrow> name \<in> set names \<and> ks \<noteq> [] \<and> (\<forall>k \<in> set ks. st name k)"
proof (induction st names xs rule: tier_split.induct)
  case (2 st n names xs)
  then show ?case by (cases "takeWhile (st n) xs = []") (auto simp: Let_def dest: set_takeWhileD)
qed simp

lemma tier_split_next:
  assumes "split_hits (tier_split st names xs) < length xs" and "names \<noteq> []"
  shows "\<not> st (last names) (xs ! split_hits (tier_split st names xs))"
  using assms
proof (induction st names xs rule: tier_split.induct)
  case (2 st name names xs)
  let ?p = "takeWhile (st name) xs"
  show ?case
  proof (cases "names = []")
    case True
    have "\<not> st name (xs ! length ?p)" if "length ?p < length xs" using nth_length_takeWhile[OF that] .
    then show ?thesis using 2(3) True by (auto simp: Let_def split: if_splits)
  next
    case ne: False
    show ?thesis
    proof (cases "?p = []")
      case True
      then show ?thesis using 2(1)[OF refl True _ ne] 2(3) ne by (simp add: Let_def)
    next
      case False
      have "length ?p \<le> length xs" by (rule length_takeWhile_le)
      then show ?thesis using 2(2)[OF refl False _ ne] 2(3) ne False by (simp add: Let_def)
    qed
  qed
qed simp

lemma tier_split_map: "tier_split st names (map f xs) = map (\<lambda>(n, ys). (n, map f ys)) (tier_split (\<lambda>n x. st n (f x)) names xs)"
proof (induction "\<lambda>n x. st n (f x)" names xs rule: tier_split.induct)
  case (2 name names xs)
  have p: "takeWhile (st name) (map f xs) = map f (takeWhile (\<lambda>x. st name (f x)) xs)" by (simp add: takeWhile_map comp_def)
  show ?case
  proof (cases "takeWhile (\<lambda>x. st name (f x)) xs = []")
    case False
    then show ?thesis using 2(2)[OF refl False] p by (simp add: Let_def drop_map)
  qed (use 2(1) p in \<open>simp add: Let_def\<close>)
qed simp

lemma update_append_new: "k \<notin> set (od_keys d) \<Longrightarrow> AList.update k v d = d @ [(k, v)]"
  by (induction d) auto

text \<open>What the manager relies on: a backend answers a batched lookup with the length of the longest
  prefix it stores, and a lookup changes neither what is stored nor the invariant of the node.\<close>

locale storage_tiers =
  fixes tiers :: "(string \<times> ('s, 'k, 'o, 'q) backend) list"
    and inv :: "'s \<Rightarrow> bool"
    and stored :: "'s \<Rightarrow> string \<Rightarrow> 'k \<Rightarrow> bool"
  assumes tiers_distinct: "distinct (map fst tiers)"
    and tier_contains: "(name, b) \<in> set tiers \<Longrightarrow> inv s \<Longrightarrow>
      \<exists>s'. be_batched_contains b keys pin s = (s', Inr (length (takeWhile (stored s name) keys))) \<and> inv s' \<and> stored s' = stored s"
begin

lemma contains_loop_split:
  assumes "set bs \<subseteq> set tiers" and "distinct (map fst bs)" and "fst ` set bs \<inter> set (od_keys bm) = {}" and "inv s"
    and "total_keys = hits + length keys"
  shows "\<exists>s'. batched_contains_loop bs keys pin total_keys hits bm s =
     (s', Inr (hits + split_hits (tier_split (stored s) (map fst bs) keys), bm @ tier_split (stored s) (map fst bs) keys)) \<and>
     inv s' \<and> stored s' = stored s"
  using assms
proof (induction bs arbitrary: keys hits bm s)
  case (Cons nb bs)
  obtain name b where nb: "nb = (name, b)" by (cases nb)
  let ?p = "takeWhile (stored s name) keys"
  obtain s1 where s1: "be_batched_contains b keys (pin_in_backend pin name) s = (s1, Inr (length ?p))" "inv s1" "stored s1 = stored s"
    using tier_contains Cons.prems(1,4) nb by fastforce
  have bs: "set bs \<subseteq> set tiers" "distinct (map fst bs)" using Cons.prems(1,2) by auto
  show ?case
  proof (cases "?p = []")
    case True
    have "fst ` set bs \<inter> set (od_keys bm) = {}" using Cons.prems(3) by auto
    from Cons.IH[OF bs this s1(2) Cons.prems(5)] show ?thesis using True s1 nb by simp
  next
    case False
    have up: "AList.update name (take (length ?p) keys) bm = bm @ [(name, ?p)]"
      using Cons.prems(3) nb takeWhile_is_take[of "stored s name" keys] by (subst update_append_new) auto
    have dis: "fst ` set bs \<inter> set (od_keys (bm @ [(name, ?p)])) = {}" using Cons.prems(2,3) nb by force
    have le: "length ?p \<le> length keys" by (rule length_takeWhile_le)
    have t: "total_keys = (hits + length ?p) + length (drop (length ?p) keys)" using Cons.prems(5) le by simp
    from Cons.IH[OF bs dis s1(2) t] obtain s' where ih: "batched_contains_loop bs (drop (length ?p) keys) pin total_keys (hits + length ?p)
        (bm @ [(name, ?p)]) s1 = (s', Inr (hits + length ?p + split_hits (tier_split (stored s) (map fst bs) (drop (length ?p) keys)),
        bm @ [(name, ?p)] @ tier_split (stored s) (map fst bs) (drop (length ?p) keys)))" "inv s'" "stored s' = stored s"
      using s1(3) by auto
    have sp: "tier_split (stored s) (map fst (nb # bs)) keys = (name, ?p) # tier_split (stored s) (map fst bs) (drop (length ?p) keys)"
      using False nb by (simp add: Let_def)
    show ?thesis
    proof (cases "hits + length ?p = total_keys")
      case True
      then have "drop (length ?p) keys = []" using Cons.prems(5) by simp
      then show ?thesis using True False s1 nb up by (simp add: Let_def)
    next
      case f: False
      have "batched_contains_loop (nb # bs) keys pin total_keys hits bm s
          = batched_contains_loop bs (drop (length ?p) keys) pin total_keys (hits + length ?p) (bm @ [(name, ?p)]) s1"
        using f False s1 nb up by (simp add: Let_def)
      then show ?thesis unfolding sp using ih by (simp add: add.assoc)
    qed
  qed
qed simp

lemma mapping_loop_split:
  assumes "set bs \<subseteq> set tiers" and "distinct (map fst bs)" and "fst ` set bs \<inter> set (od_keys bm) = {}" and "inv s"
    and "hits \<le> length chunk_infos" and "keys = map fst (drop hits chunk_infos)"
  shows "\<exists>s'. block_mapping_loop bs chunk_infos keys hits bm s =
     (s', Inr (bm @ tier_split (\<lambda>n c. stored s n (fst c)) (map fst bs) (drop hits chunk_infos))) \<and> inv s' \<and> stored s' = stored s"
  using assms
proof (induction bs arbitrary: keys hits bm s)
  case (Cons nb bs)
  obtain name b where nb: "nb = (name, b)" by (cases nb)
  let ?cs = "drop hits chunk_infos"
  let ?p = "takeWhile (\<lambda>c. stored s name (fst c)) ?cs"
  have lp: "length (takeWhile (stored s name) keys) = length ?p" using Cons.prems(6) by (simp add: takeWhile_map comp_def)
  obtain s1 where s1: "be_batched_contains b keys False s = (s1, Inr (length ?p))" "inv s1" "stored s1 = stored s"
    using tier_contains[of name b s keys False] Cons.prems(1,4) nb lp by auto
  have bs: "set bs \<subseteq> set tiers" "distinct (map fst bs)" using Cons.prems(1,2) by auto
  show ?case
  proof (cases "?p = []")
    case True
    have "fst ` set bs \<inter> set (od_keys bm) = {}" using Cons.prems(3) by auto
    from Cons.IH[OF bs this s1(2) Cons.prems(5,6)] show ?thesis using True s1 nb by simp
  next
    case False
    have tp: "take (length ?p) ?cs = ?p" using takeWhile_is_take[of "\<lambda>c. stored s name (fst c)" ?cs] by simp
    have up: "AList.update name (take (length ?p) ?cs) bm = bm @ [(name, ?p)]"
      unfolding tp using Cons.prems(3) nb by (subst update_append_new) auto
    have dis: "fst ` set bs \<inter> set (od_keys (bm @ [(name, ?p)])) = {}" using Cons.prems(2,3) nb by force
    have "length ?p \<le> length ?cs" by (rule length_takeWhile_le)
    then have t: "hits + length ?p \<le> length chunk_infos" using Cons.prems(5) by simp
    have k: "drop (length ?p) keys = map fst (drop (hits + length ?p) chunk_infos)"
      using Cons.prems(6) by (simp add: drop_map add.commute)
    from Cons.IH[OF bs dis s1(2) t k] obtain s' where ih: "block_mapping_loop bs chunk_infos (drop (length ?p) keys) (hits + length ?p)
        (bm @ [(name, ?p)]) s1 = (s', Inr (bm @ [(name, ?p)] @ tier_split (\<lambda>n c. stored s n (fst c)) (map fst bs)
           (drop (hits + length ?p) chunk_infos)))" "inv s'" "stored s' = stored s"
      using s1(3) by auto
    have sp: "tier_split (\<lambda>n c. stored s n (fst c)) (map fst (nb # bs)) ?cs
        = (name, ?p) # tier_split (\<lambda>n c. stored s n (fst c)) (map fst bs) (drop (hits + length ?p) chunk_infos)"
      using False nb by (simp add: Let_def add.commute)
    show ?thesis
    proof (cases "hits + length ?p = length chunk_infos")
      case True
      then show ?thesis using True False s1 nb up sp by (simp add: Let_def)
    next
      case f: False
      have "block_mapping_loop (nb # bs) chunk_infos keys hits bm s
          = block_mapping_loop bs chunk_infos (drop (length ?p) keys) (hits + length ?p) (bm @ [(name, ?p)]) s1"
        using f False s1 nb up by (simp add: Let_def)
      then show ?thesis unfolding sp using ih by simp
    qed
  qed
qed simp

end

end
