(* ===== verification/Engine.thy ===== *)
theory Engine
  imports Storage
begin

text \<open>
  The cache engine (\<open>v1/cache_engine.py\<close>): \<open>store\<close>, \<open>retrieve\<close>, \<open>lookup\<close> with its pins, \<open>clear\<close>, \<open>move\<close>,
  \<open>compress\<close> and \<open>decompress\<close>, and the release of prefetched objects. The engine's own state is the
  table of pinned lookups, the store events and the event manager; everything below it (the storage
  manager's world) is one state \<open>en_world\<close>. What is fixed after construction is the record
  \<open>engine_env\<close>: the flags, the token database (\<open>ee_process\<close>: what the generator yields and the exception
  that ends it), the shape of a request for some tokens, and the GPU connector. A rank that only
  receives (\<open>_is_passive\<close>) gets its chunks from the broadcast of the first rank, \<open>ee_received\<close>.
\<close>

declare map_of_eq_Some_iff [simp del] Some_eq_map_of_iff [simp del]

type_synonym 'k chunk_info = "'k \<times> int \<times> int"

record ('h, 't) store_event =
  se_block_hash :: 'h
  se_parent_block_hash :: "'h option"
  se_token_ids :: "('t + 'h) list"
  se_block_size :: int

text \<open>The arguments that name the tokens.\<close>

record ('t, 'h) token_args =
  ta_tokens :: "'t list option"
  ta_hashes :: "'h list option"
  ta_offsets :: "int list option"
  ta_mask :: "bool list option"

record ('s, 'k, 'o, 'q, 't, 'h) engine_env =
  ee_healthy :: bool
  ee_has_gpu :: bool
  ee_save_only_first_rank :: bool
  ee_first_rank :: bool
  ee_received :: "('o \<times> int \<times> int) list"
  ee_kv_events_enabled :: bool
  ee_force_store_wait :: bool
  ee_use_layerwise :: bool
  ee_num_layers :: int
  ee_remove_after_retrieve :: bool
  ee_process :: "('t, 'h) token_args \<Rightarrow> (int \<times> int \<times> 'k) list \<times> py_error option"
  ee_hash :: "'k \<Rightarrow> 'h"
  ee_no_hash :: 'h
  ee_split_layers :: "'k \<Rightarrow> int \<Rightarrow> 'k list"
  ee_request :: "int \<Rightarrow> 'q"
  ee_from_gpu :: "'o list \<Rightarrow> int list \<Rightarrow> int list \<Rightarrow> 's \<Rightarrow> 's \<times> unit result"
  ee_to_gpu :: "'o list \<Rightarrow> int list \<Rightarrow> int list \<Rightarrow> 's \<Rightarrow> 's \<times> unit result"

record ('s, 'k, 'o, 'q, 't, 'h) engine =
  en_sm :: "('s, 'k, 'o, 'q) storage_manager option"
  en_world :: 's
  en_lookup_pins :: "(string, (string, 'k list) odict) odict"
  en_kv_events :: "('h, 't) store_event list"
  en_events :: "(('k \<times> 'o) list list result) event_manager"

definition is_passive :: "('s, 'k, 'o, 'q, 't, 'h) engine_env \<Rightarrow> bool" where
  "is_passive env \<longleftrightarrow> ee_save_only_first_rank env \<and> \<not> ee_first_rank env"

definition is_frozen :: "('s, 'k, 'o, 'q, 't, 'h) engine \<Rightarrow> bool" where
  "is_frozen en = (case en_sm en of None \<Rightarrow> False | Some sm \<Rightarrow> sm_freeze sm)"

definition en_freeze :: "bool \<Rightarrow> ('s, 'k, 'o, 'q, 't, 'h) engine \<Rightarrow> ('s, 'k, 'o, 'q, 't, 'h) engine" where
  "en_freeze enabled en = en\<lparr>en_sm := map_option (set_freeze enabled) (en_sm en)\<rparr>"

text \<open>A call of the storage manager on the engine's world.\<close>

definition on_world :: "('s \<Rightarrow> 's \<times> 'a result) \<Rightarrow> ('s, 'k, 'o, 'q, 't, 'h) engine \<Rightarrow> ('s, 'k, 'o, 'q, 't, 'h) engine \<times> 'a result" where
  "on_world f en = (case f (en_world en) of (w, r) \<Rightarrow> (en\<lparr>en_world := w\<rparr>, r))"

section \<open>Store\<close>

text \<open>\<open>convert_tokens_to_list\<close>; both slices end one past the end of the chunk.\<close>

definition convert_tokens_to_list :: "'t list option \<Rightarrow> int \<Rightarrow> int \<Rightarrow> 't list" where
  "convert_tokens_to_list tokens token_start token_end =
     (case tokens of None \<Rightarrow> [] | Some ts \<Rightarrow> py_slice ts token_start (token_end + 1))"

definition stored_event ::
  "('s, 'k, 'o, 'q, 't, 'h) engine_env \<Rightarrow> ('t, 'h) token_args \<Rightarrow> 'h \<Rightarrow> int \<Rightarrow> int \<Rightarrow> 'k \<Rightarrow> ('h, 't) store_event" where
  "stored_event env args prev_key start stop key =
     \<lparr> se_block_hash = ee_hash env key, se_parent_block_hash = (if start = 0 then None else Some prev_key),
       se_token_ids =
         (if ta_tokens args \<noteq> None then map Inl (convert_tokens_to_list (ta_tokens args) start stop)
          else case ta_hashes args of None \<Rightarrow> [] | Some hs \<Rightarrow> map Inr (py_slice hs start (stop + 1))),
       se_block_size = stop - start \<rparr>"

text \<open>One object per yielded chunk, until the memory runs out. The last component tells whether
  the loop broke off, so that the rest of the generator is not run.\<close>

fun store_loop ::
  "('s, 'k, 'o, 'q, 't, 'h) engine_env \<Rightarrow> ('s, 'k, 'o, 'q) storage_manager \<Rightarrow> ('t, 'h) token_args \<Rightarrow> (int \<times> int \<times> 'k) list \<Rightarrow> 'h
    \<Rightarrow> (int \<times> int \<times> 'k \<times> 'o) list \<Rightarrow> ('s, 'k, 'o, 'q, 't, 'h) engine
    \<Rightarrow> ('s, 'k, 'o, 'q, 't, 'h) engine \<times> ((int \<times> int \<times> 'k \<times> 'o) list \<times> bool) result" where
  "store_loop env sm args [] prev_key acc en = (en, Inr (acc, False))"
| "store_loop env sm args ((start, stop, key) # chunks) prev_key acc en =
     sr_bind (on_world (sm_allocate (ee_request env (stop - start)) True (ee_force_store_wait env) sm) en) (\<lambda>m en.
       case m of
         None \<Rightarrow> (en, Inr (acc, True))
       | Some ob \<Rightarrow>
           (let en' = (if ee_kv_events_enabled env
                       then en\<lparr>en_kv_events := en_kv_events en @ [stored_event env args prev_key start stop key]\<rparr> else en)
            in store_loop env sm args chunks (if ee_kv_events_enabled env then ee_hash env key else prev_key)
                 (acc @ [(start, stop, key, ob)]) en'))"

definition store_args_ok :: "('t, 'h) token_args \<Rightarrow> bool" where
  "store_args_ok args \<longleftrightarrow>
     \<not> (ta_mask args = None \<and> ta_tokens args = None \<and> ta_hashes args \<noteq> None \<and> ta_offsets args = None) \<and>
     (ta_tokens args \<noteq> None \<or> ta_hashes args \<noteq> None)"

definition store_put ::
  "('s, 'k, 'o, 'q, 't, 'h) engine_env \<Rightarrow> ('s, 'k, 'o, 'q) storage_manager \<Rightarrow> (int \<times> int \<times> 'k \<times> 'o) list
    \<Rightarrow> ('s, 'k, 'o, 'q, 't, 'h) engine \<Rightarrow> ('s, 'k, 'o, 'q, 't, 'h) engine \<times> unit result" where
  "store_put env sm chunks en =
     (let objs = map (\<lambda>(a, b, k, ob). ob) chunks; keys = map (\<lambda>(a, b, k, ob). k) chunks
      in if objs = [] then (en, Inr ())
         else sr_bind (on_world (ee_from_gpu env objs (map fst chunks) (map (fst \<circ> snd) chunks)) en)
                (\<lambda>_ en. on_world (sm_batched_put keys objs None sm) en))"

definition store ::
  "('s, 'k, 'o, 'q, 't, 'h) engine_env \<Rightarrow> ('t, 'h) token_args \<Rightarrow> ('s, 'k, 'o, 'q, 't, 'h) engine
    \<Rightarrow> ('s, 'k, 'o, 'q, 't, 'h) engine \<times> unit result" where
  "store env args en =
     (if \<not> ee_healthy env then (en, Inr ())
      else if \<not> ee_has_gpu env then (en, Inl AssertionError)
      else if is_passive env then (en, Inr ())
      else case en_sm en of
             None \<Rightarrow> (en, Inl AssertionError)
           | Some sm \<Rightarrow>
               if \<not> store_args_ok args then (en, Inl AssertionError)
               else if is_frozen en then (en, Inr ())
               else (case ee_process env args of
                       (chunks, e) \<Rightarrow>
                         sr_bind (store_loop env sm args chunks (ee_no_hash env) [] en) (\<lambda>(acc, broke) en.
                           case (broke, e) of
                             (False, Some err) \<Rightarrow> (en, Inl err)
                           | _ \<Rightarrow> store_put env sm acc en)))"

definition get_kv_events ::
  "('s, 'k, 'o, 'q, 't, 'h) engine_env \<Rightarrow> ('s, 'k, 'o, 'q, 't, 'h) engine
    \<Rightarrow> ('s, 'k, 'o, 'q, 't, 'h) engine \<times> ('h, 't) store_event list" where
  "get_kv_events env en =
     (if ee_kv_events_enabled env \<and> en_kv_events en \<noteq> [] then (en\<lparr>en_kv_events := []\<rparr>, en_kv_events en) else (en, []))"

section \<open>Retrieve\<close>

text \<open>\<open>ret_mask[start:end] = True\<close> and \<open>ret_mask[start:] = False\<close>.\<close>

definition mask_set :: "int \<Rightarrow> int \<Rightarrow> bool list \<Rightarrow> bool list" where
  "mask_set start stop msk =
     (let n = int (length msk); a = slice_bound n start; b = slice_bound n stop
      in map (\<lambda>i. a \<le> int i \<and> int i < b \<or> msk ! i) [0..<length msk])"

definition mask_cut :: "int \<Rightarrow> bool list \<Rightarrow> bool list" where
  "mask_cut start msk =
     (let a = slice_bound (int (length msk)) start in map (\<lambda>i. int i < a \<and> msk ! i) [0..<length msk])"

text \<open>The chunks of one location: up to the first object that is missing.\<close>

fun take_blocks ::
  "'k chunk_info list \<Rightarrow> 'o option list \<Rightarrow> int option \<Rightarrow> ('k \<times> 'o \<times> int \<times> int) list \<Rightarrow> bool list
    \<Rightarrow> int option \<times> ('k \<times> 'o \<times> int \<times> int) list \<times> bool list" where
  "take_blocks ((key, start, stop) # blocks) (m # ms) failed chunks ret_mask =
     (case m of
        None \<Rightarrow> (if failed = None \<or> the failed < start then Some start else failed, chunks, ret_mask)
      | Some ob \<Rightarrow> take_blocks blocks ms failed (chunks @ [(key, ob, start, stop)]) (mask_set start stop ret_mask))"
| "take_blocks _ _ failed chunks ret_mask = (failed, chunks, ret_mask)"

fun fetch_blocks ::
  "('s, 'k, 'o, 'q) storage_manager \<Rightarrow> (string \<times> 'k chunk_info list) list \<Rightarrow> int option \<Rightarrow> ('k \<times> 'o \<times> int \<times> int) list \<Rightarrow> bool list
    \<Rightarrow> 's \<Rightarrow> 's \<times> (int option \<times> ('k \<times> 'o \<times> int \<times> int) list \<times> bool list) result" where
  "fetch_blocks sm [] failed chunks ret_mask s = (s, Inr (failed, chunks, ret_mask))"
| "fetch_blocks sm ((location, blocks) # rest) failed chunks ret_mask s =
     sr_bind (sm_batched_get (map fst blocks) (Some location) sm s) (\<lambda>ms s.
       case take_blocks blocks ms failed chunks ret_mask of
         (failed, chunks, ret_mask) \<Rightarrow> fetch_blocks sm rest failed chunks ret_mask s)"

text \<open>What is left after a failure: the mask and the chunks are cut at the last block that failed.\<close>

definition cut_failed ::
  "int option \<times> ('k \<times> 'o \<times> int \<times> int) list \<times> bool list \<Rightarrow> ('k \<times> 'o \<times> int \<times> int) list \<times> bool list" where
  "cut_failed r =
     (case r of
        (None, chunks, ret_mask) \<Rightarrow> (chunks, ret_mask)
      | (Some start, chunks, ret_mask) \<Rightarrow> (filter (\<lambda>(k, ob, a, b). b < start) chunks, mask_cut start ret_mask))"

text \<open>A request with the id of a pinned lookup that hit in one location reads all its chunks there.\<close>

definition block_mapping_of ::
  "string option \<Rightarrow> 'k chunk_info list \<Rightarrow> ('s, 'k, 'o, 'q) storage_manager \<Rightarrow> ('s, 'k, 'o, 'q, 't, 'h) engine
    \<Rightarrow> ('s, 'k, 'o, 'q, 't, 'h) engine \<times> (string, 'k chunk_info list) odict result" where
  "block_mapping_of req_id chunk_infos sm en =
     (case Option.bind req_id (map_of (en_lookup_pins en)) of
        Some [(location, keys)] \<Rightarrow> (en, Inr [(location, chunk_infos)])
      | _ \<Rightarrow> on_world (sm_get_block_mapping chunk_infos sm) en)"

definition process_tokens_internal ::
  "('s, 'k, 'o, 'q, 't, 'h) engine_env \<Rightarrow> ('t, 'h) token_args \<Rightarrow> string option \<Rightarrow> bool list \<Rightarrow> ('s, 'k, 'o, 'q, 't, 'h) engine
    \<Rightarrow> ('s, 'k, 'o, 'q, 't, 'h) engine \<times> (('k \<times> 'o \<times> int \<times> int) list \<times> bool list) result" where
  "process_tokens_internal env args req_id ret_mask en =
     (case en_sm en of
        None \<Rightarrow> (en, Inl AssertionError)
      | Some sm \<Rightarrow>
          (case ee_process env args of
             (_, Some e) \<Rightarrow> (en, Inl e)
           | (chunks, None) \<Rightarrow>
               sr_bind (block_mapping_of req_id (map (\<lambda>(a, b, k). (k, a, b)) chunks) sm en) (\<lambda>block_mapping en.
                 sr_bind (on_world (fetch_blocks sm block_mapping None [] ret_mask) en) (\<lambda>r en. (en, Inr (cut_failed r))))))"

text \<open>The asynchronous variant takes the objects a prefetch left in the event of the request.\<close>

fun async_loop ::
  "('k, 'o) odict \<Rightarrow> (int \<times> int \<times> 'k) list \<Rightarrow> ('k \<times> 'o \<times> int \<times> int) list \<Rightarrow> bool list
    \<Rightarrow> (('k \<times> 'o \<times> int \<times> int) list \<times> bool list) \<times> bool" where
  "async_loop objs [] chunks ret_mask = ((chunks, ret_mask), False)"
| "async_loop objs ((start, stop, key) # rest) chunks ret_mask =
     (case map_of objs key of
        None \<Rightarrow> ((chunks, ret_mask), True)
      | Some ob \<Rightarrow> async_loop objs rest (chunks @ [(key, ob, start, stop)]) (mask_set start stop ret_mask))"

definition memory_obj_map :: "('k \<times> 'o) list list \<Rightarrow> ('k, 'o) odict" where
  "memory_obj_map results = fold (\<lambda>(k, ob). AList.update k ob) (concat results) []"

definition async_process_tokens_internal ::
  "('s, 'k, 'o, 'q, 't, 'h) engine_env \<Rightarrow> ('s, 'o, 'q) obj_ops \<Rightarrow> ('t, 'h) token_args \<Rightarrow> string option \<Rightarrow> bool list
    \<Rightarrow> ('s, 'k, 'o, 'q, 't, 'h) engine \<Rightarrow> ('s, 'k, 'o, 'q, 't, 'h) engine \<times> (('k \<times> 'o \<times> int \<times> int) list \<times> bool list) result" where
  "async_process_tokens_internal env ops args req_id ret_mask en =
     (case req_id of
        None \<Rightarrow> (en, Inl AssertionError)
      | Some i \<Rightarrow>
          (case pop_event i (en_events en) of
             Inl e \<Rightarrow> (en, Inl e)
           | Inr (evs, future) \<Rightarrow>
               let en = en\<lparr>en_events := evs\<rparr>
               in (case future of
                     Inl _ \<Rightarrow> (en, Inr ([], ret_mask))
                   | Inr results \<Rightarrow>
                       (let objs = memory_obj_map results
                        in case ee_process env args of
                             (chunks, e) \<Rightarrow>
                               (case async_loop objs chunks [] ret_mask of
                                  ((cs, msk), broke) \<Rightarrow>
                                    (if \<not> broke \<and> e \<noteq> None then (en, Inl (the e))
                                     else let used = map fst cs;
                                              unused = filter (\<lambda>(k, ob). k \<notin> set used) objs
                                          in (en\<lparr>en_world := fold (oo_ref_count_down ops) (map snd unused) (en_world en)\<rparr>,
                                              Inr (cs, msk))))))))"

fun release_chunks ::
  "('s, 'k, 'o, 'q, 't, 'h) engine_env \<Rightarrow> ('s, 'o, 'q) obj_ops \<Rightarrow> ('k option \<times> 'o \<times> int \<times> int) list \<Rightarrow> ('s, 'k, 'o, 'q, 't, 'h) engine
    \<Rightarrow> ('s, 'k, 'o, 'q, 't, 'h) engine \<times> unit result" where
  "release_chunks env ops [] en = (en, Inr ())"
| "release_chunks env ops ((key, ob, a, b) # chunks) en =
     sr_bind (if ee_remove_after_retrieve env \<and> \<not> is_passive env
              then (case (en_sm en, key) of
                      (Some sm, Some k) \<Rightarrow> on_world (sm_remove k None sm) en
                    | _ \<Rightarrow> (en, Inl AssertionError))
              else (en, Inr 0))
       (\<lambda>_ en. release_chunks env ops chunks (en\<lparr>en_world := oo_ref_count_down ops ob (en_world en)\<rparr>))"

text \<open>The length of the mask is the number of tokens.\<close>

definition retrieve ::
  "('s, 'k, 'o, 'q, 't, 'h) engine_env \<Rightarrow> ('s, 'o, 'q) obj_ops \<Rightarrow> bool \<Rightarrow> 't list \<Rightarrow> bool list option \<Rightarrow> string option
    \<Rightarrow> ('s, 'k, 'o, 'q, 't, 'h) engine \<Rightarrow> ('s, 'k, 'o, 'q, 't, 'h) engine \<times> bool list result" where
  "retrieve env ops async_loading tokens msk req_id en =
     (let ret_mask = replicate (length tokens) False;
          args = \<lparr> ta_tokens = Some tokens, ta_hashes = None, ta_offsets = None, ta_mask = msk \<rparr>
      in if \<not> ee_healthy env then (en, Inr ret_mask)
         else if \<not> ee_has_gpu env then (en, Inl AssertionError)
         else sr_bind
           (if is_passive env
            then (en, Inr (map (\<lambda>(ob, a, b). (None, ob, a, b)) (ee_received env),
                           fold (\<lambda>(ob, a, b). mask_set a b) (ee_received env) ret_mask))
            else sr_bind (if async_loading then async_process_tokens_internal env ops args req_id ret_mask en
                          else process_tokens_internal env args req_id ret_mask en)
                   (\<lambda>(chunks, ret_mask) en. (en, Inr (map (\<lambda>(k, ob, a, b). (Some k, ob, a, b)) chunks, ret_mask))))
           (\<lambda>(chunks, ret_mask) en.
              sr_bind (if chunks = [] then (en, Inr ())
                       else on_world (ee_to_gpu env (map (\<lambda>(k, ob, a, b). ob) chunks) (map (\<lambda>(k, ob, a, b). a) chunks)
                              (map (\<lambda>(k, ob, a, b). b) chunks)) en)
                (\<lambda>_ en. sr_bind (release_chunks env ops chunks en) (\<lambda>_ en. (en, Inr ret_mask)))))"

section \<open>Lookup\<close>

definition lookup_args :: "('t, 'h) token_args \<Rightarrow> ('t, 'h) token_args" where
  "lookup_args args = args\<lparr>ta_mask := None\<rparr>"

text \<open>\<open>finally\<close>: a pinning lookup touches the cache, also when it failed; an exception of the touch
  replaces the one of the lookup.\<close>

definition finally_touch ::
  "bool \<Rightarrow> ('s, 'k, 'o, 'q) storage_manager \<Rightarrow> ('s, 'k, 'o, 'q, 't, 'h) engine \<times> int result
    \<Rightarrow> ('s, 'k, 'o, 'q, 't, 'h) engine \<times> int result" where
  "finally_touch pin sm r =
     (case r of (en, res) \<Rightarrow>
        if pin then (case on_world (sm_touch_cache sm) en of (en, Inl e) \<Rightarrow> (en, Inl e) | (en, Inr _) \<Rightarrow> (en, res))
        else (en, res))"

fun last_end :: "nat \<Rightarrow> (int \<times> int \<times> 'k) list \<Rightarrow> int \<Rightarrow> int" where
  "last_end 0 chunks res = res"
| "last_end (Suc n) [] res = res"
| "last_end (Suc n) ((start, stop, key) # chunks) res = last_end n chunks stop"

definition lookup_chunks ::
  "(int \<times> int \<times> 'k) list \<Rightarrow> string list option \<Rightarrow> string option \<Rightarrow> bool \<Rightarrow> ('s, 'k, 'o, 'q) storage_manager
    \<Rightarrow> ('s, 'k, 'o, 'q, 't, 'h) engine \<Rightarrow> ('s, 'k, 'o, 'q, 't, 'h) engine \<times> int result" where
  "lookup_chunks chunks search_range lookup_id pin sm en =
     sr_bind (on_world (sm_batched_contains (map (snd \<circ> snd) chunks) search_range pin sm) en) (\<lambda>(hit_chunks, block_mapping) en.
       if pin \<and> block_mapping \<noteq> []
       then (case lookup_id of
               None \<Rightarrow> (en, Inl AssertionError)
             | Some i \<Rightarrow> (en\<lparr>en_lookup_pins := AList.update i block_mapping (en_lookup_pins en)\<rparr>,
                          Inr (last_end hit_chunks chunks 0)))
       else (en, Inr (last_end hit_chunks chunks 0)))"

definition add_pins :: "string \<Rightarrow> string \<Rightarrow> 'k list \<Rightarrow> (string, (string, 'k list) odict) odict \<Rightarrow> (string, (string, 'k list) odict) odict" where
  "add_pins i location keys pins =
     (let m = (case map_of pins i of None \<Rightarrow> [] | Some m \<Rightarrow> m);
          ks = (case map_of m location of None \<Rightarrow> [] | Some ks \<Rightarrow> ks)
      in AList.update i (AList.update location (ks @ keys) m) pins)"

text \<open>With layerwise storage a chunk is a hit when all its layers are in one location.\<close>

fun lookup_layers ::
  "('s, 'k, 'o, 'q, 't, 'h) engine_env \<Rightarrow> (int \<times> int \<times> 'k) list \<Rightarrow> string list option \<Rightarrow> string option \<Rightarrow> bool
    \<Rightarrow> ('s, 'k, 'o, 'q) storage_manager \<Rightarrow> int \<Rightarrow> ('s, 'k, 'o, 'q, 't, 'h) engine
    \<Rightarrow> ('s, 'k, 'o, 'q, 't, 'h) engine \<times> (int \<times> bool) result" where
  "lookup_layers env [] search_range lookup_id pin sm res en = (en, Inr (res, False))"
| "lookup_layers env ((start, stop, key) # chunks) search_range lookup_id pin sm res en =
     (let key_all_layers = ee_split_layers env key (ee_num_layers env)
      in sr_bind (on_world (sm_batched_contains key_all_layers search_range pin sm) en) (\<lambda>(hit_chunks, block_mapping) en.
           if int hit_chunks = ee_num_layers env \<and> length block_mapping = 1
           then (if pin
                 then (case lookup_id of
                         None \<Rightarrow> (en, Inl AssertionError)
                       | Some i \<Rightarrow>
                           lookup_layers env chunks search_range lookup_id pin sm stop
                             (en\<lparr>en_lookup_pins := add_pins i (fst (hd block_mapping)) key_all_layers (en_lookup_pins en)\<rparr>))
                 else lookup_layers env chunks search_range lookup_id pin sm stop en)
           else (en, Inr (res, True))))"

definition lookup ::
  "('s, 'k, 'o, 'q, 't, 'h) engine_env \<Rightarrow> ('t, 'h) token_args \<Rightarrow> string list option \<Rightarrow> string option \<Rightarrow> bool
    \<Rightarrow> ('s, 'k, 'o, 'q, 't, 'h) engine \<Rightarrow> ('s, 'k, 'o, 'q, 't, 'h) engine \<times> int result" where
  "lookup env args search_range lookup_id pin en =
     (if \<not> ee_healthy env then (en, Inr 0)
      else case en_sm en of
             None \<Rightarrow> (en, Inl AssertionError)
           | Some sm \<Rightarrow>
               if ta_tokens args = None \<and> (ta_offsets args = None \<or> ta_hashes args = None) then (en, Inl AssertionError)
               else finally_touch pin sm
                 (case ee_process env (lookup_args args) of
                    (chunks, e) \<Rightarrow>
                      if ee_use_layerwise env
                      then sr_bind (lookup_layers env chunks search_range lookup_id pin sm 0 en) (\<lambda>(res, broke) en.
                             if \<not> broke \<and> e \<noteq> None then (en, Inl (the e)) else (en, Inr res))
                      else (case e of
                              Some err \<Rightarrow> (en, Inl err)
                            | None \<Rightarrow> lookup_chunks chunks search_range lookup_id pin sm en)))"

fun unpin_locations ::
  "('s, 'k, 'o, 'q) storage_manager \<Rightarrow> (string \<times> 'k list) list \<Rightarrow> 's \<Rightarrow> 's \<times> int result" where
  "unpin_locations sm [] s = (s, Inr 0)"
| "unpin_locations sm ((location, keys) # rest) s =
     sr_bind (sm_batched_unpin keys (Some [location]) sm s) (\<lambda>_ s. unpin_locations sm rest s)"

definition lookup_unpin ::
  "string \<Rightarrow> ('s, 'k, 'o, 'q, 't, 'h) engine \<Rightarrow> ('s, 'k, 'o, 'q, 't, 'h) engine \<times> unit result" where
  "lookup_unpin lookup_id en =
     (case map_of (en_lookup_pins en) lookup_id of
        None \<Rightarrow> (en, Inr ())
      | Some mapping \<Rightarrow>
          (case en_sm en of
             None \<Rightarrow> (en, Inl AssertionError)
           | Some sm \<Rightarrow>
               sr_bind (on_world (unpin_locations sm mapping) (en\<lparr>en_lookup_pins := AList.delete lookup_id (en_lookup_pins en)\<rparr>))
                 (\<lambda>_ en. (en, Inr ()))))"

section \<open>Clearing, health, moving and compressing\<close>

fun clear_loop ::
  "('s, 'k, 'o, 'q) storage_manager \<Rightarrow> string list option \<Rightarrow> (int \<times> int \<times> 'k) list \<Rightarrow> int \<Rightarrow> 's \<Rightarrow> 's \<times> int result" where
  "clear_loop sm locations [] num_removed s = (s, Inr num_removed)"
| "clear_loop sm locations ((start, stop, key) # chunks) num_removed s =
     sr_bind (sm_remove key locations sm s) (\<lambda>removed s. clear_loop sm locations chunks (num_removed + removed) s)"

definition clear_tokens ::
  "('s, 'k, 'o, 'q, 't, 'h) engine_env \<Rightarrow> 't list option \<Rightarrow> string list option \<Rightarrow> ('s, 'k, 'o, 'q, 't, 'h) engine
    \<Rightarrow> ('s, 'k, 'o, 'q, 't, 'h) engine \<times> int result" where
  "clear_tokens env tokens locations en =
     (case en_sm en of
        None \<Rightarrow> (en, Inl AssertionError)
      | Some sm \<Rightarrow>
          if tokens = None \<or> tokens = Some [] then on_world (sm_clear locations sm) en
          else (case ee_process env \<lparr> ta_tokens = tokens, ta_hashes = None, ta_offsets = None, ta_mask = None \<rparr> of
                  (chunks, e) \<Rightarrow>
                    sr_bind (on_world (clear_loop sm locations chunks 0) en) (\<lambda>n en.
                      case e of None \<Rightarrow> (en, Inr n) | Some err \<Rightarrow> (en, Inl err))))"

definition en_clear ::
  "('s, 'k, 'o, 'q, 't, 'h) engine_env \<Rightarrow> 't list option \<Rightarrow> string list option \<Rightarrow> ('s, 'k, 'o, 'q, 't, 'h) engine
    \<Rightarrow> ('s, 'k, 'o, 'q, 't, 'h) engine \<times> int result" where
  "en_clear env tokens locations en =
     (if ee_save_only_first_rank env
      then (if ee_first_rank env then clear_tokens env tokens locations en else (en, Inr 0))
      else clear_tokens env tokens locations en)"

definition en_health :: "('s, 'k, 'o, 'q, 't, 'h) engine \<Rightarrow> int result" where
  "en_health en =
     (case en_sm en of None \<Rightarrow> Inl AssertionError | Some sm \<Rightarrow> Inr (if sm_memcheck sm (en_world en) then 0 else - 1))"

text \<open>The common start of \<open>move\<close>, \<open>compress\<close> and \<open>decompress\<close>: a pinning lookup in one location and the
  objects of its keys. With no hit there is nothing to do.\<close>

definition pinned_objects ::
  "('s, 'k, 'o, 'q, 't, 'h) engine_env \<Rightarrow> 't list \<Rightarrow> string \<Rightarrow> string \<Rightarrow> ('s, 'k, 'o, 'q, 't, 'h) engine
    \<Rightarrow> ('s, 'k, 'o, 'q, 't, 'h) engine \<times> (int \<times> 'k list \<times> 'o list) option result" where
  "pinned_objects env tokens location event_id en =
     (case en_sm en of
        None \<Rightarrow> (en, Inl AssertionError)
      | Some sm \<Rightarrow>
          sr_bind (lookup env \<lparr> ta_tokens = Some tokens, ta_hashes = None, ta_offsets = None, ta_mask = None \<rparr>
                     (Some [location]) (Some event_id) True en) (\<lambda>num_tokens en.
            if num_tokens = 0 then (en, Inr None)
            else (case map_of (en_lookup_pins en) event_id of
                    Some [(l, keys)] \<Rightarrow>
                      if l \<noteq> location then (en, Inl KeyError)
                      else sr_bind (on_world (sm_batched_get keys (Some location) sm) en) (\<lambda>memory_objs en.
                             if None \<in> set memory_objs then (en, Inl AssertionError)
                             else (en, Inr (Some (num_tokens, keys, map the memory_objs))))
                  | _ \<Rightarrow> (en, Inl AssertionError))))"

text \<open>\<open>send\<close>: what the peer-to-peer backend does with keys and objects.\<close>

definition move ::
  "('s, 'k, 'o, 'q, 't, 'h) engine_env \<Rightarrow> ('k list \<Rightarrow> 'o list \<Rightarrow> 's \<Rightarrow> 's \<times> unit result) option \<Rightarrow> 't list \<Rightarrow> string \<Rightarrow> string \<Rightarrow> bool
    \<Rightarrow> ('s, 'k, 'o, 'q, 't, 'h) engine \<Rightarrow> ('s, 'k, 'o, 'q, 't, 'h) engine \<times> int result" where
  "move env send tokens old_position event_id do_copy en =
     sr_bind (pinned_objects env tokens old_position event_id en) (\<lambda>r en.
       case r of
         None \<Rightarrow> (en, Inr 0)
       | Some (num_tokens, keys, memory_objs) \<Rightarrow>
           (case (send, en_sm en) of
              (Some f, Some sm) \<Rightarrow>
                sr_bind (on_world (f keys memory_objs) en) (\<lambda>_ en.
                  if \<not> do_copy
                  then sr_bind (on_world (sm_batched_remove keys (Some [old_position]) sm) en) (\<lambda>_ en. (en, Inr num_tokens))
                  else (en, Inr num_tokens))
            | _ \<Rightarrow> (en, Inl KeyError)))"

text \<open>Compression and decompression differ in the coder: \<open>code\<close> turns an object into a new one, and
  \<open>unpin\<close> is \<open>memory_obj.unpin()\<close>.\<close>

fun code_objects ::
  "('o \<Rightarrow> 's \<Rightarrow> 's \<times> 'o result) \<Rightarrow> ('o \<Rightarrow> 's \<Rightarrow> 's) \<Rightarrow> 'o list \<Rightarrow> 'o list \<Rightarrow> 's \<Rightarrow> 's \<times> 'o list result" where
  "code_objects code unpin [] acc s = (s, Inr acc)"
| "code_objects code unpin (ob # objs) acc s =
     sr_bind (code ob s) (\<lambda>ob' s. code_objects code unpin objs (acc @ [ob']) (unpin ob s))"

definition recode ::
  "('s, 'k, 'o, 'q, 't, 'h) engine_env \<Rightarrow> ('o \<Rightarrow> 's \<Rightarrow> 's \<times> 'o result) \<Rightarrow> ('o \<Rightarrow> 's \<Rightarrow> 's) \<Rightarrow> 't list \<Rightarrow> string \<Rightarrow> string \<Rightarrow> string
    \<Rightarrow> ('s, 'k, 'o, 'q, 't, 'h) engine \<Rightarrow> ('s, 'k, 'o, 'q, 't, 'h) engine \<times> int result" where
  "recode env code unpin tokens meth location event_id en =
     (case en_sm en of
        None \<Rightarrow> (en, Inl AssertionError)
      | Some sm \<Rightarrow>
          if meth \<noteq> ''cachegen'' then (en, Inr 0)
          else sr_bind (pinned_objects env tokens location event_id en) (\<lambda>r en.
                 case r of
                   None \<Rightarrow> (en, Inr 0)
                 | Some (num_tokens, keys, memory_objs) \<Rightarrow>
                     sr_bind (on_world (code_objects code unpin memory_objs []) en) (\<lambda>new_objs en.
                       sr_bind (on_world (sm_batched_remove keys (Some [location]) sm) en) (\<lambda>_ en.
                         sr_bind (on_world (sm_batched_put keys new_objs (Some location) sm) en) (\<lambda>_ en. (en, Inr num_tokens))))))"

end
