(* ===== verification/Prefetch.thy ===== *)
theory Prefetch
  imports Engine "HOL-Library.Multiset"
begin

text \<open>
  Asynchronous lookup and prefetching: \<open>async_lookup_and_prefetch\<close> and its callback of
  \<open>storage_manager.py\<close>, \<open>cleanup_memory_objs\<close> of \<open>cache_engine.py\<close>, and the semaphore that bounds the
  chunks loaded at a time. The loading tasks of the tiers run one after the other on the event loop
  (\<open>AsyncSingleSerializer\<close>); what other tasks and threads do before the \<open>n\<close>-th one is \<open>others n\<close>. The
  answers sent to the scheduler are a list.
\<close>

declare map_of_eq_Some_iff [simp del] Some_eq_map_of_iff [simp del]

section \<open>The prefetch of a request\<close>

text \<open>The lookup goes through the tiers once and leaves a loading task per tier that has a prefix
  of the remaining keys.\<close>

fun prefetch_lookup ::
  "(string \<times> ('s, 'k, 'o, 'q) backend) list \<Rightarrow> 'k list \<Rightarrow> bool \<Rightarrow> bool \<Rightarrow> nat \<Rightarrow> nat \<Rightarrow> (('s, 'k, 'o, 'q) backend \<times> 'k list) list \<Rightarrow> 's
    \<Rightarrow> 's \<times> (('s, 'k, 'o, 'q) backend \<times> 'k list) list result" where
  "prefetch_lookup [] keys pin serializer total_chunks hits tasks s = (s, Inr tasks)"
| "prefetch_lookup ((name, b) # bs) keys pin serializer total_chunks hits tasks s =
     sr_bind (be_batched_async_contains b keys pin s) (\<lambda>num_hit_chunks s.
       if num_hit_chunks = 0 then prefetch_lookup bs keys pin serializer total_chunks hits tasks s
       else if \<not> serializer then (s, Inl AssertionError)
       else let hits = hits + num_hit_chunks; tasks = tasks @ [(b, take num_hit_chunks keys)]
            in if hits = total_chunks then (s, Inr tasks)
               else prefetch_lookup bs (drop num_hit_chunks keys) pin serializer total_chunks hits tasks s)"

text \<open>Every task runs, also after one that failed; \<open>gather\<close> gives the first exception.\<close>

fun run_loading ::
  "(nat \<Rightarrow> 's \<Rightarrow> 's) \<Rightarrow> nat \<Rightarrow> (('s, 'k, 'o, 'q) backend \<times> 'k list) list \<Rightarrow> 's \<Rightarrow> 's \<times> 'o list result list" where
  "run_loading others n [] s = (s, [])"
| "run_loading others n ((b, keys) # tasks) s =
     (case be_batched_get_non_blocking b keys (others n s) of
        (s, r) \<Rightarrow> (case run_loading others (n + 1) tasks s of (s, rs) \<Rightarrow> (s, r # rs)))"

fun gather_results :: "'a result list \<Rightarrow> 'a list result" where
  "gather_results [] = Inr []"
| "gather_results (r # rs) =
     (case r of Inl e \<Rightarrow> Inl e | Inr x \<Rightarrow> (case gather_results rs of Inl e \<Rightarrow> Inl e | Inr xs \<Rightarrow> Inr (x # xs)))"

definition gather_with_keys :: "'k list list \<Rightarrow> 'o list result list \<Rightarrow> ('k \<times> 'o) list list result" where
  "gather_with_keys loading_task_keys results =
     (case gather_results results of
        Inl e \<Rightarrow> Inl e
      | Inr loading_results \<Rightarrow> Inr (map (\<lambda>(ks, os). zip ks os) (zip loading_task_keys loading_results)))"

text \<open>The callback counts the chunks up to the first tier that loaded fewer than the lookup found. It
  means to release what later tiers loaded, but iterates over pairs of a key and an object, which
  have no \<open>ref_count_down\<close>.\<close>

fun count_retrieved :: "('k \<times> 'o) list list \<Rightarrow> nat list \<Rightarrow> nat \<Rightarrow> nat result" where
  "count_retrieved [] expected total_retrieved = Inr total_retrieved"
| "count_retrieved (tier # tiers) [] total_retrieved = Inl IndexError"
| "count_retrieved (tier # tiers) (e # expected) total_retrieved =
     (if length tier < e
      then (if concat tiers \<noteq> [] then Inl AttributeError else Inr (total_retrieved + length tier))
      else count_retrieved tiers expected (total_retrieved + length tier))"

definition prefetch_all_done_callback ::
  "string \<Rightarrow> int list \<Rightarrow> nat list \<Rightarrow> ('k \<times> 'o) list list result \<Rightarrow> ('k \<times> 'o) list list result event_manager
    \<Rightarrow> ('k \<times> 'o) list list result event_manager \<times> int result" where
  "prefetch_all_done_callback lookup_id cum_chunk_lengths expected future em =
     (case update_event_status lookup_id DONE em of
        Inl e \<Rightarrow> (em, Inl e)
      | Inr em \<Rightarrow>
          (em, res_bind future (\<lambda>res. res_bind (count_retrieved res expected 0) (\<lambda>n.
                 if n < length cum_chunk_lengths then Inr (cum_chunk_lengths ! n) else Inl IndexError))))"

text \<open>The whole run: the answers sent, in order. A failure in a callback is logged by the event loop
  and nothing is sent.\<close>

definition sm_async_lookup_and_prefetch ::
  "(nat \<Rightarrow> 's \<Rightarrow> 's) \<Rightarrow> bool \<Rightarrow> bool \<Rightarrow> string \<Rightarrow> 'k list \<Rightarrow> int list \<Rightarrow> string list option \<Rightarrow> bool
    \<Rightarrow> ('s, 'k, 'o, 'q) storage_manager \<Rightarrow> ('k \<times> 'o) list list result event_manager \<Rightarrow> 's
    \<Rightarrow> 's \<times> ('k \<times> 'o) list list result event_manager \<times> (string \<times> int) list" where
  "sm_async_lookup_and_prefetch others serializer server lookup_id keys cum_chunk_lengths search_range pin sm em s =
     (case prefetch_lookup (get_active_storage_backends None search_range sm) keys pin serializer (length keys) 0 [] s of
        (s, Inl e) \<Rightarrow> (s, em, [])
      | (s, Inr tasks) \<Rightarrow>
          if tasks = [] then (s, em, if server then [(lookup_id, 0)] else [])
          else (case run_loading others 0 tasks s of
                  (s, results) \<Rightarrow>
                    let future = gather_with_keys (map snd tasks) results
                    in if \<not> server then (s, add_event lookup_id future em, [])
                       else (case prefetch_all_done_callback lookup_id cum_chunk_lengths (map (length \<circ> snd) tasks) future
                                    (add_event lookup_id future em) of
                               (em, Inl e) \<Rightarrow> (s, em, [])
                             | (em, Inr n) \<Rightarrow> (s, em, [(lookup_id, n)]))))"

definition async_lookup_and_prefetch ::
  "('s, 'k, 'o, 'q, 't, 'h) engine_env \<Rightarrow> (nat \<Rightarrow> 's \<Rightarrow> 's) \<Rightarrow> bool \<Rightarrow> bool \<Rightarrow> string \<Rightarrow> ('t, 'h) token_args \<Rightarrow> string list option \<Rightarrow> bool
    \<Rightarrow> ('s, 'k, 'o, 'q, 't, 'h) engine \<Rightarrow> ('s, 'k, 'o, 'q, 't, 'h) engine \<times> (string \<times> int) list result" where
  "async_lookup_and_prefetch env others serializer server lookup_id args search_range pin en =
     (case en_sm en of
        None \<Rightarrow> (en, Inl AssertionError)
      | Some sm \<Rightarrow>
          (case ee_process env (lookup_args args) of
             (_, Some e) \<Rightarrow> (en, Inl e)
           | (chunks, None) \<Rightarrow>
               (case sm_async_lookup_and_prefetch others serializer server lookup_id (map (snd \<circ> snd) chunks)
                       (0 # map (fst \<circ> snd) chunks) search_range pin sm (en_events en) (en_world en) of
                  (s, em, answers) \<Rightarrow> (en\<lparr>en_world := s, en_events := em\<rparr>, Inr answers))))"

text \<open>The cleanup of an aborted request pops the event. It iterates over the same pairs; the
  \<open>AttributeError\<close> of each is caught, and no object is released.\<close>

definition cleanup_memory_objs ::
  "string \<Rightarrow> ('s, 'k, 'o, 'q, 't, 'h) engine \<Rightarrow> ('s, 'k, 'o, 'q, 't, 'h) engine" where
  "cleanup_memory_objs lookup_id en =
     (if get_event_status lookup_id (en_events en) \<noteq> DONE then en
      else case pop_event lookup_id (en_events en) of
             Inl _ \<Rightarrow> en
           | Inr (em, future) \<Rightarrow> en\<lparr>en_events := em\<rparr>)"

section \<open>The semaphore of the multi serializer\<close>

record semaphore =
  ws_concurrent_cap :: int
  ws_budget_cap :: int
  ws_current :: int

definition ws_init :: "int \<Rightarrow> semaphore" where
  "ws_init chunk_budget =
     \<lparr> ws_concurrent_cap = chunk_budget div 2, ws_budget_cap = chunk_budget, ws_current = chunk_budget div 2 \<rparr>"

text \<open>\<open>None\<close> means that the call waits.\<close>

definition ws_acquire :: "int \<Rightarrow> semaphore \<Rightarrow> semaphore option result" where
  "ws_acquire n w =
     (if n > ws_budget_cap w then Inl ValueError
      else if n \<le> ws_concurrent_cap w
           then (if n \<le> ws_current w then Inr (Some (w\<lparr>ws_current := ws_current w - n\<rparr>)) else Inr None)
           else (if ws_current w = ws_concurrent_cap w then Inr (Some (w\<lparr>ws_current := 0\<rparr>)) else Inr None))"

definition ws_release :: "int \<Rightarrow> semaphore \<Rightarrow> semaphore" where
  "ws_release n w =
     (if n \<le> ws_concurrent_cap w then w\<lparr>ws_current := ws_current w + n\<rparr>
      else w\<lparr>ws_current := ws_concurrent_cap w\<rparr>)"

text \<open>The runs: requests enter with their number of chunks and leave in any order.\<close>

inductive ws_reachable :: "int \<Rightarrow> semaphore \<Rightarrow> int multiset \<Rightarrow> bool" for budget where
  start: "ws_reachable budget (ws_init budget) {#}"
| enter: "ws_reachable budget w held \<Longrightarrow> 0 < n \<Longrightarrow> ws_acquire n w = Inr (Some w') \<Longrightarrow> ws_reachable budget w' (add_mset n held)"
| leave: "ws_reachable budget w (add_mset n held) \<Longrightarrow> ws_reachable budget (ws_release n w) held"

lemma sum_mset_pos: "\<forall>y \<in># M. (0::int) < y \<Longrightarrow> 0 \<le> sum_mset M"
  by (induction M) auto

lemma ws_reachable_inv:
  assumes "ws_reachable budget w held" and "1 < budget"
  shows "ws_budget_cap w = budget \<and> ws_concurrent_cap w = budget div 2 \<and> (\<forall>n \<in># held. 0 < n) \<and>
    ((\<forall>n \<in># held. n \<le> budget div 2) \<and> ws_current w + sum_mset held = budget div 2 \<and> 0 \<le> ws_current w \<or>
     (\<exists>n. held = {#n#} \<and> budget div 2 < n \<and> n \<le> budget \<and> ws_current w = 0))"
  using assms(1)
proof (induction rule: ws_reachable.induct)
  case start
  show ?case using assms(2) by (simp add: ws_init_def)
next
  case (enter w held n w')
  have cap: "0 < budget div 2" using assms(2) by auto
  show ?case
  proof (cases "n \<le> budget div 2")
    case True
    then show ?thesis using enter by (auto simp: ws_acquire_def split: if_splits)
  next
    case False
    have cur: "ws_current w = budget div 2" "n \<le> budget" "w' = w\<lparr>ws_current := 0\<rparr>"
      using False enter by (auto simp: ws_acquire_def split: if_splits)
    have "held = {#}"
    proof -
      have "sum_mset held = 0 \<and> (\<forall>n \<in># held. 0 < n)" using enter.IH cur(1) cap by auto
      then show ?thesis
      proof (cases held)
        case (add x M)
        then have "0 < x" "\<forall>y \<in># M. 0 < y" using \<open>sum_mset held = 0 \<and> (\<forall>n \<in># held. 0 < n)\<close> by auto
        moreover have "0 \<le> sum_mset M" using \<open>\<forall>y \<in># M. 0 < y\<close> by (rule sum_mset_pos)
        ultimately show ?thesis using \<open>sum_mset held = 0 \<and> (\<forall>n \<in># held. 0 < n)\<close> add by simp
      qed simp
    qed
    then show ?thesis using cur False enter by auto
  qed
next
  case (leave w n held)
  then show ?case by (auto simp: ws_release_def)
qed

text \<open>
  C35: the semaphore keeps the loads within the budget. With a budget of at least two chunks, the
  requests inside together need at most the budget; one that needs more than half of it runs
  alone, and small ones together need at most half. Nobody waits for nothing: when no request is
  inside, every admissible one enters, and a request beyond the budget is a \<open>ValueError\<close>. With a
  budget of one chunk the exclusion is lost: two requests are inside at the same time.
\<close>

theorem semaphore_keeps_budget:
  assumes "ws_reachable budget w held" and "1 < budget"
  shows "sum_mset held \<le> budget \<and> (\<forall>n \<in># held. budget div 2 < n \<longrightarrow> held = {#n#}) \<and>
    ((\<forall>n \<in># held. n \<le> budget div 2) \<longrightarrow> sum_mset held \<le> budget div 2) \<and>
    (held = {#} \<longrightarrow> (\<forall>n. 0 < n \<and> n \<le> budget \<longrightarrow> (\<exists>w'. ws_acquire n w = Inr (Some w')))) \<and>
    (\<forall>n. budget < n \<longrightarrow> ws_acquire n w = Inl ValueError) \<and>
    (\<exists>w'. ws_reachable 1 w' {#1, 1#})"
proof -
  note I = ws_reachable_inv[OF assms]
  have "ws_acquire 1 (ws_init 1) = Inr (Some (ws_init 1))" by (simp add: ws_acquire_def ws_init_def)
  then have "ws_reachable 1 (ws_init 1) {#1, 1#}"
    using ws_reachable.enter[of 1 "ws_init 1" _ 1 "ws_init 1"] ws_reachable.start[of 1] by auto
  moreover have "\<exists>w'. ws_acquire n w = Inr (Some w')" if "held = {#}" "0 < n" "n \<le> budget" for n
    using I that by (auto simp: ws_acquire_def)
  ultimately show ?thesis using I assms(2) by (auto simp: ws_acquire_def)
qed

theorem semaphore_keeps_budget_witness:
  "sum_mset {#3, 2#} \<le> (10::int) \<and> (\<exists>w'. ws_reachable 1 w' {#1, 1#})"
proof -
  have "ws_reachable 10 \<lparr>ws_concurrent_cap = 5, ws_budget_cap = 10, ws_current = 0\<rparr> {#3, 2#}"
  proof -
    have a: "ws_acquire 2 (ws_init 10) = Inr (Some \<lparr>ws_concurrent_cap = 5, ws_budget_cap = 10, ws_current = 3\<rparr>)" by code_simp
    have b: "ws_acquire 3 \<lparr>ws_concurrent_cap = 5, ws_budget_cap = 10, ws_current = 3\<rparr>
      = Inr (Some \<lparr>ws_concurrent_cap = 5, ws_budget_cap = 10, ws_current = 0\<rparr>)" by code_simp
    show ?thesis using ws_reachable.enter[OF ws_reachable.enter[OF ws_reachable.start _ a] _ b] by simp
  qed
  then show ?thesis using semaphore_keeps_budget by fastforce
qed

end
