(* ===== verification/EngineLaws.thy ===== *)
theory EngineLaws
  imports Prefetch
begin

text \<open>
  What the engine relies on and what it gives. The locale \<open>kv_tiers\<close> states the contract of the
  storage below the engine: the tiers share the allocator; a ledger lists the references to memory
  objects that the running call holds; every object cached under a key has the data that belong to
  the key (\<open>truth\<close>). \<open>kv_engine\<close> adds the GPU connector. From these laws follow, once for all
  storages, what \<open>store\<close>, \<open>lookup\<close> and \<open>retrieve\<close> do; the theory \<open>Node\<close> discharges the laws for the
  CPU backend.
\<close>

declare map_of_eq_Some_iff [simp del] Some_eq_map_of_iff [simp del]

section \<open>The storage\<close>

definition somes :: "'a option list \<Rightarrow> 'a list" where
  "somes xs = map the (filter (\<lambda>x. x \<noteq> None) xs)"

lemma somes_simps [simp]: "somes [] = []" "somes (None # xs) = somes xs" "somes (Some x # xs) = x # somes xs"
  "somes (xs @ ys) = somes xs @ somes ys"
  by (simp_all add: somes_def)

lemma somes_all: "None \<notin> set xs \<Longrightarrow> somes xs = map the xs"
proof (induction xs)
  case (Cons x xs)
  then show ?case by (cases x) auto
qed simp

lemma filter_key: "od_wf xs \<Longrightarrow> (k, v) \<in> set xs \<Longrightarrow> filter (\<lambda>(n, b). n = k) xs = [(k, v)]"
proof (induction xs)
  case (Cons x xs)
  have "filter (\<lambda>(n, b). n = k) xs = []" if "k \<notin> fst ` set xs" using that by (force simp: filter_empty_conv)
  then show ?case using Cons by (cases x) (auto simp: rev_image_eqI)
qed simp

lemma somes_map_Some [simp]: "somes (map Some xs) = xs"
  by (induction xs) auto

locale kv_tiers =
  fixes sm :: "('s, 'k, 'o, 'q) storage_manager"
    and al :: "('s, 'k, 'o, 'q) allocator"
    and inv :: "'o list \<Rightarrow> 's \<Rightarrow> bool"
    and stored :: "'s \<Rightarrow> string \<Rightarrow> 'k \<Rightarrow> bool"
    and data :: "'s \<Rightarrow> 'o \<Rightarrow> 'b list"
    and room :: "'s \<Rightarrow> 'o \<Rightarrow> nat"
    and fresh :: "'s \<Rightarrow> 'o \<Rightarrow> bool"
    and truth :: "'k \<Rightarrow> 'b list"
    and fits :: "'q \<Rightarrow> nat \<Rightarrow> bool"
  assumes tiers: "storage_tiers (sm_backends sm) (inv held) stored"
    and manager: "sm_allocator sm = Some al" "\<not> sm_freeze sm" "sm_bypassed sm = {}"
    and one_allocator: "(name, b) \<in> set (sm_backends sm) \<Longrightarrow> be_allocator b = Inr al"
    and allocate: "inv held s \<Longrightarrow> fits q n \<Longrightarrow>
      \<exists>s' r. al_allocate al q True False s = (s', Inr r) \<and>
        (case r of None \<Rightarrow> inv held s' | Some ob \<Rightarrow> inv (held @ [ob]) s' \<and> ob \<notin> set held \<and> fresh s' ob \<and> room s' ob = n) \<and>
        (\<forall>ob \<in> set held. room s' ob = room s ob \<and> (fresh s ob \<longrightarrow> fresh s' ob))"
    and put: "(name, b) \<in> set (sm_backends sm) \<Longrightarrow> inv held s \<Longrightarrow> set objs \<subseteq> set held \<Longrightarrow> length keys = length objs \<Longrightarrow>
      (\<forall>(k, ob) \<in> set (zip keys objs). data s ob = truth k) \<Longrightarrow>
      \<exists>s'. be_batched_submit_put_task b keys objs s = (s', Inr ()) \<and> inv held s' \<and>
        (\<forall>ob \<in> set held. data s' ob = data s ob) \<and> (\<forall>k \<in> set keys. stored s' name k) \<and>
        (\<forall>n k. stored s n k \<longrightarrow> stored s' n k)"
    and get: "(name, b) \<in> set (sm_backends sm) \<Longrightarrow> inv held s \<Longrightarrow>
      \<exists>s' objs. be_batched_get_blocking b keys s = (s', Inr objs) \<and> length objs = length keys \<and> inv (held @ somes objs) s' \<and>
        (\<forall>ob \<in> set held. data s' ob = data s ob) \<and>
        (\<forall>j < length keys. case objs ! j of None \<Rightarrow> \<not> stored s name (keys ! j)
                             | Some ob \<Rightarrow> stored s name (keys ! j) \<and> data s' ob = truth (keys ! j)) \<and>
        stored s' = stored s"
    and release: "inv held s \<Longrightarrow> ob \<in> set held \<Longrightarrow>
      inv (remove1 ob held) (oo_ref_count_down (sm_ops sm) ob s) \<and> stored (oo_ref_count_down (sm_ops sm) ob s) = stored s"
    and reorder: "inv held s \<Longrightarrow> mset held' = mset held \<Longrightarrow> inv held' s"
begin

text \<open>Every backend is active, and gets the very objects that were passed.\<close>

lemma all_active: "get_active_storage_backends None None sm = sm_backends sm"
  using manager by (auto simp: get_active_storage_backends_def backend_active_def)

lemma put_loop_ok:
  assumes "set bs \<subseteq> set (sm_backends sm)" and "inv held s" and "set objs \<subseteq> set held" and "length keys = length objs"
    and "\<forall>(k, ob) \<in> set (zip keys objs). data s ob = truth k" and "map_of obj_dict (al_name al) = Some (keys, objs)"
  shows "\<exists>s'. put_loop (sm_ops sm) (\<lambda>name. False) keys objs bs obj_dict s = (s', Inr obj_dict) \<and> inv held s' \<and>
    (\<forall>name \<in> fst ` set bs. \<forall>k \<in> set keys. stored s' name k) \<and> (\<forall>n k. stored s n k \<longrightarrow> stored s' n k)"
  using assms
proof (induction bs arbitrary: s)
  case (Cons nb bs)
  obtain name b where nb: "nb = (name, b)" by (cases nb)
  obtain s1 where s1: "be_batched_submit_put_task b keys objs s = (s1, Inr ())" "inv held s1"
      "\<forall>ob \<in> set held. data s1 ob = data s ob" "\<forall>k \<in> set keys. stored s1 name k" "\<forall>n k. stored s n k \<longrightarrow> stored s1 n k"
    using put[of name b held s objs keys] Cons.prems nb by auto
  have d: "\<forall>(k, ob) \<in> set (zip keys objs). data s1 ob = truth k"
    using Cons.prems(3,5) s1(3) set_zip_rightD by fastforce
  have a: "be_allocator b = Inr al" using one_allocator Cons.prems(1) nb by auto
  obtain s2 where s2: "put_loop (sm_ops sm) (\<lambda>name. False) keys objs bs obj_dict s1 = (s2, Inr obj_dict)" "inv held s2"
      "\<forall>name \<in> fst ` set bs. \<forall>k \<in> set keys. stored s2 name k" "\<forall>n k. stored s1 n k \<longrightarrow> stored s2 n k"
    using Cons.IH[OF _ s1(2) Cons.prems(3,4) d Cons.prems(6)] Cons.prems(1) by auto
  have "put_loop (sm_ops sm) (\<lambda>name. False) keys objs (nb # bs) obj_dict s = (s2, Inr obj_dict)"
    using a s1(1) s2(1) Cons.prems(6) nb by simp
  with s1 s2 nb show ?case by auto
qed simp

lemma release_all:
  assumes "inv (objs @ held) s"
  shows "inv held (fold (oo_ref_count_down (sm_ops sm)) objs s) \<and> stored (fold (oo_ref_count_down (sm_ops sm)) objs s) = stored s"
  using assms
proof (induction objs arbitrary: s)
  case (Cons ob objs)
  from release[OF Cons.prems, of ob] have "inv (objs @ held) (oo_ref_count_down (sm_ops sm) ob s)"
      "stored (oo_ref_count_down (sm_ops sm) ob s) = stored s" by simp_all
  with Cons.IH show ?case by simp
qed simp

lemma batched_put_ok:
  assumes "inv (held @ objs) s" and "length keys = length objs" and "\<forall>(k, ob) \<in> set (zip keys objs). data s ob = truth k"
  shows "\<exists>s'. sm_batched_put keys objs None sm s = (s', Inr ()) \<and> inv held s' \<and>
    (\<forall>name \<in> fst ` set (sm_backends sm). \<forall>k \<in> set keys. stored s' name k) \<and> (\<forall>n k. stored s n k \<longrightarrow> stored s' n k)"
proof -
  obtain s1 where s1: "put_loop (sm_ops sm) (\<lambda>name. False) keys objs (sm_backends sm) [(al_name al, (keys, objs))] s
      = (s1, Inr [(al_name al, (keys, objs))])" "inv (held @ objs) s1"
      "\<forall>name \<in> fst ` set (sm_backends sm). \<forall>k \<in> set keys. stored s1 name k" "\<forall>n k. stored s n k \<longrightarrow> stored s1 n k"
    using put_loop_ok[OF subset_refl assms(1) _ assms(2,3), of "[(al_name al, (keys, objs))]"] by auto
  have "inv (objs @ held) s1" by (rule reorder[OF s1(2)]) simp
  from release_all[OF this] have r: "inv held (fold (oo_ref_count_down (sm_ops sm)) objs s1)"
      "stored (fold (oo_ref_count_down (sm_ops sm)) objs s1) = stored s1" by simp_all
  have "sm_batched_put keys objs None sm s = (fold (oo_ref_count_down (sm_ops sm)) objs s1, Inr ())"
    using s1(1) manager(1,3) by (simp add: sm_batched_put_def)
  with r s1(3,4) show ?thesis by auto
qed

text \<open>A batched read at a location; what it finds outside the CPU is written back to it.\<close>

lemma batched_get_ok:
  assumes b: "(location, b) \<in> set (sm_backends sm)" and i: "inv held s" and "location \<noteq> []" and "keys \<noteq> []"
  shows "\<exists>s' objs. sm_batched_get keys (Some location) sm s = (s', Inr objs) \<and> length objs = length keys \<and> inv (held @ somes objs) s' \<and>
    (\<forall>ob \<in> set held. data s' ob = data s ob) \<and>
    (\<forall>j < length keys. case objs ! j of None \<Rightarrow> \<not> stored s location (keys ! j)
                         | Some ob \<Rightarrow> stored s location (keys ! j) \<and> data s' ob = truth (keys ! j)) \<and>
    (\<forall>n k. stored s n k \<longrightarrow> stored s' n k)"
proof -
  have d: "distinct (map fst (sm_backends sm))" using tiers by (simp add: storage_tiers_def)
  have "filter (\<lambda>(name, b). name = location) (sm_backends sm) = [(location, b)]" by (rule filter_key[OF d b])
  then have act: "get_active_storage_backends (Some location) None sm = [(location, b)]"
    using manager assms(3) by (simp add: get_active_storage_backends_def backend_active_def eq_commute[of location] cong: filter_cong)
  obtain s1 objs where g: "be_batched_get_blocking b keys s = (s1, Inr objs)" "length objs = length keys" "inv (held @ somes objs) s1"
      "\<forall>ob \<in> set held. data s1 ob = data s ob"
      "\<forall>j < length keys. case objs ! j of None \<Rightarrow> \<not> stored s location (keys ! j)
                         | Some ob \<Rightarrow> stored s location (keys ! j) \<and> data s1 ob = truth (keys ! j)" "stored s1 = stored s"
    using get[OF b i, of keys] by blast
  have ne: "objs \<noteq> []" using g(2) assms(4) by auto
  show ?thesis
  proof (cases "write_back location sm = None \<or> None \<in> set objs")
    case True
    then have "sm_batched_get keys (Some location) sm s = (s1, Inr objs)"
      using act g(1) ne by (auto simp: sm_batched_get_def split: option.splits)
    with g show ?thesis by auto
  next
    case False
    then obtain cpu where cpu: "write_back location sm = Some cpu" and all: "None \<notin> set objs" by auto
    have c: "(local_cpu, cpu) \<in> set (sm_backends sm)" using cpu by (auto simp: write_back_def split: if_splits dest: map_of_SomeD)
    have so: "somes objs = map the objs" by (rule somes_all[OF all])
    have nth: "objs ! j = Some (the (objs ! j))" if "j < length keys" for j
      using that all g(2) by (metis not_Some_eq nth_mem option.sel)
    have "data s1 ob = truth k" if h: "(k, ob) \<in> set (zip keys (map the objs))" for k ob
    proof -
      obtain j where j: "j < length keys" "k = keys ! j" "ob = the (objs ! j)" using h g(2) by (auto simp: set_zip)
      have "objs ! j = Some ob" using nth[OF j(1)] j(3) by simp
      then show ?thesis using g(5)[rule_format, OF j(1)] j(2) by simp
    qed
    then have "\<forall>(k, ob) \<in> set (zip keys (map the objs)). data s1 ob = truth k" by blast
    then obtain s2 where p: "be_batched_submit_put_task cpu keys (map the objs) s1 = (s2, Inr ())" "inv (held @ somes objs) s2"
        "\<forall>ob \<in> set (held @ somes objs). data s2 ob = data s1 ob" "\<forall>n k. stored s1 n k \<longrightarrow> stored s2 n k"
      using put[OF c g(3), of "map the objs" keys] g(2) so by auto
    have "sm_batched_get keys (Some location) sm s = (s2, Inr objs)"
      using act g(1) ne cpu all p(1) by (simp add: sm_batched_get_def)
    moreover have "case objs ! j of None \<Rightarrow> \<not> stored s location (keys ! j)
        | Some ob \<Rightarrow> stored s location (keys ! j) \<and> data s2 ob = truth (keys ! j)" if j: "j < length keys" for j
    proof -
      have "the (objs ! j) \<in> set (somes objs)" using so j g(2) by simp
      then have "data s2 (the (objs ! j)) = data s1 (the (objs ! j))" using p(3) by simp
      then show ?thesis using g(5)[rule_format, OF j] by (cases "objs ! j") auto
    qed
    moreover have "\<forall>n k. stored s n k \<longrightarrow> stored s2 n k" using p(4) g(6) by simp
    ultimately show ?thesis using p g by auto
  qed
qed

end

section \<open>The engine\<close>

text \<open>\<open>log\<close> is what the GPU has received; \<open>content start end\<close> is what it holds for the tokens of a
  chunk that it stores.\<close>

locale kv_engine =
  fixes sm :: "('s, 'k, 'o, 'q) storage_manager"
    and al :: "('s, 'k, 'o, 'q) allocator"
    and inv :: "(int \<times> int \<times> 'b list) list \<Rightarrow> 'o list \<Rightarrow> 's \<Rightarrow> bool"
    and stored :: "'s \<Rightarrow> string \<Rightarrow> 'k \<Rightarrow> bool"
    and data :: "'s \<Rightarrow> 'o \<Rightarrow> 'b list"
    and room :: "'s \<Rightarrow> 'o \<Rightarrow> nat"
    and fresh :: "'s \<Rightarrow> 'o \<Rightarrow> bool"
    and truth :: "'k \<Rightarrow> 'b list"
    and fits :: "'q \<Rightarrow> nat \<Rightarrow> bool"
    and env :: "('s, 'k, 'o, 'q, 't, 'h) engine_env"
    and content :: "int \<Rightarrow> int \<Rightarrow> 'b list"
  assumes storage: "kv_tiers sm al (inv log) stored data room fresh truth fits"
    and flags: "ee_healthy env" "ee_has_gpu env" "\<not> is_passive env" "\<not> ee_force_store_wait env"
      "\<not> ee_remove_after_retrieve env" "\<not> ee_use_layerwise env"
    and names: "[] \<notin> fst ` set (sm_backends sm)"
    and from_gpu: "inv log held s \<Longrightarrow> set objs \<subseteq> set held \<Longrightarrow> distinct objs \<Longrightarrow> \<forall>ob \<in> set objs. fresh s ob \<Longrightarrow>
      length as = length objs \<Longrightarrow> length bs = length objs \<Longrightarrow>
      \<forall>j < length objs. room s (objs ! j) = length (content (as ! j) (bs ! j)) \<Longrightarrow>
      \<exists>s'. ee_from_gpu env objs as bs s = (s', Inr ()) \<and> inv log held s' \<and> stored s' = stored s \<and>
        (\<forall>j < length objs. data s' (objs ! j) = content (as ! j) (bs ! j))"
    and to_gpu: "inv log held s \<Longrightarrow> set objs \<subseteq> set held \<Longrightarrow> length as = length objs \<Longrightarrow> length bs = length objs \<Longrightarrow>
      \<exists>s'. ee_to_gpu env objs as bs s = (s', Inr ()) \<and> stored s' = stored s \<and>
        inv (log @ map (\<lambda>(ob, a, b). (a, b, data s ob)) (zip objs (zip as bs))) held s'"
begin

text \<open>A chunk to store: there is a request for it, and the GPU holds what belongs to its key.\<close>

definition storable :: "int \<times> int \<times> 'k \<Rightarrow> bool" where
  "storable c = (case c of (a, b, k) \<Rightarrow> fits (ee_request env (b - a)) (length (content a b)) \<and> content a b = truth k)"

lemma sm_allocate_eq: "sm_allocate q ev bl sm = al_allocate al q ev bl"
  using kv_tiers.manager(1)[OF storage] by (simp add: sm_allocate_def fun_eq_iff)

definition loop_post ::
  "(int \<times> int \<times> 'b list) list \<Rightarrow> 'o list \<Rightarrow> 'o list \<Rightarrow> (int \<times> int \<times> 'k) list \<Rightarrow> ('s, 'k, 'o, 'q, 't, 'h) engine
    \<Rightarrow> ('s, 'k, 'o, 'q, 't, 'h) engine \<Rightarrow> (int \<times> int \<times> 'k \<times> 'o) list \<Rightarrow> bool" where
  "loop_post log base held chunks en en' acc \<longleftrightarrow>
     map (\<lambda>(a, b, k, ob). (a, b, k)) acc = take (length acc) chunks \<and>
     inv log (base @ held @ map (\<lambda>(a, b, k, ob). ob) acc) (en_world en') \<and> distinct (held @ map (\<lambda>(a, b, k, ob). ob) acc) \<and>
     (\<forall>ob \<in> set held. fresh (en_world en') ob \<and> room (en_world en') ob = room (en_world en) ob) \<and>
     (\<forall>(a, b, k, ob) \<in> set acc. fresh (en_world en') ob \<and> room (en_world en') ob = length (content a b)) \<and>
     en_sm en' = en_sm en \<and> en_lookup_pins en' = en_lookup_pins en \<and> en_events en' = en_events en"

text \<open>The loop over the first \<open>length acc\<close> chunks ends in a state in which the allocation for the next chunk
  returns nothing.\<close>

definition loop_stops ::
  "(int \<times> int \<times> 'b list) list \<Rightarrow> 'o list \<Rightarrow> ('t, 'h) token_args \<Rightarrow> (int \<times> int \<times> 'k) list \<Rightarrow> 'h
    \<Rightarrow> (int \<times> int \<times> 'k \<times> 'o) list \<Rightarrow> ('s, 'k, 'o, 'q, 't, 'h) engine \<Rightarrow> (int \<times> int \<times> 'k \<times> 'o) list \<Rightarrow> bool" where
  "loop_stops log held args chunks prev acc0 en acc \<longleftrightarrow>
     (\<exists>en' s'. store_loop env sm args (take (length acc) chunks) prev acc0 en = (en', Inr (acc0 @ acc, False)) \<and>
        inv log (held @ map (\<lambda>(a, b, k, ob). ob) acc) (en_world en') \<and>
        (case chunks ! length acc of (a, b, k) \<Rightarrow> al_allocate al (ee_request env (b - a)) True False (en_world en') = (s', Inr None)))"

lemma store_loop_ok:
  assumes "inv log (base @ held) (en_world en)" and "distinct held" and "\<forall>ob \<in> set held. fresh (en_world en) ob" and "list_all storable chunks"
  shows "\<exists>en' acc broke. store_loop env sm args chunks prev acc0 en = (en', Inr (acc0 @ acc, broke)) \<and> loop_post log base held chunks en en' acc \<and>
    broke = (length acc < length chunks) \<and>
    (length acc < length chunks \<longrightarrow> loop_stops log (base @ held) args chunks prev acc0 en acc)"
  using assms
proof (induction chunks arbitrary: en held prev acc0)
  case Nil
  then show ?case by (intro exI[of _ en] exI[of _ "[]"] exI[of _ False]) (simp add: loop_post_def)
next
  case (Cons c chunks)
  obtain a b k where c: "c = (a, b, k)" by (cases c)
  have "storable (a, b, k)" using Cons.prems(4) c by simp
  then have fit: "fits (ee_request env (b - a)) (length (content a b))" unfolding storable_def by blast
  obtain s1 r where al: "al_allocate al (ee_request env (b - a)) True False (en_world en) = (s1, Inr r)"
    and r: "case r of None \<Rightarrow> inv log (base @ held) s1 | Some ob \<Rightarrow> inv log ((base @ held) @ [ob]) s1 \<and> ob \<notin> set (base @ held) \<and> fresh s1 ob \<and> room s1 ob = length (content a b)"
    and keep: "\<forall>ob \<in> set (base @ held). room s1 ob = room (en_world en) ob \<and> (fresh (en_world en) ob \<longrightarrow> fresh s1 ob)"
    using kv_tiers.allocate[OF storage Cons.prems(1) fit] by blast
  have w: "on_world (sm_allocate (ee_request env (b - a)) True (ee_force_store_wait env) sm) en = (en\<lparr>en_world := s1\<rparr>, Inr r)"
    using al flags(4) by (simp add: on_world_def sm_allocate_eq)
  show ?case
  proof (cases r)
    case None
    have "store_loop env sm args (c # chunks) prev acc0 en = (en\<lparr>en_world := s1\<rparr>, Inr (acc0 @ [], True))" using w None c by simp
    moreover have "inv log (base @ held) s1" using r None by simp
    then have "loop_post log base held (c # chunks) en (en\<lparr>en_world := s1\<rparr>) []"
      using keep Cons.prems(1,2,3) al c None by (auto simp: loop_post_def)
    moreover have "loop_stops log (base @ held) args (c # chunks) prev acc0 en []"
      using Cons.prems(1) al c None by (auto simp: loop_stops_def)
    ultimately show ?thesis by (intro exI[of _ "en\<lparr>en_world := s1\<rparr>"] exI[of _ "[]"] exI[of _ True]) simp
  next
    case (Some ob)
    have R: "inv log (base @ held @ [ob]) s1" "ob \<notin> set held" "fresh s1 ob" "room s1 ob = length (content a b)" using r Some by simp_all
    define en1 where "en1 = (let en = en\<lparr>en_world := s1\<rparr> in if ee_kv_events_enabled env
       then en\<lparr>en_kv_events := en_kv_events en @ [stored_event env args prev a b k]\<rparr> else en)"
    define prev1 where "prev1 = (if ee_kv_events_enabled env then ee_hash env k else prev)"
    have e1: "en_world en1 = s1" "en_sm en1 = en_sm en" "en_lookup_pins en1 = en_lookup_pins en" "en_events en1 = en_events en"
      by (simp_all add: en1_def Let_def)
    have P: "inv log (base @ held @ [ob]) (en_world en1)" "distinct (held @ [ob])" "\<forall>ob \<in> set (held @ [ob]). fresh (en_world en1) ob" "list_all storable chunks"
      using R keep Cons.prems(2,3,4) e1 by auto
    have step: "store_loop env sm args (c # cs) prev acc0 en = store_loop env sm args cs prev1 (acc0 @ [(a, b, k, ob)]) en1" for cs
      using w Some c by (simp add: en1_def prev1_def Let_def)
    obtain en' acc broke where ih: "store_loop env sm args chunks prev1 (acc0 @ [(a, b, k, ob)]) en1 = (en', Inr ((acc0 @ [(a, b, k, ob)]) @ acc, broke))"
      "loop_post log base (held @ [ob]) chunks en1 en' acc" "broke = (length acc < length chunks)"
      "length acc < length chunks \<longrightarrow> loop_stops log (base @ held @ [ob]) args chunks prev1 (acc0 @ [(a, b, k, ob)]) en1 acc"
      using Cons.IH[OF P] by blast
    have "loop_post log base held (c # chunks) en en' ((a, b, k, ob) # acc)"
      using ih(2) R keep e1 c unfolding loop_post_def by simp
    moreover have "loop_stops log (base @ held) args (c # chunks) prev acc0 en ((a, b, k, ob) # acc)" if h: "length acc < length chunks"
      using ih(4) h step[of "take (length acc) chunks"] unfolding loop_stops_def by simp
    ultimately show ?thesis using step[of chunks] ih(1,3)
      by (intro exI[of _ en'] exI[of _ "(a, b, k, ob) # acc"] exI[of _ broke]) simp
  qed
qed

lemma store_put_ok:
  assumes L: "loop_post log held [] chunks en en1 acc" and c: "list_all storable chunks"
  shows "\<exists>s'. store_put env sm acc en1 = (en1\<lparr>en_world := s'\<rparr>, Inr ()) \<and> inv log held s' \<and>
    (\<forall>name \<in> fst ` set (sm_backends sm). \<forall>(a, b, k) \<in> set (take (length acc) chunks). stored s' name k)"
proof -
  have L: "map (\<lambda>(a, b, k, ob). (a, b, k)) acc = take (length acc) chunks"
    "inv log (held @ map (\<lambda>(a, b, k, ob). ob) acc) (en_world en1)" "distinct (map (\<lambda>(a, b, k, ob). ob) acc)"
    "\<forall>(a, b, k, ob) \<in> set acc. fresh (en_world en1) ob \<and> room (en_world en1) ob = length (content a b)"
    using L unfolding loop_post_def append_Nil by blast+
  have len: "length acc \<le> length chunks" using arg_cong[OF L(1), of length] by simp
  show ?thesis
  proof (cases "acc = []")
    case True
    then show ?thesis using L(2) by (intro exI[of _ "en_world en1"]) (simp add: store_put_def)
  next
    case False
    let ?objs = "map (\<lambda>(a, b, k, ob). ob) acc" and ?keys = "map (\<lambda>(a, b, k, ob). k) acc"
    have ch: "\<And>j. j < length acc \<Longrightarrow> storable (chunks ! j)" using c len by (simp add: list_all_length)
    have nth: "chunks ! j = (fst (acc ! j), fst (snd (acc ! j)), fst (snd (snd (acc ! j))))" if "j < length acc" for j
    proof -
      have "take (length acc) chunks ! j = map (\<lambda>(a, b, k, ob). (a, b, k)) acc ! j" using L(1) by simp
      then show ?thesis using that by (simp add: case_prod_beta)
    qed
    have rm: "\<forall>j < length ?objs. room (en_world en1) (?objs ! j) = length (content (map fst acc ! j) (map (fst \<circ> snd) acc ! j))"
      using L(4) by (fastforce simp: case_prod_beta dest: nth_mem)
    have fr: "\<forall>ob \<in> set ?objs. fresh (en_world en1) ob" using L(4) by (auto simp: case_prod_beta)
    obtain s2 where g: "ee_from_gpu env ?objs (map fst acc) (map (fst \<circ> snd) acc) (en_world en1) = (s2, Inr ())" "inv log (held @ ?objs) s2"
      "stored s2 = stored (en_world en1)" "\<forall>j < length ?objs. data s2 (?objs ! j) = content (map fst acc ! j) (map (fst \<circ> snd) acc ! j)"
      using from_gpu[of log "held @ ?objs" "en_world en1" ?objs "map fst acc" "map (fst \<circ> snd) acc"] L(2,3) fr rm by auto
    have d: "\<forall>(k, ob) \<in> set (zip ?keys ?objs). data s2 ob = truth k"
      using g(4) ch nth by (auto simp: set_zip case_prod_beta storable_def)
    obtain s3 where q: "sm_batched_put ?keys ?objs None sm s2 = (s3, Inr ())" "inv log held s3"
      "\<forall>name \<in> fst ` set (sm_backends sm). \<forall>k \<in> set ?keys. stored s3 name k"
      using kv_tiers.batched_put_ok[OF storage g(2) _ d] by auto
    have "store_put env sm acc en1 = (en1\<lparr>en_world := s3\<rparr>, Inr ())"
      using False g(1) q(1) by (simp add: store_put_def Let_def on_world_def comp_def)
    moreover have "\<forall>name \<in> fst ` set (sm_backends sm). \<forall>(a, b, k) \<in> set (take (length acc) chunks). stored s3 name k"
      using q(3) unfolding L(1)[symmetric] by (auto simp: case_prod_beta)
    ultimately show ?thesis using q(2) by blast
  qed
qed

lemma store_ok:
  assumes i: "inv log held (en_world en)" and sm: "en_sm en = Some sm" and a: "store_args_ok args" and p: "ee_process env args = (chunks, None)"
    and c: "list_all storable chunks"
  shows "\<exists>en' m. store env args en = (en', Inr ()) \<and> m \<le> length chunks \<and> inv log held (en_world en') \<and> en_sm en' = Some sm \<and>
    en_lookup_pins en' = en_lookup_pins en \<and> en_events en' = en_events en \<and>
    (\<forall>name \<in> fst ` set (sm_backends sm). \<forall>(a, b, k) \<in> set (take m chunks). stored (en_world en') name k) \<and>
    (m < length chunks \<longrightarrow> (\<exists>acc. length acc = m \<and> loop_stops log held args chunks (ee_no_hash env) [] en acc))"
proof -
  have n: "distinct []" "\<forall>ob \<in> set []. fresh (en_world en) ob" by simp_all
  have i0: "inv log (held @ []) (en_world en)" using i by simp
  obtain en1 acc broke where L0: "store_loop env sm args chunks (ee_no_hash env) [] en = (en1, Inr ([] @ acc, broke))"
    "loop_post log held [] chunks en en1 acc" "broke = (length acc < length chunks)"
    "length acc < length chunks \<longrightarrow> loop_stops log (held @ []) args chunks (ee_no_hash env) [] en acc"
    using store_loop_ok[OF i0 n c] by blast
  have L: "map (\<lambda>(a, b, k, ob). (a, b, k)) acc = take (length acc) chunks"
    "en_sm en1 = en_sm en" "en_lookup_pins en1 = en_lookup_pins en" "en_events en1 = en_events en"
    using L0(2) unfolding loop_post_def append_Nil by blast+
  have stop: "length acc < length chunks \<Longrightarrow> loop_stops log held args chunks (ee_no_hash env) [] en acc" using L0(4) by simp
  have fr: "\<not> is_frozen en" using sm kv_tiers.manager(2)[OF storage] by (simp add: is_frozen_def)
  have s: "store env args en = store_put env sm acc en1"
    using flags(1-3) sm a fr p L0(1) by (cases broke) (simp_all add: store_def)
  have len: "length acc \<le> length chunks" using arg_cong[OF L(1), of length] by simp
  obtain s3 where q: "store_put env sm acc en1 = (en1\<lparr>en_world := s3\<rparr>, Inr ())" "inv log held s3"
    "\<forall>name \<in> fst ` set (sm_backends sm). \<forall>(a, b, k) \<in> set (take (length acc) chunks). stored s3 name k"
    using store_put_ok[OF L0(2) c] by blast
  show ?thesis using s q L(2-4) sm len stop by (intro exI[of _ "en1\<lparr>en_world := s3\<rparr>"] exI[of _ "length acc"]) auto
qed

end

lemma take_blocks_all:
  assumes "length ms = length blocks" and "None \<notin> set ms"
  shows "take_blocks blocks ms failed chunks msk =
    (failed, chunks @ map (\<lambda>((k, a, b), m). (k, the m, a, b)) (zip blocks ms), fold (\<lambda>(k, a, b). mask_set a b) blocks msk)"
  using assms
proof (induction ms blocks arbitrary: chunks msk rule: list_induct2)
  case (Cons m ms blk blocks)
  then show ?case by (cases blk; cases m) auto
qed simp

context kv_engine
begin

lemma fetch_ok:
  assumes "inv log held s"
    and "\<forall>(n, cs) \<in> set sp. n \<in> fst ` set (sm_backends sm) \<and> cs \<noteq> [] \<and> (\<forall>c \<in> set cs. stored s n (fst c))"
  shows "\<exists>s' acc. fetch_blocks sm sp None chunks msk s =
      (s', Inr (None, chunks @ acc, fold (\<lambda>(k, a, b). mask_set a b) (concat (map snd sp)) msk)) \<and>
    map (\<lambda>(k, ob, a, b). (k, a, b)) acc = concat (map snd sp) \<and> inv log (held @ map (\<lambda>(k, ob, a, b). ob) acc) s' \<and>
    (\<forall>ob \<in> set held. data s' ob = data s ob) \<and> (\<forall>(k, ob, a, b) \<in> set acc. data s' ob = truth k) \<and>
    (\<forall>n k. stored s n k \<longrightarrow> stored s' n k)"
  using assms
proof (induction sp arbitrary: held s chunks msk)
  case Nil
  then show ?case by (intro exI[of _ s] exI[of _ "[]"]) simp
next
  case (Cons x sp)
  obtain n cs where x: "x = (n, cs)" by (cases x)
  obtain b where b: "(n, b) \<in> set (sm_backends sm)" and cs: "cs \<noteq> []" "\<forall>c \<in> set cs. stored s n (fst c)"
    using Cons.prems(2) x by auto
  have "n \<noteq> []" using names b by force
  obtain s1 objs where g: "sm_batched_get (map fst cs) (Some n) sm s = (s1, Inr objs)" "length objs = length (map fst cs)"
      "inv log (held @ somes objs) s1" "\<forall>ob \<in> set held. data s1 ob = data s ob"
      "\<forall>j < length (map fst cs). case objs ! j of None \<Rightarrow> \<not> stored s n (map fst cs ! j)
                         | Some ob \<Rightarrow> stored s n (map fst cs ! j) \<and> data s1 ob = truth (map fst cs ! j)"
      "\<forall>n k. stored s n k \<longrightarrow> stored s1 n k"
    using kv_tiers.batched_get_ok[OF storage b Cons.prems(1) \<open>n \<noteq> []\<close>, of "map fst cs"] cs(1) by auto
  have some: "objs ! j \<noteq> None" if "j < length cs" for j
    using g(5)[rule_format, of j] that cs(2) by (auto split: option.splits)
  then have all: "None \<notin> set objs" using g(2) by (metis in_set_conv_nth length_map)
  let ?new = "map (\<lambda>((k, a, b), m). (k, the m, a, b)) (zip cs objs)"
  let ?msk = "fold (\<lambda>(k, a, b). mask_set a b) cs msk"
  have tb: "take_blocks cs objs None chunks msk = (None, chunks @ ?new, ?msk)" by (rule take_blocks_all[OF _ all]) (use g(2) in simp)
  have obs: "map (\<lambda>(k, ob, a, b). ob) ?new = somes objs"
    unfolding somes_all[OF all] by (rule nth_equalityI) (use g(2) in \<open>simp_all add: case_prod_beta\<close>)
  have ks: "map (\<lambda>(k, ob, a, b). (k, a, b)) ?new = cs"
    using g(2) by (simp add: case_prod_beta comp_def)
  have new: "data s1 ob = truth k" if h: "(k, ob, a, c) \<in> set ?new" for k ob a c
  proof -
    obtain m where m: "((k, a, c), m) \<in> set (zip cs objs)" "the m = ob" using h by auto
    then obtain j where j: "j < length cs" "cs ! j = (k, a, c)" "the (objs ! j) = ob" by (auto simp: in_set_zip)
    then show ?thesis using g(5)[rule_format, of j] some[OF j(1)] by auto
  qed
  have P: "\<forall>(n, cs) \<in> set sp. n \<in> fst ` set (sm_backends sm) \<and> cs \<noteq> [] \<and> (\<forall>c \<in> set cs. stored s1 n (fst c))"
    using Cons.prems(2) g(6) by fastforce
  obtain s2 acc where ih: "fetch_blocks sm sp None (chunks @ ?new) ?msk s1 =
      (s2, Inr (None, (chunks @ ?new) @ acc, fold (\<lambda>(k, a, b). mask_set a b) (concat (map snd sp)) ?msk))"
    "map (\<lambda>(k, ob, a, b). (k, a, b)) acc = concat (map snd sp)"
    "inv log ((held @ somes objs) @ map (\<lambda>(k, ob, a, b). ob) acc) s2"
    "\<forall>ob \<in> set (held @ somes objs). data s2 ob = data s1 ob" "\<forall>(k, ob, a, b) \<in> set acc. data s2 ob = truth k"
    "\<forall>n k. stored s1 n k \<longrightarrow> stored s2 n k"
    using Cons.IH[OF g(3) P, of "chunks @ ?new" ?msk] by blast
  have new2: "data s2 ob = truth k" if h: "(k, ob, a, c) \<in> set ?new" for k ob a c
  proof -
    have "ob \<in> set (map (\<lambda>(k, ob, a, b). ob) ?new)" using h by force
    then have "ob \<in> set (held @ somes objs)" unfolding obs by simp
    then show ?thesis using new[OF h] ih(4) by simp
  qed
  show ?case
  proof (intro exI conjI)
    show "fetch_blocks sm (x # sp) None chunks msk s =
        (s2, Inr (None, chunks @ (?new @ acc), fold (\<lambda>(k, a, b). mask_set a b) (concat (map snd (x # sp))) msk))"
      using g(1) tb ih(1) x by simp
    show "map (\<lambda>(k, ob, a, b). (k, a, b)) (?new @ acc) = concat (map snd (x # sp))" using ks ih(2) x by simp
    show "inv log (held @ map (\<lambda>(k, ob, a, b). ob) (?new @ acc)) s2" using ih(3) obs by simp
    show "\<forall>ob \<in> set held. data s2 ob = data s ob" using ih(4) g(4) by simp
    show "\<forall>(k, ob, a, b) \<in> set (?new @ acc). data s2 ob = truth k" using new2 ih(5) by (auto simp del: set_map)
    show "\<forall>n k. stored s n k \<longrightarrow> stored s2 n k" using g(6) ih(6) by blast
  qed
qed

end

context kv_engine
begin

lemma release_chunks_ok:
  assumes "inv log (map (\<lambda>c. fst (snd c)) chunks @ held) (en_world en)"
  shows "\<exists>s'. release_chunks env (sm_ops sm) chunks en = (en\<lparr>en_world := s'\<rparr>, Inr ()) \<and> inv log held s' \<and> stored s' = stored (en_world en)"
  using assms
proof (induction chunks arbitrary: en)
  case Nil
  then show ?case by (intro exI[of _ "en_world en"]) simp
next
  case (Cons c chunks)
  obtain k ob a b where c: "c = (k, ob, a, b)" by (cases c)
  let ?s = "oo_ref_count_down (sm_ops sm) ob (en_world en)"
  have r: "inv log (map (\<lambda>c. fst (snd c)) chunks @ held) ?s" "stored ?s = stored (en_world en)"
    using kv_tiers.release[OF storage Cons.prems, of ob] c by (simp_all add: comp_def)
  obtain s' where s': "release_chunks env (sm_ops sm) chunks (en\<lparr>en_world := ?s\<rparr>) = (en\<lparr>en_world := ?s, en_world := s'\<rparr>, Inr ())"
      "inv log held s'" "stored s' = stored ?s"
    using Cons.IH[of "en\<lparr>en_world := ?s\<rparr>"] r by auto
  show ?case using s' r(2) c flags(5) by (intro exI[of _ s']) simp
qed

text \<open>The tiers over which the keys of a request are split, and the number of chunks they cover.\<close>

abbreviation hits_of :: "'s \<Rightarrow> (int \<times> int \<times> 'k) list \<Rightarrow> nat" where
  "hits_of s chunks \<equiv> split_hits (tier_split (stored s) (map fst (sm_backends sm)) (map (snd \<circ> snd) chunks))"

lemma lookup_ok:
  assumes i: "inv log held (en_world en)" and sm: "en_sm en = Some sm" and t: "ta_tokens args \<noteq> None"
    and p: "ee_process env (lookup_args args) = (chunks, None)"
  shows "\<exists>s'. lookup env args None None False en = (en\<lparr>en_world := s'\<rparr>, Inr (last_end (hits_of (en_world en) chunks) chunks 0)) \<and>
    inv log held s' \<and> stored s' = stored (en_world en)"
proof -
  let ?keys = "map (snd \<circ> snd) chunks"
  have d: "distinct (map fst (sm_backends sm))" using kv_tiers.tiers[OF storage] by (simp add: storage_tiers_def)
  obtain s' where c: "batched_contains_loop (sm_backends sm) ?keys False (length ?keys) 0 [] (en_world en) =
      (s', Inr (0 + hits_of (en_world en) chunks, [] @ tier_split (stored (en_world en)) (map fst (sm_backends sm)) ?keys))"
      "inv log held s'" "stored s' = stored (en_world en)"
    using storage_tiers.contains_loop_split[OF kv_tiers.tiers[OF storage] subset_refl d _ i, of "[]" "length ?keys" 0 ?keys False] by auto
  have "sm_batched_contains ?keys None False sm (en_world en) =
      (s', Inr (hits_of (en_world en) chunks, tier_split (stored (en_world en)) (map fst (sm_backends sm)) ?keys))"
    using c(1) kv_tiers.all_active[OF storage] by (simp add: sm_batched_contains_def)
  then have "lookup env args None None False en = (en\<lparr>en_world := s'\<rparr>, Inr (last_end (hits_of (en_world en) chunks) chunks 0))"
    using flags(1,6) sm t p by (simp add: lookup_def finally_touch_def lookup_chunks_def on_world_def)
  with c(2,3) show ?thesis by blast
qed

lemma retrieve_ok:
  assumes i: "inv log held (en_world en)" and sm: "en_sm en = Some sm"
    and p: "ee_process env \<lparr> ta_tokens = Some tokens, ta_hashes = None, ta_offsets = None, ta_mask = msk \<rparr> = (chunks, None)"
    and r: "Option.bind req_id (map_of (en_lookup_pins en)) = None"
  shows "\<exists>s'. retrieve env (sm_ops sm) False tokens msk req_id en =
      (en\<lparr>en_world := s'\<rparr>, Inr (fold (\<lambda>(a, b, k). mask_set a b) (take (hits_of (en_world en) chunks) chunks) (replicate (length tokens) False))) \<and>
    inv (log @ map (\<lambda>(a, b, k). (a, b, truth k)) (take (hits_of (en_world en) chunks) chunks)) held s' \<and>
    (\<forall>n k. stored (en_world en) n k \<longrightarrow> stored s' n k)"
proof -
  let ?names = "map fst (sm_backends sm)" and ?s = "en_world en"
  let ?cs = "map (\<lambda>(a, b, k). (k, a, b)) chunks"
  let ?sp = "tier_split (\<lambda>n c. stored ?s n (fst c)) ?names ?cs"
  let ?msk = "replicate (length tokens) False"
  let ?hit = "take (hits_of ?s chunks) chunks"
  have d: "distinct ?names" using kv_tiers.tiers[OF storage] by (simp add: storage_tiers_def)
  have keys: "map fst ?cs = map (snd \<circ> snd) chunks" by (simp add: case_prod_beta comp_def)
  have sp: "map (\<lambda>(n, ys). (n, map fst ys)) ?sp = tier_split (stored ?s) ?names (map (snd \<circ> snd) chunks)"
    unfolding keys[symmetric] by (rule tier_split_map[symmetric])
  have "split_hits ?sp = hits_of ?s chunks"
    unfolding sp[symmetric] by (simp add: length_concat comp_def case_prod_beta)
  then have cat: "concat (map snd ?sp) = map (\<lambda>(a, b, k). (k, a, b)) ?hit"
    using tier_split_concat[of "\<lambda>n c. stored ?s n (fst c)" ?names ?cs] by (simp add: take_map)
  obtain s1 where bm: "block_mapping_loop (sm_backends sm) ?cs (map fst ?cs) 0 [] ?s = (s1, Inr ([] @ ?sp))" "inv log held s1" "stored s1 = stored ?s"
    using storage_tiers.mapping_loop_split[OF kv_tiers.tiers[OF storage] subset_refl d _ i, of "[]" 0 ?cs "map fst ?cs"] by auto
  have P: "\<forall>(n, cs) \<in> set ?sp. n \<in> fst ` set (sm_backends sm) \<and> cs \<noteq> [] \<and> (\<forall>c \<in> set cs. stored s1 n (fst c))"
    using tier_split_stored[of _ _ "\<lambda>n c. stored ?s n (fst c)" ?names ?cs] bm(3) by fastforce
  obtain s2 acc where f: "fetch_blocks sm ?sp None [] ?msk s1 = (s2, Inr (None, [] @ acc, fold (\<lambda>(k, a, b). mask_set a b) (concat (map snd ?sp)) ?msk))"
      "map (\<lambda>(k, ob, a, b). (k, a, b)) acc = concat (map snd ?sp)" "inv log (held @ map (\<lambda>(k, ob, a, b). ob) acc) s2"
      "\<forall>(k, ob, a, b) \<in> set acc. data s2 ob = truth k" "\<forall>n k. stored s1 n k \<longrightarrow> stored s2 n k"
    using fetch_ok[OF bm(2) P, of "[]" ?msk] by blast
  have map: "sm_get_block_mapping ?cs sm ?s = (s1, Inr ?sp)"
    using bm(1) kv_tiers.all_active[OF storage] by (simp add: sm_get_block_mapping_def)
  have block: "block_mapping_of req_id ?cs sm en = (en\<lparr>en_world := s1\<rparr>, Inr ?sp)"
    using r map by (simp add: block_mapping_of_def on_world_def)
  have msk: "fold (\<lambda>(k, a, b). mask_set a b) (concat (map snd ?sp)) ?msk = fold (\<lambda>(a, b, k). mask_set a b) ?hit ?msk"
    unfolding cat by (auto simp: fold_map comp_def intro!: fold_cong)
  have proc: "process_tokens_internal env \<lparr> ta_tokens = Some tokens, ta_hashes = None, ta_offsets = None, ta_mask = msk \<rparr> req_id ?msk en
      = (en\<lparr>en_world := s2\<rparr>, Inr (acc, fold (\<lambda>(a, b, k). mask_set a b) ?hit ?msk))"
    using sm p block f(1) msk by (simp add: process_tokens_internal_def on_world_def cut_failed_def)
  let ?rel = "map (\<lambda>(k, ob, a, b). (Some k, ob, a, b)) acc"
  have obs: "map (\<lambda>(k, ob, a, b). ob) ?rel = map (\<lambda>(k, ob, a, b). ob) acc" by (simp add: case_prod_beta)
  have obs': "map (\<lambda>c. fst (snd c)) ?rel = map (\<lambda>(k, ob, a, b). ob) ?rel" by (simp add: case_prod_beta comp_def)
  have new: "map (\<lambda>(k, ob, a, b). (a, b, data s2 ob)) acc = map (\<lambda>(a, b, k). (a, b, truth k)) ?hit"
  proof -
    have "map (\<lambda>(k, ob, a, b). (a, b, data s2 ob)) acc = map (\<lambda>(k, a, b). (a, b, truth k)) (map (\<lambda>(k, ob, a, b). (k, a, b)) acc)"
      using f(4) by (auto simp: case_prod_beta)
    then show ?thesis unfolding f(2) cat by (simp add: case_prod_beta comp_def)
  qed
  have gpu: "\<exists>s3. (if ?rel = [] then (en\<lparr>en_world := s2\<rparr>, Inr ())
       else on_world (ee_to_gpu env (map (\<lambda>(k, ob, a, b). ob) ?rel) (map (\<lambda>(k, ob, a, b). a) ?rel) (map (\<lambda>(k, ob, a, b). b) ?rel)) (en\<lparr>en_world := s2\<rparr>))
      = (en\<lparr>en_world := s3\<rparr>, Inr ()) \<and> stored s3 = stored s2 \<and>
        inv (log @ map (\<lambda>(a, b, k). (a, b, truth k)) ?hit) (held @ map (\<lambda>(k, ob, a, b). ob) ?rel) s3"
  proof (cases "acc = []")
    case True
    then have "map (\<lambda>(a, b, k). (a, b, truth k)) ?hit = []" using new by simp
    then show ?thesis using f(3) True by (intro exI[of _ s2]) (simp only: list.map append_Nil append_Nil2 if_True simp_thms)
  next
    case False
    have held: "inv log (held @ map (\<lambda>(k, ob, a, b). ob) ?rel) s2" using f(3) unfolding obs append_Nil .
    have sub: "set (map (\<lambda>(k, ob, a, b). ob) ?rel) \<subseteq> set (held @ map (\<lambda>(k, ob, a, b). ob) ?rel)" by simp
    have length_map2: "length (map f xs) = length (map g xs)" for f :: "'x \<Rightarrow> 'y" and g :: "'x \<Rightarrow> 'z" and xs by simp
    obtain s3 where g: "ee_to_gpu env (map (\<lambda>(k, ob, a, b). ob) ?rel) (map (\<lambda>(k, ob, a, b). a) ?rel) (map (\<lambda>(k, ob, a, b). b) ?rel) s2 = (s3, Inr ())"
      "stored s3 = stored s2" "inv (log @ map (\<lambda>(ob, a, b). (a, b, data s2 ob)) (zip (map (\<lambda>(k, ob, a, b). ob) ?rel)
         (zip (map (\<lambda>(k, ob, a, b). a) ?rel) (map (\<lambda>(k, ob, a, b). b) ?rel)))) (held @ map (\<lambda>(k, ob, a, b). ob) ?rel) s3"
      using to_gpu[OF held sub length_map2 length_map2] by blast
    have "map (\<lambda>(ob, a, b). (a, b, data s2 ob)) (zip (map (\<lambda>(k, ob, a, b). ob) ?rel)
         (zip (map (\<lambda>(k, ob, a, b). a) ?rel) (map (\<lambda>(k, ob, a, b). b) ?rel))) = map (\<lambda>(k, ob, a, b). (a, b, data s2 ob)) acc"
      by (simp add: zip_map_map zip_same_conv_map case_prod_beta comp_def)
    then show ?thesis using g False new by (intro exI[of _ s3]) (simp add: on_world_def)
  qed
  then obtain s3 where g: "(if ?rel = [] then (en\<lparr>en_world := s2\<rparr>, Inr ())
       else on_world (ee_to_gpu env (map (\<lambda>(k, ob, a, b). ob) ?rel) (map (\<lambda>(k, ob, a, b). a) ?rel) (map (\<lambda>(k, ob, a, b). b) ?rel)) (en\<lparr>en_world := s2\<rparr>))
      = (en\<lparr>en_world := s3\<rparr>, Inr ())" "stored s3 = stored s2"
        "inv (log @ map (\<lambda>(a, b, k). (a, b, truth k)) ?hit) (held @ map (\<lambda>(k, ob, a, b). ob) ?rel) s3" by blast
  have w: "en_world (en\<lparr>en_world := s3\<rparr>) = s3" by simp
  have "inv (log @ map (\<lambda>(a, b, k). (a, b, truth k)) ?hit) (map (\<lambda>c. fst (snd c)) ?rel @ held) (en_world (en\<lparr>en_world := s3\<rparr>))"
    unfolding obs' w by (rule kv_tiers.reorder[OF storage g(3)]) simp
  from release_chunks_ok[OF this] obtain s4 where
    rel: "release_chunks env (sm_ops sm) ?rel (en\<lparr>en_world := s3\<rparr>) = (en\<lparr>en_world := s3, en_world := s4\<rparr>, Inr ())"
      "inv (log @ map (\<lambda>(a, b, k). (a, b, truth k)) ?hit) held s4" "stored s4 = stored (en_world (en\<lparr>en_world := s3\<rparr>))" by blast
  have R: "retrieve env (sm_ops sm) False tokens msk req_id en =
      sr_bind (if ?rel = [] then (en\<lparr>en_world := s2\<rparr>, Inr ())
       else on_world (ee_to_gpu env (map (\<lambda>(k, ob, a, b). ob) ?rel) (map (\<lambda>(k, ob, a, b). a) ?rel) (map (\<lambda>(k, ob, a, b). b) ?rel)) (en\<lparr>en_world := s2\<rparr>))
      (\<lambda>_ en. sr_bind (release_chunks env (sm_ops sm) ?rel en) (\<lambda>_ en. (en, Inr (fold (\<lambda>(a, b, k). mask_set a b) ?hit ?msk))))"
    using flags(1-3) proc by (simp add: retrieve_def Let_def)
  have "retrieve env (sm_ops sm) False tokens msk req_id en = (en\<lparr>en_world := s4\<rparr>, Inr (fold (\<lambda>(a, b, k). mask_set a b) ?hit ?msk))"
    unfolding R g(1) sr_bind_simps rel(1) by simp
  then show ?thesis using rel(2,3) g(2) f(5) bm(3) w by (intro exI[of _ s4]) simp
qed

end

section \<open>Histories\<close>

text \<open>What the operations that neither store nor load do to a backend, and a predicate for the table of
  pinned lookups: its locations are backends.\<close>

definition pins_ok :: "('s, 'k, 'o, 'q) storage_manager \<Rightarrow> (string, (string, 'k list) odict) odict \<Rightarrow> bool" where
  "pins_ok sm pins \<longleftrightarrow> (\<forall>m \<in> snd ` set pins. fst ` set m \<subseteq> fst ` set (sm_backends sm))"

lemma update_values: "snd ` set (AList.update k v d) \<subseteq> insert v (snd ` set d)"
  by (induction d) auto

lemma delete_values: "snd ` set (AList.delete k d) \<subseteq> snd ` set d"
  by (auto simp: AList.delete_eq)

lemma pins_ok_mono:
  assumes "pins_ok sm pins" and "snd ` set pins' \<subseteq> insert m (snd ` set pins)" and "fst ` set m \<subseteq> fst ` set (sm_backends sm)"
  shows "pins_ok sm pins'"
  unfolding pins_ok_def
proof
  fix x assume "x \<in> snd ` set pins'"
  then have "x = m \<or> x \<in> snd ` set pins" using assms(2) by (rule_tac insertE[OF subsetD[OF assms(2)]]) auto
  then show "fst ` set x \<subseteq> fst ` set (sm_backends sm)" using assms(1,3) unfolding pins_ok_def by (elim disjE) (simp, erule bspec)
qed

lemma pins_ok_delete: "pins_ok sm pins \<Longrightarrow> pins_ok sm (AList.delete k pins)"
  unfolding pins_ok_def by (rule ballI, drule subsetD[OF delete_values], erule bspec)

lemma take_blocks_some:
  assumes "length ms = length blocks"
  shows "\<exists>failed' acc msk' rest. take_blocks blocks ms failed chunks msk = (failed', chunks @ acc, msk') \<and>
    somes ms = map (\<lambda>c. fst (snd c)) acc @ rest \<and>
    (\<forall>(k, ob, a, b) \<in> set acc. \<exists>j < length blocks. blocks ! j = (k, a, b) \<and> ms ! j = Some ob)"
  using assms
proof (induction ms blocks arbitrary: chunks msk rule: list_induct2)
  case Nil
  then show ?case by (intro exI[of _ failed] exI[of _ "[]"] exI[of _ msk]) simp
next
  case (Cons m ms blk blocks)
  obtain k a b where blk: "blk = (k, a, b)" by (cases blk)
  show ?case
  proof (cases m)
    case None
    then show ?thesis using blk by (intro exI[of _ "if failed = None \<or> the failed < a then Some a else failed"] exI[of _ "[]"] exI[of _ msk]
          exI[of _ "somes ms"]) simp
  next
    case (Some ob)
    obtain failed' acc msk' rest where ih: "take_blocks blocks ms failed (chunks @ [(k, ob, a, b)]) (mask_set a b msk) =
        (failed', (chunks @ [(k, ob, a, b)]) @ acc, msk')" "somes ms = map (\<lambda>c. fst (snd c)) acc @ rest"
        "\<forall>(k, ob, a, b) \<in> set acc. \<exists>j < length blocks. blocks ! j = (k, a, b) \<and> ms ! j = Some ob"
      using Cons.IH by blast
    have "\<forall>(k', ob', a', b') \<in> set ((k, ob, a, b) # acc). \<exists>j < length (blk # blocks). (blk # blocks) ! j = (k', a', b') \<and> (m # ms) ! j = Some ob'"
    proof (clarify)
      fix k' ob' a' b' assume "(k', ob', a', b') \<in> set ((k, ob, a, b) # acc)"
      then consider "(k', ob', a', b') = (k, ob, a, b)" | "(k', ob', a', b') \<in> set acc" by auto
      then show "\<exists>j < length (blk # blocks). (blk # blocks) ! j = (k', a', b') \<and> (m # ms) ! j = Some ob'"
      proof cases
        case 1
        then show ?thesis using Some blk by (intro exI[of _ 0]) simp
      next
        case 2
        then obtain j where "j < length blocks" "blocks ! j = (k', a', b')" "ms ! j = Some ob'" using ih(3) by blast
        then show ?thesis by (intro exI[of _ "Suc j"]) simp
      qed
    qed
    note all = this
    show ?thesis
    proof (rule exI[of _ failed'], rule exI[of _ "(k, ob, a, b) # acc"], rule exI[of _ msk'], rule exI[of _ rest], intro conjI)
      show "take_blocks (blk # blocks) (m # ms) failed chunks msk = (failed', chunks @ (k, ob, a, b) # acc, msk')"
        using ih(1) Some blk by simp
      show "somes (m # ms) = map (\<lambda>c. fst (snd c)) ((k, ob, a, b) # acc) @ rest" using ih(2) Some by simp
    qed (rule all)
  qed
qed

locale kv_upkeep = kv_engine sm al inv stored data room fresh truth fits env content
  for sm :: "('s, 'k, 'o, 'q) storage_manager" and al and inv :: "(int \<times> int \<times> 'b list) list \<Rightarrow> 'o list \<Rightarrow> 's \<Rightarrow> bool"
    and stored data room fresh truth fits and env :: "('s, 'k, 'o, 'q, 't, 'h) engine_env" and content +
  assumes upkeep: "(name, b) \<in> set (sm_backends sm) \<Longrightarrow> inv log held s \<Longrightarrow>
    inv log held (fst (be_touch_cache b s)) \<and> inv log held (fst (be_unpin b k s)) \<and> inv log held (fst (be_remove b k s)) \<and>
    (case be_clear b of None \<Rightarrow> True | Some f \<Rightarrow> inv log held (fst (f s)))"
begin

definition keeps :: "('s \<Rightarrow> 's \<times> 'x) \<Rightarrow> bool" where
  "keeps f \<longleftrightarrow> (\<forall>log held s. inv log held s \<longrightarrow> inv log held (fst (f s)))"

lemma keepsI: "(\<And>log held s. inv log held s \<Longrightarrow> inv log held (fst (f s))) \<Longrightarrow> keeps f"
  by (simp add: keeps_def)

lemma keepsD: "keeps f \<Longrightarrow> inv log held s \<Longrightarrow> inv log held (fst (f s))"
  by (simp add: keeps_def)

lemma keeps_bind:
  assumes "keeps f" and "\<And>x. keeps (g x)"
  shows "keeps (\<lambda>s. sr_bind (f s) g)"
proof (rule keepsI)
  fix log held s assume i: "inv log held s"
  obtain s' r where f: "f s = (s', r)" by fastforce
  have s': "inv log held s'" using keepsD[OF assms(1) i] f by simp
  show "inv log held (fst (sr_bind (f s) g))"
    using f s' keepsD[OF assms(2) s'] by (cases r) simp_all
qed

lemma keeps_return: "keeps (\<lambda>s. (s, r))"
  by (rule keepsI) simp

lemma keeps_if: "keeps f \<Longrightarrow> keeps g \<Longrightarrow> keeps (\<lambda>s. if p then f s else g s)"
  by (simp add: keeps_def)

lemma each_backend_keeps:
  assumes "\<And>name b. (name, b) \<in> set bs \<Longrightarrow> keeps (f name b)"
  shows "keeps (each_backend f bs n)"
  using assms
proof (induction bs arbitrary: n)
  case Nil
  then show ?case using keeps_return by (simp add: keeps_def)
next
  case (Cons x bs)
  obtain name b where x: "x = (name, b)" by (cases x)
  have "each_backend f (x # bs) n = (\<lambda>s. sr_bind (f name b s) (\<lambda>m. each_backend f bs (n + m)))"
    using x by (simp add: fun_eq_iff)
  moreover have "keeps (f name b)" "\<And>n. keeps (each_backend f bs n)" using Cons x by simp_all
  then have "keeps (\<lambda>s. sr_bind (f name b s) (\<lambda>m. each_backend f bs (n + m)))" by (rule keeps_bind)
  ultimately show ?case by simp
qed

lemma backend_keeps:
  assumes "(name, b) \<in> set (sm_backends sm)"
  shows "keeps (be_touch_cache b)" "keeps (be_unpin b k)" "keeps (be_remove b k)" "be_clear b = Some f \<Longrightarrow> keeps f"
  using upkeep[OF assms] by (auto simp: keeps_def split: option.splits)

lemma touch_keeps: "keeps (sm_touch_cache sm)"
  unfolding sm_touch_cache_def
  by (rule each_backend_keeps) (intro keeps_if keeps_bind keeps_return backend_keeps(1-3))

lemma remove_keeps: "keeps (sm_remove k locations sm)"
  unfolding sm_remove_def
  by (rule each_backend_keeps) (intro keeps_if keeps_bind keeps_return backend_keeps(1-3))

lemma clear_keeps: "keeps (sm_clear locations sm)"
  unfolding sm_clear_def
proof (rule each_backend_keeps, intro keeps_if keeps_return)
  fix name b assume b: "(name, b) \<in> set (sm_backends sm)"
  show "keeps (\<lambda>s. case be_clear b of None \<Rightarrow> (s, Inr 0) | Some f \<Rightarrow> f s)"
    using backend_keeps(4)[OF b] keeps_return by (cases "be_clear b") simp_all
qed

lemma unpin_keys_keeps: "(name, b) \<in> set (sm_backends sm) \<Longrightarrow> keeps (unpin_keys (be_unpin b) keys)"
proof (induction keys)
  case Nil
  then show ?case using keeps_return by (simp add: keeps_def)
next
  case (Cons k keys)
  have "unpin_keys (be_unpin b) (k # keys) = (\<lambda>s. sr_bind (be_unpin b k s) (\<lambda>_. unpin_keys (be_unpin b) keys))" by (simp add: fun_eq_iff)
  then show ?case using keeps_bind[OF backend_keeps(2)[OF Cons.prems] Cons.IH[OF Cons.prems]] by simp
qed

lemma unpin_locations_keeps: "keeps (unpin_locations sm m)"
proof (induction m)
  case Nil
  then show ?case using keeps_return by (simp add: keeps_def)
next
  case (Cons x m)
  obtain location keys where x: "x = (location, keys)" by (cases x)
  have "keeps (sm_batched_unpin keys (Some [location]) sm)"
    unfolding sm_batched_unpin_def by (rule each_backend_keeps) (intro keeps_if keeps_return unpin_keys_keeps)
  moreover have "unpin_locations sm (x # m) = (\<lambda>s. sr_bind (sm_batched_unpin keys (Some [location]) sm s) (\<lambda>_. unpin_locations sm m))"
    using x by (simp add: fun_eq_iff)
  moreover have "keeps (\<lambda>s. sr_bind (sm_batched_unpin keys (Some [location]) sm s) (\<lambda>_. unpin_locations sm m))"
    by (rule keeps_bind[OF calculation(1) Cons.IH])
  ultimately show ?case by simp
qed

lemma clear_loop_keeps: "keeps (clear_loop sm locations chunks n)"
proof (induction chunks arbitrary: n)
  case Nil
  then show ?case using keeps_return by (simp add: keeps_def)
next
  case (Cons c chunks)
  obtain a b k where c: "c = (a, b, k)" by (cases c)
  have "clear_loop sm locations (c # chunks) n = (\<lambda>s. sr_bind (sm_remove k locations sm s) (\<lambda>r. clear_loop sm locations chunks (n + r)))"
    using c by (simp add: fun_eq_iff)
  then show ?case using keeps_bind[OF remove_keeps Cons.IH] by simp
qed

end

context kv_upkeep
begin

text \<open>Lookup, unpin and clear.\<close>

lemma contains_keeps: "inv log held s \<Longrightarrow> \<exists>s' r. sm_batched_contains keys search_range pin sm s = (s', Inr r) \<and> inv log held s' \<and>
  fst ` set (snd r) \<subseteq> fst ` set (sm_backends sm)"
proof -
  assume i: "inv log held s"
  let ?bs = "get_active_storage_backends None search_range sm"
  have sub: "set ?bs \<subseteq> set (sm_backends sm)" by (auto simp: get_active_storage_backends_def)
  have d: "distinct (map fst ?bs)"
    using kv_tiers.tiers[OF storage] by (simp add: storage_tiers_def get_active_storage_backends_def distinct_map_filter)
  obtain s' where c: "batched_contains_loop ?bs keys pin (length keys) 0 [] s =
      (s', Inr (0 + split_hits (tier_split (stored s) (map fst ?bs) keys), [] @ tier_split (stored s) (map fst ?bs) keys))" "inv log held s'"
    using storage_tiers.contains_loop_split[OF kv_tiers.tiers[OF storage] sub d _ i, of "[]" "length keys" 0 keys pin] by auto
  have "fst ` set (tier_split (stored s) (map fst ?bs) keys) \<subseteq> fst ` set (sm_backends sm)"
    using tier_split_names[of "stored s" "map fst ?bs" keys] sub by auto
  with c show ?thesis by (auto simp: sm_batched_contains_def)
qed

lemma lookup_keeps:
  assumes "inv log held (en_world en)" and "en_sm en = Some sm" and "pins_ok sm (en_lookup_pins en)"
  shows "\<exists>en' r. lookup env args search_range lookup_id pin en = (en', r) \<and> inv log held (en_world en') \<and> en_sm en' = Some sm \<and>
    pins_ok sm (en_lookup_pins en')"
proof -
  have touch: "\<exists>en' r'. finally_touch pin sm (en1, r) = (en', r') \<and> inv log held (en_world en') \<and> en_sm en' = Some sm \<and> pins_ok sm (en_lookup_pins en')"
    if h: "inv log held (en_world en1)" "en_sm en1 = Some sm" "pins_ok sm (en_lookup_pins en1)" for en1 :: "('s, 'k, 'o, 'q, 't, 'h) engine" and r
  proof -
    obtain s' x where t: "sm_touch_cache sm (en_world en1) = (s', x)" by fastforce
    then have "inv log held s'" using keepsD[OF touch_keeps h(1)] by simp
    then show ?thesis using h t by (cases x; cases pin) (auto simp: finally_touch_def on_world_def)
  qed
  obtain chunks e where p: "ee_process env (lookup_args args) = (chunks, e)" by fastforce
  obtain s' hits bm where c: "sm_batched_contains (map (snd \<circ> snd) chunks) search_range pin sm (en_world en) = (s', Inr (hits, bm))" "inv log held s'"
    "fst ` set bm \<subseteq> fst ` set (sm_backends sm)"
    using contains_keeps[OF assms(1), of "map (snd \<circ> snd) chunks" search_range pin] by auto
  have up: "pins_ok sm (AList.update i bm (en_lookup_pins en))" for i
    by (rule pins_ok_mono[OF assms(3) update_values c(3)])
  have "\<exists>en1 r. lookup_chunks chunks search_range lookup_id pin sm en = (en1, r) \<and> inv log held (en_world en1) \<and> en_sm en1 = Some sm \<and>
      pins_ok sm (en_lookup_pins en1)"
  proof (cases "pin \<and> bm \<noteq> []")
    case True
    then show ?thesis using c(1,2) assms(2,3) up by (cases lookup_id) (simp_all add: lookup_chunks_def on_world_def)
  next
    case False
    then have "lookup_chunks chunks search_range lookup_id pin sm en = (en\<lparr>en_world := s'\<rparr>, Inr (last_end hits chunks 0))"
      using c(1) by (auto simp: lookup_chunks_def on_world_def)
    then show ?thesis using c(2) assms(2,3) by simp
  qed
  then obtain en1 r where l: "lookup_chunks chunks search_range lookup_id pin sm en = (en1, r)" "inv log held (en_world en1)" "en_sm en1 = Some sm"
      "pins_ok sm (en_lookup_pins en1)" by blast
  obtain en2 r2 where t2: "finally_touch pin sm (en1, r) = (en2, r2)" "inv log held (en_world en2)" "en_sm en2 = Some sm" "pins_ok sm (en_lookup_pins en2)"
    using touch[OF l(2-4)] by blast
  obtain en3 r3 where t3: "finally_touch pin sm (en, Inl (the e)) = (en3, r3)" "inv log held (en_world en3)" "en_sm en3 = Some sm" "pins_ok sm (en_lookup_pins en3)"
    using touch[OF assms] by blast
  show ?thesis
  proof (cases "ta_tokens args = None \<and> (ta_offsets args = None \<or> ta_hashes args = None)")
    case True
    then show ?thesis using assms flags(1) by (simp add: lookup_def)
  next
    case ok: False
    show ?thesis
    proof (cases e)
      case None
      then have "lookup env args search_range lookup_id pin en = (en2, r2)"
        using ok assms(2) flags(1,6) p l(1) t2(1) by (auto simp: lookup_def)
      with t2 show ?thesis by simp
    next
      case (Some err)
      then have "lookup env args search_range lookup_id pin en = (en3, r3)"
        using ok assms(2) flags(1,6) p t3(1) by (auto simp: lookup_def)
      with t3 show ?thesis by simp
    qed
  qed
qed

lemma lookup_unpin_keeps:
  assumes "inv log held (en_world en)" and "en_sm en = Some sm" and "pins_ok sm (en_lookup_pins en)"
  shows "\<exists>en' r. lookup_unpin lookup_id en = (en', r) \<and> inv log held (en_world en') \<and> en_sm en' = Some sm \<and> pins_ok sm (en_lookup_pins en')"
proof (cases "map_of (en_lookup_pins en) lookup_id")
  case (Some m)
  obtain s' r where u: "unpin_locations sm m (en_world en) = (s', r)" by fastforce
  then have "inv log held s'" using keepsD[OF unpin_locations_keeps assms(1)] by (metis fst_conv)
  moreover have "pins_ok sm (AList.delete lookup_id (en_lookup_pins en))"
    by (rule pins_ok_delete[OF assms(3)])
  ultimately show ?thesis using Some u assms(2) by (cases r) (simp_all add: lookup_unpin_def on_world_def)
qed (use assms in \<open>simp add: lookup_unpin_def\<close>)

lemma clear_keeps_engine:
  assumes "inv log held (en_world en)" and "en_sm en = Some sm" and "pins_ok sm (en_lookup_pins en)"
  shows "\<exists>en' r. en_clear env tokens locations en = (en', r) \<and> inv log held (en_world en') \<and> en_sm en' = Some sm \<and> pins_ok sm (en_lookup_pins en')"
proof -
  have "\<exists>en' r. clear_tokens env tokens locations en = (en', r) \<and> inv log held (en_world en') \<and> en_sm en' = Some sm \<and> pins_ok sm (en_lookup_pins en')"
  proof (cases "tokens = None \<or> tokens = Some []")
    case True
    obtain s' r where c: "sm_clear locations sm (en_world en) = (s', r)" by fastforce
    then have "inv log held s'" using keepsD[OF clear_keeps assms(1)] by (metis fst_conv)
    then show ?thesis using True c assms(2,3) by (simp add: clear_tokens_def on_world_def)
  next
    case False
    obtain chunks e where p: "ee_process env \<lparr> ta_tokens = tokens, ta_hashes = None, ta_offsets = None, ta_mask = None \<rparr> = (chunks, e)" by fastforce
    obtain s' r where c: "clear_loop sm locations chunks 0 (en_world en) = (s', r)" by fastforce
    then have "inv log held s'" using keepsD[OF clear_loop_keeps assms(1)] by (metis fst_conv)
    then show ?thesis using False p c assms(2,3) by (cases r) (auto simp: clear_tokens_def on_world_def split: option.splits)
  qed
  then show ?thesis using assms by (auto simp: en_clear_def)
qed

end

context kv_upkeep
begin

text \<open>A retrieve in any state, also when objects are missing: the chunks handed to the GPU have the
  data of their keys; references that are not released stay in the ledger.\<close>

lemma get_any:
  assumes "location \<in> fst ` set (sm_backends sm)" and i: "inv log held s"
  shows "\<exists>s' objs. sm_batched_get keys (Some location) sm s = (s', Inr objs) \<and> length objs = length keys \<and> inv log (held @ somes objs) s' \<and>
    (\<forall>ob \<in> set held. data s' ob = data s ob) \<and> (\<forall>j < length keys. \<forall>ob. objs ! j = Some ob \<longrightarrow> data s' ob = truth (keys ! j))"
proof -
  obtain b where b: "(location, b) \<in> set (sm_backends sm)" using assms(1) by auto
  have l: "location \<noteq> []" using assms(1) names by metis
  show ?thesis
  proof (cases "keys = []")
    case False
    obtain s' objs where g: "sm_batched_get keys (Some location) sm s = (s', Inr objs)" "length objs = length keys" "inv log (held @ somes objs) s'"
      "\<forall>ob \<in> set held. data s' ob = data s ob"
      "\<forall>j < length keys. case objs ! j of None \<Rightarrow> \<not> stored s location (keys ! j)
                           | Some ob \<Rightarrow> stored s location (keys ! j) \<and> data s' ob = truth (keys ! j)"
      using kv_tiers.batched_get_ok[OF storage b i l False] by blast
    have "data s' ob = truth (keys ! j)" if "j < length keys" "objs ! j = Some ob" for j ob
      using g(5)[rule_format, OF that(1)] that(2) by simp
    with g show ?thesis by blast
  next
    case True
    have d: "distinct (map fst (sm_backends sm))" using kv_tiers.tiers[OF storage] by (simp add: storage_tiers_def)
    have "filter (\<lambda>(name, b). name = location) (sm_backends sm) = [(location, b)]" by (rule filter_key[OF d b])
    then have act: "get_active_storage_backends (Some location) None sm = [(location, b)]"
      using kv_tiers.manager[OF storage] l by (simp add: get_active_storage_backends_def backend_active_def eq_commute[of location] cong: filter_cong)
    obtain s' objs where "be_batched_get_blocking b [] s = (s', Inr objs)" "length objs = length ([] :: 'k list)" "inv log (held @ somes objs) s'"
      "\<forall>ob \<in> set held. data s' ob = data s ob"
      using kv_tiers.get[OF storage b i, of "[]"] by blast
    then show ?thesis using True act by (intro exI[of _ s'] exI[of _ "[]"]) (simp add: sm_batched_get_def)
  qed
qed

lemma fetch_any:
  assumes "inv log held s" and "fst ` set sp \<subseteq> fst ` set (sm_backends sm)"
  shows "\<exists>s' failed' acc msk' rest. fetch_blocks sm sp failed chunks msk s = (s', Inr (failed', chunks @ acc, msk')) \<and>
    inv log (held @ map (\<lambda>c. fst (snd c)) acc @ rest) s' \<and> (\<forall>ob \<in> set held. data s' ob = data s ob) \<and>
    (\<forall>(k, ob, a, b) \<in> set acc. data s' ob = truth k \<and> (k, a, b) \<in> set (concat (map snd sp)))"
  using assms
proof (induction sp arbitrary: held s failed chunks msk)
  case Nil
  then show ?case by (intro exI[of _ s] exI[of _ failed] exI[of _ "[]"] exI[of _ msk] exI[of _ "[]"]) simp
next
  case (Cons x sp)
  obtain n cs where x: "x = (n, cs)" by (cases x)
  obtain s1 objs where g: "sm_batched_get (map fst cs) (Some n) sm s = (s1, Inr objs)" "length objs = length (map fst cs)"
    "inv log (held @ somes objs) s1" "\<forall>ob \<in> set held. data s1 ob = data s ob"
    "\<forall>j < length (map fst cs). \<forall>ob. objs ! j = Some ob \<longrightarrow> data s1 ob = truth (map fst cs ! j)"
    using get_any[OF _ Cons.prems(1), of n "map fst cs"] Cons.prems(2) x by auto
  have len: "length objs = length cs" using g(2) by simp
  obtain failed1 acc1 msk1 rest1 where t: "take_blocks cs objs failed chunks msk = (failed1, chunks @ acc1, msk1)"
    "somes objs = map (\<lambda>c. fst (snd c)) acc1 @ rest1"
    "\<forall>(k, ob, a, b) \<in> set acc1. \<exists>j < length cs. cs ! j = (k, a, b) \<and> objs ! j = Some ob"
    using take_blocks_some[OF len, of failed chunks msk] by (elim exE conjE) (rule that)
  have "fst ` set sp \<subseteq> fst ` set (sm_backends sm)" using Cons.prems(2) by auto
  from Cons.IH[OF g(3) this, of failed1 "chunks @ acc1" msk1] obtain s2 failed2 acc2 msk2 rest2 where
    ih: "fetch_blocks sm sp failed1 (chunks @ acc1) msk1 s1 = (s2, Inr (failed2, (chunks @ acc1) @ acc2, msk2))"
      "inv log ((held @ somes objs) @ map (\<lambda>c. fst (snd c)) acc2 @ rest2) s2" "\<forall>ob \<in> set (held @ somes objs). data s2 ob = data s1 ob"
      "\<forall>(k, ob, a, b) \<in> set acc2. data s2 ob = truth k \<and> (k, a, b) \<in> set (concat (map snd sp))"
    by blast
  have new: "data s2 ob = truth k \<and> (k, a, b) \<in> set cs" if h: "(k, ob, a, b) \<in> set acc1" for k ob a b
  proof -
    obtain j where j: "j < length cs" "cs ! j = (k, a, b)" "objs ! j = Some ob" using bspec[OF t(3) h] by auto
    have "ob \<in> set (somes objs)" unfolding t(2) using h by force
    then have "data s2 ob = data s1 ob" using ih(3) by simp
    moreover have "data s1 ob = truth k" using g(5)[rule_format, of j ob] j by simp
    ultimately show ?thesis using nth_mem[OF j(1)] j(2) by simp
  qed
  show ?case
  proof (rule exI[of _ s2], rule exI[of _ failed2], rule exI[of _ "acc1 @ acc2"], rule exI[of _ msk2], rule exI[of _ "rest1 @ rest2"], intro conjI)
    show "fetch_blocks sm (x # sp) failed chunks msk s = (s2, Inr (failed2, chunks @ acc1 @ acc2, msk2))"
      using g(1) t(1) ih(1) x by simp
    show "inv log (held @ map (\<lambda>c. fst (snd c)) (acc1 @ acc2) @ rest1 @ rest2) s2"
      by (rule kv_tiers.reorder[OF storage ih(2)]) (simp add: t(2))
    show "\<forall>ob \<in> set held. data s2 ob = data s ob" using ih(3) g(4) by simp
    show "\<forall>(k, ob, a, b) \<in> set (acc1 @ acc2). data s2 ob = truth k \<and> (k, a, b) \<in> set (concat (map snd (x # sp)))"
      using new ih(4) x by fastforce
  qed
qed

lemma mapping_any:
  assumes i: "inv log held (en_world en)" and sm: "en_sm en = Some sm" and pins: "pins_ok sm (en_lookup_pins en)"
  shows "\<exists>s' sp. block_mapping_of req_id cs sm en = (en\<lparr>en_world := s'\<rparr>, Inr sp) \<and> inv log held s' \<and>
    fst ` set sp \<subseteq> fst ` set (sm_backends sm) \<and> set (concat (map snd sp)) \<subseteq> set cs"
proof (cases "\<exists>location keys. Option.bind req_id (map_of (en_lookup_pins en)) = Some [(location, keys)]")
  case True
  then obtain location keys r where r: "req_id = Some r" "map_of (en_lookup_pins en) r = Some [(location, keys)]"
    by (auto simp: bind_eq_Some_conv)
  have "[(location, keys)] \<in> snd ` set (en_lookup_pins en)" using map_of_SomeD[OF r(2)] by force
  then have "fst ` set [(location, keys)] \<subseteq> fst ` set (sm_backends sm)" using pins unfolding pins_ok_def by (rule_tac bspec)
  then show ?thesis using i r by (intro exI[of _ "en_world en"] exI[of _ "[(location, cs)]"]) (simp add: block_mapping_of_def)
next
  case False
  have d: "distinct (map fst (sm_backends sm))" using kv_tiers.tiers[OF storage] by (simp add: storage_tiers_def)
  let ?sp = "tier_split (\<lambda>n c. stored (en_world en) n (fst c)) (map fst (sm_backends sm)) cs"
  obtain s' where m: "block_mapping_loop (sm_backends sm) cs (map fst cs) 0 [] (en_world en) = (s', Inr ([] @ ?sp))" "inv log held s'"
    using storage_tiers.mapping_loop_split[OF kv_tiers.tiers[OF storage] subset_refl d _ i, of "[]" 0 cs "map fst cs"] by auto
  have "sm_get_block_mapping cs sm (en_world en) = (s', Inr ?sp)"
    using m(1) kv_tiers.all_active[OF storage] by (simp add: sm_get_block_mapping_def)
  moreover have "block_mapping_of req_id cs sm en = on_world (sm_get_block_mapping cs sm) en"
    using False by (auto simp: block_mapping_of_def split: option.splits list.splits)
  moreover have "set (concat (map snd ?sp)) \<subseteq> set cs" by (subst tier_split_concat) (rule set_take_subset)
  moreover have "fst ` set ?sp \<subseteq> fst ` set (sm_backends sm)" using tier_split_names[of _ "map fst (sm_backends sm)" cs] by auto
  ultimately show ?thesis using m(2) by (intro exI[of _ s'] exI[of _ ?sp]) (simp add: on_world_def)
qed

end

context kv_upkeep
begin

lemma retrieve_any:
  assumes i: "inv log held (en_world en)" and sm: "en_sm en = Some sm" and pins: "pins_ok sm (en_lookup_pins en)"
  shows "\<exists>s' r new held'. retrieve env (sm_ops sm) False tokens msk req_id en = (en\<lparr>en_world := s'\<rparr>, r) \<and> inv (log @ new) held' s' \<and>
    set new \<subseteq> (\<lambda>(a, b, k). (a, b, truth k)) `
      set (fst (ee_process env \<lparr> ta_tokens = Some tokens, ta_hashes = None, ta_offsets = None, ta_mask = msk \<rparr>))"
proof -
  let ?args = "\<lparr> ta_tokens = Some tokens, ta_hashes = None, ta_offsets = None, ta_mask = msk \<rparr>"
  let ?msk = "replicate (length tokens) False"
  obtain chunks e where p: "ee_process env ?args = (chunks, e)" by fastforce
  show ?thesis
  proof (cases e)
    case (Some err)
    then have "retrieve env (sm_ops sm) False tokens msk req_id en = (en, Inl err)"
      using flags(1-3) p sm by (simp add: retrieve_def process_tokens_internal_def Let_def)
    then show ?thesis using i by (intro exI[of _ "en_world en"] exI[of _ "Inl err"] exI[of _ "[]"] exI[of _ held]) simp
  next
    case None
    let ?cs = "map (\<lambda>(a, b, k). (k, a, b)) chunks"
    obtain s1 sp where bm: "block_mapping_of req_id ?cs sm en = (en\<lparr>en_world := s1\<rparr>, Inr sp)" "inv log held s1"
      "fst ` set sp \<subseteq> fst ` set (sm_backends sm)" "set (concat (map snd sp)) \<subseteq> set ?cs"
      using mapping_any[OF i sm pins] by blast
    obtain s2 failed acc msk' rest where f: "fetch_blocks sm sp None [] ?msk s1 = (s2, Inr (failed, [] @ acc, msk'))"
      "inv log (held @ map (\<lambda>c. fst (snd c)) acc @ rest) s2"
      "\<forall>(k, ob, a, b) \<in> set acc. data s2 ob = truth k \<and> (k, a, b) \<in> set (concat (map snd sp))"
      using fetch_any[OF bm(2,3), of None "[]" ?msk] by blast
    obtain cut msk2 where cut: "cut_failed (failed, acc, msk') = (cut, msk2)" by fastforce
    have sub: "set cut \<subseteq> set acc" and ms: "mset (map (\<lambda>c. fst (snd c)) cut) \<subseteq># mset (map (\<lambda>c. fst (snd c)) acc)"
      using cut by (auto simp: cut_failed_def image_mset_subseteq_mono mset_filter split: option.splits)
    obtain lost where lost: "mset (map (\<lambda>c. fst (snd c)) acc) = mset (map (\<lambda>c. fst (snd c)) cut) + mset lost"
      using ms by (metis ex_mset subset_mset.add_diff_inverse)
    have proc: "process_tokens_internal env ?args req_id ?msk en = (en\<lparr>en_world := s2\<rparr>, Inr (cut, msk2))"
      using sm p None bm(1) f(1) cut by (simp add: process_tokens_internal_def on_world_def)
    let ?rel = "map (\<lambda>(k, ob, a, b). (Some k, ob, a, b)) cut"
    let ?held = "map (\<lambda>c. fst (snd c)) ?rel @ held @ lost @ rest"
    have obs: "map (\<lambda>c. fst (snd c)) ?rel = map (\<lambda>c. fst (snd c)) cut" "map (\<lambda>(k, ob, a, b). ob) ?rel = map (\<lambda>c. fst (snd c)) cut"
      by (simp_all add: case_prod_beta comp_def)
    have "mset ?held = mset (held @ map (\<lambda>c. fst (snd c)) acc @ rest)"
      unfolding mset_append obs lost by (simp only: ac_simps)
    then have held: "inv log ?held s2" by (rule kv_tiers.reorder[OF storage f(2)])
    define new where "new = map (\<lambda>(k, ob, a, b). (a, b, truth k)) cut"
    have "set new \<subseteq> (\<lambda>(a, b, k). (a, b, truth k)) ` set chunks"
    proof
      fix y assume "y \<in> set new"
      then obtain k ob a b where y: "y = (a, b, truth k)" "(k, ob, a, b) \<in> set cut" by (auto simp: new_def)
      then have "(k, a, b) \<in> set ?cs" using f(3) sub bm(4) by blast
      then have "(a, b, k) \<in> set chunks" by auto
      then show "y \<in> (\<lambda>(a, b, k). (a, b, truth k)) ` set chunks" using y(1) by (auto intro!: rev_image_eqI)
    qed
    moreover have "\<exists>s3. (if ?rel = [] then (en\<lparr>en_world := s2\<rparr>, Inr ())
       else on_world (ee_to_gpu env (map (\<lambda>(k, ob, a, b). ob) ?rel) (map (\<lambda>(k, ob, a, b). a) ?rel) (map (\<lambda>(k, ob, a, b). b) ?rel)) (en\<lparr>en_world := s2\<rparr>))
      = (en\<lparr>en_world := s3\<rparr>, Inr ()) \<and> inv (log @ new) ?held s3"
    proof (cases "cut = []")
      case True
      then show ?thesis using held by (intro exI[of _ s2]) (simp add: new_def)
    next
      case False
      have sub': "set (map (\<lambda>(k, ob, a, b). ob) ?rel) \<subseteq> set ?held" unfolding obs by simp
      have l2: "length (map f xs) = length (map g xs)" for f :: "'x \<Rightarrow> 'y" and g :: "'x \<Rightarrow> 'z" and xs by simp
      obtain s3 where g: "ee_to_gpu env (map (\<lambda>(k, ob, a, b). ob) ?rel) (map (\<lambda>(k, ob, a, b). a) ?rel) (map (\<lambda>(k, ob, a, b). b) ?rel) s2 = (s3, Inr ())"
        "inv (log @ map (\<lambda>(ob, a, b). (a, b, data s2 ob)) (zip (map (\<lambda>(k, ob, a, b). ob) ?rel)
           (zip (map (\<lambda>(k, ob, a, b). a) ?rel) (map (\<lambda>(k, ob, a, b). b) ?rel)))) ?held s3"
        using to_gpu[OF held sub' l2 l2] by blast
      have "map (\<lambda>(ob, a, b). (a, b, data s2 ob)) (zip (map (\<lambda>(k, ob, a, b). ob) ?rel)
           (zip (map (\<lambda>(k, ob, a, b). a) ?rel) (map (\<lambda>(k, ob, a, b). b) ?rel))) = map (\<lambda>(k, ob, a, b). (a, b, data s2 ob)) cut"
        by (simp add: zip_map_map zip_same_conv_map case_prod_beta comp_def)
      also have "\<dots> = new" using f(3) sub by (auto simp: new_def)
      finally show ?thesis using g False by (intro exI[of _ s3]) (simp add: on_world_def)
    qed
    then obtain s3 where g: "(if ?rel = [] then (en\<lparr>en_world := s2\<rparr>, Inr ())
       else on_world (ee_to_gpu env (map (\<lambda>(k, ob, a, b). ob) ?rel) (map (\<lambda>(k, ob, a, b). a) ?rel) (map (\<lambda>(k, ob, a, b). b) ?rel)) (en\<lparr>en_world := s2\<rparr>))
      = (en\<lparr>en_world := s3\<rparr>, Inr ())" "inv (log @ new) ?held s3" by blast
    have w: "en_world (en\<lparr>en_world := s3\<rparr>) = s3" by simp
    have "inv (log @ new) ?held (en_world (en\<lparr>en_world := s3\<rparr>))" using g(2) unfolding w .
    from release_chunks_ok[OF this] obtain s4 where
      rel: "release_chunks env (sm_ops sm) ?rel (en\<lparr>en_world := s3\<rparr>) = (en\<lparr>en_world := s3, en_world := s4\<rparr>, Inr ())"
        "inv (log @ new) (held @ lost @ rest) s4" by blast
    have R: "retrieve env (sm_ops sm) False tokens msk req_id en =
        sr_bind (if ?rel = [] then (en\<lparr>en_world := s2\<rparr>, Inr ())
         else on_world (ee_to_gpu env (map (\<lambda>(k, ob, a, b). ob) ?rel) (map (\<lambda>(k, ob, a, b). a) ?rel) (map (\<lambda>(k, ob, a, b). b) ?rel)) (en\<lparr>en_world := s2\<rparr>))
        (\<lambda>_ en. sr_bind (release_chunks env (sm_ops sm) ?rel en) (\<lambda>_ en. (en, Inr msk2)))"
      using flags(1-3) proc by (simp add: retrieve_def Let_def)
    have "retrieve env (sm_ops sm) False tokens msk req_id en = (en\<lparr>en_world := s4\<rparr>, Inr msk2)"
      unfolding R g(1) sr_bind_simps rel(1) by simp
    with rel(2) calculation show ?thesis unfolding p by (intro exI[of _ s4] exI[of _ "Inr msk2"] exI[of _ new] exI[of _ "held @ lost @ rest"]) simp
  qed
qed

lemma store_any:
  assumes i: "inv log held (en_world en)" and sm: "en_sm en = Some sm" and c: "list_all storable (fst (ee_process env args))"
  shows "\<exists>en' r held'. store env args en = (en', r) \<and> inv log held' (en_world en') \<and> en_sm en' = Some sm \<and> en_lookup_pins en' = en_lookup_pins en"
proof -
  obtain chunks e where p: "ee_process env args = (chunks, e)" by fastforce
  have fr: "\<not> is_frozen en" using sm kv_tiers.manager(2)[OF storage] by (simp add: is_frozen_def)
  have n: "distinct []" "\<forall>ob \<in> set []. fresh (en_world en) ob" "inv log (held @ []) (en_world en)" "list_all storable chunks"
    using i c p by simp_all
  obtain en1 acc broke where L: "store_loop env sm args chunks (ee_no_hash env) [] en = (en1, Inr ([] @ acc, broke))"
    "loop_post log held [] chunks en en1 acc" "broke = (length acc < length chunks)"
    using store_loop_ok[OF n(3,1,2,4)] by blast
  have L2: "inv log (held @ map (\<lambda>(a, b, k, ob). ob) acc) (en_world en1)" "en_sm en1 = Some sm" "en_lookup_pins en1 = en_lookup_pins en"
    using L(2) sm unfolding loop_post_def append_Nil by (blast, simp, simp)
  obtain s' where q: "store_put env sm acc en1 = (en1\<lparr>en_world := s'\<rparr>, Inr ())" "inv log held s'"
    using store_put_ok[OF L(2) n(4)] by blast
  consider "\<not> store_args_ok args" | "store_args_ok args" "\<not> broke" "e \<noteq> None" | "store_args_ok args" "broke \<or> e = None" by blast
  then show ?thesis
  proof cases
    case 1
    then have "store env args en = (en, Inl AssertionError)" using flags(1-3) sm by (simp add: store_def)
    with i sm show ?thesis by blast
  next
    case 2
    then have "store env args en = (en1, Inl (the e))" using flags(1-3) sm fr p L(1) by (auto simp: store_def)
    with L2 show ?thesis by blast
  next
    case 3
    then have "store env args en = store_put env sm acc en1"
      using flags(1-3) sm fr p L(1) by (cases broke; cases e) (auto simp: store_def)
    then show ?thesis using q L2 by (intro exI[of _ "en1\<lparr>en_world := s'\<rparr>"] exI[of _ "Inr ()"] exI[of _ held]) simp
  qed
qed

end

end
