(* ===== verification/TokenDatabase.thy ===== *)
theory TokenDatabase
  imports Keys "HOL-Library.Countable"
begin

text \<open>
  From tokens to cache keys (\<open>v1/token_database.py\<close>). \<open>ChunkedTokenDatabase\<close> cuts the tokens into
  chunks of a fixed size and chains their hashes; \<open>SegmentTokenDatabase\<close> cuts at a separator and
  hashes each segment on its own. The hash function (vLLM's or the built-in one) and the hash of
  the empty prefix are parameters. A generator is the list of what it yields with the exception
  that ends it, if any.
\<close>

declare map_of_eq_Some_iff [simp del] Some_eq_map_of_iff [simp del]

named_theorems td_simps \<comment> \<open>unfolding of the token databases\<close>

type_synonym 'a gen = "'a list \<times> py_error option"

record lmc_metadata =
  md_model_name :: string
  md_world_size :: int
  md_worker_id :: int
  md_kv_dtype :: torch_dtype
  md_use_mla :: bool

text \<open>\<open>hash_func((prefix_hash, tokens, extra_keys))\<close>; the extra keys are always \<open>None\<close>.\<close>

type_synonym hash_fun = "hash_val option \<Rightarrow> int list \<Rightarrow> hash_val"

record token_db =
  td_hash_func :: hash_fun
  td_none_hash :: hash_val
  td_metadata :: "lmc_metadata option"
  td_save_only_first_rank :: bool
  td_chunk_size :: int
  td_save_unfull_chunk :: bool

record token_db_config =
  tc_chunk_size :: int
  tc_save_unfull_chunk :: bool
  tc_save_only_first_rank :: "bool option"

text \<open>Both constructors; \<open>get_extra_config_value\<close> falls back to \<open>use_mla\<close>.\<close>

definition chunked_db_init :: "hash_fun \<Rightarrow> hash_val \<Rightarrow> token_db_config option \<Rightarrow> lmc_metadata option \<Rightarrow> token_db" where
  "chunked_db_init hf nh config metadata =
     \<lparr> td_hash_func = hf, td_none_hash = nh, td_metadata = metadata,
       td_save_only_first_rank =
         (case (config, metadata) of
            (Some c, Some m) \<Rightarrow>
              (case tc_save_only_first_rank c of None \<Rightarrow> md_use_mla m | Some b \<Rightarrow> b) \<and> md_use_mla m
          | _ \<Rightarrow> False),
       td_chunk_size = (case config of None \<Rightarrow> 256 | Some c \<Rightarrow> tc_chunk_size c),
       td_save_unfull_chunk = (case config of None \<Rightarrow> True | Some c \<Rightarrow> tc_save_unfull_chunk c) \<rparr>"

definition make_key_by_hash :: "token_db \<Rightarrow> hash_val \<Rightarrow> (string, string) odict option \<Rightarrow> cache_key result" where
  "make_key_by_hash db h rc =
     (case td_metadata db of
        None \<Rightarrow> Inl AssertionError
      | Some m \<Rightarrow>
          mk_cache_key (md_model_name m) (if \<not> td_save_only_first_rank db then md_world_size m else 1)
            (md_worker_id m) h (md_kv_dtype m) rc)"

definition hash_tokens :: "token_db \<Rightarrow> int list \<Rightarrow> hash_val option \<Rightarrow> hash_val" where
  "hash_tokens db tokens prefix = td_hash_func db prefix tokens"

section \<open>Chunks\<close>

definition py_range :: "int \<Rightarrow> int \<Rightarrow> int \<Rightarrow> int list result" where
  "py_range a b st =
     (if st = 0 then Inl ValueError
      else if 0 < st then Inr (map (\<lambda>i. a + int i * st) [0..<nat ((b - a + st - 1) div st)])
      else Inr (map (\<lambda>i. a + int i * st) [0..<nat ((a - b - st - 1) div (- st))]))"

definition chunk_tokens :: "token_db \<Rightarrow> int list \<Rightarrow> int list gen" where
  "chunk_tokens db tokens =
     (let n = int (length tokens)
      in if \<not> td_save_unfull_chunk db \<and> td_chunk_size db = 0 then ([], Some ZeroDivisionError)
         else let stop = (if td_save_unfull_chunk db then n else n - n mod td_chunk_size db)
              in case py_range 0 stop (td_chunk_size db) of
                   Inl e \<Rightarrow> ([], Some e)
                 | Inr js \<Rightarrow> (map (\<lambda>i. py_slice tokens i (i + td_chunk_size db)) js, None))"

fun prefix_hashes :: "token_db \<Rightarrow> hash_val \<Rightarrow> int list list \<Rightarrow> hash_val list" where
  "prefix_hashes db prefix [] = []"
| "prefix_hashes db prefix (chunk # chunks) =
     (let h = hash_tokens db chunk (Some prefix) in h # prefix_hashes db h chunks)"

datatype key_or_hash = TKey cache_key | THash hash_val

text \<open>One yield: with \<open>make_key\<close> the key is built, which may raise.\<close>

definition yield_item :: "token_db \<Rightarrow> bool \<Rightarrow> (string, string) odict option \<Rightarrow> hash_val \<Rightarrow> key_or_hash result" where
  "yield_item db make_key rc h =
     (if make_key then res_bind (make_key_by_hash db h rc) (\<lambda>k. Inr (TKey k)) else Inr (THash h))"

fun chunk_loop ::
  "token_db \<Rightarrow> bool \<Rightarrow> (string, string) odict option \<Rightarrow> int \<Rightarrow> int \<Rightarrow> int \<Rightarrow> hash_val list
    \<Rightarrow> (int \<times> int \<times> key_or_hash) gen" where
  "chunk_loop db mk rc num_falses total_len chunk_id [] = ([], None)"
| "chunk_loop db mk rc num_falses total_len chunk_id (h # hs) =
     (let start_idx = chunk_id * td_chunk_size db;
          end_idx = min (start_idx + td_chunk_size db) total_len
      in if start_idx < num_falses then chunk_loop db mk rc num_falses total_len (chunk_id + 1) hs
         else case yield_item db mk rc h of
                Inl e \<Rightarrow> ([], Some e)
              | Inr x \<Rightarrow>
                  (let (ys, e) = chunk_loop db mk rc num_falses total_len (chunk_id + 1) hs
                   in ((start_idx, end_idx, x) # ys, e)))"

fun hashes_loop ::
  "token_db \<Rightarrow> bool \<Rightarrow> (string, string) odict option \<Rightarrow> int \<Rightarrow> hash_val list \<Rightarrow> int list
    \<Rightarrow> (int \<times> int \<times> key_or_hash) gen" where
  "hashes_loop db mk rc start_idx (h # hs) (offset # offsets) =
     (let end_idx = start_idx + offset
      in case yield_item db mk rc h of
           Inl e \<Rightarrow> ([], Some e)
         | Inr x \<Rightarrow> (let (ys, e) = hashes_loop db mk rc end_idx hs offsets in ((start_idx, end_idx, x) # ys, e)))"
| "hashes_loop db mk rc start_idx _ _ = ([], None)"

definition num_falses_of :: "bool list option \<Rightarrow> int" where
  "num_falses_of msk = (case msk of None \<Rightarrow> 0 | Some m \<Rightarrow> int (length m) - int (length (filter id m)))"

definition process_hashes ::
  "token_db \<Rightarrow> hash_val list option \<Rightarrow> int list option \<Rightarrow> bool \<Rightarrow> (string, string) odict option
    \<Rightarrow> (int \<times> int \<times> key_or_hash) gen" where
  "process_hashes db hashes offsets mk rc =
     (case hashes of
        None \<Rightarrow> ([], Some ValueError)
      | Some hs \<Rightarrow>
          (case offsets of
             None \<Rightarrow> ([], Some AssertionError)
           | Some os \<Rightarrow> hashes_loop db mk rc 0 hs os))"

definition process_tokens ::
  "token_db \<Rightarrow> int list option \<Rightarrow> hash_val list option \<Rightarrow> int list option \<Rightarrow> bool list option \<Rightarrow> bool
    \<Rightarrow> (string, string) odict option \<Rightarrow> (int \<times> int \<times> key_or_hash) gen" where
  "process_tokens db tokens hashes offsets msk mk rc =
     (let num_falses = num_falses_of msk
      in if td_chunk_size db = 0 then ([], Some ZeroDivisionError)
         else if num_falses mod td_chunk_size db \<noteq> 0 then ([], Some ValueError)
         else case tokens of
                Some ts \<Rightarrow>
                  (case chunk_tokens db ts of
                     (chunks, e) \<Rightarrow>
                       (case chunk_loop db mk rc num_falses (int (length ts)) 0
                               (prefix_hashes db (td_none_hash db) chunks) of
                          (ys, Some e') \<Rightarrow> (ys, Some e')
                        | (ys, None) \<Rightarrow> (ys, e)))
              | None \<Rightarrow> process_hashes db hashes offsets mk rc)"

section \<open>Segments\<close>

text \<open>\<open>sep_tokens\<close> is what the tokenizer makes of the separator. Sliding windows longer than the
  tokens are a \<open>RuntimeError\<close> of torch.\<close>

record segment_db = token_db +
  sg_sep_tokens :: "int list"

definition sep_matches :: "int list \<Rightarrow> int list \<Rightarrow> nat list" where
  "sep_matches sep tokens =
     filter (\<lambda>i. take (length sep) (drop i tokens) = sep) [0..<length tokens - length sep + 1]"

fun split_at_matches :: "int \<Rightarrow> int list \<Rightarrow> int \<Rightarrow> nat list \<Rightarrow> int list list" where
  "split_at_matches sep_len tokens first [] = [py_slice tokens first (int (length tokens))]"
| "split_at_matches sep_len tokens first (idx # rest) =
     py_slice tokens first (int idx) # split_at_matches sep_len tokens (int idx + sep_len) rest"

definition fast_split_by_subtensor :: "int list \<Rightarrow> int list \<Rightarrow> int list gen" where
  "fast_split_by_subtensor sep tokens =
     (let pre = (if sep = [] \<or> length tokens < length sep then [tokens] else [])
      in if length tokens < length sep then (pre, Some RuntimeError)
         else (pre @ split_at_matches (int (length sep)) tokens 0 (sep_matches sep tokens), None))"

fun segment_loop ::
  "segment_db \<Rightarrow> bool \<Rightarrow> (string, string) odict option \<Rightarrow> int \<Rightarrow> bool \<Rightarrow> int \<Rightarrow> int list list
    \<Rightarrow> (int \<times> int \<times> key_or_hash) gen" where
  "segment_loop db mk rc num_falses first start_idx [] = ([], None)"
| "segment_loop db mk rc num_falses first start_idx (chunk # chunks) =
     (let end_idx = start_idx + int (length chunk);
          off = (if first then 0 else int (length (sg_sep_tokens db)));
          start_idx = start_idx + off;
          end_idx = end_idx + off
      in if num_falses \<le> start_idx
         then (case yield_item (token_db.truncate db) mk rc (hash_tokens (token_db.truncate db) chunk None) of
                 Inl e \<Rightarrow> ([], Some e)
               | Inr x \<Rightarrow>
                   (let (ys, e) = segment_loop db mk rc num_falses False end_idx chunks
                    in ((start_idx, end_idx, x) # ys, e)))
         else segment_loop db mk rc num_falses False end_idx chunks)"

definition segment_process_tokens ::
  "segment_db \<Rightarrow> int list option \<Rightarrow> hash_val list option \<Rightarrow> int list option \<Rightarrow> bool list option \<Rightarrow> bool
    \<Rightarrow> (string, string) odict option \<Rightarrow> (int \<times> int \<times> key_or_hash) gen" where
  "segment_process_tokens db tokens hashes offsets msk mk rc =
     (case tokens of
        Some ts \<Rightarrow>
          (let num_falses = num_falses_of msk
           in if \<not> num_falses < int (length ts) then ([], Some AssertionError)
              else case fast_split_by_subtensor (sg_sep_tokens db) ts of
                     (chunks, e) \<Rightarrow>
                       (case segment_loop db mk rc num_falses True 0 chunks of
                          (ys, Some e') \<Rightarrow> (ys, Some e')
                        | (ys, None) \<Rightarrow> (ys, e)))
      | None \<Rightarrow> process_hashes (token_db.truncate db) hashes offsets mk rc)"

section \<open>The chunks and their keys\<close>

lemma py_slice_clip: "py_slice xs (int i) (int i + int c) = take c (drop i xs)"
proof (cases "i \<le> length xs")
  case True
  then show ?thesis
    by (cases "i + c \<le> length xs") (auto simp: py_slice_def slice_bound_def min_def nat_diff_distrib)
next
  case False
  then show ?thesis by (simp add: py_slice_def slice_bound_def min_def)
qed

definition chunk_count :: "token_db \<Rightarrow> nat \<Rightarrow> nat" where
  "chunk_count db n =
     (let c = nat (td_chunk_size db) in if td_save_unfull_chunk db then (n + c - 1) div c else n div c)"

definition chunk_at :: "token_db \<Rightarrow> int list \<Rightarrow> nat \<Rightarrow> int list" where
  "chunk_at db ts i = take (nat (td_chunk_size db)) (drop (i * nat (td_chunk_size db)) ts)"

lemma chunk_tokens_eq:
  assumes "0 < td_chunk_size db"
  shows "chunk_tokens db ts = (map (chunk_at db ts) [0..<chunk_count db (length ts)], None)"
proof -
  obtain c where c: "td_chunk_size db = int c" "0 < c"
    using assms by (metis of_nat_0_less_iff pos_int_cases)
  have up: "nat ((int k + int c - 1) div int c) = (k + c - 1) div c" for k
  proof -
    have "int k + int c - 1 = int (k + c - 1)" using c(2) by (simp add: of_nat_diff)
    then show ?thesis by (metis nat_int zdiv_int)
  qed
  have full: "(length ts - length ts mod c + c - 1) div c = length ts div c"
  proof -
    have "length ts - length ts mod c = length ts div c * c" by (simp add: minus_mod_eq_div_mult)
    moreover have "(length ts div c * c + (c - 1)) div c = length ts div c"
      using c(2) by (subst div_mult_self3) auto
    moreover have "length ts div c * c + c - 1 = length ts div c * c + (c - 1)" using c(2) by simp
    ultimately show ?thesis by simp
  qed
  have sl: "py_slice ts (int i * int c) (int i * int c + int c) = chunk_at db ts i" for i
    using py_slice_clip[of ts "i * c" c] by (simp add: chunk_at_def c(1))
  have stop: "int (length ts) - int (length ts) mod int c = int (length ts - length ts mod c)"
    by (simp add: of_nat_diff zmod_int)
  show ?thesis
    using c sl up[of "length ts"] up[of "length ts - length ts mod c"] full stop
    by (cases "td_save_unfull_chunk db")
      (simp_all add: chunk_tokens_def py_range_def chunk_count_def Let_def comp_def del: of_nat_diff)
qed

text \<open>The hash of chunk \<open>i\<close> is chained over all chunks up to \<open>i\<close>.\<close>

definition chain_hash :: "token_db \<Rightarrow> hash_val \<Rightarrow> int list list \<Rightarrow> hash_val" where
  "chain_hash db h chunks = foldl (\<lambda>h chunk. hash_tokens db chunk (Some h)) h chunks"

definition chunk_hash :: "token_db \<Rightarrow> int list \<Rightarrow> nat \<Rightarrow> hash_val" where
  "chunk_hash db ts i = chain_hash db (td_none_hash db) (map (chunk_at db ts) [0..<Suc i])"

lemma prefix_hashes_eq: "prefix_hashes db h chunks = map (\<lambda>i. chain_hash db h (take (Suc i) chunks)) [0..<length chunks]"
proof (induction db h chunks rule: prefix_hashes.induct)
  case (2 db h chunk chunks)
  then show ?case
    by (simp add: Let_def chain_hash_def upt_conv_Cons map_Suc_upt[symmetric] comp_def del: upt_Suc)
qed simp

lemma chunk_hashes_eq:
  "prefix_hashes db (td_none_hash db) (map (chunk_at db ts) [0..<n]) = map (chunk_hash db ts) [0..<n]"
proof -
  have "take (Suc i) (map (chunk_at db ts) [0..<n]) = map (chunk_at db ts) [0..<Suc i]" if "i < n" for i
    using that by (simp add: take_map take_upt del: upt_Suc)
  then show ?thesis by (auto simp: prefix_hashes_eq chunk_hash_def simp del: upt_Suc)
qed

text \<open>A key can be made for every hash, and tells the hashes apart.\<close>

definition can_yield :: "token_db \<Rightarrow> bool \<Rightarrow> bool" where
  "can_yield db mk \<longleftrightarrow>
     mk \<longrightarrow> (case td_metadata db of None \<Rightarrow> False | Some m \<Rightarrow> map_of torch_dtype_to_str (md_kv_dtype m) \<noteq> None)"

definition item_of :: "token_db \<Rightarrow> bool \<Rightarrow> (string, string) odict option \<Rightarrow> hash_val \<Rightarrow> key_or_hash" where
  "item_of db mk rc h = (case yield_item db mk rc h of Inr x \<Rightarrow> x)"

lemma yield_item_ok:
  assumes "can_yield db mk"
  shows "yield_item db mk rc h = Inr (item_of db mk rc h)"
  using assms
  by (auto simp: can_yield_def item_of_def yield_item_def make_key_by_hash_def mk_cache_key_def split: option.splits)

lemma item_of_inj:
  assumes "can_yield db mk"
  shows "item_of db mk rc h = item_of db mk rc g \<longleftrightarrow> h = g"
  using assms
  by (auto simp: can_yield_def item_of_def yield_item_def make_key_by_hash_def mk_cache_key_def split: option.splits if_splits)

lemma chunk_loop_eq:
  assumes "can_yield db mk" and "td_chunk_size db = int c" and "0 < c"
  shows "chunk_loop db mk rc (int m * int c) n (int i) hs =
    (map (\<lambda>j. (int j * int c, min (int j * int c + int c) n, item_of db mk rc (hs ! (j - i)))) [max i m..<i + length hs], None)"
proof (induction hs arbitrary: i)
  case (Cons h hs)
  have ih: "chunk_loop db mk rc (int m * int c) n (int i + 1) hs =
    (map (\<lambda>j. (int j * int c, min (int j * int c + int c) n, item_of db mk rc (hs ! (j - Suc i)))) [max (Suc i) m..<Suc i + length hs], None)"
    using Cons[of "Suc i"] by (simp add: add.commute)
  have lt: "int i * int c < int m * int c \<longleftrightarrow> i < m" using assms(3) by simp
  show ?case
  proof (cases "i < m")
    case True
    then have "max i m = max (Suc i) m" by simp
    moreover have "map (\<lambda>j. (int j * int c, min (int j * int c + int c) n, item_of db mk rc (hs ! (j - Suc i)))) [max (Suc i) m..<Suc i + length hs]
      = map (\<lambda>j. (int j * int c, min (int j * int c + int c) n, item_of db mk rc ((h # hs) ! (j - i)))) [max (Suc i) m..<Suc i + length hs]"
      by (auto simp: nth_Cons' intro!: arg_cong[where f = "\<lambda>k. item_of db mk rc (hs ! k)"])
    ultimately show ?thesis using True ih lt assms(2) by (simp del: upt_Suc)
  next
    case False
    then have "[max i m..<i + length (h # hs)] = i # [max (Suc i) m..<Suc i + length hs]"
      by (subst upt_conv_Cons) (auto simp: max_def simp del: upt_Suc)
    moreover have "map (\<lambda>j. (int j * int c, min (int j * int c + int c) n, item_of db mk rc (hs ! (j - Suc i)))) [max (Suc i) m..<Suc i + length hs]
      = map (\<lambda>j. (int j * int c, min (int j * int c + int c) n, item_of db mk rc ((h # hs) ! (j - i)))) [max (Suc i) m..<Suc i + length hs]"
      by (auto simp: nth_Cons' intro!: arg_cong[where f = "\<lambda>k. item_of db mk rc (hs ! k)"])
    ultimately show ?thesis using False ih lt assms(2) yield_item_ok[OF assms(1)]
      by (simp add: Let_def del: upt_Suc)
  qed
qed simp

lemma process_tokens_eq:
  assumes "can_yield db mk" and "td_chunk_size db = int c" and "0 < c" and "num_falses_of msk = int m * int c"
  shows "process_tokens db (Some ts) hashes offsets msk mk rc =
    (map (\<lambda>j. (int j * int c, min (int j * int c + int c) (int (length ts)), item_of db mk rc (chunk_hash db ts j)))
       [m..<chunk_count db (length ts)], None)"
proof -
  have ct: "chunk_tokens db ts = (map (chunk_at db ts) [0..<chunk_count db (length ts)], None)"
    using chunk_tokens_eq[of db ts] assms(2,3) by simp
  have "chunk_loop db mk rc (int m * int c) (int (length ts)) 0 (map (chunk_hash db ts) [0..<chunk_count db (length ts)])
    = (map (\<lambda>j. (int j * int c, min (int j * int c + int c) (int (length ts)), item_of db mk rc (chunk_hash db ts j)))
       [m..<chunk_count db (length ts)], None)"
    using chunk_loop_eq[OF assms(1-3), of rc m "int (length ts)" 0 "map (chunk_hash db ts) [0..<chunk_count db (length ts)]"]
    by (auto simp: Let_def)
  then show ?thesis using assms(2-4) ct by (simp add: process_tokens_def chunk_hashes_eq Let_def)
qed

lemma chunk_count_bounds:
  assumes "td_chunk_size db = int c" and "0 < c"
  shows "(chunk_count db n - 1) * c \<le> n" and "j < chunk_count db n \<Longrightarrow> j * c \<le> n"
    and "min (chunk_count db n * c) n = (if td_save_unfull_chunk db then n else n - n mod c)"
proof -
  have up: "n \<le> (n + c - 1) div c * c \<and> ((n + c - 1) div c - 1) * c \<le> n"
  proof -
    have e: "(n + c - 1) div c * c + (n + c - 1) mod c = n + c - 1" by (rule div_mult_mod_eq)
    have b: "(n + c - 1) mod c < c" using assms(2) by simp
    have "((n + c - 1) div c - 1) * c = (n + c - 1) div c * c - c" by (simp add: diff_mult_distrib)
    with e b show ?thesis by linarith
  qed
  have dn: "n div c * c = n - n mod c" by (simp add: minus_mod_eq_div_mult)
  show le: "(chunk_count db n - 1) * c \<le> n"
    using up dn assms(1) by (auto simp: chunk_count_def Let_def diff_mult_distrib)
  show "j * c \<le> n" if "j < chunk_count db n"
  proof -
    have "j * c \<le> (chunk_count db n - 1) * c" using that by (intro mult_le_mono1) simp
    then show ?thesis using le by (rule order_trans)
  qed
  show "min (chunk_count db n * c) n = (if td_save_unfull_chunk db then n else n - n mod c)"
    using up dn assms(1) by (simp add: chunk_count_def Let_def)
qed

lemma chunks_concat:
  assumes "td_chunk_size db = int c" and "0 < c"
  shows "concat (map (\<lambda>j. py_slice ts (int j * int c) (min (int j * int c + int c) (int (length ts))))
      [m..<chunk_count db (length ts)])
    = drop (m * c) (take (if td_save_unfull_chunk db then length ts else length ts - length ts mod c) ts)"
proof -
  let ?n = "length ts" and ?N = "chunk_count db (length ts)"
  define bd where "bd j = min ((m + j) * c) ?n" for j
  have K: "min (?N * c) ?n = (if td_save_unfull_chunk db then ?n else ?n - ?n mod c)"
    by (rule chunk_count_bounds(3)[OF assms])
  show ?thesis
  proof (cases "m \<le> ?N")
    case True
    have "map (\<lambda>j. py_slice ts (int j * int c) (min (int j * int c + int c) (int ?n))) [m..<?N]
        = map (\<lambda>j. py_slice ts (int (bd j)) (int (bd (Suc j)))) [0..<?N - m]"
    proof (rule nth_equalityI)
      fix i assume "i < length (map (\<lambda>j. py_slice ts (int j * int c) (min (int j * int c + int c) (int ?n))) [m..<?N])"
      then have i: "i < ?N - m" by simp
      then have "(m + i) * c \<le> ?n" by (intro chunk_count_bounds(2)[OF assms]) simp
      then have "bd i = (m + i) * c" by (simp add: bd_def)
      moreover have "int (bd (Suc i)) = min (int (m + i) * int c + int c) (int ?n)"
        by (simp add: bd_def algebra_simps of_nat_min)
      ultimately show "map (\<lambda>j. py_slice ts (int j * int c) (min (int j * int c + int c) (int ?n))) [m..<?N] ! i
        = map (\<lambda>j. py_slice ts (int (bd j)) (int (bd (Suc j)))) [0..<?N - m] ! i"
        using i by simp
    qed simp
    moreover have p: "concat (map (\<lambda>j. py_slice ts (int (bd j)) (int (bd (Suc j)))) [0..<?N - m])
        = py_slice ts (int (bd 0)) (int (bd (?N - m))) \<and> bd 0 \<le> bd (?N - m)"
      by (rule py_slice_pieces) (auto simp: bd_def min_def)
    moreover have "py_slice ts (int (bd 0)) (int (bd (?N - m))) = drop (bd 0) (take (bd (?N - m)) ts)"
      using p by (simp add: py_slice_nat drop_take bd_def)
    moreover have "bd (?N - m) = min (?N * c) ?n" using True by (simp add: bd_def)
    moreover have "drop (bd 0) (take k ts) = drop (m * c) (take k ts)" for k
      by (auto simp: bd_def min_def)
    ultimately show ?thesis using K by simp
  next
    case False
    then have "?N * c \<le> m * c" by simp
    then have "(if td_save_unfull_chunk db then ?n else ?n - ?n mod c) \<le> m * c" using K by linarith
    then show ?thesis using False by simp
  qed
qed

text \<open>
  C7: the chunks tile the tokens. With a chunk size \<open>c\<close> and a mask that hides \<open>m\<close> whole chunks,
  \<open>process_tokens\<close> yields consecutive ranges which together are the tokens from position
  \<open>m * c\<close> on, up to the last full chunk, or to the end when partial chunks are kept; the hash of
  chunk \<open>j\<close> chains the hashes of all chunks up to \<open>j\<close>, hidden ones included. A mask that cuts a
  chunk is a \<open>ValueError\<close>.
\<close>

theorem chunk_keys_tile_tokens:
  assumes "td_chunk_size db = int c" and "0 < c" and "can_yield db mk"
  shows "(num_falses_of msk = int (m * c) \<longrightarrow>
      (\<exists>ys. process_tokens db (Some ts) hashes offsets msk mk rc = (ys, None) \<and>
        concat (map (\<lambda>(a, b, x). py_slice ts a b) ys)
          = drop (m * c) (take (if td_save_unfull_chunk db then length ts else length ts - length ts mod c) ts) \<and>
        (\<forall>j < length ys. ys ! j = (int ((m + j) * c), min (int ((m + j) * c + c)) (int (length ts)),
           item_of db mk rc (foldl (\<lambda>h i. td_hash_func db (Some h) (take c (drop (i * c) ts))) (td_none_hash db) [0..<Suc (m + j)]))))) \<and>
    (num_falses_of msk mod int c \<noteq> 0 \<longrightarrow>
      process_tokens db (Some ts) hashes offsets msk mk rc = ([], Some ValueError))"
proof (intro conjI impI)
  assume nf: "num_falses_of msk = int (m * c)"
  let ?ys = "map (\<lambda>j. (int j * int c, min (int j * int c + int c) (int (length ts)), item_of db mk rc (chunk_hash db ts j)))
       [m..<chunk_count db (length ts)]"
  have "process_tokens db (Some ts) hashes offsets msk mk rc = (?ys, None)"
    using process_tokens_eq[OF assms(3,1,2)] nf by simp
  moreover have "concat (map (\<lambda>(a, b, x). py_slice ts a b) ?ys)
      = drop (m * c) (take (if td_save_unfull_chunk db then length ts else length ts - length ts mod c) ts)"
    using chunks_concat[OF assms(1,2), of ts m] by (simp add: comp_def)
  moreover have "chunk_hash db ts i = foldl (\<lambda>h i. td_hash_func db (Some h) (take c (drop (i * c) ts))) (td_none_hash db) [0..<Suc i]" for i
    using assms(1) by (simp add: chunk_hash_def chain_hash_def foldl_map chunk_at_def hash_tokens_def del: upt_Suc)
  then have "\<forall>j < length ?ys. ?ys ! j = (int ((m + j) * c), min (int ((m + j) * c + c)) (int (length ts)),
           item_of db mk rc (foldl (\<lambda>h i. td_hash_func db (Some h) (take c (drop (i * c) ts))) (td_none_hash db) [0..<Suc (m + j)]))"
    by (simp del: upt_Suc)
  ultimately show "\<exists>ys. process_tokens db (Some ts) hashes offsets msk mk rc = (ys, None) \<and>
        concat (map (\<lambda>(a, b, x). py_slice ts a b) ys)
          = drop (m * c) (take (if td_save_unfull_chunk db then length ts else length ts - length ts mod c) ts) \<and>
        (\<forall>j < length ys. ys ! j = (int ((m + j) * c), min (int ((m + j) * c + c)) (int (length ts)),
           item_of db mk rc (foldl (\<lambda>h i. td_hash_func db (Some h) (take c (drop (i * c) ts))) (td_none_hash db) [0..<Suc (m + j)])))"
    by blast
next
  assume "num_falses_of msk mod int c \<noteq> 0"
  then show "process_tokens db (Some ts) hashes offsets msk mk rc = ([], Some ValueError)"
    using assms(1,2) by (simp add: process_tokens_def)
qed

lemma chunks_eq_iff_prefix:
  "(\<forall>j < k. take c (drop (j * c) ts) = take c (drop (j * c) us)) \<longleftrightarrow> take (k * c) ts = take (k * c) us"
proof (induction k)
  case (Suc k)
  have t: "take (Suc k * c) xs = take (k * c) xs @ take c (drop (k * c) xs)" for xs :: "'a list"
    by (metis add.commute mult_Suc take_add)
  show ?case
  proof
    assume "\<forall>j < Suc k. take c (drop (j * c) ts) = take c (drop (j * c) us)"
    then show "take (Suc k * c) ts = take (Suc k * c) us" using Suc unfolding t by auto
  next
    assume e: "take (Suc k * c) ts = take (Suc k * c) us"
    then have "take (k * c) ts = take (k * c) us"
      by (metis le_add2 min.absorb1 mult_Suc take_take)
    with e Suc show "\<forall>j < Suc k. take c (drop (j * c) ts) = take c (drop (j * c) us)"
      unfolding t by (auto simp: less_Suc_eq)
  qed
qed simp

lemma chunk_hash_inj:
  assumes "\<And>h g xs ys. td_hash_func db (Some h) xs = td_hash_func db (Some g) ys \<Longrightarrow> h = g \<and> xs = ys"
  shows "chunk_hash db ts i = chunk_hash db us i \<longleftrightarrow> (\<forall>j < Suc i. chunk_at db ts j = chunk_at db us j)"
proof (induction i)
  case 0
  then show ?case using assms by (auto simp: chunk_hash_def chain_hash_def hash_tokens_def)
next
  case (Suc i)
  have "chunk_hash db xs (Suc i) = td_hash_func db (Some (chunk_hash db xs i)) (chunk_at db xs (Suc i))" for xs
    by (simp add: chunk_hash_def chain_hash_def hash_tokens_def)
  then show ?case using Suc assms by (auto simp: less_Suc_eq)
qed

text \<open>
  C14: a chunk's key stands for the whole prefix. For a hash function without collisions, the
  items that two requests yield at the same place are equal exactly when the requests agree on
  all tokens up to the end of that chunk, so a hit on a key is a hit on everything before it.
\<close>

theorem equal_chunk_keys_iff_equal_prefix:
  assumes "td_chunk_size db = int c" and "0 < c" and "can_yield db mk" and "num_falses_of msk = int (m * c)"
    and "\<And>h g xs ys. td_hash_func db (Some h) xs = td_hash_func db (Some g) ys \<Longrightarrow> h = g \<and> xs = ys"
    and "process_tokens db (Some ts) None None msk mk rc = (ys, None)"
    and "process_tokens db (Some us) None None msk mk rc = (zs, None)" and "j < length ys" and "j < length zs"
  shows "snd (snd (ys ! j)) = snd (snd (zs ! j)) \<longleftrightarrow> take ((m + j + 1) * c) ts = take ((m + j + 1) * c) us"
proof -
  have nf: "num_falses_of msk = int m * int c" using assms(4) by simp
  have "snd (snd (ys ! j)) = item_of db mk rc (chunk_hash db ts (m + j))"
    "snd (snd (zs ! j)) = item_of db mk rc (chunk_hash db us (m + j))"
    using assms(6-9) process_tokens_eq[OF assms(3,1,2) nf] by auto
  then have "snd (snd (ys ! j)) = snd (snd (zs ! j)) \<longleftrightarrow> (\<forall>i < Suc (m + j). chunk_at db ts i = chunk_at db us i)"
    using item_of_inj[OF assms(3)] chunk_hash_inj[of db ts "m + j" us] assms(5) by auto
  then show ?thesis
    using chunks_eq_iff_prefix[of "Suc (m + j)" c ts us] assms(1) by (simp add: chunk_at_def)
qed

section \<open>The segments\<close>

fun join_with :: "'a list \<Rightarrow> 'a list list \<Rightarrow> 'a list" where
  "join_with sep [] = []"
| "join_with sep [xs] = xs"
| "join_with sep (xs # ys # zss) = xs @ sep @ join_with sep (ys # zss)"

lemma join_with_Cons: "zss \<noteq> [] \<Longrightarrow> join_with sep (xs # zss) = xs @ sep @ join_with sep zss"
  by (cases zss) auto

text \<open>Matches that do not overlap.\<close>

fun spaced :: "nat \<Rightarrow> nat \<Rightarrow> nat list \<Rightarrow> bool" where
  "spaced k first [] = True"
| "spaced k first (i # is') \<longleftrightarrow> first \<le> i \<and> spaced k (i + k) is'"

lemma truncate_hash_func [simp]: "td_hash_func (token_db.truncate db) = td_hash_func db"
  by (simp add: token_db.truncate_def)

lemma segment_loop_eq:
  assumes "can_yield (token_db.truncate db) mk"
  shows "spaced (length (sg_sep_tokens db)) k ms \<Longrightarrow> k \<le> length ts \<Longrightarrow> \<forall>i \<in> set ms. i + length (sg_sep_tokens db) \<le> length ts \<Longrightarrow>
    \<exists>ys. segment_loop db mk rc 0 first (int k - (if first then 0 else int (length (sg_sep_tokens db))))
        (split_at_matches (int (length (sg_sep_tokens db))) ts (int k) ms) = (ys, None) \<and>
      map (\<lambda>(a, b, x). py_slice ts a b) ys = split_at_matches (int (length (sg_sep_tokens db))) ts (int k) ms \<and>
      (\<forall>(a, b, x) \<in> set ys. 0 \<le> a \<and> a \<le> b \<and> b \<le> int (length ts) \<and>
         x = item_of (token_db.truncate db) mk rc (td_hash_func db None (py_slice ts a b)))"
proof (induction ms arbitrary: k first)
  case Nil
  have "length (py_slice ts (int k) (int (length ts))) = length ts - k"
    using Nil.prems by (simp add: py_slice_nat)
  then show ?case using Nil.prems
    by (auto simp: Let_def yield_item_ok[OF assms] hash_tokens_def of_nat_diff)
next
  case (Cons i ms)
  let ?s = "length (sg_sep_tokens db)"
  have ki: "k \<le> i" "i + ?s \<le> length ts" using Cons.prems by auto
  have len: "length (py_slice ts (int k) (int i)) = i - k" using ki by (simp add: py_slice_nat)
  obtain ys where ys: "segment_loop db mk rc 0 False (int (i + ?s) - int ?s) (split_at_matches (int ?s) ts (int (i + ?s)) ms) = (ys, None)"
    "map (\<lambda>(a, b, x). py_slice ts a b) ys = split_at_matches (int ?s) ts (int (i + ?s)) ms"
    "\<forall>(a, b, x) \<in> set ys. 0 \<le> a \<and> a \<le> b \<and> b \<le> int (length ts) \<and>
         x = item_of (token_db.truncate db) mk rc (td_hash_func db None (py_slice ts a b))"
    using Cons.IH[of "i + ?s" False] Cons.prems ki by auto
  let ?x = "item_of (token_db.truncate db) mk rc (td_hash_func db None (py_slice ts (int k) (int i)))"
  have "segment_loop db mk rc 0 first (int k - (if first then 0 else int ?s)) (split_at_matches (int ?s) ts (int k) (i # ms))
      = ((int k, int i, ?x) # ys, None)"
    using ys(1) len ki by (simp add: Let_def yield_item_ok[OF assms] hash_tokens_def of_nat_diff)
  then show ?case using ys ki by (intro exI[of _ "(int k, int i, ?x) # ys"]) auto
qed

lemma split_join:
  "spaced (length sep) k ms \<Longrightarrow> k \<le> length ts \<Longrightarrow> \<forall>i \<in> set ms. i + length sep \<le> length ts \<and> take (length sep) (drop i ts) = sep \<Longrightarrow>
   join_with sep (split_at_matches (int (length sep)) ts (int k) ms) = drop k ts"
proof (induction ms arbitrary: k)
  case Nil
  then show ?case by (simp add: py_slice_nat)
next
  case (Cons i ms)
  have ki: "k \<le> i" "i + length sep \<le> length ts" and sep: "take (length sep) (drop i ts) = sep" using Cons.prems by auto
  have ih: "join_with sep (split_at_matches (int (length sep)) ts (int (i + length sep)) ms) = drop (i + length sep) ts"
    using Cons.IH[of "i + length sep"] Cons.prems ki by auto
  have "split_at_matches (int (length sep)) ts (int (i + length sep)) ms \<noteq> []"
    by (cases ms) auto
  then have "join_with sep (split_at_matches (int (length sep)) ts (int k) (i # ms))
      = py_slice ts (int k) (int i) @ sep @ drop (i + length sep) ts"
    using ih by (simp add: join_with_Cons add.commute)
  also have "sep @ drop (i + length sep) ts = drop i ts"
    using sep by (metis add.commute append_take_drop_id drop_drop)
  also have "py_slice ts (int k) (int i) @ drop i ts = drop k ts"
    using ki by (simp add: py_slice_nat) (metis append_take_drop_id drop_drop le_add_diff_inverse2)
  finally show ?case .
qed

text \<open>
  the segments between separators. For tokens at least as long as the separator, whose
  occurrences of it do not overlap, \<open>process_tokens\<close> yields ranges inside the tokens, each with the
  hash of exactly the tokens of its range, and joined with the separator they give the tokens back.
  For shorter tokens it yields the whole range once and then fails with the \<open>RuntimeError\<close> of the
  sliding windows, because the early \<open>yield\<close> does not return.
\<close>

theorem segments_join_to_tokens:
  assumes "can_yield (token_db.truncate db) mk" and "sg_sep_tokens db \<noteq> []" and "ts \<noteq> []"
  shows "(length (sg_sep_tokens db) \<le> length ts \<and> spaced (length (sg_sep_tokens db)) 0 (sep_matches (sg_sep_tokens db) ts) \<longrightarrow>
      (\<exists>ys. segment_process_tokens db (Some ts) hashes offsets None mk rc = (ys, None) \<and>
        join_with (sg_sep_tokens db) (map (\<lambda>(a, b, x). py_slice ts a b) ys) = ts \<and>
        (\<forall>(a, b, x) \<in> set ys. 0 \<le> a \<and> a \<le> b \<and> b \<le> int (length ts) \<and>
           x = item_of (token_db.truncate db) mk rc (td_hash_func db None (py_slice ts a b))))) \<and>
    (length ts < length (sg_sep_tokens db) \<longrightarrow>
      segment_process_tokens db (Some ts) hashes offsets None mk rc =
        ([(0, int (length ts), item_of (token_db.truncate db) mk rc (td_hash_func db None ts))], Some RuntimeError))"
proof (intro conjI impI)
  let ?sep = "sg_sep_tokens db" and ?ms = "sep_matches (sg_sep_tokens db) ts"
  assume h: "length ?sep \<le> length ts \<and> spaced (length ?sep) 0 ?ms"
  have m: "\<forall>i \<in> set ?ms. i + length ?sep \<le> length ts \<and> take (length ?sep) (drop i ts) = ?sep"
    using h by (auto simp: sep_matches_def)
  obtain ys where ys: "segment_loop db mk rc 0 True 0 (split_at_matches (int (length ?sep)) ts 0 ?ms) = (ys, None)"
    "map (\<lambda>(a, b, x). py_slice ts a b) ys = split_at_matches (int (length ?sep)) ts 0 ?ms"
    "\<forall>(a, b, x) \<in> set ys. 0 \<le> a \<and> a \<le> b \<and> b \<le> int (length ts) \<and>
         x = item_of (token_db.truncate db) mk rc (td_hash_func db None (py_slice ts a b))"
    using segment_loop_eq[OF assms(1), of 0 ?ms ts rc True] h m by auto
  moreover have "segment_process_tokens db (Some ts) hashes offsets None mk rc = (ys, None)"
    using ys(1) h assms(2,3) by (simp add: segment_process_tokens_def num_falses_of_def fast_split_by_subtensor_def)
  ultimately show "\<exists>ys. segment_process_tokens db (Some ts) hashes offsets None mk rc = (ys, None) \<and>
        join_with ?sep (map (\<lambda>(a, b, x). py_slice ts a b) ys) = ts \<and>
        (\<forall>(a, b, x) \<in> set ys. 0 \<le> a \<and> a \<le> b \<and> b \<le> int (length ts) \<and>
           x = item_of (token_db.truncate db) mk rc (td_hash_func db None (py_slice ts a b)))"
    using split_join[of ?sep 0 ?ms ts] h m by auto
next
  assume "length ts < length (sg_sep_tokens db)"
  then show "segment_process_tokens db (Some ts) hashes offsets None mk rc =
        ([(0, int (length ts), item_of (token_db.truncate db) mk rc (td_hash_func db None ts))], Some RuntimeError)"
    using assms(3) by (simp add: segment_process_tokens_def num_falses_of_def fast_split_by_subtensor_def
        yield_item_ok[OF assms(1)] hash_tokens_def)
qed

section \<open>Examples\<close>

text \<open>A hash function without collisions.\<close>

definition hash_code :: "hash_val \<Rightarrow> nat" where
  "hash_code h =
     (case h of HInt i \<Rightarrow> prod_encode (0, int_encode i) | HBytes bs \<Rightarrow> prod_encode (1, list_encode (map unat bs)))"

definition demo_hash :: hash_fun where
  "demo_hash prefix tokens =
     HInt (int (prod_encode (case prefix of None \<Rightarrow> 0 | Some h \<Rightarrow> Suc (hash_code h), list_encode (map int_encode tokens))))"

lemma inj_unat8: "inj (unat :: 8 word \<Rightarrow> nat)"
  by (rule injI) (rule unsigned_word_eqI)

lemma demo_hash_inj: "demo_hash (Some h) xs = demo_hash (Some g) ys \<Longrightarrow> h = g \<and> xs = ys"
  by (auto simp: demo_hash_def hash_code_def int_encode_eq list_encode_eq prod_encode_eq inj_map_eq_map[OF inj_int_encode]
      inj_map_eq_map[OF inj_unat8] split: hash_val.splits)

definition demo_meta :: lmc_metadata where
  "demo_meta = \<lparr> md_model_name = ''m'', md_world_size = 2, md_worker_id = 1, md_kv_dtype = BFloat16, md_use_mla = True \<rparr>"

definition demo_db :: token_db where
  "demo_db = chunked_db_init demo_hash (HInt 0)
     (Some \<lparr> tc_chunk_size = 2, tc_save_unfull_chunk = True, tc_save_only_first_rank = None \<rparr>) (Some demo_meta)"

definition demo_segment_db :: segment_db where
  "demo_segment_db = token_db.extend demo_db \<lparr> sg_sep_tokens = [9, 8] \<rparr>"

lemma demo_db_ok:
  "td_chunk_size demo_db = int 2" "can_yield demo_db mk" "td_save_unfull_chunk demo_db"
  "td_hash_func demo_db = demo_hash" "token_db.truncate demo_segment_db = demo_db" "sg_sep_tokens demo_segment_db = [9, 8]"
  "td_hash_func demo_segment_db = demo_hash"
  by (auto simp: demo_db_def chunked_db_init_def can_yield_def demo_meta_def torch_dtype_to_str_def
      demo_segment_db_def token_db.extend_def token_db.truncate_def)

theorem chunk_keys_tile_tokens_witness:
  "\<exists>ys. process_tokens demo_db (Some [1, 2, 3, 4, 5]) None None (Some [False, False, True, True, True]) True None = (ys, None) \<and>
     concat (map (\<lambda>(a, b, x). py_slice [1, 2, 3, 4, 5::int] a b) ys) = [3, 4, 5]"
proof -
  have "num_falses_of (Some [False, False, True, True, True]) = int (1 * 2)" by (simp add: num_falses_of_def)
  then show ?thesis
    using chunk_keys_tile_tokens[OF demo_db_ok(1) _ demo_db_ok(2), of "Some [False, False, True, True, True]" 1
        "[1, 2, 3, 4, 5]" None None True None] demo_db_ok(3) by auto
qed

theorem equal_chunk_keys_iff_equal_prefix_witness:
  "\<exists>ys zs. process_tokens demo_db (Some [1, 2, 3, 4, 5]) None None None False None = (ys, None) \<and>
     process_tokens demo_db (Some [1, 2, 3, 4, 6]) None None None False None = (zs, None) \<and>
     snd (snd (ys ! 1)) = snd (snd (zs ! 1)) \<and> snd (snd (ys ! 2)) \<noteq> snd (snd (zs ! 2))"
proof -
  have nf: "num_falses_of None = int 0 * int 2" "num_falses_of None = int (0 * 2)" by (simp_all add: num_falses_of_def)
  have two: "0 < (2::nat)" by simp
  let ?p = "\<lambda>ts. map (\<lambda>j. (int j * int 2, min (int j * int 2 + int 2) (int (length ts)), item_of demo_db False None (chunk_hash demo_db ts j)))
       [0..<chunk_count demo_db (length ts)]"
  have p: "process_tokens demo_db (Some ts) None None None False None = (?p ts, None)" for ts
    by (rule process_tokens_eq[OF demo_db_ok(2,1) two nf(1)])
  have len: "length (?p [1, 2, 3, 4, 5]) = 3" "length (?p [1, 2, 3, 4, 6]) = 3"
    by (simp_all add: chunk_count_def demo_db_ok Let_def)
  have inj: "\<And>h g xs ys. td_hash_func demo_db (Some h) xs = td_hash_func demo_db (Some g) ys \<Longrightarrow> h = g \<and> xs = ys"
    using demo_hash_inj by (simp add: demo_db_ok)
  have "snd (snd (?p [1, 2, 3, 4, 5] ! j)) = snd (snd (?p [1, 2, 3, 4, 6] ! j)) \<longleftrightarrow>
      take ((0 + j + 1) * 2) [1, 2, 3, 4, 5] = take ((0 + j + 1) * 2) [1, 2, 3, 4, 6::int]" if "j < 3" for j
    using that len by (intro equal_chunk_keys_iff_equal_prefix[OF demo_db_ok(1) two demo_db_ok(2) nf(2) inj p p]) auto
  from this[of 1] this[of 2] p show ?thesis by auto
qed

theorem segments_join_to_tokens_witness:
  "\<exists>ys. segment_process_tokens demo_segment_db (Some [1, 9, 8, 2, 3]) None None None True None = (ys, None) \<and>
     join_with [9, 8] (map (\<lambda>(a, b, x). py_slice [1, 9, 8, 2, 3::int] a b) ys) = [1, 9, 8, 2, 3]"
proof -
  have y: "can_yield (token_db.truncate demo_segment_db) True" unfolding demo_db_ok(5) by (rule demo_db_ok(2))
  have s: "length (sg_sep_tokens demo_segment_db) \<le> length [1, 9, 8, 2, 3::int] \<and>
      spaced (length (sg_sep_tokens demo_segment_db)) 0 (sep_matches (sg_sep_tokens demo_segment_db) [1, 9, 8, 2, 3])"
    unfolding demo_db_ok(6) by code_simp
  have "sg_sep_tokens demo_segment_db \<noteq> []" "[1, 9, 8, 2, 3::int] \<noteq> []" by (simp_all add: demo_db_ok)
  from conjunct1[OF segments_join_to_tokens[OF y this, of None None None], THEN mp, OF s]
  show ?thesis unfolding demo_db_ok(6) by blast
qed

end
