(* ===== verification/Node.thy ===== *)
theory Node
  imports EngineLaws LocalCPU TokenDatabase
begin

text \<open>
  A worker with its CPU cache: the storage manager's world is \<open>LocalCPUBackend\<close> over the pinned
  buffer. The buffer is a function from addresses to bytes; the tensor of a memory object is the
  region \<open>mo_raw\<close> of it. The GPU connector is not part of the model's code: it copies bytes, so that
  it writes what the GPU holds for the tokens of a chunk into the tensor of an object, and hands the
  bytes of a tensor to the GPU, which keeps the list of what it received.

  The invariant \<open>node_ok\<close> adds to the one of the backend a ledger of the references that the
  running call holds, and says that every cached object has the bytes that belong to its key. The
  lemmas show that every operation of the engine keeps it.
\<close>

declare map_of_eq_Some_iff [simp del] Some_eq_map_of_iff [simp del]

record ('k, 'h, 's, 'd, 'b) node =
  nd_cpu :: "('k, 'h, 's, 'd) cpu_backend"
  nd_bytes :: "int \<Rightarrow> 'b"
  nd_now :: int
  nd_received :: "(int \<times> int \<times> 'b list) list"

type_synonym ('s, 'd) alloc_request = "'s one_or_many \<times> 'd one_or_many \<times> mem_fmt option"

section \<open>The backend as a record of its methods\<close>

definition on_cpu ::
  "(('k, 'h, 's, 'd) cpu_backend \<Rightarrow> ('k, 'h, 's, 'd) cpu_backend \<times> 'a result) \<Rightarrow> ('k, 'h, 's, 'd, 'b) node
    \<Rightarrow> ('k, 'h, 's, 'd, 'b) node \<times> 'a result" where
  "on_cpu f nd = (case f (nd_cpu nd) of (cb, r) \<Rightarrow> (nd\<lparr>nd_cpu := cb\<rparr>, r))"

text \<open>A binary buffer is not an object of the pinned allocator, which the cache keeps; the engine
  never asks for one.\<close>

definition node_allocate ::
  "('k, 'h, 's, 'd) cpu_env \<Rightarrow> (nat \<Rightarrow> ('k, 'h, 's, 'd) cpu_backend \<Rightarrow> ('k, 'h, 's, 'd) cpu_backend)
    \<Rightarrow> ('s, 'd) alloc_request \<Rightarrow> bool \<Rightarrow> bool \<Rightarrow> ('k, 'h, 's, 'd, 'b) node \<Rightarrow> ('k, 'h, 's, 'd, 'b) node \<times> nat option result" where
  "node_allocate env others q eviction busy_loop nd =
     (case q of (shapes, dtypes, fmt) \<Rightarrow>
        (case cpu_allocate env others (nd_cpu nd) shapes dtypes fmt eviction busy_loop of
           None \<Rightarrow> (nd, Inl NoReturn)
         | Some (cb, Inl e) \<Rightarrow> (nd\<lparr>nd_cpu := cb\<rparr>, Inl e)
         | Some (cb, Inr None) \<Rightarrow> (nd\<lparr>nd_cpu := cb\<rparr>, Inr None)
         | Some (cb, Inr (Some (PinObj i))) \<Rightarrow> (nd\<lparr>nd_cpu := cb\<rparr>, Inr (Some i))
         | Some (cb, Inr (Some (BytesObj x))) \<Rightarrow> (nd\<lparr>nd_cpu := cb\<rparr>, Inl NotImplementedError)))"

definition node_contains ::
  "'k \<Rightarrow> bool \<Rightarrow> ('k, 'h, 's, 'd, 'b) node \<Rightarrow> ('k, 'h, 's, 'd, 'b) node \<times> bool result" where
  "node_contains key pin nd = on_cpu (\<lambda>cb. apsnd Inr (cpu_contains (nd_now nd) cb key pin)) nd"

definition node_get :: "'k \<Rightarrow> ('k, 'h, 's, 'd, 'b) node \<Rightarrow> ('k, 'h, 's, 'd, 'b) node \<times> nat option result" where
  "node_get key = on_cpu (\<lambda>cb. apsnd Inr (get_blocking cb key))"

definition node_put ::
  "('k, 'h, 's, 'd) cpu_env \<Rightarrow> 'k list \<Rightarrow> nat list \<Rightarrow> ('k, 'h, 's, 'd, 'b) node \<Rightarrow> ('k, 'h, 's, 'd, 'b) node \<times> unit result" where
  "node_put env keys objs nd = on_cpu (\<lambda>cb. (batched_submit_put_task env (nd_now nd) cb keys objs, Inr ())) nd"

definition cpu_alloc_if ::
  "('k, 'h, 's, 'd) cpu_env \<Rightarrow> (nat \<Rightarrow> ('k, 'h, 's, 'd) cpu_backend \<Rightarrow> ('k, 'h, 's, 'd) cpu_backend)
    \<Rightarrow> (('k, 'h, 's, 'd, 'b) node, 'k, nat, ('s, 'd) alloc_request) allocator" where
  "cpu_alloc_if env others =
     \<lparr> al_name = local_cpu,
       al_contains = (\<lambda>key. node_contains key False),
       al_allocate = node_allocate env others,
       al_batched_allocate = (\<lambda>q n ev bl nd. (nd, Inl NotImplementedError)) \<rparr>"

definition cpu_be ::
  "('k, 'h, 's, 'd) cpu_env \<Rightarrow> (nat \<Rightarrow> ('k, 'h, 's, 'd) cpu_backend \<Rightarrow> ('k, 'h, 's, 'd) cpu_backend)
    \<Rightarrow> (('k, 'h, 's, 'd, 'b) node, 'k, nat, ('s, 'd) alloc_request) backend" where
  "cpu_be env others =
     \<lparr> be_contains = node_contains,
       be_batched_contains = (\<lambda>keys pin. default_batched_contains node_contains keys pin 0),
       be_get_blocking = node_get,
       be_batched_get_blocking = (\<lambda>keys. default_batched_get node_get keys []),
       be_submit_put_task = (\<lambda>key i nd. on_cpu (\<lambda>cb. (submit_put_task env (nd_now nd) cb key i, Inr ())) nd),
       be_batched_submit_put_task = node_put env,
       be_batched_async_contains = (\<lambda>keys pin nd. on_cpu (\<lambda>cb. apsnd Inr (batched_async_contains (nd_now nd) cb keys pin 0)) nd),
       be_batched_get_non_blocking = (\<lambda>keys. on_cpu (\<lambda>cb. batched_get_non_blocking cb keys [])),
       be_remove = (\<lambda>key. on_cpu (\<lambda>cb. cpu_remove env cb key True)),
       be_batched_remove = (\<lambda>keys. on_cpu (\<lambda>cb. batched_remove env cb keys True 0)),
       be_unpin = (\<lambda>key. on_cpu (\<lambda>cb. apsnd Inr (cpu_unpin env cb key))),
       be_touch_cache = (\<lambda>nd. on_cpu (touch_cache env (nd_now nd)) nd),
       be_clear = Some (on_cpu (cpu_clear env)),
       be_memcheck = Some (\<lambda>nd. t_memcheck (cb_mem (nd_cpu nd))),
       be_allocator = Inr (cpu_alloc_if env others) \<rparr>"

section \<open>Tensors and the GPU\<close>

definition obj_data :: "('k, 'h, 's, 'd, 'b) node \<Rightarrow> nat \<Rightarrow> 'b list" where
  "obj_data nd i = (case mo_raw (hot_obj (nd_cpu nd) i) of (a, n) \<Rightarrow> map (nd_bytes nd) [a..a + n - 1])"

definition write_bytes :: "int \<Rightarrow> 'b list \<Rightarrow> (int \<Rightarrow> 'b) \<Rightarrow> int \<Rightarrow> 'b" where
  "write_bytes a xs bytes = (\<lambda>x. if a \<le> x \<and> x < a + int (length xs) then xs ! nat (x - a) else bytes x)"

definition write_obj :: "nat \<Rightarrow> 'b list \<Rightarrow> ('k, 'h, 's, 'd, 'b) node \<Rightarrow> ('k, 'h, 's, 'd, 'b) node" where
  "write_obj i xs nd = (case mo_raw (hot_obj (nd_cpu nd) i) of (a, n) \<Rightarrow> nd\<lparr>nd_bytes := write_bytes a (take (nat n) xs) (nd_bytes nd)\<rparr>)"

definition cpu_obj_ops :: "('k, 'h, 's, 'd) cpu_env \<Rightarrow> (('k, 'h, 's, 'd, 'b) node, nat, ('s, 'd) alloc_request) obj_ops" where
  "cpu_obj_ops env =
     \<lparr> oo_ref_count_down = (\<lambda>i nd. nd\<lparr>nd_cpu := (nd_cpu nd)\<lparr>cb_mem := ref_count_down (mem_env_of env) (cb_mem (nd_cpu nd)) i\<rparr>\<rparr>),
       oo_request = (\<lambda>i nd. let obj = hot_obj (nd_cpu nd) i in (Many (mo_shapes obj), Many (mo_dtypes obj), Some (mo_fmt obj))),
       oo_has_tensor = (\<lambda>i nd. mo_valid (hot_obj (nd_cpu nd) i)),
       oo_copy = (\<lambda>i j nd. write_obj i (obj_data nd j) nd),
       oo_size = (\<lambda>i nd. obj_get_size (mem_env_of env) (hot_obj (nd_cpu nd) i)) \<rparr>"

definition cpu_sm ::
  "('k, 'h, 's, 'd) cpu_env \<Rightarrow> (nat \<Rightarrow> ('k, 'h, 's, 'd) cpu_backend \<Rightarrow> ('k, 'h, 's, 'd) cpu_backend)
    \<Rightarrow> (('k, 'h, 's, 'd, 'b) node, 'k, nat, ('s, 'd) alloc_request) storage_manager" where
  "cpu_sm env others =
     \<lparr> sm_backends = [(local_cpu, cpu_be env others)], sm_allocator = Some (cpu_alloc_if env others), sm_freeze = False,
       sm_bypassed = {}, sm_ops = cpu_obj_ops env \<rparr>"

text \<open>\<open>content start end\<close>: the bytes the GPU holds for the tokens of a chunk.\<close>

fun gpu_write :: "(int \<Rightarrow> int \<Rightarrow> 'b list) \<Rightarrow> nat list \<Rightarrow> int list \<Rightarrow> int list \<Rightarrow> ('k, 'h, 's, 'd, 'b) node \<Rightarrow> ('k, 'h, 's, 'd, 'b) node" where
  "gpu_write content (i # is) (a # as) (b # bs) nd = gpu_write content is as bs (write_obj i (content a b) nd)"
| "gpu_write content _ _ _ nd = nd"

definition gpu_read :: "nat list \<Rightarrow> int list \<Rightarrow> int list \<Rightarrow> ('k, 'h, 's, 'd, 'b) node \<Rightarrow> ('k, 'h, 's, 'd, 'b) node" where
  "gpu_read is as bs nd =
     nd\<lparr>nd_received := nd_received nd @ map (\<lambda>(i, a, b). (a, b, obj_data nd i)) (zip is (zip as bs))\<rparr>"

section \<open>The ledger and the invariant\<close>

definition raws_ok :: "('k, 'h, 's, 'd) cpu_backend \<Rightarrow> bool" where
  "raws_ok cb \<longleftrightarrow> (\<forall>i < length (t_objs (cb_mem cb)).
     fst (mo_raw (hot_obj cb i)) = mo_address (hot_obj cb i) \<and> 0 \<le> snd (mo_raw (hot_obj cb i)) \<and>
     snd (mo_raw (hot_obj cb i)) \<le> mo_phy_size (hot_obj cb i))"

text \<open>\<open>held\<close>: the references that are not the cache's, those of the running call and of other callers, one entry
  each. The counter of an object is exactly its references by the cache and in this ledger.\<close>

definition cpu_ok :: "('k, 'h, 's, 'd) cpu_backend \<Rightarrow> nat list \<Rightarrow> bool" where
  "cpu_ok cb held \<longleftrightarrow> cpu_inv cb \<and> raws_ok cb \<and> (\<forall>i \<in> set held. i < length (t_objs (cb_mem cb))) \<and>
     (\<forall>i < length (t_objs (cb_mem cb)). int (card (holders (cb_hot cb) i) + count_list held i) = mo_ref_count (hot_obj cb i))"

text \<open>What no operation changes: the regions of the objects there are. Nothing invalid becomes
  valid, and an operation other than a put only drops keys.\<close>

definition same_layout :: "('k, 'h, 's, 'd) cpu_backend \<Rightarrow> ('k, 'h, 's, 'd) cpu_backend \<Rightarrow> bool" where
  "same_layout cb cb' \<longleftrightarrow> length (t_objs (cb_mem cb)) \<le> length (t_objs (cb_mem cb')) \<and>
     (\<forall>i < length (t_objs (cb_mem cb)). mo_raw (hot_obj cb' i) = mo_raw (hot_obj cb i) \<and>
        mo_address (hot_obj cb' i) = mo_address (hot_obj cb i) \<and> mo_phy_size (hot_obj cb' i) = mo_phy_size (hot_obj cb i) \<and>
        mo_shapes (hot_obj cb' i) = mo_shapes (hot_obj cb i))"

definition drops_only :: "('k, 'h, 's, 'd) cpu_backend \<Rightarrow> ('k, 'h, 's, 'd) cpu_backend \<Rightarrow> bool" where
  "drops_only cb cb' \<longleftrightarrow> same_layout cb cb' \<and> (\<forall>k i. map_of (cb_hot cb') k = Some i \<longrightarrow> map_of (cb_hot cb) k = Some i)"

definition node_ok :: "('k \<Rightarrow> 'b list) \<Rightarrow> nat list \<Rightarrow> ('k, 'h, 's, 'd, 'b) node \<Rightarrow> bool" where
  "node_ok truth held nd \<longleftrightarrow> cpu_ok (nd_cpu nd) held \<and>
     (\<forall>k i. map_of (cb_hot (nd_cpu nd)) k = Some i \<longrightarrow> obj_data nd i = truth k)"

lemma same_layout_refl [simp]: "same_layout cb cb"
  by (simp add: same_layout_def)

lemma same_layout_trans: "same_layout a b \<Longrightarrow> same_layout b c \<Longrightarrow> same_layout a c"
  unfolding same_layout_def by (metis (no_types, lifting) less_le_trans order_trans)

lemma drops_only_refl [simp]: "drops_only cb cb"
  by (simp add: drops_only_def)

lemma drops_only_trans: "drops_only a b \<Longrightarrow> drops_only b c \<Longrightarrow> drops_only a c"
  unfolding drops_only_def using same_layout_trans by blast

lemma cpu_okD:
  assumes "cpu_ok cb held"
  shows "cpu_inv cb" and "raws_ok cb" and "mem_inv (cb_mem cb)" and "talloc_inv (cb_mem cb)"
    and "i \<in> set held \<Longrightarrow> i < length (t_objs (cb_mem cb))"
    and "i < length (t_objs (cb_mem cb)) \<Longrightarrow> int (card (holders (cb_hot cb) i) + count_list held i) = mo_ref_count (hot_obj cb i)"
  using assms by (auto simp: cpu_ok_def cpu_on_def mem_inv_def)

lemma count_list_pos: "i \<in> set xs \<Longrightarrow> 0 < count_list xs i"
  by (induction xs) auto

lemma held_valid:
  assumes "cpu_ok cb held" and "i \<in> set held"
  shows "i < length (t_objs (cb_mem cb))" and "0 < mo_ref_count (hot_obj cb i)" and "mo_valid (hot_obj cb i)"
proof -
  show i: "i < length (t_objs (cb_mem cb))" by (rule cpu_okD(5)[OF assms])
  show r: "0 < mo_ref_count (hot_obj cb i)" using cpu_okD(6)[OF assms(1) i] count_list_pos[OF assms(2)] by simp
  then show "mo_valid (hot_obj cb i)" using mem_inv_obj(1)[OF cpu_okD(3)[OF assms(1)] i] by (simp add: counts_ok_def hot_obj_def)
qed

lemma cached_valid:
  assumes "cpu_ok cb held" and "map_of (cb_hot cb) k = Some i"
  shows "i < length (t_objs (cb_mem cb))" and "mo_valid (hot_obj cb i)"
  using cpu_inv_cached(1,3)[OF cpu_okD(1)[OF assms(1)] assms(2)] by blast+

text \<open>The tensors of different valid objects are disjoint.\<close>

lemma tensors_disjoint:
  assumes "cpu_ok cb held" and "i < length (t_objs (cb_mem cb))" "j < length (t_objs (cb_mem cb))" "i \<noteq> j"
    and "mo_valid (hot_obj cb i)" "mo_valid (hot_obj cb j)"
    and x: "fst (mo_raw (hot_obj cb i)) \<le> x" "x < fst (mo_raw (hot_obj cb i)) + snd (mo_raw (hot_obj cb i))"
    and y: "fst (mo_raw (hot_obj cb j)) \<le> x" "x < fst (mo_raw (hot_obj cb j)) + snd (mo_raw (hot_obj cb j))"
  shows False
proof -
  have live: "live_ok (free_addrs (t_am (cb_mem cb))) (am_size (t_am (cb_mem cb))) (valid_ids (cb_mem cb)) (obj_region (cb_mem cb))"
    using cpu_okD(4)[OF assms(1)] by (simp add: talloc_inv_def)
  have "i \<in> valid_ids (cb_mem cb)" "j \<in> valid_ids (cb_mem cb)" using assms(2-6) by (simp_all add: valid_ids_def hot_obj_def)
  then have "span (obj_region (cb_mem cb) i) \<inter> span (obj_region (cb_mem cb) j) = {}"
    using live assms(4) unfolding live_ok_def by blast
  moreover have "x \<in> span (obj_region (cb_mem cb) l)" if "l < length (t_objs (cb_mem cb))"
    "fst (mo_raw (hot_obj cb l)) \<le> x" "x < fst (mo_raw (hot_obj cb l)) + snd (mo_raw (hot_obj cb l))" for l
    using cpu_okD(2)[OF assms(1)] that by (auto simp: raws_ok_def span_def obj_region_def hot_obj_def)
  ultimately show False using assms(2,3) x y by blast
qed

section \<open>The operations of the backend\<close>

lemma cpu_ok_more [simp]:
  "cpu_ok (cb\<lparr>cb_keys_in_request := x\<rparr>) held = cpu_ok cb held" "cpu_ok (cb\<lparr>cb_msgs := y\<rparr>) held = cpu_ok cb held"
  by (simp_all add: cpu_ok_def raws_ok_def hot_obj_def)

lemma drops_only_more [simp]:
  "drops_only cb (cb'\<lparr>cb_keys_in_request := x\<rparr>) = drops_only cb cb'" "drops_only cb (cb'\<lparr>cb_msgs := y\<rparr>) = drops_only cb cb'"
  "drops_only cb (cb'\<lparr>cb_policy := z\<rparr>) = drops_only cb cb'"
  by (simp_all add: drops_only_def same_layout_def hot_obj_def)

text \<open>An update of the counters of one object.\<close>

lemma counters_layout:
  assumes "length (t_objs m) = length (t_objs (cb_mem cb))"
    and "\<And>j. j \<noteq> i \<Longrightarrow> t_objs m ! j = t_objs (cb_mem cb) ! j"
    and "mo_raw (t_objs m ! i) = mo_raw (hot_obj cb i)" "mo_address (t_objs m ! i) = mo_address (hot_obj cb i)"
      "mo_phy_size (t_objs m ! i) = mo_phy_size (hot_obj cb i)" "mo_shapes (t_objs m ! i) = mo_shapes (hot_obj cb i)"
  shows "drops_only cb (cb\<lparr>cb_mem := m\<rparr>)" and "raws_ok cb \<Longrightarrow> raws_ok (cb\<lparr>cb_mem := m\<rparr>)"
proof -
  have all: "mo_raw (t_objs m ! j) = mo_raw (hot_obj cb j) \<and> mo_address (t_objs m ! j) = mo_address (hot_obj cb j) \<and>
      mo_phy_size (t_objs m ! j) = mo_phy_size (hot_obj cb j) \<and> mo_shapes (t_objs m ! j) = mo_shapes (hot_obj cb j)" for j
    using assms by (cases "j = i") (simp_all add: hot_obj_def)
  show "drops_only cb (cb\<lparr>cb_mem := m\<rparr>)" using all assms(1) by (simp add: drops_only_def same_layout_def hot_obj_def)
  show "raws_ok cb \<Longrightarrow> raws_ok (cb\<lparr>cb_mem := m\<rparr>)" using all assms(1) by (simp add: raws_ok_def hot_obj_def)
qed

lemma ref_down_layout:
  assumes "i < length (t_objs m)"
  shows "mo_raw (t_objs (ref_count_down env m i) ! i) = mo_raw (t_objs m ! i)"
    and "mo_address (t_objs (ref_count_down env m i) ! i) = mo_address (t_objs m ! i)"
    and "mo_phy_size (t_objs (ref_count_down env m i) ! i) = mo_phy_size (t_objs m ! i)"
    and "mo_shapes (t_objs (ref_count_down env m i) ! i) = mo_shapes (t_objs m ! i)"
  using assms by (auto simp: ref_count_down_form Let_def t_free_def obj_invalidate_def)

lemma pin_cached_ok:
  assumes ok: "cpu_ok cb held" and k: "map_of (cb_hot cb) k = Some i"
  shows "cpu_ok (cb\<lparr>cb_mem := mem_pin now (cb_mem cb) i\<rparr>) held" and "drops_only cb (cb\<lparr>cb_mem := mem_pin now (cb_mem cb) i\<rparr>)"
proof -
  have i: "i < length (t_objs (cb_mem cb))" by (rule cached_valid(1)[OF ok k])
  let ?m = "mem_pin now (cb_mem cb) i"
  have o: "t_objs ?m = (t_objs (cb_mem cb))[i := mo_pin_count_update (\<lambda>p. p + 1) (t_objs (cb_mem cb) ! i)]" by (rule mem_pin_objs)
  have L: "drops_only cb (cb\<lparr>cb_mem := ?m\<rparr>)" "raws_ok cb \<Longrightarrow> raws_ok (cb\<lparr>cb_mem := ?m\<rparr>)"
    using i by (rule_tac counters_layout[where i = i]; simp add: o hot_obj_def)+
  have "mo_ref_count (t_objs ?m ! j) = mo_ref_count (hot_obj cb j)" for j
    using i by (cases "j = i") (simp_all add: o hot_obj_def)
  then show "cpu_ok (cb\<lparr>cb_mem := ?m\<rparr>) held"
    using ok L(2) cpu_pin_inv[OF cpu_okD(1)[OF ok] k, of now] by (simp add: cpu_ok_def hot_obj_def o)
  show "drops_only cb (cb\<lparr>cb_mem := ?m\<rparr>)" by (rule L(1))
qed

lemma get_cached_ok:
  assumes ok: "cpu_ok cb held" and k: "map_of (cb_hot cb) k = Some i"
  shows "cpu_ok (cb\<lparr>cb_mem := ref_count_up (cb_mem cb) i\<rparr>) (held @ [i])" and "drops_only cb (cb\<lparr>cb_mem := ref_count_up (cb_mem cb) i\<rparr>)"
proof -
  have i: "i < length (t_objs (cb_mem cb))" by (rule cached_valid(1)[OF ok k])
  let ?m = "ref_count_up (cb_mem cb) i"
  have L: "drops_only cb (cb\<lparr>cb_mem := ?m\<rparr>)" "raws_ok cb \<Longrightarrow> raws_ok (cb\<lparr>cb_mem := ?m\<rparr>)"
    using i by (rule_tac counters_layout[where i = i]; simp add: ref_count_up_def hot_obj_def)+
  have "mo_ref_count (t_objs ?m ! j) = mo_ref_count (hot_obj cb j) + (if j = i then 1 else 0)" for j
    using i by (cases "j = i") (simp_all add: ref_count_up_def hot_obj_def)
  then show "cpu_ok (cb\<lparr>cb_mem := ?m\<rparr>) (held @ [i])"
    using ok L(2) cpu_ref_up_inv[OF cpu_okD(1)[OF ok] k] i by (auto simp: cpu_ok_def hot_obj_def ref_count_up_def)
  show "drops_only cb (cb\<lparr>cb_mem := ?m\<rparr>)" by (rule L(1))
qed

context cpu_backend_env
begin

lemma unpin_cached_ok:
  assumes ok: "cpu_ok cb held" and k: "map_of (cb_hot cb) k = Some i"
  shows "cpu_ok (cb\<lparr>cb_mem := mem_unpin (mem_env_of env) (cb_mem cb) i\<rparr>) held"
    and "drops_only cb (cb\<lparr>cb_mem := mem_unpin (mem_env_of env) (cb_mem cb) i\<rparr>)"
proof -
  have i: "i < length (t_objs (cb_mem cb))" by (rule cached_valid(1)[OF ok k])
  let ?m = "mem_unpin (mem_env_of env) (cb_mem cb) i"
  note U = tensor_env.mem_unpin_facts[OF tensor cpu_okD(3)[OF ok] i]
  have lay: "mo_raw (t_objs ?m ! i) = mo_raw (hot_obj cb i)" "mo_address (t_objs ?m ! i) = mo_address (hot_obj cb i)"
      "mo_phy_size (t_objs ?m ! i) = mo_phy_size (hot_obj cb i)" "mo_shapes (t_objs ?m ! i) = mo_shapes (hot_obj cb i)"
    using i by (auto simp: mem_unpin_def Let_def t_free_def obj_invalidate_def on_unpin_def upd_obj_def hot_obj_def)
  have L: "drops_only cb (cb\<lparr>cb_mem := ?m\<rparr>)" "raws_ok cb \<Longrightarrow> raws_ok (cb\<lparr>cb_mem := ?m\<rparr>)"
    by (rule counters_layout[OF U(2) U(5) lay]; assumption)+
  have r: "mo_ref_count (t_objs ?m ! j) = mo_ref_count (hot_obj cb j)" for j
    using U(4,5) by (cases "j = i") (simp_all add: hot_obj_def)
  have "cpu_inv (cb\<lparr>cb_mem := ?m\<rparr>)"
    by (rule cpu_inv_mem[OF cpu_okD(1)[OF ok] U(1)]) (simp_all add: U(2) r)
  then show "cpu_ok (cb\<lparr>cb_mem := ?m\<rparr>) held" using ok L(2) r U(2) by (simp add: cpu_ok_def hot_obj_def)
  show "drops_only cb (cb\<lparr>cb_mem := ?m\<rparr>)" by (rule L(1))
qed

lemma ref_down_layouts:
  assumes ok: "cpu_ok cb held" and i: "i < length (t_objs (cb_mem cb))"
  shows "drops_only cb (cb\<lparr>cb_mem := ref_count_down (mem_env_of env) (cb_mem cb) i\<rparr>)"
    and "raws_ok (cb\<lparr>cb_mem := ref_count_down (mem_env_of env) (cb_mem cb) i\<rparr>)"
  using counters_layout[OF ref_down_facts(2,4)[OF cpu_okD(3)[OF ok] i] ref_down_layout[OF i, unfolded hot_obj_def[symmetric]]]
    cpu_okD(2)[OF ok] by blast+

lemma release_held_ok:
  assumes ok: "cpu_ok cb held" and i: "i \<in> set held"
  shows "cpu_ok (cb\<lparr>cb_mem := ref_count_down (mem_env_of env) (cb_mem cb) i\<rparr>) (remove1 i held)"
proof -
  let ?m = "ref_count_down (mem_env_of env) (cb_mem cb) i"
  have len: "i < length (t_objs (cb_mem cb))" by (rule cpu_okD(5)[OF ok i])
  note R = ref_down_facts[OF cpu_okD(3)[OF ok] len]
  have cnt: "count_list (remove1 i held) j = count_list held j - (if j = i then 1 else 0)" for j
    by (induction held) auto
  have b: "int (card (holders (cb_hot cb) j) + count_list (remove1 i held) j) = mo_ref_count (t_objs ?m ! j)"
    if "j < length (t_objs (cb_mem cb))" for j
    using cpu_okD(6)[OF ok that] R(3,4) cnt[of j] count_list_pos[OF i] by (cases "j = i") (auto simp: hot_obj_def)
  then have "int (card (holders (cb_hot cb) j)) \<le> mo_ref_count (t_objs ?m ! j)" if "j < length (t_objs (cb_mem cb))" for j
    using that by fastforce
  then have "cpu_inv (cb\<lparr>cb_mem := ?m\<rparr>)" using cpu_okD(1)[OF ok] R(1,2) by (simp add: cpu_on_def hot_obj_def)
  then show ?thesis
    using ref_down_layouts(2)[OF ok len] b R(2) cpu_okD(5)[OF ok] set_remove1_subset[of i held]
    by (auto simp: cpu_ok_def hot_obj_def)
qed

lemma drop_cached_ok:
  assumes ok: "cpu_ok cb held" and k: "map_of (cb_hot cb) k = Some i" and p: "pol_inv p (set (od_keys (cb_hot cb)) - {k})"
  shows "cpu_ok (cb\<lparr>cb_hot := AList.delete k (cb_hot cb), cb_mem := ref_count_down (mem_env_of env) (cb_mem cb) i, cb_policy := p\<rparr>) held"
    and "drops_only cb (cb\<lparr>cb_hot := AList.delete k (cb_hot cb), cb_mem := ref_count_down (mem_env_of env) (cb_mem cb) i, cb_policy := p\<rparr>)"
proof -
  let ?m = "ref_count_down (mem_env_of env) (cb_mem cb) i"
  let ?cb = "cb\<lparr>cb_hot := AList.delete k (cb_hot cb), cb_mem := ?m, cb_policy := p\<rparr>"
  have len: "i < length (t_objs (cb_mem cb))" by (rule cached_valid(1)[OF ok k])
  note R = ref_down_facts[OF cpu_okD(3)[OF ok] len]
  have ki: "k \<in> holders (cb_hot cb) i" using k by (simp add: holders_def)
  then have c: "Suc (card (holders (cb_hot cb) i - {k})) = card (holders (cb_hot cb) i)" by (intro card_Suc_Diff1) auto
  have b: "int (card (holders (AList.delete k (cb_hot cb)) j) + count_list held j) = mo_ref_count (t_objs ?m ! j)"
    if "j < length (t_objs (cb_mem cb))" for j
  proof (cases "j = i")
    case True
    have "int (card (holders (cb_hot cb) i) + count_list held i) = mo_ref_count (hot_obj cb i)" by (rule cpu_okD(6)[OF ok len])
    then show ?thesis using c R(3) True by (simp add: holders_delete hot_obj_def)
  next
    case False
    then have "k \<notin> holders (cb_hot cb) j" using k by (simp add: holders_def)
    then show ?thesis using cpu_okD(6)[OF ok that] R(4)[OF False] by (simp add: holders_delete hot_obj_def)
  qed
  have "raws_ok ?cb" using ref_down_layouts(2)[OF ok len] by (simp add: raws_ok_def hot_obj_def)
  then show "cpu_ok ?cb held"
    using drop_cached_inv[OF cpu_okD(1)[OF ok] k p] b R(2) cpu_okD(5)[OF ok] by (simp add: cpu_ok_def hot_obj_def)
  show "drops_only cb ?cb" using ref_down_layouts(1)[OF ok len] by (auto simp: drops_only_def same_layout_def hot_obj_def split: if_splits)
qed

lemma put_ok:
  assumes ok: "cpu_ok cb held" and i: "i \<in> set held"
  shows "cpu_ok (submit_put_task env now cb k i) held" and "same_layout cb (submit_put_task env now cb k i)"
    and "map_of (cb_hot (submit_put_task env now cb k i)) =
      (map_of (cb_hot cb))(k := (case map_of (cb_hot cb) k of None \<Rightarrow> Some i | Some j \<Rightarrow> Some j))"
proof -
  note V = held_valid[OF ok i]
  have inv: "cpu_inv (submit_put_task env now cb k i)" by (rule submit_put_inv[OF cpu_okD(1)[OF ok] V(1,3) policy])
  let ?m = "ref_count_up (cb_mem cb) i" and ?d = "AList.update k i (cb_hot cb)"
  have L: "drops_only cb (cb\<lparr>cb_mem := ?m\<rparr>)" "raws_ok (cb\<lparr>cb_mem := ?m\<rparr>)"
    using V(1) cpu_okD(2)[OF ok] by (intro counters_layout[where i = i]; simp add: ref_count_up_def hot_obj_def)+
  show "map_of (cb_hot (submit_put_task env now cb k i)) =
      (map_of (cb_hot cb))(k := (case map_of (cb_hot cb) k of None \<Rightarrow> Some i | Some j \<Rightarrow> Some j))"
    by (auto simp: submit_put_task_def fun_eq_iff split: option.splits)
  show "same_layout cb (submit_put_task env now cb k i)"
    using L(1) by (auto simp: submit_put_task_def drops_only_def same_layout_def hot_obj_def)
  show "cpu_ok (submit_put_task env now cb k i) held"
  proof (cases "map_of (cb_hot cb) k")
    case None
    have b: "int (card (holders ?d j) + count_list held j) = mo_ref_count (t_objs ?m ! j)" if "j < length (t_objs (cb_mem cb))" for j
    proof -
      have "k \<notin> holders (cb_hot cb) j" using None by (simp add: holders_def)
      then show ?thesis
        using cpu_okD(6)[OF ok that] V(1) by (cases "j = i") (simp_all add: holders_update[OF None] ref_count_up_def hot_obj_def)
    qed
    have "raws_ok (submit_put_task env now cb k i)" using L(2) None by (simp add: submit_put_task_def raws_ok_def hot_obj_def)
    then show ?thesis using inv b None cpu_okD(5)[OF ok]
      by (simp add: cpu_ok_def submit_put_task_def hot_obj_def) (simp add: ref_count_up_def)
  qed (use ok in \<open>simp add: submit_put_task_def\<close>)
qed

end

definition alloc_kept :: "('k, 'h, 's, 'd) cpu_backend \<Rightarrow> nat list \<Rightarrow> int \<Rightarrow> ('k, 'h, 's, 'd) cpu_backend \<Rightarrow> mixed_obj option result \<Rightarrow> bool" where
  "alloc_kept cb held raw cb' r \<longleftrightarrow> drops_only cb cb' \<and> cb_use_hot cb' = cb_use_hot cb \<and>
     (r = Inr None \<and> cpu_ok cb' held \<and> (cb_use_hot cb \<longrightarrow> (\<forall>k. \<not> evictable cb' k)) \<or>
      (\<exists>j. r = Inr (Some (PinObj j)) \<and> cpu_ok cb' (held @ [j]) \<and> snd (mo_raw (hot_obj cb' j)) = raw \<and>
         length (t_objs (cb_mem cb)) \<le> j \<and> mo_pin_count (hot_obj cb' j) = 0))"

context cpu_backend_env
begin

lemma evict_once_mem:
  assumes e: "evict_once env cb = (cb', Inr 1)" and k: "map_of (cb_hot cb) k = Some i" and h: "cb_hot cb' = AList.delete k (cb_hot cb)"
  shows "cb_mem cb' = ref_count_down (mem_env_of env) (cb_mem cb) i"
proof -
  obtain p k' where c: "pol_candidates (ce_items env) (\<lambda>i. can_evict (hot_obj cb i)) 1 (cb_hot cb) (cb_policy cb) = (p, Inr [k'])"
    and r: "batched_remove env (cb\<lparr>cb_policy := p\<rparr>) [k'] False 0 = (cb', Inr 0) \<or> batched_remove env (cb\<lparr>cb_policy := p\<rparr>) [k'] False 0 = (cb', Inr 1)"
    using e by (auto simp: evict_once_def length_Suc_conv split: if_splits prod.splits sum.splits)
  have "k' = k"
  proof (rule ccontr)
    assume n: "k' \<noteq> k"
    have "cb_hot cb' = AList.delete k' (cb_hot cb)"
      using r by (auto simp: cpu_remove_unfold send_evict_def Let_def delete_id map_of_None_keys split: option.splits)
    then have "map_of (AList.delete k (cb_hot cb)) k = map_of (AList.delete k' (cb_hot cb)) k" using h by simp
    then show False using n k by simp
  qed
  with r k show ?thesis by (auto simp: cpu_remove_unfold send_evict_def Let_def)
qed

lemma evict_once_keeps:
  assumes ok: "cpu_ok cb held"
  shows "(\<exists>cb'. evict_once env cb = (cb', Inr 0) \<and> cpu_ok cb' held \<and> drops_only cb cb' \<and> cb_use_hot cb' = cb_use_hot cb \<and>
            (cb_use_hot cb \<longrightarrow> (\<forall>k. \<not> evictable cb' k))) \<or>
         (\<exists>cb'. evict_once env cb = (cb', Inr 1) \<and> cpu_ok cb' held \<and> drops_only cb cb' \<and> cb_use_hot cb' = cb_use_hot cb \<and>
            length (cb_hot cb') < length (cb_hot cb))"
proof -
  consider (none) cb' where "evict_once env cb = (cb', Inr 0)" "cpu_inv cb'" "protected_kept cb cb'" "cb_mem cb' = cb_mem cb"
      "cb_hot cb' = cb_hot cb" "cb_use_hot cb \<longrightarrow> (\<forall>k. \<not> evictable cb' k)"
    | (one) cb' k where "evict_once env cb = (cb', Inr 1)" "cpu_inv cb'" "protected_kept cb cb'" "evictable cb k"
      "cb_hot cb' = AList.delete k (cb_hot cb)"
    using evict_once_ok[OF cpu_okD(1)[OF ok]] by blast
  then show ?thesis
  proof cases
    case none
    then have "cpu_ok cb' held" "drops_only cb cb'"
      using ok by (simp_all add: cpu_ok_def raws_ok_def hot_obj_def drops_only_def same_layout_def)
    with none protected_keptD(3)[OF none(3)] show ?thesis by blast
  next
    case one
    obtain i where i: "map_of (cb_hot cb) k = Some i" using one(4) by (auto simp: evictable_def)
    have m: "cb_mem cb' = ref_count_down (mem_env_of env) (cb_mem cb) i" by (rule evict_once_mem[OF one(1) i one(5)])
    have len: "i < length (t_objs (cb_mem cb))" by (rule cached_valid(1)[OF ok i])
    have p: "pol_inv (cb_policy cb') (set (od_keys (cb_hot cb)) - {k})"
      using one(2,5) by (simp add: cpu_on_def set_keys_delete del: set_map)
    note D = drop_cached_ok[OF ok i p]
    have "cpu_ok cb' held" using D(1) one(2) by (simp add: cpu_ok_def raws_ok_def hot_obj_def m one(5))
    moreover have "drops_only cb cb'" using D(2) by (simp add: drops_only_def same_layout_def hot_obj_def m one(5))
    ultimately show ?thesis using one evict_shrinks[OF i] protected_keptD(3)[OF one(3)] by auto
  qed
qed

end

context cpu_backend_env
begin

lemma allocator_keeps:
  assumes ok: "cpu_ok cb held" and ad: "adapt_shapes_and_dtypes shapes dtypes = Inr (ss, ds)" "ss \<noteq> []"
    and raw: "get_size_bytes (mem_env_of env) ss ds = Inr raw" "0 < raw" and fmt: "fmt \<in> set kv_formats"
  shows "allocator_allocate env cb shapes dtypes fmt = (cb, Inr None) \<or>
    (\<exists>cb' j. allocator_allocate env cb shapes dtypes fmt = (cb', Inr (Some (PinObj j))) \<and>
       alloc_kept cb held raw cb' (Inr (Some (PinObj j))))"
proof -
  have fmt': "fmt \<noteq> BINARY_BUFFER" using fmt by (auto simp: kv_formats_def)
  consider "allocator_allocate env cb shapes dtypes fmt = (cb, Inr None)"
    | cb' j where "allocator_allocate env cb shapes dtypes fmt = (cb', Inr (Some (PinObj j)))" "cpu_inv cb'" "protected_kept cb cb'"
        "cb_hot cb' = cb_hot cb" "j = length (t_objs (cb_mem cb))"
    using allocator_allocate_ok[OF cpu_okD(1)[OF ok] ad raw fmt] by blast
  then show ?thesis
  proof cases
    case (2 cb' j)
    have al: "t_allocate (mem_env_of env) (cb_mem cb) shapes dtypes fmt = (cb_mem cb', Inr (Some j))" and use: "cb_use_hot cb' = cb_use_hot cb"
      using 2(1) fmt fmt' by (auto simp: allocator_allocate_def Let_def res_bind_def split: prod.splits sum.splits)
    note F = tensor_env.t_allocate_facts[OF tensor cpu_okD(4)[OF ok] raw al ad(1)]
    have len: "length (t_objs (cb_mem cb')) = Suc j" by (rule F(6))
    have old: "hot_obj cb' i = hot_obj cb i" if "i < j" for i using F(4)[OF that] by (simp add: hot_obj_def)
    have new: "hot_obj cb' j = mk_obj ss ds (mo_address (hot_obj cb' j)) (compute_aligned_size (t_am (cb_mem cb)) raw) fmt
        (mo_address (hot_obj cb' j), raw)"
      using F(5) by (simp add: hot_obj_def)
    have am: "am_inv (t_am (cb_mem cb))" using cpu_okD(4)[OF ok] by (simp add: talloc_inv_def)
    have nr: "mo_raw (hot_obj cb' j) = (mo_address (hot_obj cb' j), raw)" "mo_phy_size (hot_obj cb' j) = compute_aligned_size (t_am (cb_mem cb)) raw"
      "mo_ref_count (hot_obj cb' j) = 1" "mo_pin_count (hot_obj cb' j) = 0"
      by (subst new, simp add: mk_obj_def)+
    have cal: "raw \<le> compute_aligned_size (t_am (cb_mem cb)) raw" by (rule compute_aligned_size_bounds(1)[OF am])
    have raws: "raws_ok cb'" unfolding raws_ok_def
    proof (intro allI impI)
      fix i assume "i < length (t_objs (cb_mem cb'))"
      then consider "i < j" | "i = j" using len by fastforce
      then show "fst (mo_raw (hot_obj cb' i)) = mo_address (hot_obj cb' i) \<and> 0 \<le> snd (mo_raw (hot_obj cb' i)) \<and>
          snd (mo_raw (hot_obj cb' i)) \<le> mo_phy_size (hot_obj cb' i)"
        using cpu_okD(2)[OF ok] old nr cal raw(2) 2(5) by cases (auto simp: raws_ok_def)
    qed
    have nh: "holders (cb_hot cb) j = {}" "j \<notin> set held"
      using cached_valid(1)[OF ok] cpu_okD(5)[OF ok] 2(5) by (auto simp: holders_def)
    have "cpu_ok cb' (held @ [j])" unfolding cpu_ok_def
    proof (intro conjI ballI allI impI)
      fix i assume "i < length (t_objs (cb_mem cb'))"
      then consider "i < j" | "i = j" using len by fastforce
      then show "int (card (holders (cb_hot cb') i) + count_list (held @ [j]) i) = mo_ref_count (hot_obj cb' i)"
        using cpu_okD(6)[OF ok, of i] old nr nh 2(4,5) by cases (auto simp: count_notin)
    qed (use 2(2,5) raws cpu_okD(5)[OF ok] len in \<open>auto intro: less_SucI\<close>)
    moreover have "drops_only cb cb'" using old len 2(4,5) by (auto simp: drops_only_def same_layout_def)
    ultimately show ?thesis using 2(1,5) nr use by (auto simp: alloc_kept_def)
  qed simp
qed

lemma alloc_kept_after:
  assumes "drops_only cb cb'" and "cb_use_hot cb' = cb_use_hot cb" and "alloc_kept cb' held raw cb'' r"
  shows "alloc_kept cb held raw cb'' r"
proof -
  have "length (t_objs (cb_mem cb)) \<le> length (t_objs (cb_mem cb'))" using assms(1) by (simp add: drops_only_def same_layout_def)
  then show ?thesis using assms drops_only_trans[OF assms(1)] unfolding alloc_kept_def by auto
qed

lemma evict_loop_keeps:
  assumes "cpu_ok cb held" and ad: "adapt_shapes_and_dtypes shapes dtypes = Inr (ss, ds)" "ss \<noteq> []"
    and raw: "get_size_bytes (mem_env_of env) ss ds = Inr raw" "0 < raw" and fmt: "fmt \<in> set kv_formats"
  shows "\<exists>cb' r. evict_loop env others False shapes dtypes fmt n cb = Some (cb', r) \<and> alloc_kept cb held raw cb' r"
  using assms(1)
proof (induction "length (cb_hot cb)" arbitrary: cb n rule: less_induct)
  case less
  note L = evict_loop.simps[of env others False shapes dtypes fmt n cb]
  consider (none) cb' where "evict_once env cb = (cb', Inr 0)" "cpu_ok cb' held" "drops_only cb cb'" "cb_use_hot cb' = cb_use_hot cb"
      "cb_use_hot cb \<longrightarrow> (\<forall>k. \<not> evictable cb' k)"
    | (one) cb' where "evict_once env cb = (cb', Inr 1)" "cpu_ok cb' held" "drops_only cb cb'" "cb_use_hot cb' = cb_use_hot cb"
      "length (cb_hot cb') < length (cb_hot cb)"
    using evict_once_keeps[OF less.prems] by (elim disjE exE conjE) blast+
  then show ?case
  proof cases
    case none
    have "evict_loop env others False shapes dtypes fmt n cb = Some (cb', Inr None)" using none(1) by (simp add: evict_loop.simps)
    with none show ?thesis by (simp add: alloc_kept_def)
  next
    case one
    consider "allocator_allocate env cb' shapes dtypes fmt = (cb', Inr None)"
      | cb3 j where "allocator_allocate env cb' shapes dtypes fmt = (cb3, Inr (Some (PinObj j)))"
          "alloc_kept cb' held raw cb3 (Inr (Some (PinObj j)))"
      using allocator_keeps[OF one(2) ad raw fmt] by blast
    then show ?thesis
    proof cases
      case 1
      from less.hyps[OF one(5,2), of "n + 1"] obtain cb'' r where
        "evict_loop env others False shapes dtypes fmt (n + 1) cb' = Some (cb'', r)" "alloc_kept cb' held raw cb'' r" by blast
      with L one(1) 1 alloc_kept_after[OF one(3,4)] show ?thesis by simp
    next
      case 2
      then show ?thesis using L one(1) alloc_kept_after[OF one(3,4) 2(2)] by simp
    qed
  qed
qed

lemma cpu_allocate_keeps:
  assumes ok: "cpu_ok cb held" and ad: "adapt_shapes_and_dtypes shapes dtypes = Inr (ss, ds)" "ss \<noteq> []"
    and raw: "get_size_bytes (mem_env_of env) ss ds = Inr raw" "0 < raw" and fmt: "default_fmt cb fmt \<in> set kv_formats"
  shows "\<exists>cb' r. cpu_allocate env others cb shapes dtypes fmt True False = Some (cb', r) \<and> alloc_kept cb held raw cb' r"
proof -
  consider "allocator_allocate env cb shapes dtypes (default_fmt cb fmt) = (cb, Inr None)"
    | cb3 j where "allocator_allocate env cb shapes dtypes (default_fmt cb fmt) = (cb3, Inr (Some (PinObj j)))"
        "alloc_kept cb held raw cb3 (Inr (Some (PinObj j)))"
    using allocator_keeps[OF ok ad raw fmt] by blast
  then show ?thesis
  proof cases
    case 1
    with evict_loop_keeps[OF ok ad raw fmt, of others 0] show ?thesis by (simp add: cpu_allocate_def Let_def)
  next
    case 2
    then show ?thesis by (auto simp: cpu_allocate_def Let_def)
  qed
qed

end

section \<open>The laws of the storage hold\<close>

definition node_inv ::
  "('k \<Rightarrow> 'b list) \<Rightarrow> (int \<times> int \<times> 'b list) list \<Rightarrow> nat list \<Rightarrow> ('k, 'h, 's, 'd, 'b) node \<Rightarrow> bool" where
  "node_inv truth log held nd \<longleftrightarrow> node_ok truth held nd \<and> nd_received nd = log \<and> cb_use_hot (nd_cpu nd)"

definition node_stored :: "('k, 'h, 's, 'd, 'b) node \<Rightarrow> string \<Rightarrow> 'k \<Rightarrow> bool" where
  "node_stored nd name k \<longleftrightarrow> name = local_cpu \<and> map_of (cb_hot (nd_cpu nd)) k \<noteq> None"

definition node_room :: "('k, 'h, 's, 'd, 'b) node \<Rightarrow> nat \<Rightarrow> nat" where
  "node_room nd i = nat (snd (mo_raw (hot_obj (nd_cpu nd) i)))"

definition node_fresh :: "('k, 'h, 's, 'd, 'b) node \<Rightarrow> nat \<Rightarrow> bool" where
  "node_fresh nd i \<longleftrightarrow> holders (cb_hot (nd_cpu nd)) i = {}"

definition node_fits :: "('k, 'h, 's, 'd) cpu_env \<Rightarrow> ('s, 'd) alloc_request \<Rightarrow> nat \<Rightarrow> bool" where
  "node_fits env q n \<longleftrightarrow> (case q of (shapes, dtypes, fmt) \<Rightarrow> 0 < n \<and> (fmt = None \<or> the fmt \<in> set kv_formats) \<and>
     (\<exists>ss ds. adapt_shapes_and_dtypes shapes dtypes = Inr (ss, ds) \<and> ss \<noteq> [] \<and> get_size_bytes (mem_env_of env) ss ds = Inr (int n)))"

lemma obj_data_same:
  assumes "same_layout (nd_cpu nd) cb'" and "i < length (t_objs (cb_mem (nd_cpu nd)))"
  shows "obj_data (nd\<lparr>nd_cpu := cb'\<rparr>) i = obj_data nd i"
  using assms by (simp add: obj_data_def same_layout_def)

lemma node_step:
  assumes ok: "node_ok truth held nd" and cb: "cpu_ok cb' held'" and d: "drops_only (nd_cpu nd) cb'"
  shows "node_ok truth held' (nd\<lparr>nd_cpu := cb'\<rparr>)" and "i \<in> set held \<Longrightarrow> obj_data (nd\<lparr>nd_cpu := cb'\<rparr>) i = obj_data nd i"
proof -
  have c: "cpu_ok (nd_cpu nd) held" using ok by (simp add: node_ok_def)
  have lay: "same_layout (nd_cpu nd) cb'" using d by (simp add: drops_only_def)
  have "obj_data (nd\<lparr>nd_cpu := cb'\<rparr>) i = truth k" if "map_of (cb_hot cb') k = Some i" for k i
  proof -
    have k: "map_of (cb_hot (nd_cpu nd)) k = Some i" using d that by (simp add: drops_only_def)
    show ?thesis using obj_data_same[OF lay cached_valid(1)[OF c k]] ok k by (simp add: node_ok_def)
  qed
  with cb show "node_ok truth held' (nd\<lparr>nd_cpu := cb'\<rparr>)" by (simp add: node_ok_def)
  show "obj_data (nd\<lparr>nd_cpu := cb'\<rparr>) i = obj_data nd i" if "i \<in> set held"
    using obj_data_same[OF lay cpu_okD(5)[OF c that]] .
qed

lemma node_inv_step:
  assumes "node_inv truth log held nd" and "cpu_ok cb' held'" and "drops_only (nd_cpu nd) cb'" and "cb_use_hot cb' = cb_use_hot (nd_cpu nd)"
  shows "node_inv truth log held' (nd\<lparr>nd_cpu := cb'\<rparr>)"
proof -
  have "node_ok truth held nd" using assms(1) by (simp add: node_inv_def)
  from node_step(1)[OF this assms(2,3)] show ?thesis using assms(1,4) by (simp add: node_inv_def)
qed

lemma node_contains_ok:
  assumes i: "node_inv truth log held nd"
  shows "\<exists>nd'. node_contains k pin nd = (nd', Inr (node_stored nd local_cpu k)) \<and> node_inv truth log held nd' \<and> node_stored nd' = node_stored nd"
proof -
  have c: "cpu_ok (nd_cpu nd) held" using i by (simp add: node_inv_def node_ok_def)
  show ?thesis
  proof (cases "map_of (cb_hot (nd_cpu nd)) k")
    case None
    then show ?thesis using i by (intro exI[of _ nd]) (simp add: node_contains_def on_cpu_def cpu_contains_def node_stored_def)
  next
    case (Some j)
    note P = pin_cached_ok[OF c Some, of "nd_now nd"]
    let ?cb = "(nd_cpu nd)\<lparr>cb_mem := mem_pin (nd_now nd) (cb_mem (nd_cpu nd)) j, cb_keys_in_request := cb_keys_in_request (nd_cpu nd) @ [k]\<rparr>"
    have "node_inv truth log held (nd\<lparr>nd_cpu := ?cb\<rparr>)"
      by (rule node_inv_step[OF i]) (use P in \<open>simp_all add: drops_only_def same_layout_def hot_obj_def cpu_ok_def raws_ok_def cpu_on_def\<close>)
    moreover have "node_stored (nd\<lparr>nd_cpu := ?cb\<rparr>) = node_stored nd" by (simp add: node_stored_def fun_eq_iff)
    ultimately show ?thesis
      using Some i by (cases pin) (auto simp: node_contains_def on_cpu_def cpu_contains_def node_stored_def)
  qed
qed

lemma batched_contains_ok:
  assumes "node_inv truth log held nd"
  shows "\<exists>nd'. default_batched_contains node_contains keys pin n nd =
      (nd', Inr (n + length (takeWhile (node_stored nd local_cpu) keys))) \<and> node_inv truth log held nd' \<and> node_stored nd' = node_stored nd"
  using assms
proof (induction keys arbitrary: nd n)
  case (Cons k keys)
  obtain nd1 where 1: "node_contains k pin nd = (nd1, Inr (node_stored nd local_cpu k))" "node_inv truth log held nd1" "node_stored nd1 = node_stored nd"
    using node_contains_ok[OF Cons.prems] by blast
  show ?case
  proof (cases "node_stored nd local_cpu k")
    case True
    from Cons.IH[OF 1(2), of "n + 1"] True 1 show ?thesis by auto
  qed (use 1 in simp)
qed simp

interpretation cpu_tier: storage_tiers "[(local_cpu, cpu_be env others)]" "node_inv truth log held" node_stored
  for env :: "('k, 'h, 's, 'd) cpu_env" and others and truth :: "'k \<Rightarrow> 'b list" and log held
  using batched_contains_ok[of truth log held _ _ _ 0] by unfold_locales (simp_all add: cpu_be_def)

lemma default_fmt_kv: "fmt = None \<or> the fmt \<in> set kv_formats \<Longrightarrow> default_fmt cb fmt \<in> set kv_formats"
  by (auto simp: default_fmt_def kv_formats_def split: option.splits)

lemma node_get_ok:
  assumes i: "node_inv truth log held nd"
  shows "\<exists>nd' r. node_get k nd = (nd', Inr r) \<and> node_inv truth log (held @ somes [r]) nd' \<and> node_stored nd' = node_stored nd \<and>
    (\<forall>j \<in> set held. obj_data nd' j = obj_data nd j) \<and>
    (case r of None \<Rightarrow> \<not> node_stored nd local_cpu k | Some j \<Rightarrow> node_stored nd local_cpu k \<and> obj_data nd' j = truth k)"
proof -
  have c: "cpu_ok (nd_cpu nd) held" and ok: "node_ok truth held nd" using i by (simp_all add: node_inv_def node_ok_def)
  show ?thesis
  proof (cases "map_of (cb_hot (nd_cpu nd)) k")
    case None
    then show ?thesis using i
      by (intro exI[of _ nd] exI[of _ None]) (simp add: node_get_def on_cpu_def get_blocking_def node_stored_def)
  next
    case (Some j)
    note G = get_cached_ok[OF c Some]
    let ?cb = "(nd_cpu nd)\<lparr>cb_mem := ref_count_up (cb_mem (nd_cpu nd)) j\<rparr>"
    have "node_inv truth log (held @ [j]) (nd\<lparr>nd_cpu := ?cb\<rparr>)" by (rule node_inv_step[OF i G]) simp
    moreover have "obj_data (nd\<lparr>nd_cpu := ?cb\<rparr>) x = obj_data nd x" if "x \<in> set held" for x
      by (rule node_step(2)[OF ok G that])
    moreover have "obj_data (nd\<lparr>nd_cpu := ?cb\<rparr>) j = truth k"
    proof -
      have "same_layout (nd_cpu nd) ?cb" using G(2) by (simp add: drops_only_def)
      from obj_data_same[OF this cached_valid(1)[OF c Some]] show ?thesis using ok Some by (simp add: node_ok_def)
    qed
    moreover have "node_stored (nd\<lparr>nd_cpu := ?cb\<rparr>) = node_stored nd" by (simp add: node_stored_def fun_eq_iff)
    ultimately show ?thesis
      using Some by (intro exI[of _ "nd\<lparr>nd_cpu := ?cb\<rparr>"] exI[of _ "Some j"]) (simp add: node_get_def on_cpu_def get_blocking_def node_stored_def)
  qed
qed

lemma node_batched_get_ok:
  assumes "node_inv truth log held nd"
  shows "\<exists>nd' objs. default_batched_get node_get keys acc nd = (nd', Inr (acc @ objs)) \<and> length objs = length keys \<and>
    node_inv truth log (held @ somes objs) nd' \<and> node_stored nd' = node_stored nd \<and> (\<forall>j \<in> set held. obj_data nd' j = obj_data nd j) \<and>
    (\<forall>x < length keys. case objs ! x of None \<Rightarrow> \<not> node_stored nd local_cpu (keys ! x)
       | Some j \<Rightarrow> node_stored nd local_cpu (keys ! x) \<and> obj_data nd' j = truth (keys ! x))"
  using assms
proof (induction keys arbitrary: held nd acc)
  case Nil
  then show ?case by (intro exI[of _ nd] exI[of _ "[]"]) simp
next
  case (Cons k keys)
  obtain nd1 r where 1: "node_get k nd = (nd1, Inr r)" "node_inv truth log (held @ somes [r]) nd1" "node_stored nd1 = node_stored nd"
    "\<forall>j \<in> set held. obj_data nd1 j = obj_data nd j"
    "case r of None \<Rightarrow> \<not> node_stored nd local_cpu k | Some j \<Rightarrow> node_stored nd local_cpu k \<and> obj_data nd1 j = truth k"
    using node_get_ok[OF Cons.prems] by blast
  obtain nd2 objs where 2: "default_batched_get node_get keys (acc @ [r]) nd1 = (nd2, Inr ((acc @ [r]) @ objs))" "length objs = length keys"
    "node_inv truth log ((held @ somes [r]) @ somes objs) nd2" "node_stored nd2 = node_stored nd1"
    "\<forall>j \<in> set (held @ somes [r]). obj_data nd2 j = obj_data nd1 j"
    "\<forall>x < length keys. case objs ! x of None \<Rightarrow> \<not> node_stored nd1 local_cpu (keys ! x)
       | Some j \<Rightarrow> node_stored nd1 local_cpu (keys ! x) \<and> obj_data nd2 j = truth (keys ! x)"
    using Cons.IH[OF 1(2)] by blast
  have "case (r # objs) ! x of None \<Rightarrow> \<not> node_stored nd local_cpu ((k # keys) ! x)
       | Some j \<Rightarrow> node_stored nd local_cpu ((k # keys) ! x) \<and> obj_data nd2 j = truth ((k # keys) ! x)" if "x < length (k # keys)" for x
  proof (cases x)
    case 0
    then show ?thesis using 1(5) 2(5) by (cases r) simp_all
  next
    case (Suc y)
    show ?thesis using 2(6)[rule_format, of y] 1(3) that unfolding Suc by (simp split: option.splits)
  qed
  moreover have "held @ somes (r # objs) = (held @ somes [r]) @ somes objs" by (cases r) simp_all
  ultimately show ?case using 1 2 by (intro exI[of _ nd2] exI[of _ "r # objs"]) auto
qed

text \<open>Writing into a tensor leaves the other valid objects as they are.\<close>

lemma write_obj_other:
  assumes c: "cpu_ok (nd_cpu nd) held" and i: "i \<in> set held" and j: "j < length (t_objs (cb_mem (nd_cpu nd)))" "mo_valid (hot_obj (nd_cpu nd) j)"
    and "j \<noteq> i"
  shows "obj_data (write_obj i xs nd) j = obj_data nd j"
proof -
  obtain a n where r: "mo_raw (hot_obj (nd_cpu nd) i) = (a, n)" by fastforce
  obtain a' n' where r': "mo_raw (hot_obj (nd_cpu nd) j) = (a', n')" by fastforce
  have "write_bytes a (take (nat n) xs) (nd_bytes nd) x = nd_bytes nd x" if "a' \<le> x" "x < a' + n'" for x
  proof (rule ccontr)
    assume "write_bytes a (take (nat n) xs) (nd_bytes nd) x \<noteq> nd_bytes nd x"
    then have "a \<le> x" "x < a + int (length (take (nat n) xs))" by (auto simp: write_bytes_def split: if_splits)
    moreover have "0 \<le> n" using cpu_okD(2)[OF c] held_valid(1)[OF c i] r by (auto simp: raws_ok_def)
    ultimately have "a \<le> x" "x < a + n" by auto
    then show False using tensors_disjoint[OF c j(1) held_valid(1)[OF c i] assms(5) j(2) held_valid(3)[OF c i], of x] r r' that by simp
  qed
  then have "map (write_bytes a (take (nat n) xs) (nd_bytes nd)) [a'..a' + n' - 1] = map (nd_bytes nd) [a'..a' + n' - 1]" by auto
  then show ?thesis using r r' by (simp add: obj_data_def write_obj_def)
qed

lemma write_obj_same:
  assumes "length xs = node_room nd i" and "0 \<le> snd (mo_raw (hot_obj (nd_cpu nd) i))"
  shows "obj_data (write_obj i xs nd) i = xs"
proof -
  obtain a n where r: "mo_raw (hot_obj (nd_cpu nd) i) = (a, n)" by fastforce
  have n: "int (length xs) = n" using assms r by (simp add: node_room_def)
  have t: "take (nat n) xs = xs" and l: "length xs = nat n" using n by auto
  have "map (write_bytes a xs (nd_bytes nd)) [a..a + n - 1] = xs"
  proof (rule nth_equalityI)
    fix y assume "y < length (map (write_bytes a xs (nd_bytes nd)) [a..a + n - 1])"
    then have y: "y < nat n" by simp
    then have y': "int y < n" by linarith
    then have "[a..a + n - 1] ! y = a + int y" by (simp add: nth_upto)
    then show "map (write_bytes a xs (nd_bytes nd)) [a..a + n - 1] ! y = xs ! y" using y' l by (simp add: write_bytes_def)
  qed (simp add: l)
  then have "map (write_bytes a (take (nat n) xs) (nd_bytes nd)) [a..a + n - 1] = xs" unfolding t .
  then show ?thesis using r by (simp add: obj_data_def write_obj_def)
qed

lemma write_obj_simps [simp]:
  "nd_cpu (write_obj i xs nd) = nd_cpu nd" "nd_received (write_obj i xs nd) = nd_received nd"
  "node_stored (write_obj i xs nd) = node_stored nd" "node_room (write_obj i xs nd) = node_room nd"
  "node_fresh (write_obj i xs nd) = node_fresh nd"
  by (auto simp: write_obj_def node_stored_def node_room_def node_fresh_def fun_eq_iff split: prod.splits)

lemma write_fresh_ok:
  assumes i: "node_inv truth log held nd" and ob: "i \<in> set held" "node_fresh nd i"
  shows "node_inv truth log held (write_obj i xs nd)"
proof -
  have ok: "node_ok truth held nd" and c: "cpu_ok (nd_cpu nd) held" using i by (simp_all add: node_inv_def node_ok_def)
  have "obj_data (write_obj i xs nd) j = truth k" if k: "map_of (cb_hot (nd_cpu nd)) k = Some j" for k j
  proof -
    have "j \<noteq> i" using ob(2) k by (auto simp: node_fresh_def holders_def)
    with write_obj_other[OF c ob(1) cached_valid[OF c k]] show ?thesis using ok k by (simp add: node_ok_def)
  qed
  then show ?thesis using i by (simp add: node_inv_def node_ok_def)
qed

lemma gpu_write_ok:
  assumes "node_inv truth log held nd" and "set objs \<subseteq> set held" and "distinct objs" and "\<forall>ob \<in> set objs. node_fresh nd ob"
    and "length as = length objs" and "length bs = length objs"
    and "\<forall>j < length objs. node_room nd (objs ! j) = length (content (as ! j) (bs ! j))"
  shows "node_inv truth log held (gpu_write content objs as bs nd) \<and> node_stored (gpu_write content objs as bs nd) = node_stored nd \<and>
    (\<forall>j < length objs. obj_data (gpu_write content objs as bs nd) (objs ! j) = content (as ! j) (bs ! j)) \<and>
    (\<forall>i \<in> set held - set objs. obj_data (gpu_write content objs as bs nd) i = obj_data nd i)"
  using assms
proof (induction objs arbitrary: as bs nd)
  case (Cons ob objs)
  obtain a as' where as: "as = a # as'" using Cons.prems(5) by (cases as) auto
  obtain b bs' where bs: "bs = b # bs'" using Cons.prems(6) by (cases bs) auto
  let ?nd = "write_obj ob (content a b) nd"
  have c: "cpu_ok (nd_cpu nd) held" using Cons.prems(1) by (simp add: node_inv_def node_ok_def)
  have ob: "ob \<in> set held" "node_fresh nd ob" using Cons.prems(2,4) by auto
  have inv: "node_inv truth log held ?nd" by (rule write_fresh_ok[OF Cons.prems(1) ob])
  have "\<forall>j < length objs. node_room ?nd (objs ! j) = length (content (as' ! j) (bs' ! j))"
    using Cons.prems(7) as bs by (auto simp: less_Suc_eq_0_disj)
  then have ih: "node_inv truth log held (gpu_write content objs as' bs' ?nd)" "node_stored (gpu_write content objs as' bs' ?nd) = node_stored ?nd"
    "\<forall>j < length objs. obj_data (gpu_write content objs as' bs' ?nd) (objs ! j) = content (as' ! j) (bs' ! j)"
    "\<forall>i \<in> set held - set objs. obj_data (gpu_write content objs as' bs' ?nd) i = obj_data ?nd i"
    using Cons.IH[OF inv, of as' bs'] Cons.prems as bs by auto
  have "0 \<le> snd (mo_raw (hot_obj (nd_cpu nd) ob))" using cpu_okD(2)[OF c] held_valid(1)[OF c ob(1)] by (simp add: raws_ok_def)
  moreover have "length (content a b) = node_room nd ob" using Cons.prems(7) as bs by force
  ultimately have new: "obj_data ?nd ob = content a b" by (intro write_obj_same)
  have nin: "ob \<notin> set objs" using Cons.prems(3) by simp
  have old: "obj_data ?nd i = obj_data nd i" if "i \<in> set held" "i \<noteq> ob" for i
    by (rule write_obj_other[OF c ob(1) held_valid(1,3)[OF c that(1)] that(2)])
  show ?case
    using ih new nin ob(1) old as bs by (auto simp: less_Suc_eq_0_disj)
qed simp

lemma gpu_read_ok:
  assumes "node_inv truth log held nd"
  shows "node_inv truth (log @ map (\<lambda>(ob, a, b). (a, b, obj_data nd ob)) (zip objs (zip as bs))) held (gpu_read objs as bs nd)"
    and "node_stored (gpu_read objs as bs nd) = node_stored nd"
  using assms by (auto simp: gpu_read_def node_inv_def node_ok_def obj_data_def node_stored_def fun_eq_iff)

context cpu_backend_env
begin

lemma node_allocate_ok:
  assumes i: "node_inv truth log held nd" and fit: "node_fits env q n"
  shows "\<exists>nd' r. node_allocate env others q True False nd = (nd', Inr r) \<and>
    (case r of None \<Rightarrow> node_inv truth log held nd' \<and> (\<forall>k. \<not> evictable (nd_cpu nd') k)
     | Some ob \<Rightarrow> node_inv truth log (held @ [ob]) nd' \<and> ob \<notin> set held \<and> node_fresh nd' ob \<and> node_room nd' ob = n) \<and>
    (\<forall>ob \<in> set held. node_room nd' ob = node_room nd ob \<and> (node_fresh nd ob \<longrightarrow> node_fresh nd' ob))"
proof -
  obtain shapes dtypes fmt where q: "q = (shapes, dtypes, fmt)" by (cases q)
  obtain ss ds where F: "0 < n" "fmt = None \<or> the fmt \<in> set kv_formats" "adapt_shapes_and_dtypes shapes dtypes = Inr (ss, ds)" "ss \<noteq> []"
    "get_size_bytes (mem_env_of env) ss ds = Inr (int n)"
    using fit q by (auto simp: node_fits_def)
  have c: "cpu_ok (nd_cpu nd) held" using i by (simp add: node_inv_def node_ok_def)
  obtain cb' r where al: "cpu_allocate env others (nd_cpu nd) shapes dtypes fmt True False = Some (cb', r)" "alloc_kept (nd_cpu nd) held (int n) cb' r"
    using cpu_allocate_keeps[OF c F(3,4,5) _ default_fmt_kv[OF F(2)], of others] F(1) by auto
  have d: "drops_only (nd_cpu nd) cb'" and use: "cb_use_hot cb' = cb_use_hot (nd_cpu nd)" using al(2) by (simp_all add: alloc_kept_def)
  have keep: "\<forall>ob \<in> set held. node_room (nd\<lparr>nd_cpu := cb'\<rparr>) ob = node_room nd ob \<and> (node_fresh nd ob \<longrightarrow> node_fresh (nd\<lparr>nd_cpu := cb'\<rparr>) ob)"
  proof -
    have sub: "map_of (cb_hot (nd_cpu nd)) k = Some i" if "map_of (cb_hot cb') k = Some i" for k i
      using d that by (simp add: drops_only_def)
    have "node_fresh nd ob \<longrightarrow> node_fresh (nd\<lparr>nd_cpu := cb'\<rparr>) ob" for ob using sub by (fastforce simp: node_fresh_def holders_def)
    then show ?thesis using d cpu_okD(5)[OF c] by (simp add: node_room_def drops_only_def same_layout_def)
  qed
  from al(2) consider "r = Inr None" "cpu_ok cb' held" "cb_use_hot (nd_cpu nd) \<longrightarrow> (\<forall>k. \<not> evictable cb' k)"
    | j where "r = Inr (Some (PinObj j))" "cpu_ok cb' (held @ [j])" "snd (mo_raw (hot_obj cb' j)) = int n" "length (t_objs (cb_mem (nd_cpu nd))) \<le> j"
    unfolding alloc_kept_def by blast
  then show ?thesis
  proof cases
    case 1
    then show ?thesis using al(1) q node_inv_step[OF i 1(2) d use] keep i
      by (intro exI[of _ "nd\<lparr>nd_cpu := cb'\<rparr>"] exI[of _ None]) (simp add: node_allocate_def node_inv_def)
  next
    case (2 j)
    have "j \<notin> set held" using cpu_okD(5)[OF c, of j] 2(4) by auto
    moreover have "node_fresh (nd\<lparr>nd_cpu := cb'\<rparr>) j"
      using d cached_valid(1)[OF c] 2(4) by (fastforce simp: node_fresh_def holders_def drops_only_def)
    ultimately show ?thesis using al(1) q node_inv_step[OF i 2(2) d use] keep 2
      by (intro exI[of _ "nd\<lparr>nd_cpu := cb'\<rparr>"] exI[of _ "Some j"]) (simp add: node_allocate_def node_room_def)
  qed
qed

lemma node_put_one:
  fixes now :: int
  assumes i: "node_inv truth log held nd" and j: "j \<in> set held" and d: "obj_data nd j = truth k"
  defines "nd' \<equiv> nd\<lparr>nd_cpu := submit_put_task env now (nd_cpu nd) k j\<rparr>"
  shows "node_inv truth log held nd'" and "x \<in> set held \<Longrightarrow> obj_data nd' x = obj_data nd x" and "node_stored nd' local_cpu k"
    and "node_stored nd n k' \<Longrightarrow> node_stored nd' n k'"
proof -
  have c: "cpu_ok (nd_cpu nd) held" and ok: "node_ok truth held nd" using i by (simp_all add: node_inv_def node_ok_def)
  note P = put_ok[OF c j, of now k]
  have same: "obj_data nd' x = obj_data nd x" if "x < length (t_objs (cb_mem (nd_cpu nd)))" for x
    unfolding nd'_def by (rule obj_data_same[OF P(2) that])
  have "obj_data nd' x = truth k'" if h: "map_of (cb_hot (nd_cpu nd')) k' = Some x" for k' x
  proof (cases "map_of (cb_hot (nd_cpu nd)) k' = Some x")
    case True
    then show ?thesis using same[OF cached_valid(1)[OF c True]] ok by (simp add: node_ok_def)
  next
    case False
    then have "k' = k" "x = j" using h unfolding nd'_def by (auto simp: P(3) split: if_splits option.splits)
    then show ?thesis using same[OF cpu_okD(5)[OF c j]] d by simp
  qed
  moreover have "cb_use_hot (submit_put_task env now (nd_cpu nd) k j) = cb_use_hot (nd_cpu nd)" by (simp add: submit_put_task_def)
  ultimately show "node_inv truth log held nd'" using i P(1) by (simp add: node_inv_def node_ok_def nd'_def)
  show "x \<in> set held \<Longrightarrow> obj_data nd' x = obj_data nd x" using same cpu_okD(5)[OF c] by blast
  show "node_stored nd' local_cpu k" by (auto simp: node_stored_def nd'_def P(3) split: option.splits)
  show "node_stored nd n k' \<Longrightarrow> node_stored nd' n k'" by (auto simp: node_stored_def nd'_def P(3) split: option.splits)
qed

lemma node_put_ok:
  assumes "node_inv truth log held nd" and "set objs \<subseteq> set held" and "length keys = length objs"
    and "\<forall>(k, ob) \<in> set (zip keys objs). obj_data nd ob = truth k"
  shows "\<exists>nd'. node_put env keys objs nd = (nd', Inr ()) \<and> node_inv truth log held nd' \<and>
    (\<forall>ob \<in> set held. obj_data nd' ob = obj_data nd ob) \<and> (\<forall>k \<in> set keys. node_stored nd' local_cpu k) \<and>
    (\<forall>n k. node_stored nd n k \<longrightarrow> node_stored nd' n k)"
proof -
  have use: "cb_use_hot (nd_cpu nd)" using assms(1) by (simp add: node_inv_def)
  define now where "now = nd_now nd"
  have "\<exists>nd'. nd\<lparr>nd_cpu := fold (\<lambda>(key, i) cb. submit_put_task env now cb key i) (zip keys objs) (nd_cpu nd)\<rparr> = nd' \<and> node_inv truth log held nd' \<and>
    (\<forall>ob \<in> set held. obj_data nd' ob = obj_data nd ob) \<and> (\<forall>k \<in> set keys. node_stored nd' local_cpu k) \<and>
    (\<forall>n k. node_stored nd n k \<longrightarrow> node_stored nd' n k)"
    using assms(3,1,2,4)
  proof (induction keys objs arbitrary: nd rule: list_induct2)
    case (Cons k keys ob objs)
    have 1: "ob \<in> set held" "obj_data nd ob = truth k" using Cons.prems by auto
    note P = node_put_one[OF Cons.prems(1) 1, where now = now]
    let ?nd = "nd\<lparr>nd_cpu := submit_put_task env now (nd_cpu nd) k ob\<rparr>"
    have "\<forall>(k', ob') \<in> set (zip keys objs). obj_data ?nd ob' = truth k'"
      using Cons.prems(2,3) P(2) set_zip_rightD by fastforce
    then obtain nd' where ih: "?nd\<lparr>nd_cpu := fold (\<lambda>(key, i) cb. submit_put_task env now cb key i) (zip keys objs) (nd_cpu ?nd)\<rparr> = nd'"
      "node_inv truth log held nd'" "\<forall>ob \<in> set held. obj_data nd' ob = obj_data ?nd ob" "\<forall>k \<in> set keys. node_stored nd' local_cpu k"
      "\<forall>n k. node_stored ?nd n k \<longrightarrow> node_stored nd' n k"
      using Cons.IH[OF P(1)] Cons.prems(2) by auto
    then show ?case using P by (intro exI[of _ nd']) auto
  qed simp
  then show ?thesis using use by (simp add: node_put_def on_cpu_def batched_submit_put_task_def now_def)
qed

lemma node_release_ok:
  assumes i: "node_inv truth log held nd" and ob: "ob \<in> set held"
  shows "node_inv truth log (remove1 ob held) (oo_ref_count_down (cpu_obj_ops env) ob nd)"
    and "node_stored (oo_ref_count_down (cpu_obj_ops env) ob nd) = node_stored nd"
proof -
  have c: "cpu_ok (nd_cpu nd) held" using i by (simp add: node_inv_def node_ok_def)
  show "node_inv truth log (remove1 ob held) (oo_ref_count_down (cpu_obj_ops env) ob nd)"
    using node_inv_step[OF i release_held_ok[OF c ob] ref_down_layouts(1)[OF c cpu_okD(5)[OF c ob]]] by (simp add: cpu_obj_ops_def)
  show "node_stored (oo_ref_count_down (cpu_obj_ops env) ob nd) = node_stored nd"
    by (simp add: cpu_obj_ops_def node_stored_def fun_eq_iff)
qed

end

lemma node_reorder:
  assumes "node_inv truth log held nd" and "mset held' = mset held"
  shows "node_inv truth log held' nd"
proof -
  have "set held' = set held" by (rule mset_eq_setD[OF assms(2)])
  moreover have "count_list held' i = count_list held i" for i using assms(2) by (metis count_mset)
  ultimately show ?thesis using assms(1) by (simp add: node_inv_def node_ok_def cpu_ok_def)
qed

section \<open>Housekeeping\<close>

text \<open>\<open>cpu_step\<close>: what an operation that neither allocates nor puts may do to the backend.\<close>

definition cpu_step :: "nat list \<Rightarrow> ('k, 'h, 's, 'd) cpu_backend \<Rightarrow> ('k, 'h, 's, 'd) cpu_backend \<Rightarrow> bool" where
  "cpu_step held cb cb' \<longleftrightarrow> cpu_ok cb' held \<and> drops_only cb cb' \<and> cb_use_hot cb' = cb_use_hot cb"

lemma cpu_step_refl: "cpu_ok cb held \<Longrightarrow> cpu_step held cb cb"
  by (simp add: cpu_step_def)

lemma cpu_step_trans: "cpu_step held a b \<Longrightarrow> cpu_step held b c \<Longrightarrow> cpu_step held a c"
  unfolding cpu_step_def using drops_only_trans by auto

lemma on_cpu_step:
  assumes i: "node_inv truth log held nd" and "cpu_ok (nd_cpu nd) held \<Longrightarrow> cpu_step held (nd_cpu nd) (fst (f (nd_cpu nd)))"
  shows "node_inv truth log held (fst (on_cpu f nd))"
proof -
  have "cpu_ok (nd_cpu nd) held" using i by (simp add: node_inv_def node_ok_def)
  with assms(2) node_inv_step[OF i, of "fst (f (nd_cpu nd))" held] show ?thesis by (simp add: on_cpu_def cpu_step_def case_prod_beta)
qed

lemma touch_keys_mem:
  "cb_mem (fst (touch_keys env now ks cb)) = cb_mem cb \<and> cb_use_hot (fst (touch_keys env now ks cb)) = cb_use_hot cb"
  by (induction env now ks cb rule: touch_keys.induct) (auto split: prod.splits sum.splits)

context cpu_backend_env
begin

lemma touch_step:
  assumes "cpu_ok cb held"
  shows "cpu_step held cb (fst (touch_cache env now cb))"
proof -
  let ?cb = "fst (touch_cache env now cb)"
  have T: "cpu_inv ?cb" "map_of (cb_hot ?cb) = map_of (cb_hot cb)"
    using touch_cache_inv[OF cpu_okD(1)[OF assms]] by (auto simp: same_cache_def)
  have m: "cb_mem ?cb = cb_mem cb" "cb_use_hot ?cb = cb_use_hot cb"
    using touch_keys_mem[of env now "rev (cb_keys_in_request cb)" cb] by (auto simp: touch_cache_def split: prod.splits sum.splits)
  show ?thesis
    using assms T m by (simp add: cpu_step_def cpu_ok_def raws_ok_def hot_obj_def holders_def drops_only_def same_layout_def)
qed

lemma unpin_step:
  assumes "cpu_ok cb held"
  shows "cpu_step held cb (fst (cpu_unpin env cb k))"
proof (cases "map_of (cb_hot cb) k")
  case None
  then show ?thesis using assms by (simp add: cpu_unpin_def cpu_step_refl)
next
  case (Some i)
  then show ?thesis using unpin_cached_ok[OF assms Some] by (simp add: cpu_unpin_def cpu_step_def)
qed

lemma remove_step:
  assumes "cpu_ok cb held"
  shows "cpu_step held cb (fst (cpu_remove env cb k True)) \<and> (\<exists>b. snd (cpu_remove env cb k True) = Inr b)"
proof (cases "map_of (cb_hot cb) k")
  case None
  then show ?thesis using cpu_step_refl[OF assms] by (auto simp: cpu_remove_unfold send_evict_def)
next
  case (Some i)
  obtain p where p: "pol_inv p (set (od_keys (cb_hot cb)) - {k})"
    "cpu_remove env cb k True = (cb\<lparr>cb_hot := AList.delete k (cb_hot cb), cb_mem := ref_count_down (mem_env_of env) (cb_mem cb) i, cb_policy := p,
      cb_msgs := cb_msgs cb @ [(EVICT, ce_hash env k)]\<rparr>, Inr True)"
    using cpu_remove_ok[OF cpu_okD(1)[OF assms] Some] by blast
  note D = drop_cached_ok[OF assms Some p(1)]
  have "cpu_step held cb ((cb\<lparr>cb_hot := AList.delete k (cb_hot cb), cb_mem := ref_count_down (mem_env_of env) (cb_mem cb) i,
      cb_policy := p\<rparr>)\<lparr>cb_msgs := cb_msgs cb @ [(EVICT, ce_hash env k)]\<rparr>)"
    using D unfolding cpu_step_def drops_only_more cpu_ok_more by simp
  then show ?thesis using p(2) by auto
qed

lemma batched_remove_step:
  "cpu_ok cb held \<Longrightarrow> cpu_step held cb (fst (batched_remove env cb ks True n))"
proof (induction ks arbitrary: cb n)
  case Nil
  then show ?case by (simp add: cpu_step_refl)
next
  case (Cons k ks)
  obtain cb' b where r: "cpu_remove env cb k True = (cb', Inr b)" "cpu_step held cb cb'"
    using remove_step[OF Cons.prems, of k] by (cases "cpu_remove env cb k True") auto
  have "cpu_ok cb' held" using r(2) by (simp add: cpu_step_def)
  from cpu_step_trans[OF r(2) Cons.IH[OF this]] r(1) show ?case by simp
qed

lemma clear_step:
  assumes "cpu_ok cb held"
  shows "cpu_step held cb (fst (cpu_clear env cb))"
proof -
  have "fst (cpu_clear env cb) = cb \<or> (\<exists>ks. fst (cpu_clear env cb) = fst (batched_remove env cb ks True 0))"
    by (auto simp: cpu_clear_def split: sum.splits prod.splits) (metis fst_conv)+
  then show ?thesis using batched_remove_step[OF assms] cpu_step_refl[OF assms] by auto
qed

end

section \<open>An engine on the node\<close>

definition db_process :: "token_db \<Rightarrow> (int, hash_val) token_args \<Rightarrow> (int \<times> int \<times> cache_key) list \<times> py_error option" where
  "db_process db args =
     (case process_tokens db (ta_tokens args) (ta_hashes args) (ta_offsets args) (ta_mask args) True None of
        (ys, e) \<Rightarrow> ([(a, b, k). (a, b, TKey k) \<leftarrow> ys], e))"

text \<open>A healthy engine with a GPU on a rank that stores, without layerwise storage; stores do not wait
  for memory. \<open>request n\<close> is what the metadata ask for \<open>n\<close> tokens.\<close>

definition node_env ::
  "token_db \<Rightarrow> bool \<Rightarrow> (int \<Rightarrow> ('s, 'd) alloc_request) \<Rightarrow> (int \<Rightarrow> int \<Rightarrow> 'b list)
    \<Rightarrow> ((cache_key, 'h, 's, 'd, 'b) node, cache_key, nat, ('s, 'd) alloc_request, int, hash_val) engine_env" where
  "node_env db kv_events request content =
     \<lparr> ee_healthy = True, ee_has_gpu = True, ee_save_only_first_rank = td_save_only_first_rank db, ee_first_rank = True,
       ee_received = [], ee_kv_events_enabled = kv_events, ee_force_store_wait = False, ee_use_layerwise = False, ee_num_layers = 1,
       ee_remove_after_retrieve = False, ee_process = db_process db, ee_hash = ck_chunk_hash, ee_no_hash = HInt 0,
       ee_split_layers = (\<lambda>k n. []), ee_request = request,
       ee_from_gpu = (\<lambda>objs as bs nd. (gpu_write content objs as bs nd, Inr ())),
       ee_to_gpu = (\<lambda>objs as bs nd. (gpu_read objs as bs nd, Inr ())) \<rparr>"

context cpu_backend_env
begin

lemma node_storage:
  "kv_tiers (cpu_sm env others) (cpu_alloc_if env others) (node_inv truth log) node_stored obj_data node_room node_fresh truth (node_fits env)"
proof (rule kv_tiers.intro, goal_cases)
  case (1 held)
  show ?case by (simp add: cpu_sm_def cpu_tier.storage_tiers_axioms)
next
  case (6 held s q n)
  obtain nd' r where "node_allocate env others q True False s = (nd', Inr r)"
    "case r of None \<Rightarrow> node_inv truth log held nd' \<and> (\<forall>k. \<not> evictable (nd_cpu nd') k)
     | Some ob \<Rightarrow> node_inv truth log (held @ [ob]) nd' \<and> ob \<notin> set held \<and> node_fresh nd' ob \<and> node_room nd' ob = n"
    "\<forall>ob \<in> set held. node_room nd' ob = node_room s ob \<and> (node_fresh s ob \<longrightarrow> node_fresh nd' ob)"
    using node_allocate_ok[OF 6] by blast
  then show ?case by (intro exI[of _ nd'] exI[of _ r]) (auto simp: cpu_alloc_if_def split: option.splits)
next
  case (7 name b held s objs keys)
  then show ?case using node_put_ok[OF 7(2,3,4,5)] by (simp add: cpu_sm_def cpu_be_def)
next
  case (8 name b held s keys)
  have nb: "name = local_cpu" "be_batched_get_blocking b = (\<lambda>keys. default_batched_get node_get keys [])"
    using 8(1) by (simp_all add: cpu_sm_def cpu_be_def)
  obtain nd' objs where G: "default_batched_get node_get keys [] s = (nd', Inr ([] @ objs))" "length objs = length keys"
    "node_inv truth log (held @ somes objs) nd'" "node_stored nd' = node_stored s" "\<forall>j \<in> set held. obj_data nd' j = obj_data s j"
    "\<forall>x < length keys. case objs ! x of None \<Rightarrow> \<not> node_stored s local_cpu (keys ! x)
       | Some j \<Rightarrow> node_stored s local_cpu (keys ! x) \<and> obj_data nd' j = truth (keys ! x)"
    using node_batched_get_ok[OF 8(2), of keys "[]"] by blast
  then show ?case unfolding nb append_Nil by blast
next
  case (9 held s ob)
  then show ?case using node_release_ok[OF 9] by (simp add: cpu_sm_def)
next
  case (10 held s held')
  then show ?case by (rule node_reorder)
qed (auto simp: cpu_sm_def cpu_be_def)

end

lemma node_engine:
  fixes db :: token_db and kv_events :: bool and request :: "int \<Rightarrow> ('s, 'd) alloc_request" and content :: "int \<Rightarrow> int \<Rightarrow> 'b list"
    and truth :: "cache_key \<Rightarrow> 'b list" and cenv :: "(cache_key, 'h, 's, 'd) cpu_env"
  assumes "cpu_backend_env cenv"
  shows "kv_engine (cpu_sm cenv others) (cpu_alloc_if cenv others) (node_inv truth) node_stored obj_data node_room node_fresh truth
    (node_fits cenv) (node_env db kv_events request content) content"
proof (rule kv_engine.intro, goal_cases)
  case (1 log)
  show ?case by (rule cpu_backend_env.node_storage[OF assms])
next
  case (9 log held s objs as bs)
  then show ?case using gpu_write_ok[OF 9] by (simp add: node_env_def)
next
  case (10 log held s objs as bs)
  then show ?case using gpu_read_ok[OF 10(1)] by (simp add: node_env_def)
qed (auto simp: node_env_def is_passive_def cpu_sm_def local_cpu_def)

lemma node_upkeep:
  fixes db :: token_db and kv_events :: bool and request :: "int \<Rightarrow> ('s, 'd) alloc_request" and content :: "int \<Rightarrow> int \<Rightarrow> 'b list"
    and truth :: "cache_key \<Rightarrow> 'b list" and cenv :: "(cache_key, 'h, 's, 'd) cpu_env"
  assumes c: "cpu_backend_env cenv"
  shows "kv_upkeep (cpu_sm cenv others) (cpu_alloc_if cenv others) (node_inv truth) node_stored obj_data node_room node_fresh truth
    (node_fits cenv) (node_env db kv_events request content) content"
proof (rule kv_upkeep.intro)
  show "kv_engine (cpu_sm cenv others) (cpu_alloc_if cenv others) (node_inv truth) node_stored obj_data node_room node_fresh truth
    (node_fits cenv) (node_env db kv_events request content) content"
    by (rule node_engine[OF c])
  show "kv_upkeep_axioms (cpu_sm cenv others) (node_inv truth)"
  proof (rule kv_upkeep_axioms.intro, goal_cases)
    case (1 name b log held s k)
    have b: "b = cpu_be cenv others" using 1(1) by (simp add: cpu_sm_def)
    show ?case unfolding b cpu_be_def
      by (simp, intro conjI on_cpu_step[OF 1(2)])
        (simp_all add: cpu_backend_env.touch_step[OF c] cpu_backend_env.unpin_step[OF c] cpu_backend_env.remove_step[OF c]
          cpu_backend_env.clear_step[OF c])
  qed
qed

end
