(* ===== verification/Serving.thy ===== *)
theory Serving
  imports Node
begin

text \<open>
  What a worker with the CPU cache gives from end to end: the tokens of a request through the chunked
  token database, the engine, the storage manager and the CPU backend to the GPU and back.
\<close>

declare map_of_eq_Some_iff [simp del] Some_eq_map_of_iff [simp del]

section \<open>Tiled chunks\<close>

definition db_key :: "token_db \<Rightarrow> int list \<Rightarrow> nat \<Rightarrow> cache_key" where
  "db_key db ts j = (case make_key_by_hash db (chunk_hash db ts j) None of Inr k \<Rightarrow> k)"

definition tile :: "nat \<Rightarrow> nat \<Rightarrow> (nat \<Rightarrow> 'k) \<Rightarrow> nat \<Rightarrow> int \<times> int \<times> 'k" where
  "tile c n key j = (int (j * c), int (min (j * c + c) n), key j)"

lemma cpu_sm_names:
  "fst ` set (sm_backends (cpu_sm env others)) = {local_cpu}" "map fst (sm_backends (cpu_sm env others)) = [local_cpu]"
  by (simp_all add: cpu_sm_def)

lemma tile_int: "tile c n key j = (int j * int c, min (int j * int c + int c) (int n), key j)"
  by (simp add: tile_def min_def flip: of_nat_mult of_nat_add)

lemma item_of_key:
  assumes "can_yield db True"
  shows "item_of db True None (chunk_hash db ts j) = TKey (db_key db ts j)"
  using assms yield_item_ok[OF assms, of None "chunk_hash db ts j"]
  by (auto simp: db_key_def yield_item_def can_yield_def make_key_by_hash_def mk_cache_key_def split: option.splits)

lemma db_process_eq:
  assumes "can_yield db True" and "td_chunk_size db = int c" and "0 < c"
  shows "db_process db \<lparr> ta_tokens = Some ts, ta_hashes = hs, ta_offsets = os, ta_mask = None \<rparr> =
    (map (tile c (length ts) (db_key db ts)) [0..<chunk_count db (length ts)], None)"
proof -
  have nf: "num_falses_of None = int 0 * int c" by (simp add: num_falses_of_def)
  have "concat (map (\<lambda>(a, b, x). case x of TKey k \<Rightarrow> [(a, b, k)] | THash h \<Rightarrow> [])
      (map (\<lambda>j. (int j * int c, min (int j * int c + int c) (int (length ts)), TKey (db_key db ts j))) js)) =
      map (tile c (length ts) (db_key db ts)) js" for js
    by (induction js) (simp_all add: tile_int)
  then show ?thesis
    by (simp add: db_process_def process_tokens_eq[OF assms nf] item_of_key[OF assms(1)])
qed

lemma mask_set_step:
  "mask_set (int a) (int (min (a + c) n)) (map (\<lambda>i. i < a) [0..<n]) = map (\<lambda>i. i < a + c) [0..<n]"
  by (rule nth_equalityI) (auto simp: mask_set_def Let_def slice_bound_def)

lemma mask_tiles:
  assumes "0 < c"
  shows "fold (\<lambda>(a, b, k). mask_set a b) (map (tile c n key) [0..<q]) (replicate n False) = map (\<lambda>i. i < q * c) [0..<n]"
proof (induction q)
  case 0
  then show ?case by (simp add: map_replicate_trivial)
next
  case (Suc q)
  then show ?case using mask_set_step[of "q * c" c n] by (simp add: tile_def add.commute del: of_nat_mult)
qed

lemma last_end_tiles:
  assumes "q \<le> m"
  shows "last_end q (map (tile c n key) [k..<k + m]) res = (if q = 0 then res else int (min ((k + q) * c) n))"
  using assms
proof (induction q arbitrary: k m res)
  case (Suc q)
  then obtain m' where m: "m = Suc m'" "q \<le> m'" by (cases m) auto
  have "[k..<k + m] = k # [Suc k..<Suc k + m']" using m(1) by (simp add: upt_conv_Cons del: upt_Suc)
  then have "last_end (Suc q) (map (tile c n key) [k..<k + m]) res = last_end q (map (tile c n key) [Suc k..<Suc k + m']) (int (min (k * c + c) n))"
    by (simp add: tile_def del: upt_Suc)
  also have "\<dots> = (if q = 0 then int (min (k * c + c) n) else int (min ((Suc k + q) * c) n))" by (rule Suc.IH[OF m(2)])
  finally show ?case by (simp add: algebra_simps del: upt_Suc)
qed simp

section \<open>From store to retrieve\<close>

text \<open>A request that names its tokens and nothing else.\<close>

abbreviation tokens_only :: "int list \<Rightarrow> (int, hash_val) token_args" where
  "tokens_only ts \<equiv> \<lparr> ta_tokens = Some ts, ta_hashes = None, ta_offsets = None, ta_mask = None \<rparr>"

abbreviation tiles :: "token_db \<Rightarrow> nat \<Rightarrow> int list \<Rightarrow> nat \<Rightarrow> (int \<times> int \<times> cache_key) list" where
  "tiles db c ts q \<equiv> map (tile c (length ts) (db_key db ts)) [0..<q]"

lemma takeWhile_covers:
  assumes "m \<le> n" and "\<And>j. j < m \<Longrightarrow> P (f j)"
  shows "m \<le> length (takeWhile P (map f [0..<n]))"
proof (rule ccontr)
  assume "\<not> m \<le> length (takeWhile P (map f [0..<n]))"
  then have l: "length (takeWhile P (map f [0..<n])) < m" by simp
  then have "\<not> P (map f [0..<n] ! length (takeWhile P (map f [0..<n])))" using assms(1) by (intro nth_length_takeWhile) simp
  then show False using assms(2)[OF l] l assms(1) by simp
qed

lemma keys_of_tiles: "map (snd \<circ> snd) (tiles db c ts q) = map (db_key db ts) [0..<q]"
  by (simp add: tile_def)

lemma take_tiles: "q \<le> n \<Longrightarrow> take q (tiles db c ts n) = tiles db c ts q"
  by (simp add: take_map take_upt)

lemma node_env_process:
  assumes "td_chunk_size db = int c" and "0 < c" and "can_yield db True"
  shows "ee_process (node_env db kv_events request content) (tokens_only ts) = (tiles db c ts (chunk_count db (length ts)), None)"
    and "ee_process (node_env db kv_events request content) (lookup_args (tokens_only ts)) = (tiles db c ts (chunk_count db (length ts)), None)"
  by (simp_all add: node_env_def lookup_args_def db_process_eq[OF assms(3,1,2)])

text \<open>Where the memory ends for a store: there was memory for the first \<open>m\<close> chunks, the allocation for the next one
  finds none, and no cached object may be evicted then.\<close>

definition memory_ends_at ::
  "(cache_key, 'h, 's, 'd) cpu_env \<Rightarrow> (nat \<Rightarrow> (cache_key, 'h, 's, 'd) cpu_backend \<Rightarrow> (cache_key, 'h, 's, 'd) cpu_backend)
    \<Rightarrow> ((cache_key, 'h, 's, 'd, 'b) node, cache_key, nat, ('s, 'd) alloc_request, int, hash_val) engine_env
    \<Rightarrow> (int, hash_val) token_args \<Rightarrow> (int \<times> int \<times> cache_key) list \<Rightarrow> nat
    \<Rightarrow> ((cache_key, 'h, 's, 'd, 'b) node, cache_key, nat, ('s, 'd) alloc_request, int, hash_val) engine \<Rightarrow> bool" where
  "memory_ends_at cenv others env args chunks m en \<longleftrightarrow>
     (\<exists>en' acc nd. store_loop env (cpu_sm cenv others) args (take m chunks) (ee_no_hash env) [] en = (en', Inr (acc, False)) \<and>
        (case chunks ! m of (a, b, k) \<Rightarrow> node_allocate cenv others (ee_request env (b - a)) True False (en_world en') = (nd, Inr None)) \<and>
        (\<forall>k i. map_of (cb_hot (nd_cpu nd)) k = Some i \<longrightarrow> \<not> can_evict (hot_obj (nd_cpu nd) i)))"

text \<open>A store keeps a prefix of the chunks, all of them unless the memory is exhausted.\<close>

lemma store_keeps_prefix:
  fixes cenv :: "(cache_key, 'h, 's, 'd) cpu_env" and truth :: "cache_key \<Rightarrow> 'b list" and kv_events :: bool
  assumes cenv: "cpu_backend_env cenv" and db: "td_chunk_size db = int c" "0 < c" "can_yield db True"
    and inv: "node_inv truth log held (en_world en)" and sm: "en_sm en = Some (cpu_sm cenv others)"
    and gpu: "\<And>j. j < chunk_count db (length ts) \<Longrightarrow> content (int (j * c)) (int (min (j * c + c) (length ts))) = truth (db_key db ts j) \<and>
       node_fits cenv (request (int (min (j * c + c) (length ts)) - int (j * c))) (length (truth (db_key db ts j)))"
  shows "\<exists>en1 m. store (node_env db kv_events request content) (tokens_only ts) en = (en1, Inr ()) \<and> m \<le> chunk_count db (length ts) \<and>
    node_inv truth log held (en_world en1) \<and> en_sm en1 = Some (cpu_sm cenv others) \<and>
    (\<forall>j < m. node_stored (en_world en1) local_cpu (db_key db ts j)) \<and>
    (m < chunk_count db (length ts) \<longrightarrow>
       memory_ends_at cenv others (node_env db kv_events request content) (tokens_only ts) (tiles db c ts (chunk_count db (length ts))) m en)"
proof -
  let ?n = "length ts" and ?N = "chunk_count db (length ts)"
  let ?ch = "tiles db c ts ?N"
  let ?env = "node_env db kv_events request content
    :: ((cache_key, 'h, 's, 'd, 'b) node, cache_key, nat, ('s, 'd) alloc_request, int, hash_val) engine_env"
  note E = node_engine[OF cenv, where others = others and truth = truth and db = db and kv_events = kv_events and request = request and content = content]
  have st: "list_all (kv_engine.storable truth (node_fits cenv) ?env content) ?ch"
  proof -
    have "kv_engine.storable truth (node_fits cenv) ?env content (tile c ?n (db_key db ts) j)" if "j < ?N" for j
      using gpu[OF that] unfolding kv_engine.storable_def[OF E] tile_def by (simp add: node_env_def)
    then show ?thesis by (simp add: list_all_iff)
  qed
  have ok: "store_args_ok (tokens_only ts)" by (simp add: store_args_ok_def)
  obtain en1 m where s: "store ?env (tokens_only ts) en = (en1, Inr ())" "m \<le> length ?ch" "node_inv truth log held (en_world en1)"
    "en_sm en1 = Some (cpu_sm cenv others)"
    "\<forall>name \<in> {local_cpu}. \<forall>(a, b, k) \<in> set (take m ?ch). node_stored (en_world en1) name k"
    "m < length ?ch \<longrightarrow> (\<exists>acc. length acc = m \<and> kv_engine.loop_stops (cpu_sm cenv others) (cpu_alloc_if cenv others) (node_inv truth) ?env
       log held (tokens_only ts) ?ch (ee_no_hash ?env) [] en acc)"
    using kv_engine.store_ok[OF E inv sm ok node_env_process(1)[OF db] st] unfolding cpu_sm_names by (elim exE conjE) (rule that; assumption)
  have m: "m \<le> ?N" using s(2) by simp
  have kept: "\<forall>j < m. node_stored (en_world en1) local_cpu (db_key db ts j)"
    using s(5) unfolding take_tiles[OF m] by (auto simp: tile_def)
  have "memory_ends_at cenv others ?env (tokens_only ts) ?ch m en" if h: "m < ?N"
  proof -
    let ?k = "db_key db ts m" and ?a = "int (m * c)" and ?b = "int (min (m * c + c) ?n)"
    have c: "?ch ! m = (?a, ?b, ?k)" using h by (simp add: tile_def)
    have f: "al_allocate (cpu_alloc_if cenv others) q True False = node_allocate cenv others q True False" "ee_request ?env = request" for q
      by (simp_all add: cpu_alloc_if_def node_env_def)
    obtain acc where acc: "length acc = m" "kv_engine.loop_stops (cpu_sm cenv others) (cpu_alloc_if cenv others) (node_inv truth) ?env
       log held (tokens_only ts) ?ch (ee_no_hash ?env) [] en acc" using s(6) h by (auto simp only: length_map length_upt minus_nat.diff_0)
    obtain en' nd where a: "store_loop ?env (cpu_sm cenv others) (tokens_only ts) (take m ?ch) (ee_no_hash ?env) [] en = (en', Inr (acc, False))"
      "node_inv truth log (held @ map (\<lambda>(a, b, k, ob). ob) acc) (en_world en')"
      "node_allocate cenv others (request (?b - ?a)) True False (en_world en') = (nd, Inr None)"
      using acc(2) unfolding kv_engine.loop_stops_def[OF E] acc(1) c prod.case f append_Nil by blast
    have "\<forall>k. \<not> evictable (nd_cpu nd) k"
      using cpu_backend_env.node_allocate_ok[OF cenv a(2) conjunct2[OF gpu[OF h]], of others] unfolding a(3) by auto
    then show ?thesis using a(1,3) unfolding memory_ends_at_def evictable_def c prod.case f by blast
  qed
  with s(1,3,4) m kept show ?thesis by blast
qed

text \<open>A lookup and a retrieve of the same tokens work on the longest stored prefix.\<close>

lemma lookup_and_retrieve:
  fixes kv_events :: bool and request :: "int \<Rightarrow> ('s, 'd) alloc_request" and cenv :: "(cache_key, 'h, 's, 'd) cpu_env"
  assumes cenv: "cpu_backend_env cenv" and db: "td_chunk_size db = int c" "0 < c" "can_yield db True"
    and inv: "node_inv truth log held (en_world en)" and sm: "en_sm en = Some (cpu_sm cenv others)"
    and gpu: "\<And>j. j < chunk_count db (length ts) \<Longrightarrow> content (int (j * c)) (int (min (j * c + c) (length ts))) = truth (db_key db ts j)"
  defines "env \<equiv> node_env db kv_events request content"
    and "q \<equiv> length (takeWhile (node_stored (en_world en) local_cpu) (map (db_key db ts) [0..<chunk_count db (length ts)]))"
  shows "\<exists>en2. lookup env (tokens_only ts) None None False en = (en2, Inr (int (min (q * c) (length ts)))) \<and>
    (\<exists>en3. retrieve env (cpu_obj_ops cenv) False ts None None en2 = (en3, Inr (map (\<lambda>i. i < min (q * c) (length ts)) [0..<length ts])) \<and>
       node_inv truth (log @ map (\<lambda>j. (int (j * c), int (min (j * c + c) (length ts)),
          content (int (j * c)) (int (min (j * c + c) (length ts))))) [0..<q]) held (en_world en3))"
proof -
  let ?n = "length ts" and ?N = "chunk_count db (length ts)"
  let ?ch = "tiles db c ts ?N"
  note E = node_engine[OF cenv, where others = others and truth = truth and db = db and kv_events = kv_events and request = request and content = content,
      folded env_def]
  have p: "ee_process env (tokens_only ts) = (?ch, None)" "ee_process env (lookup_args (tokens_only ts)) = (?ch, None)"
    unfolding env_def by (rule node_env_process[OF db])+
  have N: "q \<le> ?N" unfolding q_def using length_takeWhile_le by (metis length_map length_upt minus_nat.diff_0)
  have q: "split_hits (tier_split (node_stored (en_world en)) [local_cpu] (map (snd \<circ> snd) ?ch)) = q"
    unfolding keys_of_tiles q_def by (simp add: Let_def)
  obtain nd2 where l: "lookup env (tokens_only ts) None None False en = (en\<lparr>en_world := nd2\<rparr>, Inr (last_end q ?ch 0))" "node_inv truth log held nd2"
    "node_stored nd2 = node_stored (en_world en)"
    using kv_engine.lookup_ok[OF E inv sm _ p(2)] unfolding cpu_sm_names q by auto
  let ?en2 = "en\<lparr>en_world := nd2\<rparr>"
  have le: "last_end q ?ch 0 = int (min (q * c) ?n)" using last_end_tiles[OF N, of c ?n "db_key db ts" 0 0] by simp
  have w: "en_world ?en2 = nd2" "en_sm ?en2 = Some (cpu_sm cenv others)" "sm_ops (cpu_sm cenv others) = cpu_obj_ops cenv"
    using sm by (simp_all add: cpu_sm_def)
  have I: "node_inv truth log held (en_world ?en2)" using l(2) by simp
  have b: "Option.bind None (map_of (en_lookup_pins ?en2)) = None" by simp
  obtain nd3 where r: "retrieve env (cpu_obj_ops cenv) False ts None None ?en2 =
      (?en2\<lparr>en_world := nd3\<rparr>, Inr (fold (\<lambda>(a, b, k). mask_set a b) (take q ?ch) (replicate ?n False)))"
    "node_inv truth (log @ map (\<lambda>(a, b, k). (a, b, truth k)) (take q ?ch)) held nd3"
    using kv_engine.retrieve_ok[OF E I w(2) p(1) b] unfolding cpu_sm_names w l(3) q by (elim exE conjE) (rule that; assumption)
  have mask: "fold (\<lambda>(a, b, k). mask_set a b) (take q ?ch) (replicate ?n False) = map (\<lambda>i. i < min (q * c) ?n) [0..<?n]"
    unfolding take_tiles[OF N] mask_tiles[OF db(2)] by simp
  have got: "map (\<lambda>(a, b, k). (a, b, truth k)) (take q ?ch) =
      map (\<lambda>j. (int (j * c), int (min (j * c + c) ?n), content (int (j * c)) (int (min (j * c + c) ?n)))) [0..<q]"
    unfolding take_tiles[OF N] using N gpu by (simp add: tile_def)
  show ?thesis using l(1) r unfolding le mask got by (intro exI[of _ ?en2] conjI exI[of _ "?en2\<lparr>en_world := nd3\<rparr>"]) simp_all
qed

text \<open>
  C1: what is stored is what is retrieved. On a worker with the CPU cache, a store of some tokens keeps
  the first \<open>m\<close> of their chunks, all of them unless, in the loop of this store, the allocation for chunk \<open>m\<close>
  fails with no cached object left that may be evicted. Let \<open>q\<close> be the number of leading chunks that are
  cached then, at least \<open>m\<close>. A lookup of the same tokens reports the tokens of these \<open>q\<close> chunks; a retrieve
  returns the mask of exactly these tokens, and the GPU receives, chunk by chunk and in order, the bytes it
  held for them when it stored them, and nothing else. Afterwards every object has exactly one reference for
  each key it is cached under and one for each time it is in \<open>held\<close>, the references other callers had before:
  store, lookup and retrieve leave none of their own.
\<close>

theorem stored_tokens_are_retrieved:
  fixes kv_events :: bool
  assumes "sl_spec (mem_env_of cenv)" and "chunk_spec (mem_env_of cenv)" and "sorted_dict (ce_items cenv)"
    and db: "td_chunk_size db = int c" "0 < c" "can_yield db True"
    and inv: "node_inv truth log held (en_world en)" and sm: "en_sm en = Some (cpu_sm cenv others)"
    and gpu: "\<And>j. j < chunk_count db (length ts) \<Longrightarrow> content (int (j * c)) (int (min (j * c + c) (length ts))) = truth (db_key db ts j) \<and>
       node_fits cenv (request (int (min (j * c + c) (length ts)) - int (j * c))) (length (truth (db_key db ts j)))"
  defines "env \<equiv> node_env db kv_events request content"
    and "args \<equiv> \<lparr> ta_tokens = Some ts, ta_hashes = None, ta_offsets = None, ta_mask = None \<rparr>"
  shows "\<exists>en1 m en2 en3 q. store env args en = (en1, Inr ()) \<and> m \<le> chunk_count db (length ts) \<and>
    (\<forall>j < m. node_stored (en_world en1) local_cpu (db_key db ts j)) \<and>
    (m < chunk_count db (length ts) \<longrightarrow> memory_ends_at cenv others env args (tiles db c ts (chunk_count db (length ts))) m en) \<and>
    q = length (takeWhile (\<lambda>k. node_stored (en_world en1) local_cpu k) (map (db_key db ts) [0..<chunk_count db (length ts)])) \<and> m \<le> q \<and>
    lookup env args None None False en1 = (en2, Inr (int (min (q * c) (length ts)))) \<and>
    retrieve env (cpu_obj_ops cenv) False ts None None en2 = (en3, Inr (map (\<lambda>i. i < min (q * c) (length ts)) [0..<length ts])) \<and>
    nd_received (en_world en3) = nd_received (en_world en) @ map (\<lambda>j. (int (j * c), int (min (j * c + c) (length ts)),
       content (int (j * c)) (int (min (j * c + c) (length ts))))) [0..<q] \<and>
    (\<forall>i < length (t_objs (cb_mem (nd_cpu (en_world en3)))). mo_ref_count (hot_obj (nd_cpu (en_world en3)) i) =
       int (card {k. map_of (cb_hot (nd_cpu (en_world en3))) k = Some i} + count_list held i))"
proof -
  let ?n = "length ts" and ?N = "chunk_count db (length ts)"
  have cenv: "cpu_backend_env cenv" using assms(1-3) by (rule cpu_backend_envI)
  obtain en1 m where s: "store env args en = (en1, Inr ())" "m \<le> ?N" "node_inv truth log held (en_world en1)" "en_sm en1 = Some (cpu_sm cenv others)"
    "\<forall>j < m. node_stored (en_world en1) local_cpu (db_key db ts j)" "m < ?N \<longrightarrow> memory_ends_at cenv others env args (tiles db c ts ?N) m en"
    by atomize_elim (unfold env_def args_def, rule store_keeps_prefix[OF cenv db inv sm], rule gpu)
  let ?q = "length (takeWhile (node_stored (en_world en1) local_cpu) (map (db_key db ts) [0..<?N]))"
  have m: "m \<le> ?q" using takeWhile_covers[of m ?N "node_stored (en_world en1) local_cpu" "db_key db ts"] s(2,5) by blast
  let ?got = "map (\<lambda>j. (int (j * c), int (min (j * c + c) ?n), content (int (j * c)) (int (min (j * c + c) ?n)))) [0..<?q]"
  obtain en2 en3 where L: "lookup env args None None False en1 = (en2, Inr (int (min (?q * c) ?n)))"
    "retrieve env (cpu_obj_ops cenv) False ts None None en2 = (en3, Inr (map (\<lambda>i. i < min (?q * c) ?n) [0..<?n]))"
    "node_inv truth (log @ ?got) held (en_world en3)"
    using lookup_and_retrieve[OF cenv db s(3,4) conjunct1[OF gpu], where kv_events = kv_events and request = request, folded env_def args_def] by blast
  have r: "nd_received (en_world en3) = nd_received (en_world en) @ ?got" using L(3) inv by (simp add: node_inv_def)
  have x: "\<forall>i < length (t_objs (cb_mem (nd_cpu (en_world en3)))). mo_ref_count (hot_obj (nd_cpu (en_world en3)) i) =
       int (card {k. map_of (cb_hot (nd_cpu (en_world en3))) k = Some i} + count_list held i)"
    using L(3) by (simp add: node_inv_def node_ok_def cpu_ok_def holders_def)
  show ?thesis
    by (intro exI[of _ en1] exI[of _ m] exI[of _ en2] exI[of _ en3] exI[of _ ?q] conjI refl s(1) s(2) s(5) s(6) m L(1) L(2) r x)
qed

section \<open>Examples\<close>

definition key_cpu_env :: "(cache_key, hash_val, int list, int) cpu_env" where
  "key_cpu_env = \<lparr>ce_alloc = ref_alloc_env, ce_items = ref_items, ce_hash = ck_chunk_hash\<rparr>"

definition demo_node :: "(cache_key, hash_val, int list, int, int) node" where
  "demo_node = \<lparr> nd_cpu = cpu_start (mem_init (t_init ref_mem_env 16384 4096 None)) FIFO True False False,
     nd_bytes = (\<lambda>_. 0), nd_now = 0, nd_received = [] \<rparr>"

definition demo_engine ::
  "((cache_key, hash_val, int list, int, int) node, cache_key, nat, (int list, int) alloc_request, int, hash_val) engine" where
  "demo_engine = \<lparr> en_sm = Some (cpu_sm key_cpu_env (\<lambda>n cb. cb)), en_world = demo_node, en_lookup_pins = [], en_kv_events = [],
     en_events = events_init \<rparr>"

text \<open>Two bytes per element of a tensor of shape \<open>[2, n]\<close> for \<open>n\<close> tokens.\<close>

definition demo_request :: "int \<Rightarrow> (int list, int) alloc_request" where
  "demo_request n = (One [2, n], One 2, None)"

definition demo_content :: "int \<Rightarrow> int \<Rightarrow> int list" where
  "demo_content a b = replicate (nat (4 * (b - a))) a"

lemma key_cpu_env_specs:
  "sl_spec (mem_env_of key_cpu_env)" "chunk_spec (mem_env_of key_cpu_env)" "sorted_dict (ce_items key_cpu_env)"
proof -
  have m: "mem_env_of key_cpu_env = ref_mem_env" by (simp add: key_cpu_env_def ref_alloc_env_mem)
  show "sl_spec (mem_env_of key_cpu_env)" unfolding m by (rule ref_mem_env_sl)
  show "chunk_spec (mem_env_of key_cpu_env)" unfolding m by (rule ref_mem_env_chunk)
  show "sorted_dict (ce_items key_cpu_env)" by (simp add: key_cpu_env_def ref_sd.sorted_dict_axioms)
qed

interpretation key_cpu: cpu_backend_env key_cpu_env
  by (rule cpu_backend_envI[OF key_cpu_env_specs])

interpretation demo_storage: kv_tiers "cpu_sm key_cpu_env others" "cpu_alloc_if key_cpu_env others" "node_inv truth log" node_stored obj_data
  node_room node_fresh truth "node_fits key_cpu_env"
  for others and truth :: "cache_key \<Rightarrow> int list" and log
  by (rule key_cpu.node_storage)

interpretation demo_kv_engine: kv_engine "cpu_sm key_cpu_env others" "cpu_alloc_if key_cpu_env others" "node_inv truth" node_stored obj_data
  node_room node_fresh truth "node_fits key_cpu_env" "node_env db kv_events request content" content
  for others and truth :: "cache_key \<Rightarrow> int list" and db kv_events request and content :: "int \<Rightarrow> int \<Rightarrow> int list"
  by (rule node_engine[OF key_cpu.cpu_backend_env_axioms])

lemma empty_node_inv:
  assumes "mem_inv m" and "t_objs m = []" and "pol_inv pol {}"
  shows "node_inv truth [] [] \<lparr> nd_cpu = cpu_start m pol True layerwise blending, nd_bytes = bytes, nd_now = now, nd_received = [] \<rparr>"
  using assms by (simp add: node_inv_def node_ok_def cpu_ok_def cpu_on_def cpu_start_def raws_ok_def)

lemma demo_node_inv: "node_inv truth [] [] demo_node"
  unfolding demo_node_def
proof (rule empty_node_inv)
  have "mem_reachable ref_mem_env {} (mem_init (t_init ref_mem_env 16384 4096 None))"
    using mem_reachable.start[of 16384 ref_mem_env 12] by simp
  then show "mem_inv (mem_init (t_init ref_mem_env 16384 4096 None))" by (rule ref_tensor.mem_reachable_inv)
  show "t_objs (mem_init (t_init ref_mem_env 16384 4096 None)) = []" by (simp add: mem_init_def t_init_def talloc.defs)
  show "pol_inv FIFO {}" by (simp add: pol_inv_def)
qed

lemma demo_fits: "0 < n \<Longrightarrow> node_fits key_cpu_env (demo_request n) (nat (4 * n))"
proof -
  have m: "mem_env_of key_cpu_env = ref_mem_env" by (simp add: key_cpu_env_def ref_alloc_env_mem)
  assume "0 < n"
  then show ?thesis unfolding node_fits_def m
    by (simp add: demo_request_def adapt_shapes_and_dtypes_def get_size_bytes_def ref_mem_env_def)
qed

text \<open>The keys of the first two chunks of these tokens differ.\<close>

lemma demo_db_keys: "db_key demo_db [1, 2, 3] 0 \<noteq> db_key demo_db [1, 2, 3] 1"
proof
  assume e: "db_key demo_db [1, 2, 3] 0 = db_key demo_db [1, 2, 3] 1"
  have "chunk_hash demo_db [1, 2, 3] 0 = chunk_hash demo_db [1, 2, 3] 1"
    using e item_of_inj[OF demo_db_ok(2), of True None "chunk_hash demo_db [1, 2, 3] 0" "chunk_hash demo_db [1, 2, 3] 1"]
    unfolding item_of_key[OF demo_db_ok(2)] by simp
  then have "demo_hash (Some (td_none_hash demo_db)) [1, 2] = demo_hash (Some (demo_hash (Some (td_none_hash demo_db)) [1, 2])) [3]"
    using demo_db_ok(1,4) by (simp add: chunk_hash_def chain_hash_def chunk_at_def hash_tokens_def)
  then show False using demo_hash_inj by fastforce
qed

theorem stored_tokens_are_retrieved_witness:
  "\<exists>en1 en2 en3 q. store (node_env demo_db False demo_request demo_content) \<lparr> ta_tokens = Some [1, 2, 3], ta_hashes = None, ta_offsets = None, ta_mask = None \<rparr>
       demo_engine = (en1, Inr ()) \<and>
     lookup (node_env demo_db False demo_request demo_content) \<lparr> ta_tokens = Some [1, 2, 3], ta_hashes = None, ta_offsets = None, ta_mask = None \<rparr>
       None None False en1 = (en2, Inr (int (min (q * 2) 3))) \<and>
     retrieve (node_env demo_db False demo_request demo_content) (cpu_obj_ops key_cpu_env) False [1, 2, 3] None None en2 =
       (en3, Inr (map (\<lambda>i. i < min (q * 2) 3) [0..<3]))"
proof -
  define truth where "truth k = (if k = db_key demo_db [1, 2, 3] 0 then demo_content 0 2 else demo_content 2 3)" for k
  have n: "chunk_count demo_db (length [1, 2, 3::int]) = 2" by (simp add: chunk_count_def demo_db_ok Let_def)
  have g: "demo_content (int (j * 2)) (int (min (j * 2 + 2) (length [1, 2, 3::int]))) = truth (db_key demo_db [1, 2, 3] j) \<and>
      node_fits key_cpu_env (demo_request (int (min (j * 2 + 2) (length [1, 2, 3::int])) - int (j * 2))) (length (truth (db_key demo_db [1, 2, 3] j)))"
    if h: "j < chunk_count demo_db (length [1, 2, 3::int])" for j
  proof -
    consider "j = 0" | "j = 1" using h n by linarith
    then show ?thesis
      using demo_fits[of 2] demo_fits[of 1] demo_db_keys by cases (auto simp: truth_def demo_content_def)
  qed
  have "node_inv truth [] [] (en_world demo_engine)" using demo_node_inv by (simp add: demo_engine_def)
  moreover have sm: "en_sm demo_engine = Some (cpu_sm key_cpu_env (\<lambda>n cb. cb))" by (simp add: demo_engine_def)
  ultimately obtain en1 en2 en3 q where
    T: "store (node_env demo_db False demo_request demo_content) \<lparr> ta_tokens = Some [1, 2, 3], ta_hashes = None, ta_offsets = None, ta_mask = None \<rparr>
       demo_engine = (en1, Inr ())"
     "lookup (node_env demo_db False demo_request demo_content) \<lparr> ta_tokens = Some [1, 2, 3], ta_hashes = None, ta_offsets = None, ta_mask = None \<rparr>
       None None False en1 = (en2, Inr (int (min (q * 2) (length [1, 2, 3::int]))))"
     "retrieve (node_env demo_db False demo_request demo_content) (cpu_obj_ops key_cpu_env) False [1, 2, 3] None None en2 =
       (en3, Inr (map (\<lambda>i. i < min (q * 2) (length [1, 2, 3::int])) [0..<length [1, 2, 3::int]]))"
    using stored_tokens_are_retrieved[OF key_cpu_env_specs demo_db_ok(1) zero_less_numeral demo_db_ok(2), of truth "[]" "[]" demo_engine "\<lambda>n cb. cb" "[1, 2, 3]"
        demo_content demo_request False, OF _ _ g] by blast
  have l: "length [1, 2, 3::int] = 3" by simp
  show ?thesis using T unfolding l by (intro exI conjI)
qed

section \<open>Requests in any order\<close>

text \<open>The engine under requests: stores whose GPU holds, for each chunk, the bytes that belong to its key,
  and retrieves, lookups, unpins and clears with any arguments, while time passes. \<open>asked\<close>: the chunks of the
  retrieves so far.\<close>

definition gpu_honest ::
  "(cache_key, 'h, 's, 'd) cpu_env \<Rightarrow> token_db \<Rightarrow> (cache_key \<Rightarrow> 'b list) \<Rightarrow> (int \<Rightarrow> ('s, 'd) alloc_request) \<Rightarrow> (int \<Rightarrow> int \<Rightarrow> 'b list)
    \<Rightarrow> (int, hash_val) token_args \<Rightarrow> bool" where
  "gpu_honest cenv db truth request content args \<longleftrightarrow>
     (\<forall>(a, b, k) \<in> set (fst (db_process db args)). content a b = truth k \<and> node_fits cenv (request (b - a)) (length (truth k)))"

inductive served ::
  "(cache_key, 'h, 's, 'd) cpu_env
    \<Rightarrow> (nat \<Rightarrow> (cache_key, 'h, 's, 'd) cpu_backend \<Rightarrow> (cache_key, 'h, 's, 'd) cpu_backend) \<Rightarrow> token_db \<Rightarrow> (cache_key \<Rightarrow> 'b list)
    \<Rightarrow> (int \<times> int \<times> cache_key) set
    \<Rightarrow> ((cache_key, 'h, 's, 'd, 'b) node, cache_key, nat, ('s, 'd) alloc_request, int, hash_val) engine \<Rightarrow> bool"
  for cenv others db truth where
  start: "\<lbrakk>mem_reachable (mem_env_of cenv) {} m; t_objs m = []; get_cache_policy name = Inr pol; en_sm en = Some (cpu_sm cenv others);
    en_lookup_pins en = [];
    en_world en = \<lparr> nd_cpu = cpu_start m pol True layerwise blending, nd_bytes = bytes, nd_now = now, nd_received = [] \<rparr>\<rbrakk>
    \<Longrightarrow> served cenv others db truth {} en"
| tick: "served cenv others db truth asked en \<Longrightarrow> served cenv others db truth asked (en\<lparr>en_world := (en_world en)\<lparr>nd_now := now\<rparr>\<rparr>)"
| store: "\<lbrakk>served cenv others db truth asked en; gpu_honest cenv db truth request content args\<rbrakk>
    \<Longrightarrow> served cenv others db truth asked (fst (store (node_env db kv_events request content) args en))"
| retrieve: "served cenv others db truth asked en \<Longrightarrow>
    served cenv others db truth
      (asked \<union> set (fst (db_process db \<lparr> ta_tokens = Some tokens, ta_hashes = None, ta_offsets = None, ta_mask = msk \<rparr>)))
      (fst (retrieve (node_env db kv_events request content) (cpu_obj_ops cenv) False tokens msk req_id en))"
| lookup: "served cenv others db truth asked en \<Longrightarrow>
    served cenv others db truth asked (fst (lookup (node_env db kv_events request content) args search_range lookup_id pin en))"
| unpin: "served cenv others db truth asked en \<Longrightarrow> served cenv others db truth asked (fst (lookup_unpin req en))"
| clear: "served cenv others db truth asked en \<Longrightarrow>
    served cenv others db truth asked (fst (en_clear (node_env db kv_events request content) tokens locations en))"

definition served_ok ::
  "(cache_key, 'h, 's, 'd) cpu_env
    \<Rightarrow> (nat \<Rightarrow> (cache_key, 'h, 's, 'd) cpu_backend \<Rightarrow> (cache_key, 'h, 's, 'd) cpu_backend) \<Rightarrow> (cache_key \<Rightarrow> 'b list)
    \<Rightarrow> (int \<times> int \<times> cache_key) set
    \<Rightarrow> ((cache_key, 'h, 's, 'd, 'b) node, cache_key, nat, ('s, 'd) alloc_request, int, hash_val) engine \<Rightarrow> bool" where
  "served_ok cenv others truth asked en \<longleftrightarrow> en_sm en = Some (cpu_sm cenv others) \<and>
     pins_ok (the (en_sm en)) (en_lookup_pins en) \<and>
     (\<exists>log held. node_inv truth log held (en_world en) \<and> set log \<subseteq> (\<lambda>(a, b, k). (a, b, truth k)) ` asked)"

lemma served_okI:
  assumes "en_sm en = Some (cpu_sm cenv others)" and "pins_ok (the (en_sm en)) (en_lookup_pins en)"
    and "node_inv truth log held (en_world en)" and "set log \<subseteq> (\<lambda>(a, b, k). (a, b, truth k)) ` asked"
  shows "served_ok cenv others truth asked en"
  using assms unfolding served_ok_def by blast

lemma served_inv:
  fixes env :: "(cache_key, 'h, 's, 'd) cpu_env" and truth :: "cache_key \<Rightarrow> 'b list"
  assumes c: "cpu_backend_env env" and "served env others db truth asked en"
  shows "served_ok env others truth asked en"
  using assms(2)
proof (induction rule: served.induct)
  case (start m name pol en layerwise blending bytes now)
  have m: "mem_inv m" by (rule tensor_env.mem_reachable_inv[OF cpu_backend_env.tensor[OF c] start(1)])
  have "node_inv truth [] [] (en_world en)"
    unfolding start(6) by (rule empty_node_inv[OF m start(2) get_cache_policy_inv[OF start(3)]])
  then show ?case using start(4,5) by (intro served_okI[where log = "[]"]) (simp_all add: pins_ok_def)
next
  case (tick asked en now)
  then show ?case by (auto simp: served_ok_def node_inv_def node_ok_def obj_data_def)
next
  case (store asked en request content args kv_events)
  note E = node_upkeep[OF c, where others = others and truth = truth and db = db and kv_events = kv_events
      and request = request and content = content]
  note E' = kv_upkeep.axioms(1)[OF E]
  obtain log held where I: "node_inv truth log held (en_world en)" "set log \<subseteq> (\<lambda>(a, b, k). (a, b, truth k)) ` asked"
    "en_sm en = Some (cpu_sm env others)" "pins_ok (the (en_sm en)) (en_lookup_pins en)"
    using store.IH unfolding served_ok_def by blast
  let ?env = "node_env db kv_events request content
    :: ((cache_key, 'h, 's, 'd, 'b) node, cache_key, nat, ('s, 'd) alloc_request, int, hash_val) engine_env"
  have st: "list_all (kv_engine.storable truth (node_fits env) ?env content) (fst (ee_process ?env args))"
    unfolding list_all_iff
  proof
    fix x assume "x \<in> set (fst (ee_process ?env args))"
    then show "kv_engine.storable truth (node_fits env) ?env content x"
      using store.hyps(2) unfolding kv_engine.storable_def[OF E'] gpu_honest_def by (auto simp: node_env_def)
  qed
  show ?case using kv_upkeep.store_any[OF E I(1,3) st] I(2,3,4) by (auto intro: served_okI)
next
  case (retrieve asked en tokens msk kv_events request content req_id)
  note E = node_upkeep[OF c, where others = others and truth = truth and db = db and kv_events = kv_events
      and request = request and content = content]
  let ?new = "set (fst (db_process db \<lparr> ta_tokens = Some tokens, ta_hashes = None, ta_offsets = None, ta_mask = msk \<rparr>))"
  obtain log held where I: "node_inv truth log held (en_world en)" "set log \<subseteq> (\<lambda>(a, b, k). (a, b, truth k)) ` asked"
    "en_sm en = Some (cpu_sm env others)" "pins_ok (the (en_sm en)) (en_lookup_pins en)"
    using retrieve.IH unfolding served_ok_def by blast
  have w: "sm_ops (cpu_sm env others) = cpu_obj_ops env" "ee_process (node_env db kv_events request content) = db_process db"
    by (simp_all add: cpu_sm_def node_env_def)
  obtain s' r new held' where R: "retrieve (node_env db kv_events request content) (cpu_obj_ops env) False tokens msk req_id en = (en\<lparr>en_world := s'\<rparr>, r)"
    "node_inv truth (log @ new) held' s'" "set new \<subseteq> (\<lambda>(a, b, k). (a, b, truth k)) ` ?new"
    using kv_upkeep.retrieve_any[OF E I(1,3) I(4)[unfolded I(3) option.sel], of tokens msk req_id] unfolding w by blast
  have sub: "set (log @ new) \<subseteq> (\<lambda>(a, b, k). (a, b, truth k)) ` (asked \<union> ?new)"
    unfolding set_append image_Un using I(2) R(3) by blast
  have N: "node_inv truth (log @ new) held' (en_world (en\<lparr>en_world := s'\<rparr>))" using R(2) by simp
  show ?case unfolding R(1) fst_conv using I(3,4) by (intro served_okI[OF _ _ N sub]) simp_all
next
  case (lookup asked en kv_events request content args search_range lookup_id pin)
  note E = node_upkeep[OF c, where others = others and truth = truth and db = db and kv_events = kv_events
      and request = request and content = content]
  obtain log held where I: "node_inv truth log held (en_world en)" "set log \<subseteq> (\<lambda>(a, b, k). (a, b, truth k)) ` asked"
    "en_sm en = Some (cpu_sm env others)" "pins_ok (the (en_sm en)) (en_lookup_pins en)"
    using lookup.IH unfolding served_ok_def by blast
  show ?case using kv_upkeep.lookup_keeps[OF E I(1,3) I(4)[unfolded I(3) option.sel], of args search_range lookup_id pin] I(2) by (auto intro: served_okI)
next
  case (unpin asked en req)
  note E = node_upkeep[OF c, where others = others and truth = truth and db = db and kv_events = False
      and request = undefined and content = undefined]
  obtain log held where I: "node_inv truth log held (en_world en)" "set log \<subseteq> (\<lambda>(a, b, k). (a, b, truth k)) ` asked"
    "en_sm en = Some (cpu_sm env others)" "pins_ok (the (en_sm en)) (en_lookup_pins en)"
    using unpin.IH unfolding served_ok_def by blast
  show ?case using kv_upkeep.lookup_unpin_keeps[OF E I(1,3) I(4)[unfolded I(3) option.sel], of req] I(2) by (auto intro: served_okI)
next
  case (clear asked en kv_events request content tokens locations)
  note E = node_upkeep[OF c, where others = others and truth = truth and db = db and kv_events = kv_events
      and request = request and content = content]
  obtain log held where I: "node_inv truth log held (en_world en)" "set log \<subseteq> (\<lambda>(a, b, k). (a, b, truth k)) ` asked"
    "en_sm en = Some (cpu_sm env others)" "pins_ok (the (en_sm en)) (en_lookup_pins en)"
    using clear.IH unfolding served_ok_def by blast
  show ?case using kv_upkeep.clear_keeps_engine[OF E I(1,3) I(4)[unfolded I(3) option.sel], of tokens locations] I(2) by (auto intro: served_okI)
qed

text \<open>
  C3: whatever requests came before, in whatever order, with pins left over, lookups by ids that were reused,
  objects evicted or cleared in between and allocations that failed, every cached key has a live object with the
  bytes that belong to the key, and every chunk that was ever handed to the GPU is a chunk of a retrieve with
  the bytes of its key: no other request's data and no overwritten buffer.
\<close>

theorem cache_serves_what_belongs_to_the_key:
  assumes "sl_spec (mem_env_of cenv)" and "chunk_spec (mem_env_of cenv)" and "sorted_dict (ce_items cenv)"
    and "served cenv others db truth asked en"
  shows "(\<forall>k i. map_of (cb_hot (nd_cpu (en_world en))) k = Some i \<longrightarrow>
      mo_valid (hot_obj (nd_cpu (en_world en)) i) \<and> obj_data (en_world en) i = truth k) \<and>
    set (nd_received (en_world en)) \<subseteq> (\<lambda>(a, b, k). (a, b, truth k)) ` asked"
proof
  obtain log held where I: "node_inv truth log held (en_world en)" "set log \<subseteq> (\<lambda>(a, b, k). (a, b, truth k)) ` asked"
    using served_inv[OF cpu_backend_envI[OF assms(1-3)] assms(4)] unfolding served_ok_def by blast
  then show "\<forall>k i. map_of (cb_hot (nd_cpu (en_world en))) k = Some i \<longrightarrow>
      mo_valid (hot_obj (nd_cpu (en_world en)) i) \<and> obj_data (en_world en) i = truth k"
    using cached_valid(2) by (fastforce simp: node_inv_def node_ok_def)
  show "set (nd_received (en_world en)) \<subseteq> (\<lambda>(a, b, k). (a, b, truth k)) ` asked" using I by (simp add: node_inv_def)
qed

definition demo_truth :: "cache_key \<Rightarrow> int list" where
  "demo_truth k = (if k = db_key demo_db [1, 2, 3] 0 then demo_content 0 2 else demo_content 2 3)"

definition demo_tokens :: "(int, hash_val) token_args" where
  "demo_tokens = \<lparr> ta_tokens = Some [1, 2, 3], ta_hashes = None, ta_offsets = None, ta_mask = None \<rparr>"

lemma demo_chunks:
  "db_process demo_db demo_tokens = ([(0, 2, db_key demo_db [1, 2, 3] 0), (2, 3, db_key demo_db [1, 2, 3] 1)], None)"
proof -
  have n: "chunk_count demo_db (length [1, 2, 3::int]) = 2" by (simp add: chunk_count_def demo_db_ok Let_def)
  have "[0..<2] = [0, 1::nat]" by (simp add: upt_rec)
  then show ?thesis
    unfolding demo_tokens_def db_process_eq[OF demo_db_ok(2) demo_db_ok(1) zero_less_numeral] n by (simp add: tile_def)
qed

lemma demo_served_start: "served key_cpu_env (\<lambda>n cb. cb) demo_db demo_truth {} demo_engine"
proof (rule served.start)
  have "mem_reachable ref_mem_env {} (mem_init (t_init ref_mem_env 16384 4096 None))"
    using mem_reachable.start[of 16384 ref_mem_env 12] by simp
  then show "mem_reachable (mem_env_of key_cpu_env) {} (mem_init (t_init ref_mem_env 16384 4096 None))"
    by (simp add: key_cpu_env_def ref_alloc_env_mem)
  show "t_objs (mem_init (t_init ref_mem_env 16384 4096 None)) = []" by (simp add: mem_init_def t_init_def talloc.defs)
  show "get_cache_policy ''FIFO'' = (Inr FIFO :: (cache_key, hash_val) policy result)" by code_simp
qed (simp_all add: demo_engine_def demo_node_def)

lemma demo_honest: "gpu_honest key_cpu_env demo_db demo_truth demo_request demo_content demo_tokens"
  using demo_fits[of 2] demo_fits[of 1] demo_db_keys unfolding gpu_honest_def demo_chunks
  by (auto simp: demo_truth_def demo_content_def)

text \<open>A store and a retrieve of three tokens.\<close>

definition demo_served :: "((cache_key, hash_val, int list, int, int) node, cache_key, nat, (int list, int) alloc_request, int, hash_val) engine" where
  "demo_served = fst (retrieve (node_env demo_db False demo_request demo_content) (cpu_obj_ops key_cpu_env) False [1, 2, 3] None None
     (fst (store (node_env demo_db False demo_request demo_content) demo_tokens demo_engine)))"

theorem cache_serves_what_belongs_to_the_key_witness:
  "set (nd_received (en_world demo_served)) \<subseteq>
     {(0, 2, demo_content 0 2), (2, 3, demo_content 2 3)}"
proof -
  have "served key_cpu_env (\<lambda>n cb. cb) demo_db demo_truth ({} \<union> set (fst (db_process demo_db demo_tokens))) demo_served"
    unfolding demo_served_def demo_tokens_def
    by (rule served.retrieve, rule served.store, rule demo_served_start) (rule demo_honest[unfolded demo_tokens_def])
  from cache_serves_what_belongs_to_the_key[OF key_cpu_env_specs this]
  show ?thesis using demo_db_keys unfolding demo_chunks by (auto simp: demo_truth_def)
qed

end
