(* ===== verification/Locks.thy ===== *)
theory Locks
  imports Prelude
begin

text \<open>
  The locks of the controller (\<open>v1/cache_controller/locks.py\<close>). The fields of the read-write lock are
  guarded by the lock of its condition variable, so what a thread does between two waits is one step.
  A thread that waits is asleep until a \<open>notify_all\<close>, the end of its time-out or a spurious wake-up,
  and then runs the loop of its call again. The fast lock is a mutex with a non-blocking first try.
\<close>

section \<open>The read-write lock\<close>

record rw_lock =
  rw_readers :: int
  rw_writers_waiting :: int
  rw_writer_active :: bool

definition rw_init :: rw_lock where
  "rw_init = \<lparr> rw_readers = 0, rw_writers_waiting = 0, rw_writer_active = False \<rparr>"

text \<open>One run of a loop: the lock is taken, the call gives up, or the thread waits. A deadline is
  \<open>None\<close> for a call without a time-out.\<close>

datatype lock_try = Acquired | Gave_up | Waits

definition past_deadline :: "int option \<Rightarrow> int \<Rightarrow> bool" where
  "past_deadline deadline now = (case deadline of None \<Rightarrow> False | Some d \<Rightarrow> d \<le> now)"

definition read_loop :: "int option \<Rightarrow> int \<Rightarrow> rw_lock \<Rightarrow> rw_lock \<times> lock_try" where
  "read_loop deadline now l =
     (if rw_writer_active l \<or> 0 < rw_writers_waiting l
      then (l, if past_deadline deadline now then Gave_up else Waits)
      else (l\<lparr>rw_readers := rw_readers l + 1\<rparr>, Acquired))"

text \<open>Every way out of \<open>acquire_write\<close> takes the thread off the count of waiting writers.\<close>

definition write_loop :: "int option \<Rightarrow> int \<Rightarrow> rw_lock \<Rightarrow> rw_lock \<times> lock_try" where
  "write_loop deadline now l =
     (if 0 < rw_readers l \<or> rw_writer_active l
      then (if past_deadline deadline now then (l\<lparr>rw_writers_waiting := rw_writers_waiting l - 1\<rparr>, Gave_up) else (l, Waits))
      else (l\<lparr>rw_writer_active := True, rw_writers_waiting := rw_writers_waiting l - 1\<rparr>, Acquired))"

definition acquire_read :: "int option \<Rightarrow> int \<Rightarrow> rw_lock \<Rightarrow> rw_lock \<times> lock_try" where
  "acquire_read timeout now = read_loop (map_option (\<lambda>t. now + t) timeout) now"

definition acquire_write :: "int option \<Rightarrow> int \<Rightarrow> rw_lock \<Rightarrow> rw_lock \<times> lock_try" where
  "acquire_write timeout now l =
     write_loop (map_option (\<lambda>t. now + t) timeout) now (l\<lparr>rw_writers_waiting := rw_writers_waiting l + 1\<rparr>)"

text \<open>The releases, and whether they notify.\<close>

definition release_read :: "rw_lock \<Rightarrow> rw_lock \<times> bool" where
  "release_read l = (l\<lparr>rw_readers := rw_readers l - 1\<rparr>, rw_readers l - 1 = 0)"

definition release_write :: "rw_lock \<Rightarrow> rw_lock \<times> bool" where
  "release_write l = (l\<lparr>rw_writer_active := False\<rparr>, True)"

section \<open>Threads\<close>

text \<open>A waiting thread has its deadline and a flag that is set while it is asleep.\<close>

datatype thread = Outside | Wait_read "int option" bool | Reading | Wait_write "int option" bool | Writing

record 't rw_system =
  sy_lock :: rw_lock
  sy_threads :: "'t \<Rightarrow> thread"

fun awake :: "thread \<Rightarrow> thread" where
  "awake (Wait_read d z) = Wait_read d False"
| "awake (Wait_write d z) = Wait_write d False"
| "awake th = th"

definition notify_if :: "bool \<Rightarrow> ('t \<Rightarrow> thread) \<Rightarrow> 't \<Rightarrow> thread" where
  "notify_if p ths = (if p then awake \<circ> ths else ths)"

definition after_read :: "int option \<Rightarrow> lock_try \<Rightarrow> thread" where
  "after_read deadline out = (case out of Acquired \<Rightarrow> Reading | Gave_up \<Rightarrow> Outside | Waits \<Rightarrow> Wait_read deadline True)"

definition after_write :: "int option \<Rightarrow> lock_try \<Rightarrow> thread" where
  "after_write deadline out = (case out of Acquired \<Rightarrow> Writing | Gave_up \<Rightarrow> Outside | Waits \<Rightarrow> Wait_write deadline True)"

inductive rw_step :: "'t rw_system \<Rightarrow> 't rw_system \<Rightarrow> bool" where
  call_read: "sy_threads sy t = Outside \<Longrightarrow> acquire_read timeout now (sy_lock sy) = (l, out) \<Longrightarrow>
    rw_step sy \<lparr> sy_lock = l, sy_threads = (sy_threads sy)(t := after_read (map_option (\<lambda>d. now + d) timeout) out) \<rparr>"
| again_read: "sy_threads sy t = Wait_read deadline False \<Longrightarrow> read_loop deadline now (sy_lock sy) = (l, out) \<Longrightarrow>
    rw_step sy \<lparr> sy_lock = l, sy_threads = (sy_threads sy)(t := after_read deadline out) \<rparr>"
| done_read: "sy_threads sy t = Reading \<Longrightarrow> release_read (sy_lock sy) = (l, ring) \<Longrightarrow>
    rw_step sy \<lparr> sy_lock = l, sy_threads = notify_if ring ((sy_threads sy)(t := Outside)) \<rparr>"
| call_write: "sy_threads sy t = Outside \<Longrightarrow> acquire_write timeout now (sy_lock sy) = (l, out) \<Longrightarrow>
    rw_step sy \<lparr> sy_lock = l, sy_threads = (sy_threads sy)(t := after_write (map_option (\<lambda>d. now + d) timeout) out) \<rparr>"
| again_write: "sy_threads sy t = Wait_write deadline False \<Longrightarrow> write_loop deadline now (sy_lock sy) = (l, out) \<Longrightarrow>
    rw_step sy \<lparr> sy_lock = l, sy_threads = (sy_threads sy)(t := after_write deadline out) \<rparr>"
| done_write: "sy_threads sy t = Writing \<Longrightarrow> release_write (sy_lock sy) = (l, ring) \<Longrightarrow>
    rw_step sy \<lparr> sy_lock = l, sy_threads = notify_if ring ((sy_threads sy)(t := Outside)) \<rparr>"
| wake: "rw_step sy (sy\<lparr>sy_threads := (sy_threads sy)(t := awake (sy_threads sy t))\<rparr>)"

inductive rw_reachable :: "'t rw_system \<Rightarrow> bool" where
  start: "rw_reachable \<lparr> sy_lock = rw_init, sy_threads = (\<lambda>_. Outside) \<rparr>"
| step: "rw_reachable sy \<Longrightarrow> rw_step sy sy' \<Longrightarrow> rw_reachable sy'"

section \<open>The invariant\<close>

text \<open>The counters count the threads, and a thread that is asleep can count on somebody to wake it: a
  thread that holds the lock, or, for a reader, a writer that is awake and about to take it.\<close>

fun reads :: "thread \<Rightarrow> bool" where
  "reads Reading = True"
| "reads _ = False"

fun writes :: "thread \<Rightarrow> bool" where
  "writes Writing = True"
| "writes _ = False"

fun waits_write :: "thread \<Rightarrow> bool" where
  "waits_write (Wait_write d z) = True"
| "waits_write _ = False"

definition counted :: "('t \<Rightarrow> thread) \<Rightarrow> (thread \<Rightarrow> bool) \<Rightarrow> int \<Rightarrow> bool" where
  "counted ths P n \<longleftrightarrow> finite {t. P (ths t)} \<and> n = int (card {t. P (ths t)})"

definition counts_right :: "rw_lock \<Rightarrow> ('t \<Rightarrow> thread) \<Rightarrow> bool" where
  "counts_right l ths \<longleftrightarrow> counted ths reads (rw_readers l) \<and> counted ths waits_write (rw_writers_waiting l) \<and>
     counted ths writes (of_bool (rw_writer_active l)) \<and> (rw_writer_active l \<longrightarrow> rw_readers l = 0)"

definition sleepers_right :: "rw_lock \<Rightarrow> ('t \<Rightarrow> thread) \<Rightarrow> bool" where
  "sleepers_right l ths \<longleftrightarrow>
     (\<forall>t d. ths t = Wait_write d True \<longrightarrow> 0 < rw_readers l \<or> rw_writer_active l) \<and>
     (\<forall>t d. ths t = Wait_read d True \<longrightarrow> 0 < rw_readers l \<or> rw_writer_active l \<or> (\<exists>t d. ths t = Wait_write d False))"

lemma sleepers_held: "0 < rw_readers l \<or> rw_writer_active l \<Longrightarrow> sleepers_right l ths"
  by (auto simp: sleepers_right_def)

lemma counted_upd:
  assumes "counted ths P n"
  shows "counted (ths(t := th)) P (n + of_bool (P th) - of_bool (P (ths t)))"
proof -
  let ?S = "{x. P (ths x)}"
  have S: "finite ?S" "n = int (card ?S)" using assms by (simp_all add: counted_def)
  have "{x. P ((ths(t := th)) x)} = (if P th then insert t ?S else ?S - {t})" by auto
  moreover have "int (card (insert t ?S)) = int (card ?S) + 1 - of_bool (P (ths t))"
    using S(1) by (cases "P (ths t)") (simp_all add: insert_absorb)
  moreover have "int (card (?S - {t})) = int (card ?S) - of_bool (P (ths t))"
    using S(1) card_Suc_Diff1[OF S(1), of t] by (cases "P (ths t)") auto
  ultimately show ?thesis using S by (simp add: counted_def)
qed

lemma counted_positive: "counted ths P n \<Longrightarrow> P (ths t) \<Longrightarrow> 0 < n"
  unfolding counted_def by (metis card_gt_0_iff empty_iff mem_Collect_eq of_nat_0_less_iff)

lemma counted_some: "counted ths P n \<Longrightarrow> 0 < n \<Longrightarrow> \<exists>t. P (ths t)"
  unfolding counted_def by (rule ccontr) simp

lemma awake_kind [simp]: "reads (awake th) = reads th" "writes (awake th) = writes th" "waits_write (awake th) = waits_write th"
  "awake th \<noteq> Wait_read d True" "awake th \<noteq> Wait_write d True"
  by (cases th; simp)+

lemma counts_right_awake: "counts_right l (\<lambda>t. if p t then awake (ths t) else ths t) = counts_right l ths"
proof -
  have "counted (\<lambda>t. if p t then awake (ths t) else ths t) P n = counted ths P n" if h: "\<And>th. P (awake th) = P th" for P n
  proof -
    have "P (if p t then awake (ths t) else ths t) = P (ths t)" for t using h by simp
    then show ?thesis unfolding counted_def by simp
  qed
  then show ?thesis by (simp add: counts_right_def)
qed

lemma counts_right_notify [simp]: "counts_right l (notify_if ring ths) = counts_right l ths"
  using counts_right_awake[of l "\<lambda>_. ring" ths] by (cases ring) (simp_all add: notify_if_def comp_def)

lemma counts_right_upd:
  assumes "counts_right l ths"
    and "rw_readers l' = rw_readers l + of_bool (reads th) - of_bool (reads (ths t))"
    and "rw_writers_waiting l' = rw_writers_waiting l + of_bool (waits_write th) - of_bool (waits_write (ths t))"
    and "of_bool (rw_writer_active l') = of_bool (rw_writer_active l) + (of_bool (writes th) :: int) - of_bool (writes (ths t))"
    and "rw_writer_active l' \<longrightarrow> rw_readers l' = 0"
  shows "counts_right l' (ths(t := th))"
proof -
  have c: "counted ths reads (rw_readers l)" "counted ths waits_write (rw_writers_waiting l)" "counted ths writes (of_bool (rw_writer_active l))"
    using assms(1) by (simp_all add: counts_right_def)
  show ?thesis unfolding counts_right_def assms(2-4) using counted_upd[OF c(1)] counted_upd[OF c(2)] counted_upd[OF c(3)] assms(5) assms(2) by simp
qed

lemma counts_rightD:
  assumes "counts_right l ths"
  shows "0 \<le> rw_readers l" and "0 \<le> rw_writers_waiting l" and "rw_writer_active l \<Longrightarrow> rw_readers l = 0"
    and "reads (ths t) \<Longrightarrow> 0 < rw_readers l" and "writes (ths t) \<Longrightarrow> rw_writer_active l" and "waits_write (ths t) \<Longrightarrow> 0 < rw_writers_waiting l"
proof -
  have c: "counted ths reads (rw_readers l)" "counted ths waits_write (rw_writers_waiting l)" "counted ths writes (of_bool (rw_writer_active l))"
    using assms by (simp_all add: counts_right_def)
  show "0 \<le> rw_readers l" "0 \<le> rw_writers_waiting l" using c by (simp_all add: counted_def)
  show "rw_writer_active l \<Longrightarrow> rw_readers l = 0" using assms by (simp add: counts_right_def)
  show "reads (ths t) \<Longrightarrow> 0 < rw_readers l" "waits_write (ths t) \<Longrightarrow> 0 < rw_writers_waiting l"
    using counted_positive[OF c(1)] counted_positive[OF c(2)] by blast+
  show "writes (ths t) \<Longrightarrow> rw_writer_active l" using counted_positive[OF c(3), of t] by (cases "rw_writer_active l") simp_all
qed

section \<open>The steps keep it\<close>

lemma read_loop_keeps:
  assumes "counts_right l ths" and "sleepers_right l ths" and "\<not> reads (ths t)" "\<not> writes (ths t)" "\<not> waits_write (ths t)"
    and r: "read_loop deadline now l = (l', out)"
  shows "counts_right l' (ths(t := after_read deadline out)) \<and> sleepers_right l' (ths(t := after_read deadline out))"
proof (cases "rw_writer_active l \<or> 0 < rw_writers_waiting l")
  case True
  then have l: "l' = l" and out: "out = Gave_up \<or> out = Waits" using r by (auto simp: read_loop_def split: if_splits)
  have "counts_right l (ths(t := after_read deadline out))"
    using counts_rightD(3)[OF assms(1)] assms(3-5) out by (intro counts_right_upd[OF assms(1)]) (auto simp: after_read_def)
  moreover have "sleepers_right l (ths(t := after_read deadline out))"
  proof -
    have awake: "\<exists>x d. (ths(t := after_read deadline out)) x = Wait_write d False"
      if h: "\<exists>x d. ths x = Wait_write d False"
      using h assms(5) by (metis fun_upd_apply waits_write.simps(1))
    have "0 < rw_readers l \<or> rw_writer_active l \<or> (\<exists>x d. ths x = Wait_write d False)"
    proof (cases "rw_writer_active l")
      case False
      then have "0 < rw_writers_waiting l" using True by simp
      then obtain x where "waits_write (ths x)" using assms(1) counted_some unfolding counts_right_def by blast
      then obtain d z where "ths x = Wait_write d z" by (cases "ths x") auto
      then show ?thesis using assms(2) by (cases z) (auto simp: sleepers_right_def)
    qed simp
    then consider "0 < rw_readers l \<or> rw_writer_active l" | "\<exists>x d. (ths(t := after_read deadline out)) x = Wait_write d False"
      using awake by blast
    then show ?thesis
    proof cases
      case 2
      have "0 < rw_readers l \<or> rw_writer_active l" if h: "(ths(t := after_read deadline out)) x = Wait_write d True" for x d
        using h assms(2) out by (cases "x = t") (auto simp: sleepers_right_def after_read_def)
      with 2 show ?thesis by (simp add: sleepers_right_def del: fun_upd_apply)
    qed (rule sleepers_held)
  qed
  ultimately show ?thesis using l by simp
next
  case False
  then have l: "l' = l\<lparr>rw_readers := rw_readers l + 1\<rparr>" "out = Acquired" using r by (auto simp: read_loop_def)
  have "counts_right l' (ths(t := Reading))"
    using False assms(3-5) l by (intro counts_right_upd[OF assms(1)]) auto
  moreover have "0 < rw_readers l'" using l counts_rightD(1)[OF assms(1)] by simp
  ultimately show ?thesis using l(2) by (simp add: after_read_def sleepers_right_def)
qed

lemma write_loop_keeps:
  assumes "counts_right l ths" and "sleepers_right l ths" and "\<And>x d. ths x = Wait_read d True \<Longrightarrow> 0 < rw_readers l \<or> rw_writer_active l \<or>
      (\<exists>x d. ths x = Wait_write d False)"
    and t: "ths t = Wait_write d0 False" and r: "write_loop deadline now l = (l', out)"
  shows "counts_right l' (ths(t := after_write deadline out)) \<and> sleepers_right l' (ths(t := after_write deadline out))"
proof (cases "0 < rw_readers l \<or> rw_writer_active l")
  case True
  then consider "out = Waits" "l' = l" | "out = Gave_up" "l' = l\<lparr>rw_writers_waiting := rw_writers_waiting l - 1\<rparr>"
    using r by (auto simp: write_loop_def split: if_splits)
  then show ?thesis
  proof cases
    case 1
    have "counts_right l (ths(t := Wait_write deadline True))"
      using counts_rightD(3)[OF assms(1)] t by (intro counts_right_upd[OF assms(1)]) auto
    then show ?thesis using sleepers_held[OF True] 1 by (simp add: after_write_def)
  next
    case 2
    have "counts_right l' (ths(t := Outside))"
      using counts_rightD(3)[OF assms(1)] t 2(2) by (intro counts_right_upd[OF assms(1)]) auto
    moreover have "sleepers_right l' (ths(t := Outside))" using True 2(2) by (intro sleepers_held) simp
    ultimately show ?thesis using 2(1) by (simp add: after_write_def)
  qed
next
  case False
  then have l: "l' = l\<lparr>rw_writer_active := True, rw_writers_waiting := rw_writers_waiting l - 1\<rparr>" "out = Acquired"
    using r by (auto simp: write_loop_def)
  have "counts_right l' (ths(t := Writing))"
    using False counts_rightD(1)[OF assms(1)] t l by (intro counts_right_upd[OF assms(1)]) auto
  then show ?thesis using l by (simp add: after_write_def sleepers_right_def)
qed

lemma enter_write:
  fixes deadline :: "int option"
  assumes "counts_right l ths" and "sleepers_right l ths" and "ths t = Outside"
  defines "l' \<equiv> l\<lparr>rw_writers_waiting := rw_writers_waiting l + 1\<rparr>" and "ths' \<equiv> ths(t := Wait_write deadline False)"
  shows "counts_right l' ths'" and "sleepers_right l' ths'"
proof -
  show "counts_right l' ths'" unfolding l'_def ths'_def
    using counts_rightD(3)[OF assms(1)] assms(3) by (intro counts_right_upd[OF assms(1)]) auto
  show "sleepers_right l' ths'" using assms(2) unfolding sleepers_right_def l'_def ths'_def by (auto split: if_splits)
qed

lemma notified_sleepers: "sleepers_right l (awake \<circ> ths)"
  by (simp add: sleepers_right_def)

lemma rw_step_keeps:
  assumes "rw_step sy sy'" and "counts_right (sy_lock sy) (sy_threads sy)" and "sleepers_right (sy_lock sy) (sy_threads sy)"
  shows "counts_right (sy_lock sy') (sy_threads sy') \<and> sleepers_right (sy_lock sy') (sy_threads sy')"
  using assms
proof (induction rule: rw_step.induct)
  case (call_read sy t timeout now l out)
  then show ?case unfolding rw_system.select_convs by (intro read_loop_keeps) (auto simp: acquire_read_def)
next
  case (again_read sy t deadline now l out)
  then show ?case unfolding rw_system.select_convs by (intro read_loop_keeps) auto
next
  case (done_read sy t l ring)
  then have l: "l = (sy_lock sy)\<lparr>rw_readers := rw_readers (sy_lock sy) - 1\<rparr>" "ring = (rw_readers (sy_lock sy) - 1 = 0)"
    by (simp_all add: release_read_def)
  have p: "0 < rw_readers (sy_lock sy)" using counts_rightD(4)[OF done_read.prems(1), of t] done_read.hyps(1) by simp
  have "counts_right l ((sy_threads sy)(t := Outside))"
    using counts_rightD(3)[OF done_read.prems(1)] p done_read.hyps(1) l by (intro counts_right_upd[OF done_read.prems(1)]) auto
  moreover have "sleepers_right l (notify_if ring ((sy_threads sy)(t := Outside)))"
  proof (cases ring)
    case False
    then have "0 < rw_readers l" using p l by simp
    then show ?thesis by (simp add: sleepers_right_def)
  qed (simp add: notify_if_def notified_sleepers)
  ultimately show ?case by simp
next
  case (call_write sy t timeout now l out)
  let ?d = "map_option (\<lambda>d. now + d) timeout"
  note E = enter_write[OF call_write.prems call_write.hyps(1), of ?d]
  have "counts_right l ((sy_threads sy)(t := Wait_write ?d False, t := after_write ?d out)) \<and>
      sleepers_right l ((sy_threads sy)(t := Wait_write ?d False, t := after_write ?d out))"
    by (rule write_loop_keeps[OF E]) (use call_write.hyps(2) in \<open>auto simp: acquire_write_def\<close>)
  then show ?case unfolding rw_system.select_convs fun_upd_upd .
next
  case (again_write sy t deadline now l out)
  have "counts_right l ((sy_threads sy)(t := after_write deadline out)) \<and> sleepers_right l ((sy_threads sy)(t := after_write deadline out))"
    by (rule write_loop_keeps[OF again_write.prems _ again_write.hyps]) (use again_write.hyps(1) in blast)
  then show ?case unfolding rw_system.select_convs .
next
  case (done_write sy t l ring)
  then have l: "l = (sy_lock sy)\<lparr>rw_writer_active := False\<rparr>" "ring" by (simp_all add: release_write_def)
  have p: "rw_writer_active (sy_lock sy)" using counts_rightD(5)[OF done_write.prems(1), of t] done_write.hyps(1) by simp
  have "counts_right l ((sy_threads sy)(t := Outside))"
    using p done_write.hyps(1) l by (intro counts_right_upd[OF done_write.prems(1)]) auto
  moreover have "sleepers_right l (notify_if ring ((sy_threads sy)(t := Outside)))" using l(2) by (simp add: notify_if_def notified_sleepers)
  ultimately show ?case unfolding rw_system.select_convs by simp
next
  case (wake sy t)
  let ?ths = "(sy_threads sy)(t := awake (sy_threads sy t))"
  have e: "?ths = (\<lambda>x. if x = t then awake (sy_threads sy x) else sy_threads sy x)" by auto
  have "counts_right (sy_lock sy) ?ths" unfolding e using wake.prems(1) by (simp only: counts_right_awake)
  moreover have "\<exists>x d. ?ths x = Wait_write d False" if h: "sy_threads sy y = Wait_write d False" for y d
    using h by (cases "y = t") (auto intro!: exI[of _ y])
  then have "sleepers_right (sy_lock sy) ?ths" using wake.prems(2) unfolding sleepers_right_def by (auto split: if_splits) metis
  moreover have "sy_lock (sy\<lparr>sy_threads := ?ths\<rparr>) = sy_lock sy" "sy_threads (sy\<lparr>sy_threads := ?ths\<rparr>) = ?ths"
    by simp_all
  ultimately show ?case by (simp only:)
qed

lemma rw_reachable_keeps: "rw_reachable sy \<Longrightarrow> counts_right (sy_lock sy) (sy_threads sy) \<and> sleepers_right (sy_lock sy) (sy_threads sy)"
proof (induction rule: rw_reachable.induct)
  case start
  show ?case by (simp add: counts_right_def sleepers_right_def counted_def rw_init_def)
next
  case (step sy sy')
  then show ?case using rw_step_keeps by blast
qed

section \<open>Exclusion and wake-ups\<close>

text \<open>
  C36: the read-write lock excludes and forgets nobody. In every run of any threads, with time-outs and
  spurious wake-ups, at most one thread writes and none reads meanwhile; the counters are the numbers of
  reading and of waiting writing threads; and while any thread is asleep, some thread holds the lock or a
  writer is awake: when all holders have gone and no writer is about to enter, every waiting thread has been
  notified.
\<close>

theorem rw_lock_excludes_and_wakes:
  assumes "rw_reachable sy"
  shows "(\<forall>t u. sy_threads sy t = Writing \<longrightarrow> sy_threads sy u = Writing \<longrightarrow> t = u) \<and>
    (\<forall>t u. sy_threads sy t = Writing \<longrightarrow> sy_threads sy u \<noteq> Reading) \<and>
    rw_readers (sy_lock sy) = int (card {t. sy_threads sy t = Reading}) \<and>
    rw_writers_waiting (sy_lock sy) = int (card {t. \<exists>d z. sy_threads sy t = Wait_write d z}) \<and>
    ((\<forall>t. sy_threads sy t \<notin> {Reading, Writing} \<and> (\<forall>d. sy_threads sy t \<noteq> Wait_write d False)) \<longrightarrow>
       (\<forall>t d. sy_threads sy t \<notin> {Wait_read d True, Wait_write d True}))"
proof -
  let ?l = "sy_lock sy" and ?ths = "sy_threads sy"
  have C: "counts_right ?l ?ths" and S: "sleepers_right ?l ?ths" using rw_reachable_keeps[OF assms] by simp_all
  have k: "reads th \<longleftrightarrow> th = Reading" "writes th \<longleftrightarrow> th = Writing" "waits_write th \<longleftrightarrow> (\<exists>d z. th = Wait_write d z)" for th
    by (cases th; simp)+
  have c: "counted ?ths reads (rw_readers ?l)" "counted ?ths waits_write (rw_writers_waiting ?l)" "counted ?ths writes (of_bool (rw_writer_active ?l))"
    using C by (simp_all add: counts_right_def)
  have "card {t. ?ths t = Writing} \<le> 1" and f: "finite {t. ?ths t = Writing}"
    using c(3) unfolding counted_def k by (cases "rw_writer_active ?l"; simp)+
  then have one: "t = u" if "?ths t = Writing" "?ths u = Writing" for t u
    using card_le_Suc0_iff_eq[OF f] that by auto
  have rd: "0 < rw_readers ?l \<Longrightarrow> \<exists>t. ?ths t = Reading" and wr: "rw_writer_active ?l \<Longrightarrow> \<exists>t. ?ths t = Writing"
    using counted_some[OF c(1)] counted_some[OF c(3)] unfolding k by auto
  show ?thesis
  proof (intro conjI allI impI)
    show "?ths t = Writing \<Longrightarrow> ?ths u = Writing \<Longrightarrow> t = u" for t u by (rule one)
    show "?ths t = Writing \<Longrightarrow> ?ths u \<noteq> Reading" for t u
      using counts_rightD(3,4,5)[OF C] k by (metis less_irrefl)
    show "rw_readers ?l = int (card {t. ?ths t = Reading})" "rw_writers_waiting ?l = int (card {t. \<exists>d z. ?ths t = Wait_write d z})"
      using c(1,2) unfolding counted_def k by simp_all
    fix t d
    assume "\<forall>t. ?ths t \<notin> {Reading, Writing} \<and> (\<forall>d. ?ths t \<noteq> Wait_write d False)"
    then show "?ths t \<notin> {Wait_read d True, Wait_write d True}" using S rd wr unfolding sleepers_right_def by auto
  qed
qed

text \<open>A reader enters, a writer waits for it with a time-out, a second reader waits behind the writer.\<close>

definition demo_system :: "nat rw_system" where
  "demo_system = \<lparr> sy_lock = \<lparr> rw_readers = 1, rw_writers_waiting = 1, rw_writer_active = False \<rparr>,
     sy_threads = (\<lambda>_. Outside)(0 := Reading, 1 := Wait_write (Some 5) True, 2 := Wait_read None True) \<rparr>"

lemma demo_system_reachable: "rw_reachable demo_system"
proof -
  let ?s1 = "\<lparr> sy_lock = \<lparr> rw_readers = 1, rw_writers_waiting = 0, rw_writer_active = False \<rparr>, sy_threads = (\<lambda>_::nat. Outside)(0 := Reading) \<rparr>"
  let ?s2 = "\<lparr> sy_lock = \<lparr> rw_readers = 1, rw_writers_waiting = 1, rw_writer_active = False \<rparr>,
    sy_threads = (\<lambda>_::nat. Outside)(0 := Reading, 1 := Wait_write (Some 5) True) \<rparr>"
  have "rw_reachable ?s1"
    using rw_step.call_read[of "\<lparr> sy_lock = rw_init, sy_threads = (\<lambda>_. Outside) \<rparr>" 0 None 0] rw_reachable.step[OF rw_reachable.start]
    by (simp add: acquire_read_def read_loop_def rw_init_def after_read_def)
  moreover have "rw_step ?s1 ?s2"
    using rw_step.call_write[of ?s1 1 "Some 5" 0] by (simp add: acquire_write_def write_loop_def past_deadline_def after_write_def)
  moreover have "rw_step ?s2 demo_system"
    using rw_step.call_read[of ?s2 2 None 0] by (simp add: acquire_read_def read_loop_def past_deadline_def after_read_def demo_system_def)
  ultimately show ?thesis using rw_reachable.step by blast
qed

theorem rw_lock_excludes_and_wakes_witness:
  "rw_readers (sy_lock demo_system) = int (card {t. sy_threads demo_system t = Reading}) \<and> rw_readers (sy_lock demo_system) = 1"
proof
  show "rw_readers (sy_lock demo_system) = int (card {t. sy_threads demo_system t = Reading})"
    using rw_lock_excludes_and_wakes[OF demo_system_reachable] by blast
  show "rw_readers (sy_lock demo_system) = 1" by (simp add: demo_system_def)
qed

end
