(* ===== verification/MPStorage.thy ===== *)
theory MPStorage
  imports MemoryObj CachePolicy
begin

text \<open>
  The storage manager of the multi-process server (\<open>v1/multiprocess/mp_storage_manager.py\<close>) over the
  lazily growing allocator (\<open>v1/lazy_memory_allocator.py\<close>). A client reserves objects for its keys,
  fills them and commits; other clients look keys up, which locks them for a while, and retrieve them.
  The calls take the buffer lock and the allocator lock several times, so a reservation is a sequence
  of steps that interleave with those of other threads; \<open>reserve\<close> is the sequence without
  interruption. The time does not pass within a step.
\<close>

unbundle bit_operations_syntax

declare map_of_eq_Some_iff [simp del] Some_eq_map_of_iff [simp del]

section \<open>The lazy allocator\<close>

definition pin_chunk_size :: int where "pin_chunk_size = 2 ^ 26"
definition commit_size :: int where "commit_size = 2 ^ 30"

definition align_to :: "int \<Rightarrow> int \<Rightarrow> int" where
  "align_to n align_size = (n + align_size - 1) AND (NOT (align_size - 1))"

record ('s, 'd) lazy_alloc =
  la_curr_size :: int
  la_final_size :: int
  la_mem :: "('s, 'd) mem_state"

definition lazy_init :: "('s, 'd) mem_env \<Rightarrow> int \<Rightarrow> int \<Rightarrow> int \<Rightarrow> ('s, 'd) lazy_alloc result" where
  "lazy_init env init_size final_size align_bytes =
     (let cur = align_to init_size pin_chunk_size; final = align_to final_size pin_chunk_size
      in if final < cur then Inl AssertionError
         else Inr \<lparr> la_curr_size = cur, la_final_size = final,
                    la_mem = mem_init (t_init env final align_bytes (Some cur)) \<rparr>)"

text \<open>One round of the expansion thread: chunks are pinned until a commit is full or the end is reached,
  and the new memory becomes part of the address space.\<close>

fun pin_chunks :: "nat \<Rightarrow> int \<Rightarrow> int \<Rightarrow> int" where
  "pin_chunks 0 final cur = cur"
| "pin_chunks (Suc n) final cur = (if final \<le> cur then cur else pin_chunks n final (cur + pin_chunk_size))"

definition expand_round :: "('s, 'd) mem_env \<Rightarrow> ('s, 'd) lazy_alloc \<Rightarrow> ('s, 'd) lazy_alloc" where
  "expand_round env la =
     (if la_final_size la \<le> la_curr_size la then la
      else let cur = pin_chunks (nat (commit_size div pin_chunk_size)) (la_final_size la) (la_curr_size la)
           in la\<lparr>la_curr_size := cur,
                 la_mem := (la_mem la)\<lparr>t_am := am_sbrk env (t_am (la_mem la)) (cur - la_curr_size la)\<rparr>\<rparr>)"

section \<open>Locked keys\<close>

record lock_meta =
  lm_count :: int
  lm_expire :: int

definition default_ttl :: int where "default_ttl = 300"

definition lm_lock :: "int \<Rightarrow> 'k \<Rightarrow> ('k, lock_meta) odict \<Rightarrow> ('k, lock_meta) odict" where
  "lm_lock now key locks =
     AList.update key
       (case map_of locks key of
          Some m \<Rightarrow> m\<lparr>lm_count := lm_count m + 1, lm_expire := now + default_ttl\<rparr>
        | None \<Rightarrow> \<lparr> lm_count = 1, lm_expire = now + default_ttl \<rparr>) locks"

definition lm_unlock :: "'k \<Rightarrow> ('k, lock_meta) odict \<Rightarrow> ('k, lock_meta) odict" where
  "lm_unlock key locks =
     (case map_of locks key of
        None \<Rightarrow> locks
      | Some m \<Rightarrow> (if lm_count m - 1 \<le> 0 then AList.delete key locks
                    else AList.update key (m\<lparr>lm_count := lm_count m - 1\<rparr>) locks))"

definition lm_is_locked :: "int \<Rightarrow> 'k \<Rightarrow> ('k, lock_meta) odict \<Rightarrow> ('k, lock_meta) odict \<times> bool" where
  "lm_is_locked now key locks =
     (case map_of locks key of
        None \<Rightarrow> (locks, False)
      | Some m \<Rightarrow> (if lm_expire m < now then (AList.delete key locks, False) else (locks, True)))"

text \<open>\<open>LRUCachePolicyWithLock\<close>.\<close>

fun lock_candidates ::
  "int \<Rightarrow> ('v \<Rightarrow> bool) \<Rightarrow> int \<Rightarrow> ('k, 'v) odict \<Rightarrow> 'k list \<Rightarrow> ('k, lock_meta) odict \<Rightarrow> ('k, lock_meta) odict \<times> 'k list" where
  "lock_candidates now can n [] evict_keys locks = (locks, evict_keys)"
| "lock_candidates now can n ((key, v) # items) evict_keys locks =
     (case lm_is_locked now key locks of
        (locks, locked) \<Rightarrow>
          if locked \<or> \<not> can v then lock_candidates now can n items evict_keys locks
          else if int (length (evict_keys @ [key])) = n then (locks, evict_keys @ [key])
          else lock_candidates now can n items (evict_keys @ [key]) locks)"

section \<open>The storage manager\<close>

record ('k, 's, 'd) mp_storage =
  mp_alloc :: "('s, 'd) lazy_alloc"
  mp_locks :: "('k, lock_meta) odict"
  mp_pools :: "(int, ('k, nat) odict) odict"
  mp_reserved :: "'k set"
  mp_next_handle :: int
  mp_lru :: "'k lru_state"
  mp_committed :: "('k, nat) odict"

definition mp_init :: "('s, 'd) lazy_alloc \<Rightarrow> ('k, 's, 'd) mp_storage" where
  "mp_init la = \<lparr> mp_alloc = la, mp_locks = [], mp_pools = [], mp_reserved = {}, mp_next_handle = 0,
     mp_lru = lru_init, mp_committed = [] \<rparr>"

abbreviation mp_mem :: "('k, 's, 'd) mp_storage \<Rightarrow> ('s, 'd) mem_state" where
  "mp_mem st \<equiv> la_mem (mp_alloc st)"

definition set_mem :: "('s, 'd) mem_state \<Rightarrow> ('k, 's, 'd) mp_storage \<Rightarrow> ('k, 's, 'd) mp_storage" where
  "set_mem m st = st\<lparr>mp_alloc := (mp_alloc st)\<lparr>la_mem := m\<rparr>\<rparr>"

definition new_handle :: "('k, 's, 'd) mp_storage \<Rightarrow> ('k, 's, 'd) mp_storage \<times> int" where
  "new_handle st = (st\<lparr>mp_next_handle := mp_next_handle st + 1\<rparr>, mp_next_handle st)"

definition mp_has_key :: "('k, 's, 'd) mp_storage \<Rightarrow> 'k \<Rightarrow> bool" where
  "mp_has_key st key \<longleftrightarrow> key \<in> mp_reserved st \<or> map_of (mp_committed st) key \<noteq> None"

text \<open>What a request asks of the allocator for one object.\<close>

record ('s, 'd) layout =
  ly_shape :: 's
  ly_dtype :: 'd
  ly_fmt :: mem_fmt

definition mp_allocate ::
  "('s, 'd) mem_env \<Rightarrow> ('s, 'd) layout \<Rightarrow> nat \<Rightarrow> ('k, 's, 'd) mp_storage \<Rightarrow> ('k, 's, 'd) mp_storage \<times> nat list option result" where
  "mp_allocate env ly n st =
     (case t_batched_allocate env (mp_mem st) (Many [ly_shape ly]) (Many [ly_dtype ly]) (int n) (ly_fmt ly) of
        (m, r) \<Rightarrow> (set_mem m st, r))"

text \<open>The steps of \<open>reserve\<close>: a key is marked; the objects are allocated; when that failed, committed
  objects are recycled until it succeeds or there is nothing left to recycle; the pool is filled.\<close>

definition mark_key :: "'k \<Rightarrow> ('k, 's, 'd) mp_storage \<Rightarrow> ('k, 's, 'd) mp_storage \<times> bool" where
  "mark_key key st = (if mp_has_key st key then (st, False) else (st\<lparr>mp_reserved := insert key (mp_reserved st)\<rparr>, True))"

definition drop_committed :: "('s, 'd) mem_env \<Rightarrow> 'k \<Rightarrow> ('k, 's, 'd) mp_storage \<Rightarrow> ('k, 's, 'd) mp_storage" where
  "drop_committed env key st =
     (case map_of (mp_committed st) key of
        None \<Rightarrow> st
      | Some i \<Rightarrow> set_mem (ref_count_down env (mp_mem st) i) (st\<lparr>mp_committed := AList.delete key (mp_committed st)\<rparr>))"

partial_function (option) recycle_loop ::
  "('s, 'd) mem_env \<Rightarrow> int \<Rightarrow> ('s, 'd) layout \<Rightarrow> nat \<Rightarrow> ('k, 's, 'd) mp_storage \<Rightarrow> (('k, 's, 'd) mp_storage \<times> nat list option result) option" where
  "recycle_loop env now ly n st =
     (case lock_candidates now (\<lambda>i. can_evict (t_objs (mp_mem st) ! i)) (int n) (mp_committed st) [] (mp_locks st) of
        (locks, candidates) \<Rightarrow>
          if candidates = [] then Some (st\<lparr>mp_locks := locks\<rparr>, Inr None)
          else (case mp_allocate env ly n (fold (drop_committed env) candidates (st\<lparr>mp_locks := locks\<rparr>)) of
                  (st', Inl e) \<Rightarrow> Some (st', Inl e)
                | (st', Inr (Some objs)) \<Rightarrow> Some (st', Inr (Some objs))
                | (st', Inr None) \<Rightarrow> recycle_loop env now ly n st'))"

definition put_pool :: "int \<Rightarrow> ('k, nat) odict \<Rightarrow> ('k, 's, 'd) mp_storage \<Rightarrow> ('k, 's, 'd) mp_storage" where
  "put_pool h d st = st\<lparr>mp_pools := AList.update h d (mp_pools st)\<rparr>"

fun mark_keys :: "'k list \<Rightarrow> 'k list \<Rightarrow> ('k, 's, 'd) mp_storage \<Rightarrow> ('k, 's, 'd) mp_storage \<times> 'k list" where
  "mark_keys [] marked st = (st, marked)"
| "mark_keys (key # keys) marked st =
     (case mark_key key st of (st', b) \<Rightarrow> mark_keys keys (if b then marked @ [key] else marked) st')"

text \<open>\<open>RuntimeError\<close> stands for the program's \<open>MemoryExhaustedError\<close>.\<close>

definition reserve ::
  "('s, 'd) mem_env \<Rightarrow> int \<Rightarrow> 'k list \<Rightarrow> ('s, 'd) layout \<Rightarrow> ('k, 's, 'd) mp_storage
    \<Rightarrow> (('k, 's, 'd) mp_storage \<times> (int \<times> ('k, nat) odict) result) option" where
  "reserve env now keys ly st =
     (case new_handle st of
        (st, handle) \<Rightarrow>
          (case mark_keys keys [] st of
             (st, marked) \<Rightarrow>
               if marked = [] then Some (put_pool handle [] st, Inr (handle, []))
               else (case (case mp_allocate env ly (length marked) st of
                             (st, Inr None) \<Rightarrow> recycle_loop env now ly (length marked) st
                           | r \<Rightarrow> Some r) of
                       None \<Rightarrow> None
                     | Some (st, Inl e) \<Rightarrow> Some (st, Inl e)
                     | Some (st, Inr None) \<Rightarrow> Some (st, Inl RuntimeError)
                     | Some (st, Inr (Some objs)) \<Rightarrow>
                         Some (put_pool handle (zip marked objs) st, Inr (handle, zip marked objs)))))"

text \<open>\<open>set.remove\<close> raises when the key is not there.\<close>

fun finish_keys :: "int \<Rightarrow> 'k list \<Rightarrow> ('k, 's, 'd) mp_storage \<Rightarrow> ('k, 's, 'd) mp_storage \<times> unit result" where
  "finish_keys now [] st = (st, Inr ())"
| "finish_keys now (key # keys) st =
     (let st = st\<lparr>mp_lru := lru_on_put now key (mp_lru st)\<rparr>
      in if key \<in> mp_reserved st then finish_keys now keys (st\<lparr>mp_reserved := mp_reserved st - {key}\<rparr>) else (st, Inl KeyError))"

definition commit :: "int \<Rightarrow> int \<Rightarrow> ('k, 's, 'd) mp_storage \<Rightarrow> ('k, 's, 'd) mp_storage \<times> unit result" where
  "commit now handle st =
     (case map_of (mp_pools st) handle of
        None \<Rightarrow> (st, Inl RuntimeError)
      | Some d \<Rightarrow>
          finish_keys now (rev (od_keys d))
            (st\<lparr>mp_pools := AList.delete handle (mp_pools st),
                mp_committed := fold (\<lambda>(k, i). AList.update k i) d (mp_committed st)\<rparr>))"

fun mp_lookup :: "int \<Rightarrow> 'k list \<Rightarrow> nat \<Rightarrow> ('k, 's, 'd) mp_storage \<Rightarrow> ('k, 's, 'd) mp_storage \<times> nat" where
  "mp_lookup now [] found st = (st, found)"
| "mp_lookup now (key # keys) found st =
     (if map_of (mp_committed st) key \<noteq> None
      then mp_lookup now keys (found + 1) (st\<lparr>mp_locks := lm_lock now key (mp_locks st)\<rparr>) else (st, found))"

fun mp_retrieve :: "int \<Rightarrow> 'k list \<Rightarrow> nat list \<Rightarrow> ('k, 's, 'd) mp_storage \<Rightarrow> ('k, 's, 'd) mp_storage \<times> nat list result" where
  "mp_retrieve now [] objs st = (st, Inr objs)"
| "mp_retrieve now (key # keys) objs st =
     (case map_of (mp_committed st) key of
        None \<Rightarrow> (st, Inl RuntimeError)
      | Some i \<Rightarrow>
          (case lru_on_hit now key key (mp_committed st) (mp_lru st) of
             (lru, Inl e) \<Rightarrow> (st\<lparr>mp_lru := lru\<rparr>, Inl e)
           | (lru, Inr d) \<Rightarrow> mp_retrieve now keys (objs @ [i]) (st\<lparr>mp_lru := lru, mp_committed := d\<rparr>)))"

definition on_retrieve_finished :: "'k list \<Rightarrow> ('k, 's, 'd) mp_storage \<Rightarrow> ('k, 's, 'd) mp_storage" where
  "on_retrieve_finished keys st = st\<lparr>mp_locks := fold lm_unlock keys (mp_locks st)\<rparr>"

definition mp_get_all_keys :: "('k, 's, 'd) mp_storage \<Rightarrow> 'k list" where
  "mp_get_all_keys st = od_keys (mp_committed st)"

definition mp_memcheck :: "('k, 's, 'd) mp_storage \<Rightarrow> bool" where
  "mp_memcheck st = t_memcheck (mp_mem st)"

definition mp_clear :: "('s, 'd) mem_env \<Rightarrow> ('k, 's, 'd) mp_storage \<Rightarrow> ('k, 's, 'd) mp_storage" where
  "mp_clear env st =
     (let m = fold (\<lambda>i m. ref_count_down env m i) (map snd (mp_committed st)) (mp_mem st);
          m = fold (\<lambda>i m. ref_count_down env m i) (map snd (concat (map snd (mp_pools st)))) m
      in set_mem m (st\<lparr>mp_committed := [], mp_pools := [], mp_reserved := {}\<rparr>))"

section \<open>Threads\<close>

text \<open>Where a thread is in a reservation: what it asks for, its handle, the keys to come, the keys it has
  marked, its objects.\<close>

datatype ('k, 's, 'd) resv =
    Idle
  | Marking "('s, 'd) layout" int "'k list" "'k list"
  | Recycling "('s, 'd) layout" int "'k list"
  | Holding int "'k list" "nat list"

record ('t, 'k, 's, 'd) mp_system =
  ms_store :: "('k, 's, 'd) mp_storage"
  ms_run :: "'t \<Rightarrow> ('k, 's, 'd) resv"

definition sized :: "('s, 'd) mem_env \<Rightarrow> ('s, 'd) layout \<Rightarrow> bool" where
  "sized env ly \<longleftrightarrow> (case get_size_bytes env [ly_shape ly] [ly_dtype ly] of Inr raw \<Rightarrow> 0 < raw | Inl _ \<Rightarrow> False)"

text \<open>The steps others can tell apart: those that take and release locks, and a clear.\<close>

datatype 'k mp_label = Internal | Looks "'k list" | Unlocks "'k list" | Clears

inductive mp_step ::
  "('s, 'd) mem_env \<Rightarrow> int \<Rightarrow> 'k mp_label \<Rightarrow> ('t, 'k, 's, 'd) mp_system \<Rightarrow> ('t, 'k, 's, 'd) mp_system \<Rightarrow> bool"
  for env now where
  enter: "ms_run sy t = Idle \<Longrightarrow> sized env ly \<Longrightarrow> new_handle (ms_store sy) = (st, h)
    \<Longrightarrow> mp_step env now Internal sy \<lparr> ms_store = st, ms_run = (ms_run sy)(t := Marking ly h keys []) \<rparr>"
| mark: "ms_run sy t = Marking ly h (key # keys) marked \<Longrightarrow> mark_key key (ms_store sy) = (st, b)
    \<Longrightarrow> mp_step env now Internal sy
          \<lparr> ms_store = st, ms_run = (ms_run sy)(t := Marking ly h keys (if b then marked @ [key] else marked)) \<rparr>"
| nothing: "ms_run sy t = Marking ly h [] []
    \<Longrightarrow> mp_step env now Internal sy \<lparr> ms_store = put_pool h [] (ms_store sy), ms_run = (ms_run sy)(t := Idle) \<rparr>"
| allocate: "ms_run sy t = Marking ly h [] marked \<Longrightarrow> marked \<noteq> [] \<Longrightarrow> mp_allocate env ly (length marked) (ms_store sy) = (st, Inr r)
    \<Longrightarrow> mp_step env now Internal sy
          \<lparr> ms_store = st, ms_run = (ms_run sy)(t := (case r of None \<Rightarrow> Recycling ly h marked | Some objs \<Rightarrow> Holding h marked objs)) \<rparr>"
| recycle: "ms_run sy t = Recycling ly h marked \<Longrightarrow> recycle_loop env now ly (length marked) (ms_store sy) = Some (st, Inr r)
    \<Longrightarrow> mp_step env now Internal sy
          \<lparr> ms_store = st, ms_run = (ms_run sy)(t := (case r of None \<Rightarrow> Idle | Some objs \<Rightarrow> Holding h marked objs)) \<rparr>"
| fill: "ms_run sy t = Holding h marked objs
    \<Longrightarrow> mp_step env now Internal sy \<lparr> ms_store = put_pool h (zip marked objs) (ms_store sy), ms_run = (ms_run sy)(t := Idle) \<rparr>"
| commit: "mp_step env now Internal sy (sy\<lparr>ms_store := fst (commit now h (ms_store sy))\<rparr>)"
| lookup: "mp_lookup now keys 0 (ms_store sy) = (st, n) \<Longrightarrow> mp_step env now (Looks (take n keys)) sy (sy\<lparr>ms_store := st\<rparr>)"
| retrieve: "mp_step env now Internal sy (sy\<lparr>ms_store := fst (mp_retrieve now keys [] (ms_store sy))\<rparr>)"
| expand: "mp_step env now Internal sy (sy\<lparr>ms_store := (ms_store sy)\<lparr>mp_alloc := expand_round env (mp_alloc (ms_store sy))\<rparr>\<rparr>)"
| unlock: "mp_step env now (Unlocks keys) sy (sy\<lparr>ms_store := on_retrieve_finished keys (ms_store sy)\<rparr>)"
| clear: "mp_step env now Clears sy (sy\<lparr>ms_store := mp_clear env (ms_store sy)\<rparr>)"

section \<open>The memory below\<close>

definition la_inv :: "('s, 'd) lazy_alloc \<Rightarrow> bool" where
  "la_inv la \<longleftrightarrow> mem_inv (la_mem la) \<and> am_size (t_am (la_mem la)) = la_curr_size la \<and> t_buffer_len (la_mem la) = la_final_size la \<and>
     la_curr_size la \<le> la_final_size la \<and> pin_chunk_size dvd la_curr_size la \<and> pin_chunk_size dvd la_final_size la \<and>
     (\<exists>k \<le> 26. am_align (t_am (la_mem la)) = 2 ^ k)"

definition once_held :: "('s, 'd) mem_state \<Rightarrow> bool" where
  "once_held m \<longleftrightarrow> (\<forall>i \<in> valid_ids m. mo_ref_count (t_objs m ! i) = 1 \<and> mo_pin_count (t_objs m ! i) = 0)"

lemma pin_chunks_bounds:
  assumes "cur \<le> final" and "pin_chunk_size dvd cur" and "pin_chunk_size dvd final"
  shows "pin_chunk_size dvd pin_chunks n final cur \<and> cur \<le> pin_chunks n final cur \<and> pin_chunks n final cur \<le> final \<and>
    (0 < n \<longrightarrow> cur < final \<longrightarrow> cur < pin_chunks n final cur)"
  using assms
proof (induction n arbitrary: cur)
  case (Suc n)
  show ?case
  proof (cases "final \<le> cur")
    case False
    have "0 < pin_chunk_size" by (simp add: pin_chunk_size_def)
    moreover have "pin_chunk_size dvd final - cur" using Suc.prems by simp
    ultimately have "pin_chunk_size \<le> final - cur" using False by (intro zdvd_imp_le) simp_all
    moreover have "pin_chunk_size dvd cur + pin_chunk_size" using Suc.prems by simp
    ultimately show ?thesis
      using Suc.IH[of "cur + pin_chunk_size"] Suc.prems(3) False \<open>0 < pin_chunk_size\<close> by auto
  qed (use Suc.prems in simp)
qed simp

lemma align_to_dvd: "pin_chunk_size dvd align_to n pin_chunk_size" "n \<le> align_to n pin_chunk_size"
proof -
  have e: "align_to n pin_chunk_size = ((n + pin_chunk_size - 1) div pin_chunk_size) * pin_chunk_size"
    unfolding align_to_def pin_chunk_size_def by (rule and_not_mask_int)
  show "pin_chunk_size dvd align_to n pin_chunk_size" unfolding e by simp
  show "n \<le> align_to n pin_chunk_size" unfolding e by (rule align_up_bounds(1)) (simp add: pin_chunk_size_def)
qed

lemma once_held_same: "once_held m \<Longrightarrow> t_objs m' = t_objs m \<Longrightarrow> once_held m'"
  by (simp add: once_held_def valid_ids_def)

context tensor_env
begin

lemma lazy_init_inv:
  assumes "lazy_init env init_size final_size (2 ^ k) = Inr la" and "k \<le> 26" and "0 \<le> init_size"
  shows "la_inv la \<and> valid_ids (la_mem la) = {}"
proof -
  let ?c = "align_to init_size pin_chunk_size" and ?f = "align_to final_size pin_chunk_size"
  have le: "?c \<le> ?f" and la: "la = \<lparr> la_curr_size = ?c, la_final_size = ?f, la_mem = mem_init (t_init env ?f (2 ^ k) (Some ?c)) \<rparr>"
    using assms(1) by (auto simp: lazy_init_def Let_def split: if_splits)
  have c: "0 \<le> ?c" using align_to_dvd(2)[of init_size] assms(3) by linarith
  have t: "talloc_inv (t_init env ?f (2 ^ k) (Some ?c))"
    by (rule t_init_inv[OF sl _ refl]) (use c le in simp_all)
  have e: "t_am (t_init env ?f (2 ^ k) (Some ?c)) = am_init env ?c (2 ^ k)" "t_objs (t_init env ?f (2 ^ k) (Some ?c)) = []"
    "t_buffer_len (t_init env ?f (2 ^ k) (Some ?c)) = ?f" by (simp_all add: t_init_def)
  have "mem_inv (mem_init (t_init env ?f (2 ^ k) (Some ?c)))"
    using t e by (auto simp: mem_inv_def mem_init_def talloc.defs pinned_ids_def talloc_inv_def valid_ids_def obj_region_def live_ok_def)
  moreover have "am_size (am_init env ?c (2 ^ k)) = ?c" "am_align (am_init env ?c (2 ^ k)) = 2 ^ k"
    using am_init_correct[OF sl c, of "2 ^ k" k] by (simp_all add: am_init_def)
  ultimately show ?thesis
    using le align_to_dvd assms(2) e by (auto simp: la la_inv_def mem_init_def talloc.defs valid_ids_def)
qed

lemma expand_round_inv:
  assumes inv: "la_inv la"
  shows "la_inv (expand_round env la)" and "t_objs (la_mem (expand_round env la)) = t_objs (la_mem la)"
    and "la_final_size (expand_round env la) = la_final_size la"
    and "la_curr_size la < la_final_size la \<Longrightarrow> la_curr_size la < la_curr_size (expand_round env la)"
proof -
  let ?m = "la_mem la" and ?c = "la_curr_size la" and ?f = "la_final_size la"
  define cur where "cur = pin_chunks (nat (commit_size div pin_chunk_size)) ?f ?c"
  have I: "mem_inv ?m" "am_size (t_am ?m) = ?c" "t_buffer_len ?m = ?f" "?c \<le> ?f" "pin_chunk_size dvd ?c" "pin_chunk_size dvd ?f"
    using inv by (simp_all add: la_inv_def)
  obtain k where k: "k \<le> 26" "am_align (t_am ?m) = 2 ^ k" using inv by (auto simp: la_inv_def)
  have n: "0 < nat (commit_size div pin_chunk_size)" by (simp add: commit_size_def pin_chunk_size_def)
  note B = pin_chunks_bounds[OF I(4-6), of "nat (commit_size div pin_chunk_size)", folded cur_def]
  have e: "expand_round env la = (if ?f \<le> ?c then la
      else la\<lparr>la_curr_size := cur, la_mem := ?m\<lparr>t_am := am_sbrk env (t_am ?m) (cur - ?c)\<rparr>\<rparr>)"
    by (simp add: expand_round_def cur_def Let_def)
  show "t_objs (la_mem (expand_round env la)) = t_objs (la_mem la)" "la_final_size (expand_round env la) = ?f"
    "?c < ?f \<Longrightarrow> ?c < la_curr_size (expand_round env la)"
    using B n by (simp_all add: e)
  show "la_inv (expand_round env la)"
  proof (cases "?f \<le> ?c")
    case False
    let ?am = "am_sbrk env (t_am ?m) (cur - ?c)" and ?m' = "?m\<lparr>t_am := am_sbrk env (t_am ?m) (cur - ?c)\<rparr>"
    have pos: "0 < cur - ?c" using B n False by simp
    have am: "am_inv (t_am ?m)" and ta: "talloc_inv ?m" using I(1) by (simp_all add: mem_inv_def talloc_inv_def)
    have "(2::int) ^ k dvd 2 ^ 26" using k(1) by (rule le_imp_power_dvd)
    then have "(2::int) ^ k dvd cur - ?c" using B I(5) unfolding pin_chunk_size_def by (meson dvd_diff dvd_trans)
    then have al: "compute_aligned_size (t_am ?m) (cur - ?c) = cur - ?c" using aligned_fixpoint[OF am] k(2) by simp
    note S = am_sbrk_correct[OF sl am pos, unfolded al]
    have "live_ok (free_addrs (t_am ?m)) (am_size (t_am ?m)) (valid_ids ?m) (obj_region ?m)" using ta by (simp add: talloc_inv_def)
    note L = am_sbrk_live[OF sl am pos this]
    have v: "valid_ids ?m' = valid_ids ?m" "obj_region ?m' = obj_region ?m" by (simp_all add: valid_ids_def obj_region_def fun_eq_iff)
    have "talloc_inv ?m'"
      using ta S L B I(2,3) unfolding talloc_inv_def v by (simp del: set_map)
    then have "mem_inv ?m'" using I(1) by (simp add: mem_inv_def pinned_ids_def del: set_map)
    then show ?thesis using B I k S False by (auto simp: e la_inv_def)
  qed (simp add: e inv)
qed

lemma down_once:
  assumes "mem_inv m" and "once_held m" and "i \<in> valid_ids m"
  shows "mem_inv (ref_count_down env m i) \<and> once_held (ref_count_down env m i) \<and> valid_ids (ref_count_down env m i) = valid_ids m - {i} \<and>
    am_size (t_am (ref_count_down env m i)) = am_size (t_am m) \<and> am_align (t_am (ref_count_down env m i)) = am_align (t_am m) \<and>
    t_buffer_len (ref_count_down env m i) = t_buffer_len m"
proof -
  have i: "i < length (t_objs m)" using assms(3) by (simp add: valid_ids_def)
  define m1 where "m1 = upd_obj i (mo_ref_count_update (\<lambda>_. 0)) m"
  have o: "counts_ok (t_objs m ! i)" "mo_ref_count (t_objs m ! i) = 1" "mo_pin_count (t_objs m ! i) = 0"
    using assms i by (auto simp: mem_inv_def once_held_def)
  then have f: "ref_count_down env m i = t_free env m1 i"
    unfolding ref_count_down_form[OF i] by (simp add: counts_ok_def m1_def Let_def)
  have ta: "talloc_inv m1" unfolding m1_def by (rule upd_obj_talloc_inv) (use assms(1) i in \<open>simp_all add: mem_inv_def\<close>)
  have v: "valid_ids m1 = valid_ids m" using i by (auto simp: valid_ids_def m1_def upd_obj_def nth_list_update)
  have vi: "i \<in> valid_ids m1" using v assms(3) by simp
  note F = t_free_facts[OF ta vi] and A = t_free_all_facts[OF ta, of i]
  have l: "length (t_objs m1) = length (t_objs m)" "t_am m1 = t_am m" "t_buffer_len m1 = t_buffer_len m" by (simp_all add: m1_def)
  have other: "t_objs (t_free env m1 i) ! j = t_objs m ! j" if "j \<noteq> i" for j using that by (simp add: t_free_other m1_def)
  have "once_held (t_free env m1 i)" using assms(2) other F(2) v by (auto simp: once_held_def)
  then show ?thesis using ref_count_down_inv[OF assms(1) i] F(2,4) A(4,5) i l v unfolding f by simp
qed

lemma down_released:
  assumes "mem_inv m" and "i < length (t_objs m)" and "i \<notin> valid_ids m"
  shows "ref_count_down env m i = m"
proof -
  have o: "\<not> mo_valid (t_objs m ! i)" "counts_ok (t_objs m ! i)" using assms by (simp_all add: valid_ids_def mem_inv_def)
  then have "upd_obj i (mo_ref_count_update (\<lambda>_. 0)) m = m" by (intro upd_obj_same) (simp add: counts_ok_def)
  then show ?thesis unfolding ref_count_down_form[OF assms(2)] using o by (simp add: counts_ok_def t_free_invalid)
qed

lemma down_all:
  assumes "mem_inv m" and "once_held m" and "set is \<subseteq> {..< length (t_objs m)}"
  shows "mem_inv (fold (\<lambda>i m. ref_count_down env m i) is m) \<and> once_held (fold (\<lambda>i m. ref_count_down env m i) is m) \<and>
    valid_ids (fold (\<lambda>i m. ref_count_down env m i) is m) = valid_ids m - set is \<and>
    am_size (t_am (fold (\<lambda>i m. ref_count_down env m i) is m)) = am_size (t_am m) \<and>
    am_align (t_am (fold (\<lambda>i m. ref_count_down env m i) is m)) = am_align (t_am m) \<and>
    t_buffer_len (fold (\<lambda>i m. ref_count_down env m i) is m) = t_buffer_len m"
  using assms
proof (induction "is" arbitrary: m)
  case (Cons i "is")
  have i: "i < length (t_objs m)" using Cons.prems(3) by simp
  have D: "mem_inv (ref_count_down env m i) \<and> once_held (ref_count_down env m i) \<and> valid_ids (ref_count_down env m i) = valid_ids m - {i} \<and>
    am_size (t_am (ref_count_down env m i)) = am_size (t_am m) \<and> am_align (t_am (ref_count_down env m i)) = am_align (t_am m) \<and>
    t_buffer_len (ref_count_down env m i) = t_buffer_len m"
    using down_once[OF Cons.prems(1,2), of i] down_released[OF Cons.prems(1) i] Cons.prems(1,2) by (cases "i \<in> valid_ids m") auto
  have "length (t_objs (ref_count_down env m i)) = length (t_objs m)"
    unfolding ref_count_down_form[OF i] by (simp add: Let_def t_free_length)
  then show ?case using Cons.IH[of "ref_count_down env m i"] D Cons.prems(3) by auto
qed simp

lemma allocate_once:
  assumes inv: "la_inv la" and once: "once_held (la_mem la)" and sz: "sized env ly" and n: "0 < n"
    and r: "t_batched_allocate env (la_mem la) (Many [ly_shape ly]) (Many [ly_dtype ly]) (int n) (ly_fmt ly) = (m, r)"
  shows "(r = Inr None \<and> m = la_mem la) \<or>
    (\<exists>objs. r = Inr (Some objs) \<and> la_inv (la\<lparr>la_mem := m\<rparr>) \<and> once_held m \<and> distinct objs \<and> length objs = n \<and>
       set objs \<inter> valid_ids (la_mem la) = {} \<and> valid_ids m = valid_ids (la_mem la) \<union> set objs)"
proof -
  obtain raw where raw: "get_size_bytes env [ly_shape ly] [ly_dtype ly] = Inr raw" "0 < raw"
    using sz by (auto simp: sized_def split: sum.splits)
  have ad: "adapt_shapes_and_dtypes (Many [ly_shape ly]) (Many [ly_dtype ly]) = Inr ([ly_shape ly], [ly_dtype ly])"
    by (simp add: adapt_shapes_and_dtypes_def)
  have mi: "mem_inv (la_mem la)" using inv by (simp add: la_inv_def)
  then have ta: "talloc_inv (la_mem la)" and am: "am_inv (t_am (la_mem la))" by (simp_all add: mem_inv_def talloc_inv_def)
  show ?thesis
  proof (cases r)
    case (Inl e)
    then show ?thesis using r raw ad by (auto simp: t_batched_allocate_def Let_def am_allocate_def split: sum.splits prod.splits if_splits option.splits)
  next
    case (Inr oo)
    show ?thesis
    proof (cases oo)
      case None
      then show ?thesis using r raw ad Inr by (auto simp: t_batched_allocate_def Let_def split: sum.splits prod.splits if_splits)
    next
      case (Some objs)
      have k: "0 < int n" using n by simp
      note F = t_batched_allocate_facts[OF ta raw k r[unfolded Inr Some] ad]
      have b: "t_buffer_len m = t_buffer_len (la_mem la)"
        using r raw ad by (auto simp: t_batched_allocate_def Let_def split: sum.splits prod.splits if_splits)
      have new: "counts_ok (t_objs m ! j) \<and> mo_pin_count (t_objs m ! j) = 0 \<and> mo_ref_count (t_objs m ! j) = 1"
        if h: "length (t_objs (la_mem la)) \<le> j" "j < length (t_objs m)" for j
      proof -
        define d where "d = j - length (t_objs (la_mem la))"
        have d: "j = length (t_objs (la_mem la)) + d" "d < nat (int n)" using h F(6) by (simp_all add: d_def)
        obtain u a where "t_objs m ! (length (t_objs (la_mem la)) + d) = mk_obj [ly_shape ly] [ly_dtype ly] (a + u * int d) u (ly_fmt ly) (a + u * int d, u)"
          using F(5) d(2) unfolding Let_def by blast
        then show ?thesis using d(1) by (simp add: counts_ok_mk_obj) (simp add: mk_obj_def)
      qed
      have "mem_inv m"
        by (rule alloc_mem_inv[OF mi F(1)]) (use F new alloc_keeps_monitor(2)[OF r] in auto)
      moreover have "once_held m"
        unfolding once_held_def
      proof
        fix j assume j: "j \<in> valid_ids m"
        then have jl: "j < length (t_objs m)" by (simp add: valid_ids_def)
        show "mo_ref_count (t_objs m ! j) = 1 \<and> mo_pin_count (t_objs m ! j) = 0"
        proof (cases "j < length (t_objs (la_mem la))")
          case True
          then have "j \<in> valid_ids (la_mem la)" using j F(4) jl by (simp add: valid_ids_def)
          then show ?thesis using once F(4)[OF True] by (simp add: once_held_def)
        qed (use new[of j] jl in simp)
      qed
      moreover have "la_inv (la\<lparr>la_mem := m\<rparr>)"
      proof -
        have "am_size (t_am m) = am_size (t_am (la_mem la))" "am_align (t_am m) = am_align (t_am (la_mem la))" using F(7) by auto
        then show ?thesis using inv b \<open>mem_inv m\<close> by (simp add: la_inv_def)
      qed
      moreover have "distinct objs" "length objs = n" "set objs \<inter> valid_ids (la_mem la) = {}"
        unfolding F(2) by (auto simp: valid_ids_def)
      ultimately show ?thesis using F(3) Inr Some by blast
    qed
  qed
qed

end

section \<open>The store\<close>

text \<open>\<open>others\<close> are the objects that are alive but not committed.\<close>

definition store_ok :: "nat set \<Rightarrow> ('k, 's, 'd) mp_storage \<Rightarrow> bool" where
  "store_ok others st \<longleftrightarrow> la_inv (mp_alloc st) \<and> once_held (mp_mem st) \<and> od_wf (mp_committed st) \<and>
     inj_on (map_of (mp_committed st)) (dom (map_of (mp_committed st))) \<and> ran (map_of (mp_committed st)) \<inter> others = {} \<and>
     valid_ids (mp_mem st) = others \<union> ran (map_of (mp_committed st))"

definition live_lock :: "int \<Rightarrow> ('k, lock_meta) odict \<Rightarrow> 'k \<Rightarrow> bool" where
  "live_lock now locks k \<longleftrightarrow> (\<exists>m. map_of locks k = Some m \<and> now \<le> lm_expire m)"

lemma set_mem_simps [simp]:
  "mp_mem (set_mem m st) = m" "mp_committed (set_mem m st) = mp_committed st" "mp_pools (set_mem m st) = mp_pools st"
  "mp_reserved (set_mem m st) = mp_reserved st" "mp_locks (set_mem m st) = mp_locks st" "mp_lru (set_mem m st) = mp_lru st"
  "mp_next_handle (set_mem m st) = mp_next_handle st" "mp_alloc (set_mem m st) = (mp_alloc st)\<lparr>la_mem := m\<rparr>"
  by (simp_all add: set_mem_def)

definition same_but :: "('k, 's, 'd) mp_storage \<Rightarrow> ('k, 's, 'd) mp_storage \<Rightarrow> bool" where
  "same_but st st' \<longleftrightarrow> mp_pools st' = mp_pools st \<and> mp_reserved st' = mp_reserved st \<and> mp_next_handle st' = mp_next_handle st"

lemma store_ok_same:
  "store_ok others st \<Longrightarrow> mp_alloc st' = mp_alloc st \<Longrightarrow> mp_committed st' = mp_committed st \<Longrightarrow> store_ok others st'"
  by (simp add: store_ok_def)

lemma is_locked_facts:
  assumes "lm_is_locked now key locks = (locks', b)"
  shows "b = live_lock now locks key" and "live_lock now locks k \<Longrightarrow> map_of locks' k = map_of locks k" and "map_of locks' \<subseteq>\<^sub>m map_of locks"
  using assms by (auto simp: lm_is_locked_def live_lock_def map_le_def split: option.splits if_splits)

lemma is_locked_same: "lm_is_locked now key locks = (locks', b) \<Longrightarrow> live_lock now locks' k = live_lock now locks k"
  by (auto simp: lm_is_locked_def live_lock_def split: option.splits if_splits)

lemma lock_candidates_locks:
  assumes "lock_candidates now can n items acc locks = (locks', ks)"
  shows "(live_lock now locks k \<longrightarrow> map_of locks' k = map_of locks k) \<and> live_lock now locks' k = live_lock now locks k"
  using assms
proof (induction items arbitrary: acc locks)
  case (Cons item items)
  obtain key v where item: "item = (key, v)" by (cases item)
  obtain locks1 b where il: "lm_is_locked now key locks = (locks1, b)" by (cases "lm_is_locked now key locks")
  have "locks' = locks1 \<or> (\<exists>acc'. lock_candidates now can n items acc' locks1 = (locks', ks))"
    using Cons.prems il by (auto simp: item split: if_splits)
  then show ?case using Cons.IH is_locked_facts(2)[OF il, of k] is_locked_same[OF il, of k] by metis
qed simp

lemma lock_candidates_keys:
  assumes "lock_candidates now can n items acc locks = (locks', ks)" and "od_wf items"
  shows "\<exists>new. ks = acc @ new \<and> set new \<subseteq> set (od_keys items) \<and> distinct new \<and> (\<forall>k \<in> set new. \<not> live_lock now locks k) \<and>
    (new = [] \<longrightarrow> (\<forall>(k, v) \<in> set items. can v \<longrightarrow> live_lock now locks k))"
  using assms
proof (induction items arbitrary: acc locks)
  case (Cons item items)
  obtain key v where item: "item = (key, v)" by (cases item)
  obtain locks1 b where il: "lm_is_locked now key locks = (locks1, b)" by (cases "lm_is_locked now key locks")
  have b: "b = live_lock now locks key" by (rule is_locked_facts(1)[OF il])
  have same: "live_lock now locks1 k = live_lock now locks k" for k by (rule is_locked_same[OF il])
  have wf: "od_wf items" "key \<notin> set (od_keys items)" using Cons.prems(2) by (auto simp: item)
  consider (skip) "b \<or> \<not> can v" "lock_candidates now can n items acc locks1 = (locks', ks)"
    | (full) "\<not> b" "ks = acc @ [key]"
    | (more) "\<not> b" "lock_candidates now can n items (acc @ [key]) locks1 = (locks', ks)"
    using Cons.prems(1) il by (auto simp: item split: if_splits)
  then show ?case
  proof cases
    case skip
    then show ?thesis using Cons.IH[OF skip(2) wf(1)] b by (auto simp: item same)
  next
    case full
    then show ?thesis using b by (auto simp: item)
  next
    case more
    obtain new where "ks = (acc @ [key]) @ new" "set new \<subseteq> set (od_keys items)" "distinct new" "\<forall>k \<in> set new. \<not> live_lock now locks1 k"
      using Cons.IH[OF more(2) wf(1)] by blast
    then show ?thesis using wf(2) more(1) b by (intro exI[of _ "key # new"]) (auto simp: item same)
  qed
qed simp

context tensor_env
begin

lemma drop_committed_ok:
  assumes ok: "store_ok others st"
  shows "store_ok others (drop_committed env key st)" and "map_of (mp_committed (drop_committed env key st)) = (map_of (mp_committed st))(key := None)"
proof -
  show m: "map_of (mp_committed (drop_committed env key st)) = (map_of (mp_committed st))(key := None)"
    by (auto simp: drop_committed_def split: option.splits)
  show "store_ok others (drop_committed env key st)"
  proof (cases "map_of (mp_committed st) key")
    case (Some i)
    let ?c = "map_of (mp_committed st)"
    have O: "la_inv (mp_alloc st)" "once_held (mp_mem st)" "inj_on ?c (dom ?c)" "ran ?c \<inter> others = {}" "valid_ids (mp_mem st) = others \<union> ran ?c"
      using ok by (simp_all add: store_ok_def)
    have i: "i \<in> ran ?c" using Some by (rule ranI)
    have r: "ran (?c(key := None)) = ran ?c - {i}"
      using Some O(3) by (auto simp: ran_def inj_on_def dom_def) (metis option.inject)+
    have "mem_inv (mp_mem st)" using O(1) by (simp add: la_inv_def)
    note D = down_once[OF this O(2), of i]
    have "valid_ids (ref_count_down env (mp_mem st) i) = others \<union> (ran ?c - {i})" using D O(4,5) i by auto
    moreover have "inj_on (?c(key := None)) (dom (?c(key := None)))" using O(3) by (auto simp: inj_on_def)
    moreover have "la_inv ((mp_alloc st)\<lparr>la_mem := ref_count_down env (mp_mem st) i\<rparr>)"
      using O(1) D O(5) i by (simp add: la_inv_def)
    ultimately show ?thesis
      using ok D O(5) i Some r unfolding store_ok_def m
      by (auto simp: drop_committed_def)
  qed (use ok in \<open>simp add: drop_committed_def\<close>)
qed

lemma drop_committed_simps:
  "mp_pools (drop_committed env key st) = mp_pools st" "mp_reserved (drop_committed env key st) = mp_reserved st"
  "mp_locks (drop_committed env key st) = mp_locks st" "mp_lru (drop_committed env key st) = mp_lru st"
  "mp_next_handle (drop_committed env key st) = mp_next_handle st"
  by (simp_all add: drop_committed_def split: option.splits)

lemma drop_all_ok:
  assumes "store_ok others st"
  shows "store_ok others (fold (drop_committed env) ks st) \<and>
    map_of (mp_committed (fold (drop_committed env) ks st)) = map_of (mp_committed st) |` (- set ks) \<and>
    same_but st (fold (drop_committed env) ks st) \<and> mp_locks (fold (drop_committed env) ks st) = mp_locks st"
  using assms
proof (induction ks arbitrary: st)
  case (Cons key ks)
  note D = drop_committed_ok[OF Cons.prems, of key]
  show ?case using Cons.IH[OF D(1)] D(2)
    by (auto simp: drop_committed_simps same_but_def fun_eq_iff restrict_map_def)
qed (simp add: same_but_def restrict_map_def)

lemma allocate_ok:
  assumes ok: "store_ok others st" and sz: "sized env ly" and n: "0 < n" and r: "mp_allocate env ly n st = (st', r)"
  shows "mp_committed st' = mp_committed st \<and> same_but st st' \<and> mp_locks st' = mp_locks st \<and>
    (r = Inr None \<and> store_ok others st' \<or>
      (\<exists>objs. r = Inr (Some objs) \<and> distinct objs \<and> length objs = n \<and> set objs \<inter> others = {} \<and> store_ok (others \<union> set objs) st'))"
proof -
  obtain m where m: "t_batched_allocate env (mp_mem st) (Many [ly_shape ly]) (Many [ly_dtype ly]) (int n) (ly_fmt ly) = (m, r)" "st' = set_mem m st"
    using r by (auto simp: mp_allocate_def split: prod.splits)
  have O: "la_inv (mp_alloc st)" "once_held (mp_mem st)" using ok by (simp_all add: store_ok_def)
  from allocate_once[OF O sz n m(1)] show ?thesis
  proof (elim disjE exE conjE)
    assume "r = Inr None" "m = mp_mem st"
    then show ?thesis using ok by (simp add: m(2) same_but_def store_ok_def)
  next
    fix objs assume *: "r = Inr (Some objs)" "la_inv ((mp_alloc st)\<lparr>la_mem := m\<rparr>)" "once_held m" "distinct objs" "length objs = n"
      "set objs \<inter> valid_ids (mp_mem st) = {}" "valid_ids m = valid_ids (mp_mem st) \<union> set objs"
    then show ?thesis using ok by (auto simp: m(2) same_but_def store_ok_def)
  qed
qed

text \<open>What recycling leaves alone: the keys that are locked.\<close>

definition spares :: "int \<Rightarrow> ('k, 'a, 'b) mp_storage \<Rightarrow> ('k, 'a, 'b) mp_storage \<Rightarrow> bool" where
  "spares now st st' \<longleftrightarrow> map_of (mp_committed st') \<subseteq>\<^sub>m map_of (mp_committed st) \<and>
     (\<forall>k. live_lock now (mp_locks st) k \<longrightarrow> map_of (mp_committed st') k = map_of (mp_committed st) k \<and>
        map_of (mp_locks st') k = map_of (mp_locks st) k) \<and>
     (\<forall>k. live_lock now (mp_locks st') k = live_lock now (mp_locks st) k)"

lemma spares_trans: "spares now st st' \<Longrightarrow> spares now st' st'' \<Longrightarrow> spares now st st''"
  unfolding spares_def by (metis map_le_trans)

lemma recycle_ok:
  assumes "store_ok others st" and "sized env ly" and "0 < n"
  shows "\<exists>st' r. recycle_loop env now ly n st = Some (st', Inr r) \<and> same_but st st' \<and> spares now st st' \<and>
    (case r of
       None \<Rightarrow> store_ok others st' \<and> (\<forall>k. map_of (mp_committed st') k \<noteq> None \<longrightarrow> live_lock now (mp_locks st') k)
     | Some objs \<Rightarrow> distinct objs \<and> length objs = n \<and> set objs \<inter> others = {} \<and> store_ok (others \<union> set objs) st')"
  using assms
proof (induction "length (mp_committed st)" arbitrary: st rule: less_induct)
  case less
  let ?can = "\<lambda>i. can_evict (t_objs (mp_mem st) ! i)"
  obtain locks ks where lc: "lock_candidates now ?can (int n) (mp_committed st) [] (mp_locks st) = (locks, ks)"
    by (cases "lock_candidates now ?can (int n) (mp_committed st) [] (mp_locks st)")
  have wf: "od_wf (mp_committed st)" using less.prems(1) by (simp add: store_ok_def)
  have K: "set ks \<subseteq> set (od_keys (mp_committed st))" "\<And>k. k \<in> set ks \<Longrightarrow> \<not> live_lock now (mp_locks st) k"
    "ks = [] \<Longrightarrow> (k, v) \<in> set (mp_committed st) \<Longrightarrow> ?can v \<Longrightarrow> live_lock now (mp_locks st) k" for k v
    using lock_candidates_keys[OF lc wf] by auto
  note L = lock_candidates_locks[OF lc]
  define st1 where "st1 = st\<lparr>mp_locks := locks\<rparr>"
  have ok1: "store_ok others st1" unfolding st1_def by (rule store_ok_same[OF less.prems(1)]) simp_all
  have sp1: "spares now st st1" using L by (simp add: spares_def st1_def)
  show ?case
  proof (cases "ks = []")
    case True
    have "live_lock now locks k" if h: "map_of (mp_committed st) k = Some v" for k v
    proof -
      have "v \<in> valid_ids (mp_mem st)" using less.prems(1) ranI[of "map_of (mp_committed st)", OF h] by (simp add: store_ok_def)
      then have "?can v" using less.prems(1) by (simp add: store_ok_def once_held_def can_evict_def is_pinned_def)
      then show ?thesis using K(3)[OF True map_of_SomeD[OF h]] L by simp
    qed
    then show ?thesis
      using lc True ok1 sp1 by (subst recycle_loop.simps) (auto simp: st1_def same_but_def)
  next
    case False
    define st2 where "st2 = fold (drop_committed env) ks st1"
    note D = drop_all_ok[OF ok1, of ks, folded st2_def]
    obtain st3 r where al: "mp_allocate env ly n st2 = (st3, r)" by fastforce
    note A = allocate_ok[OF conjunct1[OF D] less.prems(2,3) al]
    have sp: "spares now st st3"
      using D A K(2) L by (auto simp: spares_def st1_def restrict_map_def map_le_def dom_def)
    have sb: "same_but st st3" using D A by (simp add: same_but_def st1_def)
    have rl: "recycle_loop env now ly n st = (case r of Inl e \<Rightarrow> Some (st3, Inl e) | Inr None \<Rightarrow> recycle_loop env now ly n st3
        | Inr (Some objs) \<Rightarrow> Some (st3, Inr (Some objs)))"
      using lc False al by (subst recycle_loop.simps) (simp add: st2_def st1_def split: sum.splits option.splits)
    from A consider "r = Inr None" "store_ok others st3" | objs where "r = Inr (Some objs)" "distinct objs" "length objs = n"
        "set objs \<inter> others = {}" "store_ok (others \<union> set objs) st3" by blast
    then show ?thesis
    proof cases
      case 1
      obtain k where k: "k \<in> set ks" using False by (cases ks) auto
      have "set (od_keys (mp_committed st3)) \<subset> set (od_keys (mp_committed st))"
        using A D k K(1) unfolding dom_map_of_conv_image_fst[symmetric] set_map
        by (auto simp: st1_def dom_map_of_conv_image_fst)
      moreover have "od_wf (mp_committed st3)" using 1(2) by (simp add: store_ok_def)
      ultimately have "length (mp_committed st3) < length (mp_committed st)"
        using wf psubset_card_mono[of "set (od_keys (mp_committed st))" "set (od_keys (mp_committed st3))"]
          distinct_card[OF wf] distinct_card[of "od_keys (mp_committed st3)"] by simp
      from less.hyps[OF this 1(2) less.prems(2,3)] obtain st' r' where *: "recycle_loop env now ly n st3 = Some (st', Inr r')"
        "same_but st3 st'" "spares now st3 st'" "case r' of
           None \<Rightarrow> store_ok others st' \<and> (\<forall>k. map_of (mp_committed st') k \<noteq> None \<longrightarrow> live_lock now (mp_locks st') k)
         | Some objs \<Rightarrow> distinct objs \<and> length objs = n \<and> set objs \<inter> others = {} \<and> store_ok (others \<union> set objs) st'" by blast
      have "same_but st st'" using sb *(2) by (simp add: same_but_def)
      then show ?thesis using rl 1(1) *(1,4) spares_trans[OF sp *(3)] by auto
    next
      case 2
      then show ?thesis using rl sp sb by auto
    qed
  qed
qed

end

section \<open>The operations of the store\<close>

lemma store_ok_perm:
  "store_ok others st \<Longrightarrow> mp_alloc st' = mp_alloc st \<Longrightarrow> map_of (mp_committed st') = map_of (mp_committed st)
    \<Longrightarrow> od_wf (mp_committed st') \<Longrightarrow> store_ok others st'"
  by (simp add: store_ok_def)

lemma mark_key_cases:
  assumes "mark_key key st = (st', b)"
  obtains "b = False" "st' = st" "key \<in> mp_reserved st \<or> map_of (mp_committed st) key \<noteq> None"
    | "b = True" "st' = st\<lparr>mp_reserved := insert key (mp_reserved st)\<rparr>" "key \<notin> mp_reserved st" "map_of (mp_committed st) key = None"
  using assms by (auto simp: mark_key_def mp_has_key_def split: if_splits)

lemma fold_update_map:
  "od_wf d \<Longrightarrow> map_of (fold (\<lambda>(k, i). AList.update k i) d m) = map_of m ++ map_of d"
proof (induction d arbitrary: m)
  case (Cons kv d)
  obtain k i where kv: "kv = (k, i)" by (cases kv)
  have "map_of d k = None" using Cons.prems by (simp add: kv map_of_None_keys)
  then have "(map_of m)(k \<mapsto> i) ++ map_of d = map_of m ++ map_of (kv # d)"
    by (auto simp: kv fun_eq_iff map_add_def split: option.splits)
  moreover have "map_of (fold (\<lambda>(k, i). AList.update k i) (kv # d) m) = (map_of m)(k \<mapsto> i) ++ map_of d"
    using Cons.IH[of "AList.update k i m", unfolded map_of_update_od] Cons.prems by (simp add: kv fun_upd_def)
  ultimately show ?case by (rule trans[rotated])
qed simp

lemma fold_update_wf: "od_wf m \<Longrightarrow> od_wf (fold (\<lambda>(k, i). AList.update k i) d m)"
  by (induction d arbitrary: m) auto

lemma finish_keys_ok:
  assumes "distinct ks" and "set ks \<subseteq> mp_reserved st"
  shows "\<exists>lru. finish_keys now ks st = (st\<lparr>mp_lru := lru, mp_reserved := mp_reserved st - set ks\<rparr>, Inr ())"
  using assms
proof (induction ks arbitrary: st)
  case (Cons key ks)
  let ?st = "st\<lparr>mp_lru := lru_on_put now key (mp_lru st), mp_reserved := mp_reserved st - {key}\<rparr>"
  have "set ks \<subseteq> mp_reserved ?st" using Cons.prems by auto
  then obtain lru where "finish_keys now ks ?st = (?st\<lparr>mp_lru := lru, mp_reserved := mp_reserved ?st - set ks\<rparr>, Inr ())"
    using Cons.IH[of ?st] Cons.prems by auto
  moreover have "mp_reserved st - {key} - set ks = mp_reserved st - insert key (set ks)" by blast
  ultimately show ?case using Cons.prems by (intro exI[of _ lru]) (simp add: Let_def)
next
  case Nil
  show ?case by (rule exI[of _ "mp_lru st"]) (cases st, simp)
qed

lemma commit_ok:
  assumes "map_of (mp_pools st) h = Some d" and "od_wf d" and "set (od_keys d) \<subseteq> mp_reserved st"
  shows "\<exists>lru. commit now h st = (st\<lparr>mp_pools := AList.delete h (mp_pools st), mp_lru := lru,
      mp_committed := fold (\<lambda>(k, i). AList.update k i) d (mp_committed st), mp_reserved := mp_reserved st - set (od_keys d)\<rparr>, Inr ())"
proof -
  let ?st = "st\<lparr>mp_pools := AList.delete h (mp_pools st), mp_committed := fold (\<lambda>(k, i). AList.update k i) d (mp_committed st)\<rparr>"
  obtain lru where "finish_keys now (rev (od_keys d)) ?st = (?st\<lparr>mp_lru := lru, mp_reserved := mp_reserved ?st - set (rev (od_keys d))\<rparr>, Inr ())"
    using finish_keys_ok[of "rev (od_keys d)" ?st now] assms(2,3) by auto
  then show ?thesis using assms(1) by (intro exI[of _ lru]) (simp add: commit_def del: set_map)
qed

lemma finish_keys_locks: "mp_locks (fst (finish_keys now ks st)) = mp_locks st"
  by (induction ks arbitrary: st) (simp_all add: Let_def)

lemma commit_locks: "mp_locks (fst (commit now h st)) = mp_locks st"
  by (simp add: commit_def finish_keys_locks split: option.splits)

lemma mp_lookup_ok:
  "mp_lookup now keys n st = (let ks = takeWhile (\<lambda>k. map_of (mp_committed st) k \<noteq> None) keys
     in (st\<lparr>mp_locks := fold (lm_lock now) ks (mp_locks st)\<rparr>, n + length ks))"
  by (induction keys arbitrary: n st) (auto simp: Let_def)

lemma takeWhile_take: "take (length (takeWhile P xs)) xs = takeWhile P xs"
  by (metis takeWhile_eq_take)

lemma mp_retrieve_ok:
  assumes "od_wf (mp_committed st)"
  shows "\<exists>lru d. fst (mp_retrieve now keys objs st) = st\<lparr>mp_lru := lru, mp_committed := d\<rparr> \<and> map_of d = map_of (mp_committed st) \<and> od_wf d \<and>
    snd (mp_retrieve now keys objs st) = (if \<forall>k \<in> set keys. map_of (mp_committed st) k \<noteq> None
      then Inr (objs @ map (\<lambda>k. the (map_of (mp_committed st) k)) keys) else Inl RuntimeError)"
  using assms
proof (induction keys arbitrary: objs st)
  case Nil
  show ?case using Nil by (intro exI[of _ "mp_lru st"] exI[of _ "mp_committed st"]) (cases st, simp)
next
  case (Cons key keys)
  show ?case
  proof (cases "map_of (mp_committed st) key")
    case None
    then show ?thesis using Cons.prems by (intro exI[of _ "mp_lru st"] exI[of _ "mp_committed st"]) (cases st, simp)
  next
    case (Some i)
    then obtain d0 where d0: "od_move_to_end key (mp_committed st) = Inr d0" by (simp add: od_move_to_end_def)
    let ?st = "st\<lparr>mp_lru := update_chunk_hash_dict now key (mp_lru st), mp_committed := d0\<rparr>"
    have m: "map_of d0 = map_of (mp_committed st)" and wf: "od_wf d0"
      using map_of_move_to_end[OF d0] od_wf_move_to_end[OF d0 Cons.prems] by simp_all
    have e: "mp_retrieve now (key # keys) objs st = mp_retrieve now keys (objs @ [i]) ?st"
      using Some d0 by (simp add: lru_on_hit_def)
    have "od_wf (mp_committed ?st)" using wf by simp
    from Cons.IH[OF this, of "objs @ [i]"] obtain lru d where *: "fst (mp_retrieve now keys (objs @ [i]) ?st) = ?st\<lparr>mp_lru := lru, mp_committed := d\<rparr>"
      "map_of d = map_of (mp_committed ?st)" "od_wf d"
      "snd (mp_retrieve now keys (objs @ [i]) ?st) = (if \<forall>k \<in> set keys. map_of (mp_committed ?st) k \<noteq> None
        then Inr ((objs @ [i]) @ map (\<lambda>k. the (map_of (mp_committed ?st) k)) keys) else Inl RuntimeError)" by blast
    then show ?thesis unfolding e using Some m by (intro exI[of _ lru] exI[of _ d]) simp
  qed
qed

section \<open>Locks that are counted\<close>

definition lock_count :: "('k, lock_meta) odict \<Rightarrow> 'k \<Rightarrow> int" where
  "lock_count locks k = (case map_of locks k of None \<Rightarrow> 0 | Some m \<Rightarrow> lm_count m)"

text \<open>More than \<open>n\<close> locks, and none of them ends before \<open>T\<close>.\<close>

definition guarded :: "int \<Rightarrow> nat \<Rightarrow> ('k, lock_meta) odict \<Rightarrow> 'k \<Rightarrow> bool" where
  "guarded T n locks k \<longleftrightarrow> (\<exists>m. map_of locks k = Some m \<and> int n < lm_count m \<and> T \<le> lm_expire m)"

lemma lock_one: "lock_count (lm_lock now key locks) k = lock_count locks k + of_bool (k = key)"
  "map_of (lm_lock now key locks) k = (if k = key then Some \<lparr> lm_count = lock_count locks key + 1, lm_expire = now + default_ttl \<rparr> else map_of locks k)"
  by (auto simp: lock_count_def lm_lock_def split: option.splits)

lemma lock_all: "lock_count (fold (lm_lock now) ks locks) k = lock_count locks k + int (count_list ks k)"
  "k \<in> set ks \<Longrightarrow> \<exists>c. map_of (fold (lm_lock now) ks locks) k = Some \<lparr> lm_count = c, lm_expire = now + default_ttl \<rparr>"
  "k \<notin> set ks \<Longrightarrow> map_of (fold (lm_lock now) ks locks) k = map_of locks k"
proof (induction ks arbitrary: locks)
  case (Cons key ks)
  {
    case 1
    show ?case using Cons.IH(1)[of "lm_lock now key locks"] by (simp add: lock_one)
  next
    case 2
    then show ?case using Cons.IH(2)[of "lm_lock now key locks"] Cons.IH(3)[of "lm_lock now key locks"] by (cases "k \<in> set ks") (auto simp: lock_one)
  next
    case 3
    then show ?case using Cons.IH(3)[of "lm_lock now key locks"] by (simp add: lock_one)
  }
qed simp_all

lemma guarded_lock:
  assumes "guarded T n locks k" and "T \<le> now + default_ttl"
  shows "guarded T (n + count_list ks k) (fold (lm_lock now) ks locks) k"
proof -
  obtain m where m: "map_of locks k = Some m" "int n < lm_count m" "T \<le> lm_expire m" using assms(1) by (auto simp: guarded_def)
  show ?thesis
  proof (cases "k \<in> set ks")
    case True
    obtain c where c: "map_of (fold (lm_lock now) ks locks) k = Some \<lparr> lm_count = c, lm_expire = now + default_ttl \<rparr>"
      using lock_all(2)[OF True] by blast
    then have "c = lm_count m + int (count_list ks k)"
      using lock_all(1)[of now ks locks k] m(1) by (simp add: lock_count_def)
    then show ?thesis using c m(2) assms(2) by (simp add: guarded_def)
  next
    case False
    then have "map_of (fold (lm_lock now) ks locks) k = Some m" "count_list ks k = 0" using m(1) lock_all(3)[of k ks now locks] by simp_all
    then show ?thesis using m by (simp add: guarded_def)
  qed
qed

lemma guarded_own:
  assumes "int n \<le> lock_count locks k" and "k \<in> set ks"
  shows "guarded (now + default_ttl) n (fold (lm_lock now) ks locks) k"
proof -
  obtain c where c: "map_of (fold (lm_lock now) ks locks) k = Some \<lparr> lm_count = c, lm_expire = now + default_ttl \<rparr>"
    using lock_all(2)[OF assms(2)] by blast
  then have "c = lock_count locks k + int (count_list ks k)"
    using lock_all(1)[of now ks locks k] by (simp add: lock_count_def)
  moreover have "0 < count_list ks k" using assms(2) by (meson count_list_0_iff gr0I)
  ultimately show ?thesis using c assms(1) by (simp add: guarded_def)
qed

lemma guarded_unlock:
  assumes "guarded T (n + count_list ks k) locks k"
  shows "guarded T n (fold lm_unlock ks locks) k"
  using assms
proof (induction ks arbitrary: locks)
  case (Cons key ks)
  have "guarded T (n + count_list ks k) (lm_unlock key locks) k"
    using Cons.prems by (auto simp: guarded_def lm_unlock_def split: option.splits if_splits)
  then show ?case using Cons.IH by simp
qed simp

end
