(* ===== verification/MPOwners.thy ===== *)
theory MPOwners
  imports MPStorage
begin

text \<open>
  What the storage manager of the multi-process server promises when its clients run at the same time:
  every key and every object has one owner, a key that was looked up can be retrieved, and what goes
  wrong when a reservation fails or a lock expires.
\<close>

declare map_of_eq_Some_iff [simp del] Some_eq_map_of_iff [simp del]

section \<open>Who owns a key and an object\<close>

text \<open>A key that is not committed belongs to a pool or to a thread that is reserving it.\<close>

datatype 't owner = Pool int | Thread 't

fun marked_of :: "('k, 's, 'd) resv \<Rightarrow> 'k list" where
  "marked_of Idle = []"
| "marked_of (Marking ly h keys marked) = marked"
| "marked_of (Recycling ly h marked) = marked"
| "marked_of (Holding h marked objs) = marked"

fun handle_of :: "('k, 's, 'd) resv \<Rightarrow> int option" where
  "handle_of Idle = None"
| "handle_of (Marking ly h keys marked) = Some h"
| "handle_of (Recycling ly h marked) = Some h"
| "handle_of (Holding h marked objs) = Some h"

fun objs_of :: "('k, 's, 'd) resv \<Rightarrow> 'k \<Rightarrow> nat option" where
  "objs_of (Holding h marked objs) = map_of (zip marked objs)"
| "objs_of _ = Map.empty"

definition held :: "('t, 'k, 's, 'd) mp_system \<Rightarrow> 't owner \<Rightarrow> 'k \<Rightarrow> nat option" where
  "held sy w = (case w of Thread t \<Rightarrow> objs_of (ms_run sy t)
     | Pool h \<Rightarrow> (case map_of (mp_pools (ms_store sy)) h of None \<Rightarrow> Map.empty | Some d \<Rightarrow> map_of d))"

definition marks :: "('t, 'k, 's, 'd) mp_system \<Rightarrow> 't owner \<Rightarrow> 'k set" where
  "marks sy w = (case w of Thread t \<Rightarrow> set (marked_of (ms_run sy t)) | Pool h \<Rightarrow> dom (held sy w))"

fun run_ok :: "('s, 'd) mem_env \<Rightarrow> ('k, 's, 'd) resv \<Rightarrow> bool" where
  "run_ok env Idle = True"
| "run_ok env (Marking ly h keys marked) = (distinct marked \<and> sized env ly)"
| "run_ok env (Recycling ly h marked) = (distinct marked \<and> marked \<noteq> [] \<and> sized env ly)"
| "run_ok env (Holding h marked objs) = (distinct marked \<and> distinct objs \<and> length objs = length marked)"

definition sole :: "('a \<Rightarrow> 'b set) \<Rightarrow> bool" where
  "sole f \<longleftrightarrow> (\<forall>a b x. x \<in> f a \<longrightarrow> x \<in> f b \<longrightarrow> a = b)"

definition handles_ok :: "('t, 'k, 's, 'd) mp_system \<Rightarrow> bool" where
  "handles_ok sy \<longleftrightarrow> od_wf (mp_pools (ms_store sy)) \<and> (\<forall>h d. map_of (mp_pools (ms_store sy)) h = Some d \<longrightarrow> od_wf d \<and> h < mp_next_handle (ms_store sy)) \<and>
     (\<forall>t h. handle_of (ms_run sy t) = Some h \<longrightarrow> h < mp_next_handle (ms_store sy) \<and> map_of (mp_pools (ms_store sy)) h = None) \<and>
     (\<forall>t u h. handle_of (ms_run sy t) = Some h \<longrightarrow> handle_of (ms_run sy u) = Some h \<longrightarrow> t = u)"

definition objs_ok :: "('t, 'k, 's, 'd) mp_system \<Rightarrow> bool" where
  "objs_ok sy \<longleftrightarrow> store_ok (\<Union>w. ran (held sy w)) (ms_store sy) \<and> sole (\<lambda>w. ran (held sy w)) \<and> (\<forall>w. inj_on (held sy w) (dom (held sy w)))"

definition keys_ok :: "('t, 'k, 's, 'd) mp_system \<Rightarrow> bool" where
  "keys_ok sy \<longleftrightarrow> sole (marks sy) \<and> (\<Union>w. marks sy w) \<subseteq> mp_reserved (ms_store sy) \<and>
     mp_reserved (ms_store sy) \<inter> dom (map_of (mp_committed (ms_store sy))) = {}"

definition mp_inv :: "('s, 'd) mem_env \<Rightarrow> ('t, 'k, 's, 'd) mp_system \<Rightarrow> bool" where
  "mp_inv env sy \<longleftrightarrow> objs_ok sy \<and> keys_ok sy \<and> handles_ok sy \<and> (\<forall>t. run_ok env (ms_run sy t))"

lemma mp_invI:
  assumes "store_ok (\<Union>w. ran (held sy w)) (ms_store sy)" and "sole (marks sy)" and "sole (\<lambda>w. ran (held sy w))"
    and "\<And>w. inj_on (held sy w) (dom (held sy w))" and "\<And>w. marks sy w \<subseteq> mp_reserved (ms_store sy)"
    and "mp_reserved (ms_store sy) \<inter> dom (map_of (mp_committed (ms_store sy))) = {}" and "handles_ok sy"
    and "\<And>t. run_ok env (ms_run sy t)"
  shows "mp_inv env sy"
  using assms by (simp add: mp_inv_def objs_ok_def keys_ok_def UN_subset_iff)

lemma disjoint_mono: "A \<subseteq> B \<Longrightarrow> C \<subseteq> D \<Longrightarrow> B \<inter> D = {} \<Longrightarrow> A \<inter> C = {}"
  by blast

lemma sole_upd:
  assumes "sole f" and "\<And>b. b \<noteq> a \<Longrightarrow> X \<inter> f b = {}"
  shows "sole (f(a := X))"
  using assms(1) assms(2) unfolding sole_def by (metis IntI empty_iff fun_upd_apply)

lemma sole_move: "sole f \<Longrightarrow> sole (f(a := {}, b := f a))" if "f b = {} \<or> a = b"
  using that by (auto simp: sole_def)

lemma sole_mono: "sole f \<Longrightarrow> (\<And>a. g a \<subseteq> f a) \<Longrightarrow> sole g"
  unfolding sole_def by blast

lemma Union_upd: "(\<Union>w. (f(a := X)) w) = X \<union> (\<Union>w \<in> - {a}. f w)"
  by (auto split: if_splits)

lemma Union_move: "f b = {} \<Longrightarrow> a \<noteq> b \<Longrightarrow> (\<Union>w. (f(a := {}, b := f a)) w) = (\<Union>w. f w)"
  by (auto split: if_splits)

lemma sole_Union_diff: "sole f \<Longrightarrow> (\<Union>w \<in> - {a}. f w) = (\<Union>w. f w) - f a"
  unfolding sole_def by blast

lemma held_thread [simp]: "held sy (Thread t) = objs_of (ms_run sy t)"
  and marks_thread [simp]: "marks sy (Thread t) = set (marked_of (ms_run sy t))"
  and marks_pool [simp]: "marks sy (Pool h) = dom (held sy (Pool h))"
  by (simp_all add: held_def marks_def)

lemma owner_upd_thread:
  assumes "ms_run sy' = (ms_run sy)(t := r)" and "mp_pools (ms_store sy') = mp_pools (ms_store sy)"
  shows "held sy' = (held sy)(Thread t := objs_of r)" and "marks sy' = (marks sy)(Thread t := set (marked_of r))"
proof -
  show h: "held sy' = (held sy)(Thread t := objs_of r)"
    using assms by (auto simp: held_def fun_eq_iff split: owner.splits)
  show "marks sy' = (marks sy)(Thread t := set (marked_of r))"
    using assms by (auto simp: marks_def fun_eq_iff h split: owner.splits)
qed

lemma owner_same:
  assumes "ms_run sy' = ms_run sy" and "mp_pools (ms_store sy') = mp_pools (ms_store sy)"
  shows "held sy' = held sy" and "marks sy' = marks sy" and "mp_next_handle (ms_store sy') = mp_next_handle (ms_store sy) \<Longrightarrow> handles_ok sy' = handles_ok sy"
proof -
  show h: "held sy' = held sy" using assms by (auto simp: held_def fun_eq_iff split: owner.splits)
  show "marks sy' = marks sy" using assms by (auto simp: marks_def fun_eq_iff h split: owner.splits)
  show "mp_next_handle (ms_store sy') = mp_next_handle (ms_store sy) \<Longrightarrow> handles_ok sy' = handles_ok sy"
    using assms by (simp add: handles_ok_def)
qed

lemma owner_fill:
  assumes "ms_run sy t = r" and "handle_of r = Some h" and "handles_ok sy"
    and "sy' = \<lparr> ms_store = put_pool h d (ms_store sy), ms_run = (ms_run sy)(t := Idle) \<rparr>"
  shows "held sy' = (held sy)(Thread t := Map.empty, Pool h := map_of d)"
    and "marks sy' = (marks sy)(Thread t := {}, Pool h := dom (map_of d))"
    and "held sy (Pool h) = Map.empty"
proof -
  show h: "held sy' = (held sy)(Thread t := Map.empty, Pool h := map_of d)"
    using assms by (auto simp: held_def fun_eq_iff put_pool_def split: owner.splits)
  show "marks sy' = (marks sy)(Thread t := {}, Pool h := dom (map_of d))"
    using h by (auto simp: fun_eq_iff marks_def assms(4) split: owner.splits)
  show "held sy (Pool h) = Map.empty" using assms(1-3) by (auto simp: handles_ok_def held_def)
qed

lemma objs_thread:
  assumes "objs_ok sy" and "ms_run sy' = (ms_run sy)(t := r)" and "mp_pools (ms_store sy') = mp_pools (ms_store sy)"
    and "objs_of (ms_run sy t) = Map.empty" and "inj_on (objs_of r) (dom (objs_of r))"
    and "ran (objs_of r) \<inter> (\<Union>w. ran (held sy w)) = {}" and "store_ok ((\<Union>w. ran (held sy w)) \<union> ran (objs_of r)) (ms_store sy')"
  shows "objs_ok sy'"
proof -
  note H = owner_upd_thread(1)[OF assms(2,3)]
  have f: "(\<lambda>w. ran (held sy' w)) = (\<lambda>w. ran (held sy w))(Thread t := ran (objs_of r))" by (auto simp: H fun_eq_iff)
  have "ran (held sy (Thread t)) = {}" by (simp add: assms(4))
  then have u: "(\<Union>w. ran (held sy' w)) = (\<Union>w. ran (held sy w)) \<union> ran (objs_of r)" unfolding f by (auto split: if_splits) (metis empty_iff held_thread)
  have "sole (\<lambda>w. ran (held sy' w))" unfolding f
    by (rule sole_upd) (use assms(1,6) in \<open>auto simp: objs_ok_def\<close>)
  moreover have "inj_on (held sy' w) (dom (held sy' w))" for w
    using assms(1,5) by (cases "w = Thread t") (auto simp: H objs_ok_def)
  ultimately show ?thesis using assms(7) unfolding objs_ok_def u by simp
qed

lemma keys_thread:
  assumes "keys_ok sy" and "ms_run sy' = (ms_run sy)(t := r)" and "mp_pools (ms_store sy') = mp_pools (ms_store sy)"
    and "set (marked_of r) \<subseteq> set (marked_of (ms_run sy t)) \<union> X" and "X \<inter> mp_reserved (ms_store sy) = {}"
    and "mp_reserved (ms_store sy') = mp_reserved (ms_store sy) \<union> X"
    and "mp_reserved (ms_store sy') \<inter> dom (map_of (mp_committed (ms_store sy'))) = {}"
  shows "keys_ok sy'"
proof -
  note M = owner_upd_thread(2)[OF assms(2,3)]
  have K: "sole (marks sy)" "marks sy w \<subseteq> mp_reserved (ms_store sy)" for w using assms(1) by (auto simp: keys_ok_def)
  have "set (marked_of r) \<inter> marks sy w = {}" if h: "w \<noteq> Thread t" for w
  proof -
    have "set (marked_of (ms_run sy t)) \<inter> marks sy w = {}"
      using K(1) h unfolding sole_def by (metis disjoint_iff marks_thread)
    then show ?thesis using assms(4,5) K(2)[of w] by blast
  qed
  then have "sole (marks sy')" unfolding M by (intro sole_upd[OF K(1)]) auto
  moreover have "marks sy' w \<subseteq> mp_reserved (ms_store sy')" for w
    using K(2)[of w] K(2)[of "Thread t"] assms(4,6) by (cases "w = Thread t") (auto simp: M)
  ultimately show ?thesis using assms(7) by (auto simp: keys_ok_def)
qed

lemma handles_thread:
  assumes "handles_ok sy" and "ms_run sy' = (ms_run sy)(t := r)" and "mp_pools (ms_store sy') = mp_pools (ms_store sy)"
    and "mp_next_handle (ms_store sy') = mp_next_handle (ms_store sy)" and "handle_of r = handle_of (ms_run sy t) \<or> handle_of r = None"
  shows "handles_ok sy'"
proof -
  have h: "handle_of (ms_run sy' u) = handle_of (ms_run sy u) \<or> handle_of (ms_run sy' u) = None" for u
    using assms(2,5) by auto
  then have h': "handle_of (ms_run sy' u) = Some x \<Longrightarrow> handle_of (ms_run sy u) = Some x" for u x by (metis option.distinct(1))
  show ?thesis using assms(1) h' unfolding handles_ok_def assms(3,4) by blast
qed

lemma mp_inv_thread:
  assumes inv: "mp_inv env sy" and run: "ms_run sy' = (ms_run sy)(t := r)" and sb: "same_but (ms_store sy) (ms_store sy')"
    and h: "handle_of r = handle_of (ms_run sy t) \<or> handle_of r = None" and m: "marked_of r = marked_of (ms_run sy t) \<or> marked_of r = []"
    and c: "map_of (mp_committed (ms_store sy')) \<subseteq>\<^sub>m map_of (mp_committed (ms_store sy))" and ok: "run_ok env r"
    and none: "objs_of (ms_run sy t) = Map.empty" and inj: "inj_on (objs_of r) (dom (objs_of r))"
    and new: "ran (objs_of r) \<inter> (\<Union>w. ran (held sy w)) = {}" and st: "store_ok ((\<Union>w. ran (held sy w)) \<union> ran (objs_of r)) (ms_store sy')"
  shows "mp_inv env sy'"
proof -
  have p: "mp_pools (ms_store sy') = mp_pools (ms_store sy)" "mp_reserved (ms_store sy') = mp_reserved (ms_store sy)"
    "mp_next_handle (ms_store sy') = mp_next_handle (ms_store sy)" using sb by (simp_all add: same_but_def)
  have D: "dom (map_of (mp_committed (ms_store sy'))) \<subseteq> dom (map_of (mp_committed (ms_store sy)))" using c by (rule map_le_implies_dom_le)
  have "mp_reserved (ms_store sy) \<inter> dom (map_of (mp_committed (ms_store sy))) = {}" using inv by (simp add: mp_inv_def keys_ok_def)
  then have "mp_reserved (ms_store sy') \<inter> dom (map_of (mp_committed (ms_store sy'))) = {}"
    unfolding p(2) by (rule disjoint_mono[OF order_refl D])
  then have "keys_ok sy'"
    using inv m p(2) by (intro keys_thread[OF _ run p(1), of "{}"]) (simp_all add: mp_inv_def, auto)
  moreover have "objs_ok sy'" using inv by (intro objs_thread[OF _ run p(1) none inj new st]) (simp add: mp_inv_def)
  moreover have "handles_ok sy'" using inv by (intro handles_thread[OF _ run p(1,3) h]) (simp add: mp_inv_def)
  ultimately show ?thesis using inv ok by (simp add: mp_inv_def run)
qed

lemma mp_inv_store:
  assumes inv: "mp_inv env sy" and run: "ms_run sy' = ms_run sy" and sb: "same_but (ms_store sy) (ms_store sy')"
    and c: "dom (map_of (mp_committed (ms_store sy'))) = dom (map_of (mp_committed (ms_store sy)))"
    and st: "store_ok (\<Union>w. ran (held sy w)) (ms_store sy')"
  shows "mp_inv env sy'"
proof -
  have p: "mp_pools (ms_store sy') = mp_pools (ms_store sy)" "mp_reserved (ms_store sy') = mp_reserved (ms_store sy)"
    "mp_next_handle (ms_store sy') = mp_next_handle (ms_store sy)" using sb by (simp_all add: same_but_def)
  note O = owner_same[OF run p(1)]
  show ?thesis using inv st c p O(3)[OF p(3)] by (simp add: mp_inv_def objs_ok_def keys_ok_def O(1,2) run)
qed

lemma inj_zip: "distinct objs \<Longrightarrow> length objs = length ks \<Longrightarrow> distinct ks \<Longrightarrow>
    inj_on (map_of (zip ks objs)) (dom (map_of (zip ks objs))) \<and> ran (map_of (zip ks objs)) = set objs \<and> dom (map_of (zip ks objs)) = set ks"
  by (auto simp: ran_map_of_zip inj_on_def in_set_conv_nth map_of_zip_nth nth_eq_iff_index_eq)

section \<open>The steps keep the owners\<close>

lemma put_pool_simps [simp]:
  "mp_alloc (put_pool h d st) = mp_alloc st" "mp_committed (put_pool h d st) = mp_committed st" "mp_reserved (put_pool h d st) = mp_reserved st"
  "mp_next_handle (put_pool h d st) = mp_next_handle st" "mp_pools (put_pool h d st) = AList.update h d (mp_pools st)"
  "mp_locks (put_pool h d st) = mp_locks st"
  by (simp_all add: put_pool_def)

lemma fill_inv:
  assumes inv: "mp_inv env sy" and r: "ms_run sy t = r" "handle_of r = Some h" and d: "objs_of r = map_of d" "set (marked_of r) = set (od_keys d)" "od_wf d"
    and sy': "sy' = \<lparr> ms_store = put_pool h d (ms_store sy), ms_run = (ms_run sy)(t := Idle) \<rparr>"
  shows "mp_inv env sy'"
proof -
  have H: "handles_ok sy" using inv by (simp add: mp_inv_def)
  note F = owner_fill[OF r H sy']
  have dm: "dom (map_of d) = set (marked_of r)" by (simp add: d(2) dom_map_of_conv_image_fst)
  have m: "marks sy' = (marks sy)(Thread t := {}, Pool h := marks sy (Thread t))" unfolding F(2) dm by (simp add: r(1))
  have h: "(\<lambda>w. ran (held sy' w)) = (\<lambda>w. ran (held sy w))(Thread t := {}, Pool h := ran (held sy (Thread t)))"
    unfolding F(1) by (auto simp: r(1) d(1) fun_eq_iff)
  have e: "ran (held sy (Pool h)) = {}" "marks sy (Pool h) = {}" using F(3) by simp_all
  have u: "(\<Union>w. ran (held sy' w)) = (\<Union>w. ran (held sy w))"
    unfolding h by (rule Union_move) (use e(1) in simp_all)
  have "sole (marks sy')" "sole (\<lambda>w. ran (held sy' w))"
    unfolding m h by (rule sole_move; use inv e in \<open>simp add: mp_inv_def keys_ok_def objs_ok_def\<close>)+
  moreover have "marks sy' w \<subseteq> mp_reserved (ms_store sy')" for w
    using inv unfolding m by (auto simp: mp_inv_def keys_ok_def sy' UN_subset_iff simp del: marks_thread marks_pool)
  moreover have "inj_on (held sy' w) (dom (held sy' w))" for w
  proof -
    have "inj_on (held sy w) (dom (held sy w))" for w using inv by (simp add: mp_inv_def objs_ok_def)
    from this[of w] this[of "Thread t"] show ?thesis unfolding F(1) by (auto simp: r(1) d(1))
  qed
  moreover have "store_ok (\<Union>w. ran (held sy w)) (ms_store sy')"
    using inv by (simp add: mp_inv_def objs_ok_def sy' store_ok_def)
  moreover have "handles_ok sy'"
    using H r d(3) unfolding handles_ok_def by (auto simp: sy')
  moreover have "mp_reserved (ms_store sy') \<inter> dom (map_of (mp_committed (ms_store sy'))) = {}"
    using inv by (simp add: sy' mp_inv_def keys_ok_def)
  moreover have "run_ok env (ms_run sy' u)" for u using inv by (simp add: sy' mp_inv_def)
  ultimately show ?thesis by (intro mp_invI) (simp_all add: u)
qed

lemma commit_inv:
  assumes inv: "mp_inv env sy" and p: "map_of (mp_pools (ms_store sy)) h = Some d"
    and sy': "sy' = sy\<lparr>ms_store := fst (commit now h (ms_store sy))\<rparr>"
  shows "mp_inv env sy'" and "snd (commit now h (ms_store sy)) = Inr ()"
    and "map_of (mp_committed (ms_store sy')) = map_of (mp_committed (ms_store sy)) ++ map_of d"
proof -
  let ?st = "ms_store sy" and ?O = "\<Union>w. ran (held sy w)"
  have H: "handles_ok sy" and O: "objs_ok sy" and K: "keys_ok sy" using inv by (simp_all add: mp_inv_def)
  have wf: "od_wf d" using H p by (auto simp: handles_ok_def)
  have hp: "held sy (Pool h) = map_of d" using p by (simp add: held_def)
  have mp: "marks sy (Pool h) = set (od_keys d)" by (simp add: hp dom_map_of_conv_image_fst)
  have sub: "set (od_keys d) \<subseteq> mp_reserved ?st" using K unfolding keys_ok_def mp[symmetric] by blast
  obtain lru where c: "commit now h ?st = (?st\<lparr>mp_pools := AList.delete h (mp_pools ?st), mp_lru := lru,
      mp_committed := fold (\<lambda>(k, i). AList.update k i) d (mp_committed ?st), mp_reserved := mp_reserved ?st - set (od_keys d)\<rparr>, Inr ())"
    using commit_ok[OF p wf sub] by blast
  then show "snd (commit now h ?st) = Inr ()" by simp
  have S: "mp_pools (ms_store sy') = AList.delete h (mp_pools ?st)" "mp_reserved (ms_store sy') = mp_reserved ?st - set (od_keys d)"
    "mp_next_handle (ms_store sy') = mp_next_handle ?st" "mp_alloc (ms_store sy') = mp_alloc ?st" "ms_run sy' = ms_run sy"
    "mp_committed (ms_store sy') = fold (\<lambda>(k, i). AList.update k i) d (mp_committed ?st)"
    by (simp_all add: sy' c)
  show cm: "map_of (mp_committed (ms_store sy')) = map_of (mp_committed ?st) ++ map_of d" unfolding S(6) by (rule fold_update_map[OF wf])
  have h: "held sy' = (held sy)(Pool h := Map.empty)" by (auto simp: held_def S fun_eq_iff split: owner.splits)
  have m: "marks sy' = (marks sy)(Pool h := {})" by (auto simp: marks_def h S(5) fun_eq_iff split: owner.splits)
  have sole: "sole (marks sy)" "sole (\<lambda>w. ran (held sy w))" using K O by (simp_all add: keys_ok_def objs_ok_def)
  have hr: "(\<lambda>w. ran (held sy' w)) = (\<lambda>w. ran (held sy w))(Pool h := {})" unfolding h by (auto simp: fun_eq_iff)
  have u: "(\<Union>w. ran (held sy' w)) = ?O - ran (map_of d)"
  proof -
    have "(\<Union>w. ran (held sy' w)) = (\<Union>w \<in> - {Pool h}. ran (held sy w))" unfolding h by (auto split: if_splits)
    then show ?thesis using sole_Union_diff[OF sole(2), of "Pool h"] by (simp add: hp)
  qed
  have st: "store_ok ?O ?st" using O by (simp add: objs_ok_def)
  have rd: "ran (map_of d) \<subseteq> ?O" unfolding hp[symmetric] by blast
  have dj: "dom (map_of (mp_committed ?st)) \<inter> dom (map_of d) = {}"
  proof -
    have "mp_reserved ?st \<inter> dom (map_of (mp_committed ?st)) = {}" using K by (simp add: keys_ok_def)
    moreover have "dom (map_of d) \<subseteq> mp_reserved ?st" using sub by (simp add: dom_map_of_conv_image_fst)
    ultimately show ?thesis by blast
  qed
  have rn: "ran (map_of (mp_committed ?st) ++ map_of d) = ran (map_of (mp_committed ?st)) \<union> ran (map_of d)"
    using dj by (intro ran_map_add) auto
  have inj: "inj_on (map_of d) (dom (map_of d))" using O hp unfolding objs_ok_def by metis
  have "store_ok (?O - ran (map_of d)) (ms_store sy')"
  proof -
    have "inj_on (map_of (mp_committed ?st) ++ map_of d) (dom (map_of (mp_committed ?st) ++ map_of d))"
    proof (rule inj_onI)
      fix x y assume *: "x \<in> dom (map_of (mp_committed ?st) ++ map_of d)" "y \<in> dom (map_of (mp_committed ?st) ++ map_of d)"
        "(map_of (mp_committed ?st) ++ map_of d) x = (map_of (mp_committed ?st) ++ map_of d) y"
      have "ran (map_of (mp_committed ?st)) \<inter> ran (map_of d) = {}" using st rd by (auto simp: store_ok_def)
      then show "x = y" using * inj st
        by (auto simp: map_add_def store_ok_def inj_on_def ran_def dom_def split: option.splits)
    qed
    moreover have "od_wf (mp_committed (ms_store sy'))" using st unfolding S(6) by (intro fold_update_wf) (simp add: store_ok_def)
    ultimately show ?thesis using st rd unfolding store_ok_def cm rn S(4) by auto
  qed
  moreover have "sole (marks sy')" "sole (\<lambda>w. ran (held sy' w))"
    unfolding m hr by (rule sole_mono[OF sole(1)], simp, rule sole_mono[OF sole(2)], simp)
  moreover have "marks sy' w \<subseteq> mp_reserved (ms_store sy')" for w
  proof (cases "w = Pool h")
    case False
    then have "marks sy w \<inter> set (od_keys d) = {}" using sole(1) mp unfolding sole_def by (metis disjoint_iff)
    moreover have "marks sy w \<subseteq> mp_reserved ?st" using K by (auto simp: keys_ok_def simp del: marks_pool)
    ultimately show ?thesis using False by (auto simp: m S(2))
  qed (simp add: m)
  moreover have "inj_on (held sy' w) (dom (held sy' w))" for w using O by (auto simp: h objs_ok_def)
  moreover have "handles_ok sy'" using H unfolding handles_ok_def S(3,5) S(1) by (auto split: if_splits)
  moreover have "mp_reserved (ms_store sy') \<inter> dom (map_of (mp_committed (ms_store sy'))) = {}"
  proof -
    have "mp_reserved ?st \<inter> dom (map_of (mp_committed ?st)) = {}" using K by (simp add: keys_ok_def)
    then show ?thesis unfolding cm S(2) by (auto simp: dom_map_of_conv_image_fst)
  qed
  moreover have "run_ok env (ms_run sy' u)" for u using inv by (simp add: S(5) mp_inv_def)
  ultimately show "mp_inv env sy'" by (intro mp_invI) (simp_all add: u)
qed

lemma enter_inv:
  assumes inv: "mp_inv env sy" and t: "ms_run sy t = Idle" and sz: "sized env ly" and n: "new_handle (ms_store sy) = (st, h)"
  shows "mp_inv env \<lparr> ms_store = st, ms_run = (ms_run sy)(t := Marking ly h keys []) \<rparr>"
proof -
  let ?sy = "\<lparr> ms_store = st, ms_run = (ms_run sy)(t := Marking ly h keys []) \<rparr>"
  have st: "st = (ms_store sy)\<lparr>mp_next_handle := mp_next_handle (ms_store sy) + 1\<rparr>" and h: "h = mp_next_handle (ms_store sy)"
    using n by (auto simp: new_handle_def)
  have "objs_ok ?sy"
  proof (rule objs_thread[of sy ?sy t "Marking ly h keys []"])
    show "objs_ok sy" using inv by (simp add: mp_inv_def)
    then show "store_ok ((\<Union>w. ran (held sy w)) \<union> ran (objs_of (Marking ly h keys []))) (ms_store ?sy)"
      by (simp add: objs_ok_def st store_ok_def)
  qed (simp_all add: t st)
  moreover have "keys_ok ?sy"
  proof (rule keys_thread[of sy ?sy t "Marking ly h keys []" "{}"])
    show "keys_ok sy" using inv by (simp add: mp_inv_def)
    then show "mp_reserved (ms_store ?sy) \<inter> dom (map_of (mp_committed (ms_store ?sy))) = {}" by (simp add: keys_ok_def st)
  qed (simp_all add: st)
  moreover have "handles_ok ?sy"
  proof -
    have H: "handles_ok sy" using inv by (simp add: mp_inv_def)
    have "map_of (mp_pools (ms_store sy)) h = None"
    proof (rule ccontr)
      assume "map_of (mp_pools (ms_store sy)) h \<noteq> None"
      then obtain d where "map_of (mp_pools (ms_store sy)) h = Some d" by blast
      then have "h < mp_next_handle (ms_store sy)" using H unfolding handles_ok_def by blast
      then show False using h by simp
    qed
    moreover have "handle_of (ms_run sy u) \<noteq> Some h" for u using H h unfolding handles_ok_def by (metis less_irrefl)
    moreover have a: "map_of (mp_pools (ms_store sy)) x = Some d \<Longrightarrow> od_wf d \<and> x < mp_next_handle (ms_store sy)"
      and b: "handle_of (ms_run sy u) = Some x \<Longrightarrow> x < mp_next_handle (ms_store sy) \<and> map_of (mp_pools (ms_store sy)) x = None"
      and c: "handle_of (ms_run sy u) = Some x \<Longrightarrow> handle_of (ms_run sy v) = Some x \<Longrightarrow> u = v" for u v x d
      using H unfolding handles_ok_def by blast+
    moreover have "x < mp_next_handle (ms_store ?sy)" if "x < mp_next_handle (ms_store sy) \<or> x = h" for x using that h by (auto simp: st)
    moreover have "mp_pools (ms_store ?sy) = mp_pools (ms_store sy)" by (simp add: st)
    moreover have "handle_of (ms_run ?sy u) = (if u = t then Some h else handle_of (ms_run sy u))" for u by simp
    moreover have "od_wf (mp_pools (ms_store sy))" using H by (simp add: handles_ok_def)
    ultimately show ?thesis unfolding handles_ok_def by (metis option.inject)
  qed
  ultimately show ?thesis using inv sz by (simp add: mp_inv_def)
qed

lemma mark_inv:
  assumes inv: "mp_inv env sy" and t: "ms_run sy t = Marking ly h (key # keys) marked" and m: "mark_key key (ms_store sy) = (st, b)"
  shows "mp_inv env \<lparr> ms_store = st, ms_run = (ms_run sy)(t := Marking ly h keys (if b then marked @ [key] else marked)) \<rparr>" (is "mp_inv env ?sy")
proof -
  have ok: "distinct marked" "sized env ly" using inv t unfolding mp_inv_def by (metis run_ok.simps(2))+
  have st0: "store_ok (\<Union>w. ran (held sy w)) (ms_store sy)" using inv by (simp add: mp_inv_def objs_ok_def)
  show ?thesis
  proof (cases rule: mark_key_cases[OF m])
    case 1
    then show ?thesis using ok t st0
      by (intro mp_inv_thread[OF inv, where r = "Marking ly h keys marked" and t = t]) (simp_all add: same_but_def)
  next
    case 2
    let ?r = "Marking ly h keys (marked @ [key])"
    have R: "?sy = \<lparr> ms_store = st, ms_run = (ms_run sy)(t := ?r) \<rparr>" using 2 by simp
    have K: "keys_ok sy" "objs_ok sy" "handles_ok sy" using inv by (simp_all add: mp_inv_def)
    have "mp_reserved (ms_store sy) \<inter> dom (map_of (mp_committed (ms_store sy))) = {}" using K(1) by (simp add: keys_ok_def)
    then have "mp_reserved st \<inter> dom (map_of (mp_committed st)) = {}" using 2 by auto
    then have "keys_ok ?sy"
      unfolding R using 2 t by (intro keys_thread[OF K(1), where r = ?r and t = t and X = "{key}"]) simp_all
    moreover have "objs_ok ?sy"
      unfolding R by (rule objs_thread[OF K(2), where r = ?r and t = t]) (use 2 t st0 in \<open>simp_all add: store_ok_def\<close>)
    moreover have "handles_ok ?sy"
      unfolding R by (rule handles_thread[OF K(3), where r = ?r and t = t]) (use 2 t in simp_all)
    moreover have "key \<notin> set marked"
    proof
      assume "key \<in> set marked"
      then have "key \<in> marks sy (Thread t)" using t by simp
      then show False using K(1) 2(3) by (auto simp: keys_ok_def simp del: marks_thread)
    qed
    ultimately show ?thesis using inv ok 2(1) by (simp add: mp_inv_def)
  qed
qed

context tensor_env
begin

lemma holding_inv:
  assumes inv: "mp_inv env sy" and t: "objs_of (ms_run sy t) = Map.empty" "handle_of (ms_run sy t) = Some h" "marked_of (ms_run sy t) = marked"
    and m: "distinct marked" and o: "distinct objs" "length objs = length marked" "set objs \<inter> (\<Union>w. ran (held sy w)) = {}"
    and st: "store_ok ((\<Union>w. ran (held sy w)) \<union> set objs) st" "same_but (ms_store sy) st" "map_of (mp_committed st) \<subseteq>\<^sub>m map_of (mp_committed (ms_store sy))"
  shows "mp_inv env \<lparr> ms_store = st, ms_run = (ms_run sy)(t := Holding h marked objs) \<rparr>"
  by (rule mp_inv_thread[OF inv, where r = "Holding h marked objs" and t = t])
     (use inj_zip[OF o(1,2) m] t m o st in simp_all)

lemma expand_inv:
  assumes inv: "mp_inv env sy"
  shows "mp_inv env (sy\<lparr>ms_store := (ms_store sy)\<lparr>mp_alloc := expand_round env (mp_alloc (ms_store sy))\<rparr>\<rparr>)"
proof (rule mp_inv_store[OF inv])
  have st: "store_ok (\<Union>w. ran (held sy w)) (ms_store sy)" using inv by (simp add: mp_inv_def objs_ok_def)
  then have la: "la_inv (mp_alloc (ms_store sy))" by (simp add: store_ok_def)
  have "valid_ids (la_mem (expand_round env (mp_alloc (ms_store sy)))) = valid_ids (mp_mem (ms_store sy))"
    using expand_round_inv(2)[OF la] by (simp add: valid_ids_def)
  then show "store_ok (\<Union>w. ran (held sy w)) (ms_store (sy\<lparr>ms_store := (ms_store sy)\<lparr>mp_alloc := expand_round env (mp_alloc (ms_store sy))\<rparr>\<rparr>))"
    using st expand_round_inv(1)[OF la] once_held_same[OF _ expand_round_inv(2)[OF la]] by (simp add: store_ok_def)
qed (simp_all add: same_but_def)

text \<open>A clear hits everybody: it is only in order when no reservation is running.\<close>

lemma clear_inv:
  assumes inv: "mp_inv env sy" and idle: "\<And>t. ms_run sy t = Idle"
  shows "mp_inv env (sy\<lparr>ms_store := mp_clear env (ms_store sy)\<rparr>)" (is "mp_inv env ?sy")
proof -
  let ?st = "ms_store sy" and ?c = "map snd (mp_committed (ms_store sy))" and ?p = "map snd (concat (map snd (mp_pools (ms_store sy))))"
  define m where "m = fold (\<lambda>i m. ref_count_down env m i) (?c @ ?p) (mp_mem ?st)"
  have S: "ms_store ?sy = set_mem m (?st\<lparr>mp_committed := [], mp_pools := [], mp_reserved := {}\<rparr>)"
    by (simp add: mp_clear_def m_def Let_def)
  have H: "handles_ok sy" and O: "objs_ok sy" using inv by (simp_all add: mp_inv_def)
  have st: "store_ok (\<Union>w. ran (held sy w)) ?st" using O by (simp add: objs_ok_def)
  have "set ?c = ran (map_of (mp_committed ?st))" using st by (simp add: store_ok_def ran_distinct)
  moreover have "set ?p = (\<Union>w. ran (held sy w))"
  proof -
    have "od_wf (mp_pools ?st)" and wf: "map_of (mp_pools ?st) h = Some d \<Longrightarrow> od_wf d" for h d using H by (auto simp: handles_ok_def)
    then have "set ?p = (\<Union>d \<in> ran (map_of (mp_pools ?st)). snd ` set d)" by (simp add: ran_distinct image_UN)
    also have "\<dots> = (\<Union>d \<in> ran (map_of (mp_pools ?st)). ran (map_of d))" 
    proof (rule SUP_cong)
      fix d assume "d \<in> ran (map_of (mp_pools ?st))"
      then obtain h where "map_of (mp_pools ?st) h = Some d" by (auto simp: ran_def)
      then show "snd ` set d = ran (map_of d)" using ran_distinct[OF wf] by simp
    qed simp
    also have "\<dots> = (\<Union>h. ran (held sy (Pool h)))" unfolding held_def
      by (auto simp: ran_def split: option.splits) (metis option.inject, blast)
    also have "\<dots> = (\<Union>w. ran (held sy w))"
    proof
      have "ran (held sy w) \<subseteq> (\<Union>h. ran (held sy (Pool h)))" for w by (cases w) (auto simp: idle)
      then show "(\<Union>w. ran (held sy w)) \<subseteq> (\<Union>h. ran (held sy (Pool h)))" by blast
    qed blast
    finally show ?thesis .
  qed
  ultimately have all: "set (?c @ ?p) = valid_ids (mp_mem ?st)" using st by (auto simp: store_ok_def)
  have M: "mem_inv (mp_mem ?st)" "once_held (mp_mem ?st)" "la_inv (mp_alloc ?st)" using st by (simp_all add: store_ok_def la_inv_def)
  have "set (?c @ ?p) \<subseteq> {..< length (t_objs (mp_mem ?st))}" unfolding all by (auto simp: valid_ids_def)
  note D = down_all[OF M(1,2) this, folded m_def]
  have D': "mem_inv m" "once_held m" "valid_ids m = {}" "la_inv ((mp_alloc ?st)\<lparr>la_mem := m\<rparr>)"
    using D M(3) unfolding all by (simp_all add: la_inv_def)
  have h: "held ?sy w = Map.empty" for w by (simp add: held_def S idle split: owner.splits)
  then have mk: "marks ?sy w = {}" for w by (cases w) (simp_all add: idle)
  show ?thesis
  proof (rule mp_invI)
    show "store_ok (\<Union>w. ran (held ?sy w)) (ms_store ?sy)" unfolding h S using D' by (simp add: store_ok_def)
    show "handles_ok ?sy" by (simp add: handles_ok_def S idle)
  qed (simp_all add: h mk sole_def S idle)
qed

lemma mp_step_inv:
  assumes step: "mp_step env now l sy sy'" and inv: "mp_inv env sy" and clears: "l = Clears \<Longrightarrow> \<forall>t. ms_run sy t = Idle"
  shows "mp_inv env sy'"
  using step
proof cases
  case (enter t ly st h keys)
  then show ?thesis using enter_inv[OF inv] by simp
next
  case (mark t ly h key keys marked st b)
  then show ?thesis using mark_inv[OF inv] by simp
next
  case (nothing t ly h)
  then show ?thesis using fill_inv[OF inv, where t = t and r = "Marking ly h [] []" and h = h and d = "[]"] by simp
next
  case (allocate t ly h marked st r)
  have run: "run_ok env (Marking ly h [] marked)" using inv allocate(3) unfolding mp_inv_def by metis
  have ok: "store_ok (\<Union>w. ran (held sy w)) (ms_store sy)" using inv by (simp add: mp_inv_def objs_ok_def)
  have n: "0 < length marked" using allocate(4) by simp
  have sz: "sized env ly" using run by simp
  note A = allocate_ok[OF ok sz n allocate(5)]
  show ?thesis
  proof (cases r)
    case None
    then show ?thesis unfolding allocate(2) using A run allocate(3,4)
      by (intro mp_inv_thread[OF inv, where t = t and r = "Recycling ly h marked"]) auto
  next
    case (Some objs)
    then show ?thesis unfolding allocate(2) using A run allocate(3)
      by (simp, intro holding_inv[OF inv]) auto
  qed
next
  case (recycle t ly h marked st r)
  have run: "run_ok env (Recycling ly h marked)" using inv recycle(3) unfolding mp_inv_def by metis
  have ok: "store_ok (\<Union>w. ran (held sy w)) (ms_store sy)" using inv by (simp add: mp_inv_def objs_ok_def)
  have n: "0 < length marked" and sz: "sized env ly" using run by auto
  note A = recycle_ok[OF ok sz n, of now, unfolded recycle(4)]
  show ?thesis
  proof (cases r)
    case None
    then show ?thesis unfolding recycle(2) using A recycle(3)
      by (intro mp_inv_thread[OF inv, where t = t and r = Idle]) (auto simp: spares_def)
  next
    case (Some objs)
    then show ?thesis unfolding recycle(2) using A run recycle(3)
      by (simp, intro holding_inv[OF inv]) (auto simp: spares_def)
  qed
next
  case (fill t h marked objs)
  have run: "run_ok env (Holding h marked objs)" using inv fill(3) unfolding mp_inv_def by metis
  then show ?thesis
    using fill fill_inv[OF inv, where t = t and r = "Holding h marked objs" and h = h and d = "zip marked objs"] by simp
next
  case (commit h)
  show ?thesis
  proof (cases "map_of (mp_pools (ms_store sy)) h")
    case None
    then show ?thesis using inv by (simp add: commit MPStorage.commit_def)
  next
    case (Some d)
    then show ?thesis using commit_inv(1)[OF inv Some] commit by blast
  qed
next
  case (lookup keys st n)
  then obtain locks where "st = (ms_store sy)\<lparr>mp_locks := locks\<rparr>" by (auto simp: mp_lookup_ok Let_def)
  then show ?thesis unfolding lookup(2) using inv
    by (intro mp_inv_store[OF inv]) (simp_all add: same_but_def mp_inv_def objs_ok_def store_ok_def)
next
  case (retrieve keys)
  have st: "store_ok (\<Union>w. ran (held sy w)) (ms_store sy)" using inv by (simp add: mp_inv_def objs_ok_def)
  then have "od_wf (mp_committed (ms_store sy))" by (simp add: store_ok_def)
  then obtain lru d where d: "fst (mp_retrieve now keys [] (ms_store sy)) = (ms_store sy)\<lparr>mp_lru := lru, mp_committed := d\<rparr>"
    "map_of d = map_of (mp_committed (ms_store sy))" "od_wf d" using mp_retrieve_ok by blast
  then show ?thesis unfolding retrieve(2)
    by (intro mp_inv_store[OF inv]) (use store_ok_perm[OF st] in \<open>simp_all add: same_but_def\<close>)
next
  case expand
  then show ?thesis using expand_inv[OF inv] by simp
next
  case (unlock keys)
  then show ?thesis using inv
    by (intro mp_inv_store[OF inv]) (simp_all add: same_but_def mp_inv_def objs_ok_def store_ok_def on_retrieve_finished_def)
next
  case clear
  then show ?thesis using clear_inv[OF inv] clears by simp
qed

end

section \<open>Runs\<close>

inductive mp_reachable :: "('s, 'd) mem_env \<Rightarrow> ('t, 'k, 's, 'd) mp_system \<Rightarrow> bool" for env where
  start: "lazy_init env init_size final_size (2 ^ a) = Inr la \<Longrightarrow> 0 \<le> init_size \<Longrightarrow> a \<le> 26
    \<Longrightarrow> mp_reachable env \<lparr> ms_store = mp_init la, ms_run = (\<lambda>_. Idle) \<rparr>"
| step: "mp_reachable env sy \<Longrightarrow> mp_step env now l sy sy' \<Longrightarrow> (l = Clears \<longrightarrow> (\<forall>t. ms_run sy t = Idle)) \<Longrightarrow> mp_reachable env sy'"

text \<open>Steps between two times without a clear. \<open>c\<close> counts the locks that others hold on a key: they release
  no more than they have.\<close>

inductive mp_run ::
  "('s, 'd) mem_env \<Rightarrow> int \<Rightarrow> int \<Rightarrow> ('k \<Rightarrow> nat) \<Rightarrow> ('t, 'k, 's, 'd) mp_system \<Rightarrow> ('k \<Rightarrow> nat) \<Rightarrow> ('t, 'k, 's, 'd) mp_system \<Rightarrow> bool"
  for env from_time to_time c sy where
  here: "mp_run env from_time to_time c sy c sy"
| internal: "mp_run env from_time to_time c sy c1 sy1 \<Longrightarrow> mp_step env now Internal sy1 sy2 \<Longrightarrow> from_time \<le> now \<Longrightarrow> now \<le> to_time
    \<Longrightarrow> mp_run env from_time to_time c sy c1 sy2"
| looks: "mp_run env from_time to_time c sy c1 sy1 \<Longrightarrow> mp_step env now (Looks ks) sy1 sy2 \<Longrightarrow> from_time \<le> now \<Longrightarrow> now \<le> to_time
    \<Longrightarrow> mp_run env from_time to_time c sy (\<lambda>k. c1 k + count_list ks k) sy2"
| unlocks: "mp_run env from_time to_time c sy c1 sy1 \<Longrightarrow> mp_step env now (Unlocks ks) sy1 sy2 \<Longrightarrow> from_time \<le> now \<Longrightarrow> now \<le> to_time
    \<Longrightarrow> (\<And>k. count_list ks k \<le> c1 k) \<Longrightarrow> mp_run env from_time to_time c sy (\<lambda>k. c1 k - count_list ks k) sy2"

context tensor_env
begin

lemma mp_start_inv:
  assumes L: "la_inv la" "valid_ids (la_mem la) = {}" and S: "ms_store sy = mp_init la" "\<And>t. ms_run sy t = Idle"
  shows "mp_inv env sy"
proof -
  have h: "held sy w = Map.empty" for w by (simp add: held_def S mp_init_def split: owner.splits)
  then have mk: "marks sy w = {}" for w by (cases w) (simp_all add: S)
  show "mp_inv env sy"
  proof (rule mp_invI)
    show "store_ok (\<Union>w. ran (held sy w)) (ms_store sy)" unfolding h using L by (simp add: store_ok_def S mp_init_def once_held_def)
    show "handles_ok sy" by (simp add: handles_ok_def S mp_init_def)
  qed (simp_all add: h mk sole_def S mp_init_def)
qed

lemma mp_reachable_inv: "mp_reachable env sy \<Longrightarrow> mp_inv env sy"
proof (induction rule: mp_reachable.induct)
  case (start init_size final_size a la)
  then show ?case using lazy_init_inv[OF start(1,3,2)] by (intro mp_start_inv) simp_all
next
  case (step sy now l sy')
  then show ?case using mp_step_inv by blast
qed

lemma guarded_step:
  assumes inv: "mp_inv env sy" and step: "mp_step env now l sy sy'" and now: "now \<le> T" "T \<le> now + default_ttl" and l: "l \<noteq> Clears"
    and g: "map_of (mp_committed (ms_store sy)) k = Some i" "guarded T n (mp_locks (ms_store sy)) k"
    and n: "n' = (case l of Looks ks \<Rightarrow> n + count_list ks k | Unlocks ks \<Rightarrow> n - count_list ks k | _ \<Rightarrow> n)"
    "\<And>ks. l = Unlocks ks \<Longrightarrow> count_list ks k \<le> n"
  shows "map_of (mp_committed (ms_store sy')) k = Some i \<and> guarded T n' (mp_locks (ms_store sy')) k"
proof -
  have live: "live_lock now (mp_locks (ms_store sy)) k" using g(2) now(1) by (auto simp: guarded_def live_lock_def)
  have ok: "store_ok (\<Union>w. ran (held sy w)) (ms_store sy)" using inv by (simp add: mp_inv_def objs_ok_def)
  from step show ?thesis
  proof cases
    case (mark t ly h key keys marked st b)
    then show ?thesis using g n by (auto elim: mark_key_cases)
  next
    case (allocate t ly h marked st r)
    have "run_ok env (Marking ly h [] marked)" using inv allocate(3) unfolding mp_inv_def by metis
    then show ?thesis using allocate_ok[OF ok _ _ allocate(5)] allocate(1-4) g n by auto
  next
    case (recycle t ly h marked st r)
    have "run_ok env (Recycling ly h marked)" using inv recycle(3) unfolding mp_inv_def by metis
    then have "spares now (ms_store sy) st" using recycle_ok[OF ok, of ly "length marked" now] recycle(4) by auto
    then show ?thesis using recycle(1-3) g n live by (simp add: spares_def guarded_def)
  next
    case (commit h)
    show ?thesis
    proof (cases "map_of (mp_pools (ms_store sy)) h")
      case None
      then show ?thesis using g n by (simp add: commit MPStorage.commit_def)
    next
      case (Some d)
      have "k \<notin> dom (map_of d)"
      proof
        assume "k \<in> dom (map_of d)"
        then have "k \<in> marks sy (Pool h)" using Some by (simp add: held_def)
        then have "k \<in> mp_reserved (ms_store sy)" "mp_reserved (ms_store sy) \<inter> dom (map_of (mp_committed (ms_store sy))) = {}"
          using inv by (auto simp: mp_inv_def keys_ok_def simp del: marks_pool)
        then show False using g(1) by blast
      qed
      moreover have "mp_locks (fst (MPStorage.commit now h (ms_store sy))) = mp_locks (ms_store sy)" by (rule commit_locks)
      ultimately show ?thesis using commit_inv(3)[OF inv Some commit(2)] commit g n by (auto simp: map_add_dom_app_simps)
    qed
  next
    case (lookup keys st m)
    then show ?thesis using g n guarded_lock[OF g(2) now(2)] by (auto simp: mp_lookup_ok Let_def takeWhile_take)
  next
    case (retrieve keys)
    have "od_wf (mp_committed (ms_store sy))" using ok by (simp add: store_ok_def)
    then show ?thesis using retrieve g n mp_retrieve_ok[of "ms_store sy" now keys "[]"] by auto
  next
    case (unlock keys)
    have "guarded T (n' + count_list keys k) (mp_locks (ms_store sy)) k" using n unlock g(2) by simp
    from guarded_unlock[OF this] show ?thesis using unlock g(1) by (simp add: on_retrieve_finished_def)
  qed (use g n l in \<open>auto simp: new_handle_def\<close>)
qed

lemma mp_run_guards:
  assumes "mp_run env t0 (t0 + default_ttl) c sy c' sy'" and "mp_inv env sy"
    and "map_of (mp_committed (ms_store sy)) k = Some i" and "guarded (t0 + default_ttl) (c k) (mp_locks (ms_store sy)) k"
  shows "mp_inv env sy' \<and> map_of (mp_committed (ms_store sy')) k = Some i \<and> guarded (t0 + default_ttl) (c' k) (mp_locks (ms_store sy')) k"
  using assms
proof (induction rule: mp_run.induct)
  case (internal c1 sy1 now sy2)
  then have I: "mp_inv env sy1" "map_of (mp_committed (ms_store sy1)) k = Some i" "guarded (t0 + default_ttl) (c1 k) (mp_locks (ms_store sy1)) k" by simp_all
  then show ?case using mp_step_inv[OF internal(2) I(1)] guarded_step[OF I(1) internal(2) internal(4) _ _ I(2,3)] internal(3) by simp
next
  case (looks c1 sy1 now ks sy2)
  then have I: "mp_inv env sy1" "map_of (mp_committed (ms_store sy1)) k = Some i" "guarded (t0 + default_ttl) (c1 k) (mp_locks (ms_store sy1)) k" by simp_all
  then show ?case using mp_step_inv[OF looks(2) I(1)] guarded_step[OF I(1) looks(2) looks(4) _ _ I(2,3)] looks(3) by simp
next
  case (unlocks c1 sy1 now ks sy2)
  then have I: "mp_inv env sy1" "map_of (mp_committed (ms_store sy1)) k = Some i" "guarded (t0 + default_ttl) (c1 k) (mp_locks (ms_store sy1)) k" by simp_all
  then show ?case using mp_step_inv[OF unlocks(2) I(1)] guarded_step[OF I(1) unlocks(2) unlocks(4) _ _ I(2,3)] unlocks(3,5) by simp
qed simp

end

section \<open>Keys nobody owns\<close>

definition orphan :: "'k \<Rightarrow> ('t, 'k, 's, 'd) mp_system \<Rightarrow> bool" where
  "orphan k sy \<longleftrightarrow> k \<in> mp_reserved (ms_store sy) \<and> (\<forall>w. k \<notin> marks sy w)"

lemma orphan_thread:
  assumes "orphan k sy" and "ms_run sy' = (ms_run sy)(t := r)" and "mp_pools (ms_store sy') = mp_pools (ms_store sy)"
    and "k \<notin> set (marked_of r)" and "k \<in> mp_reserved (ms_store sy')"
  shows "orphan k sy'"
  using assms(1,4,5) unfolding orphan_def owner_upd_thread(2)[OF assms(2,3)] by simp

lemma orphan_marked: "orphan k sy \<Longrightarrow> k \<notin> set (marked_of (ms_run sy t))"
  unfolding orphan_def by (metis marks_thread)

lemma orphan_fill:
  assumes inv: "mp_inv env sy" and k: "orphan k sy" and r: "ms_run sy t = r" "handle_of r = Some h" "set (marked_of r) = set (od_keys d)"
  shows "orphan k \<lparr> ms_store = put_pool h d (ms_store sy), ms_run = (ms_run sy)(t := Idle) \<rparr>"
proof -
  have "handles_ok sy" using inv by (simp add: mp_inv_def)
  note F = owner_fill(2)[OF r(1,2) this refl, of d]
  have "k \<notin> dom (map_of d)" using orphan_marked[OF k, of t] r(1,3) by (simp add: dom_map_of_conv_image_fst)
  then show ?thesis using k unfolding orphan_def F by simp
qed

context tensor_env
begin

lemma orphan_step:
  assumes inv: "mp_inv env sy" and step: "mp_step env now l sy sy'" and l: "l \<noteq> Clears" and k: "orphan k sy"
  shows "orphan k sy'"
proof -
  have ok: "store_ok (\<Union>w. ran (held sy w)) (ms_store sy)" using inv by (simp add: mp_inv_def objs_ok_def)
  have R: "k \<in> mp_reserved (ms_store sy)" using k by (simp add: orphan_def)
  from step show ?thesis
  proof cases
    case (enter t ly st h keys)
    then show ?thesis using orphan_thread[OF k, where t = t and r = "Marking ly h keys []"] R by (auto simp: new_handle_def)
  next
    case (mark t ly h key keys marked st b)
    have "k \<notin> set marked" using orphan_marked[OF k, of t] mark(3) by simp
    moreover have "b \<Longrightarrow> k \<noteq> key" and "mp_pools st = mp_pools (ms_store sy)" and "k \<in> mp_reserved st"
      using mark(4) R by (auto elim!: mark_key_cases)
    ultimately show ?thesis unfolding mark(2)
      by (intro orphan_thread[OF k, where t = t]) (auto split: if_splits)
  next
    case (nothing t ly h)
    then show ?thesis using orphan_fill[OF inv k, where r = "Marking ly h [] []" and d = "[]"] by simp
  next
    case (allocate t ly h marked st r)
    have "run_ok env (Marking ly h [] marked)" using inv allocate(3) unfolding mp_inv_def by metis
    then have "same_but (ms_store sy) st" using allocate_ok[OF ok _ _ allocate(5)] allocate(4) by auto
    moreover have "k \<notin> set marked" using orphan_marked[OF k, of t] allocate(3) by simp
    ultimately show ?thesis unfolding allocate(2) using R
      by (intro orphan_thread[OF k, where t = t]) (auto simp: same_but_def split: option.splits)
  next
    case (recycle t ly h marked st r)
    have "run_ok env (Recycling ly h marked)" using inv recycle(3) unfolding mp_inv_def by metis
    then have "same_but (ms_store sy) st" using recycle_ok[OF ok, of ly "length marked" now] recycle(4) by auto
    moreover have "k \<notin> set marked" using orphan_marked[OF k, of t] recycle(3) by simp
    ultimately show ?thesis unfolding recycle(2) using R
      by (intro orphan_thread[OF k, where t = t]) (auto simp: same_but_def split: option.splits)
  next
    case (fill t h marked objs)
    have "run_ok env (Holding h marked objs)" using inv fill(3) unfolding mp_inv_def by metis
    then show ?thesis using fill orphan_fill[OF inv k, where r = "Holding h marked objs" and d = "zip marked objs"] by simp
  next
    case (commit h)
    show ?thesis
    proof (cases "map_of (mp_pools (ms_store sy)) h")
      case None
      then show ?thesis using k by (simp add: commit MPStorage.commit_def)
    next
      case (Some d)
      have K: "keys_ok sy" "handles_ok sy" using inv by (simp_all add: mp_inv_def)
      have m: "marks sy (Pool h) = set (od_keys d)" using Some by (simp add: held_def dom_map_of_conv_image_fst)
      have wf: "od_wf d" using K(2) Some by (auto simp: handles_ok_def)
      have "set (od_keys d) \<subseteq> mp_reserved (ms_store sy)" using K(1) unfolding keys_ok_def m[symmetric] by blast
      from commit_ok[OF Some wf this, of now] obtain lru where "MPStorage.commit now h (ms_store sy) = ((ms_store sy)\<lparr>mp_pools := AList.delete h (mp_pools (ms_store sy)), mp_lru := lru,
          mp_committed := fold (\<lambda>(k, i). AList.update k i) d (mp_committed (ms_store sy)), mp_reserved := mp_reserved (ms_store sy) - set (od_keys d)\<rparr>, Inr ())"
        by blast
      then have c: "mp_pools (ms_store sy') = AList.delete h (mp_pools (ms_store sy))" "mp_reserved (ms_store sy') = mp_reserved (ms_store sy) - set (od_keys d)"
        "ms_run sy' = ms_run sy" using commit(2) by simp_all
      have "held sy' w \<subseteq>\<^sub>m held sy w" for w by (auto simp: held_def c map_le_def split: owner.splits option.splits)
      then have "marks sy' w \<subseteq> marks sy w" for w by (cases w) (auto simp: c map_le_def dom_def)
      moreover have "k \<notin> set (od_keys d)" using k unfolding orphan_def m[symmetric] by blast
      ultimately show ?thesis using k R by (auto simp: orphan_def c)
    qed
  next
    case (lookup keys st n)
    then show ?thesis using k owner_same(2)[of sy' sy] by (auto simp: orphan_def mp_lookup_ok Let_def)
  next
    case (retrieve keys)
    have "od_wf (mp_committed (ms_store sy))" using ok by (simp add: store_ok_def)
    then obtain lru d where "ms_store sy' = (ms_store sy)\<lparr>mp_lru := lru, mp_committed := d\<rparr>" using mp_retrieve_ok retrieve by fastforce
    then show ?thesis using k retrieve owner_same(2)[of sy' sy] by (simp add: orphan_def)
  next
    case expand
    then show ?thesis using k owner_same(2)[of sy' sy] by (simp add: orphan_def)
  next
    case (unlock keys)
    then show ?thesis using k owner_same(2)[of sy' sy] by (simp add: orphan_def on_retrieve_finished_def)
  qed (use l in simp)
qed

lemma orphan_steps:
  assumes "(\<lambda>a b. \<exists>now l. l \<noteq> Clears \<and> mp_step env now l a b)\<^sup>*\<^sup>* sy sy'" and "mp_inv env sy" and "orphan k sy"
  shows "mp_inv env sy' \<and> orphan k sy'"
  using assms
proof induction
  case (step y z)
  then obtain now l where s: "l \<noteq> Clears" "mp_step env now l y z" by blast
  have I: "mp_inv env y" "orphan k y" using step by simp_all
  show ?case using mp_step_inv[OF s(2) I(1)] orphan_step[OF I(1) s(2,1) I(2)] s(1) by simp
qed simp

end

context tensor_env
begin

lemma mp_owner_facts:
  assumes "mp_reachable env sy"
  shows "sole (marks sy)" and "k \<in> marks sy w \<Longrightarrow> k \<in> mp_reserved (ms_store sy) \<and> map_of (mp_committed (ms_store sy)) k = None"
    and "sole (\<lambda>w. ran (held sy w))" and "ran (held sy w) \<inter> ran (map_of (mp_committed (ms_store sy))) = {}"
    and "valid_ids (mp_mem (ms_store sy)) = (\<Union>w. ran (held sy w)) \<union> ran (map_of (mp_committed (ms_store sy)))"
    and "i \<in> valid_ids (mp_mem (ms_store sy)) \<Longrightarrow> mo_ref_count (t_objs (mp_mem (ms_store sy)) ! i) = 1 \<and>
       fst (obj_region (mp_mem (ms_store sy)) i) + snd (obj_region (mp_mem (ms_store sy)) i) \<le> la_curr_size (mp_alloc (ms_store sy))"
    and "la_curr_size (mp_alloc (ms_store sy)) \<le> la_final_size (mp_alloc (ms_store sy))" and "mp_memcheck (ms_store sy)"
    and "map_of (mp_pools (ms_store sy)) h \<noteq> None \<Longrightarrow> snd (commit now h (ms_store sy)) = Inr ()"
proof -
  have inv: "mp_inv env sy" by (rule mp_reachable_inv[OF assms])
  then have K: "keys_ok sy" and O: "objs_ok sy" by (simp_all add: mp_inv_def)
  show "sole (marks sy)" "sole (\<lambda>w. ran (held sy w))" using K O by (simp_all add: keys_ok_def objs_ok_def)
  show "k \<in> mp_reserved (ms_store sy) \<and> map_of (mp_committed (ms_store sy)) k = None" if h: "k \<in> marks sy w"
  proof -
    have "k \<in> mp_reserved (ms_store sy)" "mp_reserved (ms_store sy) \<inter> dom (map_of (mp_committed (ms_store sy))) = {}"
      using K h unfolding keys_ok_def by blast+
    then show ?thesis by blast
  qed
  have S: "store_ok (\<Union>w. ran (held sy w)) (ms_store sy)" using O by (simp add: objs_ok_def)
  then show "valid_ids (mp_mem (ms_store sy)) = (\<Union>w. ran (held sy w)) \<union> ran (map_of (mp_committed (ms_store sy)))"
    and "ran (held sy w) \<inter> ran (map_of (mp_committed (ms_store sy))) = {}" by (auto simp: store_ok_def)
  have L: "la_inv (mp_alloc (ms_store sy))" using S by (simp add: store_ok_def)
  then show "la_curr_size (mp_alloc (ms_store sy)) \<le> la_final_size (mp_alloc (ms_store sy))" by (simp add: la_inv_def)
  have ta: "talloc_inv (mp_mem (ms_store sy))" using L by (simp add: la_inv_def mem_inv_def)
  then show "mp_memcheck (ms_store sy)" by (simp add: mp_memcheck_def t_memcheck_inv)
  have live: "live_ok (free_addrs (t_am (mp_mem (ms_store sy)))) (am_size (t_am (mp_mem (ms_store sy)))) (valid_ids (mp_mem (ms_store sy))) (obj_region (mp_mem (ms_store sy)))"
    using ta by (simp add: talloc_inv_def)
  show "mo_ref_count (t_objs (mp_mem (ms_store sy)) ! i) = 1 \<and>
       fst (obj_region (mp_mem (ms_store sy)) i) + snd (obj_region (mp_mem (ms_store sy)) i) \<le> la_curr_size (mp_alloc (ms_store sy))"
    if h: "i \<in> valid_ids (mp_mem (ms_store sy))"
    using S L h space.live_region(3)[OF live h] by (simp add: store_ok_def once_held_def la_inv_def)
  show "snd (commit now h (ms_store sy)) = Inr ()" if h: "map_of (mp_pools (ms_store sy)) h \<noteq> None"
    using h commit_inv(2)[OF inv _ refl] by blast
qed

end

section \<open>A reservation as a whole\<close>

abbreviation internal_steps :: "('s, 'd) mem_env \<Rightarrow> int \<Rightarrow> ('t, 'k, 's, 'd) mp_system \<Rightarrow> ('t, 'k, 's, 'd) mp_system \<Rightarrow> bool" where
  "internal_steps env now \<equiv> (mp_step env now Internal)\<^sup>*\<^sup>*"

lemma mark_keys_steps:
  assumes "mark_keys keys marked st = (st', marked')"
  shows "internal_steps env now \<lparr> ms_store = st, ms_run = run(t := Marking ly h keys marked) \<rparr> \<lparr> ms_store = st', ms_run = run(t := Marking ly h [] marked') \<rparr> \<and>
    set marked' = set marked \<union> {k \<in> set keys. \<not> mp_has_key st k}"
  using assms
proof (induction keys arbitrary: marked st)
  case (Cons key keys)
  obtain st1 b where mk: "mark_key key st = (st1, b)" by fastforce
  let ?m = "if b then marked @ [key] else marked"
  have IH: "internal_steps env now \<lparr> ms_store = st1, ms_run = run(t := Marking ly h keys ?m) \<rparr> \<lparr> ms_store = st', ms_run = run(t := Marking ly h [] marked') \<rparr> \<and>
      set marked' = set ?m \<union> {k \<in> set keys. \<not> mp_has_key st1 k}"
    by (rule Cons.IH) (use Cons.prems mk in simp)
  have "mp_step env now Internal \<lparr> ms_store = st, ms_run = run(t := Marking ly h (key # keys) marked) \<rparr> \<lparr> ms_store = st1, ms_run = run(t := Marking ly h keys ?m) \<rparr>"
    using mp_step.mark[of "\<lparr> ms_store = st, ms_run = run(t := Marking ly h (key # keys) marked) \<rparr>" t ly h key keys marked st1 b env now] mk by simp
  moreover have "b = (\<not> mp_has_key st key)" "mp_has_key st1 k \<longleftrightarrow> mp_has_key st k \<or> k = key" for k
    using mk by (auto simp: mark_key_def mp_has_key_def split: if_splits)
  ultimately show ?case using IH converse_rtranclp_into_rtranclp[OF _ conjunct1[OF IH]] by (intro conjI) (blast, auto)
qed simp

lemma reserve_eq:
  assumes "new_handle st = (st0, h)" and "mark_keys keys [] st0 = (st1, marked)" and "marked \<noteq> []"
    and "(case mp_allocate env ly (length marked) st1 of (st, Inr None) \<Rightarrow> recycle_loop env now ly (length marked) st | r \<Rightarrow> Some r) = Some (st2, Inr r)"
  shows "reserve env now keys ly st = Some (case r of None \<Rightarrow> (st2, Inl RuntimeError)
    | Some objs \<Rightarrow> (put_pool h (zip marked objs) st2, Inr (h, zip marked objs)))"
  unfolding reserve_def assms(1,2) prod.case assms(4) using assms(3) by (simp split: option.splits)

context tensor_env
begin

lemma internal_steps_inv: "internal_steps env now sy sy' \<Longrightarrow> mp_inv env sy \<Longrightarrow> mp_inv env sy'"
proof (induction rule: rtranclp_induct)
  case (step y z)
  then show ?case using mp_step_inv[OF step(2)] by simp
qed simp

lemma alloc_steps:
  assumes inv: "mp_inv env \<lparr> ms_store = st, ms_run = run(t := Marking ly h [] marked) \<rparr>" and m: "marked \<noteq> []"
  shows "\<exists>st' r. (case mp_allocate env ly (length marked) st of (st, Inr None) \<Rightarrow> recycle_loop env now ly (length marked) st | r \<Rightarrow> Some r) = Some (st', Inr r) \<and>
    internal_steps env now \<lparr> ms_store = st, ms_run = run(t := Marking ly h [] marked) \<rparr>
      \<lparr> ms_store = st', ms_run = run(t := (case r of None \<Rightarrow> Idle | Some objs \<Rightarrow> Holding h marked objs)) \<rparr>"
proof -
  let ?sy = "\<lparr> ms_store = st, ms_run = run(t := Marking ly h [] marked) \<rparr>"
  have "run_ok env (ms_run ?sy t)" using inv unfolding mp_inv_def by blast
  then have sz: "sized env ly" by simp
  have n: "0 < length marked" using m by simp
  have ok: "store_ok (\<Union>w. ran (held ?sy w)) st" using inv by (simp add: mp_inv_def objs_ok_def)
  obtain st1 r where al: "mp_allocate env ly (length marked) st = (st1, r)" by fastforce
  note A = allocate_ok[OF ok sz n al]
  then obtain r1 where r1: "r = Inr r1" by blast
  have step: "mp_step env now Internal ?sy \<lparr> ms_store = st1, ms_run = run(t := (case r1 of None \<Rightarrow> Recycling ly h marked | Some objs \<Rightarrow> Holding h marked objs)) \<rparr>"
    using mp_step.allocate[of ?sy t ly h marked env st1 r1 now] al m by (simp add: r1)
  show ?thesis
  proof (cases r1)
    case (Some objs)
    then show ?thesis using al step by (intro exI[of _ st1] exI[of _ r1]) (simp add: r1 r_into_rtranclp)
  next
    case None
    let ?sy1 = "\<lparr> ms_store = st1, ms_run = run(t := Recycling ly h marked) \<rparr>"
    have ok1: "store_ok (\<Union>w. ran (held ?sy w)) st1" using A by (simp add: r1 None)
    obtain st2 r2 where rc: "recycle_loop env now ly (length marked) st1 = Some (st2, Inr r2)"
      using recycle_ok[OF ok1 sz n, of now] by blast
    have "mp_step env now Internal ?sy1 \<lparr> ms_store = st2, ms_run = run(t := (case r2 of None \<Rightarrow> Idle | Some objs \<Rightarrow> Holding h marked objs)) \<rparr>"
      using mp_step.recycle[of ?sy1 t ly h marked env now st2 r2] rc by simp
    then show ?thesis using al rc step
      by (intro exI[of _ st2] exI[of _ r2]) (simp add: r1 None rtranclp.rtrancl_into_rtrancl[OF r_into_rtranclp])
  qed
qed

end

section \<open>Properties\<close>

text \<open>
  C11: nothing has two owners. In every run of reservations, commits, lookups and retrievals by any
  threads (with clears only while no reservation runs) a key is committed, or in one pool, or being
  reserved by one thread; the objects that are alive are exactly those of the committed keys, the pools
  and the threads that are filling them, each owned once, held by one reference and inside the memory
  that is already pinned; the allocator's books balance; and the commit of every handle that \<open>reserve\<close> has
  filled succeeds.
\<close>

theorem mp_keys_have_one_owner:
  assumes "tensor_env env" and "mp_reachable env sy"
  shows "let st = ms_store sy; committed = map_of (mp_committed st); la = mp_alloc st in
    sole (marks sy) \<and> (\<forall>w. \<forall>k \<in> marks sy w. k \<in> mp_reserved st \<and> committed k = None) \<and>
    sole (\<lambda>w. ran (held sy w)) \<and> (\<forall>w. ran (held sy w) \<inter> ran committed = {}) \<and>
    valid_ids (la_mem la) = (\<Union>w. ran (held sy w)) \<union> ran committed \<and>
    (\<forall>i \<in> valid_ids (la_mem la). mo_ref_count (t_objs (la_mem la) ! i) = 1 \<and>
       fst (obj_region (la_mem la) i) + snd (obj_region (la_mem la) i) \<le> la_curr_size la) \<and>
    la_curr_size la \<le> la_final_size la \<and> mp_memcheck st \<and>
    (\<forall>now h. map_of (mp_pools st) h \<noteq> None \<longrightarrow> snd (commit now h st) = Inr ())"
  unfolding Let_def
  by (intro conjI allI ballI impI; rule tensor_env.mp_owner_facts[OF assms] tensor_env.mp_owner_facts(2,6)[OF assms, THEN conjunct1]
      tensor_env.mp_owner_facts(2,6)[OF assms, THEN conjunct2]; assumption?)

text \<open>
  C27: \<open>reserve\<close> returns. Recycling ends, since every round gives up a committed object; an uninterrupted
  call is a sequence of the steps above, and it either reports that the memory is exhausted or fills a new
  pool with one object for every requested key that was neither committed nor reserved.
\<close>

theorem reserve_returns:
  assumes "tensor_env env" and "mp_reachable env sy" and "ms_run sy t = Idle" and "sized env ly"
  shows "\<exists>st r. reserve env now keys ly (ms_store sy) = Some (st, r) \<and> internal_steps env now sy \<lparr> ms_store = st, ms_run = ms_run sy \<rparr> \<and>
    (case r of Inl e \<Rightarrow> e = RuntimeError
     | Inr (h, d) \<Rightarrow> map_of (mp_pools st) h = Some d \<and> set (od_keys d) = {k \<in> set keys. \<not> mp_has_key (ms_store sy) k})"
proof -
  let ?at = "\<lambda>st r. \<lparr> ms_store = st, ms_run = (ms_run sy)(t := r) \<rparr>"
  have idle: "(ms_run sy)(t := Idle) = ms_run sy" using assms(3) by auto
  obtain st0 h where nh: "new_handle (ms_store sy) = (st0, h)" by fastforce
  obtain st1 marked where mk: "mark_keys keys [] st0 = (st1, marked)" by fastforce
  note MK = mark_keys_steps[OF mk, of env now "ms_run sy" t ly h]
  have "mp_has_key st0 = mp_has_key (ms_store sy)" using nh by (auto simp: new_handle_def mp_has_key_def fun_eq_iff)
  with conjunct2[OF MK] have K: "set marked = {k \<in> set keys. \<not> mp_has_key (ms_store sy) k}" by simp
  have S: "internal_steps env now sy (?at st1 (Marking ly h [] marked))"
    using mp_step.enter[OF assms(3,4) nh] conjunct1[OF MK] by (rule converse_rtranclp_into_rtranclp)
  have inv: "mp_inv env (?at st1 (Marking ly h [] marked))"
    by (rule tensor_env.internal_steps_inv[OF assms(1) S tensor_env.mp_reachable_inv[OF assms(1,2)]])
  show ?thesis
  proof (cases "marked = []")
    case True
    have "mp_step env now Internal (?at st1 (Marking ly h [] marked)) (?at (put_pool h [] st1) Idle)"
      using mp_step.nothing[of "?at st1 (Marking ly h [] marked)" t ly h env now] by (simp add: True)
    then have "internal_steps env now sy \<lparr> ms_store = put_pool h [] st1, ms_run = ms_run sy \<rparr>"
      using S unfolding idle by (rule rtranclp.rtrancl_into_rtrancl[rotated])
    then show ?thesis using nh mk K True by (simp add: reserve_def)
  next
    case False
    obtain st2 r where r: "(case mp_allocate env ly (length marked) st1 of (st, Inr None) \<Rightarrow> recycle_loop env now ly (length marked) st | r \<Rightarrow> Some r) = Some (st2, Inr r)"
      "internal_steps env now (?at st1 (Marking ly h [] marked)) (?at st2 (case r of None \<Rightarrow> Idle | Some objs \<Rightarrow> Holding h marked objs))"
      using tensor_env.alloc_steps[OF assms(1) inv False, of now] by blast
    show ?thesis
    proof (cases r)
      case None
      have "internal_steps env now sy \<lparr> ms_store = st2, ms_run = ms_run sy \<rparr>" using S r(2) by (simp add: None idle)
      then show ?thesis unfolding reserve_eq[OF nh mk False r(1)] by (simp add: None)
    next
      case (Some objs)
      have S2: "internal_steps env now sy (?at st2 (Holding h marked objs))" using S r(2) by (simp add: Some)
      have "mp_inv env (?at st2 (Holding h marked objs))"
        by (rule tensor_env.internal_steps_inv[OF assms(1) S2 tensor_env.mp_reachable_inv[OF assms(1,2)]])
      then have "run_ok env (ms_run (?at st2 (Holding h marked objs)) t)" unfolding mp_inv_def by blast
      then have "od_keys (zip marked objs) = marked" by simp
      moreover have "internal_steps env now sy \<lparr> ms_store = put_pool h (zip marked objs) st2, ms_run = ms_run sy \<rparr>"
        using rtranclp.rtrancl_into_rtrancl[OF S2 mp_step.fill[of _ t]] by (simp add: idle)
      ultimately show ?thesis unfolding reserve_eq[OF nh mk False r(1)] using K by (simp add: Some del: set_map)
    qed
  qed
qed

text \<open>
  C12: what was looked up can be retrieved. From the moment of a lookup until the locks it took expire,
  whatever reservations evict, commits add and other clients look up or unlock (no more often than they
  hold locks, and no clear), the keys it found are retrieved with the objects they had, which are alive.
\<close>

theorem looked_up_keys_stay:
  assumes "tensor_env env" and "mp_reachable env sy" and "mp_lookup now keys 0 (ms_store sy) = (st, n)"
    and "\<forall>k. int (c k) \<le> lock_count (mp_locks (ms_store sy)) k"
    and "mp_run env now (now + default_ttl) c (sy\<lparr>ms_store := st\<rparr>) c' sy'"
  shows "let objs = map (\<lambda>k. the (map_of (mp_committed (ms_store sy)) k)) (take n keys)
    in snd (mp_retrieve now' (take n keys) [] (ms_store sy')) = Inr objs \<and> set objs \<subseteq> valid_ids (mp_mem (ms_store sy'))"
proof -
  let ?ks = "take n keys" and ?committed = "map_of (mp_committed (ms_store sy))"
  have st: "st = (ms_store sy)\<lparr>mp_locks := fold (lm_lock now) ?ks (mp_locks (ms_store sy))\<rparr>" and n: "\<forall>k \<in> set ?ks. ?committed k \<noteq> None"
    using assms(3) by (auto simp: mp_lookup_ok Let_def takeWhile_take dest: set_takeWhileD)
  have inv: "mp_inv env sy" by (rule tensor_env.mp_reachable_inv[OF assms(1,2)])
  have inv1: "mp_inv env (sy\<lparr>ms_store := st\<rparr>)"
    by (rule tensor_env.mp_step_inv[OF assms(1) mp_step.lookup[OF assms(3)] inv]) simp
  have kept: "map_of (mp_committed (ms_store sy')) k = ?committed k \<and> mp_inv env sy'" if h: "k \<in> set ?ks" for k
  proof -
    obtain i where i: "?committed k = Some i" using n h by blast
    have g: "guarded (now + default_ttl) (c k) (mp_locks (ms_store (sy\<lparr>ms_store := st\<rparr>))) k"
      using guarded_own[OF _ h] assms(4) by (simp add: st)
    show ?thesis using tensor_env.mp_run_guards[OF assms(1,5) inv1 _ g, of i] i by (simp add: st)
  qed
  show ?thesis
  proof (cases "?ks = []")
    case False
    then have inv': "mp_inv env sy'" using kept by (metis list.set_intros(1) neq_Nil_conv)
    then have S: "store_ok (\<Union>w. ran (held sy' w)) (ms_store sy')" by (simp add: mp_inv_def objs_ok_def)
    then have wf: "od_wf (mp_committed (ms_store sy'))" by (simp add: store_ok_def)
    have m: "map (\<lambda>k. the (map_of (mp_committed (ms_store sy')) k)) ?ks = map (\<lambda>k. the (?committed k)) ?ks"
      using kept by simp
    have "snd (mp_retrieve now' ?ks [] (ms_store sy')) = Inr (map (\<lambda>k. the (?committed k)) ?ks)"
      using mp_retrieve_ok[OF wf, of now' ?ks "[]"] n kept unfolding m by auto
    moreover have "the (?committed k) \<in> valid_ids (mp_mem (ms_store sy'))" if h: "k \<in> set ?ks" for k
    proof -
      have "map_of (mp_committed (ms_store sy')) k = Some (the (?committed k))" using n kept h by simp
      then show ?thesis using S by (auto simp: store_ok_def intro: ranI)
    qed
    ultimately show ?thesis by (auto simp: Let_def)
  next
    case True
    show ?thesis unfolding True by simp
  qed
qed

text \<open>
  C39: a reservation that runs out of memory blocks its keys for good. When recycling finds nothing more to
  give up, because every committed key is locked, \<open>reserve\<close> raises its error but leaves the keys it had
  marked in \<open>_reserved_keys\<close>: whatever happens later short of a clear, no reservation takes them and no
  lookup finds them.
\<close>

theorem failed_reserve_blocks_keys:
  assumes "tensor_env env" and "mp_reachable env sy" and "ms_run sy t = Recycling ly h marked"
    and "recycle_loop env now ly (length marked) (ms_store sy) = Some (st, Inr None)"
    and "(\<lambda>a b. \<exists>now l. l \<noteq> Clears \<and> mp_step env now l a b)\<^sup>*\<^sup>* \<lparr> ms_store = st, ms_run = (ms_run sy)(t := Idle) \<rparr> sy'"
    and "k \<in> set marked"
  shows "(\<forall>k. map_of (mp_committed st) k \<noteq> None \<longrightarrow> live_lock now (mp_locks st) k) \<and>
    mark_key k (ms_store sy') = (ms_store sy', False) \<and> mp_lookup now' [k] 0 (ms_store sy') = (ms_store sy', 0)"
proof -
  let ?sy = "\<lparr> ms_store = st, ms_run = (ms_run sy)(t := Idle) \<rparr>"
  have inv: "mp_inv env sy" by (rule tensor_env.mp_reachable_inv[OF assms(1,2)])
  have step: "mp_step env now Internal sy ?sy" using mp_step.recycle[OF assms(3,4)] by simp
  have inv1: "mp_inv env ?sy" by (rule tensor_env.mp_step_inv[OF assms(1) step inv]) simp
  have run: "run_ok env (Recycling ly h marked)" using inv assms(3) unfolding mp_inv_def by metis
  have ok: "store_ok (\<Union>w. ran (held sy w)) (ms_store sy)" using inv by (simp add: mp_inv_def objs_ok_def)
  have n: "0 < length marked" and sz: "sized env ly" using run by auto
  have R: "same_but (ms_store sy) st" "\<forall>k. map_of (mp_committed st) k \<noteq> None \<longrightarrow> live_lock now (mp_locks st) k"
    using tensor_env.recycle_ok[OF assms(1) ok sz n, of now] assms(4) by auto
  have K: "keys_ok sy" using inv by (simp add: mp_inv_def)
  have mk: "k \<in> marks sy (Thread t)" using assms(3,6) by simp
  have "k \<in> mp_reserved (ms_store ?sy)" using K mk R(1) by (auto simp: keys_ok_def same_but_def simp del: marks_thread)
  moreover have "marks ?sy = (marks sy)(Thread t := {})" using owner_upd_thread(2)[of ?sy sy t Idle] R(1) by (simp add: same_but_def)
  moreover have "k \<notin> marks sy w" if "w \<noteq> Thread t" for w using K mk that unfolding keys_ok_def sole_def by blast
  ultimately have "orphan k ?sy" by (simp add: orphan_def)
  from tensor_env.orphan_steps[OF assms(1,5) inv1 this] have o: "mp_inv env sy'" "k \<in> mp_reserved (ms_store sy')" by (simp_all add: orphan_def)
  then have "map_of (mp_committed (ms_store sy')) k = None" by (auto simp: mp_inv_def keys_ok_def)
  then show ?thesis using R(2) o(2) by (simp add: mark_key_def mp_has_key_def)
qed

text \<open>
  an expired lock comes back. The doc string says that a lock whose time has passed is fully
  unlocked however often it was taken; but as long as nobody asks \<open>is_locked\<close>, the next \<open>lock\<close> of the key
  adds to the stale count, so one \<open>unlock\<close> does not release it.
\<close>

theorem expired_locks_revive:
  assumes "map_of locks k = Some m" and "lm_expire m < now" and "0 < lm_count m"
  shows "\<not> snd (lm_is_locked now k locks) \<and>
    snd (lm_is_locked (now + default_ttl) k (lm_unlock k (lm_lock now k locks))) \<and>
    \<not> snd (lm_is_locked now k (lm_unlock k (lm_lock now k (fst (lm_is_locked now k locks)))))"
  using assms by (auto simp: lm_is_locked_def lm_unlock_def lm_lock_def default_ttl_def)

section \<open>An example\<close>

text \<open>The first chunk of the memory has room for one object: key 7 is stored, looked up and locked; then key 8
  is reserved in vain.\<close>

definition demo_layout :: "(int list, int) layout" where
  "demo_layout = \<lparr> ly_shape = [2 ^ 26], ly_dtype = 1, ly_fmt = KV_2LTD \<rparr>"

definition demo_lazy :: "(int list, int) lazy_alloc" where
  "demo_lazy = \<lparr> la_curr_size = 2 ^ 26, la_final_size = 2 ^ 27, la_mem = mem_init (t_init ref_mem_env (2 ^ 27) (2 ^ 12) (Some (2 ^ 26))) \<rparr>"

type_synonym demo_store = "(nat, int list, int) mp_storage"

definition demo_mp_mem :: "(int list, int) mem_state" where
  "demo_mp_mem = fst (t_batched_allocate ref_mem_env (la_mem demo_lazy) (Many [[2 ^ 26]]) (Many [1]) 1 KV_2LTD)"

definition demo_st0 :: demo_store where "demo_st0 = mp_init demo_lazy"
definition demo_st2 :: demo_store where "demo_st2 = demo_st0\<lparr>mp_next_handle := 1, mp_reserved := {7}\<rparr>"
definition demo_st3 :: demo_store where "demo_st3 = set_mem demo_mp_mem demo_st2"
definition demo_st5 :: demo_store where "demo_st5 = fst (commit 50 0 (put_pool 0 [(7, 0)] demo_st3))"
definition demo_st6 :: demo_store where "demo_st6 = demo_st5\<lparr>mp_locks := [(7, \<lparr> lm_count = 1, lm_expire = 400 \<rparr>)]\<rparr>"
definition demo_st8 :: demo_store where "demo_st8 = demo_st6\<lparr>mp_next_handle := 2, mp_reserved := {8}\<rparr>"

lemmas demo_st_defs = demo_st0_def demo_st2_def demo_st3_def demo_st5_def demo_st6_def demo_st8_def

lemma demo_lazy_ok: "lazy_init ref_mem_env 1 (2 ^ 27) (2 ^ 12) = Inr demo_lazy" "sized ref_mem_env demo_layout"
  by (simp add: lazy_init_def demo_lazy_def align_to_def pin_chunk_size_def Let_def) code_simp

lemma demo_mem_values:
  "snd (t_batched_allocate ref_mem_env (la_mem demo_lazy) (Many [[2 ^ 26]]) (Many [1]) 1 KV_2LTD) = Inr (Some [0])"
  "snd (t_batched_allocate ref_mem_env demo_mp_mem (Many [[2 ^ 26]]) (Many [1]) 1 KV_2LTD) = Inr None"
  by code_simp+

lemma demo_mem_full: "t_batched_allocate ref_mem_env demo_mp_mem (Many [[2 ^ 26]]) (Many [1]) 1 KV_2LTD = (demo_mp_mem, Inr None)"
  using demo_mem_values(2) by (auto simp: t_batched_allocate_def Let_def split: sum.splits prod.splits if_splits)

lemma demo_st5_fields: "mp_committed demo_st5 = [(7, 0)]" "mp_reserved demo_st5 = {}" "mp_locks demo_st5 = []" "mp_pools demo_st5 = []"
  "mp_next_handle demo_st5 = 1" "mp_mem demo_st5 = demo_mp_mem"
  by (simp_all add: demo_st_defs commit_def mp_init_def put_pool_def)

lemma demo_calls:
  "new_handle demo_st0 = (demo_st0\<lparr>mp_next_handle := 1\<rparr>, 0)"
  "mark_key 7 (demo_st0\<lparr>mp_next_handle := 1\<rparr>) = (demo_st2, True)"
  "mp_allocate ref_mem_env demo_layout 1 demo_st2 = (demo_st3, Inr (Some [0]))"
  "mp_lookup 100 [7] 0 demo_st5 = (demo_st6, 1)"
  "new_handle demo_st6 = (demo_st6\<lparr>mp_next_handle := 2\<rparr>, 1)"
  "mark_key 8 (demo_st6\<lparr>mp_next_handle := 2\<rparr>) = (demo_st8, True)"
  "mp_allocate ref_mem_env demo_layout 1 demo_st8 = (demo_st8, Inr None)"
  "recycle_loop ref_mem_env 200 demo_layout 1 demo_st8 = Some (demo_st8, Inr None)"
proof -
  show "mp_allocate ref_mem_env demo_layout 1 demo_st2 = (demo_st3, Inr (Some [0]))"
  proof (cases "t_batched_allocate ref_mem_env (la_mem demo_lazy) (Many [[2 ^ 26]]) (Many [1]) 1 KV_2LTD")
    case (Pair m r)
    then have "r = Inr (Some [0])" "m = demo_mp_mem" using demo_mem_values(1) by (simp_all add: demo_mp_mem_def)
    then show ?thesis using Pair by (simp add: mp_allocate_def demo_layout_def demo_st3_def demo_st2_def demo_st0_def mp_init_def)
  qed
  show "mp_allocate ref_mem_env demo_layout 1 demo_st8 = (demo_st8, Inr None)"
    using demo_mem_full by (simp add: mp_allocate_def demo_layout_def demo_st8_def demo_st6_def demo_st5_fields set_mem_def)
  show "recycle_loop ref_mem_env 200 demo_layout 1 demo_st8 = Some (demo_st8, Inr None)"
    by (subst recycle_loop.simps) (simp add: demo_st8_def demo_st6_def demo_st5_fields lm_is_locked_def)
qed (simp_all add: new_handle_def mark_key_def mp_has_key_def demo_st0_def demo_st2_def demo_st6_def demo_st8_def demo_st5_fields mp_init_def lm_lock_def default_ttl_def)

definition demo_at :: "demo_store \<Rightarrow> (nat, int list, int) resv \<Rightarrow> (nat, nat, int list, int) mp_system" where
  "demo_at st r = \<lparr> ms_store = st, ms_run = (\<lambda>_. Idle)(0 := r) \<rparr>"

lemma demo_at_simps [simp]: "ms_store (demo_at st r) = st" "ms_run (demo_at st r) 0 = r"
  "(demo_at st r)\<lparr>ms_store := st'\<rparr> = demo_at st' r"
  "\<lparr> ms_store = st', ms_run = (ms_run (demo_at st r))(0 := r') \<rparr> = demo_at st' r'"
  by (simp_all add: demo_at_def)

lemma at_enter: "new_handle st = (st', h) \<Longrightarrow> mp_step ref_mem_env now Internal (demo_at st Idle) (demo_at st' (Marking demo_layout h keys []))"
  using mp_step.enter[of "demo_at st Idle" 0 ref_mem_env demo_layout st' h now keys] demo_lazy_ok(2) by simp

lemma at_mark: "mark_key key st = (st', True) \<Longrightarrow>
    mp_step ref_mem_env now Internal (demo_at st (Marking demo_layout h (key # keys) marked)) (demo_at st' (Marking demo_layout h keys (marked @ [key])))"
  using mp_step.mark[of "demo_at st (Marking demo_layout h (key # keys) marked)" 0 demo_layout h key keys marked st' True ref_mem_env now] by simp

lemma at_allocate: "mp_allocate ref_mem_env demo_layout 1 st = (st', Inr r) \<Longrightarrow>
    mp_step ref_mem_env now Internal (demo_at st (Marking demo_layout h [] [key])) (demo_at st' (case r of None \<Rightarrow> Recycling demo_layout h [key] | Some objs \<Rightarrow> Holding h [key] objs))"
  using mp_step.allocate[of "demo_at st (Marking demo_layout h [] [key])" 0 demo_layout h "[key]" ref_mem_env st' r now] by simp

lemma demo_full_steps:
  "mp_step ref_mem_env 200 Internal (demo_at demo_st6 Idle) (demo_at (demo_st6\<lparr>mp_next_handle := 2\<rparr>) (Marking demo_layout 1 [8] []))"
  "mp_step ref_mem_env 200 Internal (demo_at (demo_st6\<lparr>mp_next_handle := 2\<rparr>) (Marking demo_layout 1 [8] [])) (demo_at demo_st8 (Marking demo_layout 1 [] [8]))"
  "mp_step ref_mem_env 200 Internal (demo_at demo_st8 (Marking demo_layout 1 [] [8])) (demo_at demo_st8 (Recycling demo_layout 1 [8]))"
  "mp_step ref_mem_env 200 Internal (demo_at demo_st8 (Recycling demo_layout 1 [8])) (demo_at demo_st8 Idle)"
  using at_enter[OF demo_calls(5)] at_mark[OF demo_calls(6), where marked = "[]"] at_allocate[OF demo_calls(7)]
    mp_step.recycle[of "demo_at demo_st8 (Recycling demo_layout 1 [8])" 0 demo_layout 1 "[8]" ref_mem_env 200 demo_st8 None] demo_calls(8)
  by simp_all

lemma demo_mp_stored: "mp_reachable ref_mem_env (demo_at demo_st5 Idle)"
proof -
  have "mp_reachable ref_mem_env (demo_at demo_st0 Idle)"
  proof -
    have "(\<lambda>_. Idle :: (nat, int list, int) resv)(0 :: nat := Idle) = (\<lambda>_. Idle)" by auto
    then show ?thesis using mp_reachable.start[OF demo_lazy_ok(1)] by (simp add: demo_at_def demo_st0_def)
  qed
  from mp_reachable.step[OF this at_enter[OF demo_calls(1)]] have "mp_reachable ref_mem_env (demo_at (demo_st0\<lparr>mp_next_handle := 1\<rparr>) (Marking demo_layout 0 [7] []))" by simp
  from mp_reachable.step[OF this at_mark[OF demo_calls(2)]] have "mp_reachable ref_mem_env (demo_at demo_st2 (Marking demo_layout 0 [] [7]))" by simp
  from mp_reachable.step[OF this at_allocate[OF demo_calls(3)]] have "mp_reachable ref_mem_env (demo_at demo_st3 (Holding 0 [7] [0]))" by simp
  from mp_reachable.step[OF this mp_step.fill[of _ 0]] have "mp_reachable ref_mem_env (demo_at (put_pool 0 [(7, 0)] demo_st3) Idle)" by simp
  from mp_reachable.step[OF this mp_step.commit[of _ 50 _ 0]] show ?thesis by (simp add: demo_st5_def)
qed

lemma demo_looked: "mp_reachable ref_mem_env (demo_at demo_st6 Idle)"
  using mp_reachable.step[OF demo_mp_stored mp_step.lookup[of 100 "[7]" "demo_at demo_st5 Idle" demo_st6 1]] demo_calls(4) by simp

lemma demo_full: "mp_reachable ref_mem_env (demo_at demo_st8 (Recycling demo_layout 1 [8]))"
  using mp_reachable.step[OF mp_reachable.step[OF mp_reachable.step[OF demo_looked demo_full_steps(1)] demo_full_steps(2)] demo_full_steps(3)] by simp

theorem mp_keys_have_one_owner_witness: "valid_ids (mp_mem demo_st5) = {0} \<and> mp_memcheck demo_st5"
proof -
  have "held (demo_at demo_st5 Idle) w = Map.empty" for w
    by (cases w) (simp_all add: held_def demo_at_def demo_st5_fields)
  moreover have "ran (map_of (mp_committed demo_st5)) = {0}" by (simp add: demo_st5_fields)
  ultimately show ?thesis
    using mp_keys_have_one_owner[OF ref_tensor.tensor_env_axioms demo_mp_stored] by (simp add: Let_def)
qed

theorem looked_up_keys_stay_witness: "snd (mp_retrieve 390 [7] [] demo_st8) = Inr [0] \<and> 0 \<in> valid_ids (mp_mem demo_st8)"
proof -
  have "mp_run ref_mem_env 100 (100 + default_ttl) (\<lambda>_. 0) (demo_at demo_st6 Idle) (\<lambda>_. 0) (demo_at demo_st8 Idle)"
    by (rule mp_run.internal[OF mp_run.internal[OF mp_run.internal[OF mp_run.internal[OF mp_run.here demo_full_steps(1)] demo_full_steps(2)] demo_full_steps(3)] demo_full_steps(4)])
       (simp_all add: default_ttl_def)
  then show ?thesis
    using looked_up_keys_stay[OF ref_tensor.tensor_env_axioms demo_mp_stored, of 100 "[7]" demo_st6 1 "\<lambda>_. 0" "\<lambda>_. 0" "demo_at demo_st8 Idle" 390] demo_calls(4)
    by (simp add: demo_st5_fields lock_count_def)
qed

theorem failed_reserve_blocks_keys_witness:
  "mark_key 8 demo_st8 = (demo_st8, False) \<and> mp_lookup 999 [8] 0 demo_st8 = (demo_st8, 0)"
  using failed_reserve_blocks_keys[OF ref_tensor.tensor_env_axioms demo_full, of 0 demo_layout 1 "[8]" 200 demo_st8 "demo_at demo_st8 Idle" 8 999] demo_calls(8)
  by simp

theorem expired_locks_revive_witness:
  "snd (lm_is_locked 700 (3::nat) (lm_unlock 3 (lm_lock 400 3 [(3, \<lparr> lm_count = 1, lm_expire = 300 \<rparr>)])))"
  using expired_locks_revive[of "[(3::nat, \<lparr> lm_count = 1, lm_expire = 300 \<rparr>)]" 3 "\<lparr> lm_count = 1, lm_expire = 300 \<rparr>" 400]
  by (simp add: default_ttl_def)

theorem reserve_returns_witness:
  "\<exists>st r. reserve ref_mem_env 200 [7, 8] demo_layout demo_st6 = Some (st, r) \<and> (\<forall>h d. r = Inr (h, d) \<longrightarrow> set (od_keys d) = {8})"
proof -
  have n: "{k \<in> set [7, 8]. \<not> mp_has_key demo_st6 k} = {8}" by (auto simp: demo_st6_def demo_st5_fields mp_has_key_def)
  obtain st r where r: "reserve ref_mem_env 200 [7, 8] demo_layout demo_st6 = Some (st, r)"
    "case r of Inl e \<Rightarrow> e = RuntimeError | Inr (h, d) \<Rightarrow> map_of (mp_pools st) h = Some d \<and> set (od_keys d) = {k \<in> set [7, 8]. \<not> mp_has_key demo_st6 k}"
    using reserve_returns[OF ref_tensor.tensor_env_axioms demo_looked _ demo_lazy_ok(2), of 0 200 "[7, 8]", unfolded demo_at_simps] by blast
  show ?thesis
    by (rule exI[of _ st], rule exI[of _ r]) (use r[unfolded n] in \<open>auto simp del: set_map\<close>)
qed

end
