(* ===== verification/LookupClients.thy ===== *)
theory LookupClients
  imports TokenDatabase
begin

text \<open>
  The lookup clients of the scheduler (\<open>v1/lookup_client\<close>): the interface with its defaults, the client
  that asks the workers over sockets and remembers the answers, the one that calls the engine directly,
  the one for Mooncake, the wrapper that limits the hits, and the asynchronous one with the thread that
  collects the responses. What a worker answers is a function of its state; an answer that does not come
  in time is \<open>None\<close>. The encoding of the messages and the wrapper that records statistics are left out,
  and so is blending.
\<close>

declare map_of_eq_Some_iff [simp del] Some_eq_map_of_iff [simp del]

section \<open>The interface\<close>

type_synonym req_configs = "(string, string) odict option"

text \<open>\<open>lookup_cache\<close> answers \<open>-1\<close> for an unknown request, \<open>None\<close> for one that is being looked up, or the
  number of tokens.\<close>

record 's lookup_client =
  lc_lookup_cache :: "string \<Rightarrow> 's \<Rightarrow> 's \<times> int option result"
  lc_lookup :: "int list \<Rightarrow> string \<Rightarrow> req_configs \<Rightarrow> 's \<Rightarrow> 's \<times> int option result"
  lc_clear_lookup_status :: "string \<Rightarrow> 's \<Rightarrow> 's"

definition base_lookup_cache :: "string \<Rightarrow> 's \<Rightarrow> 's \<times> int option result" where
  "base_lookup_cache lookup_id s = (s, Inr None)"

definition base_clear_lookup_status :: "string \<Rightarrow> 's \<Rightarrow> 's" where
  "base_clear_lookup_status lookup_id s = s"

text \<open>The hashes and the lengths of the chunks, and the exception that cut them short.\<close>

definition hashes_and_offsets :: "token_db \<Rightarrow> int list \<Rightarrow> (key_or_hash list \<times> int list) \<times> py_error option" where
  "hashes_and_offsets db token_ids =
     (case process_tokens db (Some token_ids) None None None False None of
        (ys, e) \<Rightarrow> ((map (\<lambda>(a, b, x). x) ys, map (\<lambda>(a, b, x). b - a) ys), e))"

section \<open>The client over sockets\<close>

type_synonym 'w rank = "key_or_hash list \<Rightarrow> int list \<Rightarrow> string \<Rightarrow> req_configs \<Rightarrow> 'w \<Rightarrow> 'w \<times> int option"

record 'w zmq_env =
  ze_db :: token_db
  ze_ranks :: "'w rank list"

record 'w zmq_client =
  zc_reqs_status :: "(string, int) odict"
  zc_workers :: 'w

fun ask_ranks :: "'w rank list \<Rightarrow> key_or_hash list \<Rightarrow> int list \<Rightarrow> string \<Rightarrow> req_configs \<Rightarrow> 'w \<Rightarrow> 'w \<times> int option list" where
  "ask_ranks [] hashes offsets lookup_id rc w = (w, [])"
| "ask_ranks (rank # ranks) hashes offsets lookup_id rc w =
     (case rank hashes offsets lookup_id rc w of
        (w, x) \<Rightarrow> (case ask_ranks ranks hashes offsets lookup_id rc w of (w, xs) \<Rightarrow> (w, x # xs)))"

fun least :: "int list \<Rightarrow> int result" where
  "least [] = Inl ValueError"
| "least (x # xs) = Inr (fold min xs x)"

definition zmq_lookup_cache :: "string \<Rightarrow> 'w zmq_client \<Rightarrow> 'w zmq_client \<times> int option result" where
  "zmq_lookup_cache lookup_id zc =
     (zc, Inr (Some (case map_of (zc_reqs_status zc) lookup_id of None \<Rightarrow> - 1 | Some n \<Rightarrow> n)))"

text \<open>When a rank does not answer the sockets are made anew and the answer is 0, which is not remembered.\<close>

definition zmq_lookup ::
  "'w zmq_env \<Rightarrow> int list \<Rightarrow> string \<Rightarrow> req_configs \<Rightarrow> 'w zmq_client \<Rightarrow> 'w zmq_client \<times> int option result" where
  "zmq_lookup env token_ids lookup_id rc zc =
     (case hashes_and_offsets (ze_db env) token_ids of
        (_, Some e) \<Rightarrow> (zc, Inl e)
      | ((hashes, offsets), None) \<Rightarrow>
          if hashes = [] then (zc, Inr (Some 0))
          else (case ask_ranks (ze_ranks env) hashes offsets lookup_id rc (zc_workers zc) of
                  (w, answers) \<Rightarrow>
                    let zc = zc\<lparr>zc_workers := w\<rparr>
                    in if None \<in> set answers then (zc, Inr (Some 0))
                       else (case least (map the answers) of
                               Inl e \<Rightarrow> (zc, Inl e)
                             | Inr n \<Rightarrow> (zc\<lparr>zc_reqs_status := AList.update lookup_id n (zc_reqs_status zc)\<rparr>, Inr (Some n)))))"

definition zmq_clear_lookup_status :: "string \<Rightarrow> 'w zmq_client \<Rightarrow> 'w zmq_client" where
  "zmq_clear_lookup_status lookup_id zc = zc\<lparr>zc_reqs_status := AList.delete lookup_id (zc_reqs_status zc)\<rparr>"

definition zmq_client_of :: "'w zmq_env \<Rightarrow> 'w zmq_client lookup_client" where
  "zmq_client_of env = \<lparr> lc_lookup_cache = zmq_lookup_cache, lc_lookup = zmq_lookup env,
     lc_clear_lookup_status = zmq_clear_lookup_status \<rparr>"

section \<open>The client that calls the engine, and the one for Mooncake\<close>

text \<open>Both inherit \<open>lookup_cache\<close> and \<open>clear_lookup_status\<close>.\<close>

definition bypass_lookup ::
  "token_db \<Rightarrow> (key_or_hash list \<Rightarrow> int list \<Rightarrow> string \<Rightarrow> req_configs \<Rightarrow> 'e \<Rightarrow> 'e \<times> int result)
    \<Rightarrow> int list \<Rightarrow> string \<Rightarrow> req_configs \<Rightarrow> 'e \<Rightarrow> 'e \<times> int option result" where
  "bypass_lookup db engine_lookup token_ids lookup_id rc en =
     (case hashes_and_offsets db token_ids of
        (_, Some e) \<Rightarrow> (en, Inr (Some 0))
      | ((hashes, offsets), None) \<Rightarrow>
          if hashes = [] then (en, Inr (Some 0))
          else (case engine_lookup hashes offsets lookup_id rc en of
                  (en, Inl e) \<Rightarrow> (en, Inr (Some 0))
                | (en, Inr n) \<Rightarrow> (en, Inr (Some n))))"

definition bypass_client_of ::
  "token_db \<Rightarrow> (key_or_hash list \<Rightarrow> int list \<Rightarrow> string \<Rightarrow> req_configs \<Rightarrow> 'e \<Rightarrow> 'e \<times> int result) \<Rightarrow> 'e lookup_client" where
  "bypass_client_of db engine_lookup = \<lparr> lc_lookup_cache = base_lookup_cache, lc_lookup = bypass_lookup db engine_lookup,
     lc_clear_lookup_status = base_clear_lookup_status \<rparr>"

fun key_string :: "key_or_hash \<Rightarrow> string result" where
  "key_string (TKey k) = Inr (key_to_string k)"
| "key_string (THash h) = Inl AssertionError"

definition first_missing :: "int list \<Rightarrow> int list \<Rightarrow> int" where
  "first_missing ends rets =
     (let i = length (takeWhile (\<lambda>ret. ret = 1) rets)
      in if i < length rets then (if 0 < i then ends ! (i - 1) else 0) else if ends \<noteq> [] then last ends else 0)"

definition mooncake_lookup ::
  "token_db \<Rightarrow> (string list \<Rightarrow> 'm \<Rightarrow> 'm \<times> int list) \<Rightarrow> int list \<Rightarrow> string \<Rightarrow> req_configs \<Rightarrow> 'm \<Rightarrow> 'm \<times> int option result" where
  "mooncake_lookup db batch_is_exist token_ids lookup_id rc s =
     (case process_tokens db (Some token_ids) None None None True None of
        (ys, Some e) \<Rightarrow> (s, Inl e)
      | (ys, None) \<Rightarrow>
          (case those (map (\<lambda>(a, b, x). case key_string x of Inl e \<Rightarrow> None | Inr k \<Rightarrow> Some k) ys) of
             None \<Rightarrow> (s, Inl AssertionError)
           | Some keys \<Rightarrow> (case batch_is_exist keys s of
                             (s, rets) \<Rightarrow> (s, Inr (Some (first_missing (map (\<lambda>(a, b, x). b) ys) rets))))))"

definition mooncake_client_of :: "token_db \<Rightarrow> (string list \<Rightarrow> 'm \<Rightarrow> 'm \<times> int list) \<Rightarrow> 'm lookup_client" where
  "mooncake_client_of db batch_is_exist = \<lparr> lc_lookup_cache = base_lookup_cache, lc_lookup = mooncake_lookup db batch_is_exist,
     lc_clear_lookup_status = base_clear_lookup_status \<rparr>"

section \<open>The wrapper that limits the hits\<close>

text \<open>The limit is a float: that a result is over it, and the number of tokens it allows, are parameters.\<close>

record hit_limit =
  hl_over :: "int \<Rightarrow> int \<Rightarrow> bool"
  hl_allowed :: "int \<Rightarrow> int"
  hl_chunk_size :: int

definition hit_limit_lookup ::
  "hit_limit \<Rightarrow> 's lookup_client \<Rightarrow> int list \<Rightarrow> string \<Rightarrow> req_configs \<Rightarrow> 's \<Rightarrow> 's \<times> int option result" where
  "hit_limit_lookup hl c token_ids lookup_id rc s =
     (case lc_lookup c token_ids lookup_id rc s of
        (s, Inl e) \<Rightarrow> (s, Inl e)
      | (s, Inr None) \<Rightarrow> (s, Inr None)
      | (s, Inr (Some n)) \<Rightarrow>
          let total_len = int (length token_ids)
          in if \<not> n \<le> total_len then (s, Inl AssertionError)
             else if hl_over hl n total_len
             then (if hl_chunk_size hl = 0 then (s, Inl ZeroDivisionError)
                   else (s, Inr (Some (min n (hl_allowed hl total_len div hl_chunk_size hl * hl_chunk_size hl)))))
             else (s, Inr (Some n)))"

definition hit_limit_client_of :: "hit_limit \<Rightarrow> 's lookup_client \<Rightarrow> 's lookup_client" where
  "hit_limit_client_of hl c = \<lparr> lc_lookup_cache = lc_lookup_cache c, lc_lookup = hit_limit_lookup hl c,
     lc_clear_lookup_status = lc_clear_lookup_status c \<rparr>"

section \<open>The asynchronous client\<close>

datatype async_msg = Look_up string "key_or_hash list" "int list" req_configs | Clean_up string

record async_env =
  ae_db :: token_db
  ae_world_size :: nat
  ae_timeout :: int

text \<open>The messages go to every rank; the set of aborted lookups is a list in the order they came.\<close>

record async_client =
  ac_reqs_status :: "(string, int option) odict"
  ac_first_lookup_time :: "(string, int) odict"
  ac_res_for_each_worker :: "(string, int list) odict"
  ac_aborted_lookups :: "string list"
  ac_sent :: "async_msg list"

definition async_init :: async_client where
  "async_init = \<lparr> ac_reqs_status = [], ac_first_lookup_time = [], ac_res_for_each_worker = [], ac_aborted_lookups = [], ac_sent = [] \<rparr>"

definition async_clear_lookup_status :: "string \<Rightarrow> async_client \<Rightarrow> async_client" where
  "async_clear_lookup_status lookup_id ac =
     ac\<lparr>ac_reqs_status := AList.delete lookup_id (ac_reqs_status ac),
        ac_first_lookup_time := AList.delete lookup_id (ac_first_lookup_time ac)\<rparr>"

definition send_cleanup_message :: "string \<Rightarrow> async_client \<Rightarrow> async_client" where
  "send_cleanup_message lookup_id ac = ac\<lparr>ac_sent := ac_sent ac @ [Clean_up lookup_id]\<rparr>"

fun is_finished :: "async_client \<Rightarrow> string \<Rightarrow> bool" where
  "is_finished ac lookup_id = (case map_of (ac_reqs_status ac) lookup_id of Some (Some n) \<Rightarrow> True | _ \<Rightarrow> False)"

definition cleanup_finished_aborted_lookups :: "async_client \<Rightarrow> async_client" where
  "cleanup_finished_aborted_lookups ac =
     (let finished = filter (is_finished ac) (ac_aborted_lookups ac)
      in fold (\<lambda>lookup_id ac. async_clear_lookup_status lookup_id (send_cleanup_message lookup_id ac)) finished
           (ac\<lparr>ac_aborted_lookups := filter (\<lambda>i. i \<notin> set finished) (ac_aborted_lookups ac)\<rparr>))"

text \<open>\<open>later\<close> is the time after the back-off.\<close>

definition async_lookup_cache ::
  "async_env \<Rightarrow> int \<Rightarrow> int \<Rightarrow> string \<Rightarrow> async_client \<Rightarrow> async_client \<times> int option result" where
  "async_lookup_cache env now later lookup_id ac =
     (let ac = cleanup_finished_aborted_lookups ac;
          req_status = (case map_of (ac_reqs_status ac) lookup_id of None \<Rightarrow> Some (- 1) | Some st \<Rightarrow> st)
      in case req_status of
           None \<Rightarrow>
             (case map_of (ac_first_lookup_time ac) lookup_id of
                None \<Rightarrow> (ac, Inl KeyError)
              | Some t \<Rightarrow>
                  if ae_timeout env < later - t
                  then (ac\<lparr>ac_first_lookup_time := AList.delete lookup_id (ac_first_lookup_time ac)\<rparr>, Inr (Some 0))
                  else (ac, Inr None))
         | Some n \<Rightarrow>
             if n = - 1
             then (ac\<lparr>ac_reqs_status := AList.update lookup_id None (ac_reqs_status ac),
                      ac_first_lookup_time := AList.update lookup_id now (ac_first_lookup_time ac)\<rparr>, Inr (Some n))
             else (ac, Inr (Some n)))"

definition async_lookup ::
  "async_env \<Rightarrow> int list \<Rightarrow> string \<Rightarrow> req_configs \<Rightarrow> async_client \<Rightarrow> async_client \<times> int option result" where
  "async_lookup env token_ids lookup_id rc ac =
     (case hashes_and_offsets (ae_db env) token_ids of
        (_, Some e) \<Rightarrow> (ac, Inl e)
      | ((hashes, offsets), None) \<Rightarrow> (ac\<lparr>ac_sent := ac_sent ac @ [Look_up lookup_id hashes offsets rc]\<rparr>, Inr None))"

text \<open>The thread that collects the responses, for one of them.\<close>

definition process_response :: "async_env \<Rightarrow> string \<Rightarrow> int \<Rightarrow> async_client \<Rightarrow> async_client" where
  "process_response env lookup_id n ac =
     (let all_res = (case map_of (ac_res_for_each_worker ac) lookup_id of None \<Rightarrow> [n] | Some l \<Rightarrow> l @ [n]);
          ac = ac\<lparr>ac_res_for_each_worker := AList.update lookup_id all_res (ac_res_for_each_worker ac)\<rparr>
      in if length all_res = ae_world_size env
         then ac\<lparr>ac_res_for_each_worker := AList.delete lookup_id (ac_res_for_each_worker ac),
                 ac_reqs_status := AList.update lookup_id (Some (fold min (tl all_res) (hd all_res))) (ac_reqs_status ac)\<rparr>
         else ac)"

definition cancel_lookup :: "string \<Rightarrow> async_client \<Rightarrow> async_client" where
  "cancel_lookup lookup_id ac =
     (if lookup_id \<in> set (ac_aborted_lookups ac) then ac else ac\<lparr>ac_aborted_lookups := ac_aborted_lookups ac @ [lookup_id]\<rparr>)"

definition async_client_of :: "async_env \<Rightarrow> int \<Rightarrow> int \<Rightarrow> async_client lookup_client" where
  "async_client_of env now later = \<lparr> lc_lookup_cache = async_lookup_cache env now later, lc_lookup = async_lookup env,
     lc_clear_lookup_status = async_clear_lookup_status \<rparr>"

section \<open>What the connector may rely on\<close>

text \<open>A client that always answers, and answers the same until the status of the request is cleared.\<close>

locale sync_client =
  fixes c :: "'s lookup_client"
  assumes cache_answers: "lc_lookup_cache c i s = (s', r) \<Longrightarrow> s' = s \<and> (\<exists>n. r = Inr (Some n))"
    and lookup_answers: "lc_lookup c ts i rc s = (s', Inr x) \<Longrightarrow> \<exists>n. x = Some n"
    and remembered: "lc_lookup c ts i rc s = (s', Inr (Some n)) \<Longrightarrow> n \<noteq> 0 \<Longrightarrow> lc_lookup_cache c i s' = (s', Inr (Some n))"
    and forgotten: "snd (lc_lookup_cache c i (lc_clear_lookup_status c i s)) = Inr (Some (- 1))"

lemma zmq_sync_client: "sync_client (zmq_client_of env)"
proof
  fix i s s' r
  assume "lc_lookup_cache (zmq_client_of env) i s = (s', r)"
  then show "s' = s \<and> (\<exists>n. r = Inr (Some n))" by (auto simp: zmq_client_of_def zmq_lookup_cache_def)
next
  fix ts i rc s s' x
  assume "lc_lookup (zmq_client_of env) ts i rc s = (s', Inr x)"
  then show "\<exists>n. x = Some n"
    by (auto simp: zmq_client_of_def zmq_lookup_def Let_def split: prod.splits option.splits if_splits sum.splits)
next
  fix ts i rc s s' n
  assume "lc_lookup (zmq_client_of env) ts i rc s = (s', Inr (Some n))" and "n \<noteq> 0"
  then show "lc_lookup_cache (zmq_client_of env) i s' = (s', Inr (Some n))"
    by (auto simp: zmq_client_of_def zmq_lookup_def zmq_lookup_cache_def Let_def split: prod.splits option.splits if_splits sum.splits)
qed (simp add: zmq_client_of_def zmq_lookup_cache_def zmq_clear_lookup_status_def)

interpretation zmq: sync_client "zmq_client_of env" for env :: "'w zmq_env"
  by (rule zmq_sync_client)

section \<open>The asynchronous client\<close>

text \<open>What concerns one request.\<close>

lemma cleanup_fold:
  "i \<notin> set is \<Longrightarrow> map_of (ac_reqs_status (fold (\<lambda>j ac. async_clear_lookup_status j (send_cleanup_message j ac)) is ac)) i = map_of (ac_reqs_status ac) i \<and>
    map_of (ac_first_lookup_time (fold (\<lambda>j ac. async_clear_lookup_status j (send_cleanup_message j ac)) is ac)) i = map_of (ac_first_lookup_time ac) i"
  by (induction "is" arbitrary: ac) (simp_all add: async_clear_lookup_status_def send_cleanup_message_def)

lemma cleanup_fold_aborted:
  "ac_aborted_lookups (fold (\<lambda>j ac. async_clear_lookup_status j (send_cleanup_message j ac)) is ac) = ac_aborted_lookups ac"
  by (induction "is" arbitrary: ac) (simp_all add: async_clear_lookup_status_def send_cleanup_message_def)

lemma cleanup_keeps:
  assumes "i \<notin> set (ac_aborted_lookups ac)"
  shows "map_of (ac_reqs_status (cleanup_finished_aborted_lookups ac)) i = map_of (ac_reqs_status ac) i"
    and "map_of (ac_first_lookup_time (cleanup_finished_aborted_lookups ac)) i = map_of (ac_first_lookup_time ac) i"
    and "i \<notin> set (ac_aborted_lookups (cleanup_finished_aborted_lookups ac))"
  using assms by (simp_all add: cleanup_finished_aborted_lookups_def Let_def cleanup_fold cleanup_fold_aborted)

lemma process_response_other:
  "i \<noteq> j \<Longrightarrow> map_of (ac_reqs_status (process_response env j n ac)) i = map_of (ac_reqs_status ac) i \<and>
    map_of (ac_res_for_each_worker (process_response env j n ac)) i = map_of (ac_res_for_each_worker ac) i"
  "ac_first_lookup_time (process_response env j n ac) = ac_first_lookup_time ac"
  "ac_aborted_lookups (process_response env j n ac) = ac_aborted_lookups ac"
  by (simp_all add: process_response_def Let_def)

lemma responses_of_others:
  "filter (\<lambda>(j, n). j = i) rs = [] \<Longrightarrow>
    map_of (ac_reqs_status (fold (\<lambda>(j, n). process_response env j n) rs ac)) i = map_of (ac_reqs_status ac) i"
  by (induction rs arbitrary: ac) (auto simp: process_response_other split: if_splits)


lemma responses_collected:
  assumes "length (filter (\<lambda>(j, n). j = i) rs) + length l \<le> ae_world_size env" and "length l < ae_world_size env"
    and "map_of (ac_res_for_each_worker ac) i = (if l = [] then None else Some l)"
  shows "let st = map_of (ac_reqs_status (fold (\<lambda>(j, n). process_response env j n) rs ac)) i;
             all_res = l @ map snd (filter (\<lambda>(j, n). j = i) rs)
    in st = (if length all_res = ae_world_size env then Some (Some (fold min (tl all_res) (hd all_res))) else map_of (ac_reqs_status ac) i)"
  using assms
proof (induction rs arbitrary: ac l)
  case (Cons r rs)
  obtain j n where r: "r = (j, n)" by (cases r)
  show ?case
  proof (cases "j = i")
    case False
    then show ?thesis using Cons.IH[of l "process_response env j n ac"] Cons.prems process_response_other(1)[of i j env n ac]
      by (simp add: r Let_def)
  next
    case True
    let ?l = "l @ [n]"
    have p: "process_response env i n ac = (let ac = ac\<lparr>ac_res_for_each_worker := AList.update i ?l (ac_res_for_each_worker ac)\<rparr>
      in if length ?l = ae_world_size env
         then ac\<lparr>ac_res_for_each_worker := AList.delete i (ac_res_for_each_worker ac),
                 ac_reqs_status := AList.update i (Some (fold min (tl ?l) (hd ?l))) (ac_reqs_status ac)\<rparr>
         else ac)"
      using Cons.prems(3) by (cases "l = []") (simp_all add: process_response_def Let_def)
    show ?thesis
    proof (cases "length ?l = ae_world_size env")
      case full: True
      have "Suc (length (filter (\<lambda>(j, n). j = i) rs)) + length l \<le> ae_world_size env" using Cons.prems(1) True by (simp add: r)
      moreover have "Suc (length l) = ae_world_size env" using full by simp
      ultimately have "length (filter (\<lambda>(j, n). j = i) rs) = 0" by linarith
      then have "filter (\<lambda>(j, n). j = i) rs = []" by simp
      then show ?thesis using full responses_of_others[of i rs env "process_response env i n ac"] by (simp add: r True p)
    next
      case more: False
      then show ?thesis using Cons.IH[of ?l "process_response env i n ac"] Cons.prems True by (simp add: r p Let_def)
    qed
  qed
qed simp

lemma fold_min: "xs \<noteq> [] \<Longrightarrow> fold min (tl xs) (hd xs) = Min (set (xs :: int list))"
  by (cases xs) (simp_all add: Min.set_eq_fold del: set_simps Min_insert)

section \<open>Properties\<close>


definition demo_async :: async_env where
  "demo_async = \<lparr> ae_db = demo_db, ae_world_size = 2, ae_timeout = 1000 \<rparr>"

lemma demo_async_started: "fst (async_lookup_cache demo_async 5 6 ''r'' async_init) =
    async_init\<lparr>ac_reqs_status := [(''r'', None)], ac_first_lookup_time := [(''r'', 5)]\<rparr>"
  by (simp add: async_lookup_cache_def cleanup_finished_aborted_lookups_def async_init_def)


text \<open>
  C32: a lookup that timed out raises on the next question. When the time is up \<open>lookup_cache\<close> answers 0 and drops
  the time of the first question but leaves the status ongoing; if the scheduler cannot place the request
  then and asks again, the time is missing and \<open>KeyError\<close> reaches the scheduler.
\<close>

theorem async_timeout_raises:
  assumes "map_of (ac_reqs_status ac) i = Some None" and "map_of (ac_first_lookup_time ac) i = Some t" and "ae_timeout env < later - t"
    and "i \<notin> set (ac_aborted_lookups ac)"
  shows "let (ac1, r1) = async_lookup_cache env now later i ac; (ac2, r2) = async_lookup_cache env now' later' i ac1
    in r1 = Inr (Some 0) \<and> r2 = Inl KeyError"
proof -
  let ?a = "cleanup_finished_aborted_lookups ac"
  define ac1 where "ac1 = ?a\<lparr>ac_first_lookup_time := AList.delete i (ac_first_lookup_time ?a)\<rparr>"
  note C = cleanup_keeps[OF assms(4)]
  have 1: "async_lookup_cache env now later i ac = (ac1, Inr (Some 0))"
    using C assms(1-3) by (simp add: async_lookup_cache_def Let_def ac1_def)
  have "i \<notin> set (ac_aborted_lookups ac1)" using C(3) by (simp add: ac1_def)
  note C1 = cleanup_keeps[OF this]
  have "snd (async_lookup_cache env now' later' i ac1) = Inl KeyError"
    using C1 C assms(1) by (simp add: async_lookup_cache_def Let_def ac1_def)
  then show ?thesis by (simp add: 1 split_beta)
qed

theorem async_timeout_raises_witness:
  "let (ac1, r1) = async_lookup_cache demo_async 2000 2001 ''r'' (fst (async_lookup_cache demo_async 5 6 ''r'' async_init));
       (ac2, r2) = async_lookup_cache demo_async 2002 2003 ''r'' ac1
    in r1 = Inr (Some 0) \<and> r2 = Inl KeyError"
  by (rule async_timeout_raises[of _ _ 5]) (simp_all add: demo_async_started, simp_all add: demo_async_def async_init_def)

text \<open>
  answers that come too late are kept. When the status of a request has been cleared and its last workers
  answer afterwards, the answer is stored as if it were asked for, and the next lookup of the request is
  answered with it without asking anybody.
\<close>

theorem async_late_answers_are_kept:
  assumes "map_of (ac_res_for_each_worker ac) i = (if l = [] then None else Some l)" and "Suc (length l) = ae_world_size env"
    and "i \<notin> set (ac_aborted_lookups ac)" and "0 \<le> n" and "\<forall>m \<in> set l. 0 \<le> m"
  shows "snd (async_lookup_cache env now later i (process_response env i n (async_clear_lookup_status i ac))) = Inr (Some (Min (set (l @ [n]))))"
proof -
  let ?ac = "async_clear_lookup_status i ac"
  have r: "map_of (ac_res_for_each_worker ?ac) i = (if l = [] then None else Some l)" using assms(1) by (simp add: async_clear_lookup_status_def)
  have st: "map_of (ac_reqs_status (process_response env i n ?ac)) i = Some (Some (fold min (tl (l @ [n])) (hd (l @ [n]))))"
    using responses_collected[of i "[(i, n)]" l env ?ac] r assms(2) by (simp add: Let_def)
  have m: "fold min (tl (l @ [n])) (hd (l @ [n])) = Min (set (l @ [n]))" by (rule fold_min) simp
  have "Min (set (l @ [n])) \<in> set (l @ [n])" by (rule Min_in) simp_all
  then have p: "Min (set (l @ [n])) \<noteq> - 1" using assms(4,5) by force
  have "i \<notin> set (ac_aborted_lookups (process_response env i n ?ac))"
    using assms(3) by (simp add: process_response_other async_clear_lookup_status_def)
  from cleanup_keeps(1)[OF this] show ?thesis using st m p by (simp add: async_lookup_cache_def Let_def)
qed

text \<open>
  the limit on hits is forgotten. The wrapper limits the answer of the first lookup, but \<open>lookup_cache\<close> goes
  to the wrapped client, which remembered the answer without the limit: a request that is asked about again
  gets more tokens than before.
\<close>

theorem hit_limit_is_forgotten:
  assumes "lc_lookup (zmq_client_of env) ts i rc zc = (zc', Inr (Some n))" and "n \<noteq> 0" and "n \<le> int (length ts)"
    and "hl_over hl n (int (length ts))" and "hl_chunk_size hl \<noteq> 0"
  shows "lc_lookup (hit_limit_client_of hl (zmq_client_of env)) ts i rc zc =
      (zc', Inr (Some (min n (hl_allowed hl (int (length ts)) div hl_chunk_size hl * hl_chunk_size hl)))) \<and>
    lc_lookup_cache (hit_limit_client_of hl (zmq_client_of env)) i zc' = (zc', Inr (Some n))"
  using assms zmq.remembered[OF assms(1,2)] by (simp add: hit_limit_client_of_def hit_limit_lookup_def Let_def)

end
