(* ===== verification/Connector.thy ===== *)
theory Connector
  imports LookupClients Storage
begin

text \<open>
  The scheduler's side of the vLLM connector (\<open>integration/vllm/vllm_v1_adapter.py\<close> and the multimodal
  helpers of \<open>integration/vllm/utils.py\<close>): the trackers of the scheduled requests, the metadata of a request
  for the workers, and \<open>get_num_new_matched_tokens\<close>, \<open>update_state_after_alloc\<close>, \<open>build_connector_meta\<close> and
  \<open>request_finished\<close>. The requests are objects of vLLM that change between the calls: the connector keeps
  references to them, and an operation gets the objects as they are at its call, \<open>heap\<close>. SHA-256, and whether the
  value of a request configuration is true, are parameters. Layerwise loading, blending and the metrics are
  left out.
\<close>

declare map_of_eq_Some_iff [simp del] Some_eq_map_of_iff [simp del]

section \<open>Data\<close>

record load_spec =
  ls_vllm_cached_tokens :: int
  ls_lmcache_cached_tokens :: int
  ls_can_load :: bool

record save_spec =
  ss_skip_leading_tokens :: int
  ss_can_save :: bool

record disagg_spec =
  ds_req_id :: string
  ds_receiver_id :: string
  ds_receiver_host :: string
  ds_receiver_init_port :: int
  ds_receiver_alloc_port :: int
  ds_is_last_prefill :: bool
  ds_num_transferred_tokens :: int

record placeholder =
  ph_offset :: int
  ph_length :: int

text \<open>The multimodal fields of a request; a missing field is empty.\<close>

record mm_fields =
  mm_features :: "(string option \<times> placeholder) list"
  mm_hashes :: "string list"
  mm_positions :: "placeholder list"

type_synonym extra_args = "(string, (string, string) odict) odict option"

text \<open>\<open>kv_transfer_params\<close>: the dictionary under \<open>disagg_spec\<close>, and whether there is a \<open>ret_first_tok\<close>.\<close>

record disagg_params =
  dp_req_id :: "string option"
  dp_receiver_host :: "string option"
  dp_receiver_init_port :: "int option"
  dp_receiver_alloc_port :: "int option"

record transfer_params =
  tp_disagg_spec :: "disagg_params option"
  tp_ret_first_tok :: bool

text \<open>A request of vLLM.\<close>

record vllm_request =
  vr_request_id :: string
  vr_prompt_token_ids :: "int list"
  vr_all_token_ids :: "int list"
  vr_output_token_ids :: "int list"
  vr_num_tokens :: int
  vr_num_computed_tokens :: int
  vr_priority :: int
  vr_extra_args :: extra_args
  vr_mm :: mm_fields
  vr_kv_transfer_params :: "transfer_params option"
  vr_aborted :: bool

text \<open>What the scheduler says of a new request; older versions give a flat list of blocks.\<close>

datatype block_ids = Flat "int list" | Grouped "int list list"

record new_request =
  nr_req_id :: string
  nr_prompt_token_ids :: "int list"
  nr_block_ids :: block_ids
  nr_num_computed_tokens :: int
  nr_extra_args :: extra_args
  nr_mm :: mm_fields

text \<open>Blocks added to a running request: \<open>None\<close>, a tuple of groups, or a list.\<close>

datatype new_blocks = NoBlocks | BlockGroups "int list list" | BlockList "int list"

record cached_req =
  cr_req_id :: string
  cr_new_token_ids :: "int list"
  cr_new_block_ids :: new_blocks
  cr_resumed_from_preemption :: bool

datatype resumed = ResumedIds "string list" | ResumedFlags "bool list" | NoResumed

datatype cached_reqs = CachedList "cached_req list" | CachedData "string list" "new_blocks list" resumed

record sched_output =
  so_finished_req_ids :: "string list"
  so_scheduled_new_reqs :: "new_request list"
  so_num_scheduled_tokens :: "(string, int) odict"
  so_scheduled_cached_reqs :: cached_reqs

record tracker =
  rt_req_id :: string
  rt_prompt_len :: int
  rt_token_ids :: "int list"
  rt_allocated_block_ids :: "int list"
  rt_num_saved_tokens :: int
  rt_disagg_spec :: "disagg_spec option"
  rt_mm_hashes :: "string option list"
  rt_mm_positions :: "placeholder list"
  rt_request_configs :: req_configs
  rt_is_decode_phase :: bool
  rt_skip_save :: bool

record req_meta =
  qm_req_id :: string
  qm_token_ids :: "int list"
  qm_slot_mapping :: "int list"
  qm_is_last_prefill :: bool
  qm_save_spec :: "save_spec option"
  qm_load_spec :: "load_spec option"
  qm_disagg_spec :: "disagg_spec option"
  qm_request_configs :: req_configs

record connector_env =
  cx_kv_role :: string
  cx_block_size :: int
  cx_chunk_size :: int
  cx_discard_partial_chunks :: bool
  cx_save_decode_cache :: bool
  cx_skip_last_n_tokens :: int
  cx_force_skip_save :: bool
  cx_priority_limit :: "int option"
  cx_async_loading :: bool
  cx_enable_blending :: bool
  cx_is_last_rank :: bool
  cx_sha256 :: "string \<Rightarrow> 8 word list"
  cx_truthy :: "string \<Rightarrow> bool"

text \<open>The connector of the scheduler, with the module's table of disaggregation specs and the lookup client.\<close>

record 's connector =
  cn_load_specs :: "(string, load_spec) odict"
  cn_request_trackers :: "(string, tracker) odict"
  cn_unfinished_requests :: "(string, nat) odict"
  cn_requests_priority :: "(string, int) odict"
  cn_tmp_disagg :: "(string, disagg_spec) odict"
  cn_client :: 's

definition connector_init :: "'s \<Rightarrow> 's connector" where
  "connector_init client = \<lparr> cn_load_specs = [], cn_request_trackers = [], cn_unfinished_requests = [], cn_requests_priority = [],
     cn_tmp_disagg = [], cn_client = client \<rparr>"

section \<open>Request configurations and multimodal hashes\<close>

definition extract_request_configs :: "extra_args \<Rightarrow> req_configs" where
  "extract_request_configs extra_args =
     (case extra_args of
        None \<Rightarrow> None
      | Some args \<Rightarrow>
          (case map_of args ''kv_transfer_params'' of
             None \<Rightarrow> None
           | Some params \<Rightarrow>
               let configs = filter (\<lambda>(k, v). py_startswith k ''lmcache.'') params
               in if configs = [] then None else Some configs))"

definition extract_mm_features :: "mm_fields \<Rightarrow> string option list \<times> placeholder list" where
  "extract_mm_features mm =
     (if mm_features mm \<noteq> [] then (map fst (mm_features mm), map snd (mm_features mm))
      else if mm_hashes mm \<noteq> [] then (map Some (mm_hashes mm), mm_positions mm)
      else ([], []))"

definition hex_hash_to_int16 :: "connector_env \<Rightarrow> string option \<Rightarrow> int" where
  "hex_hash_to_int16 env s =
     (let s_stripped = py_strip (case s of None \<Rightarrow> [] | Some t \<Rightarrow> t);
          hex_part = (if py_startswith s_stripped ''0x'' \<or> py_startswith s_stripped ''0X'' then drop 2 s_stripped else s_stripped);
          is_hex = (hex_part \<noteq> [] \<and> list_all (\<lambda>c. case digit_val c of None \<Rightarrow> False | Some d \<Rightarrow> d < 16) hex_part);
          digest = cx_sha256 env s_stripped
      in case (if is_hex then py_int 16 hex_part else Inl ValueError) of
           Inr n \<Rightarrow> n mod 65536
         | Inl e \<Rightarrow> fold (\<lambda>b n. 256 * n + uint b) (take 2 digest) 0)"

text \<open>\<open>token_ids[start:stop] = v\<close>\<close>

definition slice_fill :: "int \<Rightarrow> int \<Rightarrow> 'a \<Rightarrow> 'a list \<Rightarrow> 'a list" where
  "slice_fill start stop v xs =
     (let n = int (length xs); a = slice_bound n start; b = slice_bound n stop
      in map (\<lambda>i. if a \<le> int i \<and> int i < b then v else xs ! i) [0..<length xs])"

fun apply_mm_hashes_to_token_ids :: "connector_env \<Rightarrow> int list \<Rightarrow> string option list \<Rightarrow> placeholder list \<Rightarrow> int list" where
  "apply_mm_hashes_to_token_ids env token_ids (h # hs) (ph # phs) =
     (let n = int (length token_ids); start = ph_offset ph
      in apply_mm_hashes_to_token_ids env
           (if n \<le> start then token_ids
            else slice_fill start (min (start + ph_length ph) n) (hex_hash_to_int16 env h) token_ids) hs phs)"
| "apply_mm_hashes_to_token_ids env token_ids _ _ = token_ids"

section \<open>The tracker of a request\<close>

fun unfold_block_ids :: "block_ids \<Rightarrow> int list result" where
  "unfold_block_ids (Flat []) = Inl IndexError"
| "unfold_block_ids (Flat (b # bs)) = Inr (b # bs)"
| "unfold_block_ids (Grouped []) = Inl IndexError"
| "unfold_block_ids (Grouped (g # gs)) = Inr g"

definition from_new_request ::
  "new_request \<Rightarrow> int \<Rightarrow> int \<Rightarrow> bool \<Rightarrow> 's connector \<Rightarrow> 's connector \<times> tracker result" where
  "from_new_request nr num_tokens_to_compute lmcache_cached_tokens skip_save cn =
     (case unfold_block_ids (nr_block_ids nr) of
        Inl e \<Rightarrow> (cn, Inl e)
      | Inr unfolded_block_ids \<Rightarrow>
          (case extract_mm_features (nr_mm nr) of
             (hashes, positions) \<Rightarrow>
               (cn\<lparr>cn_tmp_disagg := AList.delete (nr_req_id nr) (cn_tmp_disagg cn)\<rparr>,
                Inr \<lparr> rt_req_id = nr_req_id nr, rt_prompt_len = int (length (nr_prompt_token_ids nr)),
                      rt_token_ids = py_slice (nr_prompt_token_ids nr) 0 num_tokens_to_compute,
                      rt_allocated_block_ids = unfolded_block_ids, rt_num_saved_tokens = lmcache_cached_tokens,
                      rt_disagg_spec = map_of (cn_tmp_disagg cn) (nr_req_id nr),
                      rt_mm_hashes = hashes, rt_mm_positions = positions,
                      rt_request_configs = extract_request_configs (nr_extra_args nr),
                      rt_is_decode_phase = False, rt_skip_save = skip_save \<rparr>)))"

fun unfold_new_blocks :: "new_blocks \<Rightarrow> int list" where
  "unfold_new_blocks NoBlocks = []"
| "unfold_new_blocks (BlockGroups []) = []"
| "unfold_new_blocks (BlockGroups (g # gs)) = g"
| "unfold_new_blocks (BlockList bs) = bs"

definition tracker_update ::
  "int list \<Rightarrow> new_blocks \<Rightarrow> bool \<Rightarrow> int \<Rightarrow> int \<Rightarrow> int list option \<Rightarrow> tracker \<Rightarrow> tracker result" where
  "tracker_update new_token_ids new_block_ids preempted lmcache_cached_tokens vllm_cached_tokens all_token_ids t =
     (let blocks = unfold_new_blocks new_block_ids;
          t1 = (if preempted
                then (case all_token_ids of
                        None \<Rightarrow> Inl AssertionError
                      | Some all_ids \<Rightarrow>
                          let num_computed_tokens = max lmcache_cached_tokens vllm_cached_tokens;
                              num_tokens_needed = max (num_computed_tokens + int (length new_token_ids)) lmcache_cached_tokens
                          in Inr (t\<lparr>rt_allocated_block_ids := blocks, rt_num_saved_tokens := lmcache_cached_tokens,
                                   rt_token_ids := py_slice all_ids 0 num_tokens_needed\<rparr>))
                else Inr (t\<lparr>rt_allocated_block_ids := rt_allocated_block_ids t @ blocks, rt_token_ids := rt_token_ids t @ new_token_ids\<rparr>))
      in res_bind t1 (\<lambda>t. Inr (if length new_token_ids = 1 then t\<lparr>rt_is_decode_phase := True\<rparr> else t)))"

section \<open>The metadata of a request\<close>

definition request_skip :: "connector_env \<Rightarrow> req_configs \<Rightarrow> bool" where
  "request_skip env rc =
     (case rc of
        None \<Rightarrow> False
      | Some configs \<Rightarrow> (case map_of configs ''lmcache.skip_save'' of None \<Rightarrow> False | Some v \<Rightarrow> cx_truthy env v))"

definition skip_save_of :: "connector_env \<Rightarrow> int \<Rightarrow> tracker \<Rightarrow> bool" where
  "skip_save_of env chunk_boundary t \<longleftrightarrow>
     rt_disagg_spec t = None \<and>
     (rt_skip_save t \<or> (0 < rt_num_saved_tokens t \<and> int (length (rt_token_ids t)) < chunk_boundary) \<or>
      (rt_is_decode_phase t \<and> \<not> cx_save_decode_cache env) \<or> request_skip env (rt_request_configs t))"

text \<open>The slots of all tokens of the blocks: offset by offset, block by block.\<close>

definition slots_of_blocks :: "int \<Rightarrow> int list \<Rightarrow> int list" where
  "slots_of_blocks block_size blocks = concat (map (\<lambda>b. map (\<lambda>i. int i + b * block_size) [0..<nat block_size]) blocks)"

definition from_request_tracker :: "connector_env \<Rightarrow> load_spec option \<Rightarrow> tracker \<Rightarrow> tracker \<times> req_meta option result" where
  "from_request_tracker env load_spec t =
     (let input_token_ids = rt_token_ids t;
          input_token_len = int (length input_token_ids);
          is_last_prefill = (rt_prompt_len t \<le> input_token_len);
          skip_leading_tokens = rt_num_saved_tokens t
      in case cdiv (rt_num_saved_tokens t + 1) (cx_chunk_size env) of
           Inl e \<Rightarrow> (t, Inl e)
         | Inr q \<Rightarrow>
             let skip_save = skip_save_of env (q * cx_chunk_size env) t
             in if skip_save \<and> load_spec = None then (t, Inr None)
                else
                  let num_tokens_to_save = (if \<not> is_last_prefill \<or> cx_discard_partial_chunks env
                        then input_token_len div cx_chunk_size env * cx_chunk_size env else input_token_len);
                      t' = (if skip_save then t else t\<lparr>rt_num_saved_tokens := num_tokens_to_save\<rparr>);
                      cut = py_slice input_token_ids 0 num_tokens_to_save;
                      token_ids = (if rt_mm_hashes t = [] then cut
                        else apply_mm_hashes_to_token_ids env cut (rt_mm_hashes t) (rt_mm_positions t))
                  in if cx_block_size env < 0 then (t', Inl RuntimeError)
                     else (t', Inr (Some
                       \<lparr> qm_req_id = rt_req_id t, qm_token_ids = token_ids,
                         qm_slot_mapping = take (length token_ids) (slots_of_blocks (cx_block_size env) (rt_allocated_block_ids t)),
                         qm_is_last_prefill = is_last_prefill,
                         qm_save_spec = Some \<lparr> ss_skip_leading_tokens = skip_leading_tokens, ss_can_save = \<not> skip_save \<rparr>,
                         qm_load_spec = (case load_spec of None \<Rightarrow> None | Some ls \<Rightarrow> if ls_can_load ls then Some ls else None),
                         qm_disagg_spec = rt_disagg_spec t, qm_request_configs = rt_request_configs t \<rparr>)))"

section \<open>What can be loaded\<close>

text \<open>Every lookup client inherits \<open>supports_producer_reuse\<close>, so that \<open>hasattr\<close> fails only without a client.\<close>

definition lookup_tokens :: "connector_env \<Rightarrow> vllm_request \<Rightarrow> int list" where
  "lookup_tokens env r =
     (case extract_mm_features (vr_mm r) of
        (hashes, positions) \<Rightarrow>
          let token_ids = (if hashes \<noteq> [] \<and> positions \<noteq> []
                then apply_mm_hashes_to_token_ids env (vr_prompt_token_ids r) hashes positions else vr_all_token_ids r)
          in if 0 < cx_skip_last_n_tokens env then py_slice token_ids 0 (- cx_skip_last_n_tokens env) else token_ids)"

text \<open>The answer remembered by the client, or else that of a lookup.\<close>

definition external_hit_tokens ::
  "connector_env \<Rightarrow> 's lookup_client \<Rightarrow> vllm_request \<Rightarrow> 's connector \<Rightarrow> 's connector \<times> int option result" where
  "external_hit_tokens env client r cn =
     (case lc_lookup_cache client (vr_request_id r) (cn_client cn) of
        (s, Inl e) \<Rightarrow> (cn\<lparr>cn_client := s\<rparr>, Inl e)
      | (s, Inr x) \<Rightarrow>
          if x \<noteq> Some (- 1) then (cn\<lparr>cn_client := s\<rparr>, Inr x)
          else (case lc_lookup client (lookup_tokens env r) (vr_request_id r) (extract_request_configs (vr_extra_args r)) s of
                  (s, res) \<Rightarrow>
                    (cn\<lparr>cn_client := s, cn_requests_priority := AList.update (vr_request_id r) (vr_priority r) (cn_requests_priority cn)\<rparr>, res)))"

definition mock_req :: "string \<Rightarrow> bool" where
  "mock_req req_id \<longleftrightarrow> py_startswith req_id ''mock_req''"

definition get_num_new_matched_tokens ::
  "connector_env \<Rightarrow> 's lookup_client option \<Rightarrow> vllm_request \<Rightarrow> int \<Rightarrow> 's connector \<Rightarrow> 's connector \<times> int option result" where
  "get_num_new_matched_tokens env lookup_client r num_computed_tokens cn =
     (if mock_req (vr_request_id r) then (cn, Inr (Some 0))
      else case lookup_client of
             None \<Rightarrow> (cn, if cx_kv_role env = ''kv_producer'' then Inr (Some 0) else Inl AssertionError)
           | Some client \<Rightarrow>
               sr_bind (external_hit_tokens env client r cn) (\<lambda>hits cn.
                 case hits of
                   None \<Rightarrow> (cn, Inr None)
                 | Some n \<Rightarrow>
                     let need_to_allocate = n - num_computed_tokens - (if n = vr_num_tokens r then 1 else 0);
                         ls = \<lparr> ls_vllm_cached_tokens = num_computed_tokens, ls_lmcache_cached_tokens = n, ls_can_load = False \<rparr>
                     in (cn\<lparr>cn_load_specs := AList.update (vr_request_id r) ls (cn_load_specs cn)\<rparr>,
                         Inr (Some (if need_to_allocate \<le> 0 then 0 else need_to_allocate)))))"

section \<open>After the allocation\<close>

fun disagg_of_params :: "disagg_params \<Rightarrow> disagg_spec result" where
  "disagg_of_params dp =
     (case (dp_receiver_host dp, dp_receiver_init_port dp, dp_req_id dp, dp_receiver_alloc_port dp) of
        (Some host, Some init_port, Some req_id, Some alloc_port) \<Rightarrow>
          Inr \<lparr> ds_req_id = req_id, ds_receiver_id = host @ show_int 10 init_port, ds_receiver_host = host,
                ds_receiver_init_port = init_port, ds_receiver_alloc_port = alloc_port,
                ds_is_last_prefill = False, ds_num_transferred_tokens = 0 \<rparr>
      | _ \<Rightarrow> Inl KeyError)"

definition note_disagg :: "vllm_request \<Rightarrow> 's connector \<Rightarrow> 's connector \<times> unit result" where
  "note_disagg r cn =
     (case Option.bind (vr_kv_transfer_params r) tp_disagg_spec of
        None \<Rightarrow> (cn, Inr ())
      | Some dp \<Rightarrow> (case disagg_of_params dp of
                      Inl e \<Rightarrow> (cn, Inl e)
                    | Inr ds \<Rightarrow> (cn\<lparr>cn_tmp_disagg := AList.update (vr_request_id r) ds (cn_tmp_disagg cn)\<rparr>, Inr ())))"

definition update_state_after_alloc ::
  "'s lookup_client option \<Rightarrow> (nat \<Rightarrow> vllm_request) \<Rightarrow> nat \<Rightarrow> int \<Rightarrow> 's connector \<Rightarrow> 's connector \<times> unit result" where
  "update_state_after_alloc lookup_client heap ref num_external_tokens cn =
     (case lookup_client of
        None \<Rightarrow> (cn, Inl AssertionError)
      | Some client \<Rightarrow>
          let r = heap ref; i = vr_request_id r
          in sr_bind (note_disagg r (cn\<lparr>cn_client := lc_clear_lookup_status client i (cn_client cn)\<rparr>)) (\<lambda>_ cn.
               let cn = cn\<lparr>cn_unfinished_requests := AList.update i ref (cn_unfinished_requests cn)\<rparr>
               in case map_of (cn_load_specs cn) i of
                    None \<Rightarrow> (cn, Inr ())
                  | Some ls \<Rightarrow>
                      if num_external_tokens = 0
                      then (cn\<lparr>cn_load_specs := AList.update i (ls\<lparr>ls_can_load := False\<rparr>) (cn_load_specs cn)\<rparr>, Inr ())
                      else if num_external_tokens \<noteq> ls_lmcache_cached_tokens ls - ls_vllm_cached_tokens ls
                                - (if ls_lmcache_cached_tokens ls = vr_num_tokens r then 1 else 0)
                      then (cn, Inl AssertionError)
                      else (cn\<lparr>cn_load_specs := AList.update i (ls\<lparr>ls_can_load := True\<rparr>) (cn_load_specs cn)\<rparr>, Inr ())))"

section \<open>The metadata of a step\<close>

definition drop_finished :: "string \<Rightarrow> 's connector \<Rightarrow> 's connector" where
  "drop_finished i cn = cn\<lparr>cn_request_trackers := AList.delete i (cn_request_trackers cn),
     cn_unfinished_requests := AList.delete i (cn_unfinished_requests cn)\<rparr>"

text \<open>The tracker is updated in place; a request without work adds nothing.\<close>

definition add_meta ::
  "connector_env \<Rightarrow> string \<Rightarrow> load_spec option \<Rightarrow> tracker \<Rightarrow> 's connector \<Rightarrow> 's connector \<times> req_meta list result" where
  "add_meta env i ls t cn =
     (case from_request_tracker env ls t of
        (t, res) \<Rightarrow>
          (cn\<lparr>cn_request_trackers := AList.update i t (cn_request_trackers cn)\<rparr>,
           case res of Inl e \<Rightarrow> Inl e | Inr None \<Rightarrow> Inr [] | Inr (Some m) \<Rightarrow> Inr [m]))"

definition new_req_meta ::
  "connector_env \<Rightarrow> (string, int) odict \<Rightarrow> new_request \<Rightarrow> 's connector \<Rightarrow> 's connector \<times> req_meta list result" where
  "new_req_meta env num_scheduled nr cn =
     (let i = nr_req_id nr
      in if mock_req i then (cn, Inr [])
         else
           let ls = map_of (cn_load_specs cn) i;
               cn = cn\<lparr>cn_load_specs := AList.delete i (cn_load_specs cn)\<rparr>
           in case map_of num_scheduled i of
                None \<Rightarrow> (cn, Inl KeyError)
              | Some scheduled \<Rightarrow>
                  let num_tokens_to_compute = nr_num_computed_tokens nr + scheduled;
                      lmcache_cached_tokens = (case ls of None \<Rightarrow> 0 | Some l \<Rightarrow> ls_lmcache_cached_tokens l);
                      priority = (case map_of (cn_requests_priority cn) i of None \<Rightarrow> 0 | Some p \<Rightarrow> p);
                      skip_save = (cx_kv_role env = ''kv_consumer'' \<or> cx_force_skip_save env
                        \<or> (case cx_priority_limit env of None \<Rightarrow> False | Some limit \<Rightarrow> limit < priority))
                  in sr_bind (from_new_request nr num_tokens_to_compute lmcache_cached_tokens skip_save
                                (cn\<lparr>cn_requests_priority := AList.delete i (cn_requests_priority cn)\<rparr>))
                       (\<lambda>t cn. add_meta env i ls t cn))"

fun cached_tokens_of :: "load_spec option \<Rightarrow> int \<times> int" where
  "cached_tokens_of None = (0, 0)"
| "cached_tokens_of (Some ls) = (ls_lmcache_cached_tokens ls, ls_vllm_cached_tokens ls)"

definition update_and_add ::
  "connector_env \<Rightarrow> string \<Rightarrow> load_spec option \<Rightarrow> int list \<Rightarrow> new_blocks \<Rightarrow> bool \<Rightarrow> int list option \<Rightarrow> tracker \<Rightarrow> 's connector
    \<Rightarrow> 's connector \<times> req_meta list result" where
  "update_and_add env i ls new_token_ids new_block_ids preempted all_token_ids t cn =
     (case cached_tokens_of ls of
        (lmcache_cached_tokens, vllm_cached_tokens) \<Rightarrow>
          case tracker_update new_token_ids new_block_ids preempted lmcache_cached_tokens vllm_cached_tokens all_token_ids t of
            Inl e \<Rightarrow> (cn, Inl e)
          | Inr t \<Rightarrow> add_meta env i ls t cn)"

text \<open>A running request in the list of older versions.\<close>

definition cached_req_meta ::
  "connector_env \<Rightarrow> (nat \<Rightarrow> vllm_request) \<Rightarrow> cached_req \<Rightarrow> 's connector \<Rightarrow> 's connector \<times> req_meta list result" where
  "cached_req_meta env heap req cn =
     (let i = cr_req_id req;
          ls = map_of (cn_load_specs cn) i;
          cn = cn\<lparr>cn_load_specs := AList.delete i (cn_load_specs cn)\<rparr>
      in case map_of (cn_request_trackers cn) i of
           None \<Rightarrow> (cn, Inl KeyError)
         | Some t \<Rightarrow>
             (case (cr_resumed_from_preemption req, map_of (cn_unfinished_requests cn) i) of
                (True, None) \<Rightarrow> (cn, Inl AssertionError)
              | (resumed, ref) \<Rightarrow>
                  update_and_add env i ls (cr_new_token_ids req) (cr_new_block_ids req) resumed
                    (if resumed then Some (vr_all_token_ids (heap (the ref))) else None) t cn))"

fun preempted_of :: "resumed \<Rightarrow> nat \<Rightarrow> string \<Rightarrow> bool result" where
  "preempted_of (ResumedIds ids) n i = Inr (i \<in> set ids)"
| "preempted_of (ResumedFlags flags) n i = (if n < length flags then Inr (flags ! n) else Inl IndexError)"
| "preempted_of NoResumed n i = Inl AttributeError"

text \<open>The request number \<open>n\<close> of a \<open>CachedRequestData\<close>.\<close>

definition cached_data_meta ::
  "connector_env \<Rightarrow> (nat \<Rightarrow> vllm_request) \<Rightarrow> (string, int) odict \<Rightarrow> new_blocks list \<Rightarrow> resumed \<Rightarrow> nat \<Rightarrow> string
    \<Rightarrow> 's connector \<Rightarrow> 's connector \<times> req_meta list result" where
  "cached_data_meta env heap num_scheduled new_block_ids res n i cn =
     (case (map_of (cn_request_trackers cn) i, map_of num_scheduled i, map_of (cn_unfinished_requests cn) i) of
        (None, _) \<Rightarrow> (cn, Inl KeyError)
      | (Some t, None, _) \<Rightarrow> (cn, Inl KeyError)
      | (Some t, Some num_new_tokens, None) \<Rightarrow> (cn, Inl ValueError)
      | (Some t, Some num_new_tokens, Some ref) \<Rightarrow>
          let r = heap ref;
              new_token_ids = py_slice (vr_all_token_ids r) (vr_num_computed_tokens r) (vr_num_computed_tokens r + num_new_tokens)
          in if length new_block_ids \<le> n then (cn, Inl IndexError)
             else
               let ls = map_of (cn_load_specs cn) i;
                   cn = cn\<lparr>cn_load_specs := AList.delete i (cn_load_specs cn)\<rparr>
               in case preempted_of res n i of
                    Inl e \<Rightarrow> (cn, Inl e)
                  | Inr preempted \<Rightarrow>
                      if preempted \<and> (case ls of None \<Rightarrow> True
                           | Some l \<Rightarrow> vr_num_computed_tokens r \<noteq> max (ls_lmcache_cached_tokens l) (ls_vllm_cached_tokens l))
                      then (cn, Inl AssertionError)
                      else update_and_add env i ls new_token_ids (new_block_ids ! n) preempted
                             (if preempted then Some (vr_all_token_ids r) else None) t cn)"

fun collect_meta :: "('a \<Rightarrow> 's \<Rightarrow> 's \<times> 'b list result) \<Rightarrow> 'a list \<Rightarrow> 's \<Rightarrow> 's \<times> 'b list result" where
  "collect_meta f [] s = (s, Inr [])"
| "collect_meta f (x # xs) s = sr_bind (f x s) (\<lambda>ys s. sr_bind (collect_meta f xs s) (\<lambda>zs s. (s, Inr (ys @ zs))))"

definition build_connector_meta ::
  "connector_env \<Rightarrow> (nat \<Rightarrow> vllm_request) \<Rightarrow> sched_output \<Rightarrow> 's connector \<Rightarrow> 's connector \<times> req_meta list result" where
  "build_connector_meta env heap out cn =
     sr_bind (collect_meta (new_req_meta env (so_num_scheduled_tokens out)) (so_scheduled_new_reqs out)
                (fold drop_finished (so_finished_req_ids out) cn)) (\<lambda>new cn.
       sr_bind (case so_scheduled_cached_reqs out of
                  CachedList reqs \<Rightarrow> collect_meta (cached_req_meta env heap) reqs cn
                | CachedData ids new_block_ids res \<Rightarrow>
                    collect_meta (\<lambda>(n, i). cached_data_meta env heap (so_num_scheduled_tokens out) new_block_ids res n i)
                      (enumerate 0 ids) cn)
         (\<lambda>cached cn. (cn, Inr (new @ cached))))"

text \<open>\<open>cancel\<close> is the \<open>cancel_lookup\<close> of the client, which only the asynchronous one has. The result tells the
  first token, when it is asked for.\<close>

definition request_finished ::
  "connector_env \<Rightarrow> 's lookup_client option \<Rightarrow> (string \<Rightarrow> 's \<Rightarrow> 's) option \<Rightarrow> vllm_request \<Rightarrow> 's connector
    \<Rightarrow> 's connector \<times> int option result" where
  "request_finished env lookup_client cancel r cn =
     sr_bind (if vr_aborted r \<and> cx_async_loading env
              then (if lookup_client = None then (cn, Inl AssertionError)
                    else case cancel of
                           None \<Rightarrow> (cn, Inl AttributeError)
                         | Some f \<Rightarrow> (cn\<lparr>cn_client := f (vr_request_id r) (cn_client cn)\<rparr>, Inr ()))
              else (cn, Inr ()))
       (\<lambda>_ cn. (cn, case vr_kv_transfer_params r of
                      None \<Rightarrow> Inr None
                    | Some tp \<Rightarrow> if tp_ret_first_tok tp
                        then (case vr_output_token_ids r of [] \<Rightarrow> Inl IndexError | tok # toks \<Rightarrow> Inr (Some tok)) else Inr None))"

section \<open>Slices and chunks\<close>

lemma py_slice_take: "0 \<le> n \<Longrightarrow> py_slice xs 0 n = take (nat n) xs"
  by (simp add: py_slice_def slice_bound_def min_def Let_def)

lemma cdiv_next:
  assumes "0 < c"
  shows "cdiv (x + 1) c = Inr (x div c + 1)"
proof -
  have "- (x + 1) = c * (- (x div c) - 1) + (c - 1 - x mod c)"
    using mult_div_mod_eq[of c x] by (simp add: algebra_simps)
  moreover have "0 \<le> c - 1 - x mod c" "c - 1 - x mod c < c" using pos_mod_sign[OF assms, of x] pos_mod_bound[OF assms, of x] by linarith+
  ultimately have "(- (x + 1)) div c = - (x div c) - 1" by (rule int_div_pos_eq)
  then have "(x + 1) div - c = - (x div c) - 1" by (simp only: div_minus_right)
  then show ?thesis using assms by (simp add: cdiv_def)
qed

lemma slice_fill_length [simp]: "length (slice_fill a b v xs) = length xs"
  by (simp add: slice_fill_def Let_def)

lemma slice_fill_prefix: "0 \<le> n \<Longrightarrow> slice_fill 0 n v xs = replicate (min (nat n) (length xs)) v @ drop (nat n) xs"
  by (rule nth_equalityI) (auto simp: slice_fill_def slice_bound_def Let_def nth_append)

lemma apply_mm_length [simp]: "length (apply_mm_hashes_to_token_ids env ts hs phs) = length ts"
  by (induction env ts hs phs rule: apply_mm_hashes_to_token_ids.induct) (simp_all add: Let_def)

text \<open>The slot of a token is its offset in the block that holds it.\<close>

lemma slots_length: "length (slots_of_blocks (int b) blocks) = length blocks * b"
  by (induction blocks) (simp_all add: slots_of_blocks_def)

lemma slots_nth:
  assumes "k < length blocks * b"
  shows "slots_of_blocks (int b) blocks ! k = blocks ! (k div b) * int b + int (k mod b)"
  using assms
proof (induction blocks arbitrary: k)
  case (Cons x blocks)
  have s: "slots_of_blocks (int b) (x # blocks) = map (\<lambda>i. int i + x * int b) [0..<b] @ slots_of_blocks (int b) blocks"
    by (simp add: slots_of_blocks_def)
  show ?case
  proof (cases "k < b")
    case True
    then show ?thesis by (simp add: s nth_append)
  next
    case False
    then have b: "0 < b" "k - b < length blocks * b" using Cons.prems by (cases "b = 0"; simp)+
    have "k div b = Suc ((k - b) div b)" "k mod b = (k - b) mod b" using False b(1) by (simp_all add: le_div_geq le_mod_geq)
    then show ?thesis using False Cons.IH[OF b(2)] by (simp add: s nth_append)
  qed
qed simp
section \<open>A request that is metadata\<close>

lemma sr_bind_cases: "sr_bind m f = (s2, r) \<Longrightarrow> (\<exists>e. m = (s2, Inl e) \<and> r = Inl e) \<or> (\<exists>s1 x. m = (s1, Inr x) \<and> f x s1 = (s2, r))"
  by (auto simp: sr_bind_def split: prod.splits sum.splits)

definition save_end :: "connector_env \<Rightarrow> tracker \<Rightarrow> int" where
  "save_end env t =
     (let n = int (length (rt_token_ids t))
      in if n < rt_prompt_len t \<or> cx_discard_partial_chunks env then n div cx_chunk_size env * cx_chunk_size env else n)"

definition saving_off :: "connector_env \<Rightarrow> tracker \<Rightarrow> bool" where
  "saving_off env t \<longleftrightarrow> skip_save_of env ((rt_num_saved_tokens t div cx_chunk_size env + 1) * cx_chunk_size env) t"

text \<open>The first tokens, with the multimodal hashes in them.\<close>

definition first_tokens :: "connector_env \<Rightarrow> tracker \<Rightarrow> int \<Rightarrow> int list" where
  "first_tokens env t n =
     (let cut = take (nat n) (rt_token_ids t)
      in if rt_mm_hashes t = [] then cut else apply_mm_hashes_to_token_ids env cut (rt_mm_hashes t) (rt_mm_positions t))"

abbreviation meta_tokens :: "connector_env \<Rightarrow> tracker \<Rightarrow> int list" where
  "meta_tokens env t \<equiv> first_tokens env t (save_end env t)"

text \<open>What a request becomes, with positive sizes.\<close>

lemma from_request_tracker_eq:
  assumes "0 < cx_chunk_size env" and "0 \<le> cx_block_size env"
  shows "from_request_tracker env ls t =
    (if saving_off env t \<and> ls = None then (t, Inr None)
     else (if saving_off env t then t else t\<lparr>rt_num_saved_tokens := save_end env t\<rparr>,
       Inr (Some \<lparr> qm_req_id = rt_req_id t, qm_token_ids = meta_tokens env t,
         qm_slot_mapping = take (length (meta_tokens env t)) (slots_of_blocks (cx_block_size env) (rt_allocated_block_ids t)),
         qm_is_last_prefill = (rt_prompt_len t \<le> int (length (rt_token_ids t))),
         qm_save_spec = Some \<lparr> ss_skip_leading_tokens = rt_num_saved_tokens t, ss_can_save = \<not> saving_off env t \<rparr>,
         qm_load_spec = (case ls of None \<Rightarrow> None | Some l \<Rightarrow> if ls_can_load l then Some l else None),
         qm_disagg_spec = rt_disagg_spec t, qm_request_configs = rt_request_configs t \<rparr>)))"
proof -
  have n: "0 \<le> int (length (rt_token_ids t)) div cx_chunk_size env * cx_chunk_size env"
    using assms(1) by (simp add: pos_imp_zdiv_nonneg_iff)
  have "save_end env t = (if \<not> rt_prompt_len t \<le> int (length (rt_token_ids t)) \<or> cx_discard_partial_chunks env
      then int (length (rt_token_ids t)) div cx_chunk_size env * cx_chunk_size env else int (length (rt_token_ids t)))"
    by (simp add: save_end_def Let_def not_le)
  moreover from this have "0 \<le> save_end env t" using n by simp
  ultimately show ?thesis using assms
    by (simp add: from_request_tracker_def saving_off_def cdiv_next Let_def first_tokens_def py_slice_take not_less)
qed

lemma save_end_bounds:
  assumes "0 < cx_chunk_size env"
  shows "0 \<le> save_end env t" and "save_end env t \<le> int (length (rt_token_ids t))"
    and "int (length (rt_token_ids t)) div cx_chunk_size env * cx_chunk_size env \<le> save_end env t"
    and "int (length (rt_token_ids t)) - save_end env t < cx_chunk_size env"
proof -
  let ?n = "int (length (rt_token_ids t))" and ?c = "cx_chunk_size env"
  have "?n div ?c * ?c = ?n - ?n mod ?c" by (simp add: minus_mod_eq_div_mult)
  moreover have "0 \<le> ?n mod ?c" "?n mod ?c < ?c" using assms by simp_all
  moreover have "0 \<le> ?n div ?c * ?c" using assms by (simp add: pos_imp_zdiv_nonneg_iff)
  ultimately show "0 \<le> save_end env t" "save_end env t \<le> ?n" "?n div ?c * ?c \<le> save_end env t" "?n - save_end env t < ?c"
    using assms by (simp_all add: save_end_def Let_def)
qed

lemma meta_tokens_length:
  assumes "0 < cx_chunk_size env"
  shows "int (length (meta_tokens env t)) = save_end env t"
  using save_end_bounds[OF assms, of t] by (simp add: first_tokens_def Let_def)
section \<open>The steps of a request\<close>

text \<open>A request that is scheduled again and again without being preempted: per step its load spec, the new tokens
  and the new blocks.\<close>

type_synonym tracker_step = "load_spec option \<times> int list \<times> new_blocks"

fun tracker_steps :: "connector_env \<Rightarrow> tracker_step list \<Rightarrow> tracker \<Rightarrow> tracker \<times> req_meta option list result" where
  "tracker_steps env [] t = (t, Inr [])"
| "tracker_steps env ((ls, new_token_ids, new_block_ids) # steps) t =
     sr_bind (case tracker_update new_token_ids new_block_ids False (fst (cached_tokens_of ls)) (snd (cached_tokens_of ls)) None t of
                Inl e \<Rightarrow> (t, Inl e) | Inr t \<Rightarrow> from_request_tracker env ls t)
       (\<lambda>m t. sr_bind (tracker_steps env steps t) (\<lambda>ms t. (t, Inr (m # ms))))"

definition can_save :: "req_meta \<Rightarrow> bool" where
  "can_save m \<longleftrightarrow> (case qm_save_spec m of None \<Rightarrow> False | Some ss \<Rightarrow> ss_can_save ss)"

definition saves_of :: "req_meta option list \<Rightarrow> req_meta list" where
  "saves_of ms = filter can_save (concat (map (\<lambda>m. case m of None \<Rightarrow> [] | Some m \<Rightarrow> [m]) ms))"

definition skip_of :: "req_meta \<Rightarrow> int" where
  "skip_of m = (case qm_save_spec m of None \<Rightarrow> 0 | Some ss \<Rightarrow> ss_skip_leading_tokens ss)"

definition end_of :: "req_meta \<Rightarrow> int" where
  "end_of m = int (length (qm_token_ids m))"

lemma saves_of_Cons [simp]: "saves_of [] = []" "saves_of (None # ms) = saves_of ms"
  "saves_of (Some m # ms) = (if can_save m then m # saves_of ms else saves_of ms)"
  by (simp_all add: saves_of_def)

definition same_request :: "tracker \<Rightarrow> tracker \<Rightarrow> bool" where
  "same_request t t' \<longleftrightarrow> rt_disagg_spec t' = rt_disagg_spec t \<and> rt_skip_save t' = rt_skip_save t \<and> rt_prompt_len t' = rt_prompt_len t \<and>
     rt_request_configs t' = rt_request_configs t \<and> rt_mm_hashes t' = rt_mm_hashes t \<and> rt_mm_positions t' = rt_mm_positions t \<and>
     (\<exists>ts. rt_token_ids t' = rt_token_ids t @ ts)"

lemma same_request_trans: "same_request t t' \<Longrightarrow> same_request t' t'' \<Longrightarrow> same_request t t''"
  by (auto simp: same_request_def)

lemma first_tokens_same: "same_request t t' \<Longrightarrow> n \<le> int (length (rt_token_ids t)) \<Longrightarrow> first_tokens env t' n = first_tokens env t n"
  by (auto simp: same_request_def first_tokens_def Let_def)

lemma tracker_update_running:
  "\<exists>t1. tracker_update toks bl False a b None t = Inr t1 \<and> same_request t t1 \<and> rt_num_saved_tokens t1 = rt_num_saved_tokens t \<and>
     rt_token_ids t1 = rt_token_ids t @ toks"
  by (simp add: tracker_update_def res_bind_def same_request_def Let_def)

definition little_unsaved :: "connector_env \<Rightarrow> tracker \<Rightarrow> bool" where
  "little_unsaved env t \<longleftrightarrow>
     (\<not> rt_skip_save t \<and> \<not> request_skip env (rt_request_configs t) \<and> (rt_is_decode_phase t \<longrightarrow> cx_save_decode_cache env) \<longrightarrow>
      int (length (rt_token_ids t)) - rt_num_saved_tokens t < cx_chunk_size env)"

text \<open>\<open>ms\<close> saves the tokens of \<open>t'\<close> from where \<open>t\<close> ended.\<close>

definition saves_between :: "connector_env \<Rightarrow> tracker \<Rightarrow> req_meta option list \<Rightarrow> tracker \<Rightarrow> bool" where
  "saves_between env t ms t' \<longleftrightarrow>
     map skip_of (saves_of ms) @ [rt_num_saved_tokens t'] = rt_num_saved_tokens t # map end_of (saves_of ms) \<and>
     (\<forall>m \<in> set (saves_of ms). skip_of m \<le> end_of m \<and> end_of m \<le> int (length (rt_token_ids t')) \<and>
        qm_token_ids m = first_tokens env t' (end_of m))"

lemma next_boundary:
  assumes "0 < (c :: int)"
  shows "s < (s div c + 1) * c" and "(s div c + 1) * c \<le> s + c"
proof -
  have "(s div c + 1) * c = s - s mod c + c" by (simp add: minus_mod_eq_div_mult algebra_simps)
  then show "s < (s div c + 1) * c" and "(s div c + 1) * c \<le> s + c"
    using pos_mod_bound[OF assms, of s] pos_mod_sign[OF assms, of s] by linarith+
qed

lemma first_tokens_simps [simp]:
  "first_tokens env (t\<lparr>rt_num_saved_tokens := x\<rparr>) n = first_tokens env t n"
  "length (first_tokens env t n) \<le> length (rt_token_ids t)"
  by (simp_all add: first_tokens_def Let_def)

text \<open>One step: a save starts where the last one ended and does not go back; without one little is unsaved.\<close>

lemma tracker_step_saves:
  assumes c: "0 < cx_chunk_size env" and b: "0 \<le> cx_block_size env" and d: "rt_disagg_spec t = None" and s: "0 \<le> rt_num_saved_tokens t"
  shows "\<exists>t' m. from_request_tracker env ls t = (t', Inr m) \<and> same_request t t' \<and> rt_token_ids t' = rt_token_ids t \<and>
      rt_num_saved_tokens t \<le> rt_num_saved_tokens t' \<and> saves_between env t [m] t' \<and> little_unsaved env t'"
proof (cases "saving_off env t")
  case True
  then have "little_unsaved env t"
    using d next_boundary(2)[OF c, of "rt_num_saved_tokens t"] by (auto simp: little_unsaved_def saving_off_def skip_save_of_def)
  with True show ?thesis
    by (cases "ls = None") (simp_all add: from_request_tracker_eq[OF c b] same_request_def can_save_def saves_between_def)
next
  case False
  let ?c = "cx_chunk_size env" and ?n = "int (length (rt_token_ids t))" and ?s = "rt_num_saved_tokens t"
  have "?s \<le> save_end env t"
  proof (cases "?s = 0")
    case nz: False
    then have "(?s div ?c + 1) * ?c \<le> ?n" using False d s by (auto simp: saving_off_def skip_save_of_def)
    then have "?s div ?c + 1 \<le> ?n div ?c" using zdiv_mono1[OF _ c, of "(?s div ?c + 1) * ?c" ?n] c by (simp del: distrib_right)
    then have "(?s div ?c + 1) * ?c \<le> ?n div ?c * ?c" using c by (simp add: mult_right_mono)
    then show ?thesis using save_end_bounds(3)[OF c, of t] next_boundary(1)[OF c, of ?s] by linarith
  qed (use save_end_bounds(1)[OF c] in simp)
  moreover have "little_unsaved env (t\<lparr>rt_num_saved_tokens := save_end env t\<rparr>)"
    using save_end_bounds(4)[OF c, of t] by (simp add: little_unsaved_def)
  ultimately show ?thesis using False save_end_bounds(2)[OF c, of t]
    by (simp add: from_request_tracker_eq[OF c b] same_request_def can_save_def skip_of_def end_of_def meta_tokens_length[OF c] saves_between_def)
qed

lemma saves_between_Cons:
  assumes "saves_between env t [m] t1" and "saves_between env t1 ms t2" and "same_request t1 t2"
  shows "saves_between env t (m # ms) t2"
proof -
  have l: "length (rt_token_ids t1) \<le> length (rt_token_ids t2)" using assms(3) by (auto simp: same_request_def)
  have a: "saves_of (m # ms) = saves_of [m] @ saves_of ms" by (cases m) simp_all
  have "\<forall>x \<in> set (saves_of [m]). skip_of x \<le> end_of x \<and> end_of x \<le> int (length (rt_token_ids t2)) \<and> qm_token_ids x = first_tokens env t2 (end_of x)"
    using assms(1) l first_tokens_same[OF assms(3)] by (fastforce simp: saves_between_def)
  moreover have "map skip_of (saves_of (m # ms)) @ [rt_num_saved_tokens t2] = rt_num_saved_tokens t # map end_of (saves_of (m # ms))"
    using assms(1,2) by (cases m) (auto simp: saves_between_def)
  ultimately show ?thesis using assms(2) unfolding a saves_between_def by auto
qed

lemma tracker_steps_saves:
  assumes c: "0 < cx_chunk_size env" and b: "0 \<le> cx_block_size env" and "rt_disagg_spec t = None" and "0 \<le> rt_num_saved_tokens t"
  shows "\<exists>t' ms. tracker_steps env steps t = (t', Inr ms) \<and> length ms = length steps \<and> same_request t t' \<and> saves_between env t ms t' \<and>
    rt_token_ids t' = rt_token_ids t @ concat (map (fst \<circ> snd) steps) \<and> (steps \<noteq> [] \<longrightarrow> little_unsaved env t')"
  using assms(3,4)
proof (induction steps arbitrary: t)
  case Nil
  then show ?case by (simp add: same_request_def saves_between_def)
next
  case (Cons x steps)
  obtain ls toks bl where x: "x = (ls, toks, bl)" by (cases x)
  obtain t1 where u: "tracker_update toks bl False (fst (cached_tokens_of ls)) (snd (cached_tokens_of ls)) None t = Inr t1"
    "same_request t t1" "rt_num_saved_tokens t1 = rt_num_saved_tokens t" "rt_token_ids t1 = rt_token_ids t @ toks"
    using tracker_update_running by blast
  have p: "rt_disagg_spec t1 = None" "0 \<le> rt_num_saved_tokens t1" using u(2,3) Cons.prems by (simp_all add: same_request_def)
  obtain t2 m where f: "from_request_tracker env ls t1 = (t2, Inr m)" "same_request t1 t2" "rt_token_ids t2 = rt_token_ids t1"
    "rt_num_saved_tokens t1 \<le> rt_num_saved_tokens t2" "saves_between env t1 [m] t2" "little_unsaved env t2"
    using tracker_step_saves[OF c b p] by blast
  have p2: "rt_disagg_spec t2 = None" "0 \<le> rt_num_saved_tokens t2" using f(2,4) p by (simp_all add: same_request_def)
  obtain t3 ms where g: "tracker_steps env steps t2 = (t3, Inr ms)" "length ms = length steps" "same_request t2 t3" "saves_between env t2 ms t3"
    "rt_token_ids t3 = rt_token_ids t2 @ concat (map (fst \<circ> snd) steps)" "steps \<noteq> [] \<longrightarrow> little_unsaved env t3"
    using Cons.IH[OF p2] by blast
  have s: "saves_between env t [m] t2" using f(5) u(3) by (simp add: saves_between_def)
  have "little_unsaved env t3" using f(6) g(1,6) by (cases steps) auto
  moreover have "same_request t t3" by (rule same_request_trans[OF u(2) same_request_trans[OF f(2) g(3)]])
  ultimately show ?case using u(1,4) f(1,3) g(1,2,5) saves_between_Cons[OF s g(4,3)] by (simp add: x comp_def)
qed

text \<open>Saving is switched off: by \<open>force_skip_save\<close> or the priority of the request, by its configuration, or because it decodes
  and \<open>save_decode_cache\<close> is not set, as is the default.\<close>

definition saving_disabled :: "connector_env \<Rightarrow> tracker \<Rightarrow> bool" where
  "saving_disabled env t \<longleftrightarrow> rt_skip_save t \<or> request_skip env (rt_request_configs t) \<or> (rt_is_decode_phase t \<and> \<not> cx_save_decode_cache env)"

lemma tracker_steps_disabled:
  assumes "0 < cx_chunk_size env" and "0 \<le> cx_block_size env" and "saving_disabled env t" and "rt_disagg_spec t = None"
    and "tracker_steps env steps t = (t', Inr ms)"
  shows "saves_of ms = []"
  using assms(3-5)
proof (induction steps arbitrary: t ms)
  case (Cons x steps)
  obtain ls toks bl where x: "x = (ls, toks, bl)" by (cases x)
  obtain t1 where u: "tracker_update toks bl False (fst (cached_tokens_of ls)) (snd (cached_tokens_of ls)) None t = Inr t1"
    "saving_disabled env t1" "rt_disagg_spec t1 = None"
    using Cons.prems(1,2) by (auto simp: tracker_update_def res_bind_def Let_def saving_disabled_def)
  have off: "saving_off env t1" using u(2,3) by (auto simp: saving_off_def skip_save_of_def saving_disabled_def)
  obtain m where f: "from_request_tracker env ls t1 = (t1, Inr m)" "saves_of [m] = []"
    using off by (cases "ls = None") (simp_all add: from_request_tracker_eq[OF assms(1,2)] can_save_def)
  obtain ms' where g: "tracker_steps env steps t1 = (t', Inr ms')" "ms = m # ms'"
    using Cons.prems(3) u(1) f(1) by (auto simp: x sr_bind_def split: prod.splits sum.splits)
  have "saves_of (m # ms') = saves_of [m] @ saves_of ms'" by (cases m) simp_all
  then show ?case using Cons.IH[OF u(2,3) g(1)] f(2) g(2) by simp
qed simp

text \<open>
  C15: what is saved of a request are its tokens, in order and without gaps. Take a request that does not send
  its chunks to a decoder (no disaggregation), scheduled again and again without being preempted, in whatever
  pieces (a preemption replaces its tokens and starts anew from what \<open>update\<close> then finds in the cache). Each
  metadata that asks for a save starts at the token where the last one ended and ends no earlier; its tokens are the
  first ones of the request, with the multimodal hashes in them. While saving is switched off, by
  \<open>skip_save\<close>, by the configuration of the request, or in the decode phase unless \<open>save_decode_cache\<close> is set,
  nothing is saved; after a step that leaves it on, less than a chunk is unsaved.
\<close>

theorem saves_follow_each_other:
  assumes "0 < cx_chunk_size env" and "0 \<le> cx_block_size env" and "rt_disagg_spec t = None" and "0 \<le> rt_num_saved_tokens t"
  shows "\<exists>t' ms. tracker_steps env steps t = (t', Inr ms) \<and> length ms = length steps \<and>
    rt_token_ids t' = rt_token_ids t @ concat (map (fst \<circ> snd) steps) \<and>
    map skip_of (saves_of ms) @ [rt_num_saved_tokens t'] = rt_num_saved_tokens t # map end_of (saves_of ms) \<and>
    (\<forall>m \<in> set (saves_of ms). skip_of m \<le> end_of m \<and> qm_token_ids m = first_tokens env t' (end_of m)) \<and>
    (saving_disabled env t \<longrightarrow> saves_of ms = []) \<and>
    (steps \<noteq> [] \<and> \<not> saving_disabled env t' \<longrightarrow> int (length (rt_token_ids t')) - rt_num_saved_tokens t' < cx_chunk_size env)"
proof -
  obtain t' ms where S: "tracker_steps env steps t = (t', Inr ms)" "length ms = length steps" "saves_between env t ms t'"
    "rt_token_ids t' = rt_token_ids t @ concat (map (fst \<circ> snd) steps)" "steps \<noteq> [] \<longrightarrow> little_unsaved env t'"
    using tracker_steps_saves[OF assms, of steps] by blast
  then show ?thesis using tracker_steps_disabled[OF assms(1,2) _ assms(3) S(1)]
    by (auto simp: saves_between_def little_unsaved_def saving_disabled_def)
qed

definition demo_cx :: connector_env where
  "demo_cx = \<lparr> cx_kv_role = ''kv_both'', cx_block_size = 2, cx_chunk_size = 4, cx_discard_partial_chunks = False, cx_save_decode_cache = True,
     cx_skip_last_n_tokens = 0, cx_force_skip_save = False, cx_priority_limit = None, cx_async_loading = False, cx_enable_blending = False,
     cx_is_last_rank = True, cx_sha256 = (\<lambda>s. map (\<lambda>c. of_nat (of_char c)) s), cx_truthy = (\<lambda>v. v = ''True'') \<rparr>"

definition demo_tracker :: tracker where
  "demo_tracker = \<lparr> rt_req_id = ''r'', rt_prompt_len = 5, rt_token_ids = [1, 2, 3], rt_allocated_block_ids = [9, 4], rt_num_saved_tokens = 0,
     rt_disagg_spec = None, rt_mm_hashes = [], rt_mm_positions = [], rt_request_configs = None, rt_is_decode_phase = False, rt_skip_save = False \<rparr>"

theorem saves_follow_each_other_witness:
  "\<exists>t' ms. tracker_steps demo_cx [(None, [4, 5], BlockGroups [[6]]), (None, [6], NoBlocks), (None, [7, 8], BlockList [2])] demo_tracker = (t', Inr ms) \<and>
     map skip_of (saves_of ms) @ [rt_num_saved_tokens t'] = 0 # map end_of (saves_of ms) \<and> rt_token_ids t' = [1, 2, 3, 4, 5, 6, 7, 8]"
  using saves_follow_each_other[of demo_cx demo_tracker "[(None, [4, 5], BlockGroups [[6]]), (None, [6], NoBlocks), (None, [7, 8], BlockList [2])]"]
  by (auto simp: demo_cx_def demo_tracker_def)

section \<open>Slots\<close>

text \<open>
  the slot mapping puts every token where its block is. The metadata of a request give the first tokens, and
  as many slots as the allocated blocks have up to the number of tokens; token \<open>k\<close> has the slot of its offset in
  block number \<open>k div block_size\<close>, and when the blocks differ no two tokens share a slot.
\<close>

theorem slot_mapping_follows_blocks:
  assumes "cx_block_size env = int b" and "from_request_tracker env ls t = (t', Inr (Some m))"
  shows "length (qm_slot_mapping m) = min (length (qm_token_ids m)) (length (rt_allocated_block_ids t) * b) \<and>
    (\<forall>k < length (qm_slot_mapping m). qm_slot_mapping m ! k = rt_allocated_block_ids t ! (k div b) * int b + int (k mod b)) \<and>
    (distinct (rt_allocated_block_ids t) \<longrightarrow> distinct (qm_slot_mapping m))"
proof -
  let ?bl = "rt_allocated_block_ids t" and ?s = "qm_slot_mapping m"
  have s: "?s = take (length (qm_token_ids m)) (slots_of_blocks (int b) ?bl)"
    using assms by (auto simp: from_request_tracker_def Let_def split: sum.splits if_splits)
  have l: "length ?s = min (length (qm_token_ids m)) (length ?bl * b)" by (simp add: s slots_length min.commute)
  have n: "?s ! k = ?bl ! (k div b) * int b + int (k mod b)" if h: "k < length ?s" for k
    using h by (simp add: s slots_length slots_nth)
  have "distinct ?s" if d: "distinct ?bl"
    unfolding distinct_conv_nth
  proof (intro allI impI notI)
    fix i j assume ij: "i < length ?s" "j < length ?s" "i \<noteq> j" "?s ! i = ?s ! j"
    have b: "0 < b" using ij(1) l by (cases "b = 0") simp_all
    have q: "i div b < length ?bl" "j div b < length ?bl" using ij(1,2) l by (simp_all add: less_mult_imp_div_less)
    have e: "?bl ! (i div b) * int b + int (i mod b) = ?bl ! (j div b) * int b + int (j mod b)" using ij n by simp
    have "(?bl ! (i div b) * int b + int (i mod b)) div int b = ?bl ! (i div b)" "(?bl ! (j div b) * int b + int (j mod b)) div int b = ?bl ! (j div b)"
      using b by simp_all
    then have "?bl ! (i div b) = ?bl ! (j div b)" using e by simp
    then have "i div b = j div b" using d q by (simp add: nth_eq_iff_index_eq)
    moreover have "i mod b = j mod b" using e \<open>?bl ! (i div b) = ?bl ! (j div b)\<close> by simp
    ultimately have "i = j" by (metis div_mult_mod_eq)
    then show False using ij(3) by simp
  qed
  with l n show ?thesis by blast
qed

theorem slot_mapping_follows_blocks_witness:
  "\<exists>t' m. from_request_tracker demo_cx None (demo_tracker\<lparr>rt_token_ids := [1, 2, 3, 4]\<rparr>) = (t', Inr (Some m)) \<and> distinct (qm_slot_mapping m) \<and>
     length (qm_slot_mapping m) = 4"
proof -
  let ?t = "demo_tracker\<lparr>rt_token_ids := [1, 2, 3, 4]\<rparr>"
  obtain t' m where f: "from_request_tracker demo_cx None ?t = (t', Inr (Some m))" "length (qm_token_ids m) = 4"
    by (simp add: from_request_tracker_def demo_cx_def demo_tracker_def cdiv_def skip_save_of_def request_skip_def py_slice_def slice_bound_def Let_def)
  have "cx_block_size demo_cx = int 2" by (simp add: demo_cx_def)
  from slot_mapping_follows_blocks[OF this f(1)] f show ?thesis by (simp add: demo_tracker_def)
qed

text \<open>A step of vLLM's scheduler with one new request, and with one that resumes after a preemption.\<close>

definition step_of_new :: "new_request \<Rightarrow> (string, int) odict \<Rightarrow> sched_output" where
  "step_of_new nr scheduled = \<lparr> so_finished_req_ids = [], so_scheduled_new_reqs = [nr], so_num_scheduled_tokens = scheduled,
     so_scheduled_cached_reqs = CachedData [] [] (ResumedIds []) \<rparr>"

definition step_of_resumed :: "string \<Rightarrow> new_blocks \<Rightarrow> (string, int) odict \<Rightarrow> sched_output" where
  "step_of_resumed i blocks scheduled = \<lparr> so_finished_req_ids = [], so_scheduled_new_reqs = [], so_num_scheduled_tokens = scheduled,
     so_scheduled_cached_reqs = CachedData [i] [blocks] (ResumedIds [i]) \<rparr>"

section \<open>From the question to the metadata\<close>

lemma matched_tokens_spec:
  assumes "get_num_new_matched_tokens env (Some client) r v cn = (cn1, Inr (Some m))" and "\<not> mock_req (vr_request_id r)"
  shows "\<exists>n. m = max 0 (n - v - (if n = vr_num_tokens r then 1 else 0)) \<and>
    map_of (cn_load_specs cn1) (vr_request_id r) = Some \<lparr> ls_vllm_cached_tokens = v, ls_lmcache_cached_tokens = n, ls_can_load = False \<rparr> \<and>
    cn_request_trackers cn1 = cn_request_trackers cn"
proof -
  obtain cn0 n where e: "external_hit_tokens env client r cn = (cn0, Inr (Some n))"
    "(cn1, Inr (Some m)) = (cn0\<lparr>cn_load_specs := AList.update (vr_request_id r)
         \<lparr> ls_vllm_cached_tokens = v, ls_lmcache_cached_tokens = n, ls_can_load = False \<rparr> (cn_load_specs cn0)\<rparr>,
       Inr (Some (if n - v - (if n = vr_num_tokens r then 1 else 0) \<le> 0 then 0 else n - v - (if n = vr_num_tokens r then 1 else 0))) :: int option result)"
    using assms by (auto simp: get_num_new_matched_tokens_def Let_def sr_bind_def split: prod.splits sum.splits option.splits)
  have "cn_request_trackers cn0 = cn_request_trackers cn"
    using e(1) by (auto simp: external_hit_tokens_def split: prod.splits sum.splits if_splits)
  then show ?thesis using e(2) by (intro exI[of _ n]) (auto simp: max_def)
qed

definition transfer_ok :: "vllm_request \<Rightarrow> bool" where
  "transfer_ok r \<longleftrightarrow> (case Option.bind (vr_kv_transfer_params r) tp_disagg_spec of None \<Rightarrow> True | Some dp \<Rightarrow> is_ok (disagg_of_params dp))"

lemma note_disagg_ok:
  assumes "transfer_ok r"
  shows "\<exists>cn'. note_disagg r cn = (cn', Inr ()) \<and> cn_load_specs cn' = cn_load_specs cn \<and> cn_request_trackers cn' = cn_request_trackers cn \<and>
    cn_unfinished_requests cn' = cn_unfinished_requests cn"
  using assms by (auto simp: transfer_ok_def note_disagg_def split: option.splits sum.splits simp del: disagg_of_params.simps)

text \<open>The allocation of the tokens that were announced is accepted.\<close>

lemma alloc_accepts:
  assumes "get_num_new_matched_tokens env (Some client) r v cn = (cn1, Inr (Some m))" and "\<not> mock_req (vr_request_id r)"
    and "heap ref = r" and "transfer_ok r"
  shows "\<exists>n cn2. m = max 0 (n - v - (if n = vr_num_tokens r then 1 else 0)) \<and>
    map_of (cn_load_specs cn1) (vr_request_id r) = Some \<lparr> ls_vllm_cached_tokens = v, ls_lmcache_cached_tokens = n, ls_can_load = False \<rparr> \<and>
    update_state_after_alloc (Some client) heap ref m cn1 = (cn2, Inr ()) \<and>
    map_of (cn_load_specs cn2) (vr_request_id r) = Some \<lparr> ls_vllm_cached_tokens = v, ls_lmcache_cached_tokens = n, ls_can_load = (0 < m) \<rparr> \<and>
    cn_request_trackers cn2 = cn_request_trackers cn \<and> map_of (cn_unfinished_requests cn2) (vr_request_id r) = Some ref"
proof -
  obtain n where n: "m = max 0 (n - v - (if n = vr_num_tokens r then 1 else 0))"
    "map_of (cn_load_specs cn1) (vr_request_id r) = Some \<lparr> ls_vllm_cached_tokens = v, ls_lmcache_cached_tokens = n, ls_can_load = False \<rparr>"
    "cn_request_trackers cn1 = cn_request_trackers cn"
    using matched_tokens_spec[OF assms(1,2)] by blast
  let ?cn = "cn1\<lparr>cn_client := lc_clear_lookup_status client (vr_request_id r) (cn_client cn1)\<rparr>"
  obtain cn' where d: "note_disagg r ?cn = (cn', Inr ())" "cn_load_specs cn' = cn_load_specs ?cn" "cn_request_trackers cn' = cn_request_trackers ?cn"
    using note_disagg_ok[OF assms(4)] by blast
  show ?thesis using n d assms(3)
    by (intro exI[of _ n]) (auto simp: update_state_after_alloc_def Let_def max_def)
qed

text \<open>
  C16: what was announced is what is loaded. When the connector announces \<open>m\<close> tokens for a new request and vLLM
  allocates them, the allocation is accepted whatever the lookup client said, and the next metadata of the
  request order the load of exactly the hits found, beyond the tokens vLLM has, or no load when \<open>m\<close> is 0; the order
  is given once.
\<close>

theorem announced_tokens_are_loaded:
  assumes "get_num_new_matched_tokens env (Some client) r v cn = (cn1, Inr (Some m))" and "\<not> mock_req (vr_request_id r)"
    and "heap ref = r" and "transfer_ok r"
    and "nr_req_id nr = vr_request_id r" and "is_ok (unfold_block_ids (nr_block_ids nr))" and "map_of scheduled (vr_request_id r) = Some k"
    and "0 < cx_chunk_size env" and "0 \<le> cx_block_size env"
  shows "\<exists>n cn2 cn3 x. m = max 0 (n - v - (if n = vr_num_tokens r then 1 else 0)) \<and>
    update_state_after_alloc (Some client) heap ref m cn1 = (cn2, Inr ()) \<and>
    build_connector_meta env heap (step_of_new nr scheduled) cn2 = (cn3, Inr [x]) \<and> qm_req_id x = vr_request_id r \<and> skip_of x = n \<and>
    qm_load_spec x = (if 0 < m then Some \<lparr> ls_vllm_cached_tokens = v, ls_lmcache_cached_tokens = n, ls_can_load = True \<rparr> else None) \<and>
    map_of (cn_load_specs cn3) (vr_request_id r) = None"
proof -
  obtain n cn2 where n: "m = max 0 (n - v - (if n = vr_num_tokens r then 1 else 0))"
    "update_state_after_alloc (Some client) heap ref m cn1 = (cn2, Inr ())"
    "map_of (cn_load_specs cn2) (vr_request_id r) = Some \<lparr> ls_vllm_cached_tokens = v, ls_lmcache_cached_tokens = n, ls_can_load = (0 < m) \<rparr>"
    using alloc_accepts[OF assms(1,2), of heap ref, OF assms(3,4)] by blast
  obtain bl where bl: "unfold_block_ids (nr_block_ids nr) = Inr bl" using assms(6) by (cases "unfold_block_ids (nr_block_ids nr)") simp_all
  obtain cn3 x where x: "new_req_meta env scheduled nr cn2 = (cn3, Inr [x])" "qm_req_id x = vr_request_id r" "skip_of x = n"
    "qm_load_spec x = (if 0 < m then Some \<lparr> ls_vllm_cached_tokens = v, ls_lmcache_cached_tokens = n, ls_can_load = True \<rparr> else None)"
    "map_of (cn_load_specs cn3) (vr_request_id r) = None"
    using assms(2,5,7) bl n(3)
    by (cases "extract_mm_features (nr_mm nr)")
      (simp add: new_req_meta_def from_new_request_def add_meta_def Let_def skip_of_def from_request_tracker_eq[OF assms(8,9)])
  show ?thesis using n(1,2) x
    by (intro exI[of _ n] exI[of _ cn2] exI[of _ cn3] exI[of _ x] conjI) (simp_all add: build_connector_meta_def step_of_new_def)
qed

definition demo_mm :: mm_fields where
  "demo_mm = \<lparr> mm_features = [], mm_hashes = [], mm_positions = [] \<rparr>"

definition demo_vllm_request :: vllm_request where
  "demo_vllm_request = \<lparr> vr_request_id = ''r'', vr_prompt_token_ids = [1, 2, 3], vr_all_token_ids = [1, 2, 3, 4], vr_output_token_ids = [4],
     vr_num_tokens = 4, vr_num_computed_tokens = 0, vr_priority = 0, vr_extra_args = None, vr_mm = demo_mm,
     vr_kv_transfer_params = None, vr_aborted = False \<rparr>"

definition demo_zmq :: "unit zmq_env" where
  "demo_zmq = \<lparr> ze_db = demo_db, ze_ranks = [\<lambda>hashes offsets lookup_id rc w. (w, Some (sum_list offsets))] \<rparr>"

text \<open>A connector whose client remembers the answer \<open>n\<close> for the request.\<close>

definition demo_connector :: "int \<Rightarrow> unit zmq_client connector" where
  "demo_connector n = (connector_init \<lparr> zc_reqs_status = [(''r'', n)], zc_workers = () \<rparr>)\<lparr>cn_request_trackers := [(''r'', demo_tracker)]\<rparr>"

lemma demo_not_mock: "\<not> mock_req (vr_request_id demo_vllm_request)"
  by (simp add: mock_req_def demo_vllm_request_def py_startswith_def)

lemma demo_matched:
  "n \<noteq> - 1 \<Longrightarrow> get_num_new_matched_tokens demo_cx (Some (zmq_client_of demo_zmq)) demo_vllm_request v (demo_connector n) =
    ((demo_connector n)\<lparr>cn_load_specs := [(''r'', \<lparr> ls_vllm_cached_tokens = v, ls_lmcache_cached_tokens = n, ls_can_load = False \<rparr>)]\<rparr>,
     Inr (Some (max 0 (n - v - (if n = 4 then 1 else 0)))))"
  using demo_not_mock
  by (simp add: get_num_new_matched_tokens_def external_hit_tokens_def zmq_client_of_def zmq_lookup_cache_def demo_connector_def connector_init_def
      demo_vllm_request_def Let_def)

definition demo_new_request :: new_request where
  "demo_new_request = \<lparr> nr_req_id = ''r'', nr_prompt_token_ids = [1, 2, 3, 4], nr_block_ids = Grouped [[5, 6]], nr_num_computed_tokens = 3,
     nr_extra_args = None, nr_mm = demo_mm \<rparr>"

theorem announced_tokens_are_loaded_witness:
  "let (cn1, r1) = get_num_new_matched_tokens demo_cx (Some (zmq_client_of demo_zmq)) demo_vllm_request 1 (demo_connector 3)
   in r1 = Inr (Some 2) \<and> (\<exists>cn2 cn3 x. update_state_after_alloc (Some (zmq_client_of demo_zmq)) (\<lambda>ref. demo_vllm_request) 0 2 cn1 = (cn2, Inr ()) \<and>
     build_connector_meta demo_cx (\<lambda>ref. demo_vllm_request) (step_of_new demo_new_request [(''r'', 1)]) cn2 = (cn3, Inr [x]) \<and>
     qm_load_spec x \<noteq> None)"
proof -
  let ?cn1 = "(demo_connector 3)\<lparr>cn_load_specs := [(''r'', \<lparr> ls_vllm_cached_tokens = 1, ls_lmcache_cached_tokens = 3, ls_can_load = False \<rparr>)]\<rparr>"
  have g: "get_num_new_matched_tokens demo_cx (Some (zmq_client_of demo_zmq)) demo_vllm_request 1 (demo_connector 3) = (?cn1, Inr (Some 2))"
    using demo_matched[of 3 1] by simp
  have t: "transfer_ok demo_vllm_request" by (simp add: transfer_ok_def demo_vllm_request_def)
  have id: "vr_request_id demo_vllm_request = ''r''" by (simp add: demo_vllm_request_def)
  have "nr_req_id demo_new_request = vr_request_id demo_vllm_request" "is_ok (unfold_block_ids (nr_block_ids demo_new_request))"
    "map_of [(''r'', 1)] (vr_request_id demo_vllm_request) = Some (1 :: int)" "0 < cx_chunk_size demo_cx" "0 \<le> cx_block_size demo_cx"
    by (simp_all add: demo_new_request_def id demo_cx_def)
  from announced_tokens_are_loaded[OF g demo_not_mock, of "\<lambda>ref. demo_vllm_request" 0, OF refl t this]
  show ?thesis unfolding g by auto
qed

text \<open>
  C29: a preempted request that is cached to its last token cannot be resumed. vLLM resumes a preempted request
  with the tokens it has plus those that were announced. The connector insists that this is the larger of the
  two hits, but when all tokens of the request are cached it has announced one less, so that the step raises
  \<open>AssertionError\<close>; every other preempted request gets its metadata, with all its tokens up to the scheduled ones.
\<close>

theorem full_hit_cannot_be_resumed:
  assumes "get_num_new_matched_tokens env (Some client) r v cn = (cn1, Inr (Some m))" and "\<not> mock_req (vr_request_id r)"
    and "heap ref = r" and "transfer_ok r" and "heap' ref = r\<lparr>vr_num_computed_tokens := v + m\<rparr>"
    and "map_of (cn_request_trackers cn) (vr_request_id r) = Some t" and "map_of scheduled (vr_request_id r) = Some k"
    and "0 < cx_chunk_size env" and "0 \<le> cx_block_size env"
  shows "\<exists>n cn2. map_of (cn_load_specs cn1) (vr_request_id r) = Some \<lparr> ls_vllm_cached_tokens = v, ls_lmcache_cached_tokens = n, ls_can_load = False \<rparr> \<and>
    update_state_after_alloc (Some client) heap ref m cn1 = (cn2, Inr ()) \<and>
    (case snd (build_connector_meta env heap' (step_of_resumed (vr_request_id r) blocks scheduled) cn2) of
       Inl e \<Rightarrow> e = AssertionError \<and> n = vr_num_tokens r \<and> v < n
     | Inr ms \<Rightarrow> \<not> (n = vr_num_tokens r \<and> v < n) \<and>
         (\<exists>x. ms = [x] \<and> qm_load_spec x = (if 0 < m then Some \<lparr> ls_vllm_cached_tokens = v, ls_lmcache_cached_tokens = n, ls_can_load = True \<rparr> else None)))"
proof -
  obtain n cn2 where n: "m = max 0 (n - v - (if n = vr_num_tokens r then 1 else 0))"
    "map_of (cn_load_specs cn1) (vr_request_id r) = Some \<lparr> ls_vllm_cached_tokens = v, ls_lmcache_cached_tokens = n, ls_can_load = False \<rparr>"
    "update_state_after_alloc (Some client) heap ref m cn1 = (cn2, Inr ())"
    "map_of (cn_load_specs cn2) (vr_request_id r) = Some \<lparr> ls_vllm_cached_tokens = v, ls_lmcache_cached_tokens = n, ls_can_load = (0 < m) \<rparr>"
    "map_of (cn_request_trackers cn2) (vr_request_id r) = Some t" "map_of (cn_unfinished_requests cn2) (vr_request_id r) = Some ref"
    using alloc_accepts[OF assms(1,2), of heap ref, OF assms(3,4)] assms(6) by auto
  have eq: "v + m \<noteq> max n v \<longleftrightarrow> n = vr_num_tokens r \<and> v < n" unfolding n(1) by (auto simp: max_def)
  show ?thesis
  proof (cases "v + m = max n v")
    case True
    then show ?thesis using n(2-) assms(5,7) eq
      by (intro exI[of _ n] exI[of _ cn2])
        (simp add: step_of_resumed_def build_connector_meta_def cached_data_meta_def update_and_add_def tracker_update_def res_bind_def add_meta_def Let_def
          from_request_tracker_eq[OF assms(8,9)] enumerate_Suc_eq)
  next
    case False
    then show ?thesis using n(2-) assms(5,7) eq
      by (intro exI[of _ n] exI[of _ cn2])
        (simp add: step_of_resumed_def build_connector_meta_def cached_data_meta_def Let_def)
  qed
qed

theorem full_hit_cannot_be_resumed_witness:
  "let (cn1, r1) = get_num_new_matched_tokens demo_cx (Some (zmq_client_of demo_zmq)) demo_vllm_request 1 (demo_connector 4)
   in r1 = Inr (Some 2) \<and> (\<exists>cn2. update_state_after_alloc (Some (zmq_client_of demo_zmq)) (\<lambda>ref. demo_vllm_request) 0 2 cn1 = (cn2, Inr ()) \<and>
     snd (build_connector_meta demo_cx (\<lambda>ref. demo_vllm_request\<lparr>vr_num_computed_tokens := 3\<rparr>)
       (step_of_resumed ''r'' (BlockGroups [[5, 6]]) [(''r'', 1)]) cn2) = Inl AssertionError)"
proof -
  let ?cn1 = "(demo_connector 4)\<lparr>cn_load_specs := [(''r'', \<lparr> ls_vllm_cached_tokens = 1, ls_lmcache_cached_tokens = 4, ls_can_load = False \<rparr>)]\<rparr>"
  let ?r = "demo_vllm_request\<lparr>vr_num_computed_tokens := 3\<rparr>"
  have g: "get_num_new_matched_tokens demo_cx (Some (zmq_client_of demo_zmq)) demo_vllm_request 1 (demo_connector 4) = (?cn1, Inr (Some 2))"
    using demo_matched[of 4 1] by simp
  have t: "transfer_ok demo_vllm_request" by (simp add: transfer_ok_def demo_vllm_request_def)
  have id: "vr_request_id demo_vllm_request = ''r''" "vr_num_tokens demo_vllm_request = 4" by (simp_all add: demo_vllm_request_def)
  have "(\<lambda>ref. ?r) 0 = demo_vllm_request\<lparr>vr_num_computed_tokens := 1 + 2\<rparr>" "map_of (cn_request_trackers (demo_connector 4)) (vr_request_id demo_vllm_request) = Some demo_tracker"
    "map_of [(''r'', 1)] (vr_request_id demo_vllm_request) = Some (1 :: int)" "0 < cx_chunk_size demo_cx" "0 \<le> cx_block_size demo_cx"
    by (simp_all add: demo_connector_def id demo_cx_def)
  from full_hit_cannot_be_resumed[OF g demo_not_mock, of "\<lambda>ref. demo_vllm_request" 0, OF refl t this, of "BlockGroups [[5, 6]]"]
  obtain n cn2 where n: "map_of (cn_load_specs ?cn1) (vr_request_id demo_vllm_request) =
      Some \<lparr> ls_vllm_cached_tokens = 1, ls_lmcache_cached_tokens = n, ls_can_load = False \<rparr>"
    "update_state_after_alloc (Some (zmq_client_of demo_zmq)) (\<lambda>ref. demo_vllm_request) 0 2 ?cn1 = (cn2, Inr ())"
    "case snd (build_connector_meta demo_cx (\<lambda>ref. ?r) (step_of_resumed (vr_request_id demo_vllm_request) (BlockGroups [[5, 6]]) [(''r'', 1)]) cn2) of
       Inl e \<Rightarrow> e = AssertionError \<and> n = vr_num_tokens demo_vllm_request \<and> 1 < n
     | Inr ms \<Rightarrow> \<not> (n = vr_num_tokens demo_vllm_request \<and> 1 < n) \<and> (\<exists>x. ms = [x] \<and>
         qm_load_spec x = (if 0 < (2 :: int) then Some \<lparr> ls_vllm_cached_tokens = 1, ls_lmcache_cached_tokens = n, ls_can_load = True \<rparr> else None))"
    by blast
  have "n = 4" using n(1) by (simp add: id)
  then have "snd (build_connector_meta demo_cx (\<lambda>ref. ?r) (step_of_resumed ''r'' (BlockGroups [[5, 6]]) [(''r'', 1)]) cn2) = Inl AssertionError"
    using n(3) by (simp add: id split: sum.splits)
  with n(2) show ?thesis unfolding g by auto
qed

section \<open>Clients that do not remember\<close>

text \<open>The scheduler's calls in any order, with any requests.\<close>

inductive connector_run ::
  "connector_env \<Rightarrow> 's lookup_client \<Rightarrow> (string \<Rightarrow> 's \<Rightarrow> 's) option \<Rightarrow> 's \<Rightarrow> 's connector \<Rightarrow> bool" for env client cancel s0 where
  start: "connector_run env client cancel s0 (connector_init s0)"
| matched: "connector_run env client cancel s0 cn \<Longrightarrow>
    connector_run env client cancel s0 (fst (get_num_new_matched_tokens env (Some client) r v cn))"
| alloc: "connector_run env client cancel s0 cn \<Longrightarrow>
    connector_run env client cancel s0 (fst (update_state_after_alloc (Some client) heap ref n cn))"
| build: "connector_run env client cancel s0 cn \<Longrightarrow>
    connector_run env client cancel s0 (fst (build_connector_meta env heap out cn))"
| finished: "connector_run env client cancel s0 cn \<Longrightarrow>
    connector_run env client cancel s0 (fst (request_finished env (Some client) cancel r cn))"

lemma collect_meta_inv:
  assumes "\<And>x s. x \<in> set xs \<Longrightarrow> P s \<Longrightarrow> P (fst (f x s)) \<and> (\<forall>ys. snd (f x s) = Inr ys \<longrightarrow> (\<forall>y \<in> set ys. Q y))" and "P s"
  shows "P (fst (collect_meta f xs s)) \<and> (\<forall>ys. snd (collect_meta f xs s) = Inr ys \<longrightarrow> (\<forall>y \<in> set ys. Q y))"
  using assms
proof (induction xs arbitrary: s)
  case (Cons x xs)
  obtain s1 r where f: "f x s = (s1, r)" by fastforce
  have 1: "P s1" "\<And>ys. r = Inr ys \<Longrightarrow> \<forall>y \<in> set ys. Q y" using Cons.prems(1)[of x s] Cons.prems(2) f by auto
  have "P (fst (collect_meta f xs s1)) \<and> (\<forall>ys. snd (collect_meta f xs s1) = Inr ys \<longrightarrow> (\<forall>y \<in> set ys. Q y))"
    by (rule Cons.IH) (use Cons.prems(1) 1(1) in auto)
  then show ?case using 1 f by (cases r) (auto simp: sr_bind_def split: prod.splits sum.splits)
qed simp

text \<open>Without load specs nothing is loaded, and the client is left alone.\<close>

definition no_loads :: "'s \<Rightarrow> 's connector \<Rightarrow> bool" where
  "no_loads s0 cn \<longleftrightarrow> cn_load_specs cn = [] \<and> cn_client cn = s0"

lemma no_load_spec: "from_request_tracker env None t = (t', Inr (Some m)) \<Longrightarrow> qm_load_spec m = None"
  by (auto simp: from_request_tracker_def Let_def split: sum.splits if_splits)

lemma add_meta_no_load:
  assumes "no_loads s0 cn"
  shows "no_loads s0 (fst (add_meta env i None t cn)) \<and> (\<forall>ms. snd (add_meta env i None t cn) = Inr ms \<longrightarrow> (\<forall>m \<in> set ms. qm_load_spec m = None))"
  using assms no_load_spec[of env t] by (auto simp: add_meta_def no_loads_def split: prod.splits sum.splits option.splits)

lemma new_req_no_load:
  assumes "no_loads s0 cn"
  shows "no_loads s0 (fst (new_req_meta env sched nr cn)) \<and> (\<forall>ms. snd (new_req_meta env sched nr cn) = Inr ms \<longrightarrow> (\<forall>m \<in> set ms. qm_load_spec m = None))"
proof -
  have s: "cn\<lparr>cn_load_specs := []\<rparr> = cn" using assms by (simp add: no_loads_def)
  have f: "no_loads s0 (fst (from_new_request nr a b c cn'))" if "no_loads s0 cn'" for a b c cn'
    using that by (auto simp: from_new_request_def no_loads_def split: sum.splits prod.splits)
  have p: "no_loads s0 (cn\<lparr>cn_requests_priority := pr\<rparr>)" for pr using assms by (simp add: no_loads_def)
  show ?thesis
    using assms add_meta_no_load[of s0 _ env "nr_req_id nr"] f[OF p]
    by (auto simp: new_req_meta_def Let_def no_loads_def[of s0 cn] s sr_bind_def split: option.splits prod.splits sum.splits)
      (metis fst_conv snd_conv)+
qed
lemma update_no_load:
  assumes "no_loads s0 cn"
  shows "no_loads s0 (fst (update_and_add env i None ts bl p all_ids t cn)) \<and>
    (\<forall>ms. snd (update_and_add env i None ts bl p all_ids t cn) = Inr ms \<longrightarrow> (\<forall>m \<in> set ms. qm_load_spec m = None))"
  using assms add_meta_no_load[OF assms] by (auto simp: update_and_add_def split: sum.splits)

lemma cached_no_load:
  assumes "no_loads s0 cn"
  shows "no_loads s0 (fst (cached_req_meta env heap req cn)) \<and>
      (\<forall>ms. snd (cached_req_meta env heap req cn) = Inr ms \<longrightarrow> (\<forall>m \<in> set ms. qm_load_spec m = None))"
    and "no_loads s0 (fst (cached_data_meta env heap sched bls res n i cn)) \<and>
      (\<forall>ms. snd (cached_data_meta env heap sched bls res n i cn) = Inr ms \<longrightarrow> (\<forall>m \<in> set ms. qm_load_spec m = None))"
proof -
  have s: "cn\<lparr>cn_load_specs := []\<rparr> = cn" "cn_load_specs cn = []" using assms by (simp_all add: no_loads_def)
  note u = update_no_load[OF assms, of env]
  show "no_loads s0 (fst (cached_req_meta env heap req cn)) \<and>
      (\<forall>ms. snd (cached_req_meta env heap req cn) = Inr ms \<longrightarrow> (\<forall>m \<in> set ms. qm_load_spec m = None))"
    using assms u by (auto simp: cached_req_meta_def Let_def s split: option.splits bool.splits)
  show "no_loads s0 (fst (cached_data_meta env heap sched bls res n i cn)) \<and>
      (\<forall>ms. snd (cached_data_meta env heap sched bls res n i cn) = Inr ms \<longrightarrow> (\<forall>m \<in> set ms. qm_load_spec m = None))"
    using assms u by (auto simp: cached_data_meta_def Let_def s split: option.splits sum.splits)
qed

lemma drop_finished_no_load: "no_loads s0 cn \<Longrightarrow> no_loads s0 (fold drop_finished ids cn)"
  by (induction ids arbitrary: cn) (simp_all add: drop_finished_def no_loads_def)

lemma build_no_load:
  assumes "no_loads s0 cn"
  shows "no_loads s0 (fst (build_connector_meta env heap out cn)) \<and>
    (\<forall>ms. snd (build_connector_meta env heap out cn) = Inr ms \<longrightarrow> (\<forall>m \<in> set ms. qm_load_spec m = None))"
proof -
  let ?Q = "\<lambda>m. qm_load_spec m = None"
  obtain cn1 r1 where a: "collect_meta (new_req_meta env (so_num_scheduled_tokens out)) (so_scheduled_new_reqs out)
      (fold drop_finished (so_finished_req_ids out) cn) = (cn1, r1)" by fastforce
  have 1: "no_loads s0 cn1" "\<And>ys. r1 = Inr ys \<Longrightarrow> \<forall>y \<in> set ys. ?Q y"
    using collect_meta_inv[of "so_scheduled_new_reqs out" "no_loads s0" "new_req_meta env (so_num_scheduled_tokens out)" ?Q,
        OF new_req_no_load drop_finished_no_load[OF assms, of "so_finished_req_ids out"]] a by simp_all
  obtain cn2 r2 where b: "(case so_scheduled_cached_reqs out of
                  CachedList reqs \<Rightarrow> collect_meta (cached_req_meta env heap) reqs cn1
                | CachedData ids new_block_ids res \<Rightarrow>
                    collect_meta (\<lambda>(n, i). cached_data_meta env heap (so_num_scheduled_tokens out) new_block_ids res n i)
                      (enumerate 0 ids) cn1) = (cn2, r2)" by fastforce
  have 2: "no_loads s0 cn2 \<and> (\<forall>ys. r2 = Inr ys \<longrightarrow> (\<forall>y \<in> set ys. ?Q y))"
  proof (cases "so_scheduled_cached_reqs out")
    case (CachedList reqs)
    then show ?thesis using collect_meta_inv[of reqs "no_loads s0" "cached_req_meta env heap" ?Q cn1, OF cached_no_load(1) 1(1)] b by simp
  next
    case (CachedData ids bls res)
    have "no_loads s0 cn \<Longrightarrow> no_loads s0 (fst ((\<lambda>(n, i). cached_data_meta env heap (so_num_scheduled_tokens out) bls res n i) x cn)) \<and>
      (\<forall>ys. snd ((\<lambda>(n, i). cached_data_meta env heap (so_num_scheduled_tokens out) bls res n i) x cn) = Inr ys \<longrightarrow> (\<forall>y \<in> set ys. ?Q y))" for x cn
      using cached_no_load(2)[of s0 cn] by (cases x) simp
    from collect_meta_inv[of "enumerate 0 ids" "no_loads s0" "\<lambda>(n, i). cached_data_meta env heap (so_num_scheduled_tokens out) bls res n i" ?Q cn1,
        OF this 1(1)] show ?thesis using b CachedData by simp
  qed
  show ?thesis using a b 1 2 by (cases r1; cases r2) (auto simp: build_connector_meta_def)
qed

text \<open>The bypass client and the one for Mooncake inherit \<open>lookup_cache\<close>, which answers as if a lookup were running.\<close>

lemma never_answers:
  assumes "lc_lookup_cache client = base_lookup_cache"
  shows "get_num_new_matched_tokens env (Some client) r v cn = (cn, Inr (if mock_req (vr_request_id r) then Some 0 else None))"
  using assms by (simp add: get_num_new_matched_tokens_def external_hit_tokens_def base_lookup_cache_def)

lemma never_answers_run:
  assumes "connector_run env client None s0 cn" and "lc_lookup_cache client = base_lookup_cache"
    and "lc_clear_lookup_status client = base_clear_lookup_status"
  shows "no_loads s0 cn"
  using assms(1)
proof (induction rule: connector_run.induct)
  case (matched cn r v)
  then show ?case by (simp add: never_answers[OF assms(2)])
next
  case (alloc cn heap ref n)
  have "cn\<lparr>cn_client := cn_client cn\<rparr> = cn" by simp
  with alloc.IH show ?case
    by (auto simp: update_state_after_alloc_def note_disagg_def no_loads_def sr_bind_def Let_def assms(3) base_clear_lookup_status_def
        split: option.splits sum.splits prod.splits simp del: disagg_of_params.simps)
next
  case (build cn heap out)
  show ?case using build_no_load[OF build.IH] by (rule conjunct1)
next
  case (finished cn r)
  then show ?case by (auto simp: request_finished_def sr_bind_def no_loads_def split: option.splits sum.splits)
qed (simp add: no_loads_def connector_init_def)

text \<open>
  C30: with the bypass client or the one for Mooncake nothing is ever loaded. Whatever the scheduler does and
  however often it asks, the connector answers that the lookup of a request is still running and changes
  nothing, the engine or the store is never asked, and no metadata order a load.
\<close>

theorem bypass_clients_never_answer:
  assumes "client = bypass_client_of db engine_lookup \<or> client = mooncake_client_of db' batch_is_exist"
    and "connector_run env client None s0 cn"
  shows "(\<forall>r v. \<not> mock_req (vr_request_id r) \<longrightarrow> get_num_new_matched_tokens env (Some client) r v cn = (cn, Inr None)) \<and>
    cn_client cn = s0 \<and> (\<forall>heap out ms. snd (build_connector_meta env heap out cn) = Inr ms \<longrightarrow> (\<forall>m \<in> set ms. qm_load_spec m = None))"
proof -
  have c: "lc_lookup_cache client = base_lookup_cache" "lc_clear_lookup_status client = base_clear_lookup_status"
    using assms(1) by (auto simp: bypass_client_of_def mooncake_client_of_def)
  have "no_loads s0 cn" by (rule never_answers_run[OF assms(2) c])
  then show ?thesis using never_answers[OF c(1), of env] build_no_load[of s0 cn env] by (simp add: no_loads_def)
qed

theorem bypass_clients_never_answer_witness:
  "get_num_new_matched_tokens demo_cx (Some (bypass_client_of demo_db (\<lambda>hashes offsets i rc n. (n + 1, Inr (sum_list offsets))))) demo_vllm_request 0
     (connector_init (0 :: nat)) = (connector_init 0, Inr None)"
  using bypass_clients_never_answer[OF disjI1[OF refl] connector_run.start[of demo_cx
      "bypass_client_of demo_db (\<lambda>hashes offsets i rc n. (n + 1, Inr (sum_list offsets)))" None "0 :: nat"]] demo_not_mock by blast

end
