(* ===== verification/ConnectorWorker.thy ===== *)
theory ConnectorWorker
  imports Connector Serving
begin

text \<open>
  The worker's side of the vLLM connector (\<open>integration/vllm/vllm_v1_adapter.py\<close>): \<open>start_load_kv\<close> with the
  report of the blocks that could not be loaded, and \<open>wait_for_save\<close>. The cache engine is an interface of three
  operations, which the engine of the worker provides. Layerwise loading and saving, blending and the
  registration of the caches are left out: the caches are registered.
\<close>

declare map_of_eq_Some_iff [simp del] Some_eq_map_of_iff [simp del]

section \<open>The worker\<close>

record 'e engine_ops =
  eo_retrieve :: "int list \<Rightarrow> bool list \<Rightarrow> int list \<Rightarrow> req_configs \<Rightarrow> string \<Rightarrow> 'e \<Rightarrow> 'e \<times> bool list result"
  eo_store :: "int list \<Rightarrow> bool list \<Rightarrow> int list \<Rightarrow> int \<Rightarrow> disagg_spec option \<Rightarrow> req_configs \<Rightarrow> string \<Rightarrow> 'e \<Rightarrow> 'e \<times> unit result"
  eo_lookup_unpin :: "string \<Rightarrow> 'e \<Rightarrow> 'e \<times> unit result"

text \<open>The engine, the metadata the scheduler sent for this step, and the blocks that failed.\<close>

record 'e load_worker =
  lw_engine :: 'e
  lw_metadata :: "req_meta list"
  lw_invalid_block_ids :: "int set"

definition on_engine :: "('e \<Rightarrow> 'e \<times> 'a result) \<Rightarrow> 'e load_worker \<Rightarrow> 'e load_worker \<times> 'a result" where
  "on_engine f lw = (case f (lw_engine lw) of (e, r) \<Rightarrow> (lw\<lparr>lw_engine := e\<rparr>, r))"

definition count_true :: "bool list \<Rightarrow> int" where
  "count_true msk = int (length (filter id msk))"

text \<open>A mask of ones with the first \<open>n\<close> cleared.\<close>

definition tail_mask :: "nat \<Rightarrow> int \<Rightarrow> bool list" where
  "tail_mask len n = slice_fill 0 n False (replicate len True)"

section \<open>Loading\<close>

text \<open>The lists of a tensor index: an index out of range raises, and so does a division by zero.\<close>

definition record_failed_blocks :: "int \<Rightarrow> bool list \<Rightarrow> bool list \<Rightarrow> int list \<Rightarrow> int set result" where
  "record_failed_blocks block_size expected_mask ret_mask slot_mapping =
     (if expected_mask = [] \<or> length ret_mask \<noteq> length expected_mask then Inr {}
      else
        let missing_indices = filter (\<lambda>i. expected_mask ! i \<and> \<not> ret_mask ! i) [0..<length expected_mask];
            slots = (if length expected_mask < length slot_mapping then take (length expected_mask) slot_mapping else slot_mapping)
        in if missing_indices = [] then Inr {}
           else if \<not> list_all (\<lambda>i. i < length slots) missing_indices then Inl IndexError
           else if block_size = 0 then Inl RuntimeError
           else Inr (set (map (\<lambda>i. slots ! i div block_size) missing_indices)))"

definition load_request :: "connector_env \<Rightarrow> 'e engine_ops \<Rightarrow> req_meta \<Rightarrow> 'e load_worker \<Rightarrow> 'e load_worker \<times> unit result" where
  "load_request env eo m lw =
     (case qm_load_spec m of
        None \<Rightarrow> (lw, Inr ())
      | Some ls \<Rightarrow>
          let tokens = qm_token_ids m; slot_mapping = qm_slot_mapping m
          in if length tokens \<noteq> length slot_mapping then (lw, Inl AssertionError)
             else if cx_chunk_size env = 0 then (lw, Inl ZeroDivisionError)
             else
               let masked_token_count = ls_vllm_cached_tokens ls div cx_chunk_size env * cx_chunk_size env;
                   token_mask = tail_mask (length tokens) masked_token_count;
                   n = ls_lmcache_cached_tokens ls
               in sr_bind (on_engine (eo_retrieve eo (py_slice tokens 0 n) (py_slice token_mask 0 n) (py_slice slot_mapping 0 n)
                              (qm_request_configs m) (qm_req_id m)) lw) (\<lambda>ret_token_mask lw.
                    if count_true ret_token_mask < n - ls_vllm_cached_tokens ls
                    then (case record_failed_blocks (cx_block_size env) (py_slice token_mask 0 n) ret_token_mask (py_slice slot_mapping 0 n) of
                            Inl e \<Rightarrow> (lw, Inl e)
                          | Inr missing_blocks \<Rightarrow>
                              (lw\<lparr>lw_invalid_block_ids := lw_invalid_block_ids lw \<union> missing_blocks\<rparr>, Inr ()))
                    else (lw, Inr ())))"



definition get_block_ids_with_load_errors :: "'e load_worker \<Rightarrow> 'e load_worker \<times> int set" where
  "get_block_ids_with_load_errors lw = (lw\<lparr>lw_invalid_block_ids := {}\<rparr>, lw_invalid_block_ids lw)"

section \<open>Saving\<close>









section \<open>Masks\<close>

lemma tail_mask_eq: "0 \<le> n \<Longrightarrow> tail_mask len n = replicate (min (nat n) len) False @ replicate (len - nat n) True"
  by (simp add: tail_mask_def slice_fill_prefix)

lemma tail_mask_simps [simp]:
  "length (tail_mask len n) = len" "0 \<le> n \<Longrightarrow> j < len \<Longrightarrow> tail_mask len n ! j \<longleftrightarrow> n \<le> int j"
  by (simp add: tail_mask_def) (auto simp: tail_mask_eq nth_append)

lemma tail_mask_take: "0 \<le> n \<Longrightarrow> take k (tail_mask len n) = tail_mask (min k len) n"
  by (rule nth_equalityI) auto

lemma num_falses_tail: "0 \<le> n \<Longrightarrow> num_falses_of (Some (tail_mask len n)) = min n (int len)"
  by (simp add: num_falses_of_def tail_mask_eq)

lemma take_clip: "length xs = n \<Longrightarrow> take k xs = take (min k n) xs"
  by (simp add: min_def)

section \<open>What the connector relies on\<close>

text \<open>The mask of a retrieve is as long as the tokens, and true only where the given mask is.\<close>

locale engine_client =
  fixes eo :: "'e engine_ops"
  assumes mask_length: "eo_retrieve eo ts m slots rc i e = (e', Inr msk) \<Longrightarrow> length msk = length ts"
    and mask_within: "eo_retrieve eo ts (tail_mask (length ts) n) slots rc i e = (e', Inr msk) \<Longrightarrow> 0 \<le> n \<Longrightarrow>
      \<forall>j < length ts. msk ! j \<longrightarrow> n \<le> int j"
begin

text \<open>One load. The tokens that were to be loaded and were not are reported when they are more than the tokens
  that vLLM has beyond the last chunk it shares, less the hits that the metadata do not cover.\<close>

lemma load_reports:
  assumes ls: "qm_load_spec m = Some ls" and len: "length (qm_token_ids m) = length (qm_slot_mapping m)"
    and c: "0 < cx_chunk_size env" and b: "0 < cx_block_size env"
    and v: "0 \<le> ls_vllm_cached_tokens ls" and n: "0 \<le> ls_lmcache_cached_tokens ls"
  defines "L \<equiv> min (nat (ls_lmcache_cached_tokens ls)) (length (qm_token_ids m))"
    and "masked \<equiv> ls_vllm_cached_tokens ls div cx_chunk_size env * cx_chunk_size env"
  assumes r: "eo_retrieve eo (take L (qm_token_ids m)) (tail_mask L masked) (take L (qm_slot_mapping m)) (qm_request_configs m) (qm_req_id m) (lw_engine lw) =
      (e', Inr msk)"
  defines "missing \<equiv> {j. j < L \<and> masked \<le> int j \<and> \<not> msk ! j}"
  shows "load_request env eo m lw = (lw\<lparr>lw_engine := e', lw_invalid_block_ids := lw_invalid_block_ids lw \<union>
    (if ls_vllm_cached_tokens ls - masked - (ls_lmcache_cached_tokens ls - int L) < int (card missing)
     then (\<lambda>j. qm_slot_mapping m ! j div cx_block_size env) ` missing else {})\<rparr>, Inr ())"
proof -
  let ?v = "ls_vllm_cached_tokens ls" and ?n = "ls_lmcache_cached_tokens ls" and ?s = "qm_slot_mapping m"
  have L: "L \<le> length (qm_token_ids m)" "int L \<le> ?n" "length (take L (qm_token_ids m)) = L" using n by (auto simp: L_def)
  have m0: "0 \<le> masked" unfolding masked_def using v c by (simp add: pos_imp_zdiv_nonneg_iff)
  have cut: "py_slice (qm_token_ids m) 0 ?n = take L (qm_token_ids m)" "py_slice ?s 0 ?n = take L ?s"
    "py_slice (tail_mask (length (qm_token_ids m)) masked) 0 ?n = tail_mask L masked"
    unfolding py_slice_take[OF n] tail_mask_take[OF m0] L_def
    by (rule take_clip[OF refl], rule take_clip[OF len[symmetric]], rule refl)
  have ml: "length msk = L" using mask_length[OF r] L(3) by simp
  have within: "\<forall>j < L. msk ! j \<longrightarrow> masked \<le> int j" using mask_within[of "take L (qm_token_ids m)" masked] r m0 L(3) by simp
  define miss where "miss = filter (\<lambda>i. tail_mask L masked ! i \<and> \<not> msk ! i) [0..<L]"
  have sm: "set miss = missing" unfolding miss_def missing_def using m0 by auto
  have all: "{j. j < L \<and> masked \<le> int j} = {nat masked..<L}" using m0 by auto
  have "missing \<inter> {j. j < L \<and> msk ! j} = {}" "missing \<union> {j. j < L \<and> msk ! j} = {nat masked..<L}"
    using within unfolding all[symmetric] missing_def by auto
  moreover have "finite missing" by (simp add: missing_def)
  ultimately have "card missing + card {j. j < L \<and> msk ! j} = L - nat masked"
    by (metis card_Un_disjoint card_atLeastLessThan finite_Collect_conjI finite_Collect_less_nat)
  then have cm: "int (card missing) + count_true msk = int (L - nat masked)"
    by (simp add: count_true_def length_filter_conv_card ml)
  have f: "record_failed_blocks (cx_block_size env) (tail_mask L masked) msk (take L ?s) = Inr ((\<lambda>j. ?s ! j div cx_block_size env) ` missing)"
  proof -
    have l: "length (take L ?s) = L" using L(1) len by simp
    have "(\<lambda>i. take L ?s ! i div cx_block_size env) ` set miss = (\<lambda>j. ?s ! j div cx_block_size env) ` missing"
      unfolding sm missing_def by auto
    moreover have "list_all (\<lambda>i. i < L) miss" by (simp add: miss_def list_all_iff)
    moreover have "filter (\<lambda>i. tail_mask L masked ! i \<and> \<not> msk ! i) [0..<length (tail_mask L masked)] = miss" by (simp add: miss_def)
    moreover have "missing = {}" if "tail_mask L masked = []"
      using arg_cong[OF that, of length] by (simp add: missing_def)
    moreover have "missing = {} \<longleftrightarrow> miss = []" using sm by auto
    ultimately show ?thesis using b unfolding record_failed_blocks_def Let_def l ml by (simp add: l del: length_take)
  qed
  have "(if count_true msk < ?n - ?v then Inr ((\<lambda>j. ?s ! j div cx_block_size env) ` missing) else Inr {}) =
    (Inr (if ?v - masked - (?n - int L) < int (card missing) then (\<lambda>j. ?s ! j div cx_block_size env) ` missing else {}) :: int set result)"
  proof (cases "missing = {}")
    case False
    then have "nat masked < L" by (auto simp: missing_def)
    then have "count_true msk < ?n - ?v \<longleftrightarrow> ?v - masked - (?n - int L) < int (card missing)" using cm m0 by auto
    then show ?thesis by simp
  qed simp
  then show ?thesis using ls c r
    by (simp add: len[symmetric] load_request_def Let_def masked_def[symmetric] cut f on_engine_def split: if_splits)
qed

end

section \<open>The engine of the worker\<close>

text \<open>The keyword arguments reach the GPU connector and the token database: they choose the environment of the call.\<close>

definition engine_client_of ::
  "(int list \<Rightarrow> req_configs \<Rightarrow> ('s, 'k, 'o, 'q, int, 'h) engine_env) \<Rightarrow> ('s, 'o, 'q) obj_ops \<Rightarrow> bool
    \<Rightarrow> ('s, 'k, 'o, 'q, int, 'h) engine engine_ops" where
  "engine_client_of env_of ops async_loading =
     \<lparr> eo_retrieve = (\<lambda>ts msk slots rc i. retrieve (env_of slots rc) ops async_loading ts (Some msk) (Some i)),
       eo_store = (\<lambda>ts msk slots offset ds rc i. store (env_of slots rc) \<lparr> ta_tokens = Some ts, ta_hashes = None, ta_offsets = None, ta_mask = Some msk \<rparr>),
       eo_lookup_unpin = lookup_unpin \<rparr>"

text \<open>A mask that is true only from \<open>n\<close> on.\<close>

definition mask_from :: "nat \<Rightarrow> int \<Rightarrow> bool list \<Rightarrow> bool" where
  "mask_from len n msk \<longleftrightarrow> length msk = len \<and> (\<forall>j < len. msk ! j \<longrightarrow> n \<le> int j)"

lemma mask_set_from: "mask_from len n msk \<Longrightarrow> 0 \<le> n \<Longrightarrow> n \<le> a \<Longrightarrow> mask_from len n (mask_set a b msk)"
  by (auto simp: mask_from_def mask_set_def slice_bound_def Let_def)

lemma mask_cut_from: "mask_from len n msk \<Longrightarrow> mask_from len n (mask_cut a msk)"
  by (auto simp: mask_from_def mask_cut_def Let_def)

lemma take_blocks_from:
  "mask_from len n msk \<Longrightarrow> 0 \<le> n \<Longrightarrow> \<forall>(k, a, b) \<in> set blocks. n \<le> a \<Longrightarrow> mask_from len n (snd (snd (take_blocks blocks ms failed cs msk)))"
  by (induction blocks ms failed cs msk rule: take_blocks.induct) (auto simp: mask_set_from split: option.splits)

lemma fetch_blocks_from:
  assumes "fetch_blocks sm bm failed cs msk s = (s', Inr (failed', cs', msk'))" and "mask_from len n msk" and "0 \<le> n"
    and "\<forall>(l, blocks) \<in> set bm. \<forall>(k, a, b) \<in> set blocks. n \<le> a"
  shows "mask_from len n msk'"
  using assms
proof (induction bm arbitrary: failed cs msk s)
  case (Cons x bm)
  obtain l blocks where x: "x = (l, blocks)" by (cases x)
  obtain s1 ms where g: "sm_batched_get (map fst blocks) (Some l) sm s = (s1, Inr ms)"
    and f: "(case take_blocks blocks ms failed cs msk of
         (failed, cs, msk) \<Rightarrow> fetch_blocks sm bm failed cs msk s1) = (s', Inr (failed', cs', msk'))"
    using Cons.prems(1) by (auto simp: sr_bind_def x split: prod.splits sum.splits)
  obtain f1 c1 m1 where t: "take_blocks blocks ms failed cs msk = (f1, c1, m1)" by (metis prod_cases3)
  have "mask_from len n m1" using take_blocks_from[OF Cons.prems(2,3), of blocks ms failed cs] Cons.prems(4) t x by simp
  with Cons.IH[of f1 c1 m1 s1] f t Cons.prems(3,4) show ?case by simp
qed simp

lemma mapping_loop_blocks:
  assumes "block_mapping_loop bs infos keys hits bm s = (s', Inr bm')" and "\<forall>(l, blocks) \<in> set bm. set blocks \<subseteq> set infos"
  shows "\<forall>(l, blocks) \<in> set bm'. set blocks \<subseteq> set infos"
  using assms
proof (induction bs arbitrary: keys hits bm s)
  case (Cons x bs)
  obtain name b where x: "x = (name, b)" by (cases x)
  obtain s1 h where g: "be_batched_contains b keys False s = (s1, Inr h)"
    using Cons.prems(1) by (auto simp: sr_bind_def x split: prod.splits sum.splits)
  have sub: "set (take h (drop hits infos)) \<subseteq> set infos" using in_set_dropD in_set_takeD by fast
  have "\<forall>(l, blocks) \<in> set (AList.update name (take h (drop hits infos)) bm). set blocks \<subseteq> set infos"
  proof
    fix y assume "y \<in> set (AList.update name (take h (drop hits infos)) bm)"
    then have "snd y \<in> snd ` set (AList.update name (take h (drop hits infos)) bm)" by (rule imageI)
    then have "snd y \<in> insert (take h (drop hits infos)) (snd ` set bm)" by (rule subsetD[OF update_values])
    then have "set (snd y) \<subseteq> set infos" using sub Cons.prems(2) by fastforce
    then show "case y of (l, blocks) \<Rightarrow> set blocks \<subseteq> set infos" by (simp add: case_prod_beta)
  qed
  note u = Cons.IH[OF _ this, of "drop h keys" "hits + h" s1]
  show ?case
  proof (cases "h = 0")
    case True
    then have "block_mapping_loop bs infos keys hits bm s1 = (s', Inr bm')" using Cons.prems(1) g by (simp add: x)
    then show ?thesis using Cons.IH Cons.prems(2) by blast
  next
    case False
    then show ?thesis using Cons.prems(1) g u \<open>\<forall>(l, blocks) \<in> set (AList.update name (take h (drop hits infos)) bm). set blocks \<subseteq> set infos\<close>
      by (cases "hits + h = length infos") (simp_all add: x Let_def)
  qed
qed simp

lemma async_loop_from:
  "mask_from len n msk \<Longrightarrow> 0 \<le> n \<Longrightarrow> \<forall>(a, b, k) \<in> set chunks. n \<le> a \<Longrightarrow> mask_from len n (snd (fst (async_loop objs chunks cs msk)))"
  by (induction objs chunks cs msk rule: async_loop.induct) (auto simp: mask_set_from split: option.splits)

text \<open>Environments whose token database yields no chunk before the masked ones, on a rank that does not only receive.\<close>

definition yields_from :: "('s, 'k, 'o, 'q, int, 'h) engine_env \<Rightarrow> bool" where
  "yields_from env \<longleftrightarrow> \<not> is_passive env \<and>
     (\<forall>ts hs os msk. \<forall>(a, b, k) \<in> set (fst (ee_process env \<lparr> ta_tokens = Some ts, ta_hashes = hs, ta_offsets = os, ta_mask = Some msk \<rparr>)).
        num_falses_of (Some msk) \<le> a)"

lemma get_mapping_blocks:
  assumes "block_mapping_of req_id infos sm en = (en', Inr bm)"
  shows "\<forall>(l, blocks) \<in> set bm. set blocks \<subseteq> set infos"
proof -
  have "(\<exists>l. bm = [(l, infos)]) \<or> (\<exists>s s'. sm_get_block_mapping infos sm s = (s', Inr bm))"
    using assms by (auto simp: block_mapping_of_def on_world_def split: option.splits list.splits prod.splits)
  then show ?thesis
  proof (elim disjE exE)
    fix s s' assume "sm_get_block_mapping infos sm s = (s', Inr bm)"
    from mapping_loop_blocks[OF this[unfolded sm_get_block_mapping_def]] show ?thesis by simp
  qed simp
qed

lemma sr_bind_Inr: "sr_bind m f = (s2, Inr y) \<Longrightarrow> \<exists>s1 x. m = (s1, Inr x) \<and> f x s1 = (s2, Inr y)"
  by (auto simp: sr_bind_def split: prod.splits sum.splits)

lemma process_internal_from:
  assumes "process_tokens_internal env args req_id msk0 en = (en', Inr (cs, msk))" and "mask_from len n msk0" and "0 \<le> n"
    and "\<forall>(a, b, k) \<in> set (fst (ee_process env args)). n \<le> a"
  shows "mask_from len n msk"
proof -
  obtain sm chunks where sm: "en_sm en = Some sm" "ee_process env args = (chunks, None)"
    using assms(1) by (auto simp: process_tokens_internal_def split: option.splits prod.splits)
  let ?infos = "map (\<lambda>(a, b, k). (k, a, b)) chunks"
  have "sr_bind (block_mapping_of req_id ?infos sm en) (\<lambda>block_mapping en.
      sr_bind (on_world (fetch_blocks sm block_mapping None [] msk0) en) (\<lambda>r en. (en, Inr (cut_failed r)))) = (en', Inr (cs, msk))"
    using assms(1) sm by (simp add: process_tokens_internal_def)
  from sr_bind_Inr[OF this] obtain en1 bm where bm: "block_mapping_of req_id ?infos sm en = (en1, Inr bm)"
    "sr_bind (on_world (fetch_blocks sm bm None [] msk0) en1) (\<lambda>r en. (en, Inr (cut_failed r))) = (en', Inr (cs, msk))" by blast
  from sr_bind_Inr[OF bm(2)] obtain en2 r where r: "on_world (fetch_blocks sm bm None [] msk0) en1 = (en2, Inr r)" "cut_failed r = (cs, msk)" by auto
  obtain failed' cs' msk' where r': "r = (failed', cs', msk')" by (metis prod_cases3)
  obtain s' where f: "fetch_blocks sm bm None [] msk0 (en_world en1) = (s', Inr (failed', cs', msk'))"
    using r(1) by (auto simp: on_world_def r' split: prod.splits)
  have "\<forall>(k, a, b) \<in> set ?infos. n \<le> a" using assms(4) by (auto simp: sm(2))
  then have "\<forall>(l, blocks) \<in> set bm. \<forall>(k, a, b) \<in> set blocks. n \<le> a" using get_mapping_blocks[OF bm(1)] by blast
  from fetch_blocks_from[OF f assms(2,3) this] r(2) show ?thesis
    by (auto simp: cut_failed_def r' mask_cut_from split: option.splits)
qed

lemma async_internal_from:
  assumes "async_process_tokens_internal env ops args req_id msk0 en = (en', Inr (cs, msk))" and "mask_from len n msk0" and "0 \<le> n"
    and "\<forall>(a, b, k) \<in> set (fst (ee_process env args)). n \<le> a"
  shows "mask_from len n msk"
proof -
  obtain i where i: "req_id = Some i" using assms(1) by (auto simp: async_process_tokens_internal_def split: option.splits)
  obtain evs future where ev: "pop_event i (en_events en) = Inr (evs, future)"
    using assms(1) by (auto simp: async_process_tokens_internal_def i split: sum.splits)
  show ?thesis
  proof (cases future)
    case (Inl e)
    then show ?thesis using assms(1,2) by (simp add: async_process_tokens_internal_def i ev Let_def)
  next
    case (Inr results)
    obtain chunks e where p: "ee_process env args = (chunks, e)" by fastforce
    obtain cs' msk' broke where a: "async_loop (memory_obj_map results) chunks [] msk0 = ((cs', msk'), broke)" by (metis prod.collapse)
    have "msk = msk'" using assms(1) by (simp add: async_process_tokens_internal_def i ev Inr p a Let_def split: if_splits)
    then show ?thesis using async_loop_from[OF assms(2-4), of "memory_obj_map results" "[]"] by (simp add: p a)
  qed
qed

lemma retrieve_from:
  assumes "retrieve env ops async ts (Some m) (Some i) en = (en', Inr msk)" and "yields_from env" and "0 \<le> n" and "n \<le> num_falses_of (Some m)"
  shows "mask_from (length ts) n msk"
proof -
  let ?args = "\<lparr> ta_tokens = Some ts, ta_hashes = None, ta_offsets = None, ta_mask = Some m \<rparr>" and ?msk0 = "replicate (length ts) False"
  have z: "mask_from (length ts) n ?msk0" by (simp add: mask_from_def)
  have p: "\<forall>(a, b, k) \<in> set (fst (ee_process env ?args)). n \<le> a" and np: "\<not> is_passive env"
    using assms(2,4) unfolding yields_from_def by fastforce+
  show ?thesis
  proof (cases "ee_healthy env \<and> ee_has_gpu env")
    case False
    then show ?thesis using assms(1) z by (auto simp: retrieve_def Let_def split: if_splits)
  next
    case True
    then obtain en1 chunks where
      "sr_bind (if async then async_process_tokens_internal env ops ?args (Some i) ?msk0 en else process_tokens_internal env ?args (Some i) ?msk0 en)
         (\<lambda>(chunks, ret_mask) en. (en, Inr (map (\<lambda>(k, ob, a, b). (Some k, ob, a, b)) chunks, ret_mask))) = (en1, Inr (chunks, msk))"
      using assms(1) np by (auto simp: retrieve_def Let_def dest!: sr_bind_Inr split: prod.splits)
    then obtain en2 cs where "(if async then async_process_tokens_internal env ops ?args (Some i) ?msk0 en
        else process_tokens_internal env ?args (Some i) ?msk0 en) = (en2, Inr (cs, msk))"
      by (auto dest!: sr_bind_Inr)
    then show ?thesis using process_internal_from[OF _ z assms(3) p] async_internal_from[OF _ z assms(3) p] by (auto split: if_splits)
  qed
qed

lemma engine_client_laws:
  assumes "\<And>slots rc. yields_from (env_of slots rc)"
  shows "engine_client (engine_client_of env_of ops async)"
proof
  fix ts m slots rc i e e' msk
  assume "eo_retrieve (engine_client_of env_of ops async) ts m slots rc i e = (e', Inr msk)"
  then have r: "retrieve (env_of slots rc) ops async ts (Some m) (Some i) e = (e', Inr msk)" by (simp add: engine_client_of_def)
  have "0 \<le> num_falses_of (Some m)" by (simp add: num_falses_of_def)
  from retrieve_from[OF r assms order_refl this] show "length msk = length ts" by (simp add: mask_from_def)
next
  fix ts n slots rc i e e' msk
  assume "eo_retrieve (engine_client_of env_of ops async) ts (tail_mask (length ts) n) slots rc i e = (e', Inr msk)" and n: "0 \<le> n"
  then have r: "retrieve (env_of slots rc) ops async ts (Some (tail_mask (length ts) n)) (Some i) e = (e', Inr msk)" by (simp add: engine_client_of_def)
  have "0 \<le> min n (int (length ts))" "min n (int (length ts)) \<le> num_falses_of (Some (tail_mask (length ts) n))"
    using n by (simp_all add: num_falses_tail)
  from retrieve_from[OF r assms this] show "\<forall>j < length ts. msk ! j \<longrightarrow> n \<le> int j" by (fastforce simp: mask_from_def)
qed

section \<open>The engine of a worker with the CPU cache\<close>

text \<open>The chunked token database with the configurations of the request, and a GPU that holds the bytes of a
  token at its slot.\<close>

definition db_process_with :: "token_db \<Rightarrow> req_configs \<Rightarrow> (int, hash_val) token_args \<Rightarrow> (int \<times> int \<times> cache_key) list \<times> py_error option" where
  "db_process_with db rc args =
     (case process_tokens db (ta_tokens args) (ta_hashes args) (ta_offsets args) (ta_mask args) True rc of
        (ys, e) \<Rightarrow> ([(a, b, k). (a, b, TKey k) \<leftarrow> ys], e))"

definition paged_content :: "(int \<Rightarrow> 'b list) \<Rightarrow> int list \<Rightarrow> int \<Rightarrow> int \<Rightarrow> 'b list" where
  "paged_content page slots a b = concat (map page (py_slice slots a b))"

definition worker_env ::
  "token_db \<Rightarrow> bool \<Rightarrow> (int \<Rightarrow> ('s, 'd) alloc_request) \<Rightarrow> (int \<Rightarrow> 'b list) \<Rightarrow> int list \<Rightarrow> req_configs
    \<Rightarrow> ((cache_key, 'h, 's, 'd, 'b) node, cache_key, nat, ('s, 'd) alloc_request, int, hash_val) engine_env" where
  "worker_env db kv_events request page slots rc =
     (node_env db kv_events request (paged_content page slots))\<lparr>ee_process := db_process_with db rc\<rparr>"

definition node_client ::
  "(cache_key, 'h, 's, 'd) cpu_env \<Rightarrow> token_db \<Rightarrow> bool \<Rightarrow> (int \<Rightarrow> ('s, 'd) alloc_request) \<Rightarrow> (int \<Rightarrow> 'b list) \<Rightarrow> bool
    \<Rightarrow> ((cache_key, 'h, 's, 'd, 'b) node, cache_key, nat, ('s, 'd) alloc_request, int, hash_val) engine engine_ops" where
  "node_client cenv db kv_events request page async_loading =
     engine_client_of (worker_env db kv_events request page) (cpu_obj_ops cenv) async_loading"

lemma chunk_loop_from: "\<forall>(a, b, x) \<in> set (fst (chunk_loop db mk rc nf len i hs)). nf \<le> a"
  by (induction db mk rc nf len i hs rule: chunk_loop.induct) (auto simp: Let_def split: sum.splits prod.splits)

lemma process_tokens_from: "(a, b, x) \<in> set (fst (process_tokens db (Some ts) hs os msk mk rc)) \<Longrightarrow> num_falses_of msk \<le> a"
proof -
  obtain chunks e where c: "chunk_tokens db ts = (chunks, e)" by fastforce
  let ?l = "chunk_loop db mk rc (num_falses_of msk) (int (length ts)) 0 (prefix_hashes db (td_none_hash db) chunks)"
  have "set (fst (process_tokens db (Some ts) hs os msk mk rc)) \<subseteq> set (fst ?l)"
    by (cases ?l; cases "snd ?l") (simp_all add: process_tokens_def Let_def c)
  moreover assume "(a, b, x) \<in> set (fst (process_tokens db (Some ts) hs os msk mk rc))"
  ultimately have "(a, b, x) \<in> set (fst ?l)" by (rule subsetD)
  then show "num_falses_of msk \<le> a" using chunk_loop_from[of db mk rc "num_falses_of msk"] by blast
qed

lemma db_process_keys: "(a, b, k) \<in> set (fst (db_process_with db rc args)) \<Longrightarrow>
    (a, b, TKey k) \<in> set (fst (process_tokens db (ta_tokens args) (ta_hashes args) (ta_offsets args) (ta_mask args) True rc))"
  by (cases "process_tokens db (ta_tokens args) (ta_hashes args) (ta_offsets args) (ta_mask args) True rc")
    (auto simp: db_process_with_def split: key_or_hash.splits)

lemma worker_env_yields: "yields_from (worker_env db kv_events request page slots rc)"
  using process_tokens_from[OF db_process_keys[of _ _ _ db rc "\<lparr> ta_tokens = Some ts, ta_hashes = hs, ta_offsets = os, ta_mask = Some msk \<rparr>" for ts hs os msk,
      simplified]]
  by (fastforce simp: yields_from_def is_passive_def worker_env_def node_env_def)

interpretation node_cl: engine_client "node_client cenv db kv_events request page async"
  for cenv :: "(cache_key, 'h, 's, 'd) cpu_env" and db kv_events request and page :: "int \<Rightarrow> 'b list" and async
  unfolding node_client_def by (rule engine_client_laws[OF worker_env_yields])

section \<open>Properties\<close>

text \<open>
  C28: which failed loads are reported. For a request that is to be loaded, let \<open>L\<close> be the tokens the connector asks
  the engine for, from \<open>masked\<close> on, and \<open>missing\<close> the ones that did not come. Their blocks are reported exactly
  when they are more than \<open>v - masked\<close>, the tokens that vLLM has in the chunk it has in part, less \<open>n - L\<close>, the hits the
  metadata do not cover; so a failure of at least a chunk is always reported, a failure of a short last chunk may
  not be, and the hits beyond \<open>L\<close> never are.
\<close>

theorem missing_tokens_are_reported:
  assumes "qm_load_spec m = Some \<lparr> ls_vllm_cached_tokens = v, ls_lmcache_cached_tokens = n, ls_can_load = True \<rparr>" and "0 \<le> v" and "0 \<le> n"
    and "length (qm_token_ids m) = length (qm_slot_mapping m)" and "0 < cx_chunk_size env" and "0 < cx_block_size env"
    and "L = min (nat n) (length (qm_token_ids m))" and "masked = v div cx_chunk_size env * cx_chunk_size env"
    and "eo_retrieve (node_client cenv db kv_events request page async) (take L (qm_token_ids m)) (tail_mask L masked) (take L (qm_slot_mapping m))
      (qm_request_configs m) (qm_req_id m) (lw_engine lw) = (e', Inr msk)"
    and "missing = {j. j < L \<and> masked \<le> int j \<and> \<not> msk ! j}"
  shows "load_request env (node_client cenv db kv_events request page async) m lw =
      (lw\<lparr>lw_engine := e', lw_invalid_block_ids := lw_invalid_block_ids lw \<union>
        (if v - masked - (n - int L) < int (card missing) then (\<lambda>j. qm_slot_mapping m ! j div cx_block_size env) ` missing else {})\<rparr>, Inr ()) \<and>
    (cx_chunk_size env \<le> int (card missing) \<longrightarrow> v - masked - (n - int L) < int (card missing))"
proof
  show "load_request env (node_client cenv db kv_events request page async) m lw =
      (lw\<lparr>lw_engine := e', lw_invalid_block_ids := lw_invalid_block_ids lw \<union>
        (if v - masked - (n - int L) < int (card missing) then (\<lambda>j. qm_slot_mapping m ! j div cx_block_size env) ` missing else {})\<rparr>, Inr ())"
    using node_cl.load_reports[OF assms(1,4-6), of cenv db kv_events request page async lw e' msk] assms(2,3,9)
    unfolding assms(7,8,10) by simp
  have "v - masked < cx_chunk_size env"
    using pos_mod_bound[OF assms(5), of v] unfolding assms(8) minus_div_mult_eq_mod by simp
  moreover have "int L \<le> n" using assms(3) unfolding assms(7) by simp
  ultimately show "cx_chunk_size env \<le> int (card missing) \<longrightarrow> v - masked - (n - int L) < int (card missing)" by linarith
qed

section \<open>From one request to the next\<close>

lemma worker_env_None: "worker_env db kv_events request page slots None = node_env db kv_events request (paged_content page slots)"
proof -
  have "db_process_with db None = db_process db" by (simp add: fun_eq_iff db_process_with_def db_process_def)
  then show ?thesis by (simp add: worker_env_def node_env_def)
qed

lemma full_mask_process:
  fixes env :: "((cache_key, 'h, 's, 'd, 'b) node, cache_key, nat, ('s, 'd) alloc_request, int, hash_val) engine_env"
    and db kv_events request content
  defines "env \<equiv> node_env db kv_events request content"
  shows "ee_process env \<lparr> ta_tokens = Some ts, ta_hashes = None, ta_offsets = None, ta_mask = Some (tail_mask len 0) \<rparr> =
    ee_process env (tokens_only ts)"
proof -
  have "num_falses_of (Some (tail_mask len 0)) = num_falses_of None" by (simp add: num_falses_tail) (simp add: num_falses_of_def)
  then have "process_tokens db (Some ts) None None (Some (tail_mask len 0)) True None = process_tokens db (Some ts) None None None True None"
    by (simp only: process_tokens_def)
  then show ?thesis by (simp add: env_def node_env_def db_process_def)
qed



lemma retrieve_full_mask:
  assumes "map_of (en_lookup_pins en) i = None"
  shows "retrieve (node_env db kv_events request content) ops False ts (Some (tail_mask len 0)) (Some i) en =
    retrieve (node_env db kv_events request content) ops False ts None None en"
proof -
  have b: "block_mapping_of (Some i) infos sm en = block_mapping_of None infos sm en" for infos sm
    using assms by (simp add: block_mapping_of_def)
  have "process_tokens_internal (node_env db kv_events request content)
      \<lparr> ta_tokens = Some ts, ta_hashes = None, ta_offsets = None, ta_mask = Some (tail_mask len 0) \<rparr> (Some i) msk en =
      process_tokens_internal (node_env db kv_events request content) (tokens_only ts) None msk en" for msk
    unfolding process_tokens_internal_def full_mask_process b by (rule refl)
  then show ?thesis unfolding retrieve_def Let_def by (simp only: if_False)
qed





lemma retrieve_prompt:
  fixes kv_events :: bool and request :: "int \<Rightarrow> ('s, 'd) alloc_request" and cenv :: "(cache_key, 'h, 's, 'd) cpu_env" and content and ts :: "int list"
  assumes cenv: "cpu_backend_env cenv" and db: "td_chunk_size db = int c" "0 < c" "can_yield db True"
    and inv: "node_inv truth log held (en_world en)" and sm: "en_sm en = Some (cpu_sm cenv others)"
  defines "env \<equiv> node_env db kv_events request content"
    and "q \<equiv> length (takeWhile (node_stored (en_world en) local_cpu) (map (db_key db ts) [0..<chunk_count db (length ts)]))"
  shows "\<exists>en3. retrieve env (cpu_obj_ops cenv) False ts None None en = (en3, Inr (map (\<lambda>i. i < q * c) [0..<length ts])) \<and>
    q \<le> chunk_count db (length ts) \<and>
    node_inv truth (log @ map (\<lambda>j. (int (j * c), int (min (j * c + c) (length ts)), truth (db_key db ts j))) [0..<q]) held (en_world en3)"
proof -
  let ?N = "chunk_count db (length ts)"
  let ?ch = "tiles db c ts ?N"
  note E = node_engine[OF cenv, where others = others and truth = truth and db = db and kv_events = kv_events and request = request and content = content,
      folded env_def]
  have p: "ee_process env (tokens_only ts) = (?ch, None)" unfolding env_def by (rule node_env_process[OF db])
  have N: "q \<le> ?N" unfolding q_def using length_takeWhile_le by (metis length_map length_upt minus_nat.diff_0)
  have q: "split_hits (tier_split (node_stored (en_world en)) [local_cpu] (map (snd \<circ> snd) ?ch)) = q"
    unfolding keys_of_tiles q_def by (simp add: Let_def)
  have b: "Option.bind None (map_of (en_lookup_pins en)) = None" by simp
  have w: "sm_ops (cpu_sm cenv others) = cpu_obj_ops cenv" by (simp add: cpu_sm_def)
  obtain nd3 where r: "retrieve env (cpu_obj_ops cenv) False ts None None en =
      (en\<lparr>en_world := nd3\<rparr>, Inr (fold (\<lambda>(a, b, k). mask_set a b) (take q ?ch) (replicate (length ts) False)))"
    "node_inv truth (log @ map (\<lambda>(a, b, k). (a, b, truth k)) (take q ?ch)) held nd3"
    using kv_engine.retrieve_ok[OF E inv sm p b] unfolding cpu_sm_names w q by (elim exE conjE) (rule that; assumption)
  have mask: "fold (\<lambda>(a, b, k). mask_set a b) (take q ?ch) (replicate (length ts) False) = map (\<lambda>i. i < q * c) [0..<length ts]"
    unfolding take_tiles[OF N] mask_tiles[OF db(2)] by simp
  have got: "map (\<lambda>(a, b, k). (a, b, truth k)) (take q ?ch) =
      map (\<lambda>j. (int (j * c), int (min (j * c + c) (length ts)), truth (db_key db ts j))) [0..<q]"
    unfolding take_tiles[OF N] by (simp add: tile_def)
  show ?thesis using r N unfolding mask got by (intro exI[of _ "en\<lparr>en_world := nd3\<rparr>"]) simp
qed



section \<open>Examples\<close>

definition demo_page :: "int \<Rightarrow> int list" where
  "demo_page slot = replicate 4 slot"

definition demo_save_meta :: req_meta where
  "demo_save_meta = \<lparr> qm_req_id = ''r'', qm_token_ids = [1, 2, 3], qm_slot_mapping = [10, 11, 4], qm_is_last_prefill = True,
     qm_save_spec = Some \<lparr> ss_skip_leading_tokens = 0, ss_can_save = True \<rparr>, qm_load_spec = None, qm_disagg_spec = None, qm_request_configs = None \<rparr>"

definition demo_load_meta :: "int list \<Rightarrow> req_meta" where
  "demo_load_meta ts = \<lparr> qm_req_id = ''q'', qm_token_ids = ts, qm_slot_mapping = map int [6..<6 + length ts], qm_is_last_prefill = True,
     qm_save_spec = None, qm_load_spec = Some \<lparr> ls_vllm_cached_tokens = 0, ls_lmcache_cached_tokens = int (length ts), ls_can_load = True \<rparr>,
     qm_disagg_spec = None, qm_request_configs = None \<rparr>"

definition demo_worker ::
  "((cache_key, hash_val, int list, int, int) node, cache_key, nat, (int list, int) alloc_request, int, hash_val) engine load_worker" where
  "demo_worker = \<lparr> lw_engine = demo_engine, lw_metadata = [demo_save_meta], lw_invalid_block_ids = {} \<rparr>"

lemma demo_engine_facts:
  "node_inv truth [] [] (en_world demo_engine)" "en_sm demo_engine = Some (cpu_sm key_cpu_env (\<lambda>n cb. cb))" "en_lookup_pins demo_engine = []"
  using demo_node_inv by (simp_all add: demo_engine_def)

theorem missing_tokens_are_reported_witness:
  "\<exists>lw. load_request demo_cx (node_client key_cpu_env (demo_db\<lparr>td_save_unfull_chunk := False\<rparr>) False demo_request demo_page False)
     (demo_load_meta [7]) demo_worker = (lw, Inr ()) \<and> lw_invalid_block_ids lw = {3}"
proof -
  let ?db = "demo_db\<lparr>td_save_unfull_chunk := False\<rparr>" and ?m = "demo_load_meta [7]" and ?e = "lw_engine demo_worker"
  let ?cl = "node_client key_cpu_env ?db False demo_request demo_page False"
  have db: "td_chunk_size ?db = int 2" "can_yield ?db True" using demo_db_ok(1,2) by (simp_all add: can_yield_def)
  have z: "chunk_count ?db (length [7::int]) = 0" using demo_db_ok(1) by (simp add: chunk_count_def)
  have e: "?e = demo_engine" by (simp add: demo_worker_def)
  obtain en3 where "retrieve (node_env ?db False demo_request (paged_content demo_page [6])) (cpu_obj_ops key_cpu_env) False [7] None None ?e =
      (en3, Inr (map (\<lambda>i. i < 0) [0..<length [7::int]]))"
    using retrieve_prompt[OF key_cpu.cpu_backend_env_axioms db(1) _ db(2) demo_engine_facts(1)[where truth = "\<lambda>k. []"] demo_engine_facts(2), of False demo_request
        "paged_content demo_page [6]" "[7]"] unfolding z e by auto
  then have r: "eo_retrieve ?cl (take 1 (qm_token_ids ?m)) (tail_mask 1 0) (take 1 (qm_slot_mapping ?m)) (qm_request_configs ?m) (qm_req_id ?m) ?e =
      (en3, Inr [False])"
    using retrieve_full_mask[of ?e "''q''"] e demo_engine_facts(3)
    by (simp add: demo_load_meta_def node_client_def engine_client_of_def worker_env_None)
  have m: "qm_load_spec ?m = Some \<lparr> ls_vllm_cached_tokens = 0, ls_lmcache_cached_tokens = 1, ls_can_load = True \<rparr>"
    "length (qm_token_ids ?m) = length (qm_slot_mapping ?m)" "(1 :: nat) = min (nat 1) (length (qm_token_ids ?m))" "qm_slot_mapping ?m ! 0 = 6"
    by (simp_all add: demo_load_meta_def)
  have x: "0 < cx_chunk_size demo_cx" "0 < cx_block_size demo_cx" "(0 :: int) = 0 div cx_chunk_size demo_cx * cx_chunk_size demo_cx"
    "cx_block_size demo_cx = 2" by (simp_all add: demo_cx_def)
  have miss: "{0} = {j. j < 1 \<and> 0 \<le> int j \<and> \<not> [False] ! j}" by auto
  from missing_tokens_are_reported[OF m(1) order_refl zero_le_one m(2) x(1,2) m(3) x(3) r miss]
  have "load_request demo_cx ?cl ?m demo_worker = (demo_worker\<lparr>lw_engine := en3, lw_invalid_block_ids := lw_invalid_block_ids demo_worker \<union> {3}\<rparr>, Inr ())"
    by (simp add: m(4) x(4))
  then show ?thesis by (simp add: demo_worker_def)
qed


end
