(* ===== verification/Spec2Isabelle.thy ===== *)
theory Spec2Isabelle
  imports Cluster Remote LocalDisk Serving Locks MPOwners ConnectorWorker
begin

text \<open>
  Verification of the KV cache of LMCache, the program under
  \<open>src/tkdgjs/experiment/notuse_backup/lmcache_backup\<close> (paths below are relative to it).

  \<^bold>\<open>The program.\<close> LMCache keeps the key-value tensors of a language model's tokens and finds them
  again for later requests. Tokens are cut into chunks, and a chain of hashes over the chunks gives
  each a cache key. The tensors live in memory objects carved out of large buffers; backends (CPU
  memory, local disk, a remote server) keep objects under keys and evict what an eviction policy
  proposes. Workers tell a controller, in numbered batches of messages, which chunks they admit and
  evict; the controller keeps a registry of instances, workers and chunks, answers lookups, and
  resynchronises a worker by a full sync when messages were lost.

  \<^bold>\<open>The theories\<close>, in the order of the layers:

    \<^item> \<open>Prelude\<close>: results (\<open>error + 'a\<close>), ordered dictionaries as association lists, slices;
      \<open>SortedContainers\<close>: the sorted lists the allocators rely on; \<open>PyStr\<close>: the string functions of
      Python that keys are written and read with.
    \<^item> \<open>AddressManager\<close>, \<open>TensorAllocator\<close>, \<open>MemoryObj\<close>, \<open>PagedAllocator\<close>, \<open>MixedAllocator\<close>:
      \<open>v1/memory_management.py\<close> and \<open>v1/pin_monitor.py\<close>. Memory objects are entries of a store
      addressed by number, since the program shares and updates them; a buffer is its length and a
      slice of it an offset with a length.
    \<^item> \<open>CachePolicy\<close>: \<open>v1/storage_backend/cache_policy\<close>, with the locale \<open>cache_policy\<close> that the
      backends use and its interpretation on the dispatching operations.
    \<^item> \<open>LocalCPU\<close>, \<open>LocalDisk\<close>: the two local backends of \<open>v1/storage_backend\<close>.
    \<^item> \<open>Keys\<close>: \<open>CacheEngineKey\<close>, \<open>LayerCacheEngineKey\<close> and the slot mappings of \<open>utils.py\<close>;
      \<open>TokenDatabase\<close>: \<open>v1/token_database.py\<close>.
    \<^item> \<open>Protocol\<close>: the wire format of \<open>v1/protocol.py\<close>; \<open>Remote\<close>: the server of \<open>v1/server\<close>, the
      connector \<open>lm_connector.py\<close> and the batched calls every connector inherits, with the locale
      \<open>connector\<close>.
    \<^item> \<open>Messages\<close>, \<open>Registry\<close>, \<open>FullSync\<close>, \<open>Controller\<close>: \<open>v1/cache_controller\<close>; \<open>Locks\<close>: its
      read-write lock, with threads that wait and are woken; \<open>Sender\<close>: the batched message sender and the
      full sync sender of a worker; \<open>Cluster\<close>: the composition of a worker's cache, its senders and the
      controller.
    \<^item> \<open>Events\<close>: \<open>v1/event_manager.py\<close>; \<open>Storage\<close>: the storage manager of
      \<open>v1/storage_backend/storage_manager.py\<close>, with the calls \<open>abstract_backend.py\<close> gives every backend;
      \<open>Prefetch\<close>: its asynchronous lookup and its weighted semaphore; \<open>Engine\<close>: the engine of
      \<open>v1/cache_engine.py\<close>; \<open>EngineLaws\<close>: the contracts between these layers and what the engine owes its
      callers under them; \<open>Node\<close>: a worker whose only tier is the CPU backend, which fulfils the contracts;
      \<open>Serving\<close>: the properties of the whole path of a request on that worker.
    \<^item> \<open>LookupClients\<close>: the lookup clients of \<open>v1/lookup_client\<close>, with the locale \<open>sync_client\<close>;
      \<open>Connector\<close>: the scheduler's side of the vLLM connector \<open>integration/vllm/vllm_v1_adapter.py\<close>;
      \<open>ConnectorWorker\<close>: its worker's side, with the locale \<open>engine_client\<close> and its interpretation on the engine
      of \<open>Serving\<close>.
    \<^item> \<open>MPStorage\<close>, \<open>MPOwners\<close>: the storage manager of the multi-process server
      (\<open>v1/multiprocess/mp_storage_manager.py\<close>) over the lazily growing allocator
      (\<open>v1/lazy_memory_allocator.py\<close>), its operations and its reservations run by several threads.

  \<^bold>\<open>Correspondence.\<close> A class is a record with one field per attribute, a method one definition with
  the state before and after, an exception a value \<open>Inl e\<close>, which carries the state that is left.
  Locks are the granularity of steps: what the program does under one acquisition is one step, and
  where it lets go of the lock in between (a save to disk, the get of the remote connector) the parts
  are steps of their own, which interleave. Torch, the event loop, \<open>sortedcontainers\<close> and vLLM are
  parameters with their documented behaviour as hypotheses. Times are arguments.

  A storage manager calls its backends through their methods: a backend is a record of functions on the
  state they share (\<open>backend\<close> and \<open>allocator_backend\<close> in \<open>Storage\<close>), and the engine reaches objects and the
  GPU through a record of the same kind. What one layer relies on is a locale, extended from layer to
  layer: \<open>storage_tiers\<close> (a get that follows a contains finds the object and takes a reference),
  \<open>kv_tiers\<close> (the object has the bytes that belong to the key), \<open>kv_upkeep\<close> (pins, removal and clear keep
  that) and \<open>kv_engine\<close> (the engine over such a storage manager). \<open>Node\<close> and \<open>Serving\<close> instantiate them with the
  CPU backend of \<open>LocalCPU\<close> and the allocators below it.

  \<^bold>\<open>What is shown.\<close> The allocators hand out disjoint regions and account for them, and an object is
  valid exactly while something holds it; eviction terminates and disturbs nothing in use; the
  policies propose what they should; the backends return what was put, within their size; keys and
  headers survive printing and parsing; equal keys mean equal token prefixes; the remote cache is a
  map; the registry, the incremental stream and the full sync bring the controller to the keys of the
  cache. On a worker with the CPU cache, what is stored a lookup reports and a retrieve brings back with
  the same bytes and no reference left over, and after any sequence of requests every key has the bytes
  that belong to it. The semaphore of the loads keeps its budget, an event has one status at a time, and
  the read-write lock of the controller excludes and wakes everybody. In the multi-process storage manager
  every key and object has one owner in every interleaving, a reservation returns, and what was looked up
  stays until its locks expire. The connector saves the tokens of a request in order and without gaps, loads
  what it announced, and a prompt that one request saved reaches the GPU of the next byte for byte.
  Other theorems state what goes wrong, each on the code as it is: a second release of a page,
  a refused put, a removal during a save, an unread body, a layer key on the wire, lost batches of a
  sync, a reservation that fails, a lookup client that never answers, a preempted request with a full hit,
  a lost chunk that is not reported.

  \<^bold>\<open>Bounds and fuel.\<close> Every loop is a terminating recursion except waiting ones: allocation with
  eviction takes what other threads do while it waits as a finite list, and the attempts and polls of
  a full sync are the configured numbers. The recycling loop of the multi-process storage manager is a
  partial function that is shown to return.

  \<^bold>\<open>Not modelled.\<close> The layer by layer generators of the engine, the GPU connectors and kernels,
  compression and its coders, the other remote connectors and the remote, NIXL, GDS, P2P and PD backends,
  layers and blending in the vLLM connector, its multi-process variant and the one for SGLang, configuration, logging and metrics, the controller's sockets, the
  server of the multi-process mode; the experiment and plotting scripts of the repository. They are glue to
  devices, libraries and services, or have not been reached. What is left out inside a modelled file is
  said in the theory that models it.
\<close>

end
